(* ===== verification/Prelude.thy ===== *)
theory Prelude
  imports Main "HOL-Library.Word"
begin

unbundle bit_operations_syntax

text \<open>
  Shared vocabulary of the development: the C integer types of \<^verbatim>\<open>SYSTEM/sys/sys.h\<close>
  as fixed-width words, little-endian views of them, bit-by-bit views of bytes, and the
  generic facts on lists and words that the component theories use.

  Conventions.  A C function that updates globals is a function from the state before to the
  state after.  A loop is a recursive function on the number of iterations left.  A C
  expression that reads or writes outside an object has no defined value: the model returns
  \<^verbatim>\<open>None\<close> there, so that a theorem of the form \<^verbatim>\<open>f x = Some y\<close> also says that the code
  stays inside its objects.
\<close>

section \<open>C integer types\<close>

type_synonym u8 = "8 word"
type_synonym u16 = "16 word"
type_synonym u32 = "32 word"

named_theorems c_simps \<open>unfolding equations of small C helpers\<close>
named_theorems word_nat \<open>facts that move word arithmetic to nat\<close>

section \<open>Word arithmetic without wrap-around\<close>

lemma unat_plus_one_word [word_nat]:
  fixes c :: "'a::len word"
  assumes "unat c + 1 < 2 ^ LENGTH('a)"
  shows "unat (c + 1) = unat c + 1"
proof -
  have "c + 1 \<noteq> 0"
  proof
    assume "c + 1 = 0"
    then have "unat (c + 1) = 0" by simp
    then have "(unat c + 1) mod 2 ^ LENGTH('a) = 0"
      by (simp add: unat_word_ariths)
    with assms show False by simp
  qed
  then show ?thesis using assms by (simp add: unat_word_ariths)
qed

lemma unat_add_no_wrap [word_nat]:
  fixes a b :: "'a::len word"
  assumes "unat a + unat b < 2 ^ LENGTH('a)"
  shows "unat (a + b) = unat a + unat b"
  using assms by (simp add: unat_word_ariths)

lemma unat_mult_no_wrap [word_nat]:
  fixes a b :: "'a::len word"
  assumes "unat a * unat b < 2 ^ LENGTH('a)"
  shows "unat (a * b) = unat a * unat b"
  using assms by (simp add: unat_word_ariths)

lemma unat_of_nat_small [word_nat]:
  assumes "n < 2 ^ LENGTH('a::len)"
  shows "unat (of_nat n :: 'a word) = n"
  using assms by (simp add: unat_of_nat)

lemma unat_sub_le [word_nat]:
  fixes a b :: "'a::len word"
  assumes "unat b \<le> unat a"
  shows "unat (a - b) = unat a - unat b"
  using assms by (simp add: unat_sub word_le_nat_alt)

lemma unat_u8_bound [simp]: "unat (x :: u8) < 256"
  using unsigned_less [of x] by simp

lemma unat_u16_bound [simp]: "unat (x :: u16) < 65536"
  using unsigned_less [of x] by simp

lemma unat_u32_bound [simp]: "unat (x :: u32) < 4294967296"
  using unsigned_less [of x] by simp

section \<open>Lists updated by index\<close>

lemma nth_eqI:
  assumes "length xs = length ys" and "\<And>i. i < length ys \<Longrightarrow> xs ! i = ys ! i"
  shows "xs = ys"
  by (rule nth_equalityI) (simp_all add: assms)

lemma list_update_swap_ne:
  "i \<noteq> j \<Longrightarrow> xs[i := a, j := b] = xs[j := b, i := a]"
  by (rule list_update_swap)

section \<open>Bits and bytes\<close>

text \<open>Bytes as the eight bits in the order a serial bus transfers them, most significant
  first; and 16 and 32 bit integers in the byte order of the Cortex-M7 (little-endian).\<close>

definition msb_bits :: "u8 \<Rightarrow> bool list" where
  "msb_bits w = map (\<lambda>i. bit w (7 - i)) [0..<8]"

definition byte_of_msb :: "bool list \<Rightarrow> u8" where
  "byte_of_msb bs = foldl (\<lambda>acc b. 2 * acc + of_bool b) 0 bs"

definition le16 :: "u16 \<Rightarrow> u8 list" where
  "le16 w = [ucast w, ucast (drop_bit 8 w)]"

definition of_le16 :: "u8 \<Rightarrow> u8 \<Rightarrow> u16" where
  "of_le16 lo hi = ucast lo OR push_bit 8 (ucast hi)"

definition hi8 :: "u16 \<Rightarrow> u8" where "hi8 w = ucast (drop_bit 8 w)"
definition lo8 :: "u16 \<Rightarrow> u8" where "lo8 w = ucast w"

lemma msb_bits_unfold:
  "msb_bits w = [bit w 7, bit w 6, bit w 5, bit w 4, bit w 3, bit w 2, bit w 1, bit w 0]"
  by (simp add: msb_bits_def upt_rec)

lemma drop_bit_step: "2 * drop_bit (Suc k) w + of_bool (bit w k) = drop_bit k (w :: 'a::len word)"
proof -
  have "drop_bit (Suc k) w = drop_bit k w div 2" by (simp add: drop_bit_Suc drop_bit_half)
  moreover have "of_bool (bit w k) = drop_bit k w mod 2"
    by (simp add: bit_iff_odd_drop_bit odd_iff_mod_2_eq_one)
  ultimately show ?thesis by (simp add: mult_div_mod_eq)
qed

lemma byte_of_msb_bits: "byte_of_msb (msb_bits w) = w"
proof -
  have "of_bool (bit w 7) = drop_bit 7 w"
    using drop_bit_step [of 7 w] by (simp add: drop_bit_eq_zero_iff_not_bit_last)
  then show ?thesis
    using drop_bit_step [of 6 w] drop_bit_step [of 5 w] drop_bit_step [of 4 w] drop_bit_step [of 3 w]
      drop_bit_step [of 2 w] drop_bit_step [of 1 w] drop_bit_step [of 0 w]
    by (simp add: byte_of_msb_def msb_bits_unfold eval_nat_numeral)
qed

lemma length_msb_bits [simp]: "length (msb_bits w) = 8"
  by (simp add: msb_bits_def)

lemma u8_cases_bit: "(\<And>n. n < 8 \<Longrightarrow> bit (x :: u8) n = bit y n) \<Longrightarrow> x = y"
  by (rule bit_word_eqI) simp

lemma u16_cases_bit: "(\<And>n. n < 16 \<Longrightarrow> bit (x :: u16) n = bit y n) \<Longrightarrow> x = y"
  by (rule bit_word_eqI) simp

lemma of_le16_le16: "of_le16 (ucast w) (ucast (drop_bit 8 w)) = w"
  by (rule bit_word_eqI)
    (auto simp: of_le16_def bit_or_iff bit_push_bit_iff bit_ucast_iff bit_drop_bit_eq)

lemma ucast_of_le16_lo: "ucast (of_le16 lo hi) = lo"
  by (rule bit_word_eqI)
    (auto simp: of_le16_def bit_or_iff bit_push_bit_iff bit_ucast_iff)

lemma ucast_of_le16_hi: "ucast (drop_bit 8 (of_le16 lo hi)) = hi"
  by (rule bit_word_eqI)
    (auto simp: of_le16_def bit_or_iff bit_push_bit_iff bit_ucast_iff bit_drop_bit_eq
      dest: bit_imp_le_length)

lemma u8_u16_u8 [simp]: "(ucast (ucast (r :: u8) :: u16) :: u8) = r"
  by (rule bit_word_eqI) (auto simp: bit_ucast_iff)

lemma hi_lo_u16:
  "(ucast (ucast w :: u8) :: u16) + push_bit 8 (ucast (ucast (drop_bit 8 w) :: u8)) = w"
proof -
  have "(ucast (ucast w :: u8) :: u16) = take_bit 8 w"
    by (rule bit_word_eqI) (auto simp: bit_ucast_iff bit_take_bit_iff)
  moreover have "(ucast (ucast (drop_bit 8 w) :: u8) :: u16) = drop_bit 8 w"
    by (rule bit_word_eqI) (auto simp: bit_ucast_iff bit_drop_bit_eq dest: bit_imp_le_length)
  ultimately show ?thesis using bits_ident [of 8 w] by (simp add: add.commute)
qed

lemma join_bytes: "push_bit 8 (ucast h) + ucast l = of_le16 l h"
proof -
  have "push_bit 8 (ucast h) AND ucast l = (0 :: u16)"
    by (rule bit_word_eqI) (auto simp: bit_and_iff bit_push_bit_iff bit_ucast_iff dest: bit_imp_le_length)
  then show ?thesis by (simp add: of_le16_def disjunctive_add_eq_or or.commute)
qed

lemmas le16_simps = of_le16_le16 ucast_of_le16_lo ucast_of_le16_hi

end
