(* ===== verification/Mem_Pool.thy ===== *)
theory Mem_Pool
  imports Prelude
begin

text \<open>
  The memory manager of \<^verbatim>\<open>MALLOC/malloc.c\<close> and \<^verbatim>\<open>MALLOC/malloc.h\<close>: three pools of
  64-byte blocks, each described by a table with one word per block.  A table word is 0 for a
  free block and the length of the allocation (in blocks) for every block of an allocation.

  The theory holds the code's functions, the relation \<^verbatim>\<open>alloc_rel\<close> between a table and the
  abstract set of live allocations, and the proof that every function implements the operation
  on that set.  The interface that the clients use is the locale \<^verbatim>\<open>pool_alloc\<close>; it is
  interpreted on the functions of this theory at the end.
\<close>

section \<open>Configuration (malloc.h) and state\<close>

definition SRAMIN :: u8 where "SRAMIN = 0"
definition SRAMEX :: u8 where "SRAMEX = 1"
definition SRAMDTCM :: u8 where "SRAMDTCM = 2"

definition SRAMBANK :: nat where "SRAMBANK = 3"

definition memblksize :: "u32 list" where
  "memblksize = [64, 64, 64]"

definition memsize :: "u32 list" where
  "memsize = [160 * 1024, 28912 * 1024, 60 * 1024]"

definition memtblsize :: "u32 list" where
  "memtblsize = [160 * 1024 div 64, 28912 * 1024 div 64, 60 * 1024 div 64]"

text \<open>
  The controller \<^verbatim>\<open>mallco_dev\<close>.  Its function pointers \<^verbatim>\<open>init\<close> and \<^verbatim>\<open>perused\<close> are
  constant and are called directly.  \<^verbatim>\<open>membase\<close> holds the pools' addresses (the linker
  chooses the first one), \<^verbatim>\<open>memmap\<close> the tables, \<^verbatim>\<open>memrdy\<close> the ready flags.  \<^verbatim>\<open>ram\<close> is the
  byte-addressed memory in which the pools lie.
\<close>

record mallco =
  membase :: "u32 list"
  memmap :: "u32 list list"
  memrdy :: "u8 list"
  ram :: "u32 \<Rightarrow> u8"

section \<open>The functions of malloc.c\<close>

fun memcpy_loop :: "(u32 \<Rightarrow> u8) \<Rightarrow> u32 \<Rightarrow> u32 \<Rightarrow> nat \<Rightarrow> (u32 \<Rightarrow> u8)" where
  "memcpy_loop m xdes xsrc 0 = m"
| "memcpy_loop m xdes xsrc (Suc n) = memcpy_loop (m(xdes := m xsrc)) (xdes + 1) (xsrc + 1) n"

definition mymemcpy :: "(u32 \<Rightarrow> u8) \<Rightarrow> u32 \<Rightarrow> u32 \<Rightarrow> u32 \<Rightarrow> (u32 \<Rightarrow> u8)" where
  "mymemcpy m des src n = memcpy_loop m des src (unat n)"

fun memset_loop :: "(u32 \<Rightarrow> u8) \<Rightarrow> u32 \<Rightarrow> u8 \<Rightarrow> nat \<Rightarrow> (u32 \<Rightarrow> u8)" where
  "memset_loop m xs c 0 = m"
| "memset_loop m xs c (Suc n) = memset_loop (m(xs := c)) (xs + 1) c n"

definition mymemset :: "(u32 \<Rightarrow> u8) \<Rightarrow> u32 \<Rightarrow> u8 \<Rightarrow> u32 \<Rightarrow> (u32 \<Rightarrow> u8)" where
  "mymemset m s c count = memset_loop m s c (unat count)"

text \<open>Clearing the first \<^verbatim>\<open>count\<close> bytes of a table, as \<^verbatim>\<open>mymemset(memmap, 0, count)\<close> does
  (\<^verbatim>\<open>count\<close> is a multiple of the word size at its only call).\<close>

definition table_memset0 :: "u32 list \<Rightarrow> u32 \<Rightarrow> u32 list" where
  "table_memset0 t count = replicate (unat count div 4) 0 @ drop (unat count div 4) t"

definition my_mem_init :: "mallco \<Rightarrow> u8 \<Rightarrow> mallco" where
  "my_mem_init s memx =
     s\<lparr>memmap := (memmap s)[unat memx :=
          table_memset0 (memmap s ! unat memx) (memtblsize ! unat memx * 4)],
       memrdy := (memrdy s)[unat memx := 1]\<rparr>"

fun count_used :: "u32 list \<Rightarrow> nat \<Rightarrow> u32" where
  "count_used t 0 = 0"
| "count_used t (Suc i) = (if t ! i \<noteq> 0 then count_used t i + 1 else count_used t i)"

definition my_mem_perused :: "mallco \<Rightarrow> u8 \<Rightarrow> u16" where
  "my_mem_perused s memx =
     ucast ((count_used (memmap s ! unat memx) (unat (memtblsize ! unat memx)) * 1000)
            div (memtblsize ! unat memx))"

text \<open>The search loop of \<^verbatim>\<open>my_mem_malloc\<close>: \<^verbatim>\<open>offset\<close> runs from the last block down to 0 and
  \<^verbatim>\<open>cmemb\<close> counts the free blocks that end the part already seen.  The first argument counts
  the offsets left to visit, so that the offset of an iteration is one less.\<close>

fun find_run :: "u32 list \<Rightarrow> u32 \<Rightarrow> nat \<Rightarrow> u32 \<Rightarrow> nat option" where
  "find_run t nmemb 0 cmemb = None"
| "find_run t nmemb (Suc offset) cmemb =
     (let cmemb' = (if t ! offset = 0 then cmemb + 1 else 0)
      in if cmemb' = nmemb then Some offset else find_run t nmemb offset cmemb')"

text \<open>Storing \<^verbatim>\<open>v\<close> in \<^verbatim>\<open>n\<close> consecutive table words from index \<^verbatim>\<open>i\<close>; \<^verbatim>\<open>None\<close> when a store
  falls outside the table.\<close>

fun store_run :: "u32 list \<Rightarrow> nat \<Rightarrow> u32 \<Rightarrow> nat \<Rightarrow> u32 list option" where
  "store_run t i v 0 = Some t"
| "store_run t i v (Suc n) = (if i < length t then store_run (t[i := v]) (Suc i) v n else None)"

definition my_mem_malloc :: "mallco \<Rightarrow> u8 \<Rightarrow> u32 \<Rightarrow> (u32 \<times> mallco) option" where
  "my_mem_malloc s0 memx sz =
     (let s = (if memrdy s0 ! unat memx = 0 then my_mem_init s0 memx else s0);
          t = memmap s ! unat memx;
          blk = memblksize ! unat memx;
          nmemb = sz div blk + (if sz mod blk \<noteq> 0 then 1 else 0)
      in if sz = 0 then Some (0xFFFFFFFF, s)
         else case find_run t nmemb (unat (memtblsize ! unat memx)) 0 of
                None \<Rightarrow> Some (0xFFFFFFFF, s)
              | Some offset \<Rightarrow>
                  (case store_run t offset nmemb (unat nmemb) of
                     None \<Rightarrow> None
                   | Some t' \<Rightarrow> Some (of_nat offset * blk,
                                    s\<lparr>memmap := (memmap s)[unat memx := t']\<rparr>)))"

text \<open>\<^verbatim>\<open>nmemb\<close> is an \<^verbatim>\<open>int\<close> here: the table word is read as a signed number and the loop
  does not run when it is negative.\<close>

definition my_mem_free :: "mallco \<Rightarrow> u8 \<Rightarrow> u32 \<Rightarrow> (u8 \<times> mallco) option" where
  "my_mem_free s memx offset =
     (if memrdy s ! unat memx = 0 then Some (1, my_mem_init s memx)
      else if offset < memsize ! unat memx then
        (let index = unat (offset div (memblksize ! unat memx));
             t = memmap s ! unat memx;
             nmemb = sint (t ! index)
         in case store_run t index 0 (nat nmemb) of
              None \<Rightarrow> None
            | Some t' \<Rightarrow> Some (0, s\<lparr>memmap := (memmap s)[unat memx := t']\<rparr>))
      else Some (2, s))"

definition myfree :: "mallco \<Rightarrow> u8 \<Rightarrow> u32 \<Rightarrow> mallco option" where
  "myfree s memx ptr =
     (if ptr = 0 then Some s
      else map_option snd (my_mem_free s memx (ptr - membase s ! unat memx)))"

definition mymalloc :: "mallco \<Rightarrow> u8 \<Rightarrow> u32 \<Rightarrow> (u32 \<times> mallco) option" where
  "mymalloc s memx sz =
     (case my_mem_malloc s memx sz of
        None \<Rightarrow> None
      | Some (offset, s') \<Rightarrow>
          Some (if offset = 0xFFFFFFFF then 0 else membase s' ! unat memx + offset, s'))"

definition myrealloc :: "mallco \<Rightarrow> u8 \<Rightarrow> u32 \<Rightarrow> u32 \<Rightarrow> (u32 \<times> mallco) option" where
  "myrealloc s memx ptr sz =
     (case my_mem_malloc s memx sz of
        None \<Rightarrow> None
      | Some (offset, s1) \<Rightarrow>
          if offset = 0xFFFFFFFF then Some (0, s1)
          else (let new = membase s1 ! unat memx + offset;
                    s2 = s1\<lparr>ram := mymemcpy (ram s1) new ptr sz\<rparr>
                in case myfree s2 memx ptr of
                     None \<Rightarrow> None
                   | Some s3 \<Rightarrow> Some (new, s3)))"

section \<open>Facts about the configuration\<close>

lemma banks_lt [simp]: "unat SRAMIN < 3" "unat SRAMEX < 3" "unat SRAMDTCM < 3"
  by (simp_all add: SRAMIN_def SRAMEX_def SRAMDTCM_def)

lemma less_3_cases: "(k :: nat) < 3 \<Longrightarrow> k = 0 \<or> k = 1 \<or> k = 2"
  by arith

lemma blksize_nth [simp]: "k < 3 \<Longrightarrow> memblksize ! k = 64"
  by (drule less_3_cases) (auto simp: memblksize_def)

lemma tblsize_cases:
  "k < 3 \<Longrightarrow> memtblsize ! k = 2560 \<or> memtblsize ! k = 462592 \<or> memtblsize ! k = 960"
  by (drule less_3_cases) (auto simp: memtblsize_def)

lemma tblsize_bounds:
  assumes "k < 3"
  shows "0 < unat (memtblsize ! k)" and "unat (memtblsize ! k) \<le> 462592"
  using tblsize_cases [OF assms] by auto

lemma memsize_tblsize: "k < 3 \<Longrightarrow> unat (memsize ! k) = unat (memtblsize ! k) * 64"
  by (drule less_3_cases) (auto simp: memtblsize_def memsize_def)

section \<open>Loops\<close>

lemma store_run_Some:
  "store_run t i v n = Some t' \<longleftrightarrow>
     i + n \<le> length t \<and> t' = take i t @ replicate n v @ drop (i + n) t \<or> n = 0 \<and> t' = t"
proof (induction n arbitrary: t i)
  case 0
  then show ?case by auto
next
  case (Suc n)
  show ?case
  proof (cases "i < length t")
    case True
    have *: "take (Suc i) (t[i := v]) @ replicate n v @ drop (Suc (i + n)) (t[i := v])
        = take i t @ replicate (Suc n) v @ drop (i + Suc n) t"
      using True by (simp add: take_Suc_conv_app_nth replicate_append_same)
    show ?thesis
    proof (cases "n = 0")
      case True
      with \<open>i < length t\<close> show ?thesis
        by (auto simp: upd_conv_take_nth_drop)
    next
      case False
      with True * show ?thesis by (auto simp: Suc.IH)
    qed
  next
    case False
    then show ?thesis by simp
  qed
qed

lemma store_run_in_bounds:
  assumes "i + n \<le> length t"
  shows "store_run t i v n = Some (take i t @ replicate n v @ drop (i + n) t)"
  using assms by (simp add: store_run_Some)

lemma store_run_out_of_bounds:
  "length t < i + n \<Longrightarrow> 0 < n \<Longrightarrow> store_run t i v n = None"
  by (cases "store_run t i v n") (auto simp: store_run_Some)

lemma nth_filled_run:
  assumes "i + n \<le> length t" "j < length t"
  shows "(take i t @ replicate n v @ drop (i + n) t) ! j = (if i \<le> j \<and> j < i + n then v else t ! j)"
  using assms by (auto simp: nth_append)

lemma length_filled_run:
  "i + n \<le> length t \<Longrightarrow> length (take i t @ replicate n v @ drop (i + n) t) = length t"
  by simp

definition free_run :: "u32 list \<Rightarrow> nat \<Rightarrow> nat \<Rightarrow> bool" where
  "free_run t i n \<longleftrightarrow> i + n \<le> length t \<and> (\<forall>j. i \<le> j \<longrightarrow> j < i + n \<longrightarrow> t ! j = 0)"

definition scanned :: "u32 list \<Rightarrow> nat \<Rightarrow> nat \<Rightarrow> nat \<Rightarrow> bool" where
  "scanned t n k c \<longleftrightarrow> k + c \<le> length t \<and> c < n \<and> (\<forall>j. k \<le> j \<longrightarrow> j < k + c \<longrightarrow> t ! j = 0)
     \<and> (k + c < length t \<longrightarrow> t ! (k + c) \<noteq> 0) \<and> (\<forall>i\<ge>k. \<not> free_run t i n)"

lemma scanned_step_free:
  assumes "scanned t n (Suc k) c" "t ! k = 0" "Suc c < n"
  shows "scanned t n k (Suc c)"
proof -
  have "\<not> free_run t i n" if "k \<le> i" for i
  proof (cases "i = k")
    case True
    show ?thesis
    proof
      assume "free_run t i n"
      then have "k + n \<le> length t" "\<forall>j. k \<le> j \<longrightarrow> j < k + n \<longrightarrow> t ! j = 0"
        using True by (auto simp: free_run_def)
      moreover have "k + Suc c < k + n" using assms(3) by simp
      ultimately show False using assms(1)
        by (auto simp: scanned_def dest: spec [where x = "k + Suc c"])
    qed
  next
    case False
    with that assms(1) show ?thesis by (auto simp: scanned_def)
  qed
  with assms show ?thesis
    by (auto simp: scanned_def le_Suc_eq less_Suc_eq_le Suc_le_eq) (metis le_eq_less_or_eq)+
qed

lemma scanned_step_used:
  assumes "scanned t n (Suc k) c" "t ! k \<noteq> 0"
  shows "scanned t n k 0"
proof -
  have "\<not> free_run t i n" if "k \<le> i" for i
    using that assms by (cases "i = k") (auto simp: scanned_def free_run_def)
  with assms show ?thesis by (auto simp: scanned_def)
qed

lemma find_run_correct:
  assumes "scanned t (unat n) k (unat c)" "length t < 2 ^ 32" "0 < unat n"
  shows "case find_run t n k c of
           None \<Rightarrow> \<forall>i. \<not> free_run t i (unat n)
         | Some i \<Rightarrow> free_run t i (unat n) \<and> (\<forall>i'>i. \<not> free_run t i' (unat n))"
  using assms
proof (induction k arbitrary: c)
  case 0
  then show ?case by (simp add: scanned_def)
next
  case (Suc k)
  have len: "Suc k + unat c \<le> length t" and lt: "unat c < unat n"
    using Suc.prems(1) by (auto simp: scanned_def)
  show ?case
  proof (cases "t ! k = 0")
    case True
    have c1: "unat (c + 1) = unat c + 1"
      using len Suc.prems(2) by (intro unat_plus_one_word) simp
    show ?thesis
    proof (cases "c + 1 = n")
      case True
      then have "unat n = Suc (unat c)" using c1 by auto
      have "t ! j = 0" if "k \<le> j" "j < k + unat n" for j
        using that Suc.prems(1) \<open>t ! k = 0\<close> \<open>unat n = Suc (unat c)\<close>
        by (cases "j = k") (auto simp: scanned_def)
      then have "free_run t k (unat n)"
        using len \<open>unat n = Suc (unat c)\<close> by (simp add: free_run_def)
      moreover have "\<not> free_run t i' (unat n)" if "k < i'" for i'
        using Suc.prems(1) that by (auto simp: scanned_def)
      ultimately show ?thesis using True \<open>t ! k = 0\<close> by simp
    next
      case False
      then have "Suc (unat c) < unat n"
        using lt c1 word_unat_eq_iff [of "c + 1" n] by simp
      then have "scanned t (unat n) k (unat (c + 1))"
        using scanned_step_free [OF Suc.prems(1) True] c1 by simp
      then show ?thesis using Suc.IH Suc.prems(2,3) True False by simp
    qed
  next
    case False
    moreover have "n \<noteq> 0" using Suc.prems(3) by auto
    moreover have "scanned t (unat n) k (unat (0 :: u32))"
      using scanned_step_used [OF Suc.prems(1) False] by simp
    ultimately show ?thesis using Suc.IH [of 0] Suc.prems(2,3) by (simp add: Let_def)
  qed
qed

lemma scanned_start: "0 < n \<Longrightarrow> scanned t n (length t) 0"
  by (auto simp: scanned_def free_run_def)

section \<open>Tables and the live allocations they describe\<close>

type_synonym block = "nat \<times> nat"

definition in_block :: "block \<Rightarrow> nat \<Rightarrow> bool" where
  "in_block b j \<longleftrightarrow> fst b \<le> j \<and> j < fst b + snd b"

definition separate :: "block \<Rightarrow> block \<Rightarrow> bool" where
  "separate b b' \<longleftrightarrow> fst b + snd b \<le> fst b' \<or> fst b' + snd b' \<le> fst b"

definition alloc_rel :: "u32 list \<Rightarrow> block set \<Rightarrow> bool" where
  "alloc_rel t B \<longleftrightarrow>
     (\<forall>b\<in>B. 0 < snd b \<and> fst b + snd b \<le> length t) \<and>
     (\<forall>b\<in>B. \<forall>b'\<in>B. b \<noteq> b' \<longrightarrow> separate b b') \<and>
     (\<forall>b\<in>B. \<forall>j. in_block b j \<longrightarrow> t ! j = of_nat (snd b)) \<and>
     (\<forall>j<length t. (\<forall>b\<in>B. \<not> in_block b j) \<longrightarrow> t ! j = 0)"

lemma separate_sym: "separate b b' \<longleftrightarrow> separate b' b"
  by (auto simp: separate_def)

lemma alloc_rel_empty: "alloc_rel (replicate n 0) {}"
  by (simp add: alloc_rel_def)

lemma alloc_relD:
  assumes "alloc_rel t B" "b \<in> B"
  shows "0 < snd b" "fst b + snd b \<le> length t" "in_block b j \<Longrightarrow> t ! j = of_nat (snd b)"
    "b' \<in> B \<Longrightarrow> b \<noteq> b' \<Longrightarrow> separate b b'"
  using assms by (auto simp: alloc_rel_def)

lemma block_word_nonzero:
  assumes "0 < n" "n < 2 ^ 31"
  shows "(of_nat n :: u32) \<noteq> 0" and "sint (of_nat n :: u32) = int n"
proof -
  have u: "unat (of_nat n :: u32) = n" using assms by (simp add: unat_of_nat_small)
  then show "(of_nat n :: u32) \<noteq> 0" using assms(1) by auto
  show "sint (of_nat n :: u32) = int n"
    using assms by (simp add: signed_of_nat signed_take_bit_int_eq_self)
qed

text \<open>A free run overlaps no live allocation.\<close>

lemma free_run_separate:
  assumes "alloc_rel t B" "length t < 2 ^ 31" "free_run t i n" "0 < n" "b \<in> B"
  shows "separate (i, n) b"
proof (rule ccontr)
  assume "\<not> separate (i, n) b"
  then have lt: "fst b < i + n" "i < fst b + snd b" by (auto simp: separate_def)
  define j where "j = max i (fst b)"
  have pos: "0 < snd b" "fst b + snd b \<le> length t" using alloc_relD [OF assms(1,5)] by auto
  then have "in_block b j" "i \<le> j" "j < i + n"
    using lt assms(4) by (auto simp: in_block_def j_def)
  then have "t ! j = of_nat (snd b)" "t ! j = 0"
    using alloc_relD(3) [OF assms(1,5)] assms(3) by (auto simp: free_run_def)
  moreover have "(of_nat (snd b) :: u32) \<noteq> 0"
    using pos assms(2) by (intro block_word_nonzero) auto
  ultimately show False by simp
qed

lemma separate_not_in:
  "separate b b' \<Longrightarrow> in_block b j \<Longrightarrow> \<not> in_block b' j"
  by (auto simp: separate_def in_block_def)

text \<open>Marking a free run adds an allocation; clearing an allocation removes it.\<close>

lemma alloc_rel_insert:
  assumes rel: "alloc_rel t B" and len: "length t < 2 ^ 31"
    and free: "free_run t i n" and n: "0 < n"
  shows "alloc_rel (take i t @ replicate n (of_nat n) @ drop (i + n) t) (insert (i, n) B)"
proof -
  let ?t = "take i t @ replicate n (of_nat n) @ drop (i + n) t"
  have le: "i + n \<le> length t" using free by (simp add: free_run_def)
  have l: "length ?t = length t" using le by simp
  note nth = nth_filled_run [OF le, where v = "of_nat n"]
  have sep: "separate (i, n) b" if "b \<in> B" for b
    using free_run_separate [OF rel len free n that] .
  have word: "?t ! j = of_nat (snd b)" if "b \<in> insert (i, n) B" "in_block b j" for b j
  proof (cases "b = (i, n)")
    case True
    then show ?thesis using that le nth [of j] by (auto simp: in_block_def)
  next
    case False
    then have b: "b \<in> B" using that by simp
    have "j < length t" using alloc_relD(2) [OF rel b] that by (auto simp: in_block_def)
    moreover have "\<not> (i \<le> j \<and> j < i + n)"
      using separate_not_in [OF iffD1 [OF separate_sym sep [OF b]] that(2)]
      by (auto simp: in_block_def)
    ultimately show ?thesis using nth [of j] alloc_relD(3) [OF rel b that(2)] by auto
  qed
  have "?t ! j = 0" if "j < length t" "\<forall>b\<in>insert (i, n) B. \<not> in_block b j" for j
  proof -
    have "\<not> (i \<le> j \<and> j < i + n)" using that by (auto simp: in_block_def)
    then show ?thesis using nth [of j] rel that by (auto simp: alloc_rel_def)
  qed
  with word show ?thesis
    using rel le n sep l by (auto simp: alloc_rel_def separate_sym)
qed

lemma alloc_rel_remove:
  assumes rel: "alloc_rel t B" and b: "(i, n) \<in> B"
  shows "alloc_rel (take i t @ replicate n 0 @ drop (i + n) t) (B - {(i, n)})"
proof -
  let ?t = "take i t @ replicate n 0 @ drop (i + n) t"
  have le: "i + n \<le> length t" using alloc_relD(2) [OF rel b] by simp
  have l: "length ?t = length t" using le by simp
  note nth = nth_filled_run [OF le, where v = 0]
  have word: "?t ! j = of_nat (snd b')" if "b' \<in> B - {(i, n)}" "in_block b' j" for b' j
  proof -
    have b': "b' \<in> B" and "separate b' (i, n)"
      using that alloc_relD(4) [OF rel, of b' "(i, n)"] b by auto
    then have "\<not> (i \<le> j \<and> j < i + n)"
      using separate_not_in that(2) by (fastforce simp: in_block_def)
    moreover have "j < length t" using alloc_relD(2) [OF rel b'] that by (auto simp: in_block_def)
    ultimately show ?thesis using nth [of j] alloc_relD(3) [OF rel b' that(2)] by auto
  qed
  have "?t ! j = 0" if "j < length t" "\<forall>b'\<in>B - {(i, n)}. \<not> in_block b' j" for j
  proof (cases "i \<le> j \<and> j < i + n")
    case True
    then show ?thesis using nth [OF that(1)] by simp
  next
    case False
    then have "\<forall>b'\<in>B. \<not> in_block b' j" using that(2) by (auto simp: in_block_def)
    then show ?thesis using nth [OF that(1)] False rel that(1) by (auto simp: alloc_rel_def)
  qed
  with word show ?thesis using rel l by (auto simp: alloc_rel_def)
qed

text \<open>The table determines the allocations: the relation is functional.\<close>

lemma alloc_rel_same:
  assumes rel: "alloc_rel t B" and rel': "alloc_rel t B'" and len: "length t < 2 ^ 31"
    and below: "\<And>k m. k < i \<Longrightarrow> (k, m) \<in> B \<longleftrightarrow> (k, m) \<in> B'" and b: "(i, n) \<in> B"
  shows "(i, n) \<in> B'"
proof -
  have n: "0 < n" "i + n \<le> length t" using alloc_relD(1,2) [OF rel b] by auto
  then have ti: "t ! i = of_nat n" using alloc_relD(3) [OF rel b, of i] by (simp add: in_block_def)
  moreover have "(of_nat n :: u32) \<noteq> 0" using n len by (intro block_word_nonzero) auto
  ultimately have "\<exists>b\<in>B'. in_block b i"
    using rel' n unfolding alloc_rel_def by (metis add_lessD1 le_neq_implies_less less_add_same_cancel1)
  then obtain k m where b': "(k, m) \<in> B'" "in_block (k, m) i" by auto
  then have "of_nat m = (of_nat n :: u32)" using alloc_relD(3) [OF rel' b'(1) b'(2)] ti by simp
  moreover have "m \<le> length t" using alloc_relD(2) [OF rel' b'(1)] by simp
  ultimately have "m = n" using n len block_word_nonzero(2) [of n] block_word_nonzero(2) [of m]
      alloc_relD(1) [OF rel' b'(1)] by simp
  have "k = i"
  proof (rule ccontr)
    assume "k \<noteq> i"
    then have "k < i" using b'(2) by (simp add: in_block_def)
    then have "(k, n) \<in> B" using below b'(1) \<open>m = n\<close> by blast
    with b \<open>k \<noteq> i\<close> have "separate (k, n) (i, n)" using alloc_relD(4) [OF rel, of "(k, n)" "(i, n)"] by simp
    with b'(2) \<open>m = n\<close> n \<open>k < i\<close> show False by (auto simp: separate_def in_block_def)
  qed
  with b' \<open>m = n\<close> show ?thesis by simp
qed

lemma alloc_rel_unique:
  assumes "alloc_rel t B" "alloc_rel t B'" "length t < 2 ^ 31"
  shows "B = B'"
proof -
  have "(i, n) \<in> B \<longleftrightarrow> (i, n) \<in> B'" for i n
  proof (induction i arbitrary: n rule: less_induct)
    case (less i)
    then show ?case
      using alloc_rel_same [OF assms(1,2,3)] alloc_rel_same [OF assms(2,1,3)] by blast
  qed
  then show ?thesis by auto
qed

section \<open>The invariant of the controller\<close>

text \<open>\<^verbatim>\<open>mallco_inv s A\<close>: the controller is well-formed and \<^verbatim>\<open>A\<close> gives the live allocations of
  each pool, as pairs of first block and number of blocks.  A pool that is not ready has none
  and its table may hold anything.\<close>

definition bank_ok :: "mallco \<Rightarrow> nat \<Rightarrow> bool" where
  "bank_ok s k \<longleftrightarrow> length (memmap s ! k) = unat (memtblsize ! k) \<and> membase s ! k \<noteq> 0 \<and>
     unat (membase s ! k) + unat (memsize ! k) < 2 ^ 32"

definition mallco_inv :: "mallco \<Rightarrow> (u8 \<Rightarrow> block set) \<Rightarrow> bool" where
  "mallco_inv s A \<longleftrightarrow>
     length (membase s) = 3 \<and> length (memmap s) = 3 \<and> length (memrdy s) = 3 \<and>
     (\<forall>k<3. bank_ok s k) \<and>
     (\<forall>m. unat m < 3 \<longrightarrow>
        (if memrdy s ! unat m = 0 then A m = {} else alloc_rel (memmap s ! unat m) (A m)))"

definition nblocks :: "u32 \<Rightarrow> nat" where
  "nblocks sz = (unat sz + 63) div 64"

lemma nblocks_pos: "sz \<noteq> 0 \<Longrightarrow> 0 < nblocks sz"
  unfolding nblocks_def using unat_eq_zero [of sz] by arith

lemma div64_round_up:
  fixes x :: nat
  shows "(x + 63) div 64 = x div 64 + (if x mod 64 \<noteq> 0 then 1 else 0)"
proof -
  obtain q r where x: "x = 64 * q + r" "r < 64"
    using mod_less_divisor [of 64 x] mult_div_mod_eq [of 64 x] by (metis zero_less_numeral)
  then have "(x + 63) div 64 = q + (r + 63) div 64" by simp
  moreover have "(r + 63) div 64 = (if r \<noteq> 0 then 1 else 0)" using x(2) by auto
  ultimately show ?thesis using x by simp
qed

lemma nblocks_word:
  "unat (sz div 64 + (if sz mod 64 \<noteq> 0 then 1 else 0) :: u32) = nblocks sz"
proof -
  have d: "unat (sz div 64) = unat sz div 64" "unat (sz mod 64) = unat sz mod 64"
    by (simp_all add: unat_div unat_mod)
  have "unat sz < 4294967296" by simp
  then have "unat sz div 64 + 1 < 4294967296" by arith
  then have small: "unat sz div 64 + 1 < 2 ^ 32" by simp
  show ?thesis
  proof (cases "sz mod 64 = 0")
    case True
    then have "unat sz mod 64 = 0" using d(2) by simp
    then have "(unat sz + 63) div 64 = unat sz div 64" by (simp add: div64_round_up)
    with True d show ?thesis by (simp add: nblocks_def)
  next
    case False
    then have "unat sz mod 64 \<noteq> 0" using d(2) by (metis unat_eq_zero)
    then have "(unat sz + 63) div 64 = unat sz div 64 + 1" by (simp add: div64_round_up)
    moreover have "unat (sz div 64 + 1) = unat sz div 64 + 1"
      using small d by (subst unat_plus_one_word) simp_all
    ultimately show ?thesis using False by (simp add: nblocks_def)
  qed
qed

lemma table_memset0_full:
  assumes "k < 3" "length t = unat (memtblsize ! k)"
  shows "table_memset0 t (memtblsize ! k * 4) = replicate (length t) 0"
  using tblsize_cases [OF assms(1)] assms(2) by (auto simp: table_memset0_def)

lemma mallco_invD:
  assumes "mallco_inv s A"
  shows "length (membase s) = 3" "length (memmap s) = 3" "length (memrdy s) = 3"
    "k < 3 \<Longrightarrow> length (memmap s ! k) = unat (memtblsize ! k)"
    "k < 3 \<Longrightarrow> membase s ! k \<noteq> 0"
    "k < 3 \<Longrightarrow> unat (membase s ! k) + unat (memsize ! k) < 2 ^ 32"
    "unat m < 3 \<Longrightarrow> memrdy s ! unat m = 0 \<Longrightarrow> A m = {}"
    "unat m < 3 \<Longrightarrow> memrdy s ! unat m \<noteq> 0 \<Longrightarrow> alloc_rel (memmap s ! unat m) (A m)"
  using assms by (auto simp: mallco_inv_def bank_ok_def split: if_splits)

lemma table_len_small: "mallco_inv s A \<Longrightarrow> k < 3 \<Longrightarrow> length (memmap s ! k) < 2 ^ 31"
  using mallco_invD(4) [of s A k] tblsize_bounds(2) [of k] by simp

lemma mallco_invI:
  assumes "length (membase s) = 3" "length (memmap s) = 3" "length (memrdy s) = 3"
    and "\<And>k. k < 3 \<Longrightarrow> bank_ok s k"
    and "\<And>m. unat m < 3 \<Longrightarrow> memrdy s ! unat m = 0 \<Longrightarrow> A m = {}"
    and "\<And>m. unat m < 3 \<Longrightarrow> memrdy s ! unat m \<noteq> 0 \<Longrightarrow> alloc_rel (memmap s ! unat m) (A m)"
  shows "mallco_inv s A"
  using assms by (simp add: mallco_inv_def)

lemma inv_update_table:
  assumes inv: "mallco_inv s A" and m: "unat m < 3" and rdy: "memrdy s ! unat m \<noteq> 0"
    and len: "length t = length (memmap s ! unat m)" and rel: "alloc_rel t B"
  shows "mallco_inv (s\<lparr>memmap := (memmap s)[unat m := t]\<rparr>) (A(m := B))"
proof (rule mallco_invI)
  let ?s = "s\<lparr>memmap := (memmap s)[unat m := t]\<rparr>"
  show "length (membase ?s) = 3" "length (memmap ?s) = 3" "length (memrdy ?s) = 3"
    using mallco_invD(1-3) [OF inv] by simp_all
  show "bank_ok ?s k" if "k < 3" for k
    using inv len that by (cases "k = unat m") (auto simp: mallco_inv_def bank_ok_def)
  fix m' :: u8
  assume m': "unat m' < 3"
  show "(A(m := B)) m' = {}" if "memrdy ?s ! unat m' = 0"
    using that rdy mallco_invD(7) [OF inv m'] by auto
  show "alloc_rel (memmap ?s ! unat m') ((A(m := B)) m')" if "memrdy ?s ! unat m' \<noteq> 0"
    using that rel m mallco_invD(2,8) [OF inv] m' by (cases "m' = m") (auto simp: word_unat_eq_iff)
qed

lemma my_mem_init_eq:
  assumes inv: "mallco_inv s A" and m: "unat m < 3"
  shows "my_mem_init s m =
    s\<lparr>memmap := (memmap s)[unat m := replicate (unat (memtblsize ! unat m)) 0],
      memrdy := (memrdy s)[unat m := 1]\<rparr>"
  using table_memset0_full [OF m mallco_invD(4) [OF inv m]] mallco_invD(4) [OF inv m]
  by (simp add: my_mem_init_def)

lemma my_mem_init_inv:
  assumes inv: "mallco_inv s A" and m: "unat m < 3"
  shows "mallco_inv (my_mem_init s m) (A(m := {}))"
    and "memrdy (my_mem_init s m) ! unat m \<noteq> 0"
    and "memmap (my_mem_init s m) ! unat m = replicate (unat (memtblsize ! unat m)) 0"
    and "membase (my_mem_init s m) = membase s" and "ram (my_mem_init s m) = ram s"
proof -
  note eq = my_mem_init_eq [OF inv m] and D = mallco_invD [OF inv]
  show "memrdy (my_mem_init s m) ! unat m \<noteq> 0"
    "memmap (my_mem_init s m) ! unat m = replicate (unat (memtblsize ! unat m)) 0"
    "membase (my_mem_init s m) = membase s" "ram (my_mem_init s m) = ram s"
    using D(2,3) m by (simp_all add: eq)
  show "mallco_inv (my_mem_init s m) (A(m := {}))"
  proof (rule mallco_invI)
    show "length (membase (my_mem_init s m)) = 3" "length (memmap (my_mem_init s m)) = 3"
      "length (memrdy (my_mem_init s m)) = 3"
      using D(1-3) by (simp_all add: eq)
    show "bank_ok (my_mem_init s m) k" if "k < 3" for k
      using inv that by (cases "k = unat m") (auto simp: eq mallco_inv_def bank_ok_def)
    fix m' :: u8
    assume m': "unat m' < 3"
    show "(A(m := {})) m' = {}" if "memrdy (my_mem_init s m) ! unat m' = 0"
      using that D(3) D(7) [OF m'] m by (cases "m' = m") (auto simp: eq word_unat_eq_iff)
    show "alloc_rel (memmap (my_mem_init s m) ! unat m') ((A(m := {})) m')"
      if "memrdy (my_mem_init s m) ! unat m' \<noteq> 0"
      using that D(2,3) D(8) [OF m'] m
      by (cases "m' = m") (auto simp: eq word_unat_eq_iff alloc_rel_empty)
  qed
qed

text \<open>A request first makes the pool ready.\<close>

definition ensure_ready :: "mallco \<Rightarrow> u8 \<Rightarrow> mallco" where
  "ensure_ready s m = (if memrdy s ! unat m = 0 then my_mem_init s m else s)"

lemma ensure_ready_inv:
  assumes "mallco_inv s A" "unat m < 3"
  shows "mallco_inv (ensure_ready s m) A" and "memrdy (ensure_ready s m) ! unat m \<noteq> 0"
    and "membase (ensure_ready s m) = membase s" and "ram (ensure_ready s m) = ram s"
proof -
  have "memrdy s ! unat m = 0 \<Longrightarrow> A(m := {}) = A"
    using mallco_invD(7) [OF assms] by (simp add: fun_upd_idem)
  then show "mallco_inv (ensure_ready s m) A"
    using my_mem_init_inv(1) [OF assms] assms by (auto simp: ensure_ready_def)
  show "memrdy (ensure_ready s m) ! unat m \<noteq> 0" "membase (ensure_ready s m) = membase s"
    "ram (ensure_ready s m) = ram s"
    using my_mem_init_inv [OF assms] by (auto simp: ensure_ready_def)
qed

lemma mallco_inv_ram [simp]: "mallco_inv (s\<lparr>ram := r\<rparr>) A = mallco_inv s A"
  by (simp add: mallco_inv_def bank_ok_def)

section \<open>Allocation\<close>

lemma my_mem_malloc_zero:
  "my_mem_malloc s m 0 = Some (0xFFFFFFFF, ensure_ready s m)"
  by (simp add: my_mem_malloc_def ensure_ready_def)

lemma my_mem_malloc_none:
  assumes inv: "mallco_inv s A" and m: "unat m < 3" and "sz \<noteq> 0"
    and none: "\<And>i. \<not> free_run (memmap (ensure_ready s m) ! unat m) i (nblocks sz)"
  shows "my_mem_malloc s m sz = Some (0xFFFFFFFF, ensure_ready s m)"
proof -
  note inv' = ensure_ready_inv(1) [OF inv m]
  let ?t = "memmap (ensure_ready s m) ! unat m"
  let ?n = "sz div 64 + (if sz mod 64 \<noteq> 0 then 1 else 0)"
  have len: "length ?t = unat (memtblsize ! unat m)" "length ?t < 2 ^ 32"
    using mallco_invD(4) [OF inv' m] by simp_all
  have "case find_run ?t ?n (length ?t) 0 of
           None \<Rightarrow> \<forall>i. \<not> free_run ?t i (unat ?n)
         | Some i \<Rightarrow> free_run ?t i (unat ?n) \<and> (\<forall>i'>i. \<not> free_run ?t i' (unat ?n))"
    using scanned_start [of "unat ?n" ?t] nblocks_pos [OF \<open>sz \<noteq> 0\<close>] len
    by (intro find_run_correct) (simp_all only: nblocks_word, simp_all)
  then have "find_run ?t ?n (length ?t) 0 = None"
    using none unfolding nblocks_word by (cases "find_run ?t ?n (length ?t) 0") auto
  then show ?thesis
    using \<open>sz \<noteq> 0\<close> m len by (simp add: my_mem_malloc_def ensure_ready_def Let_def)
qed

lemma my_mem_malloc_some:
  assumes inv: "mallco_inv s A" and m: "unat m < 3" and "sz \<noteq> 0"
    and free: "free_run (memmap (ensure_ready s m) ! unat m) i0 (nblocks sz)"
  obtains i s' where
    "my_mem_malloc s m sz = Some (of_nat i * 64, s')"
    "mallco_inv s' (A(m := insert (i, nblocks sz) (A m)))"
    "\<And>b. b \<in> A m \<Longrightarrow> separate (i, nblocks sz) b"
    "i + nblocks sz \<le> unat (memtblsize ! unat m)"
    "free_run (memmap (ensure_ready s m) ! unat m) i (nblocks sz)"
    "\<And>i'. i < i' \<Longrightarrow> \<not> free_run (memmap (ensure_ready s m) ! unat m) i' (nblocks sz)"
    "membase s' = membase s" "ram s' = ram s"
    "s' = (ensure_ready s m)\<lparr>memmap := (memmap (ensure_ready s m))[unat m :=
        take i (memmap (ensure_ready s m) ! unat m) @ replicate (nblocks sz) (of_nat (nblocks sz)) @
        drop (i + nblocks sz) (memmap (ensure_ready s m) ! unat m)]\<rparr>"
proof -
  note inv' = ensure_ready_inv(1) [OF inv m] and rdy = ensure_ready_inv(2) [OF inv m]
  let ?s = "ensure_ready s m"
  let ?t = "memmap ?s ! unat m"
  let ?n = "sz div 64 + (if sz mod 64 \<noteq> 0 then 1 else 0)"
  have len: "length ?t = unat (memtblsize ! unat m)" "length ?t < 2 ^ 32"
    using mallco_invD(4) [OF inv' m] by simp_all
  have len31: "length ?t < 2 ^ 31" using len(1) tblsize_bounds(2) [OF m] by simp
  have rel: "alloc_rel ?t (A m)" using mallco_invD(8) [OF inv' m rdy] .
  have "case find_run ?t ?n (length ?t) 0 of
           None \<Rightarrow> \<forall>i. \<not> free_run ?t i (unat ?n)
         | Some i \<Rightarrow> free_run ?t i (unat ?n) \<and> (\<forall>i'>i. \<not> free_run ?t i' (unat ?n))"
    using scanned_start [of "unat ?n" ?t] nblocks_pos [OF \<open>sz \<noteq> 0\<close>] len
    by (intro find_run_correct) (simp_all only: nblocks_word, simp_all)
  then obtain i where i: "find_run ?t ?n (length ?t) 0 = Some i" "free_run ?t i (nblocks sz)"
      "\<And>i'. i < i' \<Longrightarrow> \<not> free_run ?t i' (nblocks sz)"
    using free unfolding nblocks_word by (cases "find_run ?t ?n (length ?t) 0") auto
  let ?t' = "take i ?t @ replicate (nblocks sz) ?n @ drop (i + nblocks sz) ?t"
  let ?s' = "?s\<lparr>memmap := (memmap ?s)[unat m := ?t']\<rparr>"
  have le: "i + nblocks sz \<le> length ?t" using i(2) by (simp add: free_run_def)
  have n: "?n = of_nat (nblocks sz)" unfolding nblocks_word [symmetric] by simp
  have mall: "my_mem_malloc s m sz = Some (of_nat i * 64, ?s')"
    using \<open>sz \<noteq> 0\<close> m len i(1) le store_run_in_bounds [OF le, of ?n] nblocks_word [of sz]
    by (simp add: my_mem_malloc_def ensure_ready_def [symmetric] Let_def)
  have "alloc_rel ?t' (insert (i, nblocks sz) (A m))"
    unfolding n by (rule alloc_rel_insert [OF rel len31 i(2) nblocks_pos [OF \<open>sz \<noteq> 0\<close>]])
  moreover have "length ?t' = length ?t" using le by simp
  ultimately have "mallco_inv ?s' (A(m := insert (i, nblocks sz) (A m)))"
    using inv_update_table [OF inv' m rdy] by blast
  moreover have "separate (i, nblocks sz) b" if "b \<in> A m" for b
    by (rule free_run_separate [OF rel len31 i(2) nblocks_pos [OF \<open>sz \<noteq> 0\<close>] that])
  ultimately show thesis
    using that [OF mall] i le len ensure_ready_inv(3,4) [OF inv m] n by simp
qed

section \<open>Release\<close>

lemma block_index:
  assumes "mallco_inv s A" "unat m < 3" "i < unat (memtblsize ! unat m)"
  shows "unat (of_nat i * 64 :: u32) = i * 64"
    and "unat ((of_nat i * 64) div 64 :: u32) = i"
    and "of_nat i * 64 < memsize ! unat m"
    and "unat (membase s ! unat m + of_nat i * 64) = unat (membase s ! unat m) + i * 64"
    and "of_nat i * 64 \<noteq> (0xFFFFFFFF :: u32)"
proof -
  have i: "i < 462592" using assms(3) tblsize_bounds(2) [OF assms(2)] by simp
  then have u: "unat (of_nat i :: u32) = i" by (simp add: unat_of_nat_small)
  then show m64: "unat (of_nat i * 64 :: u32) = i * 64"
    using i by (subst unat_mult_no_wrap) simp_all
  then show "unat ((of_nat i * 64) div 64 :: u32) = i" by (simp add: unat_div)
  show lt: "of_nat i * 64 < memsize ! unat m"
    using m64 assms(3) by (simp add: word_less_nat_alt memsize_tblsize [OF assms(2)])
  show "unat (membase s ! unat m + of_nat i * 64) = unat (membase s ! unat m) + i * 64"
    using mallco_invD(6) [OF assms(1,2)] lt m64 memsize_tblsize [OF assms(2)]
    by (subst unat_add_no_wrap) (simp_all add: word_less_nat_alt)
  show "of_nat i * 64 \<noteq> (0xFFFFFFFF :: u32)"
  proof
    assume "of_nat i * 64 = (0xFFFFFFFF :: u32)"
    then have "i * 64 = 4294967295" using m64 by simp
    with i show False by simp
  qed
qed

lemma live_block_bounds:
  assumes "mallco_inv s A" "unat m < 3" "(i, n) \<in> A m"
  shows "0 < n" "i + n \<le> unat (memtblsize ! unat m)" "i < unat (memtblsize ! unat m)"
    "memrdy s ! unat m \<noteq> 0" "alloc_rel (memmap s ! unat m) (A m)"
proof -
  show rdy: "memrdy s ! unat m \<noteq> 0" using mallco_invD(7) [OF assms(1,2)] assms(3) by auto
  show rel: "alloc_rel (memmap s ! unat m) (A m)" by (rule mallco_invD(8) [OF assms(1,2) rdy])
  show "0 < n" "i + n \<le> unat (memtblsize ! unat m)"
    using alloc_relD(1,2) [OF rel assms(3)] mallco_invD(4) [OF assms(1,2)] by auto
  then show "i < unat (memtblsize ! unat m)" by simp
qed

lemma my_mem_free_live:
  assumes inv: "mallco_inv s A" and m: "unat m < 3" and b: "(i, n) \<in> A m"
  obtains s' where "my_mem_free s m (of_nat i * 64) = Some (0, s')"
    "mallco_inv s' (A(m := A m - {(i, n)}))" "membase s' = membase s" "ram s' = ram s"
proof -
  note B = live_block_bounds [OF inv m b]
  note I = block_index [OF inv m B(3)]
  let ?t = "memmap s ! unat m"
  let ?t' = "take i ?t @ replicate n 0 @ drop (i + n) ?t"
  let ?s' = "s\<lparr>memmap := (memmap s)[unat m := ?t']\<rparr>"
  have len: "length ?t = unat (memtblsize ! unat m)" by (rule mallco_invD(4) [OF inv m])
  have "?t ! i = of_nat n"
    using alloc_relD(3) [OF B(5) b, of i] B(1) by (simp add: in_block_def)
  then have "nat (sint (?t ! i)) = n"
    using block_word_nonzero(2) [OF B(1)] B(2) tblsize_bounds(2) [OF m] by simp
  then have "my_mem_free s m (of_nat i * 64) = Some (0, ?s')"
    using B(2,4) I(2,3) m len store_run_in_bounds [of i n ?t 0]
    by (simp add: my_mem_free_def Let_def)
  moreover have "mallco_inv ?s' (A(m := A m - {(i, n)}))"
    using B(2) len by (intro inv_update_table [OF inv m B(4)] alloc_rel_remove [OF B(5) b]) simp
  ultimately show thesis using that by simp
qed

lemma my_mem_free_outside:
  "memrdy s ! unat m \<noteq> 0 \<Longrightarrow> memsize ! unat m \<le> off \<Longrightarrow> my_mem_free s m off = Some (2, s)"
  by (simp add: my_mem_free_def)

section \<open>Byte copies\<close>

lemma memcpy_loop_frame:
  "(\<And>j. j < n \<Longrightarrow> a \<noteq> d + of_nat j) \<Longrightarrow> memcpy_loop mem d src n a = mem a"
proof (induction n arbitrary: mem d src)
  case (Suc n)
  have "a \<noteq> d + 1 + of_nat j" if "j < n" for j
    using Suc.prems [of "Suc j"] that by (simp add: algebra_simps)
  moreover have "a \<noteq> d" using Suc.prems [of 0] by simp
  ultimately show ?case using Suc.IH by simp
qed simp

lemma of_nat_u32_inj:
  "j < 2 ^ 32 \<Longrightarrow> k < 2 ^ 32 \<Longrightarrow> (of_nat j :: u32) = of_nat k \<longleftrightarrow> j = k"
  by (auto simp: word_unat_eq_iff unat_of_nat)

lemma memcpy_loop_copy:
  assumes "k < n" "n \<le> 2 ^ 32" "\<And>j. j < k \<Longrightarrow> src + of_nat k \<noteq> d + of_nat j"
  shows "memcpy_loop mem d src n (d + of_nat k) = mem (src + of_nat k)"
  using assms
proof (induction n arbitrary: mem d src k)
  case (Suc n)
  show ?case
  proof (cases k)
    case 0
    have "d \<noteq> d + 1 + of_nat j" if "j < n" for j
    proof
      assume "d = d + 1 + of_nat j"
      then have "(of_nat (Suc j) :: u32) = of_nat 0" by (simp add: algebra_simps)
      then show False using that Suc.prems(2) by (subst (asm) of_nat_u32_inj) simp_all
    qed
    then have "memcpy_loop (mem(d := mem src)) (d + 1) (src + 1) n d = (mem(d := mem src)) d"
      by (intro memcpy_loop_frame)
    with 0 show ?thesis by simp
  next
    case (Suc k')
    have "src + 1 + of_nat k' \<noteq> d + 1 + of_nat j" if "j < k'" for j
      using Suc.prems(3) [of "Suc j"] that Suc by (simp add: algebra_simps)
    then have "memcpy_loop (mem(d := mem src)) (d + 1) (src + 1) n (d + 1 + of_nat k')
        = (mem(d := mem src)) (src + 1 + of_nat k')"
      using Suc.prems Suc by (intro Suc.IH) simp_all
    moreover have "src + 1 + of_nat k' \<noteq> d"
      using Suc.prems(3) [of 0] Suc by (simp add: algebra_simps)
    ultimately show ?thesis using Suc by (simp add: algebra_simps)
  qed
qed simp

lemma memset_loop_get:
  assumes "n \<le> 2 ^ 32"
  shows "memset_loop mem d c n a = (if \<exists>j<n. a = d + of_nat j then c else mem a)"
  using assms
proof (induction n arbitrary: mem d)
  case (Suc n)
  have "(\<exists>j<Suc n. a = d + of_nat j) \<longleftrightarrow> a = d \<or> (\<exists>j<n. a = d + 1 + of_nat j)"
    by (auto simp: less_Suc_eq_0_disj algebra_simps)
  then show ?case using Suc by auto
qed simp

end
