(* ===== verification/Mem_Pool_Spec.thy ===== *)
theory Mem_Pool_Spec
  imports Mem_Pool
begin

text \<open>
  What \<^verbatim>\<open>MALLOC/malloc.c\<close> promises: the interface \<^verbatim>\<open>pool_alloc\<close> that its clients use, with the
  facts they need proved once from its laws; the interpretation of the interface on
  \<^verbatim>\<open>mymalloc\<close> and \<^verbatim>\<open>myfree\<close>; and the properties of the allocator itself.
\<close>

section \<open>The interface the clients use\<close>

text \<open>
  Clients see addresses: a live region is a pair of its address and its length in bytes.
  \<^verbatim>\<open>pool_alloc\<close> is what they may rely on: allocation never fails to return, answers 0
  without touching the live regions or a fresh region that is at least as long as asked for
  and apart from every live one; release of a live region removes it and nothing else; release
  of 0 does nothing.
\<close>

type_synonym region = "u32 \<times> nat"

definition apart :: "region \<Rightarrow> region \<Rightarrow> bool" where
  "apart r r' \<longleftrightarrow> unat (fst r) + snd r \<le> unat (fst r') \<or> unat (fst r') + snd r' \<le> unat (fst r)"

definition plus_live :: "(u8 \<Rightarrow> region set) \<Rightarrow> u8 \<Rightarrow> region set \<Rightarrow> (u8 \<Rightarrow> region set)" where
  "plus_live L m S = (\<lambda>k. if k = m then L k \<union> S else L k)"

lemma plus_live_simps [simp]:
  "plus_live L m {} = L"
  "plus_live L m S m = L m \<union> S"
  "plus_live (plus_live L m S) m S' = plus_live L m (S \<union> S')"
  by (auto simp: plus_live_def fun_eq_iff)

lemma plus_live_remove:
  "r \<notin> L m \<Longrightarrow> r \<notin> S \<Longrightarrow> (plus_live L m (insert r S))(m := L m \<union> insert r S - {r}) = plus_live L m S"
  by (auto simp: plus_live_def fun_eq_iff)

lemma insert_plus_live: "L(m := insert r (L m)) = plus_live L m {r}"
  by (auto simp: plus_live_def fun_eq_iff)

text \<open>Allocating a list of sizes and releasing a list of pointers, as the clients' loops do.\<close>

fun alloc_list :: "('s \<Rightarrow> u8 \<Rightarrow> u32 \<Rightarrow> (u32 \<times> 's) option) \<Rightarrow> 's \<Rightarrow> u8 \<Rightarrow> u32 list
    \<Rightarrow> (u32 list \<times> 's) option" where
  "alloc_list alloc s m [] = Some ([], s)"
| "alloc_list alloc s m (sz # szs) =
     (case alloc s m sz of
        None \<Rightarrow> None
      | Some (p, s1) \<Rightarrow>
          (case alloc_list alloc s1 m szs of
             None \<Rightarrow> None
           | Some (ps, s2) \<Rightarrow> Some (p # ps, s2)))"

fun free_list :: "('s \<Rightarrow> u8 \<Rightarrow> u32 \<Rightarrow> 's option) \<Rightarrow> 's \<Rightarrow> u8 \<Rightarrow> u32 list \<Rightarrow> 's option" where
  "free_list free s m [] = Some s"
| "free_list free s m (p # ps) =
     (case free s m p of None \<Rightarrow> None | Some s1 \<Rightarrow> free_list free s1 m ps)"

locale pool_alloc =
  fixes alloc :: "'s \<Rightarrow> u8 \<Rightarrow> u32 \<Rightarrow> (u32 \<times> 's) option"
    and free :: "'s \<Rightarrow> u8 \<Rightarrow> u32 \<Rightarrow> 's option"
    and live :: "'s \<Rightarrow> (u8 \<Rightarrow> region set) \<Rightarrow> bool"
    and bank :: "u8 \<Rightarrow> bool"
  assumes alloc_ok: "live s L \<Longrightarrow> bank m \<Longrightarrow>
      \<exists>p s'. alloc s m sz = Some (p, s') \<and>
        (if p = 0 then live s' L
         else \<exists>c. unat sz \<le> c \<and> live s' (plus_live L m {(p, c)}) \<and>
                (\<forall>r\<in>L m. apart (p, c) r))"
    and free_live: "live s L \<Longrightarrow> bank m \<Longrightarrow> (p, c) \<in> L m \<Longrightarrow>
      \<exists>s'. free s m p = Some s' \<and> live s' (L(m := L m - {(p, c)}))"
    and free_null: "free s m 0 = Some s"
    and region_pos: "live s L \<Longrightarrow> bank m \<Longrightarrow> (p, c) \<in> L m \<Longrightarrow> p \<noteq> 0 \<and> 0 < c"
    and alloc_again: "live s L \<Longrightarrow> bank m \<Longrightarrow> alloc s m sz = Some (0, s') \<Longrightarrow> alloc s' m sz = Some (0, s')"
begin

text \<open>Of equal sizes none is obtained after a failure: if the last one was obtained, all were.\<close>

lemma alloc_list_failed:
  assumes "live s L" "bank m" "alloc s m sz = Some (0, s')"
  shows "alloc_list alloc s' m (replicate k sz) = Some (replicate k 0, s')"
  using alloc_again [OF assms] by (induction k) simp_all

lemma alloc_list_equal:
  assumes "live s L" "bank m" "alloc_list alloc s m (replicate (Suc k) sz) = Some (ps, s')" "last ps \<noteq> 0"
  shows "0 \<notin> set ps"
  using assms
proof (induction k arbitrary: s L ps)
  case 0
  then show ?case using alloc_ok [OF 0(1,2), of sz] by auto
next
  case (Suc k)
  obtain p s1 where p: "alloc s m sz = Some (p, s1)"
      "if p = 0 then live s1 L
       else \<exists>c. unat sz \<le> c \<and> live s1 (plus_live L m {(p, c)}) \<and> (\<forall>r\<in>L m. apart (p, c) r)"
    using alloc_ok [OF Suc.prems(1,2), of sz] by blast
  obtain qs where qs: "ps = p # qs" "alloc_list alloc s1 m (replicate (Suc k) sz) = Some (qs, s')"
    using Suc.prems(3) p(1) unfolding replicate_Suc [of "Suc k"]
    by (auto simp del: replicate.simps split: option.splits prod.splits)
  obtain L1 where L1: "live s1 L1" using p(2) by (cases "p = 0") auto
  show ?case
  proof (cases "p = 0")
    case True
    then have "qs = replicate (Suc k) 0"
      using alloc_list_failed [OF Suc.prems(1,2), of sz s1 "Suc k"] p(1) qs(2) by (simp del: replicate.simps)
    then have "last ps = 0" using qs(1) by (cases k) (simp_all add: last_replicate)
    then show ?thesis using Suc.prems(4) by contradiction
  next
    case False
    have "qs \<noteq> []" using qs(2) by (auto split: option.splits prod.splits)
    then show ?thesis
      using Suc.IH [OF L1 Suc.prems(2) qs(2)] Suc.prems(4) qs(1) False by simp
  qed
qed

lemma fresh_region:
  assumes "live s L" "bank m" "\<forall>r\<in>L m. apart (p, c) r" "0 < c"
  shows "(p, c) \<notin> L m"
  using assms by (auto simp: apart_def)

text \<open>Allocating a list of sizes and then releasing what was obtained, in the same order,
  gives back exactly the live regions from before: no leak and no foreign release.\<close>

lemma alloc_list_ok:
  assumes "live s L" "bank m"
  shows "\<exists>ps s' R. alloc_list alloc s m szs = Some (ps, s') \<and> length ps = length szs \<and>
     live s' (plus_live L m (set R)) \<and> map fst R = filter (\<lambda>p. p \<noteq> 0) ps \<and>
     distinct R \<and> set R \<inter> L m = {} \<and>
     (\<forall>i<length szs. ps ! i \<noteq> 0 \<longrightarrow> (\<exists>c. unat (szs ! i) \<le> c \<and> (ps ! i, c) \<in> set R)) \<and>
     sorted_wrt (\<lambda>r r'. apart r' r) R \<and> (\<forall>r\<in>set R. \<forall>r'\<in>L m. apart r r')"
  using assms
proof (induction szs arbitrary: s L)
  case Nil
  then show ?case by (intro exI [where x = "[]"] exI [where x = s]) simp
next
  case (Cons sz szs)
  obtain p s1 where p: "alloc s m sz = Some (p, s1)"
      "if p = 0 then live s1 L
       else \<exists>c. unat sz \<le> c \<and> live s1 (plus_live L m {(p, c)}) \<and> (\<forall>r\<in>L m. apart (p, c) r)"
    using alloc_ok [OF Cons.prems, of sz] by blast
  show ?case
  proof (cases "p = 0")
    case True
    then have "live s1 L" using p(2) by simp
    from Cons.IH [OF this Cons.prems(2)] show ?thesis
    proof (elim exE conjE, goal_cases)
      case (1 ps s' R)
      then show ?case using p(1) True
        by (intro exI [where x = "p # ps"] exI [where x = s'] exI [where x = R])
           (simp add: nth_Cons split: nat.split)
    qed
  next
    case False
    then obtain c where c: "unat sz \<le> c" "live s1 (plus_live L m {(p, c)})"
        "\<forall>r\<in>L m. apart (p, c) r"
      using p(2) by auto
    have "0 < c" using region_pos [OF c(2) Cons.prems(2), of p c] by simp
    note fresh = fresh_region [OF Cons.prems c(3) this]
    from Cons.IH [OF c(2) Cons.prems(2)] show ?thesis
    proof (elim exE conjE, goal_cases)
      case (1 ps s' R)
      then show ?case using p(1) False c fresh
        by (intro exI [where x = "p # ps"] exI [where x = s'] exI [where x = "(p, c) # R"])
           (auto simp: nth_Cons less_Suc_eq_0_disj split: nat.split)
    qed
  qed
qed

lemma free_list_ok:
  assumes "live s (plus_live L m (set R))" "bank m" "distinct R" "set R \<inter> L m = {}"
    and "map fst R = filter (\<lambda>p. p \<noteq> 0) ps"
  shows "\<exists>s'. free_list free s m ps = Some s' \<and> live s' L"
  using assms
proof (induction ps arbitrary: s R)
  case Nil
  then show ?case by simp
next
  case (Cons p ps)
  show ?case
  proof (cases "p = 0")
    case True
    then show ?thesis using Cons by (simp add: free_null)
  next
    case False
    with Cons.prems(5) obtain c R' where R: "R = (p, c) # R'" "map fst R' = filter (\<lambda>p. p \<noteq> 0) ps"
      by (cases R) auto
    have fresh: "(p, c) \<notin> L m" "(p, c) \<notin> set R'" using Cons.prems(3,4) R(1) by auto
    obtain s1 where s1: "free s m p = Some s1"
        "live s1 ((plus_live L m (set R))(m := plus_live L m (set R) m - {(p, c)}))"
      using free_live [OF Cons.prems(1,2), of p c] R(1) by auto
    then have "live s1 (plus_live L m (set R'))"
      using plus_live_remove [of "(p, c)" L m "set R'"] fresh R(1) by simp
    then show ?thesis
      using Cons.IH [of s1 R'] Cons.prems R s1(1) by auto
  qed
qed

lemma alloc_free_list:
  assumes "live s L" "bank m"
  shows "\<exists>ps s' s''. alloc_list alloc s m szs = Some (ps, s') \<and>
     free_list free s' m ps = Some s'' \<and> live s'' L"
  using alloc_list_ok [OF assms, of szs] free_list_ok [OF _ assms(2)] by blast

end

section \<open>The interface on the code's functions\<close>

definition regions :: "mallco \<Rightarrow> u8 \<Rightarrow> block set \<Rightarrow> region set" where
  "regions s m B = (\<lambda>(i, n). (membase s ! unat m + of_nat i * 64, n * 64)) ` B"

definition mallco_live :: "mallco \<Rightarrow> (u8 \<Rightarrow> region set) \<Rightarrow> bool" where
  "mallco_live s L \<longleftrightarrow> (\<exists>A. mallco_inv s A \<and> (\<forall>m. unat m < 3 \<longrightarrow> L m = regions s m (A m)))"

definition valid_bank :: "u8 \<Rightarrow> bool" where
  "valid_bank m \<longleftrightarrow> unat m < 3"

lemma membase_nonzero_ptr:
  assumes "mallco_inv s A" "unat m < 3" "i < unat (memtblsize ! unat m)"
  shows "membase s ! unat m + of_nat i * 64 \<noteq> 0"
proof
  assume "membase s ! unat m + of_nat i * 64 = 0"
  then have "unat (membase s ! unat m + of_nat i * 64) = unat (0 :: u32)" by (rule arg_cong)
  then have "unat (membase s ! unat m) = 0" by (simp only: block_index(4) [OF assms] unat_0 add_is_0)
  then show False using mallco_invD(5) [OF assms(1,2)] by (simp add: unat_eq_zero)
qed

lemma regions_remove:
  assumes "mallco_inv s A" "unat m < 3" "(i, n) \<in> A m"
  shows "regions s m (A m - {(i, n)}) =
    regions s m (A m) - {(membase s ! unat m + of_nat i * 64, n * 64)}"
proof -
  have "inj_on (\<lambda>(i, n). (membase s ! unat m + of_nat i * 64, n * 64)) (A m)"
  proof (rule inj_onI, clarify)
    fix i n i' n'
    assume b: "(i, n) \<in> A m" "(i', n') \<in> A m"
      and eq: "membase s ! unat m + of_nat i * 64 = membase s ! unat m + of_nat i' * 64"
        "n * 64 = n' * 64"
    note lt = live_block_bounds(3) [OF assms(1,2) b(1)] live_block_bounds(3) [OF assms(1,2) b(2)]
    have "unat (membase s ! unat m) + i * 64 = unat (membase s ! unat m) + i' * 64"
      using arg_cong [OF eq(1), of unat]
      unfolding block_index(4) [OF assms(1,2) lt(1)] block_index(4) [OF assms(1,2) lt(2)] .
    then show "i = i' \<and> n = n'" using eq(2) by simp
  qed
  then show ?thesis using assms(3) by (simp add: regions_def inj_on_image_set_diff [where C = "A m"])
qed

lemma mymalloc_live:
  assumes live: "mallco_live s L" and m: "valid_bank m"
  shows "\<exists>p s'. mymalloc s m sz = Some (p, s') \<and>
        (if p = 0 then mallco_live s' L
         else \<exists>c. unat sz \<le> c \<and> mallco_live s' (plus_live L m {(p, c)}) \<and>
                (\<forall>r\<in>L m. apart (p, c) r))"
proof -
  obtain A where inv: "mallco_inv s A" and L: "\<And>m. unat m < 3 \<Longrightarrow> L m = regions s m (A m)"
    using live by (auto simp: mallco_live_def)
  have m3: "unat m < 3" using m by (simp add: valid_bank_def)
  let ?s = "ensure_ready s m"
  have keep: "mallco_live ?s L"
    using ensure_ready_inv(1,3) [OF inv m3] L by (auto simp: mallco_live_def regions_def)
  consider "sz = 0" | "sz \<noteq> 0" "\<forall>i. \<not> free_run (memmap ?s ! unat m) i (nblocks sz)"
    | i0 where "sz \<noteq> 0" "free_run (memmap ?s ! unat m) i0 (nblocks sz)" by blast
  then show ?thesis
  proof cases
    case 1
    then show ?thesis using keep by (simp add: mymalloc_def my_mem_malloc_zero)
  next
    case 2
    then show ?thesis using keep my_mem_malloc_none [OF inv m3 2(1)] by (simp add: mymalloc_def)
  next
    case 3
    obtain i s' where a: "my_mem_malloc s m sz = Some (of_nat i * 64, s')"
      "mallco_inv s' (A(m := insert (i, nblocks sz) (A m)))"
      "\<forall>b\<in>A m. separate (i, nblocks sz) b" "i + nblocks sz \<le> unat (memtblsize ! unat m)"
      "membase s' = membase s"
      using my_mem_malloc_some [OF inv m3 3] by metis
    have i: "i < unat (memtblsize ! unat m)" using a(4) nblocks_pos [OF 3(1)] by simp
    let ?p = "membase s ! unat m + of_nat i * 64"
    have p0: "?p \<noteq> 0" by (rule membase_nonzero_ptr [OF inv m3 i])
    have mm: "mymalloc s m sz = Some (?p, s')"
      using a(1,5) block_index(5) [OF inv m3 i] by (simp add: mymalloc_def)
    have "unat sz \<le> nblocks sz * 64" by (simp add: nblocks_def)
    moreover have "mallco_live s' (plus_live L m {(?p, nblocks sz * 64)})"
      unfolding mallco_live_def
      using a(2,5) L by (intro exI [where x = "A(m := insert (i, nblocks sz) (A m))"])
        (auto simp: regions_def plus_live_def)
    moreover have "apart (?p, nblocks sz * 64) r" if rL: "r \<in> L m" for r
    proof -
      obtain i' n' where r: "(i', n') \<in> A m" "r = (membase s ! unat m + of_nat i' * 64, n' * 64)"
        using rL L [OF m3] by (auto simp: regions_def)
      then show ?thesis
        using a(3) r(1) block_index(4) [OF inv m3 i]
          block_index(4) [OF inv m3 live_block_bounds(3) [OF inv m3 r(1)]]
        by (auto simp: apart_def separate_def)
    qed
    ultimately show ?thesis using mm p0 by auto
  qed
qed

lemma mymalloc_again:
  assumes live: "mallco_live s L" and m: "valid_bank m" and fail: "mymalloc s m sz = Some (0, s')"
  shows "mymalloc s' m sz = Some (0, s')"
proof -
  obtain A where inv: "mallco_inv s A" using live by (auto simp: mallco_live_def)
  have m3: "unat m < 3" using m by (simp add: valid_bank_def)
  let ?s = "ensure_ready s m"
  note inv' = ensure_ready_inv(1) [OF inv m3]
  have idem: "ensure_ready ?s m = ?s"
    using ensure_ready_inv(2) [OF inv m3] by (simp add: ensure_ready_def)
  have none: "\<not> free_run (memmap ?s ! unat m) i (nblocks sz)" if nz: "sz \<noteq> 0" for i
  proof
    assume "free_run (memmap ?s ! unat m) i (nblocks sz)"
    then obtain j t where a: "my_mem_malloc s m sz = Some (of_nat j * 64, t)"
      "j + nblocks sz \<le> unat (memtblsize ! unat m)" "membase t = membase s"
      using my_mem_malloc_some [OF inv m3 nz] by metis
    have j: "j < unat (memtblsize ! unat m)" using a(2) nblocks_pos [OF nz] by simp
    show False
      using fail a(1,3) block_index(5) [OF inv m3 j] membase_nonzero_ptr [OF inv m3 j]
      by (simp add: mymalloc_def)
  qed
  show ?thesis
  proof (cases "sz = 0")
    case True
    then show ?thesis using fail idem by (simp add: mymalloc_def my_mem_malloc_zero)
  next
    case False
    have "s' = ?s" using my_mem_malloc_none [OF inv m3 False none [OF False]] fail by (simp add: mymalloc_def)
    then show ?thesis
      using my_mem_malloc_none [OF inv' m3 False] none [OF False] idem by (simp add: mymalloc_def)
  qed
qed

lemma myfree_live:
  assumes live: "mallco_live s L" and m: "valid_bank m" and r: "(p, c) \<in> L m"
  shows "\<exists>s'. myfree s m p = Some s' \<and> mallco_live s' (L(m := L m - {(p, c)}))"
proof -
  obtain A where inv: "mallco_inv s A" and L: "\<And>m. unat m < 3 \<Longrightarrow> L m = regions s m (A m)"
    using live by (auto simp: mallco_live_def)
  have m3: "unat m < 3" using m by (simp add: valid_bank_def)
  obtain i n where b: "(i, n) \<in> A m" "p = membase s ! unat m + of_nat i * 64" "c = n * 64"
    using r L [OF m3] by (auto simp: regions_def)
  obtain s' where f: "my_mem_free s m (of_nat i * 64) = Some (0, s')"
    "mallco_inv s' (A(m := A m - {(i, n)}))" "membase s' = membase s" "ram s' = ram s"
    by (rule my_mem_free_live [OF inv m3 b(1)])
  have "p \<noteq> 0" using membase_nonzero_ptr [OF inv m3] live_block_bounds(3) [OF inv m3 b(1)] b(2) by simp
  then have "myfree s m p = Some s'" using f(1) b(2) by (simp add: myfree_def)
  moreover have "mallco_live s' (L(m := L m - {(p, c)}))"
    unfolding mallco_live_def
    using f(2,3) L regions_remove [OF inv m3 b(1)] b(2,3)
    by (intro exI [where x = "A(m := A m - {(i, n)})"]) (auto simp: regions_def)
  ultimately show ?thesis by blast
qed

lemma mallco_region_pos:
  assumes "mallco_live s L" "valid_bank m" "(p, c) \<in> L m"
  shows "p \<noteq> 0 \<and> 0 < c"
proof -
  obtain A where inv: "mallco_inv s A" and L: "L m = regions s m (A m)"
    using assms by (auto simp: mallco_live_def valid_bank_def)
  obtain i n where b: "(i, n) \<in> A m" "p = membase s ! unat m + of_nat i * 64" "c = n * 64"
    using assms(3) L by (auto simp: regions_def)
  have m3: "unat m < 3" using assms(2) by (simp add: valid_bank_def)
  show ?thesis
    using live_block_bounds(1,3) [OF inv m3 b(1)] membase_nonzero_ptr [OF inv m3] b(2,3) by simp
qed

interpretation pool: pool_alloc mymalloc myfree mallco_live valid_bank
proof unfold_locales
  show "myfree s m 0 = Some s" for s m by (simp add: myfree_def)
qed (blast intro: mymalloc_live myfree_live mymalloc_again dest: mallco_region_pos)+

section \<open>The controller at start-up\<close>

text \<open>The initialiser of \<^verbatim>\<open>mallco_dev\<close>.  \<^verbatim>\<open>b1\<close> is the address the linker gave to
  \<^verbatim>\<open>mem1base\<close>; \<^verbatim>\<open>maps\<close> is what the three tables hold at reset.\<close>

definition mallco_dev :: "u32 \<Rightarrow> u32 list list \<Rightarrow> (u32 \<Rightarrow> u8) \<Rightarrow> mallco" where
  "mallco_dev b1 maps mem =
     \<lparr>membase = [b1, 0xC01F4000, 0x20000000], memmap = maps, memrdy = [0, 0, 0], ram = mem\<rparr>"

definition tables_ok :: "u32 list list \<Rightarrow> bool" where
  "tables_ok maps \<longleftrightarrow> length maps = 3 \<and> (\<forall>k<3. length (maps ! k) = unat (memtblsize ! k))"

lemma mallco_dev_inv:
  assumes "tables_ok maps" "b1 \<noteq> 0" "unat b1 < 2 ^ 32 - 160 * 1024"
  shows "mallco_inv (mallco_dev b1 maps mem) (\<lambda>_. {})"
proof (rule mallco_invI)
  show "bank_ok (mallco_dev b1 maps mem) k" if "k < 3" for k
    using assms less_3_cases [OF that]
    by (auto simp: bank_ok_def tables_ok_def mallco_dev_def memsize_def)
  show "alloc_rel (memmap (mallco_dev b1 maps mem) ! unat m) {}"
    if "unat m < 3" "memrdy (mallco_dev b1 maps mem) ! unat m \<noteq> 0" for m :: u8
    using that less_3_cases [OF that(1)] by (auto simp: mallco_dev_def)
qed (use assms(1) in \<open>simp_all add: mallco_dev_def tables_ok_def\<close>)

section \<open>Usage\<close>

lemma count_used_card:
  "unat (count_used t n) = card {j. j < n \<and> t ! j \<noteq> 0}" if "n < 2 ^ 32"
  using that
proof (induction n)
  case (Suc n)
  have split: "{j. j < Suc n \<and> t ! j \<noteq> 0} =
      {j. j < n \<and> t ! j \<noteq> 0} \<union> (if t ! n \<noteq> 0 then {n} else {})"
    by (auto simp: less_Suc_eq)
  have le: "card {j. j < n \<and> t ! j \<noteq> 0} \<le> n"
    using card_mono [of "{..<n}" "{j. j < n \<and> t ! j \<noteq> 0}"] by auto
  have IH: "unat (count_used t n) = card {j. j < n \<and> t ! j \<noteq> 0}" using Suc by simp
  show ?case
  proof (cases "t ! n = 0")
    case True
    then show ?thesis using IH split by simp
  next
    case False
    then have "unat (count_used t n + 1) = unat (count_used t n) + 1"
      using IH le Suc.prems by (intro unat_plus_one_word) simp
    then show ?thesis using False IH unfolding split by simp
  qed
qed simp

lemma finite_blocks:
  assumes "alloc_rel t B"
  shows "finite B"
proof (rule finite_subset)
  show "B \<subseteq> {..length t} \<times> {..length t}"
    using alloc_relD(2) [OF assms] by fastforce
qed simp

lemma used_cells:
  assumes rel: "alloc_rel t B" and len: "length t < 2 ^ 31"
  shows "card {j. j < length t \<and> t ! j \<noteq> 0} = (\<Sum>b\<in>B. snd b)"
proof -
  have nz: "t ! j \<noteq> 0" if "b \<in> B" "in_block b j" for b j
    using alloc_relD(1-3) [OF rel that(1)] that(2) len block_word_nonzero(1) [of "snd b"] by auto
  have "{j. j < length t \<and> t ! j \<noteq> 0} = (\<Union>b\<in>B. {fst b ..< fst b + snd b})"
  proof (intro equalityI subsetI)
    fix j
    assume "j \<in> {j. j < length t \<and> t ! j \<noteq> 0}"
    then have "\<exists>b\<in>B. in_block b j" using rel unfolding alloc_rel_def by blast
    then show "j \<in> (\<Union>b\<in>B. {fst b ..< fst b + snd b})" by (auto simp: in_block_def)
  next
    fix j
    assume "j \<in> (\<Union>b\<in>B. {fst b ..< fst b + snd b})"
    then obtain b where "b \<in> B" "in_block b j" by (auto simp: in_block_def)
    then show "j \<in> {j. j < length t \<and> t ! j \<noteq> 0}"
      using nz alloc_relD(2) [OF rel \<open>b \<in> B\<close>] by (auto simp: in_block_def)
  qed
  also have "card \<dots> = (\<Sum>b\<in>B. card {fst b ..< fst b + snd b})"
  proof (rule card_UN_disjoint)
    show "\<forall>i\<in>B. \<forall>j\<in>B. i \<noteq> j \<longrightarrow> {fst i..<fst i + snd i} \<inter> {fst j..<fst j + snd j} = {}"
      using rel by (auto simp: alloc_rel_def separate_def) force+
  qed (use finite_blocks [OF rel] in auto)
  finally show ?thesis by simp
qed

lemma live_total_le:
  assumes "alloc_rel t B" "length t < 2 ^ 31"
  shows "(\<Sum>b\<in>B. snd b) \<le> length t"
  unfolding used_cells [OF assms, symmetric]
  using card_mono [of "{..<length t}" "{j. j < length t \<and> t ! j \<noteq> 0}"] by auto

section \<open>Properties of the allocator\<close>

lemma my_mem_malloc_spec:
  assumes "mallco_inv s A" "unat m < 3"
  shows "\<exists>r s'. my_mem_malloc s m sz = Some (r, s') \<and> membase s' = membase s \<and> ram s' = ram s \<and>
     (r = 0xFFFFFFFF \<and> mallco_inv s' A \<and>
        (sz = 0 \<or> (\<forall>i. \<not> free_run (memmap s' ! unat m) i (nblocks sz))) \<or>
      (\<exists>i. r = of_nat i * 64 \<and> i + nblocks sz \<le> unat (memtblsize ! unat m) \<and>
        mallco_inv s' (A(m := insert (i, nblocks sz) (A m))) \<and>
        (\<forall>b\<in>A m. separate (i, nblocks sz) b) \<and>
        (\<forall>i'>i. \<not> free_run (memmap (ensure_ready s m) ! unat m) i' (nblocks sz))))"
proof -
  let ?s = "ensure_ready s m"
  note keep = ensure_ready_inv [OF assms]
  consider "sz = 0" | "sz \<noteq> 0" "\<forall>i. \<not> free_run (memmap ?s ! unat m) i (nblocks sz)"
    | i0 where "sz \<noteq> 0" "free_run (memmap ?s ! unat m) i0 (nblocks sz)" by blast
  then show ?thesis
  proof cases
    case 1
    then show ?thesis using keep by (simp add: my_mem_malloc_zero)
  next
    case 2
    then show ?thesis using keep my_mem_malloc_none [OF assms 2(1)] by simp
  next
    case 3
    show ?thesis by (rule my_mem_malloc_some [OF assms 3]) blast
  qed
qed

theorem my_mem_perused_exact:
  assumes inv: "mallco_inv s A" and m: "unat m < 3" and rdy: "memrdy s ! unat m \<noteq> 0"
  shows "unat (my_mem_perused s m) = (\<Sum>b\<in>A m. snd b) * 1000 div unat (memtblsize ! unat m) \<and>
     my_mem_perused s m \<le> 1000"
proof -
  let ?t = "memmap s ! unat m" and ?T = "memtblsize ! unat m" and ?u = "\<Sum>b\<in>A m. snd b"
  have len: "length ?t = unat ?T" by (rule mallco_invD(4) [OF inv m])
  have small: "length ?t < 2 ^ 31" by (rule table_len_small [OF inv m])
  note rel = mallco_invD(8) [OF inv m rdy]
  have le: "?u \<le> unat ?T" using live_total_le [OF rel small] len by simp
  have cnt: "unat (count_used ?t (unat ?T)) = ?u"
    using count_used_card [of "unat ?T" ?t] used_cells [OF rel small] len small by simp
  have "?u * 1000 < 2 ^ 32" using le tblsize_bounds(2) [OF m] by simp
  then have prod: "unat (count_used ?t (unat ?T) * 1000) = ?u * 1000"
    using cnt by (subst unat_mult_no_wrap) simp_all
  have bound: "?u * 1000 div unat ?T \<le> 1000"
    using le tblsize_bounds(1) [OF m] by (simp add: div_le_mono [where n = "unat ?T * 1000", THEN order_trans])
  have "unat (my_mem_perused s m) = (?u * 1000 div unat ?T) mod 2 ^ 16"
    unfolding my_mem_perused_def unsigned_ucast_eq unat_div prod by (simp add: take_bit_eq_mod)
  then have "unat (my_mem_perused s m) = ?u * 1000 div unat ?T" using bound by simp
  then show ?thesis using bound by (simp add: word_le_nat_alt)
qed

text \<open>C21: my_mem_free with the offset of a block in use frees exactly that block and returns 0; on a
  bank not ready it initialises the bank and returns 1; an offset past the bank gives 2 and an
  offset in a free entry 0, both without a change.\<close>

theorem my_mem_free_correct:
  assumes "mallco_inv s A" "unat m < 3"
  shows "(\<forall>(i, n)\<in>A m. \<exists>s'. my_mem_free s m (of_nat i * 64) = Some (0, s') \<and>
            mallco_inv s' (A(m := A m - {(i, n)})) \<and> membase s' = membase s \<and> ram s' = ram s) \<and>
     (memrdy s ! unat m = 0 \<longrightarrow> my_mem_free s m off = Some (1, my_mem_init s m)) \<and>
     (memrdy s ! unat m \<noteq> 0 \<and> memsize ! unat m \<le> off \<longrightarrow> my_mem_free s m off = Some (2, s)) \<and>
     (memrdy s ! unat m \<noteq> 0 \<and> off < memsize ! unat m \<and>
        memmap s ! unat m ! (unat off div 64) = 0 \<longrightarrow> my_mem_free s m off = Some (0, s))"
proof (intro conjI ballI impI, clarify)
  fix i n
  assume "(i, n) \<in> A m"
  then show "\<exists>s'. my_mem_free s m (of_nat i * 64) = Some (0, s') \<and>
            mallco_inv s' (A(m := A m - {(i, n)})) \<and> membase s' = membase s \<and> ram s' = ram s"
    using my_mem_free_live [OF assms] by metis
qed (use assms in \<open>auto simp: my_mem_free_def unat_div\<close>)

section \<open>Reallocation\<close>

lemma block_addr_distinct:
  assumes "mallco_inv s A" "unat m < 3"
    and "i + n \<le> unat (memtblsize ! unat m)" "i' + n' \<le> unat (memtblsize ! unat m)"
    and "separate (i, n) (i', n')" "k < n * 64" "k' < n' * 64"
  shows "membase s ! unat m + of_nat i * 64 + of_nat k \<noteq> membase s ! unat m + of_nat i' * 64 + of_nat k'"
proof
  let ?b = "membase s ! unat m"
  assume eq: "?b + of_nat i * 64 + of_nat k = ?b + of_nat i' * 64 + of_nat k'"
  have lim: "unat (memtblsize ! unat m) * 64 < 2 ^ 32"
    using tblsize_bounds(2) [OF assms(2)] by simp
  have "(of_nat (i * 64 + k) :: u32) = of_nat (i' * 64 + k')"
    using eq by (simp add: algebra_simps)
  moreover have "i * 64 + k < 2 ^ 32" "i' * 64 + k' < 2 ^ 32"
    using assms(3,4,6,7) lim by linarith+
  ultimately have "i * 64 + k = i' * 64 + k'" using of_nat_u32_inj by blast
  with assms(5-7) show False by (auto simp: separate_def)
qed

lemma my_mem_malloc_cases:
  assumes inv: "mallco_inv s A" and m: "unat m < 3"
  obtains (fail) s1 where "my_mem_malloc s m sz = Some (0xFFFFFFFF, s1)" "membase s1 = membase s"
      "ram s1 = ram s" "mallco_inv s1 A"
  | (block) j s1 where "my_mem_malloc s m sz = Some (of_nat j * 64, s1)" "membase s1 = membase s"
      "ram s1 = ram s" "of_nat j * 64 \<noteq> (0xFFFFFFFF :: u32)" "j + nblocks sz \<le> unat (memtblsize ! unat m)"
      "mallco_inv s1 (A(m := insert (j, nblocks sz) (A m)))" "\<forall>b\<in>A m. separate (j, nblocks sz) b"
proof -
  obtain r s1 where r: "my_mem_malloc s m sz = Some (r, s1)" "membase s1 = membase s" "ram s1 = ram s"
    and alt: "r = 0xFFFFFFFF \<and> mallco_inv s1 A \<or>
      (\<exists>j. r = of_nat j * 64 \<and> j + nblocks sz \<le> unat (memtblsize ! unat m) \<and>
        mallco_inv s1 (A(m := insert (j, nblocks sz) (A m))) \<and> (\<forall>b\<in>A m. separate (j, nblocks sz) b))"
    using my_mem_malloc_spec [OF inv m, of sz] by metis
  from alt show thesis
  proof (elim disjE exE conjE)
    fix j
    assume j: "r = of_nat j * 64" "j + nblocks sz \<le> unat (memtblsize ! unat m)"
      "mallco_inv s1 (A(m := insert (j, nblocks sz) (A m)))" "\<forall>b\<in>A m. separate (j, nblocks sz) b"
    have "0 < nblocks sz" using live_block_bounds(1) [OF j(3) m, of j "nblocks sz"] by simp
    then have "of_nat j * 64 \<noteq> (0xFFFFFFFF :: u32)" using block_index(5) [OF inv m, of j] j(2) by simp
    then show thesis using r j block by blast
  qed (use r fail in blast)
qed

lemma realloc_copy:
  assumes inv: "mallco_inv s A" and m: "unat m < 3" and b: "(i, n) \<in> A m"
    and ptr: "ptr = membase s ! unat m + of_nat i * 64" and new: "new = membase s ! unat m + of_nat j * 64"
    and j: "j + nblocks sz \<le> unat (memtblsize ! unat m)" "\<forall>b\<in>A m. separate (j, nblocks sz) b"
  shows "\<lbrakk>(i', n') \<in> A m; k < n' * 64\<rbrakk> \<Longrightarrow> mymemcpy (ram s) new ptr sz (membase s ! unat m + of_nat i' * 64 + of_nat k)
       = ram s (membase s ! unat m + of_nat i' * 64 + of_nat k)"
    and "k < min (unat sz) (n * 64) \<Longrightarrow> mymemcpy (ram s) new ptr sz (new + of_nat k) = ram s (ptr + of_nat k)"
proof -
  let ?b = "membase s ! unat m"
  have szN: "unat sz \<le> nblocks sz * 64" by (simp add: nblocks_def)
  have old: "k' < unat sz \<Longrightarrow> k < n' * 64 \<Longrightarrow> (i', n') \<in> A m \<Longrightarrow>
      ?b + of_nat i' * 64 + of_nat k \<noteq> new + of_nat k'" for i' n' k k'
  proof -
    assume a: "k' < unat sz" "k < n' * 64" "(i', n') \<in> A m"
    have sep: "separate (i', n') (j, nblocks sz)" using j(2) a(3) separate_sym by blast
    show "?b + of_nat i' * 64 + of_nat k \<noteq> new + of_nat k'"
      unfolding new
      using a szN by (intro block_addr_distinct [OF inv m live_block_bounds(2) [OF inv m a(3)] j(1) sep]) auto
  qed
  show "mymemcpy (ram s) new ptr sz (?b + of_nat i' * 64 + of_nat k) = ram s (?b + of_nat i' * 64 + of_nat k)"
    if "(i', n') \<in> A m" "k < n' * 64"
    unfolding mymemcpy_def using old [OF _ that(2,1)] by (intro memcpy_loop_frame) blast
  show "mymemcpy (ram s) new ptr sz (new + of_nat k) = ram s (ptr + of_nat k)" if k: "k < min (unat sz) (n * 64)"
  proof -
    have "ptr + of_nat k \<noteq> new + of_nat k'" if "k' < k" for k'
      using old [of k' k n i] b ptr that k by simp
    then show ?thesis
      unfolding mymemcpy_def using k less_imp_le [OF unat_u32_bound [of sz]]
      by (intro memcpy_loop_copy) simp_all
  qed
qed

text \<open>C22: myrealloc of a block in use either fails with 0 and changes nothing, or returns a new block
  holding the first min(new size, old size) bytes of the old one, frees the old one and leaves the
  bytes of every other block as they were.\<close>

theorem myrealloc_correct:
  assumes inv: "mallco_inv s A" and m: "unat m < 3" and b: "(i, n) \<in> A m"
    and ptr: "ptr = membase s ! unat m + of_nat i * 64"
  shows "\<exists>new s'. myrealloc s m ptr sz = Some (new, s') \<and>
     (new = 0 \<and> mallco_inv s' A \<and> ram s' = ram s \<or>
      (\<exists>j. new = membase s ! unat m + of_nat j * 64 \<and>
        mallco_inv s' (A(m := insert (j, nblocks sz) (A m) - {(i, n)})) \<and>
        (\<forall>k<min (unat sz) (n * 64). ram s' (new + of_nat k) = ram s (ptr + of_nat k)) \<and>
        (\<forall>(i', n')\<in>A m. \<forall>k<n' * 64. ram s' (membase s ! unat m + of_nat i' * 64 + of_nat k)
             = ram s (membase s ! unat m + of_nat i' * 64 + of_nat k))))"
proof (rule my_mem_malloc_cases [OF inv m, of sz])
  fix s1 assume "my_mem_malloc s m sz = Some (0xFFFFFFFF, s1)" "ram s1 = ram s" "mallco_inv s1 A"
  then show ?thesis by (simp add: myrealloc_def)
next
  fix j s1
  assume r: "my_mem_malloc s m sz = Some (of_nat j * 64, s1)" "membase s1 = membase s" "ram s1 = ram s"
    "of_nat j * 64 \<noteq> (0xFFFFFFFF :: u32)" "j + nblocks sz \<le> unat (memtblsize ! unat m)"
    "mallco_inv s1 (A(m := insert (j, nblocks sz) (A m)))" "\<forall>b\<in>A m. separate (j, nblocks sz) b"
  let ?new = "membase s ! unat m + of_nat j * 64" and ?A = "A(m := insert (j, nblocks sz) (A m))"
  let ?s2 = "s1\<lparr>ram := mymemcpy (ram s) ?new ptr sz\<rparr>"
  have inv2: "mallco_inv ?s2 ?A" using r(6) unfolding mallco_inv_ram .
  obtain s3 where s3: "my_mem_free ?s2 m (of_nat i * 64) = Some (0, s3)"
    "mallco_inv s3 (?A(m := ?A m - {(i, n)}))" "membase s3 = membase ?s2" "ram s3 = ram ?s2"
    by (rule my_mem_free_live [OF inv2 m, of i n]) (use b in simp)
  have "ptr \<noteq> 0" using membase_nonzero_ptr [OF inv m live_block_bounds(3) [OF inv m b]] ptr by simp
  then have "myrealloc s m ptr sz = Some (?new, s3)"
    using r s3(1) ptr by (simp add: myrealloc_def myfree_def Let_def)
  then show ?thesis
    using s3(2,4) realloc_copy [OF inv m b ptr refl r(5,7)]
    by (intro exI [where x = ?new] exI [where x = s3]) auto
qed

section \<open>Placement in a pool used as a stack\<close>

text \<open>The search starts at the top of the table, so a pool whose free blocks are exactly the
  lowest \<^verbatim>\<open>f\<close> ones stays of this form: a request takes the topmost of them.\<close>

definition low_free :: "mallco \<Rightarrow> u8 \<Rightarrow> nat \<Rightarrow> bool" where
  "low_free s m f \<longleftrightarrow> memrdy s ! unat m \<noteq> 0 \<and> f \<le> length (memmap s ! unat m) \<and>
     (\<forall>j<length (memmap s ! unat m). memmap s ! unat m ! j = 0 \<longleftrightarrow> j < f)"

lemma mymalloc_stack:
  assumes inv: "mallco_inv s A" and m: "unat m < 3" and low: "low_free s m f"
    and "sz \<noteq> 0" "nblocks sz \<le> f"
  shows "\<exists>s'. mymalloc s m sz = Some (membase s ! unat m + of_nat (f - nblocks sz) * 64, s') \<and>
    mallco_inv s' (A(m := insert (f - nblocks sz, nblocks sz) (A m))) \<and>
    low_free s' m (f - nblocks sz) \<and> membase s' = membase s \<and> ram s' = ram s \<and>
    memrdy s' = memrdy s \<and> (\<forall>m'. m' \<noteq> m \<longrightarrow> memmap s' ! unat m' = memmap s ! unat m')"
proof -
  let ?n = "nblocks sz" and ?t = "memmap s ! unat m"
  have rdy: "ensure_ready s m = s" using low by (simp add: low_free_def ensure_ready_def)
  have n: "0 < ?n" by (rule nblocks_pos [OF assms(4)])
  have top: "free_run ?t (f - ?n) ?n"
    using low assms(5) by (auto simp: low_free_def free_run_def)
  obtain i s' where a: "my_mem_malloc s m sz = Some (of_nat i * 64, s')"
    "mallco_inv s' (A(m := insert (i, ?n) (A m)))" "i + ?n \<le> unat (memtblsize ! unat m)"
    "free_run ?t i ?n" "\<forall>i'>i. \<not> free_run ?t i' ?n" "membase s' = membase s" "ram s' = ram s"
    "s' = s\<lparr>memmap := (memmap s)[unat m := take i ?t @ replicate ?n (of_nat ?n) @ drop (i + ?n) ?t]\<rparr>"
    using my_mem_malloc_some [OF inv m assms(4), of "f - ?n"] top unfolding rdy by metis
  have len: "length ?t = unat (memtblsize ! unat m)" by (rule mallco_invD(4) [OF inv m])
  have "i + ?n - 1 < f"
    using a(4) low n by (auto simp: free_run_def low_free_def)
  then have "i \<le> f - ?n" using n by simp
  moreover have "\<not> i < f - ?n" using a(5) top by blast
  ultimately have i: "i = f - ?n" by simp
  have small: "?n < 2 ^ 31" using assms(5) low len tblsize_bounds(2) [OF m] by (simp add: low_free_def)
  have le: "f - ?n + ?n \<le> length ?t" using a(3) i len by simp
  have "low_free s' m (f - ?n)"
    using low a(8) i m mallco_invD(2) [OF inv] block_word_nonzero(1) [OF n small] assms(5)
      nth_filled_run [OF le, where v = "of_nat ?n"]
    by (auto simp: low_free_def)
  moreover have "memmap s' ! unat m' = memmap s ! unat m'" if "m' \<noteq> m" for m'
    using that a(8) by (simp add: word_unat_eq_iff)
  moreover have "mymalloc s m sz = Some (membase s ! unat m + of_nat i * 64, s')"
    using a(1,3,6) n block_index(5) [OF inv m, of i] by (simp add: mymalloc_def)
  ultimately show ?thesis using a(2,6-8) i by auto
qed

section \<open>Properties and a concrete controller\<close>

text \<open>A controller whose first pool is initialised and has one allocation of two blocks at
  its end; the other pools are as at reset.\<close>

definition demo_pool :: mallco where
  "demo_pool = \<lparr>membase = [0x24000000, 0xC01F4000, 0x20000000],
     memmap = [replicate 2558 0 @ [2, 2], replicate 462592 0, replicate 960 0],
     memrdy = [1, 0, 0], ram = (\<lambda>_. 0)\<rparr>"

definition demo_live :: "u8 \<Rightarrow> block set" where
  "demo_live = (\<lambda>_. {})(0 := {(2558, 2)})"

lemma demo_alloc_rel: "alloc_rel (replicate 2558 0 @ [2, 2]) {(2558, 2)}"
  unfolding alloc_rel_def in_block_def by (auto simp: nth_append nth_Cons' less_Suc_eq)

lemma demo_pool_inv: "mallco_inv demo_pool demo_live"
proof (rule mallco_invI)
  show "bank_ok demo_pool k" if "k < 3" for k
    using less_3_cases [OF that] by (auto simp: bank_ok_def demo_pool_def memsize_def memtblsize_def)
  show "alloc_rel (memmap demo_pool ! unat m) (demo_live m)"
    if "unat m < 3" "memrdy demo_pool ! unat m \<noteq> 0" for m :: u8
    using that less_3_cases [OF that(1)] demo_alloc_rel
    by (auto simp: demo_pool_def demo_live_def unat_eq_zero)
  show "demo_live m = {}" if "unat m < 3" "memrdy demo_pool ! unat m = 0" for m :: u8
    using that by (auto simp: demo_pool_def demo_live_def)
qed (simp_all add: demo_pool_def)

lemma demo_pool_live: "mallco_live demo_pool (\<lambda>m. regions demo_pool m (demo_live m))"
  using demo_pool_inv by (auto simp: mallco_live_def)

text \<open>C3: mymalloc on a pool whose table is well formed returns, leaves the contents of the memory
  alone and either returns 0 because no run of free entries of the length exists (or the size is
  0), or reserves the highest such run, apart from every block in use; the well-formedness is
  kept.\<close>

theorem mymalloc_correct:
  assumes "mallco_inv s A" "unat m < 3"
  shows "\<exists>p s'. mymalloc s m sz = Some (p, s') \<and> membase s' = membase s \<and> ram s' = ram s \<and>
     (p = 0 \<and> mallco_inv s' A \<and>
        (sz = 0 \<or> (\<forall>i. \<not> free_run (memmap s' ! unat m) i (nblocks sz))) \<or>
      (\<exists>i. p = membase s ! unat m + of_nat i * 64 \<and> p \<noteq> 0 \<and>
        i + nblocks sz \<le> unat (memtblsize ! unat m) \<and>
        mallco_inv s' (A(m := insert (i, nblocks sz) (A m))) \<and>
        (\<forall>b\<in>A m. separate (i, nblocks sz) b) \<and>
        (\<forall>i'>i. \<not> free_run (memmap (ensure_ready s m) ! unat m) i' (nblocks sz))))"
proof -
  obtain r s' where r: "my_mem_malloc s m sz = Some (r, s')" "membase s' = membase s" "ram s' = ram s"
    and alt: "r = 0xFFFFFFFF \<and> mallco_inv s' A \<and>
        (sz = 0 \<or> (\<forall>i. \<not> free_run (memmap s' ! unat m) i (nblocks sz))) \<or>
      (\<exists>i. r = of_nat i * 64 \<and> i + nblocks sz \<le> unat (memtblsize ! unat m) \<and>
        mallco_inv s' (A(m := insert (i, nblocks sz) (A m))) \<and>
        (\<forall>b\<in>A m. separate (i, nblocks sz) b) \<and>
        (\<forall>i'>i. \<not> free_run (memmap (ensure_ready s m) ! unat m) i' (nblocks sz)))"
    using my_mem_malloc_spec [OF assms, of sz] by metis
  show ?thesis
    using alt
  proof (elim disjE exE conjE, goal_cases)
    case (1)
    then show ?case using r by (simp add: mymalloc_def)
  next
    case (2)
    then show ?case using r by (simp add: mymalloc_def)
  next
    case (3 i)
    have "0 < nblocks sz" using live_block_bounds(1) [OF 3(3) assms(2), of i "nblocks sz"] by simp
    then have "i < unat (memtblsize ! unat m)" using 3(2) by simp
    then have "mymalloc s m sz = Some (membase s ! unat m + of_nat i * 64, s')"
        "membase s ! unat m + of_nat i * 64 \<noteq> 0"
      using r 3(1) block_index(5) [OF assms, of i] membase_nonzero_ptr [OF assms, of i]
      by (simp_all add: mymalloc_def)
    then show ?case using r 3 by blast
  qed
qed

theorem mymalloc_correct_witness:
  "\<exists>p s'. mymalloc demo_pool 0 100 = Some (p, s') \<and> membase s' = membase demo_pool"
  using mymalloc_correct [OF demo_pool_inv, of 0 100] by auto

theorem pool_alloc_free_restores:
  assumes "mallco_live s L" "unat m < 3"
  shows "\<exists>ps s' s''. alloc_list mymalloc s m szs = Some (ps, s') \<and>
     free_list myfree s' m ps = Some s'' \<and> mallco_live s'' L"
  using pool.alloc_free_list assms by (simp add: valid_bank_def)

theorem pool_alloc_free_restores_witness:
  "\<exists>ps s' s''. alloc_list mymalloc demo_pool 1 [76, 60, 0] = Some (ps, s') \<and>
     free_list myfree s' 1 ps = Some s'' \<and>
     mallco_live s'' (\<lambda>m. regions demo_pool m (demo_live m))"
  by (rule pool_alloc_free_restores [OF demo_pool_live]) simp

lemma demo_in: "(2558, 2) \<in> demo_live 0"
  by (simp add: demo_live_def)

theorem my_mem_free_correct_witness:
  "\<exists>s'. my_mem_free demo_pool 0 (of_nat 2558 * 64) = Some (0, s') \<and>
     mallco_inv s' (demo_live(0 := demo_live 0 - {(2558, 2)}))"
  using my_mem_free_correct [OF demo_pool_inv, of 0] demo_in by fastforce

theorem my_mem_perused_exact_witness:
  "unat (my_mem_perused demo_pool 0) = (\<Sum>b\<in>demo_live 0. snd b) * 1000 div unat (memtblsize ! 0)"
  using my_mem_perused_exact [OF demo_pool_inv, of 0] by (simp add: demo_pool_def)

theorem myrealloc_correct_witness:
  "\<exists>new s'. myrealloc demo_pool 0 (membase demo_pool ! 0 + of_nat 2558 * 64) 200 = Some (new, s')"
  using myrealloc_correct [OF demo_pool_inv _ demo_in refl, of 200] by fastforce

end
