(* ===== verification/Net_Fifo.thy ===== *)
theory Net_Fifo
  imports Prelude
begin

text \<open>
  The two packet FIFOs of \<^verbatim>\<open>LWIP/lwip_app/udp_demo/udp_demo.c\<close>: \<^verbatim>\<open>netsend_*\<close> between the
  camera tasks and \<^verbatim>\<open>udp_send_task\<close>, \<^verbatim>\<open>netrecv_*\<close> between \<^verbatim>\<open>udp_thread\<close> and
  \<^verbatim>\<open>udp_dataprocess_task\<close>.  Each is a ring of 60 buffers of 76 bytes with a read and a write
  index.  The reader is handed the address of a buffer of the ring and not a copy, so it matters
  when that buffer is written again.

  The interface \<^verbatim>\<open>bounded_queue\<close> is what the tasks rely on; every sequence of reads and
  writes is shown to behave as a bounded queue of packets, and both FIFOs are its instances.
\<close>

section \<open>Configuration and state\<close>

definition NETSEND_FIFO_NUM :: u16 where "NETSEND_FIFO_NUM = 60"
definition NETRECV_FIFO_NUM :: u16 where "NETRECV_FIFO_NUM = 60"
definition NETSEND_LINE_SIZE :: u16 where "NETSEND_LINE_SIZE = 76"
definition NETRECV_LINE_SIZE :: u16 where "NETRECV_LINE_SIZE = 76"

text \<open>The buffers come from \<^verbatim>\<open>netmem_malloc\<close>, which obtains each by its own allocation; a
  buffer is named by its position in the array of pointers.\<close>

record netfifo =
  fifordpos :: u16
  fifowrpos :: u16
  fifobuf :: "u8 list list"

section \<open>The operations\<close>

text \<open>The copy loop of a write: \<^verbatim>\<open>n\<close> bytes from index \<^verbatim>\<open>i\<close>; \<^verbatim>\<open>None\<close> outside an object.\<close>

fun copy_line :: "u8 list \<Rightarrow> u8 list \<Rightarrow> nat \<Rightarrow> nat \<Rightarrow> u8 list option" where
  "copy_line dst src i 0 = Some dst"
| "copy_line dst src i (Suc n) =
     (if i < length dst \<and> i < length src then copy_line (dst[i := src ! i]) src (Suc i) n
      else None)"

definition netsend_fifo_read :: "netfifo \<Rightarrow> u16 \<Rightarrow> u8 \<times> u16 \<times> netfifo" where
  "netsend_fifo_read f buf =
     (if fifordpos f = fifowrpos f then (0, buf, f)
      else (let r = fifordpos f + 1;
                r' = (if NETSEND_FIFO_NUM \<le> r then 0 else r)
            in (1, r', f\<lparr>fifordpos := r'\<rparr>)))"

definition netsend_fifo_write :: "netfifo \<Rightarrow> u8 list \<Rightarrow> (u8 \<times> netfifo) option" where
  "netsend_fifo_write f buf =
     (let temp = fifowrpos f;
          w = fifowrpos f + 1;
          w' = (if NETSEND_FIFO_NUM \<le> w then 0 else w)
      in if fifordpos f = w' then Some (1, f\<lparr>fifowrpos := temp\<rparr>)
         else if unat w' < length (fifobuf f) then
           (case copy_line (fifobuf f ! unat w') buf 0 (unat NETSEND_LINE_SIZE) of
              None \<Rightarrow> None
            | Some line \<Rightarrow>
                Some (0, f\<lparr>fifowrpos := w', fifobuf := (fifobuf f)[unat w' := line]\<rparr>))
         else None)"

definition netrecv_fifo_read :: "netfifo \<Rightarrow> u16 \<Rightarrow> u8 \<times> u16 \<times> netfifo" where
  "netrecv_fifo_read f buf =
     (if fifordpos f = fifowrpos f then (0, buf, f)
      else (let r = fifordpos f + 1;
                r' = (if NETRECV_FIFO_NUM \<le> r then 0 else r)
            in (1, r', f\<lparr>fifordpos := r'\<rparr>)))"

definition netrecv_fifo_write :: "netfifo \<Rightarrow> u8 list \<Rightarrow> (u8 \<times> netfifo) option" where
  "netrecv_fifo_write f buf =
     (let temp = fifowrpos f;
          w = fifowrpos f + 1;
          w' = (if NETRECV_FIFO_NUM \<le> w then 0 else w)
      in if fifordpos f = w' then Some (1, f\<lparr>fifowrpos := temp\<rparr>)
         else if unat w' < length (fifobuf f) then
           (case copy_line (fifobuf f ! unat w') buf 0 (unat NETRECV_LINE_SIZE) of
              None \<Rightarrow> None
            | Some line \<Rightarrow>
                Some (0, f\<lparr>fifowrpos := w', fifobuf := (fifobuf f)[unat w' := line]\<rparr>))
         else None)"

section \<open>The contract\<close>

text \<open>Sequences of operations and what they return; the specification keeps a list.\<close>

datatype fifo_op = Write "u8 list" | Read

datatype fifo_out = Written | Refused | Got "u8 list" | Nothing

fun bq_step :: "nat \<Rightarrow> u8 list list \<Rightarrow> fifo_op \<Rightarrow> fifo_out \<times> u8 list list" where
  "bq_step cap q (Write x) = (if length q < cap then (Written, q @ [x]) else (Refused, q))"
| "bq_step cap [] Read = (Nothing, [])"
| "bq_step cap (x # q) Read = (Got x, q)"

fun bq_run :: "nat \<Rightarrow> u8 list list \<Rightarrow> fifo_op list \<Rightarrow> fifo_out list" where
  "bq_run cap q [] = []"
| "bq_run cap q (a # as) = (case bq_step cap q a of (r, q') \<Rightarrow> r # bq_run cap q' as)"

text \<open>The same on a FIFO of the program: a read looks at the buffer it is handed.\<close>

fun fifo_run :: "('f \<Rightarrow> u8 list \<Rightarrow> (u8 \<times> 'f) option) \<Rightarrow> ('f \<Rightarrow> u16 \<Rightarrow> u8 \<times> u16 \<times> 'f) \<Rightarrow>
    ('f \<Rightarrow> u16 \<Rightarrow> u8 list) \<Rightarrow> 'f \<Rightarrow> fifo_op list \<Rightarrow> fifo_out list option" where
  "fifo_run wr rd slot f [] = Some []"
| "fifo_run wr rd slot f (Write x # as) =
     (case wr f x of
        None \<Rightarrow> None
      | Some (e, f') \<Rightarrow>
          map_option ((#) (if e = 0 then Written else Refused)) (fifo_run wr rd slot f' as))"
| "fifo_run wr rd slot f (Read # as) =
     (case rd f 0 of
        (ok, p, f') \<Rightarrow>
          map_option ((#) (if ok = 0 then Nothing else Got (slot f' p))) (fifo_run wr rd slot f' as))"

fun op_ok :: "nat \<Rightarrow> fifo_op \<Rightarrow> bool" where
  "op_ok len (Write x) = (length x = len)"
| "op_ok len Read = True"

text \<open>Writing a list of packets.\<close>

fun write_all :: "('f \<Rightarrow> u8 list \<Rightarrow> (u8 \<times> 'f) option) \<Rightarrow> 'f \<Rightarrow> u8 list list \<Rightarrow> 'f option" where
  "write_all wr f [] = Some f"
| "write_all wr f (x # xs) =
     (case wr f x of None \<Rightarrow> None | Some (e, f') \<Rightarrow> write_all wr f' xs)"

locale bounded_queue =
  fixes wr :: "'f \<Rightarrow> u8 list \<Rightarrow> (u8 \<times> 'f) option"
    and rd :: "'f \<Rightarrow> u16 \<Rightarrow> u8 \<times> u16 \<times> 'f"
    and slot :: "'f \<Rightarrow> u16 \<Rightarrow> u8 list"
    and held :: "'f \<Rightarrow> u16"
    and ok :: "'f \<Rightarrow> bool"
    and contents :: "'f \<Rightarrow> u8 list list"
    and cap :: nat and len :: nat
  assumes contents_cap: "ok f \<Longrightarrow> length (contents f) \<le> cap"
    and write_room: "ok f \<Longrightarrow> length x = len \<Longrightarrow> length (contents f) < cap \<Longrightarrow>
      \<exists>f'. wr f x = Some (0, f') \<and> ok f' \<and> contents f' = contents f @ [x] \<and>
           held f' = held f \<and> slot f' (held f) = slot f (held f)"
    and write_full: "ok f \<Longrightarrow> length (contents f) = cap \<Longrightarrow> wr f x = Some (1, f)"
    and read_empty: "ok f \<Longrightarrow> contents f = [] \<Longrightarrow> rd f b = (0, b, f)"
    and read_some: "ok f \<Longrightarrow> contents f = x # xs \<Longrightarrow>
      \<exists>f'. rd f b = (1, held f', f') \<and> ok f' \<and> contents f' = xs \<and> slot f' (held f') = x"
begin

lemma write_cases:
  assumes "ok f" "length x = len"
  obtains (room) f' where "length (contents f) < cap" "wr f x = Some (0, f')" "ok f'"
      "contents f' = contents f @ [x]" "held f' = held f" "slot f' (held f) = slot f (held f)"
  | (full) "length (contents f) = cap" "wr f x = Some (1, f)"
  using contents_cap [OF assms(1)] write_room [OF assms] write_full [OF assms(1)]
  by (metis le_neq_implies_less)

lemma run_refines:
  assumes "ok f" "\<forall>a\<in>set as. op_ok len a"
  shows "fifo_run wr rd slot f as = Some (bq_run cap (contents f) as)"
  using assms
proof (induction as arbitrary: f)
  case Nil
  then show ?case by simp
next
  case (Cons a as)
  show ?case
  proof (cases a)
    case (Write x)
    then have x: "length x = len" using Cons.prems(2) by simp
    from Cons.prems(1) x show ?thesis
      by (cases rule: write_cases) (use Cons Write in auto)
  next
    case Read
    show ?thesis
    proof (cases "contents f")
      case Nil
      then show ?thesis using Read Cons read_empty by simp
    next
      case (Cons x xs)
      with read_some [OF Cons.prems(1) this, of 0] show ?thesis using Read Cons.IH Cons.prems by auto
    qed
  qed
qed

lemma held_stable:
  assumes "ok f" "\<forall>x\<in>set xs. length x = len"
  shows "\<exists>f'. write_all wr f xs = Some f' \<and> ok f' \<and> held f' = held f \<and>
     slot f' (held f) = slot f (held f) \<and> contents f' = take cap (contents f @ xs)"
  using assms
proof (induction xs arbitrary: f)
  case Nil
  then show ?case using contents_cap by simp
next
  case (Cons x xs)
  have x: "length x = len" using Cons.prems(2) by simp
  from Cons.prems(1) x show ?case
  proof (cases rule: write_cases)
    case (room f')
    with Cons.IH [of f'] Cons.prems(2) show ?thesis by auto
  next
    case full
    with Cons.IH [of f] Cons.prems show ?thesis by auto
  qed
qed

end

section \<open>The ring as a list\<close>

text \<open>Arithmetic of the indices, on natural numbers below 60.\<close>

lemma mod_60: "n < 120 \<Longrightarrow> n mod 60 = (if n < 60 then n else n - (60 :: nat))"
  by (simp add: mod_if)

lemma ring_arith:
  fixes r w i :: nat
  assumes "r < 60" "w < 60"
  shows "r = w \<longleftrightarrow> (w + 60 - r) mod 60 = 0"
    and "r = (w + 1) mod 60 \<longleftrightarrow> (w + 60 - r) mod 60 = 59"
    and "(w + 60 - r) mod 60 < 59 \<Longrightarrow> ((w + 1) mod 60 + 60 - r) mod 60 = (w + 60 - r) mod 60 + 1"
    and "(w + 60 - r) mod 60 \<noteq> 0 \<Longrightarrow> (w + 60 - r) mod 60 = (w + 60 - (r + 1) mod 60) mod 60 + 1"
    and "(r + 1 + (w + 60 - r) mod 60) mod 60 = (w + 1) mod 60"
    and "i < (w + 60 - r) mod 60 \<Longrightarrow> (w + 60 - r) mod 60 < 59 \<Longrightarrow> (r + 1 + i) mod 60 \<noteq> (w + 1) mod 60"
    and "i < 60 \<Longrightarrow> ((r + 1) mod 60 + 1 + i) mod 60 = (r + 1 + Suc i) mod 60"
proof -
  have d: "(w + 60 - r) mod 60 = (if r \<le> w then w - r else w + 60 - r)"
    using assms by (subst mod_60) auto
  have w1: "(w + 1) mod 60 = (if w = 59 then 0 else w + 1)" using assms by (subst mod_60) auto
  have r1: "(r + 1) mod 60 = (if r = 59 then 0 else r + 1)" using assms by (subst mod_60) auto
  show "r = w \<longleftrightarrow> (w + 60 - r) mod 60 = 0" using assms unfolding d by auto
  show "r = (w + 1) mod 60 \<longleftrightarrow> (w + 60 - r) mod 60 = 59"
    using assms unfolding d w1 by (auto split: if_splits)
  show "((w + 1) mod 60 + 60 - r) mod 60 = (w + 60 - r) mod 60 + 1" if "(w + 60 - r) mod 60 < 59"
    using that assms unfolding d w1 by (subst mod_60) (auto split: if_splits)
  show "(w + 60 - r) mod 60 = (w + 60 - (r + 1) mod 60) mod 60 + 1" if "(w + 60 - r) mod 60 \<noteq> 0"
    using that assms unfolding d r1 by (subst mod_60) (auto split: if_splits)
  show "(r + 1 + (w + 60 - r) mod 60) mod 60 = (w + 1) mod 60"
    using assms unfolding d w1 by (subst mod_60) (auto split: if_splits)
  show "(r + 1 + i) mod 60 \<noteq> (w + 1) mod 60"
    if "i < (w + 60 - r) mod 60" "(w + 60 - r) mod 60 < 59"
    using that assms unfolding d w1 by (subst mod_60) (auto split: if_splits)
  show "((r + 1) mod 60 + 1 + i) mod 60 = (r + 1 + Suc i) mod 60" if "i < 60"
    using mod_add_left_eq [of "r + 1" 60 "1 + i"] by (simp add: add.assoc)
qed

definition fifo_wf :: "netfifo \<Rightarrow> bool" where
  "fifo_wf f \<longleftrightarrow> unat (fifordpos f) < 60 \<and> unat (fifowrpos f) < 60 \<and> length (fifobuf f) = 60 \<and>
     (\<forall>l\<in>set (fifobuf f). length l = 76)"

definition fifo_count :: "netfifo \<Rightarrow> nat" where
  "fifo_count f = (unat (fifowrpos f) + 60 - unat (fifordpos f)) mod 60"

definition fifo_contents :: "netfifo \<Rightarrow> u8 list list" where
  "fifo_contents f = map (\<lambda>k. fifobuf f ! ((unat (fifordpos f) + 1 + k) mod 60)) [0..<fifo_count f]"

definition fifo_slot :: "netfifo \<Rightarrow> u16 \<Rightarrow> u8 list" where
  "fifo_slot f p = fifobuf f ! unat p"

lemma fifo_contents_nth:
  "i < fifo_count f \<Longrightarrow>
     fifo_contents f ! i = fifobuf f ! ((unat (fifordpos f) + 1 + i) mod 60)"
  by (simp add: fifo_contents_def)

lemma fifo_wfD:
  assumes "fifo_wf f"
  shows "unat (fifordpos f) < 60" "unat (fifowrpos f) < 60" "length (fifobuf f) = 60"
    "k < 60 \<Longrightarrow> length (fifobuf f ! k) = 76"
  using assms by (auto simp: fifo_wf_def)

definition next_pos :: "u16 \<Rightarrow> u16" where
  "next_pos w = (if 60 \<le> w + 1 then 0 else w + 1)"

lemma next_pos_nat:
  assumes "unat w < 60"
  shows "unat (next_pos w) = (unat w + 1) mod 60"
proof -
  have w1: "unat (w + 1) = unat w + 1" using assms by (intro unat_plus_one_word) simp
  have "60 \<le> w + 1 \<longleftrightarrow> 60 \<le> unat w + 1" using w1 by (simp add: word_le_nat_alt)
  then show ?thesis using assms w1 by (cases "unat w + 1 = 60") (auto simp: next_pos_def)
qed

lemma next_pos_less: "unat w < 60 \<Longrightarrow> unat (next_pos w) < 60"
  by (simp add: next_pos_nat)

lemma copy_line_ok:
  assumes "i + n \<le> length dst" "i + n \<le> length src"
  shows "copy_line dst src i n = Some (take i dst @ take n (drop i src) @ drop (i + n) dst)"
  using assms
proof (induction n arbitrary: dst i)
  case 0
  then show ?case by simp
next
  case (Suc n)
  have "copy_line (dst[i := src ! i]) src (Suc i) n =
      Some (take (Suc i) (dst[i := src ! i]) @ take n (drop (Suc i) src) @ drop (Suc i + n) (dst[i := src ! i]))"
    using Suc.prems by (intro Suc.IH) simp_all
  moreover have "take (Suc i) (dst[i := src ! i]) = take i dst @ [src ! i]"
    using Suc.prems by (simp add: take_Suc_conv_app_nth)
  moreover have "take (Suc n) (drop i src) = src ! i # take n (drop (Suc i) src)"
    using Suc.prems by (simp add: Cons_nth_drop_Suc [symmetric])
  ultimately show ?case using Suc.prems by simp
qed

lemma copy_line_76:
  "length dst = 76 \<Longrightarrow> length src = 76 \<Longrightarrow> copy_line dst src 0 76 = Some src"
  by (subst copy_line_ok) simp_all

section \<open>Each operation on the list\<close>

lemma ring_empty:
  assumes "fifo_wf f"
  shows "fifordpos f = fifowrpos f \<longleftrightarrow> fifo_count f = 0"
proof -
  have "unat (fifordpos f) = unat (fifowrpos f) \<longleftrightarrow> fifo_count f = 0"
    unfolding fifo_count_def by (rule ring_arith(1) [OF fifo_wfD(1,2) [OF assms]])
  then show ?thesis by (simp add: word_unat_eq_iff)
qed

lemma ring_full:
  assumes "fifo_wf f"
  shows "fifordpos f = next_pos (fifowrpos f) \<longleftrightarrow> fifo_count f = 59"
proof -
  have "unat (fifordpos f) = (unat (fifowrpos f) + 1) mod 60 \<longleftrightarrow> fifo_count f = 59"
    unfolding fifo_count_def by (rule ring_arith(2) [OF fifo_wfD(1,2) [OF assms]])
  then show ?thesis using next_pos_nat [OF fifo_wfD(2) [OF assms]] by (simp add: word_unat_eq_iff)
qed

lemma fifo_count_le: "fifo_wf f \<Longrightarrow> fifo_count f \<le> 59"
  using mod_less_divisor [of 60 "unat (fifowrpos f) + 60 - unat (fifordpos f)"]
  by (simp add: fifo_count_def)

definition ring_put :: "netfifo \<Rightarrow> u8 list \<Rightarrow> netfifo" where
  "ring_put f x = f\<lparr>fifowrpos := next_pos (fifowrpos f),
     fifobuf := (fifobuf f)[unat (next_pos (fifowrpos f)) := x]\<rparr>"

definition ring_get :: "netfifo \<Rightarrow> netfifo" where
  "ring_get f = f\<lparr>fifordpos := next_pos (fifordpos f)\<rparr>"

lemma ring_put_wf:
  assumes "fifo_wf f" "length x = 76"
  shows "fifo_wf (ring_put f x)"
  using assms next_pos_less [OF fifo_wfD(2) [OF assms(1)]]
  by (auto simp: fifo_wf_def ring_put_def dest!: subsetD [OF set_update_subset_insert])

lemma ring_put_contents:
  assumes wf: "fifo_wf f" and room: "fifo_count f < 59"
  shows "fifo_contents (ring_put f x) = fifo_contents f @ [x]"
proof (rule nth_eqI)
  let ?r = "unat (fifordpos f)" and ?w = "unat (fifowrpos f)"
  note lt = fifo_wfD(1,2) [OF wf]
  have nw: "unat (next_pos (fifowrpos f)) = (?w + 1) mod 60" by (rule next_pos_nat [OF lt(2)])
  have cnt: "fifo_count (ring_put f x) = fifo_count f + 1"
    using ring_arith(3) [OF lt] room nw unfolding fifo_count_def ring_put_def by simp
  then show "length (fifo_contents (ring_put f x)) = length (fifo_contents f @ [x])"
    by (simp add: fifo_contents_def)
  fix i
  assume "i < length (fifo_contents f @ [x])"
  then have i: "i \<le> fifo_count f" by (simp add: fifo_contents_def)
  have last: "(?r + 1 + fifo_count f) mod 60 = (?w + 1) mod 60"
    unfolding fifo_count_def by (rule ring_arith(5) [OF lt])
  have other: "(?r + 1 + i) mod 60 \<noteq> (?w + 1) mod 60" if "i < fifo_count f"
    using ring_arith(6) [OF lt] that room unfolding fifo_count_def by blast
  show "fifo_contents (ring_put f x) ! i = (fifo_contents f @ [x]) ! i"
  proof (cases "i = fifo_count f")
    case True
    then show ?thesis using cnt last nw fifo_wfD(3) [OF wf]
      by (simp add: fifo_contents_def ring_put_def nth_append)
  next
    case False
    then show ?thesis using cnt other i nw
      by (simp add: fifo_contents_def ring_put_def nth_append)
  qed
qed

lemma ring_get_wf: "fifo_wf f \<Longrightarrow> fifo_wf (ring_get f)"
  using next_pos_less fifo_wfD(1) by (auto simp: fifo_wf_def ring_get_def)

lemma ring_get_contents:
  assumes wf: "fifo_wf f" and some: "fifo_count f \<noteq> 0"
  shows "fifo_contents f = fifo_slot (ring_get f) (fifordpos (ring_get f)) # fifo_contents (ring_get f)"
proof (rule nth_eqI)
  let ?r = "unat (fifordpos f)" and ?w = "unat (fifowrpos f)"
  note lt = fifo_wfD(1,2) [OF wf]
  have nr: "unat (next_pos (fifordpos f)) = (?r + 1) mod 60" by (rule next_pos_nat [OF lt(1)])
  have cnt: "fifo_count f = fifo_count (ring_get f) + 1"
    using ring_arith(4) [OF lt] some nr unfolding fifo_count_def ring_get_def by simp
  then show "length (fifo_contents f) =
      length (fifo_slot (ring_get f) (fifordpos (ring_get f)) # fifo_contents (ring_get f))"
    by (simp add: fifo_contents_def)
  fix i
  assume "i < length (fifo_slot (ring_get f) (fifordpos (ring_get f)) # fifo_contents (ring_get f))"
  then have i: "i < fifo_count f" using cnt by (simp add: fifo_contents_def)
  show "fifo_contents f ! i =
      (fifo_slot (ring_get f) (fifordpos (ring_get f)) # fifo_contents (ring_get f)) ! i"
  proof (cases i)
    case 0
    then show ?thesis using i nr by (simp add: fifo_contents_def fifo_slot_def ring_get_def)
  next
    case (Suc k)
    have "k < 60" using i Suc fifo_count_le [OF wf] by simp
    then have "((?r + 1) mod 60 + 1 + k) mod 60 = (?r + 1 + Suc k) mod 60" by (rule ring_arith(7) [OF lt])
    moreover have "k < fifo_count (ring_get f)" using i cnt Suc by simp
    ultimately show ?thesis
      using i Suc nr by (simp add: fifo_contents_nth) (simp add: ring_get_def)
  qed
qed

lemma ring_put_held:
  assumes "fifo_wf f" "fifo_count f < 59"
  shows "fifo_slot (ring_put f x) (fifordpos f) = fifo_slot f (fifordpos f)"
proof -
  have "next_pos (fifowrpos f) \<noteq> fifordpos f" using ring_full [OF assms(1)] assms(2) by auto
  then show ?thesis by (simp add: fifo_slot_def ring_put_def word_unat_eq_iff)
qed

lemma length_fifo_contents [simp]: "length (fifo_contents f) = fifo_count f"
  by (simp add: fifo_contents_def)

section \<open>The contract on the two FIFOs\<close>

lemma netsend_write_eq:
  assumes "fifo_wf f"
  shows "fifo_count f = 59 \<Longrightarrow> netsend_fifo_write f x = Some (1, f)"
    and "fifo_count f \<noteq> 59 \<Longrightarrow> length x = 76 \<Longrightarrow> netsend_fifo_write f x = Some (0, ring_put f x)"
  using ring_full [OF assms] fifo_wfD(3,4) [OF assms] next_pos_less [OF fifo_wfD(2) [OF assms]]
  unfolding netsend_fifo_write_def NETSEND_FIFO_NUM_def next_pos_def [symmetric] Let_def
  by (auto simp: copy_line_76 NETSEND_LINE_SIZE_def ring_put_def)

lemma netrecv_write_eq:
  assumes "fifo_wf f"
  shows "fifo_count f = 59 \<Longrightarrow> netrecv_fifo_write f x = Some (1, f)"
    and "fifo_count f \<noteq> 59 \<Longrightarrow> length x = 76 \<Longrightarrow> netrecv_fifo_write f x = Some (0, ring_put f x)"
  using ring_full [OF assms] fifo_wfD(3,4) [OF assms] next_pos_less [OF fifo_wfD(2) [OF assms]]
  unfolding netrecv_fifo_write_def NETRECV_FIFO_NUM_def next_pos_def [symmetric] Let_def
  by (auto simp: copy_line_76 NETRECV_LINE_SIZE_def ring_put_def)

lemma net_read_eq:
  assumes "fifo_wf f"
  shows "netsend_fifo_read f b =
      (if fifo_count f = 0 then (0, b, f) else (1, fifordpos (ring_get f), ring_get f))"
    and "netrecv_fifo_read f b =
      (if fifo_count f = 0 then (0, b, f) else (1, fifordpos (ring_get f), ring_get f))"
  using ring_empty [OF assms]
  unfolding netsend_fifo_read_def netrecv_fifo_read_def NETSEND_FIFO_NUM_def NETRECV_FIFO_NUM_def
    next_pos_def [symmetric] Let_def
  by (auto simp: ring_get_def)

lemma contents_count: "fifo_contents f = [] \<longleftrightarrow> fifo_count f = 0"
  by (simp flip: length_0_conv)

lemma contents_some:
  assumes "fifo_wf f" "fifo_contents f = x # xs"
  shows "fifo_count f \<noteq> 0" "fifo_contents (ring_get f) = xs"
    "fifo_slot (ring_get f) (fifordpos (ring_get f)) = x"
proof -
  show c: "fifo_count f \<noteq> 0" using assms(2) contents_count [of f] by simp
  show "fifo_contents (ring_get f) = xs" "fifo_slot (ring_get f) (fifordpos (ring_get f)) = x"
    using ring_get_contents [OF assms(1) c] assms(2) by auto
qed

interpretation sendq: bounded_queue netsend_fifo_write netsend_fifo_read fifo_slot fifordpos
  fifo_wf fifo_contents 59 76
proof (unfold_locales, goal_cases)
  case (1 f)
  then show ?case by (simp add: fifo_count_le)
next
  case (2 f x)
  then show ?case
    by (auto simp: netsend_write_eq(2) ring_put_wf ring_put_contents ring_put_held) (simp add: ring_put_def)
next
  case (3 f x)
  then show ?case by (simp add: netsend_write_eq(1))
next
  case (4 f b)
  then show ?case by (simp add: net_read_eq(1) contents_count)
next
  case (5 f x xs b)
  then show ?case using contents_some [OF 5] by (simp add: net_read_eq(1) ring_get_wf)
qed

interpretation recvq: bounded_queue netrecv_fifo_write netrecv_fifo_read fifo_slot fifordpos
  fifo_wf fifo_contents 59 76
proof (unfold_locales, goal_cases)
  case (1 f)
  then show ?case by (simp add: fifo_count_le)
next
  case (2 f x)
  then show ?case
    by (auto simp: netrecv_write_eq(2) ring_put_wf ring_put_contents ring_put_held) (simp add: ring_put_def)
next
  case (3 f x)
  then show ?case by (simp add: netrecv_write_eq(1))
next
  case (4 f b)
  then show ?case by (simp add: net_read_eq(2) contents_count)
next
  case (5 f x xs b)
  then show ?case using contents_some [OF 5] by (simp add: net_read_eq(2) ring_get_wf)
qed

section \<open>Properties\<close>

text \<open>The FIFO at start-up: both indices 0, buffers of the right length.\<close>

definition netfifo_init :: "u8 list list \<Rightarrow> netfifo" where
  "netfifo_init bufs = \<lparr>fifordpos = 0, fifowrpos = 0, fifobuf = bufs\<rparr>"

lemma netfifo_init_wf:
  assumes "length bufs = 60" "\<forall>l\<in>set bufs. length l = 76"
  shows "fifo_wf (netfifo_init bufs)" "fifo_contents (netfifo_init bufs) = []"
  using assms by (simp_all add: fifo_wf_def netfifo_init_def contents_count fifo_count_def)

text \<open>C26: The send ring buffer behaves, for every sequence of writes and reads, as a first-in
  first-out queue of at most 59 packets: a write on a full queue is refused, a read on an empty
  one returns nothing, and no write goes out of bounds.\<close>

theorem netsend_fifo_refines:
  assumes "length bufs = 60" "\<forall>l\<in>set bufs. length l = 76" "\<forall>a\<in>set ops. op_ok 76 a"
  shows "fifo_run netsend_fifo_write netsend_fifo_read fifo_slot (netfifo_init bufs) ops =
     Some (bq_run 59 [] ops)"
  using sendq.run_refines [OF netfifo_init_wf(1) [OF assms(1,2)] assms(3)]
  by (simp add: netfifo_init_wf(2) [OF assms(1,2)])

theorem netsend_fifo_refines_witness:
  "fifo_run netsend_fifo_write netsend_fifo_read fifo_slot (netfifo_init (replicate 60 (replicate 76 0)))
     [Write (replicate 76 1), Write (replicate 76 2), Read, Read, Read] =
   Some [Written, Written, Got (replicate 76 1), Got (replicate 76 2), Nothing]"
  by (subst netsend_fifo_refines) simp_all

theorem netrecv_fifo_refines:
  assumes "length bufs = 60" "\<forall>l\<in>set bufs. length l = 76" "\<forall>a\<in>set ops. op_ok 76 a"
  shows "fifo_run netrecv_fifo_write netrecv_fifo_read fifo_slot (netfifo_init bufs) ops =
     Some (bq_run 59 [] ops)"
  using recvq.run_refines [OF netfifo_init_wf(1) [OF assms(1,2)] assms(3)]
  by (simp add: netfifo_init_wf(2) [OF assms(1,2)])

theorem netrecv_fifo_refines_witness:
  "fifo_run netrecv_fifo_write netrecv_fifo_read fifo_slot (netfifo_init (replicate 60 (replicate 76 0)))
     [Read, Write (replicate 76 7), Read] = Some [Nothing, Written, Got (replicate 76 7)]"
  by (subst netrecv_fifo_refines) simp_all

text \<open>C28: The line a read of the send queue hands out keeps its contents while the reader holds it,
  however many writes follow before the next read.\<close>

theorem netsend_held_buffer_stable:
  assumes "fifo_wf f" "fifo_contents f \<noteq> []" "\<forall>x\<in>set xs. length x = 76"
  shows "\<exists>p f1 f2. netsend_fifo_read f b = (1, p, f1) \<and> fifo_slot f1 p = hd (fifo_contents f) \<and>
     write_all netsend_fifo_write f1 xs = Some f2 \<and> fifo_slot f2 p = hd (fifo_contents f) \<and>
     fifo_contents f2 = take 59 (tl (fifo_contents f) @ xs)"
proof -
  obtain x rest where c: "fifo_contents f = x # rest" using assms(2) by (cases "fifo_contents f") auto
  obtain f1 where f1: "netsend_fifo_read f b = (1, fifordpos f1, f1)" "fifo_wf f1"
    "fifo_contents f1 = rest" "fifo_slot f1 (fifordpos f1) = x"
    using sendq.read_some [OF assms(1) c, of b] by blast
  from sendq.held_stable [OF f1(2) assms(3)] f1 c show ?thesis by auto
qed

theorem netsend_held_buffer_stable_witness:
  "\<exists>p f1 f2. netsend_fifo_read (ring_put (netfifo_init (replicate 60 (replicate 76 0))) (replicate 76 5)) 0
       = (1, p, f1) \<and>
     write_all netsend_fifo_write f1 (replicate 100 (replicate 76 9)) = Some f2 \<and>
     fifo_slot f2 p = replicate 76 5"
proof -
  let ?f0 = "netfifo_init (replicate 60 (replicate 76 0))"
  have wf: "fifo_wf ?f0" "fifo_contents ?f0 = []" by (rule netfifo_init_wf; simp)+
  have c: "fifo_count ?f0 = 0" using contents_count wf(2) by blast
  have f: "fifo_wf (ring_put ?f0 (replicate 76 5))"
      "fifo_contents (ring_put ?f0 (replicate 76 5)) = [replicate 76 5]"
    using ring_put_wf [OF wf(1), of "replicate 76 5"] ring_put_contents [OF wf(1), of "replicate 76 5"] wf(2) c
    by simp_all
  have "fifo_contents (ring_put ?f0 (replicate 76 5)) \<noteq> []" unfolding f(2) by simp
  from netsend_held_buffer_stable [OF f(1) this, of "replicate 100 (replicate 76 9)" 0] f(2)
  show ?thesis by fastforce
qed

end
