(* ===== verification/Net_Mem.thy ===== *)
theory Net_Mem
  imports Mem_Pool_Spec
begin

text \<open>
  The buffers of \<^verbatim>\<open>udp_demo.c\<close>: \<^verbatim>\<open>netmem_malloc\<close> obtains two camera line buffers from the
  internal pool and three image buffers, 120 FIFO buffers and two packet buffers from the
  external one; \<^verbatim>\<open>netmem_free\<close> returns them.  The functions are clients of the allocator and
  are stated over its two operations; the lemmas that need only the allocator's contract are
  proved in the locale \<^verbatim>\<open>pool_alloc\<close>.
\<close>

section \<open>State and operations\<close>

record 's netmem =
  netcam_line_buf0 :: u32
  netcam_line_buf1 :: u32
  imgbuf2592x480x32 :: "u32 list"
  netsendfifobuf :: "u32 list"
  netrecvfifobuf :: "u32 list"
  netsend_line_buf :: u32
  netrecv_line_buf :: u32
  npool :: 's

definition netcam_sizes :: "u32 list" where
  "netcam_sizes = [4096 * 4, 4096 * 4]"

definition netimg_sizes :: "u32 list" where
  "netimg_sizes = [2592 * 240 * 4, 2592 * 240 * 4, 2592 * 240 * 4]"

definition netfifo_sizes :: "u32 list" where
  "netfifo_sizes = replicate 60 76"

definition netline_sizes :: "u32 list" where
  "netline_sizes = [76, 76]"

definition netmem_free :: "('s \<Rightarrow> u8 \<Rightarrow> u32 \<Rightarrow> 's option) \<Rightarrow> 's netmem \<Rightarrow> 's netmem option" where
  "netmem_free free n =
     (case free_list free (npool n) SRAMIN [netcam_line_buf0 n, netcam_line_buf1 n] of
        None \<Rightarrow> None
      | Some s1 \<Rightarrow>
          (case free_list free s1 SRAMEX
                  (netsendfifobuf n @ netrecvfifobuf n @ [netsend_line_buf n, netrecv_line_buf n]
                   @ imgbuf2592x480x32 n) of
             None \<Rightarrow> None
           | Some s2 \<Rightarrow> Some (n\<lparr>npool := s2\<rparr>)))"

text \<open>The seven groups of calls in the order of the code.\<close>

definition netmem_collect :: "('s \<Rightarrow> u8 \<Rightarrow> u32 \<Rightarrow> (u32 \<times> 's) option) \<Rightarrow> 's \<Rightarrow> 's netmem option" where
  "netmem_collect alloc s =
     (case alloc_list alloc s SRAMIN netcam_sizes of None \<Rightarrow> None | Some (cam, s1) \<Rightarrow>
     (case alloc_list alloc s1 SRAMEX netimg_sizes of None \<Rightarrow> None | Some (img, s2) \<Rightarrow>
     (case alloc_list alloc s2 SRAMEX netfifo_sizes of None \<Rightarrow> None | Some (sb, s3) \<Rightarrow>
     (case alloc_list alloc s3 SRAMEX netfifo_sizes of None \<Rightarrow> None | Some (rcv, s4) \<Rightarrow>
     (case alloc_list alloc s4 SRAMEX netline_sizes of None \<Rightarrow> None | Some (line, s5) \<Rightarrow>
        Some \<lparr>netcam_line_buf0 = cam ! 0, netcam_line_buf1 = cam ! 1, imgbuf2592x480x32 = img,
          netsendfifobuf = sb, netrecvfifobuf = rcv, netsend_line_buf = line ! 0,
          netrecv_line_buf = line ! 1, npool = s5\<rparr>)))))"

definition netmem_malloc :: "('s \<Rightarrow> u8 \<Rightarrow> u32 \<Rightarrow> (u32 \<times> 's) option) \<Rightarrow>
    ('s \<Rightarrow> u8 \<Rightarrow> u32 \<Rightarrow> 's option) \<Rightarrow> 's \<Rightarrow> (u8 \<times> 's netmem) option" where
  "netmem_malloc alloc free s =
     (case netmem_collect alloc s of
        None \<Rightarrow> None
      | Some n \<Rightarrow>
          if netsendfifobuf n ! 59 = 0 \<or> netcam_line_buf1 n = 0 \<or> netcam_line_buf0 n = 0 \<or>
             netsend_line_buf n = 0 \<or> netrecvfifobuf n ! 59 = 0 \<or> netrecv_line_buf n = 0
          then map_option (\<lambda>n'. (1, n')) (netmem_free free n)
          else Some (0, n))"

section \<open>What follows from the allocator's contract\<close>

definition nonnull :: "u32 list \<Rightarrow> u32 list" where
  "nonnull ps = filter (\<lambda>p. p \<noteq> 0) ps"

definition obtained :: "u32 list \<Rightarrow> u32 list \<Rightarrow> region list \<Rightarrow> bool" where
  "obtained szs ps R \<longleftrightarrow> length ps = length szs \<and> distinct R \<and> map fst R = nonnull ps \<and>
     (\<forall>i<length szs. ps ! i \<noteq> 0 \<longrightarrow> (\<exists>c. unat (szs ! i) \<le> c \<and> (ps ! i, c) \<in> set R)) \<and>
     sorted_wrt (\<lambda>r r'. apart r' r) R"

definition netmem_ok :: "'s netmem \<Rightarrow> region list \<Rightarrow> region list \<Rightarrow> bool" where
  "netmem_ok n R0 R1 \<longleftrightarrow>
     obtained netcam_sizes [netcam_line_buf0 n, netcam_line_buf1 n] R0 \<and>
     obtained (netimg_sizes @ netfifo_sizes @ netfifo_sizes @ netline_sizes)
       (imgbuf2592x480x32 n @ netsendfifobuf n @ netrecvfifobuf n @
          [netsend_line_buf n, netrecv_line_buf n]) R1 \<and>
     length (imgbuf2592x480x32 n) = 3 \<and> length (netsendfifobuf n) = 60 \<and>
     length (netrecvfifobuf n) = 60"

lemma obtained_append:
  assumes "obtained szs ps R" "obtained szs' ps' R'" "\<forall>r\<in>set R'. \<forall>r'\<in>set R. apart r r'"
    and "set R' \<inter> set R = {}"
  shows "obtained (szs @ szs') (ps @ ps') (R @ R')"
  using assms unfolding obtained_def nonnull_def
  by (auto simp: nth_append sorted_wrt_append) (metis less_diff_conv add.commute linorder_not_less add_diff_inverse_nat nat_add_left_cancel_less)+

lemma plus_live_commute:
  "m \<noteq> m' \<Longrightarrow> plus_live (plus_live L m S) m' S' = plus_live (plus_live L m' S') m S"
  by (auto simp: plus_live_def fun_eq_iff)

lemma plus_live_other [simp]: "m \<noteq> m' \<Longrightarrow> plus_live L m S m' = L m'"
  by (simp add: plus_live_def)

context pool_alloc
begin

lemma alloc_obtained:
  assumes "live s L" "bank m"
  obtains ps s' R where "alloc_list alloc s m szs = Some (ps, s')" "live s' (plus_live L m (set R))"
    "obtained szs ps R" "set R \<inter> L m = {}" "\<forall>r\<in>set R. \<forall>r'\<in>L m. apart r r'"
  using alloc_list_ok [OF assms, of szs] unfolding obtained_def nonnull_def by metis

lemma alloc_obtained_more:
  assumes "live s (plus_live L m (set R))" "bank m" "obtained szs ps R" "set R \<inter> L m = {}"
  obtains ps' s' R' where "alloc_list alloc s m szs' = Some (ps', s')"
    "live s' (plus_live L m (set (R @ R')))" "obtained (szs @ szs') (ps @ ps') (R @ R')"
    "set (R @ R') \<inter> L m = {}" "length ps' = length szs'"
proof -
  obtain ps' s' R' where a: "alloc_list alloc s m szs' = Some (ps', s')"
    "live s' (plus_live (plus_live L m (set R)) m (set R'))"
    "obtained szs' ps' R'" "set R' \<inter> plus_live L m (set R) m = {}"
    "\<forall>r\<in>set R'. \<forall>r'\<in>plus_live L m (set R) m. apart r r'"
    by (rule alloc_obtained [OF assms(1,2), of szs'])
  have "obtained (szs @ szs') (ps @ ps') (R @ R')"
    using a(4,5) by (intro obtained_append [OF assms(3) a(3)]) auto
  then show thesis
    using a(2,4) assms(4) a(3) by (intro that [OF a(1)]) (auto simp: obtained_def)
qed

lemma netmem_collect_ok:
  assumes live: "live s L" and banks: "bank SRAMIN" "bank SRAMEX"
  obtains n R0 R1 where "netmem_collect alloc s = Some n" "netmem_ok n R0 R1"
    "live (npool n) (plus_live (plus_live L SRAMIN (set R0)) SRAMEX (set R1))"
    "set R0 \<inter> L SRAMIN = {}" "set R1 \<inter> L SRAMEX = {}"
    "netsendfifobuf n ! 59 \<noteq> 0 \<Longrightarrow> 0 \<notin> set (netsendfifobuf n)"
    "netrecvfifobuf n ! 59 \<noteq> 0 \<Longrightarrow> 0 \<notin> set (netrecvfifobuf n)"
proof -
  have ne: "SRAMIN \<noteq> SRAMEX" by (simp add: SRAMIN_def SRAMEX_def)
  obtain cam s1 R0 where cam: "alloc_list alloc s SRAMIN netcam_sizes = Some (cam, s1)"
    "live s1 (plus_live L SRAMIN (set R0))" "obtained netcam_sizes cam R0" "set R0 \<inter> L SRAMIN = {}"
    by (rule alloc_obtained [OF live banks(1), of netcam_sizes])
  let ?L = "plus_live L SRAMIN (set R0)"
  obtain img s2 Ra where img: "alloc_list alloc s1 SRAMEX netimg_sizes = Some (img, s2)"
    "live s2 (plus_live ?L SRAMEX (set Ra))" "obtained netimg_sizes img Ra" "set Ra \<inter> ?L SRAMEX = {}"
    by (rule alloc_obtained [OF cam(2) banks(2), of netimg_sizes])
  obtain sn s3 Rb where sn: "alloc_list alloc s2 SRAMEX netfifo_sizes = Some (sn, s3)"
    "live s3 (plus_live ?L SRAMEX (set (Ra @ Rb)))"
    "obtained (netimg_sizes @ netfifo_sizes) (img @ sn) (Ra @ Rb)"
    "set (Ra @ Rb) \<inter> ?L SRAMEX = {}" "length sn = length netfifo_sizes"
    by (rule alloc_obtained_more [OF img(2) banks(2) img(3,4), of netfifo_sizes])
  obtain rc s4 Rc where rc: "alloc_list alloc s3 SRAMEX netfifo_sizes = Some (rc, s4)"
    "live s4 (plus_live ?L SRAMEX (set ((Ra @ Rb) @ Rc)))"
    "obtained ((netimg_sizes @ netfifo_sizes) @ netfifo_sizes) ((img @ sn) @ rc) ((Ra @ Rb) @ Rc)"
    "set ((Ra @ Rb) @ Rc) \<inter> ?L SRAMEX = {}" "length rc = length netfifo_sizes"
    by (rule alloc_obtained_more [OF sn(2) banks(2) sn(3,4), of netfifo_sizes])
  obtain li s5 Rd where li: "alloc_list alloc s4 SRAMEX netline_sizes = Some (li, s5)"
    "live s5 (plus_live ?L SRAMEX (set (((Ra @ Rb) @ Rc) @ Rd)))"
    "obtained (((netimg_sizes @ netfifo_sizes) @ netfifo_sizes) @ netline_sizes)
       (((img @ sn) @ rc) @ li) (((Ra @ Rb) @ Rc) @ Rd)"
    "set (((Ra @ Rb) @ Rc) @ Rd) \<inter> ?L SRAMEX = {}" "length li = length netline_sizes"
    by (rule alloc_obtained_more [OF rc(2) banks(2) rc(3,4), of netline_sizes])
  have len: "length cam = 2" "length img = 3" "length sn = 60" "length rc = 60" "length li = 2"
    using cam(3) img(3) sn(5) rc(5) li(5)
    by (simp_all add: obtained_def netcam_sizes_def netimg_sizes_def netfifo_sizes_def netline_sizes_def)
  have sizes: "netfifo_sizes = replicate (Suc 59) 76" by (simp add: netfifo_sizes_def)
  have lasts: "last sn = sn ! 59" "last rc = rc ! 59"
    using len(3,4) by (subst last_conv_nth; force)+
  have all: "0 \<notin> set sn" if "sn ! 59 \<noteq> 0"
    by (rule alloc_list_equal [OF img(2) banks(2) sn(1) [unfolded sizes]]) (simp add: lasts that)
  have all': "0 \<notin> set rc" if "rc ! 59 \<noteq> 0"
    by (rule alloc_list_equal [OF sn(2) banks(2) rc(1) [unfolded sizes]]) (simp add: lasts that)
  have two: "[cam ! 0, cam ! 1] = cam" "[li ! 0, li ! 1] = li"
    using len(1,5) by (auto simp: numeral_2_eq_2 length_Suc_conv)
  show thesis
  proof (rule that)
    show "netmem_collect alloc s = Some \<lparr>netcam_line_buf0 = cam ! 0, netcam_line_buf1 = cam ! 1,
       imgbuf2592x480x32 = img, netsendfifobuf = sn, netrecvfifobuf = rc, netsend_line_buf = li ! 0,
       netrecv_line_buf = li ! 1, npool = s5\<rparr>" (is "_ = Some ?n")
      using cam(1) img(1) sn(1) rc(1) li(1) by (simp add: netmem_collect_def)
    show "netmem_ok ?n R0 (((Ra @ Rb) @ Rc) @ Rd)"
      using cam(3) li(3) len two by (simp add: netmem_ok_def)
    show "live (npool ?n) (plus_live ?L SRAMEX (set (((Ra @ Rb) @ Rc) @ Rd)))"
      using li(2) by simp
    show "set (((Ra @ Rb) @ Rc) @ Rd) \<inter> L SRAMEX = {}" using li(4) ne by simp
  qed (use cam(4) all all' in simp_all)
qed

end

context pool_alloc
begin

lemma netmem_free_ok:
  assumes live: "live (npool n) (plus_live (plus_live L SRAMIN (set R0)) SRAMEX (set R1))"
    and banks: "bank SRAMIN" "bank SRAMEX" and n: "netmem_ok n R0 R1"
    and fresh: "set R0 \<inter> L SRAMIN = {}" "set R1 \<inter> L SRAMEX = {}"
  shows "\<exists>n'. netmem_free free n = Some n' \<and> live (npool n') L"
proof -
  have ne: "SRAMIN \<noteq> SRAMEX" by (simp add: SRAMIN_def SRAMEX_def)
  let ?rest = "netsendfifobuf n @ netrecvfifobuf n @ [netsend_line_buf n, netrecv_line_buf n]"
  let ?img = "imgbuf2592x480x32 n" and ?L1 = "plus_live L SRAMEX (set R1)"
  have R0: "distinct R0" "map fst R0 = filter (\<lambda>p. p \<noteq> 0) [netcam_line_buf0 n, netcam_line_buf1 n]"
    and R1: "distinct R1" "map fst R1 = nonnull ?img @ nonnull ?rest"
    using n by (auto simp: netmem_ok_def obtained_def nonnull_def)
  have "live (npool n) (plus_live ?L1 SRAMIN (set R0))"
    using live plus_live_commute [OF ne] by simp
  then obtain s1 where s1: "free_list free (npool n) SRAMIN [netcam_line_buf0 n, netcam_line_buf1 n] = Some s1"
    "live s1 ?L1"
    using free_list_ok [OF _ banks(1) R0(1) _ R0(2)] fresh(1) ne by fastforce
  let ?k = "length (nonnull ?img)"
  let ?R = "drop ?k R1 @ take ?k R1"
  have R: "set ?R = set R1" by (metis append_take_drop_id set_append Un_commute)
  have "map fst (take ?k R1) = nonnull ?img" "map fst (drop ?k R1) = nonnull ?rest"
    using R1(2) by (simp_all flip: take_map drop_map)
  then have "map fst ?R = filter (\<lambda>p. p \<noteq> 0) (?rest @ ?img)" by (simp add: nonnull_def)
  moreover have "distinct ?R"
    using R1(1) by (metis append_take_drop_id distinct_append Int_commute)
  ultimately obtain s2 where "free_list free s1 SRAMEX (?rest @ ?img) = Some s2" "live s2 L"
    using free_list_ok [of s1 L SRAMEX ?R "?rest @ ?img"] s1(2) banks(2) fresh(2) unfolding R by blast
  then show ?thesis using s1(1) by (simp add: netmem_free_def)
qed

lemma netmem_malloc_cases:
  assumes live: "live s L" and banks: "bank SRAMIN" "bank SRAMEX"
  shows "\<exists>r n. netmem_malloc alloc free s = Some (r, n) \<and>
     (r = 1 \<and> live (npool n) L \<or>
      r = 0 \<and> netcam_line_buf0 n \<noteq> 0 \<and> netcam_line_buf1 n \<noteq> 0 \<and> netsend_line_buf n \<noteq> 0 \<and>
      netrecv_line_buf n \<noteq> 0 \<and> 0 \<notin> set (netsendfifobuf n) \<and> 0 \<notin> set (netrecvfifobuf n) \<and>
      (\<exists>R0 R1. netmem_ok n R0 R1 \<and>
         live (npool n) (plus_live (plus_live L SRAMIN (set R0)) SRAMEX (set R1))) \<and>
      (\<exists>n'. netmem_free free n = Some n' \<and> live (npool n') L))"
proof -
  obtain n R0 R1 where n: "netmem_collect alloc s = Some n" "netmem_ok n R0 R1"
    "live (npool n) (plus_live (plus_live L SRAMIN (set R0)) SRAMEX (set R1))"
    "set R0 \<inter> L SRAMIN = {}" "set R1 \<inter> L SRAMEX = {}"
    "netsendfifobuf n ! 59 \<noteq> 0 \<Longrightarrow> 0 \<notin> set (netsendfifobuf n)"
    "netrecvfifobuf n ! 59 \<noteq> 0 \<Longrightarrow> 0 \<notin> set (netrecvfifobuf n)"
    by (rule netmem_collect_ok [OF assms]) blast
  obtain n' where n': "netmem_free free n = Some n'" "live (npool n') L"
    using netmem_free_ok [OF n(3) banks n(2,4,5)] by blast
  show ?thesis
  proof (cases "netsendfifobuf n ! 59 = 0 \<or> netcam_line_buf1 n = 0 \<or> netcam_line_buf0 n = 0 \<or>
             netsend_line_buf n = 0 \<or> netrecvfifobuf n ! 59 = 0 \<or> netrecv_line_buf n = 0")
    case True
    then have "netmem_malloc alloc free s = Some (1, n')" using n(1) n'(1) by (simp add: netmem_malloc_def)
    then show ?thesis using n'(2) by blast
  next
    case False
    then have "netmem_malloc alloc free s = Some (0, n)" using n(1) by (simp add: netmem_malloc_def)
    moreover have "\<exists>R0 R1. netmem_ok n R0 R1 \<and>
         live (npool n) (plus_live (plus_live L SRAMIN (set R0)) SRAMEX (set R1))"
      using n(2,3) by blast
    moreover have "\<exists>n'. netmem_free free n = Some n' \<and> live (npool n') L" using n' by blast
    ultimately show ?thesis using False n(6,7) by blast
  qed
qed

end

section \<open>On a pool whose free blocks are its lowest ones\<close>

definition blocks_of :: "u32 list \<Rightarrow> nat" where
  "blocks_of szs = sum_list (map nblocks szs)"

definition stack_ptrs :: "u32 \<Rightarrow> nat \<Rightarrow> u32 list \<Rightarrow> u32 list" where
  "stack_ptrs base f szs =
     map (\<lambda>i. base + of_nat (f - blocks_of (take (Suc i) szs)) * 64) [0..<length szs]"

lemma stack_ptrs_Cons:
  "stack_ptrs base f (sz # szs) =
     (base + of_nat (f - nblocks sz) * 64) # stack_ptrs base (f - nblocks sz) szs"
  unfolding stack_ptrs_def
  by (simp add: blocks_of_def upt_conv_Cons map_Suc_upt [symmetric] diff_diff_eq del: upt_Suc)

definition same_other :: "mallco \<Rightarrow> mallco \<Rightarrow> u8 \<Rightarrow> bool" where
  "same_other s s' m \<longleftrightarrow> membase s' = membase s \<and> memrdy s' = memrdy s \<and>
     (\<forall>m'. m' \<noteq> m \<longrightarrow> memmap s' ! unat m' = memmap s ! unat m')"

lemma alloc_list_stack:
  assumes "mallco_inv s A" "unat m < 3" "low_free s m f" "0 \<notin> set szs" "blocks_of szs \<le> f"
  shows "\<exists>s' A'. alloc_list mymalloc s m szs = Some (stack_ptrs (membase s ! unat m) f szs, s') \<and>
     mallco_inv s' A' \<and> low_free s' m (f - blocks_of szs) \<and> same_other s s' m"
  using assms
proof (induction szs arbitrary: s A f)
  case Nil
  then show ?case by (auto simp: stack_ptrs_def blocks_of_def same_other_def)
next
  case (Cons sz szs)
  have sz: "sz \<noteq> 0" "nblocks sz \<le> f" "blocks_of szs \<le> f - nblocks sz"
    using Cons.prems(4,5) by (auto simp: blocks_of_def)
  obtain s1 where s1: "mymalloc s m sz = Some (membase s ! unat m + of_nat (f - nblocks sz) * 64, s1)"
    "mallco_inv s1 (A(m := insert (f - nblocks sz, nblocks sz) (A m)))"
    "low_free s1 m (f - nblocks sz)" "membase s1 = membase s" "memrdy s1 = memrdy s"
    "\<forall>m'. m' \<noteq> m \<longrightarrow> memmap s1 ! unat m' = memmap s ! unat m'"
    using mymalloc_stack [OF Cons.prems(1-3) sz(1,2)] by blast
  have "0 \<notin> set szs" using Cons.prems(4) by simp
  from Cons.IH [OF s1(2) Cons.prems(2) s1(3) this sz(3)] s1 show ?case
    by (auto simp: stack_ptrs_Cons same_other_def blocks_of_def diff_diff_eq)
qed

lemma alloc_list_too_big:
  assumes inv: "mallco_inv s A" and m: "unat m < 3" and low: "low_free s m f"
    and "\<forall>sz\<in>set szs. f < nblocks sz"
  shows "alloc_list mymalloc s m szs = Some (map (\<lambda>_. 0) szs, s)"
  using assms(4)
proof (induction szs)
  case Nil
  then show ?case by simp
next
  case (Cons sz szs)
  have rdy: "ensure_ready s m = s" using low by (simp add: low_free_def ensure_ready_def)
  have sz: "f < nblocks sz" using Cons.prems by simp
  then have "sz \<noteq> 0" by (auto simp: nblocks_def)
  moreover have "\<not> free_run (memmap (ensure_ready s m) ! unat m) i (nblocks sz)" for i
  proof
    assume "free_run (memmap (ensure_ready s m) ! unat m) i (nblocks sz)"
    then have r: "i + nblocks sz \<le> length (memmap s ! unat m)"
      "\<And>j. i \<le> j \<Longrightarrow> j < i + nblocks sz \<Longrightarrow> memmap s ! unat m ! j = 0"
      unfolding rdy by (auto simp: free_run_def)
    have "memmap s ! unat m ! (i + nblocks sz - 1) = 0" using sz by (intro r(2)) auto
    then have "i + nblocks sz - 1 < f" using low r(1) sz by (auto simp: low_free_def)
    then show False using sz by simp
  qed
  ultimately have "mymalloc s m sz = Some (0, s)"
    using my_mem_malloc_none [OF inv m, of sz] rdy by (simp add: mymalloc_def)
  then show ?case using Cons by simp
qed

lemma low_free_other:
  "low_free s m f \<Longrightarrow> same_other s s' m' \<Longrightarrow> m' \<noteq> m \<Longrightarrow> low_free s' m f"
  by (auto simp: low_free_def same_other_def)

section \<open>Properties\<close>

text \<open>The number of blocks each group of buffers takes.\<close>

lemma net_blocks:
  "blocks_of netcam_sizes = 512" "blocks_of netimg_sizes = 116640"
  "blocks_of netfifo_sizes = 120" "blocks_of netline_sizes = 4"
  by (simp_all add: blocks_of_def nblocks_def netcam_sizes_def netimg_sizes_def netfifo_sizes_def
      netline_sizes_def sum_list_replicate)

lemma net_sizes_nonzero:
  "0 \<notin> set netcam_sizes" "0 \<notin> set netimg_sizes" "0 \<notin> set netfifo_sizes" "0 \<notin> set netline_sizes"
  by (simp_all add: netcam_sizes_def netimg_sizes_def netfifo_sizes_def netline_sizes_def)

lemma low_free_le: "mallco_inv s A \<Longrightarrow> unat m < 3 \<Longrightarrow> low_free s m f \<Longrightarrow> f \<le> unat (memtblsize ! unat m)"
  using mallco_invD(4) by (simp add: low_free_def)

lemma stack_ptrs_nonzero:
  assumes inv: "mallco_inv s A" and m: "unat m < 3" and low: "low_free s m f"
    and "0 \<notin> set szs" "p \<in> set (stack_ptrs (membase s ! unat m) f szs)"
  shows "p \<noteq> 0"
proof -
  obtain i where i: "i < length szs"
    "p = membase s ! unat m + of_nat (f - blocks_of (take (Suc i) szs)) * 64"
    using assms(5) by (auto simp: stack_ptrs_def)
  have "szs \<noteq> []" "hd szs \<noteq> 0" using i(1) assms(4) by (cases szs; auto)+
  then have "0 < blocks_of (take (Suc i) szs)"
    using nblocks_pos [of "hd szs"] by (cases szs) (auto simp: blocks_of_def)
  moreover have "f \<le> unat (memtblsize ! unat m)" by (rule low_free_le [OF inv m low])
  moreover have "0 < unat (memtblsize ! unat m)" by (rule tblsize_bounds(1) [OF m])
  ultimately have "f - blocks_of (take (Suc i) szs) < unat (memtblsize ! unat m)" by linarith
  then show ?thesis using membase_nonzero_ptr [OF inv m] i(2) by simp
qed

lemma net_lengths:
  "length netcam_sizes = 2" "length netfifo_sizes = 60" "length netline_sizes = 2"
  by (simp_all add: netcam_sizes_def netfifo_sizes_def netline_sizes_def)

lemma nth_nonzero: "0 \<notin> set ps \<Longrightarrow> i < length ps \<Longrightarrow> ps ! i \<noteq> 0"
  by (metis nth_mem)

lemma length_stack_ptrs [simp]: "length (stack_ptrs b f szs) = length szs"
  by (simp add: stack_ptrs_def)

text \<open>Each group of buffers taken from a pool with room for it.\<close>

lemma netmem_fifos:
  assumes inv: "mallco_inv s A" and low: "low_free s 1 f" and f: "120 \<le> f"
  obtains sn s' A' where
    "alloc_list mymalloc s 1 netfifo_sizes = Some (sn, s')"
    "length sn = 60" "0 \<notin> set sn" "low_free s' 1 (f - 120)" "mallco_inv s' A'"
proof -
  obtain s1 A1 where a: "alloc_list mymalloc s 1 netfifo_sizes =
      Some (stack_ptrs (membase s ! unat (1 :: u8)) f netfifo_sizes, s1)"
    "mallco_inv s1 A1" "low_free s1 1 (f - blocks_of netfifo_sizes)" "same_other s s1 1"
    using alloc_list_stack [OF inv _ low net_sizes_nonzero(3)] f by (auto simp: net_blocks)
  show thesis
    using a stack_ptrs_nonzero [OF inv _ low net_sizes_nonzero(3)]
    by (intro that [OF a(1)]) (auto simp: net_blocks net_lengths)
qed

lemma netmem_lines:
  assumes inv: "mallco_inv s A" and low: "low_free s 1 f" and f: "4 \<le> f"
  obtains li s' A' where
    "alloc_list mymalloc s 1 netline_sizes = Some (li, s')" "length li = 2" "0 \<notin> set li"
    "mallco_inv s' A'"
proof -
  obtain s1 A1 where a: "alloc_list mymalloc s 1 netline_sizes =
      Some (stack_ptrs (membase s ! unat (1 :: u8)) f netline_sizes, s1)" "mallco_inv s1 A1"
    using alloc_list_stack [OF inv _ low net_sizes_nonzero(4)] f by (auto simp: net_blocks)
  show thesis
    using a stack_ptrs_nonzero [OF inv _ low net_sizes_nonzero(4)]
    by (intro that [OF a(1)]) (auto simp: net_lengths)
qed

lemma netmem_cams:
  assumes inv: "mallco_inv s A" and low: "low_free s 0 f0" "low_free s 1 f" and f: "512 \<le> f0"
  obtains cam s' A' where
    "alloc_list mymalloc s 0 netcam_sizes = Some (cam, s')" "length cam = 2" "0 \<notin> set cam"
    "mallco_inv s' A'" "low_free s' 1 f"
proof -
  obtain s1 A1 where a: "alloc_list mymalloc s 0 netcam_sizes =
      Some (stack_ptrs (membase s ! unat (0 :: u8)) f0 netcam_sizes, s1)" "mallco_inv s1 A1"
     "same_other s s1 0"
    using alloc_list_stack [OF inv _ low(1) net_sizes_nonzero(1)] f by (auto simp: net_blocks)
  show thesis
    using a stack_ptrs_nonzero [OF inv _ low(1) net_sizes_nonzero(1)] low_free_other [OF low(2) a(3)]
    by (intro that [OF a(1)]) (auto simp: net_lengths)
qed

lemma netmem_malloc_tail:
  assumes cam: "alloc_list mymalloc s 0 netcam_sizes = Some (cam, s1)" "length cam = 2" "0 \<notin> set cam"
    and img: "alloc_list mymalloc s1 1 netimg_sizes = Some (img, s2)"
    and rest: "mallco_inv s2 A" "low_free s2 1 f" "244 \<le> f"
  shows "\<exists>n. netmem_malloc mymalloc myfree s = Some (0, n) \<and> imgbuf2592x480x32 n = img \<and>
     netcam_line_buf0 n \<noteq> 0 \<and> netcam_line_buf1 n \<noteq> 0 \<and> 0 \<notin> set (netsendfifobuf n) \<and>
     0 \<notin> set (netrecvfifobuf n) \<and> netsend_line_buf n \<noteq> 0 \<and> netrecv_line_buf n \<noteq> 0"
proof -
  obtain sn s3 A3 where sn: "alloc_list mymalloc s2 1 netfifo_sizes = Some (sn, s3)" "length sn = 60"
    "0 \<notin> set sn" "low_free s3 1 (f - 120)" "mallco_inv s3 A3"
    by (rule netmem_fifos [OF rest(1,2)]) (use rest(3) in simp)
  obtain rc s4 A4 where rc: "alloc_list mymalloc s3 1 netfifo_sizes = Some (rc, s4)" "length rc = 60"
    "0 \<notin> set rc" "low_free s4 1 (f - 120 - 120)" "mallco_inv s4 A4"
    by (rule netmem_fifos [OF sn(5,4)]) (use rest(3) in simp)
  obtain li s5 A5 where li: "alloc_list mymalloc s4 1 netline_sizes = Some (li, s5)" "length li = 2"
    "0 \<notin> set li" "mallco_inv s5 A5"
    by (rule netmem_lines [OF rc(5,4)]) (use rest(3) in simp)
  have "cam ! 0 \<noteq> 0" "cam ! 1 \<noteq> 0" "li ! 0 \<noteq> 0" "li ! 1 \<noteq> 0" "sn ! 59 \<noteq> 0" "rc ! 59 \<noteq> 0"
    using cam(2,3) li(2,3) sn(2,3) rc(2,3) by (simp_all add: nth_nonzero)
  then show ?thesis
    using cam(1) img sn(1,3) rc(1,3) li(1)
    by (simp add: netmem_malloc_def netmem_collect_def SRAMIN_def SRAMEX_def)
qed

text \<open>C27: netmem_malloc either returns 1 with every block it had taken given back, or returns 0 with
  non-null camera line, send and receive buffers and all 60 buffers of each FIFO non-null; the
  blocks taken from each of the two banks are apart from each other and from those in use in that
  bank, and netmem_free gives back exactly these. The image buffers may be null.\<close>

theorem netmem_malloc_leak_free:
  assumes "mallco_live s L"
  shows "\<exists>r n. netmem_malloc mymalloc myfree s = Some (r, n) \<and>
     (r = 1 \<and> mallco_live (npool n) L \<or>
      r = 0 \<and> netcam_line_buf0 n \<noteq> 0 \<and> netcam_line_buf1 n \<noteq> 0 \<and> netsend_line_buf n \<noteq> 0 \<and>
      netrecv_line_buf n \<noteq> 0 \<and> 0 \<notin> set (netsendfifobuf n) \<and> 0 \<notin> set (netrecvfifobuf n) \<and>
      (\<exists>R0 R1. netmem_ok n R0 R1 \<and>
         mallco_live (npool n) (plus_live (plus_live L SRAMIN (set R0)) SRAMEX (set R1))) \<and>
      (\<exists>n'. netmem_free myfree n = Some n' \<and> mallco_live (npool n') L))"
  by (rule pool.netmem_malloc_cases [OF assms]) (simp_all add: valid_bank_def)

theorem netmem_malloc_leak_free_witness:
  "\<exists>r n. netmem_malloc mymalloc myfree demo_pool = Some (r, n)"
  using netmem_malloc_leak_free [OF demo_pool_live] by blast

theorem netmem_malloc_complete:
  assumes inv: "mallco_inv s A" and low: "low_free s 0 f0" "low_free s 1 f"
    and room: "512 \<le> f0" "116884 \<le> f"
  shows "\<exists>n. netmem_malloc mymalloc myfree s = Some (0, n) \<and> 0 \<notin> set (imgbuf2592x480x32 n) \<and>
     netcam_line_buf0 n \<noteq> 0 \<and> netcam_line_buf1 n \<noteq> 0 \<and> 0 \<notin> set (netsendfifobuf n) \<and>
     0 \<notin> set (netrecvfifobuf n) \<and> netsend_line_buf n \<noteq> 0 \<and> netrecv_line_buf n \<noteq> 0"
proof -
  obtain cam s1 A1 where cam: "alloc_list mymalloc s 0 netcam_sizes = Some (cam, s1)"
    "length cam = 2" "0 \<notin> set cam" "mallco_inv s1 A1" "low_free s1 1 f"
    by (rule netmem_cams [OF inv low room(1)])
  obtain s2 A2 where img: "alloc_list mymalloc s1 1 netimg_sizes =
      Some (stack_ptrs (membase s1 ! unat (1 :: u8)) f netimg_sizes, s2)"
    "mallco_inv s2 A2" "low_free s2 1 (f - 116640)"
    using alloc_list_stack [OF cam(4) _ cam(5) net_sizes_nonzero(2)] room(2) by (auto simp: net_blocks)
  have "0 \<notin> set (stack_ptrs (membase s1 ! unat (1 :: u8)) f netimg_sizes)"
    using stack_ptrs_nonzero [OF cam(4) _ cam(5) net_sizes_nonzero(2)] by auto
  with netmem_malloc_tail [OF cam(1-3) img] room(2) show ?thesis by fastforce
qed

theorem netmem_malloc_images_unchecked:
  assumes inv: "mallco_inv s A" and low: "low_free s 0 f0" "low_free s 1 f"
    and room: "512 \<le> f0" "244 \<le> f" "f < 38880"
  shows "\<exists>n. netmem_malloc mymalloc myfree s = Some (0, n) \<and> imgbuf2592x480x32 n = [0, 0, 0]"
proof -
  obtain cam s1 A1 where cam: "alloc_list mymalloc s 0 netcam_sizes = Some (cam, s1)"
    "length cam = 2" "0 \<notin> set cam" "mallco_inv s1 A1" "low_free s1 1 f"
    by (rule netmem_cams [OF inv low room(1)])
  have "\<forall>sz\<in>set netimg_sizes. f < nblocks sz"
    using room(3) by (simp add: netimg_sizes_def nblocks_def)
  from alloc_list_too_big [OF cam(4) _ cam(5) this]
  have img: "alloc_list mymalloc s1 1 netimg_sizes = Some ([0, 0, 0], s1)"
    by (simp add: netimg_sizes_def)
  from netmem_malloc_tail [OF cam(1-3) img cam(4,5) room(2)] show ?thesis by blast
qed

text \<open>Two concrete controllers: both pools initialised and empty, as after \<^verbatim>\<open>my_mem_init\<close>; and
  the external pool with its lower 300 blocks left.\<close>

definition pool_with_low :: "nat \<Rightarrow> nat \<Rightarrow> mallco" where
  "pool_with_low f0 f1 = \<lparr>membase = [0x24000000, 0xC01F4000, 0x20000000],
     memmap = [replicate f0 0 @ replicate (2560 - f0) (of_nat (2560 - f0)),
               replicate f1 0 @ replicate (462592 - f1) (of_nat (462592 - f1)), replicate 960 0],
     memrdy = [1, 1, 1], ram = (\<lambda>_. 0)\<rparr>"

definition upper_block :: "nat \<Rightarrow> nat \<Rightarrow> block set" where
  "upper_block f t = (if f < t then {(f, t - f)} else {})"

lemma upper_alloc_rel:
  assumes "f \<le> t" "t < 2 ^ 31"
  shows "alloc_rel (replicate f 0 @ replicate (t - f) (of_nat (t - f))) (upper_block f t)"
  using assms by (auto simp: alloc_rel_def in_block_def upper_block_def nth_append)

lemma bank_cases: "unat (m :: u8) < 3 \<Longrightarrow> m = 0 \<or> m = 1 \<or> m = 2"
  by (drule less_3_cases) (auto simp: word_unat_eq_iff)

lemma pool_with_low_inv:
  assumes "f0 \<le> 2560" "f1 \<le> 462592"
  shows "mallco_inv (pool_with_low f0 f1) ((\<lambda>_. {})(0 := upper_block f0 2560, 1 := upper_block f1 462592))"
proof (rule mallco_invI)
  show "bank_ok (pool_with_low f0 f1) k" if "k < 3" for k
    using less_3_cases [OF that] assms
    by (auto simp: bank_ok_def pool_with_low_def memsize_def memtblsize_def)
  show "alloc_rel (memmap (pool_with_low f0 f1) ! unat m)
      (((\<lambda>_. {})(0 := upper_block f0 2560, 1 := upper_block f1 462592)) m)"
    if "unat m < 3" for m :: u8
    using bank_cases [OF that] upper_alloc_rel [OF assms(1)] upper_alloc_rel [OF assms(2)]
      alloc_rel_empty [of 960]
    by (auto simp: pool_with_low_def)
  show "((\<lambda>_. {})(0 := upper_block f0 2560, 1 := upper_block f1 462592)) m = {}"
    if "unat m < 3" "memrdy (pool_with_low f0 f1) ! unat m = 0" for m :: u8
    using that less_3_cases [OF that(1)] by (auto simp: pool_with_low_def)
qed (simp_all add: pool_with_low_def)

lemma pool_with_low_free:
  assumes "f0 \<le> 2560" "f1 \<le> 462592"
  shows "low_free (pool_with_low f0 f1) 0 f0" "low_free (pool_with_low f0 f1) 1 f1"
  using assms block_word_nonzero(1) [of "2560 - f0"] block_word_nonzero(1) [of "462592 - f1"]
  by (auto simp: low_free_def pool_with_low_def nth_append)

theorem netmem_malloc_complete_witness:
  "\<exists>n. netmem_malloc mymalloc myfree (pool_with_low 2560 462592) = Some (0, n) \<and>
     0 \<notin> set (imgbuf2592x480x32 n)"
  using netmem_malloc_complete [OF pool_with_low_inv [of 2560 462592]
      pool_with_low_free [of 2560 462592]]
  by auto

theorem netmem_malloc_images_unchecked_witness:
  "\<exists>n. netmem_malloc mymalloc myfree (pool_with_low 2560 300) = Some (0, n) \<and>
     imgbuf2592x480x32 n = [0, 0, 0]"
  using netmem_malloc_images_unchecked [OF pool_with_low_inv [of 2560 300]
      pool_with_low_free [of 2560 300]]
  by auto

end
