(* ===== verification/I2c_Bus.thy ===== *)
theory I2c_Bus
  imports Prelude
begin

text \<open>
  The bit-banged I2C master of \<^verbatim>\<open>HARDWARE/IIC/myiic.c\<close> at the level of its two pins.

  The chip on the other side of the wires is not code of the repository: it is a parameter, a
  record \<^verbatim>\<open>i2c_dev\<close> of three functions on its own state (what it does when it sees the two
  lines, whether it pulls SDA low, what the passing of time does).  The master functions are
  defined over every such device.  \<^verbatim>\<open>target\<close> is the part of the I2C standard that every
  chip on these buses documents (START, STOP, bits sampled while SCL is high, the ninth clock
  as acknowledge), over a byte-level \<^verbatim>\<open>i2c_core\<close>; a device is described by saying that it
  behaves as such a target.
\<close>

section \<open>Pins and the device on the bus\<close>

record 'd i2c_dev =
  react :: "'d \<Rightarrow> bool \<Rightarrow> bool \<Rightarrow> 'd"
  pulls :: "'d \<Rightarrow> bool"
  elapse :: "int \<Rightarrow> 'd \<Rightarrow> 'd"

text \<open>The output latches of the two pins, the direction of SDA, and the device.\<close>

record 'd bus =
  scl :: bool
  sda :: bool
  sda_out :: bool
  dev :: 'd

text \<open>SDA is pulled up: it is low when the master or the device drives it low.\<close>

definition line :: "'d i2c_dev \<Rightarrow> 'd bus \<Rightarrow> bool" where
  "line D b = ((sda_out b \<longrightarrow> sda b) \<and> \<not> pulls D (dev b))"

definition see :: "'d i2c_dev \<Rightarrow> 'd bus \<Rightarrow> 'd bus" where
  "see D b = b\<lparr>dev := react D (dev b) (scl b) (line D b)\<rparr>"

text \<open>The macros of \<^verbatim>\<open>myiic.h\<close>.  Changing the direction clears the two mode bits (input)
  before it sets them.\<close>

definition IIC_SCL :: "'d i2c_dev \<Rightarrow> bool \<Rightarrow> 'd bus \<Rightarrow> 'd bus" where
  "IIC_SCL D n b = see D (b\<lparr>scl := n\<rparr>)"

definition IIC_SDA :: "'d i2c_dev \<Rightarrow> bool \<Rightarrow> 'd bus \<Rightarrow> 'd bus" where
  "IIC_SDA D n b = see D (b\<lparr>sda := n\<rparr>)"

definition SDA_IN :: "'d i2c_dev \<Rightarrow> 'd bus \<Rightarrow> 'd bus" where
  "SDA_IN D b = see D (b\<lparr>sda_out := False\<rparr>)"

definition SDA_OUT :: "'d i2c_dev \<Rightarrow> 'd bus \<Rightarrow> 'd bus" where
  "SDA_OUT D b = see D ((see D (b\<lparr>sda_out := False\<rparr>))\<lparr>sda_out := True\<rparr>)"

definition READ_SDA :: "'d i2c_dev \<Rightarrow> 'd bus \<Rightarrow> bool" where
  "READ_SDA D b = line D b"

text \<open>The delays, in microseconds.\<close>

definition delay_us :: "'d i2c_dev \<Rightarrow> int \<Rightarrow> 'd bus \<Rightarrow> 'd bus" where
  "delay_us D n b = b\<lparr>dev := elapse D n (dev b)\<rparr>"

definition delay_ms :: "'d i2c_dev \<Rightarrow> int \<Rightarrow> 'd bus \<Rightarrow> 'd bus" where
  "delay_ms D n b = delay_us D (n * 1000) b"

section \<open>The functions of myiic.c\<close>

definition IIC_Init :: "'d i2c_dev \<Rightarrow> 'd bus \<Rightarrow> 'd bus" where
  "IIC_Init D b =
     (let b = see D (b\<lparr>sda_out := True\<rparr>);
          b = IIC_SDA D True b
      in IIC_SCL D True b)"

definition IIC_Start :: "'d i2c_dev \<Rightarrow> 'd bus \<Rightarrow> 'd bus" where
  "IIC_Start D b =
     (let b = SDA_OUT D b;
          b = IIC_SDA D True b;
          b = IIC_SCL D True b;
          b = delay_us D 4 b;
          b = IIC_SDA D False b;
          b = delay_us D 4 b
      in IIC_SCL D False b)"

definition IIC_Stop :: "'d i2c_dev \<Rightarrow> 'd bus \<Rightarrow> 'd bus" where
  "IIC_Stop D b =
     (let b = SDA_OUT D b;
          b = IIC_SCL D False b;
          b = IIC_SDA D False b;
          b = delay_us D 4 b;
          b = IIC_SCL D True b;
          b = delay_us D 4 b;
          b = IIC_SDA D True b
      in delay_us D 4 b)"

text \<open>The polling loop of \<^verbatim>\<open>IIC_Wait_Ack\<close>; \<^verbatim>\<open>ucErrTime\<close> never exceeds 251, so its type
  \<^verbatim>\<open>u8\<close> plays no role.\<close>

function wait_ack_loop :: "'d i2c_dev \<Rightarrow> nat \<Rightarrow> 'd bus \<Rightarrow> u8 \<times> 'd bus" where
  "wait_ack_loop D ucErrTime b =
     (if READ_SDA D b then
        (let ucErrTime' = ucErrTime + 1
         in if 250 < ucErrTime' then (1, IIC_Stop D b) else wait_ack_loop D ucErrTime' b)
      else (0, IIC_SCL D False b))"
  by pat_completeness auto
termination by (relation "measure (\<lambda>(D, n, b). 251 - n)") auto

definition IIC_Wait_Ack :: "'d i2c_dev \<Rightarrow> 'd bus \<Rightarrow> u8 \<times> 'd bus" where
  "IIC_Wait_Ack D b =
     (let b = SDA_IN D b;
          b = delay_us D 1 (IIC_SDA D True b);
          b = delay_us D 1 (IIC_SCL D True b)
      in wait_ack_loop D 0 b)"

definition IIC_Ack :: "'d i2c_dev \<Rightarrow> 'd bus \<Rightarrow> 'd bus" where
  "IIC_Ack D b =
     (let b = IIC_SCL D False b;
          b = SDA_OUT D b;
          b = IIC_SDA D False b;
          b = delay_us D 2 b;
          b = IIC_SCL D True b;
          b = delay_us D 2 b
      in IIC_SCL D False b)"

definition IIC_NAck :: "'d i2c_dev \<Rightarrow> 'd bus \<Rightarrow> 'd bus" where
  "IIC_NAck D b =
     (let b = IIC_SCL D False b;
          b = SDA_OUT D b;
          b = IIC_SDA D True b;
          b = delay_us D 2 b;
          b = IIC_SCL D True b;
          b = delay_us D 2 b
      in IIC_SCL D False b)"

text \<open>One round of the loop of \<^verbatim>\<open>IIC_Send_Byte\<close>, and the loop with the rounds left.\<close>

definition send_bit :: "'d i2c_dev \<Rightarrow> bool \<Rightarrow> 'd bus \<Rightarrow> 'd bus" where
  "send_bit D v b =
     (let b = IIC_SDA D v b;
          b = delay_us D 2 b;
          b = IIC_SCL D True b;
          b = delay_us D 2 b;
          b = IIC_SCL D False b
      in delay_us D 2 b)"

fun send_loop :: "'d i2c_dev \<Rightarrow> nat \<Rightarrow> u8 \<Rightarrow> 'd bus \<Rightarrow> 'd bus" where
  "send_loop D 0 txd b = b"
| "send_loop D (Suc n) txd b =
     send_loop D n (push_bit 1 txd) (send_bit D (drop_bit 7 (txd AND 0x80) \<noteq> 0) b)"

definition IIC_Send_Byte :: "'d i2c_dev \<Rightarrow> u8 \<Rightarrow> 'd bus \<Rightarrow> 'd bus" where
  "IIC_Send_Byte D txd b =
     (let b = SDA_OUT D b;
          b = IIC_SCL D False b
      in send_loop D 8 txd b)"

fun read_loop :: "'d i2c_dev \<Rightarrow> nat \<Rightarrow> u8 \<Rightarrow> 'd bus \<Rightarrow> u8 \<times> 'd bus" where
  "read_loop D 0 receive b = (receive, b)"
| "read_loop D (Suc n) receive b =
     (let b = IIC_SCL D False b;
          b = delay_us D 2 b;
          b = IIC_SCL D True b;
          receive = push_bit 1 receive;
          receive = (if READ_SDA D b then receive + 1 else receive);
          b = delay_us D 1 b
      in read_loop D n receive b)"

definition IIC_Read_Byte :: "'d i2c_dev \<Rightarrow> u8 \<Rightarrow> 'd bus \<Rightarrow> u8 \<times> 'd bus" where
  "IIC_Read_Byte D ack b =
     (let b = SDA_IN D b;
          (receive, b) = read_loop D 8 0 b
      in (receive, if ack = 0 then IIC_NAck D b else IIC_Ack D b))"

section \<open>The target side of the I2C standard\<close>

text \<open>What a chip does with whole bytes: its address, whether it answers now, and what a byte
  written to it, a byte read from it, being addressed and the STOP condition do.  Times are in
  microseconds.\<close>

record 'c i2c_core =
  c_addr :: u8
  c_ready :: "'c \<Rightarrow> int \<Rightarrow> bool"
  c_select :: "'c \<Rightarrow> bool \<Rightarrow> 'c"
  c_write :: "'c \<Rightarrow> u8 \<Rightarrow> 'c"
  c_read :: "'c \<Rightarrow> u8 \<times> 'c"
  c_stop :: "'c \<Rightarrow> int \<Rightarrow> 'c"

datatype phase =
    Idle
  | RxBits bool "bool list"
  | RxAck bool
  | TxBits u8 nat
  | TxAck bool

record 'c target =
  t_scl :: bool
  t_sda :: bool
  t_phase :: phase
  t_core :: 'c
  t_now :: int

definition t_load :: "'c i2c_core \<Rightarrow> 'c target \<Rightarrow> 'c target" where
  "t_load C t = (case c_read C (t_core t) of (v, c) \<Rightarrow> t\<lparr>t_phase := TxBits v 0, t_core := c\<rparr>)"

text \<open>SCL goes high: a bit is sampled.\<close>

definition t_rise :: "bool \<Rightarrow> 'c target \<Rightarrow> 'c target" where
  "t_rise v t =
     (case t_phase t of
        RxBits a bs \<Rightarrow> t\<lparr>t_phase := RxBits a (bs @ [v])\<rparr>
      | TxAck _ \<Rightarrow> t\<lparr>t_phase := TxAck (\<not> v)\<rparr>
      | _ \<Rightarrow> t)"

text \<open>SCL goes low: the target prepares what it does during the next clock.\<close>

definition t_byte :: "'c i2c_core \<Rightarrow> bool \<Rightarrow> u8 \<Rightarrow> 'c target \<Rightarrow> 'c target" where
  "t_byte C a v t =
     (if a then
        (if v AND 0xFE = c_addr C \<and> c_ready C (t_core t) (t_now t)
         then t\<lparr>t_phase := RxAck (bit v 0), t_core := c_select C (t_core t) (bit v 0)\<rparr>
         else t\<lparr>t_phase := Idle\<rparr>)
      else t\<lparr>t_phase := RxAck False, t_core := c_write C (t_core t) v\<rparr>)"

definition t_fall :: "'c i2c_core \<Rightarrow> 'c target \<Rightarrow> 'c target" where
  "t_fall C t =
     (case t_phase t of
        Idle \<Rightarrow> t
      | RxBits a bs \<Rightarrow> (if length bs = 8 then t_byte C a (byte_of_msb bs) t else t)
      | RxAck rd \<Rightarrow> (if rd then t_load C t else t\<lparr>t_phase := RxBits False []\<rparr>)
      | TxBits v i \<Rightarrow> t\<lparr>t_phase := (if i < 7 then TxBits v (i + 1) else TxAck False)\<rparr>
      | TxAck again \<Rightarrow> (if again then t_load C t else t\<lparr>t_phase := Idle\<rparr>))"

definition t_react :: "'c i2c_core \<Rightarrow> 'c target \<Rightarrow> bool \<Rightarrow> bool \<Rightarrow> 'c target" where
  "t_react C t sc sd =
     (let t' = (if t_scl t \<and> sc \<and> t_sda t \<and> \<not> sd then t\<lparr>t_phase := RxBits True []\<rparr>
                else if t_scl t \<and> sc \<and> \<not> t_sda t \<and> sd
                  then t\<lparr>t_phase := Idle, t_core := c_stop C (t_core t) (t_now t)\<rparr>
                else if \<not> t_scl t \<and> sc then t_rise sd t
                else if t_scl t \<and> \<not> sc then t_fall C t
                else t)
      in t'\<lparr>t_scl := sc, t_sda := sd\<rparr>)"

definition t_pulls :: "'c target \<Rightarrow> bool" where
  "t_pulls t =
     (case t_phase t of RxAck _ \<Rightarrow> True | TxBits v i \<Rightarrow> \<not> bit v (7 - i) | _ \<Rightarrow> False)"

definition t_elapse :: "int \<Rightarrow> 'c target \<Rightarrow> 'c target" where
  "t_elapse n t = t\<lparr>t_now := t_now t + n\<rparr>"

definition target_dev :: "'c i2c_core \<Rightarrow> 'c target i2c_dev" where
  "target_dev C = \<lparr>react = t_react C, pulls = t_pulls, elapse = t_elapse\<rparr>"

text \<open>A device behaves as a target when some view of its state follows the target step by
  step.\<close>

definition acts_as :: "'d i2c_dev \<Rightarrow> ('d \<Rightarrow> 'c target) \<Rightarrow> 'c i2c_core \<Rightarrow> bool" where
  "acts_as D view C \<longleftrightarrow>
     (\<forall>d sc sd. view (react D d sc sd) = t_react C (view d) sc sd) \<and>
     (\<forall>d. pulls D d = t_pulls (view d)) \<and>
     (\<forall>d n. view (elapse D n d) = t_elapse n (view d))"

section \<open>Devices that act as a target\<close>

definition view_bus :: "('d \<Rightarrow> 'e) \<Rightarrow> 'd bus \<Rightarrow> 'e bus" where
  "view_bus view b = \<lparr>scl = scl b, sda = sda b, sda_out = sda_out b, dev = view (dev b)\<rparr>"

named_theorems bus_view \<open>bus operations commute with the view of the device\<close>

lemma acts_as_target: "acts_as (target_dev C) id C"
  by (simp add: acts_as_def target_dev_def)

lemma view_line:
  "acts_as D view C \<Longrightarrow> line (target_dev C) (view_bus view b) = line D b"
  by (simp add: acts_as_def line_def view_bus_def target_dev_def)

lemma view_see [bus_view]:
  "acts_as D view C \<Longrightarrow> view_bus view (see D b) = see (target_dev C) (view_bus view b)"
  unfolding see_def using view_line [of D view C b]
  by (simp add: acts_as_def view_bus_def target_dev_def)

lemma view_pins [bus_view]:
  assumes "acts_as D view C"
  shows "view_bus view (IIC_SCL D v b) = IIC_SCL (target_dev C) v (view_bus view b)"
    and "view_bus view (IIC_SDA D v b) = IIC_SDA (target_dev C) v (view_bus view b)"
    and "view_bus view (SDA_IN D b) = SDA_IN (target_dev C) (view_bus view b)"
    and "view_bus view (SDA_OUT D b) = SDA_OUT (target_dev C) (view_bus view b)"
    and "view_bus view (delay_us D n b) = delay_us (target_dev C) n (view_bus view b)"
    and "view_bus view (delay_ms D n b) = delay_ms (target_dev C) n (view_bus view b)"
proof -
  have upd: "view_bus view (b\<lparr>scl := v\<rparr>) = (view_bus view b)\<lparr>scl := v\<rparr>"
    "view_bus view (b\<lparr>sda := v\<rparr>) = (view_bus view b)\<lparr>sda := v\<rparr>"
    "view_bus view (b\<lparr>sda_out := v\<rparr>) = (view_bus view b)\<lparr>sda_out := v\<rparr>" for b v
    by (simp_all add: view_bus_def)
  show "view_bus view (IIC_SCL D v b) = IIC_SCL (target_dev C) v (view_bus view b)"
    "view_bus view (IIC_SDA D v b) = IIC_SDA (target_dev C) v (view_bus view b)"
    "view_bus view (SDA_IN D b) = SDA_IN (target_dev C) (view_bus view b)"
    "view_bus view (SDA_OUT D b) = SDA_OUT (target_dev C) (view_bus view b)"
    unfolding IIC_SCL_def IIC_SDA_def SDA_IN_def SDA_OUT_def
    by (simp_all add: upd view_see [OF assms])
  show d: "view_bus view (delay_us D n b) = delay_us (target_dev C) n (view_bus view b)" for n
    using assms by (simp add: delay_us_def acts_as_def view_bus_def target_dev_def)
  show "view_bus view (delay_ms D n b) = delay_ms (target_dev C) n (view_bus view b)"
    by (simp add: delay_ms_def d)
qed

lemma view_READ_SDA [bus_view]:
  "acts_as D view C \<Longrightarrow> READ_SDA (target_dev C) (view_bus view b) = READ_SDA D b"
  by (simp add: READ_SDA_def view_line)

lemma view_ops [bus_view]:
  assumes "acts_as D view C"
  shows "view_bus view (IIC_Init D b) = IIC_Init (target_dev C) (view_bus view b)"
    and "view_bus view (IIC_Start D b) = IIC_Start (target_dev C) (view_bus view b)"
    and "view_bus view (IIC_Stop D b) = IIC_Stop (target_dev C) (view_bus view b)"
    and "view_bus view (IIC_Ack D b) = IIC_Ack (target_dev C) (view_bus view b)"
    and "view_bus view (IIC_NAck D b) = IIC_NAck (target_dev C) (view_bus view b)"
    and "view_bus view (send_bit D v b) = send_bit (target_dev C) v (view_bus view b)"
proof -
  have upd: "view_bus view (b\<lparr>sda_out := v\<rparr>) = (view_bus view b)\<lparr>sda_out := v\<rparr>" for b v
    by (simp add: view_bus_def)
  show "view_bus view (IIC_Init D b) = IIC_Init (target_dev C) (view_bus view b)"
    by (simp add: IIC_Init_def Let_def upd bus_view [OF assms])
qed (simp_all add: IIC_Start_def IIC_Stop_def IIC_Ack_def IIC_NAck_def send_bit_def Let_def
      bus_view [OF assms])

lemma view_send_loop:
  assumes "acts_as D view C"
  shows "view_bus view (send_loop D n v b) = send_loop (target_dev C) n v (view_bus view b)"
  by (induction n arbitrary: v b) (simp_all add: bus_view [OF assms])

lemma view_Send_Byte [bus_view]:
  assumes "acts_as D view C"
  shows "view_bus view (IIC_Send_Byte D v b) = IIC_Send_Byte (target_dev C) v (view_bus view b)"
  by (simp add: IIC_Send_Byte_def Let_def view_send_loop [OF assms] bus_view [OF assms])

lemma view_wait_ack_loop:
  assumes "acts_as D view C"
  shows "map_prod id (view_bus view) (wait_ack_loop D n b) =
    wait_ack_loop (target_dev C) n (view_bus view b)"
proof (induction "251 - n" arbitrary: n rule: less_induct)
  case less
  then show ?case
    by (subst (1 2) wait_ack_loop.simps) (simp add: Let_def bus_view [OF assms] del: wait_ack_loop.simps)
qed

lemma view_Wait_Ack [bus_view]:
  assumes "acts_as D view C"
  shows "map_prod id (view_bus view) (IIC_Wait_Ack D b) = IIC_Wait_Ack (target_dev C) (view_bus view b)"
  by (simp add: IIC_Wait_Ack_def Let_def view_wait_ack_loop [OF assms] bus_view [OF assms]
      del: wait_ack_loop.simps)

lemma view_read_loop:
  assumes "acts_as D view C"
  shows "map_prod id (view_bus view) (read_loop D n v b) = read_loop (target_dev C) n v (view_bus view b)"
proof (induction n arbitrary: v b)
  case (Suc n)
  then show ?case
    by (simp add: Let_def bus_view [OF assms, symmetric])
qed simp

lemma view_Read_Byte [bus_view]:
  assumes "acts_as D view C"
  shows "map_prod id (view_bus view) (IIC_Read_Byte D k b) = IIC_Read_Byte (target_dev C) k (view_bus view b)"
  using view_read_loop [OF assms, of 8 0 "SDA_IN D b"]
  by (auto simp: IIC_Read_Byte_def Let_def bus_view [OF assms] split: prod.splits)

section \<open>The master's operations against a target\<close>

definition tbus :: "bool \<Rightarrow> bool \<Rightarrow> bool \<Rightarrow> bool \<Rightarrow> phase \<Rightarrow> 'c \<Rightarrow> int \<Rightarrow> 'c target bus" where
  "tbus sc sd sout ts ph c n = \<lparr>scl = sc, sda = sd, sda_out = sout,
     dev = \<lparr>t_scl = sc, t_sda = ts, t_phase = ph, t_core = c, t_now = n\<rparr>\<rparr>"

definition p_pulls :: "phase \<Rightarrow> bool" where
  "p_pulls ph = (case ph of RxAck _ \<Rightarrow> True | TxBits v i \<Rightarrow> \<not> bit v (7 - i) | _ \<Rightarrow> False)"

lemma p_pulls_simps [simp]:
  "\<not> p_pulls Idle" "\<not> p_pulls (RxBits a bs)" "p_pulls (RxAck rd)" "\<not> p_pulls (TxAck k)"
  "p_pulls (TxBits v i) \<longleftrightarrow> \<not> bit v (7 - i)"
  by (simp_all add: p_pulls_def)

definition p_rise :: "bool \<Rightarrow> phase \<Rightarrow> phase" where
  "p_rise v ph = (case ph of RxBits a bs \<Rightarrow> RxBits a (bs @ [v]) | TxAck _ \<Rightarrow> TxAck (\<not> v) | _ \<Rightarrow> ph)"

lemma p_rise_simps [simp]:
  "p_rise v Idle = Idle" "p_rise v (RxBits a bs) = RxBits a (bs @ [v])"
  "p_rise v (RxAck rd) = RxAck rd" "p_rise v (TxAck k) = TxAck (\<not> v)"
  "p_rise v (TxBits w i) = TxBits w i"
  by (simp_all add: p_rise_def)

definition byte_result :: "'c i2c_core \<Rightarrow> bool \<Rightarrow> u8 \<Rightarrow> 'c \<Rightarrow> int \<Rightarrow> phase \<times> 'c" where
  "byte_result C a v c n =
     (if a then (if v AND 0xFE = c_addr C \<and> c_ready C c n
                 then (RxAck (bit v 0), c_select C c (bit v 0)) else (Idle, c))
      else (RxAck False, c_write C c v))"

definition p_fall :: "'c i2c_core \<Rightarrow> phase \<Rightarrow> 'c \<Rightarrow> int \<Rightarrow> phase \<times> 'c" where
  "p_fall C ph c n =
     (case ph of
        Idle \<Rightarrow> (Idle, c)
      | RxBits a bs \<Rightarrow> (if length bs = 8 then byte_result C a (byte_of_msb bs) c n else (ph, c))
      | RxAck rd \<Rightarrow> (if rd then (TxBits (fst (c_read C c)) 0, snd (c_read C c)) else (RxBits False [], c))
      | TxBits v i \<Rightarrow> (if i < 7 then TxBits v (i + 1) else TxAck False, c)
      | TxAck again \<Rightarrow> (if again then (TxBits (fst (c_read C c)) 0, snd (c_read C c)) else (Idle, c)))"

lemma p_fall_simps [simp]:
  "p_fall C Idle c n = (Idle, c)"
  "length bs \<noteq> 8 \<Longrightarrow> p_fall C (RxBits a bs) c n = (RxBits a bs, c)"
  "length bs = 8 \<Longrightarrow> p_fall C (RxBits a bs) c n = byte_result C a (byte_of_msb bs) c n"
  "p_fall C (RxAck False) c n = (RxBits False [], c)"
  "p_fall C (RxAck True) c n = (TxBits (fst (c_read C c)) 0, snd (c_read C c))"
  "p_fall C (TxAck False) c n = (Idle, c)"
  "p_fall C (TxAck True) c n = (TxBits (fst (c_read C c)) 0, snd (c_read C c))"
  "p_fall C (TxBits v i) c n = (if i < 7 then TxBits v (i + 1) else TxAck False, c)"
  by (simp_all add: p_fall_def)

abbreviation lvl :: "bool \<Rightarrow> bool \<Rightarrow> phase \<Rightarrow> bool" where
  "lvl sd sout ph \<equiv> (sout \<longrightarrow> sd) \<and> \<not> p_pulls ph"

lemma line_tbus [simp]: "line (target_dev C) (tbus sc sd sout ts ph c n) = lvl sd sout ph"
  by (simp add: line_def tbus_def target_dev_def t_pulls_def p_pulls_def)

lemma read_tbus [simp]: "READ_SDA (target_dev C) (tbus sc sd sout ts ph c n) = lvl sd sout ph"
  by (simp add: READ_SDA_def)

lemma delay_tbus [simp]:
  "delay_us (target_dev C) k (tbus sc sd sout ts ph c n) = tbus sc sd sout ts ph c (k + n)"
  "delay_ms (target_dev C) k (tbus sc sd sout ts ph c n) = tbus sc sd sout ts ph c (k * 1000 + n)"
  by (simp_all add: delay_ms_def delay_us_def tbus_def target_dev_def t_elapse_def)

text \<open>While SCL is low, SDA and its direction may change freely.\<close>

lemma low_tbus [simp]:
  "IIC_SDA (target_dev C) v (tbus False sd sout ts ph c n) = tbus False v sout (lvl v sout ph) ph c n"
  "SDA_IN (target_dev C) (tbus False sd sout ts ph c n) = tbus False sd False (lvl sd False ph) ph c n"
  "SDA_OUT (target_dev C) (tbus False sd sout ts ph c n) = tbus False sd True (lvl sd True ph) ph c n"
  "IIC_SCL (target_dev C) False (tbus False sd sout ts ph c n) = tbus False sd sout (lvl sd sout ph) ph c n"
  by (simp_all add: IIC_SDA_def SDA_IN_def SDA_OUT_def IIC_SCL_def see_def line_def tbus_def target_dev_def
      t_pulls_def p_pulls_def t_react_def)

lemma rise_tbus [simp]:
  "IIC_SCL (target_dev C) True (tbus False sd sout ts ph c n) =
     tbus True sd sout (lvl sd sout ph) (p_rise (lvl sd sout ph) ph) c n"
  by (simp add: IIC_SCL_def see_def line_def tbus_def target_dev_def t_pulls_def p_pulls_def t_react_def
      t_rise_def p_rise_def split: phase.split)

lemma fall_tbus [simp]:
  "IIC_SCL (target_dev C) False (tbus True sd sout ts ph c n) =
     tbus False sd sout (lvl sd sout ph) (fst (p_fall C ph c n)) (snd (p_fall C ph c n)) n"
  by (cases ph) (auto simp: IIC_SCL_def see_def line_def tbus_def target_dev_def t_pulls_def p_pulls_def
      t_react_def t_fall_def p_fall_def t_load_def t_byte_def byte_result_def split: prod.split)

text \<open>SDA while SCL is high: nothing, START or STOP.\<close>

lemma high_tbus:
  "IIC_SDA (target_dev C) v (tbus True sd sout ts ph c n) =
     (let l = lvl v sout ph in
      if ts \<and> \<not> l then tbus True v sout l (RxBits True []) c n
      else if \<not> ts \<and> l then tbus True v sout l Idle (c_stop C c n) n
      else tbus True v sout l ph c n)"
  by (auto simp: IIC_SDA_def see_def line_def tbus_def target_dev_def t_pulls_def p_pulls_def t_react_def
      Let_def split: phase.split)

lemma high_dir_tbus:
  "SDA_OUT (target_dev C) (tbus True sd sout ts ph c n) =
     tbus True sd True ts ph c n" if "sd" "ts" "\<not> p_pulls ph"
  using that by (auto simp: SDA_OUT_def see_def line_def tbus_def target_dev_def t_pulls_def p_pulls_def
      t_react_def Let_def split: phase.splits)

lemma high_again_tbus:
  "IIC_SCL (target_dev C) True (tbus True sd sout ts ph c n) = tbus True sd sout ts ph c n"
  if "ts = lvl sd sout ph"
  using that by (auto simp: IIC_SCL_def see_def line_def tbus_def target_dev_def t_pulls_def p_pulls_def
      t_react_def Let_def split: phase.splits)

text \<open>The complete operations.\<close>

lemma start_low:
  assumes "\<not> p_pulls ph"
  shows "IIC_Start (target_dev C) (tbus False sd sout ts ph c n) =
     tbus False False True False (RxBits True []) c (8 + n)"
proof -
  have "\<not> p_pulls (p_rise True ph)" using assms by (cases ph) simp_all
  then show ?thesis using assms by (simp add: IIC_Start_def Let_def high_tbus)
qed

lemma start_idle:
  "IIC_Start (target_dev C) (tbus True True sout True Idle c n) =
     tbus False False True False (RxBits True []) c (8 + n)"
  by (simp add: IIC_Start_def Let_def high_tbus high_dir_tbus high_again_tbus)

lemma stop_low:
  assumes "ph = Idle \<or> ph = RxBits False []"
  shows "IIC_Stop (target_dev C) (tbus False sd sout ts ph c n) =
     tbus True True True True Idle (c_stop C c (8 + n)) (12 + n)"
  using assms by (auto simp: IIC_Stop_def Let_def high_tbus)

lemma stop_released:
  "IIC_Stop (target_dev C) (tbus True True False True Idle c n) =
     tbus True True True True Idle (c_stop C c (8 + n)) (12 + n)"
  by (simp add: IIC_Stop_def Let_def high_tbus high_dir_tbus)

lemma send_bit_rx:
  assumes "length bs < 7"
  shows "send_bit (target_dev C) v (tbus False sd True ts (RxBits a bs) c n) =
     tbus False v True v (RxBits a (bs @ [v])) c (6 + n)"
  using assms by (simp add: send_bit_def Let_def)

lemma send_bit_last:
  assumes "length bs = 7"
  shows "send_bit (target_dev C) v (tbus False sd True ts (RxBits a bs) c n) =
     tbus False v True v (fst (byte_result C a (byte_of_msb (bs @ [v])) c (4 + n)))
       (snd (byte_result C a (byte_of_msb (bs @ [v])) c (4 + n))) (6 + n)"
  using assms by (simp add: send_bit_def Let_def)

lemma send_bit_idle:
  "send_bit (target_dev C) v (tbus False sd True ts Idle c n) = tbus False v True v Idle c (6 + n)"
  by (simp add: send_bit_def Let_def)

lemma top_bit: "drop_bit 7 ((w :: u8) AND 0x80) \<noteq> 0 \<longleftrightarrow> bit w 7"
proof -
  have "drop_bit 7 (w AND 0x80) = of_bool (bit w 7)"
    by (rule bit_word_eqI) (auto simp: bit_drop_bit_eq bit_and_iff bit_simps)
  then show ?thesis by simp
qed

lemma send_loop_bits:
  "k + m \<le> 8 \<Longrightarrow> send_loop D m (push_bit k v) b =
     foldl (\<lambda>b i. send_bit D (bit v i) b) b (map (\<lambda>j. 7 - j) [k..<k + m])"
proof (induction m arbitrary: k b)
  case (Suc m)
  have push: "push_bit 1 (push_bit k v) = push_bit (Suc k) v" by simp
  have upt: "[k..<k + Suc m] = k # [Suc k..<Suc k + m]" by (simp add: upt_conv_Cons del: upt_Suc)
  have top: "(drop_bit 7 (push_bit k v AND 0x80) \<noteq> 0) = bit v (7 - k)"
    using Suc.prems by (simp only: top_bit bit_push_bit_iff) simp
  show ?case
    unfolding send_loop.simps push top upt using Suc.IH [of "Suc k"] Suc.prems
    by (simp del: upt_Suc)
qed simp

lemma send_loop_8:
  "send_loop D 8 v b = foldl (\<lambda>b i. send_bit D (bit v i) b) b [7, 6, 5, 4, 3, 2, 1, 0]"
  using send_loop_bits [of 0 8 D v b] by (simp add: upt_rec)

lemma send_byte_rx:
  "IIC_Send_Byte (target_dev C) v (tbus False sd sout ts (RxBits a []) c n) =
     tbus False (bit v 0) True (bit v 0) (fst (byte_result C a v c (46 + n)))
       (snd (byte_result C a v c (46 + n))) (48 + n)"
  using byte_of_msb_bits [of v]
  by (simp add: IIC_Send_Byte_def send_loop_8 send_bit_rx send_bit_last msb_bits_unfold)

lemma send_byte_idle:
  "IIC_Send_Byte (target_dev C) v (tbus False sd sout ts Idle c n) =
     tbus False (bit v 0) True (bit v 0) Idle c (48 + n)"
  by (simp add: IIC_Send_Byte_def send_loop_8 send_bit_idle)

lemma wait_ack_loop_high:
  assumes "READ_SDA D b" "k \<le> 250"
  shows "wait_ack_loop D k b = (1, IIC_Stop D b)"
  using assms(2)
proof (induction "250 - k" arbitrary: k)
  case 0
  then show ?case by (subst wait_ack_loop.simps) (simp add: assms(1))
next
  case (Suc x)
  have "wait_ack_loop D k b = wait_ack_loop D (k + 1) b"
  proof -
    have "\<not> 250 < k + 1" using Suc.hyps(2) by simp
    then show ?thesis
      by (subst wait_ack_loop.simps) (simp only: Let_def assms(1) if_True if_False simp_thms)
  qed
  then show ?case using Suc.hyps(1) [of "k + 1"] Suc.hyps(2) by simp
qed

lemma wait_ack_loop_low: "\<not> READ_SDA D b \<Longrightarrow> wait_ack_loop D k b = (0, IIC_SCL D False b)"
  by (subst wait_ack_loop.simps) simp

lemma wait_ack_rx:
  "IIC_Wait_Ack (target_dev C) (tbus False sd sout ts (RxAck False) c n) =
     (0, tbus False True False False (RxBits False []) c (2 + n))"
  by (simp add: IIC_Wait_Ack_def wait_ack_loop_low del: wait_ack_loop.simps)

lemma wait_ack_tx:
  "IIC_Wait_Ack (target_dev C) (tbus False sd sout ts (RxAck True) c n) =
     (0, tbus False True False False (TxBits (fst (c_read C c)) 0) (snd (c_read C c)) (2 + n))"
  by (simp add: IIC_Wait_Ack_def wait_ack_loop_low del: wait_ack_loop.simps)

lemma wait_ack_idle:
  "IIC_Wait_Ack (target_dev C) (tbus False sd sout ts Idle c n) =
     (1, tbus True True True True Idle (c_stop C c (10 + n)) (14 + n))"
  by (simp add: IIC_Wait_Ack_def wait_ack_loop_high stop_released del: wait_ack_loop.simps)

lemma shift_in: "(if bit v k then push_bit 1 (drop_bit (Suc k) (v :: u8)) + 1
     else push_bit 1 (drop_bit (Suc k) v)) = drop_bit k v"
  using drop_bit_step [of k v] by (auto simp: push_bit_eq_mult mult.commute)

lemma read_loop_tail:
  "m \<le> 7 \<Longrightarrow>
     read_loop (target_dev C) m (drop_bit m v) (tbus True sd False (bit v m) (TxBits v (7 - m)) c n) =
     (v, tbus True sd False (bit v 0) (TxBits v 7) c (3 * int m + n))"
proof (induction m arbitrary: n)
  case 0
  then show ?case by simp
next
  case (Suc m)
  have idx: "Suc (7 - Suc m) = 7 - m" "7 - (7 - m) = m" "7 - Suc m < 7" using Suc.prems by simp_all
  show ?case
    using Suc.IH [of "3 + n"] Suc.prems
    by (simp only: read_loop.simps Let_def fall_tbus p_fall_simps idx if_True fst_conv snd_conv delay_tbus
        rise_tbus p_rise_simps p_pulls_simps read_tbus simp_thms shift_in Suc_eq_plus1 [symmetric])
      (simp add: algebra_simps)
qed

lemma read_loop_8: "read_loop D 8 r b = read_loop D (Suc 7) r b"
  by simp

lemma read_byte_tx:
  "IIC_Read_Byte (target_dev C) 0 (tbus False sd sout ts (TxBits v 0) c n) =
     (v, tbus False True True True Idle c (28 + n))"
proof -
  have "read_loop (target_dev C) 8 0 (tbus False sd False (bit v 7) (TxBits v 0) c n) =
      (v, tbus True sd False (bit v 0) (TxBits v 7) c (24 + n))"
    unfolding read_loop_8 read_loop.simps(2)
    using read_loop_tail [of 7 C v sd c "3 + n"] shift_in [of v 7]
    by (simp add: Let_def drop_bit_eq_zero_iff_not_bit_last split: if_splits)
  then show ?thesis
    by (simp add: IIC_Read_Byte_def IIC_NAck_def Let_def)
qed

lemma read_loop_idle_tail:
  "m \<le> 8 \<Longrightarrow>
     read_loop (target_dev C) m (mask (8 - m)) (tbus True sd False True Idle c n) =
     (0xFF, tbus True sd False True Idle c (3 * int m + n))"
proof (induction m arbitrary: n)
  case 0
  then show ?case by (simp add: mask_eq_exp_minus_1)
next
  case (Suc m)
  have "push_bit 1 (mask (8 - Suc m)) + 1 = (mask (8 - m) :: u8)"
    using Suc.prems Suc_diff_Suc [of m 8, symmetric]
    by (simp add: push_bit_eq_mult mask_eq_exp_minus_1 algebra_simps)
  then show ?case
    using Suc.IH [of "3 + n"] Suc.prems by (simp add: Let_def algebra_simps)
qed

lemma read_byte_idle:
  "IIC_Read_Byte (target_dev C) 0 (tbus True True True True Idle c n) =
     (0xFF, tbus False True True True Idle c (28 + n))"
proof -
  have "SDA_IN (target_dev C) (tbus True True True True Idle c n) = tbus True True False True Idle c n"
    by (simp add: SDA_IN_def see_def line_def tbus_def target_dev_def t_pulls_def t_react_def)
  moreover have "read_loop (target_dev C) 8 0 (tbus True True False True Idle c n) =
      (0xFF, tbus True True False True Idle c (24 + n))"
    using read_loop_idle_tail [of 8 C True c n] by simp
  ultimately show ?thesis by (simp add: IIC_Read_Byte_def IIC_NAck_def Let_def)
qed

end
