(* ===== verification/At24.thy ===== *)
theory At24
  imports I2c_Bus
begin

text \<open>
  The EEPROM driver \<^verbatim>\<open>HARDWARE/24CXX/24cxx.c\<close> over the pin-level master of
  \<^verbatim>\<open>I2c_Bus\<close>.  The chip is a parameter; what its data sheet says is the core \<^verbatim>\<open>at24c02\<close>
  (address pointer, 8-byte pages, a write cycle of at most \<^verbatim>\<open>twr\<close> microseconds after STOP
  during which the chip does not acknowledge).  The drivers' clients use the interface
  \<^verbatim>\<open>byte_store\<close>.
\<close>

section \<open>The functions of 24cxx.c\<close>

definition AT24C16 :: u16 where "AT24C16 = 2047"
definition AT24C02 :: u16 where "AT24C02 = 255"
definition EE_TYPE :: u16 where "EE_TYPE = AT24C02"

definition AT24CXX_Init :: "'d i2c_dev \<Rightarrow> 'd bus \<Rightarrow> 'd bus" where
  "AT24CXX_Init D b = IIC_Init D b"

definition AT24CXX_ReadOneByte :: "'d i2c_dev \<Rightarrow> u16 \<Rightarrow> 'd bus \<Rightarrow> u8 \<times> 'd bus" where
  "AT24CXX_ReadOneByte D ReadAddr b =
     (let b = IIC_Start D b;
          b = (if AT24C16 < EE_TYPE
               then (let b = IIC_Send_Byte D 0xA0 b;
                         b = snd (IIC_Wait_Ack D b)
                     in IIC_Send_Byte D (ucast (drop_bit 8 ReadAddr)) b)
               else IIC_Send_Byte D (ucast (0xA0 + push_bit 1 (ReadAddr div 256))) b);
          b = snd (IIC_Wait_Ack D b);
          b = IIC_Send_Byte D (ucast (ReadAddr mod 256)) b;
          b = snd (IIC_Wait_Ack D b);
          b = IIC_Start D b;
          b = IIC_Send_Byte D 0xA1 b;
          b = snd (IIC_Wait_Ack D b);
          (temp, b) = IIC_Read_Byte D 0 b;
          b = IIC_Stop D b
      in (temp, b))"

definition AT24CXX_WriteOneByte :: "'d i2c_dev \<Rightarrow> u16 \<Rightarrow> u8 \<Rightarrow> 'd bus \<Rightarrow> 'd bus" where
  "AT24CXX_WriteOneByte D WriteAddr DataToWrite b =
     (let b = IIC_Start D b;
          b = (if AT24C16 < EE_TYPE
               then (let b = IIC_Send_Byte D 0xA0 b;
                         b = snd (IIC_Wait_Ack D b)
                     in IIC_Send_Byte D (ucast (drop_bit 8 WriteAddr)) b)
               else IIC_Send_Byte D (ucast (0xA0 + push_bit 1 (WriteAddr div 256))) b);
          b = snd (IIC_Wait_Ack D b);
          b = IIC_Send_Byte D (ucast (WriteAddr mod 256)) b;
          b = snd (IIC_Wait_Ack D b);
          b = IIC_Send_Byte D DataToWrite b;
          b = snd (IIC_Wait_Ack D b);
          b = IIC_Stop D b
      in delay_ms D 10 b)"

text \<open>The loops over several bytes, over the single-byte operation they call.  \<^verbatim>\<open>t\<close> is the
  loop counter, the first argument the rounds left.\<close>

fun write_len :: "nat \<Rightarrow> (u16 \<Rightarrow> u8 \<Rightarrow> 's \<Rightarrow> 's) \<Rightarrow> u16 \<Rightarrow> u32 \<Rightarrow> nat \<Rightarrow> 's \<Rightarrow> 's" where
  "write_len 0 wr WriteAddr DataToWrite t s = s"
| "write_len (Suc k) wr WriteAddr DataToWrite t s =
     write_len k wr WriteAddr DataToWrite (t + 1)
       (wr (WriteAddr + of_nat t) (ucast (drop_bit (8 * t) DataToWrite AND 0xFF)) s)"

definition AT24CXX_WriteLenByte :: "'d i2c_dev \<Rightarrow> u16 \<Rightarrow> u32 \<Rightarrow> u8 \<Rightarrow> 'd bus \<Rightarrow> 'd bus" where
  "AT24CXX_WriteLenByte D WriteAddr DataToWrite Len b =
     write_len (unat Len) (AT24CXX_WriteOneByte D) WriteAddr DataToWrite 0 b"

fun read_len :: "nat \<Rightarrow> (u16 \<Rightarrow> 's \<Rightarrow> u8 \<times> 's) \<Rightarrow> u16 \<Rightarrow> nat \<Rightarrow> nat \<Rightarrow> u32 \<Rightarrow> 's \<Rightarrow> u32 \<times> 's" where
  "read_len 0 rd ReadAddr Len t temp s = (temp, s)"
| "read_len (Suc k) rd ReadAddr Len t temp s =
     (case rd (ReadAddr + of_nat Len - of_nat t - 1) s of
        (v, s') \<Rightarrow> read_len k rd ReadAddr Len (t + 1) (push_bit 8 temp + ucast v) s')"

definition AT24CXX_ReadLenByte :: "'d i2c_dev \<Rightarrow> u16 \<Rightarrow> u8 \<Rightarrow> 'd bus \<Rightarrow> u32 \<times> 'd bus" where
  "AT24CXX_ReadLenByte D ReadAddr Len b =
     read_len (unat Len) (AT24CXX_ReadOneByte D) ReadAddr (unat Len) 0 0 b"

definition check_store :: "(u16 \<Rightarrow> 's \<Rightarrow> u8 \<times> 's) \<Rightarrow> (u16 \<Rightarrow> u8 \<Rightarrow> 's \<Rightarrow> 's) \<Rightarrow> 's \<Rightarrow> u8 \<times> 's" where
  "check_store rd wr s =
     (let (temp, s) = rd 255 s
      in if temp = 0x55 then (0, s)
         else (let s = wr 255 0x55 s;
                   (temp, s) = rd 255 s
               in if temp = 0x55 then (0, s) else (1, s)))"

definition AT24CXX_Check :: "'d i2c_dev \<Rightarrow> 'd bus \<Rightarrow> u8 \<times> 'd bus" where
  "AT24CXX_Check D b = check_store (AT24CXX_ReadOneByte D) (AT24CXX_WriteOneByte D) b"

fun read_buf :: "nat \<Rightarrow> (u16 \<Rightarrow> 's \<Rightarrow> u8 \<times> 's) \<Rightarrow> u16 \<Rightarrow> 's \<Rightarrow> u8 list \<times> 's" where
  "read_buf 0 rd ReadAddr s = ([], s)"
| "read_buf (Suc k) rd ReadAddr s =
     (case rd ReadAddr s of (v, s') \<Rightarrow>
        (case read_buf k rd (ReadAddr + 1) s' of (vs, s'') \<Rightarrow> (v # vs, s'')))"

definition AT24CXX_Read :: "'d i2c_dev \<Rightarrow> u16 \<Rightarrow> u16 \<Rightarrow> 'd bus \<Rightarrow> u8 list \<times> 'd bus" where
  "AT24CXX_Read D ReadAddr NumToRead b = read_buf (unat NumToRead) (AT24CXX_ReadOneByte D) ReadAddr b"

text \<open>\<^verbatim>\<open>None\<close> when the buffer has fewer bytes than \<^verbatim>\<open>NumToWrite\<close>.\<close>

fun write_buf :: "nat \<Rightarrow> (u16 \<Rightarrow> u8 \<Rightarrow> 's \<Rightarrow> 's) \<Rightarrow> u16 \<Rightarrow> u8 list \<Rightarrow> 's \<Rightarrow> 's option" where
  "write_buf 0 wr WriteAddr buf s = Some s"
| "write_buf (Suc k) wr WriteAddr [] s = None"
| "write_buf (Suc k) wr WriteAddr (v # buf) s = write_buf k wr (WriteAddr + 1) buf (wr WriteAddr v s)"

definition AT24CXX_Write :: "'d i2c_dev \<Rightarrow> u16 \<Rightarrow> u8 list \<Rightarrow> u16 \<Rightarrow> 'd bus \<Rightarrow> 'd bus option" where
  "AT24CXX_Write D WriteAddr pBuffer NumToWrite b =
     write_buf (unat NumToWrite) (AT24CXX_WriteOneByte D) WriteAddr pBuffer b"

section \<open>The chip, after its data sheet\<close>

record eeprom =
  ee_mem :: "u8 \<Rightarrow> u8"
  ee_ptr :: u8
  ee_have :: bool
  ee_pend :: "(u8 \<times> u8) list"
  ee_busy :: int

definition ee_commit :: "(u8 \<times> u8) list \<Rightarrow> (u8 \<Rightarrow> u8) \<Rightarrow> u8 \<Rightarrow> u8" where
  "ee_commit ps m = foldl (\<lambda>m (a, v). m(a := v)) m ps"

definition at24c02 :: "int \<Rightarrow> eeprom i2c_core" where
  "at24c02 twr = \<lparr>
     c_addr = 0xA0,
     c_ready = (\<lambda>c now. ee_busy c \<le> now),
     c_select = (\<lambda>c rd. if rd then c else c\<lparr>ee_have := False, ee_pend := []\<rparr>),
     c_write = (\<lambda>c v.
       if ee_have c
       then c\<lparr>ee_pend := ee_pend c @ [(ee_ptr c, v)],
              ee_ptr := (ee_ptr c AND 0xF8) OR ((ee_ptr c + 1) AND 7)\<rparr>
       else c\<lparr>ee_ptr := v, ee_have := True\<rparr>),
     c_read = (\<lambda>c. (ee_mem c (ee_ptr c), c\<lparr>ee_ptr := ee_ptr c + 1\<rparr>)),
     c_stop = (\<lambda>c now.
       if ee_pend c = [] then c
       else c\<lparr>ee_mem := ee_commit (ee_pend c) (ee_mem c), ee_pend := [], ee_busy := now + twr\<rparr>)\<rparr>"

section \<open>The interface of a byte store\<close>

locale byte_store =
  fixes rd :: "u16 \<Rightarrow> 's \<Rightarrow> u8 \<times> 's"
    and wr :: "u16 \<Rightarrow> u8 \<Rightarrow> 's \<Rightarrow> 's"
    and ok :: "'s \<Rightarrow> bool"
    and cells :: "'s \<Rightarrow> u8 \<Rightarrow> u8"
  assumes rd_ok: "ok s \<Longrightarrow> a < 256 \<Longrightarrow> \<exists>s'. rd a s = (cells s (ucast a), s') \<and> ok s' \<and> cells s' = cells s"
    and wr_ok: "ok s \<Longrightarrow> a < 256 \<Longrightarrow> ok (wr a v s) \<and> cells (wr a v s) = (cells s)(ucast a := v)"
begin

lemma rd_cases:
  assumes "ok s" "a < 256"
  obtains s' where "rd a s = (cells s (ucast a), s')" "ok s'" "cells s' = cells s"
  using rd_ok [OF assms] by blast

lemma check_ok:
  assumes "ok s"
  shows "\<exists>s'. check_store rd wr s = (0, s') \<and> ok s' \<and> cells s' = (cells s)(0xFF := 0x55)"
proof -
  obtain s1 where s1: "rd 255 s = (cells s 255, s1)" "ok s1" "cells s1 = cells s"
    using rd_ok [OF assms, of 255] by auto
  have w: "ok (wr 255 0x55 s1)" "cells (wr 255 0x55 s1) = (cells s)(255 := 0x55)"
    using wr_ok [OF s1(2), where a = 255 and v = "0x55"] s1(3) by auto
  obtain s2 where s2: "rd 255 (wr 255 0x55 s1) = (0x55, s2)" "ok s2" "cells s2 = (cells s)(255 := 0x55)"
    using rd_ok [OF w(1), of 255] w(2) by auto
  show ?thesis
  proof (cases "cells s 255 = 0x55")
    case True
    then show ?thesis using s1 by (auto simp: check_store_def fun_eq_iff)
  next
    case False
    then show ?thesis using s1(1) s2 by (simp add: check_store_def)
  qed
qed

end

section \<open>A transfer at the pins is a transfer in the chip\<close>

definition ee_at :: "eeprom target bus \<Rightarrow> (u8 \<Rightarrow> u8) \<Rightarrow> bool" where
  "ee_at b m \<longleftrightarrow> (\<exists>c n. b = tbus True True True True Idle c n \<and> ee_mem c = m \<and> ee_pend c = [] \<and>
     ee_busy c \<le> n)"

lemma send_byte_idle_high:
  "IIC_Send_Byte (target_dev C) v (tbus True True True True Idle c n) =
     IIC_Send_Byte (target_dev C) v (tbus False True True True Idle c n)"
  by (simp add: IIC_Send_Byte_def high_dir_tbus)

lemma at24c02_simps [simp]:
  "c_addr (at24c02 t) = 0xA0"
  "c_ready (at24c02 t) c n \<longleftrightarrow> ee_busy c \<le> n"
  "c_select (at24c02 t) c False = c\<lparr>ee_have := False, ee_pend := []\<rparr>"
  "c_select (at24c02 t) c True = c"
  "\<not> ee_have c \<Longrightarrow> c_write (at24c02 t) c v = c\<lparr>ee_ptr := v, ee_have := True\<rparr>"
  "ee_have c \<Longrightarrow> c_write (at24c02 t) c v = c\<lparr>ee_pend := ee_pend c @ [(ee_ptr c, v)],
              ee_ptr := (ee_ptr c AND 0xF8) OR ((ee_ptr c + 1) AND 7)\<rparr>"
  "c_read (at24c02 t) c = (ee_mem c (ee_ptr c), c\<lparr>ee_ptr := ee_ptr c + 1\<rparr>)"
  "ee_pend c = [] \<Longrightarrow> c_stop (at24c02 t) c n = c"
  "ee_pend c \<noteq> [] \<Longrightarrow> c_stop (at24c02 t) c n =
     c\<lparr>ee_mem := ee_commit (ee_pend c) (ee_mem c), ee_pend := [], ee_busy := n + t\<rparr>"
  by (simp_all add: at24c02_def)

lemma byte_addr:
  "ee_busy c \<le> n \<Longrightarrow> byte_result (at24c02 t) True 0xA0 c n = (RxAck False, c\<lparr>ee_have := False, ee_pend := []\<rparr>)"
  "ee_busy c \<le> n \<Longrightarrow> byte_result (at24c02 t) True 0xA1 c n = (RxAck True, c)"
  "byte_result (at24c02 t) False v c n = (RxAck False, c_write (at24c02 t) c v)"
  by (simp_all add: byte_result_def)

lemma small_type: "\<not> AT24C16 < EE_TYPE"
  by (simp add: AT24C16_def EE_TYPE_def AT24C02_def)

lemma addr_low:
  assumes "(a :: u16) < 256"
  shows "a div 256 = 0" "a mod 256 = a"
  using assms by (simp_all add: word_less_nat_alt word_arith_nat_div word_arith_nat_mod)

lemma ee_atI:
  "ee_mem c = m \<Longrightarrow> ee_pend c = [] \<Longrightarrow> ee_busy c \<le> n \<Longrightarrow> ee_at (tbus True True True True Idle c n) m"
  by (auto simp: ee_at_def)

lemma read_at_target:
  assumes "ee_at b m" "a < 256"
  shows "\<exists>b'. AT24CXX_ReadOneByte (target_dev (at24c02 twr)) a b = (m (ucast a), b') \<and> ee_at b' m"
proof -
  obtain c n where b: "b = tbus True True True True Idle c n" "ee_mem c = m" "ee_pend c = []"
    "ee_busy c \<le> n"
    using assms(1) by (auto simp: ee_at_def)
  show ?thesis
    using b(2-4) small_type
    by (simp add: AT24CXX_ReadOneByte_def Let_def b(1) addr_low [OF assms(2)] start_idle start_low
        send_byte_rx byte_addr wait_ack_rx wait_ack_tx read_byte_tx stop_low ee_atI)
qed

lemma write_at_target:
  assumes "ee_at b m" "a < 256" "twr \<le> 10000"
  shows "ee_at (AT24CXX_WriteOneByte (target_dev (at24c02 twr)) a v b) (m(ucast a := v))"
proof -
  obtain c n where b: "b = tbus True True True True Idle c n" "ee_mem c = m" "ee_pend c = []"
    "ee_busy c \<le> n"
    using assms(1) by (auto simp: ee_at_def)
  show ?thesis
    using b(2-4) assms(3) small_type
    by (simp add: AT24CXX_WriteOneByte_def Let_def b(1) addr_low [OF assms(2)] start_idle start_low
        send_byte_rx byte_addr wait_ack_rx wait_ack_tx read_byte_tx stop_low ee_atI ee_commit_def)
qed

section \<open>Any chip that behaves like the data sheet\<close>

locale at24_chip =
  fixes D :: "'d i2c_dev" and view :: "'d \<Rightarrow> eeprom target" and twr :: int
  assumes chip: "acts_as D view (at24c02 twr)" and cycle: "twr \<le> 10000"
begin

lemma view_snd_wait: "view_bus view (snd (IIC_Wait_Ack D b)) =
    snd (IIC_Wait_Ack (target_dev (at24c02 twr)) (view_bus view b))"
  by (simp flip: view_Wait_Ack [OF chip])

lemma view_fst_read: "fst (IIC_Read_Byte (target_dev (at24c02 twr)) k (view_bus view b)) =
    fst (IIC_Read_Byte D k b)"
  by (simp flip: view_Read_Byte [OF chip])

lemma view_snd_read: "view_bus view (snd (IIC_Read_Byte D k b)) =
    snd (IIC_Read_Byte (target_dev (at24c02 twr)) k (view_bus view b))"
  by (simp flip: view_Read_Byte [OF chip])

lemma view_read: "map_prod id (view_bus view) (AT24CXX_ReadOneByte D a b) =
    AT24CXX_ReadOneByte (target_dev (at24c02 twr)) a (view_bus view b)"
  unfolding AT24CXX_ReadOneByte_def Let_def case_prod_unfold
  by (simp add: bus_view [OF chip] view_snd_wait view_snd_read view_fst_read [symmetric])

lemma view_write: "view_bus view (AT24CXX_WriteOneByte D a v b) =
    AT24CXX_WriteOneByte (target_dev (at24c02 twr)) a v (view_bus view b)"
  unfolding AT24CXX_WriteOneByte_def Let_def
  by (simp add: bus_view [OF chip] view_snd_wait)

end

definition ee_cells :: "('d \<Rightarrow> eeprom target) \<Rightarrow> 'd bus \<Rightarrow> u8 \<Rightarrow> u8" where
  "ee_cells view b = ee_mem (t_core (view (dev b)))"

definition ee_ok :: "('d \<Rightarrow> eeprom target) \<Rightarrow> 'd bus \<Rightarrow> bool" where
  "ee_ok view b \<longleftrightarrow> ee_at (view_bus view b) (ee_cells view b)"

lemma ee_atD: "ee_at (view_bus view b) m \<Longrightarrow> ee_ok view b \<and> ee_cells view b = m"
  by (auto simp: ee_ok_def ee_at_def ee_cells_def view_bus_def tbus_def)

sublocale at24_chip \<subseteq> store: byte_store "AT24CXX_ReadOneByte D" "AT24CXX_WriteOneByte D"
  "ee_ok view" "ee_cells view"
proof (unfold_locales, goal_cases)
  case (1 b a)
  then have at: "ee_at (view_bus view b) (ee_cells view b)" by (simp add: ee_ok_def)
  obtain w where w: "AT24CXX_ReadOneByte (target_dev (at24c02 twr)) a (view_bus view b) =
      (ee_cells view b (ucast a), w)" "ee_at w (ee_cells view b)"
    using read_at_target [OF at 1(2)] by blast
  then show ?case
    using view_read [of a b] ee_atD by (cases "AT24CXX_ReadOneByte D a b") auto
next
  case (2 b a v)
  then have at: "ee_at (view_bus view b) (ee_cells view b)" by (simp add: ee_ok_def)
  have "ee_at (view_bus view (AT24CXX_WriteOneByte D a v b)) ((ee_cells view b)(ucast a := v))"
    unfolding view_write by (rule write_at_target [OF at 2(2) cycle])
  then show ?case by (rule ee_atD)
qed

interpretation chip: at24_chip "target_dev (at24c02 5000)" id 5000
  by unfold_locales (simp_all add: acts_as_target)

section \<open>Several bytes\<close>

text \<open>The byte of a 32-bit value that a write stores at offset \<^verbatim>\<open>t\<close>.\<close>

definition byte_at :: "u32 \<Rightarrow> nat \<Rightarrow> u8" where
  "byte_at v t = ucast (drop_bit (8 * t) v AND 0xFF)"

definition stored :: "(u8 \<Rightarrow> u8) \<Rightarrow> u16 \<Rightarrow> u32 \<Rightarrow> nat \<Rightarrow> nat \<Rightarrow> u8 \<Rightarrow> u8" where
  "stored m a v t k = foldl (\<lambda>m i. m(ucast (a + of_nat i) := byte_at v i)) m [t..<t + k]"

lemma addr_in_range:
  assumes "unat (a :: u16) + n \<le> 256" "i < n"
  shows "a + of_nat i < 256" "unat (a + of_nat i) = unat a + i"
proof -
  have "unat (of_nat i :: u16) = i" using assms by (intro unat_of_nat_small) simp
  then show u: "unat (a + of_nat i) = unat a + i" using assms by (subst unat_add_no_wrap) simp_all
  show "a + of_nat i < 256" using assms by (simp add: word_less_nat_alt u)
qed

lemma ucast_addr_inj:
  fixes a b :: u16
  assumes "a < 256" "b < 256" "(ucast a :: u8) = ucast b"
  shows "a = b"
proof -
  have "unat (ucast a :: u8) = unat a" "unat (ucast b :: u8) = unat b"
    using assms(1,2) by (simp_all add: unsigned_ucast_eq take_bit_eq_mod word_less_nat_alt)
  then show ?thesis using assms(3) by (simp add: word_unat_eq_iff)
qed

lemma stored_at:
  assumes "unat a + n \<le> 256" "t + k \<le> n" "i < n"
  shows "stored m a v t k (ucast (a + of_nat i)) = (if t \<le> i \<and> i < t + k then byte_at v i else m (ucast (a + of_nat i)))"
  using assms(2)
proof (induction k)
  case 0
  then show ?case by (auto simp: stored_def)
next
  case (Suc k)
  have "(ucast (a + of_nat i) :: u8) = ucast (a + of_nat (t + k)) \<longleftrightarrow> i = t + k"
  proof
    assume "(ucast (a + of_nat i) :: u8) = ucast (a + of_nat (t + k))"
    then have "a + of_nat i = a + of_nat (t + k)"
      using addr_in_range(1) [OF assms(1) assms(3)] addr_in_range(1) [OF assms(1), of "t + k"] Suc.prems
      by (intro ucast_addr_inj) simp_all
    then show "i = t + k"
      using addr_in_range(2) [OF assms(1), of i] addr_in_range(2) [OF assms(1), of "t + k"] assms(3) Suc.prems
      by auto
  qed simp
  then show ?case using Suc by (auto simp: stored_def)
qed

lemma byte_at_eq: "byte_at v t = ucast (drop_bit (8 * t) v)"
proof -
  have "(0xFF :: u32) = mask 8" by (simp add: mask_eq_exp_minus_1)
  then show ?thesis
    unfolding byte_at_def
    by (intro bit_word_eqI) (simp only: bit_ucast_iff bit_and_iff bit_drop_bit_eq bit_mask_iff, auto)
qed

lemma word_join_byte:
  assumes "k < Len"
  shows "push_bit 8 (drop_bit (8 * Suc k) (take_bit (8 * Len) v)) + ucast (byte_at v k) =
    drop_bit (8 * k) (take_bit (8 * Len) v)"
proof -
  let ?x = "drop_bit (8 * k) (take_bit (8 * Len) v)"
  have "(ucast (byte_at v k) :: u32) = take_bit 8 ?x"
    using assms by (intro bit_word_eqI)
      (auto simp: byte_at_eq bit_ucast_iff bit_take_bit_iff bit_drop_bit_eq)
  moreover have "drop_bit (8 * Suc k) (take_bit (8 * Len) v) = drop_bit 8 ?x"
    by (simp add: add.commute)
  ultimately show ?thesis using bits_ident [of 8 ?x] by simp
qed

context byte_store
begin

lemma write_len_ok:
  assumes "ok s" "unat a + n \<le> 256" "t + k \<le> n"
  shows "ok (write_len k wr a v t s) \<and> cells (write_len k wr a v t s) = stored (cells s) a v t k"
  using assms
proof (induction k arbitrary: t s)
  case 0
  then show ?case by (simp add: stored_def)
next
  case (Suc k)
  have a: "a + of_nat t < 256" using Suc.prems by (intro addr_in_range) auto
  note w = wr_ok [OF Suc.prems(1) a, of "byte_at v t"]
  have "[t..<t + Suc k] = t # [Suc t..<Suc t + k]" by (simp add: upt_conv_Cons del: upt_Suc)
  then show ?case
    using Suc.IH [of "wr (a + of_nat t) (byte_at v t) s" "t + 1"] w Suc.prems
    by (simp add: stored_def byte_at_def del: upt_Suc)
qed

lemma read_len_ok:
  assumes "ok s" "unat a + Len \<le> 256" "t + k = Len" "Len \<le> 4"
    and "\<forall>i<Len. cells s (ucast (a + of_nat i)) = byte_at v i"
    and "temp = drop_bit (8 * k) (take_bit (8 * Len) v)"
  shows "\<exists>s'. read_len k rd a Len t temp s = (take_bit (8 * Len) v, s') \<and> ok s' \<and> cells s' = cells s"
  using assms
proof (induction k arbitrary: t temp s)
  case 0
  then show ?case by simp
next
  case (Suc k)
  let ?w = "take_bit (8 * Len) v"
  have k: "k < Len" using Suc.prems(3) by simp
  have addr: "a + of_nat Len - of_nat t - 1 = a + of_nat k"
    using Suc.prems(3) by (simp add: algebra_simps flip: of_nat_add of_nat_Suc)
  have lt: "a + of_nat k < 256" by (rule addr_in_range(1) [OF Suc.prems(2) k])
  obtain s1 where s1: "rd (a + of_nat k) s = (byte_at v k, s1)" "ok s1" "cells s1 = cells s"
    using rd_ok [OF Suc.prems(1) lt] Suc.prems(5) k by auto
  have "push_bit 8 (drop_bit (8 * Suc k) ?w) + ucast (byte_at v k) = drop_bit (8 * k) ?w"
    by (rule word_join_byte [OF k])
  then show ?case
    unfolding read_len.simps(2) addr s1(1) prod.case Suc.prems(6)
    using Suc.IH [of s1 "t + 1" "drop_bit (8 * k) ?w"] Suc.prems s1(2,3) by simp
qed

lemma len_roundtrip:
  assumes "ok s" "unat a + Len \<le> 256" "Len \<le> 4"
  shows "\<exists>s'. read_len Len rd a Len 0 0 (write_len Len wr a v 0 s) = (take_bit (8 * Len) v, s') \<and> ok s' \<and>
     cells s' = stored (cells s) a v 0 Len"
proof -
  have w: "ok (write_len Len wr a v 0 s)" "cells (write_len Len wr a v 0 s) = stored (cells s) a v 0 Len"
    using write_len_ok [OF assms(1,2), of 0 Len] by simp_all
  show ?thesis
    using read_len_ok [OF w(1) assms(2), of 0 Len v 0] w(2) assms(3) stored_at [OF assms(2), of 0 Len]
    by (simp add: drop_bit_take_bit)
qed

end

lemma unat_ucast_u8: "(a :: u16) < 256 \<Longrightarrow> unat (ucast a :: u8) = unat a"
  by (simp add: unsigned_ucast_eq take_bit_eq_mod word_less_nat_alt)

context byte_store
begin

lemma read_buf_ok:
  assumes "ok s" "unat a + k \<le> 256"
  shows "\<exists>s'. read_buf k rd a s = (map (\<lambda>i. cells s (ucast (a + of_nat i))) [0..<k], s') \<and>
     ok s' \<and> cells s' = cells s"
  using assms
proof (induction k arbitrary: a s)
  case 0
  then show ?case by simp
next
  case (Suc k)
  have lt: "a < 256" using Suc.prems(2) by (simp add: word_less_nat_alt)
  obtain s1 where s1: "rd a s = (cells s (ucast a), s1)" "ok s1" "cells s1 = cells s"
    by (rule rd_cases [OF Suc.prems(1) lt])
  have rest: "map (\<lambda>i. cells s (ucast (a + of_nat i))) [0..<Suc k] =
      cells s (ucast a) # map (\<lambda>i. cells s (ucast (a + 1 + of_nat i))) [0..<k]"
    by (simp add: upt_conv_Cons map_Suc_upt [symmetric] algebra_simps del: upt_Suc)
  show ?case
  proof (cases k)
    case 0
    then show ?thesis using s1 by simp
  next
    case (Suc j)
    then have "unat (a + 1) + k \<le> 256"
      using Suc.prems(2) by (subst unat_plus_one_word) simp_all
    from Suc.IH [OF s1(2) this] s1(1,3) show ?thesis unfolding rest by auto
  qed
qed

lemma write_buf_ok:
  assumes "ok s" "unat a + length vs \<le> 256"
  shows "\<exists>s'. write_buf (length vs) wr a vs s = Some s' \<and> ok s' \<and>
     (\<forall>x. cells s' x = (if unat a \<le> unat x \<and> unat x < unat a + length vs
                        then vs ! (unat x - unat a) else cells s x))"
  using assms
proof (induction vs arbitrary: a s)
  case Nil
  then show ?case by auto
next
  case (Cons v vs)
  have lt: "a < 256" using Cons.prems(2) by (simp add: word_less_nat_alt)
  note w = wr_ok [OF Cons.prems(1) lt, of v] and ua = unat_ucast_u8 [OF lt]
  have here: "x = ucast a \<longleftrightarrow> unat x = unat a" for x :: u8
    using ua by (simp add: word_unat_eq_iff)
  show ?case
  proof (cases "vs = []")
    case True
    then show ?thesis using w here by auto
  next
    case False
    then have a1: "unat (a + 1) = unat a + 1" using Cons.prems(2) by (intro unat_plus_one_word) (cases vs, auto)
    obtain s' where s': "write_buf (length vs) wr (a + 1) vs (wr a v s) = Some s'" "ok s'"
      "\<forall>x. cells s' x = (if unat a + 1 \<le> unat x \<and> unat x < unat a + 1 + length vs
          then vs ! (unat x - (unat a + 1)) else cells (wr a v s) x)"
      using Cons.IH [of "wr a v s" "a + 1"] w a1 Cons.prems(2) by auto
    have "cells s' x = (if unat a \<le> unat x \<and> unat x < unat a + length (v # vs)
        then (v # vs) ! (unat x - unat a) else cells s x)" for x
      using s'(3) w here [of x] by (cases "unat x = unat a") (auto simp: nth_Cons')
    then show ?thesis using s'(1,2) by simp
  qed
qed

lemma buf_roundtrip:
  assumes "ok s" "unat a + length vs \<le> 256"
  shows "\<exists>s1 s2. write_buf (length vs) wr a vs s = Some s1 \<and>
     read_buf (length vs) rd a s1 = (vs, s2) \<and> ok s2 \<and> cells s2 = cells s1"
proof -
  obtain s1 where s1: "write_buf (length vs) wr a vs s = Some s1" "ok s1"
    "\<forall>x. cells s1 x = (if unat a \<le> unat x \<and> unat x < unat a + length vs
                        then vs ! (unat x - unat a) else cells s x)"
    using write_buf_ok [OF assms] by blast
  have "map (\<lambda>i. cells s1 (ucast (a + of_nat i))) [0..<length vs] = vs"
  proof (rule nth_eqI)
    fix i assume i: "i < length vs"
    note r = addr_in_range [OF assms(2) i]
    show "map (\<lambda>i. cells s1 (ucast (a + of_nat i))) [0..<length vs] ! i = vs ! i"
      using i s1(3) unat_ucast_u8 [OF r(1)] r(2) by simp
  qed simp
  then show ?thesis using read_buf_ok [OF s1(2) assms(2)] s1(1) by auto
qed

end

section \<open>A chip that does not answer\<close>

text \<open>No chip, or one that never acknowledges: its core is never ready.\<close>

definition silent :: "'c i2c_core \<Rightarrow> bool" where
  "silent C \<longleftrightarrow> (\<forall>c n. \<not> c_ready C c n) \<and> (\<forall>c n. c_stop C c n = c)"

lemma silent_result: "silent C \<Longrightarrow> byte_result C True v c n = (Idle, c)"
  by (simp add: silent_def byte_result_def)

lemma silent_read:
  assumes "silent C"
  shows "AT24CXX_ReadOneByte (target_dev C) a (tbus True True True True Idle c n) =
    (0xFF, tbus True True True True Idle c (242 + n))"
proof -
  have stop: "c_stop C c n = c" for c n using assms by (simp add: silent_def)
  show ?thesis
    using small_type
    by (simp add: AT24CXX_ReadOneByte_def Let_def start_idle send_byte_rx silent_result [OF assms]
        wait_ack_idle send_byte_idle_high send_byte_idle read_byte_idle stop_low stop)
qed

lemma silent_write:
  assumes "silent C"
  shows "AT24CXX_WriteOneByte (target_dev C) a v (tbus True True True True Idle c n) =
    tbus True True True True Idle c (10206 + n)"
proof -
  have stop: "c_stop C c n = c" for c n using assms by (simp add: silent_def)
  have "IIC_Stop (target_dev C) (tbus True True True True Idle c n) = tbus True True True True Idle c (12 + n)" for n
    by (simp add: IIC_Stop_def Let_def high_tbus high_dir_tbus stop)
  then show ?thesis
    using small_type
    by (simp add: AT24CXX_WriteOneByte_def Let_def start_idle send_byte_rx silent_result [OF assms]
        wait_ack_idle send_byte_idle_high send_byte_idle read_byte_idle stop_low stop)
qed

section \<open>Properties\<close>

definition blank_chip :: "eeprom target bus" where
  "blank_chip = tbus True True True True Idle
     \<lparr>ee_mem = (\<lambda>_. 0xFF), ee_ptr = 0, ee_have = False, ee_pend = [], ee_busy = 0\<rparr> 0"

lemma blank_chip_ok: "ee_ok id blank_chip" "ee_cells id blank_chip = (\<lambda>_. 0xFF)"
proof -
  have "view_bus id blank_chip = blank_chip" by (simp add: view_bus_def blank_chip_def tbus_def)
  then have "ee_at (view_bus id blank_chip) (\<lambda>_. 0xFF)" by (simp add: blank_chip_def ee_atI)
  then show "ee_ok id blank_chip" "ee_cells id blank_chip = (\<lambda>_. 0xFF)" using ee_atD by blast+
qed

context at24_chip
begin

lemma read_after_write:
  assumes "ee_ok view b" "a < 256" "a' < 256"
  shows "\<exists>b'. AT24CXX_ReadOneByte D a' (AT24CXX_WriteOneByte D a v b) =
      (if a' = a then v else ee_cells view b (ucast a'), b') \<and> ee_ok view b' \<and>
      ee_cells view b' = (ee_cells view b)(ucast a := v)"
proof -
  note w = store.wr_ok [OF assms(1,2), of v]
  have "(ucast a' :: u8) = ucast a \<longleftrightarrow> a' = a" using ucast_addr_inj [OF assms(3,2)] by auto
  with store.rd_ok [of "AT24CXX_WriteOneByte D a v b" a'] w assms(3) show ?thesis by auto
qed

lemma check:
  assumes "ee_ok view b"
  shows "\<exists>b'. AT24CXX_Check D b = (0, b') \<and> ee_ok view b' \<and>
      ee_cells view b' = (ee_cells view b)(0xFF := 0x55)"
  unfolding AT24CXX_Check_def by (rule store.check_ok [OF assms])

lemma len:
  assumes "ee_ok view b" "unat a + unat Len \<le> 256" "Len \<le> 4"
  shows "\<exists>b'. AT24CXX_ReadLenByte D a Len (AT24CXX_WriteLenByte D a v Len b) =
      (take_bit (8 * unat Len) v, b') \<and> ee_ok view b' \<and>
      ee_cells view b' = stored (ee_cells view b) a v 0 (unat Len)"
  unfolding AT24CXX_ReadLenByte_def AT24CXX_WriteLenByte_def
  using store.len_roundtrip [OF assms(1,2)] assms(3) by (simp add: word_le_nat_alt)

lemma buf:
  assumes "ee_ok view b" "unat a + length vs \<le> 256"
  shows "\<exists>b1 b2. AT24CXX_Write D a vs (of_nat (length vs)) b = Some b1 \<and>
      AT24CXX_Read D a (of_nat (length vs)) b1 = (vs, b2) \<and> ee_ok view b2 \<and>
      ee_cells view b2 = ee_cells view b1"
proof -
  have "unat (of_nat (length vs) :: u16) = length vs"
    using assms(2) by (intro unat_of_nat_small) simp
  then show ?thesis
    unfolding AT24CXX_Write_def AT24CXX_Read_def using store.buf_roundtrip [OF assms] by simp
qed

end

theorem AT24CXX_read_after_write:
  assumes "acts_as D view (at24c02 twr)" "twr \<le> 10000" "ee_ok view b" "a < 256" "a' < 256"
  shows "\<exists>b'. AT24CXX_ReadOneByte D a' (AT24CXX_WriteOneByte D a v b) =
      (if a' = a then v else ee_cells view b (ucast a'), b') \<and> ee_ok view b' \<and>
      ee_cells view b' = (ee_cells view b)(ucast a := v)"
  using at24_chip.read_after_write [OF at24_chip.intro [OF assms(1,2)] assms(3-5)] .

theorem AT24CXX_read_after_write_witness:
  "\<exists>b'. AT24CXX_ReadOneByte (target_dev (at24c02 5000)) 7
     (AT24CXX_WriteOneByte (target_dev (at24c02 5000)) 7 0x5A blank_chip) = (0x5A, b')"
  using AT24CXX_read_after_write [OF acts_as_target _ blank_chip_ok(1), of 5000 7 7 "0x5A"]
  by (auto simp: blank_chip_ok)

theorem AT24CXX_len_roundtrip:
  assumes "acts_as D view (at24c02 twr)" "twr \<le> 10000" "ee_ok view b"
    and "unat a + unat Len \<le> 256" "Len \<le> 4"
  shows "\<exists>b'. AT24CXX_ReadLenByte D a Len (AT24CXX_WriteLenByte D a v Len b) =
      (take_bit (8 * unat Len) v, b') \<and> ee_ok view b' \<and>
      ee_cells view b' = stored (ee_cells view b) a v 0 (unat Len)"
  using at24_chip.len [OF at24_chip.intro [OF assms(1,2)] assms(3-5)] .

theorem AT24CXX_len_roundtrip_witness:
  "\<exists>b'. AT24CXX_ReadLenByte (target_dev (at24c02 5000)) 32 2
     (AT24CXX_WriteLenByte (target_dev (at24c02 5000)) 32 0x1234 2 blank_chip) = (0x1234, b')"
  using AT24CXX_len_roundtrip [OF acts_as_target _ blank_chip_ok(1), of 5000 32 2 "0x1234"]
  by (auto simp: take_bit_eq_mod)

text \<open>C29: AT24CXX_Read returns the buffer AT24CXX_Write stored, for any buffer that ends within the
  256 cells of the chip.\<close>

theorem AT24CXX_buf_roundtrip:
  assumes "acts_as D view (at24c02 twr)" "twr \<le> 10000" "ee_ok view b" "unat a + length vs \<le> 256"
  shows "\<exists>b1 b2. AT24CXX_Write D a vs (of_nat (length vs)) b = Some b1 \<and>
      AT24CXX_Read D a (of_nat (length vs)) b1 = (vs, b2) \<and> ee_ok view b2 \<and>
      ee_cells view b2 = ee_cells view b1"
  using at24_chip.buf [OF at24_chip.intro [OF assms(1,2)] assms(3,4)] .

theorem AT24CXX_buf_roundtrip_witness:
  "\<exists>b1 b2. AT24CXX_Write (target_dev (at24c02 5000)) 100 [1, 2, 3] 3 blank_chip = Some b1 \<and>
     AT24CXX_Read (target_dev (at24c02 5000)) 100 3 b1 = ([1, 2, 3], b2)"
  using AT24CXX_buf_roundtrip [OF acts_as_target _ blank_chip_ok(1), of 5000 100 "[1, 2, 3]"]
  by auto

theorem AT24CXX_Check_passes:
  assumes "acts_as D view (at24c02 twr)" "twr \<le> 10000" "ee_ok view b"
  shows "\<exists>b'. AT24CXX_Check D b = (0, b') \<and> ee_ok view b' \<and>
      ee_cells view b' = (ee_cells view b)(0xFF := 0x55)"
  using at24_chip.check [OF at24_chip.intro [OF assms(1,2)] assms(3)] .

theorem AT24CXX_Check_passes_witness:
  "\<exists>b'. AT24CXX_Check (target_dev (at24c02 5000)) blank_chip = (0, b')"
  using AT24CXX_Check_passes [OF acts_as_target _ blank_chip_ok(1), of 5000] by auto

theorem AT24CXX_absent_chip:
  assumes "silent C"
  shows "AT24CXX_ReadOneByte (target_dev C) a (tbus True True True True Idle c n) =
      (0xFF, tbus True True True True Idle c (242 + n)) \<and>
    fst (AT24CXX_Check (target_dev C) (tbus True True True True Idle c n)) = 1"
  using silent_read [OF assms] silent_write [OF assms]
  by (simp add: AT24CXX_Check_def check_store_def)

definition no_chip :: "unit i2c_core" where
  "no_chip = \<lparr>c_addr = 0, c_ready = (\<lambda>_ _. False), c_select = (\<lambda>c _. c), c_write = (\<lambda>c _. c),
     c_read = (\<lambda>c. (0, c)), c_stop = (\<lambda>c _. c)\<rparr>"

theorem AT24CXX_absent_chip_witness:
  "fst (AT24CXX_ReadOneByte (target_dev no_chip) 10 (tbus True True True True Idle () 0)) = 0xFF"
  using AT24CXX_absent_chip [of no_chip 10 "()" 0] by (simp add: silent_def no_chip_def)

end
