(* ===== verification/Sccb.thy ===== *)
theory Sccb
  imports I2c_Bus
begin

text \<open>
  The second bit-banged master, \<^verbatim>\<open>HARDWARE/MT9P031D/sccb.c\<close>, that talks to the image
  sensor.  It is the same kind of bus as in \<^verbatim>\<open>I2c_Bus\<close> on other pins, with its own functions:
  no polling for the acknowledge, and reads that start with SCL low.
\<close>

section \<open>Pins\<close>

definition SCCB_SCL :: "'d i2c_dev \<Rightarrow> bool \<Rightarrow> 'd bus \<Rightarrow> 'd bus" where
  [c_simps]: "SCCB_SCL D n b = see D (b\<lparr>scl := n\<rparr>)"

definition SCCB_SDA :: "'d i2c_dev \<Rightarrow> bool \<Rightarrow> 'd bus \<Rightarrow> 'd bus" where
  [c_simps]: "SCCB_SDA D n b = see D (b\<lparr>sda := n\<rparr>)"

definition SCCB_SDA_IN :: "'d i2c_dev \<Rightarrow> 'd bus \<Rightarrow> 'd bus" where
  [c_simps]: "SCCB_SDA_IN D b = see D (b\<lparr>sda_out := False\<rparr>)"

definition SCCB_SDA_OUT :: "'d i2c_dev \<Rightarrow> 'd bus \<Rightarrow> 'd bus" where
  [c_simps]: "SCCB_SDA_OUT D b = see D ((see D (b\<lparr>sda_out := False\<rparr>))\<lparr>sda_out := True\<rparr>)"

definition SCCB_READ_SDA :: "'d i2c_dev \<Rightarrow> 'd bus \<Rightarrow> bool" where
  [c_simps]: "SCCB_READ_SDA D b = line D b"

definition SCCB_Delay :: "'d i2c_dev \<Rightarrow> 'd bus \<Rightarrow> 'd bus" where
  [c_simps]: "SCCB_Delay D b = delay_us D 1 b"

section \<open>The functions of sccb.c\<close>

text \<open>\<^verbatim>\<open>SCCB_Init\<close> makes both pins outputs and leaves their levels as they are.\<close>

definition SCCB_Init :: "'d i2c_dev \<Rightarrow> 'd bus \<Rightarrow> 'd bus" where
  "SCCB_Init D b = see D (b\<lparr>sda_out := True\<rparr>)"

definition SCCB_Start :: "'d i2c_dev \<Rightarrow> 'd bus \<Rightarrow> 'd bus" where
  "SCCB_Start D b =
     (let b = SCCB_SDA D True b;
          b = SCCB_SCL D True b;
          b = SCCB_Delay D b;
          b = SCCB_SDA D False b;
          b = SCCB_Delay D b
      in SCCB_SCL D False b)"

definition SCCB_Stop :: "'d i2c_dev \<Rightarrow> 'd bus \<Rightarrow> 'd bus" where
  "SCCB_Stop D b =
     (let b = SCCB_SDA D False b;
          b = SCCB_Delay D b;
          b = SCCB_SCL D True b;
          b = SCCB_Delay D b;
          b = SCCB_SDA D True b
      in SCCB_Delay D b)"

definition SCCB_No_Ack :: "'d i2c_dev \<Rightarrow> 'd bus \<Rightarrow> 'd bus" where
  "SCCB_No_Ack D b =
     (let b = SCCB_Delay D b;
          b = SCCB_SDA D True b;
          b = SCCB_SCL D True b;
          b = SCCB_Delay D b;
          b = SCCB_SCL D False b;
          b = SCCB_Delay D b;
          b = SCCB_SDA D False b
      in SCCB_Delay D b)"

definition SCCB_Ack :: "'d i2c_dev \<Rightarrow> 'd bus \<Rightarrow> 'd bus" where
  "SCCB_Ack D b =
     (let b = SCCB_Delay D b;
          b = SCCB_SDA D False b;
          b = SCCB_SCL D True b;
          b = SCCB_Delay D b;
          b = SCCB_SCL D False b;
          b = SCCB_Delay D b;
          b = SCCB_SDA D True b
      in SCCB_Delay D b)"

definition sccb_bit :: "'d i2c_dev \<Rightarrow> bool \<Rightarrow> 'd bus \<Rightarrow> 'd bus" where
  "sccb_bit D v b =
     (let b = (if v then SCCB_SDA D True b else SCCB_SDA D False b);
          b = SCCB_Delay D b;
          b = SCCB_SCL D True b;
          b = SCCB_Delay D b
      in SCCB_SCL D False b)"

fun sccb_wr_loop :: "'d i2c_dev \<Rightarrow> nat \<Rightarrow> u8 \<Rightarrow> 'd bus \<Rightarrow> 'd bus" where
  "sccb_wr_loop D 0 dat b = b"
| "sccb_wr_loop D (Suc n) dat b =
     sccb_wr_loop D n (push_bit 1 dat) (sccb_bit D (dat AND 0x80 \<noteq> 0) b)"

definition SCCB_WR_Byte :: "'d i2c_dev \<Rightarrow> u8 \<Rightarrow> 'd bus \<Rightarrow> u8 \<times> 'd bus" where
  "SCCB_WR_Byte D dat b =
     (let b = sccb_wr_loop D 8 dat b;
          b = SCCB_SDA_IN D b;
          b = SCCB_Delay D b;
          b = SCCB_SCL D True b;
          b = SCCB_Delay D b;
          res = (if SCCB_READ_SDA D b then 1 else 0);
          b = SCCB_SCL D False b;
          b = SCCB_SDA_OUT D b
      in (res, b))"

fun sccb_rd_loop :: "'d i2c_dev \<Rightarrow> nat \<Rightarrow> 'w::len word \<Rightarrow> 'd bus \<Rightarrow> 'w word \<times> 'd bus" where
  "sccb_rd_loop D 0 temp b = (temp, b)"
| "sccb_rd_loop D (Suc j) temp b =
     (let b = SCCB_Delay D b;
          b = SCCB_SCL D True b;
          temp = push_bit 1 temp;
          temp = (if SCCB_READ_SDA D b then temp + 1 else temp);
          b = SCCB_Delay D b;
          b = SCCB_SCL D False b
      in sccb_rd_loop D j temp b)"

definition SCCB_RD_Byte :: "'d i2c_dev \<Rightarrow> 'd bus \<Rightarrow> u8 \<times> 'd bus" where
  "SCCB_RD_Byte D b =
     (let b = SCCB_SDA_IN D b;
          (temp, b) = sccb_rd_loop D 8 0 b
      in (temp, SCCB_SDA_OUT D b))"

definition SCCB_RD_Byte2 :: "'d i2c_dev \<Rightarrow> 'd bus \<Rightarrow> u16 \<times> 'd bus" where
  "SCCB_RD_Byte2 D b =
     (let b = SCCB_SDA_IN D b;
          (temp, b) = sccb_rd_loop D 16 0 b
      in (temp, SCCB_SDA_OUT D b))"

section \<open>Devices that act as a target\<close>

lemma sccb_pins:
  "SCCB_SCL D v b = IIC_SCL D v b" "SCCB_SDA D v b = IIC_SDA D v b" "SCCB_SDA_IN D b = SDA_IN D b"
  "SCCB_SDA_OUT D b = SDA_OUT D b" "SCCB_READ_SDA D b = READ_SDA D b" "SCCB_Delay D b = delay_us D 1 b"
  by (simp_all add: c_simps IIC_SCL_def IIC_SDA_def SDA_IN_def SDA_OUT_def READ_SDA_def)

lemma view_sccb [bus_view]:
  assumes "acts_as D view C"
  shows "view_bus view (SCCB_Start D b) = SCCB_Start (target_dev C) (view_bus view b)"
    and "view_bus view (SCCB_Stop D b) = SCCB_Stop (target_dev C) (view_bus view b)"
    and "view_bus view (SCCB_Ack D b) = SCCB_Ack (target_dev C) (view_bus view b)"
    and "view_bus view (SCCB_No_Ack D b) = SCCB_No_Ack (target_dev C) (view_bus view b)"
    and "view_bus view (sccb_bit D v b) = sccb_bit (target_dev C) v (view_bus view b)"
  by (simp_all add: SCCB_Start_def SCCB_Stop_def SCCB_Ack_def SCCB_No_Ack_def sccb_bit_def Let_def sccb_pins
      bus_view [OF assms])

lemma view_wr_loop:
  assumes "acts_as D view C"
  shows "view_bus view (sccb_wr_loop D n v b) = sccb_wr_loop (target_dev C) n v (view_bus view b)"
  by (induction n arbitrary: v b) (simp_all add: bus_view [OF assms])

lemma view_WR_Byte [bus_view]:
  assumes "acts_as D view C"
  shows "map_prod id (view_bus view) (SCCB_WR_Byte D v b) = SCCB_WR_Byte (target_dev C) v (view_bus view b)"
  by (simp add: SCCB_WR_Byte_def Let_def sccb_pins view_wr_loop [OF assms, symmetric]
      bus_view [OF assms, symmetric])

lemma view_rd_loop:
  assumes "acts_as D view C"
  shows "map_prod id (view_bus view) (sccb_rd_loop D n v b) =
    sccb_rd_loop (target_dev C) n v (view_bus view b)"
proof (induction n arbitrary: v b)
  case (Suc n)
  then show ?case
    by (simp add: Let_def sccb_pins bus_view [OF assms, symmetric])
qed simp

lemma view_RD_Byte [bus_view]:
  assumes "acts_as D view C"
  shows "map_prod id (view_bus view) (SCCB_RD_Byte D b) = SCCB_RD_Byte (target_dev C) (view_bus view b)"
  using view_rd_loop [OF assms, of 8 "0 :: u8" "SCCB_SDA_IN D b"]
  by (auto simp: SCCB_RD_Byte_def Let_def sccb_pins bus_view [OF assms] split: prod.splits)

section \<open>The operations against a target\<close>

lemma sccb_start_low:
  assumes "\<not> p_pulls ph"
  shows "SCCB_Start (target_dev C) (tbus False sd True ts ph c n) =
     tbus False False True False (RxBits True []) c (2 + n)"
proof -
  have "\<not> p_pulls (p_rise True ph)" using assms by (cases ph) simp_all
  then show ?thesis using assms by (simp add: SCCB_Start_def sccb_pins Let_def high_tbus)
qed

lemma sccb_start_idle:
  "SCCB_Start (target_dev C) (tbus True True True True Idle c n) =
     tbus False False True False (RxBits True []) c (2 + n)"
  by (simp add: SCCB_Start_def sccb_pins Let_def high_tbus high_again_tbus)

lemma sccb_stop_low:
  assumes "ph = Idle \<or> ph = RxBits False []"
  shows "SCCB_Stop (target_dev C) (tbus False sd True ts ph c n) =
     tbus True True True True Idle (c_stop C c (2 + n)) (3 + n)"
  using assms by (auto simp: SCCB_Stop_def sccb_pins Let_def high_tbus)

lemma sccb_bit_rx:
  assumes "length bs < 7"
  shows "sccb_bit (target_dev C) v (tbus False sd True ts (RxBits a bs) c n) =
     tbus False v True v (RxBits a (bs @ [v])) c (2 + n)"
  using assms by (simp add: sccb_bit_def sccb_pins Let_def)

lemma sccb_bit_last:
  assumes "length bs = 7"
  shows "sccb_bit (target_dev C) v (tbus False sd True ts (RxBits a bs) c n) =
     tbus False v True v (fst (byte_result C a (byte_of_msb (bs @ [v])) c (2 + n)))
       (snd (byte_result C a (byte_of_msb (bs @ [v])) c (2 + n))) (2 + n)"
  using assms by (simp add: sccb_bit_def sccb_pins Let_def)

lemma sccb_bit_idle:
  "sccb_bit (target_dev C) v (tbus False sd True ts Idle c n) = tbus False v True v Idle c (2 + n)"
  by (simp add: sccb_bit_def sccb_pins Let_def)

lemma top_bit_80: "(w :: u8) AND 0x80 \<noteq> 0 \<longleftrightarrow> bit w 7"
proof -
  have "w AND 2 ^ 7 \<noteq> 0 \<longleftrightarrow> bit w 7" by (simp only: and_exp_eq_0_iff_not_bit not_not)
  then show ?thesis by simp
qed

lemma sccb_wr_loop_bits:
  "k + m \<le> 8 \<Longrightarrow> sccb_wr_loop D m (push_bit k v) b =
     foldl (\<lambda>b i. sccb_bit D (bit v i) b) b (map (\<lambda>j. 7 - j) [k..<k + m])"
proof (induction m arbitrary: k b)
  case (Suc m)
  have push: "push_bit 1 (push_bit k v) = push_bit (Suc k) v" by simp
  have upt: "[k..<k + Suc m] = k # [Suc k..<Suc k + m]" by (simp add: upt_conv_Cons del: upt_Suc)
  have top: "(push_bit k v AND 0x80 \<noteq> 0) = bit v (7 - k)"
    using Suc.prems by (simp only: top_bit_80 bit_push_bit_iff) simp
  show ?case
    unfolding sccb_wr_loop.simps push top upt using Suc.IH [of "Suc k"] Suc.prems
    by (simp del: upt_Suc)
qed simp

lemma sccb_wr_loop_8:
  "sccb_wr_loop D 8 v b = foldl (\<lambda>b i. sccb_bit D (bit v i) b) b [7, 6, 5, 4, 3, 2, 1, 0]"
  using sccb_wr_loop_bits [of 0 8 D v b] by (simp add: upt_rec)

text \<open>A byte with its acknowledge clock.\<close>

lemma sccb_write_ack:
  assumes "byte_result C a v c (16 + n) = (RxAck False, c')"
  shows "SCCB_WR_Byte (target_dev C) v (tbus False sd True ts (RxBits a []) c n) =
     (0, tbus False (bit v 0) True (bit v 0) (RxBits False []) c' (18 + n))"
  using assms byte_of_msb_bits [of v]
  by (simp add: SCCB_WR_Byte_def sccb_wr_loop_8 sccb_bit_rx sccb_bit_last sccb_pins msb_bits_unfold)

lemma sccb_write_ack_read:
  assumes "byte_result C a v c (16 + n) = (RxAck True, c')"
  shows "SCCB_WR_Byte (target_dev C) v (tbus False sd True ts (RxBits a []) c n) =
     (0, tbus False (bit v 0) True (bit v 0 \<and> bit (fst (c_read C c')) 7) (TxBits (fst (c_read C c')) 0)
           (snd (c_read C c')) (18 + n))"
  using assms byte_of_msb_bits [of v]
  by (simp add: SCCB_WR_Byte_def sccb_wr_loop_8 sccb_bit_rx sccb_bit_last sccb_pins msb_bits_unfold)

lemma sccb_write_nack:
  assumes "byte_result C a v c (16 + n) = (Idle, c')"
  shows "SCCB_WR_Byte (target_dev C) v (tbus False sd True ts (RxBits a []) c n) =
     (1, tbus False (bit v 0) True (bit v 0) Idle c' (18 + n))"
  using assms byte_of_msb_bits [of v]
  by (simp add: SCCB_WR_Byte_def sccb_wr_loop_8 sccb_bit_rx sccb_bit_last sccb_pins msb_bits_unfold)

lemma sccb_write_idle:
  "SCCB_WR_Byte (target_dev C) v (tbus False sd True ts Idle c n) =
     (1, tbus False (bit v 0) True (bit v 0) Idle c (18 + n))"
  by (simp add: SCCB_WR_Byte_def sccb_wr_loop_8 sccb_bit_idle sccb_pins)

lemma sccb_rd_loop_tail:
  "m \<le> 8 \<Longrightarrow>
     sccb_rd_loop (target_dev C) m (drop_bit m v)
       (tbus False sd False ts (if m = 0 then TxAck False else TxBits v (8 - m)) c n) =
     (v, tbus False sd False (if m = 0 then ts else bit v 0) (TxAck False) c (2 * int m + n))"
proof (induction m arbitrary: n ts)
  case 0
  then show ?case by simp
next
  case (Suc m)
  then have m: "7 - (7 - m) = m" "7 - m < 7 \<longleftrightarrow> m \<noteq> 0" "Suc (7 - m) = 8 - m" "m \<le> 7" by auto
  show ?case
    using Suc.IH [of "bit v m" "2 + n"] Suc.prems shift_in [of v m]
    by (auto simp: Let_def sccb_pins m algebra_simps split: if_splits)
qed

lemma sccb_read_tx:
  "SCCB_RD_Byte (target_dev C) (tbus False sd sout ts (TxBits v 0) c n) =
     (v, tbus False sd True sd (TxAck False) c (16 + n))"
proof -
  have "drop_bit 8 v = 0" by (simp add: drop_bit_eq_zero_iff_not_bit_last) 
  then show ?thesis
    using sccb_rd_loop_tail [of 8 C v sd "bit v 7" c n]
    by (simp add: SCCB_RD_Byte_def sccb_pins Let_def)
qed

lemma sccb_ack_tx:
  "SCCB_Ack (target_dev C) (tbus False sd True ts (TxAck k) c n) =
     tbus False True True (bit (fst (c_read C c)) 7) (TxBits (fst (c_read C c)) 0) (snd (c_read C c)) (4 + n)"
  by (simp add: SCCB_Ack_def sccb_pins Let_def)

lemma sccb_no_ack_tx:
  "SCCB_No_Ack (target_dev C) (tbus False sd True ts (TxAck k) c n) =
     tbus False False True False Idle c (4 + n)"
  by (simp add: SCCB_No_Ack_def sccb_pins Let_def)

end
