(* ===== verification/Cam_Sensor.thy ===== *)
theory Cam_Sensor
  imports Sccb
begin

text \<open>
  The image sensor driver of \<^verbatim>\<open>HARDWARE/MT9P031D/MT9P031D.c\<close>: register access over the bus of
  \<^verbatim>\<open>Sccb\<close>, the start-up sequence, and the functions that write a register and then read it
  back until the value has been taken.  Those loops have no bound in the code; they are
  \<^verbatim>\<open>partial_function\<close>s here, so that \<^verbatim>\<open>None\<close> is a call that never returns.

  The sensor is a parameter; \<^verbatim>\<open>mt9p031\<close> is the register file its documentation describes,
  with a mask of writable bits for every register.  The driver's functions use the interface
  \<^verbatim>\<open>reg_port\<close>.
\<close>

section \<open>Constants of MT9P031D.h\<close>

definition MT9P031_I2C_ADDR :: u8 where "MT9P031_I2C_ADDR = 0x90"
definition MT9P031_ID :: u16 where "MT9P031_ID = 0x1801"

section \<open>Register access\<close>

definition cmos_rset :: "'d i2c_dev \<Rightarrow> u8 \<Rightarrow> u16 \<Rightarrow> 'd bus \<Rightarrow> u8 \<times> 'd bus" where
  "cmos_rset D regnum regval b =
     (let res = 0;
          b = SCCB_Start D b;
          (e, b) = SCCB_WR_Byte D MT9P031_I2C_ADDR b;
          res = (if e \<noteq> 0 then 1 else res);
          (e, b) = SCCB_WR_Byte D regnum b;
          res = (if e \<noteq> 0 then 1 else res);
          (e, b) = SCCB_WR_Byte D (ucast (drop_bit 8 regval)) b;
          res = (if e \<noteq> 0 then 1 else res);
          (e, b) = SCCB_WR_Byte D (ucast regval) b;
          res = (if e \<noteq> 0 then 1 else res);
          b = SCCB_Stop D b
      in (res, b))"

definition cmos_rget :: "'d i2c_dev \<Rightarrow> u16 \<Rightarrow> 'd bus \<Rightarrow> u16 \<times> 'd bus" where
  "cmos_rget D regnum b =
     (let b = SCCB_Start D b;
          b = snd (SCCB_WR_Byte D MT9P031_I2C_ADDR b);
          b = snd (SCCB_WR_Byte D (ucast regnum) b);
          b = SCCB_Start D b;
          b = snd (SCCB_WR_Byte D (MT9P031_I2C_ADDR OR 0x01) b);
          (hi, b) = SCCB_RD_Byte D b;
          val = (ucast hi :: u16);
          b = SCCB_Ack D b;
          (lo, b) = SCCB_RD_Byte D b;
          val1 = (ucast lo :: u16);
          val = val1 + push_bit 8 val;
          b = SCCB_No_Ack D b;
          b = SCCB_Stop D b
      in (val, b))"

section \<open>Start-up and settings\<close>

text \<open>The register writes of \<^verbatim>\<open>cmos_init\<close> in order; their results are ignored.\<close>

definition cmos_init_writes :: "(u8 \<times> u16) list" where
  "cmos_init_writes =
    [(0x07, 0x02), (0x0A, 0x0), (0x0B, 0x0), (0x0C, 0x0), (0x1E, 0xC040), (0x20, 0x0), (0x21, 0x0),
     (0x2B, 0x08), (0x2C, 0x08), (0x2D, 0x08), (0x2E, 0x08), (0x35, 0x08), (0x49, 0xA8), (0xF8, 0x01),
     (0x0D, 0x0001), (0x0D, 0x0000), (0x07, 0x0003), (0x07, 0x0002)]"

definition cmos_init_with :: "(u8 \<Rightarrow> u16 \<Rightarrow> 's \<Rightarrow> u8 \<times> 's) \<Rightarrow> 's \<Rightarrow> u16 \<times> 's" where
  "cmos_init_with rset s = (1, foldl (\<lambda>s (r, v). snd (rset r v s)) s cmos_init_writes)"

definition cmos_init :: "'d i2c_dev \<Rightarrow> 'd bus \<Rightarrow> u16 \<times> 'd bus" where
  "cmos_init D b = cmos_init_with (cmos_rset D) b"

text \<open>The read-back loop.  \<^verbatim>\<open>want\<close> is an \<^verbatim>\<open>int\<close>: in \<^verbatim>\<open>cmos_set_Aoi\<close> the code compares a
  16-bit value with a sum computed as \<^verbatim>\<open>int\<close>.\<close>

partial_function (option) readback_loop ::
  "(u8 \<Rightarrow> u16 \<Rightarrow> 's \<Rightarrow> u8 \<times> 's) \<Rightarrow> (u16 \<Rightarrow> 's \<Rightarrow> u16 \<times> 's) \<Rightarrow> (int \<Rightarrow> 's \<Rightarrow> 's) \<Rightarrow>
    u8 \<Rightarrow> u16 \<Rightarrow> int \<Rightarrow> u16 \<Rightarrow> 's \<Rightarrow> (u16 \<times> 's) option" where
  "readback_loop rset rget wait reg v want val s =
     (if uint val \<noteq> want then
        readback_loop rset rget wait reg v want
          (fst (rget (ucast reg) (wait 5 (snd (rset reg v s)))))
          (snd (rget (ucast reg) (wait 5 (snd (rset reg v s)))))
      else Some (val, s))"

definition write_back ::
  "(u8 \<Rightarrow> u16 \<Rightarrow> 's \<Rightarrow> u8 \<times> 's) \<Rightarrow> (u16 \<Rightarrow> 's \<Rightarrow> u16 \<times> 's) \<Rightarrow> (int \<Rightarrow> 's \<Rightarrow> 's) \<Rightarrow>
    u8 \<Rightarrow> u16 \<Rightarrow> int \<Rightarrow> 's \<Rightarrow> (u16 \<times> 's) option" where
  "write_back rset rget wait reg v want s =
     (let s = wait 5 (snd (rset reg v s));
          (val, s) = rget (ucast reg) s
      in readback_loop rset rget wait reg v want val s)"

definition set_gain_with :: "(u8 \<Rightarrow> u16 \<Rightarrow> 's \<Rightarrow> u8 \<times> 's) \<Rightarrow> (u16 \<Rightarrow> 's \<Rightarrow> u16 \<times> 's) \<Rightarrow>
    (int \<Rightarrow> 's \<Rightarrow> 's) \<Rightarrow> u16 \<Rightarrow> 's \<Rightarrow> (u16 \<times> 's) option" where
  "set_gain_with rset rget wait GainVal s =
     write_back rset rget wait 0x35 GainVal (uint GainVal) (snd (rget 0x35 s))"

definition set_shutter_with :: "(u8 \<Rightarrow> u16 \<Rightarrow> 's \<Rightarrow> u8 \<times> 's) \<Rightarrow> (u16 \<Rightarrow> 's \<Rightarrow> u16 \<times> 's) \<Rightarrow>
    (int \<Rightarrow> 's \<Rightarrow> 's) \<Rightarrow> u32 \<Rightarrow> 's \<Rightarrow> (u16 \<times> 's) option" where
  "set_shutter_with rset rget wait ShutterVal s =
     (case write_back rset rget wait 0x09 (ucast (ShutterVal AND 0xFFFF))
             (uint (ucast ShutterVal :: u16)) s of
        None \<Rightarrow> None
      | Some (val, s) \<Rightarrow>
          (case write_back rset rget wait 0x08 (ucast (drop_bit 16 ShutterVal))
                  (uint (ucast (drop_bit 16 ShutterVal) :: u16)) s of
             None \<Rightarrow> None
           | Some (val, s) \<Rightarrow> Some (1, s)))"

definition set_aoi_with :: "(u8 \<Rightarrow> u16 \<Rightarrow> 's \<Rightarrow> u8 \<times> 's) \<Rightarrow> (u16 \<Rightarrow> 's \<Rightarrow> u16 \<times> 's) \<Rightarrow>
    (int \<Rightarrow> 's \<Rightarrow> 's) \<Rightarrow> u16 \<Rightarrow> u16 \<Rightarrow> u16 \<Rightarrow> u16 \<Rightarrow> 's \<Rightarrow> (u16 \<times> 's) option" where
  "set_aoi_with rset rget wait Y_start Y_size X_Start X_Size s =
     (case write_back rset rget wait 0x01 (Y_start + 54) (uint Y_start + 54) s of
        None \<Rightarrow> None
      | Some (val, s) \<Rightarrow>
     (case write_back rset rget wait 0x03 Y_size (uint Y_size) s of
        None \<Rightarrow> None
      | Some (val, s) \<Rightarrow>
     (case write_back rset rget wait 0x02 (X_Start + 16) (uint X_Start + 16) s of
        None \<Rightarrow> None
      | Some (val, s) \<Rightarrow> write_back rset rget wait 0x04 X_Size (uint X_Size) s)))"

definition cmos_set_Gain :: "'d i2c_dev \<Rightarrow> u16 \<Rightarrow> 'd bus \<Rightarrow> (u16 \<times> 'd bus) option" where
  "cmos_set_Gain D GainVal b = set_gain_with (cmos_rset D) (cmos_rget D) (delay_ms D) GainVal b"

definition cmos_set_Shutter :: "'d i2c_dev \<Rightarrow> u32 \<Rightarrow> 'd bus \<Rightarrow> (u16 \<times> 'd bus) option" where
  "cmos_set_Shutter D ShutterVal b =
     set_shutter_with (cmos_rset D) (cmos_rget D) (delay_ms D) ShutterVal b"

definition cmos_set_Aoi ::
  "'d i2c_dev \<Rightarrow> u16 \<Rightarrow> u16 \<Rightarrow> u16 \<Rightarrow> u16 \<Rightarrow> 'd bus \<Rightarrow> (u16 \<times> 'd bus) option" where
  "cmos_set_Aoi D Y_start Y_size X_Start X_Size b =
     set_aoi_with (cmos_rset D) (cmos_rget D) (delay_ms D) Y_start Y_size X_Start X_Size b"

text \<open>Waiting for the sensor's identity; the code starts with whatever \<^verbatim>\<open>reg\<close> holds, which it
  does not initialise.\<close>

partial_function (option) wait_id ::
  "(u16 \<Rightarrow> 's \<Rightarrow> u16 \<times> 's) \<Rightarrow> (int \<Rightarrow> 's \<Rightarrow> 's) \<Rightarrow> u16 \<Rightarrow> 's \<Rightarrow> (u16 \<times> 's) option" where
  "wait_id rget wait reg s =
     (if reg \<noteq> MT9P031_ID then wait_id rget wait (fst (rget 0x00 s)) (wait 10 (snd (rget 0x00 s)))
      else Some (reg, s))"

text \<open>\<^verbatim>\<open>rst\<close> is what the reset pin does to the sensor; the four bytes are those of the current
  parameters (\<^verbatim>\<open>aoistartyh\<close>, \<^verbatim>\<open>aoistartyl\<close>, \<^verbatim>\<open>exposureh\<close>, \<^verbatim>\<open>exposurel\<close>).\<close>

definition MT9P031D_RST :: "(bool \<Rightarrow> 'd \<Rightarrow> 'd) \<Rightarrow> bool \<Rightarrow> 'd bus \<Rightarrow> 'd bus" where
  "MT9P031D_RST rst n b = b\<lparr>dev := rst n (dev b)\<rparr>"

definition MT9P031_Init :: "'d i2c_dev \<Rightarrow> (bool \<Rightarrow> 'd \<Rightarrow> 'd) \<Rightarrow> u16 \<Rightarrow> u8 \<Rightarrow> u8 \<Rightarrow> u8 \<Rightarrow> u8 \<Rightarrow>
    'd bus \<Rightarrow> (u8 \<times> 'd bus) option" where
  "MT9P031_Init D rst reg0 aoistartyh aoistartyl exposureh exposurel b =
     (let b = delay_ms D 5 (MT9P031D_RST rst True b);
          b = delay_ms D 20 (MT9P031D_RST rst False b);
          b = delay_ms D 5 (SCCB_Init D b)
      in case wait_id (cmos_rget D) (delay_ms D) reg0 b of
           None \<Rightarrow> None
         | Some (reg, b) \<Rightarrow>
             if reg \<noteq> MT9P031_ID then Some (1, b)
             else (let b = delay_ms D 20 (MT9P031D_RST rst True b);
                       b = delay_ms D 10 (MT9P031D_RST rst False b);
                       b = snd (cmos_init D b)
                   in case cmos_set_Aoi D (push_bit 8 (ucast aoistartyh) + ucast aoistartyl - 240)
                             479 0 2591 b of
                        None \<Rightarrow> None
                      | Some (_, b) \<Rightarrow>
                          (case cmos_set_Gain D 9 b of
                             None \<Rightarrow> None
                           | Some (_, b) \<Rightarrow>
                               (case cmos_set_Shutter D (push_bit 8 (ucast exposureh) + ucast exposurel) b of
                                  None \<Rightarrow> None
                                | Some (_, b) \<Rightarrow> Some (0, b)))))"

section \<open>The sensor's registers\<close>

record mt9p =
  mt_regs :: "u8 \<Rightarrow> u16"
  mt_ptr :: u8
  mt_n :: nat
  mt_hi :: u8
  mt_low :: bool

definition masked :: "u16 \<Rightarrow> u16 \<Rightarrow> u16 \<Rightarrow> u16" where
  "masked wm old new = (old AND NOT wm) OR (new AND wm)"

definition mt9p031 :: "(u8 \<Rightarrow> u16) \<Rightarrow> mt9p i2c_core" where
  "mt9p031 wm = \<lparr>
     c_addr = 0x90,
     c_ready = (\<lambda>_ _. True),
     c_select = (\<lambda>c rd. c\<lparr>mt_n := 0, mt_low := False\<rparr>),
     c_write = (\<lambda>c v.
       if mt_n c = 0 then c\<lparr>mt_ptr := v, mt_n := 1\<rparr>
       else if mt_n c = 1 then c\<lparr>mt_hi := v, mt_n := 2\<rparr>
       else c\<lparr>mt_regs := (mt_regs c)(mt_ptr c :=
                 masked (wm (mt_ptr c)) (mt_regs c (mt_ptr c)) (of_le16 v (mt_hi c))),
              mt_ptr := mt_ptr c + 1, mt_n := 1\<rparr>),
     c_read = (\<lambda>c.
       if mt_low c then (ucast (mt_regs c (mt_ptr c)), c\<lparr>mt_low := False, mt_ptr := mt_ptr c + 1\<rparr>)
       else (ucast (drop_bit 8 (mt_regs c (mt_ptr c))), c\<lparr>mt_low := True\<rparr>)),
     c_stop = (\<lambda>c _. c)\<rparr>"

section \<open>The interface of a register port\<close>

locale reg_port =
  fixes rset :: "u8 \<Rightarrow> u16 \<Rightarrow> 's \<Rightarrow> u8 \<times> 's"
    and rget :: "u16 \<Rightarrow> 's \<Rightarrow> u16 \<times> 's"
    and wait :: "int \<Rightarrow> 's \<Rightarrow> 's"
    and ok :: "'s \<Rightarrow> bool"
    and regs :: "'s \<Rightarrow> u8 \<Rightarrow> u16"
    and wm :: "u8 \<Rightarrow> u16"
  assumes rset_ok: "ok s \<Longrightarrow> \<exists>s'. rset r v s = (0, s') \<and> ok s' \<and>
      regs s' = (regs s)(r := masked (wm r) (regs s r) v)"
    and rget_ok: "ok s \<Longrightarrow> \<exists>s'. rget a s = (regs s (ucast a), s') \<and> ok s' \<and> regs s' = regs s"
    and wait_ok: "ok s \<Longrightarrow> ok (wait n s) \<and> regs (wait n s) = regs s"
begin

lemma write_back_ok:
  assumes "ok s" "uint (masked (wm r) (regs s r) v) = want"
  shows "\<exists>s'. write_back rset rget wait r v want s = Some (masked (wm r) (regs s r) v, s') \<and> ok s' \<and>
     regs s' = (regs s)(r := masked (wm r) (regs s r) v)"
proof -
  obtain s1 where s1: "rset r v s = (0, s1)" "ok s1" "regs s1 = (regs s)(r := masked (wm r) (regs s r) v)"
    using rset_ok [OF assms(1)] by blast
  note s2 = wait_ok [OF s1(2), of 5]
  obtain s3 where s3: "rget (ucast r) (wait 5 s1) = (regs (wait 5 s1) r, s3)" "ok s3"
    "regs s3 = regs (wait 5 s1)"
    using rget_ok [of "wait 5 s1" "ucast r"] s2 by (auto simp: u8_u16_u8)
  show ?thesis
    using s1 s2 s3 assms(2) by (simp add: write_back_def readback_loop.simps)
qed

end

section \<open>A transfer at the pins is a transfer in the sensor\<close>

text \<open>The bus between transfers: both lines high, or (before the first one) SCL low.\<close>

definition at_rest :: "'c target bus \<Rightarrow> 'c \<Rightarrow> int \<Rightarrow> bool" where
  "at_rest b c n \<longleftrightarrow> b = tbus True True True True Idle c n \<or> (\<exists>sd ts. b = tbus False sd True ts Idle c n)"

lemma start_at_rest:
  "at_rest b c n \<Longrightarrow> SCCB_Start (target_dev C) b = tbus False False True False (RxBits True []) c (2 + n)"
  by (auto simp: at_rest_def sccb_start_idle sccb_start_low)

lemma delay_at_rest: "at_rest b c n \<Longrightarrow> at_rest (delay_ms (target_dev C) k b) c (k * 1000 + n)"
  unfolding at_rest_def by (elim disjE exE) (simp, rule disjI2, simp, blast)

definition mt_at :: "mt9p target bus \<Rightarrow> (u8 \<Rightarrow> u16) \<Rightarrow> bool" where
  "mt_at b rs \<longleftrightarrow> (\<exists>c n. at_rest b c n \<and> mt_regs c = rs)"

lemma mt_at_idle: "mt_regs c = rs \<Longrightarrow> mt_at (tbus True True True True Idle c n) rs"
  by (auto simp: mt_at_def at_rest_def)

lemma mt9p031_simps [simp]:
  "c_addr (mt9p031 wm) = 0x90" "c_ready (mt9p031 wm) c n"
  "c_select (mt9p031 wm) c rd = c\<lparr>mt_n := 0, mt_low := False\<rparr>"
  "mt_n c = 0 \<Longrightarrow> c_write (mt9p031 wm) c v = c\<lparr>mt_ptr := v, mt_n := 1\<rparr>"
  "mt_n c = Suc 0 \<Longrightarrow> c_write (mt9p031 wm) c v = c\<lparr>mt_hi := v, mt_n := 2\<rparr>"
  "mt_n c = 2 \<Longrightarrow> c_write (mt9p031 wm) c v =
     c\<lparr>mt_regs := (mt_regs c)(mt_ptr c :=
         masked (wm (mt_ptr c)) (mt_regs c (mt_ptr c)) (of_le16 v (mt_hi c))),
       mt_ptr := mt_ptr c + 1, mt_n := 1\<rparr>"
  "mt_low c \<Longrightarrow> c_read (mt9p031 wm) c =
     (ucast (mt_regs c (mt_ptr c)), c\<lparr>mt_low := False, mt_ptr := mt_ptr c + 1\<rparr>)"
  "\<not> mt_low c \<Longrightarrow> c_read (mt9p031 wm) c = (ucast (drop_bit 8 (mt_regs c (mt_ptr c))), c\<lparr>mt_low := True\<rparr>)"
  "c_stop (mt9p031 wm) c n = c"
  by (simp_all add: mt9p031_def)

lemma mt_byte_addr [simp]:
  "byte_result (mt9p031 wm) True 0x90 c n = (RxAck False, c\<lparr>mt_n := 0, mt_low := False\<rparr>)"
  "byte_result (mt9p031 wm) True 0x91 c n = (RxAck True, c\<lparr>mt_n := 0, mt_low := False\<rparr>)"
  "byte_result (mt9p031 wm) False v c n = (RxAck False, c_write (mt9p031 wm) c v)"
  by (simp_all add: byte_result_def)

lemma rset_at_target:
  assumes "mt_at b rs"
  shows "\<exists>b'. cmos_rset (target_dev (mt9p031 wm)) r v b = (0, b') \<and>
     mt_at b' (rs(r := masked (wm r) (rs r) v))"
proof -
  obtain c n where b: "at_rest b c n" "mt_regs c = rs"
    using assms by (auto simp: mt_at_def)
  show ?thesis
    using b(2)
    by (simp add: cmos_rset_def Let_def start_at_rest [OF b(1)] MT9P031_I2C_ADDR_def sccb_write_ack
        sccb_stop_low of_le16_le16 mt_at_idle)
qed

lemma rget_at_target:
  assumes "mt_at b rs"
  shows "\<exists>b'. cmos_rget (target_dev (mt9p031 wm)) a b = (rs (ucast a), b') \<and> mt_at b' rs"
proof -
  obtain c n where b: "at_rest b c n" "mt_regs c = rs"
    using assms by (auto simp: mt_at_def)
  show ?thesis
    using b(2)
    by (simp add: cmos_rget_def Let_def start_at_rest [OF b(1)] MT9P031_I2C_ADDR_def sccb_start_low
        sccb_write_ack sccb_write_ack_read sccb_read_tx sccb_ack_tx sccb_no_ack_tx sccb_stop_low
        hi_lo_u16 mt_at_idle)
qed

lemma uint_u16_bound: "uint (v :: u16) < 65536" "0 \<le> uint v"
  using uint_bounded [of v] by simp_all

lemma readback_never:
  assumes "want < 0 \<or> 65535 < want"
  shows "readback_loop rset rget wait reg v want val s = None"
proof (rule ccontr)
  assume "readback_loop rset rget wait reg v want val s \<noteq> None"
  then obtain y where "readback_loop rset rget wait reg v want val s = Some y" by auto
  then have "\<not> (want < 0 \<or> 65535 < want)"
  proof (rule readback_loop.raw_induct
      [where P = "\<lambda>rset rget wait reg v want val s y. \<not> (want < 0 \<or> 65535 < want)", rotated], goal_cases)
    case (1 f rset rget wait reg v want val s y)
    then show ?case using uint_u16_bound [of val] by (auto split: if_splits)
  qed
  then show False using assms by simp
qed

lemma write_back_never:
  "want < 0 \<or> 65535 < want \<Longrightarrow> write_back rset rget wait reg v want s = None"
  by (simp add: write_back_def readback_never case_prod_unfold Let_def)

lemma wait_id_result:
  assumes "wait_id rget wait reg s = Some y"
  shows "fst y = MT9P031_ID"
  using assms
proof (rule wait_id.raw_induct [where P = "\<lambda>rget wait reg s y. fst y = MT9P031_ID", rotated], goal_cases)
  case (1 f rget wait reg s y)
  then show ?case by (auto split: if_splits)
qed

lemma wait_id_never:
  assumes step: "\<And>s. P s \<Longrightarrow> fst (rget 0 s) \<noteq> MT9P031_ID \<and> P (wait 10 (snd (rget 0 s)))"
    and "P s" "reg \<noteq> MT9P031_ID"
  shows "wait_id rget wait reg s = None"
proof (rule ccontr)
  assume "wait_id rget wait reg s \<noteq> None"
  then obtain y where "wait_id rget wait reg s = Some y" by auto
  then have "rget = rget \<longrightarrow> wait = wait \<longrightarrow> P s \<longrightarrow> reg = MT9P031_ID"
  proof (rule wait_id.raw_induct
      [where P = "\<lambda>g w reg s y. g = rget \<longrightarrow> w = wait \<longrightarrow> P s \<longrightarrow> reg = MT9P031_ID", rotated], goal_cases)
    case (1 f g w reg s y)
    show ?case
    proof (intro impI, rule ccontr)
      assume a: "g = rget" "w = wait" "P s" "reg \<noteq> MT9P031_ID"
      then have "f g w (fst (g 0 s)) (w 10 (snd (g 0 s))) = Some y" using 1(2) by simp
      from 1(1) [OF this] step [OF a(3)] a(1,2) show False by simp
    qed
  qed
  then show False using assms(2,3) by simp
qed

section \<open>Any sensor that behaves like its documentation\<close>

definition mt_reg_file :: "('d \<Rightarrow> mt9p target) \<Rightarrow> 'd bus \<Rightarrow> u8 \<Rightarrow> u16" where
  "mt_reg_file view b = mt_regs (t_core (view (dev b)))"

definition mt_ok :: "('d \<Rightarrow> mt9p target) \<Rightarrow> 'd bus \<Rightarrow> bool" where
  "mt_ok view b \<longleftrightarrow> mt_at (view_bus view b) (mt_reg_file view b)"

lemma mt_atD: "mt_at (view_bus view b) rs \<Longrightarrow> mt_ok view b \<and> mt_reg_file view b = rs"
  by (auto simp: mt_ok_def mt_at_def at_rest_def mt_reg_file_def view_bus_def tbus_def)

locale sensor_chip =
  fixes D :: "'d i2c_dev" and view :: "'d \<Rightarrow> mt9p target" and wm :: "u8 \<Rightarrow> u16"
  assumes chip: "acts_as D view (mt9p031 wm)"
begin

lemma view_wr:
  "fst (SCCB_WR_Byte (target_dev (mt9p031 wm)) v (view_bus view b)) = fst (SCCB_WR_Byte D v b)"
  "snd (SCCB_WR_Byte (target_dev (mt9p031 wm)) v (view_bus view b)) = view_bus view (snd (SCCB_WR_Byte D v b))"
  by (simp_all flip: view_WR_Byte [OF chip])

lemma view_rd:
  "fst (SCCB_RD_Byte (target_dev (mt9p031 wm)) (view_bus view b)) = fst (SCCB_RD_Byte D b)"
  "snd (SCCB_RD_Byte (target_dev (mt9p031 wm)) (view_bus view b)) = view_bus view (snd (SCCB_RD_Byte D b))"
  by (simp_all flip: view_RD_Byte [OF chip])

lemma view_rset: "map_prod id (view_bus view) (cmos_rset D r v b) =
    cmos_rset (target_dev (mt9p031 wm)) r v (view_bus view b)"
  unfolding cmos_rset_def Let_def case_prod_unfold
  by (simp add: view_sccb [OF chip, symmetric] view_wr)

lemma view_rget: "map_prod id (view_bus view) (cmos_rget D a b) =
    cmos_rget (target_dev (mt9p031 wm)) a (view_bus view b)"
  unfolding cmos_rget_def Let_def case_prod_unfold
  by (simp add: view_sccb [OF chip, symmetric] view_wr view_rd)

end

sublocale sensor_chip \<subseteq> port: reg_port "cmos_rset D" "cmos_rget D" "delay_ms D" "mt_ok view"
  "mt_reg_file view" wm
proof (unfold_locales, goal_cases)
  case (1 b r v)
  then have at: "mt_at (view_bus view b) (mt_reg_file view b)" by (simp add: mt_ok_def)
  from rset_at_target [OF at, of wm r v] show ?case
    using view_rset [of r v b] mt_atD by (cases "cmos_rset D r v b") fastforce
next
  case (2 b a)
  then have at: "mt_at (view_bus view b) (mt_reg_file view b)" by (simp add: mt_ok_def)
  from rget_at_target [OF at, of wm a] show ?case
    using view_rget [of a b] mt_atD by (cases "cmos_rget D a b") fastforce
next
  case (3 b n)
  then obtain c t where "at_rest (view_bus view b) c t" "mt_regs c = mt_reg_file view b"
    by (auto simp: mt_ok_def mt_at_def)
  then have "mt_at (view_bus view (delay_ms D n b)) (mt_reg_file view b)"
    using delay_at_rest [of "view_bus view b" c t "mt9p031 wm" n]
    by (auto simp: view_pins(6) [OF chip] mt_at_def)
  then show ?case by (rule mt_atD)
qed

interpretation sensor: sensor_chip "target_dev (mt9p031 wm)" id wm for wm
  by unfold_locales (rule acts_as_target)

section \<open>The settings\<close>

lemma uint_plus_small:
  fixes w :: u16
  assumes "uint w + int k < 65536"
  shows "uint (w + of_nat k) = uint w + int k"
proof -
  have "uint (w + of_nat k) = (uint w + int k) mod 65536"
    by (simp add: uint_word_ariths unsigned_of_nat take_bit_eq_mod of_nat_mod mod_add_right_eq)
  then show ?thesis using assms uint_u16_bound [of w] by (simp add: mod_pos_pos_trivial)
qed

context reg_port
begin

lemma set_gain_ok:
  assumes "ok s" "masked (wm 0x35) (regs s 0x35) v = v"
  shows "\<exists>s'. set_gain_with rset rget wait v s = Some (v, s') \<and> ok s' \<and> regs s' = (regs s)(0x35 := v)"
proof -
  obtain s1 where s1: "rget 0x35 s = (regs s 0x35, s1)" "ok s1" "regs s1 = regs s"
    using rget_ok [OF assms(1), of "0x35"] by auto
  show ?thesis
    using write_back_ok [OF s1(2), of "0x35" v "uint v"] assms(2) s1 by (simp add: set_gain_with_def)
qed

lemma set_shutter_ok:
  assumes "ok s" "masked (wm 0x09) (regs s 0x09) (ucast v) = ucast v"
    and "masked (wm 0x08) (regs s 0x08) (ucast (drop_bit 16 v)) = ucast (drop_bit 16 v)"
  shows "\<exists>s'. set_shutter_with rset rget wait v s = Some (1, s') \<and> ok s' \<and>
     regs s' = (regs s)(0x09 := ucast v, 0x08 := ucast (drop_bit 16 v))"
proof -
  have low: "(ucast (v AND 0xFFFF) :: u16) = ucast v"
  proof -
    have "(0xFFFF :: u32) = mask 16" by (simp add: mask_eq_exp_minus_1)
    then show ?thesis
      by (intro bit_word_eqI) (simp only: bit_ucast_iff bit_and_iff bit_mask_iff, auto)
  qed
  obtain s1 where s1: "write_back rset rget wait 0x09 (ucast v) (uint (ucast v :: u16)) s = Some (ucast v, s1)"
    "ok s1" "regs s1 = (regs s)(0x09 := ucast v)"
    using write_back_ok [OF assms(1), of "0x09" "ucast v"] assms(2) by auto
  let ?h = "ucast (drop_bit 16 v) :: u16"
  obtain s2 where s2: "write_back rset rget wait 0x08 ?h (uint ?h) s1 = Some (?h, s2)"
    "ok s2" "regs s2 = (regs s1)(0x08 := ?h)"
    using write_back_ok [OF s1(2), of "0x08" ?h] assms(3) s1(3) by auto
  show ?thesis using s1 s2 by (simp add: set_shutter_with_def low)
qed

lemma set_aoi_ok:
  assumes "ok s" "uint y + 54 < 65536" "uint x + 16 < 65536"
    and "masked (wm 0x01) (regs s 0x01) (y + 54) = y + 54" "masked (wm 0x03) (regs s 0x03) h = h"
    and "masked (wm 0x02) (regs s 0x02) (x + 16) = x + 16" "masked (wm 0x04) (regs s 0x04) w = w"
  shows "\<exists>s'. set_aoi_with rset rget wait y h x w s = Some (w, s') \<and> ok s' \<and>
     regs s' = (regs s)(0x01 := y + 54, 0x03 := h, 0x02 := x + 16, 0x04 := w)"
proof -
  have y: "uint (y + 54) = uint y + 54" using uint_plus_small [of y 54] assms(2) by simp
  have x: "uint (x + 16) = uint x + 16" using uint_plus_small [of x 16] assms(3) by simp
  obtain s1 where s1: "write_back rset rget wait 0x01 (y + 54) (uint y + 54) s = Some (y + 54, s1)"
    "ok s1" "regs s1 = (regs s)(0x01 := y + 54)"
    using write_back_ok [OF assms(1), of "0x01" "y + 54"] assms(4) y by auto
  obtain s2 where s2: "write_back rset rget wait 0x03 h (uint h) s1 = Some (h, s2)"
    "ok s2" "regs s2 = (regs s1)(0x03 := h)"
    using write_back_ok [OF s1(2), of "0x03" h] assms(5) s1(3) by auto
  obtain s3 where s3: "write_back rset rget wait 0x02 (x + 16) (uint x + 16) s2 = Some (x + 16, s3)"
    "ok s3" "regs s3 = (regs s2)(0x02 := x + 16)"
    using write_back_ok [OF s2(2), of "0x02" "x + 16"] assms(6) s1(3) s2(3) x by auto
  obtain s4 where s4: "write_back rset rget wait 0x04 w (uint w) s3 = Some (w, s4)"
    "ok s4" "regs s4 = (regs s3)(0x04 := w)"
    using write_back_ok [OF s3(2), of "0x04" w] assms(7) s1(3) s2(3) s3(3) by auto
  show ?thesis using s1 s2 s3 s4 by (simp add: set_aoi_with_def)
qed

lemma rset_all_ok:
  assumes "ok s"
  shows "ok (foldl (\<lambda>s (r, v). snd (rset r v s)) s ws) \<and>
    regs (foldl (\<lambda>s (r, v). snd (rset r v s)) s ws) =
      foldl (\<lambda>rs (r, v). rs(r := masked (wm r) (rs r) v)) (regs s) ws"
  using assms
proof (induction ws arbitrary: s)
  case (Cons rv ws)
  obtain s' where "rset (fst rv) (snd rv) s = (0, s')" "ok s'"
    "regs s' = (regs s)(fst rv := masked (wm (fst rv)) (regs s (fst rv)) (snd rv))"
    using rset_ok [OF Cons.prems] by blast
  with Cons.IH [of s'] show ?case by (simp add: case_prod_unfold)
qed simp

end

lemma masked_full [simp]: "masked 0xFFFF old v = v"
proof -
  have "(0xFFFF :: u16) = - 1" by simp
  then show ?thesis unfolding masked_def by (simp only: and.right_neutral) simp
qed

section \<open>Start-up\<close>

text \<open>The fields of the registers the driver reads back.  The masks of the row start, the column
  start, the shutter width and the gain are those of \<^verbatim>\<open>MT9P031D.h\<close>; for the two sizes,
  which have none there, the masks of the starts are taken.  A sensor may have more writable bits
  than the field.\<close>

definition field_mask :: "u8 \<Rightarrow> u16" where
  "field_mask r =
     (if r = 0x01 \<or> r = 0x03 then 0x07FF else if r = 0x02 \<or> r = 0x04 then 0x0FFF
      else if r = 0x35 then 0x7F7F else if r = 0x08 \<or> r = 0x09 then 0xFFFF else 0)"

definition settable :: "(u8 \<Rightarrow> u16) \<Rightarrow> bool" where
  "settable wm \<longleftrightarrow> (\<forall>r\<in>{0x01, 0x02, 0x03, 0x04, 0x08, 0x09, 0x35}. wm r AND field_mask r = field_mask r)"

text \<open>The bits of the window and gain registers that cannot be written read as 0.\<close>

definition clean :: "(u8 \<Rightarrow> u16) \<Rightarrow> (u8 \<Rightarrow> u16) \<Rightarrow> bool" where
  "clean wm rs \<longleftrightarrow> (\<forall>r\<in>{0x01, 0x02, 0x03, 0x04, 0x35}. rs r AND NOT (wm r) = 0)"

text \<open>The reset pin changes the registers of the sensor, not its identity, and nothing on the
  wires; what a reset leaves in the window and gain registers fits their fields, as the defaults
  in \<^verbatim>\<open>MT9P031D.h\<close> do.\<close>

definition resets_registers :: "(u8 \<Rightarrow> u16) \<Rightarrow> ('d \<Rightarrow> mt9p target) \<Rightarrow> (bool \<Rightarrow> 'd \<Rightarrow> 'd) \<Rightarrow> bool" where
  "resets_registers wm view rst \<longleftrightarrow>
     (\<forall>n d. \<exists>rs. view (rst n d) = (view d)\<lparr>t_core := (t_core (view d))\<lparr>mt_regs := rs\<rparr>\<rparr> \<and>
                 rs 0 = mt_regs (t_core (view d)) 0 \<and> clean wm rs)"

lemma masked_fits:
  assumes "old AND NOT wm = 0" "wm AND m = m" "v AND m = v"
  shows "masked wm old v = v"
proof -
  have "v AND wm = v" using assms(2,3) by (metis and.assoc and.commute)
  then show ?thesis using assms(1) by (simp add: masked_def)
qed

lemma masked_rest: "masked wm old v AND NOT wm = old AND NOT wm"
  by (rule bit_word_eqI) (auto simp: masked_def bit_simps)

lemma clean_masked: "clean wm rs \<Longrightarrow> clean wm (rs(r := masked (wm r) (rs r) v))"
  by (auto simp: clean_def masked_rest)

lemma clean_upd: "clean wm rs \<Longrightarrow> v AND NOT (wm r) = 0 \<Longrightarrow> clean wm (rs(r := v))"
  by (auto simp: clean_def)

lemma clean_fold:
  "clean wm rs \<Longrightarrow> clean wm (foldl (\<lambda>rs (r, v). rs(r := masked (wm r) (rs r) v)) rs ws)"
  by (induction ws arbitrary: rs) (auto simp: clean_masked)

lemma settableD:
  assumes "settable wm"
  shows "wm 0x01 AND 0x07FF = 0x07FF" "wm 0x02 AND 0x0FFF = 0x0FFF" "wm 0x03 AND 0x07FF = 0x07FF"
    "wm 0x04 AND 0x0FFF = 0x0FFF" "wm 0x35 AND 0x7F7F = 0x7F7F" "wm 0x08 = 0xFFFF" "wm 0x09 = 0xFFFF"
proof -
  have full: "w AND 0xFFFF = w" for w :: u16
  proof -
    have "(0xFFFF :: u16) = - 1" by simp
    then show ?thesis by (simp only: and.right_neutral)
  qed
  show "wm 0x08 = 0xFFFF" "wm 0x09 = 0xFFFF"
    using assms full [of "wm 0x08"] full [of "wm 0x09"] by (simp_all add: settable_def field_mask_def)
qed (use assms in \<open>simp_all add: settable_def field_mask_def\<close>)

lemma fits_field: "unat (v :: u16) < 2 ^ n \<Longrightarrow> v AND mask n = v"
  by (simp add: word_unat_eq_iff unsigned_take_bit_eq take_bit_nat_eq_self flip: take_bit_eq_mask)

context sensor_chip
begin

lemma rset_rget:
  assumes "mt_ok view b"
  shows "\<exists>b1 b2. cmos_rset D r v b = (0, b1) \<and> mt_ok view b1 \<and>
     mt_reg_file view b1 = (mt_reg_file view b)(r := masked (wm r) (mt_reg_file view b r) v) \<and>
     cmos_rget D a b1 = (mt_reg_file view b1 (ucast a), b2) \<and> mt_ok view b2 \<and>
     mt_reg_file view b2 = mt_reg_file view b1"
proof -
  obtain b1 where b1: "cmos_rset D r v b = (0, b1)" "mt_ok view b1"
     "mt_reg_file view b1 = (mt_reg_file view b)(r := masked (wm r) (mt_reg_file view b r) v)"
    using port.rset_ok [OF assms] by blast
  with port.rget_ok [OF b1(2), of a] show ?thesis by auto
qed

lemma set_Shutter:
  assumes "mt_ok view b" "settable wm"
  shows "\<exists>b'. cmos_set_Shutter D v b = Some (1, b') \<and> mt_ok view b' \<and>
     mt_reg_file view b' = (mt_reg_file view b)(0x09 := ucast v, 0x08 := ucast (drop_bit 16 v))"
  unfolding cmos_set_Shutter_def
  using port.set_shutter_ok [OF assms(1), of v] settableD [OF assms(2)] by simp

lemma set_Gain:
  assumes "mt_ok view b" "settable wm" "clean wm (mt_reg_file view b)" "v AND 0x7F7F = v"
  shows "\<exists>b'. cmos_set_Gain D v b = Some (v, b') \<and> mt_ok view b' \<and>
     mt_reg_file view b' = (mt_reg_file view b)(0x35 := v)"
proof -
  have "masked (wm 0x35) (mt_reg_file view b 0x35) v = v"
    using assms(3) settableD [OF assms(2)] assms(4) by (intro masked_fits) (auto simp: clean_def)
  then show ?thesis unfolding cmos_set_Gain_def by (rule port.set_gain_ok [OF assms(1)])
qed

lemma set_Aoi:
  assumes "mt_ok view b" "settable wm" "clean wm (mt_reg_file view b)" "uint y + 54 < 2048" "uint x + 16 < 4096"
    and "h AND 0x07FF = h" "w AND 0x0FFF = w"
  shows "\<exists>b'. cmos_set_Aoi D y h x w b = Some (w, b') \<and> mt_ok view b' \<and> clean wm (mt_reg_file view b') \<and>
     mt_reg_file view b' = (mt_reg_file view b)(0x01 := y + 54, 0x03 := h, 0x02 := x + 16, 0x04 := w)"
proof -
  have c: "mt_reg_file view b r AND NOT (wm r) = 0" if "r \<in> {0x01, 0x02, 0x03, 0x04}" for r
    using assms(3) that by (auto simp: clean_def)
  note w = settableD [OF assms(2)]
  have y: "(y + 54) AND 0x07FF = y + 54"
    using fits_field [of "y + 54" 11] uint_plus_small [of y 54] assms(4)
    by (simp add: mask_eq_exp_minus_1 flip: nat_uint_eq)
  have x: "(x + 16) AND 0x0FFF = x + 16"
    using fits_field [of "x + 16" 12] uint_plus_small [of x 16] assms(5)
    by (simp add: mask_eq_exp_minus_1 flip: nat_uint_eq)
  have m: "masked (wm 0x01) (mt_reg_file view b 0x01) (y + 54) = y + 54"
    "masked (wm 0x03) (mt_reg_file view b 0x03) h = h"
    "masked (wm 0x02) (mt_reg_file view b 0x02) (x + 16) = x + 16"
    "masked (wm 0x04) (mt_reg_file view b 0x04) w = w"
    using c w x y assms(6,7) by (auto intro: masked_fits)
  have fit: "v AND NOT (wm r) = 0" if "masked (wm r) (mt_reg_file view b r) v = v" "r \<in> {0x01, 0x02, 0x03, 0x04}"
    for r v using masked_rest [of "wm r" "mt_reg_file view b r" v] that c by simp
  obtain b' where b': "cmos_set_Aoi D y h x w b = Some (w, b')" "mt_ok view b'"
    "mt_reg_file view b' = (mt_reg_file view b)(0x01 := y + 54, 0x03 := h, 0x02 := x + 16, 0x04 := w)"
    using port.set_aoi_ok [OF assms(1) _ _ m] assms(4,5) unfolding cmos_set_Aoi_def by auto
  have "clean wm (mt_reg_file view b')"
    unfolding b'(3) by (intro clean_upd assms(3) fit m) simp_all
  then show ?thesis using b' by blast
qed

lemma init_regs:
  assumes "mt_ok view b" "clean wm (mt_reg_file view b)"
  shows "mt_ok view (snd (cmos_init D b)) \<and> clean wm (mt_reg_file view (snd (cmos_init D b)))"
  using port.rset_all_ok [OF assms(1)] clean_fold [OF assms(2)]
  by (simp add: cmos_init_def cmos_init_with_def)

lemma reset_ok:
  assumes "mt_ok view b" "resets_registers wm view rst"
  shows "mt_ok view (MT9P031D_RST rst n b) \<and>
    mt_reg_file view (MT9P031D_RST rst n b) 0 = mt_reg_file view b 0 \<and>
    clean wm (mt_reg_file view (MT9P031D_RST rst n b))"
proof -
  obtain rs where rs: "view (rst n (dev b)) = (view (dev b))\<lparr>t_core := (t_core (view (dev b)))\<lparr>mt_regs := rs\<rparr>\<rparr>"
    "rs 0 = mt_reg_file view b 0" "clean wm rs"
    using assms(2) unfolding resets_registers_def mt_reg_file_def by blast
  obtain c t where c: "at_rest (view_bus view b) c t" using assms(1) by (auto simp: mt_ok_def mt_at_def)
  then have "at_rest (view_bus view (MT9P031D_RST rst n b)) (c\<lparr>mt_regs := rs\<rparr>) t"
    using rs(1) by (auto simp: at_rest_def view_bus_def MT9P031D_RST_def tbus_def)
  then have "mt_at (view_bus view (MT9P031D_RST rst n b)) rs" by (auto simp: mt_at_def)
  then show ?thesis using rs(2,3) mt_atD by metis
qed

lemma wait_id_ok:
  assumes "mt_ok view b" "mt_reg_file view b 0 = MT9P031_ID"
  shows "\<exists>b'. wait_id (cmos_rget D) (delay_ms D) reg0 b = Some (MT9P031_ID, b') \<and> mt_ok view b' \<and>
    mt_reg_file view b' 0 = MT9P031_ID"
proof -
  obtain b1 where b1: "cmos_rget D 0 b = (MT9P031_ID, b1)" "mt_ok view b1"
    "mt_reg_file view b1 = mt_reg_file view b"
    using port.rget_ok [OF assms(1), of 0] assms(2) by auto
  show ?thesis
  proof (cases "reg0 = MT9P031_ID")
    case True
    then show ?thesis using assms by (subst wait_id.simps) simp
  next
    case False
    have "wait_id (cmos_rget D) (delay_ms D) reg0 b = Some (MT9P031_ID, delay_ms D 10 b1)"
      using wait_id.simps [of "cmos_rget D" "delay_ms D" reg0 b]
        wait_id.simps [of "cmos_rget D" "delay_ms D" MT9P031_ID "delay_ms D 10 b1"] False b1(1) by simp
    then show ?thesis using port.wait_ok [OF b1(2), of 10] b1(3) assms(2) by simp
  qed
qed

text \<open>Power-up: SCL low and both pins inputs.\<close>

lemma init_pins:
  assumes "view_bus view b = tbus False sd sout ts Idle c n" "resets_registers wm view rst"
  shows "mt_ok view (delay_ms D 5 (SCCB_Init D (delay_ms D 20 (MT9P031D_RST rst False
           (delay_ms D 5 (MT9P031D_RST rst True b)))))) \<and>
    mt_reg_file view (delay_ms D 5 (SCCB_Init D (delay_ms D 20 (MT9P031D_RST rst False
           (delay_ms D 5 (MT9P031D_RST rst True b)))))) 0 = mt_regs c 0"
proof -
  have step: "\<exists>c'. view_bus view (delay_ms D k (MT9P031D_RST rst v b)) = tbus False sd sout ts Idle c' (k * 1000 + n) \<and>
      mt_regs c' 0 = mt_regs c 0"
    if "view_bus view b = tbus False sd sout ts Idle c n" for b c n k v
  proof -
    obtain rs where rs: "view (rst v (dev b)) = (view (dev b))\<lparr>t_core := (t_core (view (dev b)))\<lparr>mt_regs := rs\<rparr>\<rparr>"
      "rs 0 = mt_regs (t_core (view (dev b))) 0"
      using assms(2) unfolding resets_registers_def by blast
    then have "view_bus view (MT9P031D_RST rst v b) = tbus False sd sout ts Idle (c\<lparr>mt_regs := rs\<rparr>) n"
      "rs 0 = mt_regs c 0"
      using that by (auto simp: view_bus_def MT9P031D_RST_def tbus_def)
    then show ?thesis by (simp add: view_pins(6) [OF chip]) (metis mt9p.simps(1) mt9p.surjective mt9p.update_convs(1))
  qed
  obtain c1 where c1: "view_bus view (delay_ms D 5 (MT9P031D_RST rst True b)) = tbus False sd sout ts Idle c1 (5 * 1000 + n)"
    "mt_regs c1 0 = mt_regs c 0" using step [OF assms(1)] by blast
  let ?b1 = "delay_ms D 5 (MT9P031D_RST rst True b)"
  obtain c2 where c2: "view_bus view (delay_ms D 20 (MT9P031D_RST rst False ?b1)) =
      tbus False sd sout ts Idle c2 (20 * 1000 + (5 * 1000 + n))" "mt_regs c2 0 = mt_regs c 0"
    using step [OF c1(1)] c1(2) by metis
  let ?b2 = "delay_ms D 20 (MT9P031D_RST rst False ?b1)"
  have out: "see (target_dev C) ((tbus False sd sout ts Idle c n)\<lparr>sda_out := True\<rparr>) =
      tbus False sd True sd Idle c n" for C :: "'z i2c_core" and c n
    by (simp add: see_def line_def tbus_def target_dev_def t_pulls_def t_react_def)
  have upd: "view_bus view (b\<lparr>sda_out := True\<rparr>) = (view_bus view b)\<lparr>sda_out := True\<rparr>" for b
    by (simp add: view_bus_def)
  have "view_bus view (SCCB_Init D ?b2) = tbus False sd True sd Idle c2 (20 * 1000 + (5 * 1000 + n))"
    unfolding SCCB_Init_def view_see [OF chip] upd c2(1) by (rule out)
  then have "mt_at (view_bus view (SCCB_Init D ?b2)) (mt_regs c2)"
    by (auto simp: mt_at_def at_rest_def)
  then have "mt_ok view (SCCB_Init D ?b2)" "mt_reg_file view (SCCB_Init D ?b2) = mt_regs c2"
    using mt_atD by blast+
  then show ?thesis using port.wait_ok [of "SCCB_Init D ?b2" 5] c2(2) by simp
qed

lemma Init_ok:
  assumes "view_bus view b = tbus False sd sout ts Idle c n" "resets_registers wm view rst" "settable wm"
    and "mt_regs c 0 = MT9P031_ID"
    and y: "uint (push_bit 8 (ucast h) + ucast l - 240 :: u16) + 54 < 2048"
  shows "\<exists>b'. MT9P031_Init D rst reg0 h l eh el b = Some (0, b') \<and> mt_ok view b' \<and>
     mt_reg_file view b' 0x01 = push_bit 8 (ucast h) + ucast l - 240 + 54 \<and>
     mt_reg_file view b' 0x03 = 479 \<and> mt_reg_file view b' 0x02 = 16 \<and> mt_reg_file view b' 0x04 = 2591 \<and>
     mt_reg_file view b' 0x35 = 9 \<and>
     mt_reg_file view b' 0x09 = ucast (push_bit 8 (ucast eh) + ucast el :: u32)"
proof -
  let ?b1 = "delay_ms D 5 (SCCB_Init D (delay_ms D 20 (MT9P031D_RST rst False
           (delay_ms D 5 (MT9P031D_RST rst True b)))))"
  have b1: "mt_ok view ?b1" "mt_reg_file view ?b1 0 = MT9P031_ID"
    using init_pins [OF assms(1,2)] assms(4) by simp_all
  obtain b2 where b2: "wait_id (cmos_rget D) (delay_ms D) reg0 ?b1 = Some (MT9P031_ID, b2)" "mt_ok view b2"
    using wait_id_ok [OF b1] by blast
  let ?b3 = "delay_ms D 20 (MT9P031D_RST rst True b2)"
  let ?b4 = "delay_ms D 10 (MT9P031D_RST rst False ?b3)"
  have b4: "mt_ok view ?b4" "clean wm (mt_reg_file view ?b4)"
    using reset_ok [OF b2(2) assms(2)] reset_ok [OF _ assms(2)] port.wait_ok by metis+
  note b5 = init_regs [OF b4]
  obtain b6 where b6: "cmos_set_Aoi D (push_bit 8 (ucast h) + ucast l - 240) 479 0 2591 (snd (cmos_init D ?b4))
      = Some (2591, b6)" "mt_ok view b6" "clean wm (mt_reg_file view b6)"
    "mt_reg_file view b6 0x01 = push_bit 8 (ucast h) + ucast l - 240 + 54"
    "mt_reg_file view b6 0x03 = 479" "mt_reg_file view b6 0x02 = 16" "mt_reg_file view b6 0x04 = 2591"
    using set_Aoi [OF b5 [THEN conjunct1] assms(3) b5 [THEN conjunct2] y, of 0 479 2591] by auto
  obtain b7 where b7: "cmos_set_Gain D 9 b6 = Some (9, b7)" "mt_ok view b7"
    "mt_reg_file view b7 = (mt_reg_file view b6)(0x35 := 9)"
    using set_Gain [OF b6(2) assms(3) b6(3), of 9] by auto
  obtain b8 where b8: "cmos_set_Shutter D (push_bit 8 (ucast eh) + ucast el) b7 = Some (1, b8)" "mt_ok view b8"
    "mt_reg_file view b8 = (mt_reg_file view b7)(0x09 := ucast (push_bit 8 (ucast eh) + ucast el :: u32),
       0x08 := ucast (drop_bit 16 (push_bit 8 (ucast eh) + ucast el :: u32)))"
    using set_Shutter [OF b7(2) assms(3)] by blast
  show ?thesis
    using b2(1) b6 b7 b8 by (simp add: MT9P031_Init_def Let_def)
qed

end

section \<open>No sensor\<close>

lemma sccb_rd_loop_idle:
  "m \<le> 8 \<Longrightarrow>
     sccb_rd_loop (target_dev C) m (mask (8 - m) :: u8) (tbus False sd False ts Idle c n) =
     (0xFF, tbus False sd False (if m = 0 then ts else True) Idle c (2 * int m + n))"
proof (induction m arbitrary: n ts)
  case 0
  then show ?case by (simp add: mask_eq_exp_minus_1)
next
  case (Suc m)
  have "push_bit 1 (mask (8 - Suc m)) + 1 = (mask (8 - m) :: u8)"
    using Suc.prems Suc_diff_Suc [of m 8, symmetric]
    by (simp add: push_bit_eq_mult mask_eq_exp_minus_1 algebra_simps)
  then show ?case
    using Suc.IH [of True "2 + n"] Suc.prems by (auto simp: Let_def sccb_pins algebra_simps)
qed

lemma sccb_read_idle:
  "SCCB_RD_Byte (target_dev C) (tbus False sd sout ts Idle c n) = (0xFF, tbus False sd True sd Idle c (16 + n))"
  using sccb_rd_loop_idle [of 8 C sd True c n] by (simp add: SCCB_RD_Byte_def sccb_pins Let_def)

lemma sccb_ack_idle:
  "SCCB_Ack (target_dev C) (tbus False sd True ts Idle c n) = tbus False True True True Idle c (4 + n)"
  "SCCB_No_Ack (target_dev C) (tbus False sd True ts Idle c n) = tbus False False True False Idle c (4 + n)"
  by (simp_all add: SCCB_Ack_def SCCB_No_Ack_def sccb_pins Let_def)

definition mute :: "'c i2c_core \<Rightarrow> bool" where
  "mute C \<longleftrightarrow> (\<forall>c n. \<not> c_ready C c n)"

lemma at_restI: "at_rest (tbus True True True True Idle c n) c n"
  by (simp add: at_rest_def)

lemma mute_rget:
  assumes "mute C" "at_rest b c n"
  shows "fst (cmos_rget (target_dev C) a b) = 0xFFFF \<and>
    (\<exists>c' n'. at_rest (snd (cmos_rget (target_dev C) a b)) c' n')"
proof -
  have res: "byte_result C True v c n = (Idle, c)" for v c n
    using assms(1) by (simp add: mute_def byte_result_def)
  have ff: "0xFF + push_bit 8 0xFF = (0xFFFF :: u16)" by simp
  show ?thesis
    by (simp add: cmos_rget_def Let_def start_at_rest [OF assms(2)] sccb_write_nack [OF res] sccb_write_idle
        sccb_start_low sccb_read_idle sccb_ack_idle sccb_stop_low ff) (intro exI, rule at_restI)
qed

lemma mute_wait_id:
  assumes "mute C" "at_rest b c n" "reg0 \<noteq> MT9P031_ID"
  shows "wait_id (cmos_rget (target_dev C)) (delay_ms (target_dev C)) reg0 b = None"
proof (rule wait_id_never [where P = "\<lambda>b. \<exists>c n. at_rest b c n"])
  show "\<exists>c n. at_rest b c n" using assms(2) by blast
  fix b :: "'a target bus"
  assume "\<exists>c n. at_rest b c n"
  then obtain c n where "at_rest b c n" by blast
  from mute_rget [OF assms(1) this, of 0] delay_at_rest
  show "fst (cmos_rget (target_dev C) 0 b) \<noteq> MT9P031_ID \<and>
      (\<exists>c n. at_rest (delay_ms (target_dev C) 10 (snd (cmos_rget (target_dev C) 0 b))) c n)"
    by (fastforce simp: MT9P031_ID_def)
qed (rule assms(3))

lemma MT9P031_Init_result:
  assumes "MT9P031_Init D rst reg0 h l eh el b = Some (r, b')"
  shows "r = 0"
proof -
  let ?b = "delay_ms D 5 (SCCB_Init D (delay_ms D 20 (MT9P031D_RST rst False
           (delay_ms D 5 (MT9P031D_RST rst True b)))))"
  obtain reg b1 where w: "wait_id (cmos_rget D) (delay_ms D) reg0 ?b = Some (reg, b1)"
    using assms by (auto simp: MT9P031_Init_def Let_def split: option.splits)
  then have "reg = MT9P031_ID" using wait_id_result by fastforce
  then show ?thesis
    using assms w by (auto simp: MT9P031_Init_def Let_def split: option.splits prod.splits)
qed

lemma aoi_word_range:
  fixes w :: u16
  assumes "186 \<le> w" "w < 240"
  shows "65535 < uint (w - 240) + 54"
proof -
  have "186 \<le> uint w" "uint w < 240" using assms by (simp_all add: word_le_def word_less_def)
  moreover have "uint (w - 240) = (uint w - 240) mod 65536" by (simp add: uint_word_ariths)
  moreover have "(uint w - 240) mod 65536 = (uint w - 240 + 65536) mod 65536"
    by (rule mod_add_self2 [symmetric])
  ultimately show ?thesis using mod_pos_pos_trivial [of "uint w - 240 + 65536" 65536] by linarith
qed

lemma cmos_set_Aoi_never:
  assumes "65535 < uint Y_start + 54 \<or> 65535 < uint X_Start + 16"
  shows "cmos_set_Aoi D Y_start Y_size X_Start X_Size b = None"
  using assms
  by (auto simp: cmos_set_Aoi_def set_aoi_with_def write_back_never split: option.splits)

section \<open>Properties\<close>

text \<open>A sensor whose writable bits are exactly those of the header's masks.\<close>

definition demo_sensor :: "mt9p target bus" where
  "demo_sensor = tbus False False False True Idle
     \<lparr>mt_regs = (\<lambda>_. 0)(0 := 0x1801), mt_ptr = 0, mt_n = 0, mt_hi = 0, mt_low = False\<rparr> 0"

definition demo_running :: "mt9p target bus" where
  "demo_running = tbus True True True True Idle
     \<lparr>mt_regs = (\<lambda>_. 0)(0 := 0x1801), mt_ptr = 0, mt_n = 0, mt_hi = 0, mt_low = False\<rparr> 0"

lemma demo_running_ok: "mt_ok id demo_running" "mt_reg_file id demo_running = (\<lambda>_. 0)(0 := 0x1801)"
proof -
  have "view_bus id demo_running = demo_running" by (simp add: view_bus_def demo_running_def tbus_def)
  then have "mt_at (view_bus id demo_running) ((\<lambda>_. 0)(0 := 0x1801))"
    by (simp add: demo_running_def mt_at_idle)
  then show "mt_ok id demo_running" "mt_reg_file id demo_running = (\<lambda>_. 0)(0 := 0x1801)"
    using mt_atD by blast+
qed

theorem cmos_rset_then_rget:
  assumes "acts_as D view (mt9p031 wm)" "mt_ok view b"
  shows "\<exists>b1 b2. cmos_rset D r v b = (0, b1) \<and> mt_ok view b1 \<and>
     mt_reg_file view b1 = (mt_reg_file view b)(r := masked (wm r) (mt_reg_file view b r) v) \<and>
     cmos_rget D a b1 = (mt_reg_file view b1 (ucast a), b2) \<and> mt_ok view b2 \<and>
     mt_reg_file view b2 = mt_reg_file view b1"
  using sensor_chip.rset_rget [OF sensor_chip.intro [OF assms(1)] assms(2)] .

theorem cmos_rset_then_rget_witness:
  "\<exists>b1 b2. cmos_rset (target_dev (mt9p031 field_mask)) 9 300 demo_running = (0, b1) \<and>
     cmos_rget (target_dev (mt9p031 field_mask)) 9 b1 = (300, b2)"
  using cmos_rset_then_rget [OF acts_as_target demo_running_ok(1), of field_mask 9 300 9] by (auto simp: field_mask_def)

theorem cmos_set_Shutter_returns:
  assumes "acts_as D view (mt9p031 wm)" "mt_ok view b" "settable wm"
  shows "\<exists>b'. cmos_set_Shutter D v b = Some (1, b') \<and> mt_ok view b' \<and>
     mt_reg_file view b' = (mt_reg_file view b)(0x09 := ucast v, 0x08 := ucast (drop_bit 16 v))"
  using sensor_chip.set_Shutter [OF sensor_chip.intro [OF assms(1)] assms(2,3)] .

lemma settable_fields: "settable field_mask"
  by (simp add: settable_def)

theorem cmos_set_Shutter_returns_witness:
  "\<exists>b'. cmos_set_Shutter (target_dev (mt9p031 field_mask)) 300 demo_running = Some (1, b') \<and>
     mt_reg_file id b' 0x09 = 300"
  using cmos_set_Shutter_returns [OF acts_as_target demo_running_ok(1) settable_fields, of 300] by auto

text \<open>C30: MT9P031_Init returns 0 with the sensor present and a first row that the row start register
  can hold (aoistarty - 240 + 54 below 2048 in 16 bits), and leaves the row start, the gain and
  the shutter width as configured by its arguments, the column start at 16 and the sizes at 480
  rows and 2592 columns. The sensor's registers need only the bits of the field masks of
  MT9P031D.h, and the bits outside read as 0 after a reset.\<close>

theorem MT9P031_Init_configures:
  assumes "acts_as D view (mt9p031 wm)" "settable wm" "resets_registers wm view rst"
    and "view_bus view b = tbus False sd sout ts Idle c n" "mt_regs c 0 = MT9P031_ID"
    and "uint (push_bit 8 (ucast h) + ucast l - 240 :: u16) + 54 < 2048"
  shows "\<exists>b'. MT9P031_Init D rst reg0 h l eh el b = Some (0, b') \<and> mt_ok view b' \<and>
     mt_reg_file view b' 0x01 = push_bit 8 (ucast h) + ucast l - 240 + 54 \<and>
     mt_reg_file view b' 0x03 = 479 \<and> mt_reg_file view b' 0x02 = 16 \<and> mt_reg_file view b' 0x04 = 2591 \<and>
     mt_reg_file view b' 0x35 = 9 \<and>
     mt_reg_file view b' 0x09 = ucast (push_bit 8 (ucast eh) + ucast el :: u32)"
  using sensor_chip.Init_ok [OF sensor_chip.intro [OF assms(1)] assms(4,3,2,5,6)] .

text \<open>A reset pin that loads defaults of \<^verbatim>\<open>MT9P031D.h\<close>.\<close>

definition mt_reset_regs :: "u16 \<Rightarrow> u8 \<Rightarrow> u16" where
  "mt_reset_regs i = (\<lambda>_. 0)(0 := i, 0x01 := 0x14, 0x02 := 0x20, 0x03 := 0x5FF, 0x09 := 0x619, 0x35 := 0x08)"

definition demo_rst :: "bool \<Rightarrow> mt9p target \<Rightarrow> mt9p target" where
  "demo_rst v t = t\<lparr>t_core := (t_core t)\<lparr>mt_regs := mt_reset_regs (mt_regs (t_core t) 0)\<rparr>\<rparr>"

theorem MT9P031_Init_configures_witness:
  "\<exists>b'. MT9P031_Init (target_dev (mt9p031 field_mask)) demo_rst 0 3 84 1 44
       demo_sensor = Some (0, b') \<and> mt_reg_file id b' 0x01 = 666 \<and> mt_reg_file id b' 0x09 = 300"
proof -
  have v: "view_bus id demo_sensor = demo_sensor" by (simp add: view_bus_def demo_sensor_def tbus_def)
  have r: "resets_registers field_mask id demo_rst"
    unfolding resets_registers_def
  proof (intro allI)
    show "\<exists>rs. id (demo_rst v d) = (id d)\<lparr>t_core := t_core (id d)\<lparr>mt_regs := rs\<rparr>\<rparr> \<and>
        rs 0 = mt_regs (t_core (id d)) 0 \<and> clean field_mask rs"
      for v and d :: "mt9p target"
      by (intro exI [where x = "mt_reset_regs (mt_regs (t_core d) 0)"])
         (simp add: demo_rst_def mt_reset_regs_def clean_def field_mask_def)
  qed
  show ?thesis
    using MT9P031_Init_configures [OF acts_as_target settable_fields r v [unfolded demo_sensor_def],
        of 3 84 0 1 44]
    by (auto simp: MT9P031_ID_def demo_sensor_def)
qed

theorem MT9P031_Init_never_fails:
  "(\<forall>r b'. MT9P031_Init D rst reg0 h l eh el b = Some (r, b') \<longrightarrow> r = 0) \<and>
   (186 \<le> (push_bit 8 (ucast h) + ucast l :: u16) \<and> (push_bit 8 (ucast h) + ucast l :: u16) < 240 \<longrightarrow>
      MT9P031_Init D rst reg0 h l eh el b = None)"
proof (intro conjI allI impI)
  assume "186 \<le> (push_bit 8 (ucast h) + ucast l :: u16) \<and> (push_bit 8 (ucast h) + ucast l :: u16) < 240"
  then have "65535 < uint (push_bit 8 (ucast h) + ucast l - 240 :: u16) + 54" using aoi_word_range by blast
  then have "cmos_set_Aoi D (push_bit 8 (ucast h) + ucast l - 240) ys xs xz b = None" for ys xs xz b
    using cmos_set_Aoi_never by blast
  then show "MT9P031_Init D rst reg0 h l eh el b = None"
    by (simp add: MT9P031_Init_def Let_def split: option.split prod.split)
     (metis wait_id_result fst_conv)
qed (rule MT9P031_Init_result)

theorem MT9P031_Init_never_fails_witness:
  "MT9P031_Init (target_dev (mt9p031 field_mask)) (\<lambda>_ t. t) 0 0 200 1 44 demo_sensor = None"
  using MT9P031_Init_never_fails [of "target_dev (mt9p031 field_mask)" "\<lambda>_ t. t" 0 0 200 1 44 demo_sensor]
  by simp

text \<open>With no sensor on the bus the call does not return; the reset pin may do anything to the
  core of the device.\<close>

theorem MT9P031_Init_absent_hangs:
  assumes "mute C" "\<And>v t. \<exists>c. rst v t = t\<lparr>t_core := c\<rparr>" "reg0 \<noteq> MT9P031_ID"
  shows "MT9P031_Init (target_dev C) rst reg0 h l eh el (tbus False sd sout ts Idle c n) = None"
proof -
  have rst: "\<exists>c'. MT9P031D_RST rst v (tbus False sd sout ts Idle c n) = tbus False sd sout ts Idle c' n" for v c n
    using assms(2) [of v "dev (tbus False sd sout ts Idle c n)"] by (auto simp: MT9P031D_RST_def tbus_def)
  obtain c1 where c1: "MT9P031D_RST rst True (tbus False sd sout ts Idle c n) = tbus False sd sout ts Idle c1 n"
    using rst by blast
  obtain c2 where c2: "MT9P031D_RST rst False (tbus False sd sout ts Idle c1 (5000 + n)) =
      tbus False sd sout ts Idle c2 (5000 + n)" using rst by blast
  have init: "SCCB_Init (target_dev C) (tbus False sd sout ts Idle c n) = tbus False sd True sd Idle c n" for c n
    by (simp add: SCCB_Init_def see_def line_def tbus_def target_dev_def t_pulls_def t_react_def)
  have "at_rest (tbus False sd True sd Idle c2 (5000 + (20000 + (5000 + n)))) c2 (5000 + (20000 + (5000 + n)))"
    by (auto simp: at_rest_def)
  from mute_wait_id [OF assms(1) this assms(3)] show ?thesis
    by (simp add: MT9P031_Init_def Let_def c1 c2 init)
qed

definition mute_core :: "unit i2c_core" where
  "mute_core = \<lparr>c_addr = 0, c_ready = (\<lambda>_ _. False), c_select = (\<lambda>c _. c), c_write = (\<lambda>c _. c),
     c_read = (\<lambda>c. (0, c)), c_stop = (\<lambda>c _. c)\<rparr>"

theorem MT9P031_Init_absent_hangs_witness:
  "MT9P031_Init (target_dev mute_core) (\<lambda>_ t. t) 0 3 84 1 44 (tbus False False False True Idle () 0) = None"
proof (rule MT9P031_Init_absent_hangs)
  show "\<exists>c. t = t\<lparr>t_core := c\<rparr>" for t :: "unit target"
    by (intro exI [where x = "t_core t"]) simp
qed (simp_all add: mute_def mute_core_def MT9P031_ID_def)

end
