(* ===== verification/Cam_Packet.thy ===== *)
theory Cam_Packet
  imports Prelude
begin

text \<open>
  The 76-byte packet \<^verbatim>\<open>SendPacket\<close> of \<^verbatim>\<open>udp_demo.h\<close>: the structure that both directions of
  the UDP protocol carry and that holds the camera's current parameters, with its byte image
  (the code casts between the structure and a byte buffer), and the constants of the protocol.
\<close>

section \<open>The structure\<close>

record SendPacket =
  head1 :: u8
  head2 :: u8
  camid :: u8
  event :: u8
  status :: u8
  senstive1h :: u8
  senstive1l :: u8
  senstive2h :: u8
  senstive2l :: u8
  openclothnum :: u8
  openclothid :: u8
  gainh :: u8
  gainl :: u8
  changeid :: u8
  exposureh :: u8
  exposurel :: u8
  mode :: u8
  alg1 :: u8
  alg2 :: u8
  autoexposure :: u8
  autoexposurevalue :: u8
  aoiauto :: u8
  aoishowheight :: u8
  aoistartyh :: u8
  aoistartyl :: u8
  aoishowstartyh :: u8
  aoishowstartyl :: u8
  data2 :: u8
  data3 :: u8
  aoishowstartxh :: u8
  aoishowstartxl :: u8
  aoishowendxh :: u8
  openclothstart :: "u16 list"
  openclothend :: "u16 list"
  aoishowendxl :: u8
  data1 :: u8
  tail1 :: u8
  tail2 :: u8

section \<open>Its byte image\<close>

definition le16s :: "u16 list \<Rightarrow> u8 list" where
  "le16s ws = concat (map le16 ws)"

fun of_le16s :: "u8 list \<Rightarrow> u16 list" where
  "of_le16s (lo # hi # bs) = of_le16 lo hi # of_le16s bs"
| "of_le16s _ = []"

definition packet_bytes :: "SendPacket \<Rightarrow> u8 list" where
  "packet_bytes p =
     [head1 p, head2 p, camid p, event p, status p, senstive1h p, senstive1l p, senstive2h p,
      senstive2l p, openclothnum p, openclothid p, gainh p, gainl p, changeid p, exposureh p,
      exposurel p, mode p, alg1 p, alg2 p, autoexposure p, autoexposurevalue p, aoiauto p,
      aoishowheight p, aoistartyh p, aoistartyl p, aoishowstartyh p, aoishowstartyl p, data2 p,
      data3 p, aoishowstartxh p, aoishowstartxl p, aoishowendxh p]
     @ le16s (openclothstart p) @ le16s (openclothend p)
     @ [aoishowendxl p, data1 p, tail1 p, tail2 p]"

definition packet_of_bytes :: "u8 list \<Rightarrow> SendPacket" where
  "packet_of_bytes b =
     \<lparr>head1 = b ! 0, head2 = b ! 1, camid = b ! 2, event = b ! 3, status = b ! 4,
      senstive1h = b ! 5, senstive1l = b ! 6, senstive2h = b ! 7, senstive2l = b ! 8,
      openclothnum = b ! 9, openclothid = b ! 10, gainh = b ! 11, gainl = b ! 12,
      changeid = b ! 13, exposureh = b ! 14, exposurel = b ! 15, mode = b ! 16, alg1 = b ! 17,
      alg2 = b ! 18, autoexposure = b ! 19, autoexposurevalue = b ! 20, aoiauto = b ! 21,
      aoishowheight = b ! 22, aoistartyh = b ! 23, aoistartyl = b ! 24, aoishowstartyh = b ! 25,
      aoishowstartyl = b ! 26, data2 = b ! 27, data3 = b ! 28, aoishowstartxh = b ! 29,
      aoishowstartxl = b ! 30, aoishowendxh = b ! 31,
      openclothstart = of_le16s (take 20 (drop 32 b)), openclothend = of_le16s (take 20 (drop 52 b)),
      aoishowendxl = b ! 72, data1 = b ! 73, tail1 = b ! 74, tail2 = b ! 75\<rparr>"

definition packet_wf :: "SendPacket \<Rightarrow> bool" where
  "packet_wf p \<longleftrightarrow> length (openclothstart p) = 10 \<and> length (openclothend p) = 10"

section \<open>Constants of the protocol and of the parameter store\<close>

definition PACKETID :: u16 where "PACKETID = 2"
definition PACKETSTATUS :: u16 where "PACKETSTATUS = 4"
definition PACKETSENSTIVE1H :: u16 where "PACKETSENSTIVE1H = 5"
definition PACKETSENSTIVE1L :: u16 where "PACKETSENSTIVE1L = 6"
definition PACKETSENSTIVE2H :: u16 where "PACKETSENSTIVE2H = 7"
definition PACKETSENSTIVE2L :: u16 where "PACKETSENSTIVE2L = 8"
definition PACKETEXPOSUREH :: u16 where "PACKETEXPOSUREH = 14"
definition PACKETEXPOSUREL :: u16 where "PACKETEXPOSUREL = 15"
definition PACKETMODE :: u16 where "PACKETMODE = 16"
definition PACKETALG1 :: u16 where "PACKETALG1 = 17"
definition PACKETALG2 :: u16 where "PACKETALG2 = 18"
definition PACKETAOISHOWHEIGHT :: u16 where "PACKETAOISHOWHEIGHT = 22"
definition PACKETAOISTARTYH :: u16 where "PACKETAOISTARTYH = 23"
definition PACKETAOISTARTYL :: u16 where "PACKETAOISTARTYL = 24"
definition PACKETAOISHOWSTARTYH :: u16 where "PACKETAOISHOWSTARTYH = 25"
definition PACKETAOISHOWSTARTYL :: u16 where "PACKETAOISHOWSTARTYL = 26"
definition PACKETAOISHOWSTARTXH :: u16 where "PACKETAOISHOWSTARTXH = 29"
definition PACKETAOISHOWSTARTXL :: u16 where "PACKETAOISHOWSTARTXL = 30"
definition PACKETAOISHOWENDXH :: u16 where "PACKETAOISHOWENDXH = 31"
definition PACKETOPENCLOTHSTART :: u16 where "PACKETOPENCLOTHSTART = 32"
definition PACKETOPENCLOTHEND :: u16 where "PACKETOPENCLOTHEND = 52"
definition PACKETAOISHOWENDXL :: u16 where "PACKETAOISHOWENDXL = 72"
definition STARTY240 :: u16 where "STARTY240 = 86"

lemmas packet_addrs = PACKETID_def PACKETSTATUS_def PACKETSENSTIVE1H_def PACKETSENSTIVE1L_def
  PACKETSENSTIVE2H_def PACKETSENSTIVE2L_def PACKETEXPOSUREH_def PACKETEXPOSUREL_def PACKETMODE_def
  PACKETALG1_def PACKETALG2_def PACKETAOISHOWHEIGHT_def PACKETAOISTARTYH_def PACKETAOISTARTYL_def
  PACKETAOISHOWSTARTYH_def PACKETAOISHOWSTARTYL_def PACKETAOISHOWSTARTXH_def PACKETAOISHOWSTARTXL_def
  PACKETAOISHOWENDXH_def PACKETOPENCLOTHSTART_def PACKETOPENCLOTHEND_def PACKETAOISHOWENDXL_def
  STARTY240_def

definition WATCH_SIGNAL :: u8 where "WATCH_SIGNAL = 1"
definition WATCH_IMAGE :: u8 where "WATCH_IMAGE = 2"
definition SET_DETECTPARA :: u8 where "SET_DETECTPARA = 5"
definition SET_CAMID :: u8 where "SET_CAMID = 6"
definition SET_PARA_RESET :: u8 where "SET_PARA_RESET = 14"
definition SET_STARTY240 :: u8 where "SET_STARTY240 = 16"
definition GET_CAMVER :: u8 where "GET_CAMVER = 22"
definition GET_CAMINFO :: u8 where "GET_CAMINFO = 23"
definition SET_AOI :: u8 where "SET_AOI = 24"

lemmas packet_events = WATCH_SIGNAL_def WATCH_IMAGE_def SET_DETECTPARA_def SET_CAMID_def
  SET_PARA_RESET_def SET_STARTY240_def GET_CAMVER_def GET_CAMINFO_def SET_AOI_def

section \<open>The image determines the structure and back\<close>

lemma length_le16s [simp]: "length (le16s ws) = 2 * length ws"
  by (induction ws) (simp_all add: le16s_def le16_def)

lemma of_le16s_le16s [simp]: "of_le16s (le16s ws) = ws"
  by (induction ws) (simp_all add: le16s_def le16_def of_le16_le16)

lemma le16s_of_le16s: "even (length bs) \<Longrightarrow> le16s (of_le16s bs) = bs"
  by (induction bs rule: of_le16s.induct)
    (simp_all add: le16s_def le16_def ucast_of_le16_lo ucast_of_le16_hi)

lemma length_of_le16s: "length (of_le16s bs) = length bs div 2"
  by (induction bs rule: of_le16s.induct) simp_all

lemma length_packet_bytes: "packet_wf p \<Longrightarrow> length (packet_bytes p) = 76"
  by (simp add: packet_bytes_def packet_wf_def)

lemma packet_of_bytes_wf: "length b = 76 \<Longrightarrow> packet_wf (packet_of_bytes b)"
  by (simp add: packet_wf_def packet_of_bytes_def length_of_le16s)

text \<open>Reading the fields of an image given in its four parts.\<close>

lemma packet_of_parts:
  assumes "length h = 32" "length s = 20" "length e = 20" "length t = 4"
  shows "packet_of_bytes (h @ s @ e @ t) =
     \<lparr>head1 = h ! 0, head2 = h ! 1, camid = h ! 2, event = h ! 3, status = h ! 4,
      senstive1h = h ! 5, senstive1l = h ! 6, senstive2h = h ! 7, senstive2l = h ! 8,
      openclothnum = h ! 9, openclothid = h ! 10, gainh = h ! 11, gainl = h ! 12,
      changeid = h ! 13, exposureh = h ! 14, exposurel = h ! 15, mode = h ! 16, alg1 = h ! 17,
      alg2 = h ! 18, autoexposure = h ! 19, autoexposurevalue = h ! 20, aoiauto = h ! 21,
      aoishowheight = h ! 22, aoistartyh = h ! 23, aoistartyl = h ! 24, aoishowstartyh = h ! 25,
      aoishowstartyl = h ! 26, data2 = h ! 27, data3 = h ! 28, aoishowstartxh = h ! 29,
      aoishowstartxl = h ! 30, aoishowendxh = h ! 31,
      openclothstart = of_le16s s, openclothend = of_le16s e,
      aoishowendxl = t ! 0, data1 = t ! 1, tail1 = t ! 2, tail2 = t ! 3\<rparr>"
proof -
  have h: "(h @ s @ e @ t) ! i = h ! i" if "i < 32" for i
    using that assms(1) by (simp add: nth_append)
  have t: "(h @ s @ e @ t) ! (72 + i) = t ! i" for i
    using assms(1-3) by (simp add: nth_append)
  have "take 20 (drop 32 (h @ s @ e @ t)) = s" "take 20 (drop 52 (h @ s @ e @ t)) = e"
    using assms(1-3) by simp_all
  then show ?thesis
    unfolding packet_of_bytes_def using t [of 0] t [of 1] t [of 2] t [of 3] by (simp add: h)
qed

lemma packet_image_back:
  assumes "packet_wf p"
  shows "packet_of_bytes (packet_bytes p) = p"
  unfolding packet_bytes_def using assms
  by (subst packet_of_parts) (simp_all add: packet_wf_def)

lemma list_parts:
  assumes "length b = 76"
  shows "b = take 32 b @ take 20 (drop 32 b) @ take 20 (drop 52 b) @ drop 72 b"
proof -
  have "drop 32 b = take 20 (drop 32 b) @ drop 52 b"
    using append_take_drop_id [of 20 "drop 32 b"] by simp
  moreover have "drop 52 b = take 20 (drop 52 b) @ drop 72 b"
    using append_take_drop_id [of 20 "drop 52 b"] by simp
  ultimately show ?thesis by (metis append_take_drop_id)
qed

lemma nths_of_length:
  "length h = n \<Longrightarrow> map ((!) h) [0..<n] = h"
  using map_nth by blast

lemma upt_literals:
  "[0..<32] = [0, 1, 2, 3, 4, 5, 6, 7, 8, 9, 10, 11, 12, 13, 14, 15, 16,
      17, 18, 19, 20, 21, 22, 23, 24, 25, 26, 27, 28, 29, 30, 31 :: nat]"
  "[0..<4] = [0, 1, 2, 3 :: nat]"
  by code_simp+

lemma packet_image_of:
  assumes "length b = 76"
  shows "packet_bytes (packet_of_bytes b) = b"
proof -
  let ?h = "take 32 b" and ?s = "take 20 (drop 32 b)" and ?e = "take 20 (drop 52 b)" and ?t = "drop 72 b"
  have len: "length ?h = 32" "length ?s = 20" "length ?e = 20" "length ?t = 4" using assms by simp_all
  have h: "map ((!) ?h) [0..<32] = ?h" and t: "map ((!) ?t) [0..<4] = ?t"
    by (rule nths_of_length; rule len)+
  have "packet_bytes (packet_of_bytes (?h @ ?s @ ?e @ ?t)) =
      map ((!) ?h) [0..<32] @ le16s (of_le16s ?s) @ le16s (of_le16s ?e) @ map ((!) ?t) [0..<4]"
    unfolding packet_of_parts [OF len] packet_bytes_def
    unfolding upt_literals by (simp del: nth_take nth_drop)
  also have "\<dots> = ?h @ ?s @ ?e @ ?t"
    unfolding h t using len by (simp add: le16s_of_le16s)
  finally show ?thesis using list_parts [OF assms] by metis
qed

section \<open>Properties\<close>

text \<open>C24: The structure SendPacket and its 76-byte image determine each other: the casts between the
  structure and a line buffer lose nothing in either direction.\<close>

theorem SendPacket_roundtrip:
  "(packet_wf p \<longrightarrow> length (packet_bytes p) = 76 \<and> packet_of_bytes (packet_bytes p) = p) \<and>
   (length b = 76 \<longrightarrow> packet_wf (packet_of_bytes b) \<and> packet_bytes (packet_of_bytes b) = b)"
  by (simp add: length_packet_bytes packet_image_back packet_image_of packet_of_bytes_wf)

theorem SendPacket_roundtrip_witness:
  "packet_bytes (packet_of_bytes (map of_nat [0..<76])) = map of_nat [0..<76]"
  using SendPacket_roundtrip [of "packet_of_bytes (map of_nat [0..<76])" "map of_nat [0..<76]"] by simp

end
