(* ===== verification/Cam_Params.thy ===== *)
theory Cam_Params
  imports At24 Cam_Sensor Cam_Packet Net_Fifo Net_Mem
begin

text \<open>
  The camera's parameters in \<^verbatim>\<open>udp_demo.c\<close>: their initialisation from the EEPROM
  (\<^verbatim>\<open>InitCamParaPacket\<close>) and the handler of the packets that change them
  (\<^verbatim>\<open>udp_dataprocess_task\<close>), with the reception of packets by \<^verbatim>\<open>udp_thread\<close>.

  The functions are clients of the byte store \<^verbatim>\<open>rd\<close>/\<^verbatim>\<open>wr\<close> (the EEPROM driver), of
  \<^verbatim>\<open>shut\<close> (\<^verbatim>\<open>cmos_set_Shutter\<close>), of the two FIFOs and of the allocator; each is passed as
  the operation it is in the code.  \<^verbatim>\<open>None\<close> is a call that does not return or an access outside
  an object.
\<close>

section \<open>State\<close>

text \<open>\<^verbatim>\<open>ee\<close> and \<^verbatim>\<open>cam\<close> are the two buses with their chips.  \<^verbatim>\<open>para\<close> is
  \<^verbatim>\<open>*CurrentCamPara\<close> and \<^verbatim>\<open>para_ptr\<close> the pointer.  The semaphores are their counts.\<close>

record ('e, 'c) app =
  ee :: 'e
  cam :: 'c
  mem :: mallco
  para_ptr :: u32
  para :: SendPacket
  StartY240 :: u8
  udp_flag :: u8
  jpeg_data_send :: u8
  jpeg_data_pcsend_flag :: u8
  netrecv_line :: "u8 list"
  sendq :: netfifo
  recvq :: netfifo
  msg_netsendready :: u16
  msg_netrecvok :: u16

definition CamVer :: u8 where "CamVer = 10"

text \<open>\<^verbatim>\<open>OSSemPost\<close> and \<^verbatim>\<open>OSSemPend\<close> of \<^verbatim>\<open>os_sem.c\<close> as far as the count goes, with no other
  task waiting; a pend on a count of 0 blocks.\<close>

definition sem_count_up :: "u16 \<Rightarrow> u16" where
  "sem_count_up cnt = (if cnt < 65535 then cnt + 1 else cnt)"

definition sem_count_down :: "u16 \<Rightarrow> u16 option" where
  "sem_count_down cnt = (if 0 < cnt then Some (cnt - 1) else None)"

section \<open>Assignments, loads and stores of single fields\<close>

text \<open>The two long functions are sequences of assignments to the parameters, reads of the
  EEPROM into a field and writes of a field to the EEPROM (of one byte, or of two with the
  \<^verbatim>\<open>LenByte\<close> functions).\<close>

datatype pstep =
    Put "SendPacket \<Rightarrow> SendPacket"
  | Load u16 "u8 \<Rightarrow> SendPacket \<Rightarrow> SendPacket"
  | Save u16 "SendPacket \<Rightarrow> u8"
  | LoadW u16 "u16 \<Rightarrow> SendPacket \<Rightarrow> SendPacket"
  | SaveW u16 "SendPacket \<Rightarrow> u16"

fun run_step :: "(u16 \<Rightarrow> 'e \<Rightarrow> u8 \<times> 'e) \<Rightarrow> (u16 \<Rightarrow> u8 \<Rightarrow> 'e \<Rightarrow> 'e) \<Rightarrow> pstep \<Rightarrow>
    SendPacket \<times> 'e \<Rightarrow> SendPacket \<times> 'e" where
  "run_step rd wr (Put f) (p, e) = (f p, e)"
| "run_step rd wr (Load a f) (p, e) = (case rd a e of (v, e') \<Rightarrow> (f v p, e'))"
| "run_step rd wr (Save a f) (p, e) = (p, wr a (f p) e)"
| "run_step rd wr (LoadW a f) (p, e) = (case read_len 2 rd a 2 0 0 e of (v, e') \<Rightarrow> (f (ucast v) p, e'))"
| "run_step rd wr (SaveW a f) (p, e) = (p, write_len 2 wr a (ucast (f p)) 0 e)"

fun run_steps :: "(u16 \<Rightarrow> 'e \<Rightarrow> u8 \<times> 'e) \<Rightarrow> (u16 \<Rightarrow> u8 \<Rightarrow> 'e \<Rightarrow> 'e) \<Rightarrow> pstep list \<Rightarrow>
    SendPacket \<times> 'e \<Rightarrow> SendPacket \<times> 'e" where
  "run_steps rd wr [] s = s"
| "run_steps rd wr (x # xs) s = run_steps rd wr xs (run_step rd wr x s)"

definition do_steps :: "(u16 \<Rightarrow> 'e \<Rightarrow> u8 \<times> 'e) \<Rightarrow> (u16 \<Rightarrow> u8 \<Rightarrow> 'e \<Rightarrow> 'e) \<Rightarrow> pstep list \<Rightarrow>
    ('e, 'c) app \<Rightarrow> ('e, 'c) app" where
  "do_steps rd wr xs st =
     (case run_steps rd wr xs (para st, ee st) of (p, e) \<Rightarrow> st\<lparr>para := p, ee := e\<rparr>)"

section \<open>InitCamParaPacket\<close>

definition init_load :: "pstep list" where
  "init_load =
    [Put (\<lambda>p. p\<lparr>head1 := 0xAA\<rparr>),
     Put (\<lambda>p. p\<lparr>head2 := 0xAC\<rparr>),
     Put (\<lambda>p. p\<lparr>tail1 := 0xFC\<rparr>),
     Put (\<lambda>p. p\<lparr>tail2 := 0xFF\<rparr>),
     Load PACKETID (\<lambda>v p. p\<lparr>camid := v\<rparr>),
     Put (\<lambda>p. p\<lparr>aoiauto := 0\<rparr>),
     Load PACKETAOISTARTYH (\<lambda>v p. p\<lparr>aoistartyh := v\<rparr>),
     Load PACKETAOISTARTYL (\<lambda>v p. p\<lparr>aoistartyl := v\<rparr>),
     Load PACKETAOISHOWSTARTXH (\<lambda>v p. p\<lparr>aoishowstartxh := v\<rparr>),
     Load PACKETAOISHOWSTARTXL (\<lambda>v p. p\<lparr>aoishowstartxl := v\<rparr>),
     Load PACKETAOISHOWENDXH (\<lambda>v p. p\<lparr>aoishowendxh := v\<rparr>),
     Load PACKETAOISHOWENDXL (\<lambda>v p. p\<lparr>aoishowendxl := v\<rparr>),
     Load PACKETAOISHOWSTARTYH (\<lambda>v p. p\<lparr>aoishowstartyh := v\<rparr>),
     Load PACKETAOISHOWSTARTYL (\<lambda>v p. p\<lparr>aoishowstartyl := v\<rparr>),
     Load PACKETAOISHOWHEIGHT (\<lambda>v p. p\<lparr>aoishowheight := v\<rparr>),
     Put (\<lambda>p. p\<lparr>autoexposure := 1\<rparr>),
     Put (\<lambda>p. p\<lparr>autoexposurevalue := 128\<rparr>),
     Load PACKETALG1 (\<lambda>v p. p\<lparr>alg1 := v\<rparr>),
     Load PACKETALG2 (\<lambda>v p. p\<lparr>alg2 := v\<rparr>),
     Load PACKETEXPOSUREL (\<lambda>v p. p\<lparr>exposurel := v\<rparr>),
     Load PACKETEXPOSUREH (\<lambda>v p. p\<lparr>exposureh := v\<rparr>),
     Put (\<lambda>p. p\<lparr>gainh := 0\<rparr>),
     Put (\<lambda>p. p\<lparr>gainl := 9\<rparr>),
     Load PACKETMODE (\<lambda>v p. p\<lparr>mode := v\<rparr>),
     Load PACKETSENSTIVE1H (\<lambda>v p. p\<lparr>senstive1h := v\<rparr>),
     Load PACKETSENSTIVE1L (\<lambda>v p. p\<lparr>senstive1l := v\<rparr>),
     Load PACKETSENSTIVE2H (\<lambda>v p. p\<lparr>senstive2h := v\<rparr>),
     Load PACKETSENSTIVE2L (\<lambda>v p. p\<lparr>senstive2l := v\<rparr>),
     Load PACKETSTATUS (\<lambda>v p. p\<lparr>status := v\<rparr>)]
    @ concat (map (\<lambda>j.
        [LoadW (PACKETOPENCLOTHSTART + 2 * of_nat j) (\<lambda>v p. p\<lparr>openclothstart := (openclothstart p)[j := v]\<rparr>),
         LoadW (PACKETOPENCLOTHEND + 2 * of_nat j) (\<lambda>v p. p\<lparr>openclothend := (openclothend p)[j := v]\<rparr>)])
        [0, 1, 2, 3, 4, 5])"

definition init_default :: "pstep list" where
  "init_default =
    [Put (\<lambda>p. p\<lparr>head1 := 0xAA\<rparr>),
     Put (\<lambda>p. p\<lparr>head2 := 0xAC\<rparr>),
     Put (\<lambda>p. p\<lparr>tail1 := 0xFC\<rparr>),
     Put (\<lambda>p. p\<lparr>tail2 := 0xFF\<rparr>),
     Put (\<lambda>p. p\<lparr>camid := 1\<rparr>),
     Save PACKETID camid,
     Put (\<lambda>p. p\<lparr>aoiauto := 0\<rparr>),
     Put (\<lambda>p. p\<lparr>aoishowheight := 32\<rparr>),
     Save PACKETAOISHOWHEIGHT aoishowheight,
     Put (\<lambda>p. p\<lparr>aoistartyh := hi8 852\<rparr>),
     Save PACKETAOISTARTYH aoistartyh,
     Put (\<lambda>p. p\<lparr>aoistartyl := lo8 852\<rparr>),
     Save PACKETAOISTARTYL aoistartyl,
     Put (\<lambda>p. p\<lparr>aoishowstartxh := hi8 32\<rparr>),
     Save PACKETAOISHOWSTARTXH aoishowstartxh,
     Put (\<lambda>p. p\<lparr>aoishowstartxl := lo8 32\<rparr>),
     Save PACKETAOISHOWSTARTXL aoishowstartxl,
     Put (\<lambda>p. p\<lparr>aoishowendxh := hi8 2559\<rparr>),
     Save PACKETAOISHOWENDXH aoishowendxh,
     Put (\<lambda>p. p\<lparr>aoishowendxl := lo8 2559\<rparr>),
     Save PACKETAOISHOWENDXL aoishowendxl,
     Put (\<lambda>p. p\<lparr>data2 := 0\<rparr>),
     Put (\<lambda>p. p\<lparr>data3 := 0\<rparr>),
     Put (\<lambda>p. p\<lparr>aoishowstartyh := hi8 10\<rparr>),
     Save PACKETAOISHOWSTARTYH aoishowstartyh,
     Put (\<lambda>p. p\<lparr>aoishowstartyl := lo8 10\<rparr>),
     Save PACKETAOISHOWSTARTYL aoishowstartyl,
     Put (\<lambda>p. p\<lparr>autoexposure := 1\<rparr>),
     Put (\<lambda>p. p\<lparr>autoexposurevalue := 128\<rparr>),
     Put (\<lambda>p. p\<lparr>changeid := 0\<rparr>),
     Put (\<lambda>p. p\<lparr>alg1 := 0\<rparr>),
     Save PACKETALG1 alg1,
     Put (\<lambda>p. p\<lparr>alg2 := 70\<rparr>),
     Save PACKETALG2 alg2,
     Put (\<lambda>p. p\<lparr>data1 := 0\<rparr>),
     Put (\<lambda>p. p\<lparr>exposurel := lo8 300\<rparr>),
     Save PACKETEXPOSUREL exposurel,
     Put (\<lambda>p. p\<lparr>exposureh := hi8 300\<rparr>),
     Save PACKETEXPOSUREH exposureh,
     Put (\<lambda>p. p\<lparr>gainh := hi8 9\<rparr>),
     Put (\<lambda>p. p\<lparr>gainl := lo8 9\<rparr>),
     Put (\<lambda>p. p\<lparr>event := WATCH_SIGNAL\<rparr>),
     Put (\<lambda>p. p\<lparr>mode := 25\<rparr>),
     Save PACKETMODE mode,
     Put (\<lambda>p. p\<lparr>senstive1h := hi8 4\<rparr>),
     Save PACKETSENSTIVE1H senstive1h,
     Put (\<lambda>p. p\<lparr>senstive1l := lo8 4\<rparr>),
     Save PACKETSENSTIVE1L senstive1l,
     Put (\<lambda>p. p\<lparr>senstive2h := hi8 100\<rparr>),
     Save PACKETSENSTIVE2H senstive2h,
     Put (\<lambda>p. p\<lparr>senstive2l := lo8 100\<rparr>),
     Save PACKETSENSTIVE2L senstive2l,
     Put (\<lambda>p. p\<lparr>openclothnum := 0\<rparr>),
     Put (\<lambda>p. p\<lparr>openclothid := 0\<rparr>),
     Put (\<lambda>p. p\<lparr>status := 0\<rparr>)]
    @ concat (map (\<lambda>j.
        [Put (\<lambda>p. p\<lparr>openclothstart := (openclothstart p)[j := 0]\<rparr>),
         SaveW (PACKETOPENCLOTHSTART + 2 * of_nat j) (\<lambda>p. openclothstart p ! j),
         Put (\<lambda>p. p\<lparr>openclothend := (openclothend p)[j := 0]\<rparr>),
         SaveW (PACKETOPENCLOTHEND + 2 * of_nat j) (\<lambda>p. openclothend p ! j)])
        [0, 1, 2, 3, 4, 5])"

text \<open>The block for the parameters is not cleared after it is allocated: its fields start with
  what the memory holds.\<close>

definition init_alloc :: "('e, 'c) app \<Rightarrow> ('e, 'c) app option" where
  "init_alloc st =
     (if para_ptr st = 0 then
        (case mymalloc (mem st) SRAMEX 76 of
           None \<Rightarrow> None
         | Some (p, m) \<Rightarrow>
             if p = 0 then None
             else Some (st\<lparr>mem := m, para_ptr := p,
                    para := packet_of_bytes (map (\<lambda>i. ram m (p + of_nat i)) [0..<76])\<rparr>))
      else Some st)"

definition InitCamParaPacket :: "(u16 \<Rightarrow> 'e \<Rightarrow> u8 \<times> 'e) \<Rightarrow> (u16 \<Rightarrow> u8 \<Rightarrow> 'e \<Rightarrow> 'e) \<Rightarrow>
    ('e, 'c) app \<Rightarrow> ('e, 'c) app option" where
  "InitCamParaPacket rd wr st0 =
     (case init_alloc st0 of
        None \<Rightarrow> None
      | Some st \<Rightarrow>
          (let (ReadOneVal, e) = rd 255 (ee st);
               st = st\<lparr>ee := e\<rparr>
           in if ReadOneVal = 0x25 then
                (let st = do_steps rd wr init_load st;
                     (v, e) = rd STARTY240 (ee st);
                     st = st\<lparr>StartY240 := v, ee := e\<rparr>
                 in Some (if 240 < StartY240 st
                          then st\<lparr>StartY240 := 240, ee := wr STARTY240 240 (ee st)\<rparr>
                          else st))
              else
                (let st = do_steps rd wr init_default st;
                     st = st\<lparr>StartY240 := 120, ee := wr STARTY240 120 (ee st)\<rparr>
                 in Some (st\<lparr>ee := wr 255 0x25 (ee st)\<rparr>))))"

section \<open>udp_dataprocess_task\<close>

text \<open>The value of two bytes of a packet, computed as \<^verbatim>\<open>int\<close> in the code.\<close>

definition be16 :: "u8 \<Rightarrow> u8 \<Rightarrow> u16" where
  "be16 h l = push_bit 8 (ucast h) + ucast l"

definition on_watch_image :: "SendPacket \<Rightarrow> ('e, 'c) app \<Rightarrow> ('e, 'c) app" where
  "on_watch_image m st =
     (if jpeg_data_send st = 1 then st
      else st\<lparr>jpeg_data_pcsend_flag := data2 m, jpeg_data_send := 1\<rparr>)"

text \<open>Both branches of \<^verbatim>\<open>data1 == 0\<close> hold the same statements.\<close>

definition set_exposure :: "(u16 \<Rightarrow> u8 \<Rightarrow> 'e \<Rightarrow> 'e) \<Rightarrow> (u32 \<Rightarrow> 'c \<Rightarrow> (u16 \<times> 'c) option) \<Rightarrow>
    SendPacket \<Rightarrow> ('e, 'c) app \<Rightarrow> ('e, 'c) app option" where
  "set_exposure wr shut m st =
     (if 2 \<le> be16 (exposureh m) (exposurel m) \<and> be16 (exposureh m) (exposurel m) \<le> 29999 then
        (let p = (para st)\<lparr>exposureh := exposureh m, exposurel := exposurel m\<rparr>;
             TempVal = be16 (exposurel p) (exposureh p);
             e = write_len 2 wr PACKETEXPOSUREH (ucast TempVal) 0 (ee st)
         in case shut (ucast (be16 (exposureh p) (exposurel p))) (cam st) of
              None \<Rightarrow> None
            | Some (_, c) \<Rightarrow> Some (st\<lparr>para := p, ee := e, cam := c\<rparr>))
      else Some st)"

definition on_set_detectpara :: "(u16 \<Rightarrow> u8 \<Rightarrow> 'e \<Rightarrow> 'e) \<Rightarrow> (u32 \<Rightarrow> 'c \<Rightarrow> (u16 \<times> 'c) option) \<Rightarrow>
    SendPacket \<Rightarrow> ('e, 'c) app \<Rightarrow> ('e, 'c) app option" where
  "on_set_detectpara wr shut m st =
     (if data1 m = 0 then set_exposure wr shut m st else set_exposure wr shut m st)"

definition on_set_camid :: "(u16 \<Rightarrow> u8 \<Rightarrow> 'e \<Rightarrow> 'e) \<Rightarrow> SendPacket \<Rightarrow> ('e, 'c) app \<Rightarrow> ('e, 'c) app" where
  "on_set_camid wr m st =
     (if 0 < changeid m \<and> changeid m < 21 \<and> changeid m \<noteq> camid m
      then st\<lparr>ee := wr PACKETID (changeid m) (ee st)\<rparr> else st)"

text \<open>Sending the current parameters: the result of the FIFO is ignored and the semaphore posted
  in any case.\<close>

definition send_para :: "('e, 'c) app \<Rightarrow> ('e, 'c) app option" where
  "send_para st =
     (case netsend_fifo_write (sendq st) (packet_bytes (para st)) of
        None \<Rightarrow> None
      | Some (_, q) \<Rightarrow> Some (st\<lparr>sendq := q, msg_netsendready := sem_count_up (msg_netsendready st)\<rparr>))"

definition on_get_camver :: "('e, 'c) app \<Rightarrow> ('e, 'c) app option" where
  "on_get_camver st = send_para (st\<lparr>para := (para st)\<lparr>event := GET_CAMVER, data1 := CamVer\<rparr>\<rparr>)"

text \<open>The change of the area of interest, common to \<^verbatim>\<open>GET_CAMINFO\<close> and \<^verbatim>\<open>SET_AOI\<close>.\<close>

definition set_aoi_para :: "(u16 \<Rightarrow> u8 \<Rightarrow> 'e \<Rightarrow> 'e) \<Rightarrow> SendPacket \<Rightarrow> ('e, 'c) app \<Rightarrow> ('e, 'c) app" where
  "set_aoi_para wr m st0 =
     (let RecvAoiStartY = be16 (aoishowstartyh m) (aoishowstartyl m);
          RecvAoiHeight = aoishowheight m;
          st = (if RecvAoiStartY \<le> 440 \<and>
                   RecvAoiStartY \<noteq> be16 (aoishowstartyh (para st0)) (aoishowstartyl (para st0))
                then (let st = st0\<lparr>para := (para st0)\<lparr>aoishowstartyh := aoishowstartyh m\<rparr>\<rparr>;
                          st = st\<lparr>ee := wr PACKETAOISHOWSTARTYH (aoishowstartyh (para st)) (ee st)\<rparr>;
                          st = st\<lparr>para := (para st)\<lparr>aoishowstartyl := aoishowstartyl m\<rparr>\<rparr>
                      in st\<lparr>ee := wr PACKETAOISHOWSTARTYL (aoishowstartyl (para st)) (ee st)\<rparr>)
                else st0)
      in if 48 \<le> RecvAoiHeight \<and> RecvAoiHeight \<noteq> aoishowheight (para st)
         then (let st = st\<lparr>para := (para st)\<lparr>aoishowheight := RecvAoiHeight\<rparr>\<rparr>
               in st\<lparr>ee := wr PACKETAOISHOWHEIGHT (aoishowheight (para st)) (ee st)\<rparr>)
         else st)"

definition on_set_starty240 :: "(u16 \<Rightarrow> u8 \<Rightarrow> 'e \<Rightarrow> 'e) \<Rightarrow> SendPacket \<Rightarrow> ('e, 'c) app \<Rightarrow> ('e, 'c) app" where
  "on_set_starty240 wr m st =
     (if data1 m \<le> 240 then st\<lparr>StartY240 := data1 m, ee := wr STARTY240 (data1 m) (ee st)\<rparr> else st)"

text \<open>The case \<^verbatim>\<open>GET_CAMINFO\<close> has no \<^verbatim>\<open>break\<close>: control continues in \<^verbatim>\<open>SET_STARTY240\<close>.
  \<^verbatim>\<open>StartY240\<close> is a byte, so its high byte is 0.\<close>

definition on_get_caminfo :: "(u16 \<Rightarrow> u8 \<Rightarrow> 'e \<Rightarrow> 'e) \<Rightarrow> SendPacket \<Rightarrow> ('e, 'c) app \<Rightarrow>
    ('e, 'c) app option" where
  "on_get_caminfo wr m st =
     (let st = st\<lparr>para := (para st)\<lparr>event := GET_CAMINFO, data1 := CamVer,
                  data2 := StartY240 st, data3 := drop_bit 8 (StartY240 st)\<rparr>\<rparr>;
          st = set_aoi_para wr m st
      in map_option (on_set_starty240 wr m) (send_para st))"

definition reset_first :: "pstep list" where
  "reset_first =
    [Put (\<lambda>p. p\<lparr>head1 := 0xAA\<rparr>),
     Put (\<lambda>p. p\<lparr>head2 := 0xAC\<rparr>),
     Put (\<lambda>p. p\<lparr>tail1 := 0xFC\<rparr>),
     Put (\<lambda>p. p\<lparr>tail2 := 0xFF\<rparr>),
     Put (\<lambda>p. p\<lparr>aoiauto := 0\<rparr>),
     Put (\<lambda>p. p\<lparr>aoishowheight := 32\<rparr>),
     Save PACKETAOISHOWHEIGHT aoishowheight,
     Put (\<lambda>p. p\<lparr>aoistartyh := hi8 852\<rparr>),
     Save PACKETAOISTARTYH aoistartyh,
     Put (\<lambda>p. p\<lparr>aoistartyl := lo8 852\<rparr>),
     Save PACKETAOISTARTYL aoistartyl,
     Put (\<lambda>p. p\<lparr>aoishowstartxh := hi8 32\<rparr>),
     Save PACKETAOISHOWSTARTXH aoishowstartxh,
     Put (\<lambda>p. p\<lparr>aoishowstartxl := lo8 32\<rparr>),
     Save PACKETAOISHOWSTARTXL aoishowstartxl,
     Put (\<lambda>p. p\<lparr>aoishowendxh := hi8 2559\<rparr>),
     Save PACKETAOISHOWENDXH aoishowendxh,
     Put (\<lambda>p. p\<lparr>aoishowendxl := lo8 2559\<rparr>),
     Save PACKETAOISHOWENDXL aoishowendxl,
     Put (\<lambda>p. p\<lparr>data2 := 0\<rparr>),
     Put (\<lambda>p. p\<lparr>data3 := 0\<rparr>),
     Put (\<lambda>p. p\<lparr>aoishowstartyh := hi8 10\<rparr>),
     Save PACKETAOISHOWSTARTYH aoishowstartyh,
     Put (\<lambda>p. p\<lparr>aoishowstartyl := lo8 10\<rparr>),
     Save PACKETAOISHOWSTARTYL aoishowstartyl,
     Put (\<lambda>p. p\<lparr>autoexposure := 1\<rparr>),
     Put (\<lambda>p. p\<lparr>autoexposurevalue := 128\<rparr>),
     Put (\<lambda>p. p\<lparr>changeid := 0\<rparr>),
     Put (\<lambda>p. p\<lparr>alg1 := 0\<rparr>),
     Save PACKETALG1 alg1,
     Put (\<lambda>p. p\<lparr>alg2 := 70\<rparr>),
     Save PACKETALG2 alg2,
     Put (\<lambda>p. p\<lparr>data1 := 0\<rparr>),
     Put (\<lambda>p. p\<lparr>exposurel := lo8 300\<rparr>),
     Save PACKETEXPOSUREL exposurel,
     Put (\<lambda>p. p\<lparr>exposureh := hi8 300\<rparr>),
     Save PACKETEXPOSUREH exposureh]"

definition reset_second :: "pstep list" where
  "reset_second =
    [Put (\<lambda>p. p\<lparr>gainh := hi8 9\<rparr>),
     Put (\<lambda>p. p\<lparr>gainl := lo8 9\<rparr>),
     Put (\<lambda>p. p\<lparr>event := WATCH_SIGNAL\<rparr>),
     Put (\<lambda>p. p\<lparr>mode := 25\<rparr>),
     Save PACKETMODE mode,
     Put (\<lambda>p. p\<lparr>senstive1h := hi8 4\<rparr>),
     Save PACKETSENSTIVE1H senstive1h,
     Put (\<lambda>p. p\<lparr>senstive1l := lo8 4\<rparr>),
     Save PACKETSENSTIVE1L senstive1l,
     Put (\<lambda>p. p\<lparr>senstive2h := hi8 100\<rparr>),
     Save PACKETSENSTIVE2H senstive2h,
     Put (\<lambda>p. p\<lparr>senstive2l := lo8 100\<rparr>),
     Save PACKETSENSTIVE2L senstive2l,
     Put (\<lambda>p. p\<lparr>openclothnum := 0\<rparr>),
     Put (\<lambda>p. p\<lparr>openclothid := 0\<rparr>),
     Put (\<lambda>p. p\<lparr>status := 0\<rparr>)]"

definition on_set_para_reset :: "(u16 \<Rightarrow> 'e \<Rightarrow> u8 \<times> 'e) \<Rightarrow> (u16 \<Rightarrow> u8 \<Rightarrow> 'e \<Rightarrow> 'e) \<Rightarrow>
    (u32 \<Rightarrow> 'c \<Rightarrow> (u16 \<times> 'c) option) \<Rightarrow> ('e, 'c) app \<Rightarrow> ('e, 'c) app option" where
  "on_set_para_reset rd wr shut st =
     (let st = do_steps rd wr reset_first st
      in case shut 300 (cam st) of
           None \<Rightarrow> None
         | Some (_, c) \<Rightarrow> Some (do_steps rd wr reset_second (st\<lparr>cam := c\<rparr>)))"

definition handle_packet :: "(u16 \<Rightarrow> 'e \<Rightarrow> u8 \<times> 'e) \<Rightarrow> (u16 \<Rightarrow> u8 \<Rightarrow> 'e \<Rightarrow> 'e) \<Rightarrow>
    (u32 \<Rightarrow> 'c \<Rightarrow> (u16 \<times> 'c) option) \<Rightarrow> SendPacket \<Rightarrow> ('e, 'c) app \<Rightarrow> ('e, 'c) app option" where
  "handle_packet rd wr shut m st =
     (if event m = WATCH_IMAGE then Some (on_watch_image m st)
      else if event m = SET_DETECTPARA then on_set_detectpara wr shut m st
      else if event m = SET_CAMID then Some (on_set_camid wr m st)
      else if event m = GET_CAMVER then on_get_camver st
      else if event m = GET_CAMINFO then on_get_caminfo wr m st
      else if event m = SET_STARTY240 then Some (on_set_starty240 wr m st)
      else if event m = SET_AOI then Some (set_aoi_para wr m st)
      else if event m = SET_PARA_RESET then on_set_para_reset rd wr shut st
      else Some st)"

text \<open>One round of the task's loop.  \<^verbatim>\<open>Blocked\<close> is a pend on an empty semaphore, \<^verbatim>\<open>Stuck\<close> a
  call that does not return.\<close>

datatype stop = Blocked | Stuck

definition udp_dataprocess_round :: "(u16 \<Rightarrow> 'e \<Rightarrow> u8 \<times> 'e) \<Rightarrow> (u16 \<Rightarrow> u8 \<Rightarrow> 'e \<Rightarrow> 'e) \<Rightarrow>
    (u32 \<Rightarrow> 'c \<Rightarrow> (u16 \<times> 'c) option) \<Rightarrow> ('e, 'c) app \<Rightarrow> stop + ('e, 'c) app" where
  "udp_dataprocess_round rd wr shut st =
     (if udp_flag st = 1 then
        (case sem_count_down (msg_netrecvok st) of
           None \<Rightarrow> Inl Blocked
         | Some n \<Rightarrow>
             (case netrecv_fifo_read (recvq st) 0 of
                (res, tbuf, q) \<Rightarrow>
                  (let st = st\<lparr>msg_netrecvok := n, recvq := q\<rparr>
                   in if res \<noteq> 0 then
                        (case handle_packet rd wr shut
                                (packet_of_bytes (take 76 (fifobuf q ! unat tbuf))) st of
                           None \<Rightarrow> Inl Stuck
                         | Some st' \<Rightarrow> Inr st')
                      else Inr st)))
      else Inr st)"

section \<open>udp_thread: reception\<close>

text \<open>The body of the loop over the \<^verbatim>\<open>pbuf\<close>s of a datagram, for one of them.\<close>

definition recv_pbuf :: "u8 list \<Rightarrow> ('e, 'c) app \<Rightarrow> ('e, 'c) app option" where
  "recv_pbuf payload st =
     (let buf = (if length payload \<le> unat NETRECV_LINE_SIZE
                 then payload @ drop (length payload) (netrecv_line st)
                 else netrecv_line st);
          st = st\<lparr>netrecv_line := buf\<rparr>
      in if buf ! 0 = 0xAA \<and> buf ! 1 = 0xAC then
           (case netrecv_fifo_write (recvq st) buf of
              None \<Rightarrow> None
            | Some (_, q) \<Rightarrow> Some (st\<lparr>recvq := q, msg_netrecvok := sem_count_up (msg_netrecvok st)\<rparr>))
         else Some st)"

fun recv_datagram :: "u8 list list \<Rightarrow> ('e, 'c) app \<Rightarrow> ('e, 'c) app option" where
  "recv_datagram [] st = Some st"
| "recv_datagram (q # qs) st =
     (case recv_pbuf q st of None \<Rightarrow> None | Some st' \<Rightarrow> recv_datagram qs st')"

section \<open>The sequences on the contents of the store\<close>

fun abs_step :: "pstep \<Rightarrow> SendPacket \<times> (u8 \<Rightarrow> u8) \<Rightarrow> SendPacket \<times> (u8 \<Rightarrow> u8)" where
  "abs_step (Put f) (p, m) = (f p, m)"
| "abs_step (Load a f) (p, m) = (f (m (ucast a)) p, m)"
| "abs_step (Save a f) (p, m) = (p, m(ucast a := f p))"
| "abs_step (LoadW a f) (p, m) = (f (of_le16 (m (ucast a)) (m (ucast (a + 1)))) p, m)"
| "abs_step (SaveW a f) (p, m) = (p, m(ucast a := lo8 (f p), ucast (a + 1) := hi8 (f p)))"

fun abs_steps :: "pstep list \<Rightarrow> SendPacket \<times> (u8 \<Rightarrow> u8) \<Rightarrow> SendPacket \<times> (u8 \<Rightarrow> u8)" where
  "abs_steps [] s = s"
| "abs_steps (x # xs) s = abs_steps xs (abs_step x s)"

fun step_addr :: "pstep \<Rightarrow> bool" where
  "step_addr (Put f) = True"
| "step_addr (Load a f) = (a < 256)"
| "step_addr (Save a f) = (a < 256)"
| "step_addr (LoadW a f) = (a < 255)"
| "step_addr (SaveW a f) = (a < 255)"

lemma two_bytes:
  "byte_at (ucast w) 0 = lo8 w" "byte_at (ucast w) (Suc 0) = hi8 w" "byte_at (ucast w) 1 = hi8 w"
  for w :: u16
  by (rule bit_word_eqI, auto simp: byte_at_eq lo8_def hi8_def bit_ucast_iff bit_drop_bit_eq dest: bit_imp_le_length)+

lemma stored_two:
  "stored m a (ucast w) 0 2 = m(ucast a := lo8 w, ucast (a + 1) := hi8 w)"
  by (simp add: stored_def upt_rec two_bytes)

lemma le16_hi_lo: "lo8 (of_le16 l h) = l" "hi8 (of_le16 l h) = h"
  by (simp_all add: lo8_def hi8_def ucast_of_le16_lo ucast_of_le16_hi)

lemma ucast_take16: "(ucast (take_bit 16 (ucast (w :: u16) :: u32)) :: u16) = w"
  by (rule bit_word_eqI) (auto simp: bit_ucast_iff bit_take_bit_iff)

context byte_store
begin

lemma read_len_two:
  assumes "ok s" "a < 255"
  shows "\<exists>s'. read_len 2 rd a 2 0 0 s = (take_bit 16 (ucast (of_le16 (cells s (ucast a)) (cells s (ucast (a + 1))))), s') \<and>
    ok s' \<and> cells s' = cells s"
proof -
  let ?w = "of_le16 (cells s (ucast a)) (cells s (ucast (a + 1)))"
  have range: "unat a + 2 \<le> 256" using assms(2) by (simp add: word_less_nat_alt)
  have "\<forall>i<2. cells s (ucast (a + of_nat i)) = byte_at (ucast ?w) i"
    by (auto simp: less_2_cases_iff two_bytes le16_hi_lo)
  then show ?thesis using read_len_ok [OF assms(1) range, of 0 2 "ucast ?w" 0]
    by (simp add: drop_bit_take_bit)
qed

lemma run_step_abs:
  assumes "ok e" "step_addr x"
  shows "\<exists>e'. run_step rd wr x (p, e) = (fst (abs_step x (p, cells e)), e') \<and> ok e' \<and>
    cells e' = snd (abs_step x (p, cells e))"
proof (cases x)
  case (Put f)
  then show ?thesis using assms by simp
next
  case (Load a f)
  then show ?thesis using assms rd_ok [OF assms(1), of a] by auto
next
  case (Save a f)
  then show ?thesis using assms wr_ok [OF assms(1), of a] by auto
next
  case (LoadW a f)
  then show ?thesis using assms read_len_two [OF assms(1), of a] by (auto simp: ucast_take16)
next
  case (SaveW a f)
  then have "unat a + 2 \<le> 256" using assms(2) by (simp add: word_less_nat_alt)
  from write_len_ok [OF assms(1) this, of 0 2 "ucast (f p)"] show ?thesis
    using SaveW by (simp add: stored_two)
qed

lemma run_steps_abs:
  assumes "ok e" "\<forall>x\<in>set xs. step_addr x"
  shows "\<exists>e'. run_steps rd wr xs (p, e) = (fst (abs_steps xs (p, cells e)), e') \<and> ok e' \<and>
    cells e' = snd (abs_steps xs (p, cells e))"
  using assms
proof (induction xs arbitrary: p e)
  case (Cons x xs)
  obtain e1 where e1: "run_step rd wr x (p, e) = (fst (abs_step x (p, cells e)), e1)" "ok e1"
    "cells e1 = snd (abs_step x (p, cells e))"
    using run_step_abs [OF Cons.prems(1), of x p] Cons.prems(2) by auto
  then show ?case using Cons.IH [OF e1(2), of "fst (abs_step x (p, cells e))"] Cons.prems(2) by simp
qed simp

lemma do_steps_abs:
  assumes "ok (ee st)" "\<forall>x\<in>set xs. step_addr x"
  shows "\<exists>e'. do_steps rd wr xs st = st\<lparr>para := fst (abs_steps xs (para st, cells (ee st))), ee := e'\<rparr> \<and>
    ok e' \<and> cells e' = snd (abs_steps xs (para st, cells (ee st)))"
  using run_steps_abs [OF assms, of "para st"] by (auto simp: do_steps_def)

end

lemma steps_addr:
  "\<forall>x\<in>set init_load. step_addr x" "\<forall>x\<in>set init_default. step_addr x"
  "\<forall>x\<in>set reset_first. step_addr x" "\<forall>x\<in>set reset_second. step_addr x"
  by (simp_all add: init_load_def init_default_def reset_first_def reset_second_def packet_addrs)

section \<open>Parameters in memory and in the EEPROM\<close>

definition mirrored :: "SendPacket \<Rightarrow> u8 \<Rightarrow> (u8 \<Rightarrow> u8) \<Rightarrow> bool" where
  "mirrored p y m \<longleftrightarrow>
     m 5 = senstive1h p \<and> m 6 = senstive1l p \<and> m 7 = senstive2h p \<and> m 8 = senstive2l p \<and>
     m 14 = exposureh p \<and> m 15 = exposurel p \<and> m 16 = mode p \<and> m 17 = alg1 p \<and> m 18 = alg2 p \<and>
     m 22 = aoishowheight p \<and> m 23 = aoistartyh p \<and> m 24 = aoistartyl p \<and>
     m 25 = aoishowstartyh p \<and> m 26 = aoishowstartyl p \<and>
     m 29 = aoishowstartxh p \<and> m 30 = aoishowstartxl p \<and> m 31 = aoishowendxh p \<and>
     m 72 = aoishowendxl p \<and> m 86 = y \<and> m 255 = 0x25"

definition cloth_mirrored :: "SendPacket \<Rightarrow> (u8 \<Rightarrow> u8) \<Rightarrow> bool" where
  "cloth_mirrored p m \<longleftrightarrow>
     (\<forall>j\<in>{0, 1, 2, 3, 4, 5}.
        openclothstart p ! j = of_le16 (m (32 + 2 * of_nat j)) (m (33 + 2 * of_nat j)) \<and>
        openclothend p ! j = of_le16 (m (52 + 2 * of_nat j)) (m (53 + 2 * of_nat j)))"

definition app_inv :: "('e \<Rightarrow> bool) \<Rightarrow> ('e \<Rightarrow> u8 \<Rightarrow> u8) \<Rightarrow> ('c \<Rightarrow> bool) \<Rightarrow> ('e, 'c) app \<Rightarrow> bool" where
  "app_inv ok cells camok st \<longleftrightarrow> ok (ee st) \<and> camok (cam st) \<and> packet_wf (para st) \<and> fifo_wf (sendq st) \<and>
     mirrored (para st) (StartY240 st) (cells (ee st)) \<and> cloth_mirrored (para st) (cells (ee st)) \<and>
     StartY240 st \<le> 240"

lemma be16_bytes: "lo8 (be16 h l) = l" "hi8 (be16 h l) = h"
  by (simp_all add: be16_def join_bytes le16_hi_lo)

text \<open>The id and the status are not kept in step: \<^verbatim>\<open>SET_CAMID\<close> writes the cell of the id and
  leaves the parameter alone, \<^verbatim>\<open>SET_PARA_RESET\<close> sets the status and leaves its cell alone.
  \<^verbatim>\<open>id_status\<close> is the id and the status in memory and their two cells, and \<^verbatim>\<open>stored_id\<close>
  what a packet leaves in the cell of the id.\<close>

definition id_status :: "('e \<Rightarrow> u8 \<Rightarrow> u8) \<Rightarrow> ('e, 'c) app \<Rightarrow> u8 \<times> u8 \<times> u8 \<times> u8" where
  "id_status cells st = (camid (para st), status (para st), cells (ee st) 2, cells (ee st) 4)"

definition stored_id :: "u8 \<Rightarrow> SendPacket \<Rightarrow> u8" where
  "stored_id v m =
     (if event m = SET_CAMID \<and> 0 < changeid m \<and> changeid m < 21 \<and> changeid m \<noteq> camid m then changeid m else v)"

definition id_status_step :: "SendPacket \<Rightarrow> u8 \<times> u8 \<times> u8 \<times> u8 \<Rightarrow> u8 \<times> u8 \<times> u8 \<times> u8" where
  "id_status_step m x = (case x of (i, s, ci, cs) \<Rightarrow> (i, if event m = SET_PARA_RESET then 0 else s, stored_id ci m, cs))"

locale camera_app = byte_store rd wr ok cells
  for rd :: "u16 \<Rightarrow> 'e \<Rightarrow> u8 \<times> 'e" and wr :: "u16 \<Rightarrow> u8 \<Rightarrow> 'e \<Rightarrow> 'e"
    and ok :: "'e \<Rightarrow> bool" and cells :: "'e \<Rightarrow> u8 \<Rightarrow> u8" +
  fixes shut :: "u32 \<Rightarrow> 'c \<Rightarrow> (u16 \<times> 'c) option"
    and camok :: "'c \<Rightarrow> bool"
  assumes shut_ok: "camok c \<Longrightarrow> \<exists>r c'. shut v c = Some (r, c') \<and> camok c'"
begin

lemma write_one:
  assumes "ok e" "a < 256"
  shows "ok (wr a v e)" "cells (wr a v e) = (cells e)(ucast a := v)"
  using wr_ok [OF assms] by auto

lemma inv_watch_image:
  "app_inv ok cells camok st \<Longrightarrow> app_inv ok cells camok (on_watch_image m st) \<and>
     id_status cells (on_watch_image m st) = id_status cells st"
  by (simp add: app_inv_def on_watch_image_def id_status_def)

lemma inv_set_camid:
  "app_inv ok cells camok st \<Longrightarrow> event m = SET_CAMID \<Longrightarrow> app_inv ok cells camok (on_set_camid wr m st) \<and>
     id_status cells (on_set_camid wr m st) = id_status_step m (id_status cells st)"
  by (simp add: app_inv_def on_set_camid_def PACKETID_def write_one mirrored_def cloth_mirrored_def
      id_status_def id_status_step_def stored_id_def packet_events)

lemma inv_set_starty240:
  "app_inv ok cells camok st \<Longrightarrow> app_inv ok cells camok (on_set_starty240 wr m st) \<and>
     id_status cells (on_set_starty240 wr m st) = id_status cells st"
  by (simp add: app_inv_def on_set_starty240_def STARTY240_def write_one mirrored_def cloth_mirrored_def
      id_status_def)

lemma inv_set_aoi: "app_inv ok cells camok st \<Longrightarrow> app_inv ok cells camok (set_aoi_para wr m st)"
  unfolding app_inv_def set_aoi_para_def Let_def packet_addrs
  by (auto simp: write_one mirrored_def cloth_mirrored_def packet_wf_def)

lemma id_set_aoi:
  "app_inv ok cells camok st \<Longrightarrow> id_status cells (set_aoi_para wr m st) = id_status cells st"
  unfolding app_inv_def set_aoi_para_def Let_def packet_addrs
  by (auto simp: write_one id_status_def)

lemma inv_send_para:
  assumes "app_inv ok cells camok st"
  shows "\<exists>st'. send_para st = Some st' \<and> app_inv ok cells camok st' \<and> id_status cells st' = id_status cells st"
proof -
  have wf: "fifo_wf (sendq st)" "length (packet_bytes (para st)) = 76"
    using assms length_packet_bytes by (auto simp: app_inv_def)
  from sendq.write_cases [OF wf] obtain r q where "netsend_fifo_write (sendq st) (packet_bytes (para st)) = Some (r, q)"
    "fifo_wf q" using wf(1) by metis
  then show ?thesis using assms by (auto simp: send_para_def app_inv_def id_status_def)
qed

lemma inv_other_fields:
  assumes "app_inv ok cells camok st"
  shows "app_inv ok cells camok (st\<lparr>para := (para st)\<lparr>event := x, data1 := y\<rparr>\<rparr>)"
    and "app_inv ok cells camok (st\<lparr>para := (para st)\<lparr>event := x, data1 := y, data2 := z, data3 := w\<rparr>\<rparr>)"
    and "id_status cells (st\<lparr>para := (para st)\<lparr>event := x, data1 := y\<rparr>\<rparr>) = id_status cells st"
    and "id_status cells (st\<lparr>para := (para st)\<lparr>event := x, data1 := y, data2 := z, data3 := w\<rparr>\<rparr>) = id_status cells st"
  using assms by (simp_all add: app_inv_def mirrored_def cloth_mirrored_def packet_wf_def id_status_def)

lemma inv_set_exposure:
  assumes "app_inv ok cells camok st"
  shows "\<exists>st'. set_exposure wr shut m st = Some st' \<and> app_inv ok cells camok st' \<and>
    id_status cells st' = id_status cells st"
proof -
  let ?p = "(para st)\<lparr>exposureh := exposureh m, exposurel := exposurel m\<rparr>"
  let ?t = "be16 (exposurel m) (exposureh m)"
  have e: "ok (ee st)" "camok (cam st)" using assms by (auto simp: app_inv_def)
  have bytes: "lo8 ?t = exposureh m" "hi8 ?t = exposurel m"
    by (rule be16_bytes)+
  have w: "ok (write_len 2 wr 14 (ucast ?t) 0 (ee st))"
    "cells (write_len 2 wr 14 (ucast ?t) 0 (ee st)) = (cells (ee st))(14 := exposureh m, 15 := exposurel m)"
    using write_len_ok [OF e(1), of 14 2 0 2 "ucast ?t"] by (simp_all add: stored_two bytes)
  obtain r c where c: "shut (ucast (be16 (exposureh m) (exposurel m))) (cam st) = Some (r, c)" "camok c"
    using shut_ok [OF e(2)] by blast
  show ?thesis
    using assms w c
    by (auto simp: set_exposure_def Let_def PACKETEXPOSUREH_def app_inv_def mirrored_def cloth_mirrored_def
        packet_wf_def id_status_def)
qed

lemma inv_para_reset:
  assumes "app_inv ok cells camok st"
  shows "\<exists>st'. on_set_para_reset rd wr shut st = Some st' \<and> app_inv ok cells camok st' \<and>
    id_status cells st' = (camid (para st), 0, cells (ee st) 2, cells (ee st) 4)"
proof -
  have e: "ok (ee st)" "camok (cam st)" using assms by (auto simp: app_inv_def)
  obtain e1 where s1: "do_steps rd wr reset_first st =
      st\<lparr>para := fst (abs_steps reset_first (para st, cells (ee st))), ee := e1\<rparr>" "ok e1"
     "cells e1 = snd (abs_steps reset_first (para st, cells (ee st)))"
    using do_steps_abs [OF e(1) steps_addr(3)] by blast
  obtain r c where c: "shut 300 (cam st) = Some (r, c)" "camok c" using shut_ok [OF e(2)] by blast
  let ?st1 = "st\<lparr>para := fst (abs_steps reset_first (para st, cells (ee st))), ee := e1, cam := c\<rparr>"
  have e2: "ok (ee ?st1)" using s1(2) by simp
  obtain e3 where s3: "do_steps rd wr reset_second ?st1 =
      ?st1\<lparr>para := fst (abs_steps reset_second (para ?st1, cells (ee ?st1))), ee := e3\<rparr>" "ok e3"
     "cells e3 = snd (abs_steps reset_second (para ?st1, cells (ee ?st1)))"
    using do_steps_abs [OF e2 steps_addr(4)] by blast
  have "id_status cells (?st1\<lparr>para := fst (abs_steps reset_second (para ?st1, cells (ee ?st1))), ee := e3\<rparr>) =
      (camid (para st), 0, cells (ee st) 2, cells (ee st) 4)"
    using s1(3) s3(3) by (simp add: id_status_def reset_first_def reset_second_def packet_addrs)
  moreover have "app_inv ok cells camok (?st1\<lparr>para := fst (abs_steps reset_second (para ?st1, cells (ee ?st1))), ee := e3\<rparr>)"
    using assms s1(2,3) s3(2,3) c(2)
    by (simp add: app_inv_def mirrored_def cloth_mirrored_def packet_wf_def reset_first_def reset_second_def
        packet_addrs hi8_def lo8_def)
  ultimately show ?thesis using s1(1) c(1) s3(1) by (simp add: on_set_para_reset_def)
qed

lemma handle_packet_inv:
  assumes "app_inv ok cells camok st"
  shows "\<exists>st'. handle_packet rd wr shut m st = Some st' \<and> app_inv ok cells camok st' \<and>
    id_status cells st' = id_status_step m (id_status cells st)"
proof -
  have caminfo: "\<exists>st'. on_get_caminfo wr m st = Some st' \<and> app_inv ok cells camok st' \<and>
    id_status cells st' = id_status cells st"
  proof -
    let ?st = "st\<lparr>para := (para st)\<lparr>event := GET_CAMINFO, data1 := CamVer,
                  data2 := StartY240 st, data3 := drop_bit 8 (StartY240 st)\<rparr>\<rparr>"
    have inv: "app_inv ok cells camok ?st" "id_status cells ?st = id_status cells st"
      by (rule inv_other_fields [OF assms])+
    obtain st1 where "send_para (set_aoi_para wr m ?st) = Some st1" "app_inv ok cells camok st1"
      "id_status cells st1 = id_status cells st"
      using inv_send_para [OF inv_set_aoi [OF inv(1)]] id_set_aoi [OF inv(1)] inv(2) by metis
    then show ?thesis using inv_set_starty240 by (auto simp: on_get_caminfo_def Let_def)
  qed
  have camver: "\<exists>st'. on_get_camver st = Some st' \<and> app_inv ok cells camok st' \<and>
    id_status cells st' = id_status cells st"
    using inv_send_para [OF inv_other_fields(1) [OF assms]] inv_other_fields(3) [OF assms]
    by (auto simp: on_get_camver_def)
  have other: "id_status_step m x = x" if "event m \<noteq> SET_CAMID" "event m \<noteq> SET_PARA_RESET" for x
    using that by (auto simp: id_status_step_def stored_id_def)
  have reset: "id_status_step m (id_status cells st) = (camid (para st), 0, cells (ee st) 2, cells (ee st) 4)"
    if "event m = SET_PARA_RESET"
    using that by (simp add: id_status_step_def stored_id_def id_status_def packet_events)
  consider "event m = SET_DETECTPARA" | "event m = SET_CAMID" | "event m = GET_CAMVER" | "event m = GET_CAMINFO"
    | "event m = SET_PARA_RESET"
    | "event m \<notin> {SET_DETECTPARA, SET_CAMID, GET_CAMVER, GET_CAMINFO, SET_PARA_RESET}" by blast
  then show ?thesis
  proof cases
    case 1
    then show ?thesis using inv_set_exposure [OF assms, of m] other
      by (simp add: handle_packet_def on_set_detectpara_def packet_events)
  next
    case 2
    then show ?thesis using inv_set_camid [OF assms 2] by (simp add: handle_packet_def packet_events)
  next
    case 3
    then show ?thesis using camver other by (simp add: handle_packet_def packet_events)
  next
    case 4
    then show ?thesis using caminfo other by (simp add: handle_packet_def packet_events)
  next
    case 5
    then show ?thesis using inv_para_reset [OF assms] reset by (simp add: handle_packet_def packet_events)
  next
    case 6
    then show ?thesis
      using inv_watch_image [OF assms, of m] inv_set_starty240 [OF assms, of m] inv_set_aoi [OF assms, of m]
        id_set_aoi [OF assms, of m] assms other
      by (simp add: handle_packet_def)
  qed
qed

end

section \<open>Start of the parameters\<close>

definition boot_ok :: "('e \<Rightarrow> bool) \<Rightarrow> ('c \<Rightarrow> bool) \<Rightarrow> ('e, 'c) app \<Rightarrow> bool" where
  "boot_ok ok camok st \<longleftrightarrow> ok (ee st) \<and> camok (cam st) \<and> fifo_wf (sendq st) \<and>
     (if para_ptr st = 0
      then \<exists>p m. mymalloc (mem st) SRAMEX 76 = Some (p, m) \<and> p \<noteq> 0 else packet_wf (para st))"

lemma init_alloc_ok:
  assumes "boot_ok ok camok st"
  shows "\<exists>st'. init_alloc st = Some st' \<and> ee st' = ee st \<and> cam st' = cam st \<and> sendq st' = sendq st \<and>
    packet_wf (para st')"
  using assms by (auto simp: boot_ok_def init_alloc_def packet_of_bytes_wf split: if_splits)

definition same_params :: "SendPacket \<Rightarrow> SendPacket \<Rightarrow> bool" where
  "same_params p q \<longleftrightarrow>
     senstive1h p = senstive1h q \<and> senstive1l p = senstive1l q \<and> senstive2h p = senstive2h q \<and>
     senstive2l p = senstive2l q \<and> exposureh p = exposureh q \<and> exposurel p = exposurel q \<and>
     mode p = mode q \<and> alg1 p = alg1 q \<and> alg2 p = alg2 q \<and> aoishowheight p = aoishowheight q \<and>
     aoistartyh p = aoistartyh q \<and> aoistartyl p = aoistartyl q \<and> aoishowstartyh p = aoishowstartyh q \<and>
     aoishowstartyl p = aoishowstartyl q \<and> aoishowstartxh p = aoishowstartxh q \<and>
     aoishowstartxl p = aoishowstartxl q \<and> aoishowendxh p = aoishowendxh q \<and>
     aoishowendxl p = aoishowendxl q \<and>
     (\<forall>j\<in>{0, 1, 2, 3, 4, 5}. openclothstart p ! j = openclothstart q ! j \<and> openclothend p ! j = openclothend q ! j)"

lemma mirrored_same:
  "mirrored p y m \<Longrightarrow> cloth_mirrored p m \<Longrightarrow> mirrored q y' m \<Longrightarrow> cloth_mirrored q m \<Longrightarrow> same_params p q \<and> y = y'"
  by (simp add: mirrored_def cloth_mirrored_def same_params_def)

context camera_app
begin

lemma Init_load:
  assumes "boot_ok ok camok st" "cells (ee st) 255 = 0x25"
  shows "\<exists>st'. InitCamParaPacket rd wr st = Some st' \<and> app_inv ok cells camok st' \<and>
     camid (para st') = cells (ee st) 2 \<and> status (para st') = cells (ee st) 4 \<and>
     StartY240 st' = min 240 (cells (ee st) 86) \<and>
     cells (ee st') = (cells (ee st))(86 := min 240 (cells (ee st) 86))"
proof -
  obtain st1 where st1: "init_alloc st = Some st1" "ee st1 = ee st" "cam st1 = cam st" "sendq st1 = sendq st"
    "packet_wf (para st1)" using init_alloc_ok [OF assms(1)] by blast
  have e: "ok (ee st)" "camok (cam st)" "fifo_wf (sendq st)" using assms(1) by (auto simp: boot_ok_def)
  obtain e1 where e1: "rd 255 (ee st) = (0x25, e1)" "ok e1" "cells e1 = cells (ee st)"
    using rd_ok [OF e(1), of 255] assms(2) by auto
  let ?st2 = "st1\<lparr>ee := e1\<rparr>"
  let ?a = "abs_steps init_load (para st1, cells (ee st))"
  obtain e2 where e2: "do_steps rd wr init_load ?st2 = ?st2\<lparr>para := fst ?a, ee := e2\<rparr>" "ok e2" "cells e2 = snd ?a"
    using do_steps_abs [OF _ steps_addr(1), of ?st2] e1 by auto
  have len: "length (openclothstart (para st1)) = 10" "length (openclothend (para st1)) = 10"
    using st1(5) by (simp_all add: packet_wf_def)
  have a: "snd ?a = cells (ee st)" "camid (fst ?a) = cells (ee st) 2" "status (fst ?a) = cells (ee st) 4"
    "mirrored (fst ?a) (cells (ee st) 86) (cells (ee st))" "cloth_mirrored (fst ?a) (cells (ee st))"
    "packet_wf (fst ?a)"
    by (simp_all add: init_load_def packet_addrs mirrored_def cloth_mirrored_def packet_wf_def assms(2) len)
  obtain e3 where e3: "rd STARTY240 e2 = (cells (ee st) 86, e3)" "ok e3" "cells e3 = cells (ee st)"
    using rd_ok [OF e2(2), of 86] e2(3) a(1) by (auto simp: STARTY240_def)
  have w: "ok (wr STARTY240 240 e3)" "cells (wr STARTY240 240 e3) = (cells (ee st))(86 := 240)"
    using wr_ok [OF e3(2), of 86 240] e3(3) by (simp_all add: STARTY240_def)
  show ?thesis
    using st1(1-4) e1(1) e2(1) e3 w e(2,3) a(2-6)
    by (auto simp: InitCamParaPacket_def Let_def app_inv_def min_def mirrored_def cloth_mirrored_def)
qed

end

context camera_app
begin

lemma Init_default:
  assumes "boot_ok ok camok st" "cells (ee st) 255 \<noteq> 0x25"
  shows "\<exists>st'. InitCamParaPacket rd wr st = Some st' \<and> app_inv ok cells camok st' \<and>
     camid (para st') = 1 \<and> status (para st') = 0 \<and> StartY240 st' = 120 \<and>
     be16 (exposureh (para st')) (exposurel (para st')) = 300 \<and>
     be16 (aoistartyh (para st')) (aoistartyl (para st')) = 852 \<and>
     be16 (aoishowstartyh (para st')) (aoishowstartyl (para st')) = 10 \<and>
     aoishowheight (para st') = 32 \<and> cells (ee st') 2 = 1 \<and> cells (ee st') 4 = cells (ee st) 4"
proof -
  obtain st1 where st1: "init_alloc st = Some st1" "ee st1 = ee st" "cam st1 = cam st" "sendq st1 = sendq st"
    "packet_wf (para st1)" using init_alloc_ok [OF assms(1)] by blast
  have e: "ok (ee st)" "camok (cam st)" "fifo_wf (sendq st)" using assms(1) by (auto simp: boot_ok_def)
  obtain e1 where e1: "rd 255 (ee st) = (cells (ee st) 255, e1)" "ok e1" "cells e1 = cells (ee st)"
    using rd_ok [OF e(1), of 255] by auto
  let ?st2 = "st1\<lparr>ee := e1\<rparr>"
  let ?a = "abs_steps init_default (para st1, cells (ee st))"
  obtain e2 where e2: "do_steps rd wr init_default ?st2 = ?st2\<lparr>para := fst ?a, ee := e2\<rparr>" "ok e2" "cells e2 = snd ?a"
    using do_steps_abs [OF _ steps_addr(2), of ?st2] e1 by auto
  have len: "length (openclothstart (para st1)) = 10" "length (openclothend (para st1)) = 10"
    using st1(5) by (simp_all add: packet_wf_def)
  have a: "mirrored (fst ?a) 120 ((snd ?a)(86 := 120, 255 := 0x25))"
    "cloth_mirrored (fst ?a) ((snd ?a)(86 := 120, 255 := 0x25))"
    "packet_wf (fst ?a)" "camid (fst ?a) = 1" "status (fst ?a) = 0" "snd ?a 2 = 1" "snd ?a 4 = cells (ee st) 4"
    "be16 (exposureh (fst ?a)) (exposurel (fst ?a)) = 300"
    "be16 (aoistartyh (fst ?a)) (aoistartyl (fst ?a)) = 852"
    "be16 (aoishowstartyh (fst ?a)) (aoishowstartyl (fst ?a)) = 10" "aoishowheight (fst ?a) = 32"
    by (simp_all add: init_default_def packet_addrs mirrored_def cloth_mirrored_def packet_wf_def len
        hi8_def lo8_def be16_def of_le16_def)
  have w1: "ok (wr STARTY240 120 e2)" "cells (wr STARTY240 120 e2) = (snd ?a)(86 := 120)"
    using wr_ok [OF e2(2), of 86 120] e2(3) by (simp_all add: STARTY240_def)
  have w2: "ok (wr 255 0x25 (wr STARTY240 120 e2))"
    "cells (wr 255 0x25 (wr STARTY240 120 e2)) = (snd ?a)(86 := 120, 255 := 0x25)"
    using wr_ok [OF w1(1), where a = 255 and v = "0x25"] w1(2) by simp_all
  show ?thesis
    using st1(1-4) e1(1) assms(2) e2(1) w2 e(2,3) a
    by (simp add: InitCamParaPacket_def Let_def app_inv_def)
qed

lemma Init_establishes:
  assumes "boot_ok ok camok st"
  shows "\<exists>st'. InitCamParaPacket rd wr st = Some st' \<and> app_inv ok cells camok st' \<and>
     (if cells (ee st) 255 = 0x25
      then cells (ee st') = (cells (ee st))(86 := min 240 (cells (ee st) 86)) \<and>
        camid (para st') = cells (ee st) 2 \<and> status (para st') = cells (ee st) 4
      else camid (para st') = 1 \<and> cells (ee st') 2 = 1 \<and> status (para st') = 0 \<and>
        be16 (exposureh (para st')) (exposurel (para st')) = 300 \<and> StartY240 st' = 120 \<and>
        be16 (aoistartyh (para st')) (aoistartyl (para st')) = 852 \<and>
        be16 (aoishowstartyh (para st')) (aoishowstartyl (para st')) = 10 \<and> aoishowheight (para st') = 32)"
proof (cases "cells (ee st) 255 = 0x25")
  case True
  with Init_load [OF assms] show ?thesis by auto
next
  case False
  with Init_default [OF assms] show ?thesis by auto
qed

lemma Init_restores:
  assumes "app_inv ok cells camok st" "boot_ok ok camok st2" "cells (ee st2) = cells (ee st)"
  shows "\<exists>st'. InitCamParaPacket rd wr st2 = Some st' \<and> app_inv ok cells camok st' \<and>
     same_params (para st) (para st') \<and> StartY240 st' = StartY240 st \<and>
     camid (para st') = cells (ee st) 2 \<and> status (para st') = cells (ee st) 4 \<and> cells (ee st') = cells (ee st)"
proof -
  have m: "mirrored (para st) (StartY240 st) (cells (ee st))" "cloth_mirrored (para st) (cells (ee st))"
    "StartY240 st \<le> 240" using assms(1) by (auto simp: app_inv_def)
  have c: "cells (ee st) 255 = 0x25" "cells (ee st) 86 = StartY240 st" using m(1) by (simp_all add: mirrored_def)
  obtain st' where st': "InitCamParaPacket rd wr st2 = Some st'" "app_inv ok cells camok st'"
    "StartY240 st' = min 240 (cells (ee st) 86)"
    "camid (para st') = cells (ee st) 2" "status (para st') = cells (ee st) 4"
    "cells (ee st') = (cells (ee st))(86 := min 240 (cells (ee st) 86))"
    using Init_load [OF assms(2)] c(1) assms(3) by auto
  have "min 240 (cells (ee st) 86) = StartY240 st" using c(2) m(3) by (simp add: min_def)
  then have same: "cells (ee st') = cells (ee st)" "StartY240 st' = StartY240 st" using st'(3,6) c(2) by auto
  have "mirrored (para st') (StartY240 st') (cells (ee st))" "cloth_mirrored (para st') (cells (ee st))"
    using st'(2) same(1) by (simp_all add: app_inv_def)
  then have "same_params (para st) (para st')" using mirrored_same m(1,2) by blast
  then show ?thesis using st'(1,2,4,5) same by blast
qed

text \<open>Any sequence of packets.\<close>

lemma handle_all_inv:
  assumes "app_inv ok cells camok st"
  shows "\<exists>st'. foldl (\<lambda>o' m. Option.bind o' (handle_packet rd wr shut m)) (Some st) ms = Some st' \<and>
    app_inv ok cells camok st' \<and> camid (para st') = camid (para st) \<and>
    cells (ee st') 2 = foldl stored_id (cells (ee st) 2) ms \<and>
    status (para st') = (if \<exists>m\<in>set ms. event m = SET_PARA_RESET then 0 else status (para st)) \<and>
    cells (ee st') 4 = cells (ee st) 4"
  using assms
proof (induction ms arbitrary: st)
  case (Cons m ms)
  obtain st1 where st1: "handle_packet rd wr shut m st = Some st1" "app_inv ok cells camok st1"
    "id_status cells st1 = id_status_step m (id_status cells st)"
    using handle_packet_inv [OF Cons.prems] by blast
  from Cons.IH [OF st1(2)] st1(1,3) show ?case
    by (auto simp: id_status_def id_status_step_def split: if_splits)
qed simp

end

section \<open>On the two drivers\<close>

locale camera_hw = eep: at24_chip D view twr + sen: sensor_chip E sview wm
  for D :: "'d i2c_dev" and view :: "'d \<Rightarrow> eeprom target" and twr :: int
    and E :: "'s i2c_dev" and sview :: "'s \<Rightarrow> mt9p target" and wm :: "u8 \<Rightarrow> u16" +
  assumes wm_ok: "settable wm"

sublocale camera_hw \<subseteq> app: camera_app "AT24CXX_ReadOneByte D" "AT24CXX_WriteOneByte D"
  "ee_ok view" "ee_cells view" "cmos_set_Shutter E" "mt_ok sview"
  by unfold_locales (use sen.set_Shutter wm_ok in blast)

interpretation camera: camera_hw "target_dev (at24c02 5000)" id 5000
    "target_dev (mt9p031 field_mask)" id field_mask
  by unfold_locales (rule settable_fields)

context camera_hw
begin

lemma exposure_effect:
  assumes "app_inv (ee_ok view) (ee_cells view) (mt_ok sview) st" "event m = SET_DETECTPARA"
    and "2 \<le> be16 (exposureh m) (exposurel m)" "be16 (exposureh m) (exposurel m) \<le> 29999"
  shows "\<exists>st'. handle_packet (AT24CXX_ReadOneByte D) (AT24CXX_WriteOneByte D) (cmos_set_Shutter E) m st = Some st' \<and>
     exposureh (para st') = exposureh m \<and> exposurel (para st') = exposurel m \<and>
     ee_cells view (ee st') = (ee_cells view (ee st))(14 := exposureh m, 15 := exposurel m) \<and>
     mt_reg_file sview (cam st') 0x09 = be16 (exposureh m) (exposurel m) \<and>
     mt_reg_file sview (cam st') 0x08 = 0"
proof -
  let ?p = "(para st)\<lparr>exposureh := exposureh m, exposurel := exposurel m\<rparr>"
  let ?t = "be16 (exposurel m) (exposureh m)" and ?v = "be16 (exposureh m) (exposurel m)"
  have e: "ee_ok view (ee st)" "mt_ok sview (cam st)" using assms(1) by (auto simp: app_inv_def)
  let ?e = "write_len 2 (AT24CXX_WriteOneByte D) 14 (ucast ?t) 0 (ee st)"
  have w: "ee_cells view ?e = (ee_cells view (ee st))(14 := exposureh m, 15 := exposurel m)"
    using eep.store.write_len_ok [OF e(1), of 14 2 0 2 "ucast ?t"] by (simp add: stored_two be16_bytes)
  obtain c where c: "cmos_set_Shutter E (ucast ?v) (cam st) = Some (1, c)"
    "mt_reg_file sview c = (mt_reg_file sview (cam st))(0x09 := ucast (ucast ?v :: u32),
       0x08 := ucast (drop_bit 16 (ucast ?v :: u32)))"
    using sen.set_Shutter [OF e(2) wm_ok] by blast
  have v: "(ucast (ucast ?v :: u32) :: u16) = ?v"
    by (rule bit_word_eqI) (auto simp: bit_ucast_iff)
  have z: "(ucast (drop_bit 16 (ucast ?v :: u32)) :: u16) = 0"
    by (rule bit_word_eqI) (auto simp: bit_ucast_iff bit_drop_bit_eq dest: bit_imp_le_length)
  have "handle_packet (AT24CXX_ReadOneByte D) (AT24CXX_WriteOneByte D) (cmos_set_Shutter E) m st =
      Some (st\<lparr>para := ?p, ee := ?e, cam := c\<rparr>)"
    using assms(2-4) c(1)
    by (simp add: handle_packet_def packet_events on_set_detectpara_def set_exposure_def Let_def
        PACKETEXPOSUREH_def)
  then show ?thesis using w c(2) v z by simp
qed

lemma handle_all:
  assumes "app_inv (ee_ok view) (ee_cells view) (mt_ok sview) st"
  shows "\<exists>st'. foldl (\<lambda>s m. Option.bind s (handle_packet (AT24CXX_ReadOneByte D) (AT24CXX_WriteOneByte D)
       (cmos_set_Shutter E) m)) (Some st) ms = Some st' \<and>
     app_inv (ee_ok view) (ee_cells view) (mt_ok sview) st' \<and>
     camid (para st') = camid (para st) \<and>
     ee_cells view (ee st') 2 = foldl stored_id (ee_cells view (ee st) 2) ms \<and>
     status (para st') = (if \<exists>m\<in>set ms. event m = SET_PARA_RESET then 0 else status (para st)) \<and>
     ee_cells view (ee st') 4 = ee_cells view (ee st) 4"
  by (rule app.handle_all_inv [OF assms])

lemmas establishes = app.Init_establishes

lemmas restores = app.Init_restores

lemma status_lost:
  assumes "boot_ok (ee_ok view) (mt_ok sview) st" "ee_cells view (ee st) 255 \<noteq> 0x25"
  shows "\<exists>st1. InitCamParaPacket (AT24CXX_ReadOneByte D) (AT24CXX_WriteOneByte D) st = Some st1 \<and>
     status (para st1) = 0 \<and>
     (\<forall>st2. boot_ok (ee_ok view) (mt_ok sview) st2 \<and> ee_cells view (ee st2) = ee_cells view (ee st1) \<longrightarrow>
        (\<exists>st3. InitCamParaPacket (AT24CXX_ReadOneByte D) (AT24CXX_WriteOneByte D) st2 = Some st3 \<and>
           status (para st3) = ee_cells view (ee st) 4))"
proof -
  obtain st1 where st1: "InitCamParaPacket (AT24CXX_ReadOneByte D) (AT24CXX_WriteOneByte D) st = Some st1"
    "app_inv (ee_ok view) (ee_cells view) (mt_ok sview) st1" "status (para st1) = 0"
    "ee_cells view (ee st1) 4 = ee_cells view (ee st) 4"
    using app.Init_default [OF assms] by blast
  have marker: "ee_cells view (ee st1) 255 = 0x25" using st1(2) by (simp add: app_inv_def mirrored_def)
  have "\<exists>st3. InitCamParaPacket (AT24CXX_ReadOneByte D) (AT24CXX_WriteOneByte D) st2 = Some st3 \<and>
           status (para st3) = ee_cells view (ee st) 4"
    if "boot_ok (ee_ok view) (mt_ok sview) st2" "ee_cells view (ee st2) = ee_cells view (ee st1)" for st2
    using app.Init_load [OF that(1)] that(2) marker st1(4) by auto
  then show ?thesis using st1(1,3) by blast
qed

end

section \<open>Reception\<close>

theorem recv_pbuf_effect:
  assumes "fifo_wf (recvq st)" "length (netrecv_line st) = 76" "length (fifo_contents (recvq st)) < 59"
  shows "\<exists>st'. recv_pbuf payload st = Some st' \<and> fifo_wf (recvq st') \<and> length (netrecv_line st') = 76 \<and>
     (length payload = 76 \<and> payload ! 0 = 0xAA \<and> payload ! 1 = 0xAC \<longrightarrow>
        fifo_contents (recvq st') = fifo_contents (recvq st) @ [payload] \<and>
        msg_netrecvok st' = sem_count_up (msg_netrecvok st)) \<and>
     (length payload = 76 \<and> (payload ! 0 \<noteq> 0xAA \<or> payload ! 1 \<noteq> 0xAC) \<longrightarrow>
        st' = st\<lparr>netrecv_line := payload\<rparr>) \<and>
     (76 < length payload \<and> netrecv_line st ! 0 = 0xAA \<and> netrecv_line st ! 1 = 0xAC \<longrightarrow>
        fifo_contents (recvq st') = fifo_contents (recvq st) @ [netrecv_line st] \<and>
        msg_netrecvok st' = sem_count_up (msg_netrecvok st))"
proof -
  let ?buf = "if length payload \<le> 76 then payload @ drop (length payload) (netrecv_line st)
      else netrecv_line st"
  have len: "length ?buf = 76" using assms(2) by simp
  obtain q where q: "netrecv_fifo_write (recvq st) ?buf = Some (0, q)" "fifo_wf q"
    "fifo_contents q = fifo_contents (recvq st) @ [?buf]"
    using recvq.write_room [OF assms(1) len assms(3)] by blast
  have r: "recv_pbuf payload st = Some (if ?buf ! 0 = 0xAA \<and> ?buf ! 1 = 0xAC
      then st\<lparr>netrecv_line := ?buf, recvq := q, msg_netrecvok := sem_count_up (msg_netrecvok st)\<rparr>
      else st\<lparr>netrecv_line := ?buf\<rparr>)"
    unfolding recv_pbuf_def Let_def NETRECV_LINE_SIZE_def using q(1) by simp
  show ?thesis
    unfolding r using q(2,3) assms len by auto
qed

theorem packet_reaches_handler:
  assumes "fifo_wf (recvq st)" "length (netrecv_line st) = 76" "fifo_contents (recvq st) = []"
    and "udp_flag st = 1" "msg_netrecvok st = 0"
    and "packet_wf m" "head1 m = 0xAA" "head2 m = 0xAC"
  shows "\<exists>st1 q. recv_pbuf (packet_bytes m) st = Some st1 \<and> fifo_contents q = [] \<and>
     udp_dataprocess_round rd wr shut st1 =
       (case handle_packet rd wr shut m
               (st\<lparr>netrecv_line := packet_bytes m, recvq := q\<rparr>) of
          None \<Rightarrow> Inl Stuck | Some st' \<Rightarrow> Inr st')"
proof -
  have len: "length (packet_bytes m) = 76" by (rule length_packet_bytes [OF assms(6)])
  have head: "packet_bytes m ! 0 = 0xAA" "packet_bytes m ! 1 = 0xAC"
    using assms(7,8) by (simp_all add: packet_bytes_def)
  obtain q where q: "netrecv_fifo_write (recvq st) (packet_bytes m) = Some (0, q)" "fifo_wf q"
    "fifo_contents q = [packet_bytes m]"
    using recvq.write_room [OF assms(1) len] assms(3) by auto
  obtain q' where q': "netrecv_fifo_read q 0 = (1, fifordpos q', q')" "fifo_contents q' = []"
    "fifo_slot q' (fifordpos q') = packet_bytes m"
    using recvq.read_some [OF q(2,3), of 0] by blast
  let ?st1 = "st\<lparr>netrecv_line := packet_bytes m, recvq := q, msg_netrecvok := 1\<rparr>"
  have r: "recv_pbuf (packet_bytes m) st = Some ?st1"
    unfolding recv_pbuf_def Let_def NETRECV_LINE_SIZE_def
    using q(1) head len assms(2,5) by (simp add: sem_count_up_def)
  have m: "packet_of_bytes (take 76 (fifobuf q' ! unat (fifordpos q'))) = m"
    using q'(3) len packet_image_back [OF assms(6)] by (simp add: fifo_slot_def)
  have same: "st\<lparr>netrecv_line := packet_bytes m, msg_netrecvok := 0, recvq := q'\<rparr> =
      st\<lparr>netrecv_line := packet_bytes m, recvq := q'\<rparr>"
    by (rule app.equality) (simp_all add: assms(5))
  have "udp_dataprocess_round rd wr shut ?st1 =
       (case handle_packet rd wr shut m (st\<lparr>netrecv_line := packet_bytes m, recvq := q'\<rparr>) of
          None \<Rightarrow> Inl Stuck | Some st' \<Rightarrow> Inr st')"
    using assms(4) q'(1) m same by (simp add: udp_dataprocess_round_def sem_count_down_def Let_def)
  then show ?thesis using r q'(2) by blast
qed

section \<open>Properties on the two chips\<close>

text \<open>C6: Handling any sequence of packets returns and keeps the parameters in memory, but for the id
  and the status, equal to their copies in the EEPROM, the send queue well formed and StartY240 at
  most 240. The id in memory never changes and its cell holds the id of the last SET_CAMID that
  names a new one from 1 to 20; the status is 0 after a SET_PARA_RESET and its cell never changes.
  The shutter registers of the sensor take 16 bits.\<close>

theorem packets_keep_params:
  assumes "acts_as D view (at24c02 twr)" "twr \<le> 10000" "acts_as E sview (mt9p031 wm)" "settable wm"
    and "app_inv (ee_ok view) (ee_cells view) (mt_ok sview) st"
  shows "\<exists>st'. foldl (\<lambda>s m. Option.bind s (handle_packet (AT24CXX_ReadOneByte D) (AT24CXX_WriteOneByte D)
       (cmos_set_Shutter E) m)) (Some st) ms = Some st' \<and>
     app_inv (ee_ok view) (ee_cells view) (mt_ok sview) st' \<and>
     camid (para st') = camid (para st) \<and>
     ee_cells view (ee st') 2 = foldl stored_id (ee_cells view (ee st) 2) ms \<and>
     status (para st') = (if \<exists>m\<in>set ms. event m = SET_PARA_RESET then 0 else status (para st)) \<and>
     ee_cells view (ee st') 4 = ee_cells view (ee st) 4"
  using camera_hw.handle_all [OF camera_hw.intro [OF at24_chip.intro [OF assms(1,2)]
      sensor_chip.intro [OF assms(3)] camera_hw_axioms.intro [OF assms(4)]] assms(5)] .

theorem exposure_packet_effect:
  assumes "acts_as D view (at24c02 twr)" "twr \<le> 10000" "acts_as E sview (mt9p031 wm)" "settable wm"
    and "app_inv (ee_ok view) (ee_cells view) (mt_ok sview) st" "event m = SET_DETECTPARA"
    and "2 \<le> be16 (exposureh m) (exposurel m)" "be16 (exposureh m) (exposurel m) \<le> 29999"
  shows "\<exists>st'. handle_packet (AT24CXX_ReadOneByte D) (AT24CXX_WriteOneByte D) (cmos_set_Shutter E) m st = Some st' \<and>
     exposureh (para st') = exposureh m \<and> exposurel (para st') = exposurel m \<and>
     ee_cells view (ee st') = (ee_cells view (ee st))(14 := exposureh m, 15 := exposurel m) \<and>
     mt_reg_file sview (cam st') 0x09 = be16 (exposureh m) (exposurel m) \<and>
     mt_reg_file sview (cam st') 0x08 = 0"
  using camera_hw.exposure_effect [OF camera_hw.intro [OF at24_chip.intro [OF assms(1,2)]
      sensor_chip.intro [OF assms(3)] camera_hw_axioms.intro [OF assms(4)]] assms(5-8)] .

text \<open>C31: InitCamParaPacket returns with the parameters in memory equal to their copies in the
  EEPROM: with the marker 0x25 stored it loads all of them, the id and the status too, and changes
  at most the cell of StartY240, which becomes at most 240; otherwise it sets and stores the
  defaults, the id 1 too, and sets the status to 0 without storing it.\<close>

theorem InitCamParaPacket_establishes:
  assumes "acts_as D view (at24c02 twr)" "twr \<le> 10000" "acts_as E sview (mt9p031 wm)" "settable wm"
    and "boot_ok (ee_ok view) (mt_ok sview) st"
  shows "\<exists>st'. InitCamParaPacket (AT24CXX_ReadOneByte D) (AT24CXX_WriteOneByte D) st = Some st' \<and>
     app_inv (ee_ok view) (ee_cells view) (mt_ok sview) st' \<and>
     (if ee_cells view (ee st) 255 = 0x25
      then ee_cells view (ee st') = (ee_cells view (ee st))(86 := min 240 (ee_cells view (ee st) 86)) \<and>
        camid (para st') = ee_cells view (ee st) 2 \<and> status (para st') = ee_cells view (ee st) 4
      else camid (para st') = 1 \<and> ee_cells view (ee st') 2 = 1 \<and> status (para st') = 0 \<and>
        be16 (exposureh (para st')) (exposurel (para st')) = 300 \<and> StartY240 st' = 120 \<and>
        be16 (aoistartyh (para st')) (aoistartyl (para st')) = 852 \<and>
        be16 (aoishowstartyh (para st')) (aoishowstartyl (para st')) = 10 \<and> aoishowheight (para st') = 32)"
  using camera_hw.establishes [OF camera_hw.intro [OF at24_chip.intro [OF assms(1,2)]
      sensor_chip.intro [OF assms(3)] camera_hw_axioms.intro [OF assms(4)]] assms(5)] .

text \<open>C32: A start with the EEPROM of a running camera restores its parameters but the id and the
  status, and StartY240, and does not change the EEPROM; the id becomes the one stored last by
  SET_CAMID or the first start, the status what its cell holds.\<close>

theorem params_survive_reboot:
  assumes "acts_as D view (at24c02 twr)" "twr \<le> 10000" "acts_as E sview (mt9p031 wm)" "settable wm"
    and "app_inv (ee_ok view) (ee_cells view) (mt_ok sview) st" "boot_ok (ee_ok view) (mt_ok sview) st2"
    and "ee_cells view (ee st2) = ee_cells view (ee st)"
  shows "\<exists>st'. InitCamParaPacket (AT24CXX_ReadOneByte D) (AT24CXX_WriteOneByte D) st2 = Some st' \<and>
     app_inv (ee_ok view) (ee_cells view) (mt_ok sview) st' \<and>
     same_params (para st) (para st') \<and> StartY240 st' = StartY240 st \<and>
     camid (para st') = ee_cells view (ee st) 2 \<and> status (para st') = ee_cells view (ee st) 4 \<and>
     ee_cells view (ee st') = ee_cells view (ee st)"
  using camera_hw.restores [OF camera_hw.intro [OF at24_chip.intro [OF assms(1,2)]
      sensor_chip.intro [OF assms(3)] camera_hw_axioms.intro [OF assms(4)]] assms(5-7)] .

text \<open>The field \<^verbatim>\<open>status\<close> is read back but never written: the second start takes what the chip
  held before the first.\<close>

theorem status_not_stored:
  assumes "acts_as D view (at24c02 twr)" "twr \<le> 10000" "acts_as E sview (mt9p031 wm)" "settable wm"
    and "boot_ok (ee_ok view) (mt_ok sview) st" "ee_cells view (ee st) 255 \<noteq> 0x25"
  shows "\<exists>st1. InitCamParaPacket (AT24CXX_ReadOneByte D) (AT24CXX_WriteOneByte D) st = Some st1 \<and>
     status (para st1) = 0 \<and>
     (\<forall>st2. boot_ok (ee_ok view) (mt_ok sview) st2 \<and> ee_cells view (ee st2) = ee_cells view (ee st1) \<longrightarrow>
        (\<exists>st3. InitCamParaPacket (AT24CXX_ReadOneByte D) (AT24CXX_WriteOneByte D) st2 = Some st3 \<and>
           status (para st3) = ee_cells view (ee st) 4))"
  using camera_hw.status_lost [OF camera_hw.intro [OF at24_chip.intro [OF assms(1,2)]
      sensor_chip.intro [OF assms(3)] camera_hw_axioms.intro [OF assms(4)]] assms(5,6)] .

theorem GET_CAMINFO_sets_StartY240:
  assumes "event m = GET_CAMINFO" "data1 m \<le> 240" "handle_packet rd wr shut m st = Some st'"
  shows "StartY240 st' = data1 m"
  using assms(3)
  by (auto simp: handle_packet_def packet_events assms(1)[unfolded packet_events] assms(2)
      on_get_caminfo_def Let_def on_set_starty240_def)

section \<open>Concrete runs\<close>

abbreviation demo_D :: "eeprom target i2c_dev" where
  "demo_D \<equiv> target_dev (at24c02 5000)"

abbreviation demo_E :: "mt9p target i2c_dev" where
  "demo_E \<equiv> target_dev (mt9p031 field_mask)"

definition demo_boot :: "(eeprom target bus, mt9p target bus) app" where
  "demo_boot = \<lparr>ee = blank_chip, cam = demo_running, mem = pool_with_low 2560 462592, para_ptr = 0,
     para = packet_of_bytes (replicate 76 0), StartY240 = 120, udp_flag = 1, jpeg_data_send = 0,
     jpeg_data_pcsend_flag = 0, netrecv_line = replicate 76 0,
     sendq = netfifo_init (replicate 60 (replicate 76 0)),
     recvq = netfifo_init (replicate 60 (replicate 76 0)), msg_netsendready = 0, msg_netrecvok = 0\<rparr>"

lemma demo_cycle: "(5000 :: int) \<le> 10000"
  by simp

lemma demo_fifo: "fifo_wf (netfifo_init (replicate 60 (replicate 76 0)))"
  "fifo_contents (netfifo_init (replicate 60 (replicate 76 0))) = []"
  by (rule netfifo_init_wf; simp)+

lemma demo_malloc: "\<exists>p m. mymalloc (pool_with_low 2560 462592) SRAMEX 76 = Some (p, m) \<and> p \<noteq> 0"
proof -
  have n: "nblocks 76 = 2" by (simp add: nblocks_def)
  have "\<exists>s'. mymalloc (pool_with_low 2560 462592) 1 76 =
      Some (membase (pool_with_low 2560 462592) ! unat (1 :: u8) + of_nat (462592 - 2) * 64, s')"
    using mymalloc_stack [OF pool_with_low_inv [of 2560 462592] _ pool_with_low_free(2) [of 2560 462592], of 76]
    by (auto simp: n)
  then show ?thesis by (auto simp: SRAMEX_def pool_with_low_def)
qed

lemma demo_boot_ok: "boot_ok (ee_ok id) (mt_ok id) demo_boot"
  using demo_malloc by (simp add: boot_ok_def demo_boot_def blank_chip_ok demo_running_ok demo_fifo)

lemma demo_reboot_ok: "ee_ok id e \<Longrightarrow> boot_ok (ee_ok id) (mt_ok id) (demo_boot\<lparr>ee := e\<rparr>)"
  using demo_malloc by (simp add: boot_ok_def demo_boot_def demo_running_ok demo_fifo)

lemma demo_boot_cells: "ee_cells id (ee demo_boot) = (\<lambda>_. 0xFF)"
  by (simp add: demo_boot_def blank_chip_ok)

lemma demo_started:
  obtains st where "InitCamParaPacket (AT24CXX_ReadOneByte demo_D) (AT24CXX_WriteOneByte demo_D) demo_boot = Some st"
    "app_inv (ee_ok id) (ee_cells id) (mt_ok id) st" "StartY240 st = 120" "camid (para st) = 1"
    "ee_cells id (ee st) 2 = 1"
  using camera.app.Init_default [OF demo_boot_ok] demo_boot_cells by auto

text \<open>A \<^verbatim>\<open>SET_CAMID\<close> with the new id 7 for a camera with id 1: the cell is 7, the parameter
  still 1.\<close>

definition demo_set_camid :: SendPacket where
  "demo_set_camid = (packet_of_bytes (replicate 76 0))\<lparr>event := SET_CAMID, changeid := 7\<rparr>"

lemma demo_set_camid_stored: "stored_id v demo_set_camid = 7" "event demo_set_camid \<noteq> SET_PARA_RESET"
  by (simp_all add: stored_id_def demo_set_camid_def packet_of_bytes_def packet_events)

theorem packets_keep_params_witness:
  "\<exists>st st'. StartY240 st = 120 \<and> camid (para st) = 1 \<and>
     foldl (\<lambda>s m. Option.bind s (handle_packet (AT24CXX_ReadOneByte demo_D) (AT24CXX_WriteOneByte demo_D)
       (cmos_set_Shutter demo_E) m)) (Some st) [packet_of_bytes (replicate 76 24), demo_set_camid] = Some st' \<and>
     app_inv (ee_ok id) (ee_cells id) (mt_ok id) st' \<and> camid (para st') = 1 \<and> ee_cells id (ee st') 2 = 7"
proof -
  obtain st where st: "app_inv (ee_ok id) (ee_cells id) (mt_ok id) st" "StartY240 st = 120" "camid (para st) = 1"
    by (rule demo_started)
  let ?ms = "[packet_of_bytes (replicate 76 24), demo_set_camid]"
  obtain st' where st': "foldl (\<lambda>s m. Option.bind s (handle_packet (AT24CXX_ReadOneByte demo_D)
       (AT24CXX_WriteOneByte demo_D) (cmos_set_Shutter demo_E) m)) (Some st) ?ms = Some st'"
     "app_inv (ee_ok id) (ee_cells id) (mt_ok id) st'" "camid (para st') = camid (para st)"
     "ee_cells id (ee st') 2 = foldl stored_id (ee_cells id (ee st) 2) ?ms"
    using packets_keep_params [OF acts_as_target [of "at24c02 5000"] demo_cycle acts_as_target settable_fields st(1),
        of ?ms] by blast
  have "ee_cells id (ee st') 2 = 7" using st'(4) by (simp only: foldl_Cons foldl_Nil demo_set_camid_stored)
  then show ?thesis using st(2,3) st'(1-3) by metis
qed

theorem exposure_packet_effect_witness:
  "\<exists>st st'. handle_packet (AT24CXX_ReadOneByte demo_D) (AT24CXX_WriteOneByte demo_D)
       (cmos_set_Shutter demo_E) (packet_of_bytes (replicate 76 5)) st = Some st' \<and>
     mt_reg_file id (cam st') 0x09 = 1285"
proof -
  obtain st where st: "app_inv (ee_ok id) (ee_cells id) (mt_ok id) st" "StartY240 st = 120"
    by (rule demo_started)
  have m: "event (packet_of_bytes (replicate 76 5)) = SET_DETECTPARA"
    "be16 (exposureh (packet_of_bytes (replicate 76 5))) (exposurel (packet_of_bytes (replicate 76 5))) = 1285"
    by (simp_all add: packet_of_bytes_def SET_DETECTPARA_def be16_def)
  show ?thesis
    using exposure_packet_effect [OF acts_as_target [of "at24c02 5000"] demo_cycle acts_as_target settable_fields st(1) m(1)] m(2)
    by auto
qed

theorem InitCamParaPacket_establishes_witness:
  "\<exists>st. InitCamParaPacket (AT24CXX_ReadOneByte demo_D) (AT24CXX_WriteOneByte demo_D) demo_boot = Some st \<and>
     be16 (exposureh (para st)) (exposurel (para st)) = 300"
  using InitCamParaPacket_establishes [OF acts_as_target [of "at24c02 5000"] demo_cycle acts_as_target settable_fields
      demo_boot_ok] demo_boot_cells by auto

theorem params_survive_reboot_witness:
  "\<exists>(st :: (eeprom target bus, mt9p target bus) app) (st2 :: (eeprom target bus, mt9p target bus) app) st'. InitCamParaPacket (AT24CXX_ReadOneByte demo_D) (AT24CXX_WriteOneByte demo_D) st2 = Some st' \<and>
     same_params (para st) (para st') \<and> StartY240 st' = 120 \<and> camid (para st') = 1"
proof -
  obtain st where st: "app_inv (ee_ok id) (ee_cells id) (mt_ok id) st" "StartY240 st = 120"
    "ee_cells id (ee st) 2 = 1" by (rule demo_started)
  have boot: "boot_ok (ee_ok id) (mt_ok id) (demo_boot\<lparr>ee := ee st\<rparr>)"
    using st(1) by (intro demo_reboot_ok) (simp add: app_inv_def)
  have same: "ee_cells id (ee (demo_boot\<lparr>ee := ee st\<rparr>)) = ee_cells id (ee st)" by simp
  show ?thesis
    using params_survive_reboot [OF acts_as_target [of "at24c02 5000"] demo_cycle acts_as_target settable_fields st(1) boot same]
      st(2,3) by metis
qed

theorem status_not_stored_witness:
  "\<exists>st1. InitCamParaPacket (AT24CXX_ReadOneByte demo_D) (AT24CXX_WriteOneByte demo_D) demo_boot = Some st1 \<and>
     status (para st1) = 0 \<and>
     (\<exists>(st2 :: (eeprom target bus, mt9p target bus) app) st3. ee st2 = ee st1 \<and>
        InitCamParaPacket (AT24CXX_ReadOneByte demo_D) (AT24CXX_WriteOneByte demo_D) st2 = Some st3 \<and>
        status (para st3) = 0xFF)"
proof -
  obtain st1 where st1: "InitCamParaPacket (AT24CXX_ReadOneByte demo_D) (AT24CXX_WriteOneByte demo_D) demo_boot = Some st1"
    "status (para st1) = 0"
    "\<forall>st2. boot_ok (ee_ok id) (mt_ok id) st2 \<and> ee_cells id (ee st2) = ee_cells id (ee st1) \<longrightarrow>
        (\<exists>st3. InitCamParaPacket (AT24CXX_ReadOneByte demo_D) (AT24CXX_WriteOneByte demo_D) st2 = Some st3 \<and>
           status (para st3) = ee_cells id (ee demo_boot) 4)"
    using status_not_stored [OF acts_as_target [of "at24c02 5000"] demo_cycle acts_as_target settable_fields demo_boot_ok]
      demo_boot_cells by auto
  have "ee_ok id (ee st1)"
    using st1(1) demo_started by (metis app_inv_def option.inject)
  then have "boot_ok (ee_ok id) (mt_ok id) (demo_boot\<lparr>ee := ee st1\<rparr>)"
    by (rule demo_reboot_ok)
  moreover have "ee (demo_boot\<lparr>ee := ee st1\<rparr>) = ee st1" by simp
  ultimately show ?thesis using st1 demo_boot_cells by metis
qed

theorem GET_CAMINFO_sets_StartY240_witness:
  "\<exists>st st'. StartY240 st = 120 \<and> StartY240 st' = 23 \<and>
    handle_packet (AT24CXX_ReadOneByte demo_D) (AT24CXX_WriteOneByte demo_D)
       (cmos_set_Shutter demo_E) (packet_of_bytes (replicate 76 23)) st = Some st'"
proof -
  obtain st where st: "app_inv (ee_ok id) (ee_cells id) (mt_ok id) st" "StartY240 st = 120"
    by (rule demo_started)
  let ?m = "packet_of_bytes (replicate 76 23)"
  obtain st' where st': "handle_packet (AT24CXX_ReadOneByte demo_D) (AT24CXX_WriteOneByte demo_D)
       (cmos_set_Shutter demo_E) ?m st = Some st'"
    using camera.app.handle_packet_inv [OF st(1)] by blast
  have m: "event ?m = GET_CAMINFO" "data1 ?m = 23" by (simp_all add: packet_of_bytes_def GET_CAMINFO_def)
  show ?thesis using GET_CAMINFO_sets_StartY240 [OF m(1) _ st'] m(2) st(2) st' by auto
qed

lemma demo_boot_fields:
  "fifo_wf (recvq demo_boot)" "fifo_contents (recvq demo_boot) = []"
  "length (netrecv_line demo_boot) = 76" "udp_flag demo_boot = 1" "msg_netrecvok demo_boot = 0"
  by (simp_all add: demo_boot_def demo_fifo)

theorem recv_pbuf_effect_witness:
  "\<exists>st'. recv_pbuf (replicate 100 0) (demo_boot\<lparr>netrecv_line := [0xAA, 0xAC] @ replicate 74 1\<rparr>) = Some st' \<and>
     fifo_contents (recvq st') = [[0xAA, 0xAC] @ replicate 74 1]"
proof -
  let ?st = "demo_boot\<lparr>netrecv_line := [0xAA, 0xAC] @ replicate 74 1\<rparr>"
  have "fifo_wf (recvq ?st)" "length (netrecv_line ?st) = 76" "length (fifo_contents (recvq ?st)) < 59"
    using demo_boot_fields by (simp_all del: length_fifo_contents)
  from recv_pbuf_effect [OF this, of "replicate 100 0"] demo_boot_fields(2) show ?thesis by auto
qed

theorem packet_reaches_handler_witness:
  "\<exists>st1. recv_pbuf (packet_bytes ((packet_of_bytes (replicate 76 0))\<lparr>head1 := 0xAA, head2 := 0xAC\<rparr>)) demo_boot
     = Some st1"
proof -
  let ?m = "(packet_of_bytes (replicate 76 0))\<lparr>head1 := 0xAA, head2 := 0xAC\<rparr>"
  have "packet_wf ?m" "head1 ?m = 0xAA" "head2 ?m = 0xAC"
    using packet_of_bytes_wf [of "replicate 76 0"] by (simp_all add: packet_wf_def)
  from packet_reaches_handler [OF demo_boot_fields(1,3,2,4,5) this] show ?thesis by blast
qed

end
