(* ===== verification/Lwip_Udp.thy ===== *)
theory Lwip_Udp
  imports Prelude
begin

text \<open>
  The way a datagram takes through lwIP when a task of the camera calls \<^verbatim>\<open>netconn_send\<close>:
  \<^verbatim>\<open>netbuf.c\<close>, \<^verbatim>\<open>pbuf.c\<close>, \<^verbatim>\<open>api_lib.c\<close>, \<^verbatim>\<open>api_msg.c\<close>, \<^verbatim>\<open>udp.c\<close>, \<^verbatim>\<open>ip.c\<close> and \<^verbatim>\<open>etharp.c\<close> with
  the options of \<^verbatim>\<open>lwipopts.h\<close> (no checksum in software, no IP options, no loopback, no padding).
  Every layer puts its header in front of the payload by moving the payload pointer of the
  \<^verbatim>\<open>pbuf\<close> down, so the \<^verbatim>\<open>pbuf\<close> the caller holds is changed by the call.  The heap of lwIP, its
  ARP table and the Ethernet driver are the record \<^verbatim>\<open>lwip\<close> of parameters.
\<close>

section \<open>Results and sizes\<close>

definition ERR_OK :: int where "ERR_OK = 0"
definition ERR_MEM :: int where "ERR_MEM = - 1"
definition ERR_BUF :: int where "ERR_BUF = - 2"
definition ERR_RTE :: int where "ERR_RTE = - 4"
definition ERR_VAL :: int where "ERR_VAL = - 6"
definition ERR_ISCONN :: int where "ERR_ISCONN = - 9"
definition ERR_ABRT :: int where "ERR_ABRT = - 10"
definition ERR_RST :: int where "ERR_RST = - 11"
definition ERR_CLSD :: int where "ERR_CLSD = - 12"
definition ERR_CONN :: int where "ERR_CONN = - 13"

definition ERR_IS_FATAL :: "int \<Rightarrow> bool" where
  "ERR_IS_FATAL e \<longleftrightarrow> e < ERR_ISCONN"

definition PBUF_LINK_HLEN :: nat where "PBUF_LINK_HLEN = 14"
definition PBUF_IP_HLEN :: nat where "PBUF_IP_HLEN = 20"
definition PBUF_TRANSPORT_HLEN :: nat where "PBUF_TRANSPORT_HLEN = 20"
definition SIZEOF_STRUCT_PBUF :: nat where "SIZEOF_STRUCT_PBUF = 16"
definition UDP_HLEN :: nat where "UDP_HLEN = 8"
definition IP_HLEN :: nat where "IP_HLEN = 20"
definition SIZEOF_ETH_HDR :: nat where "SIZEOF_ETH_HDR = 14"

definition LWIP_MEM_ALIGN_SIZE :: "nat \<Rightarrow> nat" where
  "LWIP_MEM_ALIGN_SIZE n = (n + 3) div 4 * 4"

section \<open>Packet buffers\<close>

text \<open>A \<^verbatim>\<open>pbuf\<close> of type \<^verbatim>\<open>PBUF_RAM\<close>: the bytes of its block behind the structure itself,
  the place of \<^verbatim>\<open>payload\<close> in them and the two lengths.  A packet is the list of its chain.\<close>

record pbuf =
  pb_mem :: "u8 list"
  pb_payload :: nat
  pb_len :: u16
  pb_tot_len :: u16

definition pbuf_data :: "pbuf \<Rightarrow> u8 list" where
  "pbuf_data p = take (unat (pb_len p)) (drop (pb_payload p) (pb_mem p))"

text \<open>Bytes written at the payload pointer.\<close>

definition poke :: "u8 list \<Rightarrow> pbuf \<Rightarrow> pbuf" where
  "poke bs p = p\<lparr>pb_mem := take (pb_payload p) (pb_mem p) @ bs @
                            drop (pb_payload p + length bs) (pb_mem p)\<rparr>"

text \<open>A copy of the caller into the payload; \<^verbatim>\<open>None\<close> when it runs past the block.\<close>

definition payload_copy :: "u8 list \<Rightarrow> pbuf \<Rightarrow> pbuf option" where
  "payload_copy bs p = (if pb_payload p + length bs \<le> length (pb_mem p) then Some (poke bs p) else None)"

text \<open>\<^verbatim>\<open>pbuf_header\<close>: not zero when there is no room.\<close>

definition pbuf_header :: "pbuf \<Rightarrow> int \<Rightarrow> u8 \<times> pbuf" where
  "pbuf_header p inc =
     (if inc = 0 then (0, p)
      else if inc < 0 \<and> \<not> - inc \<le> uint (pb_len p) then (1, p)
      else if int (pb_payload p) - inc < 0 then (1, p)
      else (0, p\<lparr>pb_payload := nat (int (pb_payload p) - inc),
                 pb_len := pb_len p + of_int inc, pb_tot_len := pb_tot_len p + of_int inc\<rparr>))"

definition pbuf_chain :: "pbuf \<Rightarrow> pbuf list \<Rightarrow> pbuf list" where
  "pbuf_chain h t = h\<lparr>pb_tot_len := pb_tot_len h + pb_tot_len (hd t)\<rparr> # t"

section \<open>Connection, interface and the parts below\<close>

record udp_pcb =
  local_ip :: u32
  local_port :: u16
  remote_ip :: u32
  remote_port :: u16
  pcb_ttl :: u8
  pcb_tos :: u8

record netif =
  if_ip_addr :: u32
  if_netmask :: u32
  if_gw :: u32
  if_hwaddr :: "u8 list"
  if_mtu :: u16
  if_up :: bool
  if_broadcast :: bool
  if_etharp :: bool

text \<open>\<^verbatim>\<open>mem_malloc\<close> gives the bytes of the block, \<^verbatim>\<open>arp_stable\<close> the address of a stable entry,
  \<^verbatim>\<open>etharp_query\<close> takes a frame without an entry and \<^verbatim>\<open>linkoutput\<close> sends a frame.\<close>

record 'n lwip =
  mem_malloc :: "nat \<Rightarrow> 'n \<Rightarrow> u8 list option \<times> 'n"
  mem_free :: "pbuf \<Rightarrow> 'n \<Rightarrow> 'n"
  memp_netbuf :: "'n \<Rightarrow> bool \<times> 'n"
  memp_free_netbuf :: "'n \<Rightarrow> 'n"
  udp_bind_any :: "udp_pcb \<Rightarrow> 'n \<Rightarrow> int \<times> udp_pcb \<times> 'n"
  ip_frag :: "pbuf list \<Rightarrow> u32 \<Rightarrow> 'n \<Rightarrow> int \<times> pbuf list \<times> 'n"
  arp_stable :: "u32 \<Rightarrow> 'n \<Rightarrow> u8 list option \<times> 'n"
  etharp_query :: "u32 \<Rightarrow> u8 list \<Rightarrow> 'n \<Rightarrow> int \<times> 'n"
  linkoutput :: "u8 list \<Rightarrow> 'n \<Rightarrow> int \<times> 'n"

record 'n netconn =
  last_err :: int
  udp_of :: "udp_pcb option"
  ip_id :: u16
  below :: 'n

text \<open>The cases \<^verbatim>\<open>PBUF_RAM\<close> of \<^verbatim>\<open>pbuf_alloc\<close>; \<^verbatim>\<open>offset\<close> is the room for the headers of the layer.  The size is cut
  to the 16 bits of \<^verbatim>\<open>mem_size_t\<close>.\<close>

definition pbuf_alloc_ram :: "'n lwip \<Rightarrow> nat \<Rightarrow> u16 \<Rightarrow> 'n \<Rightarrow> pbuf option \<times> 'n" where
  "pbuf_alloc_ram L offset sz n =
     (case mem_malloc L (unat (of_nat (LWIP_MEM_ALIGN_SIZE (SIZEOF_STRUCT_PBUF + offset) + LWIP_MEM_ALIGN_SIZE (unat sz)) :: u16)) n of
        (None, n') \<Rightarrow> (None, n')
      | (Some bs, n') \<Rightarrow>
          (Some \<lparr>pb_mem = drop SIZEOF_STRUCT_PBUF bs,
                 pb_payload = LWIP_MEM_ALIGN_SIZE (SIZEOF_STRUCT_PBUF + offset) - SIZEOF_STRUCT_PBUF,
                 pb_len = sz, pb_tot_len = sz\<rparr>, n'))"

definition PBUF_TRANSPORT :: nat where
  "PBUF_TRANSPORT = PBUF_LINK_HLEN + PBUF_IP_HLEN + PBUF_TRANSPORT_HLEN"

definition PBUF_IP :: nat where
  "PBUF_IP = PBUF_LINK_HLEN + PBUF_IP_HLEN"

section \<open>Link and network layer\<close>

definition be_bytes :: "u16 \<Rightarrow> u8 list" where
  "be_bytes w = [hi8 w, lo8 w]"

text \<open>An address is kept in network order: its bytes in memory are those of the word, low
  byte first.\<close>

definition ip_bytes :: "u32 \<Rightarrow> u8 list" where
  "ip_bytes a = [ucast a, ucast (drop_bit 8 a), ucast (drop_bit 16 a), ucast (drop_bit 24 a)]"

definition ip_addr_netcmp :: "u32 \<Rightarrow> u32 \<Rightarrow> u32 \<Rightarrow> bool" where
  "ip_addr_netcmp a b m \<longleftrightarrow> a AND m = b AND m"

definition ip_addr_ismulticast :: "u32 \<Rightarrow> bool" where
  "ip_addr_ismulticast a \<longleftrightarrow> a AND 0x000000F0 = 0x000000E0"

definition ip_addr_islinklocal :: "u32 \<Rightarrow> bool" where
  "ip_addr_islinklocal a \<longleftrightarrow> a AND 0x0000FFFF = 0x0000FEA9"

definition ip4_addr_isbroadcast :: "u32 \<Rightarrow> netif \<Rightarrow> bool" where
  "ip4_addr_isbroadcast addr nif =
     (if NOT addr = 0 \<or> addr = 0 then True
      else if \<not> if_broadcast nif then False
      else if addr = if_ip_addr nif then False
      else ip_addr_netcmp addr (if_ip_addr nif) (if_netmask nif) \<and>
           addr AND NOT (if_netmask nif) = 0xFFFFFFFF AND NOT (if_netmask nif))"

definition etharp_send_ip :: "'n lwip \<Rightarrow> pbuf list \<Rightarrow> u8 list \<Rightarrow> u8 list \<Rightarrow> 'n \<Rightarrow> int \<times> pbuf list \<times> 'n" where
  "etharp_send_ip L q src dst n =
     (let q' = poke (dst @ src @ be_bytes 0x0800) (hd q) # tl q;
          (e, n') = linkoutput L (concat (map pbuf_data q')) n
      in (e, q', n'))"

definition etharp_output :: "'n lwip \<Rightarrow> netif \<Rightarrow> pbuf list \<Rightarrow> u32 \<Rightarrow> 'n \<Rightarrow> int \<times> pbuf list \<times> 'n" where
  "etharp_output L nif q ipaddr n =
     (case pbuf_header (hd q) (int SIZEOF_ETH_HDR) of (r, h) \<Rightarrow>
        if r \<noteq> 0 then (ERR_BUF, h # tl q, n)
        else (let q = h # tl q in
          if ip4_addr_isbroadcast ipaddr nif then
            etharp_send_ip L q (if_hwaddr nif) (replicate 6 0xFF) n
          else if ip_addr_ismulticast ipaddr then
            etharp_send_ip L q (if_hwaddr nif)
              [0x01, 0x00, 0x5E, ip_bytes ipaddr ! 1 AND 0x7F, ip_bytes ipaddr ! 2, ip_bytes ipaddr ! 3] n
          else if \<not> ip_addr_netcmp ipaddr (if_ip_addr nif) (if_netmask nif) \<and>
                  \<not> ip_addr_islinklocal ipaddr \<and> if_gw nif = 0 then (ERR_RTE, q, n)
          else (let dst_addr = (if \<not> ip_addr_netcmp ipaddr (if_ip_addr nif) (if_netmask nif) \<and>
                                   \<not> ip_addr_islinklocal ipaddr then if_gw nif else ipaddr)
                in case arp_stable L dst_addr n of
                     (Some mac, n') \<Rightarrow> etharp_send_ip L q (if_hwaddr nif) mac n'
                   | (None, n') \<Rightarrow>
                       (case etharp_query L dst_addr (concat (map pbuf_data q)) n' of
                          (e, n'') \<Rightarrow> (e, q, n'')))))"

definition ip_header :: "u16 \<Rightarrow> u16 \<Rightarrow> u8 \<Rightarrow> u8 \<Rightarrow> u8 \<Rightarrow> u32 \<Rightarrow> u32 \<Rightarrow> u8 list" where
  "ip_header sz ident tos ttl proto src dest =
     [0x45, tos] @ be_bytes sz @ be_bytes ident @ [0, 0, ttl, proto, 0, 0] @ ip_bytes src @ ip_bytes dest"

definition ip_output_if :: "'n lwip \<Rightarrow> netif \<Rightarrow> pbuf list \<Rightarrow> u32 \<Rightarrow> u32 \<Rightarrow> u8 \<Rightarrow> u8 \<Rightarrow> u8 \<Rightarrow>
    'n netconn \<Rightarrow> int \<times> pbuf list \<times> 'n netconn" where
  "ip_output_if L nif q src dest ttl tos proto c =
     (case pbuf_header (hd q) (int IP_HLEN) of (r, h) \<Rightarrow>
        if r \<noteq> 0 then (ERR_BUF, h # tl q, c)
        else (let h = poke (ip_header (pb_tot_len h) (ip_id c) tos ttl proto
                             (if src = 0 then if_ip_addr nif else src) dest) h;
                  c = c\<lparr>ip_id := ip_id c + 1\<rparr>
              in if if_mtu nif \<noteq> 0 \<and> if_mtu nif < pb_tot_len h
                 then (case ip_frag L (h # tl q) dest (below c) of
                         (e, q', n) \<Rightarrow> (e, q', c\<lparr>below := n\<rparr>))
                 else (case etharp_output L nif (h # tl q) dest (below c) of
                         (e, q', n) \<Rightarrow> (e, q', c\<lparr>below := n\<rparr>))))"

definition ip_route :: "netif \<Rightarrow> u32 \<Rightarrow> netif option" where
  "ip_route nif dest =
     (if if_up nif \<and> ip_addr_netcmp dest (if_ip_addr nif) (if_netmask nif) then Some nif
      else if \<not> if_up nif then None
      else Some nif)"

section \<open>UDP\<close>

definition IP_PROTO_UDP :: u8 where "IP_PROTO_UDP = 17"

definition udp_header :: "u16 \<Rightarrow> u16 \<Rightarrow> u8 list \<Rightarrow> u8 list" where
  "udp_header src dst len_bytes = be_bytes src @ be_bytes dst @ len_bytes @ [0, 0]"

text \<open>The second part of \<^verbatim>\<open>udp_sendto_if\<close>, from the header on; \<^verbatim>\<open>q\<close> is the chain to send.\<close>

definition udp_fill_send :: "'n lwip \<Rightarrow> netif \<Rightarrow> udp_pcb \<Rightarrow> pbuf list \<Rightarrow> u32 \<Rightarrow> u16 \<Rightarrow> 'n netconn \<Rightarrow>
    int \<times> pbuf list \<times> 'n netconn" where
  "udp_fill_send L nif pcb q dst_ip dst_port c =
     (let hdr = udp_header (local_port pcb) dst_port
      in if local_ip pcb \<noteq> 0 \<and> local_ip pcb \<noteq> if_ip_addr nif
         then (ERR_VAL, poke (hdr (take 2 (drop 4 (pbuf_data (hd q))))) (hd q) # tl q, c)
         else ip_output_if L nif (poke (hdr (be_bytes (pb_tot_len (hd q)))) (hd q) # tl q)
                (if local_ip pcb = 0 then if_ip_addr nif else local_ip pcb)
                dst_ip (pcb_ttl pcb) (pcb_tos pcb) IP_PROTO_UDP c)"

text \<open>The caller's \<^verbatim>\<open>pbuf\<close> is given back as the call leaves it.\<close>

definition udp_sendto_if :: "'n lwip \<Rightarrow> netif \<Rightarrow> udp_pcb \<Rightarrow> pbuf \<Rightarrow> u32 \<Rightarrow> u16 \<Rightarrow> 'n netconn \<Rightarrow>
    int \<times> pbuf \<times> 'n netconn" where
  "udp_sendto_if L nif pcb0 p dst_ip dst_port c0 =
     (case (if local_port pcb0 = 0
            then (case udp_bind_any L pcb0 (below c0) of
                    (e, pcb, n) \<Rightarrow> (e, pcb, c0\<lparr>udp_of := Some pcb, below := n\<rparr>))
            else (ERR_OK, pcb0, c0)) of
        (e, pcb, c) \<Rightarrow>
          if e \<noteq> ERR_OK then (e, p, c)
          else (case pbuf_header p (int UDP_HLEN) of (r, p1) \<Rightarrow>
            if r = 0
            then (case udp_fill_send L nif pcb [p1] dst_ip dst_port c of
                    (e, q, c) \<Rightarrow> (e, hd q, c))
            else (case pbuf_alloc_ram L PBUF_IP (of_nat UDP_HLEN) (below c) of
                    (None, n) \<Rightarrow> (ERR_MEM, p, c\<lparr>below := n\<rparr>)
                  | (Some h, n) \<Rightarrow>
                      (case udp_fill_send L nif pcb
                              (if pb_tot_len p \<noteq> 0 then pbuf_chain h [p] else [h])
                              dst_ip dst_port (c\<lparr>below := n\<rparr>) of
                         (e, q, c) \<Rightarrow>
                           (e, (if 1 < length q then q ! 1 else p),
                            c\<lparr>below := mem_free L (hd q) (below c)\<rparr>)))))"

definition udp_send :: "'n lwip \<Rightarrow> netif \<Rightarrow> udp_pcb \<Rightarrow> pbuf \<Rightarrow> 'n netconn \<Rightarrow> int \<times> pbuf \<times> 'n netconn" where
  "udp_send L nif pcb p c =
     (case ip_route nif (remote_ip pcb) of
        None \<Rightarrow> (ERR_RTE, p, c)
      | Some nif \<Rightarrow> udp_sendto_if L nif pcb p (remote_ip pcb) (remote_port pcb) c)"

section \<open>The sequential API\<close>

text \<open>\<^verbatim>\<open>do_send\<close> for a connection of type UDP and a \<^verbatim>\<open>netbuf\<close> without an address of its own.\<close>

definition do_send :: "'n lwip \<Rightarrow> netif \<Rightarrow> pbuf \<Rightarrow> 'n netconn \<Rightarrow> int \<times> pbuf \<times> 'n netconn" where
  "do_send L nif p c =
     (if ERR_IS_FATAL (last_err c) then (last_err c, p, c)
      else case udp_of c of
             None \<Rightarrow> (ERR_CONN, p, c)
           | Some pcb \<Rightarrow> udp_send L nif pcb p c)"

definition netconn_send :: "'n lwip \<Rightarrow> netif \<Rightarrow> pbuf \<Rightarrow> 'n netconn \<Rightarrow> int \<times> pbuf \<times> 'n netconn" where
  "netconn_send L nif p c =
     (case do_send L nif p c of
        (e, p', c') \<Rightarrow> (e, p', if ERR_IS_FATAL (last_err c') then c' else c'\<lparr>last_err := e\<rparr>))"

text \<open>\<^verbatim>\<open>netbuf_new\<close> followed by \<^verbatim>\<open>netbuf_alloc\<close>, as every caller has them; \<^verbatim>\<open>None\<close> when either finds
  no memory (the callers dereference the pointer all the same).\<close>

definition netbuf_new_alloc :: "'n lwip \<Rightarrow> u16 \<Rightarrow> 'n netconn \<Rightarrow> (pbuf \<times> 'n netconn) option" where
  "netbuf_new_alloc L sz c =
     (case memp_netbuf L (below c) of
        (False, n) \<Rightarrow> None
      | (True, n) \<Rightarrow>
          (case pbuf_alloc_ram L PBUF_TRANSPORT sz n of
             (None, n') \<Rightarrow> None
           | (Some p, n') \<Rightarrow> Some (p, c\<lparr>below := n'\<rparr>)))"

definition netbuf_delete :: "'n lwip \<Rightarrow> pbuf \<Rightarrow> 'n netconn \<Rightarrow> 'n netconn" where
  "netbuf_delete L p c = c\<lparr>below := memp_free_netbuf L (mem_free L p (below c))\<rparr>"

section \<open>A header in front of the payload\<close>

definition pb_wf :: "pbuf \<Rightarrow> bool" where
  "pb_wf p \<longleftrightarrow> pb_payload p + unat (pb_len p) \<le> length (pb_mem p)"

lemma pbuf_header_no_room:
  "pb_payload p < k \<Longrightarrow> pbuf_header p (int k) = (1, p)"
  by (simp add: pbuf_header_def)

lemma pbuf_header_room:
  assumes "0 < k" "k \<le> pb_payload p"
  shows "pbuf_header p (int k) = (0, p\<lparr>pb_payload := pb_payload p - k,
     pb_len := pb_len p + of_nat k, pb_tot_len := pb_tot_len p + of_nat k\<rparr>)"
proof -
  have "nat (int (pb_payload p) - int k) = pb_payload p - k" using assms by simp
  then show ?thesis using assms by (simp add: pbuf_header_def)
qed

lemma unat_len_plus:
  fixes w :: u16
  shows "unat w + k < 65536 \<Longrightarrow> unat (w + of_nat k) = unat w + k"
  by (subst unat_add_no_wrap) (simp_all add: unat_of_nat)

text \<open>The effect of \<^verbatim>\<open>pbuf_header\<close> and the writing of the header together.\<close>

definition push :: "u8 list \<Rightarrow> pbuf \<Rightarrow> pbuf" where
  "push bs p = poke bs (p\<lparr>pb_payload := pb_payload p - length bs,
     pb_len := pb_len p + of_nat (length bs), pb_tot_len := pb_tot_len p + of_nat (length bs)\<rparr>)"

lemma push_fields:
  "pb_payload (push bs p) = pb_payload p - length bs"
  "pb_len (push bs p) = pb_len p + of_nat (length bs)"
  "pb_tot_len (push bs p) = pb_tot_len p + of_nat (length bs)"
  by (simp_all add: push_def poke_def)

lemma push_mem:
  assumes "length bs \<le> pb_payload p" "pb_payload p \<le> length (pb_mem p)"
  shows "length (pb_mem (push bs p)) = length (pb_mem p)"
    "drop (pb_payload p) (pb_mem (push bs p)) = drop (pb_payload p) (pb_mem p)"
  using assms by (simp_all add: push_def poke_def)

lemma push_data:
  assumes "length bs \<le> pb_payload p" "pb_wf p" "unat (pb_len p) + length bs < 65536"
  shows "pbuf_data (push bs p) = bs @ pbuf_data p"
  using assms unat_len_plus [of "pb_len p" "length bs"]
  by (simp add: push_def poke_def pbuf_data_def pb_wf_def)

lemma push_wf:
  assumes "length bs \<le> pb_payload p" "pb_wf p" "unat (pb_len p) + length bs < 65536"
  shows "pb_wf (push bs p)"
  using assms unat_len_plus [of "pb_len p" "length bs"] push_mem(1) [of bs p]
  by (simp add: pb_wf_def push_fields)

lemma poke_header:
  assumes "0 < k" "k \<le> pb_payload p" "length bs = k"
  shows "\<exists>p1. pbuf_header p (int k) = (0, p1) \<and> poke bs p1 = push bs p \<and>
     pb_tot_len p1 = pb_tot_len p + of_nat k"
  using assms by (simp add: pbuf_header_room push_def)

section \<open>An interface on which frames go out\<close>

text \<open>What a sender relies on: \<^verbatim>\<open>up b j n\<close> says that in the state \<^verbatim>\<open>n\<close> of the parts below the sender
  holds \<^verbatim>\<open>b\<close> blocks of the heap and \<^verbatim>\<open>j\<close> buffers of the pool, and that they still have what a send takes
  beyond that (two blocks of up to 1600 bytes, one buffer), that ARP has the peer's address and that
  the driver takes frames.  Nothing is asked of a state that is not \<^verbatim>\<open>up\<close>: there the heap, the pool and ARP may
  refuse.  Blocks are given back in the order opposite to the one they were taken in.\<close>

definition link_ok :: "'n lwip \<Rightarrow> netif \<Rightarrow> udp_pcb \<Rightarrow> ('n \<Rightarrow> u8 list list) \<Rightarrow> (nat \<Rightarrow> nat \<Rightarrow> 'n \<Rightarrow> bool) \<Rightarrow> bool" where
  "link_ok L nif pcb frames up \<longleftrightarrow>
     if_up nif \<and> if_mtu nif = 1500 \<and> length (if_hwaddr nif) = 6 \<and>
     local_port pcb \<noteq> 0 \<and> (local_ip pcb = 0 \<or> local_ip pcb = if_ip_addr nif) \<and>
     \<not> ip4_addr_isbroadcast (remote_ip pcb) nif \<and> \<not> ip_addr_ismulticast (remote_ip pcb) \<and>
     ip_addr_netcmp (remote_ip pcb) (if_ip_addr nif) (if_netmask nif) \<and>
     (\<forall>b j k n. b < 2 \<longrightarrow> 0 < k \<longrightarrow> k \<le> 1600 \<longrightarrow> up b j n \<longrightarrow>
        (\<exists>bs n'. mem_malloc L k n = (Some bs, n') \<and> length bs = k \<and> frames n' = frames n \<and> up (Suc b) j n')) \<and>
     (\<forall>b j p n. up (Suc b) j n \<longrightarrow> frames (mem_free L p n) = frames n \<and> up b j (mem_free L p n)) \<and>
     (\<forall>b n. up b 0 n \<longrightarrow> (\<exists>n'. memp_netbuf L n = (True, n') \<and> frames n' = frames n \<and> up b 1 n')) \<and>
     (\<forall>b n. up b 1 n \<longrightarrow> frames (memp_free_netbuf L n) = frames n \<and> up b 0 (memp_free_netbuf L n)) \<and>
     (\<forall>b j n. up b j n \<longrightarrow> (\<exists>mac n'. arp_stable L (remote_ip pcb) n = (Some mac, n') \<and> length mac = 6 \<and>
        frames n' = frames n \<and> up b j n')) \<and>
     (\<forall>b j f n. up b j n \<longrightarrow> (\<exists>n'. linkoutput L f n = (ERR_OK, n') \<and> frames n' = frames n @ [f] \<and> up b j n'))"

lemma link_nif:
  assumes "link_ok L nif pcb frames up"
  shows "if_up nif" "if_mtu nif = 1500" "length (if_hwaddr nif) = 6" "local_port pcb \<noteq> 0"
    "local_ip pcb = 0 \<or> local_ip pcb = if_ip_addr nif"
    "\<not> ip4_addr_isbroadcast (remote_ip pcb) nif" "\<not> ip_addr_ismulticast (remote_ip pcb)"
    "ip_addr_netcmp (remote_ip pcb) (if_ip_addr nif) (if_netmask nif)"
  using assms by (simp_all add: link_ok_def)

lemma link_malloc:
  assumes "link_ok L nif pcb frames up" "up b j n" "b < 2" "0 < k" "k \<le> 1600"
  shows "\<exists>bs n'. mem_malloc L k n = (Some bs, n') \<and> length bs = k \<and> frames n' = frames n \<and> up (Suc b) j n'"
  using assms unfolding link_ok_def by blast

lemma link_free:
  assumes "link_ok L nif pcb frames up" "up (Suc b) j n"
  shows "frames (mem_free L p n) = frames n" "up b j (mem_free L p n)"
  using assms unfolding link_ok_def by blast+

lemma link_netbuf:
  assumes "link_ok L nif pcb frames up"
  shows "up b 0 n \<Longrightarrow> \<exists>n'. memp_netbuf L n = (True, n') \<and> frames n' = frames n \<and> up b 1 n'"
    "up b 1 n \<Longrightarrow> frames (memp_free_netbuf L n) = frames n \<and> up b 0 (memp_free_netbuf L n)"
  using assms unfolding link_ok_def by blast+

lemma link_send:
  assumes "link_ok L nif pcb frames up" "up b j n"
  shows "\<exists>mac n'. arp_stable L (remote_ip pcb) n = (Some mac, n') \<and> length mac = 6 \<and> frames n' = frames n \<and> up b j n'"
    "\<exists>n'. linkoutput L f n = (ERR_OK, n') \<and> frames n' = frames n @ [f] \<and> up b j n'"
  using assms unfolding link_ok_def by blast+

text \<open>The frame of a datagram: the Ethernet header with the next hop's address, an IP header without
  options, the UDP header and the bytes.\<close>

definition eth_header :: "netif \<Rightarrow> u8 list \<Rightarrow> u8 list" where
  "eth_header nif mac = mac @ if_hwaddr nif @ be_bytes 0x0800"

definition udp_frame :: "netif \<Rightarrow> udp_pcb \<Rightarrow> u8 list \<Rightarrow> u16 \<Rightarrow> u8 list \<Rightarrow> u8 list" where
  "udp_frame nif pcb mac ident d =
     eth_header nif mac @
     ip_header (of_nat (length d) + 28) ident (pcb_tos pcb) (pcb_ttl pcb) IP_PROTO_UDP (if_ip_addr nif) (remote_ip pcb) @
     udp_header (local_port pcb) (remote_port pcb) (be_bytes (of_nat (length d) + 8)) @ d"

definition carries :: "netif \<Rightarrow> udp_pcb \<Rightarrow> u8 list \<Rightarrow> u8 list \<Rightarrow> bool" where
  "carries nif pcb f d \<longleftrightarrow> (\<exists>mac ident. length mac = 6 \<and> f = udp_frame nif pcb mac ident d)"

lemma length_eth_header: "link_ok L nif pcb frames up \<Longrightarrow> length mac = 6 \<Longrightarrow> length (eth_header nif mac) = 14"
  by (simp add: link_nif(3) eth_header_def be_bytes_def)

lemma etharp_output_ok:
  assumes L: "link_ok L nif pcb frames up" and room: "14 \<le> pb_payload h"
    and wf: "pb_wf h" "unat (pb_len h) + 14 < 65536" and n: "up b j n"
  shows "\<exists>mac n'. length mac = 6 \<and>
     etharp_output L nif (h # t) (remote_ip pcb) n = (ERR_OK, push (eth_header nif mac) h # t, n') \<and>
     frames n' = frames n @ [eth_header nif mac @ pbuf_data h @ concat (map pbuf_data t)] \<and> up b j n'"
proof -
  obtain mac n1 where a: "arp_stable L (remote_ip pcb) n = (Some mac, n1)" "length mac = 6" "frames n1 = frames n" "up b j n1"
    using link_send(1) [OF L n] by blast
  let ?e = "eth_header nif mac"
  have len: "length ?e = 14" using L a(2) by (rule length_eth_header)
  obtain p1 where p1: "pbuf_header h (int 14) = (0, p1)" "poke ?e p1 = push ?e h"
    using poke_header [of 14 h ?e] room len by auto
  let ?f = "?e @ pbuf_data h @ concat (map pbuf_data t)"
  obtain n2 where n2: "linkoutput L ?f n1 = (ERR_OK, n2)" "frames n2 = frames n1 @ [?f]" "up b j n2"
    using link_send(2) [OF L a(4)] by blast
  have "pbuf_data (push ?e h) = ?e @ pbuf_data h"
    using push_data [of ?e h] room wf len by simp
  then have "etharp_send_ip L (p1 # t) (if_hwaddr nif) mac n1 = (ERR_OK, push ?e h # t, n2)"
    using p1(2) n2(1) by (simp add: etharp_send_ip_def eth_header_def)
  then have "etharp_output L nif (h # t) (remote_ip pcb) n = (ERR_OK, push ?e h # t, n2)"
    using link_nif(6-8) [OF L] a(1) p1(1) by (simp add: etharp_output_def SIZEOF_ETH_HDR_def)
  then show ?thesis using a(2,3) n2(2,3) by (intro exI [where x = mac] exI [where x = n2]) simp
qed

lemma length_ip_header: "length (ip_header sz i tos ttl proto src dest) = 20"
  by (simp add: ip_header_def be_bytes_def ip_bytes_def)

lemma ip_output_if_ok:
  assumes L: "link_ok L nif pcb frames up" and room: "34 \<le> pb_payload h"
    and wf: "pb_wf h" "unat (pb_len h) + 34 < 65536" "unat (pb_tot_len h) + 20 \<le> 1500" and n: "up b j (below c)"
  shows "\<exists>mac i c'. length mac = 6 \<and>
     i = ip_header (pb_tot_len h + 20) (ip_id c) tos ttl proto (if src = 0 then if_ip_addr nif else src) (remote_ip pcb) \<and>
     ip_output_if L nif (h # t) src (remote_ip pcb) ttl tos proto c =
       (ERR_OK, push (eth_header nif mac) (push i h) # t, c') \<and>
     last_err c' = last_err c \<and> udp_of c' = udp_of c \<and>
     frames (below c') = frames (below c) @ [eth_header nif mac @ i @ pbuf_data h @ concat (map pbuf_data t)] \<and> up b j (below c')"
proof -
  let ?i = "ip_header (pb_tot_len h + 20) (ip_id c) tos ttl proto (if src = 0 then if_ip_addr nif else src) (remote_ip pcb)"
  let ?h = "push ?i h"
  have r: "length ?i \<le> pb_payload h" "unat (pb_len h) + length ?i < 65536" using room wf by (simp_all add: length_ip_header)
  obtain p1 where p1: "pbuf_header h (int 20) = (0, p1)" "poke ?i p1 = ?h" "pb_tot_len p1 = pb_tot_len h + 20"
    using poke_header [of 20 h ?i] room by (auto simp: length_ip_header)
  have h: "pb_wf ?h" "pbuf_data ?h = ?i @ pbuf_data h" "pb_payload ?h = pb_payload h - 20"
    "pb_tot_len ?h = pb_tot_len h + 20" "unat (pb_len ?h) = unat (pb_len h) + 20"
    using push_wf [OF r(1) wf(1) r(2)] push_data [OF r(1) wf(1) r(2)] unat_len_plus [of "pb_len h" 20] wf(2)
    by (simp_all add: push_fields length_ip_header)
  have "unat (pb_tot_len h + 20) \<le> 1500" using unat_len_plus [of "pb_tot_len h" 20] wf(3) by simp
  then have mtu: "\<not> if_mtu nif < pb_tot_len h + 20" using link_nif(2) [OF L] by (simp add: word_less_nat_alt)
  have le14: "14 \<le> pb_payload ?h" and len14: "unat (pb_len ?h) + 14 < 65536"
    using h(3,5) room wf(2) by simp_all
  obtain mac n' where e: "length mac = 6"
    "etharp_output L nif (?h # t) (remote_ip pcb) (below c) = (ERR_OK, push (eth_header nif mac) ?h # t, n')"
    "frames n' = frames (below c) @ [eth_header nif mac @ pbuf_data ?h @ concat (map pbuf_data t)]" "up b j n'"
    using etharp_output_ok [OF L le14 h(1) len14 n, of t] by blast
  have "ip_output_if L nif (h # t) src (remote_ip pcb) ttl tos proto c =
      (ERR_OK, push (eth_header nif mac) ?h # t, c\<lparr>ip_id := ip_id c + 1, below := n'\<rparr>)"
    using p1 e(2) h(4) mtu by (simp add: ip_output_if_def IP_HLEN_def)
  then show ?thesis using e(1,3,4) h(2) by (intro exI [where x = mac] exI conjI refl) (assumption | simp)+
qed

lemma ip_output_if_no_room:
  "pb_payload h < 20 \<Longrightarrow> ip_output_if L nif (h # t) src dest ttl tos proto c = (ERR_BUF, h # t, c)"
  using pbuf_header_no_room [of h 20] by (simp add: ip_output_if_def IP_HLEN_def)

section \<open>What a call of netconn_send does\<close>

definition conn_ok :: "udp_pcb \<Rightarrow> 'n netconn \<Rightarrow> bool" where
  "conn_ok pcb c \<longleftrightarrow> \<not> ERR_IS_FATAL (last_err c) \<and> udp_of c = Some pcb"

text \<open>The caller's buffer with its payload moved down by \<^verbatim>\<open>k\<close> bytes, the rest untouched.\<close>

definition moved :: "nat \<Rightarrow> pbuf \<Rightarrow> pbuf \<Rightarrow> bool" where
  "moved k p p' \<longleftrightarrow> k \<le> pb_payload p \<and> pb_payload p' = pb_payload p - k \<and>
     pb_len p' = pb_len p + of_nat k \<and> pb_tot_len p' = pb_tot_len p + of_nat k \<and>
     length (pb_mem p') = length (pb_mem p) \<and> drop (pb_payload p) (pb_mem p') = drop (pb_payload p) (pb_mem p)"

lemma moved_push:
  "length bs \<le> pb_payload p \<Longrightarrow> pb_wf p \<Longrightarrow> moved (length bs) p (push bs p)"
  using push_mem [of bs p] by (simp add: moved_def push_fields pb_wf_def)

lemma moved_trans:
  assumes "moved k p q" "moved l q r" shows "moved (k + l) p r"
proof -
  have k: "pb_payload p = k + pb_payload q" using assms(1) by (simp add: moved_def)
  have "drop (pb_payload q) (pb_mem r) = drop (pb_payload q) (pb_mem q)" using assms(2) by (simp add: moved_def)
  then have "drop (k + pb_payload q) (pb_mem r) = drop (k + pb_payload q) (pb_mem q)"
    by (metis drop_drop)
  also have "\<dots> = drop (k + pb_payload q) (pb_mem p)" using assms(1) unfolding k [symmetric] by (simp add: moved_def)
  finally show ?thesis using assms k by (simp add: moved_def)
qed

lemma netconn_send_udp:
  assumes "conn_ok pcb c" "if_up nif" "local_port pcb \<noteq> 0"
    and "udp_sendto_if L nif pcb p (remote_ip pcb) (remote_port pcb) c = (e, p', c')"
    and "last_err c' = last_err c"
  shows "netconn_send L nif p c = (e, p', c'\<lparr>last_err := e\<rparr>)"
  using assms by (simp add: netconn_send_def do_send_def conn_ok_def udp_send_def ip_route_def)

lemma length_udp_header: "length (udp_header s d (be_bytes n)) = 8"
  by (simp add: udp_header_def be_bytes_def)

text \<open>The headers of a datagram of \<^verbatim>\<open>n\<close> bytes below its UDP header.\<close>

definition ip_udp_header :: "netif \<Rightarrow> udp_pcb \<Rightarrow> u16 \<Rightarrow> u16 \<Rightarrow> u8 list" where
  "ip_udp_header nif pcb n ident =
     ip_header n ident (pcb_tos pcb) (pcb_ttl pcb) IP_PROTO_UDP (if_ip_addr nif) (remote_ip pcb)"

lemma udp_fill_send_ok:
  assumes L: "link_ok L nif pcb frames up" and h: "poke u qh = h" "u = udp_header (local_port pcb) dport (be_bytes (pb_tot_len qh))"
    and room: "34 \<le> pb_payload h" and wf: "pb_wf h" "unat (pb_len h) + 34 < 65536" "unat (pb_tot_len h) + 20 \<le> 1500" and n: "up b j (below c)"
  shows "\<exists>e i c'. length e = 6 \<and> udp_fill_send L nif pcb (qh # t) (remote_ip pcb) dport c =
       (ERR_OK, push (eth_header nif e) (push (ip_udp_header nif pcb (pb_tot_len h + 20) i) h) # t, c') \<and>
     last_err c' = last_err c \<and> udp_of c' = udp_of c \<and>
     frames (below c') = frames (below c) @
       [eth_header nif e @ ip_udp_header nif pcb (pb_tot_len h + 20) i @ pbuf_data h @ concat (map pbuf_data t)] \<and>
     up b j (below c')"
proof -
  have ip: "local_ip pcb \<noteq> 0 \<Longrightarrow> local_ip pcb = if_ip_addr nif" using link_nif(5) [OF L] by blast
  then have src: "(if local_ip pcb = 0 then if_ip_addr nif else local_ip pcb) = if_ip_addr nif" by auto
  have own: "(if if_ip_addr nif = 0 then if_ip_addr nif else if_ip_addr nif) = if_ip_addr nif" by simp
  have fill: "udp_fill_send L nif pcb (qh # t) (remote_ip pcb) dport c =
      ip_output_if L nif (h # t) (if_ip_addr nif) (remote_ip pcb) (pcb_ttl pcb) (pcb_tos pcb) IP_PROTO_UDP c"
    using ip h src by (auto simp: udp_fill_send_def Let_def)
  show ?thesis
    unfolding fill ip_udp_header_def
    using ip_output_if_ok [OF L room wf n, where src = "if_ip_addr nif" and ttl = "pcb_ttl pcb" and tos = "pcb_tos pcb"
        and proto = IP_PROTO_UDP and t = t]
    unfolding own by blast
qed

lemma length_ip_udp_header: "length (ip_udp_header nif pcb n i) = 20"
  by (simp add: ip_udp_header_def length_ip_header)

lemma carriesI:
  assumes "length e = 6" "length d = unat n"
  shows "carries nif pcb (eth_header nif e @ ip_udp_header nif pcb (n + 28) i @
     udp_header (local_port pcb) (remote_port pcb) (be_bytes (n + 8)) @ d) d"
proof -
  have "n = of_nat (length d)" using assms(2) by simp
  then show ?thesis using assms(1) unfolding carries_def udp_frame_def ip_udp_header_def by blast
qed

lemma carries_headers:
  assumes "link_ok L nif pcb frames up" "carries nif pcb f d"
  shows "\<exists>h. length h = 42 \<and> f = h @ d"
proof -
  obtain m i where m: "length m = 6" "f = udp_frame nif pcb m i d" using assms(2) unfolding carries_def by blast
  have "length (eth_header nif m) = 14" using assms(1) m(1) by (rule length_eth_header)
  then show ?thesis unfolding m(2) udp_frame_def append_assoc [symmetric]
    by (intro exI conjI, rule_tac [2] refl) (simp add: length_ip_header length_udp_header)
qed

text \<open>Enough room for all headers: they go into the caller's buffer.\<close>

lemma netconn_send_room:
  assumes L: "link_ok L nif pcb frames up" and c: "conn_ok pcb c" and room: "42 \<le> pb_payload p"
    and wf: "pb_wf p" "pb_tot_len p = pb_len p" "unat (pb_len p) + 28 \<le> 1500" and n: "up b j (below c)"
  shows "\<exists>p' c' f. netconn_send L nif p c = (ERR_OK, p', c') \<and> conn_ok pcb c' \<and> moved 42 p p' \<and>
     frames (below c') = frames (below c) @ [f] \<and> carries nif pcb f (pbuf_data p) \<and> up b j (below c')"
proof -
  let ?u = "udp_header (local_port pcb) (remote_port pcb) (be_bytes (pb_tot_len p + 8))"
  let ?h = "push ?u p"
  have r: "length ?u \<le> pb_payload p" "unat (pb_len p) + length ?u < 65536"
    using room wf(3) by (simp_all add: length_udp_header)
  obtain p1 where p1: "pbuf_header p (int 8) = (0, p1)" "poke ?u p1 = ?h" "pb_tot_len p1 = pb_tot_len p + 8"
    using poke_header [of 8 p ?u] room by (auto simp: length_udp_header)
  have h: "pb_wf ?h" "pbuf_data ?h = ?u @ pbuf_data p" "pb_payload ?h = pb_payload p - 8"
    "unat (pb_tot_len ?h) = unat (pb_len p) + 8" "unat (pb_len ?h) = unat (pb_len p) + 8"
    using push_wf [OF r(1) wf(1) r(2)] push_data [OF r(1) wf(1) r(2)] unat_len_plus [of "pb_len p" 8] wf(2,3)
    by (simp_all add: push_fields length_udp_header)
  have a: "34 \<le> pb_payload ?h" "unat (pb_len ?h) + 34 < 65536" "unat (pb_tot_len ?h) + 20 \<le> 1500"
    using h room wf(3) by simp_all
  have u: "?u = udp_header (local_port pcb) (remote_port pcb) (be_bytes (pb_tot_len p1))" by (simp add: p1(3))
  have tot: "pb_tot_len ?h + 20 = pb_len p + 28" using wf(2) by (simp add: push_fields length_udp_header)
  obtain m i c1 where e: "length m = 6" "udp_fill_send L nif pcb [p1] (remote_ip pcb) (remote_port pcb) c =
      (ERR_OK, [push (eth_header nif m) (push (ip_udp_header nif pcb (pb_len p + 28) i) ?h)], c1)"
    "last_err c1 = last_err c" "udp_of c1 = udp_of c"
    "frames (below c1) = frames (below c) @ [eth_header nif m @ ip_udp_header nif pcb (pb_len p + 28) i @ pbuf_data ?h]"
    "up b j (below c1)"
    using udp_fill_send_ok [OF L p1(2) u a(1) h(1) a(2,3) n, of "[]"] unfolding tot by auto
  let ?i = "ip_udp_header nif pcb (pb_len p + 28) i" and ?m = "eth_header nif m"
  let ?p' = "push ?m (push ?i ?h)"
  note lens = length_eth_header [OF L e(1)] length_ip_udp_header [of nif pcb "pb_len p + 28" i]
  have "udp_sendto_if L nif pcb p (remote_ip pcb) (remote_port pcb) c = (ERR_OK, ?p', c1)"
    using link_nif(4) [OF L] p1(1) e(2) by (simp add: udp_sendto_if_def UDP_HLEN_def)
  then have send: "netconn_send L nif p c = (ERR_OK, ?p', c1\<lparr>last_err := ERR_OK\<rparr>)"
    using netconn_send_udp [OF c] link_nif(1,4) [OF L] e(3) by simp
  have m1: "moved 8 p ?h" using moved_push [OF r(1) wf(1)] by (simp add: length_udp_header)
  have m2: "moved 20 ?h (push ?i ?h)" "pb_wf (push ?i ?h)"
    using moved_push [of ?i ?h] push_wf [of ?i ?h] h(1) a by (simp_all add: lens)
  have m3: "moved 14 (push ?i ?h) ?p'"
    using moved_push [of ?m "push ?i ?h"] m2(2) a(1) by (simp add: push_fields lens)
  have "moved 42 p ?p'" using moved_trans [OF moved_trans [OF m1 m2(1)] m3] by simp
  moreover have "length (pbuf_data p) = unat (pb_len p)" using wf(1) by (simp add: pbuf_data_def pb_wf_def)
  then have "carries nif pcb (?m @ ?i @ ?u @ pbuf_data p) (pbuf_data p)"
    using carriesI [OF e(1)] wf(2) by simp
  moreover have "conn_ok pcb (c1\<lparr>last_err := ERR_OK\<rparr>)"
    using c e(4) by (simp add: conn_ok_def ERR_IS_FATAL_def ERR_OK_def ERR_ISCONN_def)
  moreover have "frames (below (c1\<lparr>last_err := ERR_OK\<rparr>)) = frames (below c) @ [?m @ ?i @ ?u @ pbuf_data p]"
    "up b j (below (c1\<lparr>last_err := ERR_OK\<rparr>))" using e(5,6) h(2) by simp_all
  ultimately show ?thesis
    using send by (intro exI [where x = ?p'] exI [where x = "c1\<lparr>last_err := ERR_OK\<rparr>"]
        exI [where x = "?m @ ?i @ ?u @ pbuf_data p"] conjI)
qed

text \<open>Room for the UDP header only: the datagram is not sent, the payload has moved.\<close>

lemma netconn_send_lost:
  assumes L: "link_ok L nif pcb frames up" and c: "conn_ok pcb c" and room: "8 \<le> pb_payload p" "pb_payload p < 28"
    and wf: "pb_wf p" "unat (pb_len p) + 8 < 65536"
  shows "\<exists>p' c'. netconn_send L nif p c = (ERR_BUF, p', c') \<and> conn_ok pcb c' \<and> moved 8 p p' \<and>
     below c' = below c"
proof -
  let ?u = "udp_header (local_port pcb) (remote_port pcb) (be_bytes (pb_tot_len p + 8))"
  obtain p1 where p1: "pbuf_header p (int 8) = (0, p1)" "poke ?u p1 = push ?u p" "pb_tot_len p1 = pb_tot_len p + 8"
    using poke_header [of 8 p ?u] room by (auto simp: length_udp_header)
  have low: "pb_payload (push ?u p) < 20" using room by (simp add: push_fields length_udp_header)
  have "\<not> (local_ip pcb \<noteq> 0 \<and> local_ip pcb \<noteq> if_ip_addr nif)" using link_nif(5) [OF L] by blast
  then have "udp_fill_send L nif pcb [p1] (remote_ip pcb) (remote_port pcb) c = (ERR_BUF, [push ?u p], c)"
    unfolding udp_fill_send_def Let_def
    by (simp only: list.sel p1(3) if_False p1(2) ip_output_if_no_room [OF low])
  then have "udp_sendto_if L nif pcb p (remote_ip pcb) (remote_port pcb) c = (ERR_BUF, push ?u p, c)"
    using link_nif(4) [OF L] p1(1) by (simp add: udp_sendto_if_def UDP_HLEN_def)
  then have "netconn_send L nif p c = (ERR_BUF, push ?u p, c\<lparr>last_err := ERR_BUF\<rparr>)"
    using netconn_send_udp [OF c] link_nif(1,4) [OF L] by simp
  moreover have "moved 8 p (push ?u p)" using moved_push [of ?u p] room wf(1) by (simp add: length_udp_header)
  moreover have "conn_ok pcb (c\<lparr>last_err := ERR_BUF\<rparr>)"
    using c by (simp add: conn_ok_def ERR_IS_FATAL_def ERR_BUF_def ERR_ISCONN_def)
  moreover have "below (c\<lparr>last_err := ERR_BUF\<rparr>) = below c" by simp
  ultimately show ?thesis by blast
qed

text \<open>No room for a header: it goes into a buffer of its own and the caller's stays as it is.\<close>

lemma align_sizes:
  "LWIP_MEM_ALIGN_SIZE (SIZEOF_STRUCT_PBUF + PBUF_IP) = 52" "LWIP_MEM_ALIGN_SIZE (SIZEOF_STRUCT_PBUF + PBUF_TRANSPORT) = 72"
  "LWIP_MEM_ALIGN_SIZE 8 = 8"
  by (simp_all add: LWIP_MEM_ALIGN_SIZE_def SIZEOF_STRUCT_PBUF_def PBUF_IP_def PBUF_TRANSPORT_def
      PBUF_LINK_HLEN_def PBUF_IP_HLEN_def PBUF_TRANSPORT_HLEN_def)

lemma netconn_send_chained:
  assumes L: "link_ok L nif pcb frames up" and c: "conn_ok pcb c" and room: "pb_payload p < 8"
    and wf: "pb_tot_len p = pb_len p" "unat (pb_len p) + 28 \<le> 1500" "pb_len p \<noteq> 0" "pb_wf p" and n: "up b j (below c)" "b < 2"
  shows "\<exists>c' f. netconn_send L nif p c = (ERR_OK, p, c') \<and> conn_ok pcb c' \<and>
     frames (below c') = frames (below c) @ [f] \<and> carries nif pcb f (pbuf_data p) \<and> up b j (below c')"
proof -
  obtain bs n where m: "mem_malloc L 60 (below c) = (Some bs, n)" "length bs = 60" "frames n = frames (below c)" "up (Suc b) j n"
    using link_malloc [OF L n, of 60] by auto
  let ?h = "\<lparr>pb_mem = drop 16 bs, pb_payload = 36, pb_len = 8, pb_tot_len = 8\<rparr>"
  let ?q = "?h\<lparr>pb_tot_len := 8 + pb_tot_len p\<rparr>"
  have alloc: "pbuf_alloc_ram L PBUF_IP 8 (below c) = (Some ?h, n)"
    unfolding pbuf_alloc_ram_def align_sizes using m(1) by (simp add: SIZEOF_STRUCT_PBUF_def align_sizes(3))
  let ?u = "udp_header (local_port pcb) (remote_port pcb) (be_bytes (pb_tot_len ?q))"
  have d: "pbuf_data (poke ?u ?q) = ?u" "pb_payload (poke ?u ?q) = 36" "pb_len (poke ?u ?q) = 8" "pb_wf (poke ?u ?q)"
    "pb_tot_len (poke ?u ?q) = 8 + pb_tot_len p"
    using m(2) by (simp_all add: poke_def pbuf_data_def pb_wf_def length_udp_header)
  have tot: "unat (pb_tot_len (poke ?u ?q)) + 20 \<le> 1500"
    using wf unat_len_plus [of "pb_len p" 8] d(5) by (simp add: add.commute)
  have pre: "34 \<le> pb_payload (poke ?u ?q)" "unat (pb_len (poke ?u ?q)) + 34 < 65536"
    unfolding d(2,3) by simp_all
  have tlen: "pb_tot_len (poke ?u ?q) + 20 = pb_len p + 28" using wf(1) d(5) by simp
  obtain m i c1 where e: "length m = 6"
    "udp_fill_send L nif pcb [?q, p] (remote_ip pcb) (remote_port pcb) (c\<lparr>below := n\<rparr>) =
      (ERR_OK, [push (eth_header nif m) (push (ip_udp_header nif pcb (pb_len p + 28) i) (poke ?u ?q)), p], c1)"
    "last_err c1 = last_err c" "udp_of c1 = udp_of c"
    "frames (below c1) = frames n @ [eth_header nif m @ ip_udp_header nif pcb (pb_len p + 28) i @ ?u @ pbuf_data p]"
    "up (Suc b) j (below c1)"
    using udp_fill_send_ok [where qh = ?q and u = ?u and h = "poke ?u ?q" and dport = "remote_port pcb" and t = "[p]"
        and c = "c\<lparr>below := n\<rparr>" and up = up and b = "Suc b" and j = j, OF L refl refl pre(1) d(4) pre(2) tot]
    unfolding d(1) tlen using m(4) by simp blast
  let ?i = "ip_udp_header nif pcb (pb_len p + 28) i" and ?m = "eth_header nif m"
  let ?c = "c1\<lparr>below := mem_free L (push ?m (push ?i (poke ?u ?q))) (below c1)\<rparr>"
  have "udp_sendto_if L nif pcb p (remote_ip pcb) (remote_port pcb) c = (ERR_OK, p, ?c)"
    using link_nif(4) [OF L] pbuf_header_no_room [OF room] alloc e(2) wf
    by (simp add: udp_sendto_if_def UDP_HLEN_def pbuf_chain_def)
  then have "netconn_send L nif p c = (ERR_OK, p, ?c\<lparr>last_err := ERR_OK\<rparr>)"
    using netconn_send_udp [OF c] link_nif(1,4) [OF L] e(3) by simp
  moreover have "length (pbuf_data p) = unat (pb_len p)" using wf(4) by (simp add: pbuf_data_def pb_wf_def)
  then have "carries nif pcb (?m @ ?i @ ?u @ pbuf_data p) (pbuf_data p)"
    using carriesI [OF e(1), of "pbuf_data p" "pb_len p" nif pcb i] wf(1) by (simp add: add.commute)
  moreover have "conn_ok pcb (?c\<lparr>last_err := ERR_OK\<rparr>)"
    using c e(4) by (simp add: conn_ok_def ERR_IS_FATAL_def ERR_OK_def ERR_ISCONN_def)
  moreover have "frames (below (?c\<lparr>last_err := ERR_OK\<rparr>)) = frames (below c) @ [?m @ ?i @ ?u @ pbuf_data p]"
    "up b j (below (?c\<lparr>last_err := ERR_OK\<rparr>))" using e(5) m(3) link_free [OF L e(6)] by simp_all
  ultimately show ?thesis
    by (intro exI [where x = "?c\<lparr>last_err := ERR_OK\<rparr>"] exI [where x = "?m @ ?i @ ?u @ pbuf_data p"] conjI)
qed

end
