(* ===== verification/Cam_Capture.thy ===== *)
theory Cam_Capture
  imports Cam_Params Lwip_Udp
begin

text \<open>
  How a frame gets into memory: the sensor's data reach one of two line buffers by DMA, the
  DMA interrupt copies the full one behind what the current image buffer already holds
  (\<^verbatim>\<open>jpeg_dcmi_rx_callback\<close> of \<^verbatim>\<open>udp_demo.c\<close>), and the frame interrupt (\<^verbatim>\<open>dcmi.c\<close>) adds the
  rest and goes on to the next of the three image buffers (\<^verbatim>\<open>jpeg_data_process\<close> of \<^verbatim>\<open>main.c\<close>).
\<close>

section \<open>State\<close>

text \<open>The parameters of the camera (\<^verbatim>\<open>core\<close>), the buffers, the state of the capture and of the
  DMA stream, and the connection.\<close>

record ('e, 'c, 'n) cam =
  core :: "('e, 'c) app"
  img :: "u32 list"
  line_buf0 :: u32
  line_buf1 :: u32
  currentcatch :: u8
  jpeg_data_len :: u32
  jpeg_data_ok :: u8
  ov_frame :: u32
  dma_on :: bool
  dma_counter :: u16
  UdpShort :: "u8 list"
  conn :: "'n netconn"
  conn_freed :: bool

definition NETCAM_LINE_SIZE :: u16 where "NETCAM_LINE_SIZE = 4096"

abbreviation bytes_of :: "('e, 'c, 'n) cam \<Rightarrow> u32 \<Rightarrow> u8" where
  "bytes_of st \<equiv> ram (mem (core st))"

definition set_bytes :: "(u32 \<Rightarrow> u8) \<Rightarrow> ('e, 'c, 'n) cam \<Rightarrow> ('e, 'c, 'n) cam" where
  "set_bytes m st = st\<lparr>core := (core st)\<lparr>mem := (mem (core st))\<lparr>ram := m\<rparr>\<rparr>\<rparr>"

section \<open>Copying words\<close>

text \<open>\<^verbatim>\<open>pbuf[i]=line[i]\<close>: one word of four bytes at a time.\<close>

definition copy_word :: "(u32 \<Rightarrow> u8) \<Rightarrow> u32 \<Rightarrow> u32 \<Rightarrow> (u32 \<Rightarrow> u8)" where
  "copy_word m d s = m(d := m s, d + 1 := m (s + 1), d + 2 := m (s + 2), d + 3 := m (s + 3))"

fun word_copy :: "(u32 \<Rightarrow> u8) \<Rightarrow> u32 \<Rightarrow> u32 \<Rightarrow> nat \<Rightarrow> (u32 \<Rightarrow> u8)" where
  "word_copy m d s 0 = m"
| "word_copy m d s (Suc n) = word_copy (copy_word m d s) (d + 4) (s + 4) n"

section \<open>The interrupts\<close>

text \<open>\<^verbatim>\<open>ct\<close> is bit 19 of the stream's control register: the DMA is at buffer 1.\<close>

definition jpeg_dcmi_rx_callback :: "bool \<Rightarrow> ('e, 'c, 'n) cam \<Rightarrow> ('e, 'c, 'n) cam" where
  "jpeg_dcmi_rx_callback ct st =
     (let pbuf = img st ! unat (currentcatch st) + 4 * jpeg_data_len st
      in if ct
         then (set_bytes (word_copy (bytes_of st) pbuf (line_buf0 st) (unat NETCAM_LINE_SIZE)) st)
                \<lparr>jpeg_data_len := jpeg_data_len st + ucast NETCAM_LINE_SIZE\<rparr>
         else (set_bytes (word_copy (bytes_of st) pbuf (line_buf1 st) (unat NETCAM_LINE_SIZE)) st)
                \<lparr>jpeg_data_len := jpeg_data_len st + ucast NETCAM_LINE_SIZE\<rparr>)"

definition jpeg_data_process :: "bool \<Rightarrow> ('e, 'c, 'n) cam \<Rightarrow> ('e, 'c, 'n) cam" where
  "jpeg_data_process ct st0 =
     (let st = (if jpeg_data_ok st0 = 0
                then (let st = st0\<lparr>dma_on := False\<rparr>;
                          rlen = NETCAM_LINE_SIZE - dma_counter st;
                          pbuf = img st ! unat (currentcatch st) + 4 * jpeg_data_len st;
                          st = (if ct
                                then set_bytes (word_copy (bytes_of st) pbuf (line_buf0 st) (unat rlen)) st
                                else set_bytes (word_copy (bytes_of st) pbuf (line_buf1 st) (unat rlen)) st);
                          st = st\<lparr>jpeg_data_len := jpeg_data_len st + ucast rlen\<rparr>;
                          st = st\<lparr>currentcatch := currentcatch st + 1\<rparr>;
                          st = st\<lparr>currentcatch := currentcatch st mod 3\<rparr>
                      in st\<lparr>jpeg_data_ok := 1\<rparr>)
                else st0)
      in if jpeg_data_ok st = 2
         then st\<lparr>dma_counter := NETCAM_LINE_SIZE, dma_on := True, jpeg_data_ok := 0, jpeg_data_len := 0\<rparr>
         else st)"

definition DMA1_Stream1_IRQHandler :: "bool \<Rightarrow> bool \<Rightarrow> ('e, 'c, 'n) cam \<Rightarrow> ('e, 'c, 'n) cam" where
  "DMA1_Stream1_IRQHandler tcif ct st = (if tcif then jpeg_dcmi_rx_callback ct st else st)"

definition HAL_DCMI_FrameEventCallback :: "bool \<Rightarrow> ('e, 'c, 'n) cam \<Rightarrow> ('e, 'c, 'n) cam" where
  "HAL_DCMI_FrameEventCallback ct st =
     (let st = jpeg_data_process ct st in st\<lparr>ov_frame := ov_frame st + 1\<rparr>)"

section \<open>Memory in pieces\<close>

fun store_bytes :: "(u32 \<Rightarrow> u8) \<Rightarrow> u32 \<Rightarrow> u8 list \<Rightarrow> (u32 \<Rightarrow> u8)" where
  "store_bytes m a [] = m"
| "store_bytes m a (b # bs) = store_bytes (m(a := b)) (a + 1) bs"

definition mem_bytes :: "(u32 \<Rightarrow> u8) \<Rightarrow> u32 \<Rightarrow> nat \<Rightarrow> u8 list" where
  "mem_bytes m a n = map (\<lambda>k. m (a + of_nat k)) [0..<n]"

lemma length_mem_bytes [simp]: "length (mem_bytes m a n) = n"
  by (simp add: mem_bytes_def)

lemma nth_mem_bytes: "k < n \<Longrightarrow> mem_bytes m a n ! k = m (a + of_nat k)"
  by (simp add: mem_bytes_def)

lemma mem_bytes_cong:
  "(\<And>k. k < n \<Longrightarrow> m (a + of_nat k) = m' (b + of_nat k)) \<Longrightarrow> mem_bytes m a n = mem_bytes m' b n"
  by (simp add: mem_bytes_def)

lemma mem_bytes_append:
  "mem_bytes m a (i + j) = mem_bytes m a i @ mem_bytes m (a + of_nat i) j"
  by (rule nth_equalityI) (auto simp: nth_append nth_mem_bytes algebra_simps)

lemma store_bytes_frame:
  "(\<And>j. j < length bs \<Longrightarrow> a \<noteq> d + of_nat j) \<Longrightarrow> store_bytes m d bs a = m a"
proof (induction bs arbitrary: m d)
  case (Cons b bs)
  have "a \<noteq> d + 1 + of_nat j" if "j < length bs" for j
    using Cons.prems [of "Suc j"] that by (simp add: algebra_simps)
  moreover have "a \<noteq> d" using Cons.prems [of 0] by simp
  ultimately show ?case using Cons.IH by simp
qed simp

lemma offset_inj:
  "i < 2 ^ 32 \<Longrightarrow> j < 2 ^ 32 \<Longrightarrow> (a :: u32) + of_nat i = a + of_nat j \<Longrightarrow> i = j"
  using of_nat_u32_inj [of i j] by simp

lemma store_bytes_get:
  "length bs \<le> 2 ^ 32 \<Longrightarrow> mem_bytes (store_bytes m d bs) d (length bs) = bs"
proof (induction bs arbitrary: m d)
  case (Cons b bs)
  have "d \<noteq> d + 1 + of_nat j" if "j < length bs" for j
    using offset_inj [of 0 "Suc j" d] that Cons.prems by (auto simp: algebra_simps)
  then have "store_bytes (m(d := b)) (d + 1) bs d = b" by (subst store_bytes_frame) auto
  moreover have "mem_bytes (store_bytes (m(d := b)) (d + 1) bs) (d + 1) (length bs) = bs"
    using Cons by simp
  ultimately show ?case
    using mem_bytes_append [of "store_bytes (m(d := b)) (d + 1) bs" d 1 "length bs"]
    by (simp add: mem_bytes_def)
qed (simp add: mem_bytes_def)

section \<open>Copies of words and of bytes agree\<close>

lemma word_copy_memcpy:
  assumes "\<And>i j. i < 4 * n \<Longrightarrow> j < 4 * n \<Longrightarrow> d + of_nat i \<noteq> s + of_nat j"
  shows "word_copy m d s n = memcpy_loop m d s (4 * n)"
  using assms
proof (induction n arbitrary: m d s)
  case (Suc n)
  have ne: "s + 1 \<noteq> d" "s + 2 \<noteq> d" "s + 2 \<noteq> d + 1" "s + 3 \<noteq> d" "s + 3 \<noteq> d + 1" "s + 3 \<noteq> d + 2"
    using Suc.prems [of 0 1] Suc.prems [of 0 2] Suc.prems [of 1 2] Suc.prems [of 0 3]
      Suc.prems [of 1 3] Suc.prems [of 2 3] by auto
  have "memcpy_loop m d s (4 * Suc n) = memcpy_loop (copy_word m d s) (d + 4) (s + 4) (4 * n)"
    using ne by (simp add: numeral_eq_Suc copy_word_def algebra_simps)
  moreover have "d + 4 + of_nat i \<noteq> s + 4 + of_nat j" if "i < 4 * n" "j < 4 * n" for i j
    using Suc.prems [of "4 + i" "4 + j"] that by (simp add: algebra_simps)
  ultimately show ?case using Suc.IH [of "d + 4" "s + 4" "copy_word m d s"] by simp
qed simp

section \<open>Appending to an image\<close>

definition no_wrap :: "region \<Rightarrow> bool" where
  "no_wrap r \<longleftrightarrow> unat (fst r) + snd r \<le> 2 ^ 32"

lemma unat_offset:
  fixes a :: u32
  shows "unat a + n \<le> 2 ^ 32 \<Longrightarrow> i < n \<Longrightarrow> unat (a + of_nat i) = unat a + i"
  by (subst unat_add_no_wrap) (simp_all add: unat_of_nat)

lemma apart_addr:
  assumes "apart (a, n) (b, m)" "no_wrap (a, n)" "no_wrap (b, m)" "i < n" "j < m"
  shows "a + of_nat i \<noteq> b + of_nat j"
proof
  assume "a + of_nat i = b + of_nat j"
  then have "unat a + i = unat b + j"
    using unat_offset [of a n i] unat_offset [of b m j] assms by (simp add: no_wrap_def)
  then show False using assms by (auto simp: apart_def)
qed

lemma apart_sym: "apart r r' \<longleftrightarrow> apart r' r"
  by (auto simp: apart_def)

lemma append_words:
  assumes n: "4 * n \<le> 16384" and room: "length bs + 4 * n \<le> z"
    and ap: "apart (p, z) (lb, 16384)" "no_wrap (p, z)" "no_wrap (lb, 16384)"
    and bs: "mem_bytes m p (length bs) = bs"
  defines "m2 \<equiv> word_copy m (p + of_nat (length bs)) lb n"
  shows "mem_bytes m2 p (length bs + 4 * n) = bs @ mem_bytes m lb (4 * n)"
    and "\<lbrakk>apart (q, k) (p, z); no_wrap (q, k)\<rbrakk> \<Longrightarrow> mem_bytes m2 q k = mem_bytes m q k"
proof -
  have ne: "p + of_nat (length bs) + of_nat i \<noteq> lb + of_nat j" if "i < 4 * n" "j < 4 * n" for i j
    using apart_addr [OF ap, of "length bs + i" j] that room n by (simp add: add.assoc)
  have m2: "m2 = memcpy_loop m (p + of_nat (length bs)) lb (4 * n)"
    unfolding m2_def using ne by (intro word_copy_memcpy)
  have "mem_bytes m2 p (length bs) = mem_bytes m p (length bs)"
  proof (rule mem_bytes_cong)
    fix k assume k: "k < length bs"
    have "p + of_nat k \<noteq> p + of_nat (length bs) + of_nat j" if "j < 4 * n" for j
      using offset_inj [of k "length bs + j" p] k that room ap(2) unat_u32_bound [of p]
      by (auto simp: no_wrap_def add.assoc)
    then show "m2 (p + of_nat k) = m (p + of_nat k)" unfolding m2 by (rule memcpy_loop_frame)
  qed
  moreover have "mem_bytes m2 (p + of_nat (length bs)) (4 * n) = mem_bytes m lb (4 * n)"
  proof (rule mem_bytes_cong)
    fix k assume k: "k < 4 * n"
    show "m2 (p + of_nat (length bs) + of_nat k) = m (lb + of_nat k)"
      unfolding m2
    proof (rule memcpy_loop_copy [OF k])
      show "4 * n \<le> 2 ^ 32" using n by simp
      show "lb + of_nat k \<noteq> p + of_nat (length bs) + of_nat j" if "j < k" for j
        using ne [of j k] that k by simp
    qed
  qed
  ultimately show "mem_bytes m2 p (length bs + 4 * n) = bs @ mem_bytes m lb (4 * n)"
    using bs by (simp add: mem_bytes_append)
  show "mem_bytes m2 q k = mem_bytes m q k" if q: "apart (q, k) (p, z)" "no_wrap (q, k)"
  proof (rule mem_bytes_cong)
    fix i assume i: "i < k"
    have "q + of_nat i \<noteq> p + of_nat (length bs) + of_nat j" if "j < 4 * n" for j
      using apart_addr [OF q(1,2) ap(2) i, of "length bs + j"] that room by (simp add: add.assoc)
    then show "m2 (q + of_nat i) = m (q + of_nat i)" unfolding m2 by (rule memcpy_loop_frame)
  qed
qed

lemma store_apart:
  assumes "apart (q, k) (lb, z)" "no_wrap (q, k)" "no_wrap (lb, z)" "length ds \<le> z"
  shows "mem_bytes (store_bytes m lb ds) q k = mem_bytes m q k"
proof (rule mem_bytes_cong)
  fix i assume i: "i < k"
  show "store_bytes m lb ds (q + of_nat i) = m (q + of_nat i)"
    using apart_addr [OF assms(1-3) i] assms(4) by (intro store_bytes_frame) simp
qed

lemma mem_bytes_take: "k \<le> n \<Longrightarrow> take k (mem_bytes m a n) = mem_bytes m a k"
  by (rule nth_equalityI) (simp_all add: nth_mem_bytes)

section \<open>A frame\<close>

definition cam_regions :: "('e, 'c, 'n) cam \<Rightarrow> region list" where
  "cam_regions st = [(img st ! 0, 2488320), (img st ! 1, 2488320), (img st ! 2, 2488320),
     (line_buf0 st, 16384), (line_buf1 st, 16384)]"

definition cam_layout :: "('e, 'c, 'n) cam \<Rightarrow> bool" where
  "cam_layout st \<longleftrightarrow> (\<forall>i<5. no_wrap (cam_regions st ! i)) \<and>
     (\<forall>i<5. \<forall>j<5. i \<noteq> j \<longrightarrow> apart (cam_regions st ! i) (cam_regions st ! j))"

text \<open>\<^verbatim>\<open>read_buf\<close> is the buffer the interrupts copy from, the one the DMA is not at.\<close>

definition read_buf :: "bool \<Rightarrow> ('e, 'c, 'n) cam \<Rightarrow> u32" where
  "read_buf ct st = (if ct then line_buf0 st else line_buf1 st)"

text \<open>The DMA in double-buffer mode.  A transfer of 4096 words fills one buffer; at its end the stream is
  switched to the other and the interrupt is raised, so that it finds bit 19 (\<^verbatim>\<open>ct\<close>) at the other buffer.\<close>

definition line_event :: "bool \<times> u8 list \<Rightarrow> ('e, 'c, 'n) cam \<Rightarrow> ('e, 'c, 'n) cam" where
  "line_event e st = DMA1_Stream1_IRQHandler True (fst e)
     (set_bytes (store_bytes (bytes_of st) (read_buf (fst e) st) (snd e)) st)"

text \<open>At the end of the frame a transfer is under way: its words so far are in the buffer the stream is
  at, and the counter holds the words that are missing.\<close>

definition frame_event :: "bool \<times> u8 list \<Rightarrow> ('e, 'c, 'n) cam \<Rightarrow> ('e, 'c, 'n) cam" where
  "frame_event e st = HAL_DCMI_FrameEventCallback (fst e)
     ((set_bytes (store_bytes (bytes_of st) (read_buf (\<not> fst e) st) (snd e)) st)
        \<lparr>dma_counter := NETCAM_LINE_SIZE - of_nat (length (snd e) div 4)\<rparr>)"

text \<open>The state of a capture that has taken in \<^verbatim>\<open>bs\<close> since \<^verbatim>\<open>st0\<close>.\<close>

definition captured :: "('e, 'c, 'n) cam \<Rightarrow> u8 list \<Rightarrow> ('e, 'c, 'n) cam \<Rightarrow> bool" where
  "captured st0 bs st \<longleftrightarrow> (\<exists>m. st = (set_bytes m st0)\<lparr>jpeg_data_len := of_nat (length bs div 4)\<rparr> \<and>
     4 dvd length bs \<and> mem_bytes m (img st0 ! unat (currentcatch st0)) (length bs) = bs \<and>
     (\<forall>k<3. k \<noteq> unat (currentcatch st0) \<longrightarrow>
        mem_bytes m (img st0 ! k) 2488320 = mem_bytes (bytes_of st0) (img st0 ! k) 2488320))"

lemma set_bytes_simps [simp]:
  "set_bytes m' (set_bytes m st) = set_bytes m' st" "bytes_of (set_bytes m st) = m"
  "img (set_bytes m st) = img st" "line_buf0 (set_bytes m st) = line_buf0 st"
  "line_buf1 (set_bytes m st) = line_buf1 st" "currentcatch (set_bytes m st) = currentcatch st"
  "jpeg_data_len (set_bytes m st) = jpeg_data_len st" "jpeg_data_ok (set_bytes m st) = jpeg_data_ok st"
  "set_bytes m (st\<lparr>jpeg_data_len := l\<rparr>) = (set_bytes m st)\<lparr>jpeg_data_len := l\<rparr>"
  by (simp_all add: set_bytes_def)

lemma read_buf_set [simp]: "read_buf ct (set_bytes m st) = read_buf ct st" "read_buf ct (st\<lparr>jpeg_data_len := l\<rparr>) = read_buf ct st"
  by (simp_all add: read_buf_def)

lemma cam_layoutD:
  assumes "cam_layout st" "c < 3"
  shows "no_wrap (img st ! c, 2488320)" "no_wrap (read_buf ct st, 16384)"
    "apart (img st ! c, 2488320) (read_buf ct st, 16384)"
    "k < 3 \<Longrightarrow> k \<noteq> c \<Longrightarrow> apart (img st ! k, 2488320) (img st ! c, 2488320)"
    "apart (read_buf ct st, 16384) (img st ! c, 2488320)" "apart (read_buf ct st, 16384) (read_buf (\<not> ct) st, 16384)"
proof -
  have r: "k < 3 \<Longrightarrow> cam_regions st ! k = (img st ! k, 2488320)" for k
    by (drule less_3_cases) (auto simp: cam_regions_def)
  have l: "cam_regions st ! (if ct then 3 else 4) = (read_buf ct st, 16384)" for ct
    by (simp add: cam_regions_def read_buf_def)
  have *: "no_wrap (cam_regions st ! i)" "i \<noteq> j \<Longrightarrow> apart (cam_regions st ! i) (cam_regions st ! j)"
    if "i < 5" "j < 5" for i j using assms(1) that by (auto simp: cam_layout_def)
  show "no_wrap (img st ! c, 2488320)" using *(1) [of c c] r [OF assms(2)] assms(2) by simp
  show "no_wrap (read_buf ct st, 16384)"
    using *(1) [of "if ct then 3 else 4" 0] l [of ct] by simp
  show a: "apart (img st ! c, 2488320) (read_buf ct st, 16384)"
    using *(2) [of c "if ct then 3 else 4"] l [of ct] r [OF assms(2)] assms(2) by (simp split: if_splits)
  show "k < 3 \<Longrightarrow> k \<noteq> c \<Longrightarrow> apart (img st ! k, 2488320) (img st ! c, 2488320)"
    using *(2) [of k c] r assms(2) by simp
  show "apart (read_buf ct st, 16384) (img st ! c, 2488320)" using a by (simp add: apart_sym)
  show "apart (read_buf ct st, 16384) (read_buf (\<not> ct) st, 16384)"
    using *(2) [of "if ct then 3 else 4" "if \<not> ct then 3 else 4"] l [of ct] l [of "\<not> ct"] by (simp split: if_splits)
qed

lemma word_offset:
  fixes p :: u32
  shows "4 dvd k \<Longrightarrow> p + 4 * of_nat (k div 4) = p + of_nat k"
  by (metis dvd_mult_div_cancel of_nat_mult of_nat_numeral)

lemma captured_state:
  assumes "captured st0 bs st"
  shows "currentcatch st = currentcatch st0" "img st = img st0" "read_buf ct st = read_buf ct st0" "jpeg_data_ok st = jpeg_data_ok st0"
    "ov_frame st = ov_frame st0"
  using assms by (auto simp: captured_def set_bytes_def read_buf_def)

text \<open>The DMA writes a line buffer; an interrupt copies one.\<close>

lemma captured_fill:
  assumes lay: "cam_layout st0" and cc: "currentcatch st0 < 3" and cap: "captured st0 bs st"
    and len: "length bs \<le> 2488320" "length ds \<le> 16384"
  shows "captured st0 bs (set_bytes (store_bytes (bytes_of st) (read_buf ct st) ds) st)"
proof -
  obtain m where m: "st = (set_bytes m st0)\<lparr>jpeg_data_len := of_nat (length bs div 4)\<rparr>" "4 dvd length bs"
    "mem_bytes m (img st0 ! unat (currentcatch st0)) (length bs) = bs"
    "\<forall>k<3. k \<noteq> unat (currentcatch st0) \<longrightarrow>
        mem_bytes m (img st0 ! k) 2488320 = mem_bytes (bytes_of st0) (img st0 ! k) 2488320"
    using cap unfolding captured_def by blast
  let ?m = "store_bytes m (read_buf ct st0) ds"
  have keep: "mem_bytes ?m (img st0 ! k) 2488320 = mem_bytes m (img st0 ! k) 2488320" if k: "k < 3" for k
    using len(2) by (intro store_apart [OF cam_layoutD(3) [OF lay k] cam_layoutD(1,2) [OF lay k]])
  have "mem_bytes ?m (img st0 ! unat (currentcatch st0)) (length bs) = mem_bytes m (img st0 ! unat (currentcatch st0)) (length bs)"
    using arg_cong [OF keep [of "unat (currentcatch st0)"], of "take (length bs)"] cc len(1)
    by (simp add: mem_bytes_take word_less_nat_alt)
  moreover have "set_bytes (store_bytes (bytes_of st) (read_buf ct st) ds) st =
      (set_bytes ?m st0)\<lparr>jpeg_data_len := of_nat (length bs div 4)\<rparr>"
    by (simp add: m(1) set_bytes_def read_buf_def)
  ultimately show ?thesis
    unfolding captured_def using m(2-4) keep by (intro exI [where x = ?m]) simp
qed

lemma captured_append:
  fixes ct :: bool
  assumes lay: "cam_layout st0" and cc: "currentcatch st0 < 3" and cap: "captured st0 bs st"
    and n: "n \<le> 4096" "length bs + 4 * n \<le> 2488320"
  defines "m2 \<equiv> word_copy (bytes_of st) (img st ! unat (currentcatch st) + 4 * jpeg_data_len st) (read_buf ct st) n"
  shows "captured st0 (bs @ mem_bytes (bytes_of st) (read_buf ct st) (4 * n))
      ((set_bytes m2 st)\<lparr>jpeg_data_len := jpeg_data_len st + of_nat n\<rparr>)"
    and "mem_bytes m2 (read_buf ct st) 16384 = mem_bytes (bytes_of st) (read_buf ct st) 16384"
proof -
  obtain m where m: "st = (set_bytes m st0)\<lparr>jpeg_data_len := of_nat (length bs div 4)\<rparr>" "4 dvd length bs"
    "mem_bytes m (img st0 ! unat (currentcatch st0)) (length bs) = bs"
    "\<forall>k<3. k \<noteq> unat (currentcatch st0) \<longrightarrow>
        mem_bytes m (img st0 ! k) 2488320 = mem_bytes (bytes_of st0) (img st0 ! k) 2488320"
    using cap unfolding captured_def by blast
  let ?c = "unat (currentcatch st0)"
  let ?p = "img st0 ! ?c" and ?lb = "read_buf ct st0" and ?ds = "mem_bytes (bytes_of st) (read_buf ct st) (4 * n)"
  have c: "?c < 3" using cc by (simp add: word_less_nat_alt)
  have b: "bytes_of st = m" "read_buf ct st = ?lb" by (simp_all add: m(1) set_bytes_def read_buf_def)
  have m2: "m2 = word_copy m (?p + of_nat (length bs)) ?lb n"
    using word_offset [OF m(2)] unfolding m2_def b by (simp add: m(1))
  have ap: "mem_bytes m2 ?p (length bs + 4 * n) = bs @ ?ds"
    unfolding m2 b using n(1) by (intro append_words(1) [OF _ n(2) cam_layoutD(3) [OF lay c] cam_layoutD(1,2) [OF lay c] m(3)]) simp
  have fr: "mem_bytes m2 q k = mem_bytes m q k" if "apart (q, k) (?p, 2488320)" "no_wrap (q, k)" for q k
    unfolding m2 using n(1) that by (intro append_words(2) [OF _ n(2) cam_layoutD(3) [OF lay c] cam_layoutD(1,2) [OF lay c] m(3)]) simp_all
  show "mem_bytes m2 (read_buf ct st) 16384 = mem_bytes (bytes_of st) (read_buf ct st) 16384"
    unfolding b by (rule fr [OF cam_layoutD(5,2) [OF lay c]])
  have len: "of_nat (length bs div 4) + of_nat n = (of_nat (length (bs @ ?ds) div 4) :: u32)"
    using m(2) by simp
  show "captured st0 (bs @ ?ds) ((set_bytes m2 st)\<lparr>jpeg_data_len := jpeg_data_len st + of_nat n\<rparr>)"
    unfolding captured_def
  proof (intro exI [where x = m2] conjI allI impI)
    show "(set_bytes m2 st)\<lparr>jpeg_data_len := jpeg_data_len st + of_nat n\<rparr> =
        (set_bytes m2 st0)\<lparr>jpeg_data_len := of_nat (length (bs @ ?ds) div 4)\<rparr>"
      unfolding len [symmetric] by (simp add: m(1) set_bytes_def)
    show "mem_bytes m2 (img st0 ! k) 2488320 = mem_bytes (bytes_of st0) (img st0 ! k) 2488320" if "k < 3" "k \<noteq> ?c" for k
      using fr [OF cam_layoutD(4) [OF lay c that] cam_layoutD(1) [OF lay that(1)]] m(4) that by simp
  qed (use ap m(2) in simp_all)
qed

lemma line_event_captured:
  assumes "cam_layout st0" "currentcatch st0 < 3" "captured st0 bs st"
    and "length ds = 16384" "length bs + 16384 \<le> 2488320"
  shows "captured st0 (bs @ ds) (line_event (ct, ds) st)"
    "mem_bytes (bytes_of (line_event (ct, ds) st)) (read_buf ct st0) 16384 = ds"
proof -
  have n: "unat NETCAM_LINE_SIZE = 4096" "ucast NETCAM_LINE_SIZE = (of_nat 4096 :: u32)"
    by (simp_all add: NETCAM_LINE_SIZE_def)
  let ?st = "set_bytes (store_bytes (bytes_of st) (read_buf ct st) ds) st"
  let ?m = "word_copy (bytes_of ?st) (img ?st ! unat (currentcatch ?st) + 4 * jpeg_data_len ?st) (read_buf ct ?st) 4096"
  have f: "captured st0 bs ?st" using captured_fill [OF assms(1-3), of ds ct] assms(4,5) by simp
  have d: "mem_bytes (bytes_of ?st) (read_buf ct ?st) 16384 = ds"
    using store_bytes_get [of ds "bytes_of st" "read_buf ct st"] assms(4) by simp
  have e: "line_event (ct, ds) st = (set_bytes ?m ?st)\<lparr>jpeg_data_len := jpeg_data_len ?st + of_nat 4096\<rparr>"
    unfolding line_event_def DMA1_Stream1_IRQHandler_def jpeg_dcmi_rx_callback_def Let_def n fst_conv snd_conv
    by (simp add: read_buf_def)
  show "captured st0 (bs @ ds) (line_event (ct, ds) st)"
    unfolding e using captured_append(1) [OF assms(1,2) f, of 4096 ct] d assms(5) by simp
  have "bytes_of (line_event (ct, ds) st) = ?m" unfolding e by (simp add: set_bytes_def)
  then show "mem_bytes (bytes_of (line_event (ct, ds) st)) (read_buf ct st0) 16384 = ds"
    using captured_append(2) [OF assms(1,2) f, of 4096 ct] d assms(5) captured_state(3) [OF f] by simp
qed

lemma lines_captured:
  assumes "cam_layout st0" "currentcatch st0 < 3"
  shows "captured st0 bs st \<Longrightarrow> \<forall>e\<in>set es. length (snd e) = 16384 \<Longrightarrow>
     length bs + 16384 * length es \<le> 2488320 \<Longrightarrow> captured st0 (bs @ concat (map snd es)) (fold line_event es st) \<and>
     (es \<noteq> [] \<longrightarrow> mem_bytes (bytes_of (fold line_event es st)) (read_buf (fst (last es)) st0) 16384 = snd (last es))"
proof (induction es arbitrary: bs st)
  case (Cons e es)
  have l: "captured st0 (bs @ snd e) (line_event e st)"
    "mem_bytes (bytes_of (line_event e st)) (read_buf (fst e) st0) 16384 = snd e"
    using line_event_captured [OF assms Cons.prems(1), of "snd e" "fst e"] Cons.prems by simp_all
  then show ?case using Cons.IH [OF l(1)] Cons.prems by simp
qed simp

text \<open>The frame interrupt copies from the buffer that the last full transfer went to, not from the one
  that holds the rest.\<close>

lemma frame_event_captured:
  assumes "cam_layout st0" "currentcatch st0 < 3" "captured st0 bs st"
    and ds: "length ds = 4 * n" "n \<le> 4096" "length bs + 4 * n \<le> 2488320"
    and ok: "jpeg_data_ok st0 = 0" and l: "mem_bytes (bytes_of st) (read_buf ct st0) 16384 = l"
  shows "\<exists>st1. captured st0 (bs @ take (4 * n) l) st1 \<and> frame_event (ct, ds) st =
     st1\<lparr>dma_on := False, dma_counter := 4096 - of_nat n, currentcatch := (currentcatch st0 + 1) mod 3,
         jpeg_data_ok := 1, ov_frame := ov_frame st0 + 1\<rparr>"
proof -
  let ?st = "set_bytes (store_bytes (bytes_of st) (read_buf (\<not> ct) st) ds) st"
  let ?m = "word_copy (bytes_of ?st) (img ?st ! unat (currentcatch ?st) + 4 * jpeg_data_len ?st) (read_buf ct ?st) n"
  have f: "captured st0 bs ?st" using captured_fill [OF assms(1-3), of ds "\<not> ct"] ds by simp
  note S = captured_state [OF f]
  have "mem_bytes (bytes_of ?st) (read_buf ct st0) 16384 = l"
    using store_apart [OF cam_layoutD(6) [OF assms(1), of 0 ct] cam_layoutD(2) [OF assms(1), of 0] cam_layoutD(2) [OF assms(1), of 0],
        of ds "bytes_of st"] l ds captured_state(3) [OF assms(3), of "\<not> ct"] by simp
  then have "mem_bytes (bytes_of ?st) (read_buf ct ?st) (4 * n) = take (4 * n) l"
    using ds(2) mem_bytes_take [of "4 * n" 16384 "bytes_of ?st" "read_buf ct st0"] S(3) [of ct] by simp
  then have c: "captured st0 (bs @ take (4 * n) l) ((set_bytes ?m ?st)\<lparr>jpeg_data_len := jpeg_data_len ?st + of_nat n\<rparr>)"
    using captured_append(1) [OF assms(1,2) f ds(2,3), of ct] by simp
  have r: "4096 - (4096 - of_nat n) = (of_nat n :: u16)" by simp
  have n: "unat (of_nat n :: u16) = n" "ucast (of_nat n :: u16) = (of_nat n :: u32)"
    using ds(2) by (simp_all add: unat_of_nat word_unat_eq_iff unsigned_ucast_eq take_bit_eq_mod)
  have "frame_event (ct, ds) st =
     ((set_bytes ?m ?st)\<lparr>jpeg_data_len := jpeg_data_len ?st + of_nat n\<rparr>)
       \<lparr>dma_on := False, dma_counter := 4096 - of_nat n, currentcatch := (currentcatch st0 + 1) mod 3,
         jpeg_data_ok := 1, ov_frame := ov_frame st0 + 1\<rparr>"
    using S(1,4,5) ok ds(1) r n
    by (simp add: frame_event_def HAL_DCMI_FrameEventCallback_def jpeg_data_process_def Let_def
        NETCAM_LINE_SIZE_def set_bytes_def read_buf_def)
  with c show ?thesis by blast
qed

lemma frame_capture_effect:
  assumes "cam_layout st" "currentcatch st < 3" "jpeg_data_ok st = 0" "jpeg_data_len st = 0"
    and "es \<noteq> []" "\<forall>e\<in>set es. length (snd e) = 16384" "length ds = 4 * n" "n \<le> 4096"
    and "16384 * length es + 4 * n \<le> 2488320"
    and "st' = frame_event (fst (last es), ds) (fold line_event es st)"
  shows "mem_bytes (bytes_of st') (img st ! unat (currentcatch st)) (16384 * length es + 4 * n) =
       concat (map snd es) @ take (4 * n) (snd (last es)) \<and>
     (\<forall>k<3. k \<noteq> unat (currentcatch st) \<longrightarrow>
       mem_bytes (bytes_of st') (img st ! k) 2488320 = mem_bytes (bytes_of st) (img st ! k) 2488320) \<and>
     currentcatch st' = (currentcatch st + 1) mod 3 \<and> jpeg_data_ok st' = 1 \<and> \<not> dma_on st' \<and>
     jpeg_data_len st' = of_nat (4096 * length es + n) \<and> ov_frame st' = ov_frame st + 1 \<and> img st' = img st"
proof -
  have s0: "captured st [] st"
    using assms(4) by (auto simp: captured_def set_bytes_def mem_bytes_def intro!: exI [of _ "bytes_of st"])
  have len: "length (concat (map snd es)) = 16384 * length es"
    using assms(6) by (induction es) simp_all
  let ?bs = "concat (map snd es)" and ?l = "take (4 * n) (snd (last es))"
  have c: "captured st ?bs (fold line_event es st)"
    "mem_bytes (bytes_of (fold line_event es st)) (read_buf (fst (last es)) st) 16384 = snd (last es)"
    using lines_captured [OF assms(1,2) s0 assms(6)] assms(5,9) by simp_all
  obtain st1 where st1: "captured st (?bs @ ?l) st1"
    "st' = st1\<lparr>dma_on := False, dma_counter := 4096 - of_nat n, currentcatch := (currentcatch st + 1) mod 3,
         jpeg_data_ok := 1, ov_frame := ov_frame st + 1\<rparr>"
    using frame_event_captured [OF assms(1,2) c(1) assms(7,8) _ assms(3) c(2)] len assms(9)
    unfolding assms(10) by auto
  have l: "length (?bs @ ?l) = 16384 * length es + 4 * n" using len assms(5,6,8) by simp
  have d: "(16384 * length es + 4 * n) div 4 = 4096 * length es + n" by simp
  obtain m where m: "st1 = (set_bytes m st)\<lparr>jpeg_data_len := of_nat (4096 * length es + n)\<rparr>"
    "mem_bytes m (img st ! unat (currentcatch st)) (16384 * length es + 4 * n) = ?bs @ ?l"
    "\<forall>k<3. k \<noteq> unat (currentcatch st) \<longrightarrow>
       mem_bytes m (img st ! k) 2488320 = mem_bytes (bytes_of st) (img st ! k) 2488320"
    using st1(1) unfolding captured_def l d by blast
  have b: "bytes_of st' = m" by (simp add: st1(2) m(1) set_bytes_def)
  show ?thesis
    unfolding b using m(2,3) by (intro conjI) (simp_all add: st1(2) m(1))
qed

section \<open>Properties\<close>

text \<open>C5: A run of full DMA transfers ended by a frame event, with the two line buffers filled in
  turn, leaves the bytes of the transfers, in order, in the image buffer of the current index; for
  the rest of the frame, which the DMA has put in the other line buffer, it stores the first bytes
  of the last full transfer again. The other two images are unchanged, the index advances modulo
  3, the length counts the rest, the DMA is stopped and the frame marked as complete.\<close>

theorem frame_capture:
  assumes "cam_layout st" "currentcatch st < 3" "jpeg_data_ok st = 0" "jpeg_data_len st = 0"
    and "es \<noteq> []" "\<forall>e\<in>set es. length (snd e) = 16384" "length ds = 4 * n" "n \<le> 4096"
    and "16384 * length es + 4 * n \<le> 2488320"
    and "st' = frame_event (fst (last es), ds) (fold line_event es st)"
  shows "mem_bytes (bytes_of st') (img st ! unat (currentcatch st)) (16384 * length es + 4 * n) =
       concat (map snd es) @ take (4 * n) (snd (last es)) \<and>
     (\<forall>k<3. k \<noteq> unat (currentcatch st) \<longrightarrow>
       mem_bytes (bytes_of st') (img st ! k) 2488320 = mem_bytes (bytes_of st) (img st ! k) 2488320) \<and>
     currentcatch st' = (currentcatch st + 1) mod 3 \<and> jpeg_data_ok st' = 1 \<and> \<not> dma_on st' \<and>
     jpeg_data_len st' = of_nat (4096 * length es + n) \<and> ov_frame st' = ov_frame st + 1"
  using frame_capture_effect [OF assms] by simp

definition demo_cam :: "(unit, unit, unit) cam" where
  "demo_cam = \<lparr>core = \<lparr>ee = (), cam = (), mem = mallco_dev 0 [] (\<lambda>_. 0), para_ptr = 0, para = packet_of_bytes [],
       StartY240 = 120, udp_flag = 1, jpeg_data_send = 0, jpeg_data_pcsend_flag = 0, netrecv_line = [],
       sendq = netfifo_init [], recvq = netfifo_init [], msg_netsendready = 0, msg_netrecvok = 0\<rparr>,
     img = [0xC0000000, 0xC1000000, 0xC2000000], line_buf0 = 0x24000000, line_buf1 = 0x24010000,
     currentcatch = 2, jpeg_data_len = 0, jpeg_data_ok = 0, ov_frame = 9, dma_on = True, dma_counter = 4096,
     UdpShort = [], conn = \<lparr>last_err = 0, udp_of = None, ip_id = 0, below = ()\<rparr>, conn_freed = False\<rparr>"

lemma less_5_cases: "(k :: nat) < 5 \<Longrightarrow> k = 0 \<or> k = 1 \<or> k = 2 \<or> k = 3 \<or> k = 4"
  by arith

lemma demo_cam_layout: "cam_layout demo_cam"
  unfolding cam_layout_def
proof (intro conjI allI impI)
  fix i :: nat assume "i < 5"
  then show "no_wrap (cam_regions demo_cam ! i)"
    by (drule_tac less_5_cases) (auto simp: cam_regions_def demo_cam_def no_wrap_def)
  fix j :: nat assume "j < 5" "i \<noteq> j"
  with \<open>i < 5\<close> show "apart (cam_regions demo_cam ! i) (cam_regions demo_cam ! j)"
    by (drule_tac less_5_cases, drule_tac less_5_cases)
       (auto simp: cam_regions_def demo_cam_def apart_def)
qed

theorem frame_capture_witness:
  "mem_bytes (bytes_of (frame_event (False, [7, 8, 9, 10])
       (fold line_event [(True, replicate 16384 1), (False, replicate 16384 2)] demo_cam))) 0xC2000000 32772 =
     replicate 16384 1 @ replicate 16384 2 @ [2, 2, 2, 2]"
proof -
  have "replicate 4 2 = [2, 2, 2, 2 :: u8]" by (simp add: numeral_eq_Suc)
  then have four: "take (4 * 1) (replicate 16384 2) = [2, 2, 2, 2 :: u8]"
    unfolding take_replicate by (simp only: mult_1_right) simp
  let ?es = "[(True, replicate 16384 1), (False, replicate 16384 2)] :: (bool \<times> u8 list) list"
  have "currentcatch demo_cam < 3" "jpeg_data_ok demo_cam = 0" "jpeg_data_len demo_cam = 0" "img demo_cam ! unat (currentcatch demo_cam) = 0xC2000000"
    by (simp_all add: demo_cam_def)
  then show ?thesis
    using frame_capture [OF demo_cam_layout, of ?es "[7, 8, 9, 10]" 1, OF _ _ _ _ _ _ _ _ refl] four
    by simp
qed

end
