(* ===== verification/Cam_Stream.thy ===== *)
theory Cam_Stream
  imports Cam_Capture
begin

text \<open>
  The tasks that send: \<^verbatim>\<open>imgcamera_task\<close> of \<^verbatim>\<open>MT9P031D.c\<close>, which cuts the last complete image
  into datagrams (the whole of it, half of it, or the area of interest) and closes it with a
  short packet, and \<^verbatim>\<open>udp_send_task\<close> of \<^verbatim>\<open>udp_demo.c\<close>, which sends the parameter packets of
  the send FIFO.  Delays between the datagrams are left out.
\<close>

section \<open>Sizes and the short packet\<close>

definition UDPIMAGESIZE :: nat where "UDPIMAGESIZE = 1296"
definition UDPIMAGEDC :: nat where "UDPIMAGEDC = 480"
definition UDPIAMGEVC :: nat where "UDPIAMGEVC = 960"

definition UdpShort_init :: "u8 list" where
  "UdpShort_init = [0x5a, 0x5a, 0xa5, 0xa5, hi8 2592, lo8 2592, hi8 480, lo8 480, hi8 1024, lo8 1024,
     0x01, 0x02, 0x03, 0x04, 10, hi8 300, lo8 300, 0xBA, 0x01, 0xc3, 0xc2, 0xc1, 0xc0]"

definition short_packet :: "('e, 'c, 'n) cam \<Rightarrow> u8 list" where
  "short_packet st = (UdpShort st)
     [10 := ucast (drop_bit 24 (ov_frame st)), 11 := ucast (drop_bit 16 (ov_frame st)),
      12 := ucast (drop_bit 8 (ov_frame st)), 13 := ucast (ov_frame st),
      15 := exposureh (para (core st)), 16 := exposurel (para (core st))]"

section \<open>Sending one datagram\<close>

definition set_udp_flag :: "u8 \<Rightarrow> ('e, 'c, 'n) cam \<Rightarrow> ('e, 'c, 'n) cam" where
  "set_udp_flag v st = st\<lparr>core := (core st)\<lparr>udp_flag := v\<rparr>\<rparr>"

definition check_closed :: "int \<Rightarrow> ('e, 'c, 'n) cam \<Rightarrow> ('e, 'c, 'n) cam" where
  "check_closed e st = (if e = ERR_CLSD \<or> e = ERR_RST then set_udp_flag 0 st else st)"

text \<open>A new buffer, filled, sent and deleted.  The code stores the four bytes in front of the
  image data one by one after the copy.\<close>

definition send_fresh :: "'n lwip \<Rightarrow> netif \<Rightarrow> u16 \<Rightarrow> u8 list \<Rightarrow> ('e, 'c, 'n) cam \<Rightarrow> ('e, 'c, 'n) cam option" where
  "send_fresh L nif sz bs st =
     (case netbuf_new_alloc L sz (conn st) of
        None \<Rightarrow> None
      | Some (p, c) \<Rightarrow>
          (case payload_copy bs p of
             None \<Rightarrow> None
           | Some p \<Rightarrow>
               (case netconn_send L nif p c of
                  (e, p, c) \<Rightarrow> Some (check_closed e (st\<lparr>conn := netbuf_delete L p c\<rparr>)))))"

definition send_short :: "'n lwip \<Rightarrow> netif \<Rightarrow> ('e, 'c, 'n) cam \<Rightarrow> ('e, 'c, 'n) cam option" where
  "send_short L nif st =
     (let st = st\<lparr>UdpShort := short_packet st\<rparr>
      in send_fresh L nif 23 (take 23 (UdpShort st)) st)"

section \<open>The loops of imgcamera_task\<close>

text \<open>Mode 0: one buffer for all datagrams; \<^verbatim>\<open>n\<close> rounds left, \<^verbatim>\<open>i\<close> the counter.\<close>

fun send_reused :: "'n lwip \<Rightarrow> netif \<Rightarrow> u32 \<Rightarrow> nat \<Rightarrow> nat \<Rightarrow> pbuf \<Rightarrow> ('e, 'c, 'n) cam \<Rightarrow>
    (pbuf \<times> ('e, 'c, 'n) cam) option" where
  "send_reused L nif ImageBuf 0 i p st = Some (p, st)"
| "send_reused L nif ImageBuf (Suc n) i p st =
     (case payload_copy (mem_bytes (bytes_of st) (ImageBuf + of_nat (i * UDPIMAGESIZE)) UDPIMAGESIZE) p of
        None \<Rightarrow> None
      | Some p \<Rightarrow>
          (case netconn_send L nif p (conn st) of
             (e, p, c) \<Rightarrow> send_reused L nif ImageBuf n (Suc i) p (check_closed e (st\<lparr>conn := c\<rparr>))))"

text \<open>Modes 1 and 3: a buffer for each datagram, with the datagram's index and the camera in
  front; \<^verbatim>\<open>base\<close> is the index of the first one.\<close>

fun send_indexed :: "'n lwip \<Rightarrow> netif \<Rightarrow> u32 \<Rightarrow> nat \<Rightarrow> nat \<Rightarrow> nat \<Rightarrow> ('e, 'c, 'n) cam \<Rightarrow>
    ('e, 'c, 'n) cam option" where
  "send_indexed L nif ImageBuf base 0 i st = Some st"
| "send_indexed L nif ImageBuf base (Suc n) i st =
     (case send_fresh L nif (of_nat (UDPIMAGESIZE + 4))
             ([of_nat ((base + i) div 256), of_nat (base + i),
               drop_bit 8 (camid (para (core st))), camid (para (core st))] @
              mem_bytes (bytes_of st) (ImageBuf + of_nat ((base + i) * UDPIMAGESIZE)) UDPIMAGESIZE) st of
        None \<Rightarrow> None
      | Some st \<Rightarrow> send_indexed L nif ImageBuf base n (Suc i) st)"

definition catch_pos :: "u8 \<Rightarrow> u8 \<Rightarrow> u8" where
  "catch_pos cc old = (if cc = 0 then 2 else if cc = 1 then 0 else if cc = 2 then 1 else old)"

definition image_sent :: "('e, 'c, 'n) cam \<Rightarrow> ('e, 'c, 'n) cam" where
  "image_sent st = st\<lparr>core := (core st)\<lparr>jpeg_data_send := 0\<rparr>\<rparr>"

definition send_mode0 :: "'n lwip \<Rightarrow> netif \<Rightarrow> u8 \<Rightarrow> ('e, 'c, 'n) cam \<Rightarrow> ('e, 'c, 'n) cam option" where
  "send_mode0 L nif pos st =
     (let p = img st ! unat pos + 32 + ucast (StartY240 (core st)) * 2592
      in if udp_flag (core st) = 1 then
           (case netbuf_new_alloc L (of_nat UDPIMAGESIZE) (conn st) of
              None \<Rightarrow> None
            | Some (b, c) \<Rightarrow>
                (case send_reused L nif p UDPIMAGEDC 0 b (st\<lparr>conn := c\<rparr>) of
                   None \<Rightarrow> None
                 | Some (b, st) \<Rightarrow>
                     map_option image_sent (send_short L nif (st\<lparr>conn := netbuf_delete L b (conn st)\<rparr>))))
         else Some (image_sent st))"

definition send_mode1 :: "'n lwip \<Rightarrow> netif \<Rightarrow> u8 \<Rightarrow> ('e, 'c, 'n) cam \<Rightarrow> ('e, 'c, 'n) cam option" where
  "send_mode1 L nif pos st =
     (let ImageBuf = img st ! unat pos + 32
      in if udp_flag (core st) = 1 then
           (case send_indexed L nif ImageBuf 0 UDPIAMGEVC 0 st of
              None \<Rightarrow> None
            | Some st \<Rightarrow> map_option image_sent (send_short L nif st))
         else Some (image_sent st))"

definition send_mode3 :: "'n lwip \<Rightarrow> netif \<Rightarrow> u8 \<Rightarrow> ('e, 'c, 'n) cam \<Rightarrow> ('e, 'c, 'n) cam option" where
  "send_mode3 L nif pos st =
     (let ImageBuf = img st ! unat pos + 32
      in if udp_flag (core st) = 1 then
           (let UdpPacketCount = push_bit 1 (ucast (aoishowheight (para (core st))) :: u16);
                UdpDetectYStartPacketIndex =
                  push_bit 1 (be16 (aoishowstartyh (para (core st))) (aoishowstartyl (para (core st))))
            in case send_indexed L nif ImageBuf (unat UdpDetectYStartPacketIndex) (unat UdpPacketCount) 0 st of
                 None \<Rightarrow> None
               | Some st \<Rightarrow> map_option image_sent (send_short L nif st))
         else Some (image_sent st))"

text \<open>One round of the task's loop; \<^verbatim>\<open>GetCatchPos\<close> is the task's own variable.  \<^verbatim>\<open>None\<close> is the
  dereference of a null buffer.\<close>

definition imgcamera_round :: "'n lwip \<Rightarrow> netif \<Rightarrow> u8 \<times> ('e, 'c, 'n) cam \<Rightarrow> (u8 \<times> ('e, 'c, 'n) cam) option" where
  "imgcamera_round L nif s =
     (case s of (GetCatchPos, st0) \<Rightarrow>
        (let st = (if jpeg_data_ok st0 = 1 then st0\<lparr>jpeg_data_ok := 2\<rparr> else st0)
         in if jpeg_data_send (core st) = 1 then
              (let pos = catch_pos (currentcatch st) GetCatchPos;
                   flag = jpeg_data_pcsend_flag (core st)
               in map_option (Pair pos)
                    (if flag = 0 then send_mode0 L nif pos st
                     else if flag = 1 then send_mode1 L nif pos st
                     else if flag = 3 then send_mode3 L nif pos st
                     else Some st))
            else Some (GetCatchPos, st)))"

section \<open>udp_send_task\<close>

text \<open>One round.  After a failure the connection is closed and freed.\<close>

definition udp_send_round :: "'n lwip \<Rightarrow> netif \<Rightarrow> ('e, 'c, 'n) cam \<Rightarrow> stop + ('e, 'c, 'n) cam" where
  "udp_send_round L nif st =
     (case sem_count_down (msg_netsendready (core st)) of
        None \<Rightarrow> Inl Blocked
      | Some k \<Rightarrow>
          (case netsend_fifo_read (sendq (core st)) 0 of
             (res, tbuf, q) \<Rightarrow>
               (let st = st\<lparr>core := (core st)\<lparr>msg_netsendready := k, sendq := q\<rparr>\<rparr>
                in if res \<noteq> 0 then
                     (case netbuf_new_alloc L NETSEND_LINE_SIZE (conn st) of
                        None \<Rightarrow> Inl Stuck
                      | Some (p, c) \<Rightarrow>
                          (case payload_copy (take 76 (fifobuf q ! unat tbuf)) p of
                             None \<Rightarrow> Inl Stuck
                           | Some p \<Rightarrow>
                               (case netconn_send L nif p c of
                                  (e, p, c) \<Rightarrow>
                                    (let st = (if e = ERR_CLSD \<or> e = ERR_RST \<or> e = ERR_ABRT \<or> e = ERR_CONN
                                               then set_udp_flag 0 (st\<lparr>conn_freed := True\<rparr>) else st)
                                     in Inr (st\<lparr>conn := netbuf_delete L p c\<rparr>)))))
                   else Inr st)))"

section \<open>A fresh buffer carries its datagram\<close>

lemma netbuf_new_alloc_ok:
  assumes L: "link_ok L nif pcb frames up" and c: "conn_ok pcb c" and sz: "unat sz \<le> 1500"
    and up: "up b 0 (below c)" "b < 2"
  shows "\<exists>p c'. netbuf_new_alloc L sz c = Some (p, c') \<and> conn_ok pcb c' \<and>
     frames (below c') = frames (below c) \<and> pb_payload p = 56 \<and> pb_len p = sz \<and> pb_tot_len p = sz \<and>
     56 + unat sz \<le> length (pb_mem p) \<and> up (Suc b) 1 (below c')"
proof -
  let ?k = "72 + LWIP_MEM_ALIGN_SIZE (unat sz)"
  obtain n where n: "memp_netbuf L (below c) = (True, n)" "frames n = frames (below c)" "up b 1 n"
    using link_netbuf(1) [OF L up(1)] by blast
  have kb: "0 < ?k" "?k \<le> 1600" using sz unfolding LWIP_MEM_ALIGN_SIZE_def by linarith+
  obtain bs n' where m: "mem_malloc L ?k n = (Some bs, n')" "length bs = ?k" "frames n' = frames n" "up (Suc b) 1 n'"
    using link_malloc [OF L n(3) up(2) kb] by blast
  have k: "unat sz \<le> LWIP_MEM_ALIGN_SIZE (unat sz)" unfolding LWIP_MEM_ALIGN_SIZE_def by linarith
  have "?k < 65536" using sz unfolding LWIP_MEM_ALIGN_SIZE_def by linarith
  then have u: "unat (of_nat ?k :: u16) = ?k" by (simp del: of_nat_add add: unat_of_nat)
  have "netbuf_new_alloc L sz c =
      Some (\<lparr>pb_mem = drop 16 bs, pb_payload = 56, pb_len = sz, pb_tot_len = sz\<rparr>, c\<lparr>below := n'\<rparr>)"
    unfolding netbuf_new_alloc_def pbuf_alloc_ram_def align_sizes n(1) u
    using m(1) by (simp add: SIZEOF_STRUCT_PBUF_def)
  then show ?thesis using c k m(2-4) n(2) by (auto simp: conn_ok_def)
qed

lemma payload_copy_fits:
  assumes "pb_payload p + length bs \<le> length (pb_mem p)"
  shows "payload_copy bs p = Some (poke bs p)" "length (pb_mem (poke bs p)) = length (pb_mem p)"
    "pb_payload (poke bs p) = pb_payload p" "pb_len (poke bs p) = pb_len p" "pb_tot_len (poke bs p) = pb_tot_len p"
  using assms by (simp_all add: payload_copy_def poke_def)

lemma poke_data:
  assumes "pb_payload p + length bs \<le> length (pb_mem p)" "length bs \<le> unat (pb_len p)"
  shows "pbuf_data (poke bs p) = bs @ drop (length bs) (pbuf_data p)"
  using assms by (simp add: poke_def pbuf_data_def drop_take min_def add.commute)

lemma netbuf_delete_ok:
  assumes "link_ok L nif pcb frames up" "conn_ok pcb c" "up (Suc b) 1 (below c)"
  shows "conn_ok pcb (netbuf_delete L p c)" "frames (below (netbuf_delete L p c)) = frames (below c)"
    "up b 0 (below (netbuf_delete L p c))"
  using assms(2) link_free [OF assms(1,3), of p] link_netbuf(2) [OF assms(1) link_free(2) [OF assms(1,3), of p]]
  by (simp_all add: netbuf_delete_def conn_ok_def)

lemma check_closed_other: "e \<noteq> ERR_CLSD \<Longrightarrow> e \<noteq> ERR_RST \<Longrightarrow> check_closed e st = st"
  by (simp add: check_closed_def)

lemma err_distinct [simp]: "ERR_OK \<noteq> ERR_CLSD" "ERR_OK \<noteq> ERR_RST" "ERR_BUF \<noteq> ERR_CLSD" "ERR_BUF \<noteq> ERR_RST"
  by (simp_all add: ERR_OK_def ERR_CLSD_def ERR_RST_def ERR_BUF_def)

lemma send_fresh_ok:
  assumes L: "link_ok L nif pcb frames up" and c: "conn_ok pcb (conn st)" and bs: "length bs = unat sz" "unat sz + 28 \<le> 1500"
    and up: "up b 0 (below (conn st))" "b < 2"
  shows "\<exists>c f. send_fresh L nif sz bs st = Some (st\<lparr>conn := c\<rparr>) \<and> conn_ok pcb c \<and>
     frames (below c) = frames (below (conn st)) @ [f] \<and> carries nif pcb f bs \<and> up b 0 (below c)"
proof -
  obtain p c1 where p: "netbuf_new_alloc L sz (conn st) = Some (p, c1)" "conn_ok pcb c1"
    "frames (below c1) = frames (below (conn st))" "pb_payload p = 56" "pb_len p = sz" "pb_tot_len p = sz"
    "56 + unat sz \<le> length (pb_mem p)" "up (Suc b) 1 (below c1)"
    using netbuf_new_alloc_ok [OF L c _ up, of sz] bs(2) by auto
  let ?p = "poke bs p"
  have fit: "pb_payload p + length bs \<le> length (pb_mem p)" using p bs by simp
  note cp = payload_copy_fits [OF fit]
  have d: "pbuf_data ?p = bs" using poke_data [OF fit] bs p(5) by (simp add: pbuf_data_def)
  have "42 \<le> pb_payload ?p" "pb_wf ?p" "pb_tot_len ?p = pb_len ?p" "unat (pb_len ?p) + 28 \<le> 1500"
    using cp p bs by (simp_all add: pb_wf_def)
  from netconn_send_room [OF L p(2) this p(8)] obtain p' c2 f where
    s: "netconn_send L nif ?p c1 = (ERR_OK, p', c2)" "conn_ok pcb c2"
      "frames (below c2) = frames (below c1) @ [f]" "carries nif pcb f bs" "up (Suc b) 1 (below c2)"
    unfolding d by blast
  have "send_fresh L nif sz bs st = Some (st\<lparr>conn := netbuf_delete L p' c2\<rparr>)"
    using p(1) cp(1) s(1) by (simp add: send_fresh_def check_closed_other)
  then show ?thesis using netbuf_delete_ok [OF L s(2,5), of p'] s(3,4) p(3)
    by (intro exI [where x = "netbuf_delete L p' c2"] exI [where x = f]) simp
qed

section \<open>The indexed stream\<close>

definition indexed_datagram :: "('e, 'c, 'n) cam \<Rightarrow> u32 \<Rightarrow> nat \<Rightarrow> u8 list" where
  "indexed_datagram st a k = [of_nat (k div 256), of_nat k, 0, camid (para (core st))] @
     mem_bytes (bytes_of st) (a + of_nat (k * 1296)) 1296"

lemma length_indexed_datagram: "length (indexed_datagram st a k) = 1300"
  by (simp add: indexed_datagram_def)

lemma send_indexed_ok:
  assumes L: "link_ok L nif pcb frames up"
  shows "conn_ok pcb (conn st) \<Longrightarrow> up 0 0 (below (conn st)) \<Longrightarrow> \<exists>c fs. send_indexed L nif a base n i st = Some (st\<lparr>conn := c\<rparr>) \<and>
     conn_ok pcb c \<and> frames (below c) = frames (below (conn st)) @ fs \<and>
     list_all2 (carries nif pcb) fs (map (\<lambda>k. indexed_datagram st a (base + k)) [i..<i + n]) \<and> up 0 0 (below c)"
proof (induction n arbitrary: i st)
  case (Suc n)
  have sz: "unat (of_nat (UDPIMAGESIZE + 4) :: u16) = 1300" by (simp add: UDPIMAGESIZE_def)
  have d: "[of_nat ((base + i) div 256), of_nat (base + i), drop_bit 8 (camid (para (core st))), camid (para (core st))] @
      mem_bytes (bytes_of st) (a + of_nat ((base + i) * UDPIMAGESIZE)) UDPIMAGESIZE = indexed_datagram st a (base + i)"
    by (simp add: indexed_datagram_def UDPIMAGESIZE_def drop_bit_eq_div word_div_def)
  obtain c f where c: "send_fresh L nif (of_nat (UDPIMAGESIZE + 4)) (indexed_datagram st a (base + i)) st = Some (st\<lparr>conn := c\<rparr>)"
    "conn_ok pcb c" "frames (below c) = frames (below (conn st)) @ [f]" "carries nif pcb f (indexed_datagram st a (base + i))"
    "up 0 0 (below c)"
    using send_fresh_ok [OF L Suc.prems(1) _ _ Suc.prems(2), of "indexed_datagram st a (base + i)" "of_nat (UDPIMAGESIZE + 4)"] sz
    by (auto simp: length_indexed_datagram)
  have same: "indexed_datagram (st\<lparr>conn := c\<rparr>) = indexed_datagram st" by (simp add: indexed_datagram_def fun_eq_iff)
  obtain c' fs where r: "send_indexed L nif a base n (Suc i) (st\<lparr>conn := c\<rparr>) = Some (st\<lparr>conn := c'\<rparr>)"
    "conn_ok pcb c'" "frames (below c') = frames (below c) @ fs"
    "list_all2 (carries nif pcb) fs (map (\<lambda>k. indexed_datagram st a (base + k)) [Suc i..<Suc i + n])"
    "up 0 0 (below c')"
    using Suc.IH [of "st\<lparr>conn := c\<rparr>" "Suc i"] c(2,5) by (auto simp: same)
  have u: "[i..<i + Suc n] = i # [Suc i..<Suc i + n]" by (simp add: upt_conv_Cons del: upt_Suc)
  have "send_indexed L nif a base (Suc n) i st = Some (st\<lparr>conn := c'\<rparr>)"
    unfolding send_indexed.simps d c(1) using r(1) by simp
  then show ?case
    using c(3,4) r(2-5) unfolding u
    by (intro exI [where x = c'] exI [where x = "f # fs"]) (simp del: upt_Suc)
next
  case 0
  then show ?case by (intro exI [where x = "conn st"] exI [where x = "[]"]) simp
qed

lemma send_short_ok:
  assumes L: "link_ok L nif pcb frames up" and c: "conn_ok pcb (conn st)" and u: "length (UdpShort st) = 23"
    and up: "up 0 0 (below (conn st))"
  shows "\<exists>c f. send_short L nif st = Some (st\<lparr>UdpShort := short_packet st, conn := c\<rparr>) \<and> conn_ok pcb c \<and>
     frames (below c) = frames (below (conn st)) @ [f] \<and> carries nif pcb f (short_packet st) \<and> up 0 0 (below c)"
proof -
  have len: "length (short_packet st) = 23" using u by (simp add: short_packet_def)
  show ?thesis
    using send_fresh_ok [OF L, of "st\<lparr>UdpShort := short_packet st\<rparr>" "short_packet st" 23 0] c len up
    by (simp add: send_short_def)
qed

lemma carries_drop: "link_ok L nif pcb frames up \<Longrightarrow> carries nif pcb f d \<Longrightarrow> drop 42 f = d"
  using carries_headers by fastforce

lemma carries_length: "link_ok L nif pcb frames up \<Longrightarrow> carries nif pcb f d \<Longrightarrow> length f = 42 + length d"
  using carries_headers by fastforce

lemma mem_bytes_blocks:
  "concat (map (\<lambda>k. mem_bytes m (a + of_nat (k * z)) z) [0..<n]) = mem_bytes m a (n * z)"
proof (induction n)
  case (Suc n)
  have "Suc n * z = n * z + z" by simp
  then show ?case using Suc by (simp only: mem_bytes_append) simp
qed (simp add: mem_bytes_def)

lemma reassembled:
  assumes L: "link_ok L nif pcb frames up" and fs: "list_all2 (carries nif pcb) fs (map (indexed_datagram st a) [0..<n])"
  shows "concat (map (drop 46) fs) = mem_bytes (bytes_of st) a (n * 1296)"
proof -
  have "map (drop 46) fs = map (\<lambda>k. mem_bytes (bytes_of st) (a + of_nat (k * 1296)) 1296) [0..<n]"
  proof (rule nth_equalityI)
    fix i assume "i < length (map (drop 46) fs)"
    then have i: "i < n" "carries nif pcb (fs ! i) (indexed_datagram st a i)"
      using fs by (auto simp: list_all2_conv_all_nth)
    have "drop 46 (fs ! i) = drop 4 (drop 42 (fs ! i))" by simp
    also have "\<dots> = mem_bytes (bytes_of st) (a + of_nat (i * 1296)) 1296"
      unfolding carries_drop [OF L i(2)] by (simp add: indexed_datagram_def)
    finally show "map (drop 46) fs ! i = map (\<lambda>k. mem_bytes (bytes_of st) (a + of_nat (k * 1296)) 1296) [0..<n] ! i"
      using i(1) fs by (simp add: list_all2_conv_all_nth)
  qed (use fs in \<open>simp add: list_all2_conv_all_nth\<close>)
  then show ?thesis by (simp only: mem_bytes_blocks)
qed

lemma stream_indexed:
  assumes L: "link_ok L nif pcb frames up" and c: "conn_ok pcb (conn st)" and u: "length (UdpShort st) = 23"
    and up: "up 0 0 (below (conn st))"
  shows "\<exists>st1 st' fs f. send_indexed L nif a base n 0 st = Some st1 \<and> send_short L nif st1 = Some st' \<and>
     core st' = core st \<and> jpeg_data_ok st' = jpeg_data_ok st \<and> conn_ok pcb (conn st') \<and>
     frames (below (conn st')) = frames (below (conn st)) @ fs @ [f] \<and>
     list_all2 (carries nif pcb) fs (map (\<lambda>k. indexed_datagram st a (base + k)) [0..<n]) \<and> carries nif pcb f (short_packet st) \<and>
     up 0 0 (below (conn st'))"
proof -
  obtain c1 fs where 1: "send_indexed L nif a base n 0 st = Some (st\<lparr>conn := c1\<rparr>)" "conn_ok pcb c1"
    "frames (below c1) = frames (below (conn st)) @ fs"
    "list_all2 (carries nif pcb) fs (map (\<lambda>k. indexed_datagram st a (base + k)) [0..<n])"
    "up 0 0 (below c1)"
    using send_indexed_ok [OF L c up, of a base n 0] by auto
  have sp: "short_packet (st\<lparr>conn := c1\<rparr>) = short_packet st" by (simp add: short_packet_def)
  obtain c2 f where 2: "send_short L nif (st\<lparr>conn := c1\<rparr>) = Some (st\<lparr>UdpShort := short_packet st, conn := c2\<rparr>)"
    "conn_ok pcb c2" "frames (below c2) = frames (below c1) @ [f]" "carries nif pcb f (short_packet st)"
    "up 0 0 (below c2)"
    using send_short_ok [OF L, of "st\<lparr>conn := c1\<rparr>"] 1(2,5) u by (auto simp: sp)
  show ?thesis
    using 1 2 by (intro exI [where x = "st\<lparr>conn := c1\<rparr>"] exI [where x = fs] exI [where x = f]
        exI [where x = "st\<lparr>UdpShort := short_packet st, conn := c2\<rparr>"]) simp
qed

section \<open>The reused buffer of mode 0\<close>

text \<open>After the first datagram the headers have moved the payload from 56 to 14, after the second
  to 6; from then on it stays, and every datagram is 50 bytes too long.\<close>

lemma pbuf_data_copy:
  assumes "length bs \<le> unat (pb_len p)" "pb_wf p"
  shows "\<exists>j. length j = unat (pb_len p) - length bs \<and> pbuf_data (poke bs p) = bs @ j"
proof -
  have "pbuf_data (poke bs p) = bs @ drop (length bs) (pbuf_data p)"
    using assms by (intro poke_data) (simp_all add: pb_wf_def)
  then show ?thesis
    using assms by (intro exI [where x = "drop (length bs) (pbuf_data p)"]) (simp add: pbuf_data_def pb_wf_def)
qed

definition image_part :: "('e, 'c, 'n) cam \<Rightarrow> u32 \<Rightarrow> nat \<Rightarrow> u8 list" where
  "image_part st a i = mem_bytes (bytes_of st) (a + of_nat (i * 1296)) 1296"

lemma send_reused_step:
  assumes "payload_copy (image_part st a i) p = Some p1" "netconn_send L nif p1 (conn st) = (e, p2, c)"
    and "e \<noteq> ERR_CLSD" "e \<noteq> ERR_RST"
  shows "send_reused L nif a (Suc n) i p st = send_reused L nif a n (Suc i) p2 (st\<lparr>conn := c\<rparr>)"
  using assms by (simp add: image_part_def UDPIMAGESIZE_def check_closed_other)

lemma image_part_conn [simp]: "image_part (st\<lparr>conn := c\<rparr>) a i = image_part st a i"
  by (simp add: image_part_def)

lemma length_image_part [simp]: "length (image_part st a i) = 1296"
  by (simp add: image_part_def)

lemma send_reused_tail:
  assumes L: "link_ok L nif pcb frames up"
  shows "\<lbrakk>conn_ok pcb (conn st); pb_payload p = 6; unat (pb_len p) = 1346; pb_tot_len p = pb_len p; pb_wf p;
      up 1 1 (below (conn st))\<rbrakk> \<Longrightarrow>
    \<exists>p' c fs. send_reused L nif a n i p st = Some (p', st\<lparr>conn := c\<rparr>) \<and> conn_ok pcb c \<and>
      frames (below c) = frames (below (conn st)) @ fs \<and>
      list_all2 (\<lambda>f k. \<exists>j. length j = 50 \<and> carries nif pcb f (image_part st a k @ j)) fs [i..<i + n] \<and>
      up 1 1 (below c)"
proof (induction n arbitrary: i p st)
  case 0
  then show ?case by (intro exI [where x = p] exI [where x = "conn st"] exI [where x = "[]"]) simp
next
  case (Suc n)
  let ?p = "poke (image_part st a i) p"
  have fit: "pb_payload p + length (image_part st a i) \<le> length (pb_mem p)" using Suc.prems(2,3,5) by (simp add: pb_wf_def)
  note cp = payload_copy_fits [OF fit]
  have ne: "pb_len p \<noteq> 0" using Suc.prems(3) by auto
  obtain j where j: "length j = 50" "pbuf_data ?p = image_part st a i @ j"
    using pbuf_data_copy [of "image_part st a i" p] Suc.prems(3,5) by auto
  obtain c f where s: "netconn_send L nif ?p (conn st) = (ERR_OK, ?p, c)" "conn_ok pcb c"
    "frames (below c) = frames (below (conn st)) @ [f]" "carries nif pcb f (pbuf_data ?p)" "up 1 1 (below c)"
    using netconn_send_chained [OF L Suc.prems(1) _ _ _ _ _ Suc.prems(6), of ?p] cp Suc.prems(2-5) ne by (auto simp: pb_wf_def)
  have "pb_payload ?p = 6" "unat (pb_len ?p) = 1346" "pb_tot_len ?p = pb_len ?p" "pb_wf ?p"
    using cp Suc.prems(2-5) by (simp_all add: pb_wf_def)
  from Suc.IH [OF _ this, of "st\<lparr>conn := c\<rparr>" "Suc i"] obtain p' c' fs where
    r: "send_reused L nif a n (Suc i) ?p (st\<lparr>conn := c\<rparr>) = Some (p', st\<lparr>conn := c'\<rparr>)" "conn_ok pcb c'"
      "frames (below c') = frames (below c) @ fs"
      "list_all2 (\<lambda>f k. \<exists>j. length j = 50 \<and> carries nif pcb f (image_part st a k @ j)) fs [Suc i..<Suc i + n]"
      "up 1 1 (below c')"
    using s(2,5) by auto
  have "send_reused L nif a (Suc n) i p st = Some (p', st\<lparr>conn := c'\<rparr>)"
    using send_reused_step [OF cp(1) s(1) err_distinct(1,2)] r(1) by simp
  moreover have "[i..<i + Suc n] = i # [Suc i..<Suc i + n]" by (simp add: upt_conv_Cons del: upt_Suc)
  ultimately show ?case
    using s(3,4) j r(2-5)
    by (intro exI [where x = p'] exI [where x = c'] exI [where x = "f # fs"]) (auto simp del: upt_Suc)
qed

lemma send_reused_ok:
  assumes L: "link_ok L nif pcb frames up" and c: "conn_ok pcb (conn st)"
    and p: "pb_payload p = 56" "pb_len p = 1296" "pb_tot_len p = 1296" "56 + 1296 \<le> length (pb_mem p)"
    and up: "up 1 1 (below (conn st))"
  shows "\<exists>p' c f fs. send_reused L nif a (Suc (Suc n)) 0 p st = Some (p', st\<lparr>conn := c\<rparr>) \<and> conn_ok pcb c \<and>
      frames (below c) = frames (below (conn st)) @ f # fs \<and> carries nif pcb f (image_part st a 0) \<and>
      list_all2 (\<lambda>f k. \<exists>j. length j = 50 \<and> carries nif pcb f (image_part st a k @ j)) fs [2..<2 + n] \<and>
      up 1 1 (below c)"
proof -
  let ?p = "poke (image_part st a 0) p"
  have "pb_payload p + length (image_part st a 0) \<le> length (pb_mem p)" using p by simp
  note c0 = payload_copy_fits [OF this]
  have d: "pbuf_data ?p = image_part st a 0"
    using pbuf_data_copy [of "image_part st a 0" p] p by (auto simp: pb_wf_def)
  have "42 \<le> pb_payload ?p" "pb_wf ?p" "pb_tot_len ?p = pb_len ?p" "unat (pb_len ?p) + 28 \<le> 1500"
    using c0 p by (simp_all add: pb_wf_def)
  from netconn_send_room [OF L c this up] obtain p1 c1 f where
    s1: "netconn_send L nif ?p (conn st) = (ERR_OK, p1, c1)" "conn_ok pcb c1" "moved 42 ?p p1"
      "frames (below c1) = frames (below (conn st)) @ [f]" "carries nif pcb f (image_part st a 0)"
      "up 1 1 (below c1)"
    unfolding d by blast
  have p1: "pb_payload p1 = 14" "pb_len p1 = 1338" "pb_tot_len p1 = 1338" "56 + 1296 \<le> length (pb_mem p1)"
    using s1(3) c0 p by (auto simp: moved_def)
  let ?q = "poke (image_part st a 1) p1"
  have "pb_payload p1 + length (image_part st a 1) \<le> length (pb_mem p1)" using p1 by simp
  note c1 = payload_copy_fits [OF this]
  have "8 \<le> pb_payload ?q" "pb_payload ?q < 28" "pb_wf ?q" "unat (pb_len ?q) + 8 < 65536"
    using c1 p1 by (simp_all add: pb_wf_def)
  from netconn_send_lost [OF L s1(2) this] obtain p2 c2 where
    s2: "netconn_send L nif ?q c1 = (ERR_BUF, p2, c2)" "conn_ok pcb c2" "moved 8 ?q p2" "below c2 = below c1"
    by blast
  have p2: "pb_payload p2 = 6" "pb_len p2 = 1346" "pb_tot_len p2 = 1346" "56 + 1296 \<le> length (pb_mem p2)"
    using s2(3) c1 p1 by (auto simp: moved_def)
  obtain p' c' fs where r: "send_reused L nif a n 2 p2 (st\<lparr>conn := c2\<rparr>) = Some (p', st\<lparr>conn := c'\<rparr>)" "conn_ok pcb c'"
    "frames (below c') = frames (below c2) @ fs"
    "list_all2 (\<lambda>f k. \<exists>j. length j = 50 \<and> carries nif pcb f (image_part st a k @ j)) fs [2..<2 + n]"
    "up 1 1 (below c')"
    using send_reused_tail [OF L, of "st\<lparr>conn := c2\<rparr>" p2 a n 2] s2(2,4) p2 s1(6) by (auto simp: pb_wf_def)
  have "send_reused L nif a (Suc n) 1 p1 (st\<lparr>conn := c1\<rparr>) = send_reused L nif a n 2 p2 (st\<lparr>conn := c2\<rparr>)"
    using send_reused_step [of "st\<lparr>conn := c1\<rparr>" a 1 p1 ?q L nif ERR_BUF p2 c2 n] c1(1) s2(1)
    by (simp add: numeral_2_eq_2)
  then have "send_reused L nif a (Suc (Suc n)) 0 p st = Some (p', st\<lparr>conn := c'\<rparr>)"
    using send_reused_step [OF c0(1) s1(1) err_distinct(1,2), of "Suc n"] r(1) by simp
  moreover have "frames (below c') = frames (below (conn st)) @ f # fs" using r(3) s2(4) s1(4) by simp
  ultimately show ?thesis using r(2,4,5) s1(5) by blast
qed

section \<open>One round of imgcamera_task\<close>

text \<open>The connection stands, the parts below can take a send, and an image is to be sent in mode \<^verbatim>\<open>md\<close>.\<close>

definition stream_ready :: "'n lwip \<Rightarrow> netif \<Rightarrow> udp_pcb \<Rightarrow> ('n \<Rightarrow> u8 list list) \<Rightarrow> (nat \<Rightarrow> nat \<Rightarrow> 'n \<Rightarrow> bool) \<Rightarrow>
    ('e, 'c, 'n) cam \<Rightarrow> u8 \<Rightarrow> bool" where
  "stream_ready L nif pcb frames up st md \<longleftrightarrow> link_ok L nif pcb frames up \<and> conn_ok pcb (conn st) \<and> up 0 0 (below (conn st)) \<and>
     length (UdpShort st) = 23 \<and> udp_flag (core st) = 1 \<and> jpeg_data_send (core st) = 1 \<and>
     jpeg_data_pcsend_flag (core st) = md"

definition shown :: "('e, 'c, 'n) cam \<Rightarrow> ('e, 'c, 'n) cam" where
  "shown st = (if jpeg_data_ok st = 1 then st\<lparr>jpeg_data_ok := 2\<rparr> else st)"

lemma shown_simps [simp]:
  "core (shown st) = core st" "conn (shown st) = conn st" "UdpShort (shown st) = UdpShort st"
  "img (shown st) = img st" "currentcatch (shown st) = currentcatch st"
  "short_packet (shown st) = short_packet st" "indexed_datagram (shown st) = indexed_datagram st"
  "image_part (shown st) = image_part st"
  by (simp_all add: shown_def short_packet_def indexed_datagram_def image_part_def fun_eq_iff)

lemma imgcamera_round_eq:
  assumes "jpeg_data_send (core st) = 1"
  shows "imgcamera_round L nif (pos, st) = (let q = catch_pos (currentcatch st) pos; md = jpeg_data_pcsend_flag (core st) in
     map_option (Pair q) (if md = 0 then send_mode0 L nif q (shown st) else if md = 1 then send_mode1 L nif q (shown st)
        else if md = 3 then send_mode3 L nif q (shown st) else Some (shown st)))"
  using assms by (simp add: imgcamera_round_def shown_def Let_def)

lemma image_stream_complete:
  assumes "stream_ready L nif pcb frames up st 1"
    and "a = img st ! unat (catch_pos (currentcatch st) pos) + 32"
  shows "\<exists>st' fs f. imgcamera_round L nif (pos, st) = Some (catch_pos (currentcatch st) pos, st') \<and>
     frames (below (conn st')) = frames (below (conn st)) @ fs @ [f] \<and>
     list_all2 (carries nif pcb) fs (map (indexed_datagram st a) [0..<960]) \<and> carries nif pcb f (short_packet st) \<and>
     concat (map (drop 46) fs) = mem_bytes (bytes_of st) a (960 * 1296) \<and> jpeg_data_send (core st') = 0 \<and>
     (jpeg_data_ok st = 1 \<longrightarrow> jpeg_data_ok st' = 2) \<and> up 0 0 (below (conn st'))"
proof -
  have r: "link_ok L nif pcb frames up" "conn_ok pcb (conn (shown st))" "length (UdpShort (shown st)) = 23"
    "udp_flag (core st) = 1" "jpeg_data_send (core st) = 1" "jpeg_data_pcsend_flag (core st) = 1"
    and up: "up 0 0 (below (conn (shown st)))" using assms(1) by (simp_all add: stream_ready_def)
  obtain st1 st' fs f where s: "send_indexed L nif a 0 960 0 (shown st) = Some st1" "send_short L nif st1 = Some st'"
    "core st' = core st" "frames (below (conn st')) = frames (below (conn st)) @ fs @ [f]"
    "list_all2 (carries nif pcb) fs (map (indexed_datagram st a) [0..<960])" "carries nif pcb f (short_packet st)"
    "jpeg_data_ok st' = jpeg_data_ok (shown st)" "up 0 0 (below (conn st'))"
    using stream_indexed [OF r(1-3) up, of a 0 960] by auto
  have "imgcamera_round L nif (pos, st) = Some (catch_pos (currentcatch st) pos, image_sent st')"
    using s(1,2) r(4-6) assms(2) by (simp add: imgcamera_round_eq send_mode1_def UDPIAMGEVC_def Let_def)
  then show ?thesis
    using s(4-8) reassembled [OF r(1) s(5)]
    by (intro exI [where x = "image_sent st'"] exI [where x = fs] exI [where x = f])
      (simp add: image_sent_def shown_def)
qed

section \<open>Properties\<close>

text \<open>C14: In mode 3 with the first row at most 440 a round of imgcamera_task sends, while lwIP's
  heap, its pool of netbufs, the ARP cache and the driver have what a send takes (link_ok, shown
  of the repository's heap and cache in Lwip_Link), the rows of the area of interest, two
  datagrams for each, with their packet numbers in the full frame, then the short packet, and
  reads within the image buffer only.\<close>

theorem image_stream_aoi:
  assumes "stream_ready L nif pcb frames up st 3"
    and "a = img st ! unat (catch_pos (currentcatch st) pos) + 32"
    and "sy = unat (be16 (aoishowstartyh (para (core st))) (aoishowstartyl (para (core st))))" "sy \<le> 440"
    and "h = unat (aoishowheight (para (core st)))"
  shows "\<exists>st' fs f. imgcamera_round L nif (pos, st) = Some (catch_pos (currentcatch st) pos, st') \<and>
     frames (below (conn st')) = frames (below (conn st)) @ fs @ [f] \<and>
     list_all2 (carries nif pcb) fs (map (indexed_datagram st a) [2 * sy..<2 * sy + 2 * h]) \<and> carries nif pcb f (short_packet st) \<and>
     jpeg_data_send (core st') = 0 \<and> 32 + (2 * sy + 2 * h) * 1296 \<le> 2488320 \<and> up 0 0 (below (conn st'))"
proof -
  have r: "link_ok L nif pcb frames up" "conn_ok pcb (conn (shown st))" "length (UdpShort (shown st)) = 23"
    "udp_flag (core st) = 1" "jpeg_data_send (core st) = 1" "jpeg_data_pcsend_flag (core st) = 3"
    and up: "up 0 0 (below (conn (shown st)))" using assms(1) by (simp_all add: stream_ready_def)
  have h: "h \<le> 255" using unat_u8_bound [of "aoishowheight (para (core st))"] assms(5) by linarith
  have n: "unat (push_bit 1 (ucast (aoishowheight (para (core st)))) :: u16) = 2 * h"
    using h assms(5) by (simp add: push_bit_eq_mult unat_word_ariths unsigned_ucast_eq take_bit_eq_mod)
  have b: "unat (push_bit 1 (be16 (aoishowstartyh (para (core st))) (aoishowstartyl (para (core st)))) :: u16) = 2 * sy"
    using assms(3,4) by (simp add: push_bit_eq_mult unat_word_ariths)
  obtain st1 st' fs f where s: "send_indexed L nif a (2 * sy) (2 * h) 0 (shown st) = Some st1" "send_short L nif st1 = Some st'"
    "core st' = core st" "frames (below (conn st')) = frames (below (conn st)) @ fs @ [f]"
    "list_all2 (carries nif pcb) fs (map (\<lambda>k. indexed_datagram st a (2 * sy + k)) [0..<2 * h])" "carries nif pcb f (short_packet st)"
    "up 0 0 (below (conn st'))"
    using stream_indexed [OF r(1-3) up, of a "2 * sy" "2 * h"] by auto
  have sh: "map (\<lambda>k. indexed_datagram st a (2 * sy + k)) [0..<2 * h] = map (indexed_datagram st a) [2 * sy..<2 * sy + 2 * h]"
    by (rule nth_equalityI) simp_all
  have "imgcamera_round L nif (pos, st) = Some (catch_pos (currentcatch st) pos, image_sent st')"
    using s(1,2) r(4-6) assms(2) n b by (simp add: imgcamera_round_eq send_mode3_def Let_def)
  then show ?thesis
    using s(4-7) h assms(4) unfolding sh
    by (intro exI [where x = "image_sent st'"] exI [where x = fs] exI [where x = f]) (simp add: image_sent_def)
qed

text \<open>C33: In mode 0, where one buffer is used for all 480 sends, only the first datagram is well
  formed, even while lwIP's heap, its pool of netbufs, the ARP cache and the driver have what a
  send takes (link_ok, shown of the repository's heap and cache in Lwip_Link): the second is lost,
  and each later one carries 50 stale bytes behind its part of the image.\<close>

theorem image_stream_mode0_malformed:
  assumes "stream_ready L nif pcb frames up st 0"
    and "a = img st ! unat (catch_pos (currentcatch st) pos) + 32 + ucast (StartY240 (core st)) * 2592"
  shows "\<exists>st' f0 fs f. imgcamera_round L nif (pos, st) = Some (catch_pos (currentcatch st) pos, st') \<and>
     frames (below (conn st')) = frames (below (conn st)) @ f0 # fs @ [f] \<and>
     carries nif pcb f0 (image_part st a 0) \<and>
     list_all2 (\<lambda>f k. \<exists>j. length j = 50 \<and> carries nif pcb f (image_part st a k @ j)) fs [2..<480] \<and>
     carries nif pcb f (short_packet st) \<and> up 0 0 (below (conn st'))"
proof -
  have L: "link_ok L nif pcb frames up" and c: "conn_ok pcb (conn (shown st))" and u: "length (UdpShort (shown st)) = 23"
    and up: "up 0 0 (below (conn st))"
    and r: "udp_flag (core st) = 1" "jpeg_data_send (core st) = 1" "jpeg_data_pcsend_flag (core st) = 0"
    using assms(1) by (simp_all add: stream_ready_def)
  obtain b c1 where al: "netbuf_new_alloc L 1296 (conn st) = Some (b, c1)" "conn_ok pcb c1"
    "frames (below c1) = frames (below (conn st))" "pb_payload b = 56" "pb_len b = 1296" "pb_tot_len b = 1296"
    "56 + 1296 \<le> length (pb_mem b)" "up 1 1 (below c1)"
    using netbuf_new_alloc_ok [OF L c, of 1296 0] up by auto
  let ?st1 = "(shown st)\<lparr>conn := c1\<rparr>"
  have e480: "Suc (Suc 478) = 480" "(2 :: nat) + 478 = 480" by simp_all
  have ip: "image_part ?st1 = image_part st" by (simp add: fun_eq_iff)
  obtain b' c2 f0 fs where s: "send_reused L nif a 480 0 b ?st1 = Some (b', ?st1\<lparr>conn := c2\<rparr>)" "conn_ok pcb c2"
    "frames (below c2) = frames (below c1) @ f0 # fs" "carries nif pcb f0 (image_part st a 0)"
    "list_all2 (\<lambda>f k. \<exists>j. length j = 50 \<and> carries nif pcb f (image_part st a k @ j)) fs [2..<480]"
    "up 1 1 (below c2)"
    using send_reused_ok [OF L _ al(4-7), of ?st1 a 478, unfolded e480] al(2,8) ip by simp blast
  let ?st2 = "(shown st)\<lparr>conn := netbuf_delete L b' c2\<rparr>"
  have sp: "short_packet ?st2 = short_packet st" by (simp add: short_packet_def shown_def)
  obtain c3 f where t: "send_short L nif ?st2 = Some (?st2\<lparr>UdpShort := short_packet st, conn := c3\<rparr>)"
    "frames (below c3) = frames (below c2) @ [f]" "carries nif pcb f (short_packet st)"
    "up 0 0 (below c3)"
    using send_short_ok [OF L, of ?st2] netbuf_delete_ok [OF L s(2), of 0 b'] s(6) u by (auto simp: sp)
  have "imgcamera_round L nif (pos, st) =
      Some (catch_pos (currentcatch st) pos, image_sent (?st2\<lparr>UdpShort := short_packet st, conn := c3\<rparr>))"
    using al(1) s(1) t(1) r assms(2)
    by (simp add: imgcamera_round_eq send_mode0_def UDPIMAGESIZE_def UDPIMAGEDC_def Let_def)
  then show ?thesis
    using s(3-5) t(2-4) al(3) by (intro exI [where x = "image_sent (?st2\<lparr>UdpShort := short_packet st, conn := c3\<rparr>)"]
        exI [where x = f0] exI [where x = fs] exI [where x = f]) (simp add: image_sent_def)
qed

lemma u8_less_3: "(c :: u8) < 3 \<Longrightarrow> c = 0 \<or> c = 1 \<or> c = 2"
  by (cases "unat c") (auto simp: word_less_nat_alt word_unat_eq_iff)

lemma catch_pos_prev: "c < 3 \<Longrightarrow> catch_pos ((c + 1) mod 3) old = c"
  by (drule u8_less_3) (auto simp: catch_pos_def)

text \<open>C1: A frame of full DMA transfers and a rest, at most 2488320 bytes, whose interrupts left it in
  an image buffer is sent by the next round of imgcamera_task in mode 1, while lwIP's heap, its
  pool of netbufs, the ARP cache and the driver have what a send takes (link_ok, shown of the
  repository's heap and cache in Lwip_Link): 960 Ethernet frames, each the datagram of its part
  with its IP and UDP headers to the peer, whose payloads behind the 4-byte index are, put
  together, the collected bytes from byte 32 on, as far as 1244160, and then the short packet. The
  collected bytes are those of the full transfers, in order, and for the rest the first bytes of
  the last full transfer again, because the frame interrupt reads the line buffer that the DMA is
  not filling. The buffer that is sent is not the one being captured into.\<close>

theorem frame_streamed:
  assumes "cam_layout st" "currentcatch st < 3" "jpeg_data_ok st = 0" "jpeg_data_len st = 0"
    and "es \<noteq> []" "\<forall>e\<in>set es. length (snd e) = 16384" "length ds = 4 * n" "n \<le> 4096"
    and "16384 * length es + 4 * n \<le> 2488320"
    and "st1 = frame_event (fst (last es), ds) (fold line_event es st)" "stream_ready L nif pcb frames up st1 1"
    and "bs = concat (map snd es) @ take (4 * n) (snd (last es))"
  shows "\<exists>pos' st' fs f. imgcamera_round L nif (pos, st1) = Some (pos', st') \<and>
     frames (below (conn st')) = frames (below (conn st1)) @ fs @ [f] \<and> length fs = 960 \<and>
     take (length bs - 32) (concat (map (drop 46) fs)) = take (960 * 1296) (drop 32 bs) \<and>
     list_all2 (carries nif pcb) fs (map (indexed_datagram st1 (img st ! unat (currentcatch st) + 32)) [0..<960]) \<and>
     carries nif pcb f (short_packet st1) \<and> pos' \<noteq> currentcatch st1 \<and>
     jpeg_data_ok st' = 2 \<and> jpeg_data_send (core st') = 0 \<and> up 0 0 (below (conn st'))"
proof -
  let ?c = "currentcatch st"
  let ?a = "img st ! unat ?c + 32"
  have len: "length bs = 16384 * length es + 4 * n"
    using assms(5,6,8) by (simp add: assms(12) length_concat comp_def cong: map_cong) (simp add: sum_list_triv)
  have cap: "mem_bytes (bytes_of st1) (img st ! unat ?c) (length bs) = bs"
    "currentcatch st1 = (?c + 1) mod 3" "jpeg_data_ok st1 = 1" "img st1 = img st"
    using frame_capture_effect [OF assms(1-10)] unfolding len by (simp_all add: assms(12))
  have pos: "catch_pos (currentcatch st1) pos = ?c" using catch_pos_prev [OF assms(2)] cap(2) by simp
  obtain st' fs f where r: "imgcamera_round L nif (pos, st1) = Some (?c, st')"
    "frames (below (conn st')) = frames (below (conn st1)) @ fs @ [f]"
    "list_all2 (carries nif pcb) fs (map (indexed_datagram st1 ?a) [0..<960])" "carries nif pcb f (short_packet st1)"
    "concat (map (drop 46) fs) = mem_bytes (bytes_of st1) ?a (960 * 1296)"
    "jpeg_data_send (core st') = 0" "jpeg_data_ok st' = 2" "up 0 0 (below (conn st'))"
    using image_stream_complete [OF assms(11) refl, of pos] cap(3,4) unfolding pos by auto
  have "bs ! (32 + i) = bytes_of st1 (?a + of_nat i)" if "32 + i < length bs" for i
    using arg_cong [OF cap(1), of "\<lambda>l. l ! (32 + i)"] that by (simp add: nth_mem_bytes add.assoc)
  then have "take (length bs - 32) (mem_bytes (bytes_of st1) ?a (960 * 1296)) = take (960 * 1296) (drop 32 bs)"
    by (intro nth_equalityI) (auto simp: nth_mem_bytes less_diff_conv add.commute [of _ 32])
  moreover have "?c \<noteq> currentcatch st1"
    using u8_less_3 [OF assms(2)] unfolding cap(2) by auto
  ultimately show ?thesis using r list_all2_lengthD [OF r(3)] by auto
qed

end
