(* ===== verification/Cam_Image.thy ===== *)
theory Cam_Image
  imports Prelude "HOL-Library.Monad_Syntax"
begin

text \<open>
  The pixel conversions of the camera (\<^verbatim>\<open>HARDWARE/MT9P031D/MT9P031D.c\<close>): the Bayer image of the
  sensor and grey images to 16-bit colour.  Reads and writes past an image are \<^verbatim>\<open>None\<close>.  The
  index arithmetic of \<^verbatim>\<open>long\<close> is that of the integers; the images are smaller than the address
  space.
\<close>

section \<open>Loops and pixels\<close>

text \<open>\<^verbatim>\<open>for (i = 0; i < n; i++)\<close>\<close>

primrec for_loop :: "nat \<Rightarrow> (nat \<Rightarrow> 'a \<Rightarrow> 'a option) \<Rightarrow> 'a \<Rightarrow> 'a option" where
  "for_loop 0 f s = Some s"
| "for_loop (Suc n) f s = do { s \<leftarrow> for_loop n f s; f n s }"

definition rgb_24_2_565 :: "u32 \<Rightarrow> u32 \<Rightarrow> u32 \<Rightarrow> u16" where
  "rgb_24_2_565 r g b =
     ucast ((push_bit 8 r AND 0xF800) OR (push_bit 3 g AND 0x7E0) OR drop_bit 3 b)"

definition pixel_at :: "'a list \<Rightarrow> int \<Rightarrow> 'a option" where
  "pixel_at xs i = (if 0 \<le> i \<and> i < int (length xs) then Some (xs ! nat i) else None)"

definition put_pixel :: "int \<Rightarrow> 'a \<Rightarrow> 'a list \<Rightarrow> 'a list option" where
  "put_pixel i v xs = (if 0 \<le> i \<and> i < int (length xs) then Some (xs[nat i := v]) else None)"

text \<open>A red, two green and a blue site.\<close>

definition green_mean :: "u8 \<Rightarrow> u8 \<Rightarrow> u8" where
  "green_mean a b = ucast (drop_bit 1 (ucast a + ucast b :: u32))"

definition sites :: "u8 list \<Rightarrow> int \<Rightarrow> int \<Rightarrow> int \<Rightarrow> int \<Rightarrow> (u8 \<times> u8 \<times> u8) option" where
  "sites bayer r g1 g2 b =
     do {
       red \<leftarrow> pixel_at bayer r;
       v1 \<leftarrow> pixel_at bayer g1;
       v2 \<leftarrow> pixel_at bayer g2;
       blue \<leftarrow> pixel_at bayer b;
       Some (red, green_mean v1 v2, blue)
     }"

definition bayer_pixel :: "u8 list \<Rightarrow> int \<Rightarrow> int \<Rightarrow> int \<Rightarrow> int \<Rightarrow> (u8 \<times> u8 \<times> u8) option" where
  "bayer_pixel bayer width height y x =
     (if x = 0 then
        (if y = 0 then sites bayer (x+1) x (x+1 + (y+1)*width) ((y+1)*width)
         else if y = height - 1 then sites bayer (x+1 + (y-1)*width) ((x+1) + y*width) (x + (y-1)*width) (x + y*width)
         else if y mod 2 = 1 then sites bayer (x+1 + (y+1)*width) (x+1 + y*width) (x + (y+1)*width) (x + y*width)
         else sites bayer (x+1 + y*width) (x+1 + (y+1)*width) (x + y*width) (x + (y+1)*width))
      else if x = width - 1 then
        (if y = 0 then sites bayer (x + y*width) (x + (y+1)*width) (x-1 + y*width) (x-1 + (y+1)*width)
         else if y = height - 1 then sites bayer (x + (y-1)*width) (x + y*width) (x-1 + (y-1)*width) (x-1 + (y-1)*width)
         else if y mod 2 = 1 then sites bayer (x + (y+1)*width) (x + y*width) (x-1 + (y+1)*width) (x-1 + y*width)
         else sites bayer (x + y*width) (x + (y+1)*width) (x-1 + y*width) (x-1 + (y+1)*width))
      else if x mod 2 = 1 then
        (if y = 0 then sites bayer (x + y*width) (x + (y+1)*width) (x-1 + y*width) (x-1 + (y+1)*width)
         else if y = height - 1 then sites bayer (x + (y-1)*width) (x + y*width) (x-1 + (y-1)*width) (x-1 + y*width)
         else if y mod 2 = 1 then sites bayer (x + (y+1)*width) (x + y*width) (x-1 + (y+1)*width) (x-1 + y*width)
         else sites bayer (x + y*width) (x + (y+1)*width) (x-1 + y*width) (x-1 + (y+1)*width))
      else
        (if y = 0 then sites bayer (x-1 + y*width) (x + y*width) (x-1 + (y+1)*width) (x + (y+1)*width)
         else if y = height - 1 then sites bayer (x-1 + (y-1)*width) (x + (y-1)*width) (x-1 + y*width) (x + y*width)
         else if y mod 2 = 0 then sites bayer (x-1 + y*width) (x + y*width) (x-1 + (y+1)*width) (x + (y+1)*width)
         else sites bayer (x-1 + (y+1)*width) (x + (y+1)*width) (x-1 + y*width) (x + y*width)))"

definition bayer2rgb24_bingo :: "u16 list \<Rightarrow> u8 list \<Rightarrow> int \<Rightarrow> int \<Rightarrow> u16 list option" where
  "bayer2rgb24_bingo dst src width height =
     for_loop (nat height) (\<lambda>y image.
       for_loop (nat width) (\<lambda>x image. do {
         (red, green, blue) \<leftarrow> bayer_pixel src width height (int y) (int x);
         put_pixel (int y * width + int x) (rgb_24_2_565 (ucast red) (ucast green) (ucast blue)) image
       }) image) dst"

text \<open>\<^verbatim>\<open>GRAYTORGB16\<close> on a byte, which is an \<^verbatim>\<open>int\<close> there.\<close>

definition GRAYTORGB16 :: "u32 \<Rightarrow> u32" where
  "GRAYTORGB16 t = drop_bit 3 t OR push_bit 3 (t AND NOT 3) OR push_bit 8 (t AND NOT 7)"

definition gray2rgb565_bingo :: "u16 list \<Rightarrow> u8 list \<Rightarrow> int \<Rightarrow> int \<Rightarrow> u16 list option" where
  "gray2rgb565_bingo dst src width height =
     for_loop (nat height) (\<lambda>y image.
       for_loop (nat width) (\<lambda>x image. do {
         t \<leftarrow> pixel_at src (int y * width + int x);
         put_pixel (int y * width + int x) (ucast (GRAYTORGB16 (ucast t))) image
       }) image) dst"

section \<open>Filling an image\<close>

text \<open>A pair of loops that stores at \<^verbatim>\<open>(y, x)\<close> a value that does not depend on the image.\<close>

lemma row_filled:
  assumes "\<And>x. x < n \<Longrightarrow> v x = Some (c x)" "0 \<le> b" "b + int n \<le> int (length img)"
  shows "for_loop n (\<lambda>x image. do { t \<leftarrow> v x; put_pixel (b + int x) (k t) image }) img =
    Some (map (\<lambda>i. if nat b \<le> i \<and> i < nat b + n then k (c (i - nat b)) else img ! i) [0..<length img])"
  using assms
proof (induction n)
  case 0
  show ?case by simp (rule nth_equalityI, auto)
next
  case (Suc n)
  let ?m = "map (\<lambda>i. if nat b \<le> i \<and> i < nat b + n then k (c (i - nat b)) else img ! i) [0..<length img]"
  have IH: "for_loop n (\<lambda>x image. do { t \<leftarrow> v x; put_pixel (b + int x) (k t) image }) img = Some ?m"
    using Suc.prems by (intro Suc.IH) auto
  have i: "nat (b + int n) = nat b + n" "b + int n < int (length img)" using Suc.prems by linarith+
  have "?m[nat b + n := k (c n)] =
      map (\<lambda>i. if nat b \<le> i \<and> i < nat b + Suc n then k (c (i - nat b)) else img ! i) [0..<length img]"
  proof (rule nth_equalityI)
    fix i assume "i < length (?m[nat b + n := k (c n)])"
    then show "?m[nat b + n := k (c n)] ! i =
        map (\<lambda>i. if nat b \<le> i \<and> i < nat b + Suc n then k (c (i - nat b)) else img ! i) [0..<length img] ! i"
      by (cases "i = nat b + n") (auto simp: nth_list_update)
  qed simp
  then show ?case using IH Suc.prems i by (simp add: put_pixel_def)
qed

lemma image_filled:
  assumes v: "\<And>y x. y < h \<Longrightarrow> x < w \<Longrightarrow> v y x = Some (c y x)" and len: "w * h \<le> length img"
  shows "for_loop h (\<lambda>y image. for_loop w (\<lambda>x image. do { t \<leftarrow> v y x; put_pixel (int y * int w + int x) (k t) image }) image) img =
    Some (map (\<lambda>i. if i < w * h then k (c (i div w) (i mod w)) else img ! i) [0..<length img])"
  using assms
proof (induction h)
  case 0
  show ?case by simp (rule nth_equalityI, auto)
next
  case (Suc h)
  let ?m = "map (\<lambda>i. if i < w * h then k (c (i div w) (i mod w)) else img ! i) [0..<length img]"
  let ?n = "map (\<lambda>i. if nat (int h * int w) \<le> i \<and> i < nat (int h * int w) + w then k (c h (i - nat (int h * int w))) else ?m ! i) [0..<length ?m]"
  have IH: "for_loop h (\<lambda>y image. for_loop w (\<lambda>x image. do { t \<leftarrow> v y x; put_pixel (int y * int w + int x) (k t) image }) image) img =
      Some ?m"
    using Suc.prems by (intro Suc.IH) auto
  have row: "for_loop w (\<lambda>x image. do { t \<leftarrow> v h x; put_pixel (int h * int w + int x) (k t) image }) ?m = Some ?n"
  proof (rule row_filled)
    show "int h * int w + int w \<le> int (length ?m)" using Suc.prems(2) by (simp add: algebra_simps flip: of_nat_mult of_nat_add)
  qed (use Suc.prems(1) in auto)
  have hw: "nat (int h * int w) = w * h" by (simp add: nat_mult_distrib mult.commute)
  have "?n = map (\<lambda>i. if i < w * Suc h then k (c (i div w) (i mod w)) else img ! i) [0..<length img]"
  proof (rule nth_equalityI)
    fix i assume "i < length ?n"
    then have il: "i < length img" by simp
    show "?n ! i = map (\<lambda>i. if i < w * Suc h then k (c (i div w) (i mod w)) else img ! i) [0..<length img] ! i"
    proof (cases "w * h \<le> i \<and> i < w * h + w")
      case True
      then have "i div w = h" by (intro div_nat_eqI) (simp_all add: mult.commute)
      then have "i mod w = i - w * h" by (simp add: minus_div_mult_eq_mod [symmetric] mult.commute)
      then show ?thesis using il True \<open>i div w = h\<close> by (simp add: hw)
    next
      case False
      then show ?thesis using il by (auto simp: hw)
    qed
  qed simp
  then show ?case using IH row by simp
qed

section \<open>The Bayer pattern\<close>

text \<open>The sensor has green and red sites in its even rows, blue and green ones in its odd rows.  The
  reference takes for a pixel the two-by-two window of its own and the previous column (the next
  in the first column) and of its own and the next row (the previous in the last row).\<close>

definition demosaic_ref :: "u8 list \<Rightarrow> nat \<Rightarrow> nat \<Rightarrow> nat \<Rightarrow> nat \<Rightarrow> u8 \<times> u8 \<times> u8" where
  "demosaic_ref src w h y x =
     (let c = (if x = 0 then 0 else x - 1); r = (if y = h - 1 then y - 1 else y);
          even_row = (if even r then r else r + 1); odd_row = (if even r then r + 1 else r);
          even_col = (if even c then c else c + 1); odd_col = (if even c then c + 1 else c)
      in (src ! (even_row * w + odd_col),
          green_mean (src ! (even_row * w + even_col)) (src ! (odd_row * w + odd_col)),
          src ! (odd_row * w + even_col)))"

lemma sites_eq:
  assumes "r < length s" "g1 < length s" "g2 < length s" "b < length s"
  shows "sites s (int r) (int g1) (int g2) (int b) = Some (s ! r, green_mean (s ! g1) (s ! g2), s ! b)"
  using assms by (simp add: sites_def pixel_at_def)

lemma green_mean_commute: "green_mean a b = green_mean b a"
  by (simp add: green_mean_def add.commute)

lemma cell_less: "(a :: nat) < h \<Longrightarrow> b < w \<Longrightarrow> a * w + b < h * w"
proof -
  assume "a < h" "b < w"
  then have "a * w + b < Suc a * w" "Suc a * w \<le> h * w" by (simp, intro mult_le_mono1) simp
  then show ?thesis by (rule less_le_trans)
qed

lemma bayer_pixel_window:
  assumes w: "even w" "2 \<le> w" and h: "even h" "2 \<le> h" and xy: "x < w" "y < h" "(y, x) \<noteq> (h - 1, w - 1)"
    and len: "h * w \<le> length src"
  shows "bayer_pixel src (int w) (int h) (int y) (int x) = Some (demosaic_ref src w h y x)"
proof -
  define c where "c = (if x = 0 then 0 else x - 1)"
  define r where "r = (if y = h - 1 then y - 1 else y)"
  define er where "er = (if even r then r else r + 1)"
  define od where "od = (if even r then r + 1 else r)"
  define ec where "ec = (if even c then c else c + 1)"
  define oc where "oc = (if even c then c + 1 else c)"
  have "bayer_pixel src (int w) (int h) (int y) (int x) \<in>
      {sites src (int (er * w + oc)) (int (er * w + ec)) (int (od * w + oc)) (int (od * w + ec)),
       sites src (int (er * w + oc)) (int (od * w + oc)) (int (er * w + ec)) (int (od * w + ec))}"
  proof (cases x)
    case 0
    show ?thesis
    proof (cases "y = h - 1")
      case True
      obtain a where "h = 2 + a" using h(2) by (metis le_Suc_ex)
      then have a: "y = Suc a" "h = Suc (Suc a)" "even a" using True h(1) by simp_all
      show ?thesis by (simp add: bayer_pixel_def 0 a er_def od_def ec_def oc_def c_def r_def algebra_simps)
    next
      case False
      then have "int y \<noteq> int h - 1" using h by linarith
      then show ?thesis using False
        by (cases "even y"; cases "y = 0") (auto simp: bayer_pixel_def 0 er_def od_def ec_def oc_def c_def r_def algebra_simps)
    qed
  next
    case (Suc a)
    show ?thesis
    proof (cases "y = h - 1")
      case True
      obtain b where "h = 2 + b" using h(2) by (metis le_Suc_ex)
      then have b: "y = Suc b" "h = Suc (Suc b)" "even b" using True h(1) by simp_all
      have "int x \<noteq> int w - 1" using xy True w by auto
      then show ?thesis
        by (cases "even a") (auto simp: bayer_pixel_def Suc b er_def od_def ec_def oc_def c_def r_def algebra_simps)
    next
      case False
      then have n: "int y \<noteq> int h - 1" using h by linarith
      have "odd x" if "int x = int w - 1"
      proof -
        have "w = Suc x" using that by linarith
        then show ?thesis using w(1) by simp
      qed
      then show ?thesis using n False
        by (cases "even a"; cases "even y"; cases "y = 0")
          (auto simp: bayer_pixel_def Suc er_def od_def ec_def oc_def c_def r_def algebra_simps)
    qed
  qed
  then consider
      "bayer_pixel src (int w) (int h) (int y) (int x) = sites src (int (er * w + oc)) (int (er * w + ec)) (int (od * w + oc)) (int (od * w + ec))"
    | "bayer_pixel src (int w) (int h) (int y) (int x) = sites src (int (er * w + oc)) (int (od * w + oc)) (int (er * w + ec)) (int (od * w + ec))"
    by blast
  moreover have "er < h" "od < h" "ec < w" "oc < w"
  proof -
    have "r + 1 < h" "c + 1 < w" using w h xy by (auto simp: r_def c_def)
    then show "er < h" "od < h" "ec < w" "oc < w" by (simp_all add: er_def od_def ec_def oc_def)
  qed
  then have "er * w + oc < length src" "er * w + ec < length src" "od * w + oc < length src" "od * w + ec < length src"
    using cell_less len less_le_trans by blast+
  moreover have "demosaic_ref src w h y x =
      (src ! (er * w + oc), green_mean (src ! (er * w + ec)) (src ! (od * w + oc)), src ! (od * w + ec))"
    by (simp add: demosaic_ref_def Let_def er_def od_def ec_def oc_def c_def r_def)
  ultimately show ?thesis
    by cases (simp_all only: sites_eq green_mean_commute [of "src ! (od * w + oc)" "src ! (er * w + ec)"])
qed

text \<open>The last pixel takes its blue value from a green site.\<close>

lemma bayer_pixel_corner:
  assumes w: "even w" "2 \<le> w" and h: "even h" "2 \<le> h" and len: "h * w \<le> length src"
  shows "bayer_pixel src (int w) (int h) (int (h - 1)) (int (w - 1)) =
    (case demosaic_ref src w h (h - 1) (w - 1) of (r, g, b) \<Rightarrow> Some (r, g, src ! ((h - 2) * w + (w - 2))))"
proof -
  obtain a where "h = 2 + a" using h(2) by (metis le_Suc_ex)
  then have a: "h = Suc (Suc a)" "even a" using h(1) by simp_all
  obtain b where "w = 2 + b" using w(2) by (metis le_Suc_ex)
  then have b: "w = Suc (Suc b)" "even b" using w(1) by simp_all
  have "bayer_pixel src (int w) (int h) (int (h - 1)) (int (w - 1)) =
      sites src (int (a * w + Suc b)) (int (Suc a * w + Suc b)) (int (a * w + b)) (int (a * w + b))"
    by (simp add: bayer_pixel_def a b algebra_simps)
  moreover have "Suc a * w + Suc b < h * w" "a * w + Suc b < h * w" "a * w + b < h * w"
    by (intro cell_less; simp add: a b)+
  ultimately show ?thesis
    using len green_mean_commute [of "src ! (a * w + b)"] a b
    by (subst (asm) sites_eq) (simp_all add: demosaic_ref_def Let_def)
qed

text \<open>C38: bayer2rgb24_bingo on an image of even width and height computes the two-by-two demosaicing
  of the Bayer pattern for every pixel but the bottom right one, whose blue comes from a green
  site.\<close>

theorem bayer2rgb24_demosaics:
  assumes "even w" "2 \<le> w" "even h" "2 \<le> h" and "h * w \<le> length src" "w * h \<le> length dst"
  shows "\<exists>img. bayer2rgb24_bingo dst src (int w) (int h) = Some img \<and> length img = length dst \<and>
    (\<forall>y<h. \<forall>x<w. case demosaic_ref src w h y x of (red, green, blue) \<Rightarrow>
       img ! (y * w + x) = rgb_24_2_565 (ucast red) (ucast green)
         (ucast (if (y, x) = (h - 1, w - 1) then src ! ((h - 2) * w + (w - 2)) else blue))) \<and>
    (\<forall>i. w * h \<le> i \<and> i < length dst \<longrightarrow> img ! i = dst ! i)"
proof -
  define px where "px y x = (case demosaic_ref src w h y x of (r, g, b) \<Rightarrow>
    (r, g, if (y, x) = (h - 1, w - 1) then src ! ((h - 2) * w + (w - 2)) else b))" for y x
  define k where "k = (\<lambda>(r :: u8, g :: u8, b :: u8). rgb_24_2_565 (ucast r) (ucast g) (ucast b))"
  let ?img = "map (\<lambda>i. if i < w * h then k (px (i div w) (i mod w)) else dst ! i) [0..<length dst]"
  have v: "bayer_pixel src (int w) (int h) (int y) (int x) = Some (px y x)" if "y < h" "x < w" for y x
    using bayer_pixel_window [OF assms(1-4) that(2,1) _ assms(5)] bayer_pixel_corner [OF assms(1-5)]
    by (cases "(y, x) = (h - 1, w - 1)") (auto simp: px_def split: prod.splits)
  have "bayer2rgb24_bingo dst src (int w) (int h) = Some ?img"
    using image_filled [OF v assms(6), where k = k] by (simp add: bayer2rgb24_bingo_def k_def case_prod_unfold)
  moreover have "?img ! (y * w + x) = k (px y x)" if "y < h" "x < w" for y x
    using that cell_less [OF that] assms(6) by (simp add: mult.commute)
  ultimately show ?thesis
    by (intro exI [where x = ?img]) (auto simp: k_def px_def split: prod.splits)
qed

theorem bayer2rgb24_demosaics_witness:
  "\<exists>img. bayer2rgb24_bingo [0, 0, 0, 0] [100, 200, 40, 60] 2 2 = Some img \<and> length img = 4"
  using bayer2rgb24_demosaics [of 2 2 "[100, 200, 40, 60]" "[0, 0, 0, 0]"] by auto

section \<open>Grey images\<close>

lemma GRAYTORGB16_eq: "ucast (GRAYTORGB16 (ucast t)) = rgb_24_2_565 (ucast t) (ucast t) (ucast (t :: u8))"
proof (rule bit_word_eqI)
  fix n assume "n < LENGTH(16)"
  then have "n \<in> set [0..<16]" by simp
  then consider "n = 0" | "n = 1" | "n = 2" | "n = 3" | "n = 4" | "n = 5" | "n = 6" | "n = 7" | "n = 8" | "n = 9" | "n = 10"
    | "n = 11" | "n = 12" | "n = 13" | "n = 14" | "n = 15" by (auto simp: upt_rec)
  moreover have hi: "\<not> bit t k" if "8 \<le> k" for k using bit_imp_le_length [of t k] that by auto
  ultimately show "bit (ucast (GRAYTORGB16 (ucast t)) :: u16) n = bit (rgb_24_2_565 (ucast t) (ucast t) (ucast t)) n"
    by cases (auto simp: GRAYTORGB16_def rgb_24_2_565_def bit_simps hi)
qed

lemma gray2rgb565_converts:
  assumes "h * w \<le> length src" "w * h \<le> length dst"
  shows "gray2rgb565_bingo dst src (int w) (int h) =
    Some (map (\<lambda>i. if i < w * h then rgb_24_2_565 (ucast (src ! i)) (ucast (src ! i)) (ucast (src ! i)) else dst ! i)
      [0..<length dst])"
proof -
  have v: "pixel_at src (int y * int w + int x) = Some (src ! (y * w + x))" if "y < h" "x < w" for y x
    using cell_less [OF that] assms(1) by (simp add: pixel_at_def nat_add_distrib nat_mult_distrib flip: of_nat_mult of_nat_add)
  show ?thesis
    using image_filled [OF v assms(2), where k = "\<lambda>t. ucast (GRAYTORGB16 (ucast t))"]
    by (simp add: gray2rgb565_bingo_def GRAYTORGB16_eq)
qed

end
