(* ===== verification/Os_Bitmap.thy ===== *)
theory Os_Bitmap
  imports Prelude
begin

text \<open>
  The priority bitmaps of uC/OS-II (\<^verbatim>\<open>UCOSII/uCOS-II/Source/os_core.c\<close>): 64 priorities kept in 8
  bytes with one more byte that marks the rows in use.  The ready list and the waiting list of
  every event are such bitmaps.  The interface \<^verbatim>\<open>prio_queue\<close> states what the kernel needs of
  them, a set of priorities with its least element, and is proved for the code's bitmaps.
\<close>

section \<open>The table that resolves a byte to its lowest bit\<close>

definition OSUnMapTbl :: "u8 list" where
  "OSUnMapTbl =
    [0, 0, 1, 0, 2, 0, 1, 0, 3, 0, 1, 0, 2, 0, 1, 0,
     4, 0, 1, 0, 2, 0, 1, 0, 3, 0, 1, 0, 2, 0, 1, 0,
     5, 0, 1, 0, 2, 0, 1, 0, 3, 0, 1, 0, 2, 0, 1, 0,
     4, 0, 1, 0, 2, 0, 1, 0, 3, 0, 1, 0, 2, 0, 1, 0,
     6, 0, 1, 0, 2, 0, 1, 0, 3, 0, 1, 0, 2, 0, 1, 0,
     4, 0, 1, 0, 2, 0, 1, 0, 3, 0, 1, 0, 2, 0, 1, 0,
     5, 0, 1, 0, 2, 0, 1, 0, 3, 0, 1, 0, 2, 0, 1, 0,
     4, 0, 1, 0, 2, 0, 1, 0, 3, 0, 1, 0, 2, 0, 1, 0,
     7, 0, 1, 0, 2, 0, 1, 0, 3, 0, 1, 0, 2, 0, 1, 0,
     4, 0, 1, 0, 2, 0, 1, 0, 3, 0, 1, 0, 2, 0, 1, 0,
     5, 0, 1, 0, 2, 0, 1, 0, 3, 0, 1, 0, 2, 0, 1, 0,
     4, 0, 1, 0, 2, 0, 1, 0, 3, 0, 1, 0, 2, 0, 1, 0,
     6, 0, 1, 0, 2, 0, 1, 0, 3, 0, 1, 0, 2, 0, 1, 0,
     4, 0, 1, 0, 2, 0, 1, 0, 3, 0, 1, 0, 2, 0, 1, 0,
     5, 0, 1, 0, 2, 0, 1, 0, 3, 0, 1, 0, 2, 0, 1, 0,
     4, 0, 1, 0, 2, 0, 1, 0, 3, 0, 1, 0, 2, 0, 1, 0]"

fun lowest_bit :: "nat \<Rightarrow> nat" where
  "lowest_bit n = (if n = 0 \<or> odd n then 0 else Suc (lowest_bit (n div 2)))"

declare lowest_bit.simps [simp del]

lemma OSUnMapTbl_lowest: "map unat OSUnMapTbl = map lowest_bit [0..<256]"
  by code_simp

lemma lowest_bit_bit: "n \<noteq> 0 \<Longrightarrow> bit n (lowest_bit n) \<and> (\<forall>j < lowest_bit n. \<not> bit n j)"
proof (induction n rule: lowest_bit.induct)
  case (1 n)
  show ?case
  proof (cases "odd n")
    case True
    then show ?thesis using 1 by (simp add: lowest_bit.simps [of n] bit_0)
  next
    case False
    then have n2: "n div 2 \<noteq> 0" using 1 by auto
    have l: "lowest_bit n = Suc (lowest_bit (n div 2))" using False 1 by (simp add: lowest_bit.simps [of n])
    have ih: "bit (n div 2) (lowest_bit (n div 2))" "\<forall>j<lowest_bit (n div 2). \<not> bit (n div 2) j"
      using 1 False n2 by auto
    have "\<not> bit n j" if "j < lowest_bit n" for j
      using that ih(2) False l by (cases j) (auto simp: bit_0 bit_Suc)
    then show ?thesis using ih(1) l by (simp add: bit_Suc)
  qed
qed

lemma bit_nonzero: "bit (w :: u8) k \<Longrightarrow> w \<noteq> 0"
  by auto

lemma bit_u8_lt: "bit (w :: u8) k \<Longrightarrow> k < 8"
  using bit_imp_le_length [of w k] by simp

lemma OSUnMapTbl_low:
  fixes w :: u8
  assumes "w \<noteq> 0"
  defines "k \<equiv> unat (OSUnMapTbl ! unat w)"
  shows "k < 8 \<and> bit w k \<and> (\<forall>j<k. \<not> bit w j)"
proof -
  have len: "length OSUnMapTbl = 256" by (simp add: OSUnMapTbl_def)
  have "map unat OSUnMapTbl ! unat w = lowest_bit (unat w)"
    unfolding OSUnMapTbl_lowest by (simp del: upt_Suc)
  then have k: "k = lowest_bit (unat w)" using len unat_u8_bound [of w] by (simp add: k_def)
  have "unat w \<noteq> 0" using assms(1) by (simp add: unat_eq_0)
  from lowest_bit_bit [OF this] have "bit w k \<and> (\<forall>j<k. \<not> bit w j)"
    by (simp add: k bit_unsigned_iff bit_imp_le_length)
  then show ?thesis using bit_u8_lt by blast
qed

section \<open>Rows and columns of a priority\<close>

definition prio_y :: "u8 \<Rightarrow> u8" where "prio_y p = drop_bit 3 p"
definition prio_x :: "u8 \<Rightarrow> u8" where "prio_x p = p AND 0x07"
definition bit_of :: "u8 \<Rightarrow> u8" where "bit_of k = push_bit (unat k) 1"

lemma unat_prio_y: "unat (prio_y p) = unat p div 8"
  by (simp add: prio_y_def drop_bit_eq_div unat_div_distrib)

lemma unat_prio_x: "unat (prio_x p) = unat p mod 8"
proof -
  have "p AND 0x07 = take_bit 3 p" by (simp add: take_bit_eq_mask mask_eq_exp_minus_1)
  then show ?thesis by (simp add: prio_x_def take_bit_eq_mod unat_mod_distrib)
qed

lemma bit_bit_of: "unat k < 8 \<Longrightarrow> bit (bit_of k) j \<longleftrightarrow> j = unat k"
  by (auto simp: bit_of_def bit_simps)

section \<open>Bitmaps\<close>

text \<open>The row and column of a priority are kept in its task (\<^verbatim>\<open>OSTCBY\<close>, \<^verbatim>\<open>OSTCBBitX\<close>,
  \<^verbatim>\<open>OSTCBBitY\<close>); every insertion and removal in the kernel is one of these two.\<close>

definition map_set :: "u8 \<Rightarrow> u8 \<Rightarrow> u8 \<Rightarrow> u8 \<times> u8 list \<Rightarrow> u8 \<times> u8 list" where
  "map_set y bity bitx m = (fst m OR bity, (snd m)[unat y := snd m ! unat y OR bitx])"

definition map_clear :: "u8 \<Rightarrow> u8 \<Rightarrow> u8 \<Rightarrow> u8 \<times> u8 list \<Rightarrow> u8 \<times> u8 list" where
  "map_clear y bity bitx m =
     (let tbl = (snd m)[unat y := snd m ! unat y AND NOT bitx]
      in (if tbl ! unat y = 0 then fst m AND NOT bity else fst m, tbl))"

definition map_top :: "u8 \<times> u8 list \<Rightarrow> u8" where
  "map_top m =
     (let y = OSUnMapTbl ! unat (fst m)
      in push_bit 3 y + OSUnMapTbl ! unat (snd m ! unat y))"

definition map_empty :: "u8 \<times> u8 list" where
  "map_empty = (0, replicate 8 0)"

definition map_ok :: "u8 \<times> u8 list \<Rightarrow> bool" where
  "map_ok m \<longleftrightarrow> length (snd m) = 8 \<and> (\<forall>y<8. bit (fst m) y \<longleftrightarrow> snd m ! y \<noteq> 0)"

definition prios :: "u8 \<times> u8 list \<Rightarrow> nat set" where
  "prios m = {p. p < 64 \<and> bit (snd m ! (p div 8)) (p mod 8)}"

abbreviation map_ins :: "u8 \<Rightarrow> u8 \<times> u8 list \<Rightarrow> u8 \<times> u8 list" where
  "map_ins p \<equiv> map_set (prio_y p) (bit_of (prio_y p)) (bit_of (prio_x p))"

abbreviation map_del :: "u8 \<Rightarrow> u8 \<times> u8 list \<Rightarrow> u8 \<times> u8 list" where
  "map_del p \<equiv> map_clear (prio_y p) (bit_of (prio_y p)) (bit_of (prio_x p))"

lemma prios_finite [simp]: "finite (prios m)"
  by (rule finite_subset [of _ "{..<64}"]) (auto simp: prios_def)

lemma prios_less: "p \<in> prios m \<Longrightarrow> p < 64"
  by (simp add: prios_def)

lemma prios_map_empty [simp]: "prios map_empty = {}"
  by (auto simp: prios_def map_empty_def)

lemma map_ok_empty [simp]: "map_ok map_empty"
  by (simp add: map_ok_def map_empty_def)

lemma prio_split:
  "(q = unat p) = (q div 8 = unat (prio_y p) \<and> q mod 8 = unat (prio_x p))"
  unfolding unat_prio_y unat_prio_x by (metis div_mult_mod_eq)


lemma prio_yx_less: "unat p < 64 \<Longrightarrow> unat (prio_y p) < 8" "unat (prio_x p) < 8"
  by (simp_all add: unat_prio_y unat_prio_x)

lemma prios_map_ins:
  assumes "map_ok m" "unat p < 64"
  shows "map_ok (map_ins p m)" "prios (map_ins p m) = insert (unat p) (prios m)"
proof -
  have y: "unat (prio_y p) < 8" and x: "unat (prio_x p) < 8" using assms(2) by (simp_all add: prio_yx_less)
  have l: "length (snd m) = 8" using assms(1) by (simp add: map_ok_def)
  have "bit (snd m ! unat (prio_y p) OR bit_of (prio_x p)) (unat (prio_x p))"
    by (simp add: bit_or_iff bit_bit_of x)
  then have "snd m ! unat (prio_y p) OR bit_of (prio_x p) \<noteq> 0" by (rule bit_nonzero)
  then show "map_ok (map_ins p m)"
    using assms(1) by (auto simp: map_ok_def map_set_def nth_list_update bit_or_iff bit_bit_of y)
  show "prios (map_ins p m) = insert (unat p) (prios m)"
  proof (rule set_eqI)
    fix q
    have "q \<in> prios (map_ins p m) \<longleftrightarrow> q < 64 \<and> (bit (snd m ! (q div 8)) (q mod 8) \<or>
        (q div 8 = unat (prio_y p) \<and> q mod 8 = unat (prio_x p)))"
      using l y by (auto simp: prios_def map_set_def nth_list_update bit_or_iff bit_bit_of x)
    then show "q \<in> prios (map_ins p m) \<longleftrightarrow> q \<in> insert (unat p) (prios m)"
      unfolding prio_split [symmetric] using assms(2) by (auto simp: prios_def)
  qed
qed

lemma prios_map_del:
  assumes "map_ok m" "unat p < 64"
  shows "map_ok (map_del p m)" "prios (map_del p m) = prios m - {unat p}"
proof -
  have y: "unat (prio_y p) < 8" and x: "unat (prio_x p) < 8" using assms(2) by (simp_all add: prio_yx_less)
  have l: "length (snd m) = 8" using assms(1) by (simp add: map_ok_def)
  show "map_ok (map_del p m)"
    using assms(1) l y by (auto simp: map_ok_def map_clear_def Let_def nth_list_update bit_and_iff bit_not_iff bit_bit_of)
  show "prios (map_del p m) = prios m - {unat p}"
  proof (rule set_eqI)
    fix q
    have "q \<in> prios (map_del p m) \<longleftrightarrow> q < 64 \<and> bit (snd m ! (q div 8)) (q mod 8) \<and>
        \<not> (q div 8 = unat (prio_y p) \<and> q mod 8 = unat (prio_x p))"
      using l y x by (auto simp: prios_def map_clear_def Let_def nth_list_update bit_and_iff bit_not_iff bit_bit_of)
    then show "q \<in> prios (map_del p m) \<longleftrightarrow> q \<in> prios m - {unat p}"
      unfolding prio_split [symmetric] by (auto simp: prios_def)
  qed
qed

lemma bit_ex_u8: "(w :: u8) \<noteq> 0 \<longleftrightarrow> (\<exists>k<8. bit w k)"
  using u8_cases_bit [of w 0] by (auto dest: bit_nonzero)

lemma prios_empty_iff:
  assumes "map_ok m"
  shows "fst m = 0 \<longleftrightarrow> prios m = {}"
proof
  assume "fst m = 0"
  then have "\<forall>y<8. snd m ! y = 0" using assms by (auto simp: map_ok_def)
  then show "prios m = {}" by (auto simp: prios_def)
next
  assume e: "prios m = {}"
  show "fst m = 0"
  proof (rule ccontr)
    assume "fst m \<noteq> 0"
    then obtain y where y: "y < 8" "bit (fst m) y" using bit_ex_u8 by blast
    then have "snd m ! y \<noteq> 0" using assms by (simp add: map_ok_def)
    then obtain x where "x < 8" "bit (snd m ! y) x" using bit_ex_u8 by blast
    then have "8 * y + x \<in> prios m" using y by (simp add: prios_def)
    then show False using e by simp
  qed
qed

lemma map_top_Min:
  assumes "map_ok m" "prios m \<noteq> {}"
  shows "unat (map_top m) = Min (prios m)" "unat (map_top m) \<in> prios m"
    "prio_y (map_top m) = OSUnMapTbl ! unat (fst m)"
proof -
  let ?y = "unat (OSUnMapTbl ! unat (fst m))"
  have g: "fst m \<noteq> 0" using assms prios_empty_iff by blast
  have y: "?y < 8" "bit (fst m) ?y" "\<forall>j<?y. \<not> bit (fst m) j" using OSUnMapTbl_low [OF g] by auto
  have r: "snd m ! ?y \<noteq> 0" "\<forall>j<?y. snd m ! j = 0" using assms(1) y by (auto simp: map_ok_def)
  let ?x = "unat (OSUnMapTbl ! unat (snd m ! ?y))"
  have x: "?x < 8" "bit (snd m ! ?y) ?x" "\<forall>j<?x. \<not> bit (snd m ! ?y) j" using OSUnMapTbl_low [OF r(1)] by auto
  have s: "unat (push_bit 3 (OSUnMapTbl ! unat (fst m))) = 8 * ?y"
    using y(1) by (simp add: push_bit_eq_mult unat_mult_no_wrap)
  have t: "unat (map_top m) = 8 * ?y + ?x"
    unfolding map_top_def Let_def using s x(1) y(1) by (subst unat_add_no_wrap) simp_all
  have m: "8 * ?y + ?x \<in> prios m" using x y by (simp add: prios_def)
  have "8 * ?y + ?x \<le> q" if "q \<in> prios m" for q
  proof -
    have q: "q div 8 < 8" "bit (snd m ! (q div 8)) (q mod 8)" using that by (auto simp: prios_def)
    then have "?y \<le> q div 8" using r(2) bit_nonzero not_le by blast
    moreover have "?x \<le> q mod 8" if "q div 8 = ?y" using q(2) x(3) that by (metis not_le)
    ultimately show ?thesis using div_mult_mod_eq [of q 8] x(1) by linarith
  qed
  then show "unat (map_top m) = Min (prios m)" unfolding t using m by (intro Min_eqI [symmetric]) auto
  show "unat (map_top m) \<in> prios m" unfolding t by (rule m)
  have "unat (prio_y (map_top m)) = ?y" using x(1) by (simp add: unat_prio_y t)
  then show "prio_y (map_top m) = OSUnMapTbl ! unat (fst m)" by (simp only: word_unat_eq_iff)
qed

section \<open>The interface\<close>

locale prio_queue =
  fixes ok :: "'q \<Rightarrow> bool" and abs :: "'q \<Rightarrow> nat set" and nothing :: "'q \<Rightarrow> bool"
    and ins :: "u8 \<Rightarrow> 'q \<Rightarrow> 'q" and del :: "u8 \<Rightarrow> 'q \<Rightarrow> 'q" and top :: "'q \<Rightarrow> u8"
  assumes bounded: "n \<in> abs q \<Longrightarrow> n < 64"
    and nothing: "ok q \<Longrightarrow> nothing q \<longleftrightarrow> abs q = {}"
    and ok_ins: "ok q \<Longrightarrow> unat p < 64 \<Longrightarrow> ok (ins p q)"
    and abs_ins: "ok q \<Longrightarrow> unat p < 64 \<Longrightarrow> abs (ins p q) = insert (unat p) (abs q)"
    and ok_del: "ok q \<Longrightarrow> unat p < 64 \<Longrightarrow> ok (del p q)"
    and abs_del: "ok q \<Longrightarrow> unat p < 64 \<Longrightarrow> abs (del p q) = abs q - {unat p}"
    and top: "ok q \<Longrightarrow> abs q \<noteq> {} \<Longrightarrow> unat (top q) = Min (abs q)"
begin

lemma finite_abs: "finite (abs q)"
  by (rule finite_subset [of _ "{..<64}"]) (auto dest: bounded)

lemma top_in: "ok q \<Longrightarrow> abs q \<noteq> {} \<Longrightarrow> unat (top q) \<in> abs q"
  using finite_abs by (simp add: top)

lemma top_least: "ok q \<Longrightarrow> n \<in> abs q \<Longrightarrow> unat (top q) \<le> n"
  using finite_abs by (metis Min_le empty_iff top)

lemma del_top_smaller:
  assumes "ok q" "abs q \<noteq> {}"
  shows "ok (del (top q) q)" "card (abs (del (top q) q)) < card (abs q)"
proof -
  have t: "unat (top q) \<in> abs q" "unat (top q) < 64" using top_in [OF assms] bounded by blast+
  show "ok (del (top q) q)" using assms(1) t(2) by (rule ok_del)
  show "card (abs (del (top q) q)) < card (abs q)"
    unfolding abs_del [OF assms(1) t(2)] by (rule card_Diff1_less [OF finite_abs t(1)])
qed

lemma top_ins:
  assumes "ok q" "unat p < 64" "abs q \<noteq> {}"
  shows "unat (top (ins p q)) = min (unat p) (unat (top q))"
  using assms finite_abs by (simp add: top ok_ins abs_ins)

lemma top_del_other:
  assumes "ok q" "unat p < 64" "abs q \<noteq> {}" "unat p \<noteq> unat (top q)"
  shows "unat (top (del p q)) = unat (top q)"
proof -
  have m: "unat (top q) \<in> abs q - {unat p}" using top_in [OF assms(1,3)] assms(4) by simp
  then have "abs (del p q) \<noteq> {}" unfolding abs_del [OF assms(1,2)] by blast
  then have "unat (top (del p q)) = Min (abs q - {unat p})"
    using top [OF ok_del [OF assms(1,2)]] unfolding abs_del [OF assms(1,2)] by blast
  also have "\<dots> = unat (top q)"
    by (rule Min_eqI [OF _ _ m]) (use finite_abs top_least [OF assms(1)] in auto)
  finally show ?thesis .
qed

end

interpretation bm: prio_queue map_ok prios "\<lambda>m. fst m = 0" map_ins map_del map_top
  by unfold_locales (simp_all add: prios_empty_iff prios_map_ins prios_map_del map_top_Min prios_less)

end
