(* ===== verification/Os_Core.thy ===== *)
theory Os_Core
  imports Os_Bitmap "HOL-Library.Monad_Syntax"
begin

text \<open>
  The core of uC/OS-II (\<^verbatim>\<open>UCOSII/uCOS-II/Source/os_core.c\<close>, with the data types of
  \<^verbatim>\<open>ucos_ii.h\<close> and the configuration of \<^verbatim>\<open>uCOS-CONFIG/os_cfg.h\<close>): task and event control blocks,
  the ready list, the scheduler, the waiting lists and the tick.

  A pointer to a task control block is its index in \<^verbatim>\<open>OSTCBTbl\<close>, a pointer to an event its
  index in \<^verbatim>\<open>OSEventTbl\<close>, and the chained lists are lists of indices.  A critical section is
  one step; \<^verbatim>\<open>None\<close> is a dereference of a pointer that is not valid.
\<close>

section \<open>Constants\<close>

definition OS_PRIO_SELF :: u8 where "OS_PRIO_SELF = 0xFF"
definition OS_TASK_IDLE_PRIO :: u8 where "OS_TASK_IDLE_PRIO = 63"
definition OS_LOWEST_PRIO :: u8 where "OS_LOWEST_PRIO = 63"
definition OS_TICKS_PER_SEC :: u32 where "OS_TICKS_PER_SEC = 1000"

definition OS_STAT_RDY :: u8 where "OS_STAT_RDY = 0x00"
definition OS_STAT_SEM :: u8 where "OS_STAT_SEM = 0x01"
definition OS_STAT_MBOX :: u8 where "OS_STAT_MBOX = 0x02"
definition OS_STAT_Q :: u8 where "OS_STAT_Q = 0x04"
definition OS_STAT_SUSPEND :: u8 where "OS_STAT_SUSPEND = 0x08"
definition OS_STAT_MUTEX :: u8 where "OS_STAT_MUTEX = 0x10"
definition OS_STAT_FLAG :: u8 where "OS_STAT_FLAG = 0x20"

definition OS_STAT_PEND_ANY :: u8 where
  "OS_STAT_PEND_ANY = OS_STAT_SEM OR OS_STAT_MBOX OR OS_STAT_Q OR OS_STAT_MUTEX OR OS_STAT_FLAG"

definition OS_STAT_PEND_OK :: u8 where "OS_STAT_PEND_OK = 0"
definition OS_STAT_PEND_TO :: u8 where "OS_STAT_PEND_TO = 1"
definition OS_STAT_PEND_ABORT :: u8 where "OS_STAT_PEND_ABORT = 2"

definition OS_EVENT_TYPE_UNUSED :: u8 where "OS_EVENT_TYPE_UNUSED = 0"
definition OS_EVENT_TYPE_MBOX :: u8 where "OS_EVENT_TYPE_MBOX = 1"
definition OS_EVENT_TYPE_Q :: u8 where "OS_EVENT_TYPE_Q = 2"
definition OS_EVENT_TYPE_SEM :: u8 where "OS_EVENT_TYPE_SEM = 3"

definition OS_TICK_STEP_DIS :: u8 where "OS_TICK_STEP_DIS = 0"
definition OS_TICK_STEP_WAIT :: u8 where "OS_TICK_STEP_WAIT = 1"
definition OS_TICK_STEP_ONCE :: u8 where "OS_TICK_STEP_ONCE = 2"

definition OS_ERR_NONE :: u8 where "OS_ERR_NONE = 0"
definition OS_ERR_EVENT_TYPE :: u8 where "OS_ERR_EVENT_TYPE = 1"
definition OS_ERR_PEND_ISR :: u8 where "OS_ERR_PEND_ISR = 2"
definition OS_ERR_INVALID_OPT :: u8 where "OS_ERR_INVALID_OPT = 7"
definition OS_ERR_TIMEOUT :: u8 where "OS_ERR_TIMEOUT = 10"
definition OS_ERR_PEND_LOCKED :: u8 where "OS_ERR_PEND_LOCKED = 13"
definition OS_ERR_PEND_ABORT :: u8 where "OS_ERR_PEND_ABORT = 14"
definition OS_ERR_DEL_ISR :: u8 where "OS_ERR_DEL_ISR = 15"
definition OS_ERR_PRIO_EXIST :: u8 where "OS_ERR_PRIO_EXIST = 40"
definition OS_ERR_PRIO :: u8 where "OS_ERR_PRIO = 41"
definition OS_ERR_PRIO_INVALID :: u8 where "OS_ERR_PRIO_INVALID = 42"
definition OS_ERR_SCHED_LOCKED :: u8 where "OS_ERR_SCHED_LOCKED = 50"
definition OS_ERR_SEM_OVF :: u8 where "OS_ERR_SEM_OVF = 51"
definition OS_ERR_TASK_CREATE_ISR :: u8 where "OS_ERR_TASK_CREATE_ISR = 60"
definition OS_ERR_TASK_NO_MORE_TCB :: u8 where "OS_ERR_TASK_NO_MORE_TCB = 66"
definition OS_ERR_TASK_NOT_EXIST :: u8 where "OS_ERR_TASK_NOT_EXIST = 67"
definition OS_ERR_TASK_NOT_SUSPENDED :: u8 where "OS_ERR_TASK_NOT_SUSPENDED = 68"
definition OS_ERR_TASK_RESUME_PRIO :: u8 where "OS_ERR_TASK_RESUME_PRIO = 70"
definition OS_ERR_TASK_SUSPEND_PRIO :: u8 where "OS_ERR_TASK_SUSPEND_PRIO = 72"
definition OS_ERR_TASK_WAITING :: u8 where "OS_ERR_TASK_WAITING = 73"
definition OS_ERR_TIME_NOT_DLY :: u8 where "OS_ERR_TIME_NOT_DLY = 80"
definition OS_ERR_TIME_DLY_ISR :: u8 where "OS_ERR_TIME_DLY_ISR = 85"

section \<open>State\<close>

text \<open>An entry of \<^verbatim>\<open>OSTCBPrioTbl\<close>: no task, the marker \<^verbatim>\<open>OS_TCB_RESERVED\<close>, or a task.\<close>

datatype tcb_ptr = NULL | OS_TCB_RESERVED | TCB nat

record os_tcb =
  OSTCBStkPtr :: u32
  OSTCBStkSize :: u32
  OSTCBOpt :: u16
  OSTCBId :: u16
  OSTCBEventPtr :: "nat option"
  OSTCBEventMultiPtr :: "nat list option"
  OSTCBMsg :: u32
  OSTCBDly :: u32
  OSTCBStat :: u8
  OSTCBStatPend :: u8
  OSTCBPrio :: u8
  OSTCBX :: u8
  OSTCBY :: u8
  OSTCBBitX :: u8
  OSTCBBitY :: u8
  OSTCBDelReq :: u8
  OSTCBCtxSwCtr :: u32

record os_event =
  OSEventType :: u8
  OSEventPtr :: u32
  OSEventCnt :: u16
  OSEventGrp :: u8
  OSEventTbl :: "u8 list"

record os =
  OSRdyGrp :: u8
  OSRdyTbl :: "u8 list"
  OSTCBPrioTbl :: "tcb_ptr list"
  OSTCBTbl :: "os_tcb list"
  OSTCBList :: "nat list"
  OSTCBFreeList :: "nat list"
  OSEvents :: "os_event list"
  OSEventFreeList :: "nat list"
  OSPrioCur :: u8
  OSPrioHighRdy :: u8
  OSTCBCur :: tcb_ptr
  OSTCBHighRdy :: tcb_ptr
  OSIntNesting :: u8
  OSLockNesting :: u8
  OSRunning :: bool
  OSTickStepState :: u8
  OSTime :: u32
  OSCtxSwCtr :: u32
  OSTaskCtr :: u8

fun deref :: "tcb_ptr \<Rightarrow> nat option" where
  "deref (TCB i) = Some i"
| "deref _ = None"

definition upd_tcb :: "nat \<Rightarrow> (os_tcb \<Rightarrow> os_tcb) \<Rightarrow> os \<Rightarrow> os" where
  "upd_tcb i f s = s\<lparr>OSTCBTbl := (OSTCBTbl s)[i := f (OSTCBTbl s ! i)]\<rparr>"

definition upd_event :: "nat \<Rightarrow> (os_event \<Rightarrow> os_event) \<Rightarrow> os \<Rightarrow> os" where
  "upd_event e f s = s\<lparr>OSEvents := (OSEvents s)[e := f (OSEvents s ! e)]\<rparr>"

abbreviation rdy_map :: "os \<Rightarrow> u8 \<times> u8 list" where
  "rdy_map s \<equiv> (OSRdyGrp s, OSRdyTbl s)"

abbreviation wait_map :: "os_event \<Rightarrow> u8 \<times> u8 list" where
  "wait_map e \<equiv> (OSEventGrp e, OSEventTbl e)"

definition set_rdy :: "u8 \<times> u8 list \<Rightarrow> os \<Rightarrow> os" where
  "set_rdy m s = s\<lparr>OSRdyGrp := fst m, OSRdyTbl := snd m\<rparr>"

definition set_wait :: "u8 \<times> u8 list \<Rightarrow> os_event \<Rightarrow> os_event" where
  "set_wait m e = e\<lparr>OSEventGrp := fst m, OSEventTbl := snd m\<rparr>"

text \<open>The two pieces of code that enter a task into the ready list and take it out.\<close>

definition make_ready :: "nat \<Rightarrow> os \<Rightarrow> os" where
  "make_ready i s =
     (let t = OSTCBTbl s ! i in set_rdy (map_set (OSTCBY t) (OSTCBBitY t) (OSTCBBitX t) (rdy_map s)) s)"

definition make_unready :: "nat \<Rightarrow> os \<Rightarrow> os" where
  "make_unready i s =
     (let t = OSTCBTbl s ! i in set_rdy (map_clear (OSTCBY t) (OSTCBBitY t) (OSTCBBitX t) (rdy_map s)) s)"

section \<open>Scheduler\<close>

text \<open>\<^verbatim>\<open>OSCtxSw\<close> raises the exception whose handler makes the task of highest priority the
  current one.\<close>

definition OSCtxSw :: "os \<Rightarrow> os" where
  "OSCtxSw s = s\<lparr>OSPrioCur := OSPrioHighRdy s, OSTCBCur := OSTCBHighRdy s\<rparr>"

definition OS_SchedNew :: "os \<Rightarrow> os" where
  "OS_SchedNew s = s\<lparr>OSPrioHighRdy := map_top (rdy_map s)\<rparr>"

definition switch_high :: "os \<Rightarrow> os option" where
  "switch_high s0 =
     (let s1 = OS_SchedNew s0;
          s = s1\<lparr>OSTCBHighRdy := OSTCBPrioTbl s1 ! unat (OSPrioHighRdy s1)\<rparr>
      in if OSPrioHighRdy s \<noteq> OSPrioCur s
         then do {
           i \<leftarrow> deref (OSTCBHighRdy s);
           let s = upd_tcb i (\<lambda>t. t\<lparr>OSTCBCtxSwCtr := OSTCBCtxSwCtr t + 1\<rparr>) s;
           Some (OSCtxSw (s\<lparr>OSCtxSwCtr := OSCtxSwCtr s + 1\<rparr>))
         }
         else Some s)"

definition OS_Sched :: "os \<Rightarrow> os option" where
  "OS_Sched s = (if OSIntNesting s = 0 \<and> OSLockNesting s = 0 then switch_high s else Some s)"

definition OSIntEnter :: "os \<Rightarrow> os" where
  "OSIntEnter s = (if OSRunning s \<and> OSIntNesting s < 255 then s\<lparr>OSIntNesting := OSIntNesting s + 1\<rparr> else s)"

definition OSIntExit :: "os \<Rightarrow> os option" where
  "OSIntExit s0 =
     (if OSRunning s0
      then (let s = (if 0 < OSIntNesting s0 then s0\<lparr>OSIntNesting := OSIntNesting s0 - 1\<rparr> else s0)
            in if OSIntNesting s = 0 \<and> OSLockNesting s = 0 then switch_high s else Some s)
      else Some s0)"

definition OSSchedLock :: "os \<Rightarrow> os" where
  "OSSchedLock s =
     (if OSRunning s \<and> OSIntNesting s = 0 \<and> OSLockNesting s < 255
      then s\<lparr>OSLockNesting := OSLockNesting s + 1\<rparr> else s)"

definition OSSchedUnlock :: "os \<Rightarrow> os option" where
  "OSSchedUnlock s =
     (if OSRunning s \<and> OSIntNesting s = 0 \<and> 0 < OSLockNesting s
      then (let s = s\<lparr>OSLockNesting := OSLockNesting s - 1\<rparr>
            in if OSLockNesting s = 0 then OS_Sched s else Some s)
      else Some s)"

text \<open>\<^verbatim>\<open>OSStartHighRdy\<close> sets \<^verbatim>\<open>OSRunning\<close> and starts the task.\<close>

definition OSStart :: "os \<Rightarrow> os" where
  "OSStart s =
     (if \<not> OSRunning s
      then (let s = OS_SchedNew s;
                s = s\<lparr>OSPrioCur := OSPrioHighRdy s,
                      OSTCBHighRdy := OSTCBPrioTbl s ! unat (OSPrioHighRdy s)\<rparr>
            in s\<lparr>OSTCBCur := OSTCBHighRdy s, OSRunning := True\<rparr>)
      else s)"

section \<open>Waiting lists\<close>

definition OS_EventTaskRemove :: "nat \<Rightarrow> nat \<Rightarrow> os \<Rightarrow> os" where
  "OS_EventTaskRemove i e s =
     (let t = OSTCBTbl s ! i;
          s = upd_event e (\<lambda>ev. set_wait (map_clear (OSTCBY t) (OSTCBBitY t) (OSTCBBitX t) (wait_map ev)) ev) s
      in upd_tcb i (\<lambda>t. t\<lparr>OSTCBEventPtr := None\<rparr>) s)"

fun OS_EventTaskRemoveMulti :: "nat \<Rightarrow> nat list \<Rightarrow> os \<Rightarrow> os" where
  "OS_EventTaskRemoveMulti i [] s = s"
| "OS_EventTaskRemoveMulti i (e # es) s =
     (let t = OSTCBTbl s ! i
      in OS_EventTaskRemoveMulti i es
           (upd_event e (\<lambda>ev. set_wait (map_clear (OSTCBY t) (OSTCBBitY t) (OSTCBBitX t) (wait_map ev)) ev) s))"

definition OS_EventTaskWait :: "nat \<Rightarrow> os \<Rightarrow> os option" where
  "OS_EventTaskWait e s0 =
     do {
       i \<leftarrow> deref (OSTCBCur s0);
       let s = upd_tcb i (\<lambda>t. t\<lparr>OSTCBEventPtr := Some e\<rparr>) s0;
       let t = OSTCBTbl s ! i;
       let s = upd_event e (\<lambda>ev. set_wait (map_set (OSTCBY t) (OSTCBBitY t) (OSTCBBitX t) (wait_map ev)) ev) s;
       Some (make_unready i s)
     }"

definition OS_EventTaskRdy :: "nat \<Rightarrow> u32 \<Rightarrow> u8 \<Rightarrow> u8 \<Rightarrow> os \<Rightarrow> (u8 \<times> os) option" where
  "OS_EventTaskRdy e pmsg msk pend_stat s0 =
     (let ev = OSEvents s0 ! e;
          y = OSUnMapTbl ! unat (OSEventGrp ev);
          x = OSUnMapTbl ! unat (OSEventTbl ev ! unat y);
          prio = push_bit 3 y + x
      in do {
        i \<leftarrow> deref (OSTCBPrioTbl s0 ! unat prio);
        let s = upd_tcb i (\<lambda>t. t\<lparr>OSTCBDly := 0, OSTCBMsg := pmsg, OSTCBStat := OSTCBStat t AND NOT msk,
                                 OSTCBStatPend := pend_stat\<rparr>) s0;
        let t = OSTCBTbl s ! i;
        let s = (if OSTCBStat t AND OS_STAT_SUSPEND = OS_STAT_RDY
                 then set_rdy (map_set y (OSTCBBitY t) (OSTCBBitX t) (rdy_map s)) s else s);
        let s = OS_EventTaskRemove i e s;
        let s = (case OSTCBEventMultiPtr (OSTCBTbl s ! i) of
                   None \<Rightarrow> s
                 | Some es \<Rightarrow> upd_tcb i (\<lambda>t. t\<lparr>OSTCBEventPtr := Some e\<rparr>) (OS_EventTaskRemoveMulti i es s));
        Some (prio, s)
      })"

definition OS_EventWaitListInit :: "nat \<Rightarrow> os \<Rightarrow> os" where
  "OS_EventWaitListInit e = upd_event e (set_wait (0, replicate 8 0))"

section \<open>Tick\<close>

definition tick_task :: "nat \<Rightarrow> os \<Rightarrow> os" where
  "tick_task i s =
     (let t = OSTCBTbl s ! i
      in if OSTCBDly t \<noteq> 0
         then (let t = t\<lparr>OSTCBDly := OSTCBDly t - 1\<rparr>
               in if OSTCBDly t = 0
                  then (let t = (if OSTCBStat t AND OS_STAT_PEND_ANY \<noteq> OS_STAT_RDY
                                 then t\<lparr>OSTCBStat := OSTCBStat t AND NOT OS_STAT_PEND_ANY,
                                        OSTCBStatPend := OS_STAT_PEND_TO\<rparr>
                                 else t\<lparr>OSTCBStatPend := OS_STAT_PEND_OK\<rparr>);
                            s = upd_tcb i (\<lambda>_. t) s
                        in if OSTCBStat t AND OS_STAT_SUSPEND = OS_STAT_RDY then make_ready i s else s)
                  else upd_tcb i (\<lambda>_. t) s)
         else s)"

fun tick_loop :: "nat list \<Rightarrow> os \<Rightarrow> os option" where
  "tick_loop [] s = None"
| "tick_loop (i # is) s =
     (if OSTCBPrio (OSTCBTbl s ! i) = OS_TASK_IDLE_PRIO then Some s
      else tick_loop is (tick_task i s))"

definition OSTimeTick :: "os \<Rightarrow> os option" where
  "OSTimeTick s0 =
     (let s = s0\<lparr>OSTime := OSTime s0 + 1\<rparr>
      in if OSRunning s
         then (let (step, s) =
                 (if OSTickStepState s = OS_TICK_STEP_DIS then (True, s)
                  else if OSTickStepState s = OS_TICK_STEP_WAIT then (False, s)
                  else if OSTickStepState s = OS_TICK_STEP_ONCE
                       then (True, s\<lparr>OSTickStepState := OS_TICK_STEP_WAIT\<rparr>)
                  else (True, s\<lparr>OSTickStepState := OS_TICK_STEP_DIS\<rparr>))
               in if step then tick_loop (OSTCBList s) s else Some s)
         else Some s)"

end
