(* ===== verification/Os_Inv.thy ===== *)
theory Os_Inv
  imports Os_Core
begin

text \<open>
  The invariant of the kernel's data: every task's state (\<^verbatim>\<open>OSTCBStat\<close>, \<^verbatim>\<open>OSTCBDly\<close>,
  \<^verbatim>\<open>OSTCBEventPtr\<close>) agrees with the bitmaps, and the tables agree with each other.  A kernel
  call changes one task, the ready list and the waiting list of one event: \<^verbatim>\<open>kernel_ok_task\<close>
  says what such a change has to satisfy.
\<close>

abbreviation waits :: "os \<Rightarrow> nat \<Rightarrow> nat set" where
  "waits s e \<equiv> prios (wait_map (OSEvents s ! e))"

abbreviation ready :: "os \<Rightarrow> nat set" where
  "ready s \<equiv> prios (rdy_map s)"

abbreviation prio_of :: "os \<Rightarrow> nat \<Rightarrow> nat" where
  "prio_of s i \<equiv> unat (OSTCBPrio (OSTCBTbl s ! i))"

text \<open>The status bit of a task that waits for an event of the type.\<close>

definition pend_bit :: "u8 \<Rightarrow> u8" where
  "pend_bit ty = (if ty = OS_EVENT_TYPE_SEM then OS_STAT_SEM else if ty = OS_EVENT_TYPE_MBOX then OS_STAT_MBOX
                  else if ty = OS_EVENT_TYPE_Q then OS_STAT_Q else 0)"

definition stat_ok :: "os \<Rightarrow> os_tcb \<Rightarrow> bool" where
  "stat_ok s t \<longleftrightarrow>
     (case OSTCBEventPtr t of
        None \<Rightarrow> OSTCBStat t \<in> {0, OS_STAT_SUSPEND}
      | Some e \<Rightarrow> e < length (OSEvents s) \<and>
          (let b = pend_bit (OSEventType (OSEvents s ! e))
           in b \<noteq> 0 \<and> (OSTCBStat t \<in> {b, b OR OS_STAT_SUSPEND} \<or>
                       OSTCBStat t \<in> {0, OS_STAT_SUSPEND} \<and> OSTCBStatPend t = OS_STAT_PEND_TO \<and> OSTCBDly t = 0)))"

definition prio_fields :: "os_tcb \<Rightarrow> bool" where
  "prio_fields t \<longleftrightarrow> unat (OSTCBPrio t) < 64 \<and> OSTCBY t = prio_y (OSTCBPrio t) \<and> OSTCBX t = prio_x (OSTCBPrio t) \<and>
     OSTCBBitY t = bit_of (OSTCBY t) \<and> OSTCBBitX t = bit_of (OSTCBX t)"

definition tcb_ok :: "os \<Rightarrow> nat \<Rightarrow> bool" where
  "tcb_ok s i \<longleftrightarrow>
     (let t = OSTCBTbl s ! i; p = prio_of s i
      in prio_fields t \<and> OSTCBPrioTbl s ! p = TCB i \<and> OSTCBEventMultiPtr t = None \<and>
         (p \<in> ready s \<longleftrightarrow> OSTCBStat t = 0 \<and> OSTCBDly t = 0) \<and>
         (\<forall>e<length (OSEvents s). p \<in> waits s e \<longleftrightarrow> OSTCBEventPtr t = Some e) \<and>
         stat_ok s t \<and> (p = 63 \<longrightarrow> OSTCBStat t = 0 \<and> OSTCBDly t = 0 \<and> OSTCBEventPtr t = None))"

definition event_ok :: "os_event \<Rightarrow> bool" where
  "event_ok ev \<longleftrightarrow> map_ok (wait_map ev) \<and>
     (pend_bit (OSEventType ev) = 0 \<longrightarrow> prios (wait_map ev) = {}) \<and>
     (OSEventType ev = OS_EVENT_TYPE_SEM \<and> 0 < OSEventCnt ev \<longrightarrow> prios (wait_map ev) = {})"

definition lists_ok :: "os \<Rightarrow> bool" where
  "lists_ok s \<longleftrightarrow> distinct (OSTCBList s @ OSTCBFreeList s) \<and>
     set (OSTCBList s @ OSTCBFreeList s) \<subseteq> {..<length (OSTCBTbl s)} \<and>
     distinct (OSEventFreeList s) \<and> set (OSEventFreeList s) \<subseteq> {..<length (OSEvents s)} \<and>
     (\<forall>e\<in>set (OSEventFreeList s). OSEventType (OSEvents s ! e) = OS_EVENT_TYPE_UNUSED) \<and>
     length (OSTCBPrioTbl s) = 64 \<and>
     (\<forall>p<64. \<forall>i. OSTCBPrioTbl s ! p = TCB i \<longrightarrow> i \<in> set (OSTCBList s) \<and> prio_of s i = p) \<and>
     OSTCBList s \<noteq> [] \<and> prio_of s (last (OSTCBList s)) = 63"

definition kernel_ok :: "os \<Rightarrow> bool" where
  "kernel_ok s \<longleftrightarrow> lists_ok s \<and> map_ok (rdy_map s) \<and> (\<forall>e<length (OSEvents s). event_ok (OSEvents s ! e)) \<and>
     (\<forall>i\<in>set (OSTCBList s). tcb_ok s i) \<and>
     (\<forall>p. p \<in> ready s \<or> (\<exists>e<length (OSEvents s). p \<in> waits s e) \<longrightarrow> (\<exists>i. OSTCBPrioTbl s ! p = TCB i))"

lemma kernel_okD:
  assumes "kernel_ok s"
  shows "lists_ok s" "map_ok (rdy_map s)" "e < length (OSEvents s) \<Longrightarrow> event_ok (OSEvents s ! e)"
    "i \<in> set (OSTCBList s) \<Longrightarrow> tcb_ok s i"
    "p \<in> ready s \<Longrightarrow> \<exists>i. OSTCBPrioTbl s ! p = TCB i"
    "e < length (OSEvents s) \<Longrightarrow> p \<in> waits s e \<Longrightarrow> \<exists>i. OSTCBPrioTbl s ! p = TCB i"
  using assms unfolding kernel_ok_def by blast+

lemma tcb_okD:
  assumes "tcb_ok s i"
  shows "prio_fields (OSTCBTbl s ! i)" "OSTCBPrioTbl s ! prio_of s i = TCB i" "OSTCBEventMultiPtr (OSTCBTbl s ! i) = None"
    "prio_of s i \<in> ready s \<longleftrightarrow> OSTCBStat (OSTCBTbl s ! i) = 0 \<and> OSTCBDly (OSTCBTbl s ! i) = 0"
    "e < length (OSEvents s) \<Longrightarrow> prio_of s i \<in> waits s e \<longleftrightarrow> OSTCBEventPtr (OSTCBTbl s ! i) = Some e"
    "stat_ok s (OSTCBTbl s ! i)" "prio_of s i < 64"
    "prio_of s i = 63 \<Longrightarrow> OSTCBStat (OSTCBTbl s ! i) = 0 \<and> OSTCBDly (OSTCBTbl s ! i) = 0 \<and> OSTCBEventPtr (OSTCBTbl s ! i) = None"
  using assms by (auto simp: tcb_ok_def Let_def prio_fields_def)

lemma prio_entry:
  assumes "lists_ok s" "OSTCBPrioTbl s ! p = TCB i" "p < 64"
  shows "i \<in> set (OSTCBList s)" "prio_of s i = p"
  using assms unfolding lists_ok_def by blast+

lemma list_in_table:
  assumes "lists_ok s" "i \<in> set (OSTCBList s)"
  shows "i < length (OSTCBTbl s)"
  using assms unfolding lists_ok_def by auto

lemma prio_inj:
  assumes "kernel_ok s" "i \<in> set (OSTCBList s)" "j \<in> set (OSTCBList s)" "prio_of s i = prio_of s j"
  shows "i = j"
proof -
  have "TCB i = TCB j"
    using tcb_okD(2) [OF kernel_okD(4) [OF assms(1,2)]] tcb_okD(2) [OF kernel_okD(4) [OF assms(1,3)]]
    unfolding assms(4) by (rule subst)
  then show ?thesis by simp
qed

lemma ready_nonempty: "kernel_ok s \<Longrightarrow> 63 \<in> ready s"
  using tcb_okD(4,8) kernel_okD(1,4) last_in_set unfolding lists_ok_def by metis

section \<open>Changes of one task\<close>

text \<open>\<^verbatim>\<open>touches i s s'\<close>: nothing but the task \<^verbatim>\<open>i\<close>, its place in the ready list and its places in
  waiting lists differ; its priority is the same.\<close>

definition touches :: "nat \<Rightarrow> os \<Rightarrow> os \<Rightarrow> bool" where
  "touches i s s' \<longleftrightarrow>
     OSTCBList s' = OSTCBList s \<and> OSTCBFreeList s' = OSTCBFreeList s \<and> OSTCBPrioTbl s' = OSTCBPrioTbl s \<and>
     OSEventFreeList s' = OSEventFreeList s \<and> length (OSTCBTbl s') = length (OSTCBTbl s) \<and>
     (\<forall>j. j \<noteq> i \<longrightarrow> OSTCBTbl s' ! j = OSTCBTbl s ! j) \<and> OSTCBPrio (OSTCBTbl s' ! i) = OSTCBPrio (OSTCBTbl s ! i) \<and>
     (\<forall>p. p \<noteq> prio_of s i \<longrightarrow> (p \<in> ready s' \<longleftrightarrow> p \<in> ready s)) \<and>
     length (OSEvents s') = length (OSEvents s) \<and>
     (\<forall>e<length (OSEvents s). OSEventType (OSEvents s' ! e) = OSEventType (OSEvents s ! e) \<and>
        (\<forall>p. p \<noteq> prio_of s i \<longrightarrow> (p \<in> waits s' e \<longleftrightarrow> p \<in> waits s e)))"

lemma kernel_ok_task:
  assumes k: "kernel_ok s" and i: "i \<in> set (OSTCBList s)" and t: "touches i s s'"
    and r: "map_ok (rdy_map s')" and ev: "\<And>e. e < length (OSEvents s') \<Longrightarrow> event_ok (OSEvents s' ! e)"
    and ti: "tcb_ok s' i"
  shows "kernel_ok s'"
proof -
  note T = t [unfolded touches_def]
  have p: "OSTCBPrioTbl s ! prio_of s i = TCB i" using k i by (simp add: kernel_okD tcb_okD)
  have prio: "prio_of s' j = prio_of s j" for j using T by (cases "j = i") auto
  have other: "tcb_ok s' j" if j: "j \<in> set (OSTCBList s)" "j \<noteq> i" for j
  proof -
    have "prio_of s j \<noteq> prio_of s i" using prio_inj [OF k j(1) i] j(2) by blast
    moreover have "stat_ok s' (OSTCBTbl s ! j)"
      using tcb_okD(6) [OF kernel_okD(4) [OF k j(1)]] T by (auto simp: stat_ok_def Let_def split: option.splits)
    ultimately show ?thesis
      using kernel_okD(4) [OF k j(1)] T j(2) by (auto simp: tcb_ok_def Let_def)
  qed
  have l: "lists_ok s'"
    using kernel_okD(1) [OF k] T prio by (auto simp: lists_ok_def subset_iff)
  have "\<exists>j. OSTCBPrioTbl s' ! q = TCB j" if "q \<in> ready s' \<or> (\<exists>e<length (OSEvents s'). q \<in> waits s' e)" for q
    using that T p kernel_okD(5,6) [OF k] by (cases "q = prio_of s i") auto
  then show ?thesis
    using l r ev ti other T unfolding kernel_ok_def by (metis)
qed

end
