(* ===== verification/Os_Kernel.thy ===== *)
theory Os_Kernel
  imports Os_Inv
begin

text \<open>
  What the routines of \<^verbatim>\<open>os_core.c\<close> do to a kernel in a consistent state: the scheduler makes the
  ready task of highest priority the current one and changes nothing else; readying the first
  task of a waiting list, entering the current task into one and a tick keep the invariant.
\<close>

section \<open>Scheduler\<close>

definition cur_ok :: "os \<Rightarrow> bool" where
  "cur_ok s \<longleftrightarrow> (\<exists>i\<in>set (OSTCBList s). OSTCBCur s = TCB i \<and> OSPrioCur s = OSTCBPrio (OSTCBTbl s ! i))"

definition same_tcb :: "os_tcb \<Rightarrow> os_tcb \<Rightarrow> bool" where
  "same_tcb t t' \<longleftrightarrow> t' = t\<lparr>OSTCBCtxSwCtr := OSTCBCtxSwCtr t'\<rparr>"

text \<open>The scheduler changes the current task and the counters of context switches only.\<close>

definition switched :: "os \<Rightarrow> os \<Rightarrow> bool" where
  "switched s s' \<longleftrightarrow> length (OSTCBTbl s') = length (OSTCBTbl s) \<and> (\<forall>i. same_tcb (OSTCBTbl s ! i) (OSTCBTbl s' ! i)) \<and>
     s' = s\<lparr>OSTCBTbl := OSTCBTbl s', OSPrioCur := OSPrioCur s', OSPrioHighRdy := OSPrioHighRdy s',
            OSTCBCur := OSTCBCur s', OSTCBHighRdy := OSTCBHighRdy s', OSCtxSwCtr := OSCtxSwCtr s'\<rparr>"

lemma same_tcbD:
  assumes "same_tcb t t'"
  shows "OSTCBEventPtr t' = OSTCBEventPtr t" "OSTCBEventMultiPtr t' = OSTCBEventMultiPtr t" "OSTCBMsg t' = OSTCBMsg t"
    "OSTCBDly t' = OSTCBDly t" "OSTCBStat t' = OSTCBStat t" "OSTCBStatPend t' = OSTCBStatPend t"
    "OSTCBPrio t' = OSTCBPrio t" "OSTCBX t' = OSTCBX t" "OSTCBY t' = OSTCBY t" "OSTCBBitX t' = OSTCBBitX t"
    "OSTCBBitY t' = OSTCBBitY t" "OSTCBStkPtr t' = OSTCBStkPtr t"
  by (subst assms [unfolded same_tcb_def], simp)+

lemma same_tcb_refl [simp]: "same_tcb t t"
  by (simp add: same_tcb_def)

lemma same_tcb_trans:
  assumes "same_tcb t u" "same_tcb u v"
  shows "same_tcb t v"
proof -
  have "u = t\<lparr>OSTCBCtxSwCtr := OSTCBCtxSwCtr u\<rparr>" "v = u\<lparr>OSTCBCtxSwCtr := OSTCBCtxSwCtr v\<rparr>"
    using assms by (simp_all add: same_tcb_def)
  then have "v = t\<lparr>OSTCBCtxSwCtr := OSTCBCtxSwCtr u\<rparr>\<lparr>OSTCBCtxSwCtr := OSTCBCtxSwCtr v\<rparr>" by metis
  then show ?thesis by (simp add: same_tcb_def)
qed

lemma switchedD:
  assumes "switched s s'"
  shows "OSRdyGrp s' = OSRdyGrp s" "OSRdyTbl s' = OSRdyTbl s" "OSTCBPrioTbl s' = OSTCBPrioTbl s"
    "OSTCBList s' = OSTCBList s" "OSTCBFreeList s' = OSTCBFreeList s" "OSEvents s' = OSEvents s"
    "OSEventFreeList s' = OSEventFreeList s" "OSIntNesting s' = OSIntNesting s" "OSLockNesting s' = OSLockNesting s"
    "OSRunning s' = OSRunning s" "OSTime s' = OSTime s" "OSTickStepState s' = OSTickStepState s"
    "length (OSTCBTbl s') = length (OSTCBTbl s)" "same_tcb (OSTCBTbl s ! i) (OSTCBTbl s' ! i)"
proof -
  have *: "s' = s\<lparr>OSTCBTbl := OSTCBTbl s', OSPrioCur := OSPrioCur s', OSPrioHighRdy := OSPrioHighRdy s',
            OSTCBCur := OSTCBCur s', OSTCBHighRdy := OSTCBHighRdy s', OSCtxSwCtr := OSCtxSwCtr s'\<rparr>"
    using assms by (simp add: switched_def)
  show "OSRdyGrp s' = OSRdyGrp s" "OSRdyTbl s' = OSRdyTbl s" "OSTCBPrioTbl s' = OSTCBPrioTbl s"
    "OSTCBList s' = OSTCBList s" "OSTCBFreeList s' = OSTCBFreeList s" "OSEvents s' = OSEvents s"
    "OSEventFreeList s' = OSEventFreeList s" "OSIntNesting s' = OSIntNesting s" "OSLockNesting s' = OSLockNesting s"
    "OSRunning s' = OSRunning s" "OSTime s' = OSTime s" "OSTickStepState s' = OSTickStepState s"
    by (subst *, simp)+
  show "length (OSTCBTbl s') = length (OSTCBTbl s)" "same_tcb (OSTCBTbl s ! i) (OSTCBTbl s' ! i)"
    using assms by (simp_all add: switched_def)
qed

lemma switched_refl [simp]: "switched s s"
  by (simp add: switched_def)

lemma stat_ok_cong:
  assumes "OSTCBEventPtr t' = OSTCBEventPtr t" "OSTCBStat t' = OSTCBStat t" "OSTCBStatPend t' = OSTCBStatPend t" "OSTCBDly t' = OSTCBDly t"
    and "length (OSEvents s') = length (OSEvents s)"
    and "\<And>e. e < length (OSEvents s) \<Longrightarrow> OSEventType (OSEvents s' ! e) = OSEventType (OSEvents s ! e)"
  shows "stat_ok s' t' = stat_ok s t"
  using assms by (cases "OSTCBEventPtr t") (auto simp: stat_ok_def Let_def)

lemma kernel_ok_cong:
  assumes "kernel_ok s"
    and S: "OSRdyGrp s' = OSRdyGrp s" "OSRdyTbl s' = OSRdyTbl s" "OSTCBPrioTbl s' = OSTCBPrioTbl s"
    "OSTCBList s' = OSTCBList s" "OSTCBFreeList s' = OSTCBFreeList s" "OSEvents s' = OSEvents s"
    "OSEventFreeList s' = OSEventFreeList s" "length (OSTCBTbl s') = length (OSTCBTbl s)"
    and T: "\<And>i. same_tcb (OSTCBTbl s ! i) (OSTCBTbl s' ! i)"
  shows "kernel_ok s'"
proof -
  have p: "OSTCBPrio (OSTCBTbl s' ! i) = OSTCBPrio (OSTCBTbl s ! i)" for i using same_tcbD [OF T] by simp
  have "tcb_ok s' i = tcb_ok s i" for i
    using same_tcbD [OF T [of i]] S stat_ok_cong [of "OSTCBTbl s' ! i" "OSTCBTbl s ! i" s' s]
    by (simp add: tcb_ok_def Let_def prio_fields_def)
  then show ?thesis using assms(1) S p by (simp add: kernel_ok_def lists_ok_def)
qed

lemma kernel_ok_switched:
  assumes "kernel_ok s" "switched s s'"
  shows "kernel_ok s'"
  using switchedD [OF assms(2)] by (intro kernel_ok_cong [OF assms(1)]) simp_all

lemma same_tcb_upd: "same_tcb (xs ! j) (xs[i := (xs ! i)\<lparr>OSTCBCtxSwCtr := c\<rparr>] ! j)"
  by (cases "i < length xs") (auto simp: same_tcb_def nth_list_update list_update_beyond)

lemma switch_high_ok:
  assumes k: "kernel_ok s" and c: "cur_ok s"
  shows "\<exists>s'. switch_high s = Some s' \<and> switched s s' \<and> cur_ok s' \<and> unat (OSPrioCur s') = Min (ready s)"
proof -
  let ?h = "map_top (rdy_map s)"
  have h: "unat ?h = Min (ready s)" "unat ?h \<in> ready s"
    using map_top_Min [OF kernel_okD(2) [OF k]] ready_nonempty [OF k] by blast+
  show ?thesis
  proof (cases "?h = OSPrioCur s")
    case True
    then show ?thesis
      using c h by (auto simp: switch_high_def OS_SchedNew_def Let_def switched_def cur_ok_def)
  next
    case False
    obtain i where i: "OSTCBPrioTbl s ! unat ?h = TCB i" using kernel_okD(5) [OF k h(2)] by blast
    have pi: "i \<in> set (OSTCBList s)" "prio_of s i = unat ?h"
      using prio_entry [OF kernel_okD(1) [OF k] i] prios_less [OF h(2)] by auto
    then have "OSTCBPrio (OSTCBTbl s ! i) = ?h" by (simp only: word_unat_eq_iff)
    moreover have "i < length (OSTCBTbl s)" using list_in_table [OF kernel_okD(1) [OF k] pi(1)] .
    ultimately show ?thesis
      using False i pi h
      by (auto simp: switch_high_def OS_SchedNew_def Let_def upd_tcb_def OSCtxSw_def switched_def cur_ok_def
          same_tcb_upd)
  qed
qed

definition highest :: "os \<Rightarrow> bool" where
  "highest s \<longleftrightarrow> (OSIntNesting s = 0 \<and> OSLockNesting s = 0 \<longrightarrow> unat (OSPrioCur s) = Min (ready s))"

lemma OS_Sched_ok:
  assumes k: "kernel_ok s" and c: "cur_ok s"
  shows "\<exists>s'. OS_Sched s = Some s' \<and> switched s s' \<and> kernel_ok s' \<and> cur_ok s' \<and> highest s'"
  using switch_high_ok [OF assms] kernel_ok_switched [OF k] assms
  by (auto simp: OS_Sched_def highest_def switchedD)


section \<open>Readying the first task of a waiting list\<close>

lemma set_wait_sel [simp]:
  "OSEventGrp (set_wait m ev) = fst m" "OSEventTbl (set_wait m ev) = snd m"
  "OSEventType (set_wait m ev) = OSEventType ev" "OSEventCnt (set_wait m ev) = OSEventCnt ev"
  "OSEventPtr (set_wait m ev) = OSEventPtr ev"
  by (simp_all add: set_wait_def)

lemma prio_fields_map:
  assumes "prio_fields t"
  shows "map_set (OSTCBY t) (OSTCBBitY t) (OSTCBBitX t) m = map_ins (OSTCBPrio t) m"
    "map_clear (OSTCBY t) (OSTCBBitY t) (OSTCBBitX t) m = map_del (OSTCBPrio t) m"
    "unat (OSTCBPrio t) < 64"
  using assms by (simp_all add: prio_fields_def)

definition woken :: "u32 \<Rightarrow> u8 \<Rightarrow> u8 \<Rightarrow> os_tcb \<Rightarrow> os_tcb" where
  "woken m msk ps t = t\<lparr>OSTCBDly := 0, OSTCBMsg := m, OSTCBStat := OSTCBStat t AND NOT msk,
                        OSTCBStatPend := ps, OSTCBEventPtr := None\<rparr>"

text \<open>The state after the task \<^verbatim>\<open>i\<close> has left the waiting list of \<^verbatim>\<open>e\<close>.\<close>

definition wake :: "nat \<Rightarrow> nat \<Rightarrow> u32 \<Rightarrow> u8 \<Rightarrow> u8 \<Rightarrow> os \<Rightarrow> os" where
  "wake i e m msk ps s =
     (let t = woken m msk ps (OSTCBTbl s ! i);
          r = (if OSTCBStat t AND OS_STAT_SUSPEND = 0 then map_ins (OSTCBPrio t) (rdy_map s) else rdy_map s);
          ev = OSEvents s ! e
      in s\<lparr>OSTCBTbl := (OSTCBTbl s)[i := t], OSRdyGrp := fst r, OSRdyTbl := snd r,
           OSEvents := (OSEvents s)[e := set_wait (map_del (OSTCBPrio t) (wait_map ev)) ev]\<rparr>)"

lemma first_waiting:
  assumes k: "kernel_ok s" and e: "e < length (OSEvents s)" and w: "waits s e \<noteq> {}"
  obtains i where "OSTCBPrioTbl s ! unat (map_top (wait_map (OSEvents s ! e))) = TCB i" "i \<in> set (OSTCBList s)"
    "OSTCBPrio (OSTCBTbl s ! i) = map_top (wait_map (OSEvents s ! e))" "prio_of s i = Min (waits s e)"
    "prio_of s i \<in> waits s e" "i < length (OSTCBTbl s)"
proof -
  let ?p = "map_top (wait_map (OSEvents s ! e))"
  have "map_ok (wait_map (OSEvents s ! e))" using kernel_okD(3) [OF k e] by (simp add: event_ok_def)
  note h = map_top_Min [OF this w]
  obtain i where i: "OSTCBPrioTbl s ! unat ?p = TCB i" using kernel_okD(6) [OF k e h(2)] by blast
  have l: "i \<in> set (OSTCBList s)" "prio_of s i = unat ?p"
    using prio_entry [OF kernel_okD(1) [OF k] i] prios_less [OF h(2)] by auto
  show thesis
  proof (rule that [OF i l(1)])
    show "OSTCBPrio (OSTCBTbl s ! i) = ?p" using l(2) by (simp only: word_unat_eq_iff)
    show "prio_of s i = Min (waits s e)" "prio_of s i \<in> waits s e" using l(2) h by simp_all
    show "i < length (OSTCBTbl s)" by (rule list_in_table [OF kernel_okD(1) [OF k] l(1)])
  qed
qed

lemma OS_EventTaskRdy_eq:
  assumes k: "kernel_ok s" and e: "e < length (OSEvents s)" and w: "waits s e \<noteq> {}"
    and i: "OSTCBPrioTbl s ! unat (map_top (wait_map (OSEvents s ! e))) = TCB i"
  shows "OS_EventTaskRdy e m msk ps s = Some (map_top (wait_map (OSEvents s ! e)), wake i e m msk ps s)"
proof -
  let ?ev = "OSEvents s ! e"
  let ?p = "map_top (wait_map ?ev)"
  obtain j where j: "OSTCBPrioTbl s ! unat ?p = TCB j" "j \<in> set (OSTCBList s)" "OSTCBPrio (OSTCBTbl s ! j) = ?p"
    "j < length (OSTCBTbl s)"
    using first_waiting [OF k e w] by metis
  have ij: "j = i" using i j(1) by simp
  note t = tcb_okD [OF kernel_okD(4) [OF k j(2)], unfolded ij]
  have mo: "map_ok (wait_map ?ev)" using kernel_okD(3) [OF k e] by (simp add: event_ok_def)
  have y: "OSUnMapTbl ! unat (OSEventGrp ?ev) = prio_y ?p" using map_top_Min(3) [OF mo w] by simp
  have p: "push_bit 3 (OSUnMapTbl ! unat (OSEventGrp ?ev)) +
      OSUnMapTbl ! unat (OSEventTbl ?ev ! unat (OSUnMapTbl ! unat (OSEventGrp ?ev))) = ?p"
    by (simp add: map_top_def Let_def)
  have f: "OSTCBY (OSTCBTbl s ! i) = prio_y ?p" "OSTCBBitY (OSTCBTbl s ! i) = bit_of (prio_y ?p)"
    "OSTCBBitX (OSTCBTbl s ! i) = bit_of (prio_x ?p)"
    using t(1) j(3) by (simp_all add: ij prio_fields_def)
  show ?thesis
    unfolding OS_EventTaskRdy_def Let_def p
    using i j(3,4) e t(3) f y
    by (simp add: ij upd_tcb_def upd_event_def wake_def woken_def Let_def OS_EventTaskRemove_def set_rdy_def
        OS_STAT_RDY_def set_wait_def)
qed


lemmas os_stat_defs = OS_STAT_RDY_def OS_STAT_SEM_def OS_STAT_MBOX_def OS_STAT_Q_def OS_STAT_SUSPEND_def
  OS_STAT_MUTEX_def OS_STAT_FLAG_def OS_STAT_PEND_ANY_def

lemma pend_bit_cases: "pend_bit ty \<in> {0, OS_STAT_SEM, OS_STAT_MBOX, OS_STAT_Q}"
  by (simp add: pend_bit_def)

lemma stat_clear:
  assumes "st \<in> {b, b OR OS_STAT_SUSPEND, 0, OS_STAT_SUSPEND}" "b = pend_bit ty"
  shows "st AND NOT b \<in> {0, OS_STAT_SUSPEND}"
  using assms pend_bit_cases [of ty] by (auto simp: os_stat_defs)

lemma stat_susp:
  "st \<in> {0, OS_STAT_SUSPEND} \<Longrightarrow> st AND OS_STAT_SUSPEND = 0 \<longleftrightarrow> st = 0"
  by (auto simp: os_stat_defs)

lemma waiting_task:
  assumes k: "kernel_ok s" and e: "e < length (OSEvents s)" and i: "i \<in> set (OSTCBList s)"
    and w: "prio_of s i \<in> waits s e"
  shows "OSTCBEventPtr (OSTCBTbl s ! i) = Some e" "prio_of s i \<noteq> 63"
    "OSTCBStat (OSTCBTbl s ! i) AND NOT (pend_bit (OSEventType (OSEvents s ! e))) \<in> {0, OS_STAT_SUSPEND}"
    "pend_bit (OSEventType (OSEvents s ! e)) \<noteq> 0"
proof -
  note t = tcb_okD [OF kernel_okD(4) [OF k i]]
  show p: "OSTCBEventPtr (OSTCBTbl s ! i) = Some e" using t(5) [OF e] w by simp
  then show "prio_of s i \<noteq> 63" using t(8) by auto
  show "pend_bit (OSEventType (OSEvents s ! e)) \<noteq> 0" using t(6) p by (simp add: stat_ok_def Let_def)
  show "OSTCBStat (OSTCBTbl s ! i) AND NOT (pend_bit (OSEventType (OSEvents s ! e))) \<in> {0, OS_STAT_SUSPEND}"
    using t(6) p by (intro stat_clear [OF _ refl]) (auto simp: stat_ok_def Let_def)
qed

lemma wake_sel [simp]:
  "OSTCBList (wake i e m msk ps s) = OSTCBList s" "OSTCBFreeList (wake i e m msk ps s) = OSTCBFreeList s"
  "OSTCBPrioTbl (wake i e m msk ps s) = OSTCBPrioTbl s" "OSEventFreeList (wake i e m msk ps s) = OSEventFreeList s"
  "length (OSTCBTbl (wake i e m msk ps s)) = length (OSTCBTbl s)"
  "length (OSEvents (wake i e m msk ps s)) = length (OSEvents s)"
  "OSIntNesting (wake i e m msk ps s) = OSIntNesting s" "OSLockNesting (wake i e m msk ps s) = OSLockNesting s"
  "OSRunning (wake i e m msk ps s) = OSRunning s" "OSTime (wake i e m msk ps s) = OSTime s"
  "OSTickStepState (wake i e m msk ps s) = OSTickStepState s" "OSTCBCur (wake i e m msk ps s) = OSTCBCur s" "OSPrioCur (wake i e m msk ps s) = OSPrioCur s"
  "j \<noteq> i \<Longrightarrow> OSTCBTbl (wake i e m msk ps s) ! j = OSTCBTbl s ! j"
  "d \<noteq> e \<Longrightarrow> OSEvents (wake i e m msk ps s) ! d = OSEvents s ! d"
  by (simp_all add: wake_def Let_def)

lemma wake_ok:
  assumes k: "kernel_ok s" and e: "e < length (OSEvents s)" and i: "i \<in> set (OSTCBList s)"
    and w: "prio_of s i \<in> waits s e" and msk: "msk = pend_bit (OSEventType (OSEvents s ! e))"
  shows "kernel_ok (wake i e m msk ps s)" "touches i s (wake i e m msk ps s)"
    "OSTCBTbl (wake i e m msk ps s) ! i = woken m msk ps (OSTCBTbl s ! i)"
    "waits (wake i e m msk ps s) e = waits s e - {prio_of s i}"
    "ready (wake i e m msk ps s) = (if OSTCBStat (OSTCBTbl s ! i) AND OS_STAT_SUSPEND = 0
       then insert (prio_of s i) (ready s) else ready s)"
proof -
  let ?s = "wake i e m msk ps s" and ?t = "OSTCBTbl s ! i" and ?ev = "OSEvents s ! e"
  note t = tcb_okD [OF kernel_okD(4) [OF k i]]
  note W = waiting_task [OF k e i w, folded msk]
  have il: "i < length (OSTCBTbl s)" by (rule list_in_table [OF kernel_okD(1) [OF k] i])
  have evo: "event_ok ?ev" by (rule kernel_okD(3) [OF k e])
  have p64: "prio_of s i < 64" by (rule t(7))
  have sus: "OSTCBStat (woken m msk ps ?t) AND OS_STAT_SUSPEND = 0 \<longleftrightarrow> OSTCBStat ?t AND OS_STAT_SUSPEND = 0"
    using pend_bit_cases [of "OSEventType ?ev"]
    by (auto simp: woken_def msk and.assoc os_stat_defs)
  show tbl: "OSTCBTbl ?s ! i = woken m msk ps ?t" using il by (simp add: wake_def Let_def)
  have evs: "OSEvents ?s ! e = set_wait (map_del (OSTCBPrio ?t) (wait_map ?ev)) ?ev"
    using e by (simp add: wake_def Let_def woken_def)
  have mo: "map_ok (wait_map ?ev)" using evo by (simp add: event_ok_def)
  show we: "waits ?s e = waits s e - {prio_of s i}"
    by (simp add: evs prios_map_del(2) [OF mo p64])
  have rm: "rdy_map ?s = (if OSTCBStat ?t AND OS_STAT_SUSPEND = 0 then map_ins (OSTCBPrio ?t) (rdy_map s) else rdy_map s)"
    using sus by (simp add: wake_def Let_def woken_def)
  show rd: "ready ?s = (if OSTCBStat ?t AND OS_STAT_SUSPEND = 0 then insert (prio_of s i) (ready s) else ready s)"
    unfolding rm using prios_map_ins(2) [OF kernel_okD(2) [OF k] p64] by simp
  have mr: "map_ok (rdy_map ?s)"
    unfolding rm using prios_map_ins(1) [OF kernel_okD(2) [OF k] p64] kernel_okD(2) [OF k] by simp
  have pr: "OSTCBPrio (woken m msk ps ?t) = OSTCBPrio ?t" by (simp add: woken_def)
  show T: "touches i s ?s"
    unfolding touches_def
  proof (intro conjI allI impI)
    fix d assume "d < length (OSEvents s)"
    show "OSEventType (OSEvents ?s ! d) = OSEventType (OSEvents s ! d)" by (cases "d = e") (simp_all add: evs)
    fix p assume "p \<noteq> prio_of s i"
    then show "p \<in> waits ?s d \<longleftrightarrow> p \<in> waits s d" using we by (cases "d = e") simp_all
  qed (use rd tbl pr in simp_all)
  show "kernel_ok ?s"
  proof (rule kernel_ok_task [OF k i T mr])
    fix d assume d: "d < length (OSEvents ?s)"
    show "event_ok (OSEvents ?s ! d)"
    proof (cases "d = e")
      case True
      then show ?thesis using evo prios_map_del [OF mo p64] by (auto simp: event_ok_def evs)
    next
      case False
      then show ?thesis using d kernel_okD(3) [OF k] by simp
    qed
  next
    have st: "OSTCBStat (woken m msk ps ?t) \<in> {0, OS_STAT_SUSPEND}" using W(3) by (simp add: woken_def)
    have rdy: "prio_of s i \<in> ready ?s \<longleftrightarrow> OSTCBStat (woken m msk ps ?t) = 0"
    proof (cases "OSTCBStat ?t AND OS_STAT_SUSPEND = 0")
      case True
      then show ?thesis using rd sus stat_susp [OF st] by simp
    next
      case False
      then have "OSTCBStat ?t \<noteq> 0" by auto
      then show ?thesis using rd sus stat_susp [OF st] False t(4) by simp
    qed
    have ev: "prio_of s i \<notin> waits ?s d" if "d < length (OSEvents s)" for d
      using that we t(5) [OF that] W(1) by (cases "d = e") auto
    show "tcb_ok ?s i"
      unfolding tcb_ok_def Let_def tbl pr
      using t(1,2,3) rdy ev st W(2)
      by (simp add: woken_def prio_fields_def stat_ok_def)
  qed
qed


section \<open>Changes without a waiting list\<close>

definition put_task :: "nat \<Rightarrow> os_tcb \<Rightarrow> u8 \<times> u8 list \<Rightarrow> os \<Rightarrow> os" where
  "put_task i t r s = s\<lparr>OSTCBTbl := (OSTCBTbl s)[i := t], OSRdyGrp := fst r, OSRdyTbl := snd r\<rparr>"

definition same_place :: "os_tcb \<Rightarrow> os_tcb \<Rightarrow> bool" where
  "same_place t t' \<longleftrightarrow> OSTCBPrio t' = OSTCBPrio t \<and> OSTCBX t' = OSTCBX t \<and> OSTCBY t' = OSTCBY t \<and>
     OSTCBBitX t' = OSTCBBitX t \<and> OSTCBBitY t' = OSTCBBitY t \<and>
     OSTCBEventPtr t' = OSTCBEventPtr t \<and> OSTCBEventMultiPtr t' = OSTCBEventMultiPtr t"

lemma put_task_ok:
  assumes k: "kernel_ok s" and i: "i \<in> set (OSTCBList s)" and sp: "same_place (OSTCBTbl s ! i) t"
    and r: "map_ok r" "\<And>p. p \<noteq> prio_of s i \<Longrightarrow> p \<in> prios r \<longleftrightarrow> p \<in> ready s"
      "prio_of s i \<in> prios r \<longleftrightarrow> OSTCBStat t = 0 \<and> OSTCBDly t = 0"
    and st: "stat_ok s t" and idle: "prio_of s i = 63 \<Longrightarrow> OSTCBStat t = 0 \<and> OSTCBDly t = 0"
  shows "kernel_ok (put_task i t r s)" "touches i s (put_task i t r s)"
proof -
  note ti = tcb_okD [OF kernel_okD(4) [OF k i]]
  have il: "i < length (OSTCBTbl s)" by (rule list_in_table [OF kernel_okD(1) [OF k] i])
  show T: "touches i s (put_task i t r s)"
    using il sp r(2) by (simp add: touches_def put_task_def same_place_def)
  show "kernel_ok (put_task i t r s)"
  proof (rule kernel_ok_task [OF k i T])
    show "map_ok (rdy_map (put_task i t r s))" using r(1) by (simp add: put_task_def)
    fix e assume "e < length (OSEvents (put_task i t r s))"
    then show "event_ok (OSEvents (put_task i t r s) ! e)" using kernel_okD(3) [OF k] by (simp add: put_task_def)
  next
    have s': "stat_ok (put_task i t r s) t" using st stat_ok_cong [of t t "put_task i t r s" s] by (simp add: put_task_def)
    show "tcb_ok (put_task i t r s) i"
      unfolding tcb_ok_def Let_def
      using il sp r(3) s' ti(1,2,3,5,8) idle
      by (simp add: put_task_def same_place_def prio_fields_def)
  qed
qed

section \<open>Tick\<close>

definition ticked :: "os_tcb \<Rightarrow> os_tcb" where
  "ticked t =
     (if OSTCBDly t = 0 then t
      else if OSTCBDly t \<noteq> 1 then t\<lparr>OSTCBDly := OSTCBDly t - 1\<rparr>
      else if OSTCBStat t AND OS_STAT_PEND_ANY \<noteq> 0
           then t\<lparr>OSTCBDly := 0, OSTCBStat := OSTCBStat t AND NOT OS_STAT_PEND_ANY, OSTCBStatPend := OS_STAT_PEND_TO\<rparr>
           else t\<lparr>OSTCBDly := 0, OSTCBStatPend := OS_STAT_PEND_OK\<rparr>)"

lemma tick_task_eq:
  assumes "prio_fields (OSTCBTbl s ! i)" "i < length (OSTCBTbl s)"
  shows "tick_task i s =
     (let t = ticked (OSTCBTbl s ! i)
      in put_task i t (if OSTCBDly (OSTCBTbl s ! i) = 1 \<and> OSTCBStat t AND OS_STAT_SUSPEND = 0
                       then map_ins (OSTCBPrio t) (rdy_map s) else rdy_map s) s)"
proof -
  have d: "OSTCBDly (OSTCBTbl s ! i) - 1 = 0 \<longleftrightarrow> OSTCBDly (OSTCBTbl s ! i) = 1" by simp
  show ?thesis
    using assms
    by (auto simp: tick_task_def ticked_def put_task_def Let_def d upd_tcb_def make_ready_def set_rdy_def
        OS_STAT_RDY_def prio_fields_def)
qed

lemma tick_task_ok:
  assumes k: "kernel_ok s" and i: "i \<in> set (OSTCBList s)"
  shows "kernel_ok (tick_task i s)" "touches i s (tick_task i s)"
    "OSTCBTbl (tick_task i s) ! i = ticked (OSTCBTbl s ! i)"
proof -
  let ?t = "OSTCBTbl s ! i"
  let ?u = "ticked ?t"
  let ?r = "if OSTCBDly ?t = 1 \<and> OSTCBStat ?u AND OS_STAT_SUSPEND = 0 then map_ins (OSTCBPrio ?u) (rdy_map s) else rdy_map s"
  note t = tcb_okD [OF kernel_okD(4) [OF k i]]
  have il: "i < length (OSTCBTbl s)" by (rule list_in_table [OF kernel_okD(1) [OF k] i])
  have eq: "tick_task i s = put_task i ?u ?r s" using tick_task_eq [OF t(1) il] by (simp add: Let_def)
  have sp: "same_place ?t ?u" by (simp add: same_place_def ticked_def)
  have pr: "OSTCBPrio ?u = OSTCBPrio ?t" using sp by (simp add: same_place_def)
  have r1: "map_ok ?r" using prios_map_ins(1) [OF kernel_okD(2) [OF k] t(7)] kernel_okD(2) [OF k] by (simp add: pr)
  have r2: "p \<in> prios ?r \<longleftrightarrow> p \<in> ready s" if "p \<noteq> prio_of s i" for p
    using that prios_map_ins(2) [OF kernel_okD(2) [OF k] t(7)] by (simp add: pr)
  have bit: "pend_bit ty \<in> {0, 1, 2, 4}" for ty using pend_bit_cases [of ty] by (simp add: os_stat_defs)
  have st: "stat_ok s ?u"
  proof (cases "OSTCBEventPtr ?t")
    case None
    then show ?thesis using t(6) by (auto simp: stat_ok_def ticked_def os_stat_defs)
  next
    case (Some e)
    then show ?thesis using t(6) bit [of "OSEventType (OSEvents s ! e)"]
      by (auto simp: stat_ok_def ticked_def os_stat_defs Let_def)
  qed
  have su: "OSTCBStat ?u AND OS_STAT_SUSPEND = 0 \<longleftrightarrow> OSTCBStat ?u = 0" if "OSTCBDly ?t = 1"
  proof (cases "OSTCBEventPtr ?t")
    case None
    then show ?thesis using that t(6) by (auto simp: stat_ok_def ticked_def os_stat_defs)
  next
    case (Some e)
    then show ?thesis using that t(6) bit [of "OSEventType (OSEvents s ! e)"]
      by (auto simp: stat_ok_def ticked_def os_stat_defs Let_def)
  qed
  have r3: "prio_of s i \<in> prios ?r \<longleftrightarrow> OSTCBStat ?u = 0 \<and> OSTCBDly ?u = 0"
  proof (cases "OSTCBDly ?t = 1")
    case True
    then have n: "prio_of s i \<notin> ready s" "OSTCBDly ?u = 0" using t(4) by (auto simp: ticked_def)
    show ?thesis
      using True n su [OF True] prios_map_ins(2) [OF kernel_okD(2) [OF k] t(7)] by (simp add: pr)
  next
    case False
    then show ?thesis using t(4) by (auto simp: ticked_def)
  qed
  note P = put_task_ok [OF k i sp r1 r2 r3 st]
  have idle: "prio_of s i = 63 \<Longrightarrow> OSTCBStat ?u = 0 \<and> OSTCBDly ?u = 0" using t(8) by (auto simp: ticked_def)
  show "kernel_ok (tick_task i s)" "touches i s (tick_task i s)" using P idle eq by auto
  show "OSTCBTbl (tick_task i s) ! i = ?u" using il by (simp add: eq put_task_def)
qed


text \<open>The tables and lists of the kernel other than the task and ready tables stay.\<close>

definition tasks_only :: "os \<Rightarrow> os \<Rightarrow> bool" where
  "tasks_only s s' \<longleftrightarrow> s' = s\<lparr>OSTCBTbl := OSTCBTbl s', OSRdyGrp := OSRdyGrp s', OSRdyTbl := OSRdyTbl s'\<rparr>"

lemma tasks_onlyD:
  assumes "tasks_only s s'"
  shows "OSTCBPrioTbl s' = OSTCBPrioTbl s"
    "OSTCBList s' = OSTCBList s" "OSTCBFreeList s' = OSTCBFreeList s" "OSEvents s' = OSEvents s"
    "OSEventFreeList s' = OSEventFreeList s" "OSIntNesting s' = OSIntNesting s" "OSLockNesting s' = OSLockNesting s"
    "OSRunning s' = OSRunning s" "OSTime s' = OSTime s" "OSTickStepState s' = OSTickStepState s"
    "OSTCBCur s' = OSTCBCur s" "OSPrioCur s' = OSPrioCur s"
  by (subst assms [unfolded tasks_only_def], simp)+

lemma tasks_only_refl [simp]: "tasks_only s s"
  by (simp add: tasks_only_def)

lemma tasks_only_put: "tasks_only s (put_task i t r s)"
  by (simp add: tasks_only_def put_task_def)

lemma tasks_only_trans:
  assumes "tasks_only s s1" "tasks_only s1 s2"
  shows "tasks_only s s2"
proof -
  have "s2 = s1\<lparr>OSTCBTbl := OSTCBTbl s2, OSRdyGrp := OSRdyGrp s2, OSRdyTbl := OSRdyTbl s2\<rparr>"
    using assms(2) by (simp add: tasks_only_def)
  moreover have "s1 = s\<lparr>OSTCBTbl := OSTCBTbl s1, OSRdyGrp := OSRdyGrp s1, OSRdyTbl := OSRdyTbl s1\<rparr>"
    using assms(1) by (simp add: tasks_only_def)
  ultimately have "s2 = s\<lparr>OSTCBTbl := OSTCBTbl s1, OSRdyGrp := OSRdyGrp s1, OSRdyTbl := OSRdyTbl s1\<rparr>
      \<lparr>OSTCBTbl := OSTCBTbl s2, OSRdyGrp := OSRdyGrp s2, OSRdyTbl := OSRdyTbl s2\<rparr>"
    by metis
  then show ?thesis by (simp add: tasks_only_def)
qed

lemma tick_task_only: "tasks_only s (tick_task i s)"
  by (simp add: tick_task_def Let_def upd_tcb_def make_ready_def set_rdy_def tasks_only_def)

lemma tick_loop_ok:
  assumes "kernel_ok s" "set is \<subseteq> set (OSTCBList s)" "distinct is" "is \<noteq> []" "prio_of s (last is) = 63"
  shows "\<exists>s'. tick_loop is s = Some s' \<and> kernel_ok s' \<and> tasks_only s s' \<and>
     length (OSTCBTbl s') = length (OSTCBTbl s) \<and>
     (\<forall>j. OSTCBTbl s' ! j = (if j \<in> set is then ticked (OSTCBTbl s ! j) else OSTCBTbl s ! j))"
  using assms
proof (induction "is" arbitrary: s)
  case Nil
  then show ?case by simp
next
  case (Cons i "is")
  have i: "i \<in> set (OSTCBList s)" using Cons.prems(2) by simp
  note ti = tcb_okD [OF kernel_okD(4) [OF Cons.prems(1) i]]
  note L = tick_task_ok [OF Cons.prems(1) i]
  show ?case
  proof (cases "prio_of s i = 63")
    case True
    have "i = last (i # is)"
      using prio_inj [OF Cons.prems(1) i, of "last (i # is)"] Cons.prems(2,5) True last_in_set [of "i # is"] by auto
    then have "is = []" using Cons.prems(3) by (metis distinct.simps(2) last_ConsR last_in_set)
    moreover have "OSTCBPrio (OSTCBTbl s ! i) = OS_TASK_IDLE_PRIO"
      using True by (simp add: OS_TASK_IDLE_PRIO_def word_unat_eq_iff)
    moreover have "ticked (OSTCBTbl s ! i) = OSTCBTbl s ! i" using ti(8) True by (simp add: ticked_def)
    ultimately show ?thesis using Cons.prems(1) by auto
  next
    case False
    then have np: "OSTCBPrio (OSTCBTbl s ! i) \<noteq> OS_TASK_IDLE_PRIO" by (auto simp: OS_TASK_IDLE_PRIO_def)
    have ne: "is \<noteq> []" using False Cons.prems(5) by auto
    let ?s = "tick_task i s"
    have li: "last is \<noteq> i" using Cons.prems(3) ne last_in_set [OF ne] by auto
    have T: "OSTCBList ?s = OSTCBList s" "length (OSTCBTbl ?s) = length (OSTCBTbl s)"
      "\<And>j. j \<noteq> i \<Longrightarrow> OSTCBTbl ?s ! j = OSTCBTbl s ! j"
      using L(2) by (auto simp: touches_def)
    obtain s' where s': "tick_loop is ?s = Some s'" "kernel_ok s'" "tasks_only ?s s'"
      "length (OSTCBTbl s') = length (OSTCBTbl ?s)"
      "\<forall>j. OSTCBTbl s' ! j = (if j \<in> set is then ticked (OSTCBTbl ?s ! j) else OSTCBTbl ?s ! j)"
      using Cons.IH [OF L(1)] Cons.prems ne T li by auto
    have "OSTCBTbl s' ! j = (if j \<in> set (i # is) then ticked (OSTCBTbl s ! j) else OSTCBTbl s ! j)" for j
      using s'(5) T(3) [of j] L(3) Cons.prems(3) by (cases "j = i") auto
    moreover have "tasks_only s s'" using tasks_only_trans [OF tick_task_only s'(3)] .
    ultimately show ?thesis using s' np T(2) by (intro exI [where x = s']) simp
  qed
qed

text \<open>A tick counts every task but the idle one, whose delay is 0.\<close>

lemma OSTimeTick_ok:
  assumes k: "kernel_ok s" and c: "cur_ok s"
  shows "\<exists>s'. OSTimeTick s = Some s' \<and> kernel_ok s' \<and> cur_ok s' \<and>
     OSTime s' = OSTime s + 1 \<and> OSIntNesting s' = OSIntNesting s \<and> OSLockNesting s' = OSLockNesting s \<and>
     OSRunning s' = OSRunning s \<and> OSEvents s' = OSEvents s \<and> OSTCBList s' = OSTCBList s \<and> OSTCBCur s' = OSTCBCur s \<and>
     OSTCBPrioTbl s' = OSTCBPrioTbl s \<and>
     (\<forall>i\<in>set (OSTCBList s). OSTCBTbl s' ! i =
        (if OSRunning s \<and> OSTickStepState s \<noteq> OS_TICK_STEP_WAIT then ticked (OSTCBTbl s ! i) else OSTCBTbl s ! i))"
proof -
  have k': "kernel_ok (s\<lparr>OSTime := a, OSTickStepState := b\<rparr>)" for a b
    by (rule kernel_ok_cong [OF k]) simp_all
  have l: "distinct (OSTCBList s)" "OSTCBList s \<noteq> []" "prio_of s (last (OSTCBList s)) = 63"
    using kernel_okD(1) [OF k] by (auto simp: lists_ok_def)
  have loop: "\<exists>s'. tick_loop (OSTCBList s) (s\<lparr>OSTime := a, OSTickStepState := b\<rparr>) = Some s' \<and> kernel_ok s' \<and>
      tasks_only (s\<lparr>OSTime := a, OSTickStepState := b\<rparr>) s' \<and>
      (\<forall>i\<in>set (OSTCBList s). OSTCBTbl s' ! i = ticked (OSTCBTbl s ! i))" for a b
  proof -
    let ?x = "s\<lparr>OSTime := a, OSTickStepState := b\<rparr>"
    obtain s' where "tick_loop (OSTCBList s) ?x = Some s'" "kernel_ok s'" "tasks_only ?x s'"
      "\<forall>j. OSTCBTbl s' ! j = (if j \<in> set (OSTCBList s) then ticked (OSTCBTbl ?x ! j) else OSTCBTbl ?x ! j)"
      using tick_loop_ok [OF k' [of b a] _ l(1,2)] l(3) by auto
    then show ?thesis by (intro exI [where x = s']) simp
  qed
  have cur: "cur_ok s'" if "OSTCBList s' = OSTCBList s" "OSTCBCur s' = OSTCBCur s" "OSPrioCur s' = OSPrioCur s"
    "\<forall>i\<in>set (OSTCBList s). OSTCBTbl s' ! i = ticked (OSTCBTbl s ! i)" for s'
    using that c by (auto simp: cur_ok_def ticked_def)
  show ?thesis
  proof (cases "OSRunning s \<and> OSTickStepState s \<noteq> OS_TICK_STEP_WAIT")
    case True
    define b where "b = (if OSTickStepState s = OS_TICK_STEP_DIS then OSTickStepState s
      else if OSTickStepState s = OS_TICK_STEP_ONCE then OS_TICK_STEP_WAIT else OS_TICK_STEP_DIS)"
    obtain s' where s': "tick_loop (OSTCBList s) (s\<lparr>OSTime := OSTime s + 1, OSTickStepState := b\<rparr>) = Some s'" "kernel_ok s'"
      "tasks_only (s\<lparr>OSTime := OSTime s + 1, OSTickStepState := b\<rparr>) s'"
      "\<forall>i\<in>set (OSTCBList s). OSTCBTbl s' ! i = ticked (OSTCBTbl s ! i)"
      using loop by blast
    have "OSTimeTick s = tick_loop (OSTCBList s) (s\<lparr>OSTime := OSTime s + 1, OSTickStepState := b\<rparr>)"
    proof (cases "OSTickStepState s = OS_TICK_STEP_DIS")
      case True
      then have "s\<lparr>OSTime := OSTime s + 1, OSTickStepState := b\<rparr> = s\<lparr>OSTime := OSTime s + 1\<rparr>"
        by (simp add: b_def)
      then show ?thesis using True \<open>OSRunning s \<and> _\<close> by (simp add: OSTimeTick_def Let_def)
    qed (use True in \<open>auto simp: OSTimeTick_def Let_def b_def\<close>)
    then have "OSTimeTick s = Some s'" using s'(1) by simp
    moreover note D = tasks_onlyD [OF s'(3)]
    ultimately show ?thesis using True s'(2,4) D cur [of s'] by (intro exI [where x = s']) simp
  next
    case False
    have "OSTimeTick s = Some (s\<lparr>OSTime := OSTime s + 1\<rparr>)"
      using False by (auto simp: OSTimeTick_def Let_def OS_TICK_STEP_WAIT_def OS_TICK_STEP_DIS_def)
    moreover have "cur_ok (s\<lparr>OSTime := OSTime s + 1\<rparr>)" using c by (simp add: cur_ok_def)
    moreover have "kernel_ok (s\<lparr>OSTime := OSTime s + 1\<rparr>)" using k' [of "OSTickStepState s" "OSTime s + 1"] by simp
    ultimately show ?thesis using False by (intro exI [where x = "s\<lparr>OSTime := OSTime s + 1\<rparr>"]) auto
  qed
qed


section \<open>The current task waits and leaves\<close>

text \<open>The state after the task \<^verbatim>\<open>i\<close> has entered the waiting list of \<^verbatim>\<open>e\<close> with the status bit \<^verbatim>\<open>b\<close>.\<close>

definition blocked :: "u8 \<Rightarrow> u32 \<Rightarrow> nat \<Rightarrow> os_tcb \<Rightarrow> os_tcb" where
  "blocked b timeout e t = t\<lparr>OSTCBStat := OSTCBStat t OR b, OSTCBStatPend := OS_STAT_PEND_OK, OSTCBDly := timeout,
                             OSTCBEventPtr := Some e\<rparr>"

definition block :: "nat \<Rightarrow> nat \<Rightarrow> u8 \<Rightarrow> u32 \<Rightarrow> os \<Rightarrow> os" where
  "block i e b timeout s =
     (let p = OSTCBPrio (OSTCBTbl s ! i); r = map_del p (rdy_map s); ev = OSEvents s ! e
      in s\<lparr>OSTCBTbl := (OSTCBTbl s)[i := blocked b timeout e (OSTCBTbl s ! i)], OSRdyGrp := fst r, OSRdyTbl := snd r,
           OSEvents := (OSEvents s)[e := set_wait (map_ins p (wait_map ev)) ev]\<rparr>)"

lemma OS_EventTaskWait_eq:
  assumes "OSTCBCur s = TCB i" "prio_fields (OSTCBTbl s ! i)" "i < length (OSTCBTbl s)"
  shows "OS_EventTaskWait e (upd_tcb i (\<lambda>t. t\<lparr>OSTCBStat := OSTCBStat t OR b, OSTCBStatPend := OS_STAT_PEND_OK,
           OSTCBDly := timeout\<rparr>) s) = Some (block i e b timeout s)"
  using assms
  by (simp add: OS_EventTaskWait_def upd_tcb_def upd_event_def make_unready_def set_rdy_def block_def blocked_def Let_def
      prio_fields_def set_wait_def)

lemma block_ok:
  assumes k: "kernel_ok s" and e: "e < length (OSEvents s)" and i: "i \<in> set (OSTCBList s)"
    and n: "OSTCBEventPtr (OSTCBTbl s ! i) = None" "OSTCBStat (OSTCBTbl s ! i) = 0" "prio_of s i \<noteq> 63"
    and b: "b = pend_bit (OSEventType (OSEvents s ! e))" "b \<noteq> 0"
    and c: "OSEventType (OSEvents s ! e) = OS_EVENT_TYPE_SEM \<longrightarrow> OSEventCnt (OSEvents s ! e) = 0"
  shows "kernel_ok (block i e b timeout s)" "touches i s (block i e b timeout s)"
    "OSTCBTbl (block i e b timeout s) ! i = blocked b timeout e (OSTCBTbl s ! i)"
    "waits (block i e b timeout s) e = insert (prio_of s i) (waits s e)"
    "ready (block i e b timeout s) = ready s - {prio_of s i}"
    "d \<noteq> e \<Longrightarrow> OSEvents (block i e b timeout s) ! d = OSEvents s ! d"
proof -
  let ?s = "block i e b timeout s" and ?t = "OSTCBTbl s ! i" and ?ev = "OSEvents s ! e"
  let ?u = "blocked b timeout e ?t"
  note t = tcb_okD [OF kernel_okD(4) [OF k i]]
  have il: "i < length (OSTCBTbl s)" by (rule list_in_table [OF kernel_okD(1) [OF k] i])
  have evo: "event_ok ?ev" by (rule kernel_okD(3) [OF k e])
  have mo: "map_ok (wait_map ?ev)" using evo by (simp add: event_ok_def)
  show tbl: "OSTCBTbl ?s ! i = ?u" using il by (simp add: block_def Let_def)
  have evs: "OSEvents ?s ! e = set_wait (map_ins (OSTCBPrio ?t) (wait_map ?ev)) ?ev"
    using e by (simp add: block_def Let_def)
  show ne: "d \<noteq> e \<Longrightarrow> OSEvents ?s ! d = OSEvents s ! d" for d by (simp add: block_def Let_def)
  show we: "waits ?s e = insert (prio_of s i) (waits s e)"
    by (simp add: evs prios_map_ins(2) [OF mo t(7)])
  show rd: "ready ?s = ready s - {prio_of s i}"
    using prios_map_del(2) [OF kernel_okD(2) [OF k] t(7)] by (simp add: block_def Let_def)
  have mr: "map_ok (rdy_map ?s)"
    using prios_map_del(1) [OF kernel_okD(2) [OF k] t(7)] by (simp add: block_def Let_def)
  have pr: "OSTCBPrio ?u = OSTCBPrio ?t" by (simp add: blocked_def)
  have bit: "b \<in> {1, 2, 4}" using pend_bit_cases [of "OSEventType ?ev"] b by (simp add: os_stat_defs)
  have sel: "OSTCBList ?s = OSTCBList s" "OSTCBFreeList ?s = OSTCBFreeList s" "OSTCBPrioTbl ?s = OSTCBPrioTbl s"
    "OSEventFreeList ?s = OSEventFreeList s" "length (OSTCBTbl ?s) = length (OSTCBTbl s)"
    "length (OSEvents ?s) = length (OSEvents s)" "j \<noteq> i \<Longrightarrow> OSTCBTbl ?s ! j = OSTCBTbl s ! j" for j
    by (simp_all add: block_def Let_def)
  have ty: "OSEventType (OSEvents ?s ! d) = OSEventType (OSEvents s ! d)" for d
    by (cases "d = e") (simp_all add: evs ne)
  show T: "touches i s ?s"
    unfolding touches_def
  proof (intro conjI allI impI)
    fix d assume "d < length (OSEvents s)"
    show "OSEventType (OSEvents ?s ! d) = OSEventType (OSEvents s ! d)" by (rule ty)
    fix p assume "p \<noteq> prio_of s i"
    then show "p \<in> waits ?s d \<longleftrightarrow> p \<in> waits s d" using we ne by (cases "d = e") simp_all
  qed (use rd tbl pr sel in simp_all)
  show "kernel_ok ?s"
  proof (rule kernel_ok_task [OF k i T mr])
    fix d assume d: "d < length (OSEvents ?s)"
    show "event_ok (OSEvents ?s ! d)"
    proof (cases "d = e")
      case True
      have nz: "pend_bit (OSEventType ?ev) \<noteq> 0" using b by simp
      then show ?thesis
        unfolding True evs using c prios_map_ins [OF mo t(7)] by (auto simp: event_ok_def)
    next
      case False
      then show ?thesis using d kernel_okD(3) [OF k] sel(6) ne by simp
    qed
  next
    have ev: "prio_of s i \<in> waits ?s d \<longleftrightarrow> d = e" if "d < length (OSEvents s)" for d
      using that we ne t(5) [OF that] n(1) by (cases "d = e") auto
    have st: "stat_ok ?s ?u" using e n(2) b(2) ty [of e] sel(6) by (simp add: stat_ok_def blocked_def Let_def flip: b(1))
    show "tcb_ok ?s i"
      unfolding tcb_ok_def Let_def tbl pr
      using t(1,2,3) ev st n(2,3) rd bit sel(3,6)
      by (auto simp: blocked_def prio_fields_def)
  qed
qed

text \<open>The end of a wait: the task clears its status, after it has left the waiting list if its
  time is over.\<close>

definition end_wait :: "nat \<Rightarrow> nat \<Rightarrow> os \<Rightarrow> os" where
  "end_wait i e s =
     upd_tcb i (\<lambda>t. t\<lparr>OSTCBStat := OS_STAT_RDY, OSTCBStatPend := OS_STAT_PEND_OK,
                      OSTCBEventPtr := None, OSTCBEventMultiPtr := None\<rparr>)
       (if OSTCBStatPend (OSTCBTbl s ! i) \<in> {OS_STAT_PEND_OK, OS_STAT_PEND_ABORT} then s else OS_EventTaskRemove i e s)"

lemma end_wait_ok:
  assumes k: "kernel_ok s" and e: "e < length (OSEvents s)" and i: "i \<in> set (OSTCBList s)"
    and n: "OSTCBEventPtr (OSTCBTbl s ! i) \<in> {None, Some e}" "OSTCBStat (OSTCBTbl s ! i) = 0"
  shows "kernel_ok (end_wait i e s)" "touches i s (end_wait i e s)" "rdy_map (end_wait i e s) = rdy_map s"
    "OSTCBTbl (end_wait i e s) ! i = (OSTCBTbl s ! i)\<lparr>OSTCBStat := 0, OSTCBStatPend := OS_STAT_PEND_OK,
       OSTCBEventPtr := None, OSTCBEventMultiPtr := None\<rparr>"
    "waits (end_wait i e s) e = waits s e - {prio_of s i}"
    "d \<noteq> e \<Longrightarrow> OSEvents (end_wait i e s) ! d = OSEvents s ! d"
proof -
  let ?s = "end_wait i e s" and ?t = "OSTCBTbl s ! i" and ?ev = "OSEvents s ! e"
  let ?u = "?t\<lparr>OSTCBStat := 0, OSTCBStatPend := OS_STAT_PEND_OK, OSTCBEventPtr := None, OSTCBEventMultiPtr := None\<rparr>"
  note t = tcb_okD [OF kernel_okD(4) [OF k i]]
  have il: "i < length (OSTCBTbl s)" by (rule list_in_table [OF kernel_okD(1) [OF k] i])
  have evo: "event_ok ?ev" by (rule kernel_okD(3) [OF k e])
  have mo: "map_ok (wait_map ?ev)" using evo by (simp add: event_ok_def)
  define go where "go \<longleftrightarrow> OSTCBStatPend ?t \<notin> {OS_STAT_PEND_OK, OS_STAT_PEND_ABORT}"
  have stay: "OSTCBEventPtr ?t = None" if "\<not> go"
    using that t(6) n pend_bit_cases [of "OSEventType ?ev"]
    by (auto simp: go_def stat_ok_def Let_def OS_STAT_PEND_TO_def OS_STAT_PEND_OK_def OS_STAT_PEND_ABORT_def
        os_stat_defs split: option.splits)
  show tbl: "OSTCBTbl ?s ! i = ?u"
    using il by (simp add: end_wait_def upd_tcb_def OS_EventTaskRemove_def upd_event_def Let_def OS_STAT_RDY_def)
  have evs: "OSEvents ?s ! e = (if go then set_wait (map_del (OSTCBPrio ?t) (wait_map ?ev)) ?ev else ?ev)"
    using e t(1) by (simp add: end_wait_def upd_tcb_def OS_EventTaskRemove_def upd_event_def Let_def go_def prio_fields_def)
  show ne: "d \<noteq> e \<Longrightarrow> OSEvents ?s ! d = OSEvents s ! d" for d
    by (simp add: end_wait_def upd_tcb_def OS_EventTaskRemove_def upd_event_def Let_def)
  have out: "prio_of s i \<notin> waits s e" if "\<not> go" using stay [OF that] t(5) [OF e] by simp
  show we: "waits ?s e = waits s e - {prio_of s i}"
    using out prios_map_del(2) [OF mo t(7)] by (simp add: evs)
  show rm: "rdy_map ?s = rdy_map s"
    by (simp add: end_wait_def upd_tcb_def OS_EventTaskRemove_def upd_event_def Let_def)
  have sel: "OSTCBList ?s = OSTCBList s" "OSTCBFreeList ?s = OSTCBFreeList s" "OSTCBPrioTbl ?s = OSTCBPrioTbl s"
    "OSEventFreeList ?s = OSEventFreeList s" "length (OSTCBTbl ?s) = length (OSTCBTbl s)"
    "length (OSEvents ?s) = length (OSEvents s)" "j \<noteq> i \<Longrightarrow> OSTCBTbl ?s ! j = OSTCBTbl s ! j" for j
    by (simp_all add: end_wait_def upd_tcb_def OS_EventTaskRemove_def upd_event_def Let_def)
  have ty: "OSEventType (OSEvents ?s ! d) = OSEventType (OSEvents s ! d)" for d
    by (cases "d = e") (simp_all add: evs ne)
  show T: "touches i s ?s"
    unfolding touches_def
  proof (intro conjI allI impI)
    fix d assume "d < length (OSEvents s)"
    show "OSEventType (OSEvents ?s ! d) = OSEventType (OSEvents s ! d)" by (rule ty)
    fix p assume "p \<noteq> prio_of s i"
    then show "p \<in> waits ?s d \<longleftrightarrow> p \<in> waits s d" using we ne by (cases "d = e") simp_all
  qed (use rm tbl sel in simp_all)
  show "kernel_ok ?s"
  proof (rule kernel_ok_task [OF k i T])
    show "map_ok (rdy_map ?s)" using kernel_okD(2) [OF k] rm by simp
    fix d assume d: "d < length (OSEvents ?s)"
    show "event_ok (OSEvents ?s ! d)"
    proof (cases "d = e")
      case True
      then show ?thesis using evo prios_map_del [OF mo t(7)] by (auto simp: event_ok_def evs)
    next
      case False
      then show ?thesis using d kernel_okD(3) [OF k] sel(6) ne by simp
    qed
  next
    have ev: "prio_of s i \<notin> waits ?s d" if "d < length (OSEvents s)" for d
      using that we ne t(5) [OF that] n(1) by (cases "d = e") auto
    show "tcb_ok ?s i"
      unfolding tcb_ok_def Let_def tbl
      using t(1,2,4,8) ev n(2) rm sel(3,6)
      by (auto simp: prio_fields_def stat_ok_def)
  qed
qed

end
