(* ===== verification/Os_Sem.thy ===== *)
theory Os_Sem
  imports Os_Kernel
begin

text \<open>
  The counting semaphores of uC/OS-II (\<^verbatim>\<open>UCOSII/uCOS-II/Source/os_sem.c\<close>).  A call that waits ends
  in the scheduler: \<^verbatim>\<open>OSSemPend\<close> is the part up to there, \<^verbatim>\<open>OSSemPend_end\<close> the part the task
  executes when it runs again.
\<close>

section \<open>Operations\<close>

definition OS_DEL_NO_PEND :: u8 where "OS_DEL_NO_PEND = 0"
definition OS_DEL_ALWAYS :: u8 where "OS_DEL_ALWAYS = 1"
definition OS_PEND_OPT_BROADCAST :: u8 where "OS_PEND_OPT_BROADCAST = 1"

definition OSSemAccept :: "nat \<Rightarrow> os \<Rightarrow> u16 \<times> os" where
  "OSSemAccept e s =
     (if OSEventType (OSEvents s ! e) \<noteq> OS_EVENT_TYPE_SEM then (0, s)
      else (let cnt = OSEventCnt (OSEvents s ! e)
            in (cnt, if 0 < cnt then upd_event e (\<lambda>ev. ev\<lparr>OSEventCnt := OSEventCnt ev - 1\<rparr>) s else s)))"

definition OSSemCreate :: "u16 \<Rightarrow> os \<Rightarrow> nat option \<times> os" where
  "OSSemCreate cnt s =
     (if 0 < OSIntNesting s then (None, s)
      else (case OSEventFreeList s of
              [] \<Rightarrow> (None, s)
            | e # free \<Rightarrow>
                (let s = s\<lparr>OSEventFreeList := free\<rparr>;
                     s = upd_event e (\<lambda>ev. ev\<lparr>OSEventType := OS_EVENT_TYPE_SEM, OSEventCnt := cnt, OSEventPtr := 0\<rparr>) s
                 in (Some e, OS_EventWaitListInit e s))))"

text \<open>The loop that readies every waiting task with a message, counting them.\<close>

partial_function (option) ready_all :: "nat \<Rightarrow> u32 \<Rightarrow> u8 \<Rightarrow> u8 \<Rightarrow> u8 \<Rightarrow> os \<Rightarrow> (u8 \<times> os) option" where
  "ready_all e m msk st n s =
     (if OSEventGrp (OSEvents s ! e) \<noteq> 0
      then (case OS_EventTaskRdy e m msk st s of
              None \<Rightarrow> None
            | Some r \<Rightarrow> ready_all e m msk st (n + 1) (snd r))
      else Some (n, s))"

definition free_event :: "nat \<Rightarrow> os \<Rightarrow> os" where
  "free_event e s =
     (let s = upd_event e (\<lambda>ev. ev\<lparr>OSEventType := OS_EVENT_TYPE_UNUSED, OSEventCnt := 0\<rparr>) s
      in s\<lparr>OSEventFreeList := e # OSEventFreeList s\<rparr>)"

definition OSSemDel :: "nat \<Rightarrow> u8 \<Rightarrow> os \<Rightarrow> (nat option \<times> u8 \<times> os) option" where
  "OSSemDel e opt s =
     (if OSEventType (OSEvents s ! e) \<noteq> OS_EVENT_TYPE_SEM then Some (Some e, OS_ERR_EVENT_TYPE, s)
      else if 0 < OSIntNesting s then Some (Some e, OS_ERR_DEL_ISR, s)
      else (let tasks_waiting = OSEventGrp (OSEvents s ! e) \<noteq> 0
            in if opt = OS_DEL_NO_PEND
               then (if \<not> tasks_waiting then Some (None, OS_ERR_NONE, free_event e s)
                     else Some (Some e, OS_ERR_TASK_WAITING, s))
               else if opt = OS_DEL_ALWAYS
               then do {
                 (_, s) \<leftarrow> ready_all e 0 OS_STAT_SEM OS_STAT_PEND_ABORT 0 s;
                 let s = free_event e s;
                 s \<leftarrow> (if tasks_waiting then OS_Sched s else Some s);
                 Some (None, OS_ERR_NONE, s)
               }
               else Some (Some e, OS_ERR_INVALID_OPT, s)))"

text \<open>The first component is the error code of a call that returns at once.\<close>

definition OSSemPend :: "nat \<Rightarrow> u32 \<Rightarrow> os \<Rightarrow> (u8 option \<times> os) option" where
  "OSSemPend e timeout s =
     (if OSEventType (OSEvents s ! e) \<noteq> OS_EVENT_TYPE_SEM then Some (Some OS_ERR_EVENT_TYPE, s)
      else if 0 < OSIntNesting s then Some (Some OS_ERR_PEND_ISR, s)
      else if 0 < OSLockNesting s then Some (Some OS_ERR_PEND_LOCKED, s)
      else if 0 < OSEventCnt (OSEvents s ! e)
           then Some (Some OS_ERR_NONE, upd_event e (\<lambda>ev. ev\<lparr>OSEventCnt := OSEventCnt ev - 1\<rparr>) s)
      else do {
        i \<leftarrow> deref (OSTCBCur s);
        let s = upd_tcb i (\<lambda>t. t\<lparr>OSTCBStat := OSTCBStat t OR OS_STAT_SEM, OSTCBStatPend := OS_STAT_PEND_OK,
                                 OSTCBDly := timeout\<rparr>) s;
        s \<leftarrow> OS_EventTaskWait e s;
        s \<leftarrow> OS_Sched s;
        Some (None, s)
      })"

definition OSSemPend_end :: "nat \<Rightarrow> os \<Rightarrow> (u8 \<times> os) option" where
  "OSSemPend_end e s =
     do {
       i \<leftarrow> deref (OSTCBCur s);
       let st = OSTCBStatPend (OSTCBTbl s ! i);
       let (err, s) = (if st = OS_STAT_PEND_OK then (OS_ERR_NONE, s)
                       else if st = OS_STAT_PEND_ABORT then (OS_ERR_PEND_ABORT, s)
                       else (OS_ERR_TIMEOUT, OS_EventTaskRemove i e s));
       Some (err, upd_tcb i (\<lambda>t. t\<lparr>OSTCBStat := OS_STAT_RDY, OSTCBStatPend := OS_STAT_PEND_OK,
                                   OSTCBEventPtr := None, OSTCBEventMultiPtr := None\<rparr>) s)
     }"

definition OSSemPendAbort :: "nat \<Rightarrow> u8 \<Rightarrow> os \<Rightarrow> (u8 \<times> u8 \<times> os) option" where
  "OSSemPendAbort e opt s =
     (if OSEventType (OSEvents s ! e) \<noteq> OS_EVENT_TYPE_SEM then Some (0, OS_ERR_EVENT_TYPE, s)
      else if OSEventGrp (OSEvents s ! e) \<noteq> 0
      then do {
        (n, s) \<leftarrow> (if opt = OS_PEND_OPT_BROADCAST then ready_all e 0 OS_STAT_SEM OS_STAT_PEND_ABORT 0 s
                   else do {
                     (_, s) \<leftarrow> OS_EventTaskRdy e 0 OS_STAT_SEM OS_STAT_PEND_ABORT s;
                     Some (1, s)
                   });
        s \<leftarrow> OS_Sched s;
        Some (n, OS_ERR_PEND_ABORT, s)
      }
      else Some (0, OS_ERR_NONE, s))"

definition OSSemPost :: "nat \<Rightarrow> os \<Rightarrow> (u8 \<times> os) option" where
  "OSSemPost e s =
     (if OSEventType (OSEvents s ! e) \<noteq> OS_EVENT_TYPE_SEM then Some (OS_ERR_EVENT_TYPE, s)
      else if OSEventGrp (OSEvents s ! e) \<noteq> 0
      then do {
        (_, s) \<leftarrow> OS_EventTaskRdy e 0 OS_STAT_SEM OS_STAT_PEND_OK s;
        s \<leftarrow> OS_Sched s;
        Some (OS_ERR_NONE, s)
      }
      else if OSEventCnt (OSEvents s ! e) < 65535
      then Some (OS_ERR_NONE, upd_event e (\<lambda>ev. ev\<lparr>OSEventCnt := OSEventCnt ev + 1\<rparr>) s)
      else Some (OS_ERR_SEM_OVF, s))"

definition OSSemQuery :: "nat \<Rightarrow> os \<Rightarrow> u8 \<times> (u16 \<times> u8 list \<times> u8) option" where
  "OSSemQuery e s =
     (let ev = OSEvents s ! e
      in if OSEventType ev \<noteq> OS_EVENT_TYPE_SEM then (OS_ERR_EVENT_TYPE, None)
         else (OS_ERR_NONE, Some (OSEventCnt ev, take 8 (OSEventTbl ev), OSEventGrp ev)))"

definition OSSemSet :: "nat \<Rightarrow> u16 \<Rightarrow> os \<Rightarrow> u8 \<times> os" where
  "OSSemSet e cnt s =
     (let ev = OSEvents s ! e
      in if OSEventType ev \<noteq> OS_EVENT_TYPE_SEM then (OS_ERR_EVENT_TYPE, s)
         else if 0 < OSEventCnt ev then (OS_ERR_NONE, upd_event e (\<lambda>ev. ev\<lparr>OSEventCnt := cnt\<rparr>) s)
         else if OSEventGrp ev = 0 then (OS_ERR_NONE, upd_event e (\<lambda>ev. ev\<lparr>OSEventCnt := cnt\<rparr>) s)
         else (OS_ERR_TASK_WAITING, s))"

end
