(* ===== verification/Os_Time.thy ===== *)
theory Os_Time
  imports Os_Kernel
begin

text \<open>
  Delays and the task calls of uC/OS-II (\<^verbatim>\<open>UCOSII/uCOS-II/Source/os_time.c\<close>, \<^verbatim>\<open>os_task.c\<close>): a
  delayed task leaves the ready list until the ticks have passed or another task resumes it.
\<close>

section \<open>Delays\<close>

definition OSTimeDly :: "u32 \<Rightarrow> os \<Rightarrow> os option" where
  "OSTimeDly ticks s =
     (if 0 < OSIntNesting s then Some s
      else if 0 < OSLockNesting s then Some s
      else if 0 < ticks
      then do {
        i \<leftarrow> deref (OSTCBCur s);
        let s = make_unready i s;
        OS_Sched (upd_tcb i (\<lambda>t. t\<lparr>OSTCBDly := ticks\<rparr>) s)
      }
      else Some s)"

definition OSTimeDlyHMSM :: "u8 \<Rightarrow> u8 \<Rightarrow> u8 \<Rightarrow> u16 \<Rightarrow> os \<Rightarrow> (u8 \<times> os) option" where
  "OSTimeDlyHMSM hours minutes seconds ms s =
     (if 0 < OSIntNesting s then Some (OS_ERR_TIME_DLY_ISR, s)
      else if 0 < OSLockNesting s then Some (OS_ERR_SCHED_LOCKED, s)
      else (let ticks = (ucast hours * 3600 + ucast minutes * 60 + ucast seconds) * OS_TICKS_PER_SEC +
                        OS_TICKS_PER_SEC * (ucast ms + 500 div OS_TICKS_PER_SEC) div 1000
            in do { s \<leftarrow> OSTimeDly ticks s; Some (OS_ERR_NONE, s) }))"

definition OSTimeDlyResume :: "u8 \<Rightarrow> os \<Rightarrow> (u8 \<times> os) option" where
  "OSTimeDlyResume prio s =
     (if OS_LOWEST_PRIO \<le> prio then Some (OS_ERR_PRIO_INVALID, s)
      else (case OSTCBPrioTbl s ! unat prio of
              NULL \<Rightarrow> Some (OS_ERR_TASK_NOT_EXIST, s)
            | OS_TCB_RESERVED \<Rightarrow> Some (OS_ERR_TASK_NOT_EXIST, s)
            | TCB i \<Rightarrow>
                (let t = OSTCBTbl s ! i
                 in if OSTCBDly t = 0 then Some (OS_ERR_TIME_NOT_DLY, s)
                    else (let t = t\<lparr>OSTCBDly := 0\<rparr>;
                              t = (if OSTCBStat t AND OS_STAT_PEND_ANY \<noteq> OS_STAT_RDY
                                   then t\<lparr>OSTCBStat := OSTCBStat t AND NOT OS_STAT_PEND_ANY,
                                          OSTCBStatPend := OS_STAT_PEND_TO\<rparr>
                                   else t\<lparr>OSTCBStatPend := OS_STAT_PEND_OK\<rparr>);
                              s = upd_tcb i (\<lambda>_. t) s
                          in if OSTCBStat t AND OS_STAT_SUSPEND = OS_STAT_RDY
                             then do { s \<leftarrow> OS_Sched (make_ready i s); Some (OS_ERR_NONE, s) }
                             else Some (OS_ERR_NONE, s)))))"

definition OSTimeGet :: "os \<Rightarrow> u32" where
  "OSTimeGet s = OSTime s"

definition OSTimeSet :: "u32 \<Rightarrow> os \<Rightarrow> os" where
  "OSTimeSet ticks s = s\<lparr>OSTime := ticks\<rparr>"

section \<open>Tasks\<close>

text \<open>\<^verbatim>\<open>ptos\<close> is the stack pointer \<^verbatim>\<open>OSTaskStkInit\<close> gives; the frame it writes is not modelled.\<close>

definition OS_TCBInit :: "u8 \<Rightarrow> u32 \<Rightarrow> u16 \<Rightarrow> u32 \<Rightarrow> u16 \<Rightarrow> os \<Rightarrow> u8 \<times> os" where
  "OS_TCBInit prio ptos ident stk_size opt s =
     (case OSTCBFreeList s of
        [] \<Rightarrow> (OS_ERR_TASK_NO_MORE_TCB, s)
      | i # free \<Rightarrow>
          (let s = s\<lparr>OSTCBFreeList := free\<rparr>;
               t = \<lparr>OSTCBStkPtr = ptos, OSTCBStkSize = stk_size, OSTCBOpt = opt, OSTCBId = ident,
                    OSTCBEventPtr = None, OSTCBEventMultiPtr = None, OSTCBMsg = 0, OSTCBDly = 0,
                    OSTCBStat = OS_STAT_RDY, OSTCBStatPend = OS_STAT_PEND_OK, OSTCBPrio = prio,
                    OSTCBX = prio AND 0x07, OSTCBY = drop_bit 3 prio,
                    OSTCBBitX = push_bit (unat (prio AND 0x07)) 1, OSTCBBitY = push_bit (unat (drop_bit 3 prio)) 1,
                    OSTCBDelReq = OS_ERR_NONE, OSTCBCtxSwCtr = 0\<rparr>;
               s = upd_tcb i (\<lambda>_. t) s;
               s = s\<lparr>OSTCBPrioTbl := (OSTCBPrioTbl s)[unat prio := TCB i]\<rparr>;
               s = s\<lparr>OSTCBList := i # OSTCBList s\<rparr>;
               s = make_ready i s
           in (OS_ERR_NONE, s\<lparr>OSTaskCtr := OSTaskCtr s + 1\<rparr>)))"

definition OSTaskCreate :: "u32 \<Rightarrow> u8 \<Rightarrow> os \<Rightarrow> (u8 \<times> os) option" where
  "OSTaskCreate psp prio s =
     (if 0 < OSIntNesting s then Some (OS_ERR_TASK_CREATE_ISR, s)
      else if OSTCBPrioTbl s ! unat prio = NULL
      then (let s = s\<lparr>OSTCBPrioTbl := (OSTCBPrioTbl s)[unat prio := OS_TCB_RESERVED]\<rparr>;
                (err, s) = OS_TCBInit prio psp 0 0 0 s
            in if err = OS_ERR_NONE
               then (if OSRunning s then do { s \<leftarrow> OS_Sched s; Some (err, s) } else Some (err, s))
               else Some (err, s\<lparr>OSTCBPrioTbl := (OSTCBPrioTbl s)[unat prio := NULL]\<rparr>))
      else Some (OS_ERR_PRIO_EXIST, s))"

definition OSTaskCreateExt :: "u32 \<Rightarrow> u8 \<Rightarrow> u16 \<Rightarrow> u32 \<Rightarrow> u16 \<Rightarrow> os \<Rightarrow> (u8 \<times> os) option" where
  "OSTaskCreateExt psp prio ident stk_size opt s =
     (if 0 < OSIntNesting s then Some (OS_ERR_TASK_CREATE_ISR, s)
      else if OSTCBPrioTbl s ! unat prio = NULL
      then (let s = s\<lparr>OSTCBPrioTbl := (OSTCBPrioTbl s)[unat prio := OS_TCB_RESERVED]\<rparr>;
                (err, s) = OS_TCBInit prio psp ident stk_size opt s
            in if err = OS_ERR_NONE
               then (if OSRunning s then do { s \<leftarrow> OS_Sched s; Some (err, s) } else Some (err, s))
               else Some (err, s\<lparr>OSTCBPrioTbl := (OSTCBPrioTbl s)[unat prio := NULL]\<rparr>))
      else Some (OS_ERR_PRIO_EXIST, s))"

definition OSTaskSuspend :: "u8 \<Rightarrow> os \<Rightarrow> (u8 \<times> os) option" where
  "OSTaskSuspend prio0 s =
     do {
       c \<leftarrow> deref (OSTCBCur s);
       let cp = OSTCBPrio (OSTCBTbl s ! c);
       let (prio, self) = (if prio0 = OS_PRIO_SELF then (cp, True) else (prio0, prio0 = cp));
       (case OSTCBPrioTbl s ! unat prio of
          NULL \<Rightarrow> Some (OS_ERR_TASK_SUSPEND_PRIO, s)
        | OS_TCB_RESERVED \<Rightarrow> Some (OS_ERR_TASK_NOT_EXIST, s)
        | TCB i \<Rightarrow>
            (let s = make_unready i s;
                 s = upd_tcb i (\<lambda>t. t\<lparr>OSTCBStat := OSTCBStat t OR OS_STAT_SUSPEND\<rparr>) s
             in do { s \<leftarrow> (if self then OS_Sched s else Some s); Some (OS_ERR_NONE, s) }))
     }"

definition OSTaskResume :: "u8 \<Rightarrow> os \<Rightarrow> (u8 \<times> os) option" where
  "OSTaskResume prio s =
     (case OSTCBPrioTbl s ! unat prio of
        NULL \<Rightarrow> Some (OS_ERR_TASK_RESUME_PRIO, s)
      | OS_TCB_RESERVED \<Rightarrow> Some (OS_ERR_TASK_NOT_EXIST, s)
      | TCB i \<Rightarrow>
          (let t = OSTCBTbl s ! i
           in if OSTCBStat t AND OS_STAT_SUSPEND \<noteq> OS_STAT_RDY
              then (let t = t\<lparr>OSTCBStat := OSTCBStat t AND NOT OS_STAT_SUSPEND\<rparr>;
                        s = upd_tcb i (\<lambda>_. t) s
                    in if OSTCBStat t AND OS_STAT_PEND_ANY = OS_STAT_RDY \<and> OSTCBDly t = 0
                       then do {
                         let s = make_ready i s;
                         s \<leftarrow> (if OSRunning s then OS_Sched s else Some s);
                         Some (OS_ERR_NONE, s)
                       }
                       else Some (OS_ERR_NONE, s))
              else Some (OS_ERR_TASK_NOT_SUSPENDED, s)))"

end
