(* ===== verification/Os_Calls.thy ===== *)
theory Os_Calls
  imports Os_Sem Os_Time
begin

text \<open>
  Every call of \<^verbatim>\<open>os_sem.c\<close>, \<^verbatim>\<open>os_time.c\<close> and \<^verbatim>\<open>os_task.c\<close> that is modelled returns on a kernel in a
  consistent state and leaves it consistent, with the ready task of highest priority running.
\<close>

section \<open>Good steps\<close>

text \<open>A step that no task but those of \<^verbatim>\<open>X\<close> and those that wait notice; it ends waits and delays
  and begins none.\<close>

definition quiet :: "nat set \<Rightarrow> os \<Rightarrow> os \<Rightarrow> bool" where
  "quiet X s s' \<longleftrightarrow> OSTickStepState s' = OSTickStepState s \<and>
     (\<forall>i\<in>set (OSTCBList s). i \<notin> X \<longrightarrow> OSTCBEventPtr (OSTCBTbl s ! i) = None \<longrightarrow> same_tcb (OSTCBTbl s ! i) (OSTCBTbl s' ! i)) \<and> OSTCBList s' = OSTCBList s \<and> length (OSEvents s') = length (OSEvents s) \<and> OSRunning s' = OSRunning s \<and>
     OSIntNesting s' = OSIntNesting s \<and> OSLockNesting s' = OSLockNesting s \<and> OSTCBPrioTbl s' = OSTCBPrioTbl s \<and>
     (\<forall>i\<in>set (OSTCBList s). OSTCBEventPtr (OSTCBTbl s' ! i) \<in> {OSTCBEventPtr (OSTCBTbl s ! i), None} \<and>
        OSTCBDly (OSTCBTbl s' ! i) \<in> {OSTCBDly (OSTCBTbl s ! i), 0} \<and> prio_of s' i = prio_of s i)"

definition stable :: "os \<Rightarrow> bool" where
  "stable s \<longleftrightarrow> kernel_ok s \<and> cur_ok s \<and> highest s"

definition good :: "nat set \<Rightarrow> os \<Rightarrow> os \<Rightarrow> bool" where
  "good X s s' \<longleftrightarrow> stable s' \<and> quiet X s s' \<and>
     (OSTCBCur s' = OSTCBCur s \<or> OSIntNesting s' = 0 \<and> OSLockNesting s' = 0)"

lemma quiet_refl [simp]: "quiet X s s"
  by (simp add: quiet_def)

lemma quiet_trans:
  assumes "quiet X s s1" "quiet X s1 s2"
  shows "quiet X s s2"
proof -
  have "same_tcb (OSTCBTbl s ! i) (OSTCBTbl s2 ! i)"
    if "i \<in> set (OSTCBList s)" "i \<notin> X" "OSTCBEventPtr (OSTCBTbl s ! i) = None" for i
  proof -
    have 1: "same_tcb (OSTCBTbl s ! i) (OSTCBTbl s1 ! i)" using assms(1) that by (simp add: quiet_def)
    then have "OSTCBEventPtr (OSTCBTbl s1 ! i) = None" using that(3) same_tcbD(1) by metis
    then have "same_tcb (OSTCBTbl s1 ! i) (OSTCBTbl s2 ! i)"
      using assms that(1,2) by (simp add: quiet_def)
    with 1 show ?thesis by (rule same_tcb_trans)
  qed
  moreover have "OSTCBEventPtr (OSTCBTbl s2 ! i) \<in> {OSTCBEventPtr (OSTCBTbl s ! i), None} \<and>
      OSTCBDly (OSTCBTbl s2 ! i) \<in> {OSTCBDly (OSTCBTbl s ! i), 0} \<and> prio_of s2 i = prio_of s i"
    if i: "i \<in> set (OSTCBList s)" for i
  proof -
    have "OSTCBEventPtr (OSTCBTbl s1 ! i) \<in> {OSTCBEventPtr (OSTCBTbl s ! i), None} \<and>
      OSTCBDly (OSTCBTbl s1 ! i) \<in> {OSTCBDly (OSTCBTbl s ! i), 0} \<and> prio_of s1 i = prio_of s i"
      using assms(1) i by (simp only: quiet_def)
    moreover have "OSTCBEventPtr (OSTCBTbl s2 ! i) \<in> {OSTCBEventPtr (OSTCBTbl s1 ! i), None} \<and>
      OSTCBDly (OSTCBTbl s2 ! i) \<in> {OSTCBDly (OSTCBTbl s1 ! i), 0} \<and> prio_of s2 i = prio_of s1 i"
      using assms i by (simp only: quiet_def)
    ultimately show ?thesis by auto
  qed
  ultimately show ?thesis using assms by (simp add: quiet_def)
qed

lemma good_refl: "stable s \<Longrightarrow> good X s s"
  by (simp add: good_def)

lemma quiet_switched:
  assumes "switched s s'"
  shows "quiet X s s'"
  using same_tcbD [OF switchedD(14) [OF assms]] switchedD [OF assms] by (simp add: quiet_def)

lemma touches_quiet:
  assumes "touches i s s'"
    and "OSRunning s' = OSRunning s" "OSIntNesting s' = OSIntNesting s" "OSLockNesting s' = OSLockNesting s"
    and "OSTickStepState s' = OSTickStepState s" "i \<in> X \<or> OSTCBEventPtr (OSTCBTbl s ! i) \<noteq> None"
    and "OSTCBEventPtr (OSTCBTbl s' ! i) \<in> {OSTCBEventPtr (OSTCBTbl s ! i), None}"
    and "OSTCBDly (OSTCBTbl s' ! i) \<in> {OSTCBDly (OSTCBTbl s ! i), 0}"
  shows "quiet X s s'"
proof -
  have "OSTCBEventPtr (OSTCBTbl s' ! j) \<in> {OSTCBEventPtr (OSTCBTbl s ! j), None} \<and>
      OSTCBDly (OSTCBTbl s' ! j) \<in> {OSTCBDly (OSTCBTbl s ! j), 0} \<and> prio_of s' j = prio_of s j" for j
    using assms by (cases "j = i") (auto simp: touches_def)
  moreover have "same_tcb (OSTCBTbl s ! j) (OSTCBTbl s' ! j)" if "j \<notin> X" "OSTCBEventPtr (OSTCBTbl s ! j) = None" for j
    using assms that by (cases "j = i") (auto simp: touches_def)
  ultimately show ?thesis using assms by (auto simp: quiet_def touches_def)
qed

lemma touches_cur:
  assumes "cur_ok s" "touches i s s'" "OSTCBCur s' = OSTCBCur s" "OSPrioCur s' = OSPrioCur s"
  shows "cur_ok s'"
proof -
  obtain c where c: "c \<in> set (OSTCBList s)" "OSTCBCur s = TCB c" "OSPrioCur s = OSTCBPrio (OSTCBTbl s ! c)"
    using assms(1) by (auto simp: cur_ok_def)
  have "OSTCBPrio (OSTCBTbl s' ! c) = OSTCBPrio (OSTCBTbl s ! c)" "OSTCBList s' = OSTCBList s"
    using assms(2) by (cases "c = i"; simp add: touches_def)+
  then show ?thesis using assms(3,4) c by (auto simp: cur_ok_def)
qed

lemma good_sched:
  assumes "kernel_ok s1" "cur_ok s1" "quiet X s s1" "OSTCBCur s1 = OSTCBCur s"
  shows "\<exists>s'. OS_Sched s1 = Some s' \<and> good X s s' \<and> switched s1 s'"
proof -
  obtain s' where s': "OS_Sched s1 = Some s'" "switched s1 s'" "kernel_ok s'" "cur_ok s'" "highest s'"
    using OS_Sched_ok [OF assms(1,2)] by blast
  have "quiet X s s'" by (rule quiet_trans [OF assms(3) quiet_switched [OF s'(2)]])
  moreover have "OSTCBCur s' = OSTCBCur s \<or> OSIntNesting s' = 0 \<and> OSLockNesting s' = 0"
    using s'(1,2) assms(4) by (auto simp: OS_Sched_def switchedD split: if_splits)
  ultimately show ?thesis using s' by (auto simp: good_def stable_def)
qed

lemma good_stay:
  assumes "stable s" "kernel_ok s'" "cur_ok s'" "quiet X s s'" "OSTCBCur s' = OSTCBCur s" "OSPrioCur s' = OSPrioCur s"
    and "OSIntNesting s = 0 \<Longrightarrow> OSLockNesting s = 0 \<Longrightarrow> Min (ready s') = Min (ready s)"
  shows "good X s s'"
  using assms by (auto simp: good_def stable_def highest_def quiet_def)

section \<open>Events\<close>

lemma event_upd_ok:
  assumes k: "kernel_ok s" and e: "e < length (OSEvents s)"
    and w: "wait_map (f (OSEvents s ! e)) = wait_map (OSEvents s ! e)"
    and t: "OSEventType (f (OSEvents s ! e)) = OSEventType (OSEvents s ! e)"
    and c: "OSEventType (OSEvents s ! e) = OS_EVENT_TYPE_SEM \<Longrightarrow> 0 < OSEventCnt (f (OSEvents s ! e)) \<Longrightarrow> waits s e = {}"
  shows "kernel_ok (upd_event e f s)"
proof -
  let ?s = "upd_event e f s"
  have ev: "wait_map (OSEvents ?s ! d) = wait_map (OSEvents s ! d)" "OSEventType (OSEvents ?s ! d) = OSEventType (OSEvents s ! d)"
    for d using e w t by (cases "d = e"; simp add: upd_event_def)+
  have "event_ok (OSEvents ?s ! d)" if "d < length (OSEvents s)" for d
    using kernel_okD(3) [OF k that] c w t that by (cases "d = e") (auto simp: event_ok_def upd_event_def)
  moreover have "tcb_ok ?s i = tcb_ok s i" for i
    using ev stat_ok_cong [of "OSTCBTbl s ! i" "OSTCBTbl s ! i" ?s s]
    by (simp add: tcb_ok_def Let_def) (simp add: upd_event_def)
  moreover have "lists_ok ?s = lists_ok s" using ev by (simp add: lists_ok_def) (simp add: upd_event_def)
  ultimately show ?thesis
    using k ev by (simp add: kernel_ok_def) (simp add: upd_event_def)
qed

lemma event_upd_good:
  assumes "stable s" "e < length (OSEvents s)" "wait_map (f (OSEvents s ! e)) = wait_map (OSEvents s ! e)"
    "OSEventType (f (OSEvents s ! e)) = OSEventType (OSEvents s ! e)"
    "OSEventType (OSEvents s ! e) = OS_EVENT_TYPE_SEM \<Longrightarrow> 0 < OSEventCnt (f (OSEvents s ! e)) \<Longrightarrow> waits s e = {}"
  shows "good X s (upd_event e f s)"
proof (rule good_stay [OF assms(1)])
  show "kernel_ok (upd_event e f s)" using assms event_upd_ok by (auto simp: stable_def)
  show "cur_ok (upd_event e f s)" using assms(1) by (simp add: stable_def cur_ok_def upd_event_def)
qed (simp_all add: upd_event_def quiet_def)

lemma group_waits:
  assumes "kernel_ok s" "e < length (OSEvents s)"
  shows "OSEventGrp (OSEvents s ! e) = 0 \<longleftrightarrow> waits s e = {}"
  using kernel_okD(3) [OF assms] prios_empty_iff [of "wait_map (OSEvents s ! e)"] by (simp add: event_ok_def)

lemma sem_pend_bit: "pend_bit OS_EVENT_TYPE_SEM = OS_STAT_SEM"
  by (simp add: pend_bit_def)

lemma sem_cnt_waits:
  assumes "kernel_ok s" "e < length (OSEvents s)" "OSEventType (OSEvents s ! e) = OS_EVENT_TYPE_SEM"
  shows "0 < OSEventCnt (OSEvents s ! e) \<Longrightarrow> waits s e = {}"
  using kernel_okD(3) [OF assms(1,2)] assms(3) by (simp add: event_ok_def)

section \<open>Semaphore calls\<close>

lemma OSSemAccept_good:
  assumes "stable s" "e < length (OSEvents s)"
  shows "good X s (snd (OSSemAccept e s))"
  using event_upd_good [OF assms, of "\<lambda>ev. ev\<lparr>OSEventCnt := OSEventCnt ev - 1\<rparr>"] assms good_refl
    sem_cnt_waits [of s e] by (auto simp: OSSemAccept_def Let_def stable_def)

lemma OSSemSet_good:
  assumes "stable s" "e < length (OSEvents s)"
  shows "good X s (snd (OSSemSet e cnt s))"
  using event_upd_good [OF assms, of "\<lambda>ev. ev\<lparr>OSEventCnt := cnt\<rparr>"] assms good_refl
    sem_cnt_waits [of s e] group_waits [of s e] by (auto simp: OSSemSet_def Let_def stable_def)

lemma wake_quiet:
  assumes "kernel_ok s" "e < length (OSEvents s)" "i \<in> set (OSTCBList s)" "prio_of s i \<in> waits s e"
    "msk = pend_bit (OSEventType (OSEvents s ! e))"
  shows "quiet X s (wake i e m msk ps s)"
proof (rule touches_quiet)
  show "touches i s (wake i e m msk ps s)" by (rule wake_ok(2) [OF assms])
qed (use waiting_task(1) [OF assms(1-4)] in \<open>simp_all add: wake_ok(3) [OF assms] woken_def\<close>)

lemma wake_type: "OSEventType (OSEvents (wake i e m msk ps s) ! d) = OSEventType (OSEvents s ! d)"
  by (cases "e < length (OSEvents s)"; cases "d = e") (simp_all add: wake_def Let_def list_update_beyond)

lemma wake_ptr: "OSEventPtr (OSEvents (wake i e m msk ps s) ! d) = OSEventPtr (OSEvents s ! d)"
  by (cases "e < length (OSEvents s)"; cases "d = e") (simp_all add: wake_def Let_def list_update_beyond set_wait_def)

lemma ready_all_ok:
  assumes "kernel_ok s" "cur_ok s" "e < length (OSEvents s)" "msk = pend_bit (OSEventType (OSEvents s ! e))"
  shows "\<exists>n' s'. ready_all e m msk st n s = Some (n', s') \<and> kernel_ok s' \<and> cur_ok s' \<and> quiet X s s' \<and> waits s' e = {} \<and>
     OSTCBCur s' = OSTCBCur s \<and> OSPrioCur s' = OSPrioCur s \<and> OSEventFreeList s' = OSEventFreeList s \<and>
     (waits s e = {} \<longrightarrow> s' = s) \<and>
     (\<forall>d. OSEventType (OSEvents s' ! d) = OSEventType (OSEvents s ! d)) \<and>
     (\<forall>d. OSEventPtr (OSEvents s' ! d) = OSEventPtr (OSEvents s ! d)) \<and> (\<forall>d. d \<noteq> e \<longrightarrow> OSEvents s' ! d = OSEvents s ! d)"
  using assms
proof (induction "card (waits s e)" arbitrary: s n rule: less_induct)
  case less
  note k = less.prems(1) and e = less.prems(3)
  show ?case
  proof (cases "waits s e = {}")
    case True
    then have "ready_all e m msk st n s = Some (n, s)" using group_waits [OF k e] by (subst ready_all.simps) simp
    then show ?thesis using less.prems True by auto
  next
    case False
    obtain i where i: "OSTCBPrioTbl s ! unat (map_top (wait_map (OSEvents s ! e))) = TCB i" "i \<in> set (OSTCBList s)"
      "prio_of s i \<in> waits s e" using first_waiting [OF k e False] by metis
    note W = wake_ok [OF k e i(2,3) less.prems(4), of m st]
    let ?s = "wake i e m msk st s"
    have c: "cur_ok ?s" by (rule touches_cur [OF less.prems(2) W(2)]) simp_all
    have "card (waits ?s e) < card (waits s e)" unfolding W(4) using i(3) by (intro card_Diff1_less) simp_all
    then obtain n' s' where s': "ready_all e m msk st (n + 1) ?s = Some (n', s')" "kernel_ok s'" "cur_ok s'" "quiet X ?s s'"
      "waits s' e = {}" "OSTCBCur s' = OSTCBCur ?s" "OSPrioCur s' = OSPrioCur ?s" "OSEventFreeList s' = OSEventFreeList ?s"
      "\<forall>d. OSEventType (OSEvents s' ! d) = OSEventType (OSEvents ?s ! d)"
      "\<forall>d. OSEventPtr (OSEvents s' ! d) = OSEventPtr (OSEvents ?s ! d)" "\<forall>d. d \<noteq> e \<longrightarrow> OSEvents s' ! d = OSEvents ?s ! d"
      using less.hyps [of ?s "n + 1"] W(1) c e less.prems(4) by (auto simp: wake_type)
    have "ready_all e m msk st n s = ready_all e m msk st (n + 1) ?s"
      using group_waits [OF k e] False OS_EventTaskRdy_eq [OF k e False i(1)] by (subst ready_all.simps) simp
    then show ?thesis
      using s' False quiet_trans [OF wake_quiet [OF k e i(2,3) less.prems(4)] s'(4)] by (auto simp: wake_type wake_ptr)
  qed
qed

lemma OSSemPost_good:
  assumes "stable s" "e < length (OSEvents s)"
  shows "\<exists>r s'. OSSemPost e s = Some (r, s') \<and> good X s s'"
proof (cases "OSEventType (OSEvents s ! e) = OS_EVENT_TYPE_SEM")
  case False
  then show ?thesis using good_refl [OF assms(1)] by (simp add: OSSemPost_def)
next
  case True
  have k: "kernel_ok s" "cur_ok s" using assms(1) by (simp_all add: stable_def)
  note e = assms(2)
  show ?thesis
  proof (cases "waits s e = {}")
    case False
    obtain i where i: "OSTCBPrioTbl s ! unat (map_top (wait_map (OSEvents s ! e))) = TCB i" "i \<in> set (OSTCBList s)"
      "prio_of s i \<in> waits s e" using first_waiting [OF k(1) e False] by metis
    have m: "OS_STAT_SEM = pend_bit (OSEventType (OSEvents s ! e))" by (simp add: True sem_pend_bit)
    note W = wake_ok [OF k(1) e i(2,3) m, of 0 OS_STAT_PEND_OK]
    let ?s = "wake i e 0 OS_STAT_SEM OS_STAT_PEND_OK s"
    have "cur_ok ?s" by (rule touches_cur [OF k(2) W(2)]) simp_all
    then obtain s' where "OS_Sched ?s = Some s'" "good X s s'"
      using good_sched [OF W(1) _ wake_quiet [OF k(1) e i(2,3) m]] by auto
    then show ?thesis
      using True False group_waits [OF k(1) e] OS_EventTaskRdy_eq [OF k(1) e False i(1)] by (simp add: OSSemPost_def)
  next
    case empty: True
    then show ?thesis
      using True group_waits [OF k(1) e] good_refl [OF assms(1)]
        event_upd_good [OF assms, of "\<lambda>ev. ev\<lparr>OSEventCnt := OSEventCnt ev + 1\<rparr>"]
      by (auto simp: OSSemPost_def)
  qed
qed


lemma OSSemPendAbort_good:
  assumes "stable s" "e < length (OSEvents s)"
  shows "\<exists>n r s'. OSSemPendAbort e opt s = Some (n, r, s') \<and> good X s s'"
proof (cases "OSEventType (OSEvents s ! e) = OS_EVENT_TYPE_SEM \<and> waits s e \<noteq> {}")
  case False
  then show ?thesis
    using good_refl [OF assms(1)] group_waits [of s e] assms by (auto simp: OSSemPendAbort_def stable_def)
next
  case True
  have k: "kernel_ok s" "cur_ok s" using assms(1) by (simp_all add: stable_def)
  note e = assms(2)
  have m: "OS_STAT_SEM = pend_bit (OSEventType (OSEvents s ! e))" using True by (simp add: sem_pend_bit)
  have g: "OSEventGrp (OSEvents s ! e) \<noteq> 0" using True group_waits [OF k(1) e] by simp
  show ?thesis
  proof (cases "opt = OS_PEND_OPT_BROADCAST")
    case bc: True
    obtain n s1 where s1: "ready_all e 0 OS_STAT_SEM OS_STAT_PEND_ABORT 0 s = Some (n, s1)" "kernel_ok s1" "cur_ok s1"
      "quiet X s s1" "OSTCBCur s1 = OSTCBCur s" using ready_all_ok [OF k e m] by metis
    obtain s' where "OS_Sched s1 = Some s'" "good X s s'" using good_sched [OF s1(2-5)] by blast
    then show ?thesis using True g bc s1(1) by (simp add: OSSemPendAbort_def)
  next
    case one: False
    obtain i where i: "OSTCBPrioTbl s ! unat (map_top (wait_map (OSEvents s ! e))) = TCB i" "i \<in> set (OSTCBList s)"
      "prio_of s i \<in> waits s e" using first_waiting [OF k(1) e] True by metis
    note W = wake_ok [OF k(1) e i(2,3) m, of 0 OS_STAT_PEND_ABORT]
    let ?s = "wake i e 0 OS_STAT_SEM OS_STAT_PEND_ABORT s"
    have "cur_ok ?s" by (rule touches_cur [OF k(2) W(2)]) simp_all
    then obtain s' where "OS_Sched ?s = Some s'" "good X s s'"
      using good_sched [OF W(1) _ wake_quiet [OF k(1) e i(2,3) m]] by auto
    then show ?thesis
      using True g one OS_EventTaskRdy_eq [OF k(1) e _ i(1)] by (simp add: OSSemPendAbort_def)
  qed
qed

text \<open>Blocks taken from the free list and given back.\<close>

lemma event_replace_ok:
  assumes k: "kernel_ok s" and e: "e < length (OSEvents s)" and w: "waits s e = {}"
    and ok: "event_ok ev'" "prios (wait_map ev') = {}"
    and free: "distinct free" "set free \<subseteq> {..<length (OSEvents s)}"
      "\<forall>d\<in>set free. OSEventType ((OSEvents s)[e := ev'] ! d) = OS_EVENT_TYPE_UNUSED"
  shows "kernel_ok (s\<lparr>OSEvents := (OSEvents s)[e := ev'], OSEventFreeList := free\<rparr>)" (is "kernel_ok ?s")
proof -
  have wt: "waits ?s d = waits s d" for d using w ok(2) e by (cases "d = e") simp_all
  have st: "stat_ok ?s t = stat_ok s t" if "OSTCBEventPtr t \<noteq> Some e" for t
    using that by (cases "OSTCBEventPtr t") (auto simp: stat_ok_def Let_def)
  have "tcb_ok ?s i" if i: "i \<in> set (OSTCBList s)" for i
  proof -
    note t = tcb_okD [OF kernel_okD(4) [OF k i]]
    have "OSTCBEventPtr (OSTCBTbl s ! i) \<noteq> Some e" using t(5) [OF e] w by auto
    then show ?thesis using kernel_okD(4) [OF k i] st wt by (simp add: tcb_ok_def Let_def)
  qed
  moreover have "event_ok (OSEvents ?s ! d)" if "d < length (OSEvents s)" for d
    using kernel_okD(3) [OF k that] ok(1) e by (cases "d = e") simp_all
  moreover have "lists_ok ?s" using kernel_okD(1) [OF k] free by (simp add: lists_ok_def)
  ultimately show ?thesis using k wt by (simp add: kernel_ok_def)
qed

lemma event_replace_good:
  assumes "stable s" "e < length (OSEvents s)" "waits s e = {}" "event_ok ev'" "prios (wait_map ev') = {}"
    "distinct free" "set free \<subseteq> {..<length (OSEvents s)}"
    "\<forall>d\<in>set free. OSEventType ((OSEvents s)[e := ev'] ! d) = OS_EVENT_TYPE_UNUSED"
  shows "good X s (s\<lparr>OSEvents := (OSEvents s)[e := ev'], OSEventFreeList := free\<rparr>)"
proof (rule good_stay [OF assms(1)])
  show "kernel_ok (s\<lparr>OSEvents := (OSEvents s)[e := ev'], OSEventFreeList := free\<rparr>)"
    using assms event_replace_ok by (simp add: stable_def)
qed (use assms(1) in \<open>simp_all add: quiet_def stable_def cur_ok_def\<close>)

lemma first_free_event:
  assumes "kernel_ok s" "OSEventFreeList s = e # free"
  shows "e < length (OSEvents s)" "OSEventType (OSEvents s ! e) = OS_EVENT_TYPE_UNUSED" "e \<notin> set free" "distinct free"
    "set free \<subseteq> {..<length (OSEvents s)}" "\<forall>d\<in>set free. OSEventType (OSEvents s ! d) = OS_EVENT_TYPE_UNUSED" "waits s e = {}"
proof -
  show e: "e < length (OSEvents s)" "OSEventType (OSEvents s ! e) = OS_EVENT_TYPE_UNUSED" "e \<notin> set free" "distinct free"
    "set free \<subseteq> {..<length (OSEvents s)}" "\<forall>d\<in>set free. OSEventType (OSEvents s ! d) = OS_EVENT_TYPE_UNUSED"
    using kernel_okD(1) [OF assms(1)] assms(2) by (auto simp: lists_ok_def)
  show "waits s e = {}"
    using kernel_okD(3) [OF assms(1) e(1)] e(2) by (simp add: event_ok_def pend_bit_def OS_EVENT_TYPE_UNUSED_def
        OS_EVENT_TYPE_SEM_def OS_EVENT_TYPE_MBOX_def OS_EVENT_TYPE_Q_def)
qed

lemma create_good:
  assumes st: "stable s" and f: "OSEventFreeList s = e # free"
  shows "good X s (s\<lparr>OSEvents := (OSEvents s)[e := set_wait map_empty ev], OSEventFreeList := free\<rparr>)"
proof -
  have k: "kernel_ok s" using st by (simp add: stable_def)
  note e = first_free_event [OF k f]
  show ?thesis
  proof (rule event_replace_good [OF st e(1,7)])
    show "event_ok (set_wait map_empty ev)" by (simp add: event_ok_def)
    show "\<forall>d\<in>set free. OSEventType ((OSEvents s)[e := set_wait map_empty ev] ! d) = OS_EVENT_TYPE_UNUSED"
      using e(3,6) nth_list_update_neq by metis
  qed (use e in auto)
qed

lemma OSSemCreate_good:
  assumes "stable s"
  shows "good X s (snd (OSSemCreate cnt s))"
proof (cases "OSIntNesting s > 0 \<or> OSEventFreeList s = []")
  case True
  then show ?thesis using good_refl [OF assms] by (auto simp: OSSemCreate_def split: list.splits)
next
  case False
  then obtain e free where f: "OSEventFreeList s = e # free" by (cases "OSEventFreeList s") auto
  have k: "kernel_ok s" using assms by (simp add: stable_def)
  have "snd (OSSemCreate cnt s) = s\<lparr>OSEvents := (OSEvents s)[e := set_wait map_empty
      ((OSEvents s ! e)\<lparr>OSEventType := OS_EVENT_TYPE_SEM, OSEventCnt := cnt, OSEventPtr := 0\<rparr>)], OSEventFreeList := free\<rparr>"
    using False f first_free_event(1) [OF k f]
    by (simp add: OSSemCreate_def OS_EventWaitListInit_def upd_event_def Let_def map_empty_def)
  then show ?thesis using create_good [OF assms f] by simp
qed

lemma free_event_ok:
  assumes k: "kernel_ok s" and e: "e < length (OSEvents s)" and w: "waits s e = {}"
    and t: "OSEventType (OSEvents s ! e) \<noteq> OS_EVENT_TYPE_UNUSED"
  shows "kernel_ok (free_event e s)"
proof -
  let ?ev = "(OSEvents s ! e)\<lparr>OSEventType := OS_EVENT_TYPE_UNUSED, OSEventCnt := 0\<rparr>"
  have eq: "free_event e s = s\<lparr>OSEvents := (OSEvents s)[e := ?ev], OSEventFreeList := e # OSEventFreeList s\<rparr>"
    by (simp add: free_event_def upd_event_def Let_def)
  have f: "distinct (OSEventFreeList s)" "set (OSEventFreeList s) \<subseteq> {..<length (OSEvents s)}"
    "\<forall>d\<in>set (OSEventFreeList s). OSEventType (OSEvents s ! d) = OS_EVENT_TYPE_UNUSED"
    using kernel_okD(1) [OF k] by (simp_all add: lists_ok_def)
  have n: "e \<notin> set (OSEventFreeList s)" using f(3) t by auto
  show ?thesis
    unfolding eq
  proof (rule event_replace_ok [OF k e w])
    show "event_ok ?ev" using kernel_okD(3) [OF k e] w
      by (simp add: event_ok_def OS_EVENT_TYPE_UNUSED_def OS_EVENT_TYPE_SEM_def)
    show "\<forall>d\<in>set (e # OSEventFreeList s). OSEventType ((OSEvents s)[e := ?ev] ! d) = OS_EVENT_TYPE_UNUSED"
      using f(3) n e by (auto simp: nth_list_update)
  qed (use w f n e in auto)
qed

lemma free_event_sel [simp]:
  "OSTCBList (free_event e s) = OSTCBList s" "OSTCBTbl (free_event e s) = OSTCBTbl s" "OSTCBCur (free_event e s) = OSTCBCur s"
  "OSPrioCur (free_event e s) = OSPrioCur s" "OSIntNesting (free_event e s) = OSIntNesting s"
  "OSLockNesting (free_event e s) = OSLockNesting s" "OSRunning (free_event e s) = OSRunning s"
  "length (OSEvents (free_event e s)) = length (OSEvents s)" "OSRdyGrp (free_event e s) = OSRdyGrp s"
  "OSTickStepState (free_event e s) = OSTickStepState s" "OSRdyTbl (free_event e s) = OSRdyTbl s" "OSTCBPrioTbl (free_event e s) = OSTCBPrioTbl s"
  by (simp_all add: free_event_def upd_event_def Let_def)

lemma free_event_quiet: "quiet X s s1 \<Longrightarrow> quiet X s (free_event e s1)"
  by (simp add: quiet_def)

lemma free_event_cur: "cur_ok s \<Longrightarrow> cur_ok (free_event e s)"
  by (simp add: cur_ok_def)

lemma sem_used: "OS_EVENT_TYPE_SEM \<noteq> OS_EVENT_TYPE_UNUSED"
  by (simp add: OS_EVENT_TYPE_SEM_def OS_EVENT_TYPE_UNUSED_def)

lemma OSSemDel_good:
  assumes "stable s" "e < length (OSEvents s)"
  shows "\<exists>p r s'. OSSemDel e opt s = Some (p, r, s') \<and> good X s s'"
proof (cases "OSEventType (OSEvents s ! e) = OS_EVENT_TYPE_SEM \<and> \<not> 0 < OSIntNesting s \<and> opt \<in> {OS_DEL_NO_PEND, OS_DEL_ALWAYS}")
  case False
  then show ?thesis using good_refl [OF assms(1)] by (auto simp: OSSemDel_def Let_def)
next
  case True
  have k: "kernel_ok s" "cur_ok s" using assms(1) by (simp_all add: stable_def)
  note e = assms(2)
  have stay: "good X s (free_event e s)" if "waits s e = {}"
    using True that assms k sem_used
    by (intro good_stay [OF assms(1)] free_event_ok free_event_cur free_event_quiet) simp_all
  show ?thesis
  proof (cases "opt = OS_DEL_NO_PEND")
    case no: True
    then show ?thesis
      using True stay good_refl [OF assms(1)] group_waits [OF k(1) e] by (auto simp: OSSemDel_def Let_def)
  next
    case False
    then have opt: "opt = OS_DEL_ALWAYS" using True by simp
    have m: "OS_STAT_SEM = pend_bit (OSEventType (OSEvents s ! e))" using True by (simp add: sem_pend_bit)
    obtain n s1 where s1: "ready_all e 0 OS_STAT_SEM OS_STAT_PEND_ABORT 0 s = Some (n, s1)" "kernel_ok s1" "cur_ok s1"
      "quiet X s s1" "OSTCBCur s1 = OSTCBCur s" "waits s1 e = {}" "waits s e = {} \<longrightarrow> s1 = s"
      "\<forall>d. OSEventType (OSEvents s1 ! d) = OSEventType (OSEvents s ! d)"
      using ready_all_ok [OF k e m] by metis
    have e1: "e < length (OSEvents s1)" using s1(4) e by (simp add: quiet_def)
    have f: "kernel_ok (free_event e s1)" using free_event_ok [OF s1(2) e1 s1(6)] s1(8) True sem_used by simp
    show ?thesis
    proof (cases "waits s e = {}")
      case em: True
      then show ?thesis
        using True opt False s1(1,7) stay [OF em] group_waits [OF k(1) e] by (simp add: OSSemDel_def Let_def)
    next
      case ne: False
      obtain s' where "OS_Sched (free_event e s1) = Some s'" "good X s s'"
        using good_sched [OF f free_event_cur [OF s1(3)] free_event_quiet [OF s1(4)]] s1(5) by auto
      then show ?thesis
        using True opt False s1(1) ne group_waits [OF k(1) e] by (simp add: OSSemDel_def Let_def)
    qed
  qed
qed


section \<open>Time and task calls\<close>

lemma put_task_sel [simp]:
  "OSTCBList (put_task i t r s) = OSTCBList s" "OSTCBCur (put_task i t r s) = OSTCBCur s"
  "OSPrioCur (put_task i t r s) = OSPrioCur s" "OSIntNesting (put_task i t r s) = OSIntNesting s"
  "OSLockNesting (put_task i t r s) = OSLockNesting s" "OSRunning (put_task i t r s) = OSRunning s"
  "rdy_map (put_task i t r s) = r" "OSEvents (put_task i t r s) = OSEvents s"
  "OSTickStepState (put_task i t r s) = OSTickStepState s" "OSTCBTbl (put_task i t r s) = (OSTCBTbl s)[i := t]" "OSTCBPrioTbl (put_task i t r s) = OSTCBPrioTbl s"
  by (simp_all add: put_task_def)

lemma current_ready:
  assumes "stable s" "OSIntNesting s = 0" "OSLockNesting s = 0" "OSTCBCur s = TCB c"
  shows "c \<in> set (OSTCBList s)" "prio_of s c = Min (ready s)" "prio_of s c \<in> ready s"
    "OSTCBStat (OSTCBTbl s ! c) = 0" "OSTCBDly (OSTCBTbl s ! c) = 0" "OSPrioCur s = OSTCBPrio (OSTCBTbl s ! c)"
proof -
  have k: "kernel_ok s" "cur_ok s" "highest s" using assms(1) by (simp_all add: stable_def)
  show c: "c \<in> set (OSTCBList s)" "OSPrioCur s = OSTCBPrio (OSTCBTbl s ! c)"
    using k(2) assms(4) by (auto simp: cur_ok_def)
  show m: "prio_of s c = Min (ready s)" using k(3) assms(2,3) c(2) by (simp add: highest_def)
  have "ready s \<noteq> {}" using ready_nonempty [OF k(1)] by blast
  then show r: "prio_of s c \<in> ready s" unfolding m by simp
  show "OSTCBStat (OSTCBTbl s ! c) = 0" "OSTCBDly (OSTCBTbl s ! c) = 0"
    using tcb_okD(4) [OF kernel_okD(4) [OF k(1) c(1)]] r by simp_all
qed

definition delayed :: "nat \<Rightarrow> u32 \<Rightarrow> os \<Rightarrow> os" where
  "delayed i d s =
     put_task i ((OSTCBTbl s ! i)\<lparr>OSTCBDly := d\<rparr>) (map_del (OSTCBPrio (OSTCBTbl s ! i)) (rdy_map s)) s"

lemma delayed_ok:
  assumes k: "kernel_ok s" and i: "i \<in> set (OSTCBList s)" and d: "d \<noteq> 0" and p: "prio_of s i \<noteq> 63"
    and n: "OSTCBEventPtr (OSTCBTbl s ! i) = None" "OSTCBStat (OSTCBTbl s ! i) = 0"
  shows "kernel_ok (delayed i d s)" "touches i s (delayed i d s)"
proof -
  note t = tcb_okD [OF kernel_okD(4) [OF k i]]
  note D = prios_map_del [OF kernel_okD(2) [OF k] t(7)]
  let ?t = "(OSTCBTbl s ! i)\<lparr>OSTCBDly := d\<rparr>"
  have st: "stat_ok s ?t" using n by (simp add: stat_ok_def)
  have sp: "same_place (OSTCBTbl s ! i) ?t" by (simp add: same_place_def)
  have r: "q \<in> prios (map_del (OSTCBPrio (OSTCBTbl s ! i)) (rdy_map s)) \<longleftrightarrow> q \<in> ready s" if "q \<noteq> prio_of s i" for q
    using that D(2) by simp
  have q: "prio_of s i \<in> prios (map_del (OSTCBPrio (OSTCBTbl s ! i)) (rdy_map s)) \<longleftrightarrow> OSTCBStat ?t = 0 \<and> OSTCBDly ?t = 0"
    using D(2) d by simp
  show "kernel_ok (delayed i d s)" "touches i s (delayed i d s)"
    using put_task_ok [OF k i sp D(1) r q st] p unfolding delayed_def by blast+
qed

lemma OSTimeDly_ok:
  assumes st: "stable s" and c: "OSTCBCur s = TCB c" "prio_of s c \<noteq> 63" "OSTCBEventPtr (OSTCBTbl s ! c) = None"
    and go: "OSIntNesting s = 0" "OSLockNesting s = 0" "ticks \<noteq> 0"
  shows "\<exists>s'. OSTimeDly ticks s = Some s' \<and> switched (delayed c ticks s) s' \<and> stable s'"
proof -
  have k: "kernel_ok s" "cur_ok s" using st by (simp_all add: stable_def)
  note C = current_ready [OF st go(1,2) c(1)]
  note t = tcb_okD [OF kernel_okD(4) [OF k(1) C(1)]]
  note D = delayed_ok [OF k(1) C(1) go(3) c(2,3) C(4)]
  have cu: "cur_ok (delayed c ticks s)" by (rule touches_cur [OF k(2) D(2)]) (simp_all add: delayed_def)
  have eq: "upd_tcb c (\<lambda>t. t\<lparr>OSTCBDly := ticks\<rparr>) (make_unready c s) = delayed c ticks s"
    using t(1) by (simp add: delayed_def put_task_def make_unready_def upd_tcb_def set_rdy_def Let_def prio_fields_map)
  have "OSTimeDly ticks s = OS_Sched (delayed c ticks s)"
    using go c(1) eq by (simp add: OSTimeDly_def word_gt_0)
  then show ?thesis using OS_Sched_ok [OF D(1) cu] by (auto simp: stable_def)
qed

text \<open>A resumed delay is the last tick of it.\<close>

definition resumed :: "os_tcb \<Rightarrow> os_tcb" where
  "resumed t = ticked (t\<lparr>OSTCBDly := 1\<rparr>)"

lemma stat_after_time:
  assumes k: "kernel_ok s" and i: "i \<in> set (OSTCBList s)" and d: "OSTCBDly (OSTCBTbl s ! i) \<noteq> 0"
  shows "stat_ok s (resumed (OSTCBTbl s ! i))"
    "OSTCBStat (resumed (OSTCBTbl s ! i)) AND OS_STAT_SUSPEND = 0 \<longleftrightarrow> OSTCBStat (resumed (OSTCBTbl s ! i)) = 0"
proof -
  note t = tcb_okD [OF kernel_okD(4) [OF k i]]
  have bit: "pend_bit ty \<in> {0, 1, 2, 4}" for ty using pend_bit_cases [of ty] by (simp add: os_stat_defs)
  have "stat_ok s (resumed (OSTCBTbl s ! i)) \<and>
    (OSTCBStat (resumed (OSTCBTbl s ! i)) AND OS_STAT_SUSPEND = 0 \<longleftrightarrow> OSTCBStat (resumed (OSTCBTbl s ! i)) = 0)"
  proof (cases "OSTCBEventPtr (OSTCBTbl s ! i)")
    case None
    then show ?thesis
      using t(6) by (auto simp: stat_ok_def resumed_def ticked_def os_stat_defs)
  next
    case (Some e)
    then show ?thesis
      using t(6) d bit [of "OSEventType (OSEvents s ! e)"]
      by (auto simp: stat_ok_def resumed_def ticked_def os_stat_defs Let_def)
  qed
  then show "stat_ok s (resumed (OSTCBTbl s ! i))"
    "OSTCBStat (resumed (OSTCBTbl s ! i)) AND OS_STAT_SUSPEND = 0 \<longleftrightarrow> OSTCBStat (resumed (OSTCBTbl s ! i)) = 0"
    by blast+
qed

lemma OSTimeDlyResume_good:
  assumes st: "stable s" and X: "\<And>i. OSTCBPrioTbl s ! unat prio = TCB i \<Longrightarrow> i \<in> X"
  shows "\<exists>r s'. OSTimeDlyResume prio s = Some (r, s') \<and> good X s s'"
proof (cases "OS_LOWEST_PRIO \<le> prio")
  case True
  then show ?thesis using good_refl [OF st] by (simp add: OSTimeDlyResume_def)
next
  case False
  then have p: "unat prio < 63" by (simp add: OS_LOWEST_PRIO_def word_le_nat_alt)
  have k: "kernel_ok s" "cur_ok s" using st by (simp_all add: stable_def)
  show ?thesis
  proof (cases "\<exists>i. OSTCBPrioTbl s ! unat prio = TCB i \<and> OSTCBDly (OSTCBTbl s ! i) \<noteq> 0")
    case no: False
    then show ?thesis
      using False good_refl [OF st] by (cases "OSTCBPrioTbl s ! unat prio") (auto simp: OSTimeDlyResume_def Let_def)
  next
    case True
    then obtain i where i: "OSTCBPrioTbl s ! unat prio = TCB i" "OSTCBDly (OSTCBTbl s ! i) \<noteq> 0" by blast
    have l: "i \<in> set (OSTCBList s)" "prio_of s i = unat prio"
      using prio_entry [OF kernel_okD(1) [OF k(1)] i(1)] p by auto
    note t = tcb_okD [OF kernel_okD(4) [OF k(1) l(1)]]
    have il: "i < length (OSTCBTbl s)" by (rule list_in_table [OF kernel_okD(1) [OF k(1)] l(1)])
    let ?u = "resumed (OSTCBTbl s ! i)"
    let ?r = "if OSTCBStat ?u AND OS_STAT_SUSPEND = 0 then map_ins (OSTCBPrio (OSTCBTbl s ! i)) (rdy_map s) else rdy_map s"
    note S = stat_after_time [OF k(1) l(1) i(2)]
    note I = prios_map_ins [OF kernel_okD(2) [OF k(1)] t(7)]
    have sp: "same_place (OSTCBTbl s ! i) ?u" by (simp add: same_place_def resumed_def ticked_def)
    have u0: "OSTCBDly ?u = 0" by (simp add: resumed_def ticked_def)
    have n: "prio_of s i \<notin> ready s" using t(4) i(2) by simp
    have P: "kernel_ok (put_task i ?u ?r s)" "touches i s (put_task i ?u ?r s)"
    proof -
      have r3: "prio_of s i \<in> prios ?r \<longleftrightarrow> OSTCBStat ?u = 0 \<and> OSTCBDly ?u = 0" using I u0 n S(2) by simp
      have r2: "q \<in> prios ?r \<longleftrightarrow> q \<in> ready s" if "q \<noteq> prio_of s i" for q using that I by simp
      have r1: "map_ok ?r" using I kernel_okD(2) [OF k(1)] by simp
      show "kernel_ok (put_task i ?u ?r s)" "touches i s (put_task i ?u ?r s)"
        using put_task_ok [OF k(1) l(1) sp r1 r2 r3 S(1)] l(2) p by auto
    qed
    have q: "quiet X s (put_task i ?u ?r s)"
      using il sp u0 X [OF i(1)] by (intro touches_quiet [OF P(2)]) (simp_all add: same_place_def)
    have c: "cur_ok (put_task i ?u ?r s)" by (rule touches_cur [OF k(2) P(2)]) simp_all
    have eq: "OSTimeDlyResume prio s =
        (if OSTCBStat ?u AND OS_STAT_SUSPEND = 0
         then do { s \<leftarrow> OS_Sched (put_task i ?u ?r s); Some (OS_ERR_NONE, s) }
         else Some (OS_ERR_NONE, put_task i ?u ?r s))"
      using False i il t(1)
      by (simp add: OSTimeDlyResume_def Let_def resumed_def ticked_def OS_STAT_RDY_def put_task_def upd_tcb_def
          make_ready_def set_rdy_def prio_fields_def)
    show ?thesis
    proof (cases "OSTCBStat ?u AND OS_STAT_SUSPEND = 0")
      case True
      then show ?thesis using eq good_sched [OF P(1) c q] by auto
    next
      case False
      have "good X s (put_task i ?u ?r s)"
        using False by (intro good_stay [OF st P(1) c q]) simp_all
      then show ?thesis using eq False by simp
    qed
  qed
qed

end
