(* ===== verification/Os_Tasks.thy ===== *)
theory Os_Tasks
  imports Os_Calls
begin

text \<open>
  The task calls of \<^verbatim>\<open>os_task.c\<close>, the waiting call of \<^verbatim>\<open>os_sem.c\<close> and the calls that end a lock or
  an interrupt, on a kernel in a consistent state.
\<close>

section \<open>Suspending and resuming\<close>

lemma stat_suspend:
  assumes "stat_ok s t"
  shows "stat_ok s (t\<lparr>OSTCBStat := OSTCBStat t OR OS_STAT_SUSPEND\<rparr>)" "OSTCBStat t OR OS_STAT_SUSPEND \<noteq> 0"
proof -
  have bit: "pend_bit ty \<in> {0, 1, 2, 4}" for ty using pend_bit_cases [of ty] by (simp add: os_stat_defs)
  show "stat_ok s (t\<lparr>OSTCBStat := OSTCBStat t OR OS_STAT_SUSPEND\<rparr>)"
  proof (cases "OSTCBEventPtr t")
    case None
    then show ?thesis using assms by (auto simp: stat_ok_def os_stat_defs)
  next
    case (Some e)
    then show ?thesis using assms bit [of "OSEventType (OSEvents s ! e)"]
      by (auto simp: stat_ok_def os_stat_defs Let_def)
  qed
  show "OSTCBStat t OR OS_STAT_SUSPEND \<noteq> 0" by (simp add: OS_STAT_SUSPEND_def or_eq_0_iff)
qed

definition suspended :: "nat \<Rightarrow> os \<Rightarrow> os" where
  "suspended i s =
     put_task i ((OSTCBTbl s ! i)\<lparr>OSTCBStat := OSTCBStat (OSTCBTbl s ! i) OR OS_STAT_SUSPEND\<rparr>)
       (map_del (OSTCBPrio (OSTCBTbl s ! i)) (rdy_map s)) s"

lemma suspended_ok:
  assumes k: "kernel_ok s" and i: "i \<in> set (OSTCBList s)" and p: "prio_of s i \<noteq> 63"
  shows "kernel_ok (suspended i s)" "touches i s (suspended i s)" "i \<in> X \<Longrightarrow> quiet X s (suspended i s)"
    "ready (suspended i s) = ready s - {prio_of s i}"
proof -
  note t = tcb_okD [OF kernel_okD(4) [OF k i]]
  note D = prios_map_del [OF kernel_okD(2) [OF k] t(7)]
  note S = stat_suspend [OF t(6)]
  have il: "i < length (OSTCBTbl s)" by (rule list_in_table [OF kernel_okD(1) [OF k] i])
  let ?t = "(OSTCBTbl s ! i)\<lparr>OSTCBStat := OSTCBStat (OSTCBTbl s ! i) OR OS_STAT_SUSPEND\<rparr>"
  have sp: "same_place (OSTCBTbl s ! i) ?t" by (simp add: same_place_def)
  have r: "q \<in> prios (map_del (OSTCBPrio (OSTCBTbl s ! i)) (rdy_map s)) \<longleftrightarrow> q \<in> ready s" if "q \<noteq> prio_of s i" for q
    using that D(2) by simp
  have q: "prio_of s i \<in> prios (map_del (OSTCBPrio (OSTCBTbl s ! i)) (rdy_map s)) \<longleftrightarrow> OSTCBStat ?t = 0 \<and> OSTCBDly ?t = 0"
    using D(2) S(2) by simp
  show P: "kernel_ok (suspended i s)" "touches i s (suspended i s)"
    using put_task_ok [OF k i sp D(1) r q S(1)] p unfolding suspended_def by blast+
  show "i \<in> X \<Longrightarrow> quiet X s (suspended i s)" using il by (intro touches_quiet [OF P(2)]) (simp_all add: suspended_def)
  show "ready (suspended i s) = ready s - {prio_of s i}" using D(2) by (simp add: suspended_def)
qed

lemma OSTaskSuspend_good:
  assumes st: "stable s" and p: "prio = OS_PRIO_SELF \<and> OSPrioCur s \<noteq> 63 \<or> unat prio < 63"
    and X: "\<And>i. OSTCBPrioTbl s ! unat (if prio = OS_PRIO_SELF then OSPrioCur s else prio) = TCB i \<Longrightarrow> i \<in> X"
  shows "\<exists>r s'. OSTaskSuspend prio s = Some (r, s') \<and> good X s s'"
proof -
  have k: "kernel_ok s" "cur_ok s" using st by (simp_all add: stable_def)
  obtain c where c: "c \<in> set (OSTCBList s)" "OSTCBCur s = TCB c" "OSPrioCur s = OSTCBPrio (OSTCBTbl s ! c)"
    using k(2) by (auto simp: cur_ok_def)
  define q where "q = (if prio = OS_PRIO_SELF then OSTCBPrio (OSTCBTbl s ! c) else prio)"
  define self where "self \<longleftrightarrow> prio = OS_PRIO_SELF \<or> prio = OSTCBPrio (OSTCBTbl s ! c)"
  have self: "self \<longleftrightarrow> q = OSPrioCur s" using c(3) by (auto simp: self_def q_def)
  have q63: "unat q < 63"
  proof (cases "prio = OS_PRIO_SELF")
    case True
    have "prio_of s c < 64" by (rule tcb_okD(7) [OF kernel_okD(4) [OF k(1) c(1)]])
    moreover have "prio_of s c \<noteq> 63" using p True c(3) by (auto simp: OS_PRIO_SELF_def word_unat_eq_iff)
    ultimately show ?thesis using True by (simp add: q_def)
  qed (use p in \<open>simp add: q_def\<close>)
  have eq: "OSTaskSuspend prio s =
      (case OSTCBPrioTbl s ! unat q of
         NULL \<Rightarrow> Some (OS_ERR_TASK_SUSPEND_PRIO, s)
       | OS_TCB_RESERVED \<Rightarrow> Some (OS_ERR_TASK_NOT_EXIST, s)
       | TCB i \<Rightarrow>
           (let s = upd_tcb i (\<lambda>t. t\<lparr>OSTCBStat := OSTCBStat t OR OS_STAT_SUSPEND\<rparr>) (make_unready i s)
            in do { s \<leftarrow> (if self then OS_Sched s else Some s); Some (OS_ERR_NONE, s) }))"
    using c(2) by (cases "prio = OS_PRIO_SELF"; cases "OSTCBPrioTbl s ! unat q")
      (simp_all add: OSTaskSuspend_def Let_def q_def self_def)
  show ?thesis
  proof (cases "OSTCBPrioTbl s ! unat q")
    case (TCB i)
    have i: "i \<in> set (OSTCBList s)" "prio_of s i = unat q"
      using prio_entry [OF kernel_okD(1) [OF k(1)] TCB] q63 by auto
    have p63: "prio_of s i \<noteq> 63" using i(2) q63 by simp
    have iX: "i \<in> X" using X TCB c(3) by (auto simp: q_def split: if_splits)
    note S = suspended_ok [OF k(1) i(1) p63] suspended_ok(3) [OF k(1) i(1) p63 iX]
    have cu: "cur_ok (suspended i s)" by (rule touches_cur [OF k(2) S(2)]) (simp_all add: suspended_def)
    have se: "upd_tcb i (\<lambda>t. t\<lparr>OSTCBStat := OSTCBStat t OR OS_STAT_SUSPEND\<rparr>) (make_unready i s) = suspended i s"
      using tcb_okD(1) [OF kernel_okD(4) [OF k(1) i(1)]]
      by (simp add: suspended_def put_task_def make_unready_def upd_tcb_def set_rdy_def Let_def prio_fields_map)
    show ?thesis
    proof (cases self)
      case True
      obtain s' where "OS_Sched (suspended i s) = Some s'" "good X s s'"
        using good_sched [OF S(1) cu S(5)] by (auto simp: suspended_def)
      then show ?thesis using eq TCB True se by simp
    next
      case False
      have "good X s (suspended i s)"
      proof (rule good_stay [OF st S(1) cu S(5)])
        assume z: "OSIntNesting s = 0" "OSLockNesting s = 0"
        have "prio_of s i \<noteq> Min (ready s)"
          using False self i(2) current_ready(2,6) [OF st z c(2)] by (auto simp: word_unat_eq_iff)
        moreover have "Min (ready s) \<in> ready s" using ready_nonempty [OF k(1)] by (intro Min_in) auto
        ultimately show "Min (ready (suspended i s)) = Min (ready s)"
          unfolding S(4) by (intro Min_eqI) auto
      qed (simp_all add: suspended_def)
      then show ?thesis using eq TCB False se by simp
    qed
  qed (use eq good_refl [OF st] in simp_all)
qed

definition unsuspended :: "os_tcb \<Rightarrow> os_tcb" where
  "unsuspended t = t\<lparr>OSTCBStat := OSTCBStat t AND NOT OS_STAT_SUSPEND\<rparr>"

lemma stat_unsuspend:
  assumes "stat_ok s t"
  shows "stat_ok s (unsuspended t)"
    "OSTCBStat (unsuspended t) AND OS_STAT_PEND_ANY = 0 \<longleftrightarrow> OSTCBStat (unsuspended t) = 0"
proof -
  have bit: "pend_bit ty \<in> {0, 1, 2, 4}" for ty using pend_bit_cases [of ty] by (simp add: os_stat_defs)
  have "stat_ok s (unsuspended t) \<and>
    (OSTCBStat (unsuspended t) AND OS_STAT_PEND_ANY = 0 \<longleftrightarrow> OSTCBStat (unsuspended t) = 0)"
  proof (cases "OSTCBEventPtr t")
    case None
    then show ?thesis using assms by (auto simp: stat_ok_def os_stat_defs unsuspended_def)
  next
    case (Some e)
    then show ?thesis using assms bit [of "OSEventType (OSEvents s ! e)"]
      by (auto simp: stat_ok_def os_stat_defs Let_def unsuspended_def)
  qed
  then show "stat_ok s (unsuspended t)"
    "OSTCBStat (unsuspended t) AND OS_STAT_PEND_ANY = 0 \<longleftrightarrow> OSTCBStat (unsuspended t) = 0" by blast+
qed

lemma OSTaskResume_good:
  assumes st: "stable s" and p: "unat prio < 64" and run: "OSRunning s"
    and X: "\<And>i. OSTCBPrioTbl s ! unat prio = TCB i \<Longrightarrow> i \<in> X"
  shows "\<exists>r s'. OSTaskResume prio s = Some (r, s') \<and> good X s s'"
proof (cases "\<exists>i. OSTCBPrioTbl s ! unat prio = TCB i \<and> OSTCBStat (OSTCBTbl s ! i) AND OS_STAT_SUSPEND \<noteq> 0")
  case False
  then show ?thesis
    using good_refl [OF st] by (cases "OSTCBPrioTbl s ! unat prio") (auto simp: OSTaskResume_def Let_def OS_STAT_RDY_def)
next
  case True
  then obtain i where i: "OSTCBPrioTbl s ! unat prio = TCB i" "OSTCBStat (OSTCBTbl s ! i) AND OS_STAT_SUSPEND \<noteq> 0" by blast
  have k: "kernel_ok s" "cur_ok s" using st by (simp_all add: stable_def)
  have l: "i \<in> set (OSTCBList s)" using prio_entry [OF kernel_okD(1) [OF k(1)] i(1) p] by simp
  note t = tcb_okD [OF kernel_okD(4) [OF k(1) l]]
  have il: "i < length (OSTCBTbl s)" by (rule list_in_table [OF kernel_okD(1) [OF k(1)] l])
  let ?u = "unsuspended (OSTCBTbl s ! i)"
  let ?go = "OSTCBStat ?u AND OS_STAT_PEND_ANY = 0 \<and> OSTCBDly ?u = 0"
  let ?r = "if ?go then map_ins (OSTCBPrio (OSTCBTbl s ! i)) (rdy_map s) else rdy_map s"
  note U = stat_unsuspend [OF t(6)]
  note I = prios_map_ins [OF kernel_okD(2) [OF k(1)] t(7)]
  have n: "OSTCBStat (OSTCBTbl s ! i) \<noteq> 0" using i(2) by auto
  have n63: "prio_of s i \<noteq> 63" using n t(8) by auto
  have nr: "prio_of s i \<notin> ready s" using n t(4) by simp
  have sp: "same_place (OSTCBTbl s ! i) ?u" by (simp add: same_place_def unsuspended_def)
  have r1: "map_ok ?r" using I kernel_okD(2) [OF k(1)] by simp
  have r2: "q \<in> prios ?r \<longleftrightarrow> q \<in> ready s" if "q \<noteq> prio_of s i" for q using that I by simp
  have r3: "prio_of s i \<in> prios ?r \<longleftrightarrow> OSTCBStat ?u = 0 \<and> OSTCBDly ?u = 0" using I nr U(2) by simp
  have P: "kernel_ok (put_task i ?u ?r s)" "touches i s (put_task i ?u ?r s)"
    using put_task_ok [OF k(1) l sp r1 r2 r3 U(1)] n63 by blast+
  have q: "quiet X s (put_task i ?u ?r s)"
    using il X [OF i(1)] by (intro touches_quiet [OF P(2)]) (simp_all add: unsuspended_def)
  have c: "cur_ok (put_task i ?u ?r s)" by (rule touches_cur [OF k(2) P(2)]) simp_all
  have eq: "OSTaskResume prio s =
      (if ?go then do { s \<leftarrow> OS_Sched (put_task i ?u ?r s); Some (OS_ERR_NONE, s) }
       else Some (OS_ERR_NONE, put_task i ?u ?r s))"
    using i il run t(1)
    by (simp add: OSTaskResume_def Let_def unsuspended_def OS_STAT_RDY_def put_task_def upd_tcb_def
        make_ready_def set_rdy_def prio_fields_def)
  show ?thesis
  proof (cases ?go)
    case True
    then show ?thesis using eq good_sched [OF P(1) c q] by auto
  next
    case False
    have "ready (put_task i ?u ?r s) = ready s" using False by (simp only: put_task_sel if_False)
    then have "good X s (put_task i ?u ?r s)" by (intro good_stay [OF st P(1) c q]) simp_all
    then show ?thesis using eq False by (simp only: if_False) blast
  qed
qed

section \<open>Waiting for a semaphore\<close>

lemma OSSemPend_ok:
  assumes st: "stable s" and e: "e < length (OSEvents s)"
    and c: "OSTCBCur s = TCB c" "prio_of s c \<noteq> 63" "OSTCBEventPtr (OSTCBTbl s ! c) = None"
  shows "(\<exists>r s'. OSSemPend e timeout s = Some (Some r, s') \<and> good X s s') \<or>
    (\<exists>s'. OSSemPend e timeout s = Some (None, s') \<and> switched (block c e OS_STAT_SEM timeout s) s' \<and> stable s' \<and>
       OSEventType (OSEvents s ! e) = OS_EVENT_TYPE_SEM \<and> OSEventCnt (OSEvents s ! e) = 0 \<and>
       OSIntNesting s = 0 \<and> OSLockNesting s = 0)"
proof (cases "OSEventType (OSEvents s ! e) = OS_EVENT_TYPE_SEM \<and> OSIntNesting s = 0 \<and> OSLockNesting s = 0")
  case False
  then show ?thesis using good_refl [OF st] by (auto simp: OSSemPend_def word_gt_0)
next
  case True
  then have ty: "OSEventType (OSEvents s ! e) = OS_EVENT_TYPE_SEM" and z: "OSIntNesting s = 0" "OSLockNesting s = 0"
    by simp_all
  have k: "kernel_ok s" "cur_ok s" using st by (simp_all add: stable_def)
  show ?thesis
  proof (cases "OSEventCnt (OSEvents s ! e) = 0")
    case False
    then have "good X s (upd_event e (\<lambda>ev. ev\<lparr>OSEventCnt := OSEventCnt ev - 1\<rparr>) s)"
      using event_upd_good [OF st e, of "\<lambda>ev. ev\<lparr>OSEventCnt := OSEventCnt ev - 1\<rparr>"] sem_cnt_waits [OF k(1) e ty]
      by (auto simp: word_gt_0)
    then show ?thesis using True False by (simp add: OSSemPend_def word_gt_0)
  next
    case cnt: True
    note C = current_ready [OF st z c(1)]
    note t = tcb_okD [OF kernel_okD(4) [OF k(1) C(1)]]
    have il: "c < length (OSTCBTbl s)" by (rule list_in_table [OF kernel_okD(1) [OF k(1)] C(1)])
    have m: "OS_STAT_SEM = pend_bit (OSEventType (OSEvents s ! e))" by (simp add: ty sem_pend_bit)
    have m0: "OS_STAT_SEM \<noteq> 0" by (simp add: OS_STAT_SEM_def)
    have cn: "OSEventType (OSEvents s ! e) = OS_EVENT_TYPE_SEM \<longrightarrow> OSEventCnt (OSEvents s ! e) = 0" using cnt by simp
    note B = block_ok [OF k(1) e C(1) c(3) C(4) c(2) m m0 cn]
    have cu: "cur_ok (block c e OS_STAT_SEM timeout s)"
      by (rule touches_cur [OF k(2) B(2)]) (simp_all add: block_def Let_def)
    obtain s' where s': "OS_Sched (block c e OS_STAT_SEM timeout s) = Some s'"
      "switched (block c e OS_STAT_SEM timeout s) s'" "kernel_ok s'" "cur_ok s'" "highest s'"
      using OS_Sched_ok [OF B(1) cu] by blast
    have "OSSemPend e timeout s = Some (None, s')"
      using True cnt c(1) OS_EventTaskWait_eq [OF c(1) t(1) il] s'(1) by (simp add: OSSemPend_def)
    then show ?thesis using s' True cnt by (auto simp: stable_def)
  qed
qed

lemma OSSemPend_end_eq:
  assumes "OSTCBCur s = TCB c"
  shows "\<exists>r. OSSemPend_end e s = Some (r, end_wait c e s)"
  using assms by (auto simp: OSSemPend_end_def end_wait_def Let_def OS_STAT_PEND_OK_def OS_STAT_PEND_ABORT_def)

lemma OSSemPend_end_ok:
  assumes st: "stable s" and e: "e < length (OSEvents s)" and z: "OSIntNesting s = 0" "OSLockNesting s = 0"
    and c: "OSTCBCur s = TCB c" "OSTCBEventPtr (OSTCBTbl s ! c) \<in> {None, Some e}" and X: "c \<in> X"
  shows "\<exists>r s'. OSSemPend_end e s = Some (r, s') \<and> good X s s' \<and> OSTCBEventPtr (OSTCBTbl s' ! c) = None \<and> OSTCBCur s' = TCB c"
proof -
  have k: "kernel_ok s" "cur_ok s" using st by (simp_all add: stable_def)
  note C = current_ready [OF st z c(1)]
  note E = end_wait_ok [OF k(1) e C(1) c(2) C(4)]
  have sel: "OSTCBCur (end_wait c e s) = OSTCBCur s" "OSPrioCur (end_wait c e s) = OSPrioCur s"
    "OSRunning (end_wait c e s) = OSRunning s" "OSIntNesting (end_wait c e s) = OSIntNesting s"
    "OSLockNesting (end_wait c e s) = OSLockNesting s" "OSTickStepState (end_wait c e s) = OSTickStepState s"
    by (simp_all add: end_wait_def upd_tcb_def OS_EventTaskRemove_def upd_event_def Let_def)
  have cu: "cur_ok (end_wait c e s)" using touches_cur [OF k(2) E(2) sel(1,2)] .
  have q: "quiet X s (end_wait c e s)" using sel X by (intro touches_quiet [OF E(2)]) (simp_all add: E(4))
  have "good X s (end_wait c e s)" using E(3) sel by (intro good_stay [OF st E(1) cu q]) simp_all
  then show ?thesis using OSSemPend_end_eq [OF c(1), of e] E(4) c(1) sel(1) by auto
qed

end
