(* ===== verification/Os_Init.thy ===== *)
theory Os_Init
  imports Os_Tasks
begin

text \<open>
  Creation of tasks and the start of uC/OS-II (\<^verbatim>\<open>OSInit\<close>, \<^verbatim>\<open>OSStart\<close> of \<^verbatim>\<open>os_core.c\<close>) with the sizes of
  \<^verbatim>\<open>uCOS-CONFIG/os_cfg.h\<close>: 20 tasks and the two of the system, 30 events.
\<close>

section \<open>Creating a task\<close>

definition new_tcb :: "u8 \<Rightarrow> u32 \<Rightarrow> u16 \<Rightarrow> u32 \<Rightarrow> u16 \<Rightarrow> os_tcb" where
  "new_tcb prio ptos ident stk_size opt =
     \<lparr>OSTCBStkPtr = ptos, OSTCBStkSize = stk_size, OSTCBOpt = opt, OSTCBId = ident,
      OSTCBEventPtr = None, OSTCBEventMultiPtr = None, OSTCBMsg = 0, OSTCBDly = 0,
      OSTCBStat = 0, OSTCBStatPend = OS_STAT_PEND_OK, OSTCBPrio = prio,
      OSTCBX = prio_x prio, OSTCBY = prio_y prio, OSTCBBitX = bit_of (prio_x prio), OSTCBBitY = bit_of (prio_y prio),
      OSTCBDelReq = OS_ERR_NONE, OSTCBCtxSwCtr = 0\<rparr>"

definition created :: "nat \<Rightarrow> nat list \<Rightarrow> os_tcb \<Rightarrow> os \<Rightarrow> os" where
  "created i free t s =
     (let r = map_ins (OSTCBPrio t) (rdy_map s)
      in s\<lparr>OSTCBFreeList := free, OSTCBTbl := (OSTCBTbl s)[i := t],
           OSTCBPrioTbl := (OSTCBPrioTbl s)[unat (OSTCBPrio t) := TCB i], OSTCBList := i # OSTCBList s,
           OSRdyGrp := fst r, OSRdyTbl := snd r, OSTaskCtr := OSTaskCtr s + 1\<rparr>)"

lemma OS_TCBInit_eq:
  assumes "OSTCBFreeList s = i # free" "i < length (OSTCBTbl s)"
  shows "OS_TCBInit prio ptos ident sz opt (s\<lparr>OSTCBPrioTbl := (OSTCBPrioTbl s)[unat prio := x]\<rparr>) =
     (OS_ERR_NONE, created i free (new_tcb prio ptos ident sz opt) s)"
  using assms
  by (simp add: OS_TCBInit_def created_def new_tcb_def Let_def upd_tcb_def make_ready_def set_rdy_def
      prio_x_def prio_y_def bit_of_def OS_STAT_RDY_def)

lemma created_ok:
  assumes k: "kernel_ok s" and f: "OSTCBFreeList s = i # free"
    and p: "unat prio < 64" "OSTCBPrioTbl s ! unat prio = NULL"
  shows "kernel_ok (created i free (new_tcb prio ptos ident sz opt) s)" (is "kernel_ok ?s")
proof -
  let ?t = "new_tcb prio ptos ident sz opt"
  have L: "lists_ok s" by (rule kernel_okD(1) [OF k])
  have i: "i < length (OSTCBTbl s)" "i \<notin> set (OSTCBList s)" "i \<notin> set free" "distinct free"
    "set free \<subseteq> {..<length (OSTCBTbl s)}" "distinct (OSTCBList s)" "set (OSTCBList s) \<inter> set free = {}"
    "length (OSTCBPrioTbl s) = 64" "OSTCBList s \<noteq> []"
    using L f by (auto simp: lists_ok_def)
  have pr: "OSTCBPrio ?t = prio" by (simp add: new_tcb_def)
  note I = prios_map_ins [OF kernel_okD(2) [OF k] p(1)]
  have tbl: "OSTCBTbl ?s ! i = ?t" "\<And>j. j \<noteq> i \<Longrightarrow> OSTCBTbl ?s ! j = OSTCBTbl s ! j"
    using i(1) by (simp_all add: created_def Let_def)
  have pt: "OSTCBPrioTbl ?s ! unat prio = TCB i" "\<And>q. q \<noteq> unat prio \<Longrightarrow> OSTCBPrioTbl ?s ! q = OSTCBPrioTbl s ! q"
    using i(8) p(1) by (simp_all add: created_def Let_def pr)
  have rd: "ready ?s = insert (unat prio) (ready s)" "map_ok (rdy_map ?s)" using I by (simp_all add: created_def Let_def pr)
  have ev: "OSEvents ?s = OSEvents s" by (simp add: created_def Let_def)
  have nw: "unat prio \<notin> waits s e" if "e < length (OSEvents s)" for e
    using kernel_okD(6) [OF k that, of "unat prio"] p(2) by auto
  have nr: "unat prio \<notin> ready s" using kernel_okD(5) [OF k, of "unat prio"] p(2) by auto
  have old: "prio_of s j \<noteq> unat prio" if "j \<in> set (OSTCBList s)" for j
    using tcb_okD(2) [OF kernel_okD(4) [OF k that]] p(2) by auto
  have n63: "unat prio \<noteq> 63"
    using old [OF last_in_set [OF i(9)]] L by (auto simp: lists_ok_def)
  have st: "stat_ok ?s t = stat_ok s t" for t using ev stat_ok_cong [of t t ?s s] by simp
  have T: "tcb_ok ?s j" if j: "j \<in> set (OSTCBList ?s)" for j
  proof (cases "j = i")
    case True
    have "stat_ok ?s ?t" by (simp add: stat_ok_def new_tcb_def)
    then show ?thesis
      using True tbl(1) pt(1) rd(1) ev nw p(1) n63
      by (simp add: tcb_ok_def Let_def prio_fields_def new_tcb_def)
  next
    case False
    then have j': "j \<in> set (OSTCBList s)" using j by (simp add: created_def Let_def)
    have "tcb_ok ?s j = tcb_ok s j"
      using False old [OF j'] tbl(2) [OF False] pt(2) [OF old [OF j']] rd(1) ev st by (simp add: tcb_ok_def Let_def)
    then show ?thesis using kernel_okD(4) [OF k j'] by simp
  qed
  have "lists_ok ?s"
  proof -
    have lst: "OSTCBList ?s = i # OSTCBList s" "OSTCBFreeList ?s = free" "length (OSTCBTbl ?s) = length (OSTCBTbl s)"
      "OSEventFreeList ?s = OSEventFreeList s" "length (OSTCBPrioTbl ?s) = 64"
      using i(8) by (simp_all add: created_def Let_def)
    have "j \<in> set (OSTCBList ?s) \<and> prio_of ?s j = q" if "q < 64" "OSTCBPrioTbl ?s ! q = TCB j" for q j
    proof (cases "q = unat prio")
      case True
      then show ?thesis using that pt(1) tbl(1) lst(1) pr by simp
    next
      case False
      then have "OSTCBPrioTbl s ! q = TCB j" using that pt(2) by simp
      then have "j \<in> set (OSTCBList s)" "prio_of s j = q" using prio_entry [OF L] that(1) by auto
      moreover have "j \<noteq> i" using calculation(1) i(2) by blast
      ultimately show ?thesis using tbl(2) lst(1) by simp
    qed
    moreover have "last (OSTCBList s) \<noteq> i" using i(2,9) last_in_set by metis
    ultimately show ?thesis
      using L i lst ev tbl(2) [of "last (OSTCBList s)"] unfolding lists_ok_def by auto
  qed
  moreover have "\<exists>j. OSTCBPrioTbl ?s ! q = TCB j" if "q \<in> ready ?s \<or> (\<exists>e<length (OSEvents ?s). q \<in> waits ?s e)" for q
    using that rd(1) ev pt kernel_okD(5,6) [OF k] by (cases "q = unat prio") auto
  ultimately show ?thesis
    using T rd(2) ev kernel_okD(3) [OF k] unfolding kernel_ok_def by simp
qed

text \<open>Before multitasking has started a task is entered only.\<close>

lemma OSTaskCreate_boot:
  assumes k: "kernel_ok s" and z: "OSIntNesting s = 0" "\<not> OSRunning s"
    and p: "unat prio < 64" "OSTCBPrioTbl s ! unat prio = NULL" "OSTCBFreeList s = i # free"
  shows "OSTaskCreate psp prio s = Some (OS_ERR_NONE, created i free (new_tcb prio psp 0 0 0) s)"
    "kernel_ok (created i free (new_tcb prio psp 0 0 0) s)"
proof -
  have "i < length (OSTCBTbl s)" using kernel_okD(1) [OF k] p(3) by (auto simp: lists_ok_def)
  note E = OS_TCBInit_eq [OF p(3) this, of prio psp 0 0 0]
  show "OSTaskCreate psp prio s = Some (OS_ERR_NONE, created i free (new_tcb prio psp 0 0 0) s)"
    using z p(2) by (simp add: OSTaskCreate_def E Let_def) (simp add: created_def Let_def)
  show "kernel_ok (created i free (new_tcb prio psp 0 0 0) s)" by (rule created_ok [OF k p(3,1,2)])
qed

lemma OSTaskCreate_run:
  assumes st: "stable s" and run: "OSRunning s" and p: "unat prio < 64"
  shows "\<exists>r s'. OSTaskCreate psp prio s = Some (r, s') \<and>
    (s' = s \<and> r \<noteq> OS_ERR_NONE \<or>
     r = OS_ERR_NONE \<and> OSIntNesting s = 0 \<and> stable s' \<and> (\<exists>i free. OSTCBFreeList s = i # free \<and>
       switched (created i free (new_tcb prio psp 0 0 0) s) s'))"
proof -
  have k: "kernel_ok s" "cur_ok s" using st by (simp_all add: stable_def)
  consider (isr) "0 < OSIntNesting s" | (taken) "OSIntNesting s = 0" "OSTCBPrioTbl s ! unat prio \<noteq> NULL"
    | (full) "OSIntNesting s = 0" "OSTCBPrioTbl s ! unat prio = NULL" "OSTCBFreeList s = []"
    | (new) i free where "OSIntNesting s = 0" "OSTCBPrioTbl s ! unat prio = NULL" "OSTCBFreeList s = i # free"
    by (cases "OSTCBFreeList s") (auto simp: word_gt_0)
  then show ?thesis
  proof cases
    case full
    have "length (OSTCBPrioTbl s) = 64" using kernel_okD(1) [OF k(1)] by (simp add: lists_ok_def)
    then have "(OSTCBPrioTbl s)[unat prio := NULL] = OSTCBPrioTbl s" using full(2) list_update_id by metis
    then have "OSTaskCreate psp prio s = Some (OS_ERR_TASK_NO_MORE_TCB, s)"
      using full by (simp add: OSTaskCreate_def OS_TCBInit_def Let_def OS_ERR_TASK_NO_MORE_TCB_def OS_ERR_NONE_def)
    then show ?thesis by (auto simp: OS_ERR_TASK_NO_MORE_TCB_def OS_ERR_NONE_def)
  next
    case (new i free)
    have il: "i < length (OSTCBTbl s)" using kernel_okD(1) [OF k(1)] new(3) by (auto simp: lists_ok_def)
    let ?s = "created i free (new_tcb prio psp 0 0 0) s"
    note E = OS_TCBInit_eq [OF new(3) il, of prio psp 0 0 0]
    have K: "kernel_ok ?s" by (rule created_ok [OF k(1) new(3) p new(2)])
    have ni: "i \<notin> set (OSTCBList s)" using kernel_okD(1) [OF k(1)] new(3) by (auto simp: lists_ok_def)
    have "cur_ok ?s"
    proof -
      obtain c where c: "c \<in> set (OSTCBList s)" "OSTCBCur s = TCB c" "OSPrioCur s = OSTCBPrio (OSTCBTbl s ! c)"
        using k(2) by (auto simp: cur_ok_def)
      then have "i \<noteq> c" using ni by blast
      then show ?thesis using c by (auto simp: cur_ok_def created_def Let_def)
    qed
    then obtain s' where s': "OS_Sched ?s = Some s'" "switched ?s s'" "kernel_ok s'" "cur_ok s'" "highest s'"
      using OS_Sched_ok [OF K] by blast
    have "OSRunning ?s" using run by (simp add: created_def Let_def)
    then have "OSTaskCreate psp prio s = Some (OS_ERR_NONE, s')"
      using new s'(1) by (simp add: OSTaskCreate_def E Let_def)
    then show ?thesis using new s' by (auto simp: stable_def)
  qed (simp_all add: OSTaskCreate_def OS_ERR_TASK_CREATE_ISR_def OS_ERR_PRIO_EXIST_def OS_ERR_NONE_def)
qed


section \<open>Start\<close>

definition OS_MAX_TASKS :: nat where "OS_MAX_TASKS = 20"
definition OS_N_SYS_TASKS :: nat where "OS_N_SYS_TASKS = 2"
definition OS_MAX_EVENTS :: nat where "OS_MAX_EVENTS = 30"
definition OS_TASK_STAT_PRIO :: u8 where "OS_TASK_STAT_PRIO = OS_LOWEST_PRIO - 1"
definition OS_TASK_IDLE_ID :: u16 where "OS_TASK_IDLE_ID = 65535"
definition OS_TASK_STAT_ID :: u16 where "OS_TASK_STAT_ID = 65534"
definition OS_TASK_OPT_STK_CHK :: u16 where "OS_TASK_OPT_STK_CHK = 1"
definition OS_TASK_OPT_STK_CLR :: u16 where "OS_TASK_OPT_STK_CLR = 2"

definition clear_tcb :: os_tcb where
  "clear_tcb =
     \<lparr>OSTCBStkPtr = 0, OSTCBStkSize = 0, OSTCBOpt = 0, OSTCBId = 0, OSTCBEventPtr = None, OSTCBEventMultiPtr = None,
      OSTCBMsg = 0, OSTCBDly = 0, OSTCBStat = 0, OSTCBStatPend = 0, OSTCBPrio = 0, OSTCBX = 0, OSTCBY = 0,
      OSTCBBitX = 0, OSTCBBitY = 0, OSTCBDelReq = 0, OSTCBCtxSwCtr = 0\<rparr>"

definition clear_event :: os_event where
  "clear_event = \<lparr>OSEventType = OS_EVENT_TYPE_UNUSED, OSEventPtr = 0, OSEventCnt = 0, OSEventGrp = 0,
                  OSEventTbl = replicate 8 0\<rparr>"

definition OS_InitMisc :: "os \<Rightarrow> os" where
  "OS_InitMisc s = s\<lparr>OSTime := 0, OSIntNesting := 0, OSLockNesting := 0, OSTaskCtr := 0, OSRunning := False,
                     OSCtxSwCtr := 0\<rparr>"

definition OS_InitRdyList :: "os \<Rightarrow> os" where
  "OS_InitRdyList s = s\<lparr>OSRdyGrp := 0, OSRdyTbl := replicate 8 0, OSPrioCur := 0, OSPrioHighRdy := 0,
                        OSTCBHighRdy := NULL, OSTCBCur := NULL\<rparr>"

definition OS_InitTCBList :: "os \<Rightarrow> os" where
  "OS_InitTCBList s =
     s\<lparr>OSTCBTbl := replicate (OS_MAX_TASKS + OS_N_SYS_TASKS) clear_tcb, OSTCBPrioTbl := replicate 64 NULL,
       OSTCBList := [], OSTCBFreeList := [0..<OS_MAX_TASKS + OS_N_SYS_TASKS]\<rparr>"

definition OS_InitEventList :: "os \<Rightarrow> os" where
  "OS_InitEventList s = s\<lparr>OSEvents := replicate OS_MAX_EVENTS clear_event, OSEventFreeList := [0..<OS_MAX_EVENTS]\<rparr>"

text \<open>The arguments are the initial stack pointers and the size of the stacks of the two tasks.\<close>

definition OS_InitTaskIdle :: "u32 \<Rightarrow> os \<Rightarrow> os option" where
  "OS_InitTaskIdle psp s =
     map_option snd (OSTaskCreateExt psp OS_TASK_IDLE_PRIO OS_TASK_IDLE_ID 128 (OS_TASK_OPT_STK_CHK OR OS_TASK_OPT_STK_CLR) s)"

definition OS_InitTaskStat :: "u32 \<Rightarrow> os \<Rightarrow> os option" where
  "OS_InitTaskStat psp s =
     map_option snd (OSTaskCreateExt psp OS_TASK_STAT_PRIO OS_TASK_STAT_ID 128 (OS_TASK_OPT_STK_CHK OR OS_TASK_OPT_STK_CLR) s)"

definition OSInit :: "u32 \<Rightarrow> u32 \<Rightarrow> os \<Rightarrow> os option" where
  "OSInit psp_idle psp_stat s =
     do {
       s \<leftarrow> OS_InitTaskIdle psp_idle (OS_InitEventList (OS_InitTCBList (OS_InitRdyList (OS_InitMisc s))));
       OS_InitTaskStat psp_stat s
     }"

definition cleared :: "os \<Rightarrow> os" where
  "cleared s = OS_InitEventList (OS_InitTCBList (OS_InitRdyList (OS_InitMisc s)))"

lemmas os_init_defs = OS_InitMisc_def OS_InitRdyList_def OS_InitTCBList_def OS_InitEventList_def
  OS_MAX_TASKS_def OS_N_SYS_TASKS_def OS_MAX_EVENTS_def

lemma prios_zero [simp]: "prios (0, replicate 8 0) = {}"
  using prios_map_empty by (simp add: map_empty_def)

lemma idle_ok: "kernel_ok (created 0 [1..<22] (new_tcb 63 psp ident sz opt) (cleared s))" (is "kernel_ok ?s")
proof -
  have tbl: "OSTCBTbl ?s ! 0 = new_tcb 63 psp ident sz opt" "length (OSTCBTbl ?s) = 22" "OSTCBList ?s = [0]"
    "OSTCBFreeList ?s = [1..<22]" "OSEventFreeList ?s = [0..<30]"
    by (simp_all add: created_def cleared_def os_init_defs Let_def)
  have pt: "OSTCBPrioTbl ?s = (replicate 64 NULL)[63 := TCB 0]"
    by (simp add: created_def cleared_def os_init_defs Let_def new_tcb_def)
  have pt': "OSTCBPrioTbl ?s ! p = (if p = 63 then TCB 0 else NULL)" if "p < 64" for p
    unfolding pt using that by (simp add: nth_list_update)
  have ev: "OSEvents ?s = replicate 30 clear_event" by (simp add: created_def cleared_def os_init_defs Let_def)
  have ok: "map_ok (0, replicate 8 0)" using map_ok_empty by (simp add: map_empty_def)
  have rd: "ready ?s = {63}" "map_ok (rdy_map ?s)"
    using prios_map_ins [OF ok, of 63] by (simp_all add: created_def cleared_def os_init_defs Let_def new_tcb_def)
  have e: "event_ok clear_event" using ok by (simp add: event_ok_def clear_event_def OS_EVENT_TYPE_UNUSED_def OS_EVENT_TYPE_SEM_def)
  have w: "waits ?s d = {}" if "d < 30" for d unfolding ev using that by (simp add: clear_event_def)
  have t: "tcb_ok ?s 0"
    using rd(1) w pt' [of 63] unfolding tcb_ok_def Let_def tbl(1) ev
    by (simp add: new_tcb_def prio_fields_def stat_ok_def)
  have ty: "OSEventType (OSEvents ?s ! d) = OS_EVENT_TYPE_UNUSED" if "d < 30" for d
    unfolding ev using that by (simp add: clear_event_def)
  have en: "length (OSEvents ?s) = 30" unfolding ev by simp
  have p0: "prio_of ?s 0 = 63" unfolding tbl(1) by (simp add: new_tcb_def)
  have pe: "j \<in> set (OSTCBList ?s) \<and> prio_of ?s j = p" if "p < 64" "OSTCBPrioTbl ?s ! p = TCB j" for p j
    using pt' [OF that(1)] that(2) p0 tbl(3) by (simp split: if_splits)
  have pl: "length (OSTCBPrioTbl ?s) = 64" unfolding pt by simp
  have "lists_ok ?s"
    unfolding lists_ok_def tbl(2-5) en pl using ty p0 pe tbl(3) by auto
  moreover have "event_ok (OSEvents ?s ! d)" if "d < 30" for d unfolding ev using that e by simp
  ultimately show ?thesis
    using rd t w pt' [of 63] tbl(3) en by (auto simp: kernel_ok_def)
qed

lemma OSTaskCreateExt_boot:
  assumes z: "OSIntNesting s = 0" "\<not> OSRunning s" "OSTCBPrioTbl s ! unat prio = NULL"
    and f: "OSTCBFreeList s = i # free" "i < length (OSTCBTbl s)"
  shows "OSTaskCreateExt psp prio ident sz opt s = Some (OS_ERR_NONE, created i free (new_tcb prio psp ident sz opt) s)"
  using z by (simp add: OSTaskCreateExt_def OS_TCBInit_eq [OF f] Let_def) (simp add: created_def Let_def)

definition booted :: "u32 \<Rightarrow> u32 \<Rightarrow> os \<Rightarrow> os" where
  "booted psp_idle psp_stat s =
     created 1 [2..<22] (new_tcb 62 psp_stat 65534 128 3) (created 0 [1..<22] (new_tcb 63 psp_idle 65535 128 3) (cleared s))"

lemma booted_ok:
  "OSInit psp_idle psp_stat s = Some (booted psp_idle psp_stat s)" "kernel_ok (booted psp_idle psp_stat s)"
proof -
  let ?a = "cleared s" and ?b = "created 0 [1..<22] (new_tcb 63 psp_idle 65535 128 3) (cleared s)"
  have a: "OSIntNesting ?a = 0" "\<not> OSRunning ?a" "OSTCBPrioTbl ?a ! unat (63 :: u8) = NULL" "OSTCBFreeList ?a = 0 # [1..<22]"
    "0 < length (OSTCBTbl ?a)"
    by (simp_all add: cleared_def os_init_defs upt_conv_Cons)
  have b: "OSIntNesting ?b = 0" "\<not> OSRunning ?b" "OSTCBPrioTbl ?b ! unat (62 :: u8) = NULL" "OSTCBFreeList ?b = 1 # [2..<22]"
    "1 < length (OSTCBTbl ?b)"
    by (simp_all add: created_def Let_def cleared_def os_init_defs upt_conv_Cons new_tcb_def)
  have "OS_InitTaskIdle psp_idle ?a = Some ?b"
    using OSTaskCreateExt_boot [OF a, of psp_idle 65535 128 3]
    by (simp add: OS_InitTaskIdle_def OS_TASK_IDLE_PRIO_def OS_TASK_IDLE_ID_def OS_TASK_OPT_STK_CHK_def OS_TASK_OPT_STK_CLR_def)
  moreover have "OS_InitTaskStat psp_stat ?b = Some (booted psp_idle psp_stat s)"
    using OSTaskCreateExt_boot [OF b, of psp_stat 65534 128 3]
    by (simp add: OS_InitTaskStat_def OS_TASK_STAT_PRIO_def OS_LOWEST_PRIO_def OS_TASK_STAT_ID_def OS_TASK_OPT_STK_CHK_def
        OS_TASK_OPT_STK_CLR_def booted_def)
  ultimately show "OSInit psp_idle psp_stat s = Some (booted psp_idle psp_stat s)"
    by (simp add: OSInit_def cleared_def)
  show "kernel_ok (booted psp_idle psp_stat s)"
    unfolding booted_def by (rule created_ok [OF idle_ok b(4) _ b(3)]) simp
qed

text \<open>Starting the scheduler makes the kernel stable.\<close>

lemma OSStart_stable:
  assumes k: "kernel_ok s" and n: "\<not> OSRunning s"
  shows "stable (OSStart s)" "OSRunning (OSStart s)"
    "switched (s\<lparr>OSRunning := True\<rparr>) (OSStart s)"
proof -
  let ?h = "map_top (rdy_map s)"
  have h: "unat ?h = Min (ready s)" "unat ?h \<in> ready s"
    using map_top_Min [OF kernel_okD(2) [OF k]] ready_nonempty [OF k] by blast+
  obtain i where i: "OSTCBPrioTbl s ! unat ?h = TCB i" using kernel_okD(5) [OF k h(2)] by blast
  have l: "i \<in> set (OSTCBList s)" "prio_of s i = unat ?h"
    using prio_entry [OF kernel_okD(1) [OF k] i] prios_less [OF h(2)] by auto
  then have p: "OSTCBPrio (OSTCBTbl s ! i) = ?h" by (simp only: word_unat_eq_iff)
  have eq: "OSStart s = s\<lparr>OSPrioHighRdy := ?h, OSPrioCur := ?h, OSTCBHighRdy := TCB i, OSTCBCur := TCB i, OSRunning := True\<rparr>"
    using n i by (simp add: OSStart_def OS_SchedNew_def Let_def)
  have "kernel_ok (OSStart s)" by (rule kernel_ok_cong [OF k]) (simp_all add: eq)
  then show "stable (OSStart s)" using l p h by (auto simp: stable_def eq cur_ok_def highest_def)
  show "OSRunning (OSStart s)" "switched (s\<lparr>OSRunning := True\<rparr>) (OSStart s)"
    by (simp_all add: eq switched_def)
qed

end
