(* ===== verification/Os_Run.thy ===== *)
theory Os_Run
  imports Os_Init
begin

text \<open>
  Runs of uC/OS-II: the current task calls the kernel, a task that waited finishes its call, and
  interrupts nest, post, tick and end.  Every run from the start keeps the kernel consistent and
  the ready task of highest priority running, and a delay ends with its last tick.
\<close>

section \<open>Steps\<close>

text \<open>The calls that do not leave a second part to be executed.\<close>

datatype kcall =
  KAccept nat | KPost nat | KSet nat u16 | KPendAbort nat u8 | KDel nat u8 | KCreate u16
| KDly u32 | KDlyHMSM u8 u8 u8 u16 | KDlyResume u8 | KTimeSet u32
| KLock | KUnlock | KSuspend u8 | KResume u8 | KTaskCreate u32 u8

fun kcall_run :: "kcall \<Rightarrow> os \<Rightarrow> os option" where
  "kcall_run (KAccept e) s = Some (snd (OSSemAccept e s))"
| "kcall_run (KPost e) s = map_option snd (OSSemPost e s)"
| "kcall_run (KSet e cnt) s = Some (snd (OSSemSet e cnt s))"
| "kcall_run (KPendAbort e opt) s = map_option (snd \<circ> snd) (OSSemPendAbort e opt s)"
| "kcall_run (KDel e opt) s = map_option (snd \<circ> snd) (OSSemDel e opt s)"
| "kcall_run (KCreate cnt) s = Some (snd (OSSemCreate cnt s))"
| "kcall_run (KDly n) s = OSTimeDly n s"
| "kcall_run (KDlyHMSM h m sec ms) s = map_option snd (OSTimeDlyHMSM h m sec ms s)"
| "kcall_run (KDlyResume p) s = map_option snd (OSTimeDlyResume p s)"
| "kcall_run (KTimeSet t) s = Some (OSTimeSet t s)"
| "kcall_run KLock s = Some (OSSchedLock s)"
| "kcall_run KUnlock s = OSSchedUnlock s"
| "kcall_run (KSuspend p) s = map_option snd (OSTaskSuspend p s)"
| "kcall_run (KResume p) s = map_option snd (OSTaskResume p s)"
| "kcall_run (KTaskCreate psp p) s = map_option snd (OSTaskCreate psp p s)"

text \<open>The arguments the code relies on (\<^verbatim>\<open>OS_ARG_CHK_EN\<close> is 0): events that exist, priorities
  within the table, and the idle task not suspended.\<close>

fun valid_call :: "kcall \<Rightarrow> os \<Rightarrow> bool" where
  "valid_call (KAccept e) s = (e < length (OSEvents s))"
| "valid_call (KPost e) s = (e < length (OSEvents s))"
| "valid_call (KSet e cnt) s = (e < length (OSEvents s))"
| "valid_call (KPendAbort e opt) s = (e < length (OSEvents s))"
| "valid_call (KDel e opt) s = (e < length (OSEvents s))"
| "valid_call (KSuspend p) s = (p = OS_PRIO_SELF \<and> OSPrioCur s \<noteq> 63 \<or> unat p < 63)"
| "valid_call (KResume p) s = (unat p < 64)"
| "valid_call (KTaskCreate psp p) s = (unat p < 64)"
| "valid_call _ s = True"

text \<open>The second component gives for a task the event of the wait it has not finished.\<close>

type_synonym kstate = "os \<times> (nat \<Rightarrow> nat option)"

datatype klabel = Call kcall | Pend nat u32 | Resumed | Enter | Isr kcall | Tick | Exit

inductive kstep :: "klabel \<Rightarrow> kstate \<Rightarrow> kstate \<Rightarrow> bool" where
  call: "OSIntNesting s = 0 \<Longrightarrow> OSTCBCur s = TCB c \<Longrightarrow> w c = None \<Longrightarrow> prio_of s c \<noteq> 63 \<Longrightarrow> valid_call x s \<Longrightarrow>
    kcall_run x s = Some s' \<Longrightarrow> kstep (Call x) (s, w) (s', w)"
| pend_now: "OSIntNesting s = 0 \<Longrightarrow> OSTCBCur s = TCB c \<Longrightarrow> w c = None \<Longrightarrow> prio_of s c \<noteq> 63 \<Longrightarrow> e < length (OSEvents s) \<Longrightarrow>
    OSSemPend e t s = Some (Some r, s') \<Longrightarrow> kstep (Pend e t) (s, w) (s', w)"
| pend_wait: "OSIntNesting s = 0 \<Longrightarrow> OSTCBCur s = TCB c \<Longrightarrow> w c = None \<Longrightarrow> prio_of s c \<noteq> 63 \<Longrightarrow> e < length (OSEvents s) \<Longrightarrow>
    OSSemPend e t s = Some (None, s') \<Longrightarrow> kstep (Pend e t) (s, w) (s', w(c := Some e))"
| resumed: "OSIntNesting s = 0 \<Longrightarrow> OSTCBCur s = TCB c \<Longrightarrow> w c = Some e \<Longrightarrow>
    OSSemPend_end e s = Some (r, s') \<Longrightarrow> kstep Resumed (s, w) (s', w(c := None))"
| enter: "OSIntNesting s < 255 \<Longrightarrow> kstep Enter (s, w) (OSIntEnter s, w)"
| isr: "0 < OSIntNesting s \<Longrightarrow> x \<in> {KAccept e, KPost e, KDlyResume p, KResume p} \<Longrightarrow> valid_call x s \<Longrightarrow>
    kcall_run x s = Some s' \<Longrightarrow> kstep (Isr x) (s, w) (s', w)"
| tick: "0 < OSIntNesting s \<Longrightarrow> OSTimeTick s = Some s' \<Longrightarrow> kstep Tick (s, w) (s', w)"
| exit: "0 < OSIntNesting s \<Longrightarrow> OSIntExit s = Some s' \<Longrightarrow> kstep Exit (s, w) (s', w)"

inductive krun :: "klabel list \<Rightarrow> kstate \<Rightarrow> kstate \<Rightarrow> bool" where
  nil: "krun [] st st"
| snoc: "krun ls st st1 \<Longrightarrow> kstep l st1 st2 \<Longrightarrow> krun (ls @ [l]) st st2"

inductive_cases kstepE: "kstep l st st'"

section \<open>The invariant of a run\<close>

definition waits_ok :: "kstate \<Rightarrow> bool" where
  "waits_ok st \<longleftrightarrow> (case st of (s, w) \<Rightarrow>
     (\<forall>i\<in>set (OSTCBList s). w i = None \<longrightarrow> OSTCBEventPtr (OSTCBTbl s ! i) = None) \<and>
     (\<forall>i e. w i = Some e \<longrightarrow> i \<in> set (OSTCBList s) \<and> e < length (OSEvents s) \<and>
        OSTCBEventPtr (OSTCBTbl s ! i) \<in> {None, Some e}))"

definition cur_awake :: "kstate \<Rightarrow> bool" where
  "cur_awake st \<longleftrightarrow> (case st of (s, w) \<Rightarrow>
     \<forall>c. OSTCBCur s = TCB c \<longrightarrow> OSTCBDly (OSTCBTbl s ! c) = 0 \<and> (w c \<noteq> None \<longrightarrow> OSLockNesting s = 0))"

definition run_ok :: "kstate \<Rightarrow> bool" where
  "run_ok st \<longleftrightarrow> stable (fst st) \<and> OSRunning (fst st) \<and> waits_ok st \<and> cur_awake st"

lemma awake_zero:
  assumes "stable s" "OSIntNesting s = 0" "OSLockNesting s = 0"
  shows "cur_awake (s, w)"
  using current_ready(5) [OF assms] assms(3) by (auto simp: cur_awake_def)

lemma run_ok_good:
  assumes r: "run_ok (s, w)" and g: "good X s s'"
  shows "run_ok (s', w)"
proof -
  have q: "quiet X s s'" and st: "stable s'" using g by (simp_all add: good_def)
  have Q: "OSTCBList s' = OSTCBList s" "length (OSEvents s') = length (OSEvents s)" "OSRunning s' = OSRunning s"
    "OSLockNesting s' = OSLockNesting s"
    "\<And>i. i \<in> set (OSTCBList s) \<Longrightarrow> OSTCBEventPtr (OSTCBTbl s' ! i) \<in> {OSTCBEventPtr (OSTCBTbl s ! i), None} \<and>
        OSTCBDly (OSTCBTbl s' ! i) \<in> {OSTCBDly (OSTCBTbl s ! i), 0}"
    using q by (simp_all add: quiet_def)
  have "waits_ok (s', w)"
    using r Q(1,2) Q(5) unfolding run_ok_def waits_ok_def by fastforce
  moreover have "cur_awake (s', w)"
  proof (cases "OSTCBCur s' = OSTCBCur s")
    case True
    obtain c where c: "c \<in> set (OSTCBList s)" "OSTCBCur s = TCB c" using r by (auto simp: run_ok_def stable_def cur_ok_def)
    show ?thesis using r True c Q(4) Q(5) [OF c(1)] by (auto simp: run_ok_def cur_awake_def)
  next
    case False
    then have "OSIntNesting s' = 0" "OSLockNesting s' = 0" using g by (auto simp: good_def)
    then show ?thesis using awake_zero [OF st] by blast
  qed
  ultimately show ?thesis using r st Q(3) by (simp add: run_ok_def)
qed

text \<open>A field of no relevance to the tables.\<close>

lemma stable_cong:
  assumes "stable s" "OSRdyGrp s' = OSRdyGrp s" "OSRdyTbl s' = OSRdyTbl s" "OSTCBPrioTbl s' = OSTCBPrioTbl s"
    "OSTCBList s' = OSTCBList s" "OSTCBFreeList s' = OSTCBFreeList s" "OSEvents s' = OSEvents s"
    "OSEventFreeList s' = OSEventFreeList s" "OSTCBTbl s' = OSTCBTbl s" "OSTCBCur s' = OSTCBCur s"
    "OSPrioCur s' = OSPrioCur s" "highest s'"
  shows "stable s'"
  using assms kernel_ok_cong [of s s'] by (simp add: stable_def cur_ok_def)

lemma switch_high_stable:
  assumes "kernel_ok s" "cur_ok s" "OSIntNesting s = 0" "OSLockNesting s = 0"
  shows "\<exists>s'. switch_high s = Some s' \<and> switched s s' \<and> stable s'"
proof -
  obtain s' where s': "switch_high s = Some s'" "switched s s'" "cur_ok s'" "unat (OSPrioCur s') = Min (ready s)"
    using switch_high_ok [OF assms(1,2)] by blast
  then have "stable s'"
    using kernel_ok_switched [OF assms(1) s'(2)] switchedD(1,2) [OF s'(2)] by (simp add: stable_def highest_def)
  then show ?thesis using s' by blast
qed

text \<open>The two calls that end a state in which the scheduler is held.\<close>

lemma release_ok:
  assumes st: "stable s" and z: "OSIntNesting s1 = 0" "OSLockNesting s1 = 0"
    and s1: "s1 = s\<lparr>OSIntNesting := a, OSLockNesting := b\<rparr>"
  shows "\<exists>s'. switch_high s1 = Some s' \<and> switched s1 s' \<and> stable s'"
proof (rule switch_high_stable)
  have k: "kernel_ok s" "cur_ok s" using st by (simp_all add: stable_def)
  show "kernel_ok s1" unfolding s1 by (rule kernel_ok_cong [OF k(1)]) simp_all
  show "cur_ok s1" using k(2) by (simp add: s1 cur_ok_def)
  show "OSIntNesting s1 = 0" "OSLockNesting s1 = 0" by (rule z)+
qed

lemma run_ok_switched:
  assumes w: "waits_ok (s, w)" and s1: "OSTCBList s1 = OSTCBList s" "OSEvents s1 = OSEvents s" "OSTCBTbl s1 = OSTCBTbl s"
    and run: "OSRunning s1" and sw: "switched s1 s'" and st: "stable s'" and z: "OSIntNesting s1 = 0" "OSLockNesting s1 = 0"
  shows "run_ok (s', w)"
proof -
  have "OSTCBEventPtr (OSTCBTbl s' ! i) = OSTCBEventPtr (OSTCBTbl s ! i)" for i
    using same_tcbD(1) [OF switchedD(14) [OF sw, of i]] s1(3) by simp
  then have "waits_ok (s', w)" using w switchedD [OF sw] s1 by (simp add: waits_ok_def)
  then show ?thesis
    using awake_zero [OF st] st run switchedD [OF sw] z by (simp add: run_ok_def)
qed


section \<open>Calls\<close>

fun targets :: "kcall \<Rightarrow> os \<Rightarrow> nat set" where
  "targets (KDlyResume p) s = {i. unat p < 64 \<and> OSTCBPrioTbl s ! unat p = TCB i}"
| "targets (KSuspend p) s = {i. OSTCBPrioTbl s ! unat (if p = OS_PRIO_SELF then OSPrioCur s else p) = TCB i}"
| "targets (KResume p) s = {i. OSTCBPrioTbl s ! unat p = TCB i}"
| "targets _ s = {}"

definition undisturbed :: "nat set \<Rightarrow> os \<Rightarrow> os \<Rightarrow> bool" where
  "undisturbed X s s' \<longleftrightarrow> OSTickStepState s' = OSTickStepState s \<and>
     (OSTCBCur s' = OSTCBCur s \<or> OSIntNesting s' = 0 \<and> OSLockNesting s' = 0) \<and>
     (\<forall>j\<in>set (OSTCBList s). j \<notin> X \<longrightarrow> OSTCBCur s \<noteq> TCB j \<longrightarrow> OSTCBEventPtr (OSTCBTbl s ! j) = None \<longrightarrow>
        j \<in> set (OSTCBList s') \<and> same_tcb (OSTCBTbl s ! j) (OSTCBTbl s' ! j))"

lemma good_undisturbed: "good X s s' \<Longrightarrow> undisturbed X s s'"
  unfolding good_def quiet_def undisturbed_def by metis

lemma undisturbed_refl: "undisturbed X s s"
  by (simp add: undisturbed_def)

lemma ready_stable_refl: "run_ok (s, w) \<Longrightarrow> good X s s"
  by (simp add: run_ok_def good_refl)

lemma delayed_run:
  assumes r: "run_ok (s, w)" and z: "OSIntNesting s = 0" "OSLockNesting s = 0"
    and c: "OSTCBCur s = TCB c" "w c = None" "prio_of s c \<noteq> 63" and n: "n \<noteq> 0"
  shows "\<exists>s'. OSTimeDly n s = Some s' \<and> run_ok (s', w) \<and> undisturbed X s s' \<and>
    c \<in> set (OSTCBList s') \<and> same_tcb ((OSTCBTbl s ! c)\<lparr>OSTCBDly := n\<rparr>) (OSTCBTbl s' ! c) \<and>
    OSTCBPrio (OSTCBTbl s' ! c) = OSPrioCur s \<and> OSIntNesting s' = 0 \<and> OSLockNesting s' = 0"
proof -
  have st: "stable s" "OSRunning s" "waits_ok (s, w)" using r by (simp_all add: run_ok_def)
  note C = current_ready [OF st(1) z c(1)]
  have ev: "OSTCBEventPtr (OSTCBTbl s ! c) = None" using st(3) C(1) c(2) by (simp add: waits_ok_def)
  obtain s' where s': "OSTimeDly n s = Some s'" "switched (delayed c n s) s'" "stable s'"
    using OSTimeDly_ok [OF st(1) c(1,3) ev z n] by blast
  have il: "c < length (OSTCBTbl s)"
    using list_in_table [OF kernel_okD(1) C(1)] st(1) by (simp add: stable_def)
  note S = switchedD [OF s'(2)]
  have tb: "same_tcb (OSTCBTbl (delayed c n s) ! j) (OSTCBTbl s' ! j)" for j by (rule S(14))
  have ne: "OSTCBTbl (delayed c n s) ! j = OSTCBTbl s ! j" if "j \<noteq> c" for j using that by (simp add: delayed_def)
  have eq: "OSTCBTbl (delayed c n s) ! c = (OSTCBTbl s ! c)\<lparr>OSTCBDly := n\<rparr>" using il by (simp add: delayed_def)
  have sel: "OSTCBList (delayed c n s) = OSTCBList s" "OSEvents (delayed c n s) = OSEvents s"
    "OSRunning (delayed c n s) = OSRunning s" "OSIntNesting (delayed c n s) = 0" "OSLockNesting (delayed c n s) = 0"
    "OSTickStepState (delayed c n s) = OSTickStepState s"
    using z by (simp_all add: delayed_def)
  have evp: "OSTCBEventPtr (OSTCBTbl s' ! j) = OSTCBEventPtr (OSTCBTbl s ! j)" for j
    using same_tcbD(1) [OF tb [of j]] ne [of j] eq by (cases "j = c") simp_all
  have "waits_ok (s', w)" using st(3) S(4,6) sel(1,2) evp by (simp add: waits_ok_def)
  then have "run_ok (s', w)"
    using s'(3) st(2) S(8,9,10) sel awake_zero [OF s'(3)] by (simp add: run_ok_def)
  moreover have "same_tcb (OSTCBTbl s ! j) (OSTCBTbl s' ! j)" if "OSTCBCur s \<noteq> TCB j" for j
    using tb [of j] ne [of j] that c(1) by auto
  then have "undisturbed X s s'" using S(4,8,9,12) sel by (simp add: undisturbed_def)
  moreover have "OSTCBPrio (OSTCBTbl s' ! c) = OSPrioCur s" using same_tcbD(7) [OF tb [of c]] eq C(6) by simp
  ultimately show ?thesis using s'(1) tb [of c] eq C(1) S(4,8,9) sel(1,4,5) by (intro exI [where x = s']) simp
qed

lemma call_dly:
  assumes r: "run_ok (s, w)" and t: "OSIntNesting s = 0" "OSTCBCur s = TCB c" "w c = None" "prio_of s c \<noteq> 63"
  shows "\<exists>s'. OSTimeDly n s = Some s' \<and> run_ok (s', w) \<and> undisturbed X s s'"
proof (cases "OSLockNesting s = 0 \<and> n \<noteq> 0")
  case True
  then show ?thesis using delayed_run [OF r t(1) _ t(2-4)] by blast
next
  case False
  then have "OSTimeDly n s = Some s" using t(1) by (auto simp: OSTimeDly_def word_gt_0)
  then show ?thesis using r undisturbed_refl by blast
qed

lemma free_task:
  assumes "lists_ok s" "OSTCBFreeList s = i # free"
  shows "i \<notin> set (OSTCBList s) \<and> i < length (OSTCBTbl s)"
proof -
  have "distinct (OSTCBList s @ OSTCBFreeList s)" "set (OSTCBList s @ OSTCBFreeList s) \<subseteq> {..<length (OSTCBTbl s)}"
    using assms(1) unfolding lists_ok_def by blast+
  then show ?thesis using assms(2) by simp
qed

lemma call_create:
  assumes r: "run_ok (s, w)" and p: "unat p < 64" and z: "OSIntNesting s = 0"
  shows "\<exists>q s'. OSTaskCreate psp p s = Some (q, s') \<and> run_ok (s', w) \<and> undisturbed X s s'"
proof -
  have st: "stable s" "OSRunning s" "waits_ok (s, w)" "cur_awake (s, w)" using r by (simp_all add: run_ok_def)
  have k: "kernel_ok s" using st(1) by (simp add: stable_def)
  obtain q s' where q: "OSTaskCreate psp p s = Some (q, s')" and alt: "s' = s \<and> q \<noteq> OS_ERR_NONE \<or>
     q = OS_ERR_NONE \<and> OSIntNesting s = 0 \<and> stable s' \<and> (\<exists>i free. OSTCBFreeList s = i # free \<and>
       switched (created i free (new_tcb p psp 0 0 0) s) s')"
    using OSTaskCreate_run [OF st(1,2) p, of psp] by (elim exE conjE) (rule that)
  from alt show ?thesis
  proof
    assume "s' = s \<and> q \<noteq> OS_ERR_NONE"
    then show ?thesis using q r undisturbed_refl by blast
  next
    assume a: "q = OS_ERR_NONE \<and> OSIntNesting s = 0 \<and> stable s' \<and> (\<exists>i free. OSTCBFreeList s = i # free \<and>
       switched (created i free (new_tcb p psp 0 0 0) s) s')"
    then obtain i free where i: "OSTCBFreeList s = i # free" "switched (created i free (new_tcb p psp 0 0 0) s) s'" by blast
    let ?s = "created i free (new_tcb p psp 0 0 0) s"
    note S = switchedD [OF i(2)]
    have il: "i \<notin> set (OSTCBList s)" "i < length (OSTCBTbl s)"
      using free_task [OF kernel_okD(1) [OF k] i(1)] by blast+
    have tb: "same_tcb (OSTCBTbl ?s ! j) (OSTCBTbl s' ! j)" for j by (rule S(14))
    have ne: "OSTCBTbl ?s ! j = OSTCBTbl s ! j" if "j \<noteq> i" for j using that by (simp add: created_def Let_def)
    have eq: "OSTCBTbl ?s ! i = new_tcb p psp 0 0 0" using il(2) by (simp add: created_def Let_def)
    have sel: "OSTCBList ?s = i # OSTCBList s" "OSEvents ?s = OSEvents s" "OSRunning ?s = OSRunning s"
      "OSIntNesting ?s = OSIntNesting s" "OSLockNesting ?s = OSLockNesting s" "OSTickStepState ?s = OSTickStepState s"
      "OSTCBCur ?s = OSTCBCur s"
      by (simp_all add: created_def Let_def)
    have wi: "w i = None" using st(3) il(1) by (cases "w i") (auto simp: waits_ok_def)
    have evp: "OSTCBEventPtr (OSTCBTbl s' ! j) = (if j = i then None else OSTCBEventPtr (OSTCBTbl s ! j))" for j
      using same_tcbD(1) [OF tb [of j]] ne [of j] eq by (cases "j = i") (simp_all add: new_tcb_def)
    have dly: "OSTCBDly (OSTCBTbl s' ! j) = (if j = i then 0 else OSTCBDly (OSTCBTbl s ! j))" for j
      using same_tcbD(4) [OF tb [of j]] ne [of j] eq by (cases "j = i") (simp_all add: new_tcb_def)
    have "waits_ok (s', w)" using st(3) S(4,6) sel(1,2) evp wi il(1) by (auto simp: waits_ok_def)
    moreover have "cur_awake (s', w) \<and> (OSTCBCur s' = OSTCBCur s \<or> OSIntNesting s' = 0 \<and> OSLockNesting s' = 0)"
    proof (cases "OSLockNesting s = 0")
      case True
      then show ?thesis using awake_zero a S(8,9) sel z by simp
    next
      case False
      have ls: "OSLockNesting s' \<noteq> 0" using False S(9) sel by simp
      have "\<not> (OSIntNesting ?s = 0 \<and> OSLockNesting ?s = 0)" using False sel by simp
      then have sch: "OS_Sched ?s = Some ?s" by (auto simp: OS_Sched_def)
      have nl: "OSTCBPrioTbl s ! unat p = NULL"
        using q a by (auto simp: OSTaskCreate_def OS_ERR_TASK_CREATE_ISR_def OS_ERR_PRIO_EXIST_def OS_ERR_NONE_def split: if_splits)
      have "OSTaskCreate psp p s = Some (OS_ERR_NONE, ?s)"
        using a nl st(2) sel(3) sch OS_TCBInit_eq [OF i(1) il(2), of p psp 0 0 0]
        by (simp add: OSTaskCreate_def Let_def)
      then have "s' = ?s" using q by simp
      obtain c where c: "c \<in> set (OSTCBList s)" "OSTCBCur s = TCB c" using st(1) by (auto simp: stable_def cur_ok_def)
      have "c \<noteq> i" using c(1) il(1) by blast
      then have "OSTCBTbl s' ! c = OSTCBTbl s ! c" using ne \<open>s' = ?s\<close> by simp
      then show ?thesis using st(4) \<open>s' = ?s\<close> sel c(2) by (simp add: cur_awake_def)
    qed
    moreover
    have "same_tcb (OSTCBTbl s ! j) (OSTCBTbl s' ! j)" if "j \<in> set (OSTCBList s)" for j
    proof -
      have "j \<noteq> i" using that il(1) by blast
      then show ?thesis using tb [of j] ne [of j] by simp
    qed
    ultimately have "waits_ok (s', w)" "cur_awake (s', w)" "undisturbed X s s'"
      using S(4,12) sel by (simp_all add: undisturbed_def)
    then show ?thesis using q a st(2) S(10) sel(3) by (auto simp: run_ok_def)
  qed
qed

lemma call_lock:
  assumes r: "run_ok (s, w)" and t: "OSIntNesting s = 0" "OSTCBCur s = TCB c" "w c = None"
  shows "run_ok (OSSchedLock s, w)" "undisturbed X s (OSSchedLock s)"
proof -
  have st: "stable s" "OSRunning s" "waits_ok (s, w)" "cur_awake (s, w)" using r by (simp_all add: run_ok_def)
  show "undisturbed X s (OSSchedLock s)" by (simp add: OSSchedLock_def undisturbed_def)
  show "run_ok (OSSchedLock s, w)"
  proof (cases "OSLockNesting s < 255")
    case True
    then have eq: "OSSchedLock s = s\<lparr>OSLockNesting := OSLockNesting s + 1\<rparr>" using st(2) t(1) by (simp add: OSSchedLock_def)
    have "unat (OSLockNesting s + 1) = unat (OSLockNesting s) + 1"
      using True by (intro unat_plus_one_word) (simp add: word_less_nat_alt)
    then have "OSLockNesting s + 1 \<noteq> 0" by (auto simp: unat_eq_0 [symmetric])
    then have "highest (s\<lparr>OSLockNesting := OSLockNesting s + 1\<rparr>)" by (simp add: highest_def)
    then have "stable (OSSchedLock s)" by (intro stable_cong [OF st(1)]) (simp_all add: eq)
    then show ?thesis using st t by (auto simp: eq run_ok_def waits_ok_def cur_awake_def)
  next
    case False
    then show ?thesis using r by (simp add: OSSchedLock_def)
  qed
qed

lemma undisturbed_switched:
  assumes "switched s1 s'" "OSTCBList s1 = OSTCBList s" "OSTCBTbl s1 = OSTCBTbl s" "OSTickStepState s1 = OSTickStepState s"
    "OSIntNesting s1 = 0" "OSLockNesting s1 = 0"
  shows "undisturbed X s s'"
  using switchedD [OF assms(1)] assms by (auto simp: undisturbed_def)

lemma call_unlock:
  assumes r: "run_ok (s, w)" and t: "OSIntNesting s = 0" "OSTCBCur s = TCB c" "w c = None"
  shows "\<exists>s'. OSSchedUnlock s = Some s' \<and> run_ok (s', w) \<and> undisturbed X s s'"
proof -
  have st: "stable s" "OSRunning s" "waits_ok (s, w)" "cur_awake (s, w)" using r by (simp_all add: run_ok_def)
  let ?s = "s\<lparr>OSLockNesting := OSLockNesting s - 1\<rparr>"
  consider "OSLockNesting s = 0" | "OSLockNesting s \<noteq> 0" "OSLockNesting s - 1 = 0" | "OSLockNesting s - 1 \<noteq> 0" by blast
  then show ?thesis
  proof cases
    case 1
    then show ?thesis using r undisturbed_refl by (simp add: OSSchedUnlock_def)
  next
    case 2
    have s1: "?s = s\<lparr>OSIntNesting := 0, OSLockNesting := 0\<rparr>" using t(1) [symmetric] 2(2) by simp
    obtain s' where s': "switch_high ?s = Some s'" "switched ?s s'" "stable s'"
      using release_ok [OF st(1) _ _ s1] t(1) 2 by auto
    have "OSSchedUnlock s = Some s'"
      using 2 t(1) st(2) s'(1) by (simp add: OSSchedUnlock_def OS_Sched_def word_gt_0)
    moreover have "run_ok (s', w)"
      by (rule run_ok_switched [OF st(3) _ _ _ _ s'(2,3)]) (use 2 t(1) st(2) in simp_all)
    moreover have "undisturbed X s s'" by (rule undisturbed_switched [OF s'(2)]) (use 2 t(1) in simp_all)
    ultimately show ?thesis by blast
  next
    case 3
    have hi: "highest ?s" using 3 by (simp add: highest_def)
    have "stable ?s" by (rule stable_cong [OF st(1)]) (simp_all add: hi)
    then have "run_ok (?s, w)" using st t by (auto simp: run_ok_def waits_ok_def cur_awake_def)
    moreover have "OSSchedUnlock s = Some (if OSLockNesting s = 0 then s else ?s)"
      using 3 t(1) st(2) by (simp add: OSSchedUnlock_def word_gt_0)
    ultimately show ?thesis using r by (auto simp: undisturbed_def)
  qed
qed

lemma call_good:
  assumes r: "run_ok (s, w)" and f: "\<exists>s'. kcall_run x s = Some s' \<and> good X s s'"
  shows "\<exists>s'. kcall_run x s = Some s' \<and> run_ok (s', w) \<and> undisturbed X s s'"
  using f run_ok_good [OF r] good_undisturbed by blast

lemma call_both:
  assumes r: "run_ok (s, w)" and v: "valid_call x s"
    and x: "x \<in> {KAccept e, KPost e, KDlyResume p, KResume p}"
  shows "\<exists>s'. kcall_run x s = Some s' \<and> good (targets x s) s s'"
proof -
  have st: "stable s" "OSRunning s" using r by (simp_all add: run_ok_def)
  consider "x = KAccept e" | "x = KPost e" | "x = KDlyResume p" | "x = KResume p" using x by blast
  then show ?thesis
  proof cases
    case 1
    then show ?thesis using OSSemAccept_good [OF st(1)] v by simp
  next
    case 2
    then show ?thesis using OSSemPost_good [OF st(1), of e] v by force
  next
    case 3
    show ?thesis
    proof (cases "unat p < 64")
      case True
      then show ?thesis using OSTimeDlyResume_good [OF st(1), of p "targets x s"] 3 by force
    next
      case False
      then have "OS_LOWEST_PRIO \<le> p" by (simp add: OS_LOWEST_PRIO_def word_le_nat_alt)
      then show ?thesis using 3 ready_stable_refl [OF r] by (simp add: OSTimeDlyResume_def)
    qed
  next
    case 4
    then show ?thesis using OSTaskResume_good [OF st(1) _ st(2), of p "targets x s"] v by force
  qed
qed

lemma kcall_ok:
  assumes r: "run_ok (s, w)" and t: "OSIntNesting s = 0" "OSTCBCur s = TCB c" "w c = None" "prio_of s c \<noteq> 63"
    and v: "valid_call x s"
  shows "\<exists>s'. kcall_run x s = Some s' \<and> run_ok (s', w) \<and> undisturbed (targets x s) s s'"
proof -
  have st: "stable s" "OSRunning s" using r by (simp_all add: run_ok_def)
  show ?thesis
  proof (cases x)
    case (KAccept e)
    then show ?thesis using call_good [OF r call_both [OF r v, of e 0]] by simp
  next
    case (KPost e)
    then show ?thesis using call_good [OF r call_both [OF r v, of e 0]] by simp
  next
    case (KDlyResume p)
    then show ?thesis using call_good [OF r call_both [OF r v, of 0 p]] by simp
  next
    case (KResume p)
    then show ?thesis using call_good [OF r call_both [OF r v, of 0 p]] by simp
  next
    case (KSet e cnt)
    then show ?thesis using call_good [OF r, of x] OSSemSet_good [OF st(1), of e "targets x s" cnt] v by simp
  next
    case (KPendAbort e opt)
    then show ?thesis using call_good [OF r, of x] OSSemPendAbort_good [OF st(1), of e opt "targets x s"] v by force
  next
    case (KDel e opt)
    then show ?thesis using call_good [OF r, of x] OSSemDel_good [OF st(1), of e opt "targets x s"] v by force
  next
    case (KCreate cnt)
    then show ?thesis using call_good [OF r, of x] OSSemCreate_good [OF st(1), of "targets x s" cnt] by simp
  next
    case (KDly n)
    then show ?thesis using call_dly [OF r t, of n "targets x s"] by simp
  next
    case (KDlyHMSM h m sec ms)
    have "\<exists>q s'. OSTimeDlyHMSM h m sec ms s = Some (q, s') \<and> run_ok (s', w) \<and> undisturbed {} s s'"
    proof (cases "OSLockNesting s = 0")
      case True
      obtain s' where "OSTimeDly ((ucast h * 3600 + ucast m * 60 + ucast sec) * OS_TICKS_PER_SEC +
          OS_TICKS_PER_SEC * (ucast ms + 500 div OS_TICKS_PER_SEC) div 1000) s = Some s'"
        "run_ok (s', w)" "undisturbed {} s s'" using call_dly [OF r t] by blast
      then show ?thesis using True t(1) by (simp add: OSTimeDlyHMSM_def Let_def)
    next
      case False
      then show ?thesis using r t(1) undisturbed_refl by (simp add: OSTimeDlyHMSM_def word_gt_0)
    qed
    then show ?thesis using KDlyHMSM by force
  next
    case (KTimeSet n)
    have "highest (OSTimeSet n s)" using st(1) by (simp add: OSTimeSet_def stable_def highest_def)
    then have "stable (OSTimeSet n s)" by (intro stable_cong [OF st(1)]) (simp_all add: OSTimeSet_def)
    then have "run_ok (OSTimeSet n s, w)"
      using r by (simp add: run_ok_def OSTimeSet_def waits_ok_def cur_awake_def)
    then show ?thesis using KTimeSet by (simp add: undisturbed_def OSTimeSet_def)
  next
    case KLock
    then show ?thesis using call_lock [OF r t(1-3)] by simp
  next
    case KUnlock
    then show ?thesis using call_unlock [OF r t(1-3)] by simp
  next
    case (KSuspend p)
    then show ?thesis using call_good [OF r, of x] OSTaskSuspend_good [OF st(1), of p "targets x s"] v by force
  next
    case (KTaskCreate psp p)
    then show ?thesis using call_create [OF r _ t(1), of p psp "targets x s"] v by force
  qed
qed

section \<open>Steps keep the invariant\<close>

fun step_targets :: "klabel \<Rightarrow> os \<Rightarrow> nat set" where
  "step_targets (Call x) s = targets x s"
| "step_targets (Isr x) s = targets x s"
| "step_targets _ s = {}"

lemma pend_block:
  assumes r: "run_ok (s, w)" and t: "OSIntNesting s = 0" "OSTCBCur s = TCB c" and e: "e < length (OSEvents s)"
    and z: "OSLockNesting s = 0" and sw: "switched (block c e b n s) s'" and st': "stable s'"
  shows "run_ok (s', w(c := Some e))" "undisturbed X s s'"
proof -
  have st: "stable s" "OSRunning s" "waits_ok (s, w)" using r by (simp_all add: run_ok_def)
  note C = current_ready [OF st(1) t(1) z t(2)]
  note S = switchedD [OF sw]
  have il: "c < length (OSTCBTbl s)"
    using list_in_table [OF kernel_okD(1) C(1)] st(1) by (simp add: stable_def)
  let ?s = "block c e b n s"
  have sel: "OSTCBList ?s = OSTCBList s" "length (OSEvents ?s) = length (OSEvents s)" "OSRunning ?s = OSRunning s"
    "OSIntNesting ?s = 0" "OSLockNesting ?s = 0" "OSTickStepState ?s = OSTickStepState s"
    using t(1) z by (simp_all add: block_def Let_def)
  have ne: "OSTCBTbl ?s ! j = OSTCBTbl s ! j" if "j \<noteq> c" for j using that by (simp add: block_def Let_def)
  have eq: "OSTCBEventPtr (OSTCBTbl ?s ! c) = Some e" using il by (simp add: block_def Let_def blocked_def)
  have tb: "same_tcb (OSTCBTbl ?s ! j) (OSTCBTbl s' ! j)" for j by (rule S(14))
  have evp: "OSTCBEventPtr (OSTCBTbl s' ! j) = (if j = c then Some e else OSTCBEventPtr (OSTCBTbl s ! j))" for j
    using same_tcbD(1) [OF tb [of j]] ne [of j] eq by simp
  have "waits_ok (s', w(c := Some e))"
    using st(3) S(4,6) sel(1,2) evp C(1) e by (simp add: waits_ok_def)
  then show "run_ok (s', w(c := Some e))"
    using st' st(2) S(8,9,10) sel awake_zero [OF st'] by (simp add: run_ok_def)
  have "same_tcb (OSTCBTbl s ! j) (OSTCBTbl s' ! j)" if "OSTCBCur s \<noteq> TCB j" for j
    using tb [of j] ne [of j] that t(2) by auto
  then show "undisturbed X s s'" using S(4,8,9,12) sel by (simp add: undisturbed_def)
qed

lemma resumed_ok:
  assumes r: "run_ok (s, w)" and t: "OSIntNesting s = 0" "OSTCBCur s = TCB c" "w c = Some e"
  shows "\<exists>q s'. OSSemPend_end e s = Some (q, s') \<and> run_ok (s', w(c := None)) \<and> undisturbed {} s s'"
proof -
  have st: "stable s" "OSRunning s" "waits_ok (s, w)" "cur_awake (s, w)" using r by (simp_all add: run_ok_def)
  have z: "OSLockNesting s = 0" using st(4) t by (simp add: cur_awake_def)
  have e: "e < length (OSEvents s)" "OSTCBEventPtr (OSTCBTbl s ! c) \<in> {None, Some e}"
    using st(3) t(3) by (simp_all add: waits_ok_def)
  obtain q s' where q: "OSSemPend_end e s = Some (q, s')" "good {c} s s'" "OSTCBEventPtr (OSTCBTbl s' ! c) = None"
    using OSSemPend_end_ok [OF st(1) e(1) t(1) z t(2) e(2), of "{c}"] by blast
  have "run_ok (s', w)" by (rule run_ok_good [OF r q(2)])
  then have "run_ok (s', w(c := None))" using q(3) by (simp add: run_ok_def waits_ok_def cur_awake_def)
  moreover have "undisturbed {} s s'"
    using good_undisturbed [OF q(2)] t(2) by (simp add: undisturbed_def)
  ultimately show ?thesis using q(1) by blast
qed

lemma enter_ok:
  assumes r: "run_ok (s, w)" and n: "OSIntNesting s < 255"
  shows "run_ok (OSIntEnter s, w)" "undisturbed {} s (OSIntEnter s)"
proof -
  have st: "stable s" "OSRunning s" using r by (simp_all add: run_ok_def)
  then have eq: "OSIntEnter s = s\<lparr>OSIntNesting := OSIntNesting s + 1\<rparr>" using n by (simp add: OSIntEnter_def)
  have "unat (OSIntNesting s + 1) = unat (OSIntNesting s) + 1"
    using n by (intro unat_plus_one_word) (simp add: word_less_nat_alt)
  then have "OSIntNesting s + 1 \<noteq> 0" by (auto simp: unat_eq_0 [symmetric])
  then have "highest (OSIntEnter s)" by (simp add: highest_def eq)
  then have "stable (OSIntEnter s)" by (intro stable_cong [OF st(1)]) (simp_all add: eq)
  then show "run_ok (OSIntEnter s, w)" using r by (simp add: run_ok_def waits_ok_def cur_awake_def eq)
  show "undisturbed {} s (OSIntEnter s)" by (simp add: undisturbed_def eq)
qed

lemma exit_ok:
  assumes r: "run_ok (s, w)" and n: "0 < OSIntNesting s"
  shows "\<exists>s'. OSIntExit s = Some s' \<and> run_ok (s', w) \<and> undisturbed {} s s'"
proof -
  have st: "stable s" "OSRunning s" "waits_ok (s, w)" "cur_awake (s, w)" using r by (simp_all add: run_ok_def)
  let ?s = "s\<lparr>OSIntNesting := OSIntNesting s - 1\<rparr>"
  show ?thesis
  proof (cases "OSIntNesting s - 1 = 0 \<and> OSLockNesting s = 0")
    case True
    have s1: "?s = s\<lparr>OSIntNesting := 0, OSLockNesting := 0\<rparr>" using True by simp
    obtain s' where s': "switch_high ?s = Some s'" "switched ?s s'" "stable s'"
      using release_ok [OF st(1) _ _ s1] True by auto
    have "OSIntExit s = Some s'" using True n st(2) s'(1) by (simp add: OSIntExit_def)
    moreover have "run_ok (s', w)"
      by (rule run_ok_switched [OF st(3) _ _ _ _ s'(2,3)]) (use True st(2) in simp_all)
    moreover have "undisturbed {} s s'" by (rule undisturbed_switched [OF s'(2)]) (use True in simp_all)
    ultimately show ?thesis by blast
  next
    case False
    have "highest ?s" using False by (auto simp: highest_def)
    then have "stable ?s" by (intro stable_cong [OF st(1)]) simp_all
    then have "run_ok (?s, w)" using r by (simp add: run_ok_def waits_ok_def cur_awake_def)
    moreover have "OSIntExit s = Some ?s" using False n st(2) by (auto simp: OSIntExit_def Let_def)
    moreover have "undisturbed {} s ?s" by (simp add: undisturbed_def)
    ultimately show ?thesis by blast
  qed
qed

lemma tick_task_step: "OSTickStepState (tick_task i s) = OSTickStepState s"
  by (simp add: tick_task_def upd_tcb_def make_ready_def set_rdy_def Let_def)

lemma tick_loop_step: "tick_loop is s = Some s' \<Longrightarrow> OSTickStepState s' = OSTickStepState s"
  by (induction "is" arbitrary: s) (auto simp: tick_task_step split: if_splits)

lemma OSTimeTick_step:
  assumes "OSTimeTick s = Some s'" "OSTickStepState s = OS_TICK_STEP_DIS"
  shows "OSTickStepState s' = OS_TICK_STEP_DIS"
  using assms by (auto simp: OSTimeTick_def Let_def dest: tick_loop_step split: if_splits)

lemma tick_run_ok:
  assumes r: "run_ok (s, w)" and n: "0 < OSIntNesting s"
  shows "\<exists>s'. OSTimeTick s = Some s' \<and> run_ok (s', w) \<and> OSTCBCur s' = OSTCBCur s \<and> OSTCBList s' = OSTCBList s \<and>
    (\<forall>i\<in>set (OSTCBList s). OSTCBTbl s' ! i =
      (if OSTickStepState s \<noteq> OS_TICK_STEP_WAIT then ticked (OSTCBTbl s ! i) else OSTCBTbl s ! i))"
proof -
  have st: "stable s" "OSRunning s" "waits_ok (s, w)" "cur_awake (s, w)" using r by (simp_all add: run_ok_def)
  have k: "kernel_ok s" "cur_ok s" using st(1) by (simp_all add: stable_def)
  obtain s' where s': "OSTimeTick s = Some s'" and T: "kernel_ok s'" "cur_ok s'" "OSIntNesting s' = OSIntNesting s"
    "OSLockNesting s' = OSLockNesting s" "OSRunning s' = OSRunning s" "OSEvents s' = OSEvents s"
    "OSTCBList s' = OSTCBList s" "OSTCBCur s' = OSTCBCur s"
    and tb: "\<forall>i\<in>set (OSTCBList s). OSTCBTbl s' ! i =
        (if OSRunning s \<and> OSTickStepState s \<noteq> OS_TICK_STEP_WAIT then ticked (OSTCBTbl s ! i) else OSTCBTbl s ! i)"
    using OSTimeTick_ok [OF k] by (elim exE conjE) (rule that)
  have evp: "OSTCBEventPtr (OSTCBTbl s' ! i) = OSTCBEventPtr (OSTCBTbl s ! i)" if "i \<in> set (OSTCBList s)" for i
    using bspec [OF tb that] by (simp add: ticked_def)
  have dly: "OSTCBDly (OSTCBTbl s' ! i) = 0" if "i \<in> set (OSTCBList s)" "OSTCBDly (OSTCBTbl s ! i) = 0" for i
    using bspec [OF tb that(1)] that(2) by (simp add: ticked_def)
  have "stable s'" using T(1-3) n by (auto simp: stable_def highest_def)
  moreover have "waits_ok (s', w)" using st(3) T(6,7) evp by (simp add: waits_ok_def)
  moreover have "cur_awake (s', w)"
  proof -
    obtain c where c: "c \<in> set (OSTCBList s)" "OSTCBCur s = TCB c" using k(2) by (auto simp: cur_ok_def)
    then show ?thesis using st(4) dly [OF c(1)] T(4,8) by (simp add: cur_awake_def)
  qed
  ultimately show ?thesis using s' T(5,7,8) tb st(2) by (simp add: run_ok_def)
qed

lemma call_label:
  assumes r: "run_ok (s, w)" and t: "OSIntNesting s = 0" "OSTCBCur s = TCB c" "w c = None" "prio_of s c \<noteq> 63"
    and e: "e < length (OSEvents s)" and p: "OSSemPend e n s = Some (q, s')"
  shows "run_ok (s', if q = None then w(c := Some e) else w) \<and> undisturbed {} s s'"
proof -
  have st: "stable s" "waits_ok (s, w)" using r by (simp_all add: run_ok_def)
  obtain i where "i \<in> set (OSTCBList s)" "OSTCBCur s = TCB i" using st(1) by (auto simp: stable_def cur_ok_def)
  then have ev: "OSTCBEventPtr (OSTCBTbl s ! c) = None" using st(2) t(2,3) by (simp add: waits_ok_def)
  from OSSemPend_ok [OF st(1) e t(2,4) ev, of n "{}"] show ?thesis
  proof
    assume "\<exists>r s'. OSSemPend e n s = Some (Some r, s') \<and> good {} s s'"
    then show ?thesis using p run_ok_good [OF r] good_undisturbed by auto
  next
    assume "\<exists>s'. OSSemPend e n s = Some (None, s') \<and> switched (block c e OS_STAT_SEM n s) s' \<and> stable s' \<and>
       OSEventType (OSEvents s ! e) = OS_EVENT_TYPE_SEM \<and> OSEventCnt (OSEvents s ! e) = 0 \<and>
       OSIntNesting s = 0 \<and> OSLockNesting s = 0"
    then show ?thesis using p pend_block [OF r t(1,2) e] by auto
  qed
qed

lemma kstep_ok:
  assumes "kstep l st st'" "run_ok st"
  shows "run_ok st' \<and> (l \<noteq> Tick \<longrightarrow> undisturbed (step_targets l (fst st)) (fst st) (fst st'))"
  using assms
proof (induction rule: kstep.induct)
  case (call s c w x s')
  then show ?case using kcall_ok [of s w c x] by auto
next
  case (pend_now s c w e t r s')
  then show ?case using call_label [of s w c e t "Some r" s'] by auto
next
  case (pend_wait s c w e t s')
  then show ?case using call_label [of s w c e t None s'] by auto
next
  case (resumed s c w e r s')
  then show ?case using resumed_ok [of s w c e] by auto
next
  case (enter s w)
  then show ?case using enter_ok [of s w] by auto
next
  case (isr s x e p s' w)
  show ?case
    using call_good [OF isr.prems call_both [OF isr.prems isr.hyps(3,2)]] isr.hyps(4) by auto
next
  case (tick s s' w)
  then show ?case using tick_run_ok [of s w] by auto
next
  case (exit s s' w)
  then show ?case using exit_ok [of s w] by auto
qed

lemma krun_ok:
  assumes "krun ls st st'" "run_ok st"
  shows "run_ok st'"
  using assms by (induction rule: krun.induct) (auto dest: kstep_ok)

section \<open>Delays\<close>

definition asleep :: "nat \<Rightarrow> u8 \<Rightarrow> u32 \<Rightarrow> os \<Rightarrow> bool" where
  "asleep c p d s \<longleftrightarrow> c \<in> set (OSTCBList s) \<and> OSTCBCur s \<noteq> TCB c \<and> OSTickStepState s = OS_TICK_STEP_DIS \<and>
     (let t = OSTCBTbl s ! c
      in OSTCBPrio t = p \<and> OSTCBEventPtr t = None \<and> OSTCBStat t = 0 \<and> OSTCBDly t = d)"

text \<open>The steps that another task or an interrupt may take while the task of priority \<^verbatim>\<open>p\<close> sleeps.\<close>

fun spares :: "u8 \<Rightarrow> klabel \<Rightarrow> bool" where
  "spares p (Call (KDlyResume q)) = (q \<noteq> p)"
| "spares p (Call (KSuspend q)) = (q \<noteq> p)"
| "spares p (Call (KResume q)) = (q \<noteq> p)"
| "spares p (Isr (KDlyResume q)) = (q \<noteq> p)"
| "spares p (Isr (KResume q)) = (q \<noteq> p)"
| "spares p _ = True"

fun ticks :: "klabel list \<Rightarrow> nat" where
  "ticks [] = 0"
| "ticks (l # ls) = (if l = Tick then 1 else 0) + ticks ls"

lemma ticks_append [simp]: "ticks (xs @ ys) = ticks xs + ticks ys"
  by (induction xs) simp_all

lemma asleep_ready:
  assumes "stable s" "asleep c p d s"
  shows "unat p \<in> ready s \<longleftrightarrow> d = 0" "OSTCBPrioTbl s ! unat p = TCB c"
  using tcb_okD [OF kernel_okD(4) [of s c]] assms by (simp_all add: stable_def asleep_def Let_def)

lemma asleep_target:
  assumes r: "run_ok (s, w)" and a: "asleep c p d s" and sp: "spares p l" and k: "kstep l (s, w) st'"
  shows "c \<notin> step_targets l s"
proof -
  have st: "stable s" using r by (simp add: run_ok_def)
  have ko: "kernel_ok s" using st by (simp add: stable_def)
  have c: "c \<in> set (OSTCBList s)" "OSTCBPrio (OSTCBTbl s ! c) = p" "OSTCBCur s \<noteq> TCB c"
    using a by (simp_all add: asleep_def Let_def)
  have uniq: "q = p" if "OSTCBPrioTbl s ! unat q = TCB c" "unat q < 64" for q
  proof -
    have "prio_of s c = unat q" by (rule prio_entry(2) [OF kernel_okD(1) [OF ko] that])
    then show "q = p" using c(2) by (simp add: word_unat_eq_iff)
  qed
  have cur: "OSPrioCur s \<noteq> p \<and> unat (OSPrioCur s) < 64"
  proof -
    obtain i where i: "i \<in> set (OSTCBList s)" "OSTCBCur s = TCB i" "OSPrioCur s = OSTCBPrio (OSTCBTbl s ! i)"
      using st by (auto simp: stable_def cur_ok_def)
    then show ?thesis using prio_inj [OF ko i(1) c(1)] c(2,3) tcb_okD(7) [OF kernel_okD(4) [OF ko i(1)]] by auto
  qed
  show ?thesis
  proof (cases l)
    case (Call x)
    then have v: "valid_call x s" using k by (auto elim: kstepE)
    show ?thesis using v sp uniq cur Call by (cases x) (auto simp: OS_PRIO_SELF_def)
  next
    case (Isr x)
    then have v: "valid_call x s" "x \<in> {KAccept e, KPost e, KDlyResume p, KResume p} \<Longrightarrow> True" for e p
      using k by (auto elim: kstepE)
    show ?thesis using v(1) sp uniq Isr k by (cases x) (auto elim: kstepE)
  qed simp_all
qed

lemma asleep_step:
  assumes r: "run_ok (s, w)" and a: "asleep c p d s" and d: "d \<noteq> 0" and sp: "spares p l"
    and k: "kstep l (s, w) (s', w')"
  shows "asleep c p (if l = Tick then d - 1 else d) s'"
proof (cases "l = Tick")
  case True
  then have n: "0 < OSIntNesting s" and t: "OSTimeTick s = Some s'" using k by (auto elim: kstepE)
  have a': "c \<in> set (OSTCBList s)" "OSTCBCur s \<noteq> TCB c" "OSTickStepState s = OS_TICK_STEP_DIS"
    "OSTCBPrio (OSTCBTbl s ! c) = p" "OSTCBEventPtr (OSTCBTbl s ! c) = None" "OSTCBStat (OSTCBTbl s ! c) = 0"
    "OSTCBDly (OSTCBTbl s ! c) = d"
    using a by (simp_all add: asleep_def Let_def)
  have T: "OSTCBCur s' = OSTCBCur s" "OSTCBList s' = OSTCBList s" "OSTCBTbl s' ! c = ticked (OSTCBTbl s ! c)"
    using tick_run_ok [OF r n] t a'(1,3) by (simp_all add: OS_TICK_STEP_DIS_def OS_TICK_STEP_WAIT_def)
  show ?thesis
    using a' d T OSTimeTick_step [OF t a'(3)] True by (simp add: asleep_def Let_def ticked_def)
next
  case False
  have c: "c \<in> set (OSTCBList s)" "OSTCBCur s \<noteq> TCB c" "OSTCBEventPtr (OSTCBTbl s ! c) = None"
    using a by (simp_all add: asleep_def Let_def)
  have S: "run_ok (s', w')" "undisturbed (step_targets l s) s s'" using kstep_ok [OF k r] False by simp_all
  have same: "c \<in> set (OSTCBList s')" "same_tcb (OSTCBTbl s ! c) (OSTCBTbl s' ! c)" "OSTickStepState s' = OSTickStepState s"
    using S(2) c asleep_target [OF r a sp k] by (simp_all add: undisturbed_def)
  have st': "stable s'" using S(1) by (simp add: run_ok_def)
  have nr: "prio_of s' c \<notin> ready s'"
    using tcb_okD(4) [OF kernel_okD(4) [OF _ same(1)]] st' same_tcbD(4) [OF same(2)] a d
    by (simp add: stable_def asleep_def Let_def)
  have "OSTCBCur s' \<noteq> TCB c"
  proof
    assume i: "OSTCBCur s' = TCB c"
    then have "OSIntNesting s' = 0 \<and> OSLockNesting s' = 0" using S(2) c(2) by (auto simp: undisturbed_def)
    then show False using current_ready(3) [OF st' _ _ i] nr by blast
  qed
  then show ?thesis
    using a same(1,3) same_tcbD [OF same(2)] False by (simp add: asleep_def Let_def)
qed

lemma ticks_left:
  assumes "k < unat (n :: u32)"
  shows "n - of_nat k \<noteq> 0"
proof
  assume "n - of_nat k = 0"
  then have "unat n = take_bit LENGTH(32) k" by (auto simp: unsigned_of_nat)
  then show False using assms take_bit_nat_less_eq_self [of 32 k] by simp
qed

lemma asleep_run:
  assumes "krun ls st st'" "run_ok st" "asleep c p n (fst st)" "\<forall>l\<in>set ls. spares p l"
  shows "(ticks ls < unat n \<longrightarrow> asleep c p (n - of_nat (ticks ls)) (fst st')) \<and>
    (ticks ls = unat n \<and> ls \<noteq> [] \<and> last ls = Tick \<longrightarrow> asleep c p 0 (fst st'))"
  using assms
proof (induction rule: krun.induct)
  case (nil st)
  then show ?case by simp
next
  case (snoc ls st st1 l st2)
  have r: "run_ok st1" by (rule krun_ok [OF snoc.hyps(1) snoc.prems(1)])
  obtain s w where s: "st1 = (s, w)" by (cases st1)
  obtain s' w' where s': "st2 = (s', w')" by (cases st2)
  have sp: "spares p l" "\<forall>l\<in>set ls. spares p l" using snoc.prems(3) by simp_all
  have step: "asleep c p (if l = Tick then d - 1 else d) s'" if "asleep c p d s" "d \<noteq> 0" for d
    using asleep_step [of s w c p d l s' w'] r that sp(1) snoc.hyps(2) by (simp add: s s')
  have IH: "asleep c p (n - of_nat (ticks ls)) s" "n - of_nat (ticks ls) \<noteq> 0" if "ticks ls < unat n"
  proof -
    show "asleep c p (n - of_nat (ticks ls)) s" using snoc.IH [OF snoc.prems(1,2) sp(2)] that s by simp
    show "n - of_nat (ticks ls) \<noteq> 0" by (rule ticks_left [OF that])
  qed
  show ?case
  proof (cases "l = Tick")
    case True
    have *: "asleep c p (n - of_nat (ticks ls + 1)) s'" if "ticks ls < unat n"
      using step [OF IH(1) IH(2)] that True by (simp add: diff_diff_eq add.commute)
    have "n - of_nat (ticks ls + 1) = 0" if "ticks ls + 1 = unat n"
    proof -
      have "of_nat (ticks ls + 1) = n" unfolding that by simp
      then show ?thesis by (simp only: diff_self)
    qed
    then have "asleep c p 0 s'" if "ticks ls + 1 = unat n" using * that by (metis less_add_one)
    then show ?thesis using True s' * by simp
  next
    case False
    then show ?thesis using step [OF IH(1) IH(2)] s' by auto
  qed
qed

section \<open>Before the start\<close>

text \<open>What \<^verbatim>\<open>main\<close> may do between \<^verbatim>\<open>OSInit\<close> and \<^verbatim>\<open>OSStart\<close>: create tasks, semaphores and queues.\<close>

definition event_taken :: "nat \<Rightarrow> nat list \<Rightarrow> os_event \<Rightarrow> os \<Rightarrow> os" where
  "event_taken e free ev s = s\<lparr>OSEvents := (OSEvents s)[e := set_wait map_empty ev], OSEventFreeList := free\<rparr>"

inductive configured :: "os \<Rightarrow> bool" where
  init: "OSTickStepState s0 = OS_TICK_STEP_DIS \<Longrightarrow> OSInit psp_idle psp_stat s0 = Some s \<Longrightarrow> configured s"
| task: "configured s \<Longrightarrow> unat p < 64 \<Longrightarrow> OSTaskCreate psp p s = Some (r, s') \<Longrightarrow> configured s'"
| event: "configured s \<Longrightarrow> OSEventFreeList s = e # free \<Longrightarrow> configured (event_taken e free ev s)"

definition reachable :: "kstate \<Rightarrow> bool" where
  "reachable st \<longleftrightarrow> (\<exists>s ls. configured s \<and> krun ls (OSStart s, \<lambda>_. None) st)"

definition idle_os :: "os \<Rightarrow> bool" where
  "idle_os s \<longleftrightarrow> kernel_ok s \<and> \<not> OSRunning s \<and> OSIntNesting s = 0 \<and> OSTickStepState s = OS_TICK_STEP_DIS \<and>
     (\<forall>i\<in>set (OSTCBList s). OSTCBEventPtr (OSTCBTbl s ! i) = None \<and> OSTCBDly (OSTCBTbl s ! i) = 0)"

lemma created_idle:
  assumes s: "idle_os s" and f: "OSTCBFreeList s = i # free" and k: "kernel_ok (created i free (new_tcb p a b c d) s)"
  shows "idle_os (created i free (new_tcb p a b c d) s)"
proof -
  have il: "i \<notin> set (OSTCBList s)" "i < length (OSTCBTbl s)" using free_task [OF _ f] s by (simp_all add: idle_os_def kernel_okD)
  have "(OSTCBTbl s)[i := t] ! j = OSTCBTbl s ! j" if "j \<in> set (OSTCBList s)" for j t
    using that il(1) by (metis nth_list_update_neq)
  then show ?thesis using s k il(2) by (simp add: idle_os_def created_def Let_def new_tcb_def)
qed

lemma cleared_idle: "OSTickStepState s = OS_TICK_STEP_DIS \<Longrightarrow> OSTickStepState (booted a b s) = OS_TICK_STEP_DIS"
  by (simp add: booted_def created_def Let_def cleared_def os_init_defs)

lemma event_taken_idle:
  assumes s: "idle_os s" and f: "OSEventFreeList s = e # free"
  shows "idle_os (event_taken e free ev s)"
proof -
  have k: "kernel_ok s" using s by (simp add: idle_os_def)
  note E = first_free_event [OF k f]
  have "kernel_ok (event_taken e free ev s)"
    unfolding event_taken_def
  proof (rule event_replace_ok [OF k E(1,7)])
    show "event_ok (set_wait map_empty ev)" by (simp add: event_ok_def)
    show "\<forall>d\<in>set free. OSEventType ((OSEvents s)[e := set_wait map_empty ev] ! d) = OS_EVENT_TYPE_UNUSED"
      using E(3,6) nth_list_update_neq by metis
  qed (use E in auto)
  then show ?thesis using s by (simp add: idle_os_def event_taken_def)
qed

lemma configured_idle: "configured s \<Longrightarrow> idle_os s"
proof (induction rule: configured.induct)
  case (init s0 a b s)
  have s: "s = booted a b s0" using booted_ok(1) [of a b s0] init(2) by simp
  have "kernel_ok s" "OSTickStepState s = OS_TICK_STEP_DIS"
    using booted_ok(2) [of a b s0] cleared_idle [OF init(1)] s by simp_all
  then show ?case
    by (simp add: idle_os_def s booted_def created_def Let_def cleared_def os_init_defs new_tcb_def upt_conv_Cons)
next
  case (task s p psp r s')
  have k: "kernel_ok s" "OSIntNesting s = 0" "\<not> OSRunning s" using task.IH by (simp_all add: idle_os_def)
  consider "OSTCBPrioTbl s ! unat p \<noteq> NULL" | "OSTCBPrioTbl s ! unat p = NULL" "OSTCBFreeList s = []"
    | i free where "OSTCBPrioTbl s ! unat p = NULL" "OSTCBFreeList s = i # free" by (cases "OSTCBFreeList s") auto
  then show ?case
  proof cases
    case 1
    then show ?thesis using task k by (simp add: OSTaskCreate_def)
  next
    case 2
    have "(OSTCBPrioTbl s)[unat p := NULL] = OSTCBPrioTbl s" using 2(1) by (metis list_update_id)
    then have "OSTaskCreate psp p s = Some (OS_ERR_TASK_NO_MORE_TCB, s)"
      using 2 k by (simp add: OSTaskCreate_def OS_TCBInit_def OS_ERR_TASK_NO_MORE_TCB_def OS_ERR_NONE_def)
    then show ?thesis using task by simp
  next
    case 3
    note C = OSTaskCreate_boot [OF k task.hyps(2) 3, of psp]
    then show ?thesis using task.hyps(3) created_idle [OF task.IH 3(2) C(2)] by simp
  qed
next
  case (event s e free ev)
  show ?case by (rule event_taken_idle [OF event.IH event.hyps(2)])
qed

lemma OSSemCreate_configured:
  assumes "configured s" shows "configured (snd (OSSemCreate cnt s))"
proof (cases "OSEventFreeList s")
  case Nil
  then show ?thesis using assms by (simp add: OSSemCreate_def)
next
  case (Cons e free)
  have i: "OSIntNesting s = 0" "kernel_ok s" using configured_idle [OF assms] by (simp_all add: idle_os_def)
  have "snd (OSSemCreate cnt s) = event_taken e free ((OSEvents s ! e)\<lparr>OSEventType := OS_EVENT_TYPE_SEM, OSEventCnt := cnt, OSEventPtr := 0\<rparr>) s"
    using i(1) Cons first_free_event(1) [OF i(2) Cons]
    by (simp add: OSSemCreate_def OS_EventWaitListInit_def upd_event_def Let_def map_empty_def event_taken_def)
  then show ?thesis using configured.event [OF assms Cons] by simp
qed

lemma started_ok: "configured s \<Longrightarrow> run_ok (OSStart s, \<lambda>_. None)"
proof -
  assume "configured s"
  then have s: "idle_os s" by (rule configured_idle)
  have k: "kernel_ok s" "\<not> OSRunning s" using s by (simp_all add: idle_os_def)
  note S = OSStart_stable [OF k]
  note W = switchedD [OF S(3)]
  have tb: "same_tcb (OSTCBTbl s ! j) (OSTCBTbl (OSStart s) ! j)" for j using W(14) [of j] by simp
  have i: "OSTCBEventPtr (OSTCBTbl s ! j) = None" "OSTCBDly (OSTCBTbl s ! j) = 0" if "j \<in> set (OSTCBList s)" for j
    using s that by (simp_all add: idle_os_def)
  have "waits_ok (OSStart s, \<lambda>_. None)"
    using W(4) i same_tcbD(1) [OF tb] by (simp add: waits_ok_def)
  moreover have "cur_awake (OSStart s, \<lambda>_. None)"
  proof -
    obtain c where "c \<in> set (OSTCBList s)" "OSTCBCur (OSStart s) = TCB c"
      using S(1) W(4) by (auto simp: stable_def cur_ok_def)
    then show ?thesis using i same_tcbD(4) [OF tb] by (simp add: cur_awake_def)
  qed
  ultimately show ?thesis using S(1,2) by (simp add: run_ok_def)
qed

lemma krun_dis:
  assumes "krun ls st st'" "run_ok st" "OSTickStepState (fst st) = OS_TICK_STEP_DIS"
  shows "OSTickStepState (fst st') = OS_TICK_STEP_DIS"
  using assms
proof (induction rule: krun.induct)
  case (nil st)
  then show ?case by simp
next
  case (snoc ls st st1 l st2)
  have r: "run_ok st1" by (rule krun_ok [OF snoc.hyps(1) snoc.prems(1)])
  show ?case
  proof (cases "l = Tick")
    case True
    then show ?thesis using snoc.hyps(2) snoc.IH [OF snoc.prems] OSTimeTick_step by (auto elim: kstepE)
  next
    case False
    then show ?thesis using kstep_ok [OF snoc.hyps(2) r] snoc.IH [OF snoc.prems] by (simp add: undisturbed_def)
  qed
qed

lemma reachable_ok:
  assumes "reachable st"
  shows "run_ok st" "OSTickStepState (fst st) = OS_TICK_STEP_DIS"
proof -
  obtain s ls where s: "configured s" "krun ls (OSStart s, \<lambda>_. None) st" using assms by (auto simp: reachable_def)
  have i: "idle_os s" by (rule configured_idle [OF s(1)])
  have "OSTickStepState (OSStart s) = OS_TICK_STEP_DIS"
    using switchedD(12) [OF OSStart_stable(3)] i by (simp add: idle_os_def)
  then show "run_ok st" "OSTickStepState (fst st) = OS_TICK_STEP_DIS"
    using krun_ok [OF s(2) started_ok [OF s(1)]] krun_dis [OF s(2) started_ok [OF s(1)]] by simp_all
qed

end
