(* ===== verification/Os_Wake.thy ===== *)
theory Os_Wake
  imports Os_Tasks
begin

text \<open>
  What posting to an event for which tasks wait does, for any kind of event: the waiting task of
  highest priority gets the message, and the scheduler runs it if it may.
\<close>

lemma wake_sched:
  assumes st: "stable s" and e: "e < length (OSEvents s)" and w: "waits s e \<noteq> {}"
    and msk: "msk = pend_bit (OSEventType (OSEvents s ! e))"
  obtains i p s' where "OS_EventTaskRdy e m msk ps s = Some (p, wake i e m msk ps s)"
    "OS_Sched (wake i e m msk ps s) = Some s'" "switched (wake i e m msk ps s) s'" "good X s s'"
    "i \<in> set (OSTCBList s)" "prio_of s i = Min (waits s e)" "prio_of s i \<in> waits s e"
proof -
  have k: "kernel_ok s" "cur_ok s" using st by (simp_all add: stable_def)
  obtain i where i: "OSTCBPrioTbl s ! unat (map_top (wait_map (OSEvents s ! e))) = TCB i" "i \<in> set (OSTCBList s)"
    "prio_of s i = Min (waits s e)" "prio_of s i \<in> waits s e"
    using first_waiting [OF k(1) e w] by metis
  note W = wake_ok [OF k(1) e i(2,4) msk, of m ps]
  have c: "cur_ok (wake i e m msk ps s)" by (rule touches_cur [OF k(2) W(2)]) simp_all
  obtain s' where "OS_Sched (wake i e m msk ps s) = Some s'" "good X s s'" "switched (wake i e m msk ps s) s'"
    using good_sched [OF W(1) c wake_quiet [OF k(1) e i(2,4) msk]] by auto
  then show thesis using that OS_EventTaskRdy_eq [OF k(1) e w i(1)] i by blast
qed

lemma prio_task_unique:
  assumes "kernel_ok s" "cur_ok s" "unat (OSPrioCur s) < 64" "OSTCBPrioTbl s ! unat (OSPrioCur s) = TCB i"
  shows "OSTCBCur s = TCB i"
proof -
  obtain c where c: "c \<in> set (OSTCBList s)" "OSTCBCur s = TCB c" "OSPrioCur s = OSTCBPrio (OSTCBTbl s ! c)"
    using assms(2) by (auto simp: cur_ok_def)
  then show ?thesis using tcb_okD(2) [OF kernel_okD(4) [OF assms(1) c(1)]] assms(4) by simp
qed

lemma wake_effect:
  assumes st: "stable s" and e: "e < length (OSEvents s)" and msk: "msk = pend_bit (OSEventType (OSEvents s ! e))"
    and i: "i \<in> set (OSTCBList s)" "prio_of s i = Min (waits s e)" "prio_of s i \<in> waits s e"
    and sw: "switched (wake i e m msk ps s) s'" and st': "stable s'"
  shows "OSTCBPrioTbl s ! Min (waits s e) = TCB i" "OSTCBEventPtr (OSTCBTbl s ! i) = Some e"
    "OSTCBEventPtr (OSTCBTbl s' ! i) = None" "OSTCBStatPend (OSTCBTbl s' ! i) = ps" "OSTCBMsg (OSTCBTbl s' ! i) = m"
    "waits s' e = waits s e - {Min (waits s e)}" "OSEventCnt (OSEvents s' ! e) = OSEventCnt (OSEvents s ! e)"
    "\<forall>j. j \<noteq> i \<longrightarrow> same_tcb (OSTCBTbl s ! j) (OSTCBTbl s' ! j)"
    "OSIntNesting s = 0 \<and> OSLockNesting s = 0 \<and> OSTCBStat (OSTCBTbl s ! i) AND OS_STAT_SUSPEND = 0 \<and>
       Min (waits s e) < unat (OSPrioCur s) \<longrightarrow> OSTCBCur s' = TCB i"
proof -
  have k: "kernel_ok s" using st by (simp add: stable_def)
  let ?s = "wake i e m msk ps s"
  note S = switchedD [OF sw]
  note W = wake_ok [OF k e i(1,3) msk, of m ps]
  have tb: "same_tcb (OSTCBTbl ?s ! j) (OSTCBTbl s' ! j)" for j by (rule S(14))
  show tbl: "OSTCBPrioTbl s ! Min (waits s e) = TCB i" using tcb_okD(2) [OF kernel_okD(4) [OF k i(1)]] i(2) by simp
  show "OSTCBEventPtr (OSTCBTbl s ! i) = Some e" by (rule waiting_task(1) [OF k e i(1,3)])
  show "OSTCBEventPtr (OSTCBTbl s' ! i) = None" "OSTCBStatPend (OSTCBTbl s' ! i) = ps" "OSTCBMsg (OSTCBTbl s' ! i) = m"
    using same_tcbD(1,3,6) [OF tb [of i]] W(3) by (simp_all add: woken_def)
  show "waits s' e = waits s e - {Min (waits s e)}" using S(6) W(4) i(2) by simp
  show "OSEventCnt (OSEvents s' ! e) = OSEventCnt (OSEvents s ! e)" using S(6) e by (simp add: wake_def Let_def set_wait_def)
  show "\<forall>j. j \<noteq> i \<longrightarrow> same_tcb (OSTCBTbl s ! j) (OSTCBTbl s' ! j)"
  proof (intro allI impI)
    fix j assume "j \<noteq> i"
    then show "same_tcb (OSTCBTbl s ! j) (OSTCBTbl s' ! j)" using tb [of j] by simp
  qed
  show "OSIntNesting s = 0 \<and> OSLockNesting s = 0 \<and> OSTCBStat (OSTCBTbl s ! i) AND OS_STAT_SUSPEND = 0 \<and>
       Min (waits s e) < unat (OSPrioCur s) \<longrightarrow> OSTCBCur s' = TCB i"
  proof
    assume z: "OSIntNesting s = 0 \<and> OSLockNesting s = 0 \<and> OSTCBStat (OSTCBTbl s ! i) AND OS_STAT_SUSPEND = 0 \<and>
       Min (waits s e) < unat (OSPrioCur s)"
    have rd: "ready s' = insert (prio_of s i) (ready s)" using S(1,2) W(5) z by simp
    have "Min (ready s) = unat (OSPrioCur s)" using st z by (simp add: stable_def highest_def)
    then have "Min (ready s') = prio_of s i"
      using z i(2) ready_nonempty [OF k] unfolding rd by (subst Min_insert) auto
    moreover have "unat (OSPrioCur s') = Min (ready s')" using st' z S(8,9) by (simp add: stable_def highest_def)
    ultimately have p: "unat (OSPrioCur s') = Min (waits s e)" using i(2) by simp
    have "OSTCBPrioTbl s' ! unat (OSPrioCur s') = TCB i" using p tbl S(3) by simp
    moreover have "unat (OSPrioCur s') < 64" using p i(2) tcb_okD(7) [OF kernel_okD(4) [OF k i(1)]] by simp
    ultimately show "OSTCBCur s' = TCB i" using st' by (intro prio_task_unique) (simp_all add: stable_def)
  qed
qed

end
