(* ===== verification/Os_Sizes.thy ===== *)
theory Os_Sizes
  imports Os_Run
begin

text \<open>
  No call of uC/OS-II changes the number of task control blocks or of events: the two tables keep
  the sizes that \<^verbatim>\<open>OS_InitTCBList\<close> and \<^verbatim>\<open>OS_InitEventList\<close> give them, 22 and 30.
\<close>

definition sizes :: "os \<Rightarrow> nat \<times> nat" where
  "sizes s = (length (OSTCBTbl s), length (OSEvents s))"

section \<open>The routines of the core\<close>

lemma sizes_upd [simp]:
  "sizes (upd_tcb i f s) = sizes s" "sizes (upd_event e g s) = sizes s" "sizes (set_rdy m s) = sizes s"
  "sizes (make_ready i s) = sizes s" "sizes (make_unready i s) = sizes s" "sizes (OSCtxSw s) = sizes s"
  "sizes (OS_SchedNew s) = sizes s" "sizes (OSSchedLock s) = sizes s" "sizes (OSIntEnter s) = sizes s"
  "sizes (OSStart s) = sizes s" "sizes (OSTimeSet t s) = sizes s"
  "sizes (OS_EventTaskRemove i e s) = sizes s" "sizes (OS_EventWaitListInit e s) = sizes s"
  "sizes (free_event e s) = sizes s" "sizes (tick_task i s) = sizes s"
  by (simp_all add: sizes_def upd_tcb_def upd_event_def set_rdy_def make_ready_def make_unready_def OSCtxSw_def
      OS_SchedNew_def OSSchedLock_def OSIntEnter_def OSStart_def OSTimeSet_def OS_EventTaskRemove_def
      OS_EventWaitListInit_def free_event_def tick_task_def Let_def)

lemma sizes_fields [simp]:
  "sizes (s\<lparr>OSTCBHighRdy := a\<rparr>) = sizes s" "sizes (s\<lparr>OSCtxSwCtr := b\<rparr>) = sizes s"
  "sizes (s\<lparr>OSIntNesting := c\<rparr>) = sizes s" "sizes (s\<lparr>OSLockNesting := d\<rparr>) = sizes s"
  "sizes (s\<lparr>OSTime := f\<rparr>) = sizes s" "sizes (s\<lparr>OSTickStepState := g\<rparr>) = sizes s"
  "sizes (s\<lparr>OSTCBPrioTbl := h\<rparr>) = sizes s" "sizes (s\<lparr>OSTCBList := i\<rparr>) = sizes s"
  "sizes (s\<lparr>OSTCBFreeList := j\<rparr>) = sizes s" "sizes (s\<lparr>OSTaskCtr := k\<rparr>) = sizes s"
  "sizes (s\<lparr>OSEventFreeList := l\<rparr>) = sizes s"
  by (simp_all add: sizes_def)

lemma sizes_multi [simp]: "sizes (OS_EventTaskRemoveMulti i es s) = sizes s"
  by (induction es arbitrary: s) (simp_all add: Let_def)

lemma sizes_switch: "switch_high s = Some s' \<Longrightarrow> sizes s' = sizes s"
  by (auto simp: switch_high_def Let_def split: if_splits bind_splits)

lemma sizes_sched: "OS_Sched s = Some s' \<Longrightarrow> sizes s' = sizes s"
  by (auto simp: OS_Sched_def dest: sizes_switch split: if_splits)

lemma sizes_exit: "OSIntExit s = Some s' \<Longrightarrow> sizes s' = sizes s"
  by (auto simp: OSIntExit_def Let_def dest: sizes_switch split: if_splits)

lemma sizes_unlock: "OSSchedUnlock s = Some s' \<Longrightarrow> sizes s' = sizes s"
  by (auto simp: OSSchedUnlock_def Let_def dest: sizes_sched split: if_splits)

lemma sizes_wait: "OS_EventTaskWait e s = Some s' \<Longrightarrow> sizes s' = sizes s"
  by (auto simp: OS_EventTaskWait_def Let_def split: bind_splits)

lemma sizes_rdy: "OS_EventTaskRdy e m msk st s = Some (p, s') \<Longrightarrow> sizes s' = sizes s"
  by (auto simp: OS_EventTaskRdy_def Let_def split: bind_splits option.splits if_splits)

lemma sizes_ready_all: "ready_all e m msk st n s = Some (k, s') \<Longrightarrow> sizes s' = sizes s"
proof -
  have "sizes (snd r) = sizes s" if "ready_all e m msk st n s = Some r" for r
  proof (rule ready_all.raw_induct [OF _ that])
    fix ra e m msk st n s r
    assume IH: "\<And>e m msk st n s r. ra e m msk st n s = Some r \<Longrightarrow> sizes (snd r) = sizes s"
      and r: "(if OSEventGrp (OSEvents s ! e) \<noteq> 0
         then case OS_EventTaskRdy e m msk st s of None \<Rightarrow> None | Some r \<Rightarrow> ra e m msk st (n + 1) (snd r)
         else Some (n, s)) = Some r"
    then show "sizes (snd r) = sizes s"
      by (auto split: if_splits option.splits dest!: sizes_rdy)
  qed
  then show "ready_all e m msk st n s = Some (k, s') \<Longrightarrow> sizes s' = sizes s" by fastforce
qed

lemma sizes_tick_loop: "tick_loop is s = Some s' \<Longrightarrow> sizes s' = sizes s"
  by (induction "is" arbitrary: s) (auto split: if_splits)

lemma sizes_tick: "OSTimeTick s = Some s' \<Longrightarrow> sizes s' = sizes s"
  by (auto simp: OSTimeTick_def Let_def dest: sizes_tick_loop split: if_splits)

lemma sizes_tcb_init: "OS_TCBInit p q a b c s = (r, s') \<Longrightarrow> sizes s' = sizes s"
  by (auto simp: OS_TCBInit_def Let_def split: list.splits)

section \<open>The calls\<close>

lemma sizes_dly: "OSTimeDly n s = Some s' \<Longrightarrow> sizes s' = sizes s"
  by (auto simp: OSTimeDly_def Let_def dest: sizes_sched split: if_splits bind_splits)

lemma sizes_create: "OSTaskCreate psp p s = Some (r, s') \<Longrightarrow> sizes s' = sizes s"
  by (auto simp: OSTaskCreate_def Let_def dest!: sizes_sched sizes_tcb_init split: if_splits bind_splits prod.splits)

lemma sizes_create_ext: "OSTaskCreateExt psp p a b c s = Some (r, s') \<Longrightarrow> sizes s' = sizes s"
  by (auto simp: OSTaskCreateExt_def Let_def dest!: sizes_sched sizes_tcb_init split: if_splits bind_splits prod.splits)

lemma sizes_pend: "OSSemPend e n s = Some (r, s') \<Longrightarrow> sizes s' = sizes s"
  by (auto simp: OSSemPend_def Let_def dest!: sizes_sched sizes_wait split: if_splits bind_splits)

lemma sizes_pend_end: "OSSemPend_end e s = Some (r, s') \<Longrightarrow> sizes s' = sizes s"
  by (auto simp: OSSemPend_end_def Let_def split: if_splits bind_splits prod.splits)

lemma sizes_post: "OSSemPost e s = Some (r, s') \<Longrightarrow> sizes s' = sizes s"
  by (auto simp: OSSemPost_def dest!: sizes_sched sizes_rdy split: if_splits bind_splits)

lemma sizes_abort: "OSSemPendAbort e opt s = Some (n, r, s') \<Longrightarrow> sizes s' = sizes s"
  by (auto simp: OSSemPendAbort_def dest!: sizes_sched sizes_rdy sizes_ready_all split: if_splits bind_splits)

lemma sizes_del: "OSSemDel e opt s = Some (n, r, s') \<Longrightarrow> sizes s' = sizes s"
  by (auto simp: OSSemDel_def Let_def dest!: sizes_sched sizes_ready_all split: if_splits bind_splits)

lemma sizes_call: "kcall_run x s = Some s' \<Longrightarrow> sizes s' = sizes s"
proof (cases x)
  case (KAccept e)
  moreover assume "kcall_run x s = Some s'"
  ultimately show ?thesis by (auto simp: OSSemAccept_def Let_def)
next
  case (KSet e c)
  moreover assume "kcall_run x s = Some s'"
  ultimately show ?thesis by (auto simp: OSSemSet_def Let_def)
next
  case (KCreate c)
  moreover assume "kcall_run x s = Some s'"
  ultimately show ?thesis by (auto simp: OSSemCreate_def Let_def split: list.splits)
next
  case (KDlyHMSM h m sec ms)
  moreover assume "kcall_run x s = Some s'"
  ultimately show ?thesis by (auto simp: OSTimeDlyHMSM_def Let_def dest: sizes_dly split: if_splits bind_splits)
next
  case (KDlyResume p)
  moreover assume "kcall_run x s = Some s'"
  ultimately show ?thesis
    by (auto simp: OSTimeDlyResume_def Let_def dest!: sizes_sched split: if_splits bind_splits tcb_ptr.splits)
next
  case (KSuspend p)
  moreover assume "kcall_run x s = Some s'"
  ultimately show ?thesis
    by (auto simp: OSTaskSuspend_def Let_def dest!: sizes_sched split: if_splits bind_splits tcb_ptr.splits prod.splits)
next
  case (KResume p)
  moreover assume "kcall_run x s = Some s'"
  ultimately show ?thesis
    by (auto simp: OSTaskResume_def Let_def dest!: sizes_sched split: if_splits bind_splits tcb_ptr.splits)
qed (auto dest: sizes_post sizes_abort sizes_del sizes_dly sizes_unlock sizes_create)

section \<open>Runs\<close>

lemma sizes_step: "kstep l st st' \<Longrightarrow> sizes (fst st') = sizes (fst st)"
  by (induction rule: kstep.induct) (auto dest: sizes_call sizes_pend sizes_pend_end sizes_tick sizes_exit)

lemma sizes_run: "krun ls st st' \<Longrightarrow> sizes (fst st') = sizes (fst st)"
  by (induction rule: krun.induct) (auto dest: sizes_step)

lemma sizes_init: "OSInit a b s = Some s' \<Longrightarrow> sizes s' = (22, 30)"
proof -
  have "sizes (OS_InitEventList (OS_InitTCBList (OS_InitRdyList (OS_InitMisc s)))) = (22, 30)"
    by (simp add: sizes_def os_init_defs)
  then show "OSInit a b s = Some s' \<Longrightarrow> sizes s' = (22, 30)"
    by (auto simp: OSInit_def OS_InitTaskIdle_def OS_InitTaskStat_def dest!: sizes_create_ext split: bind_splits)
qed

lemma sizes_configured: "configured s \<Longrightarrow> sizes s = (22, 30)"
  by (induction rule: configured.induct)
     (auto dest: sizes_init sizes_create simp: event_taken_def sizes_def)

lemma sizes_reachable:
  assumes "reachable (s, w)"
  shows "length (OSTCBTbl s) = 22" "length (OSEvents s) = 30"
proof -
  obtain s0 ls where "configured s0" "krun ls (OSStart s0, \<lambda>_. None) (s, w)"
    using assms by (auto simp: reachable_def)
  then have "sizes s = (22, 30)" using sizes_run sizes_configured by fastforce
  then show "length (OSTCBTbl s) = 22" "length (OSEvents s) = 30" by (simp_all add: sizes_def)
qed

end
