(* ===== verification/Os_Props.thy ===== *)
theory Os_Props
  imports Os_Sizes Os_Wake
begin

text \<open>What the scheduler, the semaphores and the delays of uC/OS-II promise.\<close>

section \<open>The scheduler\<close>

lemma find_Min:
  assumes "\<And>p. P p \<Longrightarrow> p < n" "\<exists>p. P p"
  shows "find P [0..<n] = Some (Min {p. P p})"
proof -
  have fin: "finite {p. P p}" by (rule finite_subset [of _ "{..<n}"]) (use assms(1) in auto)
  have m: "P (Min {p. P p})" using Min_in [OF fin] assms(2) by blast
  have "\<not> P j" if "j < Min {p. P p}" for j using Min_le [OF fin, of j] that by (metis mem_Collect_eq not_le)
  then show ?thesis
    unfolding find_Some_iff using m assms(1) [OF m] by (intro exI [where x = "Min {p. P p}"]) simp
qed

text \<open>C35: The two table lookups of OS_SchedNew give the same priority as a linear search for the
  first ready one.\<close>

theorem OS_SchedNew_highest:
  assumes "map_ok (rdy_map s)" "OSRdyGrp s \<noteq> 0"
  shows "find (\<lambda>p. p < 64 \<and> bit (OSRdyTbl s ! (p div 8)) (p mod 8)) [0..<64] =
    Some (unat (OSPrioHighRdy (OS_SchedNew s)))"
proof -
  have ne: "ready s \<noteq> {}" using prios_empty_iff [OF assms(1)] assms(2) by simp
  have "find (\<lambda>p. p \<in> ready s) [0..<64] = Some (Min {p. p \<in> ready s})"
    using ne by (intro find_Min) (auto simp: prios_def)
  moreover have "OSPrioHighRdy (OS_SchedNew s) = map_top (rdy_map s)" by (simp add: OS_SchedNew_def)
  ultimately show ?thesis using map_top_Min(1) [OF assms(1) ne] by (simp add: prios_def)
qed

text \<open>The storage before \<^verbatim>\<open>OSInit\<close>.\<close>

definition os_zero :: os where
  "os_zero = \<lparr>OSRdyGrp = 0, OSRdyTbl = replicate 8 0, OSTCBPrioTbl = replicate 64 NULL,
     OSTCBTbl = replicate (OS_MAX_TASKS + OS_N_SYS_TASKS) clear_tcb, OSTCBList = [], OSTCBFreeList = [],
     OSEvents = replicate OS_MAX_EVENTS clear_event, OSEventFreeList = [], OSPrioCur = 0,
     OSPrioHighRdy = 0, OSTCBCur = NULL, OSTCBHighRdy = NULL, OSIntNesting = 0, OSLockNesting = 0, OSRunning = False,
     OSTickStepState = 0, OSTime = 0, OSCtxSwCtr = 0, OSTaskCtr = 0\<rparr>"

abbreviation os_boot :: os where
  "os_boot \<equiv> booted 0 0 os_zero"

lemma configured_boot: "configured os_boot"
  by (rule configured.init [OF _ booted_ok(1)]) (simp add: os_zero_def OS_TICK_STEP_DIS_def)

lemma reachable_boot: "reachable (OSStart os_boot, \<lambda>_. None)"
  unfolding reachable_def using configured_boot krun.nil by blast

theorem OS_SchedNew_highest_witness:
  "find (\<lambda>p. p < 64 \<and> bit (OSRdyTbl os_boot ! (p div 8)) (p mod 8)) [0..<64] =
    Some (unat (OSPrioHighRdy (OS_SchedNew os_boot)))"
proof (rule OS_SchedNew_highest)
  have k: "kernel_ok os_boot" by (rule booted_ok(2))
  show m: "map_ok (rdy_map os_boot)" by (rule kernel_okD(2) [OF k])
  show "OSRdyGrp os_boot \<noteq> 0" using prios_empty_iff [OF m] ready_nonempty [OF k] by auto
qed

section \<open>Reachable states\<close>

text \<open>C2: In every state a run of the kernel reaches from OSInit, the creation of tasks, semaphores
  and queues, and OSStart by task calls, waits, nested interrupts and ticks: outside interrupts
  and scheduler locks the current task is ready and of the highest priority among the ready ones;
  the ready and waiting bitmaps agree with the state of every task; and no task waits for a
  semaphore whose count is positive.\<close>

theorem kernel_invariant:
  assumes "reachable (s, w)"
  shows "(OSIntNesting s = 0 \<and> OSLockNesting s = 0 \<longrightarrow>
       (\<exists>c\<in>set (OSTCBList s). OSTCBCur s = TCB c \<and> OSTCBStat (OSTCBTbl s ! c) = 0 \<and> OSTCBDly (OSTCBTbl s ! c) = 0 \<and>
          (\<forall>j\<in>set (OSTCBList s). OSTCBStat (OSTCBTbl s ! j) = 0 \<and> OSTCBDly (OSTCBTbl s ! j) = 0 \<longrightarrow>
             prio_of s c \<le> prio_of s j))) \<and>
     (\<forall>i\<in>set (OSTCBList s).
        (prio_of s i \<in> ready s \<longleftrightarrow> OSTCBStat (OSTCBTbl s ! i) = 0 \<and> OSTCBDly (OSTCBTbl s ! i) = 0) \<and>
        (\<forall>e<length (OSEvents s). prio_of s i \<in> waits s e \<longleftrightarrow> OSTCBEventPtr (OSTCBTbl s ! i) = Some e)) \<and>
     (\<forall>e<length (OSEvents s). OSEventType (OSEvents s ! e) = OS_EVENT_TYPE_SEM \<and> 0 < OSEventCnt (OSEvents s ! e) \<longrightarrow>
        waits s e = {})"
proof -
  have st: "stable s" using reachable_ok(1) [OF assms] by (simp add: run_ok_def)
  have k: "kernel_ok s" using st by (simp add: stable_def)
  have cur: "\<exists>c\<in>set (OSTCBList s). OSTCBCur s = TCB c \<and> OSTCBStat (OSTCBTbl s ! c) = 0 \<and> OSTCBDly (OSTCBTbl s ! c) = 0 \<and>
      (\<forall>j\<in>set (OSTCBList s). OSTCBStat (OSTCBTbl s ! j) = 0 \<and> OSTCBDly (OSTCBTbl s ! j) = 0 \<longrightarrow>
         prio_of s c \<le> prio_of s j)" if z: "OSIntNesting s = 0" "OSLockNesting s = 0"
  proof -
    obtain c where c: "OSTCBCur s = TCB c" using st by (auto simp: stable_def cur_ok_def)
    note C = current_ready [OF st z c]
    have "prio_of s c \<le> prio_of s j"
      if "j \<in> set (OSTCBList s)" "OSTCBStat (OSTCBTbl s ! j) = 0 \<and> OSTCBDly (OSTCBTbl s ! j) = 0" for j
    proof -
      have "prio_of s j \<in> ready s" using tcb_okD(4) [OF kernel_okD(4) [OF k that(1)]] that(2) by blast
      then show ?thesis unfolding C(2) by (intro Min_le) simp_all
    qed
    then show ?thesis using c C(1,4,5) by blast
  qed
  have tasks: "(prio_of s i \<in> ready s \<longleftrightarrow> OSTCBStat (OSTCBTbl s ! i) = 0 \<and> OSTCBDly (OSTCBTbl s ! i) = 0) \<and>
      (\<forall>e<length (OSEvents s). prio_of s i \<in> waits s e \<longleftrightarrow> OSTCBEventPtr (OSTCBTbl s ! i) = Some e)"
    if "i \<in> set (OSTCBList s)" for i
    using tcb_okD(4,5) [OF kernel_okD(4) [OF k that]] by blast
  have "waits s e = {}"
    if "e < length (OSEvents s)" "OSEventType (OSEvents s ! e) = OS_EVENT_TYPE_SEM \<and> 0 < OSEventCnt (OSEvents s ! e)" for e
    using kernel_okD(3) [OF k that(1)] that(2) by (simp add: event_ok_def)
  then show ?thesis using cur tasks by blast
qed

lemma run_entered: "reachable (OSIntEnter (OSStart os_boot), \<lambda>_. None)"
proof -
  have i: "idle_os os_boot" by (rule configured_idle [OF configured_boot])
  then have "OSIntNesting (OSStart os_boot) = 0"
    using switchedD(8) [OF OSStart_stable(3), of os_boot] by (simp add: idle_os_def)
  then have "kstep Enter (OSStart os_boot, \<lambda>_. None) (OSIntEnter (OSStart os_boot), \<lambda>_. None)"
    by (intro kstep.enter) simp
  then have "krun ([] @ [Enter]) (OSStart os_boot, \<lambda>_. None) (OSIntEnter (OSStart os_boot), \<lambda>_. None)"
    by (rule krun.snoc [OF krun.nil])
  then show ?thesis unfolding reachable_def using configured_boot by blast
qed

lemma boot_task: "OSTCBCur (OSStart os_boot) = TCB 1"
  by (simp add: OSStart_def OS_SchedNew_def map_top_def map_set_def booted_def created_def Let_def cleared_def os_init_defs new_tcb_def
      os_zero_def prio_y_def prio_x_def bit_of_def OSUnMapTbl_def)

lemma boot_running: "OSRunning (OSStart os_boot)" "OSIntNesting (OSStart os_boot) = 0" "OSLockNesting (OSStart os_boot) = 0"
  "OSTCBPrio (OSTCBTbl (OSStart os_boot) ! 1) = 62"
  by (simp_all add: OSStart_def OS_SchedNew_def Let_def booted_def created_def cleared_def os_init_defs new_tcb_def)

theorem kernel_invariant_witness:
  "OSTCBStat (OSTCBTbl (OSStart os_boot) ! 1) = 0 \<and> OSTCBDly (OSTCBTbl (OSStart os_boot) ! 1) = 0"
  using kernel_invariant [OF reachable_boot] boot_task boot_running(2,3) by auto

text \<open>C37: In every reachable state the ready list has 8 bytes, the priority table 64, the table of
  task control blocks 22 and the table of events 30 entries, with 8 bytes in each waiting list;
  every list holds valid and distinct indices, and each task's cached bitmap position is that of
  its priority.\<close>

theorem kernel_tables:
  assumes "reachable (s, w)"
  shows "length (OSRdyTbl s) = 8 \<and> length (OSTCBPrioTbl s) = 64 \<and> length (OSTCBTbl s) = 22 \<and> length (OSEvents s) = 30 \<and>
     (\<forall>y<8. bit (OSRdyGrp s) y \<longleftrightarrow> OSRdyTbl s ! y \<noteq> 0) \<and>
     distinct (OSTCBList s @ OSTCBFreeList s) \<and> set (OSTCBList s @ OSTCBFreeList s) \<subseteq> {..<length (OSTCBTbl s)} \<and>
     distinct (OSEventFreeList s) \<and> set (OSEventFreeList s) \<subseteq> {..<length (OSEvents s)} \<and>
     (\<forall>i\<in>set (OSTCBList s). OSTCBPrioTbl s ! prio_of s i = TCB i \<and> prio_of s i < 64 \<and>
        OSTCBY (OSTCBTbl s ! i) = OSTCBPrio (OSTCBTbl s ! i) div 8 \<and> OSTCBX (OSTCBTbl s ! i) = OSTCBPrio (OSTCBTbl s ! i) mod 8 \<and>
        OSTCBBitY (OSTCBTbl s ! i) = 2 ^ (prio_of s i div 8) \<and> OSTCBBitX (OSTCBTbl s ! i) = 2 ^ (prio_of s i mod 8)) \<and>
     (\<forall>e<length (OSEvents s). length (OSEventTbl (OSEvents s ! e)) = 8 \<and>
        (\<forall>y<8. bit (OSEventGrp (OSEvents s ! e)) y \<longleftrightarrow> OSEventTbl (OSEvents s ! e) ! y \<noteq> 0))"
proof -
  have k: "kernel_ok s" using reachable_ok(1) [OF assms] by (simp add: run_ok_def stable_def)
  have L: "length (OSTCBPrioTbl s) = 64" "distinct (OSTCBList s @ OSTCBFreeList s)"
    "set (OSTCBList s @ OSTCBFreeList s) \<subseteq> {..<length (OSTCBTbl s)}"
    "distinct (OSEventFreeList s)" "set (OSEventFreeList s) \<subseteq> {..<length (OSEvents s)}"
    using kernel_okD(1) [OF k] unfolding lists_ok_def by blast+
  have R: "length (OSRdyTbl s) = 8" "\<forall>y<8. bit (OSRdyGrp s) y \<longleftrightarrow> OSRdyTbl s ! y \<noteq> 0"
    using kernel_okD(2) [OF k] by (simp_all add: map_ok_def)
  have T: "OSTCBPrioTbl s ! prio_of s i = TCB i \<and> prio_of s i < 64 \<and>
      OSTCBY (OSTCBTbl s ! i) = OSTCBPrio (OSTCBTbl s ! i) div 8 \<and> OSTCBX (OSTCBTbl s ! i) = OSTCBPrio (OSTCBTbl s ! i) mod 8 \<and>
      OSTCBBitY (OSTCBTbl s ! i) = 2 ^ (prio_of s i div 8) \<and> OSTCBBitX (OSTCBTbl s ! i) = 2 ^ (prio_of s i mod 8)"
    if "i \<in> set (OSTCBList s)" for i
  proof -
    note t = tcb_okD [OF kernel_okD(4) [OF k that]]
    have y: "prio_y p = p div 8" "prio_x p = p mod 8" for p
      by (simp_all only: word_unat_eq_iff unat_prio_y unat_prio_x) (simp_all add: unat_div_distrib unat_mod_distrib)
    show ?thesis
      using t(1,2,7) unat_prio_y [of "OSTCBPrio (OSTCBTbl s ! i)"] unat_prio_x [of "OSTCBPrio (OSTCBTbl s ! i)"]
      by (simp add: prio_fields_def bit_of_def y push_bit_eq_mult)
  qed
  have E: "length (OSEventTbl (OSEvents s ! e)) = 8 \<and>
      (\<forall>y<8. bit (OSEventGrp (OSEvents s ! e)) y \<longleftrightarrow> OSEventTbl (OSEvents s ! e) ! y \<noteq> 0)"
    if "e < length (OSEvents s)" for e
    using kernel_okD(3) [OF k that] by (simp add: event_ok_def map_ok_def)
  show ?thesis using L R T E sizes_reachable [OF assms] by (intro conjI ballI allI impI) blast+
qed

theorem kernel_tables_witness:
  "length (OSRdyTbl (OSStart os_boot)) = 8 \<and> length (OSTCBPrioTbl (OSStart os_boot)) = 64 \<and>
     length (OSTCBTbl (OSStart os_boot)) = 22 \<and> length (OSEvents (OSStart os_boot)) = 30"
  using kernel_tables [OF reachable_boot] by blast

text \<open>C36: In every reachable state every semaphore, time and task call of the model that the state
  permits returns, and so do the tick and the end of an interrupt: no null task pointer is
  followed, the loops end and the tick's walk finds the idle task.\<close>

theorem kernel_calls_return:
  assumes "reachable (s, w)"
  shows "(0 < OSIntNesting s \<longrightarrow> OSTimeTick s \<noteq> None \<and> OSIntExit s \<noteq> None \<and>
        (\<forall>e<length (OSEvents s). OSSemPost e s \<noteq> None) \<and>
        (\<forall>p. OSTimeDlyResume p s \<noteq> None \<and> (unat p < 64 \<longrightarrow> OSTaskResume p s \<noteq> None))) \<and>
     (OSIntNesting s = 0 \<longrightarrow> (\<exists>c\<in>set (OSTCBList s). OSTCBCur s = TCB c \<and>
        (w c = None \<and> prio_of s c \<noteq> 63 \<longrightarrow> (\<forall>x. valid_call x s \<longrightarrow> kcall_run x s \<noteq> None) \<and>
           (\<forall>e n. e < length (OSEvents s) \<longrightarrow> OSSemPend e n s \<noteq> None)) \<and>
        (\<forall>e. w c = Some e \<longrightarrow> OSSemPend_end e s \<noteq> None)))"
proof -
  have r: "run_ok (s, w)" by (rule reachable_ok(1) [OF assms])
  have st: "stable s" "waits_ok (s, w)" using r by (simp_all add: run_ok_def)
  have isr: "OSTimeTick s \<noteq> None" "OSIntExit s \<noteq> None" if "0 < OSIntNesting s"
    using tick_run_ok [OF r that] exit_ok [OF r that] by auto
  have both: "kcall_run x s \<noteq> None" if "valid_call x s" "x \<in> {KAccept e, KPost e, KDlyResume p, KResume p}" for x e p
    using call_both [OF r that] by auto
  have some: "OSSemPost e s \<noteq> None" "OSTimeDlyResume p s \<noteq> None" "unat p < 64 \<Longrightarrow> OSTaskResume p s \<noteq> None"
    if "e < length (OSEvents s)" for e p
    using both [of "KPost e" e p] both [of "KDlyResume p" e p] both [of "KResume p" e p] that by simp_all
  have dly: "OSTimeDlyResume p s \<noteq> None" "unat p < 64 \<Longrightarrow> OSTaskResume p s \<noteq> None" for p
    using both [of "KDlyResume p" 0 p] both [of "KResume p" 0 p] by simp_all
  obtain c where c: "c \<in> set (OSTCBList s)" "OSTCBCur s = TCB c" using st(1) by (auto simp: stable_def cur_ok_def)
  have call: "kcall_run x s \<noteq> None" if "OSIntNesting s = 0" "w c = None" "prio_of s c \<noteq> 63" "valid_call x s" for x
    using kcall_ok [OF r that(1) c(2) that(2-4)] by auto
  have pend: "OSSemPend e n s \<noteq> None" if "w c = None" "prio_of s c \<noteq> 63" "e < length (OSEvents s)" for e n
  proof -
    have "OSTCBEventPtr (OSTCBTbl s ! c) = None" using st(2) c(1) that(1) by (simp add: waits_ok_def)
    then show ?thesis using OSSemPend_ok [OF st(1) that(3) c(2) that(2), of n "{}"] by auto
  qed
  have "OSSemPend_end e s \<noteq> None" if "OSIntNesting s = 0" "w c = Some e" for e
    using resumed_ok [OF r that(1) c(2) that(2)] by auto
  then show ?thesis using isr some dly c call pend by blast
qed

theorem kernel_calls_return_witness:
  "OSTimeTick (OSIntEnter (OSStart os_boot)) \<noteq> None \<and> OSIntExit (OSIntEnter (OSStart os_boot)) \<noteq> None"
  using kernel_calls_return [OF run_entered]
  by (simp add: OSIntEnter_def boot_running)

section \<open>Semaphores\<close>

text \<open>C15: OSSemPost on a semaphore without waiters adds one to its count, or reports OS_ERR_SEM_OVF
  at 65535; with waiters it gives the semaphore to the one of highest priority, leaves every other
  task's state as it was, and that task runs at once if it is not suspended and its priority is
  above the current one's outside interrupts and locks.\<close>

theorem OSSemPost_highest:
  assumes "reachable (s, w)" and "e < length (OSEvents s)" "OSEventType (OSEvents s ! e) = OS_EVENT_TYPE_SEM"
  shows "(waits s e = {} \<and> unat (OSEventCnt (OSEvents s ! e)) = 65535 \<longrightarrow> OSSemPost e s = Some (OS_ERR_SEM_OVF, s)) \<and>
     (waits s e = {} \<and> unat (OSEventCnt (OSEvents s ! e)) < 65535 \<longrightarrow>
        (\<exists>s'. OSSemPost e s = Some (OS_ERR_NONE, s') \<and> s' = s\<lparr>OSEvents := OSEvents s'\<rparr> \<and>
           unat (OSEventCnt (OSEvents s' ! e)) = unat (OSEventCnt (OSEvents s ! e)) + 1 \<and>
           (\<forall>d. d \<noteq> e \<longrightarrow> OSEvents s' ! d = OSEvents s ! d))) \<and>
     (waits s e \<noteq> {} \<longrightarrow>
        (\<exists>i s'. OSSemPost e s = Some (OS_ERR_NONE, s') \<and> OSTCBPrioTbl s ! Min (waits s e) = TCB i \<and>
           OSTCBEventPtr (OSTCBTbl s ! i) = Some e \<and> OSTCBEventPtr (OSTCBTbl s' ! i) = None \<and>
           OSTCBStatPend (OSTCBTbl s' ! i) = OS_STAT_PEND_OK \<and> waits s' e = waits s e - {Min (waits s e)} \<and>
           OSEventCnt (OSEvents s' ! e) = OSEventCnt (OSEvents s ! e) \<and>
           (\<forall>j. j \<noteq> i \<longrightarrow> same_tcb (OSTCBTbl s ! j) (OSTCBTbl s' ! j)) \<and>
           (OSIntNesting s = 0 \<and> OSLockNesting s = 0 \<and> OSTCBStat (OSTCBTbl s ! i) AND OS_STAT_SUSPEND = 0 \<and>
              Min (waits s e) < unat (OSPrioCur s) \<longrightarrow> OSTCBCur s' = TCB i)))"
proof -
  have st: "stable s" using reachable_ok(1) [OF assms(1)] by (simp add: run_ok_def)
  have k: "kernel_ok s" using st by (simp add: stable_def)
  note G = group_waits [OF k assms(2)]
  let ?ev = "OSEvents s ! e"
  have "OSSemPost e s = Some (OS_ERR_SEM_OVF, s)" if "waits s e = {}" "unat (OSEventCnt ?ev) = 65535"
    using that G assms(3) by (simp add: OSSemPost_def word_less_nat_alt)
  moreover have "\<exists>s'. OSSemPost e s = Some (OS_ERR_NONE, s') \<and> s' = s\<lparr>OSEvents := OSEvents s'\<rparr> \<and>
       unat (OSEventCnt (OSEvents s' ! e)) = unat (OSEventCnt ?ev) + 1 \<and> (\<forall>d. d \<noteq> e \<longrightarrow> OSEvents s' ! d = OSEvents s ! d)"
    if "waits s e = {}" "unat (OSEventCnt ?ev) < 65535"
  proof -
    let ?s = "upd_event e (\<lambda>ev. ev\<lparr>OSEventCnt := OSEventCnt ev + 1\<rparr>) s"
    have "OSSemPost e s = Some (OS_ERR_NONE, ?s)"
      using that G assms(3) by (simp add: OSSemPost_def word_less_nat_alt)
    moreover have "unat (OSEventCnt ?ev + 1) = unat (OSEventCnt ?ev) + 1" by (rule unat_plus_one_word) (use that(2) in simp)
    ultimately show ?thesis using assms(2) by (intro exI [where x = ?s]) (simp add: upd_event_def)
  qed
  moreover have "\<exists>i s'. OSSemPost e s = Some (OS_ERR_NONE, s') \<and> OSTCBPrioTbl s ! Min (waits s e) = TCB i \<and>
           OSTCBEventPtr (OSTCBTbl s ! i) = Some e \<and> OSTCBEventPtr (OSTCBTbl s' ! i) = None \<and>
           OSTCBStatPend (OSTCBTbl s' ! i) = OS_STAT_PEND_OK \<and> waits s' e = waits s e - {Min (waits s e)} \<and>
           OSEventCnt (OSEvents s' ! e) = OSEventCnt (OSEvents s ! e) \<and>
           (\<forall>j. j \<noteq> i \<longrightarrow> same_tcb (OSTCBTbl s ! j) (OSTCBTbl s' ! j)) \<and>
           (OSIntNesting s = 0 \<and> OSLockNesting s = 0 \<and> OSTCBStat (OSTCBTbl s ! i) AND OS_STAT_SUSPEND = 0 \<and>
              Min (waits s e) < unat (OSPrioCur s) \<longrightarrow> OSTCBCur s' = TCB i)" if w: "waits s e \<noteq> {}"
  proof -
    have m: "OS_STAT_SEM = pend_bit (OSEventType ?ev)" by (simp add: assms(3) sem_pend_bit)
    obtain i p s' where s': "OS_EventTaskRdy e 0 OS_STAT_SEM OS_STAT_PEND_OK s = Some (p, wake i e 0 OS_STAT_SEM OS_STAT_PEND_OK s)"
      "OS_Sched (wake i e 0 OS_STAT_SEM OS_STAT_PEND_OK s) = Some s'"
      "switched (wake i e 0 OS_STAT_SEM OS_STAT_PEND_OK s) s'" "good {} s s'" and i: "i \<in> set (OSTCBList s)"
      "prio_of s i = Min (waits s e)" "prio_of s i \<in> waits s e"
      using wake_sched [OF st assms(2) w m] by metis
    have "stable s'" using s'(4) by (simp add: good_def)
    note W = wake_effect [OF st assms(2) m i s'(3) this]
    have "OSSemPost e s = Some (OS_ERR_NONE, s')" using assms(3) w G s'(1,2) by (simp add: OSSemPost_def)
    then show ?thesis using W by blast
  qed
  ultimately show ?thesis by blast
qed

abbreviation os_sem :: os where
  "os_sem \<equiv> snd (OSSemCreate 1 (OSStart os_boot))"

lemma boot_events: "OSEvents (OSStart os_boot) = replicate OS_MAX_EVENTS clear_event" "OSEventFreeList (OSStart os_boot) = 0 # [1..<OS_MAX_EVENTS]"
  by (simp_all add: OSStart_def OS_SchedNew_def Let_def booted_def created_def cleared_def os_init_defs new_tcb_def upt_conv_Cons)

lemma reachable_sem: "reachable (os_sem, \<lambda>_. None)"
proof -
  have "kstep (Call (KCreate 1)) (OSStart os_boot, \<lambda>_. None) (os_sem, \<lambda>_. None)"
    by (rule kstep.call [OF boot_running(2) boot_task]) (use boot_running(4) in simp_all)
  then have "krun ([] @ [Call (KCreate 1)]) (OSStart os_boot, \<lambda>_. None) (os_sem, \<lambda>_. None)"
    by (rule krun.snoc [OF krun.nil])
  then show ?thesis unfolding reachable_def using configured_boot by blast
qed

lemma sem_event: "0 < length (OSEvents os_sem)" "OSEventType (OSEvents os_sem ! 0) = OS_EVENT_TYPE_SEM"
  "OSEventCnt (OSEvents os_sem ! 0) = 1"
  by (simp_all add: OSSemCreate_def boot_running boot_events Let_def upd_event_def OS_EventWaitListInit_def OS_MAX_EVENTS_def)

theorem OSSemPost_highest_witness:
  "\<exists>s'. OSSemPost 0 os_sem = Some (OS_ERR_NONE, s') \<and> unat (OSEventCnt (OSEvents s' ! 0)) = 2"
proof -
  have "waits os_sem 0 = {}"
    using kernel_okD(3) [OF _ sem_event(1)] reachable_ok(1) [OF reachable_sem] sem_event(2,3)
    by (simp add: event_ok_def run_ok_def stable_def)
  then show ?thesis using OSSemPost_highest [OF reachable_sem sem_event(1,2)] sem_event(3) by auto
qed

section \<open>Delays\<close>

text \<open>C34: After OSTimeDly with n > 0 ticks the task is neither current nor ready for as long as fewer
  than n ticks have passed, whatever other tasks and interrupts do short of resuming or suspending
  it, and the nth tick makes it ready.\<close>

theorem delay_expires:
  assumes "reachable (s, w)" and "OSIntNesting s = 0" "OSLockNesting s = 0" and "OSTCBCur s = TCB c" "w c = None"
    and "OSTCBPrio (OSTCBTbl s ! c) = p" "p \<noteq> 63" and "n \<noteq> 0"
  shows "\<exists>s1. OSTimeDly n s = Some s1 \<and> OSTCBCur s1 \<noteq> TCB c \<and> unat p \<notin> ready s1 \<and>
    (\<forall>ls s2 w2. krun ls (s1, w) (s2, w2) \<and> (\<forall>l\<in>set ls. spares p l) \<longrightarrow>
       (ticks ls < unat n \<longrightarrow> OSTCBCur s2 \<noteq> TCB c \<and> unat p \<notin> ready s2) \<and>
       (ticks ls = unat n \<and> last ls = Tick \<longrightarrow> unat p \<in> ready s2 \<and> OSTCBPrioTbl s2 ! unat p = TCB c))"
proof -
  have r: "run_ok (s, w)" and dis: "OSTickStepState s = OS_TICK_STEP_DIS"
    using reachable_ok [OF assms(1)] by simp_all
  have st: "stable s" using r by (simp add: run_ok_def)
  note C = current_ready [OF st assms(2,3,4)]
  have p63: "prio_of s c \<noteq> 63" using assms(6,7) by (simp add: word_unat_eq_iff)
  obtain s1 where s1: "OSTimeDly n s = Some s1" "run_ok (s1, w)" "undisturbed {} s s1" "c \<in> set (OSTCBList s1)"
    and z: "OSIntNesting s1 = 0" "OSLockNesting s1 = 0"
    and t: "same_tcb ((OSTCBTbl s ! c)\<lparr>OSTCBDly := n\<rparr>) (OSTCBTbl s1 ! c)"
    using delayed_run [OF r assms(2-5) p63 assms(8), of "{}"] by blast
  have st1: "stable s1" using s1(2) by (simp add: run_ok_def)
  note T = same_tcbD [OF t]
  have ev: "OSTCBEventPtr (OSTCBTbl s ! c) = None"
    using r C(1) assms(5) by (simp add: run_ok_def waits_ok_def)
  have nr: "prio_of s1 c \<notin> ready s1"
    using tcb_okD(4) [OF kernel_okD(4) [OF _ s1(4)]] st1 T(4) assms(8) by (simp add: stable_def)
  have cur: "OSTCBCur s1 \<noteq> TCB c" using current_ready(3) [OF st1 z] nr by blast
  have dis1: "OSTickStepState s1 = OS_TICK_STEP_DIS" using s1(3) dis by (simp add: undisturbed_def)
  have sl: "asleep c p n s1"
    using s1(4) dis1 cur T C(4) ev assms(6) by (simp add: asleep_def Let_def)
  have *: "OSTCBCur s2 \<noteq> TCB c \<and> unat p \<notin> ready s2" if "run_ok (s2, w2)" "asleep c p d s2" "d \<noteq> 0" for s2 w2 d
    using asleep_ready(1) [of s2 c p d] that by (simp add: run_ok_def asleep_def)
  have "(ticks ls < unat n \<longrightarrow> OSTCBCur s2 \<noteq> TCB c \<and> unat p \<notin> ready s2) \<and>
       (ticks ls = unat n \<and> last ls = Tick \<longrightarrow> unat p \<in> ready s2 \<and> OSTCBPrioTbl s2 ! unat p = TCB c)"
    if "krun ls (s1, w) (s2, w2)" "\<forall>l\<in>set ls. spares p l" for ls s2 w2
  proof -
    have r2: "run_ok (s2, w2)" by (rule krun_ok [OF that(1) s1(2)])
    have A: "(ticks ls < unat n \<longrightarrow> asleep c p (n - of_nat (ticks ls)) s2) \<and>
        (ticks ls = unat n \<and> ls \<noteq> [] \<and> last ls = Tick \<longrightarrow> asleep c p 0 s2)"
      using asleep_run [OF that(1) s1(2) _ that(2), of c n] sl by simp
    have "OSTCBCur s2 \<noteq> TCB c \<and> unat p \<notin> ready s2" if "ticks ls < unat n"
      using A that * [OF r2 _ ticks_left [OF that]] by blast
    moreover have "unat p \<in> ready s2 \<and> OSTCBPrioTbl s2 ! unat p = TCB c" if "ticks ls = unat n" "last ls = Tick"
    proof -
      have "ls \<noteq> []" using that(1) assms(8) by (auto simp: unat_eq_0)
      then have "asleep c p 0 s2" using A that by blast
      then show ?thesis using asleep_ready [of s2 c p 0] r2 by (simp add: run_ok_def)
    qed
    ultimately show ?thesis by blast
  qed
  moreover have "unat p \<notin> ready s1" using nr T(7) assms(6) by simp
  ultimately show ?thesis using s1(1) cur by blast
qed

theorem delay_expires_witness:
  "\<exists>s1. OSTimeDly 5 (OSStart os_boot) = Some s1 \<and> OSTCBCur s1 \<noteq> TCB 1 \<and> 62 \<notin> ready s1"
  using delay_expires [OF reachable_boot boot_running(2,3) boot_task _ boot_running(4), of 5] by auto

end
