(* ===== verification/Os_Ring.thy ===== *)
theory Os_Ring
  imports Os_Core
begin

text \<open>
  The storage of a message queue of uC/OS-II (\<^verbatim>\<open>OS_Q\<close> of \<^verbatim>\<open>ucos_ii.h\<close>, the pointer arithmetic of
  \<^verbatim>\<open>os_q.c\<close>) and the double-ended queue it implements.
\<close>

section \<open>The queue control block\<close>

text \<open>\<^verbatim>\<open>OSQIn\<close> and \<^verbatim>\<open>OSQOut\<close> are positions in the caller's array, whose first position is
  \<^verbatim>\<open>OSQStart\<close> and whose end is \<^verbatim>\<open>OSQEnd\<close>.\<close>

record os_q =
  OSQStore :: "u32 list"
  OSQEnd :: nat
  OSQIn :: nat
  OSQOut :: nat
  OSQSize :: u16
  OSQEntries :: u16

definition q_make :: "u32 list \<Rightarrow> u16 \<Rightarrow> os_q" where
  "q_make start size0 = \<lparr>OSQStore = start, OSQEnd = unat size0, OSQIn = 0, OSQOut = 0, OSQSize = size0, OSQEntries = 0\<rparr>"

definition q_get :: "os_q \<Rightarrow> (u32 \<times> os_q) option" where
  "q_get q =
     (if OSQOut q < length (OSQStore q)
      then (let m = OSQStore q ! OSQOut q;
                q = q\<lparr>OSQOut := OSQOut q + 1\<rparr>;
                q = q\<lparr>OSQEntries := OSQEntries q - 1\<rparr>;
                q = (if OSQOut q = OSQEnd q then q\<lparr>OSQOut := 0\<rparr> else q)
            in Some (m, q))
      else None)"

definition q_put :: "u32 \<Rightarrow> os_q \<Rightarrow> os_q option" where
  "q_put m q =
     (if OSQIn q < length (OSQStore q)
      then (let q = q\<lparr>OSQStore := (OSQStore q)[OSQIn q := m], OSQIn := OSQIn q + 1\<rparr>;
                q = q\<lparr>OSQEntries := OSQEntries q + 1\<rparr>;
                q = (if OSQIn q = OSQEnd q then q\<lparr>OSQIn := 0\<rparr> else q)
            in Some q)
      else None)"

definition q_put_front :: "u32 \<Rightarrow> os_q \<Rightarrow> os_q option" where
  "q_put_front m q =
     (let q = (if OSQOut q = 0 then q\<lparr>OSQOut := OSQEnd q\<rparr> else q);
          q = q\<lparr>OSQOut := OSQOut q - 1\<rparr>
      in if OSQOut q < length (OSQStore q)
         then Some (q\<lparr>OSQStore := (OSQStore q)[OSQOut q := m], OSQEntries := OSQEntries q + 1\<rparr>)
         else None)"

definition q_clear :: "os_q \<Rightarrow> os_q" where
  "q_clear q = q\<lparr>OSQIn := 0, OSQOut := 0, OSQEntries := 0\<rparr>"

section \<open>The list it holds\<close>

definition q_ok :: "os_q \<Rightarrow> bool" where
  "q_ok q \<longleftrightarrow> length (OSQStore q) = unat (OSQSize q) \<and> OSQEnd q = unat (OSQSize q) \<and> OSQEntries q \<le> OSQSize q \<and>
     (0 < OSQSize q \<longrightarrow> OSQOut q < unat (OSQSize q) \<and> OSQIn q = (OSQOut q + unat (OSQEntries q)) mod unat (OSQSize q))"

definition q_list :: "os_q \<Rightarrow> u32 list" where
  "q_list q = map (\<lambda>i. OSQStore q ! ((OSQOut q + i) mod unat (OSQSize q))) [0..<unat (OSQEntries q)]"

abbreviation q_cap :: "os_q \<Rightarrow> nat" where
  "q_cap q \<equiv> unat (OSQSize q)"

lemma q_len: "length (q_list q) = unat (OSQEntries q)"
  by (simp add: q_list_def)

lemma q_ok_le: "q_ok q \<Longrightarrow> length (q_list q) \<le> q_cap q"
  by (simp add: q_ok_def q_len word_le_nat_alt)

lemma q_empty_iff: "q_list q = [] \<longleftrightarrow> OSQEntries q = 0"
  by (simp add: q_list_def unat_eq_0)

lemma q_make_ok: "length start = unat n \<Longrightarrow> q_ok (q_make start n) \<and> q_list (q_make start n) = []"
  by (simp add: q_ok_def q_make_def q_list_def word_gt_0 unat_gt_0)

lemma q_clear_ok: "q_ok q \<Longrightarrow> q_ok (q_clear q) \<and> q_list (q_clear q) = [] \<and> OSQSize (q_clear q) = OSQSize q"
  by (simp add: q_ok_def q_clear_def q_list_def word_gt_0 unat_gt_0)

lemma next_mod:
  assumes "(a :: nat) < n"
  shows "(if a + 1 = n then 0 else a + 1) = (a + 1) mod n"
  using assms by simp

lemma q_get_ok:
  assumes q: "q_ok q" and n: "OSQEntries q \<noteq> 0"
  shows "\<exists>q'. q_get q = Some (hd (q_list q), q') \<and> q_ok q' \<and> q_list q' = tl (q_list q) \<and> OSQSize q' = OSQSize q"
proof -
  have sz: "0 < OSQSize q" using q n by (metis q_ok_def word_gt_0 word_le_0_iff)
  have o: "OSQOut q < unat (OSQSize q)" "OSQIn q = (OSQOut q + unat (OSQEntries q)) mod unat (OSQSize q)"
    "length (OSQStore q) = unat (OSQSize q)" "OSQEnd q = unat (OSQSize q)" "OSQEntries q \<le> OSQSize q"
    using q sz by (simp_all add: q_ok_def)
  let ?q = "q\<lparr>OSQOut := (OSQOut q + 1) mod unat (OSQSize q), OSQEntries := OSQEntries q - 1\<rparr>"
  have g: "q_get q = Some (OSQStore q ! OSQOut q, ?q)"
    using o next_mod [OF o(1)] by (auto simp: q_get_def Let_def)
  have u: "unat (OSQEntries q) = Suc (unat (OSQEntries q - 1))" using n by (simp add: unat_minus_one Suc_diff_1 unat_gt_0)
  have l: "q_list q = OSQStore q ! OSQOut q # q_list ?q"
    using o(1) by (simp add: q_list_def u map_upt_Suc mod_simps del: upt_Suc)
  have "OSQEntries q - 1 \<le> OSQSize q" using o(5) u by (simp add: word_le_nat_alt)
  moreover have "((OSQOut q + 1) mod unat (OSQSize q) + unat (OSQEntries q - 1)) mod unat (OSQSize q) = OSQIn q"
    unfolding o(2) u by (simp add: mod_simps)
  ultimately have "q_ok ?q" using o sz by (simp add: q_ok_def)
  then show ?thesis using g l by simp
qed

lemma mod_add_left_imp:
  assumes "(a + b) mod n = (a + c) mod (n :: nat)"
  shows "b mod n = c mod n"
proof -
  have "(int a + int b) mod int n = (int a + int c) mod int n" using assms by (metis of_nat_add zmod_int)
  then have "int n dvd (int a + int b) - (int a + int c)" by (simp only: mod_eq_dvd_iff)
  then have "int b mod int n = int c mod int n" by (simp add: mod_eq_dvd_iff)
  then show ?thesis by (simp flip: zmod_int)
qed

lemma q_put_ok:
  assumes q: "q_ok q" and n: "OSQEntries q < OSQSize q"
  shows "\<exists>q'. q_put m q = Some q' \<and> q_ok q' \<and> q_list q' = q_list q @ [m] \<and> OSQSize q' = OSQSize q"
proof -
  have sz: "0 < OSQSize q" using n by (metis le_less_trans word_zero_le)
  have o: "OSQOut q < unat (OSQSize q)" "OSQIn q = (OSQOut q + unat (OSQEntries q)) mod unat (OSQSize q)"
    "length (OSQStore q) = unat (OSQSize q)" "OSQEnd q = unat (OSQSize q)"
    using q sz by (simp_all add: q_ok_def)
  have l: "unat (OSQEntries q) < unat (OSQSize q)" using n by (simp add: word_less_nat_alt)
  have i: "OSQIn q < unat (OSQSize q)" using o(1) unfolding o(2) by simp
  let ?q = "q\<lparr>OSQStore := (OSQStore q)[OSQIn q := m], OSQIn := (OSQIn q + 1) mod unat (OSQSize q), OSQEntries := OSQEntries q + 1\<rparr>"
  have g: "q_put m q = Some ?q" using o(3,4) i next_mod [OF i] by (auto simp: q_put_def Let_def)
  have u: "unat (OSQEntries q + 1) = unat (OSQEntries q) + 1"
    using l unat_u16_bound [of "OSQSize q"] by (intro unat_plus_one_word) (simp del: unat_u16_bound)
  have ne: "(OSQOut q + k) mod unat (OSQSize q) \<noteq> OSQIn q" if k: "k < unat (OSQEntries q)" for k
  proof
    assume "(OSQOut q + k) mod unat (OSQSize q) = OSQIn q"
    then have "k mod unat (OSQSize q) = unat (OSQEntries q) mod unat (OSQSize q)"
      unfolding o(2) by (metis mod_add_left_imp)
    then show False using k l by simp
  qed
  have "q_list ?q = q_list q @ [m]"
    using ne [symmetric] i o(3) by (simp add: q_list_def u) (simp flip: o(2))
  moreover have "q_ok ?q"
    using o sz l unfolding q_ok_def word_le_nat_alt
    by (simp add: u o(2) mod_simps)
  ultimately show ?thesis using g by simp
qed

lemma q_put_front_ok:
  assumes q: "q_ok q" and n: "OSQEntries q < OSQSize q"
  shows "\<exists>q'. q_put_front m q = Some q' \<and> q_ok q' \<and> q_list q' = m # q_list q \<and> OSQSize q' = OSQSize q"
proof -
  have sz: "0 < OSQSize q" using n by (metis le_less_trans word_zero_le)
  have o: "OSQOut q < unat (OSQSize q)" "OSQIn q = (OSQOut q + unat (OSQEntries q)) mod unat (OSQSize q)"
    "length (OSQStore q) = unat (OSQSize q)" "OSQEnd q = unat (OSQSize q)"
    using q sz by (simp_all add: q_ok_def)
  have l: "unat (OSQEntries q) < unat (OSQSize q)" using n by (simp add: word_less_nat_alt)
  define out where "out = (if OSQOut q = 0 then unat (OSQSize q) else OSQOut q) - 1"
  have ol: "out < unat (OSQSize q)" and on: "(out + 1) mod unat (OSQSize q) = OSQOut q"
    using o(1) l by (auto simp: out_def)
  let ?q = "q\<lparr>OSQOut := out, OSQStore := (OSQStore q)[out := m], OSQEntries := OSQEntries q + 1\<rparr>"
  have g: "q_put_front m q = Some ?q" using o(3,4) ol by (auto simp: q_put_front_def Let_def out_def)
  have u: "unat (OSQEntries q + 1) = Suc (unat (OSQEntries q))"
    using l unat_u16_bound [of "OSQSize q"] by (subst unat_plus_one_word) (simp_all del: unat_u16_bound)
  have sh: "(out + Suc k) mod unat (OSQSize q) = (OSQOut q + k) mod unat (OSQSize q)" for k
    unfolding on [symmetric] by (simp add: mod_simps)
  have ne: "(out + Suc k) mod unat (OSQSize q) \<noteq> out" if k: "k < unat (OSQEntries q)" for k
  proof
    assume "(out + Suc k) mod unat (OSQSize q) = out"
    then have "(out + Suc k) mod unat (OSQSize q) = (out + 0) mod unat (OSQSize q)" using ol by simp
    then have "Suc k mod unat (OSQSize q) = 0 mod unat (OSQSize q)" by (rule mod_add_left_imp)
    then show False using k l by simp
  qed
  have "q_list ?q = m # q_list q"
  proof (rule nth_equalityI)
    fix i assume i: "i < length (q_list ?q)"
    show "q_list ?q ! i = (m # q_list q) ! i"
    proof (cases i)
      case 0
      then show ?thesis using ol o(3) i by (simp add: q_list_def u nth_append del: upt_Suc)
    next
      case (Suc k)
      then have k: "k < unat (OSQEntries q)" using i by (simp add: q_len u)
      then show ?thesis using ne [OF k] Suc i by (simp add: q_list_def u sh [unfolded add_Suc_right] del: upt_Suc)
    qed
  qed (simp add: q_len u)
  moreover have "q_ok ?q"
    using o sz l ol sh [of "unat (OSQEntries q)"] unfolding q_ok_def word_le_nat_alt by (simp add: u o(2))
  ultimately show ?thesis using g by simp
qed

section \<open>Posting and accepting\<close>

definition OS_ERR_Q_FULL :: u8 where "OS_ERR_Q_FULL = 30"
definition OS_ERR_Q_EMPTY :: u8 where "OS_ERR_Q_EMPTY = 31"

definition q_post :: "u32 \<Rightarrow> os_q \<Rightarrow> (u8 \<times> os_q) option" where
  "q_post m q =
     (if OSQSize q \<le> OSQEntries q then Some (OS_ERR_Q_FULL, q) else map_option (Pair OS_ERR_NONE) (q_put m q))"

definition q_post_front :: "u32 \<Rightarrow> os_q \<Rightarrow> (u8 \<times> os_q) option" where
  "q_post_front m q =
     (if OSQSize q \<le> OSQEntries q then Some (OS_ERR_Q_FULL, q) else map_option (Pair OS_ERR_NONE) (q_put_front m q))"

definition q_accept :: "os_q \<Rightarrow> (u32 \<times> u8 \<times> os_q) option" where
  "q_accept q =
     (if 0 < OSQEntries q then map_option (\<lambda>(m, q). (m, OS_ERR_NONE, q)) (q_get q) else Some (0, OS_ERR_Q_EMPTY, q))"

text \<open>A double-ended queue of bounded length, for a client that posts at either end and accepts at
  the front.\<close>

locale bounded_deque =
  fixes post :: "'m \<Rightarrow> 'q \<Rightarrow> (u8 \<times> 'q) option"
    and post_front :: "'m \<Rightarrow> 'q \<Rightarrow> (u8 \<times> 'q) option"
    and accept :: "'q \<Rightarrow> ('m \<times> u8 \<times> 'q) option"
    and ok :: "'q \<Rightarrow> bool" and contents :: "'q \<Rightarrow> 'm list" and cap :: "'q \<Rightarrow> nat" and nothing :: 'm
  assumes contents_le: "ok q \<Longrightarrow> length (contents q) \<le> cap q"
    and post_full: "ok q \<Longrightarrow> length (contents q) = cap q \<Longrightarrow> post m q = Some (OS_ERR_Q_FULL, q)"
    and post_room: "ok q \<Longrightarrow> length (contents q) < cap q \<Longrightarrow>
      \<exists>q'. post m q = Some (OS_ERR_NONE, q') \<and> ok q' \<and> contents q' = contents q @ [m] \<and> cap q' = cap q"
    and front_full: "ok q \<Longrightarrow> length (contents q) = cap q \<Longrightarrow> post_front m q = Some (OS_ERR_Q_FULL, q)"
    and front_room: "ok q \<Longrightarrow> length (contents q) < cap q \<Longrightarrow>
      \<exists>q'. post_front m q = Some (OS_ERR_NONE, q') \<and> ok q' \<and> contents q' = m # contents q \<and> cap q' = cap q"
    and accept_none: "ok q \<Longrightarrow> contents q = [] \<Longrightarrow> accept q = Some (nothing, OS_ERR_Q_EMPTY, q)"
    and accept_some: "ok q \<Longrightarrow> contents q = m # ms \<Longrightarrow>
      \<exists>q'. accept q = Some (m, OS_ERR_NONE, q') \<and> ok q' \<and> contents q' = ms \<and> cap q' = cap q"
begin

text \<open>What a call answers and leaves, in terms of the contents alone.\<close>

definition does_post :: "nat \<Rightarrow> 'm \<Rightarrow> 'm list \<Rightarrow> u8 \<times> 'm list" where
  "does_post n m xs = (if length xs < n then (OS_ERR_NONE, xs @ [m]) else (OS_ERR_Q_FULL, xs))"

definition does_front :: "nat \<Rightarrow> 'm \<Rightarrow> 'm list \<Rightarrow> u8 \<times> 'm list" where
  "does_front n m xs = (if length xs < n then (OS_ERR_NONE, m # xs) else (OS_ERR_Q_FULL, xs))"

lemma post_contents:
  assumes "ok q"
  shows "\<exists>q'. post m q = Some (fst (does_post (cap q) m (contents q)), q') \<and> ok q' \<and> cap q' = cap q \<and>
    contents q' = snd (does_post (cap q) m (contents q))"
  using post_full [OF assms] post_room [OF assms] contents_le [OF assms] assms
  by (cases "length (contents q) < cap q") (auto simp: does_post_def)

lemma front_contents:
  assumes "ok q"
  shows "\<exists>q'. post_front m q = Some (fst (does_front (cap q) m (contents q)), q') \<and> ok q' \<and> cap q' = cap q \<and>
    contents q' = snd (does_front (cap q) m (contents q))"
  using front_full [OF assms] front_room [OF assms] contents_le [OF assms] assms
  by (cases "length (contents q) < cap q") (auto simp: does_front_def)

lemma accept_contents:
  assumes "ok q"
  shows "\<exists>q'. accept q = Some (case contents q of [] \<Rightarrow> (nothing, OS_ERR_Q_EMPTY, q') | m # ms \<Rightarrow> (m, OS_ERR_NONE, q')) \<and>
    ok q' \<and> cap q' = cap q \<and> contents q' = tl (contents q)"
  using accept_none [OF assms] accept_some [OF assms] assms by (cases "contents q") auto

end

interpretation ring: bounded_deque q_post q_post_front q_accept q_ok q_list q_cap 0
proof (unfold_locales, goal_cases)
  case (1 q)
  then show ?case by (rule q_ok_le)
next
  case (2 q m)
  then show ?case by (simp add: q_post_def q_len word_le_nat_alt)
next
  case (3 q m)
  then show ?case using q_put_ok [of q m] by (auto simp: q_post_def q_len word_le_nat_alt word_less_nat_alt)
next
  case (4 q m)
  then show ?case by (simp add: q_post_front_def q_len word_le_nat_alt)
next
  case (5 q m)
  then show ?case using q_put_front_ok [of q m] by (auto simp: q_post_front_def q_len word_le_nat_alt word_less_nat_alt)
next
  case (6 q)
  then show ?case by (simp add: q_accept_def q_empty_iff)
next
  case (7 q m ms)
  then show ?case using q_get_ok [of q] q_empty_iff [of q] by (auto simp: q_accept_def word_gt_0)
qed

end
