(* ===== verification/Os_Q.thy ===== *)
theory Os_Q
  imports Os_Ring Os_Wake
begin

text \<open>
  The message queues of uC/OS-II (\<^verbatim>\<open>UCOSII/uCOS-II/Source/os_q.c\<close>): the calls, the invariant of the
  queue control blocks and what a post does for a waiting task.  As for semaphores \<^verbatim>\<open>OSQPend\<close> is
  the part of the call up to the scheduler and \<^verbatim>\<open>OSQPend_end\<close> the rest.
\<close>

section \<open>Operations\<close>

definition OS_MAX_QS :: nat where "OS_MAX_QS = 10"
definition OS_POST_OPT_BROADCAST :: u8 where "OS_POST_OPT_BROADCAST = 0x01"
definition OS_POST_OPT_FRONT :: u8 where "OS_POST_OPT_FRONT = 0x02"
definition OS_POST_OPT_NO_SCHED :: u8 where "OS_POST_OPT_NO_SCHED = 0x04"

record qtab =
  OSQTbl :: "os_q list"
  OSQFreeList :: "nat list"

text \<open>The event's pointer holds the number of its queue control block, from 1; 0 is the null
  pointer.\<close>

definition the_q :: "nat \<Rightarrow> os \<Rightarrow> qtab \<Rightarrow> nat option" where
  "the_q e s qt =
     (let p = unat (OSEventPtr (OSEvents s ! e)) in if p = 0 \<or> length (OSQTbl qt) < p then None else Some (p - 1))"

definition on_q :: "(os_q \<Rightarrow> ('r \<times> os_q) option) \<Rightarrow> nat \<Rightarrow> os \<Rightarrow> qtab \<Rightarrow> ('r \<times> qtab) option" where
  "on_q f e s qt =
     do {
       k \<leftarrow> the_q e s qt;
       (r, q) \<leftarrow> f (OSQTbl qt ! k);
       Some (r, qt\<lparr>OSQTbl := (OSQTbl qt)[k := q]\<rparr>)
     }"

definition OSQAccept :: "nat \<Rightarrow> os \<Rightarrow> qtab \<Rightarrow> ((u32 \<times> u8) \<times> qtab) option" where
  "OSQAccept e s qt =
     (if OSEventType (OSEvents s ! e) \<noteq> OS_EVENT_TYPE_Q then Some ((0, OS_ERR_EVENT_TYPE), qt)
      else on_q (\<lambda>q. map_option (\<lambda>(m, err, q). ((m, err), q)) (q_accept q)) e s qt)"

definition OSQCreate :: "u32 list \<Rightarrow> u16 \<Rightarrow> os \<Rightarrow> qtab \<Rightarrow> nat option \<times> os \<times> qtab" where
  "OSQCreate start size0 s qt =
     (if 0 < OSIntNesting s then (None, s, qt)
      else (case OSEventFreeList s of
              [] \<Rightarrow> (None, s, qt)
            | e # free \<Rightarrow>
                (let s = s\<lparr>OSEventFreeList := free\<rparr>
                 in case OSQFreeList qt of
                      [] \<Rightarrow> (None, s\<lparr>OSEventFreeList := e # OSEventFreeList s\<rparr>, qt)
                    | k # kfree \<Rightarrow>
                        (let qt = qt\<lparr>OSQFreeList := kfree\<rparr>;
                             qt = qt\<lparr>OSQTbl := (OSQTbl qt)[k := q_make start size0]\<rparr>;
                             s = upd_event e (\<lambda>ev. ev\<lparr>OSEventType := OS_EVENT_TYPE_Q, OSEventCnt := 0,
                                                     OSEventPtr := of_nat (k + 1)\<rparr>) s
                         in (Some e, OS_EventWaitListInit e s, qt)))))"

definition free_q :: "nat \<Rightarrow> os \<Rightarrow> qtab \<Rightarrow> qtab option" where
  "free_q e s qt = do { k \<leftarrow> the_q e s qt; Some (qt\<lparr>OSQFreeList := k # OSQFreeList qt\<rparr>) }"

definition OSQDel :: "nat \<Rightarrow> u8 \<Rightarrow> os \<Rightarrow> qtab \<Rightarrow> (nat option \<times> u8 \<times> os \<times> qtab) option" where
  "OSQDel e opt s qt =
     (if OSEventType (OSEvents s ! e) \<noteq> OS_EVENT_TYPE_Q then Some (Some e, OS_ERR_EVENT_TYPE, s, qt)
      else if 0 < OSIntNesting s then Some (Some e, OS_ERR_DEL_ISR, s, qt)
      else (let tasks_waiting = OSEventGrp (OSEvents s ! e) \<noteq> 0
            in if opt = OS_DEL_NO_PEND
               then (if \<not> tasks_waiting
                     then do { qt \<leftarrow> free_q e s qt; Some (None, OS_ERR_NONE, free_event e s, qt) }
                     else Some (Some e, OS_ERR_TASK_WAITING, s, qt))
               else if opt = OS_DEL_ALWAYS
               then do {
                 (_, s) \<leftarrow> ready_all e 0 OS_STAT_Q OS_STAT_PEND_ABORT 0 s;
                 qt \<leftarrow> free_q e s qt;
                 let s = free_event e s;
                 s \<leftarrow> (if tasks_waiting then OS_Sched s else Some s);
                 Some (None, OS_ERR_NONE, s, qt)
               }
               else Some (Some e, OS_ERR_INVALID_OPT, s, qt)))"

text \<open>With \<^verbatim>\<open>OS_ARG_CHK_EN\<close> 0 the type of the event is not checked here.\<close>

definition OSQFlush :: "nat \<Rightarrow> os \<Rightarrow> qtab \<Rightarrow> (u8 \<times> qtab) option" where
  "OSQFlush e s qt = on_q (\<lambda>q. Some (OS_ERR_NONE, q_clear q)) e s qt"

definition OSQPend :: "nat \<Rightarrow> u32 \<Rightarrow> os \<Rightarrow> qtab \<Rightarrow> ((u32 \<times> u8) option \<times> os \<times> qtab) option" where
  "OSQPend e timeout s qt =
     (if OSEventType (OSEvents s ! e) \<noteq> OS_EVENT_TYPE_Q then Some (Some (0, OS_ERR_EVENT_TYPE), s, qt)
      else if 0 < OSIntNesting s then Some (Some (0, OS_ERR_PEND_ISR), s, qt)
      else if 0 < OSLockNesting s then Some (Some (0, OS_ERR_PEND_LOCKED), s, qt)
      else do {
        k \<leftarrow> the_q e s qt;
        (if 0 < OSQEntries (OSQTbl qt ! k)
         then do {
           (m, q) \<leftarrow> q_get (OSQTbl qt ! k);
           Some (Some (m, OS_ERR_NONE), s, qt\<lparr>OSQTbl := (OSQTbl qt)[k := q]\<rparr>)
         }
         else do {
           i \<leftarrow> deref (OSTCBCur s);
           let s = upd_tcb i (\<lambda>t. t\<lparr>OSTCBStat := OSTCBStat t OR OS_STAT_Q, OSTCBStatPend := OS_STAT_PEND_OK,
                                    OSTCBDly := timeout\<rparr>) s;
           s \<leftarrow> OS_EventTaskWait e s;
           s \<leftarrow> OS_Sched s;
           Some (None, s, qt)
         })
      })"

definition OSQPend_end :: "nat \<Rightarrow> os \<Rightarrow> (u32 \<times> u8 \<times> os) option" where
  "OSQPend_end e s =
     do {
       i \<leftarrow> deref (OSTCBCur s);
       let st = OSTCBStatPend (OSTCBTbl s ! i);
       let (msg, err, s) =
         (if st = OS_STAT_PEND_OK then (OSTCBMsg (OSTCBTbl s ! i), OS_ERR_NONE, s)
          else if st = OS_STAT_PEND_ABORT then (0, OS_ERR_PEND_ABORT, s)
          else (0, OS_ERR_TIMEOUT, OS_EventTaskRemove i e s));
       Some (msg, err, upd_tcb i (\<lambda>t. t\<lparr>OSTCBStat := OS_STAT_RDY, OSTCBStatPend := OS_STAT_PEND_OK,
                                        OSTCBEventPtr := None, OSTCBEventMultiPtr := None, OSTCBMsg := 0\<rparr>) s)
     }"

definition OSQPendAbort :: "nat \<Rightarrow> u8 \<Rightarrow> os \<Rightarrow> (u8 \<times> u8 \<times> os) option" where
  "OSQPendAbort e opt s =
     (if OSEventType (OSEvents s ! e) \<noteq> OS_EVENT_TYPE_Q then Some (0, OS_ERR_EVENT_TYPE, s)
      else if OSEventGrp (OSEvents s ! e) \<noteq> 0
      then do {
        (n, s) \<leftarrow> (if opt = OS_PEND_OPT_BROADCAST then ready_all e 0 OS_STAT_Q OS_STAT_PEND_ABORT 0 s
                   else do {
                     (_, s) \<leftarrow> OS_EventTaskRdy e 0 OS_STAT_Q OS_STAT_PEND_ABORT s;
                     Some (1, s)
                   });
        s \<leftarrow> OS_Sched s;
        Some (n, OS_ERR_PEND_ABORT, s)
      }
      else Some (0, OS_ERR_NONE, s))"

definition OSQPost :: "nat \<Rightarrow> u32 \<Rightarrow> os \<Rightarrow> qtab \<Rightarrow> (u8 \<times> os \<times> qtab) option" where
  "OSQPost e m s qt =
     (if OSEventType (OSEvents s ! e) \<noteq> OS_EVENT_TYPE_Q then Some (OS_ERR_EVENT_TYPE, s, qt)
      else if OSEventGrp (OSEvents s ! e) \<noteq> 0
      then do {
        (_, s) \<leftarrow> OS_EventTaskRdy e m OS_STAT_Q OS_STAT_PEND_OK s;
        s \<leftarrow> OS_Sched s;
        Some (OS_ERR_NONE, s, qt)
      }
      else do { (err, qt) \<leftarrow> on_q (q_post m) e s qt; Some (err, s, qt) })"

definition OSQPostFront :: "nat \<Rightarrow> u32 \<Rightarrow> os \<Rightarrow> qtab \<Rightarrow> (u8 \<times> os \<times> qtab) option" where
  "OSQPostFront e m s qt =
     (if OSEventType (OSEvents s ! e) \<noteq> OS_EVENT_TYPE_Q then Some (OS_ERR_EVENT_TYPE, s, qt)
      else if OSEventGrp (OSEvents s ! e) \<noteq> 0
      then do {
        (_, s) \<leftarrow> OS_EventTaskRdy e m OS_STAT_Q OS_STAT_PEND_OK s;
        s \<leftarrow> OS_Sched s;
        Some (OS_ERR_NONE, s, qt)
      }
      else do { (err, qt) \<leftarrow> on_q (q_post_front m) e s qt; Some (err, s, qt) })"

definition OSQPostOpt :: "nat \<Rightarrow> u32 \<Rightarrow> u8 \<Rightarrow> os \<Rightarrow> qtab \<Rightarrow> (u8 \<times> os \<times> qtab) option" where
  "OSQPostOpt e m opt s qt =
     (if OSEventType (OSEvents s ! e) \<noteq> OS_EVENT_TYPE_Q then Some (OS_ERR_EVENT_TYPE, s, qt)
      else if OSEventGrp (OSEvents s ! e) \<noteq> 0
      then do {
        s \<leftarrow> (if opt AND OS_POST_OPT_BROADCAST \<noteq> 0
               then map_option snd (ready_all e m OS_STAT_Q OS_STAT_PEND_OK 0 s)
               else map_option snd (OS_EventTaskRdy e m OS_STAT_Q OS_STAT_PEND_OK s));
        s \<leftarrow> (if opt AND OS_POST_OPT_NO_SCHED = 0 then OS_Sched s else Some s);
        Some (OS_ERR_NONE, s, qt)
      }
      else do {
        (err, qt) \<leftarrow> on_q (if opt AND OS_POST_OPT_FRONT \<noteq> 0 then q_post_front m else q_post m) e s qt;
        Some (err, s, qt)
      })"

text \<open>The answer is \<^verbatim>\<open>OSMsg\<close>, \<^verbatim>\<open>OSNMsgs\<close>, \<^verbatim>\<open>OSQSize\<close> and the waiting list.\<close>

definition OSQQuery :: "nat \<Rightarrow> os \<Rightarrow> qtab \<Rightarrow> (u8 \<times> (u32 \<times> u16 \<times> u16 \<times> u8 \<times> u8 list) option) option" where
  "OSQQuery e s qt =
     (let ev = OSEvents s ! e
      in if OSEventType ev \<noteq> OS_EVENT_TYPE_Q then Some (OS_ERR_EVENT_TYPE, None)
         else do {
           k \<leftarrow> the_q e s qt;
           let q = OSQTbl qt ! k;
           m \<leftarrow> (if 0 < OSQEntries q
                  then (if OSQOut q < length (OSQStore q) then Some (OSQStore q ! OSQOut q) else None)
                  else Some 0);
           Some (OS_ERR_NONE, Some (m, OSQEntries q, OSQSize q, OSEventGrp ev, take 8 (OSEventTbl ev)))
         })"

definition OS_QInit :: "qtab \<Rightarrow> qtab" where
  "OS_QInit qt = qt\<lparr>OSQTbl := replicate OS_MAX_QS (q_make [] 0), OSQFreeList := [0..<OS_MAX_QS]\<rparr>"

section \<open>The invariant of the queues\<close>

text \<open>Every queue event has a control block of its own, outside the free list, and tasks wait for a
  queue only while it is empty.\<close>

definition q_inv :: "os \<Rightarrow> qtab \<Rightarrow> bool" where
  "q_inv s qt \<longleftrightarrow> length (OSQTbl qt) < 2 ^ 31 \<and> distinct (OSQFreeList qt) \<and> set (OSQFreeList qt) \<subseteq> {..<length (OSQTbl qt)} \<and>
     (\<forall>e<length (OSEvents s). OSEventType (OSEvents s ! e) = OS_EVENT_TYPE_Q \<longrightarrow>
        (\<exists>k. the_q e s qt = Some k \<and> k \<notin> set (OSQFreeList qt) \<and> q_ok (OSQTbl qt ! k) \<and>
           (waits s e = {} \<or> OSQEntries (OSQTbl qt ! k) = 0))) \<and>
     (\<forall>d<length (OSEvents s). \<forall>e<length (OSEvents s). OSEventType (OSEvents s ! d) = OS_EVENT_TYPE_Q \<longrightarrow>
        OSEventType (OSEvents s ! e) = OS_EVENT_TYPE_Q \<longrightarrow> the_q d s qt = the_q e s qt \<longrightarrow> d = e)"

lemma q_invD:
  assumes "q_inv s qt" "e < length (OSEvents s)" "OSEventType (OSEvents s ! e) = OS_EVENT_TYPE_Q"
  obtains k where "the_q e s qt = Some k" "k \<notin> set (OSQFreeList qt)" "q_ok (OSQTbl qt ! k)" "k < length (OSQTbl qt)"
    "waits s e \<noteq> {} \<Longrightarrow> OSQEntries (OSQTbl qt ! k) = 0"
proof -
  have "\<forall>e<length (OSEvents s). OSEventType (OSEvents s ! e) = OS_EVENT_TYPE_Q \<longrightarrow>
        (\<exists>k. the_q e s qt = Some k \<and> k \<notin> set (OSQFreeList qt) \<and> q_ok (OSQTbl qt ! k) \<and>
           (waits s e = {} \<or> OSQEntries (OSQTbl qt ! k) = 0))"
    using assms(1) unfolding q_inv_def by (elim conjE) assumption
  then obtain k where k: "the_q e s qt = Some k" "k \<notin> set (OSQFreeList qt)" "q_ok (OSQTbl qt ! k)"
    "waits s e = {} \<or> OSQEntries (OSQTbl qt ! k) = 0"
    using assms(2,3) by blast
  have "k < length (OSQTbl qt)" using k(1) by (auto simp: the_q_def Let_def split: if_splits)
  then show thesis using that k by blast
qed

lemma q_inj:
  assumes "q_inv s qt" "d < length (OSEvents s)" "e < length (OSEvents s)" "OSEventType (OSEvents s ! d) = OS_EVENT_TYPE_Q"
    "OSEventType (OSEvents s ! e) = OS_EVENT_TYPE_Q" "the_q d s qt = the_q e s qt"
  shows "d = e"
  using assms unfolding q_inv_def by blast

text \<open>Calls that leave the queues alone and wake waiting tasks only.\<close>

lemma q_inv_cong:
  assumes q: "q_inv s qt" and len: "length (OSEvents s') = length (OSEvents s)"
    and ev: "\<And>e. e < length (OSEvents s) \<Longrightarrow> OSEventType (OSEvents s' ! e) = OSEventType (OSEvents s ! e) \<and>
      OSEventPtr (OSEvents s' ! e) = OSEventPtr (OSEvents s ! e) \<and> waits s' e \<subseteq> waits s e"
  shows "q_inv s' qt"
proof -
  have tq: "the_q e s' qt = the_q e s qt" if "e < length (OSEvents s)" for e using ev [OF that] by (simp add: the_q_def)
  have one: "\<exists>k. the_q e s' qt = Some k \<and> k \<notin> set (OSQFreeList qt) \<and> q_ok (OSQTbl qt ! k) \<and>
      (waits s' e = {} \<or> OSQEntries (OSQTbl qt ! k) = 0)"
    if e: "e < length (OSEvents s)" "OSEventType (OSEvents s' ! e) = OS_EVENT_TYPE_Q" for e
  proof -
    have ty: "OSEventType (OSEvents s ! e) = OS_EVENT_TYPE_Q" using ev [OF e(1)] e(2) by simp
    obtain k where "the_q e s qt = Some k" "k \<notin> set (OSQFreeList qt)" "q_ok (OSQTbl qt ! k)"
      "waits s e \<noteq> {} \<Longrightarrow> OSQEntries (OSQTbl qt ! k) = 0" using q_invD [OF q e(1) ty] by metis
    then show ?thesis using tq [OF e(1)] ev [OF e(1)] by auto
  qed
  have two: "d = e" if "d < length (OSEvents s)" "e < length (OSEvents s)" "OSEventType (OSEvents s' ! d) = OS_EVENT_TYPE_Q"
      "OSEventType (OSEvents s' ! e) = OS_EVENT_TYPE_Q" "the_q d s' qt = the_q e s' qt" for d e
    using q_inj [OF q that(1,2)] that ev [OF that(1)] ev [OF that(2)] tq by simp
  have "length (OSQTbl qt) < 2 ^ 31 \<and> distinct (OSQFreeList qt) \<and> set (OSQFreeList qt) \<subseteq> {..<length (OSQTbl qt)}"
    using q unfolding q_inv_def by blast
  then show ?thesis unfolding q_inv_def len using one two by blast
qed

lemma q_inv_wake:
  assumes "q_inv s qt" "e < length (OSEvents s)" "waits (wake i e m msk ps s) e = waits s e - {p}"
  shows "q_inv (wake i e m msk ps s) qt"
proof (rule q_inv_cong [OF assms(1)])
  fix d assume "d < length (OSEvents s)"
  show "OSEventType (OSEvents (wake i e m msk ps s) ! d) = OSEventType (OSEvents s ! d) \<and>
      OSEventPtr (OSEvents (wake i e m msk ps s) ! d) = OSEventPtr (OSEvents s ! d) \<and>
      waits (wake i e m msk ps s) d \<subseteq> waits s d"
    using assms(3) by (cases "d = e") (auto simp: wake_type wake_ptr)
qed simp

lemma q_inv_switched:
  assumes "q_inv s qt" "switched s s'"
  shows "q_inv s' qt"
proof -
  have "OSEvents s' = OSEvents s" by (rule switchedD(6) [OF assms(2)])
  then show ?thesis by (intro q_inv_cong [OF assms(1)]) simp_all
qed

text \<open>Calls that change the control block of one queue.\<close>

lemma q_inv_upd:
  assumes q: "q_inv s qt" and e: "e < length (OSEvents s)" "OSEventType (OSEvents s ! e) = OS_EVENT_TYPE_Q"
    and k: "the_q e s qt = Some k" and new: "q_ok q'" "waits s e = {} \<or> OSQEntries q' = 0"
  shows "q_inv s (qt\<lparr>OSQTbl := (OSQTbl qt)[k := q']\<rparr>)"
proof -
  let ?qt = "qt\<lparr>OSQTbl := (OSQTbl qt)[k := q']\<rparr>"
  have tq: "the_q d s ?qt = the_q d s qt" for d by (simp add: the_q_def)
  have one: "\<exists>j. the_q d s ?qt = Some j \<and> j \<notin> set (OSQFreeList ?qt) \<and> q_ok (OSQTbl ?qt ! j) \<and>
      (waits s d = {} \<or> OSQEntries (OSQTbl ?qt ! j) = 0)"
    if d: "d < length (OSEvents s)" "OSEventType (OSEvents s ! d) = OS_EVENT_TYPE_Q" for d
  proof -
    obtain j where j: "the_q d s qt = Some j" "j \<notin> set (OSQFreeList qt)" "q_ok (OSQTbl qt ! j)" "j < length (OSQTbl qt)"
      "waits s d \<noteq> {} \<Longrightarrow> OSQEntries (OSQTbl qt ! j) = 0" using q_invD [OF q d] by metis
    show ?thesis
    proof (cases "d = e")
      case True
      then show ?thesis using j k new tq by (intro exI [where x = k]) simp
    next
      case False
      then have "j \<noteq> k" using q_inj [OF q d(1) e(1) d(2) e(2)] j(1) k by auto
      then show ?thesis using j tq by (intro exI [where x = j]) auto
    qed
  qed
  have "length (OSQTbl qt) < 2 ^ 31 \<and> distinct (OSQFreeList qt) \<and> set (OSQFreeList qt) \<subseteq> {..<length (OSQTbl qt)}"
    using q unfolding q_inv_def by blast
  then show ?thesis unfolding q_inv_def using one q_inj [OF q] tq by simp
qed

section \<open>Posting\<close>

lemma queue_bit: "pend_bit OS_EVENT_TYPE_Q = OS_STAT_Q"
  by (simp add: pend_bit_def OS_EVENT_TYPE_Q_def OS_EVENT_TYPE_SEM_def OS_EVENT_TYPE_MBOX_def)

lemma on_q_post:
  assumes q: "q_inv s qt" and e: "e < length (OSEvents s)" "OSEventType (OSEvents s ! e) = OS_EVENT_TYPE_Q"
    and w: "waits s e = {}"
    and f: "\<And>q. q_ok q \<Longrightarrow> \<exists>r q'. f q = Some (r, q') \<and> q_ok q'"
  shows "\<exists>r qt'. on_q f e s qt = Some (r, qt') \<and> q_inv s qt'"
proof -
  obtain k where k: "the_q e s qt = Some k" "q_ok (OSQTbl qt ! k)" using q_invD [OF q e] by metis
  obtain r q' where "f (OSQTbl qt ! k) = Some (r, q')" "q_ok q'" using f [OF k(2)] by blast
  then show ?thesis using q_inv_upd [OF q e k(1)] w k(1) by (simp add: on_q_def)
qed

lemma post_with_ok:
  assumes st: "stable s" and q: "q_inv s qt" and e: "e < length (OSEvents s)"
    and ty: "OSEventType (OSEvents s ! e) = OS_EVENT_TYPE_Q"
    and f: "\<And>q. q_ok q \<Longrightarrow> \<exists>r q'. f q = Some (r, q') \<and> q_ok q'"
  shows "\<exists>r s' qt'. (if OSEventGrp (OSEvents s ! e) \<noteq> 0
      then do {
        (_, s) \<leftarrow> OS_EventTaskRdy e m OS_STAT_Q OS_STAT_PEND_OK s;
        s \<leftarrow> OS_Sched s;
        Some (OS_ERR_NONE, s, qt)
      }
      else do { (err, qt) \<leftarrow> on_q f e s qt; Some (err, s, qt) }) = Some (r, s', qt') \<and> good X s s' \<and> q_inv s' qt'"
proof (cases "waits s e = {}")
  case em: True
  have k: "kernel_ok s" using st by (simp add: stable_def)
  obtain r qt' where "on_q f e s qt = Some (r, qt')" "q_inv s qt'"
    using on_q_post [where f = f, OF q e ty em f] by blast
  then show ?thesis using em group_waits [OF k e] good_refl [OF st] by simp
next
  case ne: False
  have k: "kernel_ok s" using st by (simp add: stable_def)
  have m: "OS_STAT_Q = pend_bit (OSEventType (OSEvents s ! e))" by (simp add: ty queue_bit)
  obtain i p s' where s': "OS_EventTaskRdy e m OS_STAT_Q OS_STAT_PEND_OK s = Some (p, wake i e m OS_STAT_Q OS_STAT_PEND_OK s)"
    "OS_Sched (wake i e m OS_STAT_Q OS_STAT_PEND_OK s) = Some s'"
    "switched (wake i e m OS_STAT_Q OS_STAT_PEND_OK s) s'" "good X s s'"
    and i: "i \<in> set (OSTCBList s)" "prio_of s i \<in> waits s e"
    using wake_sched [OF st e ne m] by metis
  have "q_inv s' qt" using q_inv_switched [OF q_inv_wake [OF q e wake_ok(4) [OF k e i m]] s'(3)] .
  then show ?thesis using ne group_waits [OF k e] s'(1,2,4) by simp
qed

lemma q_post_keeps: "q_ok q \<Longrightarrow> \<exists>r q'. q_post m q = Some (r, q') \<and> q_ok q'"
  using ring.post_contents by blast

lemma q_front_keeps: "q_ok q \<Longrightarrow> \<exists>r q'. q_post_front m q = Some (r, q') \<and> q_ok q'"
  using ring.front_contents by blast

lemma OSQPost_ok:
  assumes st: "stable s" and q: "q_inv s qt" and e: "e < length (OSEvents s)"
  shows "\<exists>r s' qt'. OSQPost e m s qt = Some (r, s', qt') \<and> good X s s' \<and> q_inv s' qt'"
proof (cases "OSEventType (OSEvents s ! e) = OS_EVENT_TYPE_Q")
  case True
  show ?thesis
    using post_with_ok [where f = "q_post m" and m = m and X = X, OF st q e True q_post_keeps] True by (simp add: OSQPost_def)
next
  case False
  then show ?thesis using good_refl [OF st] q by (simp add: OSQPost_def)
qed

lemma OSQPostFront_ok:
  assumes st: "stable s" and q: "q_inv s qt" and e: "e < length (OSEvents s)"
  shows "\<exists>r s' qt'. OSQPostFront e m s qt = Some (r, s', qt') \<and> good X s s' \<and> q_inv s' qt'"
proof (cases "OSEventType (OSEvents s ! e) = OS_EVENT_TYPE_Q")
  case True
  show ?thesis
    using post_with_ok [where f = "q_post_front m" and m = m and X = X, OF st q e True q_front_keeps] True by (simp add: OSQPostFront_def)
next
  case False
  then show ?thesis using good_refl [OF st] q by (simp add: OSQPostFront_def)
qed

section \<open>Accepting and waiting\<close>

lemma on_q_accept:
  assumes q: "q_inv s qt" and e: "e < length (OSEvents s)" "OSEventType (OSEvents s ! e) = OS_EVENT_TYPE_Q"
    and f: "\<And>q. q_ok q \<Longrightarrow> \<exists>r q'. f q = Some (r, q') \<and> q_ok q' \<and> (OSQEntries q = 0 \<longrightarrow> OSQEntries q' = 0)"
  shows "\<exists>r qt'. on_q f e s qt = Some (r, qt') \<and> q_inv s qt'"
proof -
  obtain k where k: "the_q e s qt = Some k" "q_ok (OSQTbl qt ! k)" "waits s e \<noteq> {} \<Longrightarrow> OSQEntries (OSQTbl qt ! k) = 0"
    using q_invD [OF q e] by metis
  obtain r q' where f': "f (OSQTbl qt ! k) = Some (r, q')" "q_ok q'" "OSQEntries (OSQTbl qt ! k) = 0 \<longrightarrow> OSQEntries q' = 0"
    using f [OF k(2)] by blast
  have "waits s e = {} \<or> OSQEntries q' = 0" using k(3) f'(3) by blast
  then show ?thesis using q_inv_upd [OF q e k(1) f'(2)] k(1) f'(1) by (simp add: on_q_def)
qed

lemma OSQAccept_ok:
  assumes q: "q_inv s qt" and e: "e < length (OSEvents s)"
  shows "\<exists>r qt'. OSQAccept e s qt = Some (r, qt') \<and> q_inv s qt'"
proof (cases "OSEventType (OSEvents s ! e) = OS_EVENT_TYPE_Q")
  case True
  let ?f = "\<lambda>q. map_option (\<lambda>(m, err, q). ((m, err), q)) (q_accept q)"
  have "\<exists>r q'. ?f q = Some (r, q') \<and> q_ok q' \<and> (OSQEntries q = 0 \<longrightarrow> OSQEntries q' = 0)" if "q_ok q" for q
  proof (cases "q_list q")
    case Nil
    then show ?thesis using ring.accept_none [OF that] that by (simp add: q_empty_iff)
  next
    case (Cons m ms)
    then have "OSQEntries q \<noteq> 0" using q_empty_iff [of q] by auto
    then show ?thesis using ring.accept_some [OF that Cons] by auto
  qed
  then show ?thesis using on_q_accept [OF q e True, of ?f] True by (simp add: OSQAccept_def)
qed (use q in \<open>simp add: OSQAccept_def\<close>)

lemma OSQFlush_ok:
  assumes q: "q_inv s qt" and e: "e < length (OSEvents s)" "OSEventType (OSEvents s ! e) = OS_EVENT_TYPE_Q"
  shows "\<exists>r qt'. OSQFlush e s qt = Some (r, qt') \<and> q_inv s qt'"
  unfolding OSQFlush_def by (rule on_q_accept [OF q e]) (simp add: q_clear_ok, simp add: q_clear_def)

lemma q_inv_block:
  assumes q: "q_inv s qt" and e: "e < length (OSEvents s)" "OSEventType (OSEvents s ! e) = OS_EVENT_TYPE_Q"
    and k: "the_q e s qt = Some k" "OSQEntries (OSQTbl qt ! k) = 0"
  shows "q_inv (block c e b n s) qt"
proof -
  let ?s = "block c e b n s"
  have len: "length (OSEvents ?s) = length (OSEvents s)" by (simp add: block_def Let_def)
  have ev: "OSEventType (OSEvents ?s ! d) = OSEventType (OSEvents s ! d) \<and> OSEventPtr (OSEvents ?s ! d) = OSEventPtr (OSEvents s ! d) \<and>
      (d \<noteq> e \<longrightarrow> waits ?s d = waits s d)" if "d < length (OSEvents s)" for d
    using that by (cases "d = e") (simp_all add: block_def Let_def set_wait_def)
  have tq: "the_q d ?s qt = the_q d s qt" if "d < length (OSEvents s)" for d using ev [OF that] by (simp add: the_q_def)
  have one: "\<exists>j. the_q d ?s qt = Some j \<and> j \<notin> set (OSQFreeList qt) \<and> q_ok (OSQTbl qt ! j) \<and>
      (waits ?s d = {} \<or> OSQEntries (OSQTbl qt ! j) = 0)"
    if d: "d < length (OSEvents s)" "OSEventType (OSEvents ?s ! d) = OS_EVENT_TYPE_Q" for d
  proof -
    have ty: "OSEventType (OSEvents s ! d) = OS_EVENT_TYPE_Q" using ev [OF d(1)] d(2) by simp
    obtain j where j: "the_q d s qt = Some j" "j \<notin> set (OSQFreeList qt)" "q_ok (OSQTbl qt ! j)"
      "waits s d \<noteq> {} \<Longrightarrow> OSQEntries (OSQTbl qt ! j) = 0" using q_invD [OF q d(1) ty] by metis
    show ?thesis using j k ev [OF d(1)] tq [OF d(1)] by (cases "d = e") auto
  qed
  have two: "d = d'" if "d < length (OSEvents s)" "d' < length (OSEvents s)" "OSEventType (OSEvents ?s ! d) = OS_EVENT_TYPE_Q"
      "OSEventType (OSEvents ?s ! d') = OS_EVENT_TYPE_Q" "the_q d ?s qt = the_q d' ?s qt" for d d'
    using q_inj [OF q that(1,2)] that ev [OF that(1)] ev [OF that(2)] tq by simp
  have "length (OSQTbl qt) < 2 ^ 31 \<and> distinct (OSQFreeList qt) \<and> set (OSQFreeList qt) \<subseteq> {..<length (OSQTbl qt)}"
    using q unfolding q_inv_def by blast
  then show ?thesis unfolding q_inv_def len using one two by blast
qed

lemma OSQPend_ok:
  assumes st: "stable s" and q: "q_inv s qt" and e: "e < length (OSEvents s)"
    and c: "OSTCBCur s = TCB c" "prio_of s c \<noteq> 63" "OSTCBEventPtr (OSTCBTbl s ! c) = None"
  shows "(\<exists>r qt'. OSQPend e timeout s qt = Some (Some r, s, qt') \<and> q_inv s qt') \<or>
    (\<exists>s'. OSQPend e timeout s qt = Some (None, s', qt) \<and> switched (block c e OS_STAT_Q timeout s) s' \<and> stable s' \<and> q_inv s' qt \<and>
       OSEventType (OSEvents s ! e) = OS_EVENT_TYPE_Q \<and> OSIntNesting s = 0 \<and> OSLockNesting s = 0)"
proof (cases "OSEventType (OSEvents s ! e) = OS_EVENT_TYPE_Q \<and> OSIntNesting s = 0 \<and> OSLockNesting s = 0")
  case False
  then show ?thesis using q by (auto simp: OSQPend_def word_gt_0)
next
  case True
  then have ty: "OSEventType (OSEvents s ! e) = OS_EVENT_TYPE_Q" and z: "OSIntNesting s = 0" "OSLockNesting s = 0" by simp_all
  have k: "kernel_ok s" "cur_ok s" using st by (simp_all add: stable_def)
  obtain j where j: "the_q e s qt = Some j" "q_ok (OSQTbl qt ! j)" "waits s e \<noteq> {} \<Longrightarrow> OSQEntries (OSQTbl qt ! j) = 0"
    using q_invD [OF q e ty] by metis
  show ?thesis
  proof (cases "OSQEntries (OSQTbl qt ! j) = 0")
    case False
    obtain q' where g: "q_get (OSQTbl qt ! j) = Some (hd (q_list (OSQTbl qt ! j)), q')" "q_ok q'"
      using q_get_ok [OF j(2) False] by blast
    have "waits s e = {}" using j(3) False by blast
    then show ?thesis using q_inv_upd [OF q e ty j(1) g(2)] ty z j(1) False g(1) by (simp add: OSQPend_def word_gt_0)
  next
    case em: True
    note C = current_ready [OF st z c(1)]
    note t = tcb_okD [OF kernel_okD(4) [OF k(1) C(1)]]
    have il: "c < length (OSTCBTbl s)" by (rule list_in_table [OF kernel_okD(1) [OF k(1)] C(1)])
    have m: "OS_STAT_Q = pend_bit (OSEventType (OSEvents s ! e))" by (simp add: ty queue_bit)
    have m0: "OS_STAT_Q \<noteq> 0" by (simp add: OS_STAT_Q_def)
    have cn: "OSEventType (OSEvents s ! e) = OS_EVENT_TYPE_SEM \<longrightarrow> OSEventCnt (OSEvents s ! e) = 0"
      by (simp add: ty OS_EVENT_TYPE_Q_def OS_EVENT_TYPE_SEM_def)
    note B = block_ok [OF k(1) e C(1) c(3) C(4) c(2) m m0 cn]
    have cu: "cur_ok (block c e OS_STAT_Q timeout s)"
      by (rule touches_cur [OF k(2) B(2)]) (simp_all add: block_def Let_def)
    obtain s' where s': "OS_Sched (block c e OS_STAT_Q timeout s) = Some s'"
      "switched (block c e OS_STAT_Q timeout s) s'" "kernel_ok s'" "cur_ok s'" "highest s'"
      using OS_Sched_ok [OF B(1) cu] by blast
    have "OSQPend e timeout s qt = Some (None, s', qt)"
      using True j(1) em c(1) OS_EventTaskWait_eq [OF c(1) t(1) il] s'(1) by (simp add: OSQPend_def)
    moreover have "q_inv s' qt" by (rule q_inv_switched [OF q_inv_block [OF q e ty j(1) em] s'(2)])
    ultimately show ?thesis using s' True by (simp add: stable_def)
  qed
qed

lemma upd_tcb_twice:
  "c < length (OSTCBTbl s) \<Longrightarrow> upd_tcb c g (upd_tcb c f s) = upd_tcb c (\<lambda>t. g (f t)) s"
  by (simp add: upd_tcb_def)

lemma remove_len [simp]: "length (OSTCBTbl (OS_EventTaskRemove i e s)) = length (OSTCBTbl s)"
  by (simp add: OS_EventTaskRemove_def upd_tcb_def upd_event_def Let_def)

lemma OSQPend_end_ok:
  assumes st: "stable s" and q: "q_inv s qt" and e: "e < length (OSEvents s)" and z: "OSIntNesting s = 0" "OSLockNesting s = 0"
    and c: "OSTCBCur s = TCB c" "OSTCBEventPtr (OSTCBTbl s ! c) \<in> {None, Some e}" and X: "c \<in> X"
  shows "\<exists>m r s'. OSQPend_end e s = Some (m, r, s') \<and> good X s s' \<and> q_inv s' qt \<and>
    OSTCBEventPtr (OSTCBTbl s' ! c) = None \<and> OSTCBCur s' = TCB c \<and>
    (OSTCBStatPend (OSTCBTbl s ! c) = OS_STAT_PEND_OK \<longrightarrow> m = OSTCBMsg (OSTCBTbl s ! c) \<and> r = OS_ERR_NONE)"
proof -
  have k: "kernel_ok s" "cur_ok s" using st by (simp_all add: stable_def)
  note C = current_ready [OF st z c(1)]
  note E = end_wait_ok [OF k(1) e C(1) c(2) C(4)]
  let ?s1 = "end_wait c e s"
  obtain r1 s1 where g1: "good X s ?s1"
    using OSSemPend_end_ok [OF st e z c X] OSSemPend_end_eq [OF c(1), of e] by auto
  have st1: "stable ?s1" using g1 by (simp add: good_def)
  have sel: "OSTCBCur ?s1 = OSTCBCur s" "OSPrioCur ?s1 = OSPrioCur s" "OSTCBList ?s1 = OSTCBList s"
    "length (OSEvents ?s1) = length (OSEvents s)"
    using g1 by (simp_all add: good_def quiet_def end_wait_def upd_tcb_def OS_EventTaskRemove_def upd_event_def Let_def)
  have k1: "kernel_ok ?s1" "cur_ok ?s1" using st1 by (simp_all add: stable_def)
  have c1: "c \<in> set (OSTCBList ?s1)" using C(1) sel(3) by simp
  note t1 = tcb_okD [OF kernel_okD(4) [OF k1(1) c1]]
  have il: "c < length (OSTCBTbl ?s1)" by (rule list_in_table [OF kernel_okD(1) [OF k1(1)] c1])
  let ?t = "(OSTCBTbl ?s1 ! c)\<lparr>OSTCBMsg := 0\<rparr>"
  let ?s2 = "put_task c ?t (rdy_map ?s1) ?s1"
  have so: "stat_ok ?s1 ?t" by (simp add: E(4) stat_ok_def)
  have sp: "same_place (OSTCBTbl ?s1 ! c) ?t" by (simp add: same_place_def)
  have rd: "prio_of ?s1 c \<in> prios (rdy_map ?s1) \<longleftrightarrow> OSTCBStat ?t = 0 \<and> OSTCBDly ?t = 0" using t1(4) by simp
  have idle: "OSTCBStat ?t = 0 \<and> OSTCBDly ?t = 0" if "prio_of ?s1 c = 63" using t1(8) [OF that] by simp
  have P: "kernel_ok ?s2" "touches c ?s1 ?s2"
    using put_task_ok [OF k1(1) c1 sp kernel_okD(2) [OF k1(1)] refl rd so idle] by blast+
  have il0: "c < length (OSTCBTbl s)" by (rule list_in_table [OF kernel_okD(1) [OF k(1)] C(1)])
  have eq: "?s2 = upd_tcb c (\<lambda>t. t\<lparr>OSTCBMsg := 0\<rparr>) ?s1" by (simp add: put_task_def upd_tcb_def)
  have "\<exists>m r. OSQPend_end e s = Some (m, r, ?s2) \<and>
      (OSTCBStatPend (OSTCBTbl s ! c) = OS_STAT_PEND_OK \<longrightarrow> m = OSTCBMsg (OSTCBTbl s ! c) \<and> r = OS_ERR_NONE)"
    using c(1) il0 unfolding eq
    by (auto simp: OSQPend_end_def end_wait_def Let_def upd_tcb_twice OS_STAT_PEND_OK_def OS_STAT_PEND_ABORT_def)
  moreover have "good X s ?s2"
  proof -
    have cu: "cur_ok ?s2" by (rule touches_cur [OF k1(2) P(2)]) (simp_all add: put_task_def)
    have "quiet X ?s1 ?s2" using X il by (intro touches_quiet [OF P(2)]) (simp_all add: put_task_def)
    moreover have "quiet X s ?s1" using g1 by (simp add: good_def)
    ultimately have "quiet X s ?s2" by (rule quiet_trans [rotated])
    then show ?thesis using E(3) sel by (intro good_stay [OF st P(1) cu]) (simp_all add: put_task_def)
  qed
  moreover have "q_inv ?s2 qt"
  proof (rule q_inv_cong [OF q])
    fix d assume d: "d < length (OSEvents s)"
    have "OSEventType (OSEvents ?s1 ! d) = OSEventType (OSEvents s ! d) \<and> OSEventPtr (OSEvents ?s1 ! d) = OSEventPtr (OSEvents s ! d)"
      using d by (cases "d = e") (simp_all add: end_wait_def upd_tcb_def OS_EventTaskRemove_def upd_event_def set_wait_def Let_def)
    moreover have "waits ?s1 d \<subseteq> waits s d" using E(5,6) by (cases "d = e") auto
    ultimately show "OSEventType (OSEvents ?s2 ! d) = OSEventType (OSEvents s ! d) \<and>
        OSEventPtr (OSEvents ?s2 ! d) = OSEventPtr (OSEvents s ! d) \<and> waits ?s2 d \<subseteq> waits s d"
      by (simp add: put_task_def)
  qed (simp add: put_task_def sel)
  ultimately show ?thesis using E(4) c(1) sel(1) il by auto
qed

section \<open>Creating and deleting queues\<close>

lemma free_self: "OSEventFreeList s = xs \<Longrightarrow> s\<lparr>OSEventFreeList := xs\<rparr> = s"
  by auto

lemma OSQCreate_ok:
  assumes st: "stable s" and q: "q_inv s qt" and len: "length start = unat n"
  shows "good X s (fst (snd (OSQCreate start n s qt))) \<and>
    q_inv (fst (snd (OSQCreate start n s qt))) (snd (snd (OSQCreate start n s qt)))"
proof (cases "OSIntNesting s > 0 \<or> OSEventFreeList s = [] \<or> OSQFreeList qt = []")
  case True
  then show ?thesis using good_refl [OF st] q by (auto simp: OSQCreate_def Let_def free_self split: list.splits)
next
  case False
  then obtain e free k kfree where f: "OSEventFreeList s = e # free" "OSQFreeList qt = k # kfree"
    by (cases "OSEventFreeList s"; cases "OSQFreeList qt") auto
  have ko: "kernel_ok s" using st by (simp add: stable_def)
  note e = first_free_event [OF ko f(1)]
  let ?ev = "(OSEvents s ! e)\<lparr>OSEventType := OS_EVENT_TYPE_Q, OSEventCnt := 0, OSEventPtr := of_nat (k + 1)\<rparr>"
  let ?s = "s\<lparr>OSEvents := (OSEvents s)[e := set_wait map_empty ?ev], OSEventFreeList := free\<rparr>"
  let ?qt = "qt\<lparr>OSQTbl := (OSQTbl qt)[k := q_make start n], OSQFreeList := kfree\<rparr>"
  have eq: "OSQCreate start n s qt = (Some e, ?s, ?qt)"
    using False f e(1) by (simp add: OSQCreate_def OS_EventWaitListInit_def upd_event_def Let_def map_empty_def)
  have b: "length (OSQTbl qt) < 2 ^ 31" "distinct (k # kfree)" "set (k # kfree) \<subseteq> {..<length (OSQTbl qt)}"
    using q f(2) unfolding q_inv_def by simp_all
  have ptr: "unat (of_nat (k + 1) :: u32) = k + 1" by (rule unat_of_nat_small) (use b in simp)
  have new: "the_q e ?s ?qt = Some k" using e(1) ptr b(3) by (simp add: the_q_def set_wait_def Let_def)
  have old: "the_q d ?s ?qt = the_q d s qt" if "d \<noteq> e" for d using that by (simp add: the_q_def)
  have one: "\<exists>j. the_q d ?s ?qt = Some j \<and> j \<notin> set (OSQFreeList ?qt) \<and> q_ok (OSQTbl ?qt ! j) \<and>
      (waits ?s d = {} \<or> OSQEntries (OSQTbl ?qt ! j) = 0) \<and> (d \<noteq> e \<longrightarrow> j \<noteq> k)"
    if d: "d < length (OSEvents s)" "OSEventType (OSEvents ?s ! d) = OS_EVENT_TYPE_Q" for d
  proof (cases "d = e")
    case True
    then show ?thesis using new b q_make_ok [OF len] by (intro exI [where x = k]) (simp add: q_make_def)
  next
    case False
    then have ty: "OSEventType (OSEvents s ! d) = OS_EVENT_TYPE_Q" using d(2) by simp
    obtain j where j: "the_q d s qt = Some j" "j \<notin> set (OSQFreeList qt)" "q_ok (OSQTbl qt ! j)"
      "waits s d \<noteq> {} \<Longrightarrow> OSQEntries (OSQTbl qt ! j) = 0" using q_invD [OF q d(1) ty] by metis
    then have "j \<noteq> k" using f(2) by auto
    then show ?thesis using j f(2) old [OF False] False by (intro exI [where x = j]) auto
  qed
  have two: "d = d'" if d: "d < length (OSEvents s)" "d' < length (OSEvents s)" "OSEventType (OSEvents ?s ! d) = OS_EVENT_TYPE_Q"
      "OSEventType (OSEvents ?s ! d') = OS_EVENT_TYPE_Q" "the_q d ?s ?qt = the_q d' ?s ?qt" for d d'
  proof -
    have "d = e \<longleftrightarrow> d' = e" using one [OF d(1,3)] one [OF d(2,4)] new d(5) by auto
    moreover have "d = d'" if "d \<noteq> e" "d' \<noteq> e"
      using q_inj [OF q d(1,2)] d that old by simp
    ultimately show ?thesis by blast
  qed
  have "q_inv ?s ?qt"
    unfolding q_inv_def using one two b by simp blast
  then show ?thesis using eq create_good [OF st f(1)] by simp
qed

lemma q_inv_free:
  assumes q: "q_inv s qt" and e: "e < length (OSEvents s)" "OSEventType (OSEvents s ! e) = OS_EVENT_TYPE_Q"
  shows "\<exists>qt'. free_q e s qt = Some qt' \<and> q_inv (free_event e s) qt'"
proof -
  obtain k where k: "the_q e s qt = Some k" "k \<notin> set (OSQFreeList qt)" "k < length (OSQTbl qt)" using q_invD [OF q e] by metis
  let ?s = "free_event e s" and ?qt = "qt\<lparr>OSQFreeList := k # OSQFreeList qt\<rparr>"
  have ne: "d \<noteq> e \<and> OSEventType (OSEvents s ! d) = OS_EVENT_TYPE_Q"
    if "d < length (OSEvents s)" "OSEventType (OSEvents ?s ! d) = OS_EVENT_TYPE_Q" for d
    using that e by (cases "d = e") (simp_all add: free_event_def upd_event_def Let_def OS_EVENT_TYPE_UNUSED_def OS_EVENT_TYPE_Q_def)
  have same: "OSEvents ?s ! d = OSEvents s ! d" if "d \<noteq> e" for d
    using that by (simp add: free_event_def upd_event_def Let_def)
  have tq: "the_q d ?s ?qt = the_q d s qt" if "d \<noteq> e" for d using same [OF that] by (simp add: the_q_def)
  have one: "\<exists>j. the_q d ?s ?qt = Some j \<and> j \<notin> set (OSQFreeList ?qt) \<and> q_ok (OSQTbl ?qt ! j) \<and>
      (waits ?s d = {} \<or> OSQEntries (OSQTbl ?qt ! j) = 0)"
    if d: "d < length (OSEvents s)" "OSEventType (OSEvents ?s ! d) = OS_EVENT_TYPE_Q" for d
  proof -
    note n = ne [OF d]
    obtain j where j: "the_q d s qt = Some j" "j \<notin> set (OSQFreeList qt)" "q_ok (OSQTbl qt ! j)"
      "waits s d \<noteq> {} \<Longrightarrow> OSQEntries (OSQTbl qt ! j) = 0" using q_invD [OF q d(1)] n by metis
    have "j \<noteq> k" using q_inj [OF q d(1) e(1)] n e(2) j(1) k(1) by auto
    then show ?thesis using j tq n same by (intro exI [where x = j]) auto
  qed
  have two: "d = d'" if d: "d < length (OSEvents s)" "d' < length (OSEvents s)" "OSEventType (OSEvents ?s ! d) = OS_EVENT_TYPE_Q"
      "OSEventType (OSEvents ?s ! d') = OS_EVENT_TYPE_Q" "the_q d ?s ?qt = the_q d' ?s ?qt" for d d'
    using q_inj [OF q d(1,2)] ne [OF d(1,3)] ne [OF d(2,4)] d(5) tq by simp
  have b: "length (OSQTbl qt) < 2 ^ 31" "distinct (OSQFreeList qt)" "set (OSQFreeList qt) \<subseteq> {..<length (OSQTbl qt)}"
    using q unfolding q_inv_def by simp_all
  have "q_inv ?s ?qt"
    unfolding q_inv_def using one two b k(2,3) by simp
  then show ?thesis using k(1) by (simp add: free_q_def)
qed

lemma abort_all:
  assumes st: "stable s" and q: "q_inv s qt" and e: "e < length (OSEvents s)" "OSEventType (OSEvents s ! e) = OS_EVENT_TYPE_Q"
  obtains n s1 where "ready_all e m OS_STAT_Q ps 0 s = Some (n, s1)" "kernel_ok s1" "cur_ok s1" "quiet X s s1"
    "OSTCBCur s1 = OSTCBCur s" "waits s1 e = {}" "waits s e = {} \<Longrightarrow> s1 = s" "q_inv s1 qt" "e < length (OSEvents s1)"
    "OSEventType (OSEvents s1 ! e) = OS_EVENT_TYPE_Q"
proof -
  have k: "kernel_ok s" "cur_ok s" using st by (simp_all add: stable_def)
  have mk: "OS_STAT_Q = pend_bit (OSEventType (OSEvents s ! e))" by (simp add: e(2) queue_bit)
  obtain n s1 where s1: "ready_all e m OS_STAT_Q ps 0 s = Some (n, s1)" "kernel_ok s1" "cur_ok s1"
    "quiet X s s1" "OSTCBCur s1 = OSTCBCur s" "waits s1 e = {}" "waits s e = {} \<longrightarrow> s1 = s"
    "\<forall>d. OSEventType (OSEvents s1 ! d) = OSEventType (OSEvents s ! d)"
    "\<forall>d. OSEventPtr (OSEvents s1 ! d) = OSEventPtr (OSEvents s ! d)" "\<forall>d. d \<noteq> e \<longrightarrow> OSEvents s1 ! d = OSEvents s ! d"
    using ready_all_ok [OF k e(1) mk] by metis
  have len: "length (OSEvents s1) = length (OSEvents s)" using s1(4) by (simp add: quiet_def)
  have "q_inv s1 qt"
  proof (rule q_inv_cong [OF q len])
    fix d show "OSEventType (OSEvents s1 ! d) = OSEventType (OSEvents s ! d) \<and>
        OSEventPtr (OSEvents s1 ! d) = OSEventPtr (OSEvents s ! d) \<and> waits s1 d \<subseteq> waits s d"
      using s1(6,8,9,10) by (cases "d = e") auto
  qed
  then show thesis using that s1 len e by metis
qed

lemma OSQDel_ok:
  assumes st: "stable s" and q: "q_inv s qt" and e: "e < length (OSEvents s)"
  shows "\<exists>p r s' qt'. OSQDel e opt s qt = Some (p, r, s', qt') \<and> good X s s' \<and> q_inv s' qt'"
proof (cases "OSEventType (OSEvents s ! e) = OS_EVENT_TYPE_Q \<and> \<not> 0 < OSIntNesting s \<and> opt \<in> {OS_DEL_NO_PEND, OS_DEL_ALWAYS}")
  case False
  then show ?thesis using good_refl [OF st] q by (auto simp: OSQDel_def Let_def)
next
  case True
  have ty: "OSEventType (OSEvents s ! e) = OS_EVENT_TYPE_Q" and used: "OSEventType (OSEvents s ! e) \<noteq> OS_EVENT_TYPE_UNUSED"
    using True by (simp_all add: OS_EVENT_TYPE_Q_def OS_EVENT_TYPE_UNUSED_def)
  have k: "kernel_ok s" "cur_ok s" using st by (simp_all add: stable_def)
  have stay: "good X s (free_event e s)" if "waits s e = {}"
    using that used k e by (intro good_stay [OF st] free_event_ok free_event_cur free_event_quiet) simp_all
  obtain qt0 where qt0: "free_q e s qt = Some qt0" "q_inv (free_event e s) qt0" using q_inv_free [OF q e ty] by blast
  show ?thesis
  proof (cases "opt = OS_DEL_NO_PEND")
    case no: True
    show ?thesis
    proof (cases "waits s e = {}")
      case True
      then show ?thesis using \<open>_ \<and> _\<close> no stay qt0 group_waits [OF k(1) e] by (simp add: OSQDel_def Let_def)
    next
      case False
      then show ?thesis using \<open>_ \<and> _\<close> no good_refl [OF st] q group_waits [OF k(1) e] by (simp add: OSQDel_def Let_def)
    qed
  next
    case False
    then have opt: "opt = OS_DEL_ALWAYS" using True by simp
    obtain n s1 where s1: "ready_all e 0 OS_STAT_Q OS_STAT_PEND_ABORT 0 s = Some (n, s1)" "kernel_ok s1" "cur_ok s1" "quiet X s s1"
      "OSTCBCur s1 = OSTCBCur s" "waits s1 e = {}" "waits s e = {} \<Longrightarrow> s1 = s" "q_inv s1 qt" "e < length (OSEvents s1)"
      "OSEventType (OSEvents s1 ! e) = OS_EVENT_TYPE_Q"
      using abort_all [OF st q e ty] by metis
    have f: "kernel_ok (free_event e s1)"
      using free_event_ok [OF s1(2,9,6)] s1(10) by (simp add: OS_EVENT_TYPE_Q_def OS_EVENT_TYPE_UNUSED_def)
    obtain qt1 where qt1: "free_q e s1 qt = Some qt1" "q_inv (free_event e s1) qt1" using q_inv_free [OF s1(8,9,10)] by blast
    show ?thesis
    proof (cases "waits s e = {}")
      case em: True
      then show ?thesis
        using True opt False s1(1) s1(7) [OF em] stay [OF em] qt1 group_waits [OF k(1) e] by (simp add: OSQDel_def Let_def)
    next
      case ne: False
      obtain s' where s': "OS_Sched (free_event e s1) = Some s'" "good X s s'" "switched (free_event e s1) s'"
        using good_sched [OF f free_event_cur [OF s1(3)] free_event_quiet [OF s1(4)]] s1(5) by auto
      have "q_inv s' qt1" by (rule q_inv_switched [OF qt1(2) s'(3)])
      then show ?thesis
        using True opt False s1(1) qt1(1) s'(1,2) ne group_waits [OF k(1) e] by (simp add: OSQDel_def Let_def)
    qed
  qed
qed

lemma OSQPendAbort_ok:
  assumes st: "stable s" and q: "q_inv s qt" and e: "e < length (OSEvents s)"
  shows "\<exists>n r s'. OSQPendAbort e opt s = Some (n, r, s') \<and> good X s s' \<and> q_inv s' qt"
proof (cases "OSEventType (OSEvents s ! e) = OS_EVENT_TYPE_Q \<and> waits s e \<noteq> {}")
  case False
  then show ?thesis using good_refl [OF st] q group_waits [OF _ e] st by (auto simp: OSQPendAbort_def stable_def)
next
  case True
  then have ty: "OSEventType (OSEvents s ! e) = OS_EVENT_TYPE_Q" and w: "waits s e \<noteq> {}" by simp_all
  have k: "kernel_ok s" using st by (simp add: stable_def)
  have m: "OS_STAT_Q = pend_bit (OSEventType (OSEvents s ! e))" by (simp add: ty queue_bit)
  have grp: "OSEventGrp (OSEvents s ! e) \<noteq> 0" using w group_waits [OF k e] by simp
  show ?thesis
  proof (cases "opt = OS_PEND_OPT_BROADCAST")
    case True
    obtain n s1 where s1: "ready_all e 0 OS_STAT_Q OS_STAT_PEND_ABORT 0 s = Some (n, s1)" "kernel_ok s1" "cur_ok s1" "quiet X s s1"
      "OSTCBCur s1 = OSTCBCur s" "q_inv s1 qt"
      using abort_all [OF st q e ty] by metis
    obtain s' where s': "OS_Sched s1 = Some s'" "good X s s'" "switched s1 s'" using good_sched [OF s1(2-5)] by blast
    then show ?thesis using True ty grp s1(1) q_inv_switched [OF s1(6) s'(3)] by (simp add: OSQPendAbort_def)
  next
    case False
    obtain i p s' where s': "OS_EventTaskRdy e 0 OS_STAT_Q OS_STAT_PEND_ABORT s = Some (p, wake i e 0 OS_STAT_Q OS_STAT_PEND_ABORT s)"
      "OS_Sched (wake i e 0 OS_STAT_Q OS_STAT_PEND_ABORT s) = Some s'"
      "switched (wake i e 0 OS_STAT_Q OS_STAT_PEND_ABORT s) s'" "good X s s'"
      and i: "i \<in> set (OSTCBList s)" "prio_of s i \<in> waits s e"
      using wake_sched [OF st e w m] by metis
    have "q_inv s' qt" using q_inv_switched [OF q_inv_wake [OF q e wake_ok(4) [OF k e i m]] s'(3)] .
    then show ?thesis using False ty grp s'(1,2,4) by (simp add: OSQPendAbort_def)
  qed
qed

text \<open>Without \<^verbatim>\<open>OS_POST_OPT_NO_SCHED\<close> the scheduler runs; with it the state may wait for the next call of
  the scheduler.\<close>

lemma OSQPostOpt_ok:
  assumes st: "stable s" and q: "q_inv s qt" and e: "e < length (OSEvents s)"
  shows "\<exists>r s' qt'. OSQPostOpt e m opt s qt = Some (r, s', qt') \<and> kernel_ok s' \<and> cur_ok s' \<and> quiet X s s' \<and> q_inv s' qt' \<and>
    (opt AND OS_POST_OPT_NO_SCHED = 0 \<longrightarrow> good X s s')"
proof (cases "OSEventType (OSEvents s ! e) = OS_EVENT_TYPE_Q")
  case False
  then show ?thesis using good_refl [OF st] q st by (simp add: OSQPostOpt_def stable_def)
next
  case ty: True
  have k: "kernel_ok s" "cur_ok s" using st by (simp_all add: stable_def)
  have mk: "OS_STAT_Q = pend_bit (OSEventType (OSEvents s ! e))" by (simp add: ty queue_bit)
  show ?thesis
  proof (cases "waits s e = {}")
    case em: True
    let ?f = "if opt AND OS_POST_OPT_FRONT \<noteq> 0 then q_post_front m else q_post m"
    have "\<exists>r q'. ?f q = Some (r, q') \<and> q_ok q'" if "q_ok q" for q using q_post_keeps [OF that] q_front_keeps [OF that] by simp
    then obtain r qt' where "on_q ?f e s qt = Some (r, qt')" "q_inv s qt'"
      using on_q_post [where f = ?f, OF q e ty em] by blast
    then show ?thesis using ty em group_waits [OF k(1) e] good_refl [OF st] k by (simp add: OSQPostOpt_def)
  next
    case ne: False
    have grp: "OSEventGrp (OSEvents s ! e) \<noteq> 0" using ne group_waits [OF k(1) e] by simp
    have "\<exists>s1. (if opt AND OS_POST_OPT_BROADCAST \<noteq> 0 then map_option snd (ready_all e m OS_STAT_Q OS_STAT_PEND_OK 0 s)
          else map_option snd (OS_EventTaskRdy e m OS_STAT_Q OS_STAT_PEND_OK s)) = Some s1 \<and>
        kernel_ok s1 \<and> cur_ok s1 \<and> quiet X s s1 \<and> OSTCBCur s1 = OSTCBCur s \<and> q_inv s1 qt"
    proof (cases "opt AND OS_POST_OPT_BROADCAST \<noteq> 0")
      case True
      obtain n s1 where "ready_all e m OS_STAT_Q OS_STAT_PEND_OK 0 s = Some (n, s1)" "kernel_ok s1" "cur_ok s1" "quiet X s s1"
        "OSTCBCur s1 = OSTCBCur s" "q_inv s1 qt"
        using abort_all [OF st q e ty] by metis
      then show ?thesis using True by simp
    next
      case False
      obtain i where i: "OSTCBPrioTbl s ! unat (map_top (wait_map (OSEvents s ! e))) = TCB i" "i \<in> set (OSTCBList s)"
        "prio_of s i \<in> waits s e" using first_waiting [OF k(1) e ne] by metis
      let ?s = "wake i e m OS_STAT_Q OS_STAT_PEND_OK s"
      note W = wake_ok [OF k(1) e i(2,3) mk, of m OS_STAT_PEND_OK]
      have "cur_ok ?s" by (rule touches_cur [OF k(2) W(2)]) simp_all
      then show ?thesis
        using False OS_EventTaskRdy_eq [OF k(1) e ne i(1)] W(1) wake_quiet [OF k(1) e i(2,3) mk] q_inv_wake [OF q e W(4)]
        by simp
    qed
    then obtain s1 where s1: "(if opt AND OS_POST_OPT_BROADCAST \<noteq> 0 then map_option snd (ready_all e m OS_STAT_Q OS_STAT_PEND_OK 0 s)
          else map_option snd (OS_EventTaskRdy e m OS_STAT_Q OS_STAT_PEND_OK s)) = Some s1"
      "kernel_ok s1" "cur_ok s1" "quiet X s s1" "OSTCBCur s1 = OSTCBCur s" "q_inv s1 qt" by blast
    show ?thesis
    proof (cases "opt AND OS_POST_OPT_NO_SCHED = 0")
      case True
      obtain s' where s': "OS_Sched s1 = Some s'" "good X s s'" "switched s1 s'" using good_sched [OF s1(2-5)] by blast
      then have "OSQPostOpt e m opt s qt = Some (OS_ERR_NONE, s', qt)"
        using ty grp s1(1) True by (simp add: OSQPostOpt_def)
      moreover have "q_inv s' qt" by (rule q_inv_switched [OF s1(6) s'(3)])
      ultimately show ?thesis using s'(2) by (simp add: good_def stable_def)
    next
      case False
      then have "OSQPostOpt e m opt s qt = Some (OS_ERR_NONE, s1, qt)" using ty grp s1(1) by (simp add: OSQPostOpt_def)
      then show ?thesis using False s1 by simp
    qed
  qed
qed

end
