(* ===== verification/Os_Msg.thy ===== *)
theory Os_Msg
  imports Os_Q Os_Props
begin

text \<open>What the message queues of uC/OS-II promise: a bounded double-ended queue while no task waits, and
  a message that goes straight to the waiting task of highest priority otherwise.\<close>

section \<open>A sequence of calls\<close>

datatype q_call = QPost u32 | QPostFront u32 | QAccept | QFlush

fun q_call_run :: "nat \<Rightarrow> q_call \<Rightarrow> os \<Rightarrow> qtab \<Rightarrow> ((u32 \<times> u8) \<times> os \<times> qtab) option" where
  "q_call_run e (QPost m) s qt = map_option (\<lambda>(r, s, qt). ((0, r), s, qt)) (OSQPost e m s qt)"
| "q_call_run e (QPostFront m) s qt = map_option (\<lambda>(r, s, qt). ((0, r), s, qt)) (OSQPostFront e m s qt)"
| "q_call_run e QAccept s qt = map_option (\<lambda>(r, qt). (r, s, qt)) (OSQAccept e s qt)"
| "q_call_run e QFlush s qt = map_option (\<lambda>(r, qt). ((0, r), s, qt)) (OSQFlush e s qt)"

fun q_calls :: "nat \<Rightarrow> q_call list \<Rightarrow> os \<Rightarrow> qtab \<Rightarrow> ((u32 \<times> u8) list \<times> os \<times> qtab) option" where
  "q_calls e [] s qt = Some ([], s, qt)"
| "q_calls e (c # cs) s qt =
     (case q_call_run e c s qt of
        None \<Rightarrow> None
      | Some (r, s, qt) \<Rightarrow> map_option (\<lambda>(rs, x). (r # rs, x)) (q_calls e cs s qt))"

text \<open>The same calls on a list of at most \<^verbatim>\<open>n\<close> messages.\<close>

fun deque_call :: "nat \<Rightarrow> q_call \<Rightarrow> u32 list \<Rightarrow> (u32 \<times> u8) \<times> u32 list" where
  "deque_call n (QPost m) xs = (if length xs < n then ((0, OS_ERR_NONE), xs @ [m]) else ((0, OS_ERR_Q_FULL), xs))"
| "deque_call n (QPostFront m) xs = (if length xs < n then ((0, OS_ERR_NONE), m # xs) else ((0, OS_ERR_Q_FULL), xs))"
| "deque_call n QAccept xs = (case xs of [] \<Rightarrow> ((0, OS_ERR_Q_EMPTY), []) | m # ms \<Rightarrow> ((m, OS_ERR_NONE), ms))"
| "deque_call n QFlush xs = ((0, OS_ERR_NONE), [])"

fun deque_calls :: "nat \<Rightarrow> q_call list \<Rightarrow> u32 list \<Rightarrow> (u32 \<times> u8) list \<times> u32 list" where
  "deque_calls n [] xs = ([], xs)"
| "deque_calls n (c # cs) xs =
     (let (r, xs) = deque_call n c xs; (rs, xs) = deque_calls n cs xs in (r # rs, xs))"

lemma on_q_ring:
  assumes q: "q_inv s qt" and e: "e < length (OSEvents s)" "OSEventType (OSEvents s ! e) = OS_EVENT_TYPE_Q" and w: "waits s e = {}"
    and k: "the_q e s qt = Some k" and f: "f (OSQTbl qt ! k) = Some (r, q')" "q_ok q'"
  shows "on_q f e s qt = Some (r, qt\<lparr>OSQTbl := (OSQTbl qt)[k := q']\<rparr>) \<and> q_inv s (qt\<lparr>OSQTbl := (OSQTbl qt)[k := q']\<rparr>) \<and>
    the_q e s (qt\<lparr>OSQTbl := (OSQTbl qt)[k := q']\<rparr>) = Some k \<and> (OSQTbl qt)[k := q'] ! k = q'"
proof -
  have "k < length (OSQTbl qt)" using k by (auto simp: the_q_def Let_def split: if_splits)
  then show ?thesis using q_inv_upd [OF q e k f(2)] w k f(1) by (simp add: on_q_def the_q_def)
qed

lemma q_call_deque:
  assumes st: "kernel_ok s" and q: "q_inv s qt" and e: "e < length (OSEvents s)" "OSEventType (OSEvents s ! e) = OS_EVENT_TYPE_Q"
    and w: "waits s e = {}" and k: "the_q e s qt = Some k"
  shows "\<exists>q'. q_call_run e c s qt = Some (fst (deque_call (q_cap (OSQTbl qt ! k)) c (q_list (OSQTbl qt ! k))), s,
        qt\<lparr>OSQTbl := (OSQTbl qt)[k := q']\<rparr>) \<and>
      q_inv s (qt\<lparr>OSQTbl := (OSQTbl qt)[k := q']\<rparr>) \<and> the_q e s (qt\<lparr>OSQTbl := (OSQTbl qt)[k := q']\<rparr>) = Some k \<and>
      (OSQTbl qt)[k := q'] ! k = q' \<and> q_cap q' = q_cap (OSQTbl qt ! k) \<and>
      q_list q' = snd (deque_call (q_cap (OSQTbl qt ! k)) c (q_list (OSQTbl qt ! k)))"
proof -
  let ?q = "OSQTbl qt ! k"
  have ok: "q_ok ?q" using q_invD [OF q e] k by (metis option.inject)
  have g: "OSEventGrp (OSEvents s ! e) = 0" using w group_waits [OF st e(1)] by simp
  note R = on_q_ring [OF q e w k]
  show ?thesis
  proof (cases c)
    case (QPost m)
    obtain q' where q': "q_post m ?q = Some (fst (ring.does_post (q_cap ?q) m (q_list ?q)), q')" "q_ok q'" "q_cap q' = q_cap ?q"
      "q_list q' = snd (ring.does_post (q_cap ?q) m (q_list ?q))" using ring.post_contents [OF ok] by blast
    show ?thesis
      using R [where f = "q_post m", OF q'(1,2)] q'(3,4) QPost e(2) g
      by (intro exI [where x = q']) (simp add: OSQPost_def ring.does_post_def split: if_splits)
  next
    case (QPostFront m)
    obtain q' where q': "q_post_front m ?q = Some (fst (ring.does_front (q_cap ?q) m (q_list ?q)), q')" "q_ok q'" "q_cap q' = q_cap ?q"
      "q_list q' = snd (ring.does_front (q_cap ?q) m (q_list ?q))" using ring.front_contents [OF ok] by blast
    show ?thesis
      using R [where f = "q_post_front m", OF q'(1,2)] q'(3,4) QPostFront e(2) g
      by (intro exI [where x = q']) (simp add: OSQPostFront_def ring.does_front_def split: if_splits)
  next
    case QAccept
    let ?f = "\<lambda>q. map_option (\<lambda>(m, err, q). ((m, err), q)) (q_accept q)"
    obtain q' where q': "q_accept ?q = Some (case q_list ?q of [] \<Rightarrow> (0, OS_ERR_Q_EMPTY, q') | m # ms \<Rightarrow> (m, OS_ERR_NONE, q'))"
      "q_ok q'" "q_cap q' = q_cap ?q" "q_list q' = tl (q_list ?q)" using ring.accept_contents [OF ok] by blast
    have "?f ?q = Some (case q_list ?q of [] \<Rightarrow> (0, OS_ERR_Q_EMPTY) | m # ms \<Rightarrow> (m, OS_ERR_NONE), q')"
      using q'(1) by (simp split: list.splits)
    then show ?thesis
      using R [where f = ?f, OF _ q'(2)] q'(3,4) QAccept e(2)
      by (intro exI [where x = q']) (simp add: OSQAccept_def split: list.splits)
  next
    case QFlush
    have "q_ok (q_clear ?q)" "q_list (q_clear ?q) = []" "OSQSize (q_clear ?q) = OSQSize ?q" using q_clear_ok [OF ok] by simp_all
    then show ?thesis
      using R [where f = "\<lambda>q. Some (OS_ERR_NONE, q_clear q)", OF refl] QFlush
      by (intro exI [where x = "q_clear ?q"]) (simp add: OSQFlush_def)
  qed
qed

text \<open>C16: While no task waits, any sequence of OSQPost, OSQPostFront, OSQAccept and OSQFlush on a
  message queue behaves as a bounded double-ended queue and leaves every other queue unchanged.\<close>

theorem message_queue_deque:
  assumes "kernel_ok s" "q_inv s qt" and "e < length (OSEvents s)" "OSEventType (OSEvents s ! e) = OS_EVENT_TYPE_Q"
    and "waits s e = {}" "the_q e s qt = Some k"
  shows "\<exists>qt'. q_calls e cs s qt = Some (fst (deque_calls (q_cap (OSQTbl qt ! k)) cs (q_list (OSQTbl qt ! k))), s, qt') \<and>
    q_inv s qt' \<and> q_list (OSQTbl qt' ! k) = snd (deque_calls (q_cap (OSQTbl qt ! k)) cs (q_list (OSQTbl qt ! k))) \<and>
    (\<forall>j. j \<noteq> k \<longrightarrow> OSQTbl qt' ! j = OSQTbl qt ! j)"
  using assms(2,6)
proof (induction cs arbitrary: qt)
  case Nil
  then show ?case by simp
next
  case (Cons c cs)
  let ?n = "q_cap (OSQTbl qt ! k)" and ?xs = "q_list (OSQTbl qt ! k)"
  obtain q' where q': "q_call_run e c s qt = Some (fst (deque_call ?n c ?xs), s, qt\<lparr>OSQTbl := (OSQTbl qt)[k := q']\<rparr>)"
    "q_inv s (qt\<lparr>OSQTbl := (OSQTbl qt)[k := q']\<rparr>)" "the_q e s (qt\<lparr>OSQTbl := (OSQTbl qt)[k := q']\<rparr>) = Some k"
    "(OSQTbl qt)[k := q'] ! k = q'" "q_cap q' = ?n" "q_list q' = snd (deque_call ?n c ?xs)"
    using q_call_deque [OF assms(1) Cons.prems(1) assms(3-5) Cons.prems(2), of c] by blast
  let ?qt = "qt\<lparr>OSQTbl := (OSQTbl qt)[k := q']\<rparr>"
  obtain qt' where "q_calls e cs s ?qt = Some (fst (deque_calls ?n cs (snd (deque_call ?n c ?xs))), s, qt')" "q_inv s qt'"
    "q_list (OSQTbl qt' ! k) = snd (deque_calls ?n cs (snd (deque_call ?n c ?xs)))"
    "\<forall>j. j \<noteq> k \<longrightarrow> OSQTbl qt' ! j = OSQTbl ?qt ! j"
    using Cons.IH [OF q'(2,3)] q'(4-6) by auto
  then show ?case using q'(1) by (auto simp: case_prod_unfold Let_def)
qed

text \<open>A queue of two entries on the kernel just started.\<close>

abbreviation demo_qtab :: qtab where
  "demo_qtab \<equiv> OS_QInit \<lparr>OSQTbl = [], OSQFreeList = []\<rparr>"

abbreviation demo_qs :: "nat option \<times> os \<times> qtab" where
  "demo_qs \<equiv> OSQCreate [0, 0] 2 (OSStart os_boot) demo_qtab"

text \<open>A queue created before the start.\<close>

lemma OSQCreate_configured:
  assumes "configured s" shows "configured (fst (snd (OSQCreate start n s qt)))"
proof (cases "OSEventFreeList s = [] \<or> OSQFreeList qt = []")
  case True
  then show ?thesis using assms by (auto simp: OSQCreate_def Let_def free_self split: list.splits)
next
  case False
  then obtain e free k kfree where f: "OSEventFreeList s = e # free" "OSQFreeList qt = k # kfree"
    by (cases "OSEventFreeList s"; cases "OSQFreeList qt") auto
  have i: "OSIntNesting s = 0" "kernel_ok s" using configured_idle [OF assms] by (simp_all add: idle_os_def)
  have "fst (snd (OSQCreate start n s qt)) =
      event_taken e free ((OSEvents s ! e)\<lparr>OSEventType := OS_EVENT_TYPE_Q, OSEventCnt := 0, OSEventPtr := of_nat (k + 1)\<rparr>) s"
    using i(1) f first_free_event(1) [OF i(2) f(1)]
    by (simp add: OSQCreate_def OS_EventWaitListInit_def upd_event_def Let_def map_empty_def event_taken_def)
  then show ?thesis using configured.event [OF assms f(1)] by simp
qed

lemma boot_stable: "stable (OSStart os_boot)"
  using reachable_ok(1) [OF reachable_boot] by (simp add: run_ok_def)

lemma q_inv_init:
  assumes "\<And>e. e < length (OSEvents s) \<Longrightarrow> OSEventType (OSEvents s ! e) \<noteq> OS_EVENT_TYPE_Q"
  shows "q_inv s (OS_QInit qt)"
  using assms by (auto simp: q_inv_def OS_QInit_def OS_MAX_QS_def)

lemma demo_queue:
  "stable (fst (snd demo_qs))" "q_inv (fst (snd demo_qs)) (snd (snd demo_qs))" "0 < length (OSEvents (fst (snd demo_qs)))"
  "OSEventType (OSEvents (fst (snd demo_qs)) ! 0) = OS_EVENT_TYPE_Q" "waits (fst (snd demo_qs)) 0 = {}"
  "the_q 0 (fst (snd demo_qs)) (snd (snd demo_qs)) = Some 0"
  "OSQTbl (snd (snd demo_qs)) ! 0 = q_make [0, 0] 2"
proof -
  have q: "q_inv (OSStart os_boot) demo_qtab"
    by (rule q_inv_init) (simp add: boot_events clear_event_def OS_EVENT_TYPE_UNUSED_def OS_EVENT_TYPE_Q_def)
  have len: "length [0 :: u32, 0] = unat (2 :: u16)" by simp
  note C = OSQCreate_ok [OF boot_stable q len, of "{}"]
  show "stable (fst (snd demo_qs))" "q_inv (fst (snd demo_qs)) (snd (snd demo_qs))" using C by (simp_all add: good_def)
  show "0 < length (OSEvents (fst (snd demo_qs)))" "OSEventType (OSEvents (fst (snd demo_qs)) ! 0) = OS_EVENT_TYPE_Q"
    "waits (fst (snd demo_qs)) 0 = {}" "the_q 0 (fst (snd demo_qs)) (snd (snd demo_qs)) = Some 0"
    "OSQTbl (snd (snd demo_qs)) ! 0 = q_make [0, 0] 2"
    by (simp_all add: OSQCreate_def boot_running boot_events Let_def upd_event_def OS_EventWaitListInit_def OS_MAX_EVENTS_def
        OS_QInit_def OS_MAX_QS_def upt_conv_Cons the_q_def prios_def nth_Cons')
qed

theorem message_queue_deque_witness:
  "\<exists>qt'. q_calls 0 [QPost 7, QPostFront 8, QPost 9, QAccept] (fst (snd demo_qs)) (snd (snd demo_qs)) =
     Some ([(0, OS_ERR_NONE), (0, OS_ERR_NONE), (0, OS_ERR_Q_FULL), (8, OS_ERR_NONE)], fst (snd demo_qs), qt')"
proof -
  have k: "kernel_ok (fst (snd demo_qs))" using demo_queue(1) by (simp add: stable_def)
  show ?thesis
    using message_queue_deque [OF k demo_queue(2-6), of "[QPost 7, QPostFront 8, QPost 9, QAccept]"]
    by (auto simp: demo_queue(7) q_make_def q_list_def)
qed

section \<open>A message for a waiting task\<close>

text \<open>C39: OSQPost on a queue with waiting tasks hands the message to the one of highest priority and
  to no other; if it is not suspended and above the current one, it runs at once and its OSQPend
  returns the message.\<close>

theorem OSQPost_delivers:
  assumes "stable s" "q_inv s qt" and "e < length (OSEvents s)" "OSEventType (OSEvents s ! e) = OS_EVENT_TYPE_Q"
    and "waits s e \<noteq> {}"
  shows "\<exists>i s'. OSQPost e m s qt = Some (OS_ERR_NONE, s', qt) \<and> stable s' \<and> q_inv s' qt \<and>
    OSTCBPrioTbl s ! Min (waits s e) = TCB i \<and> OSTCBEventPtr (OSTCBTbl s ! i) = Some e \<and>
    OSTCBEventPtr (OSTCBTbl s' ! i) = None \<and> OSTCBMsg (OSTCBTbl s' ! i) = m \<and>
    waits s' e = waits s e - {Min (waits s e)} \<and>
    (OSIntNesting s = 0 \<and> OSLockNesting s = 0 \<and> OSTCBStat (OSTCBTbl s ! i) AND OS_STAT_SUSPEND = 0 \<and>
       Min (waits s e) < unat (OSPrioCur s) \<longrightarrow>
       OSTCBCur s' = TCB i \<and> (\<exists>s2. OSQPend_end e s' = Some (m, OS_ERR_NONE, s2) \<and> stable s2 \<and> q_inv s2 qt))"
proof -
  have k: "kernel_ok s" using assms(1) by (simp add: stable_def)
  have mk: "OS_STAT_Q = pend_bit (OSEventType (OSEvents s ! e))" by (simp add: assms(4) queue_bit)
  obtain i p s' where s': "OS_EventTaskRdy e m OS_STAT_Q OS_STAT_PEND_OK s = Some (p, wake i e m OS_STAT_Q OS_STAT_PEND_OK s)"
    "OS_Sched (wake i e m OS_STAT_Q OS_STAT_PEND_OK s) = Some s'"
    "switched (wake i e m OS_STAT_Q OS_STAT_PEND_OK s) s'" "good {} s s'" and i: "i \<in> set (OSTCBList s)"
    "prio_of s i = Min (waits s e)" "prio_of s i \<in> waits s e"
    using wake_sched [OF assms(1,3,5) mk] by metis
  have st': "stable s'" using s'(4) by (simp add: good_def)
  note W = wake_effect [OF assms(1,3) mk i s'(3) st']
  have q': "q_inv s' qt"
    using q_inv_switched [OF q_inv_wake [OF assms(2,3) wake_ok(4) [OF k assms(3) i(1,3) mk]] s'(3)] .
  have post: "OSQPost e m s qt = Some (OS_ERR_NONE, s', qt)"
    using assms(4,5) group_waits [OF k assms(3)] s'(1,2) by (simp add: OSQPost_def)
  have "\<exists>s2. OSQPend_end e s' = Some (m, OS_ERR_NONE, s2) \<and> stable s2 \<and> q_inv s2 qt"
    if z: "OSIntNesting s = 0" "OSLockNesting s = 0" and c: "OSTCBCur s' = TCB i"
  proof -
    have e': "e < length (OSEvents s')" using switchedD(6) [OF s'(3)] assms(3) by simp
    have z': "OSIntNesting s' = 0" "OSLockNesting s' = 0" using switchedD(8,9) [OF s'(3)] z by simp_all
    show ?thesis
      using OSQPend_end_ok [OF st' q' e' z' c, of "{i}"] W(3-5) by (auto simp: good_def)
  qed
  then show ?thesis using post st' q' W by blast
qed

lemma demo_wait:
  "\<exists>s1. OSQPend 0 0 (fst (snd demo_qs)) (snd (snd demo_qs)) = Some (None, s1, snd (snd demo_qs)) \<and> stable s1 \<and>
     q_inv s1 (snd (snd demo_qs)) \<and> 0 < length (OSEvents s1) \<and> OSEventType (OSEvents s1 ! 0) = OS_EVENT_TYPE_Q \<and> waits s1 0 \<noteq> {}"
proof -
  let ?s = "fst (snd demo_qs)" and ?qt = "snd (snd demo_qs)"
  have eq: "?s = (OSStart os_boot)\<lparr>OSEvents := OSEvents ?s, OSEventFreeList := OSEventFreeList ?s\<rparr>"
    by (simp add: OSQCreate_def boot_running boot_events Let_def upd_event_def OS_EventWaitListInit_def OS_QInit_def
        OS_MAX_QS_def upt_conv_Cons)
  have sel: "OSTCBCur ?s = TCB 1" "OSTCBTbl ?s = OSTCBTbl (OSStart os_boot)" "OSIntNesting ?s = 0" "OSLockNesting ?s = 0"
    "OSTCBList ?s = OSTCBList (OSStart os_boot)"
    by (subst eq, simp add: boot_task boot_running)+
  have p: "prio_of ?s 1 \<noteq> 63" using boot_running(4) sel(2) by simp
  have "1 \<in> set (OSTCBList (OSStart os_boot))" using current_ready(1) [OF boot_stable boot_running(2,3) boot_task] .
  then have ev: "OSTCBEventPtr (OSTCBTbl ?s ! 1) = None"
    using reachable_ok(1) [OF reachable_boot] sel(2) by (simp add: run_ok_def waits_ok_def)
  have no: "OSQEntries (OSQTbl ?qt ! 0) = 0" by (simp add: demo_queue(7) q_make_def)
  have "OSQPend 0 0 ?s ?qt \<noteq> Some (Some r, ?s, qt')" for r qt'
    using no demo_queue(4,6) sel by (auto simp: OSQPend_def Let_def split: bind_splits)
  then obtain s1 where s1: "OSQPend 0 0 ?s ?qt = Some (None, s1, ?qt)" "switched (block 1 0 OS_STAT_Q 0 ?s) s1" "stable s1" "q_inv s1 ?qt"
    using OSQPend_ok [OF demo_queue(1,2,3) sel(1) p ev, of 0] by blast
  have k: "kernel_ok ?s" using demo_queue(1) by (simp add: stable_def)
  note C = current_ready [OF demo_queue(1) sel(3,4,1)]
  have m: "OS_STAT_Q = pend_bit (OSEventType (OSEvents ?s ! 0))" "OS_STAT_Q \<noteq> 0"
    by (simp_all add: demo_queue(4) queue_bit) (simp add: OS_STAT_Q_def)
  have cn: "OSEventType (OSEvents ?s ! 0) = OS_EVENT_TYPE_SEM \<longrightarrow> OSEventCnt (OSEvents ?s ! 0) = 0"
    by (simp add: demo_queue(4) OS_EVENT_TYPE_Q_def OS_EVENT_TYPE_SEM_def)
  have w: "waits (block 1 0 OS_STAT_Q 0 ?s) 0 = insert (prio_of ?s 1) (waits ?s 0)"
    by (rule block_ok(4) [OF k demo_queue(3) C(1) ev C(4) p m cn])
  have "OSEvents s1 = OSEvents (block 1 0 OS_STAT_Q 0 ?s)" by (rule switchedD(6) [OF s1(2)])
  moreover have "0 < length (OSEvents (block 1 0 OS_STAT_Q 0 ?s))" "OSEventType (OSEvents (block 1 0 OS_STAT_Q 0 ?s) ! 0) = OS_EVENT_TYPE_Q"
    using demo_queue(3,4) by (simp_all add: block_def Let_def set_wait_def)
  ultimately show ?thesis using s1 w by (intro exI [where x = s1]) simp
qed

theorem OSQPost_delivers_witness:
  "\<exists>s1 i s'. OSQPend 0 0 (fst (snd demo_qs)) (snd (snd demo_qs)) = Some (None, s1, snd (snd demo_qs)) \<and>
     OSQPost 0 5 s1 (snd (snd demo_qs)) = Some (OS_ERR_NONE, s', snd (snd demo_qs)) \<and> OSTCBMsg (OSTCBTbl s' ! i) = 5"
proof -
  obtain s1 where s1: "OSQPend 0 0 (fst (snd demo_qs)) (snd (snd demo_qs)) = Some (None, s1, snd (snd demo_qs))" "stable s1"
    "q_inv s1 (snd (snd demo_qs))" "0 < length (OSEvents s1)" "OSEventType (OSEvents s1 ! 0) = OS_EVENT_TYPE_Q" "waits s1 0 \<noteq> {}"
    using demo_wait by blast
  then show ?thesis using OSQPost_delivers [OF s1(2-6), of 5] by blast
qed

end
