(* ===== verification/Lwip_Timers.thy ===== *)
theory Lwip_Timers
  imports Prelude
begin

text \<open>
  The timers of lwIP (\<^verbatim>\<open>LWIP/lwip-1.4.1/src/core/timers.c\<close>): a linked list of timeouts, each with the
  time left after the one before it, and the wait of \<^verbatim>\<open>tcpip_thread\<close> for a message or a timeout.
  What is shown: the list of differences stands for a list of due times, a timeout is inserted there
  in order and removed without moving the others, and, over a mailbox that reports the time waited,
  the wait runs every handler at its due time.
\<close>

section \<open>The list of timeouts\<close>

text \<open>Handlers are \<^verbatim>\<open>'h\<close>, with \<^verbatim>\<open>None\<close> for the null pointer.  The pool \<^verbatim>\<open>MEMP_SYS_TIMEOUT\<close> is the
  number of its free elements.\<close>

definition MEMP_NUM_SYS_TIMEOUT :: nat where "MEMP_NUM_SYS_TIMEOUT = 8"
definition SYS_ARCH_TIMEOUT :: u32 where "SYS_ARCH_TIMEOUT = 0xffffffff"

record 'h sys_timeo =
  timeo_time :: u32
  timeo_h :: "'h option"
  timeo_arg :: u32

record 'h timers =
  next_timeout :: "'h sys_timeo list"
  memp_timeouts :: nat

definition make_timeo :: "u32 \<Rightarrow> 'h option \<Rightarrow> u32 \<Rightarrow> 'h sys_timeo" where
  "make_timeo msecs h a = \<lparr>timeo_time = msecs, timeo_h = h, timeo_arg = a\<rparr>"

fun insert_loop :: "'h sys_timeo \<Rightarrow> 'h sys_timeo list \<Rightarrow> 'h sys_timeo list" where
  "insert_loop new [] = []"
| "insert_loop new (t # ts) =
     (let new = new\<lparr>timeo_time := timeo_time new - timeo_time t\<rparr>
      in case ts of
           [] \<Rightarrow> [t, new]
         | u # us \<Rightarrow>
             (if timeo_time new < timeo_time u
              then t # new # u\<lparr>timeo_time := timeo_time u - timeo_time new\<rparr> # us
              else t # insert_loop new ts))"

definition sys_timeout :: "u32 \<Rightarrow> 'h option \<Rightarrow> u32 \<Rightarrow> 'h timers \<Rightarrow> 'h timers" where
  "sys_timeout msecs h a st =
     (if memp_timeouts st = 0 then st
      else (let st = st\<lparr>memp_timeouts := memp_timeouts st - 1\<rparr>;
                new = make_timeo msecs h a
            in case next_timeout st of
                 [] \<Rightarrow> st\<lparr>next_timeout := [new]\<rparr>
               | t # ts \<Rightarrow>
                   (if msecs < timeo_time t
                    then st\<lparr>next_timeout := new # t\<lparr>timeo_time := timeo_time t - msecs\<rparr> # ts\<rparr>
                    else st\<lparr>next_timeout := insert_loop new (t # ts)\<rparr>)))"

fun remove_loop :: "'h option \<Rightarrow> u32 \<Rightarrow> 'h sys_timeo list \<Rightarrow> 'h sys_timeo list option" where
  "remove_loop h a [] = None"
| "remove_loop h a (t # ts) =
     (if timeo_h t = h \<and> timeo_arg t = a
      then Some (case ts of [] \<Rightarrow> [] | u # us \<Rightarrow> u\<lparr>timeo_time := timeo_time u + timeo_time t\<rparr> # us)
      else map_option ((#) t) (remove_loop h a ts))"

definition sys_untimeout :: "'h option \<Rightarrow> u32 \<Rightarrow> 'h timers \<Rightarrow> 'h timers" where
  "sys_untimeout h a st =
     (case remove_loop h a (next_timeout st) of
        None \<Rightarrow> st
      | Some ts \<Rightarrow> st\<lparr>next_timeout := ts, memp_timeouts := memp_timeouts st + 1\<rparr>)"

section \<open>Waiting for a message\<close>

text \<open>What a handler does to the timers is a list of calls; the rest of its effect is on the world
  \<^verbatim>\<open>'w\<close>.  \<^verbatim>\<open>fetch\<close> is \<^verbatim>\<open>sys_arch_mbox_fetch\<close> of the port with its mailbox: the answer and the message.\<close>

datatype 'h timer_op = Arm u32 "'h option" u32 | Disarm "'h option" u32

fun run_op :: "'h timer_op \<Rightarrow> 'h timers \<Rightarrow> 'h timers" where
  "run_op (Arm msecs h a) st = sys_timeout msecs h a st"
| "run_op (Disarm h a) st = sys_untimeout h a st"

definition run_handler :: "('h \<Rightarrow> u32 \<Rightarrow> 'w \<Rightarrow> 'h timer_op list \<times> 'w) \<Rightarrow> 'h option \<Rightarrow> u32 \<Rightarrow> 'h timers \<Rightarrow> 'w \<Rightarrow> 'h timers \<times> 'w" where
  "run_handler act h a st w =
     (case h of None \<Rightarrow> (st, w) | Some f \<Rightarrow> (let (ops, w) = act f a w in (fold run_op ops st, w)))"

partial_function (option) sys_timeouts_mbox_fetch ::
    "(u32 \<Rightarrow> 'w \<Rightarrow> (u32 \<times> u32 \<times> 'w) option) \<Rightarrow> ('h \<Rightarrow> u32 \<Rightarrow> 'w \<Rightarrow> 'h timer_op list \<times> 'w) \<Rightarrow> 'h timers \<Rightarrow> 'w \<Rightarrow> (u32 \<times> 'h timers \<times> 'w) option" where
  "sys_timeouts_mbox_fetch fetch act st w =
     (case next_timeout st of
        [] \<Rightarrow> (case fetch 0 w of None \<Rightarrow> None | Some (needed, m, w) \<Rightarrow> Some (m, st, w))
      | t # ts \<Rightarrow>
          (case (if 0 < timeo_time t then fetch (timeo_time t) w else Some (SYS_ARCH_TIMEOUT, 0, w)) of
             None \<Rightarrow> None
           | Some (needed, m, w) \<Rightarrow>
               (if needed = SYS_ARCH_TIMEOUT
                then (case run_handler act (timeo_h t) (timeo_arg t) (st\<lparr>next_timeout := ts, memp_timeouts := memp_timeouts st + 1\<rparr>) w of
                        (st, w) \<Rightarrow> sys_timeouts_mbox_fetch fetch act st w)
                else Some (m, st\<lparr>next_timeout := t\<lparr>timeo_time := if needed < timeo_time t then timeo_time t - needed else 0\<rparr> # ts\<rparr>, w))))"

text \<open>The callbacks of the configuration: reassembly, ARP and, while there are connections, TCP.
  \<^verbatim>\<open>ip_reass_tmr\<close>, \<^verbatim>\<open>etharp_tmr\<close> and \<^verbatim>\<open>tcp_tmr\<close> are parameters, as is the test for connections.\<close>

definition IP_TMR_INTERVAL :: u32 where "IP_TMR_INTERVAL = 1000"
definition ARP_TMR_INTERVAL :: u32 where "ARP_TMR_INTERVAL = 5000"
definition TCP_TMR_INTERVAL :: u32 where "TCP_TMR_INTERVAL = 250"

datatype lwip_handler = Ip_reass_timer | Arp_timer | Tcpip_tcp_timer

definition ip_reass_timer :: "('w \<Rightarrow> 'w) \<Rightarrow> 'w \<Rightarrow> lwip_handler timer_op list \<times> 'w" where
  "ip_reass_timer ip_reass_tmr w = (let w = ip_reass_tmr w in ([Arm IP_TMR_INTERVAL (Some Ip_reass_timer) 0], w))"

definition arp_timer :: "('w \<Rightarrow> 'w) \<Rightarrow> 'w \<Rightarrow> lwip_handler timer_op list \<times> 'w" where
  "arp_timer etharp_tmr w = (let w = etharp_tmr w in ([Arm ARP_TMR_INTERVAL (Some Arp_timer) 0], w))"

definition tcpip_tcp_timer :: "('w \<Rightarrow> 'w) \<Rightarrow> ('w \<Rightarrow> bool) \<Rightarrow> (bool \<Rightarrow> 'w \<Rightarrow> 'w) \<Rightarrow> 'w \<Rightarrow> lwip_handler timer_op list \<times> 'w" where
  "tcpip_tcp_timer tcp_tmr pcbs set_active w =
     (let w = tcp_tmr w
      in if pcbs w then ([Arm TCP_TMR_INTERVAL (Some Tcpip_tcp_timer) 0], w) else ([], set_active False w))"

definition tcp_timer_needed :: "('w \<Rightarrow> bool) \<Rightarrow> ('w \<Rightarrow> bool) \<Rightarrow> (bool \<Rightarrow> 'w \<Rightarrow> 'w) \<Rightarrow> 'w \<Rightarrow> lwip_handler timer_op list \<times> 'w" where
  "tcp_timer_needed active pcbs set_active w =
     (if \<not> active w \<and> pcbs w then ([Arm TCP_TMR_INTERVAL (Some Tcpip_tcp_timer) 0], set_active True w) else ([], w))"

definition sys_timeouts_init :: "lwip_handler timers \<Rightarrow> lwip_handler timers" where
  "sys_timeouts_init st =
     (let st = sys_timeout IP_TMR_INTERVAL (Some Ip_reass_timer) 0 st
      in sys_timeout ARP_TMR_INTERVAL (Some Arp_timer) 0 st)"


section \<open>Due times\<close>

type_synonym 'h due = "nat \<times> 'h option \<times> u32"

fun dues :: "nat \<Rightarrow> 'h sys_timeo list \<Rightarrow> 'h due list" where
  "dues now [] = []"
| "dues now (t # ts) = (now + unat (timeo_time t), timeo_h t, timeo_arg t) # dues (now + unat (timeo_time t)) ts"

fun due_insert :: "'h due \<Rightarrow> 'h due list \<Rightarrow> 'h due list" where
  "due_insert d [] = [d]"
| "due_insert d (x # xs) = (if fst d < fst x then d # x # xs else x # due_insert d xs)"

fun due_remove :: "'h option \<times> u32 \<Rightarrow> 'h due list \<Rightarrow> 'h due list" where
  "due_remove k [] = []"
| "due_remove k (x # xs) = (if snd x = k then xs else x # due_remove k xs)"

text \<open>The last timeout is due within the range of \<^verbatim>\<open>u32\<close>, and every timeout has its element of the
  pool.\<close>

definition total :: "'h sys_timeo list \<Rightarrow> nat" where
  "total ts = sum_list (map (\<lambda>t. unat (timeo_time t)) ts)"

definition timers_ok :: "'h timers \<Rightarrow> bool" where
  "timers_ok st \<longleftrightarrow> total (next_timeout st) < 2 ^ 32 \<and> length (next_timeout st) + memp_timeouts st = MEMP_NUM_SYS_TIMEOUT"

lemma total_simps [simp]: "total [] = 0" "total (t # ts) = unat (timeo_time t) + total ts"
  by (simp_all add: total_def)

lemma dues_len [simp]: "length (dues now ts) = length ts"
  by (induction ts arbitrary: now) simp_all

lemma dues_later:
  "d \<in> set (dues now ts) \<Longrightarrow> now \<le> fst d \<and> fst d \<le> now + total ts"
  by (induction ts arbitrary: now) fastforce+

lemma dues_sorted: "sorted (map fst (dues now ts))"
  by (induction ts arbitrary: now) (auto dest: dues_later)

lemma insert_set [simp]: "set (due_insert d xs) = insert d (set xs)"
  by (induction xs) auto

lemma insert_len [simp]: "length (due_insert d xs) = length xs + 1"
  by (induction xs) auto

lemma insert_sorted: "sorted (map fst xs) \<Longrightarrow> sorted (map fst (due_insert d xs))"
  by (induction xs) auto

lemma make_timeo_sel [simp]:
  "timeo_time (make_timeo n h a) = n" "timeo_h (make_timeo n h a) = h" "timeo_arg (make_timeo n h a) = a"
  by (simp_all add: make_timeo_def)

lemma insert_loop_ok:
  assumes "ts \<noteq> []" "timeo_time (hd ts) \<le> timeo_time new"
  shows "dues now (insert_loop new ts) = due_insert (now + unat (timeo_time new), timeo_h new, timeo_arg new) (dues now ts) \<and>
    total (insert_loop new ts) = max (total ts) (unat (timeo_time new)) \<and> length (insert_loop new ts) = length ts + 1"
  using assms
proof (induction new ts arbitrary: now rule: insert_loop.induct)
  case (2 new t ts)
  let ?new = "new\<lparr>timeo_time := timeo_time new - timeo_time t\<rparr>"
  have le: "unat (timeo_time t) \<le> unat (timeo_time new)" using 2(3) by (simp add: word_le_nat_alt)
  have u: "unat (timeo_time ?new) = unat (timeo_time new) - unat (timeo_time t)" using le by (simp add: unat_sub_le)
  show ?case
  proof (cases ts)
    case Nil
    then show ?thesis using le u by (simp add: Let_def)
  next
    case (Cons v us)
    show ?thesis
    proof (cases "timeo_time ?new < timeo_time v")
      case True
      have lt: "unat (timeo_time ?new) < unat (timeo_time v)" using True by (simp only: word_less_nat_alt)
      have v: "unat (timeo_time v - timeo_time ?new) = unat (timeo_time v) - unat (timeo_time ?new)"
        by (rule unat_sub_le) (use lt in simp)
      have e: "insert_loop new (t # ts) = t # ?new # v\<lparr>timeo_time := timeo_time v - timeo_time ?new\<rparr> # us"
        using True Cons by (simp add: Let_def)
      have lt': "unat (timeo_time new) < unat (timeo_time t) + unat (timeo_time v)" using lt u le by simp
      show ?thesis unfolding e using Cons lt lt' v u le by (simp add: ac_simps)
    next
      case False
      have ge: "unat (timeo_time v) \<le> unat (timeo_time ?new)" using False by (simp only: word_less_nat_alt not_less)
      have e: "insert_loop new (t # ts) = t # insert_loop ?new ts" using False Cons by (simp add: Let_def)
      have ih: "dues (now + unat (timeo_time t)) (insert_loop ?new ts) =
          due_insert (now + unat (timeo_time t) + unat (timeo_time ?new), timeo_h ?new, timeo_arg ?new) (dues (now + unat (timeo_time t)) ts) \<and>
          total (insert_loop ?new ts) = max (total ts) (unat (timeo_time ?new)) \<and> length (insert_loop ?new ts) = length ts + 1"
        using 2(1) [OF refl Cons False] False Cons by (simp add: not_less)
      show ?thesis unfolding e using ih u le by simp
    qed
  qed
qed simp

definition k_of :: "'h timer_op \<Rightarrow> nat \<Rightarrow> 'h due list \<Rightarrow> 'h due list" where
  "k_of x now ds =
     (case x of
        Arm n h a \<Rightarrow> if length ds < MEMP_NUM_SYS_TIMEOUT then due_insert (now + unat n, h, a) ds else ds
      | Disarm h a \<Rightarrow> due_remove (h, a) ds)"

lemma sys_timeout_ok:
  assumes "timers_ok st"
  shows "timers_ok (sys_timeout n h a st) \<and>
    dues now (next_timeout (sys_timeout n h a st)) = k_of (Arm n h a) now (dues now (next_timeout st))"
proof (cases "memp_timeouts st = 0")
  case True
  then show ?thesis using assms by (simp add: sys_timeout_def k_of_def timers_ok_def)
next
  case room: False
  have len: "length (next_timeout st) < MEMP_NUM_SYS_TIMEOUT" using room assms by (simp add: timers_ok_def)
  show ?thesis
  proof (cases "next_timeout st")
    case Nil
    then show ?thesis using room assms len by (simp add: sys_timeout_def k_of_def timers_ok_def Let_def)
  next
    case (Cons t ts)
    show ?thesis
    proof (cases "n < timeo_time t")
      case True
      have lt: "unat n < unat (timeo_time t)" using True by (simp only: word_less_nat_alt)
      have v: "unat (timeo_time t - n) = unat (timeo_time t) - unat n" by (rule unat_sub_le) (use lt in simp)
      show ?thesis using True lt v room assms len Cons by (simp add: sys_timeout_def k_of_def timers_ok_def Let_def)
    next
      case False
      have "dues now (insert_loop (make_timeo n h a) (t # ts)) = due_insert (now + unat n, h, a) (dues now (t # ts)) \<and>
        total (insert_loop (make_timeo n h a) (t # ts)) = max (total (t # ts)) (unat n) \<and>
        length (insert_loop (make_timeo n h a) (t # ts)) = length (t # ts) + 1"
        using insert_loop_ok [of "t # ts" "make_timeo n h a" now] False by simp
      then show ?thesis using False room assms len Cons
        by (simp add: sys_timeout_def k_of_def timers_ok_def Let_def del: insert_loop.simps dues.simps)
    qed
  qed
qed

lemma remove_loop_ok:
  assumes "total ts < 2 ^ 32"
  shows "(case remove_loop h a ts of
      None \<Rightarrow> due_remove (h, a) (dues now ts) = dues now ts
    | Some us \<Rightarrow> dues now us = due_remove (h, a) (dues now ts) \<and> total us \<le> total ts \<and> length ts = length us + 1)"
  using assms
proof (induction ts arbitrary: now)
  case (Cons t ts)
  show ?case
  proof (cases "timeo_h t = h \<and> timeo_arg t = a")
    case True
    show ?thesis
    proof (cases ts)
      case Nil
      then show ?thesis using True by simp
    next
      case (Cons v us)
      have "unat (timeo_time v + timeo_time t) = unat (timeo_time v) + unat (timeo_time t)"
        by (rule unat_add_no_wrap) (use Cons.prems Cons in simp)
      then show ?thesis using True Cons by (simp add: ac_simps)
    qed
  next
    case False
    then show ?thesis using Cons.IH [of "now + unat (timeo_time t)"] Cons.prems
      by (auto split: option.splits)
  qed
qed simp

lemma sys_untimeout_ok:
  assumes "timers_ok st"
  shows "timers_ok (sys_untimeout h a st) \<and>
    dues now (next_timeout (sys_untimeout h a st)) = k_of (Disarm h a) now (dues now (next_timeout st))"
  using assms remove_loop_ok [of "next_timeout st" h a now]
  by (auto simp: sys_untimeout_def timers_ok_def k_of_def split: option.splits)


lemma run_ops_ok:
  assumes "timers_ok st"
  shows "timers_ok (fold run_op ops st) \<and>
    dues now (next_timeout (fold run_op ops st)) = fold (\<lambda>x. k_of x now) ops (dues now (next_timeout st))"
  using assms
proof (induction ops arbitrary: st)
  case (Cons x ops)
  have "timers_ok (run_op x st) \<and> dues now (next_timeout (run_op x st)) = k_of x now (dues now (next_timeout st))"
    using sys_timeout_ok [OF Cons.prems] sys_untimeout_ok [OF Cons.prems] by (cases x) simp_all
  then show ?case using Cons.IH by simp
qed simp

section \<open>Waiting until a due time\<close>

text \<open>The wait over due times: there is no difference to keep, the head waits for its own time.\<close>

definition run_due :: "('w \<Rightarrow> nat) \<Rightarrow> ('h \<Rightarrow> u32 \<Rightarrow> 'w \<Rightarrow> 'h timer_op list \<times> 'w) \<Rightarrow> 'h option \<Rightarrow> u32 \<Rightarrow> 'h due list \<Rightarrow> 'w \<Rightarrow> 'h due list \<times> 'w" where
  "run_due clk act h a ds w =
     (case h of None \<Rightarrow> (ds, w) | Some f \<Rightarrow> (let (ops, w) = act f a w in (fold (\<lambda>x. k_of x (clk w)) ops ds, w)))"

partial_function (option) due_wait ::
    "(u32 \<Rightarrow> 'w \<Rightarrow> (u32 \<times> u32 \<times> 'w) option) \<Rightarrow> ('w \<Rightarrow> nat) \<Rightarrow> ('h \<Rightarrow> u32 \<Rightarrow> 'w \<Rightarrow> 'h timer_op list \<times> 'w) \<Rightarrow>
     'h due list \<Rightarrow> 'w \<Rightarrow> (u32 \<times> 'h due list \<times> 'w) option" where
  "due_wait fetch clk act ds w =
     (case ds of
        [] \<Rightarrow> (case fetch 0 w of None \<Rightarrow> None | Some (_, m, w) \<Rightarrow> Some (m, [], w))
      | (d, h, a) # rest \<Rightarrow>
          (case (if clk w < d then fetch (of_nat (d - clk w)) w else Some (SYS_ARCH_TIMEOUT, 0, w)) of
             None \<Rightarrow> None
           | Some (r, m, w) \<Rightarrow>
               (if r = SYS_ARCH_TIMEOUT
                then (case run_due clk act h a rest w of (ds, w) \<Rightarrow> due_wait fetch clk act ds w)
                else Some (m, ds, w))))"

text \<open>The contract of \<^verbatim>\<open>sys_arch_mbox_fetch\<close> (\<^verbatim>\<open>lwip/lwip_sys.h\<close>): the time waited in milliseconds, or
  \<^verbatim>\<open>SYS_ARCH_TIMEOUT\<close> once the timeout has passed.\<close>

definition honest :: "(u32 \<Rightarrow> 'w \<Rightarrow> (u32 \<times> u32 \<times> 'w) option) \<Rightarrow> ('w \<Rightarrow> nat) \<Rightarrow> bool" where
  "honest fetch clk \<longleftrightarrow>
     (\<forall>n w r m w'. fetch n w = Some (r, m, w') \<longrightarrow>
        (if r = SYS_ARCH_TIMEOUT then n \<noteq> 0 \<and> clk w' = clk w + unat n
         else clk w' = clk w + unat r \<and> (n \<noteq> 0 \<longrightarrow> r < n)))"

definition steady :: "('h \<Rightarrow> u32 \<Rightarrow> 'w \<Rightarrow> 'h timer_op list \<times> 'w) \<Rightarrow> ('w \<Rightarrow> nat) \<Rightarrow> bool" where
  "steady act clk \<longleftrightarrow> (\<forall>f a w. clk (snd (act f a w)) = clk w)"

lemma run_handler_due:
  assumes "timers_ok st" "steady act clk" "run_handler act h a st w = (st', w')"
  shows "timers_ok st' \<and> run_due clk act h a (dues (clk w) (next_timeout st)) w = (dues (clk w') (next_timeout st'), w') \<and> clk w' = clk w"
proof (cases h)
  case None
  then show ?thesis using assms by (simp add: run_handler_def run_due_def)
next
  case (Some f)
  obtain ops w1 where f: "act f a w = (ops, w1)" by fastforce
  have "clk w1 = clk w" using assms(2) f by (metis snd_conv steady_def)
  then show ?thesis using assms(3) Some f run_ops_ok [OF assms(1), of ops "clk w"] by (auto simp: run_handler_def run_due_def)
qed

text \<open>One round of the wait with a timeout in the list: what each loop does with the answer.\<close>

lemma wait_round:
  assumes st: "timers_ok st" "next_timeout st = t # ts" and h: "honest fetch clk"
    and f: "(if 0 < timeo_time t then fetch (timeo_time t) w else Some (SYS_ARCH_TIMEOUT, 0, w)) = Some (r, m, w1)"
  shows "if r = SYS_ARCH_TIMEOUT
    then timers_ok (st\<lparr>next_timeout := ts, memp_timeouts := memp_timeouts st + 1\<rparr>) \<and>
      dues (clk w + unat (timeo_time t)) ts = dues (clk w1) ts
    else r < timeo_time t \<and> timers_ok (st\<lparr>next_timeout := t\<lparr>timeo_time := timeo_time t - r\<rparr> # ts\<rparr>) \<and>
      dues (clk w1) (t\<lparr>timeo_time := timeo_time t - r\<rparr> # ts) = dues (clk w) (t # ts)"
proof (cases "r = SYS_ARCH_TIMEOUT")
  case True
  have "clk w1 = clk w + unat (timeo_time t)"
    using f h True by (cases "0 < timeo_time t") (auto simp: honest_def word_gt_0)
  then show ?thesis using st True by (simp add: timers_ok_def)
next
  case False
  have p: "0 < timeo_time t" "fetch (timeo_time t) w = Some (r, m, w1)" using f False by (auto split: if_splits)
  have r: "clk w1 = clk w + unat r" "r < timeo_time t"
    using h p False unfolding honest_def by (metis word_gt_0)+
  have lt: "unat r < unat (timeo_time t)" using r(2) by (simp only: word_less_nat_alt)
  have "unat (timeo_time t - r) = unat (timeo_time t) - unat r" by (rule unat_sub_le) (use lt in simp)
  moreover have "unat (timeo_time t) - unat r + total ts < 2 ^ 32"
  proof -
    have "unat (timeo_time t) + total ts < 2 ^ 32" using st by (simp add: timers_ok_def)
    then show ?thesis by linarith
  qed
  ultimately show ?thesis using st False r lt by (simp add: timers_ok_def)
qed

abbreviation due_view :: "('w \<Rightarrow> nat) \<Rightarrow> u32 \<times> 'h timers \<times> 'w \<Rightarrow> u32 \<times> 'h due list \<times> 'w" where
  "due_view clk \<equiv> \<lambda>(m, st, w). (m, dues (clk w) (next_timeout st), w)"



lemma wait_then_due:
  assumes "sys_timeouts_mbox_fetch fetch act st w = Some y"
  shows "honest fetch clk \<longrightarrow> steady act clk \<longrightarrow> timers_ok st \<longrightarrow>
    due_wait fetch clk act (dues (clk w) (next_timeout st)) w = Some (due_view clk y) \<and> timers_ok (fst (snd y))"
proof (rule sys_timeouts_mbox_fetch.raw_induct [where P = "\<lambda>fetch act st w y. honest fetch clk \<longrightarrow> steady act clk \<longrightarrow> timers_ok st \<longrightarrow>
    due_wait fetch clk act (dues (clk w) (next_timeout st)) w = Some (due_view clk y) \<and> timers_ok (fst (snd y))",
    OF _ assms], intro impI, goal_cases)
  case (1 loop fetch act st w y)
  note IH = 1(1) and body = 1(2) and h = 1(3) and act = 1(4) and st = 1(5)
  show ?case
  proof (cases "next_timeout st")
    case Nil
    then show ?thesis using body st by (subst due_wait.simps) (auto split: option.splits)
  next
    case (Cons t ts)
    let ?f = "if 0 < timeo_time t then fetch (timeo_time t) w else Some (SYS_ARCH_TIMEOUT, 0, w)"
    obtain r m w1 where f: "?f = Some (r, m, w1)" using body Cons by (cases ?f) auto
    have f': "(if clk w < clk w + unat (timeo_time t) then fetch (of_nat (clk w + unat (timeo_time t) - clk w)) w
        else Some (SYS_ARCH_TIMEOUT, 0, w)) = Some (r, m, w1)"
      using f by (simp add: unat_gt_0 word_gt_0 split: if_splits)
    note R = wait_round [OF st Cons h f]
    show ?thesis
    proof (cases "r = SYS_ARCH_TIMEOUT")
      case True
      let ?st = "st\<lparr>next_timeout := ts, memp_timeouts := memp_timeouts st + 1\<rparr>"
      obtain st2 w2 where h2: "run_handler act (timeo_h t) (timeo_arg t) ?st w1 = (st2, w2)" by fastforce
      have ok: "timers_ok ?st" "dues (clk w + unat (timeo_time t)) ts = dues (clk w1) ts" using R True by simp_all
      note D = run_handler_due [OF ok(1) act h2]
      have "loop fetch act st2 w2 = Some y" using body Cons f h2 True by simp
      then have "due_wait fetch clk act (dues (clk w2) (next_timeout st2)) w2 = Some (due_view clk y) \<and> timers_ok (fst (snd y))"
        using IH h act D by blast
      then show ?thesis using Cons f' True D ok(2) by (subst due_wait.simps) simp
    next
      case False
      have y: "y = (m, st\<lparr>next_timeout := t\<lparr>timeo_time := timeo_time t - r\<rparr> # ts\<rparr>, w1)"
        using body Cons f False R by simp
      show ?thesis using Cons f' False R y by (subst due_wait.simps) simp
    qed
  qed
qed

lemma due_then_wait:
  assumes "due_wait fetch clk act ds w = Some z"
  shows "\<forall>st. honest fetch clk \<longrightarrow> steady act clk \<longrightarrow> timers_ok st \<longrightarrow> ds = dues (clk w) (next_timeout st) \<longrightarrow>
    (\<exists>y. sys_timeouts_mbox_fetch fetch act st w = Some y)"
proof (rule due_wait.raw_induct [where P = "\<lambda>fetch clk act ds w z. \<forall>st. honest fetch clk \<longrightarrow> steady act clk \<longrightarrow> timers_ok st \<longrightarrow>
    ds = dues (clk w) (next_timeout st) \<longrightarrow> (\<exists>y. sys_timeouts_mbox_fetch fetch act st w = Some y)",
    OF _ assms], intro allI impI, goal_cases)
  case (1 loop fetch clk act ds w z st)
  note IH = 1(1) and body = 1(2) and h = 1(3) and act = 1(4) and st = 1(5) and ds = 1(6)
  show ?case
  proof (cases "next_timeout st")
    case Nil
    then show ?thesis using body ds by (subst sys_timeouts_mbox_fetch.simps) (auto split: option.splits)
  next
    case (Cons t ts)
    let ?f = "if 0 < timeo_time t then fetch (timeo_time t) w else Some (SYS_ARCH_TIMEOUT, 0, w)"
    have f': "(if clk w < clk w + unat (timeo_time t) then fetch (of_nat (clk w + unat (timeo_time t) - clk w)) w
        else Some (SYS_ARCH_TIMEOUT, 0, w)) = ?f"
      by (simp add: unat_gt_0 word_gt_0)
    obtain r m w1 where f: "?f = Some (r, m, w1)" using body Cons ds f' by (cases ?f) auto
    note R = wait_round [OF st Cons h f]
    show ?thesis
    proof (cases "r = SYS_ARCH_TIMEOUT")
      case True
      let ?st = "st\<lparr>next_timeout := ts, memp_timeouts := memp_timeouts st + 1\<rparr>"
      obtain st2 w2 where h2: "run_handler act (timeo_h t) (timeo_arg t) ?st w1 = (st2, w2)" by fastforce
      have ok: "timers_ok ?st" "dues (clk w + unat (timeo_time t)) ts = dues (clk w1) ts" using R True by simp_all
      note D = run_handler_due [OF ok(1) act h2]
      have "loop fetch clk act (dues (clk w2) (next_timeout st2)) w2 = Some z"
        using body Cons ds f f' True D ok(2) by simp
      then obtain y where "sys_timeouts_mbox_fetch fetch act st2 w2 = Some y" using IH h act D by blast
      moreover have "sys_timeouts_mbox_fetch fetch act st w = sys_timeouts_mbox_fetch fetch act st2 w2"
        using Cons f True h2 by (subst sys_timeouts_mbox_fetch.simps) simp
      ultimately show ?thesis by (intro exI [where x = y]) simp
    next
      case False
      then show ?thesis using Cons f by (subst sys_timeouts_mbox_fetch.simps) simp
    qed
  qed
qed

text \<open>C13: Over a mailbox that reports the time waited as its contract says and callbacks that take no
  time, the list of time differences and the wait on it behave as a list of absolute due times in
  order: timeouts are added and removed there without moving the others, and every callback runs
  at its due time or not before a message.\<close>

theorem timers_refine_due_times:
  assumes "honest fetch clk" "steady act clk" "timers_ok st"
  shows "map_option (due_view clk) (sys_timeouts_mbox_fetch fetch act st w) =
      due_wait fetch clk act (dues (clk w) (next_timeout st)) w \<and>
    sorted (map fst (dues (clk w) (next_timeout st))) \<and>
    (case sys_timeouts_mbox_fetch fetch act st w of None \<Rightarrow> True | Some (m, st', w') \<Rightarrow> timers_ok st')"
proof (cases "sys_timeouts_mbox_fetch fetch act st w")
  case None
  then have "due_wait fetch clk act (dues (clk w) (next_timeout st)) w = None"
    using due_then_wait assms by (metis not_None_eq)
  then show ?thesis using None by (simp add: dues_sorted)
next
  case (Some y)
  then show ?thesis using wait_then_due [OF Some] assms by (simp add: dues_sorted split_beta)
qed


section \<open>A mailbox that keeps the contract\<close>

text \<open>A clock in milliseconds, the messages still to arrive and the callbacks run so far.\<close>

record world =
  clock :: nat
  arrivals :: "(nat \<times> u32) list"
  fired :: "(nat \<times> lwip_handler) list"

definition ideal_fetch :: "u32 \<Rightarrow> world \<Rightarrow> (u32 \<times> u32 \<times> world) option" where
  "ideal_fetch n w =
     (case arrivals w of
        [] \<Rightarrow> (if n = 0 then None else Some (SYS_ARCH_TIMEOUT, 0, w\<lparr>clock := clock w + unat n\<rparr>))
      | (a, m) # rest \<Rightarrow>
          (let waited = max a (clock w) - clock w
           in if n \<noteq> 0 \<and> unat n \<le> waited then Some (SYS_ARCH_TIMEOUT, 0, w\<lparr>clock := clock w + unat n\<rparr>)
              else if waited < 0xffffffff then Some (of_nat waited, m, w\<lparr>clock := clock w + waited, arrivals := rest\<rparr>)
              else None))"

definition log_fired :: "lwip_handler \<Rightarrow> world \<Rightarrow> world" where
  "log_fired h w = w\<lparr>fired := fired w @ [(clock w, h)]\<rparr>"

text \<open>The callbacks of a node without connections.\<close>

fun idle_act :: "lwip_handler \<Rightarrow> u32 \<Rightarrow> world \<Rightarrow> lwip_handler timer_op list \<times> world" where
  "idle_act Ip_reass_timer a w = ip_reass_timer (log_fired Ip_reass_timer) w"
| "idle_act Arp_timer a w = arp_timer (log_fired Arp_timer) w"
| "idle_act Tcpip_tcp_timer a w = tcpip_tcp_timer (log_fired Tcpip_tcp_timer) (\<lambda>_. False) (\<lambda>_ w. w) w"

lemma ideal_honest: "honest ideal_fetch clock"
proof -
  have u: "unat (of_nat n :: u32) = n" if "n < 0xffffffff" for n using that by (intro unat_of_nat_small) simp
  have ne: "(of_nat n :: u32) \<noteq> SYS_ARCH_TIMEOUT" if "n < 0xffffffff" for n
  proof
    assume "(of_nat n :: u32) = SYS_ARCH_TIMEOUT"
    then have "unat (of_nat n :: u32) = unat SYS_ARCH_TIMEOUT" by simp
    then show False using u [OF that] that by (simp add: SYS_ARCH_TIMEOUT_def)
  qed
  show ?thesis
    unfolding honest_def
    by (auto simp: ideal_fetch_def Let_def u ne word_less_nat_alt simp del: of_nat_diff split: list.splits if_splits)
qed

lemma idle_steady: "steady idle_act clock"
proof -
  have "clock (snd (idle_act f a w)) = clock w" for f a w
    by (cases f) (simp_all add: ip_reass_timer_def arp_timer_def tcpip_tcp_timer_def log_fired_def Let_def)
  then show ?thesis by (simp add: steady_def)
qed

abbreviation fresh_timers :: "lwip_handler timers" where
  "fresh_timers \<equiv> \<lparr>next_timeout = [], memp_timeouts = MEMP_NUM_SYS_TIMEOUT\<rparr>"

lemma init_timers:
  "timers_ok (sys_timeouts_init fresh_timers)"
  "dues c (next_timeout (sys_timeouts_init fresh_timers)) = [(c + 1000, Some Ip_reass_timer, 0), (c + 5000, Some Arp_timer, 0)]"
  by (simp_all add: sys_timeouts_init_def sys_timeout_def timers_ok_def Let_def MEMP_NUM_SYS_TIMEOUT_def
      IP_TMR_INTERVAL_def ARP_TMR_INTERVAL_def)

text \<open>Five seconds of an idle node: the reassembly timer each second and the ARP timer at the end.\<close>

definition period :: "nat \<Rightarrow> (nat \<times> lwip_handler) list" where
  "period c = [(c + 1000, Ip_reass_timer), (c + 2000, Ip_reass_timer), (c + 3000, Ip_reass_timer), (c + 4000, Ip_reass_timer),
     (c + 5000, Arp_timer), (c + 5000, Ip_reass_timer)]"

abbreviation two_timers :: "nat \<Rightarrow> nat \<Rightarrow> lwip_handler due list" where
  "two_timers r a \<equiv> [(r, Some Ip_reass_timer, 0), (a, Some Arp_timer, 0)]"

lemma ideal_fire:
  assumes "clock w \<le> d" "d \<le> a" "d < clock w + 2 ^ 32" "arrivals w = [(a, m)]"
  shows "due_wait ideal_fetch clock idle_act ((d, h, x) # rest) w =
    (case run_due clock idle_act h x rest (w\<lparr>clock := d\<rparr>) of (ds, w) \<Rightarrow> due_wait ideal_fetch clock idle_act ds w)"
proof (cases "clock w < d")
  case True
  have u: "unat (of_nat (d - clock w) :: u32) = d - clock w" by (rule unat_of_nat_small) (use assms in simp)
  have "(of_nat (d - clock w) :: u32) \<noteq> 0"
  proof
    assume "(of_nat (d - clock w) :: u32) = 0"
    then show False using u True by (metis unsigned_0 zero_less_diff less_irrefl)
  qed
  moreover have "max a (clock w) = a" "d - clock w \<le> a - clock w" using assms by (simp_all add: diff_le_mono)
  ultimately have "ideal_fetch (of_nat (d - clock w)) w = Some (SYS_ARCH_TIMEOUT, 0, w\<lparr>clock := d\<rparr>)"
    using u assms True by (simp add: ideal_fetch_def Let_def del: of_nat_diff)
  then show ?thesis using True by (subst due_wait.simps) (simp del: of_nat_diff)
next
  case False
  then have "w\<lparr>clock := d\<rparr> = w" using assms(1) by simp
  then show ?thesis using False by (subst due_wait.simps) simp
qed

lemmas run_idle = run_due_def ip_reass_timer_def arp_timer_def log_fired_def Let_def k_of_def
  MEMP_NUM_SYS_TIMEOUT_def IP_TMR_INTERVAL_def ARP_TMR_INTERVAL_def

lemma reass_step:
  assumes "clock w \<le> d" "d \<le> a" "d < clock w + 2 ^ 32" "arrivals w = [(a, m)]" "d + 1000 < e"
  shows "due_wait ideal_fetch clock idle_act (two_timers d e) w =
    due_wait ideal_fetch clock idle_act (two_timers (d + 1000) e) (w\<lparr>clock := d, fired := fired w @ [(d, Ip_reass_timer)]\<rparr>)"
  using assms(5) by (simp add: ideal_fire [OF assms(1-4)] run_idle)

lemma period_step:
  assumes "arrivals w = [(a, m)]" "clock w + 5000 \<le> a"
  shows "due_wait ideal_fetch clock idle_act (two_timers (clock w + 1000) (clock w + 5000)) w =
    due_wait ideal_fetch clock idle_act (two_timers (clock w + 6000) (clock w + 10000))
      (w\<lparr>clock := clock w + 5000, fired := fired w @ period (clock w)\<rparr>)"
proof -
  let ?c = "clock w"
  let ?w = "\<lambda>c l. w\<lparr>clock := c, fired := fired w @ l\<rparr>"
  let ?l = "[(?c + 1000, Ip_reass_timer), (?c + 2000, Ip_reass_timer), (?c + 3000, Ip_reass_timer)]"
  have "due_wait ideal_fetch clock idle_act (two_timers (?c + 1000) (?c + 5000)) w =
      due_wait ideal_fetch clock idle_act (two_timers (?c + 4000) (?c + 5000)) (?w (?c + 3000) ?l)"
    using assms by (simp add: reass_step [where a = a and m = m] add.commute)
  also have "\<dots> = due_wait ideal_fetch clock idle_act [(?c + 5000, Some Arp_timer, 0), (?c + 5000, Some Ip_reass_timer, 0)]
      (?w (?c + 4000) (?l @ [(?c + 4000, Ip_reass_timer)]))"
    using assms by (simp add: ideal_fire [where a = a and m = m] run_idle add.commute [of "clock w"])
  also have "\<dots> = due_wait ideal_fetch clock idle_act (two_timers (?c + 5000) (?c + 10000))
      (?w (?c + 5000) (?l @ [(?c + 4000, Ip_reass_timer), (?c + 5000, Arp_timer)]))"
    using assms by (simp add: ideal_fire [where a = a and m = m] run_idle add.commute [of "clock w"])
  also have "\<dots> = due_wait ideal_fetch clock idle_act (two_timers (?c + 6000) (?c + 10000)) (?w (?c + 5000) (period ?c))"
    using assms by (simp add: ideal_fire [where a = a and m = m] run_idle period_def add.commute [of "clock w"])
  finally show ?thesis .
qed


lemma periods:
  "arrivals w = [(a, m)] \<Longrightarrow> clock w + 5000 * n \<le> a \<Longrightarrow>
    due_wait ideal_fetch clock idle_act (two_timers (clock w + 1000) (clock w + 5000)) w =
    due_wait ideal_fetch clock idle_act (two_timers (clock w + 5000 * n + 1000) (clock w + 5000 * n + 5000))
      (w\<lparr>clock := clock w + 5000 * n, fired := fired w @ concat (map (\<lambda>i. period (clock w + 5000 * i)) [0..<n])\<rparr>)"
proof (induction n)
  case (Suc n)
  let ?w = "w\<lparr>clock := clock w + 5000 * n, fired := fired w @ concat (map (\<lambda>i. period (clock w + 5000 * i)) [0..<n])\<rparr>"
  have "due_wait ideal_fetch clock idle_act (two_timers (clock ?w + 1000) (clock ?w + 5000)) ?w =
      due_wait ideal_fetch clock idle_act (two_timers (clock ?w + 6000) (clock ?w + 10000))
        (?w\<lparr>clock := clock ?w + 5000, fired := fired ?w @ period (clock ?w)\<rparr>)"
    by (rule period_step [where a = a and m = m]) (use Suc.prems in simp_all)
  then show ?case using Suc by (simp add: algebra_simps)
qed simp

theorem cyclic_timers_on_time:
  assumes "arrivals w = [(clock w + 5000 * n + k, m)]" "k < 1000" "5000 * n + k < 2 ^ 31"
  shows "\<exists>st w'. sys_timeouts_mbox_fetch ideal_fetch idle_act (sys_timeouts_init fresh_timers) w = Some (m, st, w') \<and>
    clock w' = clock w + 5000 * n + k \<and> fired w' = fired w @ concat (map (\<lambda>i. period (clock w + 5000 * i)) [0..<n]) \<and>
    dues (clock w') (next_timeout st) = two_timers (clock w + 5000 * n + 1000) (clock w + 5000 * n + 5000)"
proof -
  let ?st = "sys_timeouts_init fresh_timers" and ?c = "clock w + 5000 * n"
  let ?w = "w\<lparr>clock := ?c, fired := fired w @ concat (map (\<lambda>i. period (clock w + 5000 * i)) [0..<n])\<rparr>"
  have f: "ideal_fetch 1000 ?w = Some (of_nat k, m, ?w\<lparr>clock := ?c + k, arrivals := []\<rparr>)"
    using assms by (simp add: ideal_fetch_def Let_def)
  have k: "(of_nat k :: u32) \<noteq> SYS_ARCH_TIMEOUT"
  proof
    assume "(of_nat k :: u32) = SYS_ARCH_TIMEOUT"
    then have "unat (of_nat k :: u32) = unat SYS_ARCH_TIMEOUT" by simp
    moreover have "unat (of_nat k :: u32) = k" by (rule unat_of_nat_small) (use assms in simp)
    ultimately show False using assms(2) by (simp add: SYS_ARCH_TIMEOUT_def)
  qed
  have "due_wait ideal_fetch clock idle_act (dues (clock w) (next_timeout ?st)) w =
      due_wait ideal_fetch clock idle_act (two_timers (?c + 1000) (?c + 5000)) ?w"
    using periods [OF assms(1), of n] by (simp add: init_timers)
  also have "\<dots> = Some (m, two_timers (?c + 1000) (?c + 5000), ?w\<lparr>clock := ?c + k, arrivals := []\<rparr>)"
    using f k by (subst due_wait.simps) simp
  finally have d: "due_wait ideal_fetch clock idle_act (dues (clock w) (next_timeout ?st)) w = \<dots>" .
  obtain y where y: "sys_timeouts_mbox_fetch ideal_fetch idle_act ?st w = Some y"
    using due_then_wait [OF d] ideal_honest idle_steady init_timers(1) by blast
  then have "due_view clock y = (m, two_timers (?c + 1000) (?c + 5000), ?w\<lparr>clock := ?c + k, arrivals := []\<rparr>)"
    using wait_then_due [OF y] d ideal_honest idle_steady init_timers(1) by simp
  then show ?thesis using y by (cases y) auto
qed

theorem cyclic_timers_on_time_witness:
  "\<exists>st w'. sys_timeouts_mbox_fetch ideal_fetch idle_act (sys_timeouts_init fresh_timers)
       \<lparr>clock = 0, arrivals = [(5010, 77)], fired = []\<rparr> = Some (77, st, w') \<and>
     fired w' = [(1000, Ip_reass_timer), (2000, Ip_reass_timer), (3000, Ip_reass_timer), (4000, Ip_reass_timer),
       (5000, Arp_timer), (5000, Ip_reass_timer)]"
  using cyclic_timers_on_time [of "\<lparr>clock = 0, arrivals = [(5010, 77)], fired = []\<rparr>" 1 10 77] by (auto simp: period_def)

theorem timers_refine_due_times_witness:
  "map_option (due_view clock) (sys_timeouts_mbox_fetch ideal_fetch idle_act (sys_timeouts_init fresh_timers)
       \<lparr>clock = 0, arrivals = [(700, 77)], fired = []\<rparr>) =
     Some (77, two_timers 1000 5000, \<lparr>clock = 700, arrivals = [], fired = []\<rparr>)"
proof -
  let ?w = "\<lparr>clock = 0, arrivals = [(700, 77)], fired = []\<rparr>"
  have "due_wait ideal_fetch clock idle_act (two_timers 1000 5000) ?w = Some (77, two_timers 1000 5000, \<lparr>clock = 700, arrivals = [], fired = []\<rparr>)"
    by (subst due_wait.simps) (simp add: ideal_fetch_def SYS_ARCH_TIMEOUT_def)
  then show ?thesis
    using timers_refine_due_times [OF ideal_honest idle_steady init_timers(1), of ?w] init_timers(2) [of 0] by simp
qed

end
