(* ===== verification/Lwip_Port.thy ===== *)
theory Lwip_Port
  imports Os_Msg Lwip_Timers Lwip_Udp
begin

text \<open>
  The port of lwIP to uC/OS-II (\<^verbatim>\<open>LWIP/arch/sys_arch.c\<close>): mailboxes are message queues, semaphores are
  semaphores, times are ticks.  A mailbox is the queue event its \<^verbatim>\<open>pQ\<close> points to, \<^verbatim>\<open>None\<close> for the null
  pointer; its array \<^verbatim>\<open>pvQEntries\<close> is the store of the queue control block.  \<^verbatim>\<open>nullp\<close> is the address of
  the constant \<^verbatim>\<open>pvNullPointer\<close>, which stands for the null message in a queue.  A call that waits is
  split where the task gives up the processor.  The assertions of the port are empty
  (\<^verbatim>\<open>LWIP_PLATFORM_ASSERT\<close> of \<^verbatim>\<open>arch/cc.h\<close>).
\<close>

section \<open>Mailboxes\<close>

definition MAX_QUEUE_ENTRIES :: int where "MAX_QUEUE_ENTRIES = 20"

definition sys_mbox_new :: "int \<Rightarrow> u32 list \<Rightarrow> os \<Rightarrow> qtab \<Rightarrow> int \<times> nat option \<times> os \<times> qtab" where
  "sys_mbox_new size0 entries s qt =
     (let size1 = (if MAX_QUEUE_ENTRIES < size0 then MAX_QUEUE_ENTRIES else size0);
          (pQ, s, qt) = OSQCreate (take (nat size1) entries) (word_of_int size1) s qt
      in (if pQ \<noteq> None then ERR_OK else ERR_MEM, pQ, s, qt))"

definition sys_mbox_free :: "nat option \<Rightarrow> os \<Rightarrow> qtab \<Rightarrow> (os \<times> qtab) option" where
  "sys_mbox_free pQ s qt = do { e \<leftarrow> pQ; (_, ucErr, s, qt) \<leftarrow> OSQDel e OS_DEL_ALWAYS s qt; Some (s, qt) }"

definition to_queue :: "u32 \<Rightarrow> u32 \<Rightarrow> u32" where
  "to_queue nullp msg = (if msg = 0 then nullp else msg)"

definition from_queue :: "u32 \<Rightarrow> u32 \<Rightarrow> u32" where
  "from_queue nullp temp = (if temp = nullp then 0 else temp)"

text \<open>The loop of \<^verbatim>\<open>sys_mbox_post\<close>: after a failed attempt come what the other tasks and the interrupts
  do before the next one, one function per round.  \<^verbatim>\<open>False\<close>: still looping after the last.\<close>

fun sys_mbox_post :: "u32 \<Rightarrow> nat option \<Rightarrow> u32 \<Rightarrow> (os \<Rightarrow> qtab \<Rightarrow> os \<times> qtab) list \<Rightarrow> os \<Rightarrow> qtab \<Rightarrow> (bool \<times> os \<times> qtab) option" where
  "sys_mbox_post nullp pQ msg [] s qt =
     do { e \<leftarrow> pQ; (r, s, qt) \<leftarrow> OSQPost e (to_queue nullp msg) s qt; Some (r = OS_ERR_NONE, s, qt) }"
| "sys_mbox_post nullp pQ msg (others # more_rounds) s qt =
     do {
       e \<leftarrow> pQ;
       (r, s, qt) \<leftarrow> OSQPost e (to_queue nullp msg) s qt;
       (if r \<noteq> OS_ERR_NONE then (let (s, qt) = others s qt in sys_mbox_post nullp pQ msg more_rounds s qt)
        else Some (True, s, qt))
     }"

definition sys_mbox_trypost :: "u32 \<Rightarrow> nat option \<Rightarrow> u32 \<Rightarrow> os \<Rightarrow> qtab \<Rightarrow> (int \<times> os \<times> qtab) option" where
  "sys_mbox_trypost nullp pQ msg s qt =
     do {
       e \<leftarrow> pQ;
       (r, s, qt) \<leftarrow> OSQPost e (to_queue nullp msg) s qt;
       Some (if r \<noteq> OS_ERR_NONE then ERR_MEM else ERR_OK, s, qt)
     }"

definition wait_ticks :: "u32 \<Rightarrow> u32" where
  "wait_ticks timeout =
     (if timeout \<noteq> 0
      then (let ucos_timeout = (timeout * OS_TICKS_PER_SEC) div 1000
            in if ucos_timeout < 1 then 1 else ucos_timeout)
      else 0)"

definition mbox_waited :: "u32 \<Rightarrow> u32 \<Rightarrow> u32" where
  "mbox_waited timeout timeout_new =
     (let timeout_new = (if timeout < timeout_new then timeout_new - timeout else 0xffffffff - timeout + timeout_new)
      in timeout_new * 1000 div OS_TICKS_PER_SEC + 1)"

definition fetch_result :: "u32 \<Rightarrow> u32 \<Rightarrow> u32 \<Rightarrow> u32 \<Rightarrow> u8 \<Rightarrow> u32 \<times> u32" where
  "fetch_result nullp timeout timeout_new temp ucErr =
     (if ucErr = OS_ERR_TIMEOUT then SYS_ARCH_TIMEOUT else mbox_waited timeout timeout_new, from_queue nullp temp)"

text \<open>The answer, if the call did not wait, and the time at which it began.\<close>

definition sys_arch_mbox_fetch :: "u32 \<Rightarrow> nat option \<Rightarrow> u32 \<Rightarrow> os \<Rightarrow> qtab \<Rightarrow> ((u32 \<times> u32) option \<times> u32 \<times> os \<times> qtab) option" where
  "sys_arch_mbox_fetch nullp pQ timeout s qt =
     do {
       e \<leftarrow> pQ;
       let ucos_timeout = wait_ticks timeout;
       let timeout = OSTimeGet s;
       (r, s, qt) \<leftarrow> OSQPend e (ucast (ucast ucos_timeout :: u16)) s qt;
       Some (case r of None \<Rightarrow> None | Some (temp, ucErr) \<Rightarrow> Some (fetch_result nullp timeout (OSTimeGet s) temp ucErr), timeout, s, qt)
     }"

definition sys_arch_mbox_fetch_end :: "u32 \<Rightarrow> nat option \<Rightarrow> u32 \<Rightarrow> os \<Rightarrow> ((u32 \<times> u32) \<times> os) option" where
  "sys_arch_mbox_fetch_end nullp pQ timeout s =
     do {
       e \<leftarrow> pQ;
       (temp, ucErr, s) \<leftarrow> OSQPend_end e s;
       Some (fetch_result nullp timeout (OSTimeGet s) temp ucErr, s)
     }"

definition sys_arch_mbox_tryfetch :: "u32 \<Rightarrow> nat option \<Rightarrow> os \<Rightarrow> qtab \<Rightarrow> ((u32 \<times> u32) option \<times> u32 \<times> os \<times> qtab) option" where
  "sys_arch_mbox_tryfetch nullp pQ s qt = sys_arch_mbox_fetch nullp pQ 1 s qt"

definition sys_mbox_valid :: "nat option \<Rightarrow> os \<Rightarrow> qtab \<Rightarrow> bool option" where
  "sys_mbox_valid pQ s qt =
     do {
       e \<leftarrow> pQ;
       (ucErr, q_data) \<leftarrow> OSQQuery e s qt;
       let (nmsgs, qsize) = (case q_data of None \<Rightarrow> (0, 0) | Some (_, nmsgs, qsize, _) \<Rightarrow> (nmsgs, qsize));
       Some (ucErr < 2 \<and> nmsgs < qsize)
     }"

section \<open>Semaphores, threads and time\<close>

definition sys_sem_new :: "u8 \<Rightarrow> os \<Rightarrow> int \<times> nat option \<times> os" where
  "sys_sem_new count s = (let (sem, s) = OSSemCreate (ucast count) s in (if sem = None then ERR_MEM else ERR_OK, sem, s))"

definition sem_waited :: "u32 \<Rightarrow> u32 \<Rightarrow> u32" where
  "sem_waited timeout timeout_new =
     (let timeout_new = (if timeout \<le> timeout_new then timeout_new - timeout else 0xffffffff - timeout + timeout_new)
      in timeout_new * 1000 div OS_TICKS_PER_SEC + 1)"

definition wait_result :: "u32 \<Rightarrow> u32 \<Rightarrow> u8 \<Rightarrow> u32" where
  "wait_result timeout timeout_new ucErr = (if ucErr = OS_ERR_TIMEOUT then SYS_ARCH_TIMEOUT else sem_waited timeout timeout_new)"

definition sys_arch_sem_wait :: "nat option \<Rightarrow> u32 \<Rightarrow> os \<Rightarrow> (u32 option \<times> u32 \<times> os) option" where
  "sys_arch_sem_wait sem timeout s =
     do {
       e \<leftarrow> sem;
       let ucos_timeout = wait_ticks timeout;
       let timeout = OSTimeGet s;
       (r, s) \<leftarrow> OSSemPend e (ucast (ucast ucos_timeout :: u16)) s;
       Some (map_option (wait_result timeout (OSTimeGet s)) r, timeout, s)
     }"

definition sys_arch_sem_wait_end :: "nat option \<Rightarrow> u32 \<Rightarrow> os \<Rightarrow> (u32 \<times> os) option" where
  "sys_arch_sem_wait_end sem timeout s =
     do { e \<leftarrow> sem; (ucErr, s) \<leftarrow> OSSemPend_end e s; Some (wait_result timeout (OSTimeGet s) ucErr, s) }"

definition sys_sem_signal :: "nat option \<Rightarrow> os \<Rightarrow> os option" where
  "sys_sem_signal sem s = do { e \<leftarrow> sem; (_, s) \<leftarrow> OSSemPost e s; Some s }"

definition sys_sem_free :: "nat option \<Rightarrow> os \<Rightarrow> (nat option \<times> os) option" where
  "sys_sem_free sem s = do { e \<leftarrow> sem; (_, ucErr, s) \<leftarrow> OSSemDel e OS_DEL_ALWAYS s; Some (None, s) }"

definition sys_sem_valid :: "nat option \<Rightarrow> os \<Rightarrow> bool option" where
  "sys_sem_valid sem s = do { e \<leftarrow> sem; Some (fst (OSSemQuery e s) = OS_ERR_NONE) }"

definition sys_sem_set_invalid :: "nat option \<Rightarrow> nat option" where
  "sys_sem_set_invalid sem = None"

definition sys_thread_new :: "string \<Rightarrow> u32 \<Rightarrow> int \<Rightarrow> os \<Rightarrow> os option" where
  "sys_thread_new tname stack_top prio s =
     (if tname = ''tcpip_thread'' then do { (_, s) \<leftarrow> OSTaskCreate stack_top (word_of_int prio) s; Some s } else Some s)"

definition sys_now :: "os \<Rightarrow> u32" where
  "sys_now s = (let ucos_time = OSTimeGet s in ucos_time * 1000 div OS_TICKS_PER_SEC + 1)"


section \<open>Times\<close>

lemma waited_same_tick [simp]: "mbox_waited n n = 4294967"
  by (simp add: mbox_waited_def OS_TICKS_PER_SEC_def)

lemma ticks_to_ms:
  assumes "unat (d :: u32) < 4294968"
  shows "unat (d * 1000 div 1000 + 1) = unat d + 1"
proof -
  have m: "unat (d * 1000) = unat d * 1000" by (subst unat_mult_no_wrap) (use assms in simp_all)
  have d: "unat (d * 1000 div 1000) = unat d" by (simp add: unat_div m)
  show ?thesis using d assms by (simp add: unat_plus_one_word)
qed

lemma wait_ticks_small:
  assumes "unat t < 4294968"
  shows "wait_ticks t = t"
proof (cases "t = 0")
  case False
  have m: "unat (t * 1000) = unat t * 1000" by (subst unat_mult_no_wrap) (use assms in simp_all)
  have "unat (t * 1000 div 1000) = unat t" by (simp add: unat_div m)
  then have "t * 1000 div 1000 = t" by (simp only: word_unat_eq_iff)
  moreover have "\<not> t < 1" using False by (simp add: word_less_nat_alt unat_gt_0)
  ultimately show ?thesis using False by (simp add: wait_ticks_def OS_TICKS_PER_SEC_def Let_def)
qed (simp add: wait_ticks_def)

theorem port_times:
  assumes "unat t < 4294968" "unat start + k < 2 ^ 32" "k < 4294968"
  shows "unat (ucast (ucast (wait_ticks t) :: u16) :: u32) = unat t mod 65536 \<and>
    unat (mbox_waited start (start + of_nat k)) = (if k = 0 then 4294967 else k + 1) \<and>
    unat (sem_waited start (start + of_nat k)) = k + 1"
proof -
  have k: "unat (of_nat k :: u32) = k" by (rule unat_of_nat_small) (use assms in simp)
  have now: "unat (start + of_nat k) = unat start + k" by (subst unat_add_no_wrap) (use assms k in simp_all)
  have lt: "start < start + of_nat k \<longleftrightarrow> 0 < k" "start \<le> start + of_nat k" by (simp_all only: word_less_nat_alt word_le_nat_alt now) simp_all
  have ms: "unat (of_nat k * 1000 div 1000 + 1 :: u32) = k + 1" using ticks_to_ms [of "of_nat k"] assms k by simp
  have "unat (ucast (ucast t :: u16) :: u32) = unat t mod 65536" by (simp add: unsigned_ucast_eq take_bit_eq_mod unat_mod)
  moreover have "unat (mbox_waited start (start + of_nat k)) = (if k = 0 then 4294967 else k + 1)"
    using lt(1) ms by (cases "k = 0") (simp_all add: mbox_waited_def Let_def OS_TICKS_PER_SEC_def)
  moreover have "unat (sem_waited start (start + of_nat k)) = k + 1"
    using lt(2) ms by (simp add: sem_waited_def Let_def OS_TICKS_PER_SEC_def)
  ultimately show ?thesis by (simp add: wait_ticks_small [OF assms(1)])
qed

theorem port_times_witness:
  "ucast (ucast (wait_ticks 65536) :: u16) = (0 :: u32) \<and> unat (mbox_waited 1000 (1000 + of_nat 5)) = 6"
  using port_times [of 65536 1000 5] by (simp add: unat_eq_0)

section \<open>The contents of a mailbox\<close>

definition mbox_list :: "u32 \<Rightarrow> nat \<Rightarrow> qtab \<Rightarrow> u32 list" where
  "mbox_list nullp k qt = map (from_queue nullp) (q_list (OSQTbl qt ! k))"

lemma OSQPend_some:
  assumes q: "q_inv s qt" and e: "e < length (OSEvents s)" "OSEventType (OSEvents s ! e) = OS_EVENT_TYPE_Q"
    and z: "OSIntNesting s = 0" "OSLockNesting s = 0" and k: "the_q e s qt = Some k" and l: "q_list (OSQTbl qt ! k) = m # ms"
  shows "\<exists>qt'. OSQPend e n s qt = Some (Some (m, OS_ERR_NONE), s, qt') \<and> q_inv s qt' \<and> the_q e s qt' = Some k \<and>
    q_list (OSQTbl qt' ! k) = ms \<and> q_cap (OSQTbl qt' ! k) = q_cap (OSQTbl qt ! k)"
proof -
  obtain k' where "the_q e s qt = Some k'" "q_ok (OSQTbl qt ! k')" "k' < length (OSQTbl qt)" "waits s e \<noteq> {} \<Longrightarrow> OSQEntries (OSQTbl qt ! k') = 0"
    using q_invD [OF q e] by metis
  then have ok: "q_ok (OSQTbl qt ! k)" "k < length (OSQTbl qt)" "waits s e \<noteq> {} \<Longrightarrow> OSQEntries (OSQTbl qt ! k) = 0" using k by simp_all
  have n: "OSQEntries (OSQTbl qt ! k) \<noteq> 0" using l q_empty_iff [of "OSQTbl qt ! k"] by auto
  obtain q' where q': "q_get (OSQTbl qt ! k) = Some (m, q')" "q_ok q'" "q_list q' = ms" "OSQSize q' = OSQSize (OSQTbl qt ! k)"
    using q_get_ok [OF ok(1) n] l by auto
  have w: "waits s e = {}" using ok(3) n by blast
  let ?qt = "qt\<lparr>OSQTbl := (OSQTbl qt)[k := q']\<rparr>"
  have "q_inv s ?qt" using q_inv_upd [OF q e k q'(2)] w by blast
  moreover have "the_q e s ?qt = Some k" using k by (simp add: the_q_def)
  moreover have "OSQPend e n s qt = Some (Some (m, OS_ERR_NONE), s, ?qt)"
    using e z k n q'(1) by (simp add: OSQPend_def word_gt_0)
  ultimately show ?thesis using q' ok(2) by auto
qed

theorem mbox_is_fifo:
  assumes "kernel_ok s" "q_inv s qt" and "e < length (OSEvents s)" "OSEventType (OSEvents s ! e) = OS_EVENT_TYPE_Q"
    and "waits s e = {}" "the_q e s qt = Some k" and "nullp \<noteq> 0" "msg \<noteq> nullp" and "OSIntNesting s = 0" "OSLockNesting s = 0"
  shows "(\<exists>qt'. sys_mbox_trypost nullp (Some e) msg s qt =
        Some (if length (mbox_list nullp k qt) < q_cap (OSQTbl qt ! k) then ERR_OK else ERR_MEM, s, qt') \<and> q_inv s qt' \<and>
        mbox_list nullp k qt' = (if length (mbox_list nullp k qt) < q_cap (OSQTbl qt ! k) then mbox_list nullp k qt @ [msg] else mbox_list nullp k qt)) \<and>
    (mbox_list nullp k qt = [] \<or> (\<exists>qt'. sys_arch_mbox_fetch nullp (Some e) n s qt =
        Some (Some (4294967, hd (mbox_list nullp k qt)), OSTime s, s, qt') \<and> q_inv s qt' \<and>
        mbox_list nullp k qt' = tl (mbox_list nullp k qt)))"
proof -
  let ?q = "OSQTbl qt ! k" and ?m = "to_queue nullp msg"
  obtain q' where q': "q_call_run e (QPost ?m) s qt = Some (fst (deque_call (q_cap ?q) (QPost ?m) (q_list ?q)), s, qt\<lparr>OSQTbl := (OSQTbl qt)[k := q']\<rparr>)"
    "q_inv s (qt\<lparr>OSQTbl := (OSQTbl qt)[k := q']\<rparr>)" "(OSQTbl qt)[k := q'] ! k = q'"
    "q_list q' = snd (deque_call (q_cap ?q) (QPost ?m) (q_list ?q))"
    using q_call_deque [OF assms(1-6), of "QPost ?m"] by blast
  have code: "from_queue nullp ?m = msg" using assms(7,8) by (simp add: from_queue_def to_queue_def)
  have err: "OS_ERR_Q_FULL \<noteq> OS_ERR_NONE" by (simp add: OS_ERR_Q_FULL_def OS_ERR_NONE_def)
  have "sys_mbox_trypost nullp (Some e) msg s qt =
      Some (if length (mbox_list nullp k qt) < q_cap ?q then ERR_OK else ERR_MEM, s, qt\<lparr>OSQTbl := (OSQTbl qt)[k := q']\<rparr>)"
    using q'(1) err by (auto simp: sys_mbox_trypost_def mbox_list_def)
  moreover have "mbox_list nullp k (qt\<lparr>OSQTbl := (OSQTbl qt)[k := q']\<rparr>) =
      (if length (mbox_list nullp k qt) < q_cap ?q then mbox_list nullp k qt @ [msg] else mbox_list nullp k qt)"
    using q'(3,4) code by (simp add: mbox_list_def)
  moreover have "\<exists>qt'. sys_arch_mbox_fetch nullp (Some e) n s qt =
        Some (Some (4294967, hd (mbox_list nullp k qt)), OSTime s, s, qt') \<and> q_inv s qt' \<and> mbox_list nullp k qt' = tl (mbox_list nullp k qt)"
    if ne: "mbox_list nullp k qt \<noteq> []"
  proof -
    obtain m ms where l: "q_list ?q = m # ms" using ne by (cases "q_list ?q") (simp_all add: mbox_list_def)
    show ?thesis
      using OSQPend_some [OF assms(2,3,4,9,10,6) l, of "ucast (ucast (wait_ticks n) :: u16)"] l
      by (auto simp: sys_arch_mbox_fetch_def Let_def fetch_result_def OS_ERR_NONE_def OS_ERR_TIMEOUT_def OSTimeGet_def mbox_list_def)
  qed
  ultimately show ?thesis using q'(2) by blast
qed

lemma demo_run: "OSIntNesting (fst (snd demo_qs)) = 0" "OSLockNesting (fst (snd demo_qs)) = 0" "kernel_ok (fst (snd demo_qs))"
proof -
  have eq: "fst (snd demo_qs) = (OSStart os_boot)\<lparr>OSEvents := OSEvents (fst (snd demo_qs)), OSEventFreeList := OSEventFreeList (fst (snd demo_qs))\<rparr>"
    by (simp add: OSQCreate_def boot_running boot_events Let_def upd_event_def OS_EventWaitListInit_def OS_QInit_def
        OS_MAX_QS_def upt_conv_Cons)
  show "OSIntNesting (fst (snd demo_qs)) = 0" "OSLockNesting (fst (snd demo_qs)) = 0" by (subst eq, simp add: boot_running)+
  show "kernel_ok (fst (snd demo_qs))" using demo_queue(1) by (simp add: stable_def)
qed

theorem mbox_is_fifo_witness:
  "\<exists>qt'. sys_mbox_trypost 9 (Some 0) 0 (fst (snd demo_qs)) (snd (snd demo_qs)) = Some (ERR_OK, fst (snd demo_qs), qt') \<and>
     mbox_list 9 0 qt' = [0]"
proof -
  have "mbox_list 9 0 (snd (snd demo_qs)) = []" "q_cap (OSQTbl (snd (snd demo_qs)) ! 0) = 2"
    by (simp_all add: mbox_list_def demo_queue(7) q_make_def q_list_def)
  then show ?thesis
    using mbox_is_fifo [OF demo_run(3) demo_queue(2-6), of 9 0] demo_run by auto
qed

section \<open>The wait of lwIP over the port\<close>

text \<open>\<^verbatim>\<open>others\<close> is what happens between the point where the task gives up the processor and the point
  where it runs again.\<close>

definition port_fetch :: "u32 \<Rightarrow> nat option \<Rightarrow> (os \<Rightarrow> qtab \<Rightarrow> os \<times> qtab) \<Rightarrow> u32 \<Rightarrow> os \<times> qtab \<Rightarrow> (u32 \<times> u32 \<times> os \<times> qtab) option" where
  "port_fetch nullp pQ others n w =
     (case sys_arch_mbox_fetch nullp pQ n (fst w) (snd w) of
        None \<Rightarrow> None
      | Some (Some (r, m), _, s, qt) \<Rightarrow> Some (r, m, s, qt)
      | Some (None, start, s, qt) \<Rightarrow>
          (case others s qt of (s, qt) \<Rightarrow> map_option (\<lambda>((r, m), s). (r, m, s, qt)) (sys_arch_mbox_fetch_end nullp pQ start s)))"

text \<open>C40: A message that is in the mailbox already sets the next timer to 0 if it has from 1 to
  4294967 ms to go, and the next call runs its callback before anything else although no time has
  passed.\<close>

theorem queued_message_fires_timer:
  assumes "q_inv s qt" and "e < length (OSEvents s)" "OSEventType (OSEvents s ! e) = OS_EVENT_TYPE_Q"
    and "OSIntNesting s = 0" "OSLockNesting s = 0" "the_q e s qt = Some k" "mbox_list nullp k qt = m # ms"
    and "next_timeout st = t # ts" "0 < timeo_time t" "unat (timeo_time t) < 4294968"
  shows "\<exists>qt' st'. sys_timeouts_mbox_fetch (port_fetch nullp (Some e) others) act st (s, qt) = Some (m, st', s, qt') \<and>
    mbox_list nullp k qt' = ms \<and> next_timeout st' = t\<lparr>timeo_time := 0\<rparr> # ts \<and>
    sys_timeouts_mbox_fetch (port_fetch nullp (Some e) others) act st' (s, qt') =
      (case run_handler act (timeo_h t) (timeo_arg t) (st'\<lparr>next_timeout := ts, memp_timeouts := memp_timeouts st' + 1\<rparr>) (s, qt') of
         (st2, w2) \<Rightarrow> sys_timeouts_mbox_fetch (port_fetch nullp (Some e) others) act st2 w2)"
proof -
  obtain x xs where l: "q_list (OSQTbl qt ! k) = x # xs" "m = from_queue nullp x" "ms = map (from_queue nullp) xs"
    using map_eq_Cons_D [OF assms(7) [unfolded mbox_list_def]] by metis
  obtain qt' where p: "OSQPend e (ucast (ucast (wait_ticks (timeo_time t)) :: u16)) s qt = Some (Some (x, OS_ERR_NONE), s, qt')"
    "q_list (OSQTbl qt' ! k) = xs"
    using OSQPend_some [OF assms(1-6) l(1)] by blast
  have f: "port_fetch nullp (Some e) others (timeo_time t) (s, qt) = Some (4294967, m, s, qt')"
    using p(1) l(2) by (simp add: port_fetch_def sys_arch_mbox_fetch_def Let_def fetch_result_def OS_ERR_NONE_def OS_ERR_TIMEOUT_def)
  have le: "\<not> 4294967 < timeo_time t" using assms(10) by (simp add: word_less_nat_alt)
  have r1: "sys_timeouts_mbox_fetch (port_fetch nullp (Some e) others) act st (s, qt) =
      Some (m, st\<lparr>next_timeout := t\<lparr>timeo_time := 0\<rparr> # ts\<rparr>, s, qt')"
    using assms(8,9) f le by (subst sys_timeouts_mbox_fetch.simps) (simp add: SYS_ARCH_TIMEOUT_def)
  have r2: "sys_timeouts_mbox_fetch (port_fetch nullp (Some e) others) act st' (s, qt') =
      (case run_handler act (timeo_h t) (timeo_arg t) (st'\<lparr>next_timeout := ts, memp_timeouts := memp_timeouts st' + 1\<rparr>) (s, qt') of
         (st2, w2) \<Rightarrow> sys_timeouts_mbox_fetch (port_fetch nullp (Some e) others) act st2 w2)"
    if "next_timeout st' = t\<lparr>timeo_time := 0\<rparr> # ts" for st' and qt' :: qtab
    using that by (subst sys_timeouts_mbox_fetch.simps) simp
  show ?thesis using r1 r2 p(2) l(3) by (intro exI conjI) (auto simp: mbox_list_def)
qed


theorem queued_message_fires_timer_witness:
  "\<exists>qt qt' st'. sys_timeouts_mbox_fetch (port_fetch 9 (Some 0) Pair) (\<lambda>_ _ w. ([], w)) (sys_timeouts_init fresh_timers) (fst (snd demo_qs), qt) =
     Some (7, st', fst (snd demo_qs), qt') \<and> dues 0 (next_timeout st') = [(0, Some Ip_reass_timer, 0), (4000, Some Arp_timer, 0)]"
proof -
  let ?s = "fst (snd demo_qs)" and ?qt = "snd (snd demo_qs)"
  obtain q' where q': "q_inv ?s (?qt\<lparr>OSQTbl := (OSQTbl ?qt)[0 := q']\<rparr>)" "the_q 0 ?s (?qt\<lparr>OSQTbl := (OSQTbl ?qt)[0 := q']\<rparr>) = Some 0"
    "(OSQTbl ?qt)[0 := q'] ! 0 = q'" "q_list q' = snd (deque_call (q_cap (OSQTbl ?qt ! 0)) (QPost 7) (q_list (OSQTbl ?qt ! 0)))"
    using q_call_deque [OF demo_run(3) demo_queue(2-6), of "QPost 7"] by blast
  have l: "mbox_list 9 0 (?qt\<lparr>OSQTbl := (OSQTbl ?qt)[0 := q']\<rparr>) = [7]"
    using q'(3,4) by (simp add: mbox_list_def demo_queue(7) q_make_def q_list_def from_queue_def)
  let ?t = "make_timeo 1000 (Some Ip_reass_timer) 0"
  obtain ts where st: "next_timeout (sys_timeouts_init fresh_timers) = ?t # ts" "dues 0 ts = [(4000, Some Arp_timer, 0)]"
    by (simp add: sys_timeouts_init_def sys_timeout_def Let_def MEMP_NUM_SYS_TIMEOUT_def IP_TMR_INTERVAL_def ARP_TMR_INTERVAL_def)
  have "0 < timeo_time ?t" "unat (timeo_time ?t) < 4294968" by simp_all
  then obtain qt' st' where "sys_timeouts_mbox_fetch (port_fetch 9 (Some 0) Pair) (\<lambda>_ _ w. ([], w)) (sys_timeouts_init fresh_timers)
      (?s, ?qt\<lparr>OSQTbl := (OSQTbl ?qt)[0 := q']\<rparr>) = Some (7, st', ?s, qt')" "next_timeout st' = ?t\<lparr>timeo_time := 0\<rparr> # ts"
    using queued_message_fires_timer [OF q'(1) demo_queue(3,4) demo_run(1,2) q'(2) l st(1), of Pair "\<lambda>_ _ w. ([], w)"] by blast
  then show ?thesis using st(2) by (intro exI conjI) (assumption, simp)
qed

end
