(* ===== verification/Lwip_Tcpip.thy ===== *)
theory Lwip_Tcpip
  imports Lwip_Port
begin

text \<open>
  How other tasks and interrupts reach the thread of lwIP (\<^verbatim>\<open>LWIP/lwip-1.4.1/src/api/tcpip.c\<close>, with the
  pools of \<^verbatim>\<open>memp.c\<close>): a message is taken from its pool, filled in and posted to the mailbox of
  \<^verbatim>\<open>tcpip_thread\<close>, which runs it and gives it back.  Configuration: \<^verbatim>\<open>LWIP_TCPIP_CORE_LOCKING\<close>,
  \<^verbatim>\<open>LWIP_NETIF_API\<close> and \<^verbatim>\<open>LWIP_TCPIP_TIMEOUT\<close> are 0.
\<close>

section \<open>Pools and messages\<close>

text \<open>A pool is the list of its free elements, the first one first.\<close>

definition memp_init_pool :: "u32 \<Rightarrow> nat \<Rightarrow> nat \<Rightarrow> u32 list" where
  "memp_init_pool base sz n = fold (\<lambda>j tab. (base + of_nat (j * sz)) # tab) [0..<n] []"

definition memp_malloc :: "u32 list \<Rightarrow> u32 \<times> u32 list" where
  "memp_malloc tab = (case tab of [] \<Rightarrow> (0, []) | memp # rest \<Rightarrow> (memp, rest))"

definition memp_free :: "u32 \<Rightarrow> u32 list \<Rightarrow> u32 list" where
  "memp_free mem tab = (if mem = 0 then tab else mem # tab)"

text \<open>Functions are \<^verbatim>\<open>'f\<close>; packets, interfaces and arguments are addresses.\<close>

datatype 'f tcpip_msg =
    TCPIP_MSG_API 'f u32
  | TCPIP_MSG_INPKT u32 u32
  | TCPIP_MSG_CALLBACK 'f u32
  | TCPIP_MSG_CALLBACK_STATIC 'f u32

record 'f tcpip =
  tcpip_mbox :: "nat option"
  pool_inpkt :: "u32 list"
  pool_api :: "u32 list"
  msg_at :: "u32 \<Rightarrow> 'f tcpip_msg option"

definition store_msg :: "u32 \<Rightarrow> 'f tcpip_msg \<Rightarrow> 'f tcpip \<Rightarrow> 'f tcpip" where
  "store_msg a x T = T\<lparr>msg_at := (msg_at T)(a := Some x)\<rparr>"

text \<open>A freed element holds the link of its pool, no message.\<close>

definition free_inpkt :: "u32 \<Rightarrow> 'f tcpip \<Rightarrow> 'f tcpip" where
  "free_inpkt a T = T\<lparr>pool_inpkt := memp_free a (pool_inpkt T), msg_at := (msg_at T)(a := None)\<rparr>"

definition free_api :: "u32 \<Rightarrow> 'f tcpip \<Rightarrow> 'f tcpip" where
  "free_api a T = T\<lparr>pool_api := memp_free a (pool_api T), msg_at := (msg_at T)(a := None)\<rparr>"

section \<open>Posting\<close>

definition tcpip_input :: "u32 \<Rightarrow> u32 \<Rightarrow> u32 \<Rightarrow> 'f tcpip \<Rightarrow> os \<Rightarrow> qtab \<Rightarrow> (int \<times> 'f tcpip \<times> os \<times> qtab) option" where
  "tcpip_input nullp p inp T s qt =
     do {
       valid \<leftarrow> sys_mbox_valid (tcpip_mbox T) s qt;
       (if \<not> valid then Some (ERR_VAL, T, s, qt)
        else (let (msg, tab) = memp_malloc (pool_inpkt T); T = T\<lparr>pool_inpkt := tab\<rparr>
              in if msg = 0 then Some (ERR_MEM, T, s, qt)
                 else do {
                   let T = store_msg msg (TCPIP_MSG_INPKT p inp) T;
                   (r, s, qt) \<leftarrow> sys_mbox_trypost nullp (tcpip_mbox T) msg s qt;
                   Some (if r \<noteq> ERR_OK then (ERR_MEM, free_inpkt msg T, s, qt) else (ERR_OK, T, s, qt))
                 }))
     }"

text \<open>With \<^verbatim>\<open>block\<close> the call returns once the loop of \<^verbatim>\<open>sys_mbox_post\<close> has ended; \<^verbatim>\<open>None\<close> for the result
  while it still loops after the given rounds.\<close>

definition tcpip_callback_with_block ::
    "u32 \<Rightarrow> 'f \<Rightarrow> u32 \<Rightarrow> bool \<Rightarrow> (os \<Rightarrow> qtab \<Rightarrow> os \<times> qtab) list \<Rightarrow> 'f tcpip \<Rightarrow> os \<Rightarrow> qtab \<Rightarrow> (int option \<times> 'f tcpip \<times> os \<times> qtab) option" where
  "tcpip_callback_with_block nullp f ctx blocking rounds T s qt =
     do {
       valid \<leftarrow> sys_mbox_valid (tcpip_mbox T) s qt;
       (if valid
        then (let (msg, tab) = memp_malloc (pool_api T); T = T\<lparr>pool_api := tab\<rparr>
              in if msg = 0 then Some (Some ERR_MEM, T, s, qt)
                 else (let T = store_msg msg (TCPIP_MSG_CALLBACK f ctx) T
                       in if blocking
                          then do {
                            (posted, s, qt) \<leftarrow> sys_mbox_post nullp (tcpip_mbox T) msg rounds s qt;
                            Some (if posted then Some ERR_OK else None, T, s, qt)
                          }
                          else do {
                            (r, s, qt) \<leftarrow> sys_mbox_trypost nullp (tcpip_mbox T) msg s qt;
                            Some (if r \<noteq> ERR_OK then (Some ERR_MEM, free_api msg T, s, qt) else (Some ERR_OK, T, s, qt))
                          }))
        else Some (Some ERR_VAL, T, s, qt))
     }"

definition tcpip_callbackmsg_new :: "'f \<Rightarrow> u32 \<Rightarrow> 'f tcpip \<Rightarrow> u32 \<times> 'f tcpip" where
  "tcpip_callbackmsg_new f ctx T =
     (let (msg, tab) = memp_malloc (pool_api T); T = T\<lparr>pool_api := tab\<rparr>
      in if msg = 0 then (0, T) else (msg, store_msg msg (TCPIP_MSG_CALLBACK_STATIC f ctx) T))"

definition tcpip_callbackmsg_delete :: "u32 \<Rightarrow> 'f tcpip \<Rightarrow> 'f tcpip" where
  "tcpip_callbackmsg_delete msg T = free_api msg T"

definition tcpip_trycallback :: "u32 \<Rightarrow> u32 \<Rightarrow> 'f tcpip \<Rightarrow> os \<Rightarrow> qtab \<Rightarrow> (int \<times> os \<times> qtab) option" where
  "tcpip_trycallback nullp msg T s qt =
     do {
       valid \<leftarrow> sys_mbox_valid (tcpip_mbox T) s qt;
       (if \<not> valid then Some (ERR_VAL, s, qt) else sys_mbox_trypost nullp (tcpip_mbox T) msg s qt)
     }"

text \<open>\<^verbatim>\<open>tcpip_apimsg\<close> up to the wait for the answer: the message is a variable of the caller at \<^verbatim>\<open>here\<close>.
  The result is \<^verbatim>\<open>ERR_VAL\<close> at once, or the state in which the caller waits for \<^verbatim>\<open>op_completed\<close>.\<close>

definition tcpip_apimsg ::
    "u32 \<Rightarrow> u32 \<Rightarrow> 'f \<Rightarrow> u32 \<Rightarrow> nat option \<Rightarrow> (os \<Rightarrow> qtab \<Rightarrow> os \<times> qtab) list \<Rightarrow> 'f tcpip \<Rightarrow> os \<Rightarrow> qtab \<Rightarrow> (int option \<times> 'f tcpip \<times> os \<times> qtab) option" where
  "tcpip_apimsg nullp here f apimsg op_completed rounds T s qt =
     do {
       valid \<leftarrow> sys_mbox_valid (tcpip_mbox T) s qt;
       (if valid
        then (let T = store_msg here (TCPIP_MSG_API f apimsg) T
              in do {
                (posted, s, qt) \<leftarrow> sys_mbox_post nullp (tcpip_mbox T) here rounds s qt;
                (if posted then do { (r, _, s) \<leftarrow> sys_arch_sem_wait op_completed 0 s; Some (None, T, s, qt) }
                 else Some (None, T, s, qt))
              })
        else Some (Some ERR_VAL, T, s, qt))
     }"

section \<open>The thread\<close>

text \<open>What a message makes the thread do; the effects are on \<^verbatim>\<open>'x\<close>.\<close>

record ('f, 'x) stack =
  call_api :: "'f \<Rightarrow> u32 \<Rightarrow> 'x \<Rightarrow> 'x"
  call_cb :: "'f \<Rightarrow> u32 \<Rightarrow> 'x \<Rightarrow> 'x"
  eth_flags :: "u32 \<Rightarrow> bool"
  ethernet_input :: "u32 \<Rightarrow> u32 \<Rightarrow> 'x \<Rightarrow> 'x"
  ip_input :: "u32 \<Rightarrow> u32 \<Rightarrow> 'x \<Rightarrow> 'x"

definition tcpip_thread_msg :: "('f, 'x) stack \<Rightarrow> u32 \<Rightarrow> 'f tcpip \<Rightarrow> 'x \<Rightarrow> ('f tcpip \<times> 'x) option" where
  "tcpip_thread_msg S msg T x =
     (case msg_at T msg of
        None \<Rightarrow> None
      | Some (TCPIP_MSG_API f apimsg) \<Rightarrow> Some (T, call_api S f apimsg x)
      | Some (TCPIP_MSG_INPKT p inp) \<Rightarrow>
          (let x = (if eth_flags S inp then ethernet_input S p inp x else ip_input S p inp x) in Some (free_inpkt msg T, x))
      | Some (TCPIP_MSG_CALLBACK f ctx) \<Rightarrow> (let x = call_cb S f ctx x in Some (free_api msg T, x))
      | Some (TCPIP_MSG_CALLBACK_STATIC f ctx) \<Rightarrow> Some (T, call_cb S f ctx x))"

text \<open>\<^verbatim>\<open>tcpip_init\<close> makes the mailbox and the thread; \<^verbatim>\<open>lwip_init\<close> is not modelled.\<close>

definition tcpip_init :: "u32 list \<Rightarrow> u32 \<Rightarrow> 'f tcpip \<Rightarrow> os \<Rightarrow> qtab \<Rightarrow> ('f tcpip \<times> os \<times> qtab) option" where
  "tcpip_init entries stack_top T s qt =
     (let (_, pQ, s, qt) = sys_mbox_new 20 entries s qt; T = T\<lparr>tcpip_mbox := pQ\<rparr>
      in do { s \<leftarrow> sys_thread_new ''tcpip_thread'' stack_top 5 s; Some (T, s, qt) })"


section \<open>One call\<close>

definition tcpip_ok :: "u32 \<Rightarrow> nat \<Rightarrow> nat \<Rightarrow> 'f tcpip \<Rightarrow> qtab \<Rightarrow> bool" where
  "tcpip_ok nullp e k T qt \<longleftrightarrow>
     tcpip_mbox T = Some e \<and> distinct (mbox_list nullp k qt @ pool_inpkt T) \<and>
     0 \<notin> set (mbox_list nullp k qt @ pool_inpkt T) \<and> nullp \<notin> set (mbox_list nullp k qt @ pool_inpkt T) \<and>
     (\<forall>a\<in>set (mbox_list nullp k qt). msg_at T a \<noteq> None)"

definition pending :: "u32 \<Rightarrow> nat \<Rightarrow> 'f tcpip \<Rightarrow> qtab \<Rightarrow> 'f tcpip_msg list" where
  "pending nullp k T qt = map (\<lambda>a. the (msg_at T a)) (mbox_list nullp k qt)"

lemma pending_len [simp]: "length (pending nullp k T qt) = length (mbox_list nullp k qt)"
  by (simp add: pending_def)

lemma mbox_list_len: "length (mbox_list nullp k qt) = unat (OSQEntries (OSQTbl qt ! k))"
  by (simp add: mbox_list_def q_len)

lemma mbox_valid:
  assumes q: "q_inv s qt" and e: "e < length (OSEvents s)" "OSEventType (OSEvents s ! e) = OS_EVENT_TYPE_Q" and k: "the_q e s qt = Some k"
  shows "sys_mbox_valid (Some e) s qt = Some (length (mbox_list nullp k qt) < q_cap (OSQTbl qt ! k))"
proof -
  obtain k' where "the_q e s qt = Some k'" "q_ok (OSQTbl qt ! k')" using q_invD [OF q e] by metis
  then have ok: "q_ok (OSQTbl qt ! k)" using k by simp
  have out: "OSQOut (OSQTbl qt ! k) < length (OSQStore (OSQTbl qt ! k))" if "0 < OSQEntries (OSQTbl qt ! k)"
  proof -
    have "0 < OSQSize (OSQTbl qt ! k)" using ok that unfolding q_ok_def by (metis order_less_le_trans)
    then show ?thesis using ok by (simp add: q_ok_def)
  qed
  show ?thesis
    using e(2) k out
    by (auto simp: sys_mbox_valid_def OSQQuery_def Let_def OS_ERR_NONE_def mbox_list_len word_less_nat_alt split: bind_splits)
qed

lemma trypost_list:
  assumes "kernel_ok s" "q_inv s qt" and "e < length (OSEvents s)" "OSEventType (OSEvents s ! e) = OS_EVENT_TYPE_Q"
    and "waits s e = {}" "the_q e s qt = Some k" and "msg \<noteq> 0" "msg \<noteq> nullp" and "length (mbox_list nullp k qt) < q_cap (OSQTbl qt ! k)"
  obtains qt' where "sys_mbox_trypost nullp (Some e) msg s qt = Some (ERR_OK, s, qt')" "q_inv s qt'" "the_q e s qt' = Some k"
    "mbox_list nullp k qt' = mbox_list nullp k qt @ [msg]" "q_cap (OSQTbl qt' ! k) = q_cap (OSQTbl qt ! k)"
proof -
  let ?q = "OSQTbl qt ! k"
  obtain q' where q': "q_call_run e (QPost msg) s qt = Some (fst (deque_call (q_cap ?q) (QPost msg) (q_list ?q)), s, qt\<lparr>OSQTbl := (OSQTbl qt)[k := q']\<rparr>)"
    "q_inv s (qt\<lparr>OSQTbl := (OSQTbl qt)[k := q']\<rparr>)" "the_q e s (qt\<lparr>OSQTbl := (OSQTbl qt)[k := q']\<rparr>) = Some k"
    "(OSQTbl qt)[k := q'] ! k = q'" "q_cap q' = q_cap ?q"
    "q_list q' = snd (deque_call (q_cap ?q) (QPost msg) (q_list ?q))"
    using q_call_deque [OF assms(1-6), of "QPost msg"] by blast
  have room: "length (q_list ?q) < q_cap ?q" using assms(9) by (simp add: mbox_list_def)
  have "sys_mbox_trypost nullp (Some e) msg s qt = Some (ERR_OK, s, qt\<lparr>OSQTbl := (OSQTbl qt)[k := q']\<rparr>)"
    using q'(1) assms(7) room by (auto simp: sys_mbox_trypost_def to_queue_def)
  then show thesis
    using that [of "qt\<lparr>OSQTbl := (OSQTbl qt)[k := q']\<rparr>"] q'(2-6) room assms(8) by (simp add: mbox_list_def from_queue_def)
qed

lemma fetch_list:
  assumes "q_inv s qt" and "e < length (OSEvents s)" "OSEventType (OSEvents s ! e) = OS_EVENT_TYPE_Q"
    and "OSIntNesting s = 0" "OSLockNesting s = 0" "the_q e s qt = Some k" "mbox_list nullp k qt = m # ms"
  obtains qt' where "sys_arch_mbox_fetch nullp (Some e) n s qt = Some (Some (4294967, m), OSTime s, s, qt')" "q_inv s qt'"
    "the_q e s qt' = Some k" "mbox_list nullp k qt' = ms" "q_cap (OSQTbl qt' ! k) = q_cap (OSQTbl qt ! k)"
proof -
  obtain x xs where l: "q_list (OSQTbl qt ! k) = x # xs" "m = from_queue nullp x" "ms = map (from_queue nullp) xs"
    using map_eq_Cons_D [OF assms(7) [unfolded mbox_list_def]] by metis
  obtain qt' where "OSQPend e (ucast (ucast (wait_ticks n) :: u16)) s qt = Some (Some (x, OS_ERR_NONE), s, qt')" "q_inv s qt'"
    "the_q e s qt' = Some k" "q_list (OSQTbl qt' ! k) = xs" "q_cap (OSQTbl qt' ! k) = q_cap (OSQTbl qt ! k)"
    using OSQPend_some [OF assms(1-6) l(1)] by blast
  then show thesis
    using that [of qt'] l(2,3)
    by (simp add: sys_arch_mbox_fetch_def Let_def fetch_result_def OS_ERR_NONE_def OS_ERR_TIMEOUT_def OSTimeGet_def mbox_list_def)
qed

section \<open>Packets in order\<close>

text \<open>Interrupts hand in packets while the thread serves one message after the other.\<close>

datatype rx_event = Rx u32 u32 | Serve

fun rx_step :: "u32 \<Rightarrow> ('f, 'x) stack \<Rightarrow> u32 \<Rightarrow> rx_event \<Rightarrow> 'f tcpip \<times> os \<times> qtab \<times> 'x \<Rightarrow> (int list \<times> 'f tcpip \<times> os \<times> qtab \<times> 'x) option" where
  "rx_step nullp S n (Rx p inp) (T, s, qt, x) = map_option (\<lambda>(r, T, s, qt). ([r], T, s, qt, x)) (tcpip_input nullp p inp T s qt)"
| "rx_step nullp S n Serve (T, s, qt, x) =
     (case sys_arch_mbox_fetch nullp (tcpip_mbox T) n s qt of
        Some (Some (_, m), _, s, qt) \<Rightarrow> map_option (\<lambda>(T, x). ([], T, s, qt, x)) (tcpip_thread_msg S m T x)
      | _ \<Rightarrow> None)"

fun rx_run :: "u32 \<Rightarrow> ('f, 'x) stack \<Rightarrow> u32 \<Rightarrow> rx_event list \<Rightarrow> 'f tcpip \<times> os \<times> qtab \<times> 'x \<Rightarrow> (int list \<times> 'f tcpip \<times> os \<times> qtab \<times> 'x) option" where
  "rx_run nullp S n [] st = Some ([], st)"
| "rx_run nullp S n (ev # evs) st =
     (case rx_step nullp S n ev st of
        None \<Rightarrow> None
      | Some (r, st) \<Rightarrow> map_option (\<lambda>(rs, st). (r @ rs, st)) (rx_run nullp S n evs st))"

text \<open>The same on a list of waiting packets, at most \<^verbatim>\<open>cap\<close> in the mailbox and \<^verbatim>\<open>lim\<close> in the pool; the
  served ones are collected.  \<^verbatim>\<open>None\<close>: the thread is served with nothing to do, where it would wait.\<close>

fun line_run :: "nat \<Rightarrow> nat \<Rightarrow> rx_event list \<Rightarrow> (u32 \<times> u32) list \<Rightarrow> (int list \<times> (u32 \<times> u32) list \<times> (u32 \<times> u32) list) option" where
  "line_run cap lim [] xs = Some ([], [], xs)"
| "line_run cap lim (Rx p inp # evs) xs =
     (if length xs < cap \<and> length xs < lim
      then map_option (\<lambda>(rs, out). (ERR_OK # rs, out)) (line_run cap lim evs (xs @ [(p, inp)]))
      else map_option (\<lambda>(rs, out). ((if length xs < cap then ERR_MEM else ERR_VAL) # rs, out)) (line_run cap lim evs xs))"
| "line_run cap lim (Serve # evs) xs =
     (case xs of [] \<Rightarrow> None | y # ys \<Rightarrow> map_option (\<lambda>(rs, out, rest). (rs, y # out, rest)) (line_run cap lim evs ys))"

abbreviation inpkt :: "u32 \<times> u32 \<Rightarrow> 'f tcpip_msg" where
  "inpkt \<equiv> \<lambda>(p, inp). TCPIP_MSG_INPKT p inp"

lemma input_step:
  assumes "kernel_ok s" "q_inv s qt" and "e < length (OSEvents s)" "OSEventType (OSEvents s ! e) = OS_EVENT_TYPE_Q"
    and "waits s e = {}" "the_q e s qt = Some k" and ok: "tcpip_ok nullp e k T qt" and l: "pending nullp k T qt = map inpkt xs"
    and lim: "length xs + length (pool_inpkt T) = lim" and cap: "cap = q_cap (OSQTbl qt ! k)"
  shows "\<exists>T' qt'. tcpip_input nullp p inp T s qt =
      Some (if length xs < cap \<and> length xs < lim then ERR_OK else if length xs < cap then ERR_MEM else ERR_VAL, T', s, qt') \<and>
    q_inv s qt' \<and> the_q e s qt' = Some k \<and> tcpip_ok nullp e k T' qt' \<and> q_cap (OSQTbl qt' ! k) = cap \<and>
    (let ys = if length xs < cap \<and> length xs < lim then xs @ [(p, inp)] else xs
     in pending nullp k T' qt' = map inpkt ys \<and> length ys + length (pool_inpkt T') = lim)"
proof -
  have n: "length (mbox_list nullp k qt) = length xs" using l by (metis length_map pending_len)
  have T: "tcpip_mbox T = Some e" using ok by (simp add: tcpip_ok_def)
  have v: "sys_mbox_valid (tcpip_mbox T) s qt = Some (length xs < cap)"
    using mbox_valid [OF assms(2-4,6), of nullp] n cap T by simp
  consider "\<not> length xs < cap" | "length xs < cap" "pool_inpkt T = []" | a as where "length xs < cap" "pool_inpkt T = a # as"
    by (cases "pool_inpkt T") auto
  then show ?thesis
  proof cases
    case 1
    then show ?thesis using v assms by (simp add: tcpip_input_def Let_def)
  next
    case 2
    then have "tcpip_input nullp p inp T s qt = Some (ERR_MEM, T, s, qt)" using v by (simp add: tcpip_input_def Let_def memp_malloc_def)
    then show ?thesis using 2 assms by (simp add: Let_def)
  next
    case 3
    let ?T = "store_msg a (TCPIP_MSG_INPKT p inp) (T\<lparr>pool_inpkt := as\<rparr>)"
    have a: "a \<noteq> 0" "a \<noteq> nullp" "a \<notin> set (mbox_list nullp k qt)" "a \<notin> set as" using ok 3(2) by (auto simp: tcpip_ok_def)
    have room: "length (mbox_list nullp k qt) < q_cap (OSQTbl qt ! k)" using 3(1) n cap by simp
    obtain qt' where qt': "sys_mbox_trypost nullp (Some e) a s qt = Some (ERR_OK, s, qt')" "q_inv s qt'" "the_q e s qt' = Some k"
      "mbox_list nullp k qt' = mbox_list nullp k qt @ [a]" "q_cap (OSQTbl qt' ! k) = q_cap (OSQTbl qt ! k)"
      using trypost_list [OF assms(1-6) a(1,2) room] by metis
    have i: "tcpip_input nullp p inp T s qt = Some (ERR_OK, ?T, s, qt')"
      using v 3 a(1) qt'(1) T by (simp add: tcpip_input_def Let_def memp_malloc_def store_msg_def)
    have p: "pending nullp k ?T qt' = map inpkt (xs @ [(p, inp)])"
    proof -
      have old: "map (\<lambda>b. the (msg_at ?T b)) (mbox_list nullp k qt) = pending nullp k T qt"
        unfolding pending_def by (rule map_cong) (use a(3) in \<open>auto simp: store_msg_def\<close>)
      have "pending nullp k ?T qt' = map (\<lambda>b. the (msg_at ?T b)) (mbox_list nullp k qt) @ [TCPIP_MSG_INPKT p inp]"
        by (simp add: pending_def qt'(4) store_msg_def)
      then show ?thesis unfolding old l by simp
    qed
    have o: "tcpip_ok nullp e k ?T qt'" using ok 3(2) a qt'(4) by (auto simp: tcpip_ok_def store_msg_def)
    have "length xs < lim" "length as + length xs + 1 = lim" using lim 3(2) by simp_all
    then show ?thesis using i o p qt'(2,3,5) cap 3(1) by (simp add: Let_def store_msg_def)
  qed
qed

lemma serve_step:
  assumes "q_inv s qt" and "e < length (OSEvents s)" "OSEventType (OSEvents s ! e) = OS_EVENT_TYPE_Q"
    and "OSIntNesting s = 0" "OSLockNesting s = 0" "the_q e s qt = Some k"
    and ok: "tcpip_ok nullp e k T qt" and l: "pending nullp k T qt = map inpkt ((p, inp) # xs)" and eth: "eth_flags S inp"
  shows "\<exists>T' qt'. rx_step nullp S n Serve (T, s, qt, x) = Some ([], T', s, qt', ethernet_input S p inp x) \<and>
    q_inv s qt' \<and> the_q e s qt' = Some k \<and> tcpip_ok nullp e k T' qt' \<and> q_cap (OSQTbl qt' ! k) = q_cap (OSQTbl qt ! k) \<and>
    pending nullp k T' qt' = map inpkt xs \<and> length (pool_inpkt T') = length (pool_inpkt T) + 1"
proof -
  obtain m ms where ml: "mbox_list nullp k qt = m # ms" using l by (cases "mbox_list nullp k qt") (simp_all add: pending_def)
  have T: "tcpip_mbox T = Some e" using ok by (simp add: tcpip_ok_def)
  have m: "m \<noteq> 0" "m \<noteq> nullp" "m \<notin> set ms" "m \<notin> set (pool_inpkt T)" "msg_at T m \<noteq> None" using ok ml by (auto simp: tcpip_ok_def)
  have msg: "msg_at T m = Some (TCPIP_MSG_INPKT p inp)" using l ml m(5) by (auto simp: pending_def)
  obtain qt' where qt': "sys_arch_mbox_fetch nullp (Some e) n s qt = Some (Some (4294967, m), OSTime s, s, qt')" "q_inv s qt'"
    "the_q e s qt' = Some k" "mbox_list nullp k qt' = ms" "q_cap (OSQTbl qt' ! k) = q_cap (OSQTbl qt ! k)"
    using fetch_list [OF assms(1-6) ml] by metis
  let ?T = "free_inpkt m T"
  have "pending nullp k ?T qt' = map (\<lambda>b. the (msg_at T b)) ms"
    unfolding pending_def qt'(4) by (rule map_cong) (use m(3) in \<open>auto simp: free_inpkt_def\<close>)
  then have p: "pending nullp k ?T qt' = map inpkt xs" using l ml by (simp add: pending_def)
  have o: "tcpip_ok nullp e k ?T qt'" using ok ml m qt'(4) by (auto simp: tcpip_ok_def free_inpkt_def memp_free_def)
  show ?thesis
    using qt' p o msg eth m(1) T
    by (intro exI [where x = ?T] exI [where x = qt']) (simp add: tcpip_thread_msg_def free_inpkt_def memp_free_def)
qed


text \<open>C4: However tcpip_input from interrupts and the rounds of a busy tcpip_thread interleave,
  accepted packets reach the Ethernet input once each and in order, a packet is refused exactly
  when the mailbox is full or the pool empty, and no message of the pool is lost.\<close>

theorem packets_reach_thread_in_order:
  assumes "kernel_ok s" "e < length (OSEvents s)" "OSEventType (OSEvents s ! e) = OS_EVENT_TYPE_Q" "waits s e = {}"
    and "OSIntNesting s = 0" "OSLockNesting s = 0" "\<forall>inp. eth_flags S inp"
    and "q_inv s qt" "the_q e s qt = Some k" "tcpip_ok nullp e k T qt" "pending nullp k T qt = map inpkt xs"
    and "line_run (q_cap (OSQTbl qt ! k)) (length xs + length (pool_inpkt T)) evs xs = Some (rs, served, rest)"
  shows "\<exists>T' qt'. rx_run nullp S n evs (T, s, qt, x) = Some (rs, T', s, qt', fold (\<lambda>(p, inp). ethernet_input S p inp) served x) \<and>
    q_inv s qt' \<and> tcpip_ok nullp e k T' qt' \<and> pending nullp k T' qt' = map inpkt rest \<and>
    length rest + length (pool_inpkt T') = length xs + length (pool_inpkt T)"
  using assms(8-12)
proof (induction evs arbitrary: T qt x xs rs served rest)
  case Nil
  then show ?case by simp
next
  case (Cons ev evs)
  let ?cap = "q_cap (OSQTbl qt ! k)" and ?lim = "length xs + length (pool_inpkt T)"
  show ?case
  proof (cases ev)
    case (Rx p inp)
    let ?ys = "if length xs < ?cap \<and> length xs < ?lim then xs @ [(p, inp)] else xs"
    let ?r = "if length xs < ?cap \<and> length xs < ?lim then ERR_OK else if length xs < ?cap then ERR_MEM else ERR_VAL"
    obtain T1 qt1 where s1: "tcpip_input nullp p inp T s qt = Some (?r, T1, s, qt1)" "q_inv s qt1" "the_q e s qt1 = Some k"
      "tcpip_ok nullp e k T1 qt1" "q_cap (OSQTbl qt1 ! k) = ?cap" "pending nullp k T1 qt1 = map inpkt ?ys"
      "length ?ys + length (pool_inpkt T1) = ?lim"
      using input_step [OF assms(1) Cons.prems(1) assms(2-4) Cons.prems(2-4) refl refl, of p inp] unfolding Let_def by metis
    obtain rs1 where l: "line_run ?cap ?lim evs ?ys = Some (rs1, served, rest)" "rs = ?r # rs1"
      using Cons.prems(5) Rx by (auto split: if_splits)
    show ?thesis
      using Cons.IH [OF s1(2,3,4,6), of rs1 served rest x] l s1(1,5,7) Rx by auto
  next
    case Serve
    obtain p inp ys where xs: "xs = (p, inp) # ys" using Cons.prems(5) Serve by (cases xs) auto
    obtain T1 qt1 where s1: "rx_step nullp S n Serve (T, s, qt, x) = Some ([], T1, s, qt1, ethernet_input S p inp x)" "q_inv s qt1"
      "the_q e s qt1 = Some k" "tcpip_ok nullp e k T1 qt1" "q_cap (OSQTbl qt1 ! k) = ?cap" "pending nullp k T1 qt1 = map inpkt ys"
      "length (pool_inpkt T1) = length (pool_inpkt T) + 1"
      using serve_step [OF Cons.prems(1) assms(2,3,5,6) Cons.prems(2,3) Cons.prems(4) [unfolded xs], of S n x] assms(7) by metis
    obtain served1 where l: "line_run ?cap ?lim evs ys = Some (rs, served1, rest)" "served = (p, inp) # served1"
      using Cons.prems(5) Serve xs by auto
    have lim: "length ys + length (pool_inpkt T1) = ?lim" using xs s1(7) by simp
    show ?thesis
      using Cons.IH [OF s1(2,3,4,6), of rs served1 rest "ethernet_input S p inp x"] l s1(1,5) lim Serve by auto
  qed
qed


text \<open>A mailbox of two entries, three elements in the pool and an input that notes the packets.\<close>

abbreviation demo_tcpip :: "nat tcpip" where
  "demo_tcpip \<equiv> \<lparr>tcpip_mbox = Some 0, pool_inpkt = [100, 200, 300], pool_api = [], msg_at = \<lambda>_. None\<rparr>"

abbreviation demo_stack :: "(nat, u32 list) stack" where
  "demo_stack \<equiv> \<lparr>call_api = \<lambda>_ _ x. x, call_cb = \<lambda>_ _ x. x, eth_flags = \<lambda>_. True, ethernet_input = \<lambda>p _ x. x @ [p], ip_input = \<lambda>_ _ x. x\<rparr>"

lemma demo_tcpip_ok: "tcpip_ok 9 0 0 demo_tcpip (snd (snd demo_qs))" "pending 9 0 demo_tcpip (snd (snd demo_qs)) = map inpkt []"
  by (simp_all add: tcpip_ok_def pending_def mbox_list_def demo_queue(7) q_make_def q_list_def)

theorem packets_reach_thread_in_order_witness:
  "\<exists>T' qt'. rx_run 9 demo_stack 0 [Rx 1 5, Rx 2 5, Rx 3 5, Serve, Serve] (demo_tcpip, fst (snd demo_qs), snd (snd demo_qs), []) =
     Some ([ERR_OK, ERR_OK, ERR_VAL], T', fst (snd demo_qs), qt', [1, 2])"
proof -
  have "q_cap (OSQTbl (snd (snd demo_qs)) ! 0) = 2" by (simp add: demo_queue(7) q_make_def)
  then have l: "line_run (q_cap (OSQTbl (snd (snd demo_qs)) ! 0)) (length [] + length (pool_inpkt demo_tcpip)) [Rx 1 5, Rx 2 5, Rx 3 5, Serve, Serve] [] =
      Some ([ERR_OK, ERR_OK, ERR_VAL], [(1, 5), (2, 5)], [])"
    by simp
  have eth: "\<forall>inp. eth_flags demo_stack inp" by simp
  show ?thesis
    using packets_reach_thread_in_order [OF demo_run(3) demo_queue(3-5) demo_run(1,2) eth demo_queue(2,6) demo_tcpip_ok l, of 0 "[]"]
    by (auto simp del: rx_run.simps)
qed

end
