(* ===== verification/Eth_Rx.thy ===== *)
theory Eth_Rx
  imports Lwip_Tcpip
begin

text \<open>
  Reception of Ethernet frames: the receive descriptors and their functions in
  \<^verbatim>\<open>stm32h7xx_hal_eth.c\<close>, the driver \<^verbatim>\<open>netif/ethernetif.c\<close>, \<^verbatim>\<open>lwip_pkt_handle\<close> and the interrupt of
  \<^verbatim>\<open>HARDWARE/LAN8720/lan8720.c\<close>.  The DMA engine is the environment: it fills the buffer of a
  descriptor it owns and hands the descriptor over (\<^verbatim>\<open>dma_rx\<close>).
\<close>

section \<open>Receive descriptors\<close>

definition ETH_RX_DESC_CNT :: nat where "ETH_RX_DESC_CNT = 4"
definition ETH_MAX_PACKET_SIZE :: u32 where "ETH_MAX_PACKET_SIZE = 1528"
definition ETH_DMARXNDESCWBF_OWN :: u32 where "ETH_DMARXNDESCWBF_OWN = 0x80000000"
definition ETH_DMARXNDESCWBF_CTXT :: u32 where "ETH_DMARXNDESCWBF_CTXT = 0x40000000"
definition ETH_DMARXNDESCWBF_FD :: u32 where "ETH_DMARXNDESCWBF_FD = 0x20000000"
definition ETH_DMARXNDESCWBF_LD :: u32 where "ETH_DMARXNDESCWBF_LD = 0x10000000"
definition ETH_DMARXNDESCWBF_PL :: u32 where "ETH_DMARXNDESCWBF_PL = 0x00007FFF"
definition ETH_DMARXNDESCRF_OWN :: u32 where "ETH_DMARXNDESCRF_OWN = 0x80000000"
definition ETH_DMARXNDESCRF_IOC :: u32 where "ETH_DMARXNDESCRF_IOC = 0x40000000"
definition ETH_DMARXNDESCRF_BUF2V :: u32 where "ETH_DMARXNDESCRF_BUF2V = 0x02000000"
definition ETH_DMARXNDESCRF_BUF1V :: u32 where "ETH_DMARXNDESCRF_BUF1V = 0x01000000"

record rx_desc =
  DESC0 :: u32
  DESC1 :: u32
  DESC2 :: u32
  DESC3 :: u32
  BackupAddr0 :: u32
  BackupAddr1 :: u32

text \<open>Addresses of descriptors are their indices; \<^verbatim>\<open>DMACRDTPR\<close> is the tail pointer register.\<close>

record rx_list =
  RxDesc :: "rx_desc list"
  CurRxDesc :: nat
  FirstAppDesc :: nat
  AppDescNbr :: nat
  AppContextDesc :: nat
  ItMode :: bool
  DMACRDTPR :: nat

definition INCR_RX_DESC_INDEX :: "nat \<Rightarrow> nat \<Rightarrow> nat" where
  "INCR_RX_DESC_INDEX inx offset =
     (let inx = inx + offset in if ETH_RX_DESC_CNT \<le> inx then inx - ETH_RX_DESC_CNT else inx)"

definition upd_desc :: "nat \<Rightarrow> (rx_desc \<Rightarrow> rx_desc) \<Rightarrow> rx_list \<Rightarrow> rx_list" where
  "upd_desc i f l = l\<lparr>RxDesc := (RxDesc l)[i := f (RxDesc l ! i)]\<rparr>"

definition ETH_DMARxDescListInit :: "rx_list \<Rightarrow> rx_list" where
  "ETH_DMARxDescListInit l =
     l\<lparr>RxDesc := replicate ETH_RX_DESC_CNT \<lparr>DESC0 = 0, DESC1 = 0, DESC2 = 0, DESC3 = 0, BackupAddr0 = 0, BackupAddr1 = 0\<rparr>,
       CurRxDesc := 0, FirstAppDesc := 0, AppDescNbr := 0, ItMode := False, AppContextDesc := 0, DMACRDTPR := ETH_RX_DESC_CNT - 1\<rparr>"

definition HAL_ETH_DescAssignMemory :: "nat \<Rightarrow> u32 \<Rightarrow> u32 \<Rightarrow> rx_list \<Rightarrow> bool \<times> rx_list" where
  "HAL_ETH_DescAssignMemory Index pBuffer1 pBuffer2 l =
     (if pBuffer1 = 0 \<or> ETH_RX_DESC_CNT \<le> Index then (False, l)
      else (True, upd_desc Index (\<lambda>d.
              let d = d\<lparr>DESC0 := pBuffer1, BackupAddr0 := pBuffer1, DESC3 := DESC3 d OR ETH_DMARXNDESCRF_BUF1V\<rparr>;
                  d = (if pBuffer2 \<noteq> 0
                       then d\<lparr>DESC2 := pBuffer2, BackupAddr1 := pBuffer2, DESC3 := DESC3 d OR ETH_DMARXNDESCRF_BUF2V\<rparr> else d)
              in d\<lparr>DESC3 := DESC3 d OR ETH_DMARXNDESCRF_OWN\<rparr>) l))"

text \<open>The descriptors' part of \<^verbatim>\<open>HAL_ETH_Start_IT\<close>.\<close>

definition start_rx :: "rx_list \<Rightarrow> rx_list" where
  "start_rx l = l\<lparr>RxDesc := map (\<lambda>d. d\<lparr>DESC3 := DESC3 d OR ETH_DMARXNDESCRF_IOC\<rparr>) (RxDesc l), ItMode := True\<rparr>"

text \<open>A descriptor given back to the DMA.\<close>

definition give_back :: "bool \<Rightarrow> rx_desc \<Rightarrow> rx_desc" where
  "give_back it d =
     (let d = d\<lparr>DESC0 := BackupAddr0 d, DESC3 := ETH_DMARXNDESCRF_BUF1V\<rparr>;
          d = (if BackupAddr1 d \<noteq> 0 then d\<lparr>DESC2 := BackupAddr1 d, DESC3 := DESC3 d OR ETH_DMARXNDESCRF_BUF2V\<rparr> else d);
          d = d\<lparr>DESC3 := DESC3 d OR ETH_DMARXNDESCRF_OWN\<rparr>
      in if it then d\<lparr>DESC3 := DESC3 d OR ETH_DMARXNDESCRF_IOC\<rparr> else d)"

fun give_back_loop :: "nat \<Rightarrow> nat \<Rightarrow> rx_list \<Rightarrow> rx_list" where
  "give_back_loop 0 i l = l"
| "give_back_loop (Suc n) i l = give_back_loop n (INCR_RX_DESC_INDEX i 1) (upd_desc i (give_back (ItMode l)) l)"

text \<open>The scan for a whole frame: found, with the list updated, or not, with the descriptors of an
  incomplete frame.\<close>

fun rx_scan :: "nat \<Rightarrow> nat \<Rightarrow> nat \<Rightarrow> nat \<Rightarrow> rx_list \<Rightarrow> bool \<times> nat \<times> nat \<times> rx_list" where
  "rx_scan 0 descidx appdesccnt firstappdescidx l = (False, appdesccnt, firstappdescidx, l)"
| "rx_scan (Suc n) descidx appdesccnt firstappdescidx l =
     (let d = RxDesc l ! descidx
      in if DESC3 d AND ETH_DMARXNDESCWBF_OWN \<noteq> 0 then (False, appdesccnt, firstappdescidx, l)
         else if DESC3 d AND ETH_DMARXNDESCWBF_LD \<noteq> 0
         then (let appdesccnt = appdesccnt + 1;
                   firstappdescidx = (if appdesccnt = 1 then descidx else firstappdescidx);
                   descidx = INCR_RX_DESC_INDEX descidx 1;
                   d = RxDesc l ! descidx;
                   (descidx, l) = (if DESC3 d AND ETH_DMARXNDESCWBF_OWN = 0 \<and> DESC3 d AND ETH_DMARXNDESCWBF_CTXT \<noteq> 0
                                   then (INCR_RX_DESC_INDEX descidx 1, l\<lparr>AppContextDesc := 1\<rparr>) else (descidx, l))
               in (True, appdesccnt, firstappdescidx, l\<lparr>CurRxDesc := descidx, FirstAppDesc := firstappdescidx, AppDescNbr := appdesccnt\<rparr>))
         else if DESC3 d AND ETH_DMARXNDESCWBF_FD \<noteq> 0 then rx_scan n (INCR_RX_DESC_INDEX descidx 1) 1 descidx l
         else rx_scan n (INCR_RX_DESC_INDEX descidx 1) (appdesccnt + 1) firstappdescidx l)"

definition HAL_ETH_IsRxDataAvailable :: "rx_list \<Rightarrow> bool \<times> rx_list" where
  "HAL_ETH_IsRxDataAvailable l =
     (if AppDescNbr l \<noteq> 0 then (False, l)
      else (case rx_scan ETH_RX_DESC_CNT (CurRxDesc l) 0 0 l of
              (found, appdesccnt, firstappdescidx, l) \<Rightarrow>
                (if found then (True, l) else (False, (give_back_loop appdesccnt firstappdescidx l)\<lparr>AppDescNbr := 0\<rparr>))))"

text \<open>The caller's structure \<^verbatim>\<open>RxBuff\<close> is a local variable whose \<^verbatim>\<open>next\<close> is never set: a frame of several
  descriptors or buffers makes the function follow it, which has no defined effect.  Of the
  structure only the address is used.  \<^verbatim>\<open>None\<close> inside the result: \<^verbatim>\<open>HAL_ERROR\<close>.\<close>

definition HAL_ETH_GetRxDataBuffer :: "u32 \<Rightarrow> rx_list \<Rightarrow> (u32 option \<times> rx_list) option" where
  "HAL_ETH_GetRxDataBuffer RxBuffLen l0 =
     (let (available, l) = (if AppDescNbr l0 = 0 then HAL_ETH_IsRxDataAvailable l0 else (True, l0))
      in if \<not> available then Some (None, l)
         else if AppDescNbr l \<noteq> 1 then None
         else (let d = RxDesc l ! FirstAppDesc l0; lastdesclen = DESC3 d AND ETH_DMARXNDESCWBF_PL
               in if lastdesclen \<le> RxBuffLen then Some (Some (BackupAddr0 d), l)
                  else if BackupAddr1 d \<noteq> 0 then None else Some (None, l)))"

definition HAL_ETH_GetRxDataLength :: "rx_list \<Rightarrow> u32 option \<times> rx_list" where
  "HAL_ETH_GetRxDataLength l0 =
     (let (available, l) = (if AppDescNbr l0 = 0 then HAL_ETH_IsRxDataAvailable l0 else (True, l0))
      in if \<not> available then (None, l)
         else (Some (DESC3 (RxDesc l ! INCR_RX_DESC_INDEX (FirstAppDesc l0) (AppDescNbr l - 1)) AND ETH_DMARXNDESCWBF_PL), l))"

fun build_loop :: "nat \<Rightarrow> nat \<Rightarrow> nat \<Rightarrow> rx_list \<Rightarrow> nat \<times> rx_list" where
  "build_loop 0 descscan i l = (i, l)"
| "build_loop (Suc n) descscan i l =
     (let l = upd_desc i (give_back (ItMode l)) l
      in build_loop n (descscan + 1) (if descscan < AppDescNbr l - 1 then INCR_RX_DESC_INDEX i 1 else i) l)"

definition HAL_ETH_BuildRxDescriptors :: "rx_list \<Rightarrow> bool \<times> rx_list" where
  "HAL_ETH_BuildRxDescriptors l =
     (if AppDescNbr l = 0 then (False, l)
      else (let total = (if AppContextDesc l \<noteq> 0 then AppDescNbr l + 1 else AppDescNbr l);
                (i, l) = build_loop total 0 (FirstAppDesc l) l
            in (True, l\<lparr>DMACRDTPR := i, AppDescNbr := 0\<rparr>)))"

section \<open>The driver\<close>

text \<open>A custom \<^verbatim>\<open>pbuf\<close> of the array \<^verbatim>\<open>rx_pbuf\<close>; its \<^verbatim>\<open>next\<close> is null throughout.  \<^verbatim>\<open>None\<close> as payload: null.\<close>

record rx_pbuf =
  rp_payload :: "u32 option"
  rp_len :: u16
  rp_tot_len :: u16
  rp_type :: nat
  rp_flags :: u8
  rp_ref :: u16

definition PBUF_RAW :: nat where "PBUF_RAW = 0"
definition PBUF_POOL :: nat where "PBUF_POOL = 3"
definition PBUF_FLAG_IS_CUSTOM :: u8 where "PBUF_FLAG_IS_CUSTOM = 2"

definition pbuf_alloced_custom :: "nat \<Rightarrow> u16 \<Rightarrow> nat \<Rightarrow> u32 \<Rightarrow> u16 \<Rightarrow> rx_pbuf \<Rightarrow> rx_pbuf option" where
  "pbuf_alloced_custom offset plen ty payload_mem payload_mem_len p =
     (let off = LWIP_MEM_ALIGN_SIZE offset
      in if unat payload_mem_len < off + unat plen then None
         else Some (p\<lparr>rp_payload := (if payload_mem \<noteq> 0 then Some (payload_mem + of_nat off) else None), rp_flags := PBUF_FLAG_IS_CUSTOM,
                     rp_len := plen, rp_tot_len := plen, rp_type := ty, rp_ref := 1\<rparr>))"

definition pbuf_free_custom :: "rx_pbuf \<Rightarrow> rx_pbuf" where
  "pbuf_free_custom p = p\<lparr>rp_flags := 0, rp_len := 0, rp_tot_len := 0, rp_ref := 0, rp_payload := None\<rparr>"

definition pbuf_free_rx :: "rx_pbuf \<Rightarrow> rx_pbuf" where
  "pbuf_free_rx p = (let p = p\<lparr>rp_ref := rp_ref p - 1\<rparr> in if rp_ref p = 0 then pbuf_free_custom p else p)"

text \<open>\<^verbatim>\<open>rx_mem\<close> is the frame last written at a buffer address, \<^verbatim>\<open>dma_idx\<close> the DMA's current descriptor and
  \<^verbatim>\<open>rx_it\<close> the receive flag of the interrupt.\<close>

record eth =
  rxl :: rx_list
  rx_pbufs :: "rx_pbuf list"
  current_pbuf_idx :: nat
  rx_mem :: "u32 \<Rightarrow> u8 list"
  dma_idx :: nat
  rx_it :: bool

definition low_level_input :: "eth \<Rightarrow> (nat option \<times> eth) option" where
  "low_level_input E =
     (let (available, l) = HAL_ETH_IsRxDataAvailable (rxl E)
      in if available
         then (case HAL_ETH_GetRxDataBuffer ETH_MAX_PACKET_SIZE l of
                 Some (Some buf, l) \<Rightarrow>
                   (case HAL_ETH_GetRxDataLength l of
                      (None, l) \<Rightarrow> None
                    | (Some framelength, l) \<Rightarrow>
                        (let i = current_pbuf_idx E;
                             p = pbuf_alloced_custom PBUF_RAW (ucast framelength) PBUF_POOL buf (ucast framelength) (rx_pbufs E ! i);
                             E = E\<lparr>rxl := l, rx_pbufs := (case p of None \<Rightarrow> rx_pbufs E | Some p \<Rightarrow> (rx_pbufs E)[i := p]),
                                   current_pbuf_idx := if i < ETH_RX_DESC_CNT - 1 then i + 1 else 0\<rparr>
                         in Some (if p = None then None else Some i, E)))
               | _ \<Rightarrow> None)
         else Some (None, E\<lparr>rxl := l\<rparr>))"

text \<open>\<^verbatim>\<open>addr\<close> gives the addresses of \<^verbatim>\<open>rx_pbuf\<close>, \<^verbatim>\<open>inp\<close> is the interface, whose \<^verbatim>\<open>input\<close> is \<^verbatim>\<open>tcpip_input\<close>.\<close>

definition ethernetif_input ::
    "u32 \<Rightarrow> (nat \<Rightarrow> u32) \<Rightarrow> u32 \<Rightarrow> eth \<Rightarrow> 'f tcpip \<Rightarrow> os \<Rightarrow> qtab \<Rightarrow> (int \<times> eth \<times> 'f tcpip \<times> os \<times> qtab) option" where
  "ethernetif_input nullp addr inp E T s qt =
     do {
       (p, E) \<leftarrow> low_level_input E;
       (case p of
          None \<Rightarrow> Some (ERR_MEM, E, T, s, qt)
        | Some i \<Rightarrow>
            do {
              (err, T, s, qt) \<leftarrow> tcpip_input nullp (addr i) inp T s qt;
              let E = (if err \<noteq> ERR_OK then E\<lparr>rx_pbufs := (rx_pbufs E)[i := pbuf_free_rx (rx_pbufs E ! i)]\<rparr> else E);
              Some (err, E\<lparr>rxl := snd (HAL_ETH_BuildRxDescriptors (rxl E))\<rparr>, T, s, qt)
            })
     }"

definition lwip_pkt_handle ::
    "u32 \<Rightarrow> (nat \<Rightarrow> u32) \<Rightarrow> u32 \<Rightarrow> eth \<Rightarrow> 'f tcpip \<Rightarrow> os \<Rightarrow> qtab \<Rightarrow> (eth \<times> 'f tcpip \<times> os \<times> qtab) option" where
  "lwip_pkt_handle nullp addr inp E T s qt = map_option snd (ethernetif_input nullp addr inp E T s qt)"

definition ETH_IRQHandler ::
    "u32 \<Rightarrow> (nat \<Rightarrow> u32) \<Rightarrow> u32 \<Rightarrow> eth \<Rightarrow> 'f tcpip \<Rightarrow> os \<Rightarrow> qtab \<Rightarrow> (eth \<times> 'f tcpip \<times> os \<times> qtab) option" where
  "ETH_IRQHandler nullp addr inp E T s qt =
     map_option (\<lambda>(E, x). (E\<lparr>rx_it := False\<rparr>, x)) (lwip_pkt_handle nullp addr inp E T s qt)"

text \<open>\<^verbatim>\<open>low_level_init\<close> gives every descriptor its buffer and starts the reception.\<close>

definition low_level_init :: "(nat \<Rightarrow> u32) \<Rightarrow> eth \<Rightarrow> eth" where
  "low_level_init Rx_Buff E =
     E\<lparr>rxl := start_rx (fold (\<lambda>idx l. snd (HAL_ETH_DescAssignMemory idx (Rx_Buff idx) 0 l)) [0..<ETH_RX_DESC_CNT] (rxl E))\<rparr>"

section \<open>The DMA\<close>

text \<open>A frame that fits one buffer arrives: the DMA writes it if it owns its descriptor and has not
  reached the tail, and raises the receive flag; otherwise the frame is lost.\<close>

definition dma_rx :: "u8 list \<Rightarrow> eth \<Rightarrow> eth" where
  "dma_rx frame E =
     (let i = dma_idx E; d = RxDesc (rxl E) ! i
      in if DESC3 d AND ETH_DMARXNDESCRF_OWN \<noteq> 0 \<and> i \<noteq> DMACRDTPR (rxl E)
         then E\<lparr>rx_mem := (rx_mem E)(DESC0 d := frame),
                rxl := upd_desc i (\<lambda>d. d\<lparr>DESC3 := ETH_DMARXNDESCWBF_FD OR ETH_DMARXNDESCWBF_LD OR of_nat (length frame)\<rparr>) (rxl E),
                dma_idx := INCR_RX_DESC_INDEX i 1, rx_it := True\<rparr>
         else E)"


section \<open>One frame\<close>

lemma desc_bits:
  assumes "n < 32768"
  shows "(ETH_DMARXNDESCWBF_FD OR ETH_DMARXNDESCWBF_LD OR of_nat n) AND ETH_DMARXNDESCWBF_OWN = 0"
    "(ETH_DMARXNDESCWBF_FD OR ETH_DMARXNDESCWBF_LD OR of_nat n) AND ETH_DMARXNDESCWBF_LD \<noteq> 0"
    "(ETH_DMARXNDESCWBF_FD OR ETH_DMARXNDESCWBF_LD OR of_nat n) AND ETH_DMARXNDESCWBF_PL = of_nat n"
proof -
  have u: "unat (of_nat n :: u32) = n" by (rule unat_of_nat_small) (use assms in simp)
  have "unat (take_bit 15 (of_nat n :: u32)) = unat (of_nat n :: u32)"
    unfolding unsigned_take_bit_eq u using assms by (simp add: take_bit_eq_mod)
  then have "take_bit 15 (of_nat n :: u32) = of_nat n" by (simp only: word_unat_eq_iff)
  then have n: "(of_nat n :: u32) AND 0x7FFF = of_nat n" by (simp add: take_bit_eq_mask mask_eq_exp_minus_1)
  have z: "(of_nat n :: u32) AND c = of_nat n AND (0x7FFF AND c)" for c by (metis n and.assoc)
  show "(ETH_DMARXNDESCWBF_FD OR ETH_DMARXNDESCWBF_LD OR of_nat n) AND ETH_DMARXNDESCWBF_OWN = 0"
    "(ETH_DMARXNDESCWBF_FD OR ETH_DMARXNDESCWBF_LD OR of_nat n) AND ETH_DMARXNDESCWBF_LD \<noteq> 0"
    "(ETH_DMARXNDESCWBF_FD OR ETH_DMARXNDESCWBF_LD OR of_nat n) AND ETH_DMARXNDESCWBF_PL = of_nat n"
    by (simp_all add: ETH_DMARXNDESCWBF_FD_def ETH_DMARXNDESCWBF_LD_def ETH_DMARXNDESCWBF_OWN_def ETH_DMARXNDESCWBF_PL_def
        bit.conj_disj_distrib2 z [of "0x80000000"] z [of "0x10000000"] n)
qed

text \<open>All buffers with the DMA, the next frame for the next \<^verbatim>\<open>pbuf\<close>.\<close>

definition eth_ok :: "(nat \<Rightarrow> u32) \<Rightarrow> eth \<Rightarrow> bool" where
  "eth_ok Rx_Buff E \<longleftrightarrow>
     length (RxDesc (rxl E)) = 4 \<and> length (rx_pbufs E) = 4 \<and>
     inj_on Rx_Buff {..<4} \<and> 0 \<notin> Rx_Buff ` {..<4} \<and>
     (\<forall>i<4. DESC3 (RxDesc (rxl E) ! i) AND ETH_DMARXNDESCRF_OWN \<noteq> 0 \<and> DESC0 (RxDesc (rxl E) ! i) = Rx_Buff i \<and>
        BackupAddr0 (RxDesc (rxl E) ! i) = Rx_Buff i \<and> BackupAddr1 (RxDesc (rxl E) ! i) = 0) \<and>
     dma_idx E < 4 \<and> CurRxDesc (rxl E) = dma_idx E \<and> current_pbuf_idx E = dma_idx E \<and>
     AppDescNbr (rxl E) = 0 \<and> AppContextDesc (rxl E) = 0 \<and> DMACRDTPR (rxl E) \<noteq> dma_idx E \<and> DMACRDTPR (rxl E) < 4"

lemma desc_ne [simp]:
  "INCR_RX_DESC_INDEX i (Suc 0) \<noteq> i" "i \<noteq> INCR_RX_DESC_INDEX i (Suc 0)" "i < 4 \<Longrightarrow> INCR_RX_DESC_INDEX i (Suc 0) < 4"
  by (auto simp: INCR_RX_DESC_INDEX_def Let_def ETH_RX_DESC_CNT_def)

lemma give_back_desc:
  "DESC3 (give_back it d) AND ETH_DMARXNDESCRF_OWN \<noteq> 0" "DESC0 (give_back it d) = BackupAddr0 d"
  "BackupAddr0 (give_back it d) = BackupAddr0 d" "BackupAddr1 (give_back it d) = BackupAddr1 d"
  by (simp_all add: give_back_def Let_def ETH_DMARXNDESCRF_OWN_def ETH_DMARXNDESCRF_IOC_def ETH_DMARXNDESCRF_BUF1V_def
      ETH_DMARXNDESCRF_BUF2V_def bit.conj_disj_distrib2)


lemma incr_mod: "i < 4 \<Longrightarrow> INCR_RX_DESC_INDEX i 1 = (i + 1) mod 4"
  by (cases "i = 3") (auto simp: INCR_RX_DESC_INDEX_def Let_def ETH_RX_DESC_CNT_def)

lemma rx_scan_frame:
  assumes "DESC3 (RxDesc l ! i) AND ETH_DMARXNDESCWBF_OWN = 0" "DESC3 (RxDesc l ! i) AND ETH_DMARXNDESCWBF_LD \<noteq> 0"
    and "DESC3 (RxDesc l ! INCR_RX_DESC_INDEX i 1) AND ETH_DMARXNDESCWBF_OWN \<noteq> 0"
  shows "rx_scan (Suc n) i 0 0 l = (True, 1, i, l\<lparr>CurRxDesc := INCR_RX_DESC_INDEX i 1, FirstAppDesc := i, AppDescNbr := 1\<rparr>)"
  using assms by (simp add: Let_def)

text \<open>The descriptor list after the DMA has written a frame.\<close>

abbreviation filled :: "nat \<Rightarrow> nat \<Rightarrow> rx_list \<Rightarrow> rx_list" where
  "filled i n l \<equiv> upd_desc i (\<lambda>d. d\<lparr>DESC3 := ETH_DMARXNDESCWBF_FD OR ETH_DMARXNDESCWBF_LD OR of_nat n\<rparr>) l"

lemma own_same: "ETH_DMARXNDESCRF_OWN = ETH_DMARXNDESCWBF_OWN"
  by (simp add: ETH_DMARXNDESCRF_OWN_def ETH_DMARXNDESCWBF_OWN_def)

lemma filled_scan:
  assumes "eth_ok B E" "n \<le> 1528"
  shows "HAL_ETH_IsRxDataAvailable (filled (dma_idx E) n (rxl E)) =
    (True, (filled (dma_idx E) n (rxl E))\<lparr>CurRxDesc := INCR_RX_DESC_INDEX (dma_idx E) 1, FirstAppDesc := dma_idx E, AppDescNbr := 1\<rparr>)"
proof -
  let ?i = "dma_idx E" and ?l = "filled (dma_idx E) n (rxl E)"
  have i: "?i < 4" "length (RxDesc (rxl E)) = 4" "CurRxDesc (rxl E) = ?i" "AppDescNbr (rxl E) = 0" using assms(1) by (simp_all add: eth_ok_def)
  have nxt: "DESC3 (RxDesc (rxl E) ! INCR_RX_DESC_INDEX ?i 1) AND ETH_DMARXNDESCWBF_OWN \<noteq> 0"
    using assms(1) desc_ne(3) [OF i(1)] by (simp add: eth_ok_def own_same)
  have b: "n < 32768" using assms(2) by simp
  have "rx_scan (Suc 3) ?i 0 0 ?l = (True, 1, ?i, ?l\<lparr>CurRxDesc := INCR_RX_DESC_INDEX ?i 1, FirstAppDesc := ?i, AppDescNbr := 1\<rparr>)"
    by (rule rx_scan_frame) (use desc_bits [OF b] i nxt in \<open>simp_all add: upd_desc_def\<close>)
  then show ?thesis using i(3,4) by (simp add: HAL_ETH_IsRxDataAvailable_def upd_desc_def ETH_RX_DESC_CNT_def eval_nat_numeral del: rx_scan.simps)
qed

abbreviation frame_pbuf :: "u32 \<Rightarrow> nat \<Rightarrow> rx_pbuf \<Rightarrow> rx_pbuf" where
  "frame_pbuf a n p \<equiv> p\<lparr>rp_payload := Some a, rp_flags := PBUF_FLAG_IS_CUSTOM, rp_len := of_nat n, rp_tot_len := of_nat n, rp_type := PBUF_POOL, rp_ref := 1\<rparr>"

definition taken :: "nat \<Rightarrow> nat \<Rightarrow> rx_list \<Rightarrow> rx_list" where
  "taken i n l = (filled i n l)\<lparr>CurRxDesc := INCR_RX_DESC_INDEX i 1, FirstAppDesc := i, AppDescNbr := 1\<rparr>"

lemma input_frame:
  assumes "eth_ok B E" "length f \<le> 1528"
  shows "\<exists>E2. low_level_input (dma_rx f E) = Some (Some (dma_idx E), E2) \<and> rxl E2 = taken (dma_idx E) (length f) (rxl E) \<and>
    rx_pbufs E2 = (rx_pbufs E)[dma_idx E := frame_pbuf (B (dma_idx E)) (length f) (rx_pbufs E ! dma_idx E)] \<and>
    current_pbuf_idx E2 = INCR_RX_DESC_INDEX (dma_idx E) 1 \<and> dma_idx E2 = INCR_RX_DESC_INDEX (dma_idx E) 1 \<and>
    rx_mem E2 = (rx_mem E)(B (dma_idx E) := f)"
proof -
  let ?i = "dma_idx E" and ?n = "length f"
  have i: "?i < 4" "length (RxDesc (rxl E)) = 4" "current_pbuf_idx E = ?i" "DMACRDTPR (rxl E) \<noteq> ?i"
    "DESC3 (RxDesc (rxl E) ! ?i) AND ETH_DMARXNDESCRF_OWN \<noteq> 0" "DESC0 (RxDesc (rxl E) ! ?i) = B ?i"
    "BackupAddr0 (RxDesc (rxl E) ! ?i) = B ?i" using assms(1) by (simp_all add: eth_ok_def)
  have B: "B ?i \<noteq> 0" using assms(1) i(1) by (auto simp: eth_ok_def)
  have b: "?n < 32768" using assms(2) by simp
  have u: "unat (of_nat ?n :: u32) = ?n" by (rule unat_of_nat_small) (use b in simp)
  have le: "(of_nat ?n :: u32) \<le> ETH_MAX_PACKET_SIZE" using assms(2) u by (simp add: word_le_nat_alt ETH_MAX_PACKET_SIZE_def)
  have c: "ucast (of_nat ?n :: u32) = (of_nat ?n :: u16)" using b by (simp add: unsigned_of_nat take_bit_nat_eq_self)
  have dma: "rxl (dma_rx f E) = filled ?i ?n (rxl E)" "rx_pbufs (dma_rx f E) = rx_pbufs E" "current_pbuf_idx (dma_rx f E) = ?i"
    "dma_idx (dma_rx f E) = INCR_RX_DESC_INDEX ?i 1" "rx_mem (dma_rx f E) = (rx_mem E)(B ?i := f)"
    using i by (simp_all add: dma_rx_def Let_def)
  have get: "HAL_ETH_GetRxDataBuffer ETH_MAX_PACKET_SIZE (taken ?i ?n (rxl E)) = Some (Some (B ?i), taken ?i ?n (rxl E))"
    using desc_bits(3) [OF b] i(1,2,7) le by (simp add: HAL_ETH_GetRxDataBuffer_def taken_def upd_desc_def Let_def)
  have len: "HAL_ETH_GetRxDataLength (taken ?i ?n (rxl E)) = (Some (of_nat ?n), taken ?i ?n (rxl E))"
    using desc_bits(3) [OF b] i(1,2)
    by (simp add: HAL_ETH_GetRxDataLength_def taken_def upd_desc_def Let_def INCR_RX_DESC_INDEX_def ETH_RX_DESC_CNT_def)
  have al: "pbuf_alloced_custom PBUF_RAW (of_nat ?n) PBUF_POOL (B ?i) (of_nat ?n) p = Some (frame_pbuf (B ?i) ?n p)" for p
    using B by (simp add: pbuf_alloced_custom_def PBUF_RAW_def LWIP_MEM_ALIGN_SIZE_def Let_def)
  have nx: "(if ?i < ETH_RX_DESC_CNT - 1 then ?i + 1 else 0) = INCR_RX_DESC_INDEX ?i 1"
    using i(1) by (auto simp: INCR_RX_DESC_INDEX_def Let_def ETH_RX_DESC_CNT_def)
  show ?thesis
    unfolding low_level_input_def dma(1,2,3) filled_scan [OF assms] taken_def [symmetric]
    using get len al c nx dma(4,5) by (simp add: Let_def)
qed


lemma build_taken:
  assumes "AppContextDesc l = 0"
  shows "snd (HAL_ETH_BuildRxDescriptors (taken i n l)) =
    (upd_desc i (give_back (ItMode l)) (taken i n l))\<lparr>DMACRDTPR := i, AppDescNbr := 0\<rparr>"
  using assms by (simp add: HAL_ETH_BuildRxDescriptors_def taken_def upd_desc_def Let_def)

lemma irq_frame:
  assumes ok: "eth_ok B E" and f: "length f \<le> 1528"
    and inp: "tcpip_input nullp (addr (dma_idx E)) inp T s qt = Some (ERR_OK, T', s', qt')"
  shows "\<exists>E'. ETH_IRQHandler nullp addr inp (dma_rx f E) T s qt = Some (E', T', s', qt') \<and> eth_ok B E' \<and>
    dma_idx E' = (dma_idx E + 1) mod 4 \<and> rx_mem E' = (rx_mem E)(B (dma_idx E) := f) \<and>
    rx_pbufs E' = (rx_pbufs E)[dma_idx E := frame_pbuf (B (dma_idx E)) (length f) (rx_pbufs E ! dma_idx E)] \<and> \<not> rx_it E'"
proof -
  let ?i = "dma_idx E" and ?n = "length f"
  obtain E2 where E2: "low_level_input (dma_rx f E) = Some (Some ?i, E2)" "rxl E2 = taken ?i ?n (rxl E)"
    "rx_pbufs E2 = (rx_pbufs E)[?i := frame_pbuf (B ?i) ?n (rx_pbufs E ! ?i)]"
    "current_pbuf_idx E2 = INCR_RX_DESC_INDEX ?i 1" "dma_idx E2 = INCR_RX_DESC_INDEX ?i 1" "rx_mem E2 = (rx_mem E)(B ?i := f)"
    using input_frame [OF ok f] by blast
  have b: "AppContextDesc (rxl E) = 0" using ok by (simp add: eth_ok_def)
  let ?l = "(upd_desc ?i (give_back (ItMode (rxl E))) (taken ?i ?n (rxl E)))\<lparr>DMACRDTPR := ?i, AppDescNbr := 0\<rparr>"
  let ?E = "E2\<lparr>rxl := ?l, rx_it := False\<rparr>"
  have run: "ETH_IRQHandler nullp addr inp (dma_rx f E) T s qt = Some (?E, T', s', qt')"
    using E2(1,2) inp build_taken [OF b] by (simp add: ETH_IRQHandler_def lwip_pkt_handle_def ethernetif_input_def Let_def)
  have i: "?i < 4" "length (RxDesc (rxl E)) = 4" using ok by (simp_all add: eth_ok_def)
  have d: "RxDesc ?l ! j = (if j = ?i then give_back (ItMode (rxl E)) ((RxDesc (rxl E) ! j)\<lparr>DESC3 :=
      ETH_DMARXNDESCWBF_FD OR ETH_DMARXNDESCWBF_LD OR of_nat ?n\<rparr>) else RxDesc (rxl E) ! j)" for j
    using i by (cases "j = ?i") (simp_all add: upd_desc_def taken_def)
  have desc: "DESC3 (RxDesc ?l ! j) AND ETH_DMARXNDESCRF_OWN \<noteq> 0 \<and> DESC0 (RxDesc ?l ! j) = B j \<and>
      BackupAddr0 (RxDesc ?l ! j) = B j \<and> BackupAddr1 (RxDesc ?l ! j) = 0" if "j < 4" for j
  proof -
    have old: "DESC3 (RxDesc (rxl E) ! j) AND ETH_DMARXNDESCRF_OWN \<noteq> 0 \<and> DESC0 (RxDesc (rxl E) ! j) = B j \<and>
        BackupAddr0 (RxDesc (rxl E) ! j) = B j \<and> BackupAddr1 (RxDesc (rxl E) ! j) = 0"
      using ok that unfolding eth_ok_def by blast
    show ?thesis unfolding d using old give_back_desc by (cases "j = ?i") simp_all
  qed
  have fl: "inj_on B {..<4} \<and> 0 \<notin> B ` {..<4}" "length (rx_pbufs E) = 4" using ok by (simp_all add: eth_ok_def)
  have rest: "length (RxDesc ?l) = 4" "CurRxDesc ?l = INCR_RX_DESC_INDEX ?i 1" "AppDescNbr ?l = 0" "AppContextDesc ?l = 0" "DMACRDTPR ?l = ?i"
    using i b by (simp_all add: upd_desc_def taken_def)
  have "eth_ok B ?E"
    unfolding eth_ok_def using desc rest fl i E2(3,4,5) by simp
  then show ?thesis using run E2(3,5,6) incr_mod [OF i(1)] by (intro exI [where x = ?E]) simp
qed

section \<open>Frames that wait\<close>

text \<open>Frames that arrive one after the other, each with its interrupt, while the thread is busy.\<close>

fun rx_frames ::
    "u32 \<Rightarrow> (nat \<Rightarrow> u32) \<Rightarrow> u32 \<Rightarrow> u8 list list \<Rightarrow> eth \<times> 'f tcpip \<times> os \<times> qtab \<Rightarrow> (eth \<times> 'f tcpip \<times> os \<times> qtab) option" where
  "rx_frames nullp addr inp [] st = Some st"
| "rx_frames nullp addr inp (f # fs) (E, T, s, qt) =
     (case ETH_IRQHandler nullp addr inp (dma_rx f E) T s qt of None \<Rightarrow> None | Some st \<Rightarrow> rx_frames nullp addr inp fs st)"

lemma rx_frames_snoc:
  "rx_frames nullp addr inp (fs @ [f]) st =
    (case rx_frames nullp addr inp fs st of
       None \<Rightarrow> None | Some (E, T, s, qt) \<Rightarrow> ETH_IRQHandler nullp addr inp (dma_rx f E) T s qt)"
proof (induction fs arbitrary: st)
  case Nil
  then show ?case by (cases st) (auto split: option.splits)
next
  case (Cons g fs)
  obtain E T s qt where st: "st = (E, T, s, qt)" by (cases st)
  show ?case using Cons.IH by (simp add: st split: option.splits)
qed

text \<open>The frame one gets through a queued \<^verbatim>\<open>pbuf\<close>.\<close>

definition shows_frame :: "(nat \<Rightarrow> u32) \<Rightarrow> eth \<Rightarrow> nat \<Rightarrow> u8 list \<Rightarrow> bool" where
  "shows_frame Rx_Buff E i f \<longleftrightarrow>
     rp_payload (rx_pbufs E ! i) = Some (Rx_Buff i) \<and> rp_len (rx_pbufs E ! i) = of_nat (length f) \<and> rx_mem E (Rx_Buff i) = f"

lemma shows_after:
  assumes "eth_ok B E" "i < 4" "rx_mem E' = (rx_mem E)(B (dma_idx E) := f)"
    and "rx_pbufs E' = (rx_pbufs E)[dma_idx E := frame_pbuf (B (dma_idx E)) (length f) (rx_pbufs E ! dma_idx E)]"
  shows "shows_frame B E' i g \<longleftrightarrow> (if i = dma_idx E then g = f else shows_frame B E i g)"
proof (cases "i = dma_idx E")
  case True
  then show ?thesis using assms by (auto simp: shows_frame_def eth_ok_def)
next
  case False
  have "inj_on B {..<4}" "dma_idx E < 4" using assms(1) by (simp_all add: eth_ok_def)
  then have "B i \<noteq> B (dma_idx E)" using False assms(2) by (auto dest: inj_onD)
  then show ?thesis using False assms by (simp add: shows_frame_def)
qed

lemma same_slot:
  assumes "j < (n :: nat)"
  shows "(i + j) mod 4 = (i + n) mod 4 \<longleftrightarrow> 4 dvd n - j"
  using mod_eq_dvd_iff_nat [of "i + j" "i + n" 4] assms by auto

lemma last_slot:
  assumes "j < (n :: nat)"
  shows "j + 4 * ((n - j) div 4) = (if 4 dvd n - j then n else j + 4 * ((n - 1 - j) div 4))"
proof -
  define d where "d = n - j"
  have d: "0 < d" "n = j + d" using assms by (simp_all add: d_def)
  have "\<not> 4 dvd d \<Longrightarrow> d div 4 = (d - 1) div 4" using d(1) by presburger
  moreover have "n - j = d" "n - 1 - j = d - 1" using d by simp_all
  ultimately show ?thesis using d(2) by simp
qed

text \<open>With \<^verbatim>\<open>n\<close> frames waiting, the \<^verbatim>\<open>j\<close>th queued packet shows the last frame in its slot.\<close>

definition shown_at :: "nat \<Rightarrow> nat \<Rightarrow> nat" where
  "shown_at n j = j + 4 * ((n - 1 - j) div 4)"

lemma shown_own: "j < n \<Longrightarrow> n \<le> 4 \<Longrightarrow> shown_at n j = j"
  by (simp add: shown_at_def)

lemma shows_snoc:
  assumes "eth_ok B E" "dma_idx E = (i + length fs) mod 4" "rx_mem E' = (rx_mem E)(B (dma_idx E) := f)"
    and "rx_pbufs E' = (rx_pbufs E)[dma_idx E := frame_pbuf (B (dma_idx E)) (length f) (rx_pbufs E ! dma_idx E)]"
    and "\<forall>j<length fs. shows_frame B E ((i + j) mod 4) (fs ! shown_at (length fs) j)" and "j < Suc (length fs)"
  shows "shows_frame B E' ((i + j) mod 4) ((fs @ [f]) ! shown_at (Suc (length fs)) j)"
proof (cases "j = length fs")
  case True
  then show ?thesis using shows_after [OF assms(1) _ assms(3,4)] assms(2) by (simp add: shown_at_def)
next
  case False
  then have lt: "j < length fs" using assms(6) by simp
  note S = last_slot [OF lt] same_slot [OF lt] shows_after [OF assms(1) _ assms(3,4)]
  show ?thesis
  proof (cases "4 dvd length fs - j")
    case True
    then have "shown_at (Suc (length fs)) j = length fs" "(i + j) mod 4 = dma_idx E" using S(1,2) assms(2) by (simp_all add: shown_at_def)
    then show ?thesis using S(3) by simp
  next
    case False
    then have n: "shown_at (Suc (length fs)) j = shown_at (length fs) j" "(i + j) mod 4 \<noteq> dma_idx E" using S(1,2) assms(2) by (simp_all add: shown_at_def)
    have "shown_at (length fs) j < length fs" using lt by (simp add: shown_at_def)
    then show ?thesis using S(3) n assms(5) lt by (simp add: nth_append)
  qed
qed

text \<open>C23: After frames that arrive one after the other while the thread is busy, the queue holds
  their packets in order, and a packet shows its own frame as long as at most four wait; from the
  fifth on the earlier packets show later frames, because the buffer goes back to the DMA in the
  interrupt.\<close>

theorem waiting_frames_shown:
  assumes "kernel_ok s" "q_inv s qt" and "e < length (OSEvents s)" "OSEventType (OSEvents s ! e) = OS_EVENT_TYPE_Q"
    and "waits s e = {}" "the_q e s qt = Some k" and "tcpip_ok nullp e k T qt" "pending nullp k T qt = []"
    and "length fs \<le> q_cap (OSQTbl qt ! k)" "length fs \<le> length (pool_inpkt T)"
    and "eth_ok Rx_Buff E" "\<forall>f\<in>set fs. length f \<le> 1528"
  shows "\<exists>E' T' qt'. rx_frames nullp addr inp fs (E, T, s, qt) = Some (E', T', s, qt') \<and> eth_ok Rx_Buff E' \<and> q_inv s qt' \<and>
    tcpip_ok nullp e k T' qt' \<and>
    pending nullp k T' qt' = map (\<lambda>j. TCPIP_MSG_INPKT (addr ((dma_idx E + j) mod 4)) inp) [0..<length fs] \<and>
    (\<forall>j<length fs. shows_frame Rx_Buff E' ((dma_idx E + j) mod 4) (fs ! shown_at (length fs) j))"
proof -
  let ?P = "\<lambda>n E' T' qt'. eth_ok Rx_Buff E' \<and> dma_idx E' = (dma_idx E + n) mod 4 \<and> q_inv s qt' \<and> the_q e s qt' = Some k \<and>
    tcpip_ok nullp e k T' qt' \<and> q_cap (OSQTbl qt' ! k) = q_cap (OSQTbl qt ! k) \<and>
    pending nullp k T' qt' = map inpkt (map (\<lambda>j. (addr ((dma_idx E + j) mod 4), inp)) [0..<n]) \<and>
    n + length (pool_inpkt T') = length (pool_inpkt T)"
  have "\<exists>E' T' qt'. rx_frames nullp addr inp fs (E, T, s, qt) = Some (E', T', s, qt') \<and> ?P (length fs) E' T' qt' \<and>
    (\<forall>j<length fs. shows_frame Rx_Buff E' ((dma_idx E + j) mod 4) (fs ! shown_at (length fs) j))"
    using assms(9,10,12)
  proof (induction fs rule: rev_induct)
    case Nil
    have "dma_idx E < 4" using assms(11) by (simp add: eth_ok_def)
    then show ?case using assms by simp
  next
    case (snoc f fs)
    let ?n = "length fs"
    obtain E1 T1 qt1 where 1: "rx_frames nullp addr inp fs (E, T, s, qt) = Some (E1, T1, s, qt1)" "?P ?n E1 T1 qt1"
      and sh: "\<forall>j<?n. shows_frame Rx_Buff E1 ((dma_idx E + j) mod 4) (fs ! shown_at ?n j)"
      using snoc by auto
    let ?xs = "map (\<lambda>j. (addr ((dma_idx E + j) mod 4), inp)) [0..<?n]"
    have room: "length ?xs < q_cap (OSQTbl qt ! k) \<and> length ?xs < length (pool_inpkt T)" using snoc.prems by simp
    obtain T2 qt2 where 2: "tcpip_input nullp (addr (dma_idx E1)) inp T1 s qt1 = Some (ERR_OK, T2, s, qt2)"
      "q_inv s qt2" "the_q e s qt2 = Some k" "tcpip_ok nullp e k T2 qt2" "q_cap (OSQTbl qt2 ! k) = q_cap (OSQTbl qt ! k)"
      "pending nullp k T2 qt2 = map inpkt (?xs @ [(addr (dma_idx E1), inp)])"
      "length (?xs @ [(addr (dma_idx E1), inp)]) + length (pool_inpkt T2) = length (pool_inpkt T)"
      using input_step [OF assms(1) _ assms(3-5), of qt1 k nullp T1 ?xs "length (pool_inpkt T)" "q_cap (OSQTbl qt ! k)" "addr (dma_idx E1)" inp]
        1(2) room unfolding Let_def by auto
    have f: "length f \<le> 1528" using snoc.prems(3) by simp
    have eok: "eth_ok Rx_Buff E1" and idx: "dma_idx E1 = (dma_idx E + ?n) mod 4" using 1(2) by simp_all
    obtain E2 where 3: "ETH_IRQHandler nullp addr inp (dma_rx f E1) T1 s qt1 = Some (E2, T2, s, qt2)" "eth_ok Rx_Buff E2"
      "dma_idx E2 = (dma_idx E1 + 1) mod 4" "rx_mem E2 = (rx_mem E1)(Rx_Buff (dma_idx E1) := f)"
      "rx_pbufs E2 = (rx_pbufs E1)[dma_idx E1 := frame_pbuf (Rx_Buff (dma_idx E1)) (length f) (rx_pbufs E1 ! dma_idx E1)]"
      using irq_frame [where addr = addr, OF eok f 2(1)] by blast
    have run: "rx_frames nullp addr inp (fs @ [f]) (E, T, s, qt) = Some (E2, T2, s, qt2)"
      using 1(1) 3(1) by (simp add: rx_frames_snoc)
    have P: "?P (length (fs @ [f])) E2 T2 qt2"
      using 2 3(2,3) idx by (simp add: mod_simps del: upt_Suc) (simp add: mod_simps)
    have "\<forall>j<Suc ?n. shows_frame Rx_Buff E2 ((dma_idx E + j) mod 4) ((fs @ [f]) ! shown_at (Suc ?n) j)"
      using shows_snoc [OF eok idx 3(4,5) sh] by blast
    then show ?case using run P by auto
  qed
  then show ?thesis by auto
qed


text \<open>The driver just initialised, with the buffers of \<^verbatim>\<open>lan8720.h\<close>, over a mailbox of five entries.\<close>

definition Rx_Buff :: "nat \<Rightarrow> u32" where
  "Rx_Buff i = 0x30040200 + of_nat i * ETH_MAX_PACKET_SIZE"

abbreviation demo_eth :: eth where
  "demo_eth \<equiv> low_level_init Rx_Buff
     \<lparr>rxl = ETH_DMARxDescListInit \<lparr>RxDesc = [], CurRxDesc = 0, FirstAppDesc = 0, AppDescNbr = 0, AppContextDesc = 0, ItMode = False, DMACRDTPR = 0\<rparr>,
      rx_pbufs = replicate 4 \<lparr>rp_payload = None, rp_len = 0, rp_tot_len = 0, rp_type = 0, rp_flags = 0, rp_ref = 0\<rparr>,
      current_pbuf_idx = 0, rx_mem = \<lambda>_. [], dma_idx = 0, rx_it = False\<rparr>"

lemma buffers: "Rx_Buff 0 = 0x30040200" "Rx_Buff (Suc 0) = 0x300407F8" "Rx_Buff 2 = 0x30040DF0" "Rx_Buff 3 = 0x300413E8"
  by (simp_all add: Rx_Buff_def ETH_MAX_PACKET_SIZE_def)

lemma four: "{..<4} = {0, Suc 0, 2, 3 :: nat}"
  by auto

lemma assign_memory:
  "b \<noteq> 0 \<Longrightarrow> i < 4 \<Longrightarrow> snd (HAL_ETH_DescAssignMemory i b 0 l) =
    upd_desc i (\<lambda>d. d\<lparr>DESC0 := b, BackupAddr0 := b, DESC3 := DESC3 d OR ETH_DMARXNDESCRF_BUF1V OR ETH_DMARXNDESCRF_OWN\<rparr>) l"
  by (simp add: HAL_ETH_DescAssignMemory_def ETH_RX_DESC_CNT_def Let_def or.assoc)

lemma demo_ring:
  "rxl demo_eth = \<lparr>RxDesc = map (\<lambda>b. \<lparr>DESC0 = b, DESC1 = 0, DESC2 = 0, DESC3 = 0xC1000000, BackupAddr0 = b, BackupAddr1 = 0\<rparr>)
       [Rx_Buff 0, Rx_Buff (Suc 0), Rx_Buff 2, Rx_Buff 3],
     CurRxDesc = 0, FirstAppDesc = 0, AppDescNbr = 0, AppContextDesc = 0, ItMode = True, DMACRDTPR = 3\<rparr>"
proof -
  have u: "[0..<ETH_RX_DESC_CNT] = [0, Suc 0, 2, 3]" by (simp add: ETH_RX_DESC_CNT_def upt_rec)
  have r: "replicate ETH_RX_DESC_CNT x = [x, x, x, x]" for x :: rx_desc by (simp add: ETH_RX_DESC_CNT_def eval_nat_numeral)
  have l: "[a, b, c, d][2 := x] = [a, b, x, d]" "[a, b, c, d][3 := x] = [a, b, c, x]" for a b c d x :: rx_desc
    by (simp_all add: eval_nat_numeral)
  have ne: "Rx_Buff 0 \<noteq> 0" "Rx_Buff (Suc 0) \<noteq> 0" "Rx_Buff 2 \<noteq> 0" "Rx_Buff 3 \<noteq> 0" by (simp_all add: buffers)
  show ?thesis
    by (simp add: low_level_init_def u assign_memory ne ETH_DMARxDescListInit_def r upd_desc_def l start_rx_def)
      (simp add: ETH_DMARXNDESCRF_OWN_def ETH_DMARXNDESCRF_IOC_def ETH_DMARXNDESCRF_BUF1V_def ETH_RX_DESC_CNT_def)
qed

lemma demo_eth_ok: "eth_ok Rx_Buff demo_eth" "dma_idx demo_eth = 0"
proof -
  have all: "(\<forall>i<4. Q i) \<longleftrightarrow> Q 0 \<and> Q (Suc 0) \<and> Q 2 \<and> Q (3 :: nat)" for Q by (auto simp: numeral_eq_Suc less_Suc_eq)
  have "inj_on Rx_Buff {..<4} \<and> 0 \<notin> Rx_Buff ` {..<4}" by (simp add: four inj_on_def buffers)
  moreover have "length (rx_pbufs demo_eth) = 4" "dma_idx demo_eth = 0" "current_pbuf_idx demo_eth = 0"
    by (simp_all add: low_level_init_def)
  ultimately show "eth_ok Rx_Buff demo_eth"
    unfolding eth_ok_def all demo_ring by (simp add: ETH_DMARXNDESCRF_OWN_def)
  show "dma_idx demo_eth = 0" by (simp add: low_level_init_def)
qed

abbreviation five_qs :: "nat option \<times> os \<times> qtab" where
  "five_qs \<equiv> OSQCreate [0, 0, 0, 0, 0] 5 (OSStart os_boot) demo_qtab"

lemma five_queue:
  "stable (fst (snd five_qs))" "q_inv (fst (snd five_qs)) (snd (snd five_qs))" "0 < length (OSEvents (fst (snd five_qs)))"
  "OSEventType (OSEvents (fst (snd five_qs)) ! 0) = OS_EVENT_TYPE_Q" "waits (fst (snd five_qs)) 0 = {}"
  "the_q 0 (fst (snd five_qs)) (snd (snd five_qs)) = Some 0"
  "OSQTbl (snd (snd five_qs)) ! 0 = q_make [0, 0, 0, 0, 0] 5"
proof -
  have q: "q_inv (OSStart os_boot) demo_qtab"
    by (rule q_inv_init) (simp add: boot_events clear_event_def OS_EVENT_TYPE_UNUSED_def OS_EVENT_TYPE_Q_def)
  have len: "length [0 :: u32, 0, 0, 0, 0] = unat (5 :: u16)" by simp
  note C = OSQCreate_ok [OF boot_stable q len, of "{}"]
  show "stable (fst (snd five_qs))" "q_inv (fst (snd five_qs)) (snd (snd five_qs))" using C by (simp_all add: good_def)
  show "0 < length (OSEvents (fst (snd five_qs)))" "OSEventType (OSEvents (fst (snd five_qs)) ! 0) = OS_EVENT_TYPE_Q"
    "waits (fst (snd five_qs)) 0 = {}" "the_q 0 (fst (snd five_qs)) (snd (snd five_qs)) = Some 0"
    "OSQTbl (snd (snd five_qs)) ! 0 = q_make [0, 0, 0, 0, 0] 5"
    by (simp_all add: OSQCreate_def boot_running boot_events Let_def upd_event_def OS_EventWaitListInit_def OS_MAX_EVENTS_def
        OS_QInit_def OS_MAX_QS_def upt_conv_Cons the_q_def prios_def nth_Cons')
qed

abbreviation five_tcpip :: "nat tcpip" where
  "five_tcpip \<equiv> \<lparr>tcpip_mbox = Some 0, pool_inpkt = [100, 200, 300, 400, 500], pool_api = [], msg_at = \<lambda>_. None\<rparr>"

text \<open>Five frames wait: the first packet in the queue shows the fifth frame.\<close>

theorem waiting_frames_shown_witness:
  "\<exists>E' T' qt'. rx_frames 9 (\<lambda>i. of_nat i + 1000) 7 [[1], [2], [3], [4], [5]] (demo_eth, five_tcpip, fst (snd five_qs), snd (snd five_qs)) =
       Some (E', T', fst (snd five_qs), qt') \<and> hd (pending 9 0 T' qt') = TCPIP_MSG_INPKT 1000 7 \<and> shows_frame Rx_Buff E' 0 [5]"
proof -
  let ?fs = "[[1 :: u8], [2], [3], [4], [5]]"
  have t: "tcpip_ok 9 0 0 five_tcpip (snd (snd five_qs))" "pending 9 0 five_tcpip (snd (snd five_qs)) = []"
    by (simp_all add: tcpip_ok_def pending_def mbox_list_def five_queue(7) q_make_def q_list_def)
  have k: "kernel_ok (fst (snd five_qs))" using five_queue(1) by (simp add: stable_def)
  have n: "length ?fs \<le> q_cap (OSQTbl (snd (snd five_qs)) ! 0)" "length ?fs \<le> length (pool_inpkt five_tcpip)" "\<forall>f\<in>set ?fs. length f \<le> 1528"
    by (simp_all add: five_queue(7) q_make_def)
  obtain E' T' qt' where r: "rx_frames 9 (\<lambda>i. of_nat i + 1000) 7 ?fs (demo_eth, five_tcpip, fst (snd five_qs), snd (snd five_qs)) =
      Some (E', T', fst (snd five_qs), qt')"
    "pending 9 0 T' qt' = map (\<lambda>j. TCPIP_MSG_INPKT (of_nat ((dma_idx demo_eth + j) mod 4) + 1000) 7) [0..<length ?fs]"
    "\<forall>j<length ?fs. shows_frame Rx_Buff E' ((dma_idx demo_eth + j) mod 4) (?fs ! shown_at (length ?fs) j)"
    using waiting_frames_shown [where addr = "\<lambda>i. of_nat i + 1000" and inp = 7, OF k five_queue(2-6) t n(1,2) demo_eth_ok(1) n(3)] by blast
  have "shown_at (length ?fs) 0 = 4" by (simp add: shown_at_def)
  then have "shows_frame Rx_Buff E' 0 [5]" using r(3) [rule_format, of 0] demo_eth_ok(2) by simp
  moreover have "hd (pending 9 0 T' qt') = TCPIP_MSG_INPKT 1000 7" unfolding r(2) demo_eth_ok(2) by (simp add: hd_map)
  ultimately show ?thesis using r(1) by blast
qed

end
