(* ===== verification/Udp_Pcb.thy ===== *)
theory Udp_Pcb
  imports Lwip_Tcpip
begin

text \<open>
  The protocol control blocks of UDP (\<^verbatim>\<open>core/udp.c\<close>): their pool, the list \<^verbatim>\<open>udp_pcbs\<close> of the bound
  ones, ephemeral ports, and the search of \<^verbatim>\<open>udp_input\<close> for the block that gets a datagram.  A block
  is named by its address; a callback is always \<^verbatim>\<open>recv_udp\<close> of a connection.
\<close>

section \<open>Blocks\<close>

definition ERR_USE :: int where "ERR_USE = - 8"
definition UDP_TTL :: u8 where "UDP_TTL = 255"
definition UDP_FLAGS_CONNECTED :: u8 where "UDP_FLAGS_CONNECTED = 4"
definition UDP_LOCAL_PORT_RANGE_START :: u16 where "UDP_LOCAL_PORT_RANGE_START = 0xc000"
definition UDP_LOCAL_PORT_RANGE_END :: u16 where "UDP_LOCAL_PORT_RANGE_END = 0xffff"

text \<open>\<^verbatim>\<open>recv_arg\<close> is the connection of the callback; \<^verbatim>\<open>None\<close>: no callback.\<close>

record bound_pcb = udp_pcb +
  pcb_flags :: u8
  recv_arg :: "nat option"

record udps =
  udp_pcbs :: "u32 list"
  pcb_at :: "u32 \<Rightarrow> bound_pcb"
  udp_port :: u16
  pool_udp :: "u32 list"

definition upd_pcb :: "u32 \<Rightarrow> (bound_pcb \<Rightarrow> bound_pcb) \<Rightarrow> udps \<Rightarrow> udps" where
  "upd_pcb p f U = U\<lparr>pcb_at := (pcb_at U)(p := f (pcb_at U p))\<rparr>"

definition udp_new :: "udps \<Rightarrow> u32 \<times> udps" where
  "udp_new U =
     (case memp_malloc (pool_udp U) of
        (p, pool) \<Rightarrow>
          (let U = U\<lparr>pool_udp := pool\<rparr>
           in (p, if p \<noteq> 0
                  then upd_pcb p (\<lambda>_. \<lparr>local_ip = 0, local_port = 0, remote_ip = 0, remote_port = 0, pcb_ttl = UDP_TTL,
                         pcb_tos = 0, pcb_flags = 0, recv_arg = None\<rparr>) U
                  else U)))"

definition udp_recv :: "u32 \<Rightarrow> nat \<Rightarrow> udps \<Rightarrow> udps" where
  "udp_recv p conn U = upd_pcb p (\<lambda>b. b\<lparr>recv_arg := Some conn\<rparr>) U"

section \<open>Ports\<close>

definition next_port :: "u16 \<Rightarrow> u16" where
  "next_port w = (if w = UDP_LOCAL_PORT_RANGE_END then UDP_LOCAL_PORT_RANGE_START else w + 1)"

definition port_used :: "u16 \<Rightarrow> udps \<Rightarrow> bool" where
  "port_used w U \<longleftrightarrow> (\<exists>q\<in>set (udp_pcbs U). local_port (pcb_at U q) = w)"

text \<open>The number is that of the conflicts after which the search goes on.\<close>

fun udp_new_port_loop :: "nat \<Rightarrow> udps \<Rightarrow> u16 \<times> udps" where
  "udp_new_port_loop 0 U =
     (let U = U\<lparr>udp_port := next_port (udp_port U)\<rparr> in if port_used (udp_port U) U then (0, U) else (udp_port U, U))"
| "udp_new_port_loop (Suc k) U =
     (let U = U\<lparr>udp_port := next_port (udp_port U)\<rparr>
      in if port_used (udp_port U) U then udp_new_port_loop k U else (udp_port U, U))"

definition udp_new_port :: "udps \<Rightarrow> u16 \<times> udps" where
  "udp_new_port U = udp_new_port_loop (unat (UDP_LOCAL_PORT_RANGE_END - UDP_LOCAL_PORT_RANGE_START)) U"

text \<open>The scan of \<^verbatim>\<open>udp_bind\<close>: \<^verbatim>\<open>None\<close> when another block has the port, else whether the block is listed.\<close>

fun bind_scan :: "(u32 \<Rightarrow> bound_pcb) \<Rightarrow> u32 \<Rightarrow> u32 \<Rightarrow> u16 \<Rightarrow> bool \<Rightarrow> u32 list \<Rightarrow> bool option" where
  "bind_scan m p ip port rebind [] = Some rebind"
| "bind_scan m p ip port rebind (q # qs) =
     (if p = q then bind_scan m p ip port True qs
      else if local_port (m q) = port \<and> (local_ip (m q) = 0 \<or> ip = 0 \<or> local_ip (m q) = ip) then None
      else bind_scan m p ip port rebind qs)"

definition udp_bind :: "u32 \<Rightarrow> u32 \<Rightarrow> u16 \<Rightarrow> udps \<Rightarrow> int \<times> udps" where
  "udp_bind p ip port U =
     (case bind_scan (pcb_at U) p ip port False (udp_pcbs U) of
        None \<Rightarrow> (ERR_USE, U)
      | Some rebind \<Rightarrow>
          (let U = upd_pcb p (\<lambda>b. b\<lparr>local_ip := ip\<rparr>) U;
               (port, U) = (if port = 0 then udp_new_port U else (port, U))
           in if port = 0 then (ERR_USE, U)
              else (let U = upd_pcb p (\<lambda>b. b\<lparr>local_port := port\<rparr>) U
                    in (ERR_OK, if rebind then U else U\<lparr>udp_pcbs := p # udp_pcbs U\<rparr>))))"

definition udp_connect :: "u32 \<Rightarrow> u32 \<Rightarrow> u16 \<Rightarrow> udps \<Rightarrow> int \<times> udps" where
  "udp_connect p ip port U =
     (case (if local_port (pcb_at U p) = 0 then udp_bind p (local_ip (pcb_at U p)) (local_port (pcb_at U p)) U
            else (ERR_OK, U)) of
        (err, U) \<Rightarrow>
          if err \<noteq> ERR_OK then (err, U)
          else (let U = upd_pcb p (\<lambda>b. b\<lparr>remote_ip := ip, remote_port := port, pcb_flags := pcb_flags b OR UDP_FLAGS_CONNECTED\<rparr>) U
                in (ERR_OK, if p \<in> set (udp_pcbs U) then U else U\<lparr>udp_pcbs := p # udp_pcbs U\<rparr>)))"

definition udp_disconnect :: "u32 \<Rightarrow> udps \<Rightarrow> udps" where
  "udp_disconnect p U =
     upd_pcb p (\<lambda>b. b\<lparr>remote_ip := 0, remote_port := 0, pcb_flags := pcb_flags b AND NOT UDP_FLAGS_CONNECTED\<rparr>) U"

fun unlink :: "u32 \<Rightarrow> u32 list \<Rightarrow> u32 list" where
  "unlink p (a # b # r) = (if b = p then a # unlink p r else a # unlink p (b # r))"
| "unlink p l = l"

definition udp_remove :: "u32 \<Rightarrow> udps \<Rightarrow> udps" where
  "udp_remove p U =
     (let l = udp_pcbs U
      in U\<lparr>udp_pcbs := (case l of a # r \<Rightarrow> if a = p then r else unlink p l | [] \<Rightarrow> []),
           pool_udp := memp_free p (pool_udp U)\<rparr>)"

section \<open>The block that gets a datagram\<close>

definition udp_local_match :: "netif \<Rightarrow> u32 \<Rightarrow> u16 \<Rightarrow> bound_pcb \<Rightarrow> bool" where
  "udp_local_match inp dst dport b \<longleftrightarrow>
     (let broadcast = ip4_addr_isbroadcast dst inp
      in local_port b = dport \<and>
         (\<not> broadcast \<and> local_ip b = 0 \<or> local_ip b = dst \<or>
          broadcast \<and> (local_ip b = 0 \<or> ip_addr_netcmp (local_ip b) dst (if_netmask inp))))"

definition udp_remote_match :: "u32 \<Rightarrow> u16 \<Rightarrow> bound_pcb \<Rightarrow> bool" where
  "udp_remote_match src sport b \<longleftrightarrow> remote_port b = sport \<and> (remote_ip b = 0 \<or> remote_ip b = src)"

definition unconnected :: "bound_pcb \<Rightarrow> bool" where
  "unconnected b \<longleftrightarrow> pcb_flags b AND UDP_FLAGS_CONNECTED = 0"

text \<open>\<^verbatim>\<open>pre\<close> holds the blocks passed, the last first (\<^verbatim>\<open>prev\<close> is its head).\<close>

fun udp_find :: "(bound_pcb \<Rightarrow> bool) \<Rightarrow> (bound_pcb \<Rightarrow> bool) \<Rightarrow> (u32 \<Rightarrow> bound_pcb) \<Rightarrow> u32 list \<Rightarrow> u32 option \<Rightarrow>
    u32 list \<Rightarrow> u32 option \<times> u32 list" where
  "udp_find lm rm m pre uncon [] = (uncon, rev pre)"
| "udp_find lm rm m pre uncon (p # ps) =
     (let b = m p; uncon = (if lm b \<and> uncon = None \<and> unconnected b then Some p else uncon)
      in if lm b \<and> rm b
         then (Some p, if pre \<noteq> [] then p # rev pre @ ps else p # ps)
         else udp_find lm rm m (p # pre) uncon ps)"

definition udp_demux :: "netif \<Rightarrow> u32 \<Rightarrow> u16 \<Rightarrow> u32 \<Rightarrow> u16 \<Rightarrow> udps \<Rightarrow> u32 option \<times> udps" where
  "udp_demux inp src sport dst dport U =
     (case udp_find (udp_local_match inp dst dport) (udp_remote_match src sport) (pcb_at U) [] None (udp_pcbs U) of
        (pcb, l) \<Rightarrow> (pcb, U\<lparr>udp_pcbs := l\<rparr>))"

section \<open>The search is a search in the list and a move to the front\<close>

lemma find_mem: "find P xs = Some x \<Longrightarrow> x \<in> set xs \<and> P x"
  by (induction xs) (auto split: if_splits)

lemma udp_find_ref:
  "udp_find lm rm m pre uncon ps =
     (case find (\<lambda>p. lm (m p) \<and> rm (m p)) ps of
        Some p \<Rightarrow> (Some p, p # rev pre @ remove1 p ps)
      | None \<Rightarrow> (if uncon = None then find (\<lambda>p. lm (m p) \<and> unconnected (m p)) ps else uncon, rev pre @ ps))"
  by (induction ps arbitrary: pre uncon) (auto simp: Let_def split: option.splits dest: find_mem)

text \<open>Fully matching first, then unconnected.\<close>

definition udp_chosen :: "netif \<Rightarrow> u32 \<Rightarrow> u16 \<Rightarrow> u32 \<Rightarrow> u16 \<Rightarrow> udps \<Rightarrow> u32 option" where
  "udp_chosen inp src sport dst dport U =
     (let lm = (\<lambda>p. udp_local_match inp dst dport (pcb_at U p))
      in case find (\<lambda>p. lm p \<and> udp_remote_match src sport (pcb_at U p)) (udp_pcbs U) of
           Some p \<Rightarrow> Some p
         | None \<Rightarrow> find (\<lambda>p. lm p \<and> unconnected (pcb_at U p)) (udp_pcbs U))"

lemma udp_demux_eq:
  "udp_demux inp src sport dst dport U =
     (udp_chosen inp src sport dst dport U,
      case find (\<lambda>p. udp_local_match inp dst dport (pcb_at U p) \<and> udp_remote_match src sport (pcb_at U p)) (udp_pcbs U) of
        Some p \<Rightarrow> U\<lparr>udp_pcbs := p # remove1 p (udp_pcbs U)\<rparr> | None \<Rightarrow> U)"
  unfolding udp_demux_def udp_chosen_def udp_find_ref by (simp add: Let_def split: option.splits)

lemma set_remove1_move: "p \<in> set l \<Longrightarrow> insert p (set (remove1 p l)) = set l"
  by (induction l) auto

lemma udp_demux_keeps:
  assumes "udp_demux inp src sport dst dport U = (r, U')"
  shows "set (udp_pcbs U') = set (udp_pcbs U)" "distinct (udp_pcbs U) \<Longrightarrow> distinct (udp_pcbs U')"
    "pcb_at U' = pcb_at U" "udp_port U' = udp_port U" "pool_udp U' = pool_udp U"
  using assms unfolding udp_demux_eq
  by (auto split: option.splits dest!: find_mem simp: set_remove1_move)

section \<open>Ephemeral ports\<close>

text \<open>The range as the numbers below \<^verbatim>\<open>16384\<close>.\<close>

definition port_no :: "nat \<Rightarrow> u16" where
  "port_no i = UDP_LOCAL_PORT_RANGE_START + of_nat (i mod 16384)"

lemma unat_port_no: "unat (port_no i) = 49152 + i mod 16384"
proof -
  have "i mod 16384 < 16384" by simp
  then have n: "unat (of_nat (i mod 16384) :: u16) = i mod 16384" by (intro unat_of_nat_small) simp
  have "unat (0xc000 + of_nat (i mod 16384) :: u16) = unat (0xc000 :: u16) + unat (of_nat (i mod 16384) :: u16)"
    by (rule unat_add_no_wrap) (use n \<open>i mod 16384 < 16384\<close> in simp)
  then show ?thesis unfolding port_no_def UDP_LOCAL_PORT_RANGE_START_def n by simp
qed

lemma port_no_inj: "port_no i = port_no j \<longleftrightarrow> i mod 16384 = j mod 16384"
proof
  assume "port_no i = port_no j"
  then have "unat (port_no i) = unat (port_no j)" by simp
  then show "i mod 16384 = j mod 16384" by (simp only: unat_port_no)
qed (simp add: port_no_def)

lemma next_port_no: "next_port (port_no i) = port_no (Suc i)"
proof -
  have "unat (next_port (port_no i)) = unat (port_no (Suc i))"
  proof (cases "i mod 16384 = 16383")
    case True
    then have "port_no i = UDP_LOCAL_PORT_RANGE_END" "Suc i mod 16384 = 0"
      by (simp_all add: port_no_def UDP_LOCAL_PORT_RANGE_START_def UDP_LOCAL_PORT_RANGE_END_def mod_Suc)
    then show ?thesis using unat_port_no [of "Suc i"] by (simp add: next_port_def UDP_LOCAL_PORT_RANGE_START_def)
  next
    case False
    have l: "i mod 16384 < 16384" by simp
    then have s: "Suc i mod 16384 = i mod 16384 + 1" using False by (simp add: mod_Suc)
    have "unat (port_no i) \<noteq> unat UDP_LOCAL_PORT_RANGE_END"
      using unat_port_no [of i] False l by (simp add: UDP_LOCAL_PORT_RANGE_END_def)
    then have "next_port (port_no i) = port_no i + 1" by (auto simp: next_port_def)
    moreover have "unat (port_no i + 1) = unat (port_no i) + 1"
      using unat_port_no [of i] l False by (intro unat_plus_one_word) simp
    ultimately show ?thesis using unat_port_no [of i] unat_port_no [of "Suc i"] s by simp
  qed
  then show ?thesis by (simp add: word_unat_eq_iff)
qed

lemma port_range:
  assumes "UDP_LOCAL_PORT_RANGE_START \<le> w" obtains i where "w = port_no i"
proof
  have b: "49152 \<le> unat w" "unat w < 65536" using assms by (simp_all add: word_le_nat_alt UDP_LOCAL_PORT_RANGE_START_def)
  then have "(unat w - 49152) mod 16384 = unat w - 49152" by (intro mod_less) linarith
  then have "unat w = unat (port_no (unat w - 49152))" using b(1) by (simp add: unat_port_no)
  then show "w = port_no (unat w - 49152)" by (simp add: word_unat_eq_iff)
qed

lemma udp_new_port_loop_ok:
  assumes "udp_port U = port_no i" and "\<And>d. d < j \<Longrightarrow> port_used (port_no (i + Suc d)) U"
    and "\<not> port_used (port_no (i + Suc j)) U" "j \<le> k"
  shows "udp_new_port_loop k U = (port_no (i + Suc j), U\<lparr>udp_port := port_no (i + Suc j)\<rparr>)"
  using assms
proof (induction j arbitrary: i k U)
  case 0
  then show ?case by (cases k) (auto simp: next_port_no port_used_def Let_def)
next
  case (Suc j)
  then obtain l where k: "k = Suc l" by (cases k) auto
  have used: "port_used (port_no (Suc i)) U" using Suc.prems(2) [of 0] by simp
  let ?U = "U\<lparr>udp_port := port_no (Suc i)\<rparr>"
  have p: "port_used w ?U = port_used w U" for w by (simp add: port_used_def)
  have "udp_new_port_loop l ?U = (port_no (Suc i + Suc j), ?U\<lparr>udp_port := port_no (Suc i + Suc j)\<rparr>)"
  proof (rule Suc.IH)
    show "port_used (port_no (Suc i + Suc d)) ?U" if "d < j" for d
      using Suc.prems(2) [of "Suc d"] that unfolding p by simp
  qed (use Suc.prems(3,4) k in \<open>simp_all add: port_used_def\<close>)
  then show ?case using used Suc.prems(1) by (simp add: k next_port_no port_used_def Let_def)
qed

lemma udp_new_port_ok:
  assumes "UDP_LOCAL_PORT_RANGE_START \<le> udp_port U" "length (udp_pcbs U) < 16384"
  shows "\<exists>w. udp_new_port U = (w, U\<lparr>udp_port := w\<rparr>) \<and> UDP_LOCAL_PORT_RANGE_START \<le> w \<and> \<not> port_used w U"
proof -
  obtain i where i: "udp_port U = port_no i" using port_range [OF assms(1)] .
  let ?used = "\<lambda>d. port_used (port_no (i + Suc d)) U"
  have "\<exists>d<16384. \<not> ?used d"
  proof (rule ccontr)
    assume "\<not> (\<exists>d<16384. \<not> ?used d)"
    then have sub: "(\<lambda>d. port_no (i + Suc d)) ` {..<16384} \<subseteq> (\<lambda>q. local_port (pcb_at U q)) ` set (udp_pcbs U)"
      by (auto simp: port_used_def image_iff) metis
    have "inj_on (\<lambda>d. port_no (i + Suc d)) {..<16384}"
    proof (rule inj_onI)
      fix c d :: nat assume "c \<in> {..<16384}" "d \<in> {..<16384}" "port_no (i + Suc c) = port_no (i + Suc d)"
      then show "c = d" unfolding port_no_inj using mod_add_left_imp [of "i + 1" c 16384 d] by simp
    qed
    then have "card ((\<lambda>d. port_no (i + Suc d)) ` {..<16384}) = 16384" by (simp add: card_image)
    moreover have "card ((\<lambda>q. local_port (pcb_at U q)) ` set (udp_pcbs U)) \<le> length (udp_pcbs U)"
      by (meson card_image_le card_length finite_set order_trans)
    ultimately show False using card_mono [OF _ sub] assms(2) by simp
  qed
  then obtain j where j: "j < 16384" "\<not> ?used j" "\<And>d. d < j \<Longrightarrow> ?used d"
    using exists_least_iff [of "\<lambda>d. d < 16384 \<and> \<not> ?used d"] by (meson less_trans)
  have "j \<le> unat (UDP_LOCAL_PORT_RANGE_END - UDP_LOCAL_PORT_RANGE_START)"
    using j(1) by (simp add: UDP_LOCAL_PORT_RANGE_END_def UDP_LOCAL_PORT_RANGE_START_def)
  then have "udp_new_port U = (port_no (i + Suc j), U\<lparr>udp_port := port_no (i + Suc j)\<rparr>)"
    unfolding udp_new_port_def using udp_new_port_loop_ok [OF i j(3,2)] by blast
  moreover have "UDP_LOCAL_PORT_RANGE_START \<le> port_no (i + Suc j)"
    using unat_port_no [of "i + Suc j"] by (simp add: word_le_nat_alt UDP_LOCAL_PORT_RANGE_START_def)
  ultimately show ?thesis using j(2) by blast
qed

section \<open>No two blocks share a port\<close>

definition overlap :: "bound_pcb \<Rightarrow> bound_pcb \<Rightarrow> bool" where
  "overlap a b \<longleftrightarrow> local_port a = local_port b \<and> (local_ip a = 0 \<or> local_ip b = 0 \<or> local_ip a = local_ip b)"

definition udp_ok :: "u32 list \<Rightarrow> udps \<Rightarrow> bool" where
  "udp_ok all U \<longleftrightarrow>
     0 \<notin> set all \<and> length all < 16384 \<and> distinct (udp_pcbs U @ pool_udp U) \<and> set (udp_pcbs U @ pool_udp U) \<subseteq> set all \<and>
     UDP_LOCAL_PORT_RANGE_START \<le> udp_port U \<and>
     (\<forall>p\<in>set (udp_pcbs U). local_port (pcb_at U p) \<noteq> 0) \<and>
     (\<forall>p\<in>set all. p \<notin> set (udp_pcbs U @ pool_udp U) \<longrightarrow> local_port (pcb_at U p) = 0) \<and>
     (\<forall>p\<in>set (udp_pcbs U). \<forall>q\<in>set (udp_pcbs U). p \<noteq> q \<longrightarrow> \<not> overlap (pcb_at U p) (pcb_at U q))"

definition live :: "u32 list \<Rightarrow> udps \<Rightarrow> u32 \<Rightarrow> bool" where
  "live all U p \<longleftrightarrow> p \<in> set all \<and> p \<notin> set (pool_udp U)"

lemma upd_pcb_sel [simp]:
  "udp_pcbs (upd_pcb p f U) = udp_pcbs U" "udp_port (upd_pcb p f U) = udp_port U" "pool_udp (upd_pcb p f U) = pool_udp U"
  "pcb_at (upd_pcb p f U) = (pcb_at U)(p := f (pcb_at U p))"
  by (simp_all add: upd_pcb_def)

lemma bind_scan_eq:
  "bind_scan m p ip port rb qs =
     (if \<exists>q\<in>set qs. q \<noteq> p \<and> local_port (m q) = port \<and> (local_ip (m q) = 0 \<or> ip = 0 \<or> local_ip (m q) = ip)
      then None else Some (rb \<or> p \<in> set qs))"
  by (induction qs arbitrary: rb) auto

text \<open>The remote side of a block does not matter.\<close>

lemma udp_ok_remote:
  assumes "udp_ok all U" "\<And>b. local_port (f b) = local_port b" "\<And>b. local_ip (f b) = local_ip b"
  shows "udp_ok all (upd_pcb p f U)"
  using assms by (simp add: udp_ok_def overlap_def)

definition clash :: "u32 \<Rightarrow> u32 \<Rightarrow> u16 \<Rightarrow> udps \<Rightarrow> bool" where
  "clash p ip port U \<longleftrightarrow> (\<exists>q\<in>set (udp_pcbs U). q \<noteq> p \<and> local_port (pcb_at U q) = port \<and>
     (local_ip (pcb_at U q) = 0 \<or> ip = 0 \<or> local_ip (pcb_at U q) = ip))"

lemma udp_bind_clash: "clash p ip port U \<Longrightarrow> udp_bind p ip port U = (ERR_USE, U)"
  by (simp add: udp_bind_def bind_scan_eq clash_def)

lemma udp_bind_free:
  assumes ok: "udp_ok all U" and free: "\<not> clash p ip port U"
  shows "\<exists>w. UDP_LOCAL_PORT_RANGE_START \<le> w \<and> \<not> port_used w U \<and> udp_bind p ip port U =
     (ERR_OK, (upd_pcb p (\<lambda>b. b\<lparr>local_ip := ip, local_port := if port = 0 then w else port\<rparr>) U)
        \<lparr>udp_port := if port = 0 then w else udp_port U,
         udp_pcbs := if p \<in> set (udp_pcbs U) then udp_pcbs U else p # udp_pcbs U\<rparr>)"
proof -
  have U: "distinct (udp_pcbs U)" "set (udp_pcbs U) \<subseteq> set all" "UDP_LOCAL_PORT_RANGE_START \<le> udp_port U" "length all < 16384"
    using ok by (simp_all add: udp_ok_def)
  have few: "length (udp_pcbs U) < 16384"
    using U card_mono [OF finite_set U(2)] distinct_card [OF U(1)] card_length [of all] by simp
  let ?U = "upd_pcb p (\<lambda>b. b\<lparr>local_ip := ip\<rparr>) U"
  obtain w where w: "udp_new_port ?U = (w, ?U\<lparr>udp_port := w\<rparr>)" "UDP_LOCAL_PORT_RANGE_START \<le> w" "\<not> port_used w ?U"
    using udp_new_port_ok [of ?U] U(3) few by auto
  have w0: "w \<noteq> 0" using w(2) by (auto simp: UDP_LOCAL_PORT_RANGE_START_def)
  have "port_used w ?U = port_used w U" by (auto simp: port_used_def)
  moreover have scan: "bind_scan (pcb_at U) p ip port False (udp_pcbs U) = Some (p \<in> set (udp_pcbs U))"
    unfolding bind_scan_eq using free by (simp add: clash_def)
  ultimately show ?thesis
    using w w0 by (intro exI [where x = w]) (auto simp: udp_bind_def scan Let_def upd_pcb_def intro!: udps.equality)
qed

lemma udp_bind_ok:
  assumes ok: "udp_ok all U" and l: "live all U p" and b: "udp_bind p ip port U = (e, U')"
  shows "udp_ok all U'" "pool_udp U' = pool_udp U" "e = ERR_OK \<Longrightarrow> p \<in> set (udp_pcbs U')"
proof -
  have "udp_ok all U' \<and> pool_udp U' = pool_udp U \<and> (e = ERR_OK \<longrightarrow> p \<in> set (udp_pcbs U'))"
  proof (cases "clash p ip port U")
    case True
    then show ?thesis using b ok udp_bind_clash [OF True] by (simp add: ERR_USE_def ERR_OK_def)
  next
    case False
    obtain w where w: "UDP_LOCAL_PORT_RANGE_START \<le> w" "\<not> port_used w U"
      "U' = (upd_pcb p (\<lambda>b. b\<lparr>local_ip := ip, local_port := if port = 0 then w else port\<rparr>) U)
        \<lparr>udp_port := if port = 0 then w else udp_port U,
         udp_pcbs := if p \<in> set (udp_pcbs U) then udp_pcbs U else p # udp_pcbs U\<rparr>"
      using udp_bind_free [OF ok False] b by auto
    have w0: "w \<noteq> 0" using w(1) by (auto simp: UDP_LOCAL_PORT_RANGE_START_def)
    have free: "\<forall>q\<in>set (udp_pcbs U). q \<noteq> p \<longrightarrow> local_port (pcb_at U q) \<noteq> (if port = 0 then w else port) \<or>
        (local_ip (pcb_at U q) \<noteq> 0 \<and> ip \<noteq> 0 \<and> local_ip (pcb_at U q) \<noteq> ip)"
      using False w(2) by (auto simp: port_used_def clash_def)
    have "udp_ok all U'"
      using ok l free w0 w(1) unfolding udp_ok_def w(3) live_def overlap_def by auto
    then show ?thesis unfolding w(3) by simp
  qed
  then show "udp_ok all U'" "pool_udp U' = pool_udp U" "e = ERR_OK \<Longrightarrow> p \<in> set (udp_pcbs U')" by simp_all
qed

lemma udp_connect_ok:
  assumes ok: "udp_ok all U" and l: "live all U p"
  shows "udp_ok all (snd (udp_connect p ip port U))"
proof -
  obtain e U1 where b: "(if local_port (pcb_at U p) = 0 then udp_bind p (local_ip (pcb_at U p)) (local_port (pcb_at U p)) U
            else (ERR_OK, U)) = (e, U1)" by fastforce
  have p: "local_port (pcb_at U p) \<noteq> 0 \<Longrightarrow> p \<in> set (udp_pcbs U)" using ok l by (auto simp: udp_ok_def live_def)
  have U1: "udp_ok all U1" "e = ERR_OK \<Longrightarrow> p \<in> set (udp_pcbs U1)"
    using b p ok udp_bind_ok [OF ok l] by (auto split: if_splits)
  show ?thesis
    using U1 b by (auto simp: udp_connect_def Let_def intro!: udp_ok_remote)
qed

lemma unlink_idem: "p \<notin> set l \<Longrightarrow> unlink p l = l"
  by (induction p l rule: unlink.induct) auto

lemma unlink_cons: "distinct l \<Longrightarrow> a \<noteq> p \<Longrightarrow> unlink p (a # l) = a # remove1 p l"
  by (induction l arbitrary: a) (auto simp: unlink_idem)

lemma unlink_eq: "distinct l \<Longrightarrow> (case l of a # r \<Rightarrow> if a = p then r else unlink p l | [] \<Rightarrow> []) = remove1 p l"
  by (cases l) (auto simp: unlink_cons)

lemma udp_remove_ok: "udp_ok all U \<Longrightarrow> live all U p \<Longrightarrow> udp_ok all (udp_remove p U)"
  by (auto simp: udp_ok_def udp_remove_def unlink_eq live_def memp_free_def overlap_def)

lemma udp_new_ok:
  assumes ok: "udp_ok all U" and n: "udp_new U = (p, U')"
  shows "udp_ok all U'"
proof (cases "pool_udp U")
  case Nil
  then have "U' = U" using n by (auto simp: udp_new_def memp_malloc_def Let_def)
  then show ?thesis using ok by simp
next
  case (Cons q pool)
  then have q: "q \<noteq> 0" "q \<notin> set (udp_pcbs U)" "q \<notin> set pool" using ok by (auto simp: udp_ok_def)
  have U': "U' = upd_pcb q (\<lambda>_. \<lparr>local_ip = 0, local_port = 0, remote_ip = 0, remote_port = 0, pcb_ttl = UDP_TTL,
                         pcb_tos = 0, pcb_flags = 0, recv_arg = None\<rparr>) (U\<lparr>pool_udp := pool\<rparr>)"
    using n Cons q(1) by (auto simp: udp_new_def memp_malloc_def Let_def)
  show ?thesis using ok q unfolding U' udp_ok_def Cons overlap_def by auto
qed

lemma udp_demux_ok: "udp_ok all U \<Longrightarrow> udp_demux inp src sport dst dport U = (r, U') \<Longrightarrow> udp_ok all U'"
  using udp_demux_keeps [of inp src sport dst dport U r U'] by (simp add: udp_ok_def)

section \<open>Any sequence of calls and datagrams\<close>

text \<open>\<^verbatim>\<open>New\<close> is \<^verbatim>\<open>pcb_new\<close> for a connection.  A call on a block that is not allocated has no value.\<close>

datatype udp_op =
  New nat | Bind u32 u32 u16 | Connect u32 u32 u16 | Disconnect u32 | Remove u32 | Datagram netif u32 u16 u32 u16

fun udp_exec :: "u32 list \<Rightarrow> udp_op \<Rightarrow> udps \<Rightarrow> udps option" where
  "udp_exec all (New conn) U = (case udp_new U of (p, U) \<Rightarrow> Some (if p = 0 then U else udp_recv p conn U))"
| "udp_exec all (Bind p ip port) U = (if live all U p then Some (snd (udp_bind p ip port U)) else None)"
| "udp_exec all (Connect p ip port) U = (if live all U p then Some (snd (udp_connect p ip port U)) else None)"
| "udp_exec all (Disconnect p) U = (if live all U p then Some (udp_disconnect p U) else None)"
| "udp_exec all (Remove p) U = (if live all U p then Some (udp_remove p U) else None)"
| "udp_exec all (Datagram inp src sport dst dport) U = Some (snd (udp_demux inp src sport dst dport U))"

fun udp_run :: "u32 list \<Rightarrow> udp_op list \<Rightarrow> udps \<Rightarrow> udps option" where
  "udp_run all [] U = Some U"
| "udp_run all (x # xs) U = (case udp_exec all x U of None \<Rightarrow> None | Some U \<Rightarrow> udp_run all xs U)"

text \<open>\<^verbatim>\<open>MEMP_NUM_UDP_PCB\<close> blocks, all free.\<close>

definition MEMP_NUM_UDP_PCB :: nat where "MEMP_NUM_UDP_PCB = 6"

definition udp_start :: "u32 \<Rightarrow> nat \<Rightarrow> (u32 \<Rightarrow> bound_pcb) \<Rightarrow> udps" where
  "udp_start base sz m = \<lparr>udp_pcbs = [], pcb_at = m, udp_port = UDP_LOCAL_PORT_RANGE_START,
     pool_udp = memp_init_pool base sz MEMP_NUM_UDP_PCB\<rparr>"

lemma udp_exec_ok: "udp_ok all U \<Longrightarrow> udp_exec all x U = Some U' \<Longrightarrow> udp_ok all U'"
proof (cases x)
  case (New conn)
  assume "udp_ok all U" "udp_exec all x U = Some U'"
  then show ?thesis using udp_new_ok [of all U] unfolding New
    by (auto simp: udp_recv_def split: prod.splits if_splits intro!: udp_ok_remote)
qed (auto simp: udp_disconnect_def split: if_splits intro: udp_bind_ok(1) [OF _ _ prod.collapse [symmetric]] udp_connect_ok udp_remove_ok
      udp_demux_ok [OF _ prod.collapse [symmetric]] udp_ok_remote)

lemma udp_run_ok: "udp_run all xs U = Some U' \<Longrightarrow> udp_ok all U \<Longrightarrow> udp_ok all U'"
  by (induction xs arbitrary: U) (auto split: option.splits dest: udp_exec_ok)

lemma length_memp_init_pool: "length (memp_init_pool base sz n) = n"
proof -
  have "length (fold (\<lambda>j l. f j # l) xs l) = length xs + length l" for f :: "nat \<Rightarrow> u32" and xs l
    by (induction xs arbitrary: l) auto
  then show ?thesis by (simp add: memp_init_pool_def)
qed

lemma udp_start_ok:
  assumes "distinct (pool_udp (udp_start base sz m))" "0 \<notin> set (pool_udp (udp_start base sz m))"
  shows "udp_ok (pool_udp (udp_start base sz m)) (udp_start base sz m)"
  using assms by (simp add: udp_ok_def udp_start_def length_memp_init_pool MEMP_NUM_UDP_PCB_def)

text \<open>The one block that matches a datagram to one host.\<close>

lemma udp_chosen_unique:
  assumes ok: "udp_ok all U" and p: "p \<in> set (udp_pcbs U)" "udp_local_match inp dst dport (pcb_at U p)"
    and u: "\<not> ip4_addr_isbroadcast dst inp"
  shows "udp_chosen inp src sport dst dport U =
     (if udp_remote_match src sport (pcb_at U p) \<or> unconnected (pcb_at U p) then Some p else None)"
proof -
  have one: "q = p" if "q \<in> set (udp_pcbs U)" "udp_local_match inp dst dport (pcb_at U q)" for q
  proof (rule ccontr)
    assume "q \<noteq> p"
    then have "\<not> overlap (pcb_at U q) (pcb_at U p)" using ok p(1) that(1) by (simp add: udp_ok_def)
    then show False using p(2) that(2) u by (auto simp: udp_local_match_def overlap_def Let_def)
  qed
  have f: "find (\<lambda>q. udp_local_match inp dst dport (pcb_at U q) \<and> P (pcb_at U q)) (udp_pcbs U) =
      (if P (pcb_at U p) then Some p else None)" for P
  proof (cases "find (\<lambda>q. udp_local_match inp dst dport (pcb_at U q) \<and> P (pcb_at U q)) (udp_pcbs U)")
    case None
    then have "\<not> P (pcb_at U p)" using p unfolding find_None_iff by blast
    then show ?thesis using None by simp
  next
    case (Some q)
    then have "q = p" "P (pcb_at U q)" using one find_mem [OF Some] by blast+
    then show ?thesis using Some by simp
  qed
  show ?thesis unfolding udp_chosen_def Let_def f by auto
qed

section \<open>Properties\<close>

text \<open>C19: After any sequence of creations, bindings, connections, disconnections, removals and
  received datagrams, a datagram for an address and port to which a block is bound is given to
  that block, or to none if the block is connected to another peer.\<close>

theorem udp_ports_exclusive:
  assumes "U0 = udp_start base sz m" "distinct (pool_udp U0)" "0 \<notin> set (pool_udp U0)"
    and "udp_run (pool_udp U0) xs U0 = Some U" and "p \<in> set (udp_pcbs U)"
    and "udp_local_match inp dst dport (pcb_at U p)" "\<not> ip4_addr_isbroadcast dst inp"
  shows "fst (udp_demux inp src sport dst dport U) =
     (if udp_remote_match src sport (pcb_at U p) \<or> unconnected (pcb_at U p) then Some p else None)"
  using udp_chosen_unique [OF udp_run_ok [OF assms(4)] assms(5-7)] udp_start_ok [of base sz m] assms(1-3)
  unfolding udp_demux_eq by simp

theorem udp_bind_result:
  assumes "U0 = udp_start base sz m" "distinct (pool_udp U0)" "0 \<notin> set (pool_udp U0)"
    and "udp_run (pool_udp U0) xs U0 = Some U"
  shows "\<exists>w. UDP_LOCAL_PORT_RANGE_START \<le> w \<and> \<not> port_used w U \<and> udp_bind p ip port U =
     (if clash p ip port U then (ERR_USE, U)
      else (ERR_OK, (upd_pcb p (\<lambda>b. b\<lparr>local_ip := ip, local_port := if port = 0 then w else port\<rparr>) U)
        \<lparr>udp_port := if port = 0 then w else udp_port U,
         udp_pcbs := if p \<in> set (udp_pcbs U) then udp_pcbs U else p # udp_pcbs U\<rparr>))"
proof (cases "clash p ip port U")
  case True
  have ok: "udp_ok (pool_udp U0) U" using udp_run_ok [OF assms(4)] udp_start_ok [of base sz m] assms(1-3) by simp
  have "\<not> clash p 1 0 U" using ok by (auto simp: clash_def udp_ok_def)
  then show ?thesis using True udp_bind_free [OF ok, of p 1 0] udp_bind_clash [OF True] by auto
next
  case False
  then show ?thesis
    using udp_bind_free [OF udp_run_ok [OF assms(4)] False] udp_start_ok [of base sz m] assms(1-3) by simp
qed

section \<open>The camera's connection\<close>

definition demo_udps :: udps where
  "demo_udps = udp_start 0x24010000 32 (\<lambda>_. \<lparr>local_ip = 7, local_port = 7, remote_ip = 7, remote_port = 7, pcb_ttl = 7,
     pcb_tos = 7, pcb_flags = 7, recv_arg = None\<rparr>)"

lemma demo_pool: "pool_udp demo_udps = [0x240100A0, 0x24010080, 0x24010060, 0x24010040, 0x24010020, 0x24010000]"
  by (simp add: demo_udps_def udp_start_def memp_init_pool_def MEMP_NUM_UDP_PCB_def upt_rec)

text \<open>\<^verbatim>\<open>udp_thread\<close>: a new connection, bound to port 8088 of any address and connected to a host.\<close>

definition camera_calls :: "udp_op list" where
  "camera_calls = [New 0, Bind 0x240100A0 0 8088, Connect 0x240100A0 0x7301A8C0 8088]"

definition camera_udps :: udps where
  "camera_udps = demo_udps\<lparr>udp_pcbs := [0x240100A0], pool_udp := tl (pool_udp demo_udps), pcb_at := (pcb_at demo_udps)(0x240100A0 :=
     \<lparr>local_ip = 0, local_port = 8088, remote_ip = 0x7301A8C0, remote_port = 8088, pcb_ttl = UDP_TTL, pcb_tos = 0,
      pcb_flags = 4, recv_arg = Some 0\<rparr>)\<rparr>"

definition camera_netif :: netif where
  "camera_netif = \<lparr>if_ip_addr = 0x1E01A8C0, if_netmask = 0x00FFFFFF, if_gw = 0x0101A8C0,
     if_hwaddr = [2, 0, 0, 0, 0, 2], if_mtu = 1500, if_up = True, if_broadcast = True, if_etharp = True\<rparr>"

lemma camera_run: "udp_run (pool_udp demo_udps) camera_calls demo_udps = Some camera_udps"
proof -
  have l: "udp_pcbs demo_udps = []" "0x240100A0 \<in> set (pool_udp demo_udps)" "0x240100A0 \<notin> set (tl (pool_udp demo_udps))"
    "memp_malloc (pool_udp demo_udps) = (0x240100A0, tl (pool_udp demo_udps))"
    unfolding demo_pool by (simp_all add: demo_udps_def udp_start_def memp_malloc_def)
  show ?thesis
    using l by (simp add: camera_calls_def camera_udps_def udp_new_def udp_recv_def udp_bind_def udp_connect_def live_def
        Let_def upd_pcb_def ERR_OK_def UDP_FLAGS_CONNECTED_def)
qed

lemma camera_pool: "distinct (pool_udp demo_udps)" "0 \<notin> set (pool_udp demo_udps)"
  by (simp_all add: demo_pool)

lemma camera_sel: "udp_pcbs camera_udps = [0x240100A0]" "pcb_at camera_udps 0x240100A0 = \<lparr>local_ip = 0, local_port = 8088,
    remote_ip = 0x7301A8C0, remote_port = 8088, pcb_ttl = UDP_TTL, pcb_tos = 0, pcb_flags = 4, recv_arg = Some 0\<rparr>"
  by (simp_all add: camera_udps_def)

lemma camera_ok: "udp_ok (pool_udp demo_udps) camera_udps"
  using udp_run_ok [OF camera_run] udp_start_ok camera_pool by (simp add: demo_udps_def)

text \<open>The host's datagram finds the connection, that of another host does not.\<close>

theorem udp_ports_exclusive_witness:
  "fst (udp_demux camera_netif 0x7301A8C0 8088 0x1E01A8C0 8088 camera_udps) = Some 0x240100A0 \<and>
   fst (udp_demux camera_netif 0x7201A8C0 8088 0x1E01A8C0 8088 camera_udps) = None"
proof -
  have m: "0x240100A0 \<in> set (udp_pcbs camera_udps)"
    "udp_local_match camera_netif 0x1E01A8C0 8088 (pcb_at camera_udps 0x240100A0)"
    "\<not> ip4_addr_isbroadcast 0x1E01A8C0 camera_netif"
    unfolding camera_sel udp_local_match_def by (simp_all add: ip4_addr_isbroadcast_def camera_netif_def)
  show ?thesis
    using udp_ports_exclusive [OF demo_udps_def camera_pool camera_run m, of "0x7301A8C0" 8088]
      udp_ports_exclusive [OF demo_udps_def camera_pool camera_run m, of "0x7201A8C0" 8088]
    unfolding camera_sel by (simp add: udp_remote_match_def unconnected_def UDP_FLAGS_CONNECTED_def)
qed

text \<open>A second connection can have another port, but not the camera's.\<close>

theorem udp_bind_result_witness:
  "udp_bind 0x24010080 0 8088 camera_udps = (ERR_USE, camera_udps) \<and> fst (udp_bind 0x24010080 0 0 camera_udps) = ERR_OK"
proof -
  have "clash 0x24010080 0 8088 camera_udps" "\<not> clash 0x24010080 0 0 camera_udps"
    unfolding clash_def camera_sel by (simp_all add: camera_sel)
  then show ?thesis
    using udp_bind_result [OF demo_udps_def camera_pool camera_run, of "0x24010080" 0 8088]
      udp_bind_result [OF demo_udps_def camera_pool camera_run, of "0x24010080" 0 0] by auto
qed

end
