(* ===== verification/Lwip_In.thy ===== *)
theory Lwip_In
  imports Udp_Pcb
begin

text \<open>
  The way a received frame takes through lwIP in its thread: \<^verbatim>\<open>ethernet_input\<close> (\<^verbatim>\<open>etharp.c\<close>),
  \<^verbatim>\<open>ip_input\<close> (\<^verbatim>\<open>ip.c\<close>), \<^verbatim>\<open>udp_input\<close> (\<^verbatim>\<open>udp.c\<close>), \<^verbatim>\<open>recv_udp\<close> (\<^verbatim>\<open>api_msg.c\<close>) and, in the task that
  receives, \<^verbatim>\<open>netconn_recv\<close> (\<^verbatim>\<open>api_lib.c\<close>), with the options of \<^verbatim>\<open>lwipopts.h\<close>.  A packet is the list of
  its chain with the bytes as they are when the thread looks at them; a read behind the end of a
  buffer has no value.  The pbufs are those of the driver (type \<^verbatim>\<open>PBUF_POOL\<close>).  The marks of link-layer
  broadcasts, which only \<^verbatim>\<open>IP_FORWARD\<close> reads, are left out.
\<close>

section \<open>Reading headers\<close>

definition payload_bytes :: "nat \<Rightarrow> pbuf \<Rightarrow> u8 list option" where
  "payload_bytes n p =
     (if pb_payload p + n \<le> length (pb_mem p) then Some (take n (drop (pb_payload p) (pb_mem p))) else None)"

definition be16_at :: "u8 list \<Rightarrow> nat \<Rightarrow> u16" where
  "be16_at h i = of_le16 (h ! (i + 1)) (h ! i)"

text \<open>The word whose bytes in memory these are, in the byte order of the processor.\<close>

definition ip_at :: "u8 list \<Rightarrow> nat \<Rightarrow> u32" where
  "ip_at h i = ucast (h ! i) OR push_bit 8 (ucast (h ! (i + 1))) OR push_bit 16 (ucast (h ! (i + 2))) OR push_bit 24 (ucast (h ! (i + 3)))"

definition ETHTYPE_IP :: "u8 list" where "ETHTYPE_IP = [0x08, 0x00]"
definition ETHTYPE_ARP :: "u8 list" where "ETHTYPE_ARP = [0x08, 0x06]"
definition IP_PROTO_ICMP :: u8 where "IP_PROTO_ICMP = 1"
definition IP_PROTO_TCP :: u8 where "IP_PROTO_TCP = 6"
definition ICMP_DUR_PROTO :: u8 where "ICMP_DUR_PROTO = 2"
definition ICMP_DUR_PORT :: u8 where "ICMP_DUR_PORT = 3"
definition ERR_TIMEOUT :: int where "ERR_TIMEOUT = - 3"

section \<open>State\<close>

record netbuf =
  nb_p :: "pbuf list"
  nb_addr :: u32
  nb_port :: u16

record conn_in =
  recvmbox :: "nat option"
  conn_err :: int
  recv_timeout :: u32

text \<open>\<^verbatim>\<open>lower\<close> is the state of the parts that are parameters.\<close>

record 'x rxs =
  udp :: udps
  pool_netbuf :: "u32 list"
  netbuf_at :: "u32 \<Rightarrow> netbuf"
  conn_at :: "nat \<Rightarrow> conn_in"
  rx_os :: os
  rx_qt :: qtab
  lower :: 'x

text \<open>The protocols beside UDP.  \<^verbatim>\<open>rx_ip_reass\<close> is given a fragment and answers with the whole packet, if complete;
  \<^verbatim>\<open>rx_raw_input\<close> says whether it took the packet.\<close>

record 'x rx_par =
  rx_pbuf_free :: "pbuf list \<Rightarrow> 'x \<Rightarrow> 'x"
  rx_arp_input :: "netif \<Rightarrow> pbuf list \<Rightarrow> 'x \<Rightarrow> 'x"
  rx_ip_reass :: "pbuf list \<Rightarrow> 'x \<Rightarrow> pbuf list option \<times> 'x"
  rx_raw_input :: "pbuf list \<Rightarrow> netif \<Rightarrow> 'x \<Rightarrow> bool \<times> 'x"
  rx_tcp_input :: "pbuf list \<Rightarrow> netif \<Rightarrow> 'x \<Rightarrow> 'x"
  rx_icmp_input :: "pbuf list \<Rightarrow> netif \<Rightarrow> 'x \<Rightarrow> 'x"
  rx_dest_unreach :: "pbuf list \<Rightarrow> u8 \<Rightarrow> 'x \<Rightarrow> 'x"

definition low :: "('x \<Rightarrow> 'x) \<Rightarrow> 'x rxs \<Rightarrow> 'x rxs" where
  "low f W = W\<lparr>lower := f (lower W)\<rparr>"

section \<open>The connection\<close>

definition netbuf_free_rx :: "'x rx_par \<Rightarrow> u32 \<Rightarrow> 'x rxs \<Rightarrow> 'x rxs" where
  "netbuf_free_rx I buf W =
     low (rx_pbuf_free I (nb_p (netbuf_at W buf))) (W\<lparr>pool_netbuf := memp_free buf (pool_netbuf W)\<rparr>)"

definition recv_udp :: "u32 \<Rightarrow> 'x rx_par \<Rightarrow> nat \<Rightarrow> pbuf list \<Rightarrow> u32 \<Rightarrow> u16 \<Rightarrow> 'x rxs \<Rightarrow> 'x rxs option" where
  "recv_udp nullp I conn p addr port W =
     do {
       valid \<leftarrow> sys_mbox_valid (recvmbox (conn_at W conn)) (rx_os W) (rx_qt W);
       (if \<not> valid then Some (low (rx_pbuf_free I p) W)
        else (case memp_malloc (pool_netbuf W) of
          (buf, pool) \<Rightarrow>
            if buf = 0 then Some (low (rx_pbuf_free I p) W)
            else (let W = W\<lparr>pool_netbuf := pool, netbuf_at := (netbuf_at W)(buf := \<lparr>nb_p = p, nb_addr = addr, nb_port = port\<rparr>)\<rparr>
                  in do {
                       (err, s, qt) \<leftarrow> sys_mbox_trypost nullp (recvmbox (conn_at W conn)) buf (rx_os W) (rx_qt W);
                       let W = W\<lparr>rx_os := s, rx_qt := qt\<rparr>;
                       Some (if err \<noteq> ERR_OK then netbuf_free_rx I buf W else W)
                     })))
     }"

text \<open>\<^verbatim>\<open>netconn_recv\<close> of a UDP connection up to its wait: the result and the buffer, or nothing when the
  task has to wait.\<close>

definition netconn_recv :: "u32 \<Rightarrow> nat \<Rightarrow> 'x rxs \<Rightarrow> ((int \<times> u32) option \<times> 'x rxs) option" where
  "netconn_recv nullp conn W =
     (let c = conn_at W conn
      in do {
           valid \<leftarrow> sys_mbox_valid (recvmbox c) (rx_os W) (rx_qt W);
           (if \<not> valid then Some (Some (ERR_CONN, 0), W)
            else if ERR_IS_FATAL (conn_err c) then Some (Some (conn_err c, 0), W)
            else do {
              (r, _, s, qt) \<leftarrow> sys_arch_mbox_fetch nullp (recvmbox c) (recv_timeout c) (rx_os W) (rx_qt W);
              let W = W\<lparr>rx_os := s, rx_qt := qt\<rparr>;
              Some (case r of
                      None \<Rightarrow> (None, W)
                    | Some (t, buf) \<Rightarrow>
                        if t = SYS_ARCH_TIMEOUT
                        then (Some (ERR_TIMEOUT, 0), W\<lparr>conn_at := (conn_at W)(conn := c\<lparr>conn_err := ERR_TIMEOUT\<rparr>)\<rparr>)
                        else (Some (ERR_OK, buf), W))
            })
         })"

section \<open>UDP\<close>

definition udp_input :: "u32 \<Rightarrow> 'x rx_par \<Rightarrow> netif \<Rightarrow> u32 \<Rightarrow> u32 \<Rightarrow> pbuf list \<Rightarrow> 'x rxs \<Rightarrow> 'x rxs option" where
  "udp_input nullp I inp src dst p W =
     do {
       iphdr \<leftarrow> payload_bytes 20 (hd p);
       let hl = unat (iphdr ! 0 AND 0x0F) * 4;
       let (r, h) = (if unat (pb_tot_len (hd p)) < hl + UDP_HLEN then (1, hd p) else pbuf_header (hd p) (- int hl));
       let p = h # tl p;
       (if r \<noteq> 0 then Some (low (rx_pbuf_free I p) W)
        else do {
          udphdr \<leftarrow> payload_bytes UDP_HLEN (hd p);
          let broadcast = ip4_addr_isbroadcast dst inp;
          let sport = be16_at udphdr 0;
          let dport = be16_at udphdr 2;
          let (pcb, U) = udp_demux inp src sport dst dport (udp W);
          let W = W\<lparr>udp := U\<rparr>;
          (if pcb \<noteq> None \<or> if_ip_addr inp = dst then
             (case pbuf_header (hd p) (- int UDP_HLEN) of (r, h) \<Rightarrow>
                let p = h # tl p in
                if r \<noteq> 0 then Some (low (rx_pbuf_free I p) W)
                else (case pcb of
                        Some q \<Rightarrow>
                          (case recv_arg (pcb_at U q) of
                             Some conn \<Rightarrow> recv_udp nullp I conn p src sport W
                           | None \<Rightarrow> Some (low (rx_pbuf_free I p) W))
                      | None \<Rightarrow>
                          (let p' = snd (pbuf_header (hd p) (int (hl + UDP_HLEN))) # tl p;
                               tell = \<not> broadcast \<and> \<not> ip_addr_ismulticast dst;
                               p = (if tell then p' else p);
                               W = (if tell then low (rx_dest_unreach I p ICMP_DUR_PORT) W else W)
                           in Some (low (rx_pbuf_free I p) W))))
           else Some (low (rx_pbuf_free I p) W))
        })
     }"

section \<open>IP\<close>

text \<open>The chain cut to a length, and the pbufs it loses.\<close>

fun realloc_loop :: "u16 \<Rightarrow> u16 \<Rightarrow> pbuf list \<Rightarrow> pbuf list \<times> pbuf list" where
  "realloc_loop grow rem [] = ([], [])"
| "realloc_loop grow rem (q # qs) =
     (if pb_len q < rem
      then (case realloc_loop grow (rem - pb_len q) qs of (keep, lost) \<Rightarrow> (q\<lparr>pb_tot_len := pb_tot_len q + grow\<rparr> # keep, lost))
      else ([q\<lparr>pb_len := rem, pb_tot_len := rem\<rparr>], qs))"

definition pbuf_realloc :: "'x rx_par \<Rightarrow> u16 \<Rightarrow> pbuf list \<Rightarrow> 'x rxs \<Rightarrow> pbuf list \<times> 'x rxs" where
  "pbuf_realloc I new_len p W =
     (if pb_tot_len (hd p) \<le> new_len then (p, W)
      else (case realloc_loop (new_len - pb_tot_len (hd p)) new_len p of
              (keep, lost) \<Rightarrow> (keep, if lost \<noteq> [] then low (rx_pbuf_free I lost) W else W)))"

definition netif_accepts :: "u32 \<Rightarrow> netif \<Rightarrow> bool" where
  "netif_accepts dst nif \<longleftrightarrow> if_up nif \<and> if_ip_addr nif \<noteq> 0 \<and> (dst = if_ip_addr nif \<or> ip4_addr_isbroadcast dst nif)"

text \<open>\<^verbatim>\<open>others\<close> are the interfaces of \<^verbatim>\<open>netif_list\<close> without the one the packet came in on.\<close>

definition ip_input :: "u32 \<Rightarrow> 'x rx_par \<Rightarrow> netif list \<Rightarrow> pbuf list \<Rightarrow> netif \<Rightarrow> 'x rxs \<Rightarrow> 'x rxs option" where
  "ip_input nullp I others p inp W =
     do {
       iphdr \<leftarrow> payload_bytes 20 (hd p);
       let hlen = unat (iphdr ! 0 AND 0x0F) * 4;
       let len = be16_at iphdr 2;
       (if drop_bit 4 (iphdr ! 0) \<noteq> 4 then Some (low (rx_pbuf_free I p) W)
        else if unat (pb_len (hd p)) < hlen \<or> pb_tot_len (hd p) < len then Some (low (rx_pbuf_free I p) W)
        else (let (p, W) = pbuf_realloc I len p W;
                  dst = ip_at iphdr 16;
                  src = ip_at iphdr 12;
                  netif = find (netif_accepts dst) (inp # others)
              in if ip4_addr_isbroadcast src inp \<or> ip_addr_ismulticast src then Some (low (rx_pbuf_free I p) W)
                 else if netif = None then Some (low (rx_pbuf_free I p) W)
                 else (let (whole, x) = (if be16_at iphdr 6 AND 0x3FFF \<noteq> 0 then rx_ip_reass I p (lower W) else (Some p, lower W));
                           W = W\<lparr>lower := x\<rparr>
                       in case whole of
                            None \<Rightarrow> Some W
                          | Some p \<Rightarrow>
                              do {
                                iphdr \<leftarrow> payload_bytes 20 (hd p);
                                let (eaten, x) = rx_raw_input I p inp (lower W);
                                let W = W\<lparr>lower := x\<rparr>;
                                (if eaten then Some W
                                 else if iphdr ! 9 = IP_PROTO_UDP then udp_input nullp I inp src dst p W
                                 else if iphdr ! 9 = IP_PROTO_TCP then Some (low (rx_tcp_input I p inp) W)
                                 else if iphdr ! 9 = IP_PROTO_ICMP then Some (low (rx_icmp_input I p inp) W)
                                 else (let W = (if \<not> ip4_addr_isbroadcast dst inp \<and> \<not> ip_addr_ismulticast dst
                                                then low (rx_dest_unreach I p ICMP_DUR_PROTO) W else W)
                                       in Some (low (rx_pbuf_free I p) W)))
                              })))
     }"

section \<open>Ethernet\<close>

definition ethernet_input :: "u32 \<Rightarrow> 'x rx_par \<Rightarrow> netif list \<Rightarrow> pbuf list \<Rightarrow> netif \<Rightarrow> 'x rxs \<Rightarrow> 'x rxs option" where
  "ethernet_input nullp I others p inp W =
     (if unat (pb_len (hd p)) \<le> SIZEOF_ETH_HDR then Some (low (rx_pbuf_free I p) W)
      else do {
        ethhdr \<leftarrow> payload_bytes SIZEOF_ETH_HDR (hd p);
        (if drop 12 ethhdr = ETHTYPE_IP then
           if \<not> if_etharp inp then Some (low (rx_pbuf_free I p) W)
           else (case pbuf_header (hd p) (- int SIZEOF_ETH_HDR) of (r, h) \<Rightarrow>
                   if r \<noteq> 0 then Some (low (rx_pbuf_free I (h # tl p)) W)
                   else ip_input nullp I others (h # tl p) inp W)
         else if drop 12 ethhdr = ETHTYPE_ARP then
           if \<not> if_etharp inp then Some (low (rx_pbuf_free I p) W)
           else Some (low (rx_arp_input I inp p) W)
         else Some (low (rx_pbuf_free I p) W))
      })"

section \<open>Packets of one buffer\<close>

text \<open>A packet of one pbuf whose payload is \<^verbatim>\<open>f\<close>, in a buffer of \<^verbatim>\<open>room\<close> bytes behind the payload.\<close>

definition packet :: "nat \<Rightarrow> u8 list \<Rightarrow> pbuf \<Rightarrow> bool" where
  "packet room f p \<longleftrightarrow> pb_payload p + room \<le> length (pb_mem p) \<and> length f \<le> room \<and> length f < 65536 \<and>
     take (length f) (drop (pb_payload p) (pb_mem p)) = f \<and> unat (pb_len p) = length f \<and> pb_tot_len p = pb_len p"

lemma packet_data: "packet room f p \<Longrightarrow> pbuf_data p = f"
  by (simp add: packet_def pbuf_data_def)

lemma packet_bytes_in: "packet room f p \<Longrightarrow> n \<le> room \<Longrightarrow> \<exists>h. payload_bytes n p = Some h \<and> length h = n"
  by (auto simp: packet_def payload_bytes_def)

lemma packet_bytes_take:
  assumes "packet room f p" "n \<le> length f" shows "payload_bytes n p = Some (take n f)"
proof -
  have "take n f = take n (take (length f) (drop (pb_payload p) (pb_mem p)))" using assms(1) by (simp add: packet_def)
  then show ?thesis using assms by (simp add: packet_def payload_bytes_def min_absorb1)
qed

lemma unat_minus_small:
  fixes w :: u16 assumes "k \<le> unat w" shows "unat (w + of_int (- int k)) = unat w - k"
proof -
  have "k < 65536" using assms unat_u16_bound [of w] by linarith
  then have "unat (of_nat k :: u16) = k" by (intro unat_of_nat_small) simp
  then show ?thesis using unat_sub_le [of "of_nat k" w] assms by simp
qed

lemma packet_pull:
  assumes p: "packet room f p" and k: "k \<le> length f"
  obtains h where "pbuf_header p (- int k) = (0, h)" "packet (room - k) (drop k f) h" "pb_payload h = pb_payload p + k"
proof (cases "k = 0")
  case True
  then show thesis using that [of p] p by (simp add: pbuf_header_def)
next
  case False
  let ?h = "p\<lparr>pb_payload := pb_payload p + k, pb_len := pb_len p + of_int (- int k), pb_tot_len := pb_tot_len p + of_int (- int k)\<rparr>"
  have l: "unat (pb_len p) = length f" using p by (simp add: packet_def)
  then have "int k \<le> uint (pb_len p)" using k by (simp flip: int_eq_iff add: uint_nat)
  then have "pbuf_header p (- int k) = (0, ?h)" using False by (simp add: pbuf_header_def nat_add_distrib add.commute)
  moreover have "take (length f - k) (drop k (take (length f) (drop (pb_payload p) (pb_mem p)))) = drop k f"
    using p by (simp add: packet_def)
  then have "take (length f - k) (drop (pb_payload p + k) (pb_mem p)) = drop k f"
    by (simp add: drop_take add.commute)
  then have "packet (room - k) (drop k f) ?h" using p k l unat_minus_small [of k "pb_len p"]
    by (simp add: packet_def) linarith
  ultimately show thesis using that [of ?h] by simp
qed

lemma header_hidden: "pbuf_header p (- int k) = (0, f) \<Longrightarrow> pb_payload f = pb_payload p + k \<and> pb_mem f = pb_mem p"
  by (auto simp: pbuf_header_def nat_add_distrib split: if_splits)

lemma packet_push:
  assumes p: "pb_payload p = a" "k \<le> a"
  shows "pb_payload (snd (pbuf_header p (int k))) = a - k"
  using assms by (auto simp: pbuf_header_def nat_diff_distrib)

lemma packet_cut:
  assumes p: "packet room f p" and n: "unat n \<le> length f"
  obtains h where "pbuf_realloc I n [p] W = ([h], W)" "packet room (take (unat n) f) h" "pb_payload h = pb_payload p"
proof (cases "pb_tot_len p \<le> n")
  case True
  then have "unat n = length f" using p n by (simp add: packet_def word_le_nat_alt)
  then show thesis using that [of p] True p by (simp add: pbuf_realloc_def)
next
  case False
  let ?h = "p\<lparr>pb_len := n, pb_tot_len := n\<rparr>"
  have "take (unat n) f = take (unat n) (take (length f) (drop (pb_payload p) (pb_mem p)))" using p by (simp add: packet_def)
  then have t: "take (unat n) (drop (pb_payload p) (pb_mem p)) = take (unat n) f" using n by (simp add: min_absorb1)
  have "length (take (unat n) f) = unat n" using n by simp
  then have "packet room (take (unat n) f) ?h" using p n t unfolding packet_def by auto
  moreover have "\<not> pb_len p < n" using False p by (simp add: packet_def)
  then have "pbuf_realloc I n [p] W = ([?h], W)" using False by (simp add: pbuf_realloc_def)
  ultimately show thesis using that [of ?h] by simp
qed

section \<open>Headers read back\<close>

lemma be16_at_bytes: "i + 1 < length h \<Longrightarrow> h ! i = hi8 w \<Longrightarrow> h ! (i + 1) = lo8 w \<Longrightarrow> be16_at h i = w"
  by (simp add: be16_at_def hi8_def lo8_def of_le16_le16)

lemma ip_at_bytes:
  assumes "h ! i = ucast a" "h ! (i + 1) = ucast (drop_bit 8 a)" "h ! (i + 2) = ucast (drop_bit 16 a)" "h ! (i + 3) = ucast (drop_bit 24 a)"
  shows "ip_at h i = a"
proof (rule bit_word_eqI)
  fix n assume "n < LENGTH(32)"
  then show "bit (ip_at h i) n = bit a n"
    unfolding ip_at_def assms
    by (cases "n < 8"; cases "n < 16"; cases "n < 24") (auto simp: bit_or_iff bit_push_bit_iff bit_ucast_iff bit_drop_bit_eq)
qed

lemma ip_header_fields:
  assumes "h = ip_header n ident tos ttl proto src dst"
  shows "length h = 20" "h ! 0 = 0x45" "be16_at h 2 = n" "be16_at h 6 = 0" "h ! 9 = proto" "ip_at h 12 = src" "ip_at h 16 = dst"
  unfolding assms
  by (simp_all add: ip_header_def be_bytes_def ip_bytes_def be16_at_def hi8_def lo8_def of_le16_le16 ip_at_bytes)
    (simp add: of_le16_def)

lemma udp_header_fields:
  assumes "h = udp_header sport dport (be_bytes n)"
  shows "length h = 8" "be16_at h 0 = sport" "be16_at h 2 = dport"
  unfolding assms by (simp_all add: udp_header_def be_bytes_def be16_at_def hi8_def lo8_def of_le16_le16)

section \<open>What every received packet leads to\<close>

lemma low_sel [simp]:
  "udp (low f W) = udp W" "pool_netbuf (low f W) = pool_netbuf W" "netbuf_at (low f W) = netbuf_at W"
  "conn_at (low f W) = conn_at W" "rx_os (low f W) = rx_os W" "rx_qt (low f W) = rx_qt W" "lower (low f W) = f (lower W)"
  by (simp_all add: low_def)

definition mbox_ok :: "os \<Rightarrow> nat option \<Rightarrow> bool" where
  "mbox_ok s pQ \<longleftrightarrow> (\<exists>e. pQ = Some e \<and> e < length (OSEvents s) \<and> OSEventType (OSEvents s ! e) = OS_EVENT_TYPE_Q)"

definition rx_ok :: "u32 list \<Rightarrow> 'x rxs \<Rightarrow> bool" where
  "rx_ok all W \<longleftrightarrow> udp_ok all (udp W) \<and> 0 \<notin> set (pool_netbuf W) \<and> stable (rx_os W) \<and> q_inv (rx_os W) (rx_qt W) \<and>
     (\<forall>q\<in>set (udp_pcbs (udp W)). \<forall>conn. recv_arg (pcb_at (udp W) q) = Some conn \<longrightarrow> mbox_ok (rx_os W) (recvmbox (conn_at W conn)))"

text \<open>The hand-overs at the border of the model are recorded: which packet is freed, given to ARP, to the
  reassembly, to a raw connection, to TCP or to ICMP, or reported as unreachable (which keeps it).  \<^verbatim>\<open>raw\<close> says
  which packets a raw connection takes.  The reassembly gives nothing back here.\<close>

datatype rx_event =
    Freed "pbuf list"
  | To_Arp "pbuf list"
  | To_Reass "pbuf list"
  | To_Raw "pbuf list"
  | To_Tcp "pbuf list"
  | To_Icmp "pbuf list"
  | Reported "pbuf list" u8

fun handed :: "rx_event \<Rightarrow> pbuf list option" where
  "handed (Freed p) = Some p"
| "handed (To_Arp p) = Some p"
| "handed (To_Reass p) = Some p"
| "handed (To_Raw p) = Some p"
| "handed (To_Tcp p) = Some p"
| "handed (To_Icmp p) = Some p"
| "handed (Reported p c) = None"

definition recording :: "(pbuf list \<Rightarrow> netif \<Rightarrow> bool) \<Rightarrow> rx_event list rx_par" where
  "recording raw = \<lparr>rx_pbuf_free = \<lambda>p x. x @ [Freed p], rx_arp_input = \<lambda>inp p x. x @ [To_Arp p],
     rx_ip_reass = \<lambda>p x. (None, x @ [To_Reass p]),
     rx_raw_input = \<lambda>p inp x. if raw p inp then (True, x @ [To_Raw p]) else (False, x),
     rx_tcp_input = \<lambda>p inp x. x @ [To_Tcp p], rx_icmp_input = \<lambda>p inp x. x @ [To_Icmp p],
     rx_dest_unreach = \<lambda>p c x. x @ [Reported p c]\<rparr>"

lemma recording_sel [simp]:
  "rx_pbuf_free (recording raw) p x = x @ [Freed p]" "rx_arp_input (recording raw) inp p x = x @ [To_Arp p]"
  "rx_ip_reass (recording raw) p x = (None, x @ [To_Reass p])"
  "rx_raw_input (recording raw) p inp x = (if raw p inp then (True, x @ [To_Raw p]) else (False, x))"
  "rx_tcp_input (recording raw) p inp x = x @ [To_Tcp p]" "rx_icmp_input (recording raw) p inp x = x @ [To_Icmp p]"
  "rx_dest_unreach (recording raw) p c x = x @ [Reported p c]"
  by (simp_all add: recording_def)

text \<open>The packet in the buffer \<^verbatim>\<open>m\<close> was handed over, once and last, and the pool is as before; or a \<^verbatim>\<open>netbuf\<close> taken from
  the pool holds it, and nothing was handed over.\<close>

definition handled :: "u8 list \<Rightarrow> rx_event list rxs \<Rightarrow> rx_event list rxs \<Rightarrow> bool" where
  "handled m W W' \<longleftrightarrow>
     (\<exists>reports ev g. lower W' = lower W @ reports @ [ev] \<and> set reports \<subseteq> {r. handed r = None} \<and> handed ev = Some [g] \<and> pb_mem g = m \<and>
        length (pool_netbuf W') = length (pool_netbuf W)) \<or>
     (\<exists>buf g. lower W' = lower W \<and> pool_netbuf W = buf # pool_netbuf W' \<and> nb_p (netbuf_at W' buf) = [g] \<and> pb_mem g = m)"

lemma rx_ok_low [simp]: "rx_ok all (low f W) = rx_ok all W" "rx_ok all (W\<lparr>lower := l\<rparr>) = rx_ok all W"
  by (simp_all add: rx_ok_def)

lemma handled_last:
  "lower W' = lower W @ [ev] \<Longrightarrow> handed ev = Some [g] \<Longrightarrow> pb_mem g = m \<Longrightarrow> length (pool_netbuf W') = length (pool_netbuf W) \<Longrightarrow>
     handled m W W'"
  unfolding handled_def by (rule disjI1) (intro exI [where x = "[]"] exI [where x = ev] exI [where x = g], simp)

lemma handled_report:
  "lower W' = lower W @ [r, ev] \<Longrightarrow> handed r = None \<Longrightarrow> handed ev = Some [g] \<Longrightarrow> pb_mem g = m \<Longrightarrow>
     length (pool_netbuf W') = length (pool_netbuf W) \<Longrightarrow> handled m W W'"
  unfolding handled_def by (rule disjI1) (intro exI [where x = "[r]"] exI [where x = ev] exI [where x = g], simp)

lemma handled_kept:
  "lower W' = lower W \<Longrightarrow> pool_netbuf W = buf # pool_netbuf W' \<Longrightarrow> nb_p (netbuf_at W' buf) = [g] \<Longrightarrow> pb_mem g = m \<Longrightarrow> handled m W W'"
  unfolding handled_def by blast

lemma header_mem: "pbuf_header p k = (r, q) \<Longrightarrow> pb_mem q = pb_mem p"
  by (auto simp: pbuf_header_def split: if_splits)

lemma realloc_mem: "pbuf_realloc I n [p] W = ([q], W') \<Longrightarrow> pb_mem q = pb_mem p"
  by (auto simp: pbuf_realloc_def split: if_splits)

lemma OSQPost_types:
  assumes st: "stable s" and q: "q_inv s qt" and m: "mbox_ok s (Some e)"
  shows "\<exists>r s' qt'. OSQPost e v s qt = Some (r, s', qt') \<and> stable s' \<and> q_inv s' qt' \<and> (\<forall>pQ. mbox_ok s pQ \<longrightarrow> mbox_ok s' pQ)"
proof -
  have e: "e < length (OSEvents s)" "OSEventType (OSEvents s ! e) = OS_EVENT_TYPE_Q" using m by (simp_all add: mbox_ok_def)
  have k: "kernel_ok s" using st by (simp add: stable_def)
  obtain r s' qt' where r: "OSQPost e v s qt = Some (r, s', qt')" "good {} s s'" "q_inv s' qt'"
    using OSQPost_ok [OF st q e(1)] by blast
  have "(OSEvents s' = OSEvents s) \<or> (\<exists>i. OSEvents s' = OSEvents (wake i e v OS_STAT_Q OS_STAT_PEND_OK s))"
  proof (cases "waits s e = {}")
    case True
    obtain j where "the_q e s qt = Some j" using q_invD [OF q e] by metis
    from q_call_deque [OF k q e True this, of "QPost v"] show ?thesis using r(1) by auto
  next
    case False
    obtain i p s1 where s1: "OS_EventTaskRdy e v OS_STAT_Q OS_STAT_PEND_OK s = Some (p, wake i e v OS_STAT_Q OS_STAT_PEND_OK s)"
      "OS_Sched (wake i e v OS_STAT_Q OS_STAT_PEND_OK s) = Some s1" "switched (wake i e v OS_STAT_Q OS_STAT_PEND_OK s) s1"
      using wake_sched [OF st e(1) False] e(2) by (metis queue_bit)
    then have "s' = s1" using r(1) e(2) False group_waits [OF k e(1)] by (simp add: OSQPost_def)
    then show ?thesis using switchedD(6) [OF s1(3)] by auto
  qed
  then have t: "OSEventType (OSEvents s' ! d) = OSEventType (OSEvents s ! d)" for d
    by (auto simp: wake_type)
  have "length (OSEvents s') = length (OSEvents s)" using r(2) by (simp add: good_def quiet_def)
  then show ?thesis using r t by (auto simp: good_def mbox_ok_def)
qed

lemma recv_udp_ok:
  assumes ok: "rx_ok all W" and m: "mbox_ok (rx_os W) (recvmbox (conn_at W conn))" and p: "pb_mem p = m0"
  shows "\<exists>W'. recv_udp nullp (recording raw) conn [p] addr port W = Some W' \<and> rx_ok all W' \<and> handled m0 W W'"
proof -
  obtain e where e: "recvmbox (conn_at W conn) = Some e" "e < length (OSEvents (rx_os W))" "OSEventType (OSEvents (rx_os W) ! e) = OS_EVENT_TYPE_Q"
    using m by (auto simp: mbox_ok_def)
  have q: "q_inv (rx_os W) (rx_qt W)" "stable (rx_os W)" "0 \<notin> set (pool_netbuf W)" using ok by (simp_all add: rx_ok_def)
  obtain j where "the_q e (rx_os W) (rx_qt W) = Some j" using q_invD [OF q(1) e(2,3)] by metis
  note valid = mbox_valid [OF q(1) e(2,3) this, of nullp]
  have free: "handled m0 W (low (\<lambda>x. x @ [Freed [p]]) W)" using p by (intro handled_last [where ev = "Freed [p]" and g = p]) simp_all
  show ?thesis
  proof (cases "length (mbox_list nullp j (rx_qt W)) < q_cap (OSQTbl (rx_qt W) ! j) \<and> pool_netbuf W \<noteq> []")
    case False
    then show ?thesis using valid e(1) free ok by (auto simp: recv_udp_def memp_malloc_def low_def split: list.splits)
  next
    case True
    then obtain buf pool where b: "pool_netbuf W = buf # pool" by (cases "pool_netbuf W") auto
    have b0: "buf \<noteq> 0" using q(3) b by auto
    let ?W = "W\<lparr>pool_netbuf := pool, netbuf_at := (netbuf_at W)(buf := \<lparr>nb_p = [p], nb_addr = addr, nb_port = port\<rparr>)\<rparr>"
    obtain r s' qt' where r: "OSQPost e (to_queue nullp buf) (rx_os W) (rx_qt W) = Some (r, s', qt')" "stable s'" "q_inv s' qt'"
      "\<forall>pQ. mbox_ok (rx_os W) pQ \<longrightarrow> mbox_ok s' pQ"
      using OSQPost_types [OF q(2,1) m [unfolded e(1)], of "to_queue nullp buf"] by blast
    let ?V = "?W\<lparr>rx_os := s', rx_qt := qt'\<rparr>"
    have "recv_udp nullp (recording raw) conn [p] addr port W = Some (if r \<noteq> OS_ERR_NONE then netbuf_free_rx (recording raw) buf ?V else ?V)"
      using valid True e(1) b b0 r(1) by (simp add: recv_udp_def memp_malloc_def sys_mbox_trypost_def ERR_MEM_def ERR_OK_def)
    moreover have "rx_ok all ?V" using ok r(2-4) b by (auto simp: rx_ok_def)
    moreover have "rx_ok all (netbuf_free_rx (recording raw) buf ?V)"
      using ok r(2-4) b b0 by (auto simp: rx_ok_def netbuf_free_rx_def memp_free_def)
    moreover have "handled m0 W ?V" using b p by (intro handled_kept [where buf = buf and g = p]) simp_all
    moreover have "handled m0 W (netbuf_free_rx (recording raw) buf ?V)"
      using b b0 p by (intro handled_last [where ev = "Freed [p]" and g = p]) (simp_all add: netbuf_free_rx_def memp_free_def)
    ultimately show ?thesis by auto
  qed
qed

lemma udp_chosen_in:
  assumes "udp_chosen inp src sport dst dport U = Some q"
  shows "q \<in> set (udp_pcbs U)"
proof (cases "find (\<lambda>p. udp_local_match inp dst dport (pcb_at U p) \<and> udp_remote_match src sport (pcb_at U p)) (udp_pcbs U)")
  case None
  then have "find (\<lambda>p. udp_local_match inp dst dport (pcb_at U p) \<and> unconnected (pcb_at U p)) (udp_pcbs U) = Some q"
    using assms by (simp add: udp_chosen_def)
  then show ?thesis using find_mem by fast
next
  case (Some r)
  then have "r = q" using assms by (simp add: udp_chosen_def)
  then show ?thesis using find_mem [OF Some] by simp
qed

lemma udp_demux_rx_ok:
  assumes ok: "rx_ok all W" and d: "udp_demux inp src sport dst dport (udp W) = (pcb, U)"
  shows "rx_ok all (W\<lparr>udp := U\<rparr>)" "\<And>q. pcb = Some q \<Longrightarrow> q \<in> set (udp_pcbs U)"
proof -
  note K = udp_demux_keeps [OF d]
  show "rx_ok all (W\<lparr>udp := U\<rparr>)" using ok udp_demux_ok [OF _ d] K by (simp add: rx_ok_def)
  have "pcb = udp_chosen inp src sport dst dport (udp W)" using d by (simp add: udp_demux_eq)
  then show "q \<in> set (udp_pcbs U)" if "pcb = Some q" for q
    using that udp_chosen_in [of inp src sport dst dport "udp W" q] K(1) by simp
qed

lemma handled_udp: "handled m (W\<lparr>udp := U\<rparr>) W' = handled m W W'"
  by (simp add: handled_def)

lemma udp_input_ok:
  assumes ok: "rx_ok all W" and p: "payload_bytes 68 p \<noteq> None" "pb_mem p = m"
  shows "\<exists>W'. udp_input nullp (recording raw) inp src dst [p] W = Some W' \<and> rx_ok all W' \<and> handled m W W'"
proof -
  have room: "pb_payload p + 68 \<le> length (pb_mem p)" using p(1) by (simp add: payload_bytes_def split: if_splits)
  then obtain hd20 where h: "payload_bytes 20 p = Some hd20" by (simp add: payload_bytes_def)
  let ?hl = "unat (hd20 ! 0 AND 0x0F) * 4"
  have "hd20 ! 0 AND 0x0F \<le> 0x0F" by (rule word_and_le1)
  then have hl: "?hl \<le> 60" by (simp add: word_le_nat_alt)
  have free: "handled m V (low (\<lambda>x. x @ [Freed [q]]) V)" if "pb_mem q = m" for q V
    using that by (intro handled_last [where ev = "Freed [q]" and g = q]) simp_all
  obtain r f where rf: "(if unat (pb_tot_len p) < ?hl + UDP_HLEN then (1, p) else pbuf_header p (- int ?hl)) = (r, f)"
    by fastforce
  have fm: "pb_mem f = m" using rf p(2) header_mem by (fastforce split: if_splits)
  show ?thesis
  proof (cases "r = 0")
    case False
    then show ?thesis using h rf ok free [OF fm] by (auto simp: udp_input_def Let_def low_def)
  next
    case True
    then have pf: "pbuf_header p (- int ?hl) = (0, f)" "\<not> unat (pb_tot_len p) < ?hl + UDP_HLEN" using rf by (auto split: if_splits)
    then have "pb_payload f \<le> pb_payload p + 60" "pb_mem f = pb_mem p"
      using header_hidden hl by fastforce+
    then obtain u where u: "payload_bytes 8 f = Some u" using room by (simp add: payload_bytes_def)
    obtain pcb U where d: "udp_demux inp src (be16_at u 0) dst (be16_at u 2) (udp W) = (pcb, U)" by fastforce
    note D = udp_demux_rx_ok [OF ok d]
    let ?W = "W\<lparr>udp := U\<rparr>"
    obtain r2 g where g: "pbuf_header f (- int 8) = (r2, g)" by fastforce
    have gm: "pb_mem g = m" "pb_mem (snd (pbuf_header g k)) = m" for k
      using header_mem [OF g] fm header_mem [of g k] by (simp, metis prod.collapse)
    note base = h pf u d g
    have recv: "\<exists>W'. recv_udp nullp (recording raw) conn [q] src sport ?W = Some W' \<and> rx_ok all W' \<and> handled m W W'"
      if "recv_arg (pcb_at U pc) = Some conn" "pcb = Some pc" "pb_mem q = m" for conn q sport pc
    proof -
      have "mbox_ok (rx_os ?W) (recvmbox (conn_at ?W conn))" using D(1) D(2) [OF that(2)] that(1) by (auto simp: rx_ok_def)
      from recv_udp_ok [OF D(1) this that(3), of nullp raw src sport] show ?thesis by (simp add: handled_udp)
    qed
    have free2: "handled m W (low (\<lambda>x. x @ [Freed [q]]) ?W)" if "pb_mem q = m" for q using free [OF that, of ?W] by (simp add: handled_udp)
    have tell: "handled m W (low (\<lambda>x. x @ [Freed [q]]) (low (\<lambda>x. x @ [Reported [q] c]) ?W))" if "pb_mem q = m" for q c
      using that by (intro handled_report [where r = "Reported [q] c" and ev = "Freed [q]" and g = q]) simp_all
    show ?thesis
    proof (cases "pcb \<noteq> None \<or> if_ip_addr inp = dst")
      case False
      then show ?thesis using base D(1) free2 [OF fm] by (simp add: udp_input_def Let_def UDP_HLEN_def low_def)
    next
      case mine: True
      show ?thesis
      proof (cases "r2 = 0")
        case False
        then show ?thesis using base mine D(1) free2 [OF gm(1)] by (simp add: udp_input_def Let_def UDP_HLEN_def low_def)
      next
        case r2: True
        show ?thesis
        proof (cases pcb)
          case None
          then show ?thesis
            using base mine r2 D(1) free2 [OF gm(1)] tell [OF gm(2)] by (auto simp: udp_input_def Let_def UDP_HLEN_def low_def)
        next
          case (Some pc)
          then show ?thesis
            using base r2 D(1) recv [OF _ Some gm(1)] free2 [OF gm(1)]
            by (auto simp: udp_input_def Let_def UDP_HLEN_def low_def split: option.splits)
        qed
      qed
    qed
  qed
qed

lemma ip_input_ok:
  assumes ok: "rx_ok all W" and p: "packet room f p" "68 \<le> room" "pb_mem p = m"
  shows "\<exists>W'. ip_input nullp (recording raw) others [p] inp W = Some W' \<and> rx_ok all W' \<and> handled m W W'"
proof -
  let ?I = "recording raw"
  obtain h where h: "payload_bytes 20 p = Some h" using packet_bytes_in [OF p(1), of 20] p(2) by auto
  have last: "handled m W (low (\<lambda>x. x @ [ev]) W)" if "handed ev = Some [q]" "pb_mem q = m" for ev q
    using that by (intro handled_last [where ev = ev and g = q]) simp_all
  show ?thesis
  proof (cases "drop_bit 4 (h ! 0) \<noteq> 4 \<or> unat (pb_len p) < unat (h ! 0 AND 0x0F) * 4 \<or> pb_tot_len p < be16_at h 2")
    case True
    then have "ip_input nullp ?I others [p] inp W = Some (low (\<lambda>x. x @ [Freed [p]]) W)"
      using h by (auto simp: ip_input_def Let_def low_def)
    then show ?thesis using ok last [of "Freed [p]" p] p(3) by simp
  next
    case False
    have fits: "drop_bit 4 (h ! 0) = 4" "\<not> unat (pb_len p) < unat (h ! 0 AND 0x0F) * 4" "\<not> pb_tot_len p < be16_at h 2"
      using False by simp_all
    have "unat (be16_at h 2) \<le> length f" using False p(1) by (simp add: packet_def word_le_nat_alt linorder_not_less)
    from packet_cut [OF p(1) this, of ?I W] obtain q where q: "pbuf_realloc ?I (be16_at h 2) [p] W = ([q], W)"
      "packet room (take (unat (be16_at h 2)) f) q" by blast
    have qm: "pb_mem q = m" using realloc_mem [OF q(1)] p(3) by simp
    have q68: "payload_bytes 68 q \<noteq> None" using packet_bytes_in [OF q(2) p(2)] by auto
    let ?n = "find (netif_accepts (ip_at h 16)) (inp # others)"
    show ?thesis
    proof (cases "ip4_addr_isbroadcast (ip_at h 12) inp \<or> ip_addr_ismulticast (ip_at h 12) \<or> ?n = None")
      case True
      then have "ip_input nullp ?I others [p] inp W = Some (low (\<lambda>x. x @ [Freed [q]]) W)"
        using h q(1) fits by (auto simp: ip_input_def Let_def low_def simp del: find.simps)
      then show ?thesis using ok last [of "Freed [q]" q] qm by simp
    next
      case False
      note acc = False
      obtain nif where nif: "?n = Some nif" using acc by blast
      have src: "\<not> ip4_addr_isbroadcast (ip_at h 12) inp" "\<not> ip_addr_ismulticast (ip_at h 12)" using acc by simp_all
      note base = h q(1) fits src nif
      show ?thesis
      proof (cases "be16_at h 6 AND 0x3FFF \<noteq> 0")
        case True
        then have "ip_input nullp ?I others [p] inp W = Some (low (\<lambda>x. x @ [To_Reass [q]]) W)"
          using base by (simp add: ip_input_def Let_def low_def del: find.simps)
        then show ?thesis using ok last [of "To_Reass [q]" q] qm by simp
      next
        case whole: False
        obtain h2 where h2: "payload_bytes 20 q = Some h2" using q68 by (auto simp: payload_bytes_def split: if_splits)
        obtain V where V: "udp_input nullp ?I inp (ip_at h 12) (ip_at h 16) [q] W = Some V" "rx_ok all V" "handled m W V"
          using udp_input_ok [OF ok q68 qm] by blast
        let ?tell = "\<not> ip4_addr_isbroadcast (ip_at h 16) inp \<and> \<not> ip_addr_ismulticast (ip_at h 16)"
        have eq: "ip_input nullp ?I others [p] inp W =
            (if raw [q] inp then Some (low (\<lambda>x. x @ [To_Raw [q]]) W)
             else if h2 ! 9 = IP_PROTO_UDP then Some V
             else if h2 ! 9 = IP_PROTO_TCP then Some (low (\<lambda>x. x @ [To_Tcp [q]]) W)
             else if h2 ! 9 = IP_PROTO_ICMP then Some (low (\<lambda>x. x @ [To_Icmp [q]]) W)
             else if ?tell then Some (low (\<lambda>x. x @ [Reported [q] ICMP_DUR_PROTO, Freed [q]]) W)
             else Some (low (\<lambda>x. x @ [Freed [q]]) W))"
          using base whole h2 V(1) by (simp add: ip_input_def Let_def low_def del: find.simps)
        have "handled m W (low (\<lambda>x. x @ [Reported [q] ICMP_DUR_PROTO, Freed [q]]) W)"
          using qm by (intro handled_report [where r = "Reported [q] ICMP_DUR_PROTO" and ev = "Freed [q]" and g = q]) simp_all
        then show ?thesis
          using ok V(2,3) last [of "To_Raw [q]" q] last [of "To_Tcp [q]" q] last [of "To_Icmp [q]" q] last [of "Freed [q]" q] qm
          unfolding eq by simp
      qed
    qed
  qed
qed

lemma ethernet_input_ok:
  assumes ok: "rx_ok all W" and p: "packet room f p" "82 \<le> room" "pb_mem p = m"
  shows "\<exists>W'. ethernet_input nullp (recording raw) others [p] inp W = Some W' \<and> rx_ok all W' \<and> handled m W W'"
proof -
  have last: "handled m W (low (\<lambda>x. x @ [ev]) W)" if "handed ev = Some [p]" for ev
    using that p(3) by (intro handled_last [where ev = ev and g = p]) simp_all
  obtain h where h: "payload_bytes 14 p = Some h" using packet_bytes_in [OF p(1), of 14] p(2) by auto
  show ?thesis
  proof (cases "unat (pb_len p) \<le> 14")
    case True
    then show ?thesis using ok last [of "Freed [p]"] by (simp add: ethernet_input_def SIZEOF_ETH_HDR_def low_def)
  next
    case False
    then have "14 \<le> length f" using p(1) by (simp add: packet_def)
    from packet_pull [OF p(1) this] obtain g where g: "pbuf_header p (- int 14) = (0, g)" "packet (room - 14) (drop 14 f) g" by blast
    have g68: "68 \<le> room - 14" "pb_mem g = m" using p(2,3) header_mem [OF g(1)] by simp_all
    obtain W' where W': "ip_input nullp (recording raw) others [g] inp W = Some W'" "rx_ok all W'" "handled m W W'"
      using ip_input_ok [OF ok g(2) g68] by blast
    have "ethernet_input nullp (recording raw) others [p] inp W =
        (if drop 12 h = ETHTYPE_IP \<and> if_etharp inp then Some W'
         else if drop 12 h = ETHTYPE_ARP \<and> if_etharp inp then Some (low (\<lambda>x. x @ [To_Arp [p]]) W)
         else Some (low (\<lambda>x. x @ [Freed [p]]) W))"
      using False h g(1) W'(1) by (auto simp: ethernet_input_def SIZEOF_ETH_HDR_def low_def ETHTYPE_IP_def ETHTYPE_ARP_def)
    then show ?thesis using ok W'(2,3) last [of "To_Arp [p]"] last [of "Freed [p]"] by simp
  qed
qed

section \<open>A datagram of another host\<close>

text \<open>The connection's mailbox is valid, nobody waits on it, and it has room.\<close>

definition conn_ready :: "u32 \<Rightarrow> nat \<Rightarrow> nat \<Rightarrow> nat \<Rightarrow> 'x rxs \<Rightarrow> bool" where
  "conn_ready nullp conn e k W \<longleftrightarrow> recvmbox (conn_at W conn) = Some e \<and> kernel_ok (rx_os W) \<and> q_inv (rx_os W) (rx_qt W) \<and>
     e < length (OSEvents (rx_os W)) \<and> OSEventType (OSEvents (rx_os W) ! e) = OS_EVENT_TYPE_Q \<and> waits (rx_os W) e = {} \<and>
     the_q e (rx_os W) (rx_qt W) = Some k \<and> length (mbox_list nullp k (rx_qt W)) < q_cap (OSQTbl (rx_qt W) ! k)"

lemma recv_udp_queues:
  assumes c: "conn_ready nullp conn e k W" and b: "pool_netbuf W = buf # pool" "buf \<noteq> 0" "buf \<noteq> nullp"
  obtains qt' where "recv_udp nullp I conn p addr port W = Some (W\<lparr>pool_netbuf := pool,
      netbuf_at := (netbuf_at W)(buf := \<lparr>nb_p = p, nb_addr = addr, nb_port = port\<rparr>), rx_qt := qt'\<rparr>)"
    "q_inv (rx_os W) qt'" "the_q e (rx_os W) qt' = Some k" "mbox_list nullp k qt' = mbox_list nullp k (rx_qt W) @ [buf]"
    "q_cap (OSQTbl qt' ! k) = q_cap (OSQTbl (rx_qt W) ! k)"
proof -
  have c': "recvmbox (conn_at W conn) = Some e" "kernel_ok (rx_os W)" "q_inv (rx_os W) (rx_qt W)" "e < length (OSEvents (rx_os W))"
    "OSEventType (OSEvents (rx_os W) ! e) = OS_EVENT_TYPE_Q" "waits (rx_os W) e = {}" "the_q e (rx_os W) (rx_qt W) = Some k"
    "length (mbox_list nullp k (rx_qt W)) < q_cap (OSQTbl (rx_qt W) ! k)"
    using c by (simp_all add: conn_ready_def)
  obtain qt' where qt: "sys_mbox_trypost nullp (Some e) buf (rx_os W) (rx_qt W) = Some (ERR_OK, rx_os W, qt')" "q_inv (rx_os W) qt'"
    "the_q e (rx_os W) qt' = Some k" "mbox_list nullp k qt' = mbox_list nullp k (rx_qt W) @ [buf]"
    "q_cap (OSQTbl qt' ! k) = q_cap (OSQTbl (rx_qt W) ! k)"
    using trypost_list [OF c'(2-7) b(2,3) c'(8)] by blast
  have "sys_mbox_valid (Some e) (rx_os W) (rx_qt W) = Some True"
    using mbox_valid [OF c'(3-5,7), of nullp] c'(8) by simp
  then have "recv_udp nullp I conn p addr port W = Some (W\<lparr>pool_netbuf := pool,
      netbuf_at := (netbuf_at W)(buf := \<lparr>nb_p = p, nb_addr = addr, nb_port = port\<rparr>), rx_qt := qt'\<rparr>)"
    using c'(1) b qt(1) by (simp add: recv_udp_def memp_malloc_def)
  then show thesis using that [of qt'] qt(2-5) by blast
qed

text \<open>A host whose interface is \<^verbatim>\<open>nif\<close> and whose connection is \<^verbatim>\<open>snd\<close> can reach the connection \<^verbatim>\<open>conn\<close>.\<close>

definition reaches :: "netif \<Rightarrow> udp_pcb \<Rightarrow> netif \<Rightarrow> udps \<Rightarrow> nat \<Rightarrow> bool" where
  "reaches nif peer inp U conn \<longleftrightarrow>
     length (if_hwaddr nif) = 6 \<and> remote_ip peer = if_ip_addr inp \<and> if_up inp \<and> if_etharp inp \<and>
     if_ip_addr inp \<noteq> 0 \<and> NOT (if_ip_addr inp) \<noteq> 0 \<and>
     \<not> ip4_addr_isbroadcast (if_ip_addr nif) inp \<and> \<not> ip_addr_ismulticast (if_ip_addr nif) \<and>
     (\<exists>q\<in>set (udp_pcbs U). recv_arg (pcb_at U q) = Some conn \<and> local_port (pcb_at U q) = remote_port peer \<and>
        (local_ip (pcb_at U q) = 0 \<or> local_ip (pcb_at U q) = if_ip_addr inp) \<and>
        (udp_remote_match (if_ip_addr nif) (local_port peer) (pcb_at U q) \<or> unconnected (pcb_at U q)))"

lemma reaches_demux:
  assumes ok: "udp_ok all U" and r: "reaches nif peer inp U conn"
  obtains q U' where "udp_demux inp (if_ip_addr nif) (local_port peer) (if_ip_addr inp) (remote_port peer) U = (Some q, U')"
    "recv_arg (pcb_at U' q) = Some conn" "pcb_at U' = pcb_at U" "set (udp_pcbs U') = set (udp_pcbs U)" "udp_ok all U'"
proof -
  obtain q where q: "q \<in> set (udp_pcbs U)" "recv_arg (pcb_at U q) = Some conn" "local_port (pcb_at U q) = remote_port peer"
    "local_ip (pcb_at U q) = 0 \<or> local_ip (pcb_at U q) = if_ip_addr inp"
    "udp_remote_match (if_ip_addr nif) (local_port peer) (pcb_at U q) \<or> unconnected (pcb_at U q)"
    using r unfolding reaches_def by blast
  have nb: "\<not> ip4_addr_isbroadcast (if_ip_addr inp) inp" using r by (simp add: reaches_def ip4_addr_isbroadcast_def)
  then have m: "udp_local_match inp (if_ip_addr inp) (remote_port peer) (pcb_at U q)"
    using q(3,4) by (auto simp: udp_local_match_def Let_def)
  obtain U' where d: "udp_demux inp (if_ip_addr nif) (local_port peer) (if_ip_addr inp) (remote_port peer) U = (Some q, U')"
    using udp_chosen_unique [OF ok q(1) m nb, of "if_ip_addr nif" "local_port peer"] q(5) by (simp add: udp_demux_eq)
  show thesis
    using that [OF d] q(2) udp_demux_keeps [OF d] udp_demux_ok [OF ok d] by simp
qed

lemma udp_input_delivers:
  assumes ok: "udp_ok all (udp W)" and r: "reaches nif peer inp (udp W) conn" and c: "conn_ready nullp conn e k W"
    and b: "pool_netbuf W = buf # pool" "buf \<noteq> 0" "buf \<noteq> nullp"
    and f: "f = ip_header n ident tos ttl proto (if_ip_addr nif) (if_ip_addr inp) @
              udp_header (local_port peer) (remote_port peer) (be_bytes l) @ d"
    and p: "packet room f p"
  shows "\<exists>W' g qt'. udp_input nullp I inp (if_ip_addr nif) (if_ip_addr inp) [p] W = Some W' \<and> udp_ok all (udp W') \<and>
     set (udp_pcbs (udp W')) = set (udp_pcbs (udp W)) \<and> pcb_at (udp W') = pcb_at (udp W) \<and>
     pbuf_data g = d \<and> netbuf_at W' = (netbuf_at W)(buf := \<lparr>nb_p = [g], nb_addr = if_ip_addr nif, nb_port = local_port peer\<rparr>) \<and>
     rx_os W' = rx_os W \<and> rx_qt W' = qt' \<and> q_inv (rx_os W) qt' \<and> the_q e (rx_os W) qt' = Some k \<and>
     mbox_list nullp k qt' = mbox_list nullp k (rx_qt W) @ [buf] \<and> q_cap (OSQTbl qt' ! k) = q_cap (OSQTbl (rx_qt W) ! k) \<and>
     pool_netbuf W' = pool \<and> conn_at W' = conn_at W \<and> lower W' = lower W"
proof -
  let ?h = "ip_header n ident tos ttl proto (if_ip_addr nif) (if_ip_addr inp)"
  let ?u = "udp_header (local_port peer) (remote_port peer) (be_bytes l)"
  note H = ip_header_fields [OF refl, of n ident tos ttl proto "if_ip_addr nif" "if_ip_addr inp"]
  note UH = udp_header_fields [OF refl, of "local_port peer" "remote_port peer" l]
  have len: "20 \<le> length f" "length f = 28 + length d" using H(1) UH(1) by (simp_all add: f)
  have h: "payload_bytes 20 p = Some ?h" using packet_bytes_take [OF p len(1)] H(1) by (simp add: f)
  have hl: "unat (?h ! 0 AND 0x0F) * 4 = 20" using H(2) by simp
  have long: "\<not> unat (pb_tot_len p) < 20 + UDP_HLEN" using p len by (simp add: packet_def UDP_HLEN_def)
  obtain p1 where p1: "pbuf_header p (- int 20) = (0, p1)" "packet (room - 20) (?u @ d) p1"
    using packet_pull [OF p len(1)] H(1) by (auto simp: f)
  have u: "payload_bytes 8 p1 = Some ?u" using packet_bytes_take [OF p1(2), of 8] UH(1) by simp
  obtain p2 where p2: "pbuf_header p1 (- int 8) = (0, p2)" "packet (room - 20 - 8) d p2"
    using packet_pull [OF p1(2), of 8] UH(1) by auto
  obtain q U' where q: "udp_demux inp (if_ip_addr nif) (local_port peer) (if_ip_addr inp) (remote_port peer) (udp W) = (Some q, U')"
    "recv_arg (pcb_at U' q) = Some conn" "pcb_at U' = pcb_at (udp W)" "set (udp_pcbs U') = set (udp_pcbs (udp W))" "udp_ok all U'"
    using reaches_demux [OF ok r] by blast
  let ?W = "W\<lparr>udp := U'\<rparr>"
  have c': "conn_ready nullp conn e k ?W" using c by (simp add: conn_ready_def)
  have b': "pool_netbuf ?W = buf # pool" using b(1) by simp
  obtain qt' where qt: "recv_udp nullp I conn [p2] (if_ip_addr nif) (local_port peer) ?W = Some (?W\<lparr>pool_netbuf := pool,
      netbuf_at := (netbuf_at ?W)(buf := \<lparr>nb_p = [p2], nb_addr = if_ip_addr nif, nb_port = local_port peer\<rparr>), rx_qt := qt'\<rparr>)"
    "q_inv (rx_os ?W) qt'" "the_q e (rx_os ?W) qt' = Some k" "mbox_list nullp k qt' = mbox_list nullp k (rx_qt ?W) @ [buf]"
    "q_cap (OSQTbl qt' ! k) = q_cap (OSQTbl (rx_qt ?W) ! k)"
    using recv_udp_queues [OF c' b' b(2,3)] by blast
  have "udp_input nullp I inp (if_ip_addr nif) (if_ip_addr inp) [p] W = Some (?W\<lparr>pool_netbuf := pool,
      netbuf_at := (netbuf_at ?W)(buf := \<lparr>nb_p = [p2], nb_addr = if_ip_addr nif, nb_port = local_port peer\<rparr>), rx_qt := qt'\<rparr>)"
    unfolding udp_input_def
    using h hl long p1(1) u UH p2(1) q(1,2) qt(1) by (simp add: Let_def UDP_HLEN_def)
  then show ?thesis using q(3-5) qt(2-5) packet_data [OF p2(2)] by auto
qed

text \<open>What a step of the thread has done when it took the datagram \<^verbatim>\<open>d\<close> into the buffer \<^verbatim>\<open>buf\<close>.\<close>

definition queued :: "u32 list \<Rightarrow> u32 \<Rightarrow> nat \<Rightarrow> nat \<Rightarrow> u32 \<Rightarrow> netbuf \<Rightarrow> 'x rxs \<Rightarrow> 'x rxs \<Rightarrow> bool" where
  "queued all nullp e k buf nb W W' \<longleftrightarrow>
     udp_ok all (udp W') \<and> set (udp_pcbs (udp W')) = set (udp_pcbs (udp W)) \<and> pcb_at (udp W') = pcb_at (udp W) \<and>
     netbuf_at W' = (netbuf_at W)(buf := nb) \<and> rx_os W' = rx_os W \<and> q_inv (rx_os W) (rx_qt W') \<and>
     the_q e (rx_os W) (rx_qt W') = Some k \<and> mbox_list nullp k (rx_qt W') = mbox_list nullp k (rx_qt W) @ [buf] \<and>
     q_cap (OSQTbl (rx_qt W') ! k) = q_cap (OSQTbl (rx_qt W) ! k) \<and> pool_netbuf W = buf # pool_netbuf W' \<and>
     conn_at W' = conn_at W \<and> lower W' = lower W"

lemma ip_input_delivers:
  assumes ok: "udp_ok all (udp W)" and r: "reaches nif peer inp (udp W) conn" and c: "conn_ready nullp conn e k W"
    and b: "pool_netbuf W = buf # pool" "buf \<noteq> 0" "buf \<noteq> nullp" and raw: "\<And>q x. rx_raw_input I q inp x = (False, x)"
    and d: "length d + 28 < 65536"
    and f: "f = ip_header (of_nat (length d) + 28) ident tos ttl IP_PROTO_UDP (if_ip_addr nif) (if_ip_addr inp) @
              udp_header (local_port peer) (remote_port peer) (be_bytes l) @ d"
    and p: "packet room (f @ pad) p"
  shows "\<exists>W' g. ip_input nullp I others [p] inp W = Some W' \<and> pbuf_data g = d \<and>
     queued all nullp e k buf \<lparr>nb_p = [g], nb_addr = if_ip_addr nif, nb_port = local_port peer\<rparr> W W'"
proof -
  let ?n = "of_nat (length d) + 28 :: u16"
  let ?h = "ip_header ?n ident tos ttl IP_PROTO_UDP (if_ip_addr nif) (if_ip_addr inp)"
  note H = ip_header_fields [OF refl, of ?n ident tos ttl IP_PROTO_UDP "if_ip_addr nif" "if_ip_addr inp"]
  have n: "unat ?n = length f"
    using unat_len_plus [of "of_nat (length d)" 28] d H(1) udp_header_fields(1) [OF refl, of "local_port peer" "remote_port peer" l]
    by (simp add: f unat_of_nat_small)
  have len: "20 \<le> length (f @ pad)" "unat ?n \<le> length (f @ pad)" using H(1) n by (simp_all add: f)
  have h: "payload_bytes 20 p = Some ?h" using packet_bytes_take [OF p len(1)] H(1) by (simp add: f)
  have fits: "\<not> unat (pb_len p) < unat (?h ! 0 AND 0x0F) * 4" "\<not> pb_tot_len p < ?n" "drop_bit 4 (?h ! 0) = (4 :: u8)"
    using p len H(2) by (simp_all add: packet_def word_less_nat_alt)
  obtain q where q: "pbuf_realloc I ?n [p] W = ([q], W)" "packet room f q"
    using packet_cut [OF p len(2), of I W] n by auto
  have src: "\<not> ip4_addr_isbroadcast (if_ip_addr nif) inp" "\<not> ip_addr_ismulticast (if_ip_addr nif)"
    and acc: "netif_accepts (if_ip_addr inp) inp"
    using r by (simp_all add: reaches_def netif_accepts_def)
  have h2: "payload_bytes 20 q = Some ?h" using packet_bytes_take [OF q(2), of 20] H(1) by (simp add: f)
  have "ip_input nullp I others [p] inp W = udp_input nullp I inp (if_ip_addr nif) (if_ip_addr inp) [q] W"
    using h fits q(1) src acc h2 H(3-7) raw by (simp add: ip_input_def Let_def)
  then show ?thesis
    using udp_input_delivers [OF ok r c b f q(2), of I] b(1) by (auto simp: queued_def)
qed

lemma ethernet_input_delivers:
  assumes ok: "udp_ok all (udp W)" and r: "reaches nif peer inp (udp W) conn" and c: "conn_ready nullp conn e k W"
    and b: "pool_netbuf W = buf # pool" "buf \<noteq> 0" "buf \<noteq> nullp" and raw: "\<And>q x. rx_raw_input I q inp x = (False, x)"
    and d: "length d + 28 < 65536" and f: "carries nif peer f d" and p: "packet room (f @ pad) p"
  shows "\<exists>W' g. ethernet_input nullp I others [p] inp W = Some W' \<and> pbuf_data g = d \<and>
     queued all nullp e k buf \<lparr>nb_p = [g], nb_addr = if_ip_addr nif, nb_port = local_port peer\<rparr> W W'"
proof -
  obtain mac ident where m: "length mac = 6" "f = udp_frame nif peer mac ident d" using f by (auto simp: carries_def)
  have hw: "length (if_hwaddr nif) = 6" "remote_ip peer = if_ip_addr inp" "if_etharp inp" using r by (simp_all add: reaches_def)
  let ?e = "eth_header nif mac"
  let ?f = "ip_header (of_nat (length d) + 28) ident (pcb_tos peer) (pcb_ttl peer) IP_PROTO_UDP (if_ip_addr nif) (if_ip_addr inp) @
              udp_header (local_port peer) (remote_port peer) (be_bytes (of_nat (length d) + 8)) @ d"
  have f': "f @ pad = ?e @ ?f @ pad" using hw(2) by (simp add: m(2) udp_frame_def)
  have le: "length ?e = 14" "drop 12 ?e = ETHTYPE_IP"
    using m(1) hw(1) by (simp_all add: eth_header_def be_bytes_def ETHTYPE_IP_def hi8_def lo8_def)
  have len: "14 \<le> length (f @ pad)" "\<not> unat (pb_len p) \<le> 14"
    using le(1) p by (simp_all add: f' packet_def length_ip_header)
  have h: "payload_bytes 14 p = Some ?e" using packet_bytes_take [OF p len(1)] le(1) by (simp add: f')
  obtain g where g: "pbuf_header p (- int 14) = (0, g)" "packet (room - 14) (?f @ pad) g"
    using packet_pull [OF p len(1)] le(1) by (auto simp: f')
  have "ethernet_input nullp I others [p] inp W = ip_input nullp I others [g] inp W"
    using len(2) h le(2) hw(3) g(1) by (simp add: ethernet_input_def SIZEOF_ETH_HDR_def)
  then show ?thesis using ip_input_delivers [OF ok r c b raw d refl g(2)] by auto
qed

lemma netconn_recv_head:
  assumes c: "conn_ready nullp conn e k W" and l: "mbox_list nullp k (rx_qt W) = m # ms"
    and z: "OSIntNesting (rx_os W) = 0" "OSLockNesting (rx_os W) = 0" "\<not> ERR_IS_FATAL (conn_err (conn_at W conn))"
  shows "\<exists>qt'. netconn_recv nullp conn W = Some (Some (ERR_OK, m), W\<lparr>rx_qt := qt'\<rparr>) \<and> mbox_list nullp k qt' = ms"
proof -
  have c': "recvmbox (conn_at W conn) = Some e" "q_inv (rx_os W) (rx_qt W)" "e < length (OSEvents (rx_os W))"
    "OSEventType (OSEvents (rx_os W) ! e) = OS_EVENT_TYPE_Q" "the_q e (rx_os W) (rx_qt W) = Some k"
    "length (mbox_list nullp k (rx_qt W)) < q_cap (OSQTbl (rx_qt W) ! k)"
    using c by (simp_all add: conn_ready_def)
  obtain qt' where "sys_arch_mbox_fetch nullp (Some e) (recv_timeout (conn_at W conn)) (rx_os W) (rx_qt W) =
      Some (Some (4294967, m), OSTime (rx_os W), rx_os W, qt')" "mbox_list nullp k qt' = ms"
    using fetch_list [OF c'(2-4) z(1,2) c'(5) l] by blast
  moreover have "sys_mbox_valid (Some e) (rx_os W) (rx_qt W) = Some True"
    using mbox_valid [OF c'(2-5), of nullp] c'(6) by simp
  ultimately show ?thesis using c'(1) z(3) by (auto simp: netconn_recv_def Let_def SYS_ARCH_TIMEOUT_def)
qed

section \<open>Properties\<close>

lemma netconn_recv_full:
  assumes c: "recvmbox (conn_at W conn) = Some e" "q_inv (rx_os W) (rx_qt W)" "e < length (OSEvents (rx_os W))"
    "OSEventType (OSEvents (rx_os W) ! e) = OS_EVENT_TYPE_Q" "the_q e (rx_os W) (rx_qt W) = Some k"
    and l: "\<not> length (mbox_list nullp k (rx_qt W)) < q_cap (OSQTbl (rx_qt W) ! k)"
  shows "netconn_recv nullp conn W = Some (Some (ERR_CONN, 0), W)"
  using mbox_valid [OF c(2-5), of nullp] c(1) l by (simp add: netconn_recv_def Let_def)

lemma datagram_received:
  assumes "udp_ok all (udp W)" "reaches nif peer inp (udp W) conn" "conn_ready nullp conn e k W"
    and "pool_netbuf W = buf # pool" "buf \<noteq> 0" "buf \<noteq> nullp" and "\<And>q x. rx_raw_input I q inp x = (False, x)"
    and "length d + 28 < 65536" "carries nif peer f d" "packet room (f @ pad) p"
    and "OSIntNesting (rx_os W) = 0" "OSLockNesting (rx_os W) = 0" "\<not> ERR_IS_FATAL (conn_err (conn_at W conn))"
  shows "\<exists>W' g. ethernet_input nullp I others [p] inp W = Some W' \<and>
     mbox_list nullp k (rx_qt W') = mbox_list nullp k (rx_qt W) @ [buf] \<and>
     netbuf_at W' buf = \<lparr>nb_p = [g], nb_addr = if_ip_addr nif, nb_port = local_port peer\<rparr> \<and> pbuf_data g = d \<and>
     (if Suc (length (mbox_list nullp k (rx_qt W))) < q_cap (OSQTbl (rx_qt W) ! k)
      then \<exists>W''. netconn_recv nullp conn W' = Some (Some (ERR_OK, hd (mbox_list nullp k (rx_qt W) @ [buf])), W'') \<and>
        mbox_list nullp k (rx_qt W'') = tl (mbox_list nullp k (rx_qt W) @ [buf]) \<and> netbuf_at W'' = netbuf_at W'
      else netconn_recv nullp conn W' = Some (Some (ERR_CONN, 0), W'))"
proof -
  let ?l = "mbox_list nullp k (rx_qt W) @ [buf]"
  obtain W' g where W': "ethernet_input nullp I others [p] inp W = Some W'" "pbuf_data g = d"
    "queued all nullp e k buf \<lparr>nb_p = [g], nb_addr = if_ip_addr nif, nb_port = local_port peer\<rparr> W W'"
    using ethernet_input_delivers [OF assms(1-10)] by blast
  note Q = W'(3) [unfolded queued_def]
  have z: "OSIntNesting (rx_os W') = 0" "OSLockNesting (rx_os W') = 0" "\<not> ERR_IS_FATAL (conn_err (conn_at W' conn))"
    using Q assms(11-13) by simp_all
  show ?thesis
  proof (cases "Suc (length (mbox_list nullp k (rx_qt W))) < q_cap (OSQTbl (rx_qt W) ! k)")
    case True
    have ready: "conn_ready nullp conn e k W'" using Q assms(3) True by (simp add: conn_ready_def)
    have l: "mbox_list nullp k (rx_qt W') = hd ?l # tl ?l" using Q by simp
    show ?thesis using netconn_recv_head [OF ready l z] True W'(1,2) Q by auto
  next
    case False
    have "netconn_recv nullp conn W' = Some (Some (ERR_CONN, 0), W')"
      by (rule netconn_recv_full [where e = e and k = k]) (use Q assms(3) False in \<open>simp_all add: conn_ready_def\<close>)
    then show ?thesis using False W'(1,2) Q by auto
  qed
qed

text \<open>C7: A frame that carries a datagram from a host to a connection of the camera, with padding
  behind it or not, is accepted by ethernet_input, ip_input and udp_input and put in the
  connection's mailbox behind what waits there, with exactly the bytes the host sent and the
  host's address and port, if a netbuf is free, the mailbox has room, no task waits on it and no
  raw connection takes the packet. With a second place free netconn_recv then returns the first
  netbuf of the mailbox; if the datagram took the last place, netconn_recv returns ERR_CONN and
  leaves everything in the mailbox.\<close>

theorem udp_datagram_received:
  assumes "udp_ok all (udp W)" "reaches nif peer inp (udp W) conn" "conn_ready nullp conn e k W"
    and "pool_netbuf W = buf # pool" "buf \<noteq> 0" "buf \<noteq> nullp" and "\<And>q x. rx_raw_input I q inp x = (False, x)"
    and "length d + 28 < 65536" "carries nif peer f d" "packet room (f @ pad) p"
    and "OSIntNesting (rx_os W) = 0" "OSLockNesting (rx_os W) = 0" "\<not> ERR_IS_FATAL (conn_err (conn_at W conn))"
  shows "\<exists>W' g. ethernet_input nullp I others [p] inp W = Some W' \<and>
     mbox_list nullp k (rx_qt W') = mbox_list nullp k (rx_qt W) @ [buf] \<and>
     netbuf_at W' buf = \<lparr>nb_p = [g], nb_addr = if_ip_addr nif, nb_port = local_port peer\<rparr> \<and> pbuf_data g = d \<and>
     (if Suc (length (mbox_list nullp k (rx_qt W))) < q_cap (OSQTbl (rx_qt W) ! k)
      then \<exists>W''. netconn_recv nullp conn W' = Some (Some (ERR_OK, hd (mbox_list nullp k (rx_qt W) @ [buf])), W'') \<and>
        mbox_list nullp k (rx_qt W'') = tl (mbox_list nullp k (rx_qt W) @ [buf]) \<and> netbuf_at W'' = netbuf_at W'
      else netconn_recv nullp conn W' = Some (Some (ERR_CONN, 0), W'))"
  by (rule datagram_received [OF assms])

text \<open>C9: Whatever bytes a received frame holds, its handling by ethernet_input, ip_input and
  udp_input in a buffer of at least 82 bytes reads inside the buffer only, keeps the blocks,
  mailboxes and pools well formed, and either hands the packet over exactly once and last (frees
  it or gives it to ARP, the reassembly, a raw connection, TCP or ICMP) or keeps it in exactly one
  netbuf of the pool. What those other parts do with it is not covered, nor datagrams the
  reassembly completes.\<close>

theorem every_frame_consumed_once:
  assumes "rx_ok all W" "packet room f p" "82 \<le> room"
  shows "\<exists>W'. ethernet_input nullp (recording raw) others [p] inp W = Some W' \<and> rx_ok all W' \<and>
     ((\<exists>reports ev g. lower W' = lower W @ reports @ [ev] \<and> set reports \<subseteq> {r. handed r = None} \<and> handed ev = Some [g] \<and>
         pb_mem g = pb_mem p \<and> length (pool_netbuf W') = length (pool_netbuf W)) \<or>
      (\<exists>buf g. lower W' = lower W \<and> pool_netbuf W = buf # pool_netbuf W' \<and> nb_p (netbuf_at W' buf) = [g] \<and> pb_mem g = pb_mem p))"
  using ethernet_input_ok [OF assms refl, of nullp raw others inp] unfolding handled_def .

section \<open>The camera and its host\<close>

definition host_netif :: netif where
  "host_netif = \<lparr>if_ip_addr = 0x7301A8C0, if_netmask = 0x00FFFFFF, if_gw = 0x0101A8C0,
     if_hwaddr = [2, 0, 0, 0, 0, 1], if_mtu = 1500, if_up = True, if_broadcast = True, if_etharp = True\<rparr>"

definition host_pcb :: udp_pcb where
  "host_pcb = \<lparr>local_ip = 0, local_port = 8088, remote_ip = 0x1E01A8C0, remote_port = 8088, pcb_ttl = 128, pcb_tos = 0\<rparr>"

abbreviation no_raw :: "pbuf list \<Rightarrow> netif \<Rightarrow> bool" where
  "no_raw \<equiv> \<lambda>p inp. False"

definition camera_rx :: "rx_event list rxs" where
  "camera_rx = \<lparr>udp = camera_udps, pool_netbuf = [0x24020000, 0x24020020], netbuf_at = \<lambda>_. \<lparr>nb_p = [], nb_addr = 0, nb_port = 0\<rparr>,
     conn_at = \<lambda>_. \<lparr>recvmbox = Some 0, conn_err = 0, recv_timeout = 10\<rparr>,
     rx_os = fst (snd demo_qs), rx_qt = snd (snd demo_qs), lower = []\<rparr>"

text \<open>A frame in a receive buffer.\<close>

definition frame_pbuf :: "u8 list \<Rightarrow> pbuf" where
  "frame_pbuf f = \<lparr>pb_mem = f @ replicate (1528 - length f) 0, pb_payload = 0, pb_len = of_nat (length f), pb_tot_len = of_nat (length f)\<rparr>"

lemma frame_packet: "length f \<le> 1528 \<Longrightarrow> packet 1528 f (frame_pbuf f)"
  by (simp add: packet_def frame_pbuf_def unat_of_nat_small)

lemma camera_reached: "reaches host_netif host_pcb camera_netif camera_udps 0"
  by (simp add: reaches_def host_netif_def host_pcb_def camera_netif_def camera_sel ip4_addr_isbroadcast_def
      ip_addr_ismulticast_def ip_addr_netcmp_def udp_remote_match_def)

lemma camera_ready: "conn_ready 9 0 0 0 camera_rx" "mbox_list 9 0 (rx_qt camera_rx) = []" "q_cap (OSQTbl (rx_qt camera_rx) ! 0) = 2"
  using demo_queue demo_run by (simp_all add: conn_ready_def camera_rx_def mbox_list_def q_make_def q_list_def)

lemma camera_rx_ok: "rx_ok (pool_udp demo_udps) camera_rx"
  using camera_ok demo_queue by (simp add: rx_ok_def camera_rx_def mbox_ok_def)

theorem udp_datagram_received_witness:
  "\<exists>W' W'' g. ethernet_input 9 (recording no_raw) [] [frame_pbuf (udp_frame host_netif host_pcb [2, 0, 0, 0, 0, 2] 7 [1, 2, 3] @ replicate 15 0)]
       camera_netif camera_rx = Some W' \<and> netconn_recv 9 0 W' = Some (Some (ERR_OK, 0x24020000), W'') \<and>
     netbuf_at W'' 0x24020000 = \<lparr>nb_p = [g], nb_addr = 0x7301A8C0, nb_port = 8088\<rparr> \<and> pbuf_data g = [1, 2, 3]"
proof -
  let ?f = "udp_frame host_netif host_pcb [2, 0, 0, 0, 0, 2] 7 [1, 2, 3]"
  have u: "udp camera_rx = camera_udps" "pool_netbuf camera_rx = [0x24020000, 0x24020020]" "\<not> ERR_IS_FATAL (conn_err (conn_at camera_rx 0))"
    "OSIntNesting (rx_os camera_rx) = 0" "OSLockNesting (rx_os camera_rx) = 0"
    using demo_run by (simp_all add: camera_rx_def ERR_IS_FATAL_def ERR_ISCONN_def)
  have c: "carries host_netif host_pcb ?f [1, 2, 3]"
    unfolding carries_def by (intro exI [where x = "[2, 0, 0, 0, 0, 2]"] exI [where x = 7]) simp
  have "length ?f = 45" by (simp add: udp_frame_def eth_header_def host_netif_def be_bytes_def length_ip_header udp_header_def)
  then have p: "packet 1528 (?f @ replicate 15 0) (frame_pbuf (?f @ replicate 15 0))" by (intro frame_packet) simp
  have raw: "rx_raw_input (recording no_raw) q camera_netif x = (False, x)" for q x by simp
  have ne: "(0x24020000 :: u32) \<noteq> 0" "(0x24020000 :: u32) \<noteq> 9" "length [1, 2, 3 :: u8] + 28 < 65536"
    "Suc (length (mbox_list 9 0 (rx_qt camera_rx))) < q_cap (OSQTbl (rx_qt camera_rx) ! 0)"
    using camera_ready(2,3) by simp_all
  show ?thesis
    using udp_datagram_received [OF camera_ok [folded u(1)] camera_reached [folded u(1)] camera_ready(1) u(2) ne(1,2) raw ne(3) c p u(4,5,3), of "[]"] ne(4)
    unfolding camera_ready(2) by (auto simp: host_netif_def host_pcb_def)
qed

theorem every_frame_consumed_once_witness:
  "\<exists>W'. ethernet_input 9 (recording no_raw) [] [frame_pbuf (replicate 60 255)] camera_netif camera_rx = Some W' \<and>
     ((\<exists>reports ev g. lower W' = reports @ [ev] \<and> handed ev = Some [g] \<and> pb_mem g = pb_mem (frame_pbuf (replicate 60 255)) \<and>
         length (pool_netbuf W') = 2) \<or>
      lower W' = [] \<and> length (pool_netbuf W') = 1)"
proof -
  have "packet 1528 (replicate 60 255) (frame_pbuf (replicate 60 255))" by (rule frame_packet) simp
  moreover have "lower camera_rx = []" "length (pool_netbuf camera_rx) = 2" by (simp_all add: camera_rx_def)
  ultimately show ?thesis
    using every_frame_consumed_once [OF camera_rx_ok, of 1528 "replicate 60 255" "frame_pbuf (replicate 60 255)" 9 no_raw "[]" camera_netif]
    by (auto; blast)
qed

end
