(* ===== verification/Lwip_Arp.thy ===== *)
theory Lwip_Arp
  imports Lwip_In
begin

text \<open>
  The ARP cache of \<^verbatim>\<open>netif/etharp.c\<close> for one interface, as configured: ten entries, one queued packet
  for each pending entry (\<^verbatim>\<open>ARP_QUEUEING\<close> is off), no static entries; as \<^verbatim>\<open>LWIP_DEBUG\<close> is defined, a freed
  entry is cleared.  The heap and the driver below are the parameters of the send path
  (\<^verbatim>\<open>lwip\<close>); \<^verbatim>\<open>arp_lwip\<close> is that record with its ARP functions filled in by the ones of this theory, so
  that \<^verbatim>\<open>etharp_output\<close> of the send path runs on this cache.
\<close>

section \<open>The cache\<close>

definition ARP_TABLE_SIZE :: nat where "ARP_TABLE_SIZE = 10"
definition ARP_MAXAGE :: u8 where "ARP_MAXAGE = 240"
definition ARP_AGE_REREQUEST_USED :: u8 where "ARP_AGE_REREQUEST_USED = ARP_MAXAGE - 12"
definition ARP_MAXPENDING :: u8 where "ARP_MAXPENDING = 2"
definition ETHARP_FLAG_TRY_HARD :: u8 where "ETHARP_FLAG_TRY_HARD = 1"
definition ETHARP_FLAG_FIND_ONLY :: u8 where "ETHARP_FLAG_FIND_ONLY = 2"
definition SIZEOF_ETHARP_PACKET :: nat where "SIZEOF_ETHARP_PACKET = 42"
definition ERR_ARG :: int where "ERR_ARG = - 14"
definition ethbroadcast :: "u8 list" where "ethbroadcast = replicate 6 0xFF"
definition ethzero :: "u8 list" where "ethzero = replicate 6 0"

datatype arp_state = ARP_EMPTY | ARP_PENDING | ARP_STABLE | ARP_STABLE_REREQUESTING

text \<open>The comparison \<^verbatim>\<open>>= ETHARP_STATE_STABLE\<close>.\<close>

definition is_stable :: "arp_state \<Rightarrow> bool" where
  "is_stable st \<longleftrightarrow> st = ARP_STABLE \<or> st = ARP_STABLE_REREQUESTING"

text \<open>\<^verbatim>\<open>ae_netif\<close>: the field \<^verbatim>\<open>netif\<close> is the interface, not null.\<close>

record arp_entry =
  ae_q :: "pbuf option"
  ae_ip :: u32
  ae_netif :: bool
  ae_mac :: "u8 list"
  ae_state :: arp_state
  ae_ctime :: u8

record 'n arp =
  arp_table :: "arp_entry list"
  cached_entry :: nat
  dev :: 'n

definition on_dev :: "('n \<Rightarrow> 'r \<times> 'n) \<Rightarrow> 'n arp \<Rightarrow> 'r \<times> 'n arp" where
  "on_dev f A = (case f (dev A) of (r, n) \<Rightarrow> (r, A\<lparr>dev := n\<rparr>))"

definition upd_entry :: "nat \<Rightarrow> (arp_entry \<Rightarrow> arp_entry) \<Rightarrow> 'n arp \<Rightarrow> 'n arp" where
  "upd_entry i f A = A\<lparr>arp_table := (arp_table A)[i := f (arp_table A ! i)]\<rparr>"

definition free_q :: "'n lwip \<Rightarrow> pbuf option \<Rightarrow> 'n arp \<Rightarrow> 'n arp" where
  "free_q L q A = (case q of None \<Rightarrow> A | Some p \<Rightarrow> A\<lparr>dev := mem_free L p (dev A)\<rparr>)"

definition etharp_free_entry :: "'n lwip \<Rightarrow> nat \<Rightarrow> 'n arp \<Rightarrow> 'n arp" where
  "etharp_free_entry L i A =
     upd_entry i (\<lambda>_. \<lparr>ae_q = None, ae_ip = 0, ae_netif = False, ae_mac = ethzero, ae_state = ARP_EMPTY, ae_ctime = 0\<rparr>)
       (free_q L (ae_q (arp_table A ! i)) A)"

definition etharp_tmr_entry :: "'n lwip \<Rightarrow> nat \<Rightarrow> 'n arp \<Rightarrow> 'n arp" where
  "etharp_tmr_entry L i A =
     (if ae_state (arp_table A ! i) \<noteq> ARP_EMPTY
      then (let A = upd_entry i (\<lambda>e. e\<lparr>ae_ctime := ae_ctime e + 1\<rparr>) A; e = arp_table A ! i
            in if ARP_MAXAGE \<le> ae_ctime e \<or> ae_state e = ARP_PENDING \<and> ARP_MAXPENDING \<le> ae_ctime e
               then etharp_free_entry L i A
               else if ae_state e = ARP_STABLE_REREQUESTING then upd_entry i (\<lambda>e. e\<lparr>ae_state := ARP_STABLE\<rparr>) A else A)
      else A)"

definition etharp_tmr :: "'n lwip \<Rightarrow> 'n arp \<Rightarrow> 'n arp" where
  "etharp_tmr L A = fold (etharp_tmr_entry L) [0..<ARP_TABLE_SIZE] A"

definition etharp_cleanup_netif :: "'n lwip \<Rightarrow> 'n arp \<Rightarrow> 'n arp" where
  "etharp_cleanup_netif L A =
     fold (\<lambda>i A. if ae_state (arp_table A ! i) \<noteq> ARP_EMPTY \<and> ae_netif (arp_table A ! i) then etharp_free_entry L i A else A)
       [0..<ARP_TABLE_SIZE] A"

section \<open>Finding an entry\<close>

record cand =
  c_empty :: nat
  old_stable :: nat
  age_stable :: u8
  old_pending :: nat
  age_pending :: u8
  old_queue :: nat
  age_queue :: u8

definition no_cand :: cand where
  "no_cand = \<lparr>c_empty = ARP_TABLE_SIZE, old_stable = ARP_TABLE_SIZE, age_stable = 0, old_pending = ARP_TABLE_SIZE, age_pending = 0,
     old_queue = ARP_TABLE_SIZE, age_queue = 0\<rparr>"

definition note_entry :: "nat \<Rightarrow> arp_entry \<Rightarrow> cand \<Rightarrow> cand" where
  "note_entry i e c =
     (if ae_state e = ARP_EMPTY then (if c_empty c = ARP_TABLE_SIZE then c\<lparr>c_empty := i\<rparr> else c)
      else if ae_state e = ARP_PENDING
      then (if ae_q e \<noteq> None then (if age_queue c \<le> ae_ctime e then c\<lparr>old_queue := i, age_queue := ae_ctime e\<rparr> else c)
            else (if age_pending c \<le> ae_ctime e then c\<lparr>old_pending := i, age_pending := ae_ctime e\<rparr> else c))
      else (if age_stable c \<le> ae_ctime e then c\<lparr>old_stable := i, age_stable := ae_ctime e\<rparr> else c))"

text \<open>The sweep from entry \<^verbatim>\<open>i\<close> on: the matching entry, or the candidates.\<close>

fun arp_sweep :: "u32 \<Rightarrow> nat \<Rightarrow> arp_entry list \<Rightarrow> cand \<Rightarrow> nat + cand" where
  "arp_sweep ip i [] c = Inr c"
| "arp_sweep ip i (e # es) c =
     (if ae_state e \<noteq> ARP_EMPTY \<and> ae_ip e = ip then Inl i else arp_sweep ip (Suc i) es (note_entry i e c))"

text \<open>Every caller gives an address.  \<^verbatim>\<open>None\<close> is \<^verbatim>\<open>ERR_MEM\<close>.\<close>

definition etharp_find_entry :: "'n lwip \<Rightarrow> u32 \<Rightarrow> u8 \<Rightarrow> 'n arp \<Rightarrow> nat option \<times> 'n arp" where
  "etharp_find_entry L ip flags A =
     (case arp_sweep ip 0 (arp_table A) no_cand of
        Inl i \<Rightarrow> (Some i, A)
      | Inr c \<Rightarrow>
          if flags AND ETHARP_FLAG_FIND_ONLY \<noteq> 0 \<or> c_empty c = ARP_TABLE_SIZE \<and> flags AND ETHARP_FLAG_TRY_HARD = 0 then (None, A)
          else (let new = (\<lambda>i A. (Some i, upd_entry i (\<lambda>e. e\<lparr>ae_ip := ip, ae_ctime := 0\<rparr>) A))
                in if c_empty c < ARP_TABLE_SIZE then new (c_empty c) A
                   else if old_stable c < ARP_TABLE_SIZE then new (old_stable c) (etharp_free_entry L (old_stable c) A)
                   else if old_pending c < ARP_TABLE_SIZE then new (old_pending c) (etharp_free_entry L (old_pending c) A)
                   else if old_queue c < ARP_TABLE_SIZE then new (old_queue c) (etharp_free_entry L (old_queue c) A)
                   else (None, A)))"

section \<open>Sending\<close>

text \<open>A queued packet is sent with its Ethernet header written over the room in front.\<close>

definition send_queued :: "'n lwip \<Rightarrow> netif \<Rightarrow> pbuf \<Rightarrow> u8 list \<Rightarrow> 'n arp \<Rightarrow> int \<times> 'n arp" where
  "send_queued L nif p mac A =
     (case etharp_send_ip L [p] (if_hwaddr nif) mac (dev A) of
        (r, q, n) \<Rightarrow> (r, A\<lparr>dev := mem_free L (hd q) n\<rparr>))"

definition arp_packet :: "u8 list \<Rightarrow> u8 list \<Rightarrow> u16 \<Rightarrow> u8 list \<Rightarrow> u32 \<Rightarrow> u8 list \<Rightarrow> u32 \<Rightarrow> u8 list" where
  "arp_packet ethdst ethsrc opcode hwsrc ipsrc hwdst ipdst =
     ethdst @ ethsrc @ be_bytes 0x0806 @ be_bytes 1 @ be_bytes 0x0800 @ [6, 4] @ be_bytes opcode @ hwsrc @ ip_bytes ipsrc @
     hwdst @ ip_bytes ipdst"

definition ARP_REQUEST :: u16 where "ARP_REQUEST = 1"
definition ARP_REPLY :: u16 where "ARP_REPLY = 2"

definition etharp_raw :: "'n lwip \<Rightarrow> u8 list \<Rightarrow> u8 list \<Rightarrow> u8 list \<Rightarrow> u32 \<Rightarrow> u8 list \<Rightarrow> u32 \<Rightarrow> u16 \<Rightarrow> 'n \<Rightarrow> int \<times> 'n" where
  "etharp_raw L ethsrc ethdst hwsrc ipsrc hwdst ipdst opcode n =
     (case pbuf_alloc_ram L 0 (of_nat SIZEOF_ETHARP_PACKET) n of
        (None, n) \<Rightarrow> (ERR_MEM, n)
      | (Some p, n) \<Rightarrow>
          (let p = poke (arp_packet ethdst ethsrc opcode hwsrc ipsrc hwdst ipdst) p;
               (r, n) = linkoutput L (pbuf_data p) n
           in (r, mem_free L p n)))"

definition etharp_request :: "'n lwip \<Rightarrow> netif \<Rightarrow> u32 \<Rightarrow> 'n \<Rightarrow> int \<times> 'n" where
  "etharp_request L nif ip n =
     etharp_raw L (if_hwaddr nif) ethbroadcast (if_hwaddr nif) (if_ip_addr nif) ethzero ip ARP_REQUEST n"

text \<open>The part of \<^verbatim>\<open>etharp_output_to_arp_index\<close> before the packet is sent.\<close>

definition arp_touch :: "'n lwip \<Rightarrow> netif \<Rightarrow> nat \<Rightarrow> 'n arp \<Rightarrow> 'n arp" where
  "arp_touch L nif i A =
     (let e = arp_table A ! i
      in if ae_state e = ARP_STABLE \<and> ARP_AGE_REREQUEST_USED \<le> ae_ctime e
         then (case on_dev (etharp_request L nif (ae_ip e)) A of
                 (r, A) \<Rightarrow> if r = ERR_OK then upd_entry i (\<lambda>e. e\<lparr>ae_state := ARP_STABLE_REREQUESTING\<rparr>) A else A)
         else A)"

definition stable_for :: "u32 \<Rightarrow> arp_entry \<Rightarrow> bool" where
  "stable_for ip e \<longleftrightarrow> is_stable (ae_state e) \<and> ae_ip e = ip"

text \<open>The search of \<^verbatim>\<open>etharp_output\<close> for a stable entry: the cached one first.\<close>

definition etharp_stable :: "'n lwip \<Rightarrow> netif \<Rightarrow> u32 \<Rightarrow> 'n arp \<Rightarrow> u8 list option \<times> 'n arp" where
  "etharp_stable L nif ip A =
     (if stable_for ip (arp_table A ! cached_entry A)
      then (let A = arp_touch L nif (cached_entry A) A in (Some (ae_mac (arp_table A ! cached_entry A)), A))
      else (case find (\<lambda>i. stable_for ip (arp_table A ! i)) [0..<ARP_TABLE_SIZE] of
              Some i \<Rightarrow> (let A = arp_touch L nif i (A\<lparr>cached_entry := i\<rparr>) in (Some (ae_mac (arp_table A ! i)), A))
            | None \<Rightarrow> (None, A)))"

text \<open>\<^verbatim>\<open>etharp_query\<close> with a packet, whose bytes \<^verbatim>\<open>f\<close> are copied when it has to wait.\<close>

definition etharp_query_packet :: "'n lwip \<Rightarrow> netif \<Rightarrow> u32 \<Rightarrow> u8 list \<Rightarrow> 'n arp \<Rightarrow> int \<times> 'n arp" where
  "etharp_query_packet L nif ip f A =
     (if ip4_addr_isbroadcast ip nif \<or> ip_addr_ismulticast ip \<or> ip = 0 then (ERR_ARG, A)
      else (case etharp_find_entry L ip ETHARP_FLAG_TRY_HARD A of
              (None, A) \<Rightarrow> (ERR_MEM, A)
            | (Some i, A) \<Rightarrow>
                (let A = (if ae_state (arp_table A ! i) = ARP_EMPTY then upd_entry i (\<lambda>e. e\<lparr>ae_state := ARP_PENDING\<rparr>) A else A)
                 in if ae_state (arp_table A ! i) = ARP_PENDING
                    then (let A = snd (on_dev (etharp_request L nif ip) A)
                          in case on_dev (pbuf_alloc_ram L 0 (of_nat (length f))) A of
                               (None, A) \<Rightarrow> (ERR_MEM, A)
                             | (Some p, A) \<Rightarrow>
                                 (ERR_OK, upd_entry i (\<lambda>e. e\<lparr>ae_q := Some (poke f p)\<rparr>) (free_q L (ae_q (arp_table A ! i)) A)))
                    else (let A = A\<lparr>cached_entry := i\<rparr>
                          in on_dev (linkoutput L (ae_mac (arp_table A ! i) @ if_hwaddr nif @ be_bytes 0x0800 @ drop 14 f)) A))))"

definition arp_lwip :: "'n lwip \<Rightarrow> netif \<Rightarrow> 'n arp lwip" where
  "arp_lwip L nif =
     \<lparr>mem_malloc = \<lambda>k. on_dev (mem_malloc L k), mem_free = \<lambda>p A. A\<lparr>dev := mem_free L p (dev A)\<rparr>,
      memp_netbuf = on_dev (memp_netbuf L), memp_free_netbuf = \<lambda>A. A\<lparr>dev := memp_free_netbuf L (dev A)\<rparr>,
      udp_bind_any = \<lambda>pcb A. (case udp_bind_any L pcb (dev A) of (r, pcb, n) \<Rightarrow> (r, pcb, A\<lparr>dev := n\<rparr>)),
      ip_frag = \<lambda>q ip A. (case ip_frag L q ip (dev A) of (r, q, n) \<Rightarrow> (r, q, A\<lparr>dev := n\<rparr>)),
      arp_stable = etharp_stable L nif, etharp_query = etharp_query_packet L nif,
      linkoutput = \<lambda>f. on_dev (linkoutput L f)\<rparr>"

section \<open>Receiving\<close>

definition etharp_update_arp_entry :: "'n lwip \<Rightarrow> netif \<Rightarrow> u32 \<Rightarrow> u8 list \<Rightarrow> u8 \<Rightarrow> 'n arp \<Rightarrow> int \<times> 'n arp" where
  "etharp_update_arp_entry L nif ip mac flags A =
     (if ip = 0 \<or> ip4_addr_isbroadcast ip nif \<or> ip_addr_ismulticast ip then (ERR_ARG, A)
      else (case etharp_find_entry L ip flags A of
              (None, A) \<Rightarrow> (ERR_MEM, A)
            | (Some i, A) \<Rightarrow>
                (let q = ae_q (arp_table A ! i);
                     A = upd_entry i (\<lambda>e. e\<lparr>ae_state := ARP_STABLE, ae_netif := True, ae_mac := mac, ae_ctime := 0, ae_q := None\<rparr>) A
                 in (ERR_OK, case q of None \<Rightarrow> A | Some p \<Rightarrow> snd (send_queued L nif p mac A)))))"

text \<open>\<^verbatim>\<open>rx_free\<close> frees the received packet, whose payload is the whole frame.\<close>

definition etharp_arp_input :: "'n lwip \<Rightarrow> (pbuf \<Rightarrow> 'n \<Rightarrow> 'n) \<Rightarrow> netif \<Rightarrow> pbuf \<Rightarrow> 'n arp \<Rightarrow> 'n arp" where
  "etharp_arp_input L rx_free nif p A =
     (let f = pbuf_data p; free = (\<lambda>p A. A\<lparr>dev := rx_free p (dev A)\<rparr>)
      in if unat (pb_len p) < SIZEOF_ETHARP_PACKET then free p A
         else if be16_at f 14 \<noteq> 1 \<or> f ! 18 \<noteq> 6 \<or> f ! 19 \<noteq> 4 \<or> be16_at f 16 \<noteq> 0x0800 then free p A
         else (let opcode = be16_at f 20; shwaddr = take 6 (drop 22 f); sipaddr = ip_at f 28; dipaddr = ip_at f 38;
                   for_us = (if_ip_addr nif \<noteq> 0 \<and> dipaddr = if_ip_addr nif);
                   A = snd (etharp_update_arp_entry L nif sipaddr shwaddr
                              (if for_us then ETHARP_FLAG_TRY_HARD else ETHARP_FLAG_FIND_ONLY) A)
               in if opcode = ARP_REQUEST \<and> for_us
                  then (let p = poke (shwaddr @ if_hwaddr nif @ take 8 (drop 12 f) @ be_bytes ARP_REPLY @ if_hwaddr nif @
                                  ip_bytes (if_ip_addr nif) @ shwaddr @ ip_bytes sipaddr) p
                        in free p (snd (on_dev (linkoutput L (pbuf_data p)) A)))
                  else free p A))"

section \<open>The oldest candidate\<close>

definition oldest :: "(arp_entry \<Rightarrow> bool) \<Rightarrow> arp_entry list \<Rightarrow> nat \<Rightarrow> u8 \<Rightarrow> bool" where
  "oldest P es i age \<longleftrightarrow>
     i = ARP_TABLE_SIZE \<and> age = 0 \<and> (\<forall>e\<in>set es. \<not> P e) \<or>
     i < length es \<and> P (es ! i) \<and> ae_ctime (es ! i) = age \<and> (\<forall>e\<in>set es. P e \<longrightarrow> ae_ctime e \<le> age)"

definition first_empty :: "arp_entry list \<Rightarrow> nat \<Rightarrow> bool" where
  "first_empty es i \<longleftrightarrow>
     i = ARP_TABLE_SIZE \<and> (\<forall>e\<in>set es. ae_state e \<noteq> ARP_EMPTY) \<or> i < length es \<and> ae_state (es ! i) = ARP_EMPTY"

lemma oldest_step:
  assumes "oldest P es i age" "length es < ARP_TABLE_SIZE"
  shows "oldest P (es @ [e]) (if P e \<and> age \<le> ae_ctime e then length es else i) (if P e \<and> age \<le> ae_ctime e then ae_ctime e else age)"
  using assms by (auto simp: oldest_def nth_append)

lemma first_empty_step:
  assumes "first_empty es i" "length es < ARP_TABLE_SIZE"
  shows "first_empty (es @ [e]) (if ae_state e = ARP_EMPTY \<and> i = ARP_TABLE_SIZE then length es else i)"
  using assms by (auto simp: first_empty_def nth_append)

definition is_waiting :: "bool \<Rightarrow> arp_entry \<Rightarrow> bool" where
  "is_waiting q e \<longleftrightarrow> ae_state e = ARP_PENDING \<and> (ae_q e \<noteq> None) = q"

definition cand_ok :: "arp_entry list \<Rightarrow> cand \<Rightarrow> bool" where
  "cand_ok es c \<longleftrightarrow> first_empty es (c_empty c) \<and> oldest (\<lambda>e. is_stable (ae_state e)) es (old_stable c) (age_stable c) \<and>
     oldest (is_waiting False) es (old_pending c) (age_pending c) \<and> oldest (is_waiting True) es (old_queue c) (age_queue c)"

lemma cand_ok_step:
  assumes "cand_ok es c" "length es < ARP_TABLE_SIZE"
  shows "cand_ok (es @ [e]) (note_entry (length es) e c)"
proof -
  note C = assms(1) [unfolded cand_ok_def]
  note S = first_empty_step [OF conjunct1 [OF C] assms(2), of e]
    oldest_step [OF conjunct1 [OF conjunct2 [OF C]] assms(2), of e]
    oldest_step [OF conjunct1 [OF conjunct2 [OF conjunct2 [OF C]]] assms(2), of e]
    oldest_step [OF conjunct2 [OF conjunct2 [OF conjunct2 [OF C]]] assms(2), of e]
  show ?thesis
    using S by (cases "ae_state e"; cases "ae_q e = None") (auto simp: cand_ok_def note_entry_def is_stable_def is_waiting_def split: if_splits)
qed

lemma arp_sweep_ok:
  assumes "cand_ok es c" "length es + length fs \<le> ARP_TABLE_SIZE" "\<forall>e\<in>set es. \<not> (ae_state e \<noteq> ARP_EMPTY \<and> ae_ip e = ip)"
  shows "case arp_sweep ip (length es) fs c of
      Inl i \<Rightarrow> i < length (es @ fs) \<and> ae_state ((es @ fs) ! i) \<noteq> ARP_EMPTY \<and> ae_ip ((es @ fs) ! i) = ip
    | Inr c \<Rightarrow> cand_ok (es @ fs) c \<and> (\<forall>e\<in>set (es @ fs). \<not> (ae_state e \<noteq> ARP_EMPTY \<and> ae_ip e = ip))"
  using assms
proof (induction fs arbitrary: es c)
  case (Cons e fs)
  show ?case
  proof (cases "ae_state e \<noteq> ARP_EMPTY \<and> ae_ip e = ip")
    case False
    then have "arp_sweep ip (length es) (e # fs) c = arp_sweep ip (length (es @ [e])) fs (note_entry (length es) e c)" by auto
    moreover have "cand_ok (es @ [e]) (note_entry (length es) e c)" using Cons.prems by (intro cand_ok_step) simp_all
    ultimately show ?thesis
      using Cons.IH [of "es @ [e]" "note_entry (length es) e c", unfolded append_assoc append_Cons append_Nil] Cons.prems(2,3) False
      by simp
  qed auto
qed simp

section \<open>The invariant\<close>

definition entry_ok :: "arp_entry \<Rightarrow> bool" where
  "entry_ok e \<longleftrightarrow> (ae_state e = ARP_EMPTY \<longrightarrow> ae_q e = None) \<and>
     (is_stable (ae_state e) \<longrightarrow> ae_q e = None \<and> length (ae_mac e) = 6 \<and> ae_ctime e < ARP_MAXAGE) \<and>
     (ae_state e = ARP_PENDING \<longrightarrow> ae_ctime e < ARP_MAXPENDING)"

definition arp_ok :: "'n arp \<Rightarrow> bool" where
  "arp_ok A \<longleftrightarrow> length (arp_table A) = ARP_TABLE_SIZE \<and> cached_entry A < ARP_TABLE_SIZE \<and> (\<forall>e\<in>set (arp_table A). entry_ok e) \<and>
     (\<forall>i<ARP_TABLE_SIZE. \<forall>j<ARP_TABLE_SIZE. i \<noteq> j \<longrightarrow> ae_state (arp_table A ! i) \<noteq> ARP_EMPTY \<longrightarrow>
        ae_state (arp_table A ! j) \<noteq> ARP_EMPTY \<longrightarrow> ae_ip (arp_table A ! i) \<noteq> ae_ip (arp_table A ! j))"

lemma arp_sel [simp]:
  "arp_table (upd_entry i f A) = (arp_table A)[i := f (arp_table A ! i)]" "cached_entry (upd_entry i f A) = cached_entry A"
  "dev (upd_entry i f A) = dev A"
  "arp_table (free_q L q A) = arp_table A" "cached_entry (free_q L q A) = cached_entry A"
  by (simp_all add: upd_entry_def free_q_def split: option.splits)

lemma arp_ok_dev [simp]: "arp_ok (A\<lparr>dev := n\<rparr>) = arp_ok A" "arp_ok (free_q L q A) = arp_ok A"
  by (simp_all add: arp_ok_def)

lemma on_dev_sel:
  assumes "on_dev f A = (r, A')"
  shows "arp_table A' = arp_table A" "cached_entry A' = cached_entry A" "arp_ok A' = arp_ok A" "f (dev A) = (r, dev A')"
  using assms by (auto simp: on_dev_def split: prod.splits)

lemma set_update_in: "e \<in> set (xs[i := x]) \<Longrightarrow> e = x \<or> e \<in> set xs"
  using set_update_subset_insert by fastforce

text \<open>An entry changed: its address is its old one, or no other entry has it, or it is empty.\<close>

lemma arp_ok_upd:
  assumes ok: "arp_ok A" and i: "i < ARP_TABLE_SIZE" and e: "entry_ok (f (arp_table A ! i))"
    and d: "ae_state (f (arp_table A ! i)) = ARP_EMPTY \<or>
      (ae_state (arp_table A ! i) \<noteq> ARP_EMPTY \<and> ae_ip (f (arp_table A ! i)) = ae_ip (arp_table A ! i)) \<or>
      (\<forall>e\<in>set (arp_table A). \<not> (ae_state e \<noteq> ARP_EMPTY \<and> ae_ip e = ae_ip (f (arp_table A ! i))))"
  shows "arp_ok (upd_entry i f A)"
proof -
  have l: "length (arp_table A) = ARP_TABLE_SIZE" using ok by (simp add: arp_ok_def)
  have "entry_ok x" if "x \<in> set ((arp_table A)[i := f (arp_table A ! i)])" for x
    using set_update_in [OF that] e ok by (auto simp: arp_ok_def)
  moreover have "ae_ip ((arp_table A)[i := f (arp_table A ! i)] ! j) \<noteq> ae_ip ((arp_table A)[i := f (arp_table A ! i)] ! k)"
    if jk: "j < ARP_TABLE_SIZE" "k < ARP_TABLE_SIZE" "j \<noteq> k" "ae_state ((arp_table A)[i := f (arp_table A ! i)] ! j) \<noteq> ARP_EMPTY"
      "ae_state ((arp_table A)[i := f (arp_table A ! i)] ! k) \<noteq> ARP_EMPTY" for j k
  proof -
    have D: "ae_ip (arp_table A ! a) \<noteq> ae_ip (arp_table A ! b)" if "a < ARP_TABLE_SIZE" "b < ARP_TABLE_SIZE" "a \<noteq> b"
      "ae_state (arp_table A ! a) \<noteq> ARP_EMPTY" "ae_state (arp_table A ! b) \<noteq> ARP_EMPTY" for a b
      using ok that by (simp add: arp_ok_def)
    have M: "arp_table A ! a \<in> set (arp_table A)" if "a < ARP_TABLE_SIZE" for a using that l by simp
    have one: "ae_ip (f (arp_table A ! i)) \<noteq> ae_ip (arp_table A ! a)"
      if "a < ARP_TABLE_SIZE" "a \<noteq> i" "ae_state (arp_table A ! a) \<noteq> ARP_EMPTY" "ae_state (f (arp_table A ! i)) \<noteq> ARP_EMPTY" for a
      using d D [OF i that(1)] M [OF that(1)] that by metis
    show ?thesis using jk one [of j] one [of k] D [of j k] i l by (auto simp: nth_list_update split: if_splits)
  qed
  ultimately show ?thesis using ok by (simp add: arp_ok_def)
qed

lemma arp_entry:
  assumes "arp_ok A" "i < ARP_TABLE_SIZE" shows "entry_ok (arp_table A ! i)"
  using assms by (simp add: arp_ok_def)

lemma etharp_free_entry_ok:
  assumes "arp_ok A" "i < ARP_TABLE_SIZE" shows "arp_ok (etharp_free_entry L i A)"
  unfolding etharp_free_entry_def using assms by (intro arp_ok_upd) (simp_all add: entry_ok_def is_stable_def)

lemma ctime_step:
  assumes "c < m" "\<not> m \<le> c + 1" shows "(c :: u8) + 1 < m"
  using assms by simp

lemma etharp_tmr_entry_ok:
  assumes ok: "arp_ok A" and i: "i < ARP_TABLE_SIZE"
  shows "arp_ok (etharp_tmr_entry L i A)"
proof -
  let ?e = "arp_table A ! i"
  let ?A = "upd_entry i (\<lambda>e. e\<lparr>ae_ctime := ae_ctime e + 1\<rparr>) A"
  have l: "i < length (arp_table A)" using ok i by (simp add: arp_ok_def)
  note eok = arp_entry [OF ok i]
  show ?thesis
  proof (cases "ae_state ?e = ARP_EMPTY")
    case True
    then show ?thesis using ok by (simp add: etharp_tmr_entry_def)
  next
    case ne: False
    show ?thesis
    proof (cases "ARP_MAXAGE \<le> ae_ctime ?e + 1 \<or> ae_state ?e = ARP_PENDING \<and> ARP_MAXPENDING \<le> ae_ctime ?e + 1")
      case True
      have "etharp_free_entry L i ?A = etharp_free_entry L i A"
        using l by (simp add: etharp_free_entry_def upd_entry_def free_q_def split: option.splits)
      moreover have "etharp_tmr_entry L i A = etharp_free_entry L i ?A"
        using True ne l by (auto simp: etharp_tmr_entry_def Let_def)
      ultimately show ?thesis using etharp_free_entry_ok [OF ok i] by simp
    next
      case False
      have A: "arp_ok ?A"
        using eok False ne by (intro arp_ok_upd [OF ok i]) (auto simp: entry_ok_def)
      have "arp_ok (upd_entry i (\<lambda>e. e\<lparr>ae_state := ARP_STABLE\<rparr>) ?A)" if "ae_state ?e = ARP_STABLE_REREQUESTING"
        using arp_entry [OF A i] that l by (intro arp_ok_upd [OF A i]) (auto simp: entry_ok_def is_stable_def)
      then show ?thesis using A False ne l by (auto simp: etharp_tmr_entry_def Let_def)
    qed
  qed
qed

lemma fold_ok:
  assumes "\<And>i A. P A \<Longrightarrow> i < n \<Longrightarrow> P (f i A)" "P A" shows "P (fold f [0..<n] A)"
proof -
  have "P (fold f is A)" if "\<forall>i\<in>set is. i < n" "P A" for "is" A
    using that by (induction "is" arbitrary: A) (auto intro: assms(1))
  then show ?thesis using assms(2) by simp
qed

lemma etharp_tmr_ok: "arp_ok A \<Longrightarrow> arp_ok (etharp_tmr L A)"
  unfolding etharp_tmr_def by (rule fold_ok [where P = arp_ok, OF etharp_tmr_entry_ok])

lemma etharp_cleanup_ok: "arp_ok A \<Longrightarrow> arp_ok (etharp_cleanup_netif L A)"
  unfolding etharp_cleanup_netif_def by (rule fold_ok [where P = arp_ok]) (simp_all add: etharp_free_entry_ok)


lemma arp_sweep_table:
  assumes "length (arp_table A) = ARP_TABLE_SIZE"
  shows "case arp_sweep ip 0 (arp_table A) no_cand of
      Inl i \<Rightarrow> i < length (arp_table A) \<and> ae_state (arp_table A ! i) \<noteq> ARP_EMPTY \<and> ae_ip (arp_table A ! i) = ip
    | Inr c \<Rightarrow> cand_ok (arp_table A) c \<and> (\<forall>e\<in>set (arp_table A). \<not> (ae_state e \<noteq> ARP_EMPTY \<and> ae_ip e = ip))"
  using arp_sweep_ok [of "[]" no_cand "arp_table A" ip, unfolded append_Nil] assms
  by (simp add: cand_ok_def no_cand_def first_empty_def oldest_def)

lemma arp_find:
  assumes ok: "arp_ok A" and f: "etharp_find_entry L ip flags A = (r, A')"
  shows "arp_ok A' \<and> (case r of
      None \<Rightarrow> A' = A \<and> flags \<noteq> ETHARP_FLAG_TRY_HARD
    | Some i \<Rightarrow> i < ARP_TABLE_SIZE \<and> ae_ip (arp_table A' ! i) = ip \<and>
        (A' = A \<and> ae_state (arp_table A ! i) \<noteq> ARP_EMPTY \<or>
         ae_state (arp_table A' ! i) = ARP_EMPTY \<and> ae_ctime (arp_table A' ! i) = 0 \<and> flags \<noteq> ETHARP_FLAG_FIND_ONLY \<and>
         (\<forall>e\<in>set (arp_table A'). \<not> (ae_state e \<noteq> ARP_EMPTY \<and> ae_ip e = ip))))"
proof -
  have l: "length (arp_table A) = ARP_TABLE_SIZE" using ok by (simp add: arp_ok_def)
  note S = arp_sweep_table [OF l, of ip]
  show ?thesis
  proof (cases "arp_sweep ip 0 (arp_table A) no_cand")
    case (Inl i)
    then show ?thesis using S f ok l by (auto simp: etharp_find_entry_def)
  next
    case (Inr c)
    have c: "cand_ok (arp_table A) c" and N: "\<forall>e\<in>set (arp_table A). \<not> (ae_state e \<noteq> ARP_EMPTY \<and> ae_ip e = ip)" using S Inr by simp_all
    have I: "c_empty c < ARP_TABLE_SIZE \<and> ae_state (arp_table A ! c_empty c) = ARP_EMPTY \<or> c_empty c = ARP_TABLE_SIZE \<and>
        (\<forall>e\<in>set (arp_table A). ae_state e \<noteq> ARP_EMPTY)"
      "old_stable c \<le> ARP_TABLE_SIZE" "old_pending c \<le> ARP_TABLE_SIZE" "old_queue c \<le> ARP_TABLE_SIZE"
      "old_stable c = ARP_TABLE_SIZE \<Longrightarrow> \<forall>e\<in>set (arp_table A). \<not> is_stable (ae_state e)"
      "old_pending c = ARP_TABLE_SIZE \<Longrightarrow> \<forall>e\<in>set (arp_table A). \<not> is_waiting False e"
      "old_queue c = ARP_TABLE_SIZE \<Longrightarrow> \<forall>e\<in>set (arp_table A). \<not> is_waiting True e"
      using c l by (auto simp: cand_ok_def first_empty_def oldest_def)
    let ?new = "\<lambda>i A. upd_entry i (\<lambda>e. e\<lparr>ae_ip := ip, ae_ctime := 0\<rparr>) A"
    have new: "arp_ok (?new i B) \<and> ae_ip (arp_table (?new i B) ! i) = ip \<and> ae_state (arp_table (?new i B) ! i) = ARP_EMPTY \<and>
        ae_ctime (arp_table (?new i B) ! i) = 0 \<and> (\<forall>e\<in>set (arp_table (?new i B)). \<not> (ae_state e \<noteq> ARP_EMPTY \<and> ae_ip e = ip))"
      if B: "arp_ok B" "\<forall>e\<in>set (arp_table B). \<not> (ae_state e \<noteq> ARP_EMPTY \<and> ae_ip e = ip)" "ae_state (arp_table B ! i) = ARP_EMPTY"
        "i < ARP_TABLE_SIZE" for i B
    proof -
      have "i < length (arp_table B)" using B(1,4) by (simp add: arp_ok_def)
      moreover have "arp_ok (?new i B)"
        using arp_entry [OF B(1,4)] B(3) by (intro arp_ok_upd [OF B(1,4)]) (simp_all add: entry_ok_def is_stable_def)
      moreover have "ae_state e = ARP_EMPTY \<or> ae_ip e \<noteq> ip" if "e \<in> set (arp_table (?new i B))" for e
        using set_update_in [OF that [unfolded arp_sel]] B(2,3) by (elim disjE) simp_all
      ultimately show ?thesis using B(3) by simp
    qed
    have freed: "arp_ok (etharp_free_entry L i A) \<and> ae_state (arp_table (etharp_free_entry L i A) ! i) = ARP_EMPTY \<and>
        (\<forall>e\<in>set (arp_table (etharp_free_entry L i A)). \<not> (ae_state e \<noteq> ARP_EMPTY \<and> ae_ip e = ip))" if "i < ARP_TABLE_SIZE" for i
      using etharp_free_entry_ok [OF ok that] that l N by (auto simp: etharp_free_entry_def dest!: set_update_in)
    have F: "flags AND ETHARP_FLAG_FIND_ONLY \<noteq> 0" if "flags = ETHARP_FLAG_FIND_ONLY" using that by (simp add: ETHARP_FLAG_FIND_ONLY_def)
    have T: "flags AND ETHARP_FLAG_FIND_ONLY = 0 \<and> flags AND ETHARP_FLAG_TRY_HARD \<noteq> 0" if "flags = ETHARP_FLAG_TRY_HARD"
      using that by (simp add: ETHARP_FLAG_FIND_ONLY_def ETHARP_FLAG_TRY_HARD_def)
    have M: "arp_table A ! 0 \<in> set (arp_table A)" using l by (simp add: ARP_TABLE_SIZE_def)
    have W: "ae_state e = ARP_EMPTY \<or> is_stable (ae_state e) \<or> is_waiting False e \<or> is_waiting True e" for e
      by (cases "ae_state e") (auto simp: is_stable_def is_waiting_def)
    consider (none) "r = None" "A' = A" "flags AND ETHARP_FLAG_FIND_ONLY \<noteq> 0 \<or> c_empty c = ARP_TABLE_SIZE \<and> flags AND ETHARP_FLAG_TRY_HARD = 0 \<or>
        c_empty c = ARP_TABLE_SIZE \<and> old_stable c = ARP_TABLE_SIZE \<and> old_pending c = ARP_TABLE_SIZE \<and> old_queue c = ARP_TABLE_SIZE"
      | (empty) "r = Some (c_empty c)" "A' = ?new (c_empty c) A" "c_empty c < ARP_TABLE_SIZE" "flags AND ETHARP_FLAG_FIND_ONLY = 0"
      | (old) i where "r = Some i" "A' = ?new i (etharp_free_entry L i A)" "i < ARP_TABLE_SIZE" "flags AND ETHARP_FLAG_FIND_ONLY = 0"
      using f Inr I(1-4) by (fastforce simp: etharp_find_entry_def Let_def split: if_splits)
    then show ?thesis
    proof cases
      case none
      have "\<not> (c_empty c = ARP_TABLE_SIZE \<and> old_stable c = ARP_TABLE_SIZE \<and> old_pending c = ARP_TABLE_SIZE \<and> old_queue c = ARP_TABLE_SIZE)"
        using I(1) I(5) [THEN bspec, OF _ M] I(6) [THEN bspec, OF _ M] I(7) [THEN bspec, OF _ M] M W [of "arp_table A ! 0"] by force
      then show ?thesis using none ok T by auto
    next
      case empty
      then show ?thesis using new [OF ok N _ empty(3)] I(1) F by auto
    next
      case (old i)
      then show ?thesis using new [of "etharp_free_entry L i A" i] freed [OF old(3)] F by auto
    qed
  qed
qed

lemma arp_touch_ok:
  assumes ok: "arp_ok A" and i: "i < ARP_TABLE_SIZE" shows "arp_ok (arp_touch L nif i A)"
proof -
  have "arp_ok (upd_entry i (\<lambda>e. e\<lparr>ae_state := ARP_STABLE_REREQUESTING\<rparr>) B)"
    if "arp_ok B" "ae_state (arp_table B ! i) = ARP_STABLE" for B :: "'a arp"
    using arp_entry [OF that(1) i] that(2) by (intro arp_ok_upd [OF that(1) i]) (auto simp: entry_ok_def is_stable_def)
  then show ?thesis using ok by (auto simp: arp_touch_def Let_def on_dev_sel split: prod.splits)
qed

lemma etharp_stable_ok:
  assumes ok: "arp_ok A" shows "arp_ok (snd (etharp_stable L nif ip A))"
proof -
  have "arp_ok (A\<lparr>cached_entry := i\<rparr>)" if "i < ARP_TABLE_SIZE" for i using ok that by (simp add: arp_ok_def)
  moreover have "cached_entry A < ARP_TABLE_SIZE" using ok by (simp add: arp_ok_def)
  moreover have "i < ARP_TABLE_SIZE" if "find Q [0..<ARP_TABLE_SIZE] = Some i" for Q i using that by (auto simp: find_Some_iff)
  ultimately show ?thesis using ok by (auto simp: etharp_stable_def Let_def intro!: arp_touch_ok split: option.splits)
qed

text \<open>The entry that was found becomes pending or stable.\<close>

lemma found_upd_ok:
  assumes ok: "arp_ok A" and i: "i < ARP_TABLE_SIZE" and e: "entry_ok (f (arp_table A ! i))"
    and ip: "ae_ip (f (arp_table A ! i)) = ae_ip (arp_table A ! i)"
    and N: "ae_state (arp_table A ! i) \<noteq> ARP_EMPTY \<or>
      (\<forall>e\<in>set (arp_table A). \<not> (ae_state e \<noteq> ARP_EMPTY \<and> ae_ip e = ae_ip (arp_table A ! i)))"
  shows "arp_ok (upd_entry i f A)"
  using N by (intro arp_ok_upd [where f = f, OF ok i e]) (auto simp: ip)

lemma etharp_query_ok:
  assumes ok: "arp_ok A" shows "arp_ok (snd (etharp_query_packet L nif ip f A))"
proof (cases "ip4_addr_isbroadcast ip nif \<or> ip_addr_ismulticast ip \<or> ip = 0")
  case False
  obtain r B where F: "etharp_find_entry L ip ETHARP_FLAG_TRY_HARD A = (r, B)" by fastforce
  note B = arp_find [OF ok F]
  then obtain i where r: "r = Some i" and i: "i < ARP_TABLE_SIZE" by (auto split: option.splits)
  have okB: "arp_ok B" using B by simp
  let ?C = "if ae_state (arp_table B ! i) = ARP_EMPTY then upd_entry i (\<lambda>e. e\<lparr>ae_state := ARP_PENDING\<rparr>) B else B"
  have C: "arp_ok ?C"
  proof (cases "ae_state (arp_table B ! i) = ARP_EMPTY")
    case True
    then have "arp_ok (upd_entry i (\<lambda>e. e\<lparr>ae_state := ARP_PENDING\<rparr>) B)"
      using B r i arp_entry [OF okB i]
      by (intro found_upd_ok [OF okB i]) (auto simp: entry_ok_def is_stable_def ARP_MAXPENDING_def)
    then show ?thesis using True by simp
  qed (use okB in simp)
  have Q: "arp_ok (upd_entry i (\<lambda>e. e\<lparr>ae_q := Some p\<rparr>) D)" if "arp_ok D" "ae_state (arp_table D ! i) = ARP_PENDING" for p D
    using arp_entry [OF that(1) i] that(2) by (intro found_upd_ok [OF that(1) i]) (auto simp: entry_ok_def is_stable_def)
  show ?thesis
  proof (cases "ae_state (arp_table ?C ! i) = ARP_PENDING")
    case True
    obtain r1 D where D: "on_dev (etharp_request L nif ip) ?C = (r1, D)" by fastforce
    obtain a E where E: "on_dev (pbuf_alloc_ram L 0 (of_nat (length f))) D = (a, E)" by fastforce
    have E': "arp_ok E" "arp_table E = arp_table ?C" using on_dev_sel [OF D] on_dev_sel [OF E] C by simp_all
    have "arp_ok (upd_entry i (\<lambda>e. e\<lparr>ae_q := Some p\<rparr>) (free_q L q E))" for p q
      using Q [of "free_q L q E" p] E' True by simp
    then show ?thesis using False F r True D E E'(1)
      by (simp add: etharp_query_packet_def Let_def del: upd_entry_def split: option.split)
  next
    case ns: False
    obtain r1 D where D: "on_dev (linkoutput L (ae_mac (arp_table ?C ! i) @ if_hwaddr nif @ be_bytes 0x0800 @ drop 14 f)) (?C\<lparr>cached_entry := i\<rparr>) = (r1, D)"
      by fastforce
    have "arp_ok (?C\<lparr>cached_entry := i\<rparr>)" using C i by (simp add: arp_ok_def)
    then have "arp_ok D" using on_dev_sel(3) [OF D] by simp
    then show ?thesis using False F r ns D by (simp add: etharp_query_packet_def Let_def)
  qed
qed (use ok in \<open>auto simp: etharp_query_packet_def\<close>)

lemma etharp_update_ok:
  assumes ok: "arp_ok A" and mac: "length mac = 6" and fl: "flags = ETHARP_FLAG_TRY_HARD \<or> flags = ETHARP_FLAG_FIND_ONLY"
  shows "arp_ok (snd (etharp_update_arp_entry L nif ip mac flags A))"
proof (cases "ip = 0 \<or> ip4_addr_isbroadcast ip nif \<or> ip_addr_ismulticast ip")
  case False
  obtain r B where F: "etharp_find_entry L ip flags A = (r, B)" by fastforce
  note B = arp_find [OF ok F]
  have okB: "arp_ok B" using B by simp
  show ?thesis
  proof (cases r)
    case None
    then show ?thesis using False F okB by (simp add: etharp_update_arp_entry_def)
  next
    case (Some i)
    have i: "i < ARP_TABLE_SIZE" using B Some by simp
    let ?C = "upd_entry i (\<lambda>e. e\<lparr>ae_state := ARP_STABLE, ae_netif := True, ae_mac := mac, ae_ctime := 0, ae_q := None\<rparr>) B"
    have C: "arp_ok ?C"
      using B Some mac by (intro found_upd_ok [OF okB i]) (auto simp: entry_ok_def is_stable_def ARP_MAXAGE_def)
    have "arp_ok (snd (send_queued L nif p mac ?C))" for p
      using C by (simp add: send_queued_def split: prod.split)
    then show ?thesis using False F Some C by (simp add: etharp_update_arp_entry_def Let_def split: option.split)
  qed
qed (use ok in \<open>auto simp: etharp_update_arp_entry_def\<close>)

lemma etharp_arp_input_ok:
  assumes ok: "arp_ok A" and p: "pb_wf p" shows "arp_ok (etharp_arp_input L rx_free nif p A)"
proof (cases "unat (pb_len p) < SIZEOF_ETHARP_PACKET")
  case False
  have "length (pbuf_data p) = unat (pb_len p)" using p by (simp add: pbuf_data_def pb_wf_def)
  then have "length (take 6 (drop 22 (pbuf_data p))) = 6" using False by (simp add: SIZEOF_ETHARP_PACKET_def)
  then have "arp_ok (snd (etharp_update_arp_entry L nif ip (take 6 (drop 22 (pbuf_data p))) ETHARP_FLAG_TRY_HARD A))"
    "arp_ok (snd (etharp_update_arp_entry L nif ip (take 6 (drop 22 (pbuf_data p))) ETHARP_FLAG_FIND_ONLY A))" for ip
    by (simp_all add: etharp_update_ok [OF ok])
  then show ?thesis using ok False by (auto simp: etharp_arp_input_def Let_def on_dev_def split: prod.split)
qed (use ok in \<open>simp add: etharp_arp_input_def Let_def\<close>)

section \<open>Any sequence of operations\<close>

datatype arp_op = Arp_Timer | Arp_Cleanup | Arp_Lookup u32 | Arp_Query u32 "u8 list" | Arp_Frame pbuf

fun arp_do :: "'n lwip \<Rightarrow> (pbuf \<Rightarrow> 'n \<Rightarrow> 'n) \<Rightarrow> netif \<Rightarrow> arp_op \<Rightarrow> 'n arp \<Rightarrow> 'n arp" where
  "arp_do L rx_free nif Arp_Timer A = etharp_tmr L A"
| "arp_do L rx_free nif Arp_Cleanup A = etharp_cleanup_netif L A"
| "arp_do L rx_free nif (Arp_Lookup ip) A = snd (etharp_stable L nif ip A)"
| "arp_do L rx_free nif (Arp_Query ip f) A = snd (etharp_query_packet L nif ip f A)"
| "arp_do L rx_free nif (Arp_Frame p) A = etharp_arp_input L rx_free nif p A"

fun op_ok :: "arp_op \<Rightarrow> bool" where
  "op_ok (Arp_Frame p) = pb_wf p"
| "op_ok _ = True"

definition arp_start :: "'n \<Rightarrow> 'n arp" where
  "arp_start n = \<lparr>arp_table = replicate ARP_TABLE_SIZE
     \<lparr>ae_q = None, ae_ip = 0, ae_netif = False, ae_mac = ethzero, ae_state = ARP_EMPTY, ae_ctime = 0\<rparr>, cached_entry = 0, dev = n\<rparr>"

lemma arp_start_ok: "arp_ok (arp_start n)"
  by (simp add: arp_ok_def arp_start_def entry_ok_def is_stable_def ARP_TABLE_SIZE_def)

lemma arp_do_ok: "arp_ok A \<Longrightarrow> op_ok op \<Longrightarrow> arp_ok (arp_do L rx_free nif op A)"
  by (cases op) (simp_all add: etharp_tmr_ok etharp_cleanup_ok etharp_stable_ok etharp_query_ok etharp_arp_input_ok)

lemma arp_run_ok: "arp_ok A \<Longrightarrow> \<forall>op\<in>set ops. op_ok op \<Longrightarrow> arp_ok (fold (arp_do L rx_free nif) ops A)"
  by (induction ops arbitrary: A) (simp_all add: arp_do_ok)

text \<open>C18: After any sequence of timer calls, lookups, queries, received ARP frames and clean-ups: no
  two used entries have the same address, no entry but a pending one holds a packet, hardware
  addresses have six bytes, ages are below their limits, and a search that may recycle an entry
  finds one.\<close>

theorem arp_invariant:
  assumes "\<forall>op\<in>set ops. op_ok op"
  shows "arp_ok (fold (arp_do L rx_free nif) ops (arp_start n)) \<and>
    fst (etharp_find_entry L ip ETHARP_FLAG_TRY_HARD (fold (arp_do L rx_free nif) ops (arp_start n))) \<noteq> None"
proof -
  let ?A = "fold (arp_do L rx_free nif) ops (arp_start n)"
  have ok: "arp_ok ?A" by (rule arp_run_ok [OF arp_start_ok assms])
  obtain r B where F: "etharp_find_entry L ip ETHARP_FLAG_TRY_HARD ?A = (r, B)" by fastforce
  show ?thesis using ok F arp_find [OF ok F] by (auto split: option.splits)
qed

section \<open>Ageing\<close>

text \<open>The effect of one call of the timer on an entry.\<close>

definition tick_entry :: "arp_entry \<Rightarrow> arp_entry" where
  "tick_entry e =
     (if ae_state e = ARP_EMPTY then e
      else if ARP_MAXAGE \<le> ae_ctime e + 1 \<or> ae_state e = ARP_PENDING \<and> ARP_MAXPENDING \<le> ae_ctime e + 1
      then \<lparr>ae_q = None, ae_ip = 0, ae_netif = False, ae_mac = ethzero, ae_state = ARP_EMPTY, ae_ctime = 0\<rparr>
      else e\<lparr>ae_ctime := ae_ctime e + 1, ae_state := (if ae_state e = ARP_STABLE_REREQUESTING then ARP_STABLE else ae_state e)\<rparr>)"

lemma etharp_tmr_entry_table:
  "i < length (arp_table A) \<Longrightarrow> arp_table (etharp_tmr_entry L i A) = (arp_table A)[i := tick_entry (arp_table A ! i)]"
  by (auto simp: etharp_tmr_entry_def tick_entry_def Let_def etharp_free_entry_def)

lemma etharp_tmr_upto:
  "n \<le> length (arp_table A) \<Longrightarrow>
     arp_table (fold (etharp_tmr_entry L) [0..<n] A) = map tick_entry (take n (arp_table A)) @ drop n (arp_table A)"
proof (induction n)
  case (Suc n)
  then show ?case
    by (simp add: etharp_tmr_entry_table nth_append take_Suc_conv_app_nth list_update_append Cons_nth_drop_Suc [symmetric])
qed simp

lemma etharp_tmr_table:
  "length (arp_table A) = ARP_TABLE_SIZE \<Longrightarrow> arp_table (etharp_tmr L A) = map tick_entry (arp_table A)"
  using etharp_tmr_upto [of ARP_TABLE_SIZE A L] by (simp add: etharp_tmr_def)

lemma etharp_tmrs_table:
  "length (arp_table A) = ARP_TABLE_SIZE \<Longrightarrow> arp_table ((etharp_tmr L ^^ n) A) = map (tick_entry ^^ n) (arp_table A)"
  by (induction n) (simp_all add: etharp_tmr_table)

text \<open>The number of calls a fresh entry lives.\<close>

definition lifetime :: "arp_entry \<Rightarrow> nat" where
  "lifetime e = (if ae_state e = ARP_PENDING then unat ARP_MAXPENDING else unat ARP_MAXAGE)"

text \<open>Unchanged but for the age, and but for the mark of a repeated request, which the timer takes away.\<close>

definition same_entry :: "arp_entry \<Rightarrow> arp_entry \<Rightarrow> bool" where
  "same_entry e e' \<longleftrightarrow>
     (ae_state e' = ae_state e \<or> ae_state e = ARP_STABLE_REREQUESTING \<and> ae_state e' = ARP_STABLE) \<and>
     ae_netif e' = ae_netif e \<and> ae_ip e' = ae_ip e \<and> ae_mac e' = ae_mac e \<and> ae_q e' = ae_q e"

lemma unat_count: "m < 256 \<Longrightarrow> unat (of_nat m :: u8) = m"
  by (simp add: unat_of_nat)

lemma tick_fresh:
  assumes ne: "ae_state e \<noteq> ARP_EMPTY" and c: "ae_ctime e = 0"
  shows "n < lifetime e \<Longrightarrow> same_entry e ((tick_entry ^^ n) e) \<and> ae_ctime ((tick_entry ^^ n) e) = of_nat n"
proof (induction n)
  case (Suc n)
  let ?e = "(tick_entry ^^ n) e"
  have IH: "same_entry e ?e" "ae_ctime ?e = of_nat n" using Suc by simp_all
  have b: "Suc n < lifetime e" by (rule Suc.prems)
  have u: "unat (of_nat n + 1 :: u8) = Suc n" if "Suc n < 240"
    using that unat_count [of "Suc n"] by (simp add: add.commute)
  have "\<not> (ARP_MAXAGE \<le> ae_ctime ?e + 1 \<or> ae_state ?e = ARP_PENDING \<and> ARP_MAXPENDING \<le> ae_ctime ?e + 1)"
    using b u IH by (auto simp: lifetime_def same_entry_def word_le_nat_alt ARP_MAXAGE_def ARP_MAXPENDING_def split: if_splits)
  moreover have "ae_state ?e \<noteq> ARP_EMPTY" using IH(1) ne by (cases "ae_state e") (auto simp: same_entry_def is_stable_def)
  ultimately have t: "tick_entry ?e = ?e\<lparr>ae_ctime := ae_ctime ?e + 1,
      ae_state := (if ae_state ?e = ARP_STABLE_REREQUESTING then ARP_STABLE else ae_state ?e)\<rparr>"
    unfolding tick_entry_def by (simp only: if_False)
  have "same_entry e (tick_entry ?e)" using IH(1) unfolding t by (cases "ae_state ?e") (simp_all add: same_entry_def is_stable_def)
  moreover have "ae_ctime (tick_entry ?e) = of_nat (Suc n)" unfolding t using IH(2) by simp
  ultimately show ?case by simp
qed (use c in \<open>simp add: same_entry_def\<close>)

lemma lifetime_pos: "0 < lifetime e" "lifetime e \<le> 240"
  by (simp_all add: lifetime_def ARP_MAXAGE_def ARP_MAXPENDING_def)

lemma tick_last:
  assumes "ae_state e \<noteq> ARP_EMPTY" "ae_ctime e = 0"
  shows "ae_state ((tick_entry ^^ lifetime e) e) = ARP_EMPTY"
proof -
  obtain n where n: "lifetime e = Suc n" using lifetime_pos(1) [of e] by (cases "lifetime e") auto
  note T = tick_fresh [OF assms, of n]
  have u: "unat (of_nat n + 1 :: u8) = Suc n"
    using n lifetime_pos(2) [of e] unat_count [of "Suc n"] by (simp add: add.commute)
  have "ARP_MAXAGE \<le> ae_ctime ((tick_entry ^^ n) e) + 1 \<or> ae_state ((tick_entry ^^ n) e) = ARP_PENDING \<and> ARP_MAXPENDING \<le> ae_ctime ((tick_entry ^^ n) e) + 1"
    using n u T by (auto simp: lifetime_def same_entry_def word_le_nat_alt split: if_splits)
  then show ?thesis by (simp add: n tick_entry_def)
qed

text \<open>C20: A fresh entry of the ARP cache keeps its address, hardware address, interface and packet
  for 239 calls of the timer, a pending one for one, and its state but that a repeated request is
  over after a call; it is empty after the 240th, or the second.\<close>

theorem arp_entry_lifetime:
  assumes "arp_ok A" "i < ARP_TABLE_SIZE" "ae_state (arp_table A ! i) \<noteq> ARP_EMPTY" "ae_ctime (arp_table A ! i) = 0"
    "n < lifetime (arp_table A ! i)"
  shows "same_entry (arp_table A ! i) (arp_table ((etharp_tmr L ^^ n) A) ! i) \<and>
    ae_state (arp_table ((etharp_tmr L ^^ lifetime (arp_table A ! i)) A) ! i) = ARP_EMPTY"
proof -
  have l: "length (arp_table A) = ARP_TABLE_SIZE" using assms(1) by (simp add: arp_ok_def)
  show ?thesis
    using assms(2) l tick_fresh [OF assms(3-5)] tick_last [OF assms(3,4)] by (simp add: etharp_tmrs_table)
qed

section \<open>Resolving an address\<close>

text \<open>What resolving relies on: \<^verbatim>\<open>up b n\<close> says that in the state \<^verbatim>\<open>n\<close> of the parts below \<^verbatim>\<open>b\<close> packets are held
  and that the driver takes frames; with none held the heap has a block of up to 1600 bytes.  Giving a packet
  back takes nothing away.  Of a state that is not \<^verbatim>\<open>up\<close> nothing is asked.\<close>

definition sends :: "'n lwip \<Rightarrow> ('n \<Rightarrow> u8 list list) \<Rightarrow> (nat \<Rightarrow> 'n \<Rightarrow> bool) \<Rightarrow> bool" where
  "sends L frames up \<longleftrightarrow>
     (\<forall>k n. 0 < k \<longrightarrow> k \<le> 1600 \<longrightarrow> up 0 n \<longrightarrow>
        (\<exists>bs n'. mem_malloc L k n = (Some bs, n') \<and> length bs = k \<and> frames n' = frames n \<and> up 1 n')) \<and>
     (\<forall>p b n. up b n \<longrightarrow> frames (mem_free L p n) = frames n \<and> up (b - 1) (mem_free L p n)) \<and>
     (\<forall>f b n. up b n \<longrightarrow> (\<exists>n'. linkoutput L f n = (ERR_OK, n') \<and> frames n' = frames n @ [f] \<and> up b n'))"

lemma sends_malloc:
  assumes "sends L frames up" "up 0 n" "0 < k" "k \<le> 1600"
  shows "\<exists>bs n'. mem_malloc L k n = (Some bs, n') \<and> length bs = k \<and> frames n' = frames n \<and> up 1 n'"
  using assms unfolding sends_def by blast

lemma sends_free:
  assumes "sends L frames up" "up b n"
  shows "frames (mem_free L p n) = frames n" "up (b - 1) (mem_free L p n)"
  using assms by (simp_all add: sends_def)

lemma sends_out:
  assumes "sends L frames up" "up b n"
  shows "\<exists>n'. linkoutput L f n = (ERR_OK, n') \<and> frames n' = frames n @ [f] \<and> up b n'"
  using assms unfolding sends_def by blast

lemma sends_free_q:
  assumes "sends L frames up" "up 0 (dev A)"
  shows "frames (dev (free_q L q A)) = frames (dev A)" "up 0 (dev (free_q L q A))"
  using assms(2) sends_free [OF assms] by (simp_all add: free_q_def split: option.split)

lemma sends_find:
  assumes "sends L frames up" "etharp_find_entry L ip flags A = (r, B)" "up 0 (dev A)"
  shows "frames (dev B) = frames (dev A)" "up 0 (dev B)"
proof -
  have e: "frames (dev (etharp_free_entry L i A)) = frames (dev A)" "up 0 (dev (etharp_free_entry L i A))" for i
    using sends_free_q [OF assms(1,3)] by (simp_all add: etharp_free_entry_def)
  have "frames (dev B) = frames (dev A) \<and> up 0 (dev B)"
    using assms(2,3) by (auto simp: etharp_find_entry_def Let_def e split: sum.splits if_splits)
  then show "frames (dev B) = frames (dev A)" "up 0 (dev B)" by simp_all
qed

lemma sends_alloc:
  assumes S: "sends L frames up" and k: "k \<le> 1514" and up: "up 0 n"
  shows "\<exists>p n'. pbuf_alloc_ram L 0 (of_nat k) n = (Some p, n') \<and> frames n' = frames n \<and> pb_payload p = 0 \<and> unat (pb_len p) = k \<and>
     k \<le> length (pb_mem p) \<and> up 1 n'"
proof -
  have u: "unat (of_nat k :: u16) = k" using k by (simp add: unat_of_nat)
  have b: "16 + (k + 3) div 4 * 4 \<le> 1600" using k by linarith
  have l: "0 < LWIP_MEM_ALIGN_SIZE (SIZEOF_STRUCT_PBUF + 0) + LWIP_MEM_ALIGN_SIZE k"
    "LWIP_MEM_ALIGN_SIZE (SIZEOF_STRUCT_PBUF + 0) + LWIP_MEM_ALIGN_SIZE k \<le> 1600"
    using k b by (simp_all add: LWIP_MEM_ALIGN_SIZE_def SIZEOF_STRUCT_PBUF_def)
  have v: "unat (of_nat (LWIP_MEM_ALIGN_SIZE (SIZEOF_STRUCT_PBUF + 0) + LWIP_MEM_ALIGN_SIZE k) :: u16) =
      LWIP_MEM_ALIGN_SIZE (SIZEOF_STRUCT_PBUF + 0) + LWIP_MEM_ALIGN_SIZE k"
    using b by (simp add: LWIP_MEM_ALIGN_SIZE_def SIZEOF_STRUCT_PBUF_def unat_of_nat del: of_nat_add of_nat_mult)
  obtain bs n' where m: "mem_malloc L (LWIP_MEM_ALIGN_SIZE (SIZEOF_STRUCT_PBUF + 0) + LWIP_MEM_ALIGN_SIZE k) n = (Some bs, n')"
      "length bs = LWIP_MEM_ALIGN_SIZE (SIZEOF_STRUCT_PBUF + 0) + LWIP_MEM_ALIGN_SIZE k" "frames n' = frames n" "up 1 n'"
    using sends_malloc [OF S up l] by blast
  have "k \<le> (k + 3) div 4 * 4" by linarith
  then show ?thesis
    using m unfolding pbuf_alloc_ram_def u v by (simp add: LWIP_MEM_ALIGN_SIZE_def SIZEOF_STRUCT_PBUF_def u)
qed

lemma poke_all:
  "pb_payload p = 0 \<Longrightarrow> unat (pb_len p) = length f \<Longrightarrow> pbuf_data (poke f p) = f"
  by (simp add: poke_def pbuf_data_def)

lemma poke_front:
  assumes "pb_wf p" "length h \<le> unat (pb_len p)"
  shows "pbuf_data (poke h p) = h @ drop (length h) (pbuf_data p)"
  using assms by (simp add: pb_wf_def pbuf_data_def poke_def drop_take add.commute)

lemma length_arp_packet:
  "length ethdst = 6 \<Longrightarrow> length ethsrc = 6 \<Longrightarrow> length hwsrc = 6 \<Longrightarrow> length hwdst = 6 \<Longrightarrow>
     length (arp_packet ethdst ethsrc opcode hwsrc ipsrc hwdst ipdst) = 42"
  by (simp add: arp_packet_def be_bytes_def ip_bytes_def)

lemma sends_raw:
  assumes S: "sends L frames up" and l: "length ethsrc = 6" "length ethdst = 6" "length hwsrc = 6" "length hwdst = 6"
    and up: "up 0 n"
  shows "\<exists>n'. etharp_raw L ethsrc ethdst hwsrc ipsrc hwdst ipdst opcode n = (ERR_OK, n') \<and>
     frames n' = frames n @ [arp_packet ethdst ethsrc opcode hwsrc ipsrc hwdst ipdst] \<and> up 0 n'"
proof -
  let ?f = "arp_packet ethdst ethsrc opcode hwsrc ipsrc hwdst ipdst"
  have f: "length ?f = 42" using l by (simp add: length_arp_packet)
  obtain p n1 where p: "pbuf_alloc_ram L 0 42 n = (Some p, n1)" "frames n1 = frames n" "pb_payload p = 0" "unat (pb_len p) = 42"
    "up 1 n1" using sends_alloc [OF S _ up, of 42] by auto
  obtain n2 where n2: "linkoutput L ?f n1 = (ERR_OK, n2)" "frames n2 = frames n1 @ [?f]" "up 1 n2"
    using sends_out [OF S p(5)] by blast
  have "frames (mem_free L q n2) = frames n2" "up 0 (mem_free L q n2)" for q using sends_free [OF S n2(3), of q] by simp_all
  then show ?thesis using p n2 f by (simp add: etharp_raw_def SIZEOF_ETHARP_PACKET_def poke_all Let_def)
qed

definition arp_request_frame :: "netif \<Rightarrow> u32 \<Rightarrow> u8 list" where
  "arp_request_frame nif ip =
     arp_packet ethbroadcast (if_hwaddr nif) ARP_REQUEST (if_hwaddr nif) (if_ip_addr nif) ethzero ip"

lemma sends_request:
  assumes "sends L frames up" "length (if_hwaddr nif) = 6" "up 0 n"
  shows "\<exists>n'. etharp_request L nif ip n = (ERR_OK, n') \<and> frames n' = frames n @ [arp_request_frame nif ip] \<and> up 0 n'"
  using sends_raw [OF assms(1) _ _ _ _ assms(3), of "if_hwaddr nif" ethbroadcast "if_hwaddr nif" ethzero] assms(2)
  by (simp add: etharp_request_def arp_request_frame_def ethbroadcast_def ethzero_def)

definition unicast :: "netif \<Rightarrow> u32 \<Rightarrow> bool" where
  "unicast nif ip \<longleftrightarrow> \<not> ip4_addr_isbroadcast ip nif \<and> \<not> ip_addr_ismulticast ip"

lemma unicast_nonzero: "unicast nif ip \<Longrightarrow> ip \<noteq> 0"
  by (auto simp: unicast_def ip4_addr_isbroadcast_def)

definition unknown :: "u32 \<Rightarrow> 'n arp \<Rightarrow> bool" where
  "unknown ip A \<longleftrightarrow> (\<forall>e\<in>set (arp_table A). \<not> (ae_state e \<noteq> ARP_EMPTY \<and> ae_ip e = ip))"

lemma etharp_stable_none:
  assumes ok: "arp_ok A" and N: "unknown ip A"
  shows "etharp_stable L nif ip A = (None, A)"
proof -
  have m: "arp_table A ! i \<in> set (arp_table A)" if "i < ARP_TABLE_SIZE" for i using ok that by (simp add: arp_ok_def)
  have "\<not> stable_for ip (arp_table A ! i)" if "i < ARP_TABLE_SIZE" for i
    using N [unfolded unknown_def, THEN bspec, OF m [OF that]] by (auto simp: stable_for_def is_stable_def)
  moreover from this have "find (\<lambda>i. stable_for ip (arp_table A ! i)) [0..<ARP_TABLE_SIZE] = None" by (auto simp: find_None_iff)
  ultimately show ?thesis using ok by (simp add: etharp_stable_def arp_ok_def)
qed

lemma arp_unique:
  assumes "arp_ok A" "i < ARP_TABLE_SIZE" "j < ARP_TABLE_SIZE" "ae_state (arp_table A ! i) \<noteq> ARP_EMPTY"
    "ae_state (arp_table A ! j) \<noteq> ARP_EMPTY" "ae_ip (arp_table A ! i) = ae_ip (arp_table A ! j)"
  shows "i = j"
  using assms unfolding arp_ok_def by metis

lemma arp_find_known:
  assumes ok: "arp_ok A" and i: "i < ARP_TABLE_SIZE" and ne: "ae_state (arp_table A ! i) \<noteq> ARP_EMPTY" and ip: "ae_ip (arp_table A ! i) = ip"
  shows "etharp_find_entry L ip flags A = (Some i, A)"
proof -
  have l: "length (arp_table A) = ARP_TABLE_SIZE" using ok by (simp add: arp_ok_def)
  note S = arp_sweep_table [OF l, of ip]
  show ?thesis
  proof (cases "arp_sweep ip 0 (arp_table A) no_cand")
    case (Inl j)
    then have j: "j < ARP_TABLE_SIZE" "ae_state (arp_table A ! j) \<noteq> ARP_EMPTY" "ae_ip (arp_table A ! j) = ip" using S l by simp_all
    have "j = i" by (rule arp_unique [OF ok j(1) i j(2) ne]) (simp add: j(3) ip)
    then show ?thesis using Inl by (simp add: etharp_find_entry_def)
  next
    case (Inr c)
    then have "\<forall>e\<in>set (arp_table A). \<not> (ae_state e \<noteq> ARP_EMPTY \<and> ae_ip e = ip)" using S by simp
    then have "\<not> (ae_state (arp_table A ! i) \<noteq> ARP_EMPTY \<and> ae_ip (arp_table A ! i) = ip)" using i l by simp
    then show ?thesis using ne ip by simp
  qed
qed

text \<open>An entry younger than \<^verbatim>\<open>ARP_AGE_REREQUEST_USED\<close> is used without a request.\<close>

lemma etharp_stable_some:
  assumes ok: "arp_ok A" and i: "i < ARP_TABLE_SIZE" and s: "stable_for ip (arp_table A ! i)"
    and c: "ae_ctime (arp_table A ! i) < ARP_AGE_REREQUEST_USED"
  shows "etharp_stable L nif ip A = (Some (ae_mac (arp_table A ! i)), A\<lparr>cached_entry := i\<rparr>)"
proof -
  have ne: "ae_state e \<noteq> ARP_EMPTY \<and> ae_ip e = ip" if "stable_for ip e" for e using that by (auto simp: stable_for_def is_stable_def)
  have J: "j = i" if "j < ARP_TABLE_SIZE" "stable_for ip (arp_table A ! j)" for j
    using ne [OF that(2)] ne [OF s] by (intro arp_unique [OF ok that(1) i]) simp_all
  have t: "arp_touch L nif i B = B" if "arp_table B = arp_table A" for B
    using that c by (auto simp: arp_touch_def Let_def)
  show ?thesis
  proof (cases "stable_for ip (arp_table A ! cached_entry A)")
    case True
    then have "cached_entry A = i" using J ok by (simp add: arp_ok_def)
    moreover from this have "A\<lparr>cached_entry := i\<rparr> = A" by (intro arp.equality) simp_all
    ultimately show ?thesis using True t by (simp add: etharp_stable_def Let_def)
  next
    case False
    have "find (\<lambda>j. stable_for ip (arp_table A ! j)) [0..<ARP_TABLE_SIZE] = Some i"
    proof (cases "find (\<lambda>j. stable_for ip (arp_table A ! j)) [0..<ARP_TABLE_SIZE]")
      case None
      then show ?thesis using i s by (auto simp: find_None_iff)
    next
      case (Some j)
      then have "j < ARP_TABLE_SIZE" "stable_for ip (arp_table A ! j)" by (auto simp: find_Some_iff)
      then show ?thesis using Some J by simp
    qed
    then show ?thesis using False t by (simp add: etharp_stable_def Let_def)
  qed
qed

text \<open>The packet waits in the entry while the request is on the way.\<close>

definition waits :: "u32 \<Rightarrow> u8 list \<Rightarrow> nat \<Rightarrow> 'n arp \<Rightarrow> bool" where
  "waits ip f i A \<longleftrightarrow> i < ARP_TABLE_SIZE \<and> ae_state (arp_table A ! i) = ARP_PENDING \<and> ae_ip (arp_table A ! i) = ip \<and>
     (\<exists>p. ae_q (arp_table A ! i) = Some p \<and> pb_payload p = 0 \<and> unat (pb_len p) = length f \<and> length f \<le> length (pb_mem p) \<and>
        pbuf_data p = f)"

lemma query_waits:
  assumes ok: "arp_ok A" and S: "sends L frames up" and hw: "length (if_hwaddr nif) = 6" and U: "unicast nif ip" and N: "unknown ip A"
    and f: "length f \<le> 1514" and up: "up 0 (dev A)"
  shows "\<exists>i A'. etharp_query_packet L nif ip f A = (ERR_OK, A') \<and> arp_ok A' \<and> waits ip f i A' \<and>
    frames (dev A') = frames (dev A) @ [arp_request_frame nif ip] \<and> up 1 (dev A')"
proof -
  obtain r B where F: "etharp_find_entry L ip ETHARP_FLAG_TRY_HARD A = (r, B)" by fastforce
  note B = arp_find [OF ok F]
  obtain i where r: "r = Some i" "i < ARP_TABLE_SIZE" "ae_ip (arp_table B ! i) = ip" using B by (auto split: option.splits)
  have lA: "length (arp_table A) = ARP_TABLE_SIZE" and lB: "i < length (arp_table B)" using ok B r(2) by (simp_all add: arp_ok_def)
  have e: "ae_state (arp_table B ! i) = ARP_EMPTY"
  proof (rule ccontr)
    assume "ae_state (arp_table B ! i) \<noteq> ARP_EMPTY"
    then have "B = A" "ae_state (arp_table A ! i) \<noteq> ARP_EMPTY" using B r by auto
    then show False using N [unfolded unknown_def, THEN bspec, of "arp_table A ! i"] r lA by simp
  qed
  let ?C = "upd_entry i (\<lambda>e. e\<lparr>ae_state := ARP_PENDING\<rparr>) B"
  obtain n1 where n1: "etharp_request L nif ip (dev ?C) = (ERR_OK, n1)" "frames n1 = frames (dev B) @ [arp_request_frame nif ip]" "up 0 n1"
    using sends_request [OF S hw, of "dev ?C" ip] sends_find(2) [OF S F up] by auto
  obtain p n2 where p: "pbuf_alloc_ram L 0 (of_nat (length f)) n1 = (Some p, n2)" "frames n2 = frames n1" "pb_payload p = 0"
    "unat (pb_len p) = length f" "length f \<le> length (pb_mem p)" "up 1 n2" using sends_alloc [OF S f n1(3)] by auto
  let ?D = "upd_entry i (\<lambda>e. e\<lparr>ae_q := Some (poke f p)\<rparr>) (free_q L (ae_q (arp_table B ! i)) (?C\<lparr>dev := n2\<rparr>))"
  have q: "etharp_query_packet L nif ip f A = (ERR_OK, ?D)"
    using F r e n1 p U lB unicast_nonzero [OF U] by (simp add: etharp_query_packet_def unicast_def Let_def on_dev_def)
  have "arp_ok ?D" using etharp_query_ok [OF ok, of L nif ip f] q by simp
  moreover have "waits ip f i ?D" using r lB p poke_all [OF p(3,4)] by (simp add: waits_def poke_def)
  moreover have "ae_q (arp_table B ! i) = None"
  proof -
    have "arp_ok B" using B by simp
    then show ?thesis using e r(2) lB by (simp add: arp_ok_def entry_ok_def)
  qed
  then have "frames (dev ?D) = frames (dev A) @ [arp_request_frame nif ip]" "up 1 (dev ?D)"
    using sends_find(1) [OF S F up] n1 p by (simp_all add: free_q_def)
  ultimately show ?thesis using q by (intro exI conjI)
qed

lemma update_sends:
  assumes ok: "arp_ok A" and S: "sends L frames up" and U: "unicast nif ip" and w: "waits ip f i A" and mac: "length mac = 6"
    and hw: "length (if_hwaddr nif) = 6" and f: "14 \<le> length f" and up: "up 1 (dev A)"
  shows "\<exists>A'. etharp_update_arp_entry L nif ip mac ETHARP_FLAG_TRY_HARD A = (ERR_OK, A') \<and> arp_ok A' \<and>
    stable_for ip (arp_table A' ! i) \<and> ae_mac (arp_table A' ! i) = mac \<and> ae_ctime (arp_table A' ! i) = 0 \<and>
    frames (dev A') = frames (dev A) @ [eth_header nif mac @ drop 14 f] \<and> up 0 (dev A')"
proof -
  obtain r B where F: "etharp_find_entry L ip ETHARP_FLAG_TRY_HARD A = (r, B)" by fastforce
  have W: "i < ARP_TABLE_SIZE" "ae_state (arp_table A ! i) = ARP_PENDING" "ae_ip (arp_table A ! i) = ip" using w by (simp_all add: waits_def)
  obtain p where p: "ae_q (arp_table A ! i) = Some p" "pb_payload p = 0" "unat (pb_len p) = length f" "length f \<le> length (pb_mem p)"
    "pbuf_data p = f" using w by (auto simp: waits_def)
  have l: "i < length (arp_table A)" using ok W(1) by (simp add: arp_ok_def)
  have rB: "r = Some i" "B = A" using F arp_find_known [OF ok W(1) _ W(3), of L ETHARP_FLAG_TRY_HARD] W(2) by simp_all
  let ?C = "upd_entry i (\<lambda>e. e\<lparr>ae_state := ARP_STABLE, ae_netif := True, ae_mac := mac, ae_ctime := 0, ae_q := None\<rparr>) A"
  let ?p = "poke (mac @ if_hwaddr nif @ be_bytes 0x0800) p"
  let ?f = "eth_header nif mac @ drop 14 f"
  have d: "pbuf_data ?p = ?f"
    using poke_front [of p "eth_header nif mac"] p f mac hw by (simp add: eth_header_def be_bytes_def pb_wf_def)
  obtain n where n: "linkoutput L ?f (dev A) = (ERR_OK, n)" "frames n = frames (dev A) @ [?f]" "up 1 n"
    using sends_out [OF S up] by blast
  let ?A = "?C\<lparr>dev := mem_free L ?p n\<rparr>"
  have u: "etharp_update_arp_entry L nif ip mac ETHARP_FLAG_TRY_HARD A = (ERR_OK, ?A)"
    using F rB p(1) U unicast_nonzero [OF U] n(1) d
    by (simp add: etharp_update_arp_entry_def unicast_def Let_def send_queued_def etharp_send_ip_def)
  have "arp_ok ?A" using etharp_update_ok [OF ok mac, of ETHARP_FLAG_TRY_HARD L nif ip] u by simp
  moreover have "frames (dev ?A) = frames (dev A) @ [?f]" "up 0 (dev ?A)" using sends_free [OF S n(3), of ?p] n(2) by simp_all
  ultimately show ?thesis using u W l by (intro exI [where x = ?A]) (simp add: stable_for_def is_stable_def)
qed

text \<open>The parts of an ARP packet as \<^verbatim>\<open>etharp_arp_input\<close> reads them.\<close>

definition arp_frame :: "u8 list \<Rightarrow> u16 \<Rightarrow> u8 list \<Rightarrow> u32 \<Rightarrow> u8 list \<Rightarrow> u32 \<Rightarrow> u8 list \<Rightarrow> pbuf \<Rightarrow> bool" where
  "arp_frame dst opcode hwsrc ipsrc hwdst ipdst pad p \<longleftrightarrow>
     pbuf_data p = arp_packet dst hwsrc opcode hwsrc ipsrc hwdst ipdst @ pad \<and> pb_wf p \<and>
     length dst = 6 \<and> length hwsrc = 6 \<and> length hwdst = 6"

lemma six: "length xs = 6 \<Longrightarrow> \<exists>a b c d e f. xs = [a, b, c, d, e, f]"
  by (auto simp: numeral_eq_Suc length_Suc_conv)

lemma arp_frame_reads:
  assumes "arp_frame dst opcode hwsrc ipsrc hwdst ipdst pad p"
  shows "\<not> unat (pb_len p) < SIZEOF_ETHARP_PACKET" "be16_at (pbuf_data p) 14 = 1" "pbuf_data p ! 18 = 6" "pbuf_data p ! 19 = 4"
    "be16_at (pbuf_data p) 16 = 0x0800" "be16_at (pbuf_data p) 20 = opcode" "take 6 (drop 22 (pbuf_data p)) = hwsrc"
    "ip_at (pbuf_data p) 28 = ipsrc" "ip_at (pbuf_data p) 38 = ipdst" "take 8 (drop 12 (pbuf_data p)) = [8, 6, 0, 1, 8, 0, 6, 4]"
proof -
  have l: "length dst = 6" "length hwsrc = 6" "length hwdst = 6" using assms by (simp_all add: arp_frame_def)
  obtain a b c d e f where x: "dst = [a, b, c, d, e, f]" using six [OF l(1)] by blast
  obtain a' b' c' d' e' f' where y: "hwsrc = [a', b', c', d', e', f']" using six [OF l(2)] by blast
  obtain a'' b'' c'' d'' e'' f'' where z: "hwdst = [a'', b'', c'', d'', e'', f'']" using six [OF l(3)] by blast
  have D: "pbuf_data p = arp_packet dst hwsrc opcode hwsrc ipsrc hwdst ipdst @ pad" using assms by (simp add: arp_frame_def)
  have "pb_wf p" using assms by (simp add: arp_frame_def)
  then have "length (pbuf_data p) = unat (pb_len p)" by (simp add: pb_wf_def pbuf_data_def)
  then show "\<not> unat (pb_len p) < SIZEOF_ETHARP_PACKET"
    using D length_arp_packet [OF l(1,2,2,3)] by (simp add: SIZEOF_ETHARP_PACKET_def)
  note U = D x y z arp_packet_def
  show "be16_at (pbuf_data p) 20 = opcode" "be16_at (pbuf_data p) 14 = 1" "be16_at (pbuf_data p) 16 = 0x0800"
    unfolding U by (rule be16_at_bytes; simp add: be_bytes_def ip_bytes_def)+
  show "ip_at (pbuf_data p) 28 = ipsrc" "ip_at (pbuf_data p) 38 = ipdst"
    unfolding U by (rule ip_at_bytes; simp add: be_bytes_def ip_bytes_def)+
  show "pbuf_data p ! 18 = 6" "pbuf_data p ! 19 = 4" "take 6 (drop 22 (pbuf_data p)) = hwsrc"
    "take 8 (drop 12 (pbuf_data p)) = [8, 6, 0, 1, 8, 0, 6, 4]"
    unfolding U by (simp_all add: be_bytes_def ip_bytes_def hi8_def lo8_def)
qed

text \<open>The address of a frame's sender is recorded before its operation is looked at.\<close>

lemma arp_input_reply:
  assumes p: "arp_frame dst ARP_REPLY hwsrc ipsrc hwdst (if_ip_addr nif) pad p" and our: "if_ip_addr nif \<noteq> 0"
  shows "etharp_arp_input L rx_free nif p A =
    (let A = snd (etharp_update_arp_entry L nif ipsrc hwsrc ETHARP_FLAG_TRY_HARD A) in A\<lparr>dev := rx_free p (dev A)\<rparr>)"
  using arp_frame_reads [OF p] our by (simp add: etharp_arp_input_def Let_def ARP_REPLY_def ARP_REQUEST_def)

lemma arp_input_request:
  assumes p: "arp_frame dst ARP_REQUEST hwsrc ipsrc hwdst (if_ip_addr nif) pad p" and our: "if_ip_addr nif \<noteq> 0"
    and hw: "length (if_hwaddr nif) = 6"
  shows "\<exists>p'. pbuf_data p' = arp_packet hwsrc (if_hwaddr nif) ARP_REPLY (if_hwaddr nif) (if_ip_addr nif) hwsrc ipsrc @ pad \<and>
    etharp_arp_input L rx_free nif p A =
      (let A = snd (on_dev (linkoutput L (pbuf_data p')) (snd (etharp_update_arp_entry L nif ipsrc hwsrc ETHARP_FLAG_TRY_HARD A)))
       in A\<lparr>dev := rx_free p' (dev A)\<rparr>)"
proof -
  note R = arp_frame_reads [OF p]
  let ?h = "hwsrc @ if_hwaddr nif @ take 8 (drop 12 (pbuf_data p)) @ be_bytes ARP_REPLY @ if_hwaddr nif @
    ip_bytes (if_ip_addr nif) @ hwsrc @ ip_bytes ipsrc"
  have l: "length dst = 6" "length hwsrc = 6" "length hwdst = 6" using p by (simp_all add: arp_frame_def)
  have h: "?h = arp_packet hwsrc (if_hwaddr nif) ARP_REPLY (if_hwaddr nif) (if_ip_addr nif) hwsrc ipsrc"
    unfolding R(10) by (simp add: arp_packet_def be_bytes_def hi8_def lo8_def)
  have wf: "pb_wf p" "pbuf_data p = arp_packet dst hwsrc ARP_REQUEST hwsrc ipsrc hwdst (if_ip_addr nif) @ pad"
    using p by (simp_all add: arp_frame_def)
  have n: "length ?h = 42" unfolding h using l hw by (simp add: length_arp_packet)
  have "pbuf_data (poke ?h p) = ?h @ drop 42 (pbuf_data p)"
    using poke_front [OF wf(1), of ?h] R(1) unfolding n by (simp add: SIZEOF_ETHARP_PACKET_def)
  also have "drop 42 (pbuf_data p) = pad" unfolding wf(2) using l by (simp add: length_arp_packet)
  finally have d: "pbuf_data (poke ?h p) = arp_packet hwsrc (if_hwaddr nif) ARP_REPLY (if_hwaddr nif) (if_ip_addr nif) hwsrc ipsrc @ pad"
    unfolding h .
  show ?thesis
    using R our d by (intro exI [where x = "poke ?h p"]) (simp add: etharp_arp_input_def Let_def)
qed

text \<open>Whatever the cache held, the sender of a packet for us is in it afterwards.\<close>

lemma update_any:
  assumes ok: "arp_ok A" and S: "sends L frames up" and U: "unicast nif ip" and mac: "length mac = 6" and up: "up 0 (dev A)"
  shows "\<exists>A' i qs. etharp_update_arp_entry L nif ip mac ETHARP_FLAG_TRY_HARD A = (ERR_OK, A') \<and> arp_ok A' \<and>
    i < ARP_TABLE_SIZE \<and> stable_for ip (arp_table A' ! i) \<and> ae_mac (arp_table A' ! i) = mac \<and> ae_ctime (arp_table A' ! i) = 0 \<and>
    length qs \<le> 1 \<and> frames (dev A') = frames (dev A) @ qs \<and> up 0 (dev A')"
proof -
  obtain r B where F: "etharp_find_entry L ip ETHARP_FLAG_TRY_HARD A = (r, B)" by fastforce
  note B = arp_find [OF ok F]
  obtain i where r: "r = Some i" "i < ARP_TABLE_SIZE" "ae_ip (arp_table B ! i) = ip" using B by (auto split: option.splits)
  have l: "i < length (arp_table B)" using B r(2) by (simp add: arp_ok_def)
  let ?C = "upd_entry i (\<lambda>e. e\<lparr>ae_state := ARP_STABLE, ae_netif := True, ae_mac := mac, ae_ctime := 0, ae_q := None\<rparr>) B"
  have "\<exists>qs. length qs \<le> 1 \<and> frames (dev (snd (send_queued L nif p mac ?C))) = frames (dev B) @ qs \<and>
      up 0 (dev (snd (send_queued L nif p mac ?C)))" for p
  proof -
    let ?p = "poke (mac @ if_hwaddr nif @ be_bytes 0x0800) p"
    obtain n where n: "linkoutput L (pbuf_data ?p) (dev B) = (ERR_OK, n)" "frames n = frames (dev B) @ [pbuf_data ?p]" "up 0 n"
      using sends_out [OF S sends_find(2) [OF S F up]] by blast
    then show ?thesis using sends_free [OF S n(3)] by (simp add: send_queued_def etharp_send_ip_def)
  qed
  moreover have "arp_table (snd (send_queued L nif p mac ?C)) = arp_table ?C" for p
    by (simp add: send_queued_def split: prod.split)
  moreover obtain A' where u: "etharp_update_arp_entry L nif ip mac ETHARP_FLAG_TRY_HARD A = (ERR_OK, A')"
    "A' = (case ae_q (arp_table B ! i) of None \<Rightarrow> ?C | Some p \<Rightarrow> snd (send_queued L nif p mac ?C))"
    using F r U unicast_nonzero [OF U] by (simp add: etharp_update_arp_entry_def unicast_def Let_def)
  ultimately have t: "arp_table A' = arp_table ?C" and q: "\<exists>qs. length qs \<le> 1 \<and> frames (dev A') = frames (dev A) @ qs \<and> up 0 (dev A')"
    using sends_find [OF S F up] by (auto split: option.split intro!: exI [where x = "[]"])
  have "arp_ok A'" using etharp_update_ok [OF ok mac, of ETHARP_FLAG_TRY_HARD L nif ip] u(1) by simp
  then show ?thesis using u(1) t q r l by (auto simp: stable_for_def is_stable_def)
qed

section \<open>The send path on the cache\<close>

lemma arp_lwip_sel [simp]:
  "arp_stable (arp_lwip L nif) = etharp_stable L nif" "etharp_query (arp_lwip L nif) = etharp_query_packet L nif"
  "linkoutput (arp_lwip L nif) f = on_dev (linkoutput L f)"
  by (simp_all add: arp_lwip_def)

definition on_link :: "netif \<Rightarrow> u32 \<Rightarrow> bool" where
  "on_link nif ip \<longleftrightarrow> unicast nif ip \<and> ip_addr_netcmp ip (if_ip_addr nif) (if_netmask nif) \<and> length (if_hwaddr nif) = 6"

definition sendable :: "pbuf \<Rightarrow> bool" where
  "sendable h \<longleftrightarrow> 14 \<le> pb_payload h \<and> pb_wf h \<and> unat (pb_len h) \<le> 1500"

lemma header_room:
  assumes "sendable h"
  shows "\<exists>h1 f. pbuf_header h 14 = (0, h1) \<and> pb_wf h1 \<and> 14 \<le> unat (pb_len h1) \<and> pbuf_data h1 = f \<and> 14 \<le> length f \<and>
    length f \<le> 1514 \<and> drop 14 f = pbuf_data h"
proof -
  have h: "14 \<le> pb_payload h" "pb_wf h" "unat (pb_len h) \<le> 1500" using assms by (simp_all add: sendable_def)
  let ?h = "h\<lparr>pb_payload := pb_payload h - 14, pb_len := pb_len h + 14, pb_tot_len := pb_tot_len h + 14\<rparr>"
  have u: "unat (pb_len h + 14) = unat (pb_len h) + 14" using unat_len_plus [of "pb_len h" 14] h(3) by simp
  have "pbuf_header h 14 = (0, ?h)" using pbuf_header_room [of 14 h] h(1) by simp
  moreover have "drop 14 (pbuf_data ?h) = pbuf_data h" using h u by (simp add: pbuf_data_def drop_take)
  moreover have "pb_wf ?h" "14 \<le> length (pbuf_data ?h)" "length (pbuf_data ?h) \<le> 1514" using h u by (simp_all add: pb_wf_def pbuf_data_def)
  ultimately show ?thesis using u by (intro exI [where x = ?h] exI [where x = "pbuf_data ?h"]) simp
qed

lemma output_unknown:
  assumes ok: "arp_ok A" and S: "sends L frames up" and ip: "on_link nif ip" and N: "unknown ip A" and h: "sendable h" and up: "up 0 (dev A)"
  shows "\<exists>q A1 i f. etharp_output (arp_lwip L nif) nif [h] ip A = (ERR_OK, q, A1) \<and> arp_ok A1 \<and> waits ip f i A1 \<and> 14 \<le> length f \<and>
    drop 14 f = pbuf_data h \<and> frames (dev A1) = frames (dev A) @ [arp_request_frame nif ip] \<and> up 1 (dev A1)"
proof -
  obtain h1 f where h1: "pbuf_header h 14 = (0, h1)" "pbuf_data h1 = f" "14 \<le> length f" "length f \<le> 1514" "drop 14 f = pbuf_data h"
    using header_room [OF h] by blast
  have I: "unicast nif ip" "length (if_hwaddr nif) = 6" using ip by (simp_all add: on_link_def)
  obtain i A1 where Q: "etharp_query_packet L nif ip f A = (ERR_OK, A1)" "arp_ok A1" "waits ip f i A1"
    "frames (dev A1) = frames (dev A) @ [arp_request_frame nif ip]" "up 1 (dev A1)" using query_waits [OF ok S I(2,1) N h1(4) up] by blast
  have "etharp_output (arp_lwip L nif) nif [h] ip A = (ERR_OK, [h1], A1)"
    using ip h1(1,2) Q(1) etharp_stable_none [OF ok N]
    by (simp add: etharp_output_def SIZEOF_ETH_HDR_def on_link_def unicast_def Let_def)
  then show ?thesis using Q(2-5) h1(3,5) by (intro exI conjI)
qed

lemma output_known:
  assumes ok: "arp_ok A" and S: "sends L frames up" and ip: "on_link nif ip" and h: "sendable h" and i: "i < ARP_TABLE_SIZE"
    and e: "stable_for ip (arp_table A ! i)" "ae_ctime (arp_table A ! i) = 0"
    and up: "up 0 (dev A)"
  shows "\<exists>q A1. etharp_output (arp_lwip L nif) nif [h] ip A = (ERR_OK, q, A1) \<and>
    frames (dev A1) = frames (dev A) @ [eth_header nif (ae_mac (arp_table A ! i)) @ pbuf_data h] \<and> up 0 (dev A1)"
proof -
  let ?mac = "ae_mac (arp_table A ! i)"
  obtain h1 f where h1: "pbuf_header h 14 = (0, h1)" "pb_wf h1" "14 \<le> unat (pb_len h1)" "pbuf_data h1 = f" "drop 14 f = pbuf_data h"
    using header_room [OF h] by blast
  have "length ?mac = 6" using arp_entry [OF ok i] e(1) by (simp add: entry_ok_def stable_for_def)
  then have l: "length (eth_header nif ?mac) = 14" using ip by (simp add: eth_header_def be_bytes_def on_link_def)
  have d: "pbuf_data (poke (eth_header nif ?mac) h1) = eth_header nif ?mac @ pbuf_data h"
    using poke_front [OF h1(2), of "eth_header nif ?mac"] h1(3-5) l by simp
  obtain n where n: "linkoutput L (eth_header nif ?mac @ pbuf_data h) (dev A) = (ERR_OK, n)"
    "frames n = frames (dev A) @ [eth_header nif ?mac @ pbuf_data h]" "up 0 n" using sends_out [OF S up] by blast
  have c: "ae_ctime (arp_table A ! i) < ARP_AGE_REREQUEST_USED" using e(2) by (simp add: ARP_AGE_REREQUEST_USED_def ARP_MAXAGE_def)
  show ?thesis
    using ip h1(1) d n etharp_stable_some [OF ok i e(1) c]
    by (simp add: etharp_output_def SIZEOF_ETH_HDR_def on_link_def unicast_def Let_def etharp_send_ip_def eth_header_def on_dev_def)
qed

text \<open>C17: While lwIP's heap has a block of up to 1600 bytes and the driver takes frames (sends, shown
  of the repository's heap in Lwip_Link), a packet of at most 1500 bytes for an address that the
  cache does not know waits while one request is broadcast; the reply sends it to the host's
  hardware address unchanged, and the next packet goes out at once.\<close>

theorem arp_resolves:
  assumes "arp_ok A" "sends L frames up" "on_link nif ip" "unknown ip A" "sendable h" "sendable h2" "if_ip_addr nif \<noteq> 0"
    "arp_frame dst ARP_REPLY mac ip (if_hwaddr nif) (if_ip_addr nif) pad p"
    "\<forall>p b n. up b n \<longrightarrow> frames (rx_free p n) = frames n \<and> up b (rx_free p n)" "up 0 (dev A)"
  shows "\<exists>q1 A1 q2 A2. etharp_output (arp_lwip L nif) nif [h] ip A = (ERR_OK, q1, A1) \<and>
    frames (dev A1) = frames (dev A) @ [arp_request_frame nif ip] \<and>
    frames (dev (etharp_arp_input L rx_free nif p A1)) = frames (dev A1) @ [eth_header nif mac @ pbuf_data h] \<and>
    etharp_output (arp_lwip L nif) nif [h2] ip (etharp_arp_input L rx_free nif p A1) = (ERR_OK, q2, A2) \<and>
    frames (dev A2) = frames (dev (etharp_arp_input L rx_free nif p A1)) @ [eth_header nif mac @ pbuf_data h2] \<and> up 0 (dev A2)"
proof -
  have I: "unicast nif ip" "length (if_hwaddr nif) = 6" "length mac = 6" using assms(3,8) by (simp_all add: on_link_def arp_frame_def)
  obtain q1 A1 i f where 1: "etharp_output (arp_lwip L nif) nif [h] ip A = (ERR_OK, q1, A1)" "arp_ok A1" "waits ip f i A1" "14 \<le> length f"
    "drop 14 f = pbuf_data h" "frames (dev A1) = frames (dev A) @ [arp_request_frame nif ip]" "up 1 (dev A1)"
    using output_unknown [OF assms(1-5,10)] by blast
  obtain B where B: "etharp_update_arp_entry L nif ip mac ETHARP_FLAG_TRY_HARD A1 = (ERR_OK, B)" "arp_ok B"
    "stable_for ip (arp_table B ! i)" "ae_mac (arp_table B ! i) = mac" "ae_ctime (arp_table B ! i) = 0"
    "frames (dev B) = frames (dev A1) @ [eth_header nif mac @ drop 14 f]" "up 0 (dev B)"
    using update_sends [OF 1(2) assms(2) I(1) 1(3) I(3,2) 1(4,7)] by blast
  have R: "etharp_arp_input L rx_free nif p A1 = B\<lparr>dev := rx_free p (dev B)\<rparr>"
    using arp_input_reply [OF assms(8,7), of L rx_free A1] B(1) by (simp add: Let_def)
  have i: "i < ARP_TABLE_SIZE" using 1(3) by (simp add: waits_def)
  obtain q2 A2 where 2: "etharp_output (arp_lwip L nif) nif [h2] ip (B\<lparr>dev := rx_free p (dev B)\<rparr>) = (ERR_OK, q2, A2)"
    "frames (dev A2) = frames (dev (B\<lparr>dev := rx_free p (dev B)\<rparr>)) @ [eth_header nif mac @ pbuf_data h2]" "up 0 (dev A2)"
    using output_known [OF _ assms(2,3,6) i, of "B\<lparr>dev := rx_free p (dev B)\<rparr>"] B(2-5,7) assms(9) by auto
  show ?thesis
    using 1(1,5,6) B(6,7) 2 assms(9) R
    by - (rule exI [where x = q1], rule exI [where x = A1], rule exI [where x = q2], rule exI [where x = A2], simp)
qed

theorem arp_answers:
  assumes "arp_ok A" "sends L frames up" "on_link nif ip" "sendable h" "if_ip_addr nif \<noteq> 0"
    "arp_frame dst ARP_REQUEST mac ip hwdst (if_ip_addr nif) pad p"
    "\<forall>p b n. up b n \<longrightarrow> frames (rx_free p n) = frames n \<and> up b (rx_free p n)" "up 0 (dev A)"
  shows "\<exists>qs q2 A2. length qs \<le> 1 \<and> frames (dev (etharp_arp_input L rx_free nif p A)) = frames (dev A) @ qs @
      [arp_packet mac (if_hwaddr nif) ARP_REPLY (if_hwaddr nif) (if_ip_addr nif) mac ip @ pad] \<and>
    etharp_output (arp_lwip L nif) nif [h] ip (etharp_arp_input L rx_free nif p A) = (ERR_OK, q2, A2) \<and>
    frames (dev A2) = frames (dev (etharp_arp_input L rx_free nif p A)) @ [eth_header nif mac @ pbuf_data h]"
proof -
  have I: "unicast nif ip" "length (if_hwaddr nif) = 6" "length mac = 6" using assms(3,6) by (simp_all add: on_link_def arp_frame_def)
  obtain B i qs where B: "etharp_update_arp_entry L nif ip mac ETHARP_FLAG_TRY_HARD A = (ERR_OK, B)" "arp_ok B" "i < ARP_TABLE_SIZE"
    "stable_for ip (arp_table B ! i)" "ae_mac (arp_table B ! i) = mac" "ae_ctime (arp_table B ! i) = 0"
    "length qs \<le> 1" "frames (dev B) = frames (dev A) @ qs" "up 0 (dev B)" using update_any [OF assms(1,2) I(1,3) assms(8)] by blast
  obtain p' where p': "pbuf_data p' = arp_packet mac (if_hwaddr nif) ARP_REPLY (if_hwaddr nif) (if_ip_addr nif) mac ip @ pad"
    "etharp_arp_input L rx_free nif p A = (let A = snd (on_dev (linkoutput L (pbuf_data p')) B) in A\<lparr>dev := rx_free p' (dev A)\<rparr>)"
    using arp_input_request [OF assms(6,5) I(2), of L rx_free A] B(1) by auto
  obtain n where n: "linkoutput L (pbuf_data p') (dev B) = (ERR_OK, n)" "frames n = frames (dev B) @ [pbuf_data p']" "up 0 n"
    using sends_out [OF assms(2) B(9)] by blast
  have R: "etharp_arp_input L rx_free nif p A = B\<lparr>dev := rx_free p' n\<rparr>" using p'(2) n(1) by (simp add: on_dev_def Let_def)
  obtain q2 A2 where 2: "etharp_output (arp_lwip L nif) nif [h] ip (B\<lparr>dev := rx_free p' n\<rparr>) = (ERR_OK, q2, A2)"
    "frames (dev A2) = frames (dev (B\<lparr>dev := rx_free p' n\<rparr>)) @ [eth_header nif mac @ pbuf_data h]"
    using output_known [OF _ assms(2,3,4) B(3), of "B\<lparr>dev := rx_free p' n\<rparr>"] B(2,4-6) n(3) assms(7) by auto
  show ?thesis
    using B(7,8) n(2,3) p'(1) 2 assms(7) unfolding R by (intro exI [where x = qs] exI [where x = q2] exI [where x = A2]) simp
qed

section \<open>Concrete runs\<close>

text \<open>A device that keeps the frames it was given, and the host 192.168.1.100 of the camera's network.\<close>

definition wire :: "u8 list list lwip" where
  "wire = \<lparr>mem_malloc = \<lambda>k n. (Some (replicate k 0), n), mem_free = \<lambda>p n. n, memp_netbuf = \<lambda>n. (True, n), memp_free_netbuf = \<lambda>n. n,
     udp_bind_any = \<lambda>pcb n. (ERR_OK, pcb, n), ip_frag = \<lambda>q ip n. (ERR_OK, q, n), arp_stable = \<lambda>ip n. (None, n),
     etharp_query = \<lambda>ip f n. (ERR_OK, n), linkoutput = \<lambda>f n. (ERR_OK, n @ [f])\<rparr>"

lemma wire_sends: "sends wire (\<lambda>n. n) (\<lambda>b n. True)"
  by (simp add: sends_def wire_def)

definition arp_host :: u32 where "arp_host = 0x6401A8C0"
definition arp_mac :: "u8 list" where "arp_mac = [2, 0, 0, 0, 0, 9]"

definition wire_pbuf :: "nat \<Rightarrow> u8 list \<Rightarrow> pbuf" where
  "wire_pbuf k f = \<lparr>pb_mem = replicate k 0 @ f, pb_payload = k, pb_len = of_nat (length f), pb_tot_len = of_nat (length f)\<rparr>"

lemma wire_pbuf_ok:
  assumes "length f < 65536"
  shows "pb_wf (wire_pbuf k f)" "pbuf_data (wire_pbuf k f) = f"
  using assms by (simp_all add: wire_pbuf_def pb_wf_def pbuf_data_def unat_of_nat)

lemma camera_on_link: "on_link camera_netif arp_host" "if_ip_addr camera_netif \<noteq> 0"
  by (simp_all add: on_link_def unicast_def camera_netif_def arp_host_def ip4_addr_isbroadcast_def ip_addr_ismulticast_def ip_addr_netcmp_def)

lemma demo_sendable: "sendable (wire_pbuf 14 [1, 2, 3])" "sendable (wire_pbuf 16 [])"
  by (simp_all add: sendable_def wire_pbuf_ok) (simp_all add: wire_pbuf_def)

lemma demo_arp_frame:
  assumes "length dst = 6" "length hwdst = 6"
  shows "arp_frame dst opcode arp_mac arp_host hwdst ipdst [0] (wire_pbuf 0 (arp_packet dst arp_mac opcode arp_mac arp_host hwdst ipdst @ [0]))"
proof -
  have "length arp_mac = 6" by (simp add: arp_mac_def)
  then show ?thesis using assms by (simp add: arp_frame_def wire_pbuf_ok length_arp_packet)
qed

lemma arp_start_unknown: "unknown ip (arp_start n)"
  by (simp add: unknown_def arp_start_def)

theorem arp_invariant_witness:
  "arp_ok (fold (arp_do wire (\<lambda>p n. n) camera_netif) [Arp_Query arp_host (replicate 60 0), Arp_Timer, Arp_Frame (wire_pbuf 0 [])] (arp_start [])) \<and>
   fst (etharp_find_entry wire 5 ETHARP_FLAG_TRY_HARD
     (fold (arp_do wire (\<lambda>p n. n) camera_netif) [Arp_Query arp_host (replicate 60 0), Arp_Timer, Arp_Frame (wire_pbuf 0 [])] (arp_start []))) \<noteq> None"
  by (rule arp_invariant) (simp add: wire_pbuf_ok)

definition demo_arp :: "u8 list list arp" where
  "demo_arp = upd_entry 3 (\<lambda>e. e\<lparr>ae_ip := arp_host, ae_netif := True, ae_mac := arp_mac, ae_state := ARP_STABLE\<rparr>) (arp_start [])"

lemma demo_arp_entry:
  "arp_table demo_arp ! 3 = \<lparr>ae_q = None, ae_ip = arp_host, ae_netif = True, ae_mac = arp_mac, ae_state = ARP_STABLE, ae_ctime = 0\<rparr>"
  by (simp add: demo_arp_def arp_start_def ARP_TABLE_SIZE_def)

lemma demo_arp_ok: "arp_ok demo_arp"
  unfolding demo_arp_def
  by (rule arp_ok_upd [OF arp_start_ok])
    (simp_all add: entry_ok_def is_stable_def arp_start_def ARP_TABLE_SIZE_def arp_mac_def ARP_MAXAGE_def)

theorem arp_entry_lifetime_witness:
  "same_entry (arp_table demo_arp ! 3) (arp_table ((etharp_tmr wire ^^ 239) demo_arp) ! 3) \<and>
   ae_state (arp_table ((etharp_tmr wire ^^ lifetime (arp_table demo_arp ! 3)) demo_arp) ! 3) = ARP_EMPTY"
  by (rule arp_entry_lifetime [OF demo_arp_ok]) (simp_all add: demo_arp_entry ARP_TABLE_SIZE_def lifetime_def ARP_MAXAGE_def)

theorem arp_answers_witness:
  "\<exists>qs q2 A2. length qs \<le> 1 \<and>
    dev (etharp_arp_input wire (\<lambda>p n. n) camera_netif (wire_pbuf 0 (arp_packet ethbroadcast arp_mac ARP_REQUEST arp_mac arp_host ethzero
      (if_ip_addr camera_netif) @ [0])) demo_arp) = dev demo_arp @ qs @
      [arp_packet arp_mac (if_hwaddr camera_netif) ARP_REPLY (if_hwaddr camera_netif) (if_ip_addr camera_netif) arp_mac arp_host @ [0]] \<and>
    etharp_output (arp_lwip wire camera_netif) camera_netif [wire_pbuf 14 [1, 2, 3]] arp_host
      (etharp_arp_input wire (\<lambda>p n. n) camera_netif (wire_pbuf 0 (arp_packet ethbroadcast arp_mac ARP_REQUEST arp_mac arp_host ethzero
      (if_ip_addr camera_netif) @ [0])) demo_arp) = (ERR_OK, q2, A2) \<and>
    dev A2 = dev (etharp_arp_input wire (\<lambda>p n. n) camera_netif (wire_pbuf 0 (arp_packet ethbroadcast arp_mac ARP_REQUEST arp_mac arp_host ethzero
      (if_ip_addr camera_netif) @ [0])) demo_arp) @ [eth_header camera_netif arp_mac @ pbuf_data (wire_pbuf 14 [1, 2, 3])]"
proof (rule arp_answers [OF demo_arp_ok wire_sends camera_on_link(1) demo_sendable(1) camera_on_link(2) demo_arp_frame])
  show "length ethbroadcast = 6" "length ethzero = 6" by (simp_all add: ethbroadcast_def ethzero_def)
qed simp_all

end
