(* ===== verification/Lwip_Mem.thy ===== *)
theory Lwip_Mem
  imports Prelude "HOL-Library.Monad_Syntax"
begin

text \<open>
  The heap of lwIP (\<^verbatim>\<open>core/mem.c\<close>) as configured: 16000 bytes, aligned to 4, offsets of 16 bits, no release from
  interrupts (a call holds the mutex, so it is one step).  Each area begins with a \<^verbatim>\<open>struct mem\<close> of 8 bytes
  that links it to its neighbours.  A header is the value of \<^verbatim>\<open>hdr_at\<close> at its offset; \<^verbatim>\<open>lfree\<close> is the offset
  of the lowest free area and \<^verbatim>\<open>MEM_SIZE_ALIGNED\<close> that of \<^verbatim>\<open>ram_end\<close>.  A block is given to the caller as the
  offset of its data.
\<close>

section \<open>The heap\<close>

definition MEM_SIZE_ALIGNED :: u16 where "MEM_SIZE_ALIGNED = 16000"
definition SIZEOF_STRUCT_MEM :: nat where "SIZEOF_STRUCT_MEM = 8"
definition MIN_SIZE_ALIGNED :: nat where "MIN_SIZE_ALIGNED = 12"

record mem_hdr =
  mem_next :: u16
  mem_prev :: u16
  mem_used :: u8

record heap =
  hdr_at :: "u16 \<Rightarrow> mem_hdr"
  lfree :: u16

definition upd_hdr :: "u16 \<Rightarrow> (mem_hdr \<Rightarrow> mem_hdr) \<Rightarrow> heap \<Rightarrow> heap" where
  "upd_hdr p f H = H\<lparr>hdr_at := (hdr_at H)(p := f (hdr_at H p))\<rparr>"

definition mem_init :: "heap \<Rightarrow> heap" where
  "mem_init H =
     (let H = upd_hdr 0 (\<lambda>_. \<lparr>mem_next = MEM_SIZE_ALIGNED, mem_prev = 0, mem_used = 0\<rparr>) H;
          H = upd_hdr MEM_SIZE_ALIGNED (\<lambda>_. \<lparr>mem_next = MEM_SIZE_ALIGNED, mem_prev = MEM_SIZE_ALIGNED, mem_used = 1\<rparr>) H
      in H\<lparr>lfree := 0\<rparr>)"

definition plug_holes :: "u16 \<Rightarrow> heap \<Rightarrow> heap" where
  "plug_holes mem H =
     (let nmem = mem_next (hdr_at H mem);
          H = (if mem \<noteq> nmem \<and> mem_used (hdr_at H nmem) = 0 \<and> nmem \<noteq> MEM_SIZE_ALIGNED
               then (let H = (if lfree H = nmem then H\<lparr>lfree := mem\<rparr> else H);
                         H = upd_hdr mem (\<lambda>m. m\<lparr>mem_next := mem_next (hdr_at H nmem)\<rparr>) H
                     in upd_hdr (mem_next (hdr_at H nmem)) (\<lambda>m. m\<lparr>mem_prev := mem\<rparr>) H)
               else H);
          pmem = mem_prev (hdr_at H mem)
      in if pmem \<noteq> mem \<and> mem_used (hdr_at H pmem) = 0
         then (let H = (if lfree H = mem then H\<lparr>lfree := pmem\<rparr> else H);
                   H = upd_hdr pmem (\<lambda>m. m\<lparr>mem_next := mem_next (hdr_at H mem)\<rparr>) H
               in upd_hdr (mem_next (hdr_at H mem)) (\<lambda>m. m\<lparr>mem_prev := pmem\<rparr>) H)
         else H)"

text \<open>\<^verbatim>\<open>rmem\<close> is the offset of the data from \<^verbatim>\<open>ram\<close>, \<^verbatim>\<open>None\<close> the null pointer.\<close>

definition mem_free_heap :: "int option \<Rightarrow> heap \<Rightarrow> heap" where
  "mem_free_heap rmem H =
     (case rmem of
        None \<Rightarrow> H
      | Some r \<Rightarrow>
          if r < 0 \<or> uint MEM_SIZE_ALIGNED \<le> r then H
          else (let mem = of_int (r - int SIZEOF_STRUCT_MEM);
                    H = upd_hdr mem (\<lambda>m. m\<lparr>mem_used := 0\<rparr>) H;
                    H = (if mem < lfree H then H\<lparr>lfree := mem\<rparr> else H)
                in plug_holes mem H))"

section \<open>Allocation\<close>

text \<open>The sizes are cut to 16 bits after the rounding.\<close>

definition mem_round :: "u16 \<Rightarrow> nat" where
  "mem_round sz = max (unat (of_nat ((unat sz + 3) div 4 * 4) :: u16)) MIN_SIZE_ALIGNED"

text \<open>\<^verbatim>\<open>mem->next - (ptr + SIZEOF_STRUCT_MEM)\<close>, in unsigned arithmetic of 32 bits.\<close>

definition room :: "heap \<Rightarrow> u16 \<Rightarrow> nat" where
  "room H ptr = unat (ucast (mem_next (hdr_at H ptr)) - (ucast ptr + of_nat SIZEOF_STRUCT_MEM) :: u32)"

text \<open>The search for a free area; the offset, or nothing.\<close>

partial_function (option) malloc_scan :: "heap \<Rightarrow> nat \<Rightarrow> u16 \<Rightarrow> u16 option option" where
  "malloc_scan H sz ptr =
     (if unat ptr < unat MEM_SIZE_ALIGNED - sz
      then if mem_used (hdr_at H ptr) = 0 \<and> sz \<le> room H ptr then Some (Some ptr)
           else malloc_scan H sz (mem_next (hdr_at H ptr))
      else Some None)"

partial_function (option) next_free :: "heap \<Rightarrow> u16 \<Rightarrow> u16 option" where
  "next_free H cur =
     (if mem_used (hdr_at H cur) \<noteq> 0 \<and> cur \<noteq> MEM_SIZE_ALIGNED then next_free H (mem_next (hdr_at H cur)) else Some cur)"

text \<open>A free area of \<^verbatim>\<open>size\<close> and the rest behind it; the header behind the rest is linked to it.\<close>

definition mem_split :: "u16 \<Rightarrow> nat \<Rightarrow> heap \<Rightarrow> heap" where
  "mem_split ptr sz H =
     (let ptr2 = of_nat (unat ptr + SIZEOF_STRUCT_MEM + sz);
          next = mem_next (hdr_at H ptr);
          H = upd_hdr ptr2 (\<lambda>_. \<lparr>mem_next = next, mem_prev = ptr, mem_used = 0\<rparr>) H;
          H = upd_hdr ptr (\<lambda>m. m\<lparr>mem_next := ptr2\<rparr>) H
      in if next \<noteq> MEM_SIZE_ALIGNED then upd_hdr next (\<lambda>m. m\<lparr>mem_prev := ptr2\<rparr>) H else H)"

definition mem_malloc_heap :: "u16 \<Rightarrow> heap \<Rightarrow> (int option \<times> heap) option" where
  "mem_malloc_heap size0 H =
     (if size0 = 0 then Some (None, H)
      else (let sz = mem_round size0
            in if unat MEM_SIZE_ALIGNED < sz then Some (None, H)
               else do {
                 found \<leftarrow> malloc_scan H sz (lfree H);
                 (case found of
                    None \<Rightarrow> Some (None, H)
                  | Some ptr \<Rightarrow>
                      (let H = (if sz + SIZEOF_STRUCT_MEM + MIN_SIZE_ALIGNED \<le> room H ptr then mem_split ptr sz H else H);
                           H = upd_hdr ptr (\<lambda>m. m\<lparr>mem_used := 1\<rparr>) H
                       in do {
                            cur \<leftarrow> (if ptr = lfree H then next_free H (lfree H) else Some (lfree H));
                            Some (Some (uint ptr + int SIZEOF_STRUCT_MEM), H\<lparr>lfree := cur\<rparr>)
                          }))
               }))"

section \<open>Shrinking\<close>

definition mem_trim :: "int \<Rightarrow> u16 \<Rightarrow> heap \<Rightarrow> int option \<times> heap" where
  "mem_trim rmem newsize0 H =
     (let newsize = mem_round newsize0
      in if unat MEM_SIZE_ALIGNED < newsize then (None, H)
         else if rmem < 0 \<or> uint MEM_SIZE_ALIGNED \<le> rmem then (Some rmem, H)
         else (let mem = of_int (rmem - int SIZEOF_STRUCT_MEM);
                   sz = unat (mem_next (hdr_at H mem) - mem - of_nat SIZEOF_STRUCT_MEM);
                   mem2 = mem_next (hdr_at H mem)
               in if sz < newsize then (None, H)
                  else if newsize = sz then (Some rmem, H)
                  else if mem_used (hdr_at H mem2) = 0
                  then (let next = mem_next (hdr_at H mem2);
                            ptr2 = of_nat (unat mem + SIZEOF_STRUCT_MEM + newsize);
                            H = (if lfree H = mem2 then H\<lparr>lfree := ptr2\<rparr> else H);
                            H = upd_hdr ptr2 (\<lambda>_. \<lparr>mem_next = next, mem_prev = mem, mem_used = 0\<rparr>) H;
                            H = upd_hdr mem (\<lambda>m. m\<lparr>mem_next := ptr2\<rparr>) H
                        in (Some rmem, if next \<noteq> MEM_SIZE_ALIGNED then upd_hdr next (\<lambda>m. m\<lparr>mem_prev := ptr2\<rparr>) H else H))
                  else if newsize + SIZEOF_STRUCT_MEM + MIN_SIZE_ALIGNED \<le> sz
                  then (let ptr2 = of_nat (unat mem + SIZEOF_STRUCT_MEM + newsize);
                            H = (if ptr2 < lfree H then H\<lparr>lfree := ptr2\<rparr> else H)
                        in (Some rmem, mem_split mem newsize H))
                  else (Some rmem, H)))"

section \<open>The list of areas\<close>

abbreviation END :: u16 where "END \<equiv> MEM_SIZE_ALIGNED"

definition is_free :: "heap \<Rightarrow> u16 \<Rightarrow> bool" where
  "is_free H p \<longleftrightarrow> mem_used (hdr_at H p) = 0"

text \<open>\<^verbatim>\<open>pr\<close> is the area before, \<^verbatim>\<open>hd (ns @ [q])\<close> the one behind.\<close>

fun links :: "heap \<Rightarrow> u16 \<Rightarrow> u16 list \<Rightarrow> u16 \<Rightarrow> bool" where
  "links H pr [] q = True"
| "links H pr (p # ns) q \<longleftrightarrow>
     mem_prev (hdr_at H p) = pr \<and> mem_next (hdr_at H p) = hd (ns @ [q]) \<and> unat p + 20 \<le> unat (hd (ns @ [q])) \<and> 4 dvd unat p \<and>
     links H p ns q"

definition heap_ok :: "heap \<Rightarrow> u16 list \<Rightarrow> bool" where
  "heap_ok H ns \<longleftrightarrow> ns \<noteq> [] \<and> hd ns = 0 \<and> links H 0 ns END \<and> mem_used (hdr_at H END) = 1 \<and> mem_next (hdr_at H END) = END \<and>
     successively (\<lambda>p q. \<not> (is_free H p \<and> is_free H q)) ns \<and> lfree H = hd (filter (is_free H) ns @ [END])"

lemma links_append:
  "links H pr (xs @ ys) q \<longleftrightarrow> links H pr xs (hd (ys @ [q])) \<and> links H (last (pr # xs)) ys q"
proof (induction xs arbitrary: pr)
  case (Cons x xs)
  have "hd ((xs @ ys) @ [q]) = hd (xs @ [hd (ys @ [q])])" by (cases xs) simp_all
  then show ?case using Cons [of x] by auto
qed simp

lemma links_frame:
  "\<forall>p\<in>set ns. hdr_at H' p = hdr_at H p \<Longrightarrow> links H' pr ns q = links H pr ns q"
  by (induction ns arbitrary: pr) auto

lemma links_used:
  "\<forall>p\<in>set ns. mem_next (hdr_at H' p) = mem_next (hdr_at H p) \<and> mem_prev (hdr_at H' p) = mem_prev (hdr_at H p) \<Longrightarrow>
     links H' pr ns q = links H pr ns q"
  by (induction ns arbitrary: pr) auto

text \<open>The offsets ascend.\<close>

lemma links_ascend:
  "links H pr ns q \<Longrightarrow> sorted_wrt (\<lambda>a b. unat a + 20 \<le> unat b) (ns @ [q])"
proof (induction ns arbitrary: pr)
  case (Cons a ns)
  obtain b l where b: "ns @ [q] = b # l" by (cases "ns @ [q]") auto
  have S: "sorted_wrt (\<lambda>a b. unat a + 20 \<le> unat b) (b # l)" using Cons.IH [of a] Cons.prems b by simp
  have "unat a + 20 \<le> unat b" using Cons.prems b by simp
  then have "\<forall>x\<in>set (b # l). unat a + 20 \<le> unat x" using S by force
  then show ?case using S b by simp
qed simp

text \<open>What is known about an area between its neighbours.\<close>

lemma links_mid:
  assumes "links H pr (xs @ p # ys) q"
  shows "mem_prev (hdr_at H p) = last (pr # xs)" "mem_next (hdr_at H p) = hd (ys @ [q])" "unat p + 20 \<le> unat (hd (ys @ [q]))"
    "4 dvd unat p" "\<forall>a\<in>set xs. unat a + 20 \<le> unat p" "\<forall>a\<in>set (ys @ [q]). unat p + 20 \<le> unat a"
    "links H pr xs p" "links H p ys q" "p \<notin> set xs" "p \<notin> set ys" "p \<noteq> q"
proof -
  note L = assms [unfolded links_append]
  show "mem_prev (hdr_at H p) = last (pr # xs)" "mem_next (hdr_at H p) = hd (ys @ [q])" "unat p + 20 \<le> unat (hd (ys @ [q]))"
    "4 dvd unat p" "links H pr xs p" "links H p ys q" using L by simp_all
  have "sorted_wrt (\<lambda>a b. unat a + 20 \<le> unat b) (xs @ p # ys @ [q])" using links_ascend [OF assms] by simp
  then show "\<forall>a\<in>set xs. unat a + 20 \<le> unat p" "\<forall>a\<in>set (ys @ [q]). unat p + 20 \<le> unat a"
    by (auto simp: sorted_wrt_append)
  then show "p \<notin> set xs" "p \<notin> set ys" "p \<noteq> q" by auto
qed

section \<open>The search\<close>

definition fits :: "heap \<Rightarrow> nat \<Rightarrow> u16 \<Rightarrow> bool" where
  "fits H sz p \<longleftrightarrow> is_free H p \<and> sz \<le> room H p"

lemma unat_END: "unat END = 16000"
  by (simp add: MEM_SIZE_ALIGNED_def)

lemma room_links:
  assumes "links H pr (p # ns) q"
  shows "room H p = unat (hd (ns @ [q])) - unat p - 8"
proof -
  let ?n = "hd (ns @ [q])"
  have n: "mem_next (hdr_at H p) = ?n" "unat p + 20 \<le> unat ?n" using assms by simp_all
  have u: "unat (ucast w :: u32) = unat w" for w :: u16
    using less_trans [OF unat_u16_bound [of w], of 4294967296] by (simp add: unsigned_ucast_eq take_bit_nat_eq_self_iff)
  have "unat p < 65536" using unat_u16_bound [of p] by simp
  then have "unat p < 4294967288" by (rule less_trans) simp
  then have "unat (ucast p + 8 :: u32) = unat p + 8" by (subst unat_add_no_wrap) (simp_all add: u)
  then show ?thesis
    using n u [of ?n] by (simp add: room_def SIZEOF_STRUCT_MEM_def unat_sub word_le_nat_alt)
qed

lemma room_bounds:
  assumes "links H pr ns q" "p \<in> set ns"
  shows "room H p + unat p + 8 \<le> unat q" "12 \<le> room H p"
proof -
  obtain xs ys where ns: "ns = xs @ p # ys" using assms(2) by (auto simp: in_set_conv_decomp)
  note L = links_mid [OF assms(1) [unfolded ns]]
  have m: "mem_next (hdr_at H p) \<in> set (ys @ [q])" using L(2) by (cases ys) simp_all
  have "links H (last (pr # xs)) (p # ys) q" using assms(1) unfolding ns links_append by simp
  note r = room_links [OF this]
  have "unat (mem_next (hdr_at H p)) \<le> unat q"
    using links_ascend [OF L(8)] m by (auto simp: sorted_wrt_append)
  then show "room H p + unat p + 8 \<le> unat q" "12 \<le> room H p" using r L(2,3) by simp_all
qed

lemma malloc_scan_find:
  assumes "links H pr ns END" "sz \<le> 16000" "0 < sz"
  shows "malloc_scan H sz (hd (ns @ [END])) = Some (find (fits H sz) ns)"
  using assms(1)
proof (induction ns arbitrary: pr)
  case Nil
  show ?case using assms(2) by (subst malloc_scan.simps) (auto simp: unat_END)
next
  case (Cons p ns)
  have nx: "mem_next (hdr_at H p) = hd (ns @ [END])" "links H p ns END" using Cons.prems by simp_all
  show ?case
  proof (cases "unat p < 16000 - sz")
    case True
    have "fits H sz p \<longleftrightarrow> mem_used (hdr_at H p) = 0 \<and> sz \<le> room H p" by (simp add: fits_def is_free_def)
    then show ?thesis using True
      by (subst malloc_scan.simps) (simp add: Cons.IH [OF nx(2)] nx(1) unat_END)
  next
    case False
    have "\<not> fits H sz a" if "a \<in> set (p # ns)" for a
    proof -
      have "unat p \<le> unat a" using links_ascend [OF Cons.prems] that by (cases "a = p") auto
      then show ?thesis
        using room_bounds(1) [OF Cons.prems that] False assms(3) by (auto simp: fits_def unat_END)
    qed
    then have "find (fits H sz) (p # ns) = None" by (simp only: find_None_iff) blast
    then show ?thesis using False by (subst malloc_scan.simps) (simp add: unat_END)
  qed
qed

lemma next_free_filter:
  assumes "links H pr ns END"
  shows "next_free H (hd (ns @ [END])) = Some (hd (filter (is_free H) ns @ [END]))"
  using assms
proof (induction ns arbitrary: pr)
  case Nil
  show ?case by (subst next_free.simps) simp
next
  case (Cons p ns)
  have nx: "mem_next (hdr_at H p) = hd (ns @ [END])" "links H p ns END" "p \<noteq> END"
    using Cons.prems links_mid(11) [of H pr "[]" p ns END] by simp_all
  show ?case
  proof (cases "is_free H p")
    case True
    then have "mem_used (hdr_at H p) = 0" by (simp add: is_free_def)
    then show ?thesis using True by (subst next_free.simps) simp
  next
    case False
    then have "mem_used (hdr_at H p) \<noteq> 0" by (simp add: is_free_def)
    then show ?thesis using False by (subst next_free.simps) (simp add: Cons.IH [OF nx(2)] nx(1,3))
  qed
qed

text \<open>Everything before the lowest free area is in use.\<close>

lemma lfree_split:
  assumes "heap_ok H ns"
  obtains us fs where "ns = us @ fs" "\<forall>p\<in>set us. \<not> is_free H p" "lfree H = hd (fs @ [END])" "fs \<noteq> [] \<Longrightarrow> is_free H (hd fs)"
proof -
  let ?us = "takeWhile (\<lambda>p. \<not> is_free H p) ns"
  let ?fs = "dropWhile (\<lambda>p. \<not> is_free H p) ns"
  have "filter (is_free H) ns = filter (is_free H) ?us @ filter (is_free H) ?fs" by (metis filter_append takeWhile_dropWhile_id)
  moreover have "filter (is_free H) ?us = []" by (auto simp: filter_empty_conv dest: set_takeWhileD)
  moreover have "is_free H (hd ?fs)" if "?fs \<noteq> []" using hd_dropWhile [of "\<lambda>p. \<not> is_free H p" ns] that by simp
  then have "hd (filter (is_free H) ?fs @ [END]) = hd (?fs @ [END])"
    by (cases "dropWhile (\<lambda>p. \<not> is_free H p) ns") (simp_all del: dropWhile_eq_Nil_conv)
  moreover have "lfree H = hd (filter (is_free H) ns @ [END])" using assms by (simp add: heap_ok_def)
  ultimately show ?thesis using that [of ?us ?fs] hd_dropWhile [of "\<lambda>p. \<not> is_free H p" ns] by (auto dest: set_takeWhileD)
qed

lemma malloc_scan_first:
  assumes ok: "heap_ok H ns" and sz: "sz \<le> 16000" "0 < sz"
  shows "malloc_scan H sz (lfree H) = Some (find (fits H sz) ns)"
proof -
  obtain us fs where L: "ns = us @ fs" "\<forall>p\<in>set us. \<not> is_free H p" "lfree H = hd (fs @ [END])" using lfree_split [OF ok] by metis
  have "links H (last (0 # us)) fs END" using ok L(1) by (simp add: heap_ok_def links_append)
  from malloc_scan_find [OF this sz] have "malloc_scan H sz (lfree H) = Some (find (fits H sz) fs)" by (simp add: L(3))
  moreover have "find (fits H sz) (us @ fs) = find (fits H sz) fs" using L(2) by (induction us) (auto simp: fits_def)
  ultimately show ?thesis by (simp add: L(1))
qed

section \<open>Changing the list\<close>

lemma links_tail:
  assumes "links H a ys q" "\<forall>y\<in>set ys. mem_next (hdr_at H' y) = mem_next (hdr_at H y)"
    "\<forall>y\<in>set (tl ys). mem_prev (hdr_at H' y) = mem_prev (hdr_at H y)" "ys \<noteq> [] \<Longrightarrow> mem_prev (hdr_at H' (hd ys)) = b"
  shows "links H' b ys q"
proof (cases ys)
  case (Cons y zs)
  then have "links H' y zs q" using links_used [of zs H' H y q] assms(1-3) by simp
  then show ?thesis using Cons assms by simp
qed simp

text \<open>The areas \<^verbatim>\<open>ms\<close> behind \<^verbatim>\<open>p\<close> become \<^verbatim>\<open>zs\<close>.\<close>

lemma links_replace:
  assumes L: "links H pr (xs @ p # ms @ ys) q"
    and xs: "\<forall>x\<in>set xs. hdr_at H' x = hdr_at H x" and mid: "links H' (last (pr # xs)) (p # zs) (hd (ys @ [q]))"
    and nx: "\<forall>y\<in>set ys. mem_next (hdr_at H' y) = mem_next (hdr_at H y)"
    and pv: "\<forall>y\<in>set (tl ys). mem_prev (hdr_at H' y) = mem_prev (hdr_at H y)"
    and hd: "ys \<noteq> [] \<Longrightarrow> mem_prev (hdr_at H' (hd ys)) = last (p # zs)"
  shows "links H' pr (xs @ p # zs @ ys) q"
proof -
  have three: "links K pr (xs @ (p # ms) @ ys) q \<longleftrightarrow>
      links K pr xs p \<and> links K (last (pr # xs)) (p # ms) (hd (ys @ [q])) \<and> links K (last (p # ms)) ys q" for K ms
    unfolding links_append by (simp del: links.simps)
  have "links H pr xs p" "links H (last (p # ms)) ys q" using L three [of H ms] by simp_all
  then have "links H' pr xs p" "links H' (last (p # zs)) ys q"
    using links_frame [OF xs] links_tail [OF _ nx pv hd] by simp_all
  then show ?thesis using mid three [of H' zs] by simp
qed

text \<open>What a change leaves as it was: the areas but those named, and the end.\<close>

definition kept :: "heap \<Rightarrow> heap \<Rightarrow> u16 set \<Rightarrow> bool" where
  "kept H H' A \<longleftrightarrow> (\<forall>a\<in>A. room H' a = room H a \<and> is_free H' a = is_free H a) \<and>
     mem_used (hdr_at H' END) = mem_used (hdr_at H END) \<and> mem_next (hdr_at H' END) = mem_next (hdr_at H END)"

lemma hdr_upd [simp]:
  "hdr_at (upd_hdr p f H) = (hdr_at H)(p := f (hdr_at H p))" "lfree (upd_hdr p f H) = lfree H" "hdr_at (H\<lparr>lfree := x\<rparr>) = hdr_at H"
  by (simp_all add: upd_hdr_def)

lemma room_next: "mem_next (hdr_at H' a) = mem_next (hdr_at H a) \<Longrightarrow> room H' a = room H a"
  by (simp add: room_def)

lemma split_place:
  assumes "links H pr (xs @ p # ys) q" "sz + 20 \<le> room H p" "p2 = of_nat (unat p + SIZEOF_STRUCT_MEM + sz)"
  shows "unat p2 = unat p + 8 + sz" "unat p2 + 20 \<le> unat (hd (ys @ [q]))" "p2 \<noteq> p" "p2 \<notin> set xs" "p2 \<notin> set ys" "p2 \<noteq> q"
proof -
  note L = links_mid [OF assms(1)]
  have r: "room H p = unat (hd (ys @ [q])) - unat p - 8" using room_links [of H "last (pr # xs)" p ys q] assms(1) by (simp add: links_append)
  then have b: "unat p + 8 + sz + 20 \<le> unat (hd (ys @ [q]))" using assms(2) L(3) by linarith
  then have "unat p + 8 + sz < 65536" using unat_u16_bound [of "hd (ys @ [q])"] by linarith
  then show u: "unat p2 = unat p + 8 + sz" unfolding assms(3) SIZEOF_STRUCT_MEM_def by (simp del: of_nat_add add: unat_of_nat)
  then show b2: "unat p2 + 20 \<le> unat (hd (ys @ [q]))" using b by simp
  have "unat (hd (ys @ [q])) \<le> unat a" if "a \<in> set (ys @ [q])" for a
    using links_ascend [OF L(8)] that by (cases ys) auto
  then have "\<forall>a\<in>set (ys @ [q]). unat p2 < unat a" using b2 by force
  moreover have "\<forall>a\<in>set xs. unat a < unat p2" using L(5) u by force
  ultimately show "p2 \<noteq> p" "p2 \<notin> set xs" "p2 \<notin> set ys" "p2 \<noteq> q" using u by auto
qed

text \<open>Splitting an area, and joining two.\<close>

lemma mem_split_links:
  assumes L: "links H pr (xs @ p # ys) END" and r: "sz + 20 \<le> room H p" and sz: "12 \<le> sz" "4 dvd sz"
    and p2: "p2 = of_nat (unat p + SIZEOF_STRUCT_MEM + sz)"
  shows "links (mem_split p sz H) pr (xs @ p # p2 # ys) END" "room (mem_split p sz H) p = sz"
    "room (mem_split p sz H) p2 = room H p - sz - 8" "is_free (mem_split p sz H) p2" "is_free (mem_split p sz H) p = is_free H p"
    "kept H (mem_split p sz H) (set xs \<union> set ys)" "lfree (mem_split p sz H) = lfree H"
proof -
  note P = split_place [OF L r p2] and M = links_mid [OF L]
  let ?H = "mem_split p sz H"
  let ?n = "hd (ys @ [END])"
  have n: "mem_next (hdr_at H p) = ?n" by (rule M(2))
  have nin: "?n \<notin> set xs" "?n \<noteq> p" "?n \<noteq> p2"
    using M(5,6) P by (cases ys; fastforce)+
  have nhd: "y \<noteq> ?n" if "y \<in> set (tl ys)" for y
    using links_ascend [OF M(8)] that by (cases ys) auto
  have H: "hdr_at ?H a = (if a = p2 then \<lparr>mem_next = ?n, mem_prev = p, mem_used = 0\<rparr>
      else if a = p then (hdr_at H p)\<lparr>mem_next := p2\<rparr> else if a = ?n \<and> ?n \<noteq> END then (hdr_at H a)\<lparr>mem_prev := p2\<rparr> else hdr_at H a)" for a
    using P(3) nin n unfolding mem_split_def Let_def p2 [symmetric] by simp
  have d: "4 dvd unat p2" using P(1) M(4) sz(2) by (simp add: dvd_add_right_iff)
  have notin: "x \<noteq> p2 \<and> x \<noteq> p \<and> x \<noteq> ?n" if "x \<in> set xs" for x using that P(4) M(9) nin(1) by auto
  have notin': "y \<noteq> p2 \<and> y \<noteq> p \<and> y \<noteq> END" if "y \<in> set ys" for y using that P(5) M(10) links_mid(11) [of H pr _ y _ END] L
    by (auto dest!: split_list) (metis append.assoc append_Cons links_mid(11))
  have c: "\<forall>x\<in>set xs. hdr_at ?H x = hdr_at H x" using notin by (simp add: H)
  have c2: "links ?H (last (pr # xs)) (p # [p2]) ?n" using M(1,4) P(1-3) d nin(2,3) sz(1) by (simp add: H)
  have c3: "\<forall>y\<in>set ys. mem_next (hdr_at ?H y) = mem_next (hdr_at H y)" using notin' by (simp add: H)
  have c4: "\<forall>y\<in>set (tl ys). mem_prev (hdr_at ?H y) = mem_prev (hdr_at H y)" using notin' nhd by (cases ys) (simp_all add: H)
  have c5: "mem_prev (hdr_at ?H (hd ys)) = last (p # [p2])" if "ys \<noteq> []" using notin' that by (cases ys) (simp_all add: H)
  show L': "links ?H pr (xs @ p # p2 # ys) END"
    using links_replace [where ms = "[]" and zs = "[p2]", OF _ c c2 c3 c4 c5] L by simp
  have R: "links ?H (last (pr # xs)) (p # p2 # ys) END" "links ?H p (p2 # ys) END" using L' by (simp_all add: links_append)
  show "room ?H p = sz" using room_links [OF R(1)] P(1) by simp
  have "links H (last (pr # xs)) (p # ys) END" using L by (simp add: links_append)
  then show "room ?H p2 = room H p - sz - 8" using room_links [OF R(2)] room_links [of H _ p ys END] P(1) by simp
  show "is_free ?H p2" "is_free ?H p = is_free H p" using P(3) by (simp_all add: is_free_def H)
  show "kept H ?H (set xs \<union> set ys)"
    using P M(9-11) nin by (auto simp: kept_def is_free_def H intro!: room_next)
  show "lfree ?H = lfree H" by (simp add: mem_split_def Let_def)
qed

definition join :: "u16 \<Rightarrow> u16 \<Rightarrow> heap \<Rightarrow> heap" where
  "join p n H = (let H = upd_hdr p (\<lambda>m. m\<lparr>mem_next := mem_next (hdr_at H n)\<rparr>) H
                 in upd_hdr (mem_next (hdr_at H n)) (\<lambda>m. m\<lparr>mem_prev := p\<rparr>) H)"

lemma join_links:
  assumes L: "links H pr (xs @ p # n # ys) END"
  shows "links (join p n H) pr (xs @ p # ys) END" "room (join p n H) p = room H p + 8 + room H n"
    "is_free (join p n H) p = is_free H p" "kept H (join p n H) (set xs \<union> set ys)" "lfree (join p n H) = lfree H"
proof -
  note M = links_mid [OF L] and N = links_mid [of H pr "xs @ [p]" n ys END, simplified, OF L]
  let ?H = "join p n H"
  let ?q = "hd (ys @ [END])"
  have q: "mem_next (hdr_at H n) = ?q" by (rule N(2))
  have nin: "?q \<notin> set xs" "?q \<noteq> p" "?q \<noteq> n"
    using M(5,6) N(5,6) by (cases ys; fastforce)+
  have qhd: "y \<noteq> ?q" if "y \<in> set (tl ys)" for y using links_ascend [OF N(8)] that by (cases ys) auto
  have pn: "p \<noteq> n" using M(10) by simp
  have H: "hdr_at ?H a = (if a = p then (hdr_at H p)\<lparr>mem_next := ?q\<rparr> else if a = ?q then (hdr_at H a)\<lparr>mem_prev := p\<rparr> else hdr_at H a)" for a
    using nin q pn by (simp add: join_def Let_def)
  have b: "unat p + 20 \<le> unat ?q" using M(6) N(6) by (cases ys) simp_all
  have notin: "x \<noteq> p \<and> x \<noteq> ?q" if "x \<in> set xs" for x using that M(9) nin(1) by auto
  have c: "\<forall>x\<in>set xs. hdr_at ?H x = hdr_at H x" using notin by (simp add: H)
  have c2: "links ?H (last (pr # xs)) (p # []) ?q" using M(1,4) b nin(2) by (simp add: H)
  have c3: "\<forall>y\<in>set ys. mem_next (hdr_at ?H y) = mem_next (hdr_at H y)" using M(10) by (auto simp: H)
  have c4: "\<forall>y\<in>set (tl ys). mem_prev (hdr_at ?H y) = mem_prev (hdr_at H y)" using M(10) qhd by (cases ys) (auto simp: H)
  have c5: "mem_prev (hdr_at ?H (hd ys)) = last (p # [])" if "ys \<noteq> []" using M(10) that by (cases ys) (auto simp: H)
  show L': "links ?H pr (xs @ p # ys) END"
    using links_replace [where ms = "[n]" and zs = "[]", OF _ c c2 c3 c4 c5] L by simp
  have "links ?H (last (pr # xs)) (p # ys) END" "links H (last (pr # xs)) (p # n # ys) END" "links H p (n # ys) END"
    using L' L by (simp_all add: links_append)
  then have "room ?H p = unat ?q - unat p - 8" "room H p = unat n - unat p - 8" "room H n = unat ?q - unat n - 8"
    by (simp_all add: room_links [of _ _ _ ys END] room_links [of _ _ p "n # ys" END])
  then show "room ?H p = room H p + 8 + room H n" using M(3) N(3) by simp
  show "is_free ?H p = is_free H p" by (simp add: is_free_def H)
  show "kept H ?H (set xs \<union> set ys)" using M(9-11) nin by (auto simp: kept_def is_free_def H intro!: room_next)
  show "lfree ?H = lfree H" by (simp add: join_def Let_def)
qed

lemma flag_links:
  "links (upd_hdr p (\<lambda>m. m\<lparr>mem_used := u\<rparr>) H) pr ns q = links H pr ns q" "room (upd_hdr p (\<lambda>m. m\<lparr>mem_used := u\<rparr>) H) a = room H a"
  "is_free (upd_hdr p (\<lambda>m. m\<lparr>mem_used := u\<rparr>) H) a = (if a = p then u = 0 else is_free H a)"
  by (auto intro!: links_used room_next simp: is_free_def)

section \<open>The invariant and the blocks in use\<close>

definition live_areas :: "heap \<Rightarrow> u16 list \<Rightarrow> (u16 \<times> nat) set" where
  "live_areas H ns = {(p, room H p) | p. p \<in> set ns \<and> \<not> is_free H p}"

abbreviation apart2 :: "heap \<Rightarrow> u16 \<Rightarrow> u16 \<Rightarrow> bool" where
  "apart2 H p q \<equiv> \<not> (is_free H p \<and> is_free H q)"

definition first_free :: "heap \<Rightarrow> u16 list \<Rightarrow> u16" where
  "first_free H ns = hd (filter (is_free H) ns @ [END])"

lemma first_free_append:
  "first_free H (xs @ ys) = (if filter (is_free H) xs = [] then first_free H ys else hd (filter (is_free H) xs))"
  by (cases "filter (is_free H) xs") (simp_all add: first_free_def)

lemma successively_part:
  "successively P (xs @ ys) \<longleftrightarrow> successively P xs \<and> successively P ys \<and> (xs \<noteq> [] \<and> ys \<noteq> [] \<longrightarrow> P (last xs) (hd ys))"
  by (auto simp: successively_append_iff)

lemma successively_kept:
  "\<forall>x\<in>set xs. is_free H' x = is_free H x \<Longrightarrow> successively (apart2 H') xs = successively (apart2 H) xs"
  by (induction xs rule: induct_list012) auto

lemma filter_kept: "\<forall>x\<in>set xs. is_free H' x = is_free H x \<Longrightarrow> filter (is_free H') xs = filter (is_free H) xs"
  by (simp cong: filter_cong)

lemma heap_ok_parts:
  "heap_ok H ns \<longleftrightarrow> ns \<noteq> [] \<and> hd ns = 0 \<and> links H 0 ns END \<and> mem_used (hdr_at H END) = 1 \<and> mem_next (hdr_at H END) = END \<and>
     successively (apart2 H) ns \<and> lfree H = first_free H ns"
  by (simp add: heap_ok_def first_free_def)

lemma kept_D:
  assumes "kept H H' A"
  shows "\<And>a. a \<in> A \<Longrightarrow> room H' a = room H a" "\<And>a. a \<in> A \<Longrightarrow> is_free H' a = is_free H a"
    "mem_used (hdr_at H' END) = mem_used (hdr_at H END)" "mem_next (hdr_at H' END) = mem_next (hdr_at H END)"
  using assms by (simp_all add: kept_def)

lemma mem_init_ok: "heap_ok (mem_init H) [0] \<and> live_areas (mem_init H) [0] = {} \<and> room (mem_init H) 0 = 15992"
  by (simp add: heap_ok_def mem_init_def Let_def is_free_def MEM_SIZE_ALIGNED_def live_areas_def room_def SIZEOF_STRUCT_MEM_def)

lemma lfree_upd:
  "is_free (H\<lparr>lfree := x\<rparr>) = is_free H" "room (H\<lparr>lfree := x\<rparr>) = room H" "first_free (H\<lparr>lfree := x\<rparr>) ns = first_free H ns"
  "links (H\<lparr>lfree := x\<rparr>) pr as q = links H pr as q" "live_areas (H\<lparr>lfree := x\<rparr>) ns = live_areas H ns"
proof -
  show f: "is_free (H\<lparr>lfree := x\<rparr>) = is_free H" and r: "room (H\<lparr>lfree := x\<rparr>) = room H" by (simp_all add: is_free_def room_def fun_eq_iff)
  show "first_free (H\<lparr>lfree := x\<rparr>) ns = first_free H ns" "live_areas (H\<lparr>lfree := x\<rparr>) ns = live_areas H ns"
    by (simp_all add: first_free_def live_areas_def f r)
  show "links (H\<lparr>lfree := x\<rparr>) pr as q = links H pr as q" by (rule links_frame) simp
qed

text \<open>A free area that is taken, split or whole.\<close>

lemma take_ok:
  assumes ok: "heap_ok H (xs @ p # ys)" and p: "is_free H p" and H1: "links H1 0 (xs @ p # zs @ ys) END" "kept H H1 (set xs \<union> set ys)"
    and zs: "zs = [] \<or> (\<exists>p2. zs = [p2] \<and> is_free H1 p2)" and l: "lfree H1 = lfree H"
    and H2: "H2 = upd_hdr p (\<lambda>m. m\<lparr>mem_used := 1\<rparr>) H1"
  shows "\<exists>cur. (if p = lfree H2 then next_free H2 (lfree H2) else Some (lfree H2)) = Some cur \<and>
     heap_ok (H2\<lparr>lfree := cur\<rparr>) (xs @ p # zs @ ys) \<and>
     live_areas (H2\<lparr>lfree := cur\<rparr>) (xs @ p # zs @ ys) = insert (p, room H1 p) (live_areas H (xs @ p # ys))"
proof -
  note O = ok [unfolded heap_ok_parts] and M = links_mid [OF H1(1)] and K = kept_D [OF H1(2)]
  have pn: "p \<notin> set xs" "p \<notin> set ys" "p \<notin> set zs" "p \<noteq> END" using M(9-11) by simp_all
  have F2: "is_free H2 a = (if a = p then False else is_free H1 a)" for a unfolding H2 flag_links by simp
  have Fx: "\<forall>x\<in>set xs. is_free H2 x = is_free H x" "\<forall>x\<in>set ys. is_free H2 x = is_free H x" using pn K(2) by (auto simp: F2)
  have R2: "room H2 a = room H1 a" for a unfolding H2 flag_links ..
  have L2: "links H2 0 (xs @ p # zs @ ys) END" unfolding H2 flag_links using H1(1) .
  have lf: "lfree H2 = first_free H (xs @ p # ys)" using O l by (simp add: H2)
  let ?ns = "xs @ p # zs @ ys"
  have cur: "(if p = lfree H2 then next_free H2 (lfree H2) else Some (lfree H2)) = Some (first_free H2 ?ns)"
  proof (cases "filter (is_free H) xs = []")
    case True
    then have "lfree H2 = p" using lf p by (simp add: first_free_append) (simp add: first_free_def)
    moreover have "first_free H2 ?ns = first_free H2 (p # zs @ ys)"
      using True filter_kept [OF Fx(1)] by (simp add: first_free_append)
    moreover have "next_free H2 p = Some (first_free H2 (p # zs @ ys))"
      using next_free_filter [of H2 "last (0 # xs)" "p # zs @ ys"] L2 by (simp add: links_append first_free_def)
    ultimately show ?thesis by simp
  next
    case False
    then have "lfree H2 = hd (filter (is_free H) xs)" using lf by (simp add: first_free_append)
    moreover have "hd (filter (is_free H) xs) \<in> set xs" using hd_in_set [OF False] by simp
    moreover have "first_free H2 ?ns = hd (filter (is_free H) xs)"
      using False filter_kept [OF Fx(1)] by (simp add: first_free_append)
    ultimately show ?thesis using pn(1) by auto
  qed
  let ?H = "H2\<lparr>lfree := first_free H2 ?ns\<rparr>"
  note same = lfree_upd
  have sx: "successively (apart2 H) xs" "successively (apart2 H) ys" "ys \<noteq> [] \<Longrightarrow> \<not> is_free H (hd ys)"
    using O p by (cases ys; auto simp: successively_part)+
  have "successively (apart2 H2) (zs @ ys)"
    using zs sx(2,3) successively_kept [OF Fx(2)] Fx(2) by (cases ys) (auto simp: successively_part)
  then have "successively (apart2 H2) ?ns"
    using sx(1) successively_kept [OF Fx(1)] F2 by (cases "zs @ ys") (auto simp: successively_part)
  then have "heap_ok ?H ?ns"
    using O L2 K(3,4) pn(4) by (cases xs) (auto simp: heap_ok_parts same H2)
  moreover have "live_areas ?H ?ns = insert (p, room H1 p) (live_areas H (xs @ p # ys))"
    using zs pn K p F2 M(10) by (auto simp: live_areas_def same R2)
  ultimately show ?thesis using cur by blast
qed

lemma mem_round_props: "12 \<le> mem_round sz" "4 dvd mem_round sz"
proof -
  show "12 \<le> mem_round sz" by (simp add: mem_round_def MIN_SIZE_ALIGNED_def)
  have "4 dvd unat (of_nat k :: u16)" if "4 dvd k" for k :: nat
  proof -
    have "unat (of_nat k :: u16) = k mod 65536" by (simp add: unat_of_nat)
    then show ?thesis using that by (simp add: dvd_mod)
  qed
  from this [of "(unat sz + 3) div 4 * 4"] have "4 dvd unat (of_nat ((unat sz + 3) div 4 * 4) :: u16)" by (simp del: of_nat_mult)
  moreover have "(4 :: nat) dvd 12" by simp
  ultimately show "4 dvd mem_round sz" unfolding mem_round_def MIN_SIZE_ALIGNED_def max_def by presburger
qed

lemma mem_round_small:
  assumes "unat sz \<le> 65532" shows "mem_round sz = max ((unat sz + 3) div 4 * 4) 12"
proof -
  have "(unat sz + 3) div 4 * 4 < 65536" using assms by linarith
  then have "unat (of_nat ((unat sz + 3) div 4 * 4) :: u16) = (unat sz + 3) div 4 * 4" by (simp del: of_nat_mult add: unat_of_nat)
  then show ?thesis by (simp add: mem_round_def MIN_SIZE_ALIGNED_def del: of_nat_mult)
qed

lemma find_split_list:
  assumes "find P ns = Some p"
  shows "\<exists>xs ys. ns = xs @ p # ys \<and> (\<forall>x\<in>set xs. \<not> P x) \<and> P p"
  using assms
proof (induction ns)
  case (Cons a ns)
  show ?case
  proof (cases "P a")
    case True
    then show ?thesis using Cons.prems by - (rule exI [where x = "[]"], rule exI [where x = ns], simp)
  next
    case False
    then obtain xs ys where "ns = xs @ p # ys" "\<forall>x\<in>set xs. \<not> P x" "P p" using Cons by auto
    then show ?thesis using False by - (rule exI [where x = "a # xs"], rule exI [where x = ys], simp)
  qed
qed simp

lemma mem_malloc_none:
  assumes ok: "heap_ok H ns" and n: "size0 \<noteq> 0" and no: "\<forall>p\<in>set ns. \<not> fits H (mem_round size0) p"
  shows "mem_malloc_heap size0 H = Some (None, H)"
proof (cases "16000 < mem_round size0")
  case True
  then show ?thesis using n by (simp add: mem_malloc_heap_def unat_END Let_def)
next
  case False
  then have "malloc_scan H (mem_round size0) (lfree H) = Some (find (fits H (mem_round size0)) ns)"
    using mem_round_props(1) [of size0] by (intro malloc_scan_first [OF ok]) simp_all
  moreover have "find (fits H (mem_round size0)) ns = None" using no by (simp add: find_None_iff)
  ultimately show ?thesis using n False by (simp add: mem_malloc_heap_def unat_END Let_def)
qed

lemma mem_malloc_some:
  assumes ok: "heap_ok H ns" and n: "size0 \<noteq> 0" and fnd: "find (fits H (mem_round size0)) ns = Some p"
  shows "\<exists>H' ns' c. mem_malloc_heap size0 H = Some (Some (uint p + 8), H') \<and> heap_ok H' ns' \<and>
     live_areas H' ns' = insert (p, c) (live_areas H ns) \<and> mem_round size0 \<le> c \<and> c < mem_round size0 + 20 \<and> c \<le> room H p \<and>
     p \<in> set ns \<and> is_free H p"
proof -
  let ?s = "mem_round size0"
  obtain xs ys where ns: "ns = xs @ p # ys" "fits H ?s p" using find_split_list [OF fnd] by blast
  have L: "links H 0 (xs @ p # ys) END" using ok ns(1) by (simp add: heap_ok_def)
  have f: "is_free H p" "?s \<le> room H p" using ns(2) by (simp_all add: fits_def)
  have "room H p + unat p + 8 \<le> unat END" using room_bounds(1) [OF L, of p] by simp
  then have b: "\<not> 16000 < ?s" using f(2) by (simp add: unat_END)
  have scan: "malloc_scan H ?s (lfree H) = Some (Some p)"
    using malloc_scan_first [OF ok, of ?s] b mem_round_props(1) [of size0] fnd by simp
  define H1 where "H1 = (if ?s + SIZEOF_STRUCT_MEM + MIN_SIZE_ALIGNED \<le> room H p then mem_split p ?s H else H)"
  define H2 where "H2 = upd_hdr p (\<lambda>m. m\<lparr>mem_used := 1\<rparr>) H1"
  have "\<exists>zs. links H1 0 (xs @ p # zs @ ys) END \<and> kept H H1 (set xs \<union> set ys) \<and> (zs = [] \<or> (\<exists>p2. zs = [p2] \<and> is_free H1 p2)) \<and>
      lfree H1 = lfree H \<and> ?s \<le> room H1 p \<and> room H1 p < ?s + 20 \<and> room H1 p \<le> room H p"
  proof (cases "?s + 20 \<le> room H p")
    case True
    note S = mem_split_links [OF L True mem_round_props refl]
    have "H1 = mem_split p ?s H" using True by (simp add: H1_def SIZEOF_STRUCT_MEM_def MIN_SIZE_ALIGNED_def)
    then show ?thesis using S True by (intro exI [where x = "[of_nat (unat p + SIZEOF_STRUCT_MEM + ?s)]"]) simp
  next
    case False
    then have "H1 = H" by (simp add: H1_def SIZEOF_STRUCT_MEM_def MIN_SIZE_ALIGNED_def)
    then show ?thesis using L f False by (intro exI [where x = "[]"]) (simp add: kept_def)
  qed
  then obtain zs where zs: "links H1 0 (xs @ p # zs @ ys) END" "kept H H1 (set xs \<union> set ys)" "zs = [] \<or> (\<exists>p2. zs = [p2] \<and> is_free H1 p2)"
    "lfree H1 = lfree H" "?s \<le> room H1 p" "room H1 p < ?s + 20" "room H1 p \<le> room H p" by blast
  obtain cur where c: "(if p = lfree H2 then next_free H2 (lfree H2) else Some (lfree H2)) = Some cur"
    "heap_ok (H2\<lparr>lfree := cur\<rparr>) (xs @ p # zs @ ys)"
    "live_areas (H2\<lparr>lfree := cur\<rparr>) (xs @ p # zs @ ys) = insert (p, room H1 p) (live_areas H (xs @ p # ys))"
    using take_ok [OF ok [unfolded ns(1)] f(1) zs(1-4) H2_def] by blast
  have "mem_malloc_heap size0 H = Some (Some (uint p + 8), H2\<lparr>lfree := cur\<rparr>)"
    unfolding mem_malloc_heap_def Let_def scan H1_def [symmetric] H2_def [symmetric] bind.bind_lunit option.case if_not_P [OF n] unat_END if_not_P [OF b]
    by (simp add: scan H1_def [symmetric] H2_def [symmetric] c(1) SIZEOF_STRUCT_MEM_def)
  moreover have "p \<in> set ns" using ns(1) by simp
  ultimately show ?thesis using c(2,3) zs(5-7) f(1) unfolding ns(1) [symmetric] by (intro exI conjI)
qed

section \<open>Release\<close>

lemma first_free_in: "first_free H ns \<in> set (ns @ [END])"
proof -
  have "first_free H ns \<in> set (filter (is_free H) ns @ [END])" unfolding first_free_def by (rule hd_in_set) simp
  then show ?thesis by auto
qed

lemma before_first:
  assumes "links H 0 (xs @ p # ys) END" "\<not> is_free H p"
  shows "p < first_free H (xs @ p # ys) \<longleftrightarrow> filter (is_free H) xs = []"
proof (cases "filter (is_free H) xs = []")
  case True
  then have "first_free H (xs @ p # ys) = first_free H ys" using assms(2) by (simp add: first_free_append) (simp add: first_free_def)
  then show ?thesis using True links_mid(6) [OF assms(1)] first_free_in [of H ys] by (auto simp: word_less_nat_alt)
next
  case False
  then have "first_free H (xs @ p # ys) \<in> set xs" using hd_in_set [OF False] by (simp add: first_free_append)
  then show ?thesis using False links_mid(5) [OF assms(1)] by (auto simp: word_less_nat_alt)
qed

lemma first_free_join:
  "is_free H p \<Longrightarrow> \<forall>x\<in>set xs. is_free H' x = is_free H x \<Longrightarrow> is_free H' p \<Longrightarrow> first_free H' (xs @ p # zs) = first_free H (xs @ p # ys)"
  using filter_kept [of xs H' H] by (simp add: first_free_append) (simp add: first_free_def)

text \<open>The two halves of \<^verbatim>\<open>plug_holes\<close>.\<close>

definition plug_next :: "u16 \<Rightarrow> heap \<Rightarrow> heap" where
  "plug_next p H =
     (let n = mem_next (hdr_at H p)
      in if p \<noteq> n \<and> mem_used (hdr_at H n) = 0 \<and> n \<noteq> END then join p n (if lfree H = n then H\<lparr>lfree := p\<rparr> else H) else H)"

definition plug_prev :: "u16 \<Rightarrow> heap \<Rightarrow> heap" where
  "plug_prev p H =
     (let m = mem_prev (hdr_at H p)
      in if m \<noteq> p \<and> mem_used (hdr_at H m) = 0 then join m p (if lfree H = p then H\<lparr>lfree := m\<rparr> else H) else H)"

lemma plug_holes_halves: "plug_holes p H = plug_prev p (plug_next p H)"
  unfolding plug_holes_def plug_next_def plug_prev_def join_def Let_def by simp

text \<open>The state within a release: the hole at \<^verbatim>\<open>p\<close> may have free neighbours.\<close>

definition hole :: "heap \<Rightarrow> u16 list \<Rightarrow> u16 \<Rightarrow> u16 list \<Rightarrow> bool" where
  "hole H xs p ys \<longleftrightarrow> links H 0 (xs @ p # ys) END \<and> hd (xs @ [p]) = 0 \<and> is_free H p \<and> mem_used (hdr_at H END) = 1 \<and> mem_next (hdr_at H END) = END \<and>
     successively (apart2 H) xs \<and> successively (apart2 H) ys \<and> lfree H = first_free H (xs @ p # ys)"

lemma plug_next_hole:
  assumes h: "hole H xs p ys"
  shows "\<exists>zs. hole (plug_next p H) xs p zs \<and> (zs \<noteq> [] \<longrightarrow> \<not> is_free (plug_next p H) (hd zs)) \<and>
     live_areas (plug_next p H) (xs @ p # zs) = live_areas H (xs @ p # ys)"
proof (cases "ys \<noteq> [] \<and> is_free H (hd ys)")
  case True
  then obtain n zs where ys: "ys = n # zs" and f: "is_free H n" by (cases ys) auto
  have L: "links H 0 (xs @ p # n # zs) END" using h ys by (simp add: hole_def)
  note M = links_mid [OF L] and N = links_mid [of H 0 "xs @ [p]" n zs END, simplified, OF L] and J = join_links [OF L] and K = kept_D [OF join_links(4) [OF L]]
  have pn: "p \<noteq> n" "n \<noteq> END" "mem_next (hdr_at H p) = n" using M(2,10) N(11) by simp_all
  have "lfree H \<noteq> n"
  proof
    assume "lfree H = n"
    moreover have "lfree H \<in> set (xs @ [p])"
      using h by (cases "filter (is_free H) xs = []") (auto simp: hole_def first_free_append first_free_def [of H "p # _"] dest: hd_in_set)
    ultimately show False using N(9) by simp
  qed
  then have E: "plug_next p H = join p n H" using pn f by (simp add: plug_next_def is_free_def)
  have Fx: "\<forall>x\<in>set xs. is_free (join p n H) x = is_free H x" "\<forall>x\<in>set zs. is_free (join p n H) x = is_free H x" using K(2) by simp_all
  have s: "successively (apart2 H) xs" "successively (apart2 H) zs" "zs \<noteq> [] \<Longrightarrow> \<not> is_free H (hd zs)"
    using h f unfolding hole_def ys by (cases zs; simp)+
  have "hole (join p n H) xs p zs"
    using h J K(3,4) s successively_kept [OF Fx(1)] successively_kept [OF Fx(2)] first_free_join [of H p xs "join p n H" zs ys] Fx(1)
    by (simp add: hole_def)
  moreover have "live_areas (join p n H) (xs @ p # zs) = live_areas H (xs @ p # ys)"
    using h f J(3) K(1,2) unfolding ys by (auto simp: live_areas_def hole_def)
  ultimately show ?thesis using s(3) Fx(2) unfolding E by (intro exI [where x = zs]) (auto simp: hd_in_set)
next
  case False
  have n: "mem_next (hdr_at H p) = hd (ys @ [END])" using h links_mid(2) [of H 0 xs p ys END] by (simp add: hole_def)
  have "plug_next p H = H" using False n by (cases ys) (auto simp: plug_next_def Let_def is_free_def)
  then show ?thesis using h False by (intro exI [where x = ys]) auto
qed

lemma plug_prev_ok:
  assumes h: "hole H xs p ys" and n: "ys \<noteq> [] \<Longrightarrow> \<not> is_free H (hd ys)"
  shows "\<exists>ns. heap_ok (plug_prev p H) ns \<and> live_areas (plug_prev p H) ns = live_areas H (xs @ p # ys)"
proof (cases "xs \<noteq> [] \<and> is_free H (last xs)")
  case True
  then obtain us m where xs: "xs = us @ [m]" and f: "is_free H m" by (cases xs rule: rev_cases) auto
  have L: "links H 0 (us @ m # p # ys) END" using h xs by (simp add: hole_def)
  note M = links_mid [OF L] and P = links_mid [of H 0 "us @ [m]" p ys END, simplified, OF L] and J = join_links [OF L] and K = kept_D [OF join_links(4) [OF L]]
  have mp: "m \<noteq> p" "mem_prev (hdr_at H p) = m" using M(10) P(1) by simp_all
  have "lfree H \<noteq> p"
  proof
    assume "lfree H = p"
    moreover have "lfree H \<in> set (us @ [m])"
      using h f unfolding hole_def xs
      by (cases "filter (is_free H) us = []") (auto simp: first_free_append first_free_def [of H "m # _"] dest: hd_in_set)
    ultimately show False using P(9) by simp
  qed
  then have E: "plug_prev p H = join m p H" using mp f by (simp add: plug_prev_def is_free_def)
  have Fx: "\<forall>x\<in>set us. is_free (join m p H) x = is_free H x" "\<forall>x\<in>set ys. is_free (join m p H) x = is_free H x" using K(2) by simp_all
  have s: "successively (apart2 H) us" "successively (apart2 H) ys" "us \<noteq> [] \<Longrightarrow> \<not> is_free H (last us)"
    using h f unfolding hole_def xs by (auto simp: successively_part)
  have "successively (apart2 (join m p H)) (us @ m # ys)"
    using s n successively_kept [OF Fx(1)] successively_kept [OF Fx(2)] Fx by (cases ys; cases us rule: rev_cases) (auto simp: successively_part)
  moreover have "hd (us @ m # ys) = 0" using h xs by (cases us) (simp_all add: hole_def)
  ultimately have "heap_ok (join m p H) (us @ m # ys)"
    using h J K(3,4) first_free_join [of H m us "join m p H" ys "p # ys"] Fx(1) f unfolding xs by (simp add: heap_ok_parts hole_def)
  moreover have "live_areas (join m p H) (us @ m # ys) = live_areas H (xs @ p # ys)"
    using h f J(3) K(1,2) unfolding xs by (auto simp: live_areas_def hole_def)
  ultimately show ?thesis unfolding E by blast
next
  case False
  have "mem_prev (hdr_at H p) = last (0 # xs)" using h links_mid(1) [of H 0 xs p ys END] by (simp add: hole_def)
  moreover have "p = 0" if "xs = []" using h that by (simp add: hole_def)
  ultimately have "plug_prev p H = H" using False by (auto simp: plug_prev_def Let_def is_free_def)
  moreover have "successively (apart2 H) (xs @ p # ys)"
    using h n False by (cases ys) (auto simp: hole_def successively_part)
  ultimately have "heap_ok (plug_prev p H) (xs @ p # ys)" using h by (cases xs) (auto simp: heap_ok_parts hole_def)
  then show ?thesis using \<open>plug_prev p H = H\<close> by (intro exI [where x = "xs @ p # ys"]) simp
qed

lemma mem_free_ok:
  assumes ok: "heap_ok H ns" and p: "p \<in> set ns" "\<not> is_free H p"
  shows "\<exists>ns'. heap_ok (mem_free_heap (Some (uint p + 8)) H) ns' \<and>
     live_areas (mem_free_heap (Some (uint p + 8)) H) ns' = live_areas H ns - {(p, room H p)}"
proof -
  obtain xs ys where ns: "ns = xs @ p # ys" using p(1) by (auto simp: in_set_conv_decomp)
  note O = ok [unfolded heap_ok_parts ns]
  note M = links_mid [OF conjunct1 [OF conjunct2 [OF conjunct2 [OF O]]]]
  let ?F = "upd_hdr p (\<lambda>m. m\<lparr>mem_used := 0\<rparr>) H"
  define H1 where "H1 = (if p < lfree H then ?F\<lparr>lfree := p\<rparr> else ?F)"
  have F1: "is_free H1 a = (if a = p then True else is_free H a)" and R1: "room H1 a = room H a"
    and L1: "links H1 pr as q = links H pr as q" for a pr as q
    by (simp_all add: H1_def lfree_upd flag_links)
  have Fx: "\<forall>x\<in>set xs. is_free H1 x = is_free H x" "\<forall>x\<in>set ys. is_free H1 x = is_free H x" using M(9,10) by (auto simp: F1)
  have l: "lfree H1 = first_free H1 (xs @ p # ys)"
    using before_first [of H xs p ys] O p(2) filter_kept [OF Fx(1)] F1 [of p]
    by (auto simp: H1_def lfree_upd first_free_append) (auto simp: first_free_def)
  have e: "hdr_at H1 END = hdr_at H END" using M(11) by (simp add: H1_def)
  have "hd (xs @ [p]) = 0" using O by (cases xs) simp_all
  moreover have s: "successively (apart2 H) xs" "successively (apart2 H) ys" using O by (cases ys; simp add: successively_part)+
  ultimately have h: "hole H1 xs p ys"
    using O l e s successively_kept [OF Fx(1)] successively_kept [OF Fx(2)] F1 [of p] by (simp add: hole_def L1)
  have "live_areas H1 (xs @ p # ys) = live_areas H ns - {(p, room H p)}"
    unfolding live_areas_def ns R1 by (auto simp: F1)
  moreover obtain zs where zs: "hole (plug_next p H1) xs p zs" "zs \<noteq> [] \<Longrightarrow> \<not> is_free (plug_next p H1) (hd zs)"
    "live_areas (plug_next p H1) (xs @ p # zs) = live_areas H1 (xs @ p # ys)" using plug_next_hole [OF h] by blast
  moreover have "mem_free_heap (Some (uint p + 8)) H = plug_prev p (plug_next p H1)"
  proof -
    have "unat p + 20 \<le> 16000" using M(6) by (auto simp: unat_END)
    moreover have "uint END = 16000" by (simp add: MEM_SIZE_ALIGNED_def)
    ultimately have "uint p + 8 < uint END" "\<not> uint p + 8 < 0" using uint_nat [of p] by linarith+
    moreover have "of_int (uint p + 8 - int SIZEOF_STRUCT_MEM) = p" by (simp add: SIZEOF_STRUCT_MEM_def)
    ultimately show ?thesis by (simp add: mem_free_heap_def Let_def plug_holes_halves H1_def not_le)
  qed
  ultimately show ?thesis using plug_prev_ok [OF zs(1,2)] by auto
qed

section \<open>Shrinking a block\<close>

lemma trim_place:
  assumes L: "links H 0 (xs @ p # m # ys) END" and sz: "sz < room H p" and p2: "p2 = of_nat (unat p + SIZEOF_STRUCT_MEM + sz)"
  shows "unat p2 = unat p + 8 + sz" "p2 \<noteq> p" "p2 \<notin> set xs" "p2 \<notin> set ys" "p2 \<noteq> END" "unat p2 + 20 \<le> unat (hd (ys @ [END]))"
    "hd (ys @ [END]) \<notin> set xs" "hd (ys @ [END]) \<noteq> p" "hd (ys @ [END]) \<noteq> p2" "p2 < m"
proof -
  note M = links_mid [OF L] and N = links_mid [of H 0 "xs @ [p]" m ys END, simplified, OF L]
  let ?n = "hd (ys @ [END])"
  have n: "?n \<in> set (ys @ [END])" by (rule hd_in_set) simp
  have "room H p = unat m - unat p - 8" using room_links [of H "last (0 # xs)" p "m # ys" END] L by (simp add: links_append)
  then have b: "unat p + 8 + sz < unat m" using sz M(3) by simp
  then have "unat p + 8 + sz < 65536" using unat_u16_bound [of m] by linarith
  then show u: "unat p2 = unat p + 8 + sz" unfolding p2 SIZEOF_STRUCT_MEM_def by (simp del: of_nat_add add: unat_of_nat)
  have up: "unat p2 + 20 \<le> unat a" if "a \<in> set (ys @ [END])" for a using N(6) that u b by auto
  show "unat p2 + 20 \<le> unat ?n" by (rule up [OF n])
  show "p2 \<noteq> p" using u by auto
  show "p2 \<notin> set xs" using M(5) u by force
  show "p2 \<notin> set ys" "p2 \<noteq> END" using up [of p2] up [of END] by auto
  show "?n \<noteq> p2" "?n \<noteq> p" using up [OF n] u by auto
  show "?n \<notin> set xs" using M(5) up [OF n] u by force
  show "p2 < m" using u b by (simp add: word_less_nat_alt)
qed

text \<open>The free area behind the block is moved down.\<close>

lemma trim_move:
  assumes L: "links H 0 (xs @ p # m # ys) END" and sz: "12 \<le> sz" "4 dvd sz" "sz < room H p"
    and p2: "p2 = of_nat (unat p + SIZEOF_STRUCT_MEM + sz)"
    and H': "\<And>a. hdr_at H' a = (if a = p2 then \<lparr>mem_next = hd (ys @ [END]), mem_prev = p, mem_used = 0\<rparr>
      else if a = p then (hdr_at H p)\<lparr>mem_next := p2\<rparr> else if a = hd (ys @ [END]) \<and> hd (ys @ [END]) \<noteq> END then (hdr_at H a)\<lparr>mem_prev := p2\<rparr> else hdr_at H a)"
  shows "links H' 0 (xs @ p # p2 # ys) END" "kept H H' (set xs \<union> set ys)" "is_free H' p = is_free H p" "is_free H' p2" "room H' p = sz"
proof -
  note M = links_mid [OF L] and N = links_mid [of H 0 "xs @ [p]" m ys END, simplified, OF L] and P = trim_place [OF L sz(3) p2]
  let ?n = "hd (ys @ [END])"
  have nhd: "y \<noteq> ?n" if "y \<in> set (tl ys)" for y using links_ascend [OF N(8)] that by (cases ys) auto
  have notin: "x \<noteq> p2 \<and> x \<noteq> p \<and> x \<noteq> ?n" if "x \<in> set xs" for x using that P(3,7) M(9) by auto
  have notin': "y \<noteq> p2 \<and> y \<noteq> p \<and> y \<noteq> END" if "y \<in> set ys" for y
    using that P(4) M(10) links_ascend [OF N(8)] by (auto simp: sorted_wrt_append)
  have d: "4 dvd unat p2" using P(1) M(4) sz(2) by (simp add: dvd_add_right_iff)
  have c: "\<forall>x\<in>set xs. hdr_at H' x = hdr_at H x" using notin by (simp add: H')
  have c2: "links H' (last (0 # xs)) (p # [p2]) ?n" using M(1,4) P d sz(1) by (simp add: H')
  have c3: "\<forall>y\<in>set ys. mem_next (hdr_at H' y) = mem_next (hdr_at H y)" using notin' by (simp add: H')
  have c4: "\<forall>y\<in>set (tl ys). mem_prev (hdr_at H' y) = mem_prev (hdr_at H y)" using notin' nhd by (cases ys) (simp_all add: H')
  have c5: "mem_prev (hdr_at H' (hd ys)) = last (p # [p2])" if "ys \<noteq> []" using notin' that by (cases ys) (simp_all add: H')
  show L': "links H' 0 (xs @ p # p2 # ys) END"
    using links_replace [where ms = "[m]" and zs = "[p2]", OF _ c c2 c3 c4 c5] L by simp
  then have "links H' (last (0 # xs)) (p # p2 # ys) END" by (simp add: links_append)
  from room_links [OF this] show "room H' p = sz" using P(1) by simp
  show "kept H H' (set xs \<union> set ys)" using P M(9-11) by (auto simp: kept_def is_free_def H' intro!: room_next)
  show "is_free H' p = is_free H p" "is_free H' p2" using P by (simp_all add: is_free_def H')
qed

lemma first_free_pair:
  "\<not> is_free H p \<Longrightarrow> is_free H m \<Longrightarrow>
     first_free H (xs @ p # m # zs) = (if filter (is_free H) xs = [] then m else hd (filter (is_free H) xs))"
  by (simp add: first_free_append) (simp add: first_free_def)

lemma mem_trim_ok:
  assumes ok: "heap_ok H ns" and p: "p \<in> set ns" "\<not> is_free H p" and n: "mem_round size0 \<le> room H p"
  shows "\<exists>H' ns' c. mem_trim (uint p + 8) size0 H = (Some (uint p + 8), H') \<and> heap_ok H' ns' \<and> mem_round size0 \<le> c \<and> c \<le> room H p \<and>
     live_areas H' ns' = insert (p, c) (live_areas H ns - {(p, room H p)})"
proof -
  let ?s = "mem_round size0"
  obtain xs ys where ns: "ns = xs @ p # ys" using p(1) by (auto simp: in_set_conv_decomp)
  note O = ok [unfolded heap_ok_parts ns]
  have L: "links H 0 (xs @ p # ys) END" using O by simp
  note M = links_mid [OF L]
  let ?m = "hd (ys @ [END])"
  have r: "room H p = unat ?m - unat p - 8" using room_links [of H "last (0 # xs)" p ys END] L by (simp add: links_append)
  have le: "unat p + 28 \<le> unat ?m \<or> unat p + 20 \<le> unat ?m" using M(3) by simp
  have "unat (?m - p) = unat ?m - unat p" using M(3) by (simp add: unat_sub word_le_nat_alt)
  then have sz: "unat (?m - p - of_nat SIZEOF_STRUCT_MEM) = room H p"
    using M(3) r by (simp add: SIZEOF_STRUCT_MEM_def unat_sub word_le_nat_alt)
  have bnd: "\<not> 16000 < ?s" using n room_bounds(1) [OF L, of p] by (simp add: unat_END)
  have pos: "\<not> (uint p + 8 < 0 \<or> uint END \<le> uint p + 8)"
  proof -
    have "unat p + 20 \<le> 16000" using M(6) by (auto simp: unat_END)
    moreover have "uint END = 16000" by (simp add: MEM_SIZE_ALIGNED_def)
    ultimately show ?thesis using uint_nat [of p] by linarith
  qed
  have o: "of_int (uint p + 8 - int SIZEOF_STRUCT_MEM) = p" by (simp add: SIZEOF_STRUCT_MEM_def)
  let ?p2 = "of_nat (unat p + SIZEOF_STRUCT_MEM + ?s) :: u16"
  note T = mem_trim_def [of "uint p + 8" size0 H, unfolded Let_def unat_END if_not_P [OF bnd] if_not_P [OF pos] o M(2) sz]
  have same: ?thesis if "mem_trim (uint p + 8) size0 H = (Some (uint p + 8), H)"
    using that ok n p by (intro exI [where x = H] exI [where x = ns] exI [where x = "room H p"]) (auto simp: live_areas_def)
  have s: "successively (apart2 H) xs" "successively (apart2 H) ys" using O by (cases ys; simp add: successively_part)+
  have fin: ?thesis
    if H1: "mem_trim (uint p + 8) size0 H = (Some (uint p + 8), H1)" "links H1 0 (xs @ p # ?p2 # zs) END" "kept H H1 (set xs \<union> set zs)"
      "is_free H1 p = is_free H p" "is_free H1 ?p2" "room H1 p = ?s" "lfree H1 = first_free H1 (xs @ p # ?p2 # zs)"
      and zs: "set zs \<subseteq> set ys" "\<forall>y\<in>set ys - set zs. is_free H y" "successively (apart2 H) zs" "zs \<noteq> [] \<Longrightarrow> \<not> is_free H (hd zs)" for H1 zs
  proof -
    note K = kept_D [OF H1(3)]
    have Fx: "\<forall>x\<in>set xs. is_free H1 x = is_free H x" "\<forall>x\<in>set zs. is_free H1 x = is_free H x" using K(2) by simp_all
    have "successively (apart2 H1) (xs @ p # ?p2 # zs)"
      using s(1) zs(3,4) successively_kept [OF Fx(1)] successively_kept [OF Fx(2)] Fx(2) H1(4) p(2)
      by (cases zs) (auto simp: successively_part)
    then have "heap_ok H1 (xs @ p # ?p2 # zs)" using O H1(2,7) K(3,4) by (cases xs) (auto simp: heap_ok_parts)
    moreover have "live_areas H1 (xs @ p # ?p2 # zs) = insert (p, ?s) (live_areas H ns - {(p, room H p)})"
      using H1(4-6) K(1,2) p(2) zs(1,2) M(9,10) unfolding ns by (auto simp: live_areas_def)
    ultimately show ?thesis using H1(1) n by blast
  qed
  have cases: "room H p = ?s \<or> ?s < room H p" using n by auto
  show ?thesis
  proof (cases "room H p = ?s")
    case True
    then show ?thesis using T by (intro same) simp
  next
    case False
    then have lt: "?s < room H p" using n by simp
    show ?thesis
    proof (cases "is_free H ?m")
      case fm: True
      then obtain m zs where ys: "ys = m # zs" using O by (cases ys) (auto simp: is_free_def)
      have N: "mem_next (hdr_at H m) = hd (zs @ [END])" using links_mid(2) [of H 0 "xs @ [p]" m zs END] L ys by simp
      let ?H = "if lfree H = m then H\<lparr>lfree := ?p2\<rparr> else H"
      let ?G = "upd_hdr p (\<lambda>m. m\<lparr>mem_next := ?p2\<rparr>) (upd_hdr ?p2 (\<lambda>_. \<lparr>mem_next = hd (zs @ [END]), mem_prev = p, mem_used = 0\<rparr>) ?H)"
      define H1 where "H1 = (if hd (zs @ [END]) \<noteq> END then upd_hdr (hd (zs @ [END])) (\<lambda>m. m\<lparr>mem_prev := ?p2\<rparr>) ?G else ?G)"
      have t: "mem_trim (uint p + 8) size0 H = (Some (uint p + 8), H1)"
        using T lt False fm N by (simp add: is_free_def ys H1_def)
      have L2: "links H 0 (xs @ p # m # zs) END" using L ys by simp
      note P = trim_place [OF L2 lt refl]
      have h: "hdr_at H1 a = (if a = ?p2 then \<lparr>mem_next = hd (zs @ [END]), mem_prev = p, mem_used = 0\<rparr>
        else if a = p then (hdr_at H p)\<lparr>mem_next := ?p2\<rparr>
        else if a = hd (zs @ [END]) \<and> hd (zs @ [END]) \<noteq> END then (hdr_at H a)\<lparr>mem_prev := ?p2\<rparr> else hdr_at H a)" for a
        using P(2,8,9) by (simp add: H1_def)
      note V = trim_move [OF L2 mem_round_props lt refl h]
      have Fx: "\<forall>x\<in>set xs. is_free H1 x = is_free H x" using kept_D(2) [OF V(2)] by simp
      have m: "is_free H m" using fm ys by simp
      have "m \<notin> set xs" using links_mid(9) [of H 0 "xs @ [p]" m zs END] L2 by simp
      then have "first_free H1 (xs @ p # ?p2 # zs) = (if lfree H = m then ?p2 else lfree H)"
        using O p(2) m V(3,4) filter_kept [OF Fx] hd_in_set [of "filter (is_free H) xs"] unfolding ys
        by (auto simp: first_free_pair)
      then have l: "lfree H1 = first_free H1 (xs @ p # ?p2 # zs)" by (simp add: H1_def)
      have "successively (apart2 H) zs" "zs \<noteq> [] \<Longrightarrow> \<not> is_free H (hd zs)" using s(2) m unfolding ys by (cases zs; simp)+
      then show ?thesis using m by (intro fin [OF t V(1-5) l]) (auto simp: ys)
    next
      case nf: False
      show ?thesis
      proof (cases "?s + 20 \<le> room H p")
        case True
        let ?H = "if ?p2 < lfree H then H\<lparr>lfree := ?p2\<rparr> else H"
        have t: "mem_trim (uint p + 8) size0 H = (Some (uint p + 8), mem_split p ?s ?H)"
          using T lt False nf True by (simp add: is_free_def SIZEOF_STRUCT_MEM_def MIN_SIZE_ALIGNED_def)
        have L': "links ?H 0 (xs @ p # ys) END" "?s + 20 \<le> room ?H p" and sameH: "room ?H = room H" "is_free ?H = is_free H" "hdr_at ?H = hdr_at H"
          using L True by (simp_all add: lfree_upd)
        note V = mem_split_links [OF L' mem_round_props refl]
        have k: "kept H (mem_split p ?s ?H) (set xs \<union> set ys)" using V(6) unfolding kept_def sameH .
        have Fx: "\<forall>x\<in>set xs. is_free (mem_split p ?s ?H) x = is_free H x" using kept_D(2) [OF k] by simp
        note P2 = links_mid [of "mem_split p ?s ?H" 0 "xs @ [p]" ?p2 ys END, unfolded append_assoc append_Cons append_Nil, OF V(1)]
        have "first_free (mem_split p ?s ?H) (xs @ p # ?p2 # ys) = (if ?p2 < lfree H then ?p2 else lfree H)"
        proof (cases "filter (is_free H) xs = []")
          case True
          then have "lfree H = first_free H ys" using O p(2) by (simp add: first_free_append) (simp add: first_free_def)
          then have "?p2 < lfree H" using P2(6) first_free_in [of H ys] by (auto simp: word_less_nat_alt)
          then show ?thesis using True p(2) V(4,5) filter_kept [OF Fx] sameH by (simp add: first_free_pair)
        next
          case False
          then have "lfree H = hd (filter (is_free H) xs)" "lfree H \<in> set xs"
            using O hd_in_set [OF False] by (simp_all add: first_free_append)
          moreover have "\<not> ?p2 < lfree H" using P2(5) calculation(2) by (auto simp: word_less_nat_alt)
          ultimately show ?thesis using False p(2) V(4,5) filter_kept [OF Fx] sameH by (simp add: first_free_pair)
        qed
        then have l: "lfree (mem_split p ?s ?H) = first_free (mem_split p ?s ?H) (xs @ p # ?p2 # ys)" using V(7) by simp
        show ?thesis
          using s(2) nf V(5) sameH by (intro fin [OF t V(1) k _ V(4,2) l]) (auto simp: hd_append split: if_splits)
      next
        case nr: False
        then show ?thesis using T lt False nf by (intro same) (simp add: is_free_def SIZEOF_STRUCT_MEM_def MIN_SIZE_ALIGNED_def)
      qed
    qed
  qed
qed

section \<open>Clients\<close>

text \<open>A size above 65532 is cut to 16 bits by the rounding and gets the smallest block, of 12 bytes.\<close>

definition granted :: "u16 \<Rightarrow> u16" where
  "granted k = (if unat k \<le> 65532 then k else 12)"

text \<open>The heap and the blocks its clients hold, each with the size it was granted.  The clients ask for any
  size, but write only into what they were granted, which may change what is stored at the offsets that the
  bytes of the block overlap.\<close>

inductive client :: "heap \<Rightarrow> (u16 \<rightharpoonup> u16) \<Rightarrow> bool" where
  start: "client (mem_init H) Map.empty"
| got: "client H M \<Longrightarrow> k \<noteq> 0 \<Longrightarrow> mem_malloc_heap k H = Some (Some (uint p + 8), H') \<Longrightarrow> client H' (M(p \<mapsto> granted k))"
| failed: "client H M \<Longrightarrow> mem_malloc_heap k H = Some (None, H') \<Longrightarrow> client H' M"
| freed: "client H M \<Longrightarrow> M p = Some k \<Longrightarrow> client (mem_free_heap (Some (uint p + 8)) H) (M(p := None))"
| trimmed: "client H M \<Longrightarrow> M p = Some k \<Longrightarrow> l \<le> k \<Longrightarrow> mem_trim (uint p + 8) l H = (r, H') \<Longrightarrow> client H' (M(p \<mapsto> l))"
| wrote: "client H M \<Longrightarrow> M p = Some k \<Longrightarrow> unat p + 8 < unat q + 8 \<Longrightarrow> unat q < unat p + 8 + unat k \<Longrightarrow> client (upd_hdr q (\<lambda>_. h) H) M"

definition holds :: "heap \<Rightarrow> (u16 \<rightharpoonup> u16) \<Rightarrow> u16 list \<Rightarrow> bool" where
  "holds H M ns \<longleftrightarrow> heap_ok H ns \<and> fst ` live_areas H ns = dom M \<and> (\<forall>p k. M p = Some k \<longrightarrow> unat k \<le> 65532 \<and> mem_round k \<le> room H p)"

lemma live_room: "(p, c) \<in> live_areas H ns \<longleftrightarrow> p \<in> set ns \<and> \<not> is_free H p \<and> c = room H p"
  by (auto simp: live_areas_def)

lemma holds_at:
  assumes "holds H M ns" "M p = Some k"
  shows "p \<in> set ns" "\<not> is_free H p" "mem_round k \<le> room H p" "unat k \<le> 65532" "unat k \<le> room H p"
proof -
  have "p \<in> fst ` live_areas H ns" using assms by (auto simp: holds_def)
  then show "p \<in> set ns" "\<not> is_free H p" by (auto simp: live_areas_def)
  show k: "mem_round k \<le> room H p" "unat k \<le> 65532" using assms by (auto simp: holds_def)
  have "unat k \<le> mem_round k" using mem_round_small [OF k(2)] by linarith
  then show "unat k \<le> room H p" using k(1) by linarith
qed

text \<open>The blocks that a call does not change.\<close>

lemma holds_keep:
  assumes h: "holds H M ns" and ok: "heap_ok H' ns'" and l: "live_areas H' ns' = insert (p, c) (live_areas H ns - {(p, room H p)})"
    and k: "unat k \<le> 65532" "mem_round k \<le> c"
  shows "holds H' (M(p \<mapsto> k)) ns'"
proof -
  have r: "room H' q = (if q = p then c else room H q)" if "(M(p \<mapsto> k)) q \<noteq> None" for q
  proof (cases "q = p")
    case True
    have "(p, c) \<in> live_areas H' ns'" by (simp add: l)
    then show ?thesis using True by (simp add: live_room)
  next
    case False
    then have "q \<in> dom M" using that by auto
    then have "(q, room H q) \<in> live_areas H ns" using h by (auto simp: holds_def live_areas_def)
    then have "(q, room H q) \<in> live_areas H' ns'" using l False by simp
    then show ?thesis using False by (simp add: live_room)
  qed
  have "fst ` live_areas H' ns' = insert p (dom M)"
  proof -
    have "fst ` (live_areas H ns - {(p, room H p)}) = fst ` live_areas H ns - {p}" by (auto simp: live_areas_def)
    then show ?thesis using h by (auto simp: l holds_def)
  qed
  moreover have "mem_round j \<le> room H' q" "unat j \<le> 65532" if "(M(p \<mapsto> k)) q = Some j" for q j
    using that k r [of q] h by (auto simp: holds_def split: if_splits)
  ultimately show ?thesis using ok by (simp add: holds_def)
qed

lemma heap_frame:
  assumes "\<forall>a\<in>set ns \<union> {END}. hdr_at H' a = hdr_at H a" "lfree H' = lfree H"
  shows "heap_ok H' ns = heap_ok H ns" "live_areas H' ns = live_areas H ns" "\<And>a. a \<in> set ns \<Longrightarrow> room H' a = room H a"
proof -
  have f: "\<forall>a\<in>set ns. is_free H' a = is_free H a" and r: "\<And>a. a \<in> set ns \<Longrightarrow> room H' a = room H a"
    using assms(1) by (simp_all add: is_free_def room_def)
  show "heap_ok H' ns = heap_ok H ns"
    using assms links_frame [of ns H' H 0 END] successively_kept [OF f] filter_kept [OF f] by (simp add: heap_ok_def)
  show "live_areas H' ns = live_areas H ns" using f r by (auto simp: live_areas_def)
  show "\<And>a. a \<in> set ns \<Longrightarrow> room H' a = room H a" by (rule r)
qed

lemma mem_round_mono: "l \<le> k \<Longrightarrow> unat k \<le> 65532 \<Longrightarrow> mem_round l \<le> mem_round k"
proof -
  assume a: "l \<le> k" "unat k \<le> 65532"
  then have "unat l \<le> unat k" by (simp add: word_le_nat_alt)
  then have "(unat l + 3) div 4 * 4 \<le> (unat k + 3) div 4 * 4" by (simp add: div_le_mono)
  then show ?thesis using a \<open>unat l \<le> unat k\<close> by (simp add: mem_round_small le_max_iff_disj) linarith
qed

lemma granted_round: "unat (granted k) \<le> 65532" "mem_round (granted k) = mem_round k"
proof -
  show "unat (granted k) \<le> 65532" by (simp add: granted_def)
  show "mem_round (granted k) = mem_round k"
  proof (cases "unat k \<le> 65532")
    case False
    then have "65533 \<le> unat k" by simp
    moreover have "unat k < 65537" using unat_u16_bound [of k] by linarith
    ultimately have "(unat k + 3) div 4 = 16384" by (intro div_nat_eqI) simp_all
    then have "mem_round k = 12" unfolding mem_round_def MIN_SIZE_ALIGNED_def by simp
    moreover have "mem_round 12 = 12" by (simp add: mem_round_def MIN_SIZE_ALIGNED_def)
    ultimately show ?thesis using False by (simp add: granted_def)
  qed (simp add: granted_def)
qed

lemma client_holds: "client H M \<Longrightarrow> \<exists>ns. holds H M ns"
proof (induction rule: client.induct)
  case (start H)
  show ?case using mem_init_ok [of H] by (intro exI [where x = "[0]"]) (simp add: holds_def)
next
  case (got H M k p H')
  then obtain ns where h: "holds H M ns" by blast
  then have ok: "heap_ok H ns" by (simp add: holds_def)
  have "find (fits H (mem_round k)) ns \<noteq> None" using mem_malloc_none [OF ok got(2)] got(3) by (auto simp: find_None_iff)
  then obtain p' where "find (fits H (mem_round k)) ns = Some p'" by blast
  from mem_malloc_some [OF ok got(2) this] got(3) obtain ns' c where S: "heap_ok H' ns'" "live_areas H' ns' = insert (p', c) (live_areas H ns)"
    "mem_round k \<le> c" "p' \<in> set ns" "is_free H p'" "uint p = uint p'" by auto
  have p: "p' = p" using S(6) by (simp add: word_uint_eq_iff)
  have "(p, room H p) \<notin> live_areas H ns" using S(5) by (simp add: live_room p)
  then have "live_areas H' ns' = insert (p, c) (live_areas H ns - {(p, room H p)})" using S(2) by (simp add: p)
  from holds_keep [OF h S(1) this granted_round(1)] S(3) show ?case unfolding granted_round(2) by blast
next
  case (failed H M k H')
  then obtain ns where h: "holds H M ns" by blast
  then have ok: "heap_ok H ns" by (simp add: holds_def)
  have "H' = H"
  proof (cases "k = 0")
    case True
    then show ?thesis using failed(2) by (simp add: mem_malloc_heap_def)
  next
    case k: False
    show ?thesis
    proof (cases "find (fits H (mem_round k)) ns")
      case None
      then have "mem_malloc_heap k H = Some (None, H)" by (intro mem_malloc_none [OF ok k]) (simp add: find_None_iff)
      then show ?thesis using failed(2) by simp
    next
      case (Some p)
      then show ?thesis using mem_malloc_some [OF ok k, of p] failed(2) by auto
    qed
  qed
  then show ?case using h by blast
next
  case (freed H M p k)
  then obtain ns where h: "holds H M ns" by blast
  then have ok: "heap_ok H ns" by (simp add: holds_def)
  note A = holds_at [OF h freed(2)]
  obtain ns' where F: "heap_ok (mem_free_heap (Some (uint p + 8)) H) ns'"
    "live_areas (mem_free_heap (Some (uint p + 8)) H) ns' = live_areas H ns - {(p, room H p)}" using mem_free_ok [OF ok A(1,2)] by blast
  let ?H = "mem_free_heap (Some (uint p + 8)) H"
  have "room ?H q = room H q" if "q \<in> dom M" "q \<noteq> p" for q
  proof -
    have "(q, room H q) \<in> live_areas H ns" using that(1) h by (auto simp: holds_def live_areas_def)
    then have "(q, room H q) \<in> live_areas ?H ns'" using F(2) that(2) by simp
    then show ?thesis by (simp add: live_room)
  qed
  moreover have "fst ` live_areas ?H ns' = dom M - {p}"
  proof -
    have "fst ` (live_areas H ns - {(p, room H p)}) = fst ` live_areas H ns - {p}" by (auto simp: live_areas_def)
    then show ?thesis using F(2) h by (simp add: holds_def)
  qed
  ultimately have "holds ?H (M(p := None)) ns'" using F(1) h by (auto simp: holds_def domI)
  then show ?case by blast
next
  case (trimmed H M p k l r H')
  then obtain ns where h: "holds H M ns" by blast
  then have ok: "heap_ok H ns" by (simp add: holds_def)
  note A = holds_at [OF h trimmed(2)]
  have "mem_round l \<le> room H p" using mem_round_mono [OF trimmed(3) A(4)] A(3) by simp
  from mem_trim_ok [OF ok A(1,2) this] trimmed(4) obtain ns' c where "heap_ok H' ns'" "mem_round l \<le> c"
    "live_areas H' ns' = insert (p, c) (live_areas H ns - {(p, room H p)})" by auto
  moreover have "unat l \<le> 65532" using trimmed(3) A(4) by (simp add: word_le_nat_alt)
  ultimately show ?case using holds_keep [OF h, of H' ns' p c l] by blast
next
  case (wrote H M p k q h)
  then obtain ns where hd: "holds H M ns" by blast
  then have ok: "heap_ok H ns" by (simp add: holds_def)
  note A = holds_at [OF hd wrote(2)]
  obtain xs ys where ns: "ns = xs @ p # ys" using A(1) by (auto simp: in_set_conv_decomp)
  have L: "links H 0 (xs @ p # ys) END" using ok ns by (simp add: heap_ok_def)
  note M = links_mid [OF L]
  have "room H p = unat (hd (ys @ [END])) - unat p - 8" using room_links [of H "last (0 # xs)" p ys END] L by (simp add: links_append)
  then have b: "unat p < unat q" "unat q < unat (hd (ys @ [END]))" using wrote(3,4) A(5) M(3) by linarith+
  have "unat (hd (ys @ [END])) \<le> unat a" if "a \<in> set (ys @ [END])" for a using links_ascend [OF M(8)] that by (cases ys) auto
  then have "q \<notin> set (ys @ [END])" using b(2) by force
  moreover have "q \<notin> set xs" "q \<noteq> p" using M(5) b(1) by force+
  ultimately have q: "\<forall>a\<in>set ns \<union> {END}. hdr_at (upd_hdr q (\<lambda>_. h) H) a = hdr_at H a" by (auto simp: ns)
  note F = heap_frame [OF q]
  have "holds (upd_hdr q (\<lambda>_. h) H) M ns" using hd F(1-3) holds_at(1) [OF hd] by (auto simp: holds_def)
  then show ?case by blast
qed

text \<open>C24: Whatever the clients of lwIP's heap allocate, shrink, write into their blocks and release:
  every block is aligned and inside the heap, with room for the size granted or last shrunk to, no
  two blocks overlap and none overlaps the header of another. The size granted is the size asked
  for, or 12 bytes if that is above 65532; clients write only into what they were granted.\<close>

theorem heap_blocks_apart:
  assumes "client H M" "M p = Some k" "M q = Some l" "p \<noteq> q"
  shows "4 dvd unat p \<and> unat p + 8 + unat k \<le> 16000 \<and> (unat p + 8 + unat k \<le> unat q \<or> unat q + 8 + unat l \<le> unat p)"
proof -
  obtain ns where h: "holds H M ns" using client_holds [OF assms(1)] by blast
  then have L: "links H 0 ns END" by (simp add: holds_def heap_ok_def)
  have one: "4 dvd unat a \<and> unat a + 8 + unat i \<le> 16000 \<and> (\<forall>b\<in>set ns. a < b \<longrightarrow> unat a + 8 + unat i \<le> unat b)"
    if a: "M a = Some i" for a i
  proof -
    note A = holds_at [OF h a]
    obtain xs ys where ns: "ns = xs @ a # ys" using A(1) by (auto simp: in_set_conv_decomp)
    note N = links_mid [OF L [unfolded ns]]
    have "room H a = unat (hd (ys @ [END])) - unat a - 8"
      using room_links [of H "last (0 # xs)" a ys END] L by (simp add: ns links_append)
    then have e: "unat a + 8 + unat i \<le> unat (hd (ys @ [END]))" using A(5) N(3) by simp
    have up: "unat (hd (ys @ [END])) \<le> unat b" if "b \<in> set (ys @ [END])" for b using links_ascend [OF N(8)] that by (cases ys) auto
    have "b \<in> set ys" if "b \<in> set ns" "a < b" for b using that N(5) by (auto simp: ns word_less_nat_alt)
    then show ?thesis using N(4) e up [of END] up by (fastforce simp: unat_END)
  qed
  have "p \<in> set ns" "q \<in> set ns" using holds_at(1) [OF h] assms(2,3) by simp_all
  then show ?thesis using one [OF assms(2)] one [OF assms(3)] assms(4) by (cases "p < q") auto
qed

text \<open>When all blocks were given back the heap is one free area again, and a call always returns.\<close>

lemma all_free_single:
  assumes "holds H Map.empty ns" shows "ns = [0]"
proof -
  have f: "\<forall>p\<in>set ns. is_free H p" using assms by (auto simp: holds_def live_areas_def)
  obtain a ms where ns: "ns = a # ms" using assms by (cases ns) (auto simp: holds_def heap_ok_def)
  have "ms = []" using assms f by (cases ms) (auto simp: ns holds_def heap_ok_def)
  then show ?thesis using assms by (simp add: ns holds_def heap_ok_def)
qed

text \<open>C25: Once all blocks were given back, whatever was allocated, shrunk, released and written into
  granted blocks before, the heap is one free area again: an allocation of any size up to 15992
  bytes returns with a block at its start. For a size above 65532 only 12 bytes count as granted.\<close>

theorem heap_restored:
  assumes "client H Map.empty" "k \<noteq> 0" "unat k \<le> 15992"
  shows "\<exists>H'. mem_malloc_heap k H = Some (Some 8, H') \<and> lfree H = 0 \<and> hdr_at H 0 = \<lparr>mem_next = END, mem_prev = 0, mem_used = 0\<rparr>"
proof -
  obtain ns where h: "holds H Map.empty ns" using client_holds [OF assms(1)] by blast
  then have ns: "ns = [0]" by (rule all_free_single)
  then have ok: "heap_ok H [0]" using h by (simp add: holds_def)
  have f: "is_free H 0" using h by (auto simp: holds_def live_areas_def ns)
  have "room H 0 = 15992" using ok room_links [of H 0 0 "[]" END] by (simp add: heap_ok_def unat_END)
  moreover have "mem_round k \<le> 15992" using assms(3) div_le_mono [of "unat k + 3" 15995 4] mem_round_small [of k] by simp
  ultimately have "find (fits H (mem_round k)) [0] = Some 0" using f by (simp add: fits_def)
  from mem_malloc_some [OF ok assms(2) this] obtain H' where "mem_malloc_heap k H = Some (Some 8, H')" by auto
  moreover have "hdr_at H 0 = \<lparr>mem_next = END, mem_prev = 0, mem_used = 0\<rparr>"
    using ok f by (intro mem_hdr.equality) (simp_all add: heap_ok_def is_free_def)
  moreover have "lfree H = 0" using ok f by (simp add: heap_ok_def)
  ultimately show ?thesis by blast
qed

theorem mem_malloc_first_fit:
  assumes "client H M" "k \<noteq> 0"
  shows "\<exists>ns. heap_ok H ns \<and>
     (case find (fits H (mem_round k)) ns of
        None \<Rightarrow> mem_malloc_heap k H = Some (None, H)
      | Some p \<Rightarrow> \<exists>H'. mem_malloc_heap k H = Some (Some (uint p + 8), H') \<and> M p = None)"
proof -
  obtain ns where h: "holds H M ns" using client_holds [OF assms(1)] by blast
  then have ok: "heap_ok H ns" by (simp add: holds_def)
  show ?thesis
  proof (cases "find (fits H (mem_round k)) ns")
    case None
    then have "mem_malloc_heap k H = Some (None, H)" by (intro mem_malloc_none [OF ok assms(2)]) (simp add: find_None_iff)
    then show ?thesis using ok None by (intro exI [where x = ns]) (simp del: find_None_iff find_None_iff2)
  next
    case (Some p)
    obtain H' where S: "mem_malloc_heap k H = Some (Some (uint p + 8), H')" "is_free H p" using mem_malloc_some [OF ok assms(2) Some] by blast
    have "M p = None" using holds_at(2) [OF h] S(2) by (cases "M p") auto
    then show ?thesis using ok Some S(1) by (intro exI [where x = ns]) simp
  qed
qed

text \<open>A size above 65532 is cut to 16 bits by the rounding.\<close>

theorem mem_malloc_oversize:
  "\<exists>H' ns. mem_malloc_heap 0xFFFE (mem_init H) = Some (Some 8, H') \<and> heap_ok H' ns \<and> (\<exists>c<32. (0, c) \<in> live_areas H' ns)"
proof -
  let ?H = "mem_init H"
  have ok: "heap_ok ?H [0]" "room ?H 0 = 15992" "is_free ?H 0" using mem_init_ok [of H] by (auto simp: live_areas_def)
  have r: "mem_round 0xFFFE = 12" by (simp add: mem_round_def MIN_SIZE_ALIGNED_def)
  then have "find (fits ?H (mem_round 0xFFFE)) [0] = Some 0" using ok by (simp add: fits_def)
  from mem_malloc_some [OF ok(1) _ this] obtain H' ns' c where S: "mem_malloc_heap 0xFFFE ?H = Some (Some 8, H')" "heap_ok H' ns'"
    "live_areas H' ns' = insert (0, c) (live_areas ?H [0])" "c < 32" using r by auto
  then show ?thesis by blast
qed

section \<open>Two blocks\<close>

definition demo_heap :: heap where
  "demo_heap = mem_init \<lparr>hdr_at = \<lambda>_. \<lparr>mem_next = 0, mem_prev = 0, mem_used = 0\<rparr>, lfree = 7\<rparr>"

lemma demo_heap_block:
  "\<exists>H1 H2. mem_malloc_heap 100 demo_heap = Some (Some (uint (0 :: u16) + 8), H1) \<and>
     mem_malloc_heap 50 H1 = Some (Some (uint (108 :: u16) + 8), H2)"
  by (simp add: mem_malloc_heap_def mem_round_def MIN_SIZE_ALIGNED_def SIZEOF_STRUCT_MEM_def MEM_SIZE_ALIGNED_def Let_def
    malloc_scan.simps next_free.simps demo_heap_def mem_init_def room_def mem_split_def)

lemma demo_client: "\<exists>H. client H [0 \<mapsto> 100, 108 \<mapsto> 50]"
proof -
  obtain H1 H2 where m: "mem_malloc_heap 100 demo_heap = Some (Some (uint (0 :: u16) + 8), H1)"
    "mem_malloc_heap 50 H1 = Some (Some (uint (108 :: u16) + 8), H2)" using demo_heap_block by blast
  have "client demo_heap Map.empty" unfolding demo_heap_def by (rule client.start)
  then have "client H1 [0 \<mapsto> 100]" using client.got [OF _ _ m(1), of Map.empty] by (simp add: granted_def)
  then have "client H2 [0 \<mapsto> 100, 108 \<mapsto> 50]" using client.got [OF _ _ m(2), of "[0 \<mapsto> 100]"] by (simp add: granted_def)
  then show ?thesis by blast
qed

theorem heap_blocks_apart_witness:
  "\<exists>H. client H [0 \<mapsto> 100, 108 \<mapsto> 50] \<and> 4 dvd unat (108 :: u16) \<and> unat (108 :: u16) + 8 + unat (50 :: u16) \<le> 16000 \<and>
     (unat (108 :: u16) + 8 + unat (50 :: u16) \<le> unat (0 :: u16) \<or> unat (0 :: u16) + 8 + unat (100 :: u16) \<le> unat (108 :: u16))"
proof -
  obtain H where H: "client H [0 \<mapsto> 100, 108 \<mapsto> 50]" using demo_client by blast
  from heap_blocks_apart [OF H, of 108 50 0 100] H show ?thesis by auto
qed

theorem heap_restored_witness:
  "\<exists>H'. mem_malloc_heap 15992 demo_heap = Some (Some 8, H') \<and> lfree demo_heap = 0 \<and>
     hdr_at demo_heap 0 = \<lparr>mem_next = MEM_SIZE_ALIGNED, mem_prev = 0, mem_used = 0\<rparr>"
  unfolding demo_heap_def by (rule heap_restored [OF client.start]) simp_all

theorem mem_malloc_first_fit_witness:
  "\<exists>ns. heap_ok demo_heap ns \<and>
     (case find (fits demo_heap (mem_round 5)) ns of
        None \<Rightarrow> mem_malloc_heap 5 demo_heap = Some (None, demo_heap)
      | Some p \<Rightarrow> \<exists>H'. mem_malloc_heap 5 demo_heap = Some (Some (uint p + 8), H') \<and> Map.empty p = (None :: u16 option))"
  unfolding demo_heap_def by (rule mem_malloc_first_fit [OF client.start]) simp

end
