(* ===== verification/Camera_Net.thy ===== *)
theory Camera_Net
  imports Cam_Params Lwip_In
begin

text \<open>
  The inner loop of \<^verbatim>\<open>udp_thread\<close> (\<^verbatim>\<open>udp_demo.c\<close>) over the receive path of lwIP, and with it the way of a packet of
  the host from the wire to the handler of \<^verbatim>\<open>udp_dataprocess_task\<close>.
\<close>

section \<open>udp_thread\<close>

text \<open>A round waits in \<^verbatim>\<open>netconn_recv\<close>, goes on with the loop, or leaves it because the connection is closed; closing
  and deleting the connection is the start of the next outer round.\<close>

datatype thread_round = Waits | Goes_On | Closes

definition udp_thread_round :: "u32 \<Rightarrow> 'x rx_par \<Rightarrow> nat \<Rightarrow> 'x rxs \<Rightarrow> ('e, 'c) app \<Rightarrow> (thread_round \<times> 'x rxs \<times> ('e, 'c) app) option" where
  "udp_thread_round nullp I conn W st =
     do {
       (r, W) \<leftarrow> netconn_recv nullp conn W;
       (case r of
          None \<Rightarrow> Some (Waits, W, st)
        | Some (err, buf) \<Rightarrow>
            if err = ERR_OK
            then do {
                   st \<leftarrow> recv_datagram (map pbuf_data (nb_p (netbuf_at W buf))) st;
                   Some (Goes_On, netbuf_free_rx I buf W, st)
                 }
            else if err = ERR_CLSD \<or> err = ERR_RST \<or> err = ERR_ABRT \<or> err = ERR_CONN
            then Some (Closes, if buf \<noteq> 0 then netbuf_free_rx I buf W else W, st\<lparr>udp_flag := 0\<rparr>)
            else Some (Goes_On, W, st))
     }"

text \<open>A packet of the host, in a frame with any padding, that finds the thread's mailbox and the receive queue empty.\<close>

text \<open>C8: A 76-byte packet of the host, in a frame with any padding, that finds the mailbox of
  udp_thread and the receive queue empty, passes Ethernet, IP and UDP input, is taken by the next
  round of udp_thread, which gives its netbuf back, and is handled unchanged by the next round of
  udp_dataprocess_task.\<close>

theorem host_packet_handled:
  assumes "udp_ok all (udp W)" "reaches nif peer inp (udp W) conn" "conn_ready nullp conn e k W" "mbox_list nullp k (rx_qt W) = []"
    and "pool_netbuf W = buf # pool" "buf \<noteq> 0" "buf \<noteq> nullp" and "\<And>q x. rx_raw_input I q inp x = (False, x)"
    and "1 < q_cap (OSQTbl (rx_qt W) ! k)"
    and "OSIntNesting (rx_os W) = 0" "OSLockNesting (rx_os W) = 0" "\<not> ERR_IS_FATAL (conn_err (conn_at W conn))"
    and "fifo_wf (recvq st)" "length (netrecv_line st) = 76" "fifo_contents (recvq st) = []" "udp_flag st = 1" "msg_netrecvok st = 0"
    and "packet_wf m" "head1 m = 0xAA" "head2 m = 0xAC" "carries nif peer f (packet_bytes m)" "packet room (f @ pad) p"
  shows "\<exists>W' W'' st1 q. ethernet_input nullp I others [p] inp W = Some W' \<and>
     udp_thread_round nullp I conn W' st = Some (Goes_On, W'', st1) \<and> pool_netbuf W'' = pool_netbuf W \<and> fifo_contents q = [] \<and>
     udp_dataprocess_round rd wr shut st1 =
       (case handle_packet rd wr shut m (st\<lparr>netrecv_line := packet_bytes m, recvq := q\<rparr>) of
          None \<Rightarrow> Inl Stuck | Some st' \<Rightarrow> Inr st')"
proof -
  have d: "length (packet_bytes m) + 28 < 65536" using length_packet_bytes [OF assms(18)] by simp
  obtain W' g where W': "ethernet_input nullp I others [p] inp W = Some W'" "pbuf_data g = packet_bytes m"
    "queued all nullp e k buf \<lparr>nb_p = [g], nb_addr = if_ip_addr nif, nb_port = local_port peer\<rparr> W W'"
    using ethernet_input_delivers [OF assms(1-3,5-8) d assms(21,22)] by blast
  have ready: "conn_ready nullp conn e k W'" using W'(3) assms(3,4,9) by (simp add: queued_def conn_ready_def)
  have l: "mbox_list nullp k (rx_qt W') = buf # []" using W'(3) assms(4) by (simp add: queued_def)
  have z: "OSIntNesting (rx_os W') = 0" "OSLockNesting (rx_os W') = 0" "\<not> ERR_IS_FATAL (conn_err (conn_at W' conn))"
    using W'(3) assms(10-12) by (simp_all add: queued_def)
  obtain qt' where r: "netconn_recv nullp conn W' = Some (Some (ERR_OK, buf), W'\<lparr>rx_qt := qt'\<rparr>)"
    using netconn_recv_head [OF ready l z] by blast
  obtain st1 q where s: "recv_pbuf (packet_bytes m) st = Some st1" "fifo_contents q = []"
    "udp_dataprocess_round rd wr shut st1 =
       (case handle_packet rd wr shut m (st\<lparr>netrecv_line := packet_bytes m, recvq := q\<rparr>) of
          None \<Rightarrow> Inl Stuck | Some st' \<Rightarrow> Inr st')"
    using packet_reaches_handler [OF assms(13-20)] by blast
  let ?W = "netbuf_free_rx I buf (W'\<lparr>rx_qt := qt'\<rparr>)"
  have nb: "netbuf_at W' buf = \<lparr>nb_p = [g], nb_addr = if_ip_addr nif, nb_port = local_port peer\<rparr>" "pool_netbuf W' = pool"
    using W'(3) assms(5) by (simp_all add: queued_def)
  have "udp_thread_round nullp I conn W' st = Some (Goes_On, ?W, st1)"
    using r s(1) nb(1) W'(2) by (simp add: udp_thread_round_def)
  moreover have "pool_netbuf ?W = pool_netbuf W"
    using assms(5,6) nb(2) by (simp add: netbuf_free_rx_def low_def memp_free_def)
  ultimately show ?thesis using W'(1) s(2,3) by blast
qed

definition demo_packet :: SendPacket where
  "demo_packet = (packet_of_bytes (replicate 76 0))\<lparr>head1 := 0xAA, head2 := 0xAC\<rparr>"

definition demo_frame :: "u8 list" where
  "demo_frame = udp_frame host_netif host_pcb [2, 0, 0, 0, 0, 2] 7 (packet_bytes demo_packet)"

theorem host_packet_handled_witness:
  "\<exists>W' W'' st1. ethernet_input 9 (recording no_raw) [] [frame_pbuf (demo_frame @ [])] camera_netif camera_rx = Some W' \<and>
     udp_thread_round 9 (recording no_raw) 0 W' demo_boot = Some (Goes_On, W'', st1) \<and> pool_netbuf W'' = pool_netbuf camera_rx \<and>
     udp_dataprocess_round (\<lambda>a e. (0, e)) (\<lambda>a v e. e) (\<lambda>v c. Some (0, c)) st1 \<noteq> Inl Blocked"
proof -
  have m: "packet_wf demo_packet" "head1 demo_packet = 0xAA" "head2 demo_packet = 0xAC"
    using packet_of_bytes_wf [of "replicate 76 0"] by (simp_all add: packet_wf_def demo_packet_def)
  have u: "udp camera_rx = camera_udps" "pool_netbuf camera_rx = [0x24020000, 0x24020020]" "\<not> ERR_IS_FATAL (conn_err (conn_at camera_rx 0))"
    "OSIntNesting (rx_os camera_rx) = 0" "OSLockNesting (rx_os camera_rx) = 0"
    using demo_run by (simp_all add: camera_rx_def ERR_IS_FATAL_def ERR_ISCONN_def)
  have c: "carries host_netif host_pcb demo_frame (packet_bytes demo_packet)"
    unfolding carries_def demo_frame_def by (intro exI [where x = "[2, 0, 0, 0, 0, 2]"] exI [where x = 7]) simp
  have "length demo_frame = 118"
    by (simp add: demo_frame_def udp_frame_def eth_header_def host_netif_def be_bytes_def length_ip_header udp_header_def length_packet_bytes [OF m(1)])
  then have p: "packet 1528 (demo_frame @ []) (frame_pbuf (demo_frame @ []))" by (intro frame_packet) simp
  have raw: "rx_raw_input (recording no_raw) q camera_netif x = (False, x)" for q x by simp
  have ne: "(0x24020000 :: u32) \<noteq> 0" "(0x24020000 :: u32) \<noteq> 9" "1 < q_cap (OSQTbl (rx_qt camera_rx) ! 0)"
    using camera_ready(3) by simp_all
  have "\<exists>W' W'' st1 q. ethernet_input 9 (recording no_raw) [] [frame_pbuf (demo_frame @ [])] camera_netif camera_rx = Some W' \<and>
     udp_thread_round 9 (recording no_raw) 0 W' demo_boot = Some (Goes_On, W'', st1) \<and> pool_netbuf W'' = pool_netbuf camera_rx \<and> fifo_contents q = [] \<and>
     udp_dataprocess_round (\<lambda>a e. (0, e)) (\<lambda>a v e. e) (\<lambda>v c. Some (0, c)) st1 =
       (case handle_packet (\<lambda>a e. (0, e)) (\<lambda>a v e. e) (\<lambda>v c. Some (0, c)) demo_packet (demo_boot\<lparr>netrecv_line := packet_bytes demo_packet, recvq := q\<rparr>) of
          None \<Rightarrow> Inl Stuck | Some st' \<Rightarrow> Inr st')"
    by (rule host_packet_handled [OF camera_ok [folded u(1)] camera_reached [folded u(1)] camera_ready(1,2) u(2) ne(1,2) raw ne(3) u(4,5,3)
        demo_boot_fields(1,3,2,4,5) m c p])
  then show ?thesis by (elim exE conjE) (intro exI conjI, assumption+, simp split: option.split)
qed

end
