(* ===== verification/Lwip_Chksum.thy ===== *)
theory Lwip_Chksum
  imports Lwip_In
begin

text \<open>
  The Internet checksum of lwIP (\<^verbatim>\<open>core/ipv4/inet_chksum.c\<close>): \<^verbatim>\<open>lwip_standard_chksum\<close> in the version that
  \<^verbatim>\<open>LWIP_CHKSUM_ALGORITHM\<close> 2 selects, and the sums over a block and over a chain of packet buffers.
  Whether data begins at an odd address is a parameter.  The reference is the sum of RFC 1071.
\<close>

section \<open>The code\<close>

definition FOLD_U32T :: "u32 \<Rightarrow> u32" where
  "FOLD_U32T u = drop_bit 16 u + (u AND 0xFFFF)"

definition SWAP_BYTES_IN_WORD :: "u32 \<Rightarrow> u32" where
  "SWAP_BYTES_IN_WORD w = push_bit 8 (w AND 0xFF) OR drop_bit 8 (w AND 0xFF00)"

text \<open>The loop over the 16-bit words: the sum and the byte left over.\<close>

fun word_sum :: "u32 \<Rightarrow> u8 list \<Rightarrow> u32 \<times> u8 list" where
  "word_sum acc (lo # hi # bs) = word_sum (acc + ucast (of_le16 lo hi)) bs"
| "word_sum acc bs = (acc, bs)"

text \<open>\<^verbatim>\<open>t\<close> holds the first byte, if its address is odd, as its high byte and the last as its low byte.\<close>

definition lwip_standard_chksum :: "bool \<Rightarrow> u8 list \<Rightarrow> u16" where
  "lwip_standard_chksum at_odd bs =
     (let (first, bs) = (if at_odd \<and> bs \<noteq> [] then (hd bs, tl bs) else (0, bs));
          (sum, rest) = word_sum 0 bs;
          t = of_le16 (if rest \<noteq> [] then hd rest else 0) first;
          sum = FOLD_U32T (FOLD_U32T (sum + ucast t));
          sum = (if at_odd then SWAP_BYTES_IN_WORD sum else sum)
      in ucast sum)"

definition inet_chksum :: "bool \<Rightarrow> u8 list \<Rightarrow> u16" where
  "inet_chksum at_odd bs = NOT (lwip_standard_chksum at_odd bs)"

fun chksum_loop :: "(pbuf \<Rightarrow> bool) \<Rightarrow> u32 \<Rightarrow> bool \<Rightarrow> pbuf list \<Rightarrow> (u32 \<times> bool) option" where
  "chksum_loop at_odd acc swapped [] = Some (acc, swapped)"
| "chksum_loop at_odd acc swapped (q # qs) =
     do {
       bs \<leftarrow> payload_bytes (unat (pb_len q)) q;
       let acc = FOLD_U32T (acc + ucast (lwip_standard_chksum (at_odd q) bs));
       (if odd (unat (pb_len q)) then chksum_loop at_odd (SWAP_BYTES_IN_WORD acc) (\<not> swapped) qs
        else chksum_loop at_odd acc swapped qs)
     }"

definition inet_chksum_pbuf :: "(pbuf \<Rightarrow> bool) \<Rightarrow> pbuf list \<Rightarrow> u16 option" where
  "inet_chksum_pbuf at_odd p =
     do {
       (acc, swapped) \<leftarrow> chksum_loop at_odd 0 False p;
       let acc = (if swapped then SWAP_BYTES_IN_WORD acc else acc);
       Some (ucast (NOT (acc AND 0xFFFF)))
     }"

section \<open>The reference\<close>

text \<open>The sum of the 16-bit words in the order of the processor, padded with a zero byte, and its value in
  one's complement arithmetic.\<close>

fun le_sum :: "u8 list \<Rightarrow> nat" where
  "le_sum [] = 0"
| "le_sum [a] = unat a"
| "le_sum (a # b # bs) = unat a + 256 * unat b + le_sum bs"

definition ones :: "nat \<Rightarrow> nat" where
  "ones n = (if n = 0 then 0 else if n mod 65535 = 0 then 65535 else n mod 65535)"

definition inet_sum :: "u8 list \<Rightarrow> nat" where
  "inet_sum bs = ones (le_sum bs)"

section \<open>One's complement arithmetic\<close>

definition same_sum :: "nat \<Rightarrow> nat \<Rightarrow> bool" where
  "same_sum m n \<longleftrightarrow> m mod 65535 = n mod 65535 \<and> (m = 0 \<longleftrightarrow> n = 0)"

lemma ones_same: "same_sum m n \<Longrightarrow> ones m = ones n"
  by (simp add: ones_def same_sum_def)

lemma same_ones: "same_sum (ones n) n"
  by (auto simp: ones_def same_sum_def)

lemma ones_small: "n \<le> 65535 \<Longrightarrow> ones n = n"
  by (cases "n = 65535 \<or> n = 0") (auto simp: ones_def)

lemma same_refl [simp]: "same_sum n n"
  by (simp add: same_sum_def)

lemma same_sym: "same_sum m n \<Longrightarrow> same_sum n m"
  by (auto simp: same_sum_def)

lemma same_trans: "same_sum l m \<Longrightarrow> same_sum m n \<Longrightarrow> same_sum l n"
  by (simp add: same_sum_def)

lemma same_add: "same_sum k l \<Longrightarrow> same_sum m n \<Longrightarrow> same_sum (k + m) (l + n)"
  by (auto simp: same_sum_def intro: mod_add_cong)

lemma same_mult: "same_sum m n \<Longrightarrow> same_sum (256 * m) (256 * n)"
  by (auto simp: same_sum_def intro: mod_mult_cong)

lemma same_twice: "same_sum (256 * (256 * n)) n"
proof -
  have "256 * (256 * n) = n + 65535 * n" by simp
  then have "256 * (256 * n) mod 65535 = n mod 65535" by (metis mod_mult_self2)
  then show ?thesis unfolding same_sum_def by simp
qed

text \<open>Bytes in front shift the weights.\<close>

lemma le_sum_Cons: "same_sum (le_sum (b # bs)) (unat b + 256 * le_sum bs)"
proof (induction bs arbitrary: b rule: le_sum.induct)
  case (3 c d ds)
  have "same_sum (unat d + 256 * le_sum ds) (256 * (256 * unat d) + 256 * le_sum ds)"
    by (intro same_add same_sym [OF same_twice]) simp
  with 3 have "same_sum (le_sum (d # ds)) (256 * (256 * unat d) + 256 * le_sum ds)" by (rule same_trans)
  then have "same_sum (unat b + 256 * unat c + le_sum (d # ds)) (unat b + 256 * unat c + (256 * (256 * unat d) + 256 * le_sum ds))"
    by (rule same_add [OF same_refl])
  moreover have "unat b + 256 * unat c + (256 * (256 * unat d) + 256 * le_sum ds) = unat b + 256 * le_sum (c # d # ds)" by simp
  ultimately show ?case by (simp only: le_sum.simps(3))
qed simp_all

lemma le_sum_append:
  "same_sum (le_sum (xs @ ys)) (le_sum xs + (if even (length xs) then le_sum ys else 256 * le_sum ys))"
proof (induction xs rule: le_sum.induct)
  case (2 a)
  show ?case using le_sum_Cons [of a ys] by simp
next
  case (3 a b bs)
  then show ?case using same_add [OF same_refl 3, of "unat a + 256 * unat b"] by (simp add: add.assoc)
qed simp

section \<open>The operations on words\<close>

lemma unat_byte16: "unat (ucast (b :: u8) :: u16) = unat b"
  using less_trans [OF unat_u8_bound [of b], of 65536] by (simp add: unsigned_ucast_eq take_bit_eq_mod)

lemma unat_wide: "unat (ucast (b :: u16) :: u32) = unat b"
  using less_trans [OF unat_u16_bound [of b], of 4294967296] by (simp add: unsigned_ucast_eq take_bit_eq_mod)

lemma unat_of_le16: "unat (of_le16 lo hi) = unat lo + 256 * unat hi"
proof -
  have "of_le16 lo hi = ucast lo + push_bit 8 (ucast hi)"
    unfolding of_le16_def by (rule disjunctive_add_eq_or [symmetric], rule bit_word_eqI) (auto simp: bit_and_iff bit_push_bit_iff bit_ucast_iff dest: bit_imp_le_length)
  moreover have "(push_bit 8 (ucast hi) :: u16) = 256 * ucast hi" by (simp add: push_bit_eq_mult)
  moreover have "unat (256 * ucast hi :: u16) = 256 * unat hi"
    using unat_u8_bound [of hi] by (subst unat_mult_no_wrap) (simp_all add: unat_byte16)
  moreover have "256 * unat hi + unat lo < 65536" using unat_u8_bound [of hi] unat_u8_bound [of lo] by linarith
  ultimately show ?thesis by (simp add: unat_byte16) (subst unat_add_no_wrap, simp_all add: unat_byte16)
qed

lemma fold_sum: "unat (FOLD_U32T u) = unat u div 65536 + unat u mod 65536"
proof -
  have "u AND 0xFFFF = take_bit 16 u" by (simp add: take_bit_eq_mask mask_eq_exp_minus_1)
  then have m: "unat (u AND 0xFFFF) = unat u mod 65536" by (simp only: unsigned_take_bit_eq) (simp add: take_bit_eq_mod)
  have d: "unat (drop_bit 16 u) = unat u div 65536" by (simp only: unsigned_drop_bit_eq) (simp add: drop_bit_eq_div take_bit_eq_mod)
  have "unat u div 65536 < 65536" using unat_u32_bound [of u] by (simp add: less_mult_imp_div_less)
  then show ?thesis unfolding FOLD_U32T_def using m d by (subst unat_add_no_wrap) simp_all
qed

lemma fold_same: "same_sum (unat (FOLD_U32T u)) (unat u)"
proof -
  have "unat u = unat u div 65536 * 65536 + unat u mod 65536" by simp
  then have "unat u = unat (FOLD_U32T u) + 65535 * (unat u div 65536)" unfolding fold_sum by linarith
  then have "unat u mod 65535 = unat (FOLD_U32T u) mod 65535" by (metis mod_mult_self2)
  moreover have "unat (FOLD_U32T u) = 0 \<longleftrightarrow> unat u = 0" unfolding fold_sum by (metis \<open>unat u = unat u div 65536 * 65536 + unat u mod 65536\<close> add_eq_0_iff_both_eq_0 div_0 mod_0 mult_0)
  ultimately show ?thesis by (simp add: same_sum_def)
qed

lemma swap_sum:
  assumes "unat w \<le> 65535"
  shows "unat (SWAP_BYTES_IN_WORD w) = 256 * (unat w mod 256) + unat w div 256"
proof -
  have "SWAP_BYTES_IN_WORD w = ucast (of_le16 (ucast (drop_bit 8 w)) (ucast w))"
  proof (rule bit_word_eqI)
    fix n
    have "SWAP_BYTES_IN_WORD w = push_bit 8 (take_bit 8 w) OR take_bit 8 (drop_bit 8 w)"
      by (simp add: SWAP_BYTES_IN_WORD_def take_bit_eq_mask mask_eq_exp_minus_1)
    then show "bit (SWAP_BYTES_IN_WORD w) n \<longleftrightarrow> bit (ucast (of_le16 (ucast (drop_bit 8 w)) (ucast w)) :: u32) n"
      by (auto simp: of_le16_def bit_or_iff bit_take_bit_iff bit_push_bit_iff bit_drop_bit_eq bit_ucast_iff)
  qed
  moreover have "unat (ucast w :: u8) = unat w mod 256" by (simp add: unsigned_ucast_eq take_bit_eq_mod)
  moreover have "unat (drop_bit 8 w) = unat w div 256" by (simp only: unsigned_drop_bit_eq) (simp add: drop_bit_eq_div take_bit_eq_mod)
  then have "unat (ucast (drop_bit 8 w) :: u8) = unat w div 256"
    using assms by (simp only: unsigned_ucast_eq) (simp add: take_bit_eq_mod)
  ultimately show ?thesis by (simp add: unat_of_le16 unat_wide)
qed

lemma swap_same:
  assumes "unat w \<le> 65535"
  shows "same_sum (unat (SWAP_BYTES_IN_WORD w)) (256 * unat w)" "unat (SWAP_BYTES_IN_WORD w) \<le> 65535"
proof -
  define a b where "a = unat w mod 256" and "b = unat w div 256"
  have w: "unat w = a + 256 * b" "a < 256" "b < 256" using assms by (simp_all add: a_def b_def)
  have s: "unat (SWAP_BYTES_IN_WORD w) = 256 * a + b" using swap_sum [OF assms] by (simp add: a_def b_def)
  show "unat (SWAP_BYTES_IN_WORD w) \<le> 65535" using w(2,3) s by simp
  have "same_sum (256 * a + b) (256 * a + 256 * (256 * b))" by (intro same_add same_sym [OF same_twice]) simp
  then show "same_sum (unat (SWAP_BYTES_IN_WORD w)) (256 * unat w)" using s w(1) by (simp add: algebra_simps)
qed

section \<open>A block\<close>

lemma word_sum_ok:
  assumes "unat acc + 65535 * (length bs div 2) < 4294967296" "word_sum acc bs = (tot, rest)"
  shows "unat tot + (if rest = [] then 0 else unat (hd rest)) = unat acc + le_sum bs \<and> unat tot \<le> unat acc + 65535 * (length bs div 2)"
  using assms
proof (induction acc bs rule: word_sum.induct)
  case (1 acc lo hi bs)
  have le: "unat lo + 256 * unat hi \<le> 65535" using unat_u8_bound [of lo] unat_u8_bound [of hi] by linarith
  have "unat (acc + ucast (of_le16 lo hi)) = unat acc + (unat lo + 256 * unat hi)"
    using 1(2) le by (subst unat_add_no_wrap) (simp_all add: unat_wide unat_of_le16)
  with le show ?case using 1 by simp
qed auto

lemma folded_twice: "unat (FOLD_U32T (FOLD_U32T u)) \<le> 65535"
proof -
  define v where "v = unat (FOLD_U32T u)"
  have "unat u div 65536 < 65536" using unat_u32_bound [of u] by (simp add: less_mult_imp_div_less)
  moreover have "unat u mod 65536 < 65536" by simp
  ultimately have "v < 131071" unfolding v_def fold_sum by linarith
  then show ?thesis unfolding fold_sum [of "FOLD_U32T u"] v_def [symmetric] by (cases "v < 65536") (simp_all add: div_if mod_if, linarith)
qed

lemma chksum_block:
  assumes "length bs \<le> 65535"
  shows "unat (lwip_standard_chksum at_odd bs) = inet_sum bs"
proof -
  obtain first cs where c: "(if at_odd \<and> bs \<noteq> [] then (hd bs, tl bs) else (0, bs)) = (first, cs)" by (metis surj_pair)
  obtain tot rest where r: "word_sum 0 cs = (tot, rest)" by (metis surj_pair)
  let ?last = "if rest \<noteq> [] then hd rest else 0"
  let ?s = "tot + ucast (of_le16 ?last first)"
  let ?f = "FOLD_U32T (FOLD_U32T ?s)"
  have "length cs \<le> 65535" using c assms by (auto split: if_splits)
  then have l: "65535 * (length cs div 2) \<le> 65535 * 32767" by (intro mult_le_mono) simp_all
  have w: "unat tot + unat ?last = le_sum cs" "unat tot \<le> 65535 * 32767"
    using word_sum_ok [OF _ r] l by (auto split: if_splits)
  have "unat ?s = unat tot + (unat ?last + 256 * unat first)"
    using w(2) unat_u16_bound [of "of_le16 ?last first"] by (subst unat_add_no_wrap) (simp_all add: unat_wide unat_of_le16)
  then have s: "unat ?s = le_sum cs + 256 * unat first" using w(1) by simp
  have f: "same_sum (unat ?f) (le_sum cs + 256 * unat first)" using same_trans [OF fold_same fold_same] s by metis
  have b: "unat ?f \<le> 65535" by (rule folded_twice)
  let ?r = "if at_odd then SWAP_BYTES_IN_WORD ?f else ?f"
  have "same_sum (unat ?r) (le_sum bs) \<and> unat ?r \<le> 65535"
  proof (cases "at_odd \<and> bs \<noteq> []")
    case True
    then have bs: "bs = first # cs" using c by auto
    have "same_sum (unat ?r) (256 * unat ?f)" using swap_same(1) [OF b] True by simp
    moreover have "same_sum (256 * unat ?f) (256 * (256 * unat first) + 256 * le_sum cs)"
      using same_mult [OF f] by (simp add: algebra_simps)
    moreover have "same_sum (256 * (256 * unat first) + 256 * le_sum cs) (unat first + 256 * le_sum cs)"
      by (intro same_add same_twice) simp
    ultimately have "same_sum (unat ?r) (le_sum bs)" unfolding bs using le_sum_Cons [of first cs] same_sym same_trans by meson
    then show ?thesis using swap_same(2) [OF b] True by simp
  next
    case False
    then have c': "cs = bs" "first = 0" using c by auto
    then have fb: "same_sum (unat ?f) (le_sum bs)" using f by simp
    show ?thesis
    proof (cases at_odd)
      case True
      then have "bs = []" using False by simp
      then have "unat ?f = 0" using fb by (simp add: same_sum_def)
      then show ?thesis using swap_same [OF b] True \<open>bs = []\<close> by (simp add: same_sum_def)
    qed (use fb b in simp)
  qed
  then have "unat ?r = ones (le_sum bs)" using ones_small ones_same by metis
  moreover have "lwip_standard_chksum at_odd bs = ucast ?r" by (simp add: lwip_standard_chksum_def c r Let_def)
  moreover have "unat ?r < 65536" using \<open>same_sum (unat ?r) (le_sum bs) \<and> unat ?r \<le> 65535\<close> by linarith
  ultimately show ?thesis unfolding inet_sum_def by (simp only: unsigned_ucast_eq) (simp add: take_bit_eq_mod)
qed

section \<open>A chain\<close>

definition in_buffer :: "pbuf \<Rightarrow> bool" where
  "in_buffer q \<longleftrightarrow> pb_payload q + unat (pb_len q) \<le> length (pb_mem q)"

lemma in_buffer_data:
  assumes "in_buffer q"
  shows "payload_bytes (unat (pb_len q)) q = Some (pbuf_data q)" "length (pbuf_data q) = unat (pb_len q)"
  using assms by (simp_all add: in_buffer_def payload_bytes_def pbuf_data_def)

text \<open>The sum over the bytes before, shifted if an odd number of them was added.\<close>

definition weighted :: "bool \<Rightarrow> nat \<Rightarrow> nat" where
  "weighted swapped n = (if swapped then 256 * n else n)"

lemma weighted_twice: "same_sum (weighted b (weighted b n)) n"
  unfolding weighted_def by (cases b) (simp_all only: if_True if_False same_twice same_refl)

lemma weighted_same: "same_sum m n \<Longrightarrow> same_sum (weighted b m) (weighted b n)"
  by (simp add: weighted_def same_mult)

lemma weighted_step:
  assumes "same_sum m (weighted (odd (length xs)) (le_sum xs) + le_sum d)"
  shows "same_sum (weighted (odd (length d)) m) (weighted (odd (length (xs @ d))) (le_sum (xs @ d)))"
proof -
  let ?w = weighted
  let ?o = "odd (length xs)"
  have "?w ?o (le_sum xs + ?w ?o (le_sum d)) = ?w ?o (le_sum xs) + ?w ?o (?w ?o (le_sum d))" by (simp add: weighted_def algebra_simps)
  then have "same_sum (?w ?o (le_sum xs + ?w ?o (le_sum d))) (?w ?o (le_sum xs) + le_sum d)"
    using same_add [OF same_refl weighted_twice] by metis
  moreover have "same_sum (?w ?o (le_sum (xs @ d))) (?w ?o (le_sum xs + ?w ?o (le_sum d)))"
    using le_sum_append [of xs d] by (intro weighted_same) (cases "even (length xs)", simp_all add: weighted_def)
  ultimately have m: "same_sum m (?w ?o (le_sum (xs @ d)))" using assms same_sym same_trans by meson
  then have "same_sum (?w (odd (length d)) m) (?w (odd (length d)) (?w ?o (le_sum (xs @ d))))" by (rule weighted_same)
  moreover have "same_sum (?w (odd (length d)) (?w ?o (le_sum (xs @ d)))) (?w (odd (length (xs @ d))) (le_sum (xs @ d)))"
    using same_twice by (auto simp: weighted_def)
  ultimately show ?thesis by (rule same_trans)
qed

lemma chksum_loop_ok:
  assumes "\<forall>q\<in>set p. in_buffer q" "unat acc \<le> 65535" "same_sum (unat acc) (weighted (odd (length xs)) (le_sum xs))"
  shows "\<exists>acc' sw. chksum_loop at_odd acc (odd (length xs)) p = Some (acc', sw) \<and> unat acc' \<le> 65535 \<and>
    sw = odd (length (xs @ concat (map pbuf_data p))) \<and>
    same_sum (unat acc') (weighted sw (le_sum (xs @ concat (map pbuf_data p))))"
  using assms
proof (induction p arbitrary: acc xs)
  case Nil
  then show ?case by simp
next
  case (Cons q qs)
  have q: "in_buffer q" using Cons.prems(1) by simp
  note D = in_buffer_data [OF q]
  let ?d = "pbuf_data q"
  let ?c = "lwip_standard_chksum (at_odd q) ?d"
  have c: "unat ?c = ones (le_sum ?d)" "unat ?c \<le> 65535"
    using chksum_block [of ?d "at_odd q"] D(2) unat_u16_bound [of "pb_len q"] unat_u16_bound [of ?c] by (simp_all add: inet_sum_def)
  let ?f = "FOLD_U32T (acc + ucast ?c)"
  have s: "unat (acc + ucast ?c) = unat acc + unat ?c"
    using Cons.prems(2) c(2) by (subst unat_add_no_wrap) (simp_all add: unat_wide)
  have "unat acc + unat ?c < 131071" using Cons.prems(2) c(2) by linarith
  then have f: "unat ?f \<le> 65535" unfolding fold_sum s by (cases "unat acc + unat ?c < 65536") (simp_all add: div_if mod_if, linarith)
  have "same_sum (unat acc + unat ?c) (weighted (odd (length xs)) (le_sum xs) + le_sum ?d)"
    using same_add [OF Cons.prems(3) same_ones] c(1) by simp
  then have "same_sum (unat ?f) (weighted (odd (length xs)) (le_sum xs) + le_sum ?d)" using same_trans [OF fold_same] s by metis
  note W = weighted_step [OF this]
  show ?case
  proof (cases "odd (unat (pb_len q))")
    case True
    have "same_sum (unat (SWAP_BYTES_IN_WORD ?f)) (weighted (odd (length (xs @ ?d))) (le_sum (xs @ ?d)))"
      using same_trans [OF swap_same(1) [OF f]] W True D(2) by (simp add: weighted_def)
    from Cons.IH [OF _ swap_same(2) [OF f] this] show ?thesis using Cons.prems(1) D True by simp
  next
    case False
    have "same_sum (unat ?f) (weighted (odd (length (xs @ ?d))) (le_sum (xs @ ?d)))" using W False D(2) by (simp add: weighted_def)
    from Cons.IH [OF _ f this] show ?thesis using Cons.prems(1) D False by simp
  qed
qed

lemma chksum_chain:
  assumes "\<forall>q\<in>set p. in_buffer q"
  shows "inet_chksum_pbuf at_odd p = Some (NOT (of_nat (inet_sum (concat (map pbuf_data p)))))"
proof -
  let ?d = "concat (map pbuf_data p)"
  obtain acc sw where l: "chksum_loop at_odd 0 False p = Some (acc, sw)" "unat acc \<le> 65535" "same_sum (unat acc) (weighted sw (le_sum ?d))"
    using chksum_loop_ok [OF assms, of 0 "[]" at_odd] by (auto simp: weighted_def)
  let ?r = "if sw then SWAP_BYTES_IN_WORD acc else acc"
  have "same_sum (unat ?r) (weighted sw (unat acc)) \<and> unat ?r \<le> 65535" using swap_same [OF l(2)] l(2) by (simp add: weighted_def)
  moreover have "same_sum (weighted sw (unat acc)) (le_sum ?d)" using same_trans [OF weighted_same [OF l(3)] weighted_twice] .
  ultimately have "unat ?r = inet_sum ?d" unfolding inet_sum_def using ones_small ones_same same_trans by metis
  then have "ucast ?r = (of_nat (inet_sum ?d) :: u16)" by (metis of_nat_unat)
  moreover have "ucast (NOT (?r AND 0xFFFF)) = (NOT (ucast ?r) :: u16)"
  proof -
    have "?r AND 0xFFFF = take_bit 16 ?r" by (simp add: take_bit_eq_mask mask_eq_exp_minus_1)
    then show ?thesis by (simp only:) (rule bit_word_eqI, simp add: bit_ucast_iff bit_not_iff bit_take_bit_iff)
  qed
  ultimately show ?thesis using l(1) by (simp add: inet_chksum_pbuf_def)
qed

text \<open>C12: Over a chain of buffers, cut wherever and at even or odd addresses, inet_chksum_pbuf
  returns the complement of the sum of RFC 1071 over its bytes.\<close>

theorem inet_chksum_pbuf_sum:
  assumes "\<forall>q\<in>set p. in_buffer q"
  shows "inet_chksum_pbuf at_odd p = Some (NOT (of_nat (inet_sum (concat (map pbuf_data p)))))"
  by (rule chksum_chain [OF assms])

theorem inet_chksum_pbuf_sum_witness:
  "inet_chksum_pbuf (\<lambda>q. pb_payload q = 1)
     [\<lparr>pb_mem = [9, 1, 2, 3], pb_payload = 1, pb_len = 3, pb_tot_len = 5\<rparr>, \<lparr>pb_mem = [4, 5], pb_payload = 0, pb_len = 2, pb_tot_len = 2\<rparr>] =
   Some (NOT 0x0609)"
  using inet_chksum_pbuf_sum [of "[\<lparr>pb_mem = [9, 1, 2, 3], pb_payload = 1, pb_len = 3, pb_tot_len = 5\<rparr>, \<lparr>pb_mem = [4, 5], pb_payload = 0, pb_len = 2, pb_tot_len = 2\<rparr>]" "\<lambda>q. pb_payload q = 1"]
  by (simp add: in_buffer_def pbuf_data_def inet_sum_def ones_def)

section \<open>A checksum in its field\<close>

lemma le_sum_even: "even (length xs) \<Longrightarrow> le_sum (xs @ ys) = le_sum xs + le_sum ys"
  by (induction xs rule: le_sum.induct) simp_all

lemma unat_lo_hi: "unat (lo8 c) + 256 * unat (hi8 c) = unat c"
  using unat_of_le16 [of "lo8 c" "hi8 c"] by (simp add: lo8_def hi8_def of_le16_le16)

lemma unat_complement: "unat (NOT w) = 65535 - unat w" for w :: u16
proof -
  have m: "unat (0xFFFF :: u16) = 65535" by simp
  then have "unat w \<le> unat (0xFFFF :: u16)" using unat_u16_bound [of w] by linarith
  then have "unat (0xFFFF - w) = 65535 - unat w" using m by (simp add: unat_sub_le)
  moreover have "NOT w = 0xFFFF - w" by (simp add: not_eq_complement)
  ultimately show ?thesis by simp
qed

lemma inet_sum_less: "inet_sum bs < 65536"
proof -
  have "le_sum bs mod 65535 < 65535" by simp
  then have "le_sum bs mod 65535 < 65536" by linarith
  then show ?thesis by (simp add: inet_sum_def ones_def)
qed

lemma chksum_zero: "NOT (of_nat (inet_sum bs)) = (0 :: u16) \<longleftrightarrow> inet_sum bs = 65535"
proof -
  have "unat (NOT (of_nat (inet_sum bs)) :: u16) = 65535 - inet_sum bs"
    using inet_sum_less [of bs] by (simp only: unat_complement) (simp add: unat_of_nat_small)
  then have "(NOT (of_nat (inet_sum bs)) :: u16) = 0 \<longleftrightarrow> 65535 - inet_sum bs = 0" by (metis unat_eq_zero unat_0)
  then show ?thesis using inet_sum_less [of bs] by linarith
qed

text \<open>The checksum computed with its field at zero and stored there makes the sum of the whole \<^verbatim>\<open>0xFFFF\<close>.\<close>

lemma chksum_stored:
  assumes "even (length xs)" "c = inet_chksum at_odd (xs @ 0 # 0 # ys)" "length (xs @ 0 # 0 # ys) \<le> 65535"
  shows "inet_sum (xs @ lo8 c # hi8 c # ys) = 65535"
proof -
  let ?n = "le_sum xs + le_sum ys"
  have "unat (lwip_standard_chksum at_odd (xs @ 0 # 0 # ys)) = ones ?n"
    using chksum_block [OF assms(3)] assms(1) by (simp add: inet_sum_def le_sum_even)
  then have c: "unat c = 65535 - ones ?n" unfolding assms(2) inet_chksum_def unat_complement by simp
  have "le_sum (xs @ lo8 c # hi8 c # ys) = ?n + unat c" using assms(1) unat_lo_hi [of c] by (simp add: le_sum_even)
  moreover have "ones (?n + (65535 - ones ?n)) = 65535"
  proof -
    have o: "ones ?n \<le> 65535" using inet_sum_less [of "xs @ ys"] assms(1) by (simp add: inet_sum_def le_sum_even)
    then have "same_sum (?n + (65535 - ones ?n)) (ones ?n + (65535 - ones ?n))" by (intro same_add same_sym [OF same_ones]) simp
    then have "ones (?n + (65535 - ones ?n)) = ones 65535" using o by (intro ones_same) simp
    then show ?thesis by (simp add: ones_def)
  qed
  ultimately show ?thesis using c by (simp add: inet_sum_def)
qed

end
