(* ===== verification/Lwip_Icmp.thy ===== *)
theory Lwip_Icmp
  imports Lwip_Chksum Lwip_Arp
begin

text \<open>
  ICMP (\<^verbatim>\<open>core/ipv4/icmp.c\<close>) on both paths: an echo request is answered in the buffer it came in, a datagram
  nobody wants is reported with its first bytes.  The state is that of the send path (record \<^verbatim>\<open>netconn\<close>), of
  which only \<^verbatim>\<open>ip_id\<close> and the parts below are used.  A write behind the end of a buffer has no value.
\<close>

section \<open>Sending\<close>

definition ICMP_ER :: u8 where "ICMP_ER = 0"
definition ICMP_DUR :: u8 where "ICMP_DUR = 3"
definition ICMP_ECHO :: u8 where "ICMP_ECHO = 8"
definition ICMP_TTL :: u8 where "ICMP_TTL = 255"
definition ICMP_DEST_UNREACH_DATASIZE :: nat where "ICMP_DEST_UNREACH_DATASIZE = 8"
definition SIZEOF_ICMP_ECHO_HDR :: nat where "SIZEOF_ICMP_ECHO_HDR = 8"

definition poke_at :: "nat \<Rightarrow> u8 list \<Rightarrow> pbuf \<Rightarrow> pbuf option" where
  "poke_at i bs p = (if i + length bs \<le> length (pb_mem p) then Some ((poke bs (p\<lparr>pb_payload := i\<rparr>))\<lparr>pb_payload := pb_payload p\<rparr>) else None)"

text \<open>\<^verbatim>\<open>ip_output_if\<close> with \<^verbatim>\<open>IP_HDRINCL\<close> as destination: the header is in the packet.\<close>

definition ip_output_hdrincl :: "'n lwip \<Rightarrow> netif \<Rightarrow> pbuf list \<Rightarrow> 'n \<Rightarrow> (int \<times> pbuf list \<times> 'n) option" where
  "ip_output_hdrincl L nif q n =
     do {
       iphdr \<leftarrow> payload_bytes 20 (hd q);
       let dest = ip_at iphdr 16;
       Some (if if_mtu nif \<noteq> 0 \<and> if_mtu nif < pb_tot_len (hd q) then ip_frag L q dest n else etharp_output L nif q dest n)
     }"

section \<open>pbuf_copy\<close>

text \<open>Into a buffer of one piece.\<close>

fun copy_loop :: "u16 \<Rightarrow> pbuf \<Rightarrow> pbuf list \<Rightarrow> (int \<times> pbuf) option" where
  "copy_loop off q [] = Some (ERR_OK, q)"
| "copy_loop off q (f # fs) =
     (let fits = pb_len f \<le> pb_len q - off;
          len = (if fits then pb_len f else pb_len q - off)
      in do {
           bs \<leftarrow> payload_bytes (unat len) f;
           q \<leftarrow> poke_at (pb_payload q + unat off) bs q;
           let off = off + len;
           (if \<not> fits then Some (ERR_ARG, q)
            else if off = pb_len q \<and> fs \<noteq> [] then Some (ERR_ARG, q)
            else if fs \<noteq> [] \<and> pb_len (hd fs) = pb_tot_len (hd fs) \<and> tl fs \<noteq> [] then Some (ERR_VAL, q)
            else copy_loop off q fs)
         })"

definition pbuf_copy :: "pbuf \<Rightarrow> pbuf list \<Rightarrow> (int \<times> pbuf) option" where
  "pbuf_copy q p = (if pb_tot_len q < pb_tot_len (hd p) then Some (ERR_ARG, q) else copy_loop 0 q p)"

section \<open>icmp_input\<close>

text \<open>The buffer in which the answer is made: the request's own when the headers have room before the ICMP header,
  otherwise a new one (the flag) with a copy.  When the copy fails the new buffer is not given back.\<close>

definition echo_room :: "'n lwip \<Rightarrow> ('n netconn) rx_par \<Rightarrow> nat \<Rightarrow> pbuf list \<Rightarrow> 'n netconn \<Rightarrow>
    ((pbuf list \<times> bool) option \<times> pbuf list \<times> 'n netconn) option" where
  "echo_room L I hlen p x =
     (case pbuf_header (hd p) (int (PBUF_IP_HLEN + PBUF_LINK_HLEN)) of (r, h) \<Rightarrow>
        let p = h # tl p in
        if r \<noteq> 0 then
          (case pbuf_header (hd p) (int hlen) of (r, h) \<Rightarrow>
             let p = h # tl p in
             if r \<noteq> 0 then Some (None, p, x)
             else (case pbuf_alloc_ram L PBUF_LINK_HLEN (pb_tot_len (hd p)) (below x) of
                     (None, n) \<Rightarrow> Some (None, p, x\<lparr>below := n\<rparr>)
                   | (Some q, n) \<Rightarrow>
                       do {
                         let x = x\<lparr>below := n\<rparr>;
                         (err, q) \<leftarrow> pbuf_copy q p;
                         (if err \<noteq> ERR_OK then Some (None, p, x)
                          else (case pbuf_header q (- int hlen) of (r, q) \<Rightarrow>
                                  if r \<noteq> 0 then Some (None, p, x)
                                  else Some (Some ([q], True), [], rx_pbuf_free I p x)))
                       }))
        else (case pbuf_header (hd p) (- int (PBUF_IP_HLEN + PBUF_LINK_HLEN)) of (r, h) \<Rightarrow>
                let p = h # tl p in
                if r \<noteq> 0 then Some (None, p, x) else Some (Some (p, False), [], x)))"

text \<open>The answer, made and sent.  \<^verbatim>\<open>CHECKSUM_GEN_ICMP\<close> and \<^verbatim>\<open>CHECKSUM_GEN_IP\<close> are 0: both fields are cleared for the
  hardware to fill.\<close>

definition echo_turn :: "nat \<Rightarrow> u32 \<Rightarrow> u32 \<Rightarrow> pbuf \<Rightarrow> pbuf option" where
  "echo_turn hlen src dst p =
     (let iphdr = pb_payload p - hlen;
          iecho = pb_payload p
      in do {
           p \<leftarrow> poke_at (iphdr + 12) (ip_bytes dst) p;
           p \<leftarrow> poke_at (iphdr + 16) (ip_bytes src) p;
           p \<leftarrow> poke_at iecho [ICMP_ER] p;
           p \<leftarrow> poke_at (iecho + 2) [0, 0] p;
           p \<leftarrow> poke_at (iphdr + 8) [ICMP_TTL] p;
           poke_at (iphdr + 10) [0, 0] p
         })"

definition echo_reply :: "'n lwip \<Rightarrow> netif \<Rightarrow> nat \<Rightarrow> u32 \<Rightarrow> u32 \<Rightarrow> pbuf list \<Rightarrow> 'n netconn \<Rightarrow> (pbuf list \<times> 'n netconn) option" where
  "echo_reply L inp hlen src dst p x =
     do {
       h \<leftarrow> echo_turn hlen src dst (hd p);
       (case pbuf_header h (int hlen) of (r, h) \<Rightarrow>
          if r \<noteq> 0 then Some (h # tl p, x)
          else do {
                 (err, p, n) \<leftarrow> ip_output_hdrincl L inp (h # tl p) (below x);
                 Some (p, x\<lparr>below := n\<rparr>)
               })
     }"

definition icmp_echo :: "'n lwip \<Rightarrow> (pbuf \<Rightarrow> bool) \<Rightarrow> ('n netconn) rx_par \<Rightarrow> netif \<Rightarrow> nat \<Rightarrow> u32 \<Rightarrow> u32 \<Rightarrow> pbuf list \<Rightarrow>
    'n netconn \<Rightarrow> 'n netconn option" where
  "icmp_echo L at_odd I inp hlen src dst p x =
     (if ip_addr_ismulticast dst \<or> ip4_addr_isbroadcast dst inp then Some (rx_pbuf_free I p x)
      else if unat (pb_tot_len (hd p)) < SIZEOF_ICMP_ECHO_HDR then Some (rx_pbuf_free I p x)
      else do {
        chksum \<leftarrow> inet_chksum_pbuf at_odd p;
        (if chksum \<noteq> 0 then Some (rx_pbuf_free I p x)
         else do {
           (r, p, x) \<leftarrow> echo_room L I hlen p x;
           (case r of
              None \<Rightarrow> Some (rx_pbuf_free I p x)
            | Some (p, fresh) \<Rightarrow>
                do {
                  (p, x) \<leftarrow> echo_reply L inp hlen src dst p x;
                  Some (if fresh then x\<lparr>below := mem_free L (hd p) (below x)\<rparr> else rx_pbuf_free I p x)
                })
         })
      })"

text \<open>\<^verbatim>\<open>ip_input\<close> sets \<^verbatim>\<open>current_iphdr_src\<close> and \<^verbatim>\<open>current_iphdr_dest\<close> from the header of the packet.\<close>

definition icmp_input :: "'n lwip \<Rightarrow> (pbuf \<Rightarrow> bool) \<Rightarrow> ('n netconn) rx_par \<Rightarrow> pbuf list \<Rightarrow> netif \<Rightarrow> 'n netconn \<Rightarrow> 'n netconn option" where
  "icmp_input L at_odd I p inp x =
     do {
       iphdr \<leftarrow> payload_bytes 20 (hd p);
       let hlen = unat (iphdr ! 0 AND 0x0F) * 4;
       let (r, h) = pbuf_header (hd p) (- int hlen);
       let p = h # tl p;
       (if r \<noteq> 0 \<or> unat (pb_tot_len h) < 4 then Some (rx_pbuf_free I p x)
        else do {
          b \<leftarrow> payload_bytes 1 h;
          (if b ! 0 = ICMP_ECHO then icmp_echo L at_odd I inp hlen (ip_at iphdr 12) (ip_at iphdr 16) p x
           else Some (rx_pbuf_free I p x))
        })
     }"

section \<open>Unreachable destinations\<close>

text \<open>The message in its buffer: header, the first bytes of the packet, and the checksum over both.\<close>

definition icmp_message :: "(pbuf \<Rightarrow> bool) \<Rightarrow> u8 \<Rightarrow> u8 \<Rightarrow> u8 list \<Rightarrow> pbuf \<Rightarrow> pbuf option" where
  "icmp_message at_odd type code bs q =
     do {
       q \<leftarrow> payload_copy ([type, code, 0, 0, 0, 0, 0, 0] @ bs) q;
       m \<leftarrow> payload_bytes (unat (pb_len q)) q;
       let c = inet_chksum (at_odd q) m;
       poke_at (pb_payload q + 2) [lo8 c, hi8 c] q
     }"

definition icmp_send_response :: "'n lwip \<Rightarrow> (pbuf \<Rightarrow> bool) \<Rightarrow> netif \<Rightarrow> pbuf list \<Rightarrow> u8 \<Rightarrow> u8 \<Rightarrow> 'n netconn \<Rightarrow> 'n netconn option" where
  "icmp_send_response L at_odd nif p type code x =
     (case pbuf_alloc_ram L PBUF_IP (of_nat (SIZEOF_ICMP_ECHO_HDR + IP_HLEN + ICMP_DEST_UNREACH_DATASIZE)) (below x) of
        (None, n) \<Rightarrow> Some (x\<lparr>below := n\<rparr>)
      | (Some q, n) \<Rightarrow>
          do {
            bs \<leftarrow> payload_bytes (IP_HLEN + ICMP_DEST_UNREACH_DATASIZE) (hd p);
            q \<leftarrow> icmp_message at_odd type code bs q;
            let dest = ip_at bs 12;
            let x = x\<lparr>below := n\<rparr>;
            let (q, x) = (case ip_route nif dest of
                            None \<Rightarrow> ([q], x)
                          | Some nif \<Rightarrow> (case ip_output_if L nif [q] 0 dest ICMP_TTL 0 IP_PROTO_ICMP x of (_, q, x) \<Rightarrow> (q, x)));
            Some (x\<lparr>below := mem_free L (hd q) (below x)\<rparr>)
          })"

definition icmp_dest_unreach :: "'n lwip \<Rightarrow> (pbuf \<Rightarrow> bool) \<Rightarrow> netif \<Rightarrow> pbuf list \<Rightarrow> u8 \<Rightarrow> 'n netconn \<Rightarrow> 'n netconn option" where
  "icmp_dest_unreach L at_odd nif p t x = icmp_send_response L at_odd nif p ICMP_DUR t x"

text \<open>The receive path with these as its ICMP functions.\<close>

definition with_icmp :: "'n lwip \<Rightarrow> (pbuf \<Rightarrow> bool) \<Rightarrow> netif \<Rightarrow> ('n netconn) rx_par \<Rightarrow> ('n netconn) rx_par" where
  "with_icmp L at_odd nif I =
     I\<lparr>rx_icmp_input := \<lambda>p inp x. case icmp_input L at_odd I p inp x of Some x' \<Rightarrow> x' | None \<Rightarrow> x,
       rx_dest_unreach := \<lambda>p c x. case icmp_dest_unreach L at_odd nif p c x of Some x' \<Rightarrow> x' | None \<Rightarrow> x\<rparr>"

section \<open>The answer to an echo request\<close>

lemma poke_at_parts:
  assumes "pb_mem q = A @ B @ C" "length A = i" "length bs = length B"
  shows "poke_at i bs q = Some (q\<lparr>pb_mem := A @ bs @ C\<rparr>)"
  using assms by (simp add: poke_at_def poke_def)

lemma header_restored:
  assumes "34 \<le> pb_payload q" "unat (pb_len q) + 34 < 65536"
  shows "\<exists>h. pbuf_header q (int 34) = (0, h) \<and> pbuf_header h (- int 34) = (0, q)"
proof -
  have "unat (pb_len q + 34) = unat (pb_len q) + 34" using assms(2) by (subst unat_add_no_wrap) simp_all
  then have "34 \<le> uint (pb_len q + 34)" by (simp only: uint_nat)
  then show ?thesis using assms(1) by (simp add: pbuf_header_def)
qed

lemma echo_room_same:
  assumes "34 \<le> pb_payload q" "unat (pb_len q) + 34 < 65536"
  shows "echo_room L I hlen (q # qs) x = Some (Some (q # qs, False), [], x)"
  using header_restored [OF assms] by (auto simp: echo_room_def PBUF_IP_HLEN_def PBUF_LINK_HLEN_def)

lemma ip_header_parts:
  "ip_header n ident tos ttl proto src dst =
     [0x45, tos] @ be_bytes n @ be_bytes ident @ [0, 0] @ [ttl] @ [proto] @ [0, 0] @ ip_bytes src @ ip_bytes dst"
  by (simp add: ip_header_def)

lemma be_ip_len: "length (be_bytes n) = 2" "length (ip_bytes a) = 4"
  by (simp_all add: be_bytes_def ip_bytes_def)

lemma reply_written:
  assumes mem: "pb_mem q = pre @ ip_header n ident tos ttl IP_PROTO_ICMP src dst @ [ty, code, k0, k1] @ rest"
    and pl: "pb_payload q = length pre + 20"
  shows "echo_turn 20 src dst q = Some (q\<lparr>pb_mem := pre @ ip_header n ident tos ICMP_TTL IP_PROTO_ICMP dst src @ [ICMP_ER, code, 0, 0] @ rest\<rparr>)"
proof -
  let ?front = "pre @ [0x45, tos] @ be_bytes n @ be_bytes ident @ [0, 0]"
  have i: "pb_payload q - 20 + k = length pre + k" for k using pl by simp
  have j: "pb_payload q + 2 = length pre + 22" using pl by simp
  have "poke_at (length pre + 12) (ip_bytes dst) q =
      Some (q\<lparr>pb_mem := (?front @ [ttl] @ [IP_PROTO_ICMP] @ [0, 0]) @ ip_bytes dst @ (ip_bytes dst @ [ty, code, k0, k1] @ rest)\<rparr>)"
    by (rule poke_at_parts [where B = "ip_bytes src"]) (simp_all add: mem ip_header_parts be_ip_len)
  moreover have "poke_at (length pre + 16) (ip_bytes src) (q\<lparr>pb_mem := (?front @ [ttl] @ [IP_PROTO_ICMP] @ [0, 0]) @ ip_bytes dst @ (ip_bytes dst @ [ty, code, k0, k1] @ rest)\<rparr>) =
      Some (q\<lparr>pb_mem := (?front @ [ttl] @ [IP_PROTO_ICMP] @ [0, 0] @ ip_bytes dst) @ ip_bytes src @ ([ty, code, k0, k1] @ rest)\<rparr>)"
    by (subst poke_at_parts [where A = "?front @ [ttl] @ [IP_PROTO_ICMP] @ [0, 0] @ ip_bytes dst" and B = "ip_bytes dst"]) (simp_all add: be_ip_len)
  moreover have "poke_at (length pre + 20) [ICMP_ER] (q\<lparr>pb_mem := (?front @ [ttl] @ [IP_PROTO_ICMP] @ [0, 0] @ ip_bytes dst) @ ip_bytes src @ ([ty, code, k0, k1] @ rest)\<rparr>) =
      Some (q\<lparr>pb_mem := (?front @ [ttl] @ [IP_PROTO_ICMP] @ [0, 0] @ ip_bytes dst @ ip_bytes src) @ [ICMP_ER] @ ([code, k0, k1] @ rest)\<rparr>)"
    by (subst poke_at_parts [where A = "?front @ [ttl] @ [IP_PROTO_ICMP] @ [0, 0] @ ip_bytes dst @ ip_bytes src" and B = "[ty]"]) (simp_all add: be_ip_len)
  moreover have "poke_at (length pre + 22) [0, 0] (q\<lparr>pb_mem := (?front @ [ttl] @ [IP_PROTO_ICMP] @ [0, 0] @ ip_bytes dst @ ip_bytes src) @ [ICMP_ER] @ ([code, k0, k1] @ rest)\<rparr>) =
      Some (q\<lparr>pb_mem := (?front @ [ttl] @ [IP_PROTO_ICMP] @ [0, 0] @ ip_bytes dst @ ip_bytes src @ [ICMP_ER, code]) @ [0, 0] @ rest\<rparr>)"
    by (subst poke_at_parts [where A = "?front @ [ttl] @ [IP_PROTO_ICMP] @ [0, 0] @ ip_bytes dst @ ip_bytes src @ [ICMP_ER, code]" and B = "[k0, k1]"]) (simp_all add: be_ip_len)
  moreover have "poke_at (length pre + 8) [ICMP_TTL] (q\<lparr>pb_mem := (?front @ [ttl] @ [IP_PROTO_ICMP] @ [0, 0] @ ip_bytes dst @ ip_bytes src @ [ICMP_ER, code]) @ [0, 0] @ rest\<rparr>) =
      Some (q\<lparr>pb_mem := ?front @ [ICMP_TTL] @ ([IP_PROTO_ICMP] @ [0, 0] @ ip_bytes dst @ ip_bytes src @ [ICMP_ER, code] @ [0, 0] @ rest)\<rparr>)"
    by (subst poke_at_parts [where A = "?front" and B = "[ttl]"]) (simp_all add: be_ip_len)
  moreover have "poke_at (length pre + 10) [0, 0] (q\<lparr>pb_mem := ?front @ [ICMP_TTL] @ ([IP_PROTO_ICMP] @ [0, 0] @ ip_bytes dst @ ip_bytes src @ [ICMP_ER, code] @ [0, 0] @ rest)\<rparr>) =
      Some (q\<lparr>pb_mem := (?front @ [ICMP_TTL] @ [IP_PROTO_ICMP]) @ [0, 0] @ (ip_bytes dst @ ip_bytes src @ [ICMP_ER, code] @ [0, 0] @ rest)\<rparr>)"
    by (subst poke_at_parts [where A = "?front @ [ICMP_TTL] @ [IP_PROTO_ICMP]" and B = "[0, 0]"]) (simp_all add: be_ip_len)
  ultimately show ?thesis unfolding echo_turn_def Let_def i j unfolding pl by (simp add: ip_header_parts)
qed

definition ping_reply :: "netif \<Rightarrow> u8 list \<Rightarrow> u16 \<Rightarrow> u16 \<Rightarrow> u8 \<Rightarrow> u32 \<Rightarrow> u32 \<Rightarrow> u8 list \<Rightarrow> u8 list" where
  "ping_reply nif mac n ident tos src dst m =
     eth_header nif mac @ ip_header n ident tos ICMP_TTL IP_PROTO_ICMP src dst @ [ICMP_ER, m ! 1, 0, 0] @ drop 4 m"

lemma data_middle:
  "pb_mem q = pre @ f @ post \<Longrightarrow> pb_payload q = length pre \<Longrightarrow> unat (pb_len q) = length f \<Longrightarrow> pbuf_data q = f"
  by (simp add: pbuf_data_def)

lemma echo_reply_ok:
  assumes L: "link_ok L inp pcb frames up" and m: "m = [ty, code, k0, k1] @ body" "length m + 20 \<le> 1500"
    and mem: "pb_mem q = pre @ ip_header n ident tos ttl IP_PROTO_ICMP (remote_ip pcb) dst @ m @ post"
    and q: "pb_payload q = length pre + 20" "14 \<le> length pre" "unat (pb_len q) = length m" "pb_tot_len q = pb_len q"
    and up: "up b j (below x)"
  shows "\<exists>mac p' x'. length mac = 6 \<and> echo_reply L inp 20 (remote_ip pcb) dst [q] x = Some (p', x') \<and>
     frames (below x') = frames (below x) @ [ping_reply inp mac n ident tos dst (remote_ip pcb) m]"
proof -
  let ?h = "ip_header n ident tos ICMP_TTL IP_PROTO_ICMP dst (remote_ip pcb)"
  let ?m = "[ICMP_ER, code, 0, 0] @ body"
  let ?q = "q\<lparr>pb_mem := pre @ ?h @ ?m @ post\<rparr>"
  have mem': "pb_mem q = pre @ ip_header n ident tos ttl IP_PROTO_ICMP (remote_ip pcb) dst @ [ty, code, k0, k1] @ (body @ post)"
    using mem m(1) by simp
  note w = reply_written [OF mem' q(1)]
  have l: "unat (pb_len q + 20) = length m + 20" using m(2) q(3) by (subst unat_add_no_wrap) simp_all
  let ?g = "?q\<lparr>pb_payload := length pre, pb_len := pb_len q + 20, pb_tot_len := pb_len q + 20\<rparr>"
  have g: "pbuf_header ?q (int 20) = (0, ?g)" using q(1,4) by (simp add: pbuf_header_def)
  have d: "pbuf_data ?g = ?h @ ?m" by (rule data_middle [of _ pre _ post]) (use l m(1) in \<open>simp_all add: length_ip_header\<close>)
  have wf: "pb_wf ?g" "unat (pb_len ?g) + 14 < 65536" "14 \<le> pb_payload ?g"
    using l m q(2) by (simp_all add: pb_wf_def length_ip_header)
  obtain mac n' where o: "length mac = 6" "etharp_output L inp [?g] (remote_ip pcb) (below x) = (ERR_OK, [push (eth_header inp mac) ?g], n')"
    "frames n' = frames (below x) @ [eth_header inp mac @ pbuf_data ?g @ concat (map pbuf_data [])]"
    using etharp_output_ok [OF L wf(3,1,2) up, of "[]"] by blast
  have b: "payload_bytes 20 ?g = Some ?h" by (simp add: payload_bytes_def length_ip_header)
  have "if_mtu inp = 1500" by (rule link_nif(2) [OF L])
  then have "\<not> if_mtu inp < pb_tot_len ?g" using l m(2) by (simp add: word_less_nat_alt)
  then have "ip_output_hdrincl L inp [?g] (below x) = Some (ERR_OK, [push (eth_header inp mac) ?g], n')"
    using b o(2) ip_header_fields(7) [OF refl, of n ident tos ICMP_TTL IP_PROTO_ICMP dst "remote_ip pcb"]
    by (simp add: ip_output_hdrincl_def)
  then have "echo_reply L inp 20 (remote_ip pcb) dst [q] x = Some ([push (eth_header inp mac) ?g], x\<lparr>below := n'\<rparr>)"
    using w g by (simp add: echo_reply_def)
  then show ?thesis using o(1,3) d m(1) by (auto simp: ping_reply_def)
qed

text \<open>The ICMP messages that are answered.\<close>

definition ping_ok :: "netif \<Rightarrow> u32 \<Rightarrow> u8 list \<Rightarrow> bool" where
  "ping_ok inp dst m \<longleftrightarrow> 8 \<le> length m \<and> hd m = ICMP_ECHO \<and> inet_sum m = 65535 \<and>
     \<not> ip_addr_ismulticast dst \<and> \<not> ip4_addr_isbroadcast dst inp"

text \<open>The packet is given back once; before that an answer goes out if the message asks for one.\<close>

definition ping_done :: "('n netconn) rx_par \<Rightarrow> ('n \<Rightarrow> u8 list list) \<Rightarrow> u8 list list \<Rightarrow> 'n netconn \<Rightarrow> 'n netconn \<Rightarrow> bool" where
  "ping_done I frames out x x' \<longleftrightarrow>
     (\<exists>p y. x' = rx_pbuf_free I p y \<and> frames (below y) = frames (below x) @ out \<and> (out = [] \<longrightarrow> y = x))"

lemma packet_parts:
  assumes "packet room f q"
  obtains pre post where "pb_mem q = pre @ f @ post" "length pre = pb_payload q"
proof -
  have "pb_mem q = take (pb_payload q) (pb_mem q) @ take (length f) (drop (pb_payload q) (pb_mem q)) @ drop (length f) (drop (pb_payload q) (pb_mem q))"
    by (simp only: append_take_drop_id)
  then show thesis using that [of "take (pb_payload q) (pb_mem q)" "drop (length f) (drop (pb_payload q) (pb_mem q))"] assms
    by (simp add: packet_def)
qed

lemma icmp_echo_single:
  assumes L: "link_ok L inp pcb frames up" and up: "up b j (below x)" and n: "length m + 20 \<le> 1500" "4 \<le> length m" "hd m = ICMP_ECHO"
    and q: "packet room m q" "34 \<le> pb_payload q"
    and mem: "pb_mem q = pre @ ip_header k ident tos ttl IP_PROTO_ICMP (remote_ip pcb) dst @ m @ post" "pb_payload q = length pre + 20"
  shows "\<exists>out x'. icmp_echo L at_odd I inp 20 (remote_ip pcb) dst [q] x = Some x' \<and> ping_done I frames out x x' \<and>
     (if ping_ok inp dst m then \<exists>mac. length mac = 6 \<and> out = [ping_reply inp mac k ident tos dst (remote_ip pcb) m] else out = [])"
proof -
  have len: "unat (pb_len q) = length m" "pb_tot_len q = pb_len q" and d: "pbuf_data q = m"
    using q(1) packet_data [OF q(1)] by (simp_all add: packet_def)
  have "in_buffer q" using q(1) by (simp add: packet_def in_buffer_def)
  then have c: "inet_chksum_pbuf at_odd [q] = Some (NOT (of_nat (inet_sum m)))"
    using chksum_chain [of "[q]" at_odd] d by simp
  have drop: "ping_done I frames [] x (rx_pbuf_free I p x)" for p by (auto simp: ping_done_def)
  show ?thesis
  proof (cases "ping_ok inp dst m")
    case False
    then have "icmp_echo L at_odd I inp 20 (remote_ip pcb) dst [q] x = Some (rx_pbuf_free I [q] x)"
      using c len n(3) by (auto simp: icmp_echo_def ping_ok_def SIZEOF_ICMP_ECHO_HDR_def chksum_zero)
    then show ?thesis using False drop by auto
  next
    case True
    then have ok: "8 \<le> length m" "inet_sum m = 65535" "\<not> ip_addr_ismulticast dst" "\<not> ip4_addr_isbroadcast dst inp"
      by (simp_all add: ping_ok_def)
    obtain t m1 where "m = t # m1" using n(2) by (cases m) auto
    moreover obtain cd m2 where "m1 = cd # m2" using calculation n(2) by (cases m1) auto
    moreover obtain k0 m3 where "m2 = k0 # m3" using calculation n(2) by (cases m2) auto
    moreover obtain k1 body where "m3 = k1 # body" using calculation n(2) by (cases m3) auto
    ultimately have m: "m = [t, cd, k0, k1] @ body" by simp
    have room: "echo_room L I 20 [q] x = Some (Some ([q], False), [], x)"
      using echo_room_same [OF q(2), of L I 20 "[]" x] len n(1) by simp
    have "14 \<le> length pre" using q(2) mem(2) by simp
    then obtain mac p' x' where r: "length mac = 6" "echo_reply L inp 20 (remote_ip pcb) dst [q] x = Some (p', x')"
      "frames (below x') = frames (below x) @ [ping_reply inp mac k ident tos dst (remote_ip pcb) m]"
      using echo_reply_ok [OF L m n(1) mem(1,2) _ len up] by blast
    have "icmp_echo L at_odd I inp 20 (remote_ip pcb) dst [q] x = Some (rx_pbuf_free I p' x')"
      using c chksum_zero [of m] ok len room r(2) by (simp add: icmp_echo_def SIZEOF_ICMP_ECHO_HDR_def)
    moreover have "ping_done I frames [ping_reply inp mac k ident tos dst (remote_ip pcb) m] x (rx_pbuf_free I p' x')"
      using r(3) by (auto simp: ping_done_def)
    ultimately show ?thesis using True r(1) by auto
  qed
qed

lemma icmp_input_single:
  assumes L: "link_ok L inp pcb frames up" and up: "up b j (below x)" and n: "length m + 20 \<le> 1500"
    and p: "packet room (ip_header k ident tos ttl IP_PROTO_ICMP (remote_ip pcb) dst @ m) p" "14 \<le> pb_payload p"
  shows "\<exists>out x'. icmp_input L at_odd I [p] inp x = Some x' \<and> ping_done I frames out x x' \<and>
     (if ping_ok inp dst m then \<exists>mac. length mac = 6 \<and> out = [ping_reply inp mac k ident tos dst (remote_ip pcb) m] else out = [])"
proof -
  let ?h = "ip_header k ident tos ttl IP_PROTO_ICMP (remote_ip pcb) dst"
  note H = ip_header_fields [OF refl, of k ident tos ttl IP_PROTO_ICMP "remote_ip pcb" dst]
  obtain pre post where mem: "pb_mem p = pre @ (?h @ m) @ post" "length pre = pb_payload p" by (rule packet_parts [OF p(1)])
  have h: "payload_bytes 20 p = Some ?h" using packet_bytes_take [OF p(1), of 20] H(1) by simp
  obtain q where q: "pbuf_header p (- int 20) = (0, q)" "packet (room - 20) m q" "pb_payload q = pb_payload p + 20"
    using packet_pull [OF p(1), of 20] H(1) by auto
  have qm: "pb_mem q = pre @ ?h @ m @ post" using header_hidden [OF q(1)] mem(1) by simp
  have len: "unat (pb_tot_len q) = length m" using q(2) by (simp add: packet_def)
  have drop: "ping_done I frames [] x (rx_pbuf_free I p x)" for p by (auto simp: ping_done_def)
  show ?thesis
  proof (cases "4 \<le> length m")
    case False
    then have "icmp_input L at_odd I [p] inp x = Some (rx_pbuf_free I [q] x)" "\<not> ping_ok inp dst m"
      using h H(2) q(1) len by (simp_all add: icmp_input_def ping_ok_def)
    then show ?thesis using drop by auto
  next
    case True
    then have b: "payload_bytes 1 q = Some [hd m]" using packet_bytes_take [OF q(2), of 1] by (cases m) auto
    show ?thesis
    proof (cases "hd m = ICMP_ECHO")
      case False
      then have "icmp_input L at_odd I [p] inp x = Some (rx_pbuf_free I [q] x)" "\<not> ping_ok inp dst m"
        using h H(2) q(1) len b True by (simp_all add: icmp_input_def ping_ok_def)
      then show ?thesis using drop by auto
    next
      case e: True
      have "icmp_input L at_odd I [p] inp x = icmp_echo L at_odd I inp 20 (remote_ip pcb) dst [q] x"
        using h H(2) q(1) len b True e H(6,7) by (simp add: icmp_input_def)
      then show ?thesis using icmp_echo_single [OF L up n True e q(2) _ qm] q(3) p(2) mem(2) by simp
    qed
  qed
qed

section \<open>From the wire\<close>

lemma with_icmp_sel [simp]:
  "rx_pbuf_free (with_icmp L at_odd nif I) = rx_pbuf_free I" "rx_raw_input (with_icmp L at_odd nif I) = rx_raw_input I"
  "icmp_input L at_odd I p inp x = Some x' \<Longrightarrow> rx_icmp_input (with_icmp L at_odd nif I) p inp x = x'"
  "icmp_dest_unreach L at_odd nif p c x = Some x' \<Longrightarrow> rx_dest_unreach (with_icmp L at_odd nif I) p c x = x'"
  by (simp_all add: with_icmp_def)

lemma ethernet_to_ip:
  assumes p: "packet room (eth @ f) p" and e: "length eth = 14" "drop 12 eth = ETHTYPE_IP" "if_etharp inp" and f: "f \<noteq> []"
  obtains g where "ethernet_input nullp I others [p] inp W = ip_input nullp I others [g] inp W" "packet (room - 14) f g"
    "pb_payload g = pb_payload p + 14"
proof -
  have len: "14 \<le> length (eth @ f)" "\<not> unat (pb_len p) \<le> 14" using e(1) f p by (auto simp: packet_def)
  have h: "payload_bytes 14 p = Some eth" using packet_bytes_take [OF p len(1)] e(1) by simp
  obtain g where g: "pbuf_header p (- int 14) = (0, g)" "packet (room - 14) f g" "pb_payload g = pb_payload p + 14"
    using packet_pull [OF p len(1)] e(1) by auto
  have "ethernet_input nullp I others [p] inp W = ip_input nullp I others [g] inp W"
    using len(2) h e(2,3) g(1) by (simp add: ethernet_input_def SIZEOF_ETH_HDR_def)
  then show thesis using that g(2,3) by blast
qed

lemma ip_accepts:
  assumes p: "packet room (ip_header (of_nat (length m) + 20) ident tos ttl proto src dst @ m @ pad) p" and n: "length m + 20 < 65536"
    and src: "\<not> ip4_addr_isbroadcast src inp" "\<not> ip_addr_ismulticast src" and acc: "netif_accepts dst inp"
    and raw: "\<And>q x. rx_raw_input I q inp x = (False, x)"
  obtains q where "proto = IP_PROTO_ICMP \<longrightarrow> ip_input nullp I others [p] inp W = Some (low (rx_icmp_input I [q] inp) W)"
    "proto = IP_PROTO_UDP \<longrightarrow> ip_input nullp I others [p] inp W = udp_input nullp I inp src dst [q] W"
    "packet room (ip_header (of_nat (length m) + 20) ident tos ttl proto src dst @ m) q" "pb_payload q = pb_payload p"
proof -
  let ?n = "of_nat (length m) + 20 :: u16"
  let ?h = "ip_header ?n ident tos ttl proto src dst"
  note H = ip_header_fields [OF refl, of ?n ident tos ttl proto src dst]
  have n': "unat ?n = length (?h @ m)"
    using unat_len_plus [of "of_nat (length m)" 20] n H(1) by (simp add: unat_of_nat_small)
  have len: "20 \<le> length (?h @ m @ pad)" "unat ?n \<le> length ((?h @ m) @ pad)" using H(1) n' by simp_all
  have h: "payload_bytes 20 p = Some ?h" using packet_bytes_take [OF p len(1)] H(1) by simp
  have fits: "\<not> unat (pb_len p) < unat (?h ! 0 AND 0x0F) * 4" "\<not> pb_tot_len p < ?n" "drop_bit 4 (?h ! 0) = (4 :: u8)"
    using p len H(2) by (simp_all add: packet_def word_less_nat_alt)
  have p': "packet room ((?h @ m) @ pad) p" using p by simp
  obtain q where q: "pbuf_realloc I ?n [p] W = ([q], W)" "packet room (?h @ m) q" "pb_payload q = pb_payload p"
    using packet_cut [OF p' len(2), of I W] n' by auto
  have h2: "payload_bytes 20 q = Some ?h" using packet_bytes_take [OF q(2), of 20] H(1) by simp
  have "ip_input nullp I others [p] inp W = Some (low (rx_icmp_input I [q] inp) W)" if "proto = IP_PROTO_ICMP"
    using h fits q(1) src acc h2 H(3-7) raw that
    by (simp add: ip_input_def Let_def IP_PROTO_UDP_def IP_PROTO_TCP_def IP_PROTO_ICMP_def low_def)
  moreover have "ip_input nullp I others [p] inp W = udp_input nullp I inp src dst [q] W" if "proto = IP_PROTO_UDP"
    using h fits q(1) src acc h2 H(3-7) raw that by (simp add: ip_input_def Let_def)
  ultimately show thesis using that q(2,3) by blast
qed

text \<open>C10: An ICMP message of at most 1480 bytes for the camera, behind an IP header without options,
  in a frame with any padding, that no raw connection takes: if it is an echo request to the
  camera's own address with a valid checksum, one frame goes back to the sender, while lwIP's
  heap, its pool of netbufs, the ARP cache and the driver have what a send takes (link_ok, shown
  of the repository's heap and cache in Lwip_Link): the request with its addresses exchanged, type
  0, the checksum fields cleared for the hardware and its identification and data unchanged. Any
  other message is only given back.\<close>

theorem ping_answered:
  assumes L: "link_ok L inp pcb frames up" and up: "up b j (below (lower W))"
    and e: "length eth = 14" "drop 12 eth = ETHTYPE_IP" "if_etharp inp"
    and acc: "netif_accepts dst inp" and raw: "\<And>q x. rx_raw_input I q inp x = (False, x)" and n: "length m + 20 \<le> 1500"
    and p: "packet room (eth @ ip_header (of_nat (length m) + 20) ident tos ttl IP_PROTO_ICMP (remote_ip pcb) dst @ m @ pad) p"
  shows "\<exists>out x'. ethernet_input nullp (with_icmp L at_odd nif I) others [p] inp W = Some (W\<lparr>lower := x'\<rparr>) \<and>
     ping_done I frames out (lower W) x' \<and>
     (if ping_ok inp dst m
      then \<exists>mac. length mac = 6 \<and> out = [ping_reply inp mac (of_nat (length m) + 20) ident tos dst (remote_ip pcb) m]
      else out = [])"
proof -
  let ?I = "with_icmp L at_odd nif I"
  have src: "\<not> ip4_addr_isbroadcast (remote_ip pcb) inp" "\<not> ip_addr_ismulticast (remote_ip pcb)" by (rule link_nif(6,7) [OF L])+
  obtain g where g: "ethernet_input nullp ?I others [p] inp W = ip_input nullp ?I others [g] inp W"
    "packet (room - 14) (ip_header (of_nat (length m) + 20) ident tos ttl IP_PROTO_ICMP (remote_ip pcb) dst @ m @ pad) g" "14 \<le> pb_payload g"
    by (rule ethernet_to_ip [OF p e, where nullp = nullp and I = ?I and others = others and W = W]) (auto simp: ip_header_parts)
  have raw': "rx_raw_input ?I q inp x = (False, x)" for q x using raw by simp
  obtain q where q: "ip_input nullp ?I others [g] inp W = Some (low (rx_icmp_input ?I [q] inp) W)"
    "packet (room - 14) (ip_header (of_nat (length m) + 20) ident tos ttl IP_PROTO_ICMP (remote_ip pcb) dst @ m) q" "pb_payload q = pb_payload g"
    by (rule ip_accepts [OF g(2) _ src acc raw', where nullp = nullp and others = others and W = W]) (use n in \<open>auto simp: IP_PROTO_ICMP_def IP_PROTO_UDP_def\<close>)
  obtain out x' where x: "icmp_input L at_odd I [q] inp (lower W) = Some x'" "ping_done I frames out (lower W) x'"
     "if ping_ok inp dst m then \<exists>mac. length mac = 6 \<and> out = [ping_reply inp mac (of_nat (length m) + 20) ident tos dst (remote_ip pcb) m] else out = []"
    using icmp_input_single [OF L up n q(2), of at_odd I] g(3) q(3) by auto
  then have "low (rx_icmp_input ?I [q] inp) W = W\<lparr>lower := x'\<rparr>" by (simp add: low_def)
  then have E: "ethernet_input nullp ?I others [p] inp W = Some (W\<lparr>lower := x'\<rparr>)" using g(1) q(1) by simp
  show ?thesis by (intro exI conjI) (rule E, rule x(2), rule x(3))
qed

section \<open>The report of a closed port\<close>

definition unreach_message :: "u8 \<Rightarrow> u8 \<Rightarrow> u8 list \<Rightarrow> u8 list \<Rightarrow> bool" where
  "unreach_message type code bs m \<longleftrightarrow> (\<exists>k0 k1. m = [type, code, k0, k1, 0, 0, 0, 0] @ bs) \<and> inet_sum m = 65535"

lemma icmp_message_ok:
  assumes q: "pb_payload q + 36 = length (pb_mem q)" "pb_len q = 36" and bs: "length bs = 28"
  shows "\<exists>q' m. icmp_message at_odd type code bs q = Some q' \<and> pbuf_data q' = m \<and> unreach_message type code bs m \<and>
     length (pb_mem q') = length (pb_mem q) \<and> pb_payload q' = pb_payload q \<and> pb_len q' = 36 \<and> pb_tot_len q' = pb_tot_len q"
proof -
  let ?m = "[type, code] @ 0 # 0 # ([0, 0, 0, 0] @ bs)"
  let ?pre = "take (pb_payload q) (pb_mem q)"
  let ?q = "q\<lparr>pb_mem := ?pre @ ?m\<rparr>"
  have pre: "length ?pre = pb_payload q" using q(1) by simp
  have w: "payload_copy ([type, code, 0, 0, 0, 0, 0, 0] @ bs) q = Some ?q"
    using q(1) bs by (simp add: payload_copy_def poke_def)
  have "payload_bytes 36 ?q = Some ?m" using pre bs by (simp add: payload_bytes_def)
  then have m: "payload_bytes (unat (pb_len ?q)) ?q = Some ?m" using q(2) by simp
  define c where "c = inet_chksum (at_odd ?q) ?m"
  let ?r = "?q\<lparr>pb_mem := (?pre @ [type, code]) @ [lo8 c, hi8 c] @ ([0, 0, 0, 0] @ bs)\<rparr>"
  have "poke_at (pb_payload ?q + 2) [lo8 c, hi8 c] ?q = Some ?r"
    by (rule poke_at_parts [where B = "[0, 0]"]) (use pre in simp_all)
  then have r: "icmp_message at_odd type code bs q = Some ?r" using w m by (simp add: icmp_message_def c_def Let_def)
  have s: "inet_sum ([type, code] @ lo8 c # hi8 c # ([0, 0, 0, 0] @ bs)) = 65535"
    by (rule chksum_stored [OF _ c_def]) (use bs in simp_all)
  have d: "pbuf_data ?r = [type, code, lo8 c, hi8 c, 0, 0, 0, 0] @ bs"
    by (rule data_middle [of _ ?pre _ "[]"]) (use pre q(2) bs in simp_all)
  have "unreach_message type code bs (pbuf_data ?r)" unfolding d unreach_message_def using s by simp
  moreover have "length (pb_mem ?r) = length (pb_mem q)" using pre q(1) bs by simp
  ultimately show ?thesis using r q(2) by (intro exI [where x = ?r] exI [where x = "pbuf_data ?r"]) simp
qed

lemma icmp_unreach_ok:
  assumes L: "link_ok L nif pcb frames up" and up: "up b j (below x)" "b < 2" and bs: "payload_bytes 28 p = Some bs" "ip_at bs 12 = remote_ip pcb"
  shows "\<exists>x' mac m. icmp_dest_unreach L at_odd nif [p] c x = Some x' \<and> length mac = 6 \<and> unreach_message ICMP_DUR c bs m \<and>
     frames (below x') = frames (below x) @
       [eth_header nif mac @ ip_header 56 (ip_id x) 0 ICMP_TTL IP_PROTO_ICMP (if_ip_addr nif) (remote_ip pcb) @ m] \<and> up b j (below x')"
proof -
  have len: "length bs = 28" using bs(1) by (auto simp: payload_bytes_def split: if_splits)
  obtain mem n1 where a: "mem_malloc L 88 (below x) = (Some mem, n1)" "length mem = 88" "frames n1 = frames (below x)" "up (Suc b) j n1"
    using link_malloc [OF L up, of 88] by auto
  let ?q = "\<lparr>pb_mem = drop 16 mem, pb_payload = 36, pb_len = 36, pb_tot_len = 36\<rparr>"
  have alloc: "pbuf_alloc_ram L PBUF_IP (of_nat (SIZEOF_ICMP_ECHO_HDR + IP_HLEN + ICMP_DEST_UNREACH_DATASIZE)) (below x) = (Some ?q, n1)"
    using a(1) by (simp add: pbuf_alloc_ram_def PBUF_IP_def PBUF_LINK_HLEN_def PBUF_IP_HLEN_def SIZEOF_ICMP_ECHO_HDR_def IP_HLEN_def
        ICMP_DEST_UNREACH_DATASIZE_def SIZEOF_STRUCT_PBUF_def LWIP_MEM_ALIGN_SIZE_def)
  obtain q m where q: "icmp_message at_odd ICMP_DUR c bs ?q = Some q" "pbuf_data q = m" "unreach_message ICMP_DUR c bs m"
    "length (pb_mem q) = 72" "pb_payload q = 36" "pb_len q = 36" "pb_tot_len q = 36"
    using icmp_message_ok [of ?q bs at_odd ICMP_DUR c] a(2) len by auto
  let ?x = "x\<lparr>below := n1\<rparr>"
  have wf: "pb_wf q" "unat (pb_len q) + 34 < 65536" "unat (pb_tot_len q) + 20 \<le> 1500" "34 \<le> pb_payload q"
    using q(4-7) by (simp_all add: pb_wf_def)
  obtain mac i x' q' where o: "length mac = 6" "i = ip_header 56 (ip_id x) 0 ICMP_TTL IP_PROTO_ICMP (if_ip_addr nif) (remote_ip pcb)"
    "ip_output_if L nif [q] 0 (remote_ip pcb) ICMP_TTL 0 IP_PROTO_ICMP ?x = (ERR_OK, [q'], x')"
    "frames (below x') = frames n1 @ [eth_header nif mac @ i @ m]" "up (Suc b) j (below x')"
    using ip_output_if_ok [OF L wf(4,1-3), of "Suc b" j ?x 0 ICMP_TTL IP_PROTO_ICMP 0 "[]"] q(2,7) a(4) by auto
  have "if_up nif" by (rule link_nif(1) [OF L])
  then have r: "ip_route nif (remote_ip pcb) = Some nif" by (simp add: ip_route_def)
  have bs': "payload_bytes (IP_HLEN + ICMP_DEST_UNREACH_DATASIZE) p = Some bs"
    using bs(1) by (simp add: IP_HLEN_def ICMP_DEST_UNREACH_DATASIZE_def)
  have "icmp_dest_unreach L at_odd nif [p] c x = Some (x'\<lparr>below := mem_free L q' (below x')\<rparr>)"
    using alloc bs' q(1) bs(2) r o(3) by (simp add: icmp_dest_unreach_def icmp_send_response_def)
  moreover have "frames (mem_free L q' (below x')) = frames (below x')" "up b j (mem_free L q' (below x'))"
    using link_free [OF L o(5)] by simp_all
  ultimately show ?thesis using o(1,2,4) a(3) q(3) by auto
qed

lemma header_back:
  assumes "packet room f p" "28 \<le> length f" "pbuf_header p (- int 20) = (0, p1)" "pbuf_header p1 (- int 8) = (0, p2)"
  shows "pbuf_header p2 (int 28) = (0, p)"
  using assms by (auto simp: pbuf_header_def nat_add_distrib split: if_splits)

lemma udp_unreach:
  assumes L: "link_ok L inp pcb frames up" and up: "up b j (below (lower W))" "b < 2" and dst: "\<not> ip4_addr_isbroadcast (if_ip_addr inp) inp" "\<not> ip_addr_ismulticast (if_ip_addr inp)"
    and f: "f = ip_header n ident tos ttl IP_PROTO_UDP (remote_ip pcb) (if_ip_addr inp) @ udp_header sport dport (be_bytes l) @ d"
    and p: "packet room f p" and closed: "udp_chosen inp (remote_ip pcb) sport (if_ip_addr inp) dport (udp W) = None"
  shows "\<exists>mac m y. udp_input nullp (with_icmp L at_odd inp I) inp (remote_ip pcb) (if_ip_addr inp) [p] W = Some (W\<lparr>lower := rx_pbuf_free I [p] y\<rparr>) \<and>
     length mac = 6 \<and> unreach_message ICMP_DUR ICMP_DUR_PORT (take 28 f) m \<and>
     frames (below y) = frames (below (lower W)) @
       [eth_header inp mac @ ip_header 56 (ip_id (lower W)) 0 ICMP_TTL IP_PROTO_ICMP (if_ip_addr inp) (remote_ip pcb) @ m] \<and>
     up b j (below y)"
proof -
  let ?h = "ip_header n ident tos ttl IP_PROTO_UDP (remote_ip pcb) (if_ip_addr inp)"
  let ?u = "udp_header sport dport (be_bytes l)"
  note H = ip_header_fields [OF refl, of n ident tos ttl IP_PROTO_UDP "remote_ip pcb" "if_ip_addr inp"]
  note UH = udp_header_fields [OF refl, of sport dport l]
  have len: "20 \<le> length f" "28 \<le> length f" using H(1) UH(1) by (simp_all add: f)
  have h: "payload_bytes 20 p = Some ?h" using packet_bytes_take [OF p len(1)] H(1) by (simp add: f)
  have long: "\<not> unat (pb_tot_len p) < 20 + UDP_HLEN" using p len by (simp add: packet_def UDP_HLEN_def)
  obtain p1 where p1: "pbuf_header p (- int 20) = (0, p1)" "packet (room - 20) (?u @ d) p1"
    using packet_pull [OF p len(1)] H(1) by (auto simp: f)
  have u: "payload_bytes 8 p1 = Some ?u" using packet_bytes_take [OF p1(2), of 8] UH(1) by simp
  obtain p2 where p2: "pbuf_header p1 (- int 8) = (0, p2)" using packet_pull [OF p1(2), of 8] UH(1) by auto
  have bk: "pbuf_header p2 (int 28) = (0, p)" by (rule header_back [OF p len(2) p1(1) p2])
  have no: "udp_demux inp (remote_ip pcb) sport (if_ip_addr inp) dport (udp W) = (None, udp W)"
    using closed by (auto simp: udp_demux_eq udp_chosen_def Let_def split: option.splits)
  have bs: "payload_bytes 28 p = Some (take 28 f)" "ip_at (take 28 f) 12 = remote_ip pcb"
    using packet_bytes_take [OF p len(2)] H(1,6) by (simp_all add: f ip_at_def nth_append)
  obtain x' mac m where x: "icmp_dest_unreach L at_odd inp [p] ICMP_DUR_PORT (lower W) = Some x'" "length mac = 6"
    "unreach_message ICMP_DUR ICMP_DUR_PORT (take 28 f) m"
    "frames (below x') = frames (below (lower W)) @
       [eth_header inp mac @ ip_header 56 (ip_id (lower W)) 0 ICMP_TTL IP_PROTO_ICMP (if_ip_addr inp) (remote_ip pcb) @ m]" "up b j (below x')"
    using icmp_unreach_ok [OF L up bs, of at_odd ICMP_DUR_PORT] by blast
  have "udp_input nullp (with_icmp L at_odd inp I) inp (remote_ip pcb) (if_ip_addr inp) [p] W = Some (W\<lparr>lower := rx_pbuf_free I [p] x'\<rparr>)"
    unfolding udp_input_def
    using h H(2) long p1(1) u UH p2 no dst bk x(1) by (simp add: Let_def UDP_HLEN_def low_def)
  then show ?thesis using x(2-5) by blast
qed

text \<open>C11: An unfragmented datagram, behind an IP header without options, for a port that no control
  block takes is answered, while lwIP's heap, its pool of netbufs, the ARP cache and the driver
  have what a send takes (link_ok, shown of the repository's heap and cache in Lwip_Link), with
  one ICMP message to its sender, port unreachable, that carries its IP and UDP headers and whose
  checksum holds, and its packet is given back.\<close>

theorem closed_port_reported:
  assumes L: "link_ok L inp pcb frames up" and up: "up b j (below (lower W))" "b < 2"
    and e: "length eth = 14" "drop 12 eth = ETHTYPE_IP" "if_etharp inp"
    and dst: "\<not> ip4_addr_isbroadcast (if_ip_addr inp) inp" "\<not> ip_addr_ismulticast (if_ip_addr inp)"
    and raw: "\<And>q x. rx_raw_input I q inp x = (False, x)" and n: "length d + 28 < 65536"
    and f: "f = ip_header (of_nat (length d) + 28) ident tos ttl IP_PROTO_UDP (remote_ip pcb) (if_ip_addr inp) @ udp_header sport dport (be_bytes l) @ d"
    and p: "packet room (eth @ f @ pad) p" and closed: "udp_chosen inp (remote_ip pcb) sport (if_ip_addr inp) dport (udp W) = None"
  shows "\<exists>mac m q y. ethernet_input nullp (with_icmp L at_odd inp I) others [p] inp W = Some (W\<lparr>lower := rx_pbuf_free I [q] y\<rparr>) \<and>
     length mac = 6 \<and> unreach_message ICMP_DUR ICMP_DUR_PORT (take 28 f) m \<and>
     frames (below y) = frames (below (lower W)) @
       [eth_header inp mac @ ip_header 56 (ip_id (lower W)) 0 ICMP_TTL IP_PROTO_ICMP (if_ip_addr inp) (remote_ip pcb) @ m] \<and>
     up b j (below y)"
proof -
  let ?I = "with_icmp L at_odd inp I"
  let ?m = "udp_header sport dport (be_bytes l) @ d"
  have src: "\<not> ip4_addr_isbroadcast (remote_ip pcb) inp" "\<not> ip_addr_ismulticast (remote_ip pcb)" "if_up inp" by (rule link_nif(6,7,1) [OF L])+
  have acc: "netif_accepts (if_ip_addr inp) inp" using dst(1) src(3) by (auto simp: netif_accepts_def ip4_addr_isbroadcast_def)
  have lm: "of_nat (length d) + 28 = (of_nat (length ?m) + 20 :: u16)" "length ?m + 20 < 65536"
    using n by (simp_all add: udp_header_fields(1) [OF refl])
  obtain g where g: "ethernet_input nullp ?I others [p] inp W = ip_input nullp ?I others [g] inp W" "packet (room - 14) (f @ pad) g"
    by (rule ethernet_to_ip [OF p e, where nullp = nullp and I = ?I and others = others and W = W]) (auto simp: f ip_header_parts)
  have g2: "packet (room - 14) (ip_header (of_nat (length ?m) + 20) ident tos ttl IP_PROTO_UDP (remote_ip pcb) (if_ip_addr inp) @ ?m @ pad) g"
    using g(2) by (simp only: f lm(1) append_assoc)
  have raw': "rx_raw_input ?I q inp x = (False, x)" for q x using raw by simp
  obtain q where q: "ip_input nullp ?I others [g] inp W = udp_input nullp ?I inp (remote_ip pcb) (if_ip_addr inp) [q] W" "packet (room - 14) f q"
    by (rule ip_accepts [OF g2 lm(2) src(1,2) acc raw', where nullp = nullp and others = others and W = W])
      (simp only: f lm(1) simp_thms)
  show ?thesis using udp_unreach [OF L up dst f q(2) closed, of nullp at_odd I] g(1) q(1) by auto
qed

end
