(* ===== verification/Lwip_Link.thy ===== *)
theory Lwip_Link
  imports Lwip_Mem Lwip_Icmp Cam_Stream
begin

text \<open>
  The contracts of the senders (\<^verbatim>\<open>link_ok\<close>, \<^verbatim>\<open>sends\<close>) hold of lwIP's own parts: the heap of
  \<^verbatim>\<open>Lwip_Mem\<close> while others hold at most three blocks in it, the pool of two netbufs, the ARP cache of \<^verbatim>\<open>Lwip_Arp\<close>
  with a fresh entry for the peer, and a driver that takes every frame.  What \<^verbatim>\<open>mem_malloc\<close> and \<^verbatim>\<open>etharp_output\<close>
  do when these conditions do not hold is in \<^verbatim>\<open>Lwip_Mem\<close> and \<^verbatim>\<open>Lwip_Arp\<close>.  The concrete runs of the sending
  tasks are on these parts.
\<close>

section \<open>Heap, pool and driver\<close>

text \<open>The blocks a sender holds are kept with the heap, the newest first, as a packet has no address here;
  the bytes of a new block are arbitrary, so they are shown as zeros.\<close>

record board =
  b_heap :: heap
  b_out :: "u16 list"
  b_netbufs :: nat
  b_sent :: "u8 list list"

definition board_lwip :: "board lwip" where
  "board_lwip =
     \<lparr>mem_malloc = (\<lambda>k n. case mem_malloc_heap (of_nat k) (b_heap n) of
         Some (Some a, H) \<Rightarrow> (Some (replicate k 0), n\<lparr>b_heap := H, b_out := of_int (a - 8) # b_out n\<rparr>)
       | Some (None, H) \<Rightarrow> (None, n\<lparr>b_heap := H\<rparr>)
       | None \<Rightarrow> (None, n)),
      mem_free = (\<lambda>_ n. case b_out n of [] \<Rightarrow> n | p # ps \<Rightarrow> n\<lparr>b_heap := mem_free_heap (Some (uint p + 8)) (b_heap n), b_out := ps\<rparr>),
      memp_netbuf = (\<lambda>n. if 0 < b_netbufs n then (True, n\<lparr>b_netbufs := b_netbufs n - 1\<rparr>) else (False, n)),
      memp_free_netbuf = (\<lambda>n. n\<lparr>b_netbufs := b_netbufs n + 1\<rparr>),
      udp_bind_any = (\<lambda>p n. (ERR_OK, p, n)), ip_frag = (\<lambda>q _ n. (ERR_OK, q, n)),
      arp_stable = (\<lambda>_ n. (None, n)), etharp_query = (\<lambda>_ _ n. (ERR_OK, n)),
      linkoutput = (\<lambda>f n. (ERR_OK, n\<lparr>b_sent := b_sent n @ [f]\<rparr>))\<rparr>"

lemma board_sel [simp]:
  "memp_netbuf board_lwip n = (if 0 < b_netbufs n then (True, n\<lparr>b_netbufs := b_netbufs n - 1\<rparr>) else (False, n))"
  "memp_free_netbuf board_lwip n = n\<lparr>b_netbufs := b_netbufs n + 1\<rparr>"
  "linkoutput board_lwip f n = (ERR_OK, n\<lparr>b_sent := b_sent n @ [f]\<rparr>)"
  by (simp_all add: board_lwip_def)

text \<open>The sender holds \<^verbatim>\<open>b\<close> blocks, and all blocks in use are small and few.\<close>

definition heap_has :: "nat \<Rightarrow> board \<Rightarrow> bool" where
  "heap_has b n \<longleftrightarrow> (\<exists>ns. heap_ok (b_heap n) ns \<and> length (b_out n) = b \<and> distinct (b_out n) \<and>
     set (b_out n) \<subseteq> fst ` live_areas (b_heap n) ns \<and> card (live_areas (b_heap n) ns) \<le> 3 + b \<and>
     (\<forall>a\<in>live_areas (b_heap n) ns. snd a < 1620))"

lemma links_total:
  "links H pr (p # ns) q \<Longrightarrow> sum_list (map (\<lambda>a. room H a + 8) (p # ns)) + unat p = unat q"
proof (induction ns arbitrary: p pr)
  case Nil
  then show ?case using room_links [OF Nil] by simp
next
  case (Cons a ns)
  have l: "links H p (a # ns) q" "unat p + 20 \<le> unat a" using Cons.prems by simp_all
  then show ?case using Cons.IH [OF l(1)] room_links [OF Cons.prems] by simp
qed

text \<open>No two free areas are neighbours, so there is at most one more of them than areas in use.\<close>

lemma free_count:
  "successively (\<lambda>p q. \<not> (f p \<and> f q)) ns \<Longrightarrow> length ns \<le> 2 * length (filter (\<lambda>p. \<not> f p) ns) + (if ns \<noteq> [] \<and> f (hd ns) then 1 else 0)"
proof (induction ns)
  case (Cons a ns)
  then show ?case by (cases ns) (auto split: if_splits)
qed simp

lemma ascend_distinct: "sorted_wrt (\<lambda>a b. unat (a :: u16) + 20 \<le> unat b) xs \<Longrightarrow> distinct xs"
  by (induction xs) auto

lemma live_count:
  assumes "links H pr ns q"
  shows "card (live_areas H ns) = length (filter (\<lambda>p. \<not> is_free H p) ns)"
proof -
  have "distinct (ns @ [q])" using links_ascend [OF assms] by (rule ascend_distinct)
  then have d: "distinct (filter (\<lambda>p. \<not> is_free H p) ns)" by simp
  have "live_areas H ns = (\<lambda>p. (p, room H p)) ` set (filter (\<lambda>p. \<not> is_free H p) ns)"
    by (auto simp: live_areas_def)
  then show ?thesis using distinct_card [OF d] by (simp add: card_image inj_on_def)
qed

lemma heap_serves:
  assumes ok: "heap_ok H ns" and few: "card (live_areas H ns) \<le> 4" and small: "\<forall>a\<in>live_areas H ns. snd a < 1620" and k: "k \<le> 1600"
  shows "find (fits H k) ns \<noteq> None"
proof
  assume "find (fits H k) ns = None"
  then have no: "room H p < 1620" if "p \<in> set ns" for p
    using that k small by (cases "is_free H p") (fastforce simp: find_None_iff fits_def live_areas_def)+
  note O = ok [unfolded heap_ok_def]
  have "length ns \<le> 9" using free_count [of "is_free H" ns] live_count [of H 0 ns END] few O by (simp split: if_splits)
  moreover have "sum_list (map (\<lambda>a. room H a + 8) ns) \<le> sum_list (map (\<lambda>_. 1628) ns)"
    using no by (intro sum_list_mono) fastforce
  ultimately have "sum_list (map (\<lambda>a. room H a + 8) ns) < 16000" by (simp add: sum_list_triv)
  moreover obtain p ms where "ns = p # ms" "p = 0" using O by (cases ns) auto
  ultimately show False using links_total [of H 0 p ms END] O by (simp add: unat_END)
qed

lemma board_malloc:
  assumes h: "heap_has b n" and b: "b < 2" and k: "0 < k" "k \<le> 1600"
  shows "\<exists>n'. mem_malloc board_lwip k n = (Some (replicate k 0), n') \<and> heap_has (Suc b) n' \<and> b_netbufs n' = b_netbufs n \<and> b_sent n' = b_sent n"
proof -
  let ?k = "of_nat k :: u16"
  obtain ns where H: "heap_ok (b_heap n) ns" "length (b_out n) = b" "distinct (b_out n)" "set (b_out n) \<subseteq> fst ` live_areas (b_heap n) ns"
    "card (live_areas (b_heap n) ns) \<le> 3 + b" "\<forall>a\<in>live_areas (b_heap n) ns. snd a < 1620" using h unfolding heap_has_def by blast
  have u: "unat ?k = k" using k by (simp add: unat_of_nat)
  then have k0: "?k \<noteq> 0" using k by auto
  have r: "mem_round ?k \<le> 1600" using k mem_round_small [of ?k] u by simp
  have "find (fits (b_heap n) (mem_round ?k)) ns \<noteq> None" using H(5,6) b r by (intro heap_serves [OF H(1)]) simp_all
  then obtain p where "find (fits (b_heap n) (mem_round ?k)) ns = Some p" by blast
  from mem_malloc_some [OF H(1) k0 this] obtain H' ns' c where m: "mem_malloc_heap ?k (b_heap n) = Some (Some (uint p + 8), H')"
    "heap_ok H' ns'" "live_areas H' ns' = insert (p, c) (live_areas (b_heap n) ns)" "c < mem_round ?k + 20" "is_free (b_heap n) p" by blast
  have fresh: "p \<notin> fst ` live_areas (b_heap n) ns" using m(5) by (auto simp: live_areas_def)
  have "finite (live_areas (b_heap n) ns)" by (auto simp: live_areas_def)
  then have "card (live_areas H' ns') \<le> 3 + Suc b" using H(5) by (simp add: m(3) card_insert_if)
  then have "heap_has (Suc b) (n\<lparr>b_heap := H', b_out := p # b_out n\<rparr>)"
    unfolding heap_has_def using m(2-4) H(2-4,6) r fresh by (intro exI [where x = ns']) auto
  moreover have "mem_malloc board_lwip k n = (Some (replicate k 0), n\<lparr>b_heap := H', b_out := p # b_out n\<rparr>)"
    using m(1) by (simp add: board_lwip_def)
  ultimately show ?thesis by auto
qed

lemma board_free:
  assumes h: "heap_has b n"
  shows "heap_has (b - 1) (mem_free board_lwip q n)" "b_netbufs (mem_free board_lwip q n) = b_netbufs n" "b_sent (mem_free board_lwip q n) = b_sent n"
proof -
  obtain ns where H: "heap_ok (b_heap n) ns" "length (b_out n) = b" "distinct (b_out n)" "set (b_out n) \<subseteq> fst ` live_areas (b_heap n) ns"
    "card (live_areas (b_heap n) ns) \<le> 3 + b" "\<forall>a\<in>live_areas (b_heap n) ns. snd a < 1620" using h unfolding heap_has_def by blast
  show "b_netbufs (mem_free board_lwip q n) = b_netbufs n" "b_sent (mem_free board_lwip q n) = b_sent n"
    by (simp_all add: board_lwip_def split: list.split)
  show "heap_has (b - 1) (mem_free board_lwip q n)"
  proof (cases "b_out n")
    case Nil
    then show ?thesis using h H(2) by (simp add: board_lwip_def)
  next
    case (Cons p ps)
    then have p: "p \<in> set ns" "\<not> is_free (b_heap n) p" using H(4) by (auto simp: live_areas_def)
    obtain ns' where F: "heap_ok (mem_free_heap (Some (uint p + 8)) (b_heap n)) ns'"
      "live_areas (mem_free_heap (Some (uint p + 8)) (b_heap n)) ns' = live_areas (b_heap n) ns - {(p, room (b_heap n) p)}"
      using mem_free_ok [OF H(1) p] by blast
    have "(p, room (b_heap n) p) \<in> live_areas (b_heap n) ns" using p by (simp add: live_areas_def)
    then have c: "card (live_areas (b_heap n) ns - {(p, room (b_heap n) p)}) \<le> 3 + (b - 1)"
      using H(2,5) Cons by (auto simp: card_Diff_singleton)
    have "fst ` (live_areas (b_heap n) ns - {(p, room (b_heap n) p)}) = fst ` live_areas (b_heap n) ns - {p}"
      by (auto simp: live_areas_def)
    then have s: "set ps \<subseteq> fst ` (live_areas (b_heap n) ns - {(p, room (b_heap n) p)})" using H(3,4) Cons by auto
    have "mem_free board_lwip q n = n\<lparr>b_heap := mem_free_heap (Some (uint p + 8)) (b_heap n), b_out := ps\<rparr>"
      using Cons by (simp add: board_lwip_def)
    then show ?thesis
      unfolding heap_has_def using F H(2,3,6) Cons c s by (intro exI [where x = ns']) auto
  qed
qed

lemma heap_has_sel [simp]:
  "heap_has b (n\<lparr>b_netbufs := j\<rparr>) = heap_has b n" "heap_has b (n\<lparr>b_sent := fs\<rparr>) = heap_has b n"
  by (simp_all add: heap_has_def)

lemma board_sends: "sends board_lwip b_sent heap_has"
  unfolding sends_def
proof (intro conjI allI impI)
  show "\<exists>bs n'. mem_malloc board_lwip k n = (Some bs, n') \<and> length bs = k \<and> b_sent n' = b_sent n \<and> heap_has 1 n'"
    if "0 < k" "k \<le> 1600" "heap_has 0 n" for k n
    using board_malloc [OF that(3) _ that(1,2)] by auto
  show "b_sent (mem_free board_lwip p n) = b_sent n" "heap_has (b - 1) (mem_free board_lwip p n)" if "heap_has b n" for p b n
    using board_free [OF that] by simp_all
qed simp

section \<open>The contract of the senders\<close>

definition own_lwip :: "netif \<Rightarrow> board arp lwip" where
  "own_lwip nif = arp_lwip board_lwip nif"

definition own_frames :: "board arp \<Rightarrow> u8 list list" where
  "own_frames A = b_sent (arp.dev A)"

text \<open>The cache has a fresh entry for the peer, and heap and pool have what a send takes.\<close>

definition own_up :: "u32 \<Rightarrow> nat \<Rightarrow> nat \<Rightarrow> board arp \<Rightarrow> bool" where
  "own_up ip b j A \<longleftrightarrow> arp_ok A \<and> heap_has b (arp.dev A) \<and> b_netbufs (arp.dev A) + j = 2 \<and>
     (\<exists>i<ARP_TABLE_SIZE. stable_for ip (arp_table A ! i) \<and> ae_ctime (arp_table A ! i) < ARP_AGE_REREQUEST_USED)"

definition peer_ok :: "netif \<Rightarrow> udp_pcb \<Rightarrow> bool" where
  "peer_ok nif pcb \<longleftrightarrow> if_up nif \<and> if_mtu nif = 1500 \<and> length (if_hwaddr nif) = 6 \<and>
     local_port pcb \<noteq> 0 \<and> (local_ip pcb = 0 \<or> local_ip pcb = if_ip_addr nif) \<and>
     \<not> ip4_addr_isbroadcast (remote_ip pcb) nif \<and> \<not> ip_addr_ismulticast (remote_ip pcb) \<and>
     ip_addr_netcmp (remote_ip pcb) (if_ip_addr nif) (if_netmask nif)"

lemma own_sel:
  "mem_malloc (own_lwip nif) k = on_dev (mem_malloc board_lwip k)"
  "mem_free (own_lwip nif) p A = A\<lparr>arp.dev := mem_free board_lwip p (arp.dev A)\<rparr>"
  "memp_netbuf (own_lwip nif) = on_dev (memp_netbuf board_lwip)"
  "memp_free_netbuf (own_lwip nif) A = A\<lparr>arp.dev := memp_free_netbuf board_lwip (arp.dev A)\<rparr>"
  "arp_stable (own_lwip nif) = etharp_stable board_lwip nif"
  "linkoutput (own_lwip nif) f = on_dev (linkoutput board_lwip f)"
  by (simp_all add: own_lwip_def arp_lwip_def)

lemma own_up_dev:
  "own_up ip b j A \<Longrightarrow> heap_has b' n \<Longrightarrow> b_netbufs n + j' = 2 \<Longrightarrow> own_up ip b' j' (A\<lparr>arp.dev := n\<rparr>)"
  by (simp add: own_up_def)

lemma own_malloc:
  assumes "own_up ip b j A" "b < 2" "0 < k" "k \<le> 1600"
  shows "\<exists>bs A'. mem_malloc (own_lwip nif) k A = (Some bs, A') \<and> length bs = k \<and> own_frames A' = own_frames A \<and> own_up ip (Suc b) j A'"
proof -
  have u: "heap_has b (arp.dev A)" "b_netbufs (arp.dev A) + j = 2" using assms(1) by (simp_all add: own_up_def)
  obtain n' where n: "mem_malloc board_lwip k (arp.dev A) = (Some (replicate k 0), n')" "heap_has (Suc b) n'"
    "b_netbufs n' = b_netbufs (arp.dev A)" "b_sent n' = b_sent (arp.dev A)" using board_malloc [OF u(1) assms(2-4)] by blast
  have "own_up ip (Suc b) j (A\<lparr>arp.dev := n'\<rparr>)" using own_up_dev [OF assms(1) n(2)] n(3) u(2) by simp
  then show ?thesis using n by (simp add: own_sel on_dev_def own_frames_def)
qed

lemma own_free:
  assumes "own_up ip (Suc b) j A"
  shows "own_frames (mem_free (own_lwip nif) p A) = own_frames A \<and> own_up ip b j (mem_free (own_lwip nif) p A)"
proof -
  have u: "heap_has (Suc b) (arp.dev A)" "b_netbufs (arp.dev A) + j = 2" using assms by (simp_all add: own_up_def)
  show ?thesis
    using own_up_dev [OF assms, of b "mem_free board_lwip p (arp.dev A)" j] board_free [OF u(1), of p] u(2)
    by (simp add: own_sel own_frames_def)
qed

lemma own_arp:
  assumes "own_up ip b j A"
  shows "\<exists>mac A'. arp_stable (own_lwip nif) ip A = (Some mac, A') \<and> length mac = 6 \<and> own_frames A' = own_frames A \<and> own_up ip b j A'"
proof -
  obtain i where i: "i < ARP_TABLE_SIZE" "stable_for ip (arp_table A ! i)" "ae_ctime (arp_table A ! i) < ARP_AGE_REREQUEST_USED"
    using assms by (auto simp: own_up_def)
  have ok: "arp_ok A" using assms by (simp add: own_up_def)
  have "length (ae_mac (arp_table A ! i)) = 6" using arp_entry [OF ok i(1)] i(2) by (simp add: entry_ok_def stable_for_def)
  moreover have "own_up ip b j (A\<lparr>cached_entry := i\<rparr>)" using assms i(1) by (simp add: own_up_def arp_ok_def)
  ultimately show ?thesis using etharp_stable_some [OF ok i] by (simp add: own_sel own_frames_def)
qed

lemma own_link_ok:
  assumes "peer_ok nif pcb"
  shows "link_ok (own_lwip nif) nif pcb own_frames (own_up (remote_ip pcb))"
  unfolding link_ok_def
proof (intro conjI allI impI)
  note U = own_up_def
  show "\<exists>n'. memp_netbuf (own_lwip nif) A = (True, n') \<and> own_frames n' = own_frames A \<and> own_up (remote_ip pcb) b 1 n'"
    if "own_up (remote_ip pcb) b 0 A" for b A
    using that own_up_dev [OF that, of b "(arp.dev A)\<lparr>b_netbufs := 1\<rparr>" 1] by (simp add: own_sel on_dev_def own_frames_def U)
  show "own_frames (memp_free_netbuf (own_lwip nif) A) = own_frames A"
    "own_up (remote_ip pcb) b 0 (memp_free_netbuf (own_lwip nif) A)" if "own_up (remote_ip pcb) b 1 A" for b A
    using that own_up_dev [OF that, of b "(arp.dev A)\<lparr>b_netbufs := 2\<rparr>" 0] by (simp_all add: own_sel own_frames_def U)
  show "\<exists>n'. linkoutput (own_lwip nif) f A = (ERR_OK, n') \<and> own_frames n' = own_frames A @ [f] \<and> own_up (remote_ip pcb) b j n'"
    if "own_up (remote_ip pcb) b j A" for b j f A
    using that own_up_dev [OF that, of b "(arp.dev A)\<lparr>b_sent := b_sent (arp.dev A) @ [f]\<rparr>" j]
    by (simp add: own_sel on_dev_def own_frames_def U)
qed (use assms own_malloc own_free own_arp in \<open>auto simp: peer_ok_def\<close>)

section \<open>Runs on these parts\<close>

text \<open>The camera's interface, its connection to 192.168.1.115, an empty heap and a cache that knows the peer.\<close>

definition demo_netif :: netif where
  "demo_netif = \<lparr>if_ip_addr = 0x1E01A8C0, if_netmask = 0x00FFFFFF, if_gw = 0x0101A8C0,
     if_hwaddr = [2, 0, 0, 0, 0, 2], if_mtu = 1500, if_up = True, if_broadcast = True, if_etharp = True\<rparr>"

definition demo_pcb :: udp_pcb where
  "demo_pcb = \<lparr>local_ip = 0, local_port = 8088, remote_ip = 0x7301A8C0, remote_port = 8088,
     pcb_ttl = 255, pcb_tos = 0\<rparr>"

definition demo_board :: board where
  "demo_board = \<lparr>b_heap = demo_heap, b_out = [], b_netbufs = 2, b_sent = []\<rparr>"

definition demo_parts :: "board arp" where
  "demo_parts = upd_entry 3 (\<lambda>e. e\<lparr>ae_ip := 0x7301A8C0, ae_netif := True, ae_mac := arp_mac, ae_state := ARP_STABLE\<rparr>) (arp_start demo_board)"

lemma demo_heap_has: "heap_has 0 demo_board"
  using mem_init_ok unfolding heap_has_def demo_board_def demo_heap_def by (intro exI [where x = "[0]"]) simp

lemma demo_parts_up: "own_up (remote_ip demo_pcb) 0 0 demo_parts"
proof -
  have ok: "arp_ok demo_parts"
    unfolding demo_parts_def
    by (rule arp_ok_upd [OF arp_start_ok])
      (simp_all add: entry_ok_def is_stable_def arp_start_def ARP_TABLE_SIZE_def arp_mac_def ARP_MAXAGE_def)
  have "arp_table demo_parts ! 3 = \<lparr>ae_q = None, ae_ip = 0x7301A8C0, ae_netif = True, ae_mac = arp_mac, ae_state = ARP_STABLE, ae_ctime = 0\<rparr>"
    by (simp add: demo_parts_def arp_start_def ARP_TABLE_SIZE_def)
  moreover have "arp.dev demo_parts = demo_board" by (simp add: demo_parts_def arp_start_def)
  ultimately show ?thesis
    using ok demo_heap_has
    by (auto simp: own_up_def demo_board_def demo_pcb_def stable_for_def is_stable_def ARP_TABLE_SIZE_def ARP_AGE_REREQUEST_USED_def
        ARP_MAXAGE_def intro!: exI [where x = 3])
qed

lemma demo_frames: "own_frames demo_parts = []"
  by (simp add: own_frames_def demo_parts_def arp_start_def demo_board_def)

abbreviation demo_lwip :: "board arp lwip" where
  "demo_lwip \<equiv> own_lwip demo_netif"

lemma demo_link_ok: "link_ok demo_lwip demo_netif demo_pcb own_frames (own_up (remote_ip demo_pcb))"
  by (rule own_link_ok)
    (simp add: peer_ok_def demo_netif_def demo_pcb_def ip4_addr_isbroadcast_def ip_addr_ismulticast_def ip_addr_netcmp_def)

definition demo_stream :: "u8 \<Rightarrow> (unit, unit, board arp) cam" where
  "demo_stream md = \<lparr>core = (core demo_cam)\<lparr>jpeg_data_send := 1, jpeg_data_pcsend_flag := md\<rparr>,
     img = img demo_cam, line_buf0 = line_buf0 demo_cam, line_buf1 = line_buf1 demo_cam,
     currentcatch = 2, jpeg_data_len = 0, jpeg_data_ok = 0, ov_frame = 9, dma_on = True, dma_counter = 4096,
     UdpShort = UdpShort_init, conn = \<lparr>last_err = 0, udp_of = Some demo_pcb, ip_id = 0, below = demo_parts\<rparr>,
     conn_freed = False\<rparr>"

abbreviation demo_ready :: "('e, 'c, board arp) cam \<Rightarrow> u8 \<Rightarrow> bool" where
  "demo_ready \<equiv> stream_ready demo_lwip demo_netif demo_pcb own_frames (own_up (remote_ip demo_pcb))"

lemma demo_stream_ready: "demo_ready (demo_stream md) md"
  by (simp add: stream_ready_def demo_link_ok demo_parts_up demo_stream_def demo_cam_def conn_ok_def ERR_IS_FATAL_def
      ERR_ISCONN_def UdpShort_init_def)

lemma demo_stream_layout: "cam_layout (demo_stream md)"
  using demo_cam_layout by (simp add: cam_layout_def cam_regions_def demo_stream_def)

theorem image_stream_aoi_witness:
  "\<exists>st' fs f. imgcamera_round demo_lwip demo_netif
       (0, (demo_stream 3)\<lparr>core := (core (demo_stream 3))\<lparr>para := (para (core (demo_stream 3)))
          \<lparr>aoishowstartyh := 0, aoishowstartyl := 10, aoishowheight := 48\<rparr>\<rparr>\<rparr>) = Some (1, st') \<and>
     length fs = 96 \<and> own_frames (below (conn st')) = fs @ [f]"
proof -
  let ?st = "(demo_stream 3)\<lparr>core := (core (demo_stream 3))\<lparr>para := (para (core (demo_stream 3)))
          \<lparr>aoishowstartyh := 0, aoishowstartyl := 10, aoishowheight := 48\<rparr>\<rparr>\<rparr>"
  have r: "demo_ready ?st 3"
    using demo_stream_ready [of 3] by (simp add: stream_ready_def)
  have c: "catch_pos (currentcatch ?st) 0 = 1" "own_frames (below (conn ?st)) = []" by (simp_all add: demo_stream_def catch_pos_def demo_frames)
  show ?thesis
    using image_stream_aoi [OF r refl refl _ refl, of 0] c by (fastforce simp: be16_def dest: list_all2_lengthD)
qed

theorem image_stream_mode0_malformed_witness:
  "\<exists>st' f0 fs f. imgcamera_round demo_lwip demo_netif (0, demo_stream 0) = Some (1, st') \<and>
     own_frames (below (conn st')) = f0 # fs @ [f] \<and> length fs = 478 \<and> length f0 = 42 + 1296 \<and> length (hd fs) = 42 + 1346"
proof -
  have c: "catch_pos (currentcatch (demo_stream 0)) 0 = 1" "own_frames (below (conn (demo_stream 0))) = []"
    by (simp_all add: demo_stream_def catch_pos_def demo_frames)
  obtain st' f0 fs f where r: "imgcamera_round demo_lwip demo_netif (0, demo_stream 0) = Some (1, st')"
    "own_frames (below (conn st')) = f0 # fs @ [f]"
    "carries demo_netif demo_pcb f0 (image_part (demo_stream 0) (img (demo_stream 0) ! 1 + 32 + ucast (StartY240 (core (demo_stream 0))) * 2592) 0)"
    "list_all2 (\<lambda>f k. \<exists>j. length j = 50 \<and> carries demo_netif demo_pcb f (image_part (demo_stream 0)
        (img (demo_stream 0) ! 1 + 32 + ucast (StartY240 (core (demo_stream 0))) * 2592) k @ j)) fs [2..<480]"
    using image_stream_mode0_malformed [OF demo_stream_ready refl, of 0] unfolding c by auto
  have l: "length fs = 478" using list_all2_lengthD [OF r(4)] by simp
  then have "length (hd fs) = 42 + 1346"
    using list_all2_nthD [OF r(4), of 0] by (cases fs) (auto dest: carries_length [OF demo_link_ok])
  moreover have "length f0 = 42 + 1296" using carries_length [OF demo_link_ok r(3)] by simp
  ultimately show ?thesis using r(1,2) l by blast
qed

lemma concat_replicates: "concat (replicate n (replicate m x)) = replicate (n * m) x"
  by (induction n) (simp_all add: replicate_add)

lemma events_keep:
  fixes st :: "(unit, unit, board arp) cam"
  shows "demo_ready st md \<Longrightarrow> demo_ready (line_event e st) md \<and> demo_ready (frame_event e st) md"
    "conn (line_event e st) = conn st" "conn (frame_event e st) = conn st"
  by (simp_all add: stream_ready_def line_event_def DMA1_Stream1_IRQHandler_def jpeg_dcmi_rx_callback_def frame_event_def
      HAL_DCMI_FrameEventCallback_def jpeg_data_process_def set_bytes_def Let_def)

lemma lines_keep:
  fixes st :: "(unit, unit, board arp) cam"
  shows "demo_ready st md \<Longrightarrow> demo_ready (fold line_event es st) md" "conn (fold line_event es st) = conn st"
  by (induction es arbitrary: st) (simp_all add: events_keep)

theorem frame_streamed_witness:
  "\<exists>pos' st' fs f. imgcamera_round demo_lwip demo_netif
       (0, frame_event (True, replicate 15360 3) (fold line_event (replicate 75 (True, replicate 16384 7)) (demo_stream 1)))
       = Some (pos', st') \<and> own_frames (below (conn st')) = fs @ [f] \<and> length fs = 960 \<and>
     take 1244128 (concat (map (drop 46) fs)) = replicate 1244128 7"
proof -
  let ?es = "replicate 75 (True, replicate 16384 7 :: u8 list)" and ?ds = "replicate 15360 3 :: u8 list"
  let ?st1 = "frame_event (True, ?ds) (fold line_event ?es (demo_stream 1))"
  have h: "currentcatch (demo_stream 1) < 3" "jpeg_data_ok (demo_stream 1) = 0" "jpeg_data_len (demo_stream 1) = 0" "?es \<noteq> []"
    "\<forall>e\<in>set ?es. length (snd e) = 16384" "length ?ds = 4 * 3840" "(3840 :: nat) \<le> 4096" "16384 * length ?es + 4 * 3840 \<le> 2488320"
    "?st1 = frame_event (fst (last ?es), ?ds) (fold line_event ?es (demo_stream 1))"
    by (simp_all add: demo_stream_def)
  have r: "demo_ready ?st1 1" using events_keep(1) [OF lines_keep(1) [OF demo_stream_ready]] by blast
  have c: "own_frames (below (conn ?st1)) = []"
    unfolding events_keep(3) lines_keep(2) by (simp add: demo_stream_def demo_frames)
  have b: "replicate 1244160 7 = concat (map snd ?es) @ take (4 * 3840) (snd (last ?es))"
    by (simp add: concat_replicates take_replicate replicate_add [symmetric])
  obtain pos' st' fs f where s: "imgcamera_round demo_lwip demo_netif (0, ?st1) = Some (pos', st')"
    "own_frames (below (conn st')) = own_frames (below (conn ?st1)) @ fs @ [f]" "length fs = 960"
    "take (length (replicate 1244160 (7 :: u8)) - 32) (concat (map (drop 46) fs)) = take (960 * 1296) (drop 32 (replicate 1244160 7))"
    using frame_streamed [OF demo_stream_layout h r b, of 0] by blast
  then show ?thesis unfolding c by (intro exI conjI) (assumption | simp add: take_replicate)+
qed

section \<open>A host that asks\<close>

definition echo_rx :: "(board arp netconn) rx_par" where
  "echo_rx = \<lparr>rx_pbuf_free = \<lambda>_ x. x, rx_arp_input = \<lambda>_ _ x. x, rx_ip_reass = \<lambda>_ x. (None, x), rx_raw_input = \<lambda>_ _ x. (False, x),
     rx_tcp_input = \<lambda>_ _ x. x, rx_icmp_input = \<lambda>_ _ x. x, rx_dest_unreach = \<lambda>_ _ x. x\<rparr>"

definition echo_state :: "board arp netconn rxs" where
  "echo_state = \<lparr>udp = camera_udps, pool_netbuf = [], netbuf_at = netbuf_at camera_rx, conn_at = conn_at camera_rx,
     rx_os = rx_os camera_rx, rx_qt = rx_qt camera_rx, lower = \<lparr>last_err = 0, udp_of = None, ip_id = 7, below = demo_parts\<rparr>\<rparr>"

definition echo_request :: "u8 list" where
  "echo_request = [8, 0, 0x96, 0xFD, 0, 1, 0, 1, 0x61]"

lemma echo_request_ok: "ping_ok demo_netif (if_ip_addr demo_netif) echo_request"
  by (simp add: ping_ok_def echo_request_def ICMP_ECHO_def inet_sum_def ones_def demo_netif_def ip_addr_ismulticast_def ip4_addr_isbroadcast_def)

lemma host_eth: "length (eth_header host_netif [2, 0, 0, 0, 0, 2]) = 14" "drop 12 (eth_header host_netif [2, 0, 0, 0, 0, 2]) = ETHTYPE_IP"
  by (simp_all add: eth_header_def host_netif_def be_bytes_def ETHTYPE_IP_def hi8_def lo8_def)

lemma demo_accepts: "netif_accepts (if_ip_addr demo_netif) demo_netif" "if_etharp demo_netif"
  "\<not> ip4_addr_isbroadcast (if_ip_addr demo_netif) demo_netif" "\<not> ip_addr_ismulticast (if_ip_addr demo_netif)"
  by (simp_all add: netif_accepts_def demo_netif_def ip4_addr_isbroadcast_def ip_addr_ismulticast_def)

lemma echo_raw: "rx_raw_input echo_rx q inp x = (False, x)"
  by (simp add: echo_rx_def)

lemma echo_up: "own_up (remote_ip demo_pcb) 0 0 (below (lower echo_state))"
  using demo_parts_up by (simp add: echo_state_def)

theorem ping_answered_witness:
  "\<exists>W' mac. ethernet_input 9 (with_icmp demo_lwip (\<lambda>_. True) demo_netif echo_rx) []
       [frame_pbuf (eth_header host_netif [2, 0, 0, 0, 0, 2] @ ip_header 29 5 0 128 IP_PROTO_ICMP 0x7301A8C0 0x1E01A8C0 @ echo_request @ replicate 17 0)]
       demo_netif echo_state = Some W' \<and> length mac = 6 \<and>
     own_frames (below (lower W')) = [eth_header demo_netif mac @ ip_header 29 5 0 255 IP_PROTO_ICMP 0x1E01A8C0 0x7301A8C0 @ [0, 0, 0, 0, 0, 1, 0, 1, 0x61]]"
proof -
  let ?f = "eth_header host_netif [2, 0, 0, 0, 0, 2] @ ip_header 29 5 0 128 IP_PROTO_ICMP 0x7301A8C0 0x1E01A8C0 @ echo_request @ replicate 17 0"
  have a: "remote_ip demo_pcb = 0x7301A8C0" "if_ip_addr demo_netif = 0x1E01A8C0" "of_nat (length echo_request) + 20 = (29 :: u16)"
    "length echo_request + 20 \<le> 1500" "own_frames (below (lower echo_state)) = []"
    by (simp_all add: demo_pcb_def demo_netif_def echo_request_def echo_state_def demo_frames)
  have "packet 1528 ?f (frame_pbuf ?f)" by (rule frame_packet) (simp add: length_ip_header host_eth echo_request_def)
  then have p: "packet 1528 (eth_header host_netif [2, 0, 0, 0, 0, 2] @ ip_header (of_nat (length echo_request) + 20) 5 0 128 IP_PROTO_ICMP (remote_ip demo_pcb)
      (if_ip_addr demo_netif) @ echo_request @ replicate 17 0) (frame_pbuf ?f)" by (simp only: a)
  show ?thesis
    using ping_answered [OF demo_link_ok echo_up host_eth demo_accepts(2,1) echo_raw a(4) p, of 9 "\<lambda>_. True" demo_netif "[]"] echo_request_ok
    unfolding a(1,2,3) by (fastforce simp: ping_done_def a(5) ping_reply_def echo_rx_def ICMP_TTL_def ICMP_ER_def echo_request_def)
qed

theorem closed_port_reported_witness:
  "\<exists>W' m. ethernet_input 9 (with_icmp demo_lwip (\<lambda>_. False) demo_netif echo_rx) []
       [frame_pbuf (eth_header host_netif [2, 0, 0, 0, 0, 2] @ (ip_header 29 5 0 128 IP_PROTO_UDP 0x7301A8C0 0x1E01A8C0 @
          udp_header 5000 9999 (be_bytes 9) @ [1]) @ replicate 17 0)] demo_netif echo_state = Some W' \<and>
     unreach_message 3 3 (ip_header 29 5 0 128 IP_PROTO_UDP 0x7301A8C0 0x1E01A8C0 @ udp_header 5000 9999 (be_bytes 9)) m \<and>
     (\<exists>mac. length mac = 6 \<and> own_frames (below (lower W')) = [eth_header demo_netif mac @ ip_header 56 7 0 255 IP_PROTO_ICMP 0x1E01A8C0 0x7301A8C0 @ m])"
proof -
  let ?d = "ip_header 29 5 0 128 IP_PROTO_UDP 0x7301A8C0 0x1E01A8C0 @ udp_header 5000 9999 (be_bytes 9) @ [1]"
  let ?f = "eth_header host_netif [2, 0, 0, 0, 0, 2] @ ?d @ replicate 17 0"
  have a: "remote_ip demo_pcb = 0x7301A8C0" "if_ip_addr demo_netif = 0x1E01A8C0" "length [1 :: u8] + 28 < 65536"
    "own_frames (below (lower echo_state)) = []" "ip_id (lower echo_state) = 7" "of_nat (length [1 :: u8]) + 28 = (29 :: u16)"
    by (simp_all add: demo_pcb_def demo_netif_def echo_state_def demo_frames)
  have d: "?d = ip_header (of_nat (length [1 :: u8]) + 28) 5 0 128 IP_PROTO_UDP (remote_ip demo_pcb) (if_ip_addr demo_netif) @ udp_header 5000 9999 (be_bytes 9) @ [1]"
    by (simp only: a)
  have p: "packet 1528 ?f (frame_pbuf ?f)" by (rule frame_packet) (simp add: length_ip_header host_eth udp_header_def be_bytes_def)
  have c: "udp_chosen demo_netif (remote_ip demo_pcb) 5000 (if_ip_addr demo_netif) 9999 (udp echo_state) = None"
    by (simp add: udp_chosen_def echo_state_def camera_sel udp_local_match_def Let_def demo_netif_def)
  have t: "take 28 ?d = ip_header 29 5 0 128 IP_PROTO_UDP 0x7301A8C0 0x1E01A8C0 @ udp_header 5000 9999 (be_bytes 9)"
    by (simp add: length_ip_header udp_header_fields(1) [OF refl])
  show ?thesis
    using closed_port_reported [OF demo_link_ok echo_up _ host_eth demo_accepts(2-4) echo_raw a(3) d p c, of 9 "\<lambda>_. False" "[]"]
    unfolding t a(1,2) by (fastforce simp: a(4,5) echo_rx_def ICMP_TTL_def ICMP_DUR_def ICMP_DUR_PORT_def)
qed

theorem arp_resolves_witness:
  "\<exists>q1 A1 q2 A2. etharp_output (arp_lwip board_lwip camera_netif) camera_netif [wire_pbuf 14 [1, 2, 3]] arp_host (arp_start demo_board) = (ERR_OK, q1, A1) \<and>
    own_frames A1 = own_frames (arp_start demo_board) @ [arp_request_frame camera_netif arp_host] \<and>
    own_frames (etharp_arp_input board_lwip (\<lambda>p n. n) camera_netif (wire_pbuf 0 (arp_packet ethbroadcast arp_mac ARP_REPLY arp_mac arp_host
        (if_hwaddr camera_netif) (if_ip_addr camera_netif) @ [0])) A1) =
      own_frames A1 @ [eth_header camera_netif arp_mac @ pbuf_data (wire_pbuf 14 [1, 2, 3])] \<and>
    etharp_output (arp_lwip board_lwip camera_netif) camera_netif [wire_pbuf 16 []] arp_host
      (etharp_arp_input board_lwip (\<lambda>p n. n) camera_netif (wire_pbuf 0 (arp_packet ethbroadcast arp_mac ARP_REPLY arp_mac arp_host
        (if_hwaddr camera_netif) (if_ip_addr camera_netif) @ [0])) A1) = (ERR_OK, q2, A2) \<and>
    own_frames A2 = own_frames (etharp_arp_input board_lwip (\<lambda>p n. n) camera_netif (wire_pbuf 0 (arp_packet ethbroadcast arp_mac ARP_REPLY arp_mac arp_host
        (if_hwaddr camera_netif) (if_ip_addr camera_netif) @ [0])) A1) @ [eth_header camera_netif arp_mac @ pbuf_data (wire_pbuf 16 [])] \<and>
    heap_has 0 (arp.dev A2)"
  unfolding own_frames_def
proof (rule arp_resolves [OF arp_start_ok board_sends camera_on_link(1) arp_start_unknown demo_sendable camera_on_link(2) demo_arp_frame])
  show "length ethbroadcast = 6" "length (if_hwaddr camera_netif) = 6" by (simp_all add: ethbroadcast_def camera_netif_def)
  show "heap_has 0 (arp.dev (arp_start demo_board))" using demo_heap_has by (simp add: arp_start_def)
qed simp

end
