(* ===== verification/Spec2Isabelle.thy ===== *)
theory Spec2Isabelle
  imports Prelude Mem_Pool Mem_Pool_Spec Net_Fifo Net_Mem I2c_Bus At24 Sccb Cam_Sensor Cam_Packet Cam_Params Lwip_Udp Cam_Capture Cam_Stream Cam_Image
    Os_Bitmap Os_Core Os_Inv Os_Kernel Os_Sem Os_Time Os_Calls Os_Tasks Os_Init Os_Run Os_Wake Os_Sizes Os_Props Os_Ring Os_Q Os_Msg
    Lwip_Timers Lwip_Port Lwip_Tcpip Eth_Rx Udp_Pcb Lwip_In Lwip_Arp Lwip_Mem Camera_Net Lwip_Chksum Lwip_Icmp
    Lwip_Link
begin

text \<open>
  NNP-CAMERA: firmware of a network camera on an STM32H7 under uC/OS-II with lwIP 1.4.1.

  \<^bold>\<open>The program.\<close>  The image sensor (MT9P031) fills line buffers by DMA; the capture interrupts
  collect a frame in one of three image buffers.  The task \<^verbatim>\<open>imgcamera_task\<close> cuts the last complete
  frame into UDP datagrams.  A peer sends 76-byte packets; the thread \<^verbatim>\<open>udp_thread\<close> receives them into
  a ring buffer, \<^verbatim>\<open>udp_dataprocess_task\<close> handles them: it changes parameters in memory, in an EEPROM
  (24C02) and in the sensor, and queues answers that \<^verbatim>\<open>udp_send_task\<close> sends.  Memory for the buffers
  comes from the pools of \<^verbatim>\<open>malloc.c\<close>.  The tasks run on uC/OS-II; lwIP runs in its own thread and is
  reached through mailboxes, which are message queues of the kernel.

  \<^bold>\<open>Which theory models what\<close> (sources under \<^verbatim>\<open>src/\<close>).
  \<^item> \<^verbatim>\<open>Prelude\<close>: C integers as words, byte views, facts on words and lists.
  \<^item> \<^verbatim>\<open>Mem_Pool\<close>, \<^verbatim>\<open>Mem_Pool_Spec\<close> (\<^verbatim>\<open>MALLOC/malloc.c\<close>): the tables of the three banks, allocation and
    release over them, and the interface \<^verbatim>\<open>pool_alloc\<close> which the model of \<^verbatim>\<open>malloc.c\<close> interprets.
  \<^item> \<^verbatim>\<open>Net_Fifo\<close>, \<^verbatim>\<open>Net_Mem\<close> (\<^verbatim>\<open>LWIP/lwip_app/udp_demo/udp_demo.c\<close>): the two packet rings (interface
    \<^verbatim>\<open>bounded_queue\<close>, interpreted for both) and the buffers obtained from the allocator.
  \<^item> \<^verbatim>\<open>I2c_Bus\<close>, \<^verbatim>\<open>At24\<close> (\<^verbatim>\<open>HARDWARE/IIC/myiic.c\<close>, \<^verbatim>\<open>HARDWARE/24CXX/24cxx.c\<close>): the master at the level of its pins
    and the EEPROM driver over it (\<^verbatim>\<open>byte_store\<close>, \<^verbatim>\<open>at24_chip\<close>).
  \<^item> \<^verbatim>\<open>Sccb\<close>, \<^verbatim>\<open>Cam_Sensor\<close>, \<^verbatim>\<open>Cam_Image\<close> (\<^verbatim>\<open>HARDWARE/MT9P031D\<close>): the second master, the sensor driver over it
    (\<^verbatim>\<open>reg_port\<close>, \<^verbatim>\<open>sensor_chip\<close>) and the image conversions.
  \<^item> \<^verbatim>\<open>Cam_Packet\<close>, \<^verbatim>\<open>Cam_Params\<close> (\<^verbatim>\<open>udp_demo.h\<close>, \<^verbatim>\<open>udp_demo.c\<close>): the packet, the parameters and every handler,
    over the interfaces of EEPROM and sensor (\<^verbatim>\<open>camera_app\<close>, \<^verbatim>\<open>camera_hw\<close>).
  \<^item> \<^verbatim>\<open>Cam_Capture\<close>, \<^verbatim>\<open>Cam_Stream\<close> (\<^verbatim>\<open>DCMI/dcmi.c\<close>, \<^verbatim>\<open>USER/main.c\<close>, \<^verbatim>\<open>MT9P031D.c\<close>, \<^verbatim>\<open>udp_demo.c\<close>): the interrupts that
    collect a frame and the tasks that send.
  \<^item> \<^verbatim>\<open>Lwip_Udp\<close> (\<^verbatim>\<open>netbuf.c\<close>, \<^verbatim>\<open>pbuf.c\<close>, \<^verbatim>\<open>api_lib.c\<close>, \<^verbatim>\<open>api_msg.c\<close>, \<^verbatim>\<open>udp.c\<close>, \<^verbatim>\<open>ip.c\<close>, \<^verbatim>\<open>etharp.c\<close>): the way of a
    datagram from \<^verbatim>\<open>netconn_send\<close> to the Ethernet driver.
  \<^item> \<^verbatim>\<open>Os_Bitmap\<close> (interface \<^verbatim>\<open>prio_queue\<close>), \<^verbatim>\<open>Os_Core\<close>, \<^verbatim>\<open>Os_Sem\<close>, \<^verbatim>\<open>Os_Time\<close> (\<^verbatim>\<open>UCOSII/uCOS-II/Source\<close>): the kernel's
    tables, scheduler, tick, semaphores, delays and task calls; \<^verbatim>\<open>Os_Inv\<close>, \<^verbatim>\<open>Os_Kernel\<close>, \<^verbatim>\<open>Os_Calls\<close>,
    \<^verbatim>\<open>Os_Tasks\<close>, \<^verbatim>\<open>Os_Wake\<close>: the kernel's invariant and what each call does under it; \<^verbatim>\<open>Os_Init\<close>,
    \<^verbatim>\<open>Os_Run\<close>, \<^verbatim>\<open>Os_Sizes\<close>, \<^verbatim>\<open>Os_Props\<close>: the start, the runs as a step relation, the sizes of the
    tables, and their properties.
  \<^item> \<^verbatim>\<open>Os_Ring\<close> (interface \<^verbatim>\<open>bounded_deque\<close>), \<^verbatim>\<open>Os_Q\<close>, \<^verbatim>\<open>Os_Msg\<close> (\<^verbatim>\<open>os_q.c\<close>): the message queues.
  \<^item> \<^verbatim>\<open>Lwip_Timers\<close> (\<^verbatim>\<open>core/timers.c\<close>), \<^verbatim>\<open>Lwip_Port\<close> (\<^verbatim>\<open>LWIP/arch/sys_arch.c\<close>), \<^verbatim>\<open>Lwip_Tcpip\<close> (\<^verbatim>\<open>api/tcpip.c\<close>,
    \<^verbatim>\<open>core/memp.c\<close>), \<^verbatim>\<open>Eth_Rx\<close> (\<^verbatim>\<open>netif/ethernetif.c\<close>, \<^verbatim>\<open>stm32h7xx_hal_eth.c\<close>, \<^verbatim>\<open>lan8720.c\<close>): lwIP's
    timers, its port to the kernel, its thread and the reception of frames.
  \<^item> \<^verbatim>\<open>Udp_Pcb\<close> (\<^verbatim>\<open>core/udp.c\<close>), \<^verbatim>\<open>Lwip_In\<close> (\<^verbatim>\<open>etharp.c\<close>, \<^verbatim>\<open>ip.c\<close>, \<^verbatim>\<open>udp.c\<close>, \<^verbatim>\<open>api_msg.c\<close>, \<^verbatim>\<open>api_lib.c\<close>): the control
    blocks, and the way of a frame through Ethernet, IP and UDP into the mailbox of a connection and to
    \<^verbatim>\<open>netconn_recv\<close>; \<^verbatim>\<open>Lwip_Arp\<close> (\<^verbatim>\<open>netif/etharp.c\<close>): the ARP cache, on which \<^verbatim>\<open>etharp_output\<close> of the send
    path runs (\<^verbatim>\<open>arp_lwip\<close>); \<^verbatim>\<open>Lwip_Mem\<close> (\<^verbatim>\<open>core/mem.c\<close>): the heap as a list of areas and its clients;
    \<^verbatim>\<open>Camera_Net\<close> (\<^verbatim>\<open>udp_demo.c\<close>): the loop of \<^verbatim>\<open>udp_thread\<close> over the receive path, the way of a packet from the
    wire to its handler.
  \<^item> \<^verbatim>\<open>Lwip_Chksum\<close> (\<^verbatim>\<open>core/ipv4/inet_chksum.c\<close>), \<^verbatim>\<open>Lwip_Icmp\<close> (\<^verbatim>\<open>core/ipv4/icmp.c\<close>): the Internet checksum against the
    sum of RFC 1071, and ICMP on the receive and send paths (\<^verbatim>\<open>with_icmp\<close>).
  \<^item> \<^verbatim>\<open>Lwip_Link\<close>: one device that puts \<^verbatim>\<open>Lwip_Mem\<close>, the pool of two netbufs, \<^verbatim>\<open>Lwip_Arp\<close> and an accepting
    driver together, and keeps the contracts of the send path; the concrete runs of the properties on it.

  \<^bold>\<open>State and effects.\<close>  A function of the source that updates globals is a function on a record of
  these globals.  A null pointer, and in the models of the pools, rings, buffers, packets and images an
  access outside an object, is \<^verbatim>\<open>None\<close>: a theorem there that names the result also says that the code
  stays inside its objects.  The kernel's tables and the ARP cache are lists read and updated by index,
  where an index out of range goes unnoticed; that the kernel's indices are in range is part of its
  invariant (\<^verbatim>\<open>kernel_tables\<close>).  Interrupts are steps between those of the tasks.  A kernel call is one
  step, because it runs in a critical section, and a call that waits is two, split at the scheduler
  (\<^verbatim>\<open>OSSemPend\<close> and \<^verbatim>\<open>OSSemPend_end\<close>).  The tick is one step too, an abstraction: \<^verbatim>\<open>OSTimeTick\<close> enters its
  critical section anew for every task, so a nested interrupt may run between two of them.

  \<^bold>\<open>What is shown.\<close>  Allocator: blocks do not overlap, keep their contents and come back.  Rings and
  message queues: bounded first-in first-out (double-ended) queues.  Buses: what is written is
  read back, on a chip that follows its datasheet.  Parameters: memory and EEPROM agree after any
  packets but for the id and the status, of which the theorems say what each holds, and a restart
  brings back what the EEPROM holds.  Frames: the full transfers of a frame are in the image buffer, in
  order, and are sent; the rest of a frame is lost, as the frame interrupt copies the line buffer that
  the DMA is not filling.  Kernel: the ready task of highest priority runs in every reachable state, the
  bitmaps agree with the tasks, every call returns, a delay ends with its last tick, a post goes to
  the waiting task of highest priority.  lwIP: the list of time differences is a list of due times;
  packets reach the thread once and in order; the frames shown by waiting packets; a datagram of the
  host is received as it was sent, or left lying when it takes the last place of the mailbox; a packet of the host
  reaches its handler; any frame is freed, passed on or kept once; two blocks do not share a port;
  echo requests are answered and closed ports reported; an
  address is resolved, the packet waiting for it is sent, and the cache keeps its invariant; blocks of
  lwIP's heap do not overlap, and released ones are joined again, with 12 bytes granted for sizes above 65532.  Some theorems
  state errors of the code: a message in the mailbox fires the next timer, packets that wait show
  later frames, one buffer reused for 480 sends spoils the datagrams, a sensor setting never returns.

  \<^bold>\<open>Parameters and hypotheses.\<close>  What hangs on the two buses is a parameter, described at the level
  of the chips' datasheets (\<^verbatim>\<open>at24c02\<close>, \<^verbatim>\<open>mt9p031\<close>), with instances for which the hypotheses hold.
  The sensor's writable bits are at least the fields of \<^verbatim>\<open>MT9P031D.h\<close> (\<^verbatim>\<open>settable\<close>).
  lwIP's heap, its ARP functions and the driver below it are the record \<^verbatim>\<open>lwip\<close>.  The theorems on sending hold
  in the states \<^verbatim>\<open>up\<close> in which these have what a send takes (\<^verbatim>\<open>link_ok\<close>, \<^verbatim>\<open>sends\<close>): a heap with room for two blocks of
  1600 bytes, a netbuf, a cache that knows the peer, a driver that takes the frame; \<^verbatim>\<open>own_link_ok\<close> and
  \<^verbatim>\<open>board_sends\<close> of \<^verbatim>\<open>Lwip_Link\<close> show which states of the repository's own heap and cache these are.  The protocols
  beside UDP and the freeing of packets are the record \<^verbatim>\<open>rx_par\<close>; \<^verbatim>\<open>recording\<close> is the one that writes down each
  hand-over, on which \<^verbatim>\<open>every_frame_consumed_once\<close> counts them.  DMA engines are events of
  the environment: \<^verbatim>\<open>line_event\<close> and \<^verbatim>\<open>frame_event\<close> fill the line buffer that the bit CT names, \<^verbatim>\<open>dma_rx\<close> the
  receive ring.  The contract of the mailbox in \<^verbatim>\<open>Lwip_Timers\<close> is that of
  \<^verbatim>\<open>lwip_sys.h\<close>; the port of this repository does not keep it, which \<^verbatim>\<open>Lwip_Port\<close> shows.

  \<^bold>\<open>Bounds and fuel.\<close>  Loops of the source that always end are recursions on their counter.  Loops
  that may not end are partial functions, for which termination is a theorem: the searches of lwIP's
  heap, the register
  writes of the sensor, the readying of all waiting tasks, the wait of lwIP's thread.  The walk
  over the kernel's tasks in \<^verbatim>\<open>tick_loop\<close> goes over the list the code links.  The busy loop of
  \<^verbatim>\<open>sys_mbox_post\<close> takes one step of the environment for each round.

  \<^bold>\<open>Not modelled.\<close>  The HAL and CMSIS but for the receive descriptors; registers of DCMI, DMA,
  timers, displays and memory controllers, whose values the models above do not depend on; of lwIP
  the parts the camera's send and receive paths, port and thread do not reach or only pass packets to
  (TCP, fragmentation, reassembly, DHCP, DNS, sockets, PPP); of uC/OS-II mailboxes, mutexes, event flags, deletion of
  tasks and change of priority; stacks of tasks and their frames; names of tasks and events; USMART,
  uC-LIB and printing.

  \<^bold>\<open>What is left.\<close>  Next would be the reassembly of fragments, the start of the camera's tasks, and the
  task calls of \<^verbatim>\<open>os_task.c\<close> that are missing.
\<close>

end
